(* ===== verification/Maple_Prelude.thy ===== *)
theory Maple_Prelude
  imports Main "HOL-Library.Monad_Syntax"
begin

text \<open>
  Shared material of the development: the collections of facts the component theories
  extend, the fixed-width conversions of C++ integers that the engine relies on, the
  value type of run-time faults, and generic lemmas on option computations, lists and
  maps that several components use.
\<close>

section \<open>Collections of facts\<close>

named_theorems maple_defs \<open>definitions unfolded when a handler is executed symbolically\<close>
named_theorems maple_inv \<open>invariant preservation facts\<close>

section \<open>Faults\<close>

text \<open>
  Run-time faults of the C++ program: a thrown standard exception, an access whose
  behaviour the language leaves undefined, or a call that breaks the rules of an API.
\<close>

datatype fault =
    OutOfRange
  | BadIndex
  | NullDeref
  | Dangling
  | RuntimeError string
  | ApiMisuse string

section \<open>Fixed-width integers\<close>

text \<open>
  Conversion to the signed 16-bit and the unsigned 32-bit type. Arithmetic on
  \<^verbatim>\<open>int16_t\<close> operands is done in \<^verbatim>\<open>int\<close> and converted when stored.
\<close>

definition to_i16 :: "int \<Rightarrow> int" where
  "to_i16 x = (x + 32768) mod 65536 - 32768"

definition to_u32 :: "int \<Rightarrow> int" where
  "to_u32 x = x mod 4294967296"

definition to_i32 :: "int \<Rightarrow> int" where
  "to_i32 x = (x + 2147483648) mod 4294967296 - 2147483648"

definition to_u64 :: "int \<Rightarrow> int" where
  "to_u64 x = x mod 18446744073709551616"

lemma to_i16_id [simp]: "- 32768 \<le> x \<Longrightarrow> x < 32768 \<Longrightarrow> to_i16 x = x"
  by (simp add: to_i16_def)

lemma to_u32_id [simp]: "0 \<le> x \<Longrightarrow> x < 4294967296 \<Longrightarrow> to_u32 x = x"
  by (simp add: to_u32_def)

lemma to_u32_nat: "n < 2 ^ 32 \<Longrightarrow> to_u32 (int n) = int n"
  by (rule to_u32_id) simp_all

lemma to_i32_id [simp]: "- 2147483648 \<le> x \<Longrightarrow> x < 2147483648 \<Longrightarrow> to_i32 x = x"
  by (simp add: to_i32_def)

lemma to_i32_nat: "n < 2 ^ 31 \<Longrightarrow> to_i32 (int n) = int n"
  by (rule to_i32_id) simp_all

lemma to_i16_range: "- 32768 \<le> to_i16 x \<and> to_i16 x < 32768"
  by (simp add: to_i16_def)

lemma to_u32_range: "0 \<le> to_u32 x \<and> to_u32 x < 4294967296"
  by (simp add: to_u32_def)

section \<open>Option computations\<close>

text \<open>A left fold whose step may fail to return.\<close>

fun ofold :: "('a \<Rightarrow> 's \<Rightarrow> 's option) \<Rightarrow> 'a list \<Rightarrow> 's \<Rightarrow> 's option" where
  "ofold f [] s = Some s"
| "ofold f (x # xs) s = Option.bind (f x s) (ofold f xs)"

lemma ofold_append: "ofold f (xs @ ys) s = Option.bind (ofold f xs s) (ofold f ys)"
proof (induction xs arbitrary: s)
  case Nil
  then show ?case by simp
next
  case (Cons x xs)
  then show ?case by (cases "f x s") auto
qed

lemma bind_SomeI: "m = Some x \<Longrightarrow> f x = Some y \<Longrightarrow> Option.bind m f = Some y"
  by simp

section \<open>Computations that may fault or not return\<close>

text \<open>
  A run that does not end is \<open>None\<close>, one that ends in a fault \<open>Some (Inl e)\<close>. \<open>rbind\<close> is the
  sequential composition, \<open>rfold\<close> a loop over a list, \<open>and_also\<close> and \<open>or_else\<close> the
  short-circuit operators on conditions whose evaluation may not end.
\<close>

type_synonym 'a run = "(fault + 'a) option"

definition ret :: "'a \<Rightarrow> 'a run" where
  "ret x = Some (Inr x)"

definition fail :: "fault \<Rightarrow> 'a run" where
  "fail e = Some (Inl e)"

definition rbind :: "'a run \<Rightarrow> ('a \<Rightarrow> 'b run) \<Rightarrow> 'b run" where
  "rbind m f = Option.bind m (\<lambda>r. case r of Inl e \<Rightarrow> Some (Inl e) | Inr x \<Rightarrow> f x)"

fun rfold :: "('a \<Rightarrow> 's \<Rightarrow> 's run) \<Rightarrow> 'a list \<Rightarrow> 's \<Rightarrow> 's run" where
  "rfold f [] s = ret s"
| "rfold f (x # xs) s = rbind (f x s) (rfold f xs)"

definition and_also :: "bool option \<Rightarrow> bool option \<Rightarrow> bool option" where
  "and_also m n = Option.bind m (\<lambda>a. if a then n else Some False)"

definition or_else :: "bool option \<Rightarrow> bool option \<Rightarrow> bool option" where
  "or_else m n = Option.bind m (\<lambda>a. if a then Some True else n)"

lemma rbind_simps [simp]:
  "rbind (ret x) f = f x"
  "rbind (fail e) f = fail e"
  "rbind None f = None"
  by (simp_all add: rbind_def ret_def fail_def)

lemma ret_inject [simp]: "ret x = ret y \<longleftrightarrow> x = y"
  by (simp add: ret_def)

lemma fail_inject [simp]: "fail e = fail e' \<longleftrightarrow> e = e'"
  by (simp add: fail_def)

lemma run_distinct [simp]:
  "ret x \<noteq> fail e" "fail e \<noteq> ret x" "ret x \<noteq> None" "None \<noteq> ret x" "fail e \<noteq> None" "None \<noteq> fail e"
  by (simp_all add: ret_def fail_def)

lemma and_also_Some [simp]: "and_also (Some a) (Some b) = Some (a \<and> b)"
  by (simp add: and_also_def)

lemma or_else_Some [simp]: "or_else (Some a) (Some b) = Some (a \<or> b)"
  by (simp add: or_else_def)

lemma run_cases:
  obtains "m = None" | e where "m = fail e" | x where "m = ret x"
  by (cases m) (auto simp: ret_def fail_def elim: sum.exhaust_sel, metis old.sum.exhaust)

lemma rbind_assoc: "rbind (rbind m f) g = rbind m (\<lambda>x. rbind (f x) g)"
  by (cases m rule: run_cases) simp_all

lemma rfold_append: "rfold f (xs @ ys) s = rbind (rfold f xs s) (rfold f ys)"
proof (induction xs arbitrary: s)
  case (Cons x xs)
  have "rfold f (xs @ ys) = (\<lambda>s. rbind (rfold f xs s) (rfold f ys))" using Cons by (rule ext)
  then show ?case by (simp add: rbind_assoc)
qed simp

lemma rbind_ret_eqD: "rbind m f = ret y \<Longrightarrow> \<exists>x. m = ret x \<and> f x = ret y"
  by (cases m rule: run_cases) simp_all

lemma rbind_mono [partial_function_mono]:
  assumes "mono_option B" and "\<And>y. mono_option (\<lambda>f. C y f)"
  shows "mono_option (\<lambda>f. rbind (B f) (\<lambda>y. C y f))"
  unfolding rbind_def
proof (rule bind_mono [OF assms(1)])
  fix r show "mono_option (\<lambda>f. case r of Inl e \<Rightarrow> Some (Inl e) | Inr x \<Rightarrow> C x f)"
    by (cases r) (auto intro: assms(2) option.const_mono)
qed

text \<open>A loop each of whose rounds establishes a fact that the later rounds keep.\<close>

lemma rfold_establish:
  assumes "\<And>x s. x \<in> set xs \<Longrightarrow> I s \<Longrightarrow> \<exists>s'. f x s = ret s' \<and> I s' \<and> Q x s' \<and> (\<forall>y. Q y s \<longrightarrow> Q y s')"
    and "I s"
  shows "\<exists>s'. rfold f xs s = ret s' \<and> I s' \<and> (\<forall>x\<in>set xs. Q x s') \<and> (\<forall>y. Q y s \<longrightarrow> Q y s')"
  using assms
proof (induction xs arbitrary: s)
  case (Cons x xs)
  obtain s1 where s1: "f x s = ret s1" "I s1" "Q x s1" "\<forall>y. Q y s \<longrightarrow> Q y s1"
    using Cons.prems(1)[of x s] Cons.prems(2) by auto
  obtain s2 where s2: "rfold f xs s1 = ret s2" "I s2" "\<forall>x\<in>set xs. Q x s2" "\<forall>y. Q y s1 \<longrightarrow> Q y s2"
    using Cons.IH[OF Cons.prems(1) s1(2)] by auto
  then show ?case using s1 by auto
qed simp

text \<open>A loop whose rounds keep an invariant or end in the fault \<open>e\<close>, and one that must meet it.\<close>

lemma rfold_safe:
  assumes "\<And>x s. x \<in> set xs \<Longrightarrow> I s \<Longrightarrow> f x s = fail e \<or> (\<exists>s'. f x s = ret s' \<and> I s')" and "I s"
  shows "rfold f xs s = fail e \<or> (\<exists>s'. rfold f xs s = ret s' \<and> I s')"
  using assms
proof (induction xs arbitrary: s)
  case (Cons x xs)
  consider "f x s = fail e" | s' where "f x s = ret s'" "I s'" using Cons.prems(1)[of x s] Cons.prems(2) by auto
  then show ?case
  proof cases
    case (2 s')
    then show ?thesis using Cons.IH[of s'] Cons.prems(1) by simp
  qed simp
qed simp

lemma rfold_fails:
  assumes "\<And>x s. x \<in> set xs \<Longrightarrow> I s \<Longrightarrow> f x s = fail e \<or> (\<exists>s'. f x s = ret s' \<and> I s')" and "I s"
    and "z \<in> set xs" "\<And>s. I s \<Longrightarrow> f z s = fail e"
  shows "rfold f xs s = fail e"
proof -
  obtain us vs where xs: "xs = us @ z # vs" using assms(3) by (meson split_list)
  have "rfold f us s = fail e \<or> (\<exists>s'. rfold f us s = ret s' \<and> I s')"
    by (rule rfold_safe[of us I f e s]) (use assms(1,2) xs in auto)
  then show ?thesis using assms(4) by (auto simp: xs rfold_append)
qed

section \<open>Maps\<close>

lemma dom_Some_iff: "k \<in> dom m \<longleftrightarrow> (\<exists>v. m k = Some v)"
  by (auto simp: dom_def)

lemma dom_eq_by_values:
  assumes "\<And>x. map_option f (m x) = map_option f (m' x)"
  shows "dom m = dom m'"
  unfolding dom_def using assms by (metis map_option_is_None)

end
