(* ===== verification/Quad_Tree_Refine.thy ===== *)
theory Quad_Tree_Refine
  imports Quad_Tree
begin

text \<open>
  Correctness of the linked quad tree of theory \<open>Quad_Tree\<close>: it represents an
  inductive four-way tree (\<open>repr\<close>), every operation returns and keeps that
  representation, and on the finite map of stored values \<open>add\<close> is an update,
  \<open>erase\<close> a deletion and \<open>findNode\<close> a search whose result is stored and
  satisfies the predicate. The search is complete on trees that are ordered by the
  comparator; insertion keeps that order.
\<close>

section \<open>Inductive trees\<close>

datatype 'v qtree = Tip | Nd nat 'v "direction \<Rightarrow> 'v qtree"

lemma qtree_induct [case_names Tip Nd]:
  "P Tip \<Longrightarrow> (\<And>k v ch. (\<And>d. P (ch d)) \<Longrightarrow> P (Nd k v ch)) \<Longrightarrow> P t"
  by (induction t) auto

primrec tkeys :: "'v qtree \<Rightarrow> nat set" where
  "tkeys Tip = {}"
| "tkeys (Nd k v ch) = insert k (\<Union>d. tkeys (ch d))"

primrec tvals :: "'v qtree \<Rightarrow> 'v set" where
  "tvals Tip = {}"
| "tvals (Nd k v ch) = insert v (\<Union>d. tvals (ch d))"

text \<open>No key occurs twice.\<close>

primrec twf :: "'v qtree \<Rightarrow> bool" where
  "twf Tip = True"
| "twf (Nd k v ch) \<longleftrightarrow>
     (\<forall>d. twf (ch d) \<and> k \<notin> tkeys (ch d)) \<and>
     (\<forall>d d' x. x \<in> tkeys (ch d) \<longrightarrow> x \<in> tkeys (ch d') \<longrightarrow> d = d')"

primrec tordered :: "('v \<Rightarrow> 'v \<Rightarrow> direction) \<Rightarrow> 'v qtree \<Rightarrow> bool" where
  "tordered c Tip = True"
| "tordered c (Nd k v ch) \<longleftrightarrow>
     (\<forall>d. tordered c (ch d) \<and> (\<forall>w \<in> tvals (ch d). c w v = d))"

fun tkey :: "'v qtree \<Rightarrow> nat" where
  "tkey Tip = 0"
| "tkey (Nd k v ch) = k"

text \<open>Hanging a tree below another one, at the free slot its root value leads to.\<close>

definition below :: "('v qtree \<times> 'v qtree) set" where
  "below = {(t, Nd k v ch) | t k v ch. \<exists>d. t = ch d}"

lemma below_child [simp]: "(ch d, Nd k v ch) \<in> below"
  by (auto simp: below_def)

lemma wf_below: "wf (below :: ('v qtree \<times> 'v qtree) set)"
proof (rule wfUNIVI)
  fix P :: "'v qtree \<Rightarrow> bool" and x
  assume step: "\<forall>x. (\<forall>y. (y, x) \<in> below \<longrightarrow> P y) \<longrightarrow> P x"
  show "P x"
  proof (induction x rule: qtree_induct)
    case Tip
    show ?case using step[rule_format, of Tip] by (simp add: below_def)
  next
    case (Nd k v ch)
    show ?case using step[rule_format, of "Nd k v ch"] Nd by (auto simp: below_def)
  qed
qed

function graft :: "('v \<Rightarrow> 'v \<Rightarrow> direction) \<Rightarrow> 'v \<Rightarrow> 'v qtree \<Rightarrow> 'v qtree \<Rightarrow> 'v qtree" where
  "graft c x s Tip = s"
| "graft c x s (Nd k v ch) = Nd k v (ch(c x v := graft c x s (ch (c x v))))"
  by pat_completeness auto
termination
  by (relation "inv_image below (\<lambda>(c, x, s, t). t)") (auto simp: wf_below)

text \<open>The map entries from key \<open>k\<close> on, whose parent link is \<open>p\<close>, form the tree.\<close>

primrec repr :: "'v qtree \<Rightarrow> (nat \<rightharpoonup> 'v qnode) \<Rightarrow> nat \<Rightarrow> nat \<Rightarrow> bool" where
  "repr Tip m p k \<longleftrightarrow> k = 0"
| "repr (Nd k' v ch) m p k \<longleftrightarrow>
     k = k' \<and> k \<noteq> 0 \<and>
     (\<exists>n. m k = Some n \<and> nvalue n = v \<and> nparent n = p \<and>
          (\<forall>d. repr (ch d) m k (leaf n d)))"

definition contents :: "'v quadtree \<Rightarrow> nat \<rightharpoonup> 'v" where
  "contents q = (\<lambda>k. map_option nvalue (nodes q k))"

definition qrep :: "'v quadtree \<Rightarrow> 'v qtree \<Rightarrow> bool" where
  "qrep q t \<longleftrightarrow> repr t (nodes q) 0 (root q) \<and> twf t \<and> dom (nodes q) = tkeys t"

definition qinv :: "'v quadtree \<Rightarrow> bool" where
  "qinv q \<longleftrightarrow> (\<exists>t. qrep q t)"

definition qsorted :: "'v quadtree \<Rightarrow> bool" where
  "qsorted q \<longleftrightarrow> (\<exists>t. qrep q t \<and> tordered (comparator q) t)"

section \<open>Nodes\<close>

lemma leaf_set_leaf [simp]: "leaf (set_leaf n d k) d' = (if d' = d then k else leaf n d')"
  by (cases d; cases d') auto

lemma set_leaf_other [simp]:
  "nvalue (set_leaf n d k) = nvalue n" "nparent (set_leaf n d k) = nparent n"
  by (cases d; simp)+

lemma leaf_upd_parent [simp]: "leaf (n\<lparr>nparent := p\<rparr>) d = leaf n d"
  by (cases d) auto

lemma node_erase_other [simp]:
  "nvalue (node_erase n k) = nvalue n" "nparent (node_erase n k) = nparent n"
  by (simp_all add: node_erase_def)

lemma leaf_node_erase:
  assumes "k \<noteq> 0" and "\<And>d'. leaf n d' = k \<Longrightarrow> d' = d" and "leaf n d = k"
  shows "leaf (node_erase n k) d' = (if d' = d then 0 else leaf n d')"
  using assms(1,3) assms(2)[of LEFT] assms(2)[of RIGHT] assms(2)[of UP] assms(2)[of DOWN]
  by (cases d; cases d') (auto simp: node_erase_def)

section \<open>Representation\<close>

lemma repr_cong:
  assumes "repr t m p k" and "\<And>x. x \<in> tkeys t \<Longrightarrow> m' x = m x"
  shows "repr t m' p k"
  using assms
proof (induction t arbitrary: p k rule: qtree_induct)
  case Tip
  then show ?case by simp
next
  case (Nd k' v ch)
  then obtain n where n: "m k = Some n" "nvalue n = v" "nparent n = p" "k = k'" "k \<noteq> 0"
    and ch: "\<And>d. repr (ch d) m k (leaf n d)" by auto
  have "repr (ch d) m' k (leaf n d)" for d
    using Nd.IH[OF ch] Nd.prems(2) by auto
  moreover have "m' k = Some n" using n Nd.prems(2)[of k] by simp
  ultimately show ?case using n by simp
qed

lemma repr_NdE:
  assumes "repr (Nd k' v ch) m p k"
  obtains n where "k = k'" "k \<noteq> 0" "m k = Some n" "nvalue n = v" "nparent n = p"
    "\<And>d. repr (ch d) m k (leaf n d)"
  using assms by auto

lemma repr_key: "repr t m p k \<Longrightarrow> k = tkey t"
  by (cases t) auto

lemma repr_nz: "repr t m p k \<Longrightarrow> 0 \<notin> tkeys t"
proof (induction t arbitrary: p k rule: qtree_induct)
  case (Nd k' v ch)
  from Nd.prems obtain n where "m k = Some n" "k \<noteq> 0" "k = k'" "\<forall>d. repr (ch d) m k (leaf n d)"
    by auto
  then show ?case using Nd.IH by auto
qed simp

lemma repr_dom: "repr t m p k \<Longrightarrow> tkeys t \<subseteq> dom m"
proof (induction t arbitrary: p k rule: qtree_induct)
  case (Nd k' v ch)
  from Nd.prems obtain n where "m k = Some n" "k = k'" "\<forall>d. repr (ch d) m k (leaf n d)"
    by auto
  then show ?case using Nd.IH by fastforce
qed simp

lemma repr_Tip_iff: "repr t m p k \<Longrightarrow> k = 0 \<longleftrightarrow> t = Tip"
  by (cases t) auto

lemma repr_vals:
  "repr t m p k \<Longrightarrow> v \<in> tvals t \<longleftrightarrow> (\<exists>x \<in> tkeys t. map_option nvalue (m x) = Some v)"
proof (induction t arbitrary: p k rule: qtree_induct)
  case (Nd k' w ch)
  from Nd.prems obtain n where n: "m k = Some n" "nvalue n = w" "k = k'"
    and ch: "\<And>d. repr (ch d) m k (leaf n d)" by auto
  have "v \<in> tvals (Nd k' w ch) \<longleftrightarrow> v = w \<or> (\<exists>d. v \<in> tvals (ch d))" by auto
  also have "\<dots> \<longleftrightarrow> v = w \<or> (\<exists>d. \<exists>x \<in> tkeys (ch d). map_option nvalue (m x) = Some v)"
    using Nd.IH[OF ch] by blast
  also have "\<dots> \<longleftrightarrow> (\<exists>x \<in> tkeys (Nd k' w ch). map_option nvalue (m x) = Some v)"
    using n by (auto simp del: map_option_eq_Some)
  finally show ?case .
qed simp

lemma node_at_Some [simp]: "nodes q k = Some n \<Longrightarrow> node_at q k = n"
  by (simp add: node_at_def)

lemma nodes_put_node [simp]: "nodes (put_node q k n) = (nodes q)(k \<mapsto> n)"
  "root (put_node q k n) = root q" "comparator (put_node q k n) = comparator q"
  "vdefault (put_node q k n) = vdefault q"
  by (simp_all add: put_node_def)

lemma tkeys_Nd_upd:
  "tkeys (Nd k v (ch(a := y))) = insert k (tkeys y \<union> (\<Union>d \<in> - {a}. tkeys (ch d)))"
  by (auto split: if_splits)

lemma tvals_Nd_upd:
  "tvals (Nd k v (ch(a := y))) = insert v (tvals y \<union> (\<Union>d \<in> - {a}. tvals (ch d)))"
  by (auto split: if_splits)

lemma tkeys_graft: "tkeys (graft c x s t) = tkeys t \<union> tkeys s"
proof (induction t rule: qtree_induct)
  case (Nd k v ch)
  show ?case by (simp only: graft.simps tkeys_Nd_upd Nd.IH) auto
qed simp

lemma tvals_graft: "tvals (graft c x s t) = tvals t \<union> tvals s"
proof (induction t rule: qtree_induct)
  case (Nd k v ch)
  show ?case by (simp only: graft.simps tvals_Nd_upd Nd.IH) auto
qed simp

lemma twf_graft: "twf t \<Longrightarrow> twf s \<Longrightarrow> tkeys t \<inter> tkeys s = {} \<Longrightarrow> twf (graft c x s t)"
proof (induction t rule: qtree_induct)
  case (Nd k v ch)
  have disj: "tkeys (ch d) \<inter> tkeys s = {}" for d using Nd.prems(3) by auto
  moreover have "twf (graft c x s (ch (c x v)))" using Nd disj by simp
  ultimately show ?case using Nd.prems by (auto simp: tkeys_graft)
qed simp

lemma graft_not_Tip: "s \<noteq> Tip \<Longrightarrow> graft c x s t \<noteq> Tip"
  by (cases t) auto

text \<open>A single value is inserted in order.\<close>

lemma tordered_graft:
  "tordered c t \<Longrightarrow> tordered c (graft c x (Nd k x (\<lambda>_. Tip)) t)"
  by (induction t rule: qtree_induct) (auto simp: tvals_graft)

section \<open>Following links\<close>

text \<open>
  The loop of \<open>add\<close> and \<open>readd\<close> returns, changes links below the node it starts at
  only, keeps all values and leaves the map such that any tree \<open>s\<close> with the key that
  was added and its parent link set is grafted there.
\<close>

definition descended ::
  "nat \<Rightarrow> 'v quadtree \<Rightarrow> 'v qtree \<Rightarrow> nat \<Rightarrow> nat \<Rightarrow> (nat \<rightharpoonup> 'v qnode) \<Rightarrow> nat \<Rightarrow>
   ('v qtree \<Rightarrow> 'v qtree) \<Rightarrow> bool" where
  "descended key q t p k m' par g \<longleftrightarrow>
     par \<in> tkeys t \<and> (\<forall>x. x \<notin> tkeys t \<longrightarrow> m' x = nodes q x) \<and>
     (\<forall>x. map_option nvalue (m' x) = map_option nvalue (nodes q x)) \<and>
     (\<forall>m'' s. (\<forall>x \<in> tkeys t. m'' x = m' x) \<longrightarrow> repr s m'' par key \<longrightarrow>
        repr (g s) m'' p k)"

lemma descend_repr:
  assumes "repr t (nodes q) p k" "twf t" "t \<noteq> Tip"
  shows "\<exists>m' par. descend key val q p0 k = Some (q\<lparr>nodes := m'\<rparr>, par) \<and>
           descended key q t p k m' par (\<lambda>s. graft (comparator q) val s t)"
  using assms
proof (induction t arbitrary: p p0 k rule: qtree_induct)
  case (Nd k' v ch)
  from Nd.prems(1) obtain n where n: "k = k'" "k \<noteq> 0" "nodes q k = Some n" "nvalue n = v"
    "nparent n = p" and ch: "\<And>d. repr (ch d) (nodes q) k (leaf n d)" by auto
  let ?d = "comparator q val v"
  have out: "x \<in> tkeys (ch d) \<Longrightarrow> d \<noteq> ?d \<Longrightarrow> x \<notin> tkeys (ch ?d) \<and> x \<noteq> k" for x d
    using Nd.prems(2) n by auto
  show ?case
  proof (cases "leaf n ?d = 0")
    case True
    let ?m = "(nodes q)(k \<mapsto> set_leaf n ?d key)"
    have "ch ?d = Tip" using repr_Tip_iff[OF ch[of ?d]] True by simp
    have "descend key val q p0 k = Some (q\<lparr>nodes := ?m\<rparr>, k)"
      using n True by (simp add: descend.simps addOrNext_def put_node_def Let_def)
    moreover have "descended key q (Nd k' v ch) p k ?m k
      (\<lambda>s. graft (comparator q) val s (Nd k' v ch))"
      unfolding descended_def
    proof (intro conjI allI impI)
      fix m'' s
      assume m'': "\<forall>x \<in> tkeys (Nd k' v ch). m'' x = ?m x" and s: "repr s m'' k key"
      have "repr (ch d) m'' k (leaf n d)" if "d \<noteq> ?d" for d
        using ch[of d] by (rule repr_cong) (use m'' out that in auto)
      then show "repr (graft (comparator q) val s (Nd k' v ch)) m'' p k"
        using n m'' s \<open>ch ?d = Tip\<close> by auto
    qed (use n in auto)
    ultimately show ?thesis by blast
  next
    case False
    have upd: "(nodes q)(k \<mapsto> n) = nodes q" using n by auto
    have "ch ?d \<noteq> Tip" using repr_Tip_iff[OF ch[of ?d]] False by simp
    with Nd.IH[OF ch] Nd.prems(2) obtain m' par where
      m': "descend key val q k (leaf n ?d) = Some (q\<lparr>nodes := m'\<rparr>, par)"
      and D: "descended key q (ch ?d) k (leaf n ?d) m' par
        (\<lambda>s. graft (comparator q) val s (ch ?d))" by (meson twf.simps(2))
    have "descend key val q p0 k = Some (q\<lparr>nodes := m'\<rparr>, par)"
      using n False m' upd by (subst descend.simps) (simp add: addOrNext_def put_node_def Let_def)
    moreover have "descended key q (Nd k' v ch) p k m' par
      (\<lambda>s. graft (comparator q) val s (Nd k' v ch))"
      unfolding descended_def
    proof (intro conjI allI impI)
      fix m'' s
      assume m'': "\<forall>x \<in> tkeys (Nd k' v ch). m'' x = m' x" and s: "repr s m'' par key"
      have "repr (graft (comparator q) val s (ch ?d)) m'' k (leaf n ?d)"
        using D m'' s unfolding descended_def by auto
      moreover have "repr (ch d) m'' k (leaf n d)" if "d \<noteq> ?d" for d
        using ch[of d] by (rule repr_cong) (use m'' out that D in \<open>auto simp: descended_def\<close>)
      moreover have "m'' k = Some n" using D m'' n Nd.prems(2) by (auto simp: descended_def)
      ultimately show "repr (graft (comparator q) val s (Nd k' v ch)) m'' p k"
        using n by auto
    qed (use n D in \<open>auto simp: descended_def\<close>)
    ultimately show ?thesis by blast
  qed
qed simp

text \<open>The same loop started at an inner node.\<close>

function graft_at ::
  "('v \<Rightarrow> 'v \<Rightarrow> direction) \<Rightarrow> 'v \<Rightarrow> nat \<Rightarrow> 'v qtree \<Rightarrow> 'v qtree \<Rightarrow> 'v qtree" where
  "graft_at c x a s Tip = Tip"
| "graft_at c x a s (Nd k v ch) =
     (if k = a then graft c x s (Nd k v ch) else Nd k v (\<lambda>d. graft_at c x a s (ch d)))"
  by pat_completeness auto
termination
  by (relation "inv_image below (\<lambda>(c, x, a, s, t). t)") (auto simp: wf_below)

lemma graft_at_notin: "a \<notin> tkeys t \<Longrightarrow> graft_at c x a s t = t"
  by (induction t rule: qtree_induct) auto

lemma tkeys_graft_at: "a \<in> tkeys t \<Longrightarrow> tkeys (graft_at c x a s t) = tkeys t \<union> tkeys s"
proof (induction t rule: qtree_induct)
  case (Nd k v ch)
  show ?case
  proof (cases "k = a")
    case True
    then show ?thesis by (simp add: tkeys_graft del: graft.simps)
  next
    case False
    with Nd.prems obtain d0 where d0: "a \<in> tkeys (ch d0)" by auto
    have "tkeys (graft_at c x a s (ch d)) =
        tkeys (ch d) \<union> (if a \<in> tkeys (ch d) then tkeys s else {})" for d
      using Nd.IH[of d] by (auto simp: graft_at_notin)
    then show ?thesis using False d0 by (auto split: if_splits)
  qed
qed simp

lemma twf_graft_at:
  "twf t \<Longrightarrow> twf s \<Longrightarrow> tkeys t \<inter> tkeys s = {} \<Longrightarrow> twf (graft_at c x a s t)"
proof (induction t rule: qtree_induct)
  case (Nd k v ch)
  show ?case
  proof (cases "k = a")
    case True
    then show ?thesis using twf_graft[OF Nd.prems] by (simp del: graft.simps twf.simps)
  next
    case False
    have K: "tkeys (graft_at c x a s (ch d)) =
        tkeys (ch d) \<union> (if a \<in> tkeys (ch d) then tkeys s else {})" for d
      by (simp add: tkeys_graft_at graft_at_notin)
    have disj: "tkeys (ch d) \<inter> tkeys s = {}" for d using Nd.prems(3) by auto
    then have "twf (graft_at c x a s (ch d))" for d using Nd by simp
    moreover have "d = d'" if "y \<in> tkeys (graft_at c x a s (ch d))"
      "y \<in> tkeys (graft_at c x a s (ch d'))" for d d' y
    proof -
      have "y \<in> tkeys (ch d) \<or> a \<in> tkeys (ch d) \<and> y \<in> tkeys s"
        and "y \<in> tkeys (ch d') \<or> a \<in> tkeys (ch d') \<and> y \<in> tkeys s"
        using that K by (auto split: if_splits)
      moreover have "\<And>d d' x. x \<in> tkeys (ch d) \<Longrightarrow> x \<in> tkeys (ch d') \<Longrightarrow> d = d'"
        using Nd.prems(1) by simp
      ultimately show ?thesis using disj by blast
    qed
    moreover have "k \<notin> tkeys (graft_at c x a s (ch d))" for d
      using K[of d] Nd.prems by auto
    ultimately show ?thesis using False by simp
  qed
qed simp

lemma descend_at:
  assumes "repr t (nodes q) p k" "twf t" "a \<in> tkeys t"
  shows "\<exists>m' par. descend key val q p0 a = Some (q\<lparr>nodes := m'\<rparr>, par) \<and>
           descended key q t p k m' par (\<lambda>s. graft_at (comparator q) val a s t)"
  using assms
proof (induction t arbitrary: p k rule: qtree_induct)
  case (Nd k' v ch)
  show ?case
  proof (cases "k' = a")
    case True
    with Nd.prems(1) have "k = a" by simp
    with descend_repr[OF Nd.prems(1,2), of key val p0] True show ?thesis by auto
  next
    case False
    from Nd.prems(1) obtain n where n: "k = k'" "k \<noteq> 0" "nodes q k = Some n" "nvalue n = v"
      "nparent n = p" and ch: "\<And>d. repr (ch d) (nodes q) k (leaf n d)" by auto
    from False Nd.prems(3) obtain e where e: "a \<in> tkeys (ch e)" by auto
    have out: "x \<in> tkeys (ch d) \<Longrightarrow> d \<noteq> e \<Longrightarrow> x \<notin> tkeys (ch e) \<and> x \<noteq> k" for x d
      using Nd.prems(2) n by auto
    have noa: "d \<noteq> e \<Longrightarrow> a \<notin> tkeys (ch d)" for d using out e by blast
    obtain m' par where m': "descend key val q p0 a = Some (q\<lparr>nodes := m'\<rparr>, par)"
      and D: "descended key q (ch e) k (leaf n e) m' par
        (\<lambda>s. graft_at (comparator q) val a s (ch e))"
      using Nd.IH[OF ch _ e] Nd.prems(2) by auto
    have "descended key q (Nd k' v ch) p k m' par
      (\<lambda>s. graft_at (comparator q) val a s (Nd k' v ch))"
      unfolding descended_def
    proof (intro conjI allI impI)
      fix m'' s
      assume m'': "\<forall>x \<in> tkeys (Nd k' v ch). m'' x = m' x" and s: "repr s m'' par key"
      have "repr (graft_at (comparator q) val a s (ch e)) m'' k (leaf n e)"
        using D m'' s unfolding descended_def by auto
      moreover have "repr (ch d) m'' k (leaf n d)" if "d \<noteq> e" for d
        using ch[of d] by (rule repr_cong) (use m'' out that D in \<open>auto simp: descended_def\<close>)
      ultimately have "repr (graft_at (comparator q) val a s (ch d)) m'' k (leaf n d)" for d
        by (cases "d = e") (simp_all add: graft_at_notin noa)
      moreover have "m'' k = Some n" using D m'' n Nd.prems(2) by (auto simp: descended_def)
      ultimately show "repr (graft_at (comparator q) val a s (Nd k' v ch)) m'' p k"
        using n False by simp
    qed (use n D in \<open>auto simp: descended_def\<close>)
    with m' show ?thesis by blast
  qed
qed simp

section \<open>Adding a value\<close>

lemma contents_nodes: "contents (q\<lparr>nodes := m\<rparr>) = (\<lambda>k. map_option nvalue (m k))"
  by (simp add: contents_def)

lemma dom_contents: "dom (contents q) = dom (nodes q)"
  by (auto simp: contents_def)

lemma add_repr:
  assumes q: "qrep q t" and key: "key \<noteq> 0" "key \<notin> tkeys t"
  shows "\<exists>q'. add q key v = Some q' \<and>
     qrep q' (graft (comparator q) v (Nd key v (\<lambda>_. Tip)) t) \<and>
     contents q' = (contents q)(key \<mapsto> v) \<and>
     comparator q' = comparator q \<and> vdefault q' = vdefault q"
proof (cases "root q = 0")
  case True
  with q have t: "t = Tip" "nodes q = Map.empty"
    using repr_Tip_iff by (fastforce simp: qrep_def)+
  have "leaf (mk_node v 0 0 0 0 0) d = 0" for d by (cases d) (auto simp: mk_node_def)
  with True t key show ?thesis
    by (auto simp: add_def emplace_node_def qrep_def contents_def mk_node_def)
next
  case False
  from q have r: "repr t (nodes q) 0 (root q)" "twf t" and dm: "dom (nodes q) = tkeys t"
    by (auto simp: qrep_def)
  with False have "t \<noteq> Tip" by auto
  then obtain m' par where
    d: "descend key v q 0 (root q) = Some (q\<lparr>nodes := m'\<rparr>, par)"
    and D: "descended key q t 0 (root q) m' par (\<lambda>s. graft (comparator q) v s t)"
    using descend_repr[OF r] by blast
  have notin: "m' key = None" "nodes q key = None"
    using D key dm by (auto simp: descended_def)
  let ?n = "mk_node v par 0 0 0 0" and ?s = "Nd key v (\<lambda>_. Tip)"
  let ?m = "m'(key \<mapsto> ?n)"
  have "leaf ?n d = 0" for d by (cases d) (auto simp: mk_node_def)
  then have "repr ?s ?m par key" using key by (simp add: mk_node_def)
  then have "repr (graft (comparator q) v ?s t) ?m 0 (root q)"
    using D key by (auto simp: descended_def)
  moreover have "twf (graft (comparator q) v ?s t)"
    using r(2) key by (intro twf_graft) auto
  moreover have domm: "dom m' = dom (nodes q)"
    by (rule dom_eq_by_values[where f = nvalue]) (use D in \<open>simp add: descended_def\<close>)
  ultimately have "qrep (q\<lparr>nodes := ?m\<rparr>) (graft (comparator q) v ?s t)"
    using dm by (auto simp: qrep_def tkeys_graft)
  moreover have "add q key v = Some (q\<lparr>nodes := ?m\<rparr>)"
    using False d notin by (simp add: add_def emplace_node_def put_node_def)
  moreover have "contents (q\<lparr>nodes := ?m\<rparr>) = (contents q)(key \<mapsto> v)"
    using D by (auto simp: contents_def descended_def mk_node_def fun_eq_iff)
  ultimately show ?thesis by simp
qed

section \<open>Re-adding detached subtrees\<close>

definition forest :: "'v quadtree \<Rightarrow> 'v qtree \<Rightarrow> 'v qtree list \<Rightarrow> bool" where
  "forest q t ss \<longleftrightarrow>
     repr t (nodes q) 0 (root q) \<and> twf t \<and>
     (\<forall>s \<in> set ss. s \<noteq> Tip \<and> twf s \<and> (\<exists>p. repr s (nodes q) p (tkey s)) \<and>
        tkeys s \<inter> tkeys t = {}) \<and>
     sorted_wrt (\<lambda>a b. tkeys a \<inter> tkeys b = {}) ss \<and>
     dom (nodes q) = tkeys t \<union> (\<Union>s \<in> set ss. tkeys s)"

definition same_data :: "'v quadtree \<Rightarrow> 'v quadtree \<Rightarrow> bool" where
  "same_data q q' \<longleftrightarrow>
     contents q' = contents q \<and> comparator q' = comparator q \<and> vdefault q' = vdefault q"

lemma repr_reparent:
  assumes "repr s m p k" "s \<noteq> Tip" "twf s" "m k = Some n"
    and "m'' k = Some (n\<lparr>nparent := p'\<rparr>)" "\<And>x. x \<in> tkeys s \<Longrightarrow> x \<noteq> k \<Longrightarrow> m'' x = m x"
  shows "repr s m'' p' k"
proof (cases s)
  case (Nd k' v ch)
  from assms(1,4) Nd have n: "k = k'" "k \<noteq> 0" "nvalue n = v"
    and ch: "\<And>d. repr (ch d) m k (leaf n d)" by auto
  have "repr (ch d) m'' k (leaf n d)" for d
    using ch by (rule repr_cong) (use assms(3,6) Nd n in auto)
  then show ?thesis using Nd n assms(5) by simp
qed (use assms(2) in simp)

lemma forest_other:
  assumes "forest q t (s # ss)" "\<And>x. x \<notin> tkeys t \<union> tkeys s \<Longrightarrow> m'' x = nodes q x" "u \<in> set ss"
  shows "\<exists>p. repr u m'' p (tkey u)"
proof -
  from assms(1,3) obtain p where "repr u (nodes q) p (tkey u)"
    "tkeys u \<inter> tkeys t = {}" "tkeys s \<inter> tkeys u = {}" by (auto simp: forest_def)
  then show ?thesis using assms(2) by (blast intro: repr_cong)
qed

lemma readd_in:
  assumes F: "forest q t (s # ss)" and a: "a \<in> tkeys t"
  shows "\<exists>q' t'. readd q a (tkey s) = Some q' \<and> forest q' t' ss \<and>
     tkeys t' = tkeys t \<union> tkeys s \<and> same_data q q'"
proof -
  from F have r: "repr t (nodes q) 0 (root q)" "twf t"
    and s: "s \<noteq> Tip" "twf s" "tkeys s \<inter> tkeys t = {}"
    and dm: "dom (nodes q) = tkeys t \<union> tkeys s \<union> (\<Union>s \<in> set ss. tkeys s)"
    by (auto simp: forest_def)
  from F obtain p where rs: "repr s (nodes q) p (tkey s)" by (auto simp: forest_def)
  from s(1) obtain v ch where sv: "s = Nd (tkey s) v ch" by (cases s) auto
  with rs obtain n where n: "nodes q (tkey s) = Some n" "nvalue n = v" by (metis repr.simps(2))
  have "tkey s \<in> tkeys s" using sv by (metis tkeys.simps(2) insertI1)
  with s have k: "tkey s \<in> tkeys s" "tkey s \<notin> tkeys t" by auto
  have "a \<noteq> 0" using repr_nz[OF r(1)] a by metis
  obtain m' par where
    d: "descend (tkey s) v q 0 a = Some (q\<lparr>nodes := m'\<rparr>, par)"
    and D: "descended (tkey s) q t 0 (root q) m' par (\<lambda>s. graft_at (comparator q) v a s t)"
    using descend_at[OF r a] by blast
  have mk: "m' (tkey s) = Some n" using D k n by (simp add: descended_def)
  let ?m = "m'(tkey s \<mapsto> n\<lparr>nparent := par\<rparr>)" and ?t = "graft_at (comparator q) v a s t"
  have out: "x \<notin> tkeys t \<union> tkeys s \<Longrightarrow> ?m x = nodes q x" for x
    using D k by (auto simp: descended_def)
  have "readd q a (tkey s) = Some (q\<lparr>nodes := ?m\<rparr>)"
    using \<open>a \<noteq> 0\<close> d n mk by (subst readd.simps) (simp add: put_node_def)
  moreover have "repr s ?m par (tkey s)"
    using rs s(1,2) n(1) by (rule repr_reparent) (use D s in \<open>auto simp: descended_def\<close>)
  then have "repr ?t ?m 0 (root q)" using D k by (auto simp: descended_def)
  moreover have "twf ?t" using r(2) s by (intro twf_graft_at) auto
  moreover have K: "tkeys ?t = tkeys t \<union> tkeys s" using a by (rule tkeys_graft_at)
  moreover have V: "map_option nvalue (?m x) = map_option nvalue (nodes q x)" for x
    using D n by (auto simp: descended_def)
  then have "same_data q (q\<lparr>nodes := ?m\<rparr>)" by (simp add: same_data_def contents_def)
  moreover have "dom ?m = dom (nodes q)" using V by (rule dom_eq_by_values)
  ultimately have "readd q a (tkey s) = Some (q\<lparr>nodes := ?m\<rparr>) \<and>
      forest (q\<lparr>nodes := ?m\<rparr>) ?t ss \<and> tkeys ?t = tkeys t \<union> tkeys s \<and>
      same_data q (q\<lparr>nodes := ?m\<rparr>)"
    using F dm forest_other[OF F out] K by (auto simp: forest_def simp del: fun_upd_apply)
  then show ?thesis by blast
qed

lemma readd_forest:
  assumes F: "forest q t (s # ss)" and a: "a = 0 \<or> a \<in> tkeys t"
  shows "\<exists>q' t'. readd q a (tkey s) = Some q' \<and> forest q' t' ss \<and>
     tkeys t' = tkeys t \<union> tkeys s \<and> same_data q q'"
proof -
  from F have r: "repr t (nodes q) 0 (root q)" by (simp add: forest_def)
  consider "a \<in> tkeys t" | "a = 0" "root q = 0" | "a = 0" "root q \<noteq> 0" using a by blast
  then show ?thesis
  proof cases
    case 1
    then show ?thesis using F by (rule readd_in[rotated])
  next
    case 2
    with r have t: "t = Tip" by (simp add: repr_Tip_iff[OF r, symmetric])
    from F have s: "s \<noteq> Tip" "twf s" by (auto simp: forest_def)
    from F obtain p where rs: "repr s (nodes q) p (tkey s)" by (auto simp: forest_def)
    with s obtain n where n: "nodes q (tkey s) = Some n" by (cases s) auto
    let ?m = "(nodes q)(tkey s \<mapsto> n\<lparr>nparent := 0\<rparr>)"
    let ?q = "q\<lparr>root := tkey s, nodes := ?m\<rparr>"
    have "repr s ?m 0 (tkey s)" using rs s n by (rule repr_reparent) auto
    moreover have "tkey s \<in> tkeys s" using s by (cases s) auto
    moreover have "\<exists>p. repr u ?m p (tkey u)" if "u \<in> set ss" for u
      using F by (rule forest_other) (use that calculation(2) in auto)
    ultimately have "forest ?q s ss" using F t s by (auto simp: forest_def simp del: fun_upd_apply)
    moreover have "same_data q ?q" using n by (auto simp: same_data_def contents_def)
    moreover have "readd q a (tkey s) = Some ?q"
      using 2 n by (subst readd.simps) (simp add: put_node_def)
    ultimately show ?thesis using t by auto
  next
    case 3
    then have "t \<noteq> Tip" using r by auto
    then have "root q \<in> tkeys t" using r repr_key[OF r] by (cases t) auto
    moreover have "readd q a (tkey s) = readd q (root q) (tkey s)"
      using 3 by (subst readd.simps) simp
    ultimately show ?thesis using readd_in[OF F] by simp
  qed
qed

lemma same_data_trans: "same_data q q1 \<Longrightarrow> same_data q1 q2 \<Longrightarrow> same_data q q2"
  by (simp add: same_data_def)

lemma readd_all:
  assumes "forest q t ss" "a = 0 \<or> a \<in> tkeys t"
  shows "\<exists>q' t'. ofold (\<lambda>l s. readd s a l) (map tkey ss) q = Some q' \<and> qrep q' t' \<and> same_data q q'"
  using assms
proof (induction ss arbitrary: q t)
  case Nil
  then show ?case by (auto simp: forest_def qrep_def same_data_def)
next
  case (Cons s ss)
  from readd_forest[OF Cons.prems] obtain q1 t1 where
    1: "readd q a (tkey s) = Some q1" "forest q1 t1 ss" "tkeys t1 = tkeys t \<union> tkeys s"
      "same_data q q1" by blast
  with Cons.prems(2) have "a = 0 \<or> a \<in> tkeys t1" by auto
  from Cons.IH[OF 1(2) this] 1 show ?case by (auto intro: same_data_trans)
qed

section \<open>Erasing a key\<close>

primrec cut :: "nat \<Rightarrow> 'v qtree \<Rightarrow> 'v qtree" where
  "cut a Tip = Tip"
| "cut a (Nd k v ch) = (if k = a then Tip else Nd k v (\<lambda>d. cut a (ch d)))"

lemma cut_notin: "a \<notin> tkeys t \<Longrightarrow> cut a t = t"
  by (induction t rule: qtree_induct) auto

lemma tkeys_cut: "tkeys (cut a t) \<subseteq> tkeys t - {a}"
  by (induction t rule: qtree_induct) auto

lemma twf_cut: "twf t \<Longrightarrow> twf (cut a t)"
proof (induction t rule: qtree_induct)
  case (Nd k v ch)
  then show ?case using tkeys_cut by (simp, blast)
qed simp

text \<open>
  What unlinking the node \<open>a\<close> from its parent \<open>p'\<close> leaves: the subtree at \<open>a\<close> and the
  tree without it.
\<close>

definition unlinked ::
  "nat \<Rightarrow> 'v qtree \<Rightarrow> (nat \<rightharpoonup> 'v qnode) \<Rightarrow> nat \<Rightarrow> nat \<Rightarrow> nat \<Rightarrow> 'v qnode \<Rightarrow> 'v qtree \<Rightarrow> bool" where
  "unlinked a t m p k p' np u \<longleftrightarrow>
     repr u m p' a \<and> twf u \<and> u \<noteq> Tip \<and> m p' = Some np \<and> p' \<in> tkeys (cut a t) \<and>
     tkeys t = tkeys (cut a t) \<union> tkeys u \<and> tkeys (cut a t) \<inter> tkeys u = {} \<and>
     (\<forall>m''. (\<forall>x \<in> tkeys (cut a t). m'' x = (m(p' \<mapsto> node_erase np a)) x) \<longrightarrow>
        repr (cut a t) m'' p k)"

lemma unlink_repr:
  assumes "repr t m p k" "twf t" "a \<in> tkeys t" "k \<noteq> a"
  shows "\<exists>p' np u. unlinked a t m p k p' np u"
  using assms
proof (induction t arbitrary: p k rule: qtree_induct)
  case (Nd k' v ch)
  from Nd.prems(1) obtain n where n: "k = k'" "k \<noteq> 0" "m k = Some n" "nvalue n = v"
    "nparent n = p" and ch: "\<And>d. repr (ch d) m k (leaf n d)" by auto
  from Nd.prems(3,4) n obtain e where e: "a \<in> tkeys (ch e)" by auto
  have uniq: "x \<in> tkeys (ch d) \<Longrightarrow> x \<in> tkeys (ch d') \<Longrightarrow> d = d'" for x d d'
    using Nd.prems(2) by simp
  have kn: "k \<notin> tkeys (ch d)" for d using Nd.prems(2) n by simp
  have cutd: "cut a (ch d) = ch d" if "d \<noteq> e" for d
    using that uniq e by (blast intro: cut_notin)
  have K: "tkeys (cut a (Nd k' v ch)) = insert k (tkeys (cut a (ch e)) \<union> (\<Union>d \<in> - {e}. tkeys (ch d)))"
  proof -
    have "(\<Union>d. tkeys (cut a (ch d))) = tkeys (cut a (ch e)) \<union> (\<Union>d \<in> - {e}. tkeys (cut a (ch d)))"
      by blast
    also have "(\<Union>d \<in> - {e}. tkeys (cut a (ch d))) = (\<Union>d \<in> - {e}. tkeys (ch d))"
      using cutd by simp
    finally show ?thesis using n Nd.prems(4) by simp
  qed
  have inx: "x \<in> tkeys (cut a (Nd k' v ch)) \<and> x \<noteq> k" if "x \<in> tkeys (ch d)" "d \<noteq> e" for x d
    unfolding K using that kn by blast
  have T: "tkeys (Nd k' v ch) = insert k (tkeys (ch e) \<union> (\<Union>d \<in> - {e}. tkeys (ch d)))"
    using n by auto
  show ?case
  proof (cases "leaf n e = a")
    case True
    with ch[of e] e have "cut a (ch e) = Tip" using repr_key by (cases "ch e") auto
    have "a \<noteq> 0" using repr_nz[OF ch] e by metis
    have "leaf n d = a \<Longrightarrow> a \<in> tkeys (ch d)" for d
      using ch[of d] \<open>a \<noteq> 0\<close> by (cases "ch d") auto
    then have only: "leaf n d = a \<Longrightarrow> d = e" for d using uniq e by blast
    have L: "leaf (node_erase n a) d = (if d = e then 0 else leaf n d)" for d
      using \<open>a \<noteq> 0\<close> only True by (rule leaf_node_erase)
    have "repr (cut a (Nd k' v ch)) m'' p k"
      if m'': "\<forall>x \<in> tkeys (cut a (Nd k' v ch)). m'' x = (m(k \<mapsto> node_erase n a)) x" for m''
    proof -
      have "repr (ch d) m'' k (leaf n d)" if "d \<noteq> e" for d
        using ch[of d] by (rule repr_cong) (use m'' inx that in \<open>auto simp del: cut.simps\<close>)
      then have "repr (cut a (ch d)) m'' k (leaf (node_erase n a) d)" for d
        using \<open>cut a (ch e) = Tip\<close> cutd L by (cases "d = e") auto
      moreover have "m'' k = Some (node_erase n a)" using m'' K by auto
      ultimately show ?thesis using n Nd.prems(4) by simp
    qed
    then have "unlinked a (Nd k' v ch) m p k k n (ch e)"
      unfolding unlinked_def K T
      using ch[of e] True e n Nd.prems(2) kn uniq \<open>cut a (ch e) = Tip\<close> by (auto simp del: cut.simps)
    then show ?thesis by blast
  next
    case False
    with Nd.IH[OF ch _ e] Nd.prems(2) obtain p' np u where
      U: "unlinked a (ch e) m k (leaf n e) p' np u" by auto
    have pe: "p' \<in> tkeys (ch e)" "p' \<noteq> k" "tkeys u \<subseteq> tkeys (ch e)"
      using U kn tkeys_cut[of a "ch e"] by (auto simp: unlinked_def)
    have "repr (cut a (Nd k' v ch)) m'' p k"
      if m'': "\<forall>x \<in> tkeys (cut a (Nd k' v ch)). m'' x = (m(p' \<mapsto> node_erase np a)) x" for m''
    proof -
      have "repr (cut a (ch e)) m'' k (leaf n e)"
        using U m'' K unfolding unlinked_def by (simp del: fun_upd_apply)
      moreover have "repr (ch d) m'' k (leaf n d)" if "d \<noteq> e" for d
        using ch[of d] by (rule repr_cong) (use m'' inx that pe uniq in \<open>auto simp del: cut.simps\<close>)
      ultimately have "repr (cut a (ch d)) m'' k (leaf n d)" for d
        using cutd by (cases "d = e") auto
      moreover have "m'' k = Some n" using m'' K pe n by auto
      ultimately show ?thesis using n Nd.prems(4) by simp
    qed
    then have "unlinked a (Nd k' v ch) m p k p' np u"
      unfolding unlinked_def K T using U pe kn uniq
      by (auto simp: unlinked_def simp del: cut.simps)
    then show ?thesis by blast
  qed
qed simp

definition subtrees :: "(direction \<Rightarrow> 'v qtree) \<Rightarrow> 'v qtree list" where
  "subtrees ch = filter (\<lambda>t. t \<noteq> Tip) (map ch [LEFT, RIGHT, UP, DOWN])"

lemma set_subtrees: "set (subtrees ch) = range ch - {Tip}"
proof -
  have "ch d \<in> {ch LEFT, ch RIGHT, ch UP, ch DOWN}" for d by (cases d) auto
  then have "range ch = {ch LEFT, ch RIGHT, ch UP, ch DOWN}" by blast
  then show ?thesis by (auto simp: subtrees_def)
qed

lemma subtrees_disjoint:
  assumes "\<And>d d'. d \<noteq> d' \<Longrightarrow> tkeys (ch d) \<inter> tkeys (ch d') = {}"
  shows "sorted_wrt (\<lambda>a b. tkeys a \<inter> tkeys b = {}) (subtrees ch)"
  unfolding subtrees_def by (rule sorted_wrt_filter) (simp add: assms)

lemma leaves_repr:
  assumes "\<And>d. repr (ch d) m k (leaf n d)"
  shows "leaves n = map tkey (subtrees ch)"
proof -
  have "filter (\<lambda>k. k \<noteq> 0) (map (leaf n) ds) = map tkey (filter (\<lambda>t. t \<noteq> Tip) (map ch ds))" for ds
    using repr_key[OF assms] repr_Tip_iff[OF assms] by (induction ds) auto
  from this[of "[LEFT, RIGHT, UP, DOWN]"] show ?thesis
    unfolding leaves_def subtrees_def list.map(1,2) .
qed

lemma subtrees_forest:
  assumes "repr (Nd k v ch) m p k" "twf (Nd k v ch)"
    and "repr t m' 0 r" "twf t" "tkeys t \<inter> tkeys (Nd k v ch) = {}"
    and "\<And>x. x \<in> tkeys (Nd k v ch) \<Longrightarrow> x \<noteq> k \<Longrightarrow> m' x = m x"
    and "dom m' = tkeys t \<union> (tkeys (Nd k v ch) - {k})"
  shows "forest (q\<lparr>root := r, nodes := m'\<rparr>) t
    (subtrees ch)"
proof -
  from assms(1) obtain n where "m k = Some n" and ch: "\<And>d. repr (ch d) m k (leaf n d)" by auto
  have kn: "k \<notin> tkeys (ch d)" for d using assms(2) by simp
  have "repr (ch d) m' k (tkey (ch d))" for d
    using repr_cong[OF ch, of d m'] assms(6) kn repr_key[OF ch] by auto
  moreover have "tkeys (ch d) \<inter> tkeys (ch d') = {}" if "d \<noteq> d'" for d d'
    using assms(2) that by auto
  then have "sorted_wrt (\<lambda>a b. tkeys a \<inter> tkeys b = {}) (subtrees ch)"
    by (rule subtrees_disjoint)
  moreover have "(\<Union>s \<in> set (subtrees ch). tkeys s) = (\<Union>d. tkeys (ch d))"
    by (auto simp: set_subtrees)
  moreover have "tkeys (Nd k v ch) - {k} = (\<Union>d. tkeys (ch d))" using kn by auto
  ultimately show ?thesis
    using assms(2-5,7) unfolding forest_def by (auto simp: set_subtrees)
qed

lemma erase_root_forest:
  assumes q: "qrep q t" and n: "nodes q key = Some n" and r: "root q = key"
  shows "\<exists>v ch. (\<forall>d. repr (ch d) (nodes q) key (leaf n d)) \<and> nparent n = 0 \<and>
    forest (q\<lparr>root := 0, nodes := (nodes q)(key := None)\<rparr>) Tip
      (subtrees ch)"
proof -
  from q n r have "repr t (nodes q) 0 key" "twf t" "dom (nodes q) = tkeys t"
    by (auto simp: qrep_def)
  moreover from this n have "t \<noteq> Tip" by auto
  ultimately obtain v ch where t: "t = Nd key v ch" "repr (Nd key v ch) (nodes q) 0 key"
    "twf (Nd key v ch)" "dom (nodes q) = tkeys (Nd key v ch)" by (cases t) auto
  have "forest (q\<lparr>root := 0, nodes := (nodes q)(key := None)\<rparr>) Tip
      (subtrees ch)"
    using t(2,3) by (rule subtrees_forest) (use t(4) in auto)
  moreover have "\<forall>d. repr (ch d) (nodes q) key (leaf n d)" "nparent n = 0"
    using t(2) n by auto
  ultimately show ?thesis by blast
qed

lemma erase_inner_forest:
  assumes q: "qrep q t" and n: "nodes q key = Some n" and r: "root q \<noteq> key"
  shows "\<exists>np u ch. (\<forall>d. repr (ch d) (nodes q) key (leaf n d)) \<and> nodes q (nparent n) = Some np \<and>
    nparent n \<in> tkeys u \<and> nparent n \<noteq> key \<and>
    forest (q\<lparr>nodes := (nodes q)(nparent n \<mapsto> node_erase np key, key := None)\<rparr>) u
      (subtrees ch)"
proof -
  from q have t: "repr t (nodes q) 0 (root q)" "twf t" "dom (nodes q) = tkeys t"
    by (auto simp: qrep_def)
  with n have "key \<in> tkeys t" by auto
  with unlink_repr[OF t(1,2)] r obtain p' np w where
    U: "unlinked key t (nodes q) 0 (root q) p' np w" by blast
  then obtain v ch where w: "w = Nd key v ch" "repr (Nd key v ch) (nodes q) p' key"
    "twf (Nd key v ch)" by (cases w) (auto simp: unlinked_def)
  have p': "p' = nparent n" "p' \<noteq> key" "p' \<in> tkeys (cut key t)" "nodes q p' = Some np"
    using w n U tkeys_cut[of key t] by (auto simp: unlinked_def)
  let ?m = "(nodes q)(p' \<mapsto> node_erase np key, key := None)"
  have "repr (cut key t) ?m 0 (root q)"
    using U tkeys_cut[of key t] unfolding unlinked_def by (metis (no_types, lifting) DiffD2 fun_upd_other insertI1 subsetD)
  then have "forest (q\<lparr>root := root q, nodes := ?m\<rparr>) (cut key t)
      (subtrees ch)"
    using U w t tkeys_cut[of key t] p'
    by (intro subtrees_forest[OF w(2,3)]) (auto simp: unlinked_def twf_cut simp del: tkeys.simps(2))
  moreover have "\<forall>d. repr (ch d) (nodes q) key (leaf n d)" using w(2) n by auto
  ultimately show ?thesis using p' by auto
qed

lemma erase_inv:
  assumes "qinv q"
  shows "\<exists>q'. erase q key = Some q' \<and> qinv q' \<and> contents q' = (contents q)(key := None) \<and>
    comparator q' = comparator q \<and> vdefault q' = vdefault q"
proof (cases "nodes q key")
  case None
  then show ?thesis using assms by (auto simp: erase_def contents_def)
next
  case (Some n)
  from assms obtain t where q: "qrep q t" by (auto simp: qinv_def)
  show ?thesis
  proof (cases "root q = key")
    case True
    from erase_root_forest[OF q Some True] obtain ch where
      ch: "\<And>d. repr (ch d) (nodes q) key (leaf n d)" and p: "nparent n = 0"
      and F: "forest (q\<lparr>root := 0, nodes := (nodes q)(key := None)\<rparr>) Tip (subtrees ch)" by auto
    from readd_all[OF F, of 0] obtain q' t' where
      "ofold (\<lambda>l s. readd s 0 l) (map tkey (subtrees ch))
        (q\<lparr>root := 0, nodes := (nodes q)(key := None)\<rparr>) = Some q'"
      "qrep q' t'" "same_data (q\<lparr>root := 0, nodes := (nodes q)(key := None)\<rparr>) q'" by auto
    then show ?thesis using Some True p leaves_repr[OF ch]
      by (auto simp: erase_def Let_def qinv_def same_data_def contents_def fun_eq_iff)
  next
    case False
    from erase_inner_forest[OF q Some False] obtain np u ch where
      ch: "\<And>d. repr (ch d) (nodes q) key (leaf n d)" and np: "nodes q (nparent n) = Some np"
      and u: "nparent n \<in> tkeys u" "nparent n \<noteq> key"
      and F: "forest (q\<lparr>nodes := (nodes q)(nparent n \<mapsto> node_erase np key, key := None)\<rparr>) u (subtrees ch)"
      by auto
    from readd_all[OF F, of "nparent n"] u obtain q' t' where
      "ofold (\<lambda>l s. readd s (nparent n) l) (map tkey (subtrees ch))
        (q\<lparr>nodes := (nodes q)(nparent n \<mapsto> node_erase np key, key := None)\<rparr>) = Some q'"
      "qrep q' t'"
      "same_data (q\<lparr>nodes := (nodes q)(nparent n \<mapsto> node_erase np key, key := None)\<rparr>) q'" by auto
    then show ?thesis using Some False np leaves_repr[OF ch]
      by (auto simp: erase_def Let_def qinv_def same_data_def contents_def fun_eq_iff put_node_def)
  qed
qed

lemma add_inv:
  assumes "qinv q" "key \<noteq> 0" "contents q key = None"
  shows "\<exists>q'. add q key v = Some q' \<and> qinv q' \<and> contents q' = (contents q)(key \<mapsto> v) \<and>
    comparator q' = comparator q \<and> vdefault q' = vdefault q"
proof -
  from assms(1) obtain t where q: "qrep q t" by (auto simp: qinv_def)
  have "key \<notin> tkeys t" using q assms(3) by (auto simp: qrep_def contents_def)
  from add_repr[OF q assms(2) this, of v] show ?thesis by (auto simp: qinv_def)
qed

lemma add_sorted:
  assumes "qsorted q" "key \<noteq> 0" "contents q key = None"
  shows "\<exists>q'. add q key v = Some q' \<and> qsorted q' \<and> contents q' = (contents q)(key \<mapsto> v)"
proof -
  from assms(1) obtain t where q: "qrep q t" "tordered (comparator q) t" by (auto simp: qsorted_def)
  have "key \<notin> tkeys t" using q assms(3) by (auto simp: qrep_def contents_def)
  from add_repr[OF q(1) assms(2) this, of v] obtain q' where
    "add q key v = Some q'" "qrep q' (graft (comparator q) v (Nd key v (\<lambda>_. Tip)) t)"
    "contents q' = (contents q)(key \<mapsto> v)" "comparator q' = comparator q" by blast
  with tordered_graft[OF q(2)] show ?thesis by (auto simp: qsorted_def)
qed

lemma descend_comparator: "descend key v q p c = Some r \<Longrightarrow> comparator (fst r) = comparator q"
  by (induction rule: descend.raw_induct[rotated 1, consumes 1])
     (auto simp: put_node_def Let_def split: if_splits)

lemma add_comparator: "add q key v = Some q' \<Longrightarrow> comparator q' = comparator q"
  by (auto simp: add_def emplace_node_def put_node_def split: if_splits Option.bind_splits
      dest: descend_comparator)

lemma empty_sorted: "qsorted (empty_tree c d)" "contents (empty_tree c d) = Map.empty"
  by (auto simp: qsorted_def qrep_def empty_tree_def contents_def intro!: exI[of _ Tip])

lemma qsorted_inv: "qsorted q \<Longrightarrow> qinv q"
  by (auto simp: qsorted_def qinv_def)

section \<open>Searching\<close>

lemma findFrom_repr:
  assumes "repr t (nodes q) p k"
  shows "\<exists>r. findFrom q pr v k = Some r \<and> (r \<in> tkeys t \<or> r = 0 \<and> t = Tip)"
  using assms
proof (induction t arbitrary: p k rule: qtree_induct)
  case Tip
  then show ?case by (auto simp: findFrom.simps)
next
  case (Nd k' w ch)
  from Nd.prems obtain n where n: "k = k'" "k \<noteq> 0" "nodes q k = Some n"
    and ch: "\<And>d. repr (ch d) (nodes q) k (leaf n d)" by auto
  have "\<exists>r. findFrom q pr v (leaf n d) = Some r \<and> (r \<in> tkeys (ch d) \<or> r = 0)" for d
    using Nd.IH[OF ch] by blast
  then obtain R where R: "\<And>d. findFrom q pr v (leaf n d) = Some (R d)"
    "\<And>d. R d \<in> tkeys (ch d) \<or> R d = 0" by metis
  have sub: "R d \<noteq> 0 \<Longrightarrow> R d \<in> tkeys (Nd k' w ch)" for d using R(2)[of d] by auto
  have self: "k \<in> tkeys (Nd k' w ch)" using n by simp
  show ?case
    using n R(1)[of LEFT] R(1)[of RIGHT] R(1)[of UP] R(1)[of DOWN] sub self
    by (cases "comparator q v (nvalue n)";
        subst findFrom.simps; simp add: Let_def found_at_def del: tkeys.simps)
qed

lemma findNode_sound:
  assumes "qinv q"
  shows "\<exists>r. findNode q v pr = Some r \<and>
    (r \<noteq> 0 \<longrightarrow> (\<exists>w. contents q r = Some w \<and> pr v w))"
proof (cases "root q = 0")
  case True
  then show ?thesis by (simp add: findNode_def)
next
  case False
  from assms obtain t where t: "repr t (nodes q) 0 (root q)" "dom (nodes q) = tkeys t"
    by (auto simp: qinv_def qrep_def)
  with False have "t \<noteq> Tip" by auto
  with findFrom_repr[OF t(1)] obtain r where
    r: "findFrom q pr v (root q) = Some r" "r \<in> tkeys t" by blast
  with t(2) obtain n where "nodes q r = Some n" by (metis dom_Some_iff)
  then show ?thesis using False r by (auto simp: findNode_def contents_def)
qed

text \<open>Every link of a stored node leads to a stored node.\<close>

lemma links_stored:
  assumes "qinv q" "nodes q k = Some n" "leaf n d \<noteq> 0"
  shows "nodes q (leaf n d) \<noteq> None"
proof -
  from assms(1) obtain t where t: "repr t (nodes q) 0 (root q)" "dom (nodes q) = tkeys t"
    by (auto simp: qinv_def qrep_def)
  have "repr u m p r \<Longrightarrow> k \<in> tkeys u \<Longrightarrow> m k = Some n \<Longrightarrow> leaf n d \<in> tkeys u" for u m p r
  proof (induction u arbitrary: p r rule: qtree_induct)
    case (Nd k' v ch)
    then obtain n' where n': "m r = Some n'" "r = k'" "\<forall>d. repr (ch d) m r (leaf n' d)" by auto
    show ?case
    proof (cases "k = k'")
      case True
      with n' Nd.prems have "repr (ch d) m r (leaf n d)" by auto
      with assms(3) have "leaf n d \<in> tkeys (ch d)" by (cases "ch d") auto
      then show ?thesis by auto
    next
      case False
      with Nd.prems(2) obtain d' where "k \<in> tkeys (ch d')" by auto
      with Nd.IH[of d'] n' Nd.prems(3) have "leaf n d \<in> tkeys (ch d')" by blast
      then show ?thesis by auto
    qed
  qed simp
  with t assms(2) have "leaf n d \<in> tkeys t" by blast
  with t show ?thesis by auto
qed

text \<open>
  A comparator and a predicate for which the branches the search leaves out cannot hold
  a value that satisfies the predicate.
\<close>

locale fit_search =
  fixes cmp :: "'v \<Rightarrow> 'v \<Rightarrow> direction" and fits :: "'v \<Rightarrow> 'v \<Rightarrow> bool"
  assumes fits_right: "cmp v n = RIGHT \<Longrightarrow> fits v w \<Longrightarrow> cmp w n = RIGHT"
    and fits_side: "cmp v n = UP \<or> cmp v n = DOWN \<Longrightarrow> fits v w \<Longrightarrow>
      cmp w n = cmp v n \<or> cmp w n = RIGHT"
    and fits_left: "cmp v n = LEFT \<Longrightarrow> fits v n"
begin

lemma findFrom_complete:
  assumes "repr t (nodes q) p k" "comparator q = cmp" "tordered cmp t" "w \<in> tvals t" "fits v w"
  shows "\<exists>r. findFrom q fits v k = Some r \<and> found_at q fits v r"
  using assms
proof (induction t arbitrary: p k rule: qtree_induct)
  case (Nd k' x ch)
  from Nd.prems obtain n where n: "k = k'" "k \<noteq> 0" "nodes q k = Some n" "nvalue n = x"
    and ch: "\<And>d. repr (ch d) (nodes q) k (leaf n d)" by auto
  obtain R where R: "\<And>d. findFrom q fits v (leaf n d) = Some (R d)"
    using findFrom_repr[OF ch] by metis
  have sub: "found_at q fits v (R d)" if "w \<in> tvals (ch d)" for d
    using Nd.IH[OF ch Nd.prems(2) _ that Nd.prems(5)] Nd.prems(3) R[of d] by auto
  have self: "fits v x \<Longrightarrow> found_at q fits v k" using n by (simp add: found_at_def)
  from Nd.prems(4) consider "w = x" | d where "w \<in> tvals (ch d)" by auto
  then have w: "found_at q fits v k \<or> found_at q fits v (R (cmp w x))"
  proof cases
    case 1
    then show ?thesis using self Nd.prems(5) by simp
  next
    case 2
    then have "cmp w x = d" using Nd.prems(3) by auto
    then show ?thesis using sub 2 by simp
  qed
  show ?case
    using n R[of LEFT] R[of RIGHT] R[of UP] R[of DOWN] w Nd.prems(2) self
      fits_right[OF _ Nd.prems(5), of x] fits_side[OF _ Nd.prems(5), of x] fits_left[of v x]
    by (cases "cmp v x"; subst findFrom.simps; auto simp: Let_def found_at_def)
qed simp

lemma findNode_complete:
  assumes "qsorted q" "comparator q = cmp" "contents q k = Some w" "fits v w"
  shows "\<exists>r w'. findNode q v fits = Some r \<and> r \<noteq> 0 \<and> contents q r = Some w' \<and> fits v w'"
proof -
  from assms(1,2) obtain t where q: "qrep q t" "tordered cmp t" by (auto simp: qsorted_def)
  then have t: "repr t (nodes q) 0 (root q)" "dom (nodes q) = tkeys t" by (auto simp: qrep_def)
  have "w \<in> tvals t" using assms(3) t(2) repr_vals[OF t(1), of w] by (force simp: contents_def)
  then have "root q \<noteq> 0" using t(1) by (cases t) auto
  from findFrom_complete[OF t(1) assms(2) q(2) \<open>w \<in> tvals t\<close> assms(4)] obtain r where
    r: "findFrom q fits v (root q) = Some r" "found_at q fits v r" by blast
  then have "findNode q v fits = Some r" "r \<noteq> 0"
    using \<open>root q \<noteq> 0\<close> by (auto simp: findNode_def found_at_def)
  with findNode_sound[OF qsorted_inv[OF assms(1)], of v fits] show ?thesis by auto
qed

end

section \<open>The store interface\<close>

text \<open>
  What a client of the tree relies on: a finite map under keys it chooses, where
  insertion of an unused key and deletion always return.
\<close>

locale value_store =
  fixes invar :: "'s \<Rightarrow> bool" and lookup :: "'s \<Rightarrow> nat \<rightharpoonup> 'v"
    and insert :: "'s \<Rightarrow> nat \<Rightarrow> 'v \<Rightarrow> 's option" and delete :: "'s \<Rightarrow> nat \<Rightarrow> 's option"
    and find :: "'s \<Rightarrow> 'v \<Rightarrow> ('v \<Rightarrow> 'v \<Rightarrow> bool) \<Rightarrow> nat option"
  assumes insert_spec: "invar s \<Longrightarrow> k \<noteq> 0 \<Longrightarrow> lookup s k = None \<Longrightarrow>
      \<exists>s'. insert s k v = Some s' \<and> invar s' \<and> lookup s' = (lookup s)(k \<mapsto> v)"
    and delete_spec: "invar s \<Longrightarrow>
      \<exists>s'. delete s k = Some s' \<and> invar s' \<and> lookup s' = (lookup s)(k := None)"
    and find_spec: "invar s \<Longrightarrow>
      \<exists>k. find s v P = Some k \<and> (k \<noteq> 0 \<longrightarrow> (\<exists>w. lookup s k = Some w \<and> P v w))"
begin

text \<open>All keys from \<open>n\<close> on are unused: the client numbers its entries consecutively.\<close>

definition fresh_from :: "nat \<Rightarrow> 's \<Rightarrow> bool" where
  "fresh_from n s \<longleftrightarrow> 0 < n \<and> (\<forall>k \<ge> n. lookup s k = None)"

lemma insert_fresh:
  assumes "invar s" "fresh_from n s"
  shows "\<exists>s'. insert s n v = Some s' \<and> invar s' \<and> fresh_from (Suc n) s' \<and>
    lookup s' = (lookup s)(n \<mapsto> v)"
  using insert_spec[OF assms(1), of n v] assms(2) unfolding fresh_from_def by fastforce

lemma delete_fresh:
  assumes "invar s" "fresh_from n s"
  shows "\<exists>s'. delete s k = Some s' \<and> invar s' \<and> fresh_from n s' \<and>
    lookup s' = (lookup s)(k := None)"
  using delete_spec[OF assms(1), of k] assms(2) unfolding fresh_from_def by fastforce

text \<open>A property of all pairs of entries survives the insertion of a compatible value.\<close>

lemma insert_pairwise:
  assumes "lookup s' = (lookup s)(n \<mapsto> v)" "fresh_from n s"
    and "\<And>i j a b. i \<noteq> j \<Longrightarrow> lookup s i = Some a \<Longrightarrow> lookup s j = Some b \<Longrightarrow> R a b"
    and "\<And>j b. lookup s j = Some b \<Longrightarrow> R v b \<and> R b v"
    and "i \<noteq> j" "lookup s' i = Some a" "lookup s' j = Some b"
  shows "R a b"
  using assms by (auto split: if_splits)

end

interpretation qt: value_store qinv contents add erase findNode
proof
  show "\<exists>s'. add s k v = Some s' \<and> qinv s' \<and> contents s' = (contents s)(k \<mapsto> v)"
    if "qinv s" "k \<noteq> 0" "contents s k = None" for s k v using add_inv[OF that] by blast
  show "\<exists>s'. erase s k = Some s' \<and> qinv s' \<and> contents s' = (contents s)(k := None)"
    if "qinv s" for s k using erase_inv[OF that] by blast
  show "\<exists>k. findNode s v P = Some k \<and> (k \<noteq> 0 \<longrightarrow> (\<exists>w. contents s k = Some w \<and> P v w))"
    if "qinv s" for s v P using findNode_sound[OF that] .
qed

end
