(* ===== verification/Texture_Atlas.thy ===== *)
theory Texture_Atlas
  imports Quad_Tree_Refine
begin

text \<open>
  The texture atlas of \<^verbatim>\<open>src/Code/Maple/src/Engine/TextureAtlas.cpp\<close>: a packer that
  places sprites row by row into one texture and keeps the rectangles it could not use
  (the leftovers) in a quad tree, to be reused and split later. Coordinates are C++
  \<^verbatim>\<open>int16_t\<close>, so every store converts with \<open>to_i16\<close>; a comparison with the texture
  size is done in \<^verbatim>\<open>uint32_t\<close>. The texture object is represented by its size and by the
  log of the uploads the atlas requested.
\<close>

section \<open>Leftover rectangles\<close>

record leftover =
  lo_l :: int
  lo_r :: int
  lo_t :: int
  lo_b :: int

definition LeftOver :: "int \<Rightarrow> int \<Rightarrow> int \<Rightarrow> int \<Rightarrow> leftover" where
  "LeftOver x y w h =
     (let x' = to_i16 x; y' = to_i16 y
      in \<lparr>lo_l = x', lo_r = to_i16 (x' + to_i16 w), lo_t = y', lo_b = to_i16 (y' + to_i16 h)\<rparr>)"

definition LeftOver_default :: leftover where
  "LeftOver_default = \<lparr>lo_l = 0, lo_r = 0, lo_t = 0, lo_b = 0\<rparr>"

definition lo_width :: "leftover \<Rightarrow> int" where
  "lo_width v = lo_r v - lo_l v"

definition lo_height :: "leftover \<Rightarrow> int" where
  "lo_height v = lo_b v - lo_t v"

definition leftover_compare :: "leftover \<Rightarrow> leftover \<Rightarrow> direction" where
  "leftover_compare first second =
     (let wcomp = lo_width second \<le> lo_width first; hcomp = lo_height second \<le> lo_height first
      in if wcomp \<and> hcomp then RIGHT else if wcomp then DOWN else if hcomp then UP else LEFT)"

definition leftover_fits :: "leftover \<Rightarrow> leftover \<Rightarrow> bool" where
  "leftover_fits val lf \<longleftrightarrow> lo_width val \<le> lo_width lf \<and> lo_height val \<le> lo_height lf"

section \<open>Quads\<close>

text \<open>
  \<^verbatim>\<open>Quad2D\<close> as the atlas uses it: the size and the four corners. A corner is kept as the
  pair of numerators that the code divides by the texture's width and height.
\<close>

record quad =
  quad_w :: int
  quad_h :: int
  texCoords :: "(int \<times> int) list"

definition setTexCoords :: "int \<Rightarrow> int \<Rightarrow> int \<Rightarrow> int \<Rightarrow> quad" where
  "setTexCoords x y w h =
     (let x = to_u32 x; y = to_u32 y; w = to_u32 w; h = to_u32 h
      in \<lparr>quad_w = w, quad_h = h,
          texCoords = [(x, to_u32 (y + h)), (to_u32 (x + w), to_u32 (y + h)),
                       (to_u32 (x + w), y), (x, y)]\<rparr>)"

section \<open>The atlas\<close>

record 'd atlas =
  tex_w :: int
  tex_h :: int
  rlid :: nat
  wasted :: int
  usage :: "int \<times> int"
  offsets :: "string \<rightharpoonup> quad"
  leftovers :: "leftover quadtree"
  border :: "int \<times> int"
  yRange :: "int \<times> int"
  uploads :: "(int \<times> int \<times> int \<times> int \<times> 'd) list"

definition MINLOSIZE :: int where
  "MINLOSIZE = 4"

definition new_atlas :: "int \<Rightarrow> int \<Rightarrow> 'd atlas" where
  "new_atlas w h =
     \<lparr>tex_w = w, tex_h = h, rlid = 1, wasted = 0, usage = (0, 1), offsets = Map.empty,
      leftovers = empty_tree leftover_compare LeftOver_default,
      border = (0, 0), yRange = (0, 0), uploads = []\<rparr>"

definition add_leftover :: "'d atlas \<Rightarrow> leftover \<Rightarrow> 'd atlas option" where
  "add_leftover a v =
     do { q \<leftarrow> add (leftovers a) (rlid a) v;
          Some (a\<lparr>leftovers := q, rlid := Suc (rlid a)\<rparr>) }"

text \<open>The branch of \<open>update\<close> that reuses the leftover \<open>lid\<close>.\<close>

definition place_in_leftover ::
  "'d atlas \<Rightarrow> nat \<Rightarrow> int \<Rightarrow> int \<Rightarrow> ('d atlas \<times> int \<times> int) option" where
  "place_in_leftover a lid w h =
     (let lo = value_at (leftovers a) lid;
          x = lo_l lo; y = lo_t lo;
          wdelta = lo_width lo - w; hdelta = lo_height lo - h
      in do {
        q \<leftarrow> erase (leftovers a) lid;
        a1 \<leftarrow> Some (a\<lparr>leftovers := q, wasted := to_u64 (wasted a - w * h)\<rparr>);
        a2 \<leftarrow>
          (if MINLOSIZE \<le> wdelta \<and> MINLOSIZE \<le> hdelta then
             do { b1 \<leftarrow> add_leftover a1 (LeftOver (x + w) (y + h) wdelta hdelta);
                  b2 \<leftarrow> (if MINLOSIZE \<le> w then add_leftover b1 (LeftOver x (y + h) w hdelta)
                        else Some b1);
                  (if MINLOSIZE \<le> h then add_leftover b2 (LeftOver (x + w) y wdelta h)
                   else Some b2) }
           else if MINLOSIZE \<le> wdelta then
             add_leftover a1 (LeftOver (x + w) y wdelta (h + hdelta))
           else if MINLOSIZE \<le> hdelta then
             add_leftover a1 (LeftOver x (y + h) (w + wdelta) hdelta)
           else Some a1);
        Some (a2, x, y) })"

text \<open>The end of the other branch: the sprite goes to the border of the current row.\<close>

definition place_in_row :: "'d atlas \<Rightarrow> int \<Rightarrow> int \<Rightarrow> ('d atlas \<times> int \<times> int) option" where
  "place_in_row a w h =
     (let x = fst (border a); y = snd (border a);
          a1 = a\<lparr>border := (to_i16 (x + w), y)\<rparr>
      in do {
        a2 \<leftarrow>
          (if snd (yRange a) < h then
             do { b \<leftarrow> (if MINLOSIZE \<le> x \<and> MINLOSIZE \<le> h - snd (yRange a)
                        then add_leftover a1 (LeftOver 0 (fst (yRange a)) x (h - snd (yRange a)))
                        else Some a1);
                  Some (b\<lparr>wasted := to_u64 (wasted b + x * (h - snd (yRange a))),
                           yRange := (to_i16 (y + h), h)\<rparr>) }
           else if h < fst (yRange a) - y then
             do { b \<leftarrow> (if MINLOSIZE \<le> w \<and> MINLOSIZE \<le> fst (yRange a) - y - h
                        then add_leftover a1 (LeftOver x (y + h) w (fst (yRange a) - y - h))
                        else Some a1);
                  Some (b\<lparr>wasted := to_u64 (wasted b + w * (fst (yRange a) - y - h))\<rparr>) }
           else Some a1);
        Some (a2, x, y) })"

definition place_at_border ::
  "'d atlas \<Rightarrow> int \<Rightarrow> int \<Rightarrow> ('d atlas \<times> (int \<times> int) option) option" where
  "place_at_border a w h =
     (if tex_w a < to_u32 (fst (border a) + w) then
        let prevBorder = fst (border a);
            by = to_i16 (snd (border a) + snd (yRange a))
        in if tex_h a < to_u32 (by + h) then
             Some (a\<lparr>border := (prevBorder, to_i16 (by - snd (yRange a)))\<rparr>, None)
           else
             do { (b, x, y) \<leftarrow> place_in_row (a\<lparr>border := (0, by), yRange := (0, 0)\<rparr>) w h;
                  Some (b, Some (x, y)) }
      else if tex_h a < to_u32 (snd (border a) + h) then Some (a, None)
      else do { (b, x, y) \<leftarrow> place_in_row a w h; Some (b, Some (x, y)) })"

definition store_sprite ::
  "'d atlas \<Rightarrow> string \<Rightarrow> 'd \<Rightarrow> int \<Rightarrow> int \<Rightarrow> int \<Rightarrow> int \<Rightarrow> 'd atlas \<times> quad" where
  "store_sprite a uniqueName buffer x y w h =
     (let quad = setTexCoords x y w h;
          used = to_u32 (tex_w a * snd (border a) + fst (border a) * snd (yRange a))
      in (a\<lparr>uploads := uploads a @ [(x, y, w, h, buffer)],
             offsets := (offsets a)(uniqueName \<mapsto> quad),
             usage := (used, to_u32 (tex_w a * tex_h a))\<rparr>, quad))"

definition update ::
  "'d atlas \<Rightarrow> string \<Rightarrow> 'd \<Rightarrow> int \<Rightarrow> int \<Rightarrow> ('d atlas \<times> quad option) option" where
  "update a uniqueName buffer width height =
     (if width \<le> 0 \<or> height \<le> 0 then Some (a, None)
      else
        let w = to_i16 width; h = to_i16 height; val = LeftOver 0 0 w h
        in do {
          lid \<leftarrow> findNode (leftovers a) val leftover_fits;
          (a1, pos) \<leftarrow>
            (if 0 < lid then
               do { (b, x, y) \<leftarrow> place_in_leftover a lid w h; Some (b, Some (x, y)) }
             else place_at_border a w h);
          (case pos of
             None \<Rightarrow> Some (a1, None)
           | Some (x, y) \<Rightarrow>
               let (a2, quad) = store_sprite a1 uniqueName buffer x y w h
               in Some (a2, Some quad)) })"

text \<open>
  The two overloads of \<^verbatim>\<open>addSprite\<close>. The first takes its pixels from the image cache,
  which reads a file with the stb library: \<open>imageOf\<close> stands for it and gives the buffer,
  the width and the height.
\<close>

definition addSprite_data ::
  "'d atlas \<Rightarrow> string \<Rightarrow> 'd \<Rightarrow> int \<Rightarrow> int \<Rightarrow> ('d atlas \<times> quad option) option" where
  "addSprite_data a uniqueName buffer w h =
     (case offsets a uniqueName of
        Some quad \<Rightarrow> Some (a, Some quad)
      | None \<Rightarrow> update a uniqueName buffer w h)"

definition addSprite_file ::
  "(string \<Rightarrow> 'd \<times> int \<times> int) \<Rightarrow> 'd atlas \<Rightarrow> string \<Rightarrow> ('d atlas \<times> quad option) option" where
  "addSprite_file imageOf a file =
     (case offsets a file of
        Some quad \<Rightarrow> Some (a, Some quad)
      | None \<Rightarrow>
          (case imageOf file of
             (buffer, w, h) \<Rightarrow>
               if w \<le> 0 \<or> h \<le> 0 then Some (a, None) else update a file buffer w h))"

section \<open>Geometry\<close>

definition apart :: "leftover \<Rightarrow> leftover \<Rightarrow> bool" where
  "apart u v \<longleftrightarrow> lo_r u \<le> lo_l v \<or> lo_r v \<le> lo_l u \<or> lo_b u \<le> lo_t v \<or> lo_b v \<le> lo_t u"

definition inside :: "leftover \<Rightarrow> leftover \<Rightarrow> bool" where
  "inside u v \<longleftrightarrow> lo_l v \<le> lo_l u \<and> lo_r u \<le> lo_r v \<and> lo_t v \<le> lo_t u \<and> lo_b u \<le> lo_b v"

definition texels :: "leftover \<Rightarrow> (int \<times> int) set" where
  "texels v = {lo_l v..<lo_r v} \<times> {lo_t v..<lo_b v}"

text \<open>The texture region of a quad: from its last corner, as wide and high as it says.\<close>

definition qrect :: "quad \<Rightarrow> leftover" where
  "qrect q = (case last (texCoords q) of (x, y) \<Rightarrow>
     \<lparr>lo_l = x, lo_r = x + quad_w q, lo_t = y, lo_b = y + quad_h q\<rparr>)"

lemma apart_sym: "apart u v \<Longrightarrow> apart v u"
  by (auto simp: apart_def)

lemma apart_inside: "apart u v \<Longrightarrow> inside w u \<Longrightarrow> apart w v"
  by (auto simp: apart_def inside_def)

lemma apart_texels: "apart u v \<Longrightarrow> texels u \<inter> texels v = {}"
  by (auto simp: apart_def texels_def)

interpretation lo_fit: fit_search leftover_compare leftover_fits
  by unfold_locales
    (auto simp: leftover_compare_def leftover_fits_def Let_def split: if_splits)

section \<open>The layout invariant\<close>

text \<open>
  \<open>layout U L O\<close>: all leftovers \<open>L\<close> and all placed quads \<open>O\<close> lie in the region \<open>U\<close>, and
  no two of them overlap.
\<close>

definition layout ::
  "(leftover \<Rightarrow> bool) \<Rightarrow> (nat \<rightharpoonup> leftover) \<Rightarrow> (string \<rightharpoonup> quad) \<Rightarrow> bool" where
  "layout U L Q \<longleftrightarrow>
     (\<forall>i u. L i = Some u \<longrightarrow> U u) \<and> (\<forall>m p. Q m = Some p \<longrightarrow> U (qrect p)) \<and>
     (\<forall>i j u v. i \<noteq> j \<longrightarrow> L i = Some u \<longrightarrow> L j = Some v \<longrightarrow> apart u v) \<and>
     (\<forall>m n p q. m \<noteq> n \<longrightarrow> Q m = Some p \<longrightarrow> Q n = Some q \<longrightarrow> apart (qrect p) (qrect q)) \<and>
     (\<forall>i u m p. L i = Some u \<longrightarrow> Q m = Some p \<longrightarrow> apart u (qrect p))"

text \<open>The part of the texture that complete rows and the current row have used.\<close>

definition used_region :: "int \<Rightarrow> int \<Rightarrow> int \<times> int \<Rightarrow> int \<Rightarrow> leftover \<Rightarrow> bool" where
  "used_region W H bd rh v \<longleftrightarrow>
     0 \<le> lo_l v \<and> lo_l v < lo_r v \<and> lo_r v \<le> W \<and>
     0 \<le> lo_t v \<and> lo_t v < lo_b v \<and> lo_b v \<le> H \<and>
     (lo_b v \<le> snd bd \<or> lo_b v \<le> snd bd + rh \<and> lo_r v \<le> fst bd)"

definition row_ok :: "int \<Rightarrow> int \<Rightarrow> int \<times> int \<Rightarrow> int \<times> int \<Rightarrow> bool" where
  "row_ok W H bd yr \<longleftrightarrow>
     0 \<le> fst bd \<and> fst bd \<le> W \<and> 0 \<le> snd bd \<and> 0 \<le> snd yr \<and> snd bd + snd yr \<le> H \<and>
     (snd yr = 0 \<longrightarrow> fst bd = 0) \<and> (0 < snd yr \<longrightarrow> fst yr = snd bd + snd yr)"

definition store_ok :: "leftover quadtree \<Rightarrow> nat \<Rightarrow> bool" where
  "store_ok q n \<longleftrightarrow> qinv q \<and> 0 < n \<and> (\<forall>k \<ge> n. contents q k = None)"

text \<open>
  The invariant for a given map of placed quads: an operation places the sprite first
  and records its quad last.
\<close>

definition atlas_ok :: "'d atlas \<Rightarrow> (string \<rightharpoonup> quad) \<Rightarrow> bool" where
  "atlas_ok a Q \<longleftrightarrow>
     0 < tex_w a \<and> tex_w a < 32768 \<and> 0 < tex_h a \<and> tex_h a < 32768 \<and>
     store_ok (leftovers a) (rlid a) \<and> row_ok (tex_w a) (tex_h a) (border a) (yRange a) \<and>
     layout (used_region (tex_w a) (tex_h a) (border a) (snd (yRange a)))
       (contents (leftovers a)) Q"

definition atlas_inv :: "'d atlas \<Rightarrow> bool" where
  "atlas_inv a \<longleftrightarrow> atlas_ok a (offsets a)"

definition same_texture :: "'d atlas \<Rightarrow> 'd atlas \<Rightarrow> bool" where
  "same_texture a b \<longleftrightarrow>
     tex_w b = tex_w a \<and> tex_h b = tex_h a \<and> offsets b = offsets a \<and> uploads b = uploads a"

lemma layoutD:
  assumes "layout U L Q"
  shows "L i = Some u \<Longrightarrow> U u" and "Q m = Some p \<Longrightarrow> U (qrect p)"
    and "i \<noteq> j \<Longrightarrow> L i = Some u \<Longrightarrow> L j = Some v \<Longrightarrow> apart u v"
    and "m \<noteq> n \<Longrightarrow> Q m = Some p \<Longrightarrow> Q n = Some q \<Longrightarrow> apart (qrect p) (qrect q)"
    and "L i = Some u \<Longrightarrow> Q m = Some p \<Longrightarrow> apart u (qrect p)"
proof -
  note l = assms[unfolded layout_def]
  show "L i = Some u \<Longrightarrow> U u" using l[THEN conjunct1] by simp
  show "Q m = Some p \<Longrightarrow> U (qrect p)" using l[THEN conjunct2, THEN conjunct1] by simp
  show "i \<noteq> j \<Longrightarrow> L i = Some u \<Longrightarrow> L j = Some v \<Longrightarrow> apart u v"
    using l[THEN conjunct2, THEN conjunct2, THEN conjunct1] by blast
  show "m \<noteq> n \<Longrightarrow> Q m = Some p \<Longrightarrow> Q n = Some q \<Longrightarrow> apart (qrect p) (qrect q)"
    using l[THEN conjunct2, THEN conjunct2, THEN conjunct2, THEN conjunct1] by blast
  show "L i = Some u \<Longrightarrow> Q m = Some p \<Longrightarrow> apart u (qrect p)"
    using l[THEN conjunct2, THEN conjunct2, THEN conjunct2, THEN conjunct2] by blast
qed

lemma layout_mono: "layout U L Q \<Longrightarrow> (\<And>v. U v \<Longrightarrow> U' v) \<Longrightarrow> layout U' L Q"
  by (simp add: layout_def)

lemma layout_del: "layout U L Q \<Longrightarrow> layout U (L(k := None)) Q"
  by (simp add: layout_def)

lemma layout_add_leftover:
  assumes "layout U L Q" "U p" "\<And>i u. L i = Some u \<Longrightarrow> apart p u"
    "\<And>m q. Q m = Some q \<Longrightarrow> apart p (qrect q)"
  shows "layout U (L(k \<mapsto> p)) Q"
  using assms unfolding layout_def by (auto intro: apart_sym)

lemma layout_add_quad:
  assumes "layout U L Q" "U (qrect p)" "\<And>i u. L i = Some u \<Longrightarrow> apart u (qrect p)"
    "\<And>m q. Q m = Some q \<Longrightarrow> apart (qrect p) (qrect q)"
  shows "layout U L (Q(n \<mapsto> p))"
  using assms unfolding layout_def by (auto intro: apart_sym)

lemma store_ok_fresh: "store_ok q n \<longleftrightarrow> qinv q \<and> qt.fresh_from n q"
  by (auto simp: store_ok_def qt.fresh_from_def)

lemma add_leftovers_layout:
  assumes "store_ok (leftovers a) (rlid a)" "layout U (contents (leftovers a)) Q"
    and "\<And>p. p \<in> set ps \<Longrightarrow> U p"
    and "\<And>p i u. p \<in> set ps \<Longrightarrow> contents (leftovers a) i = Some u \<Longrightarrow> apart p u"
    and "\<And>p m q. p \<in> set ps \<Longrightarrow> Q m = Some q \<Longrightarrow> apart p (qrect q)"
    and "sorted_wrt apart ps"
  shows "\<exists>q n. ofold (\<lambda>v b. add_leftover b v) ps a = Some (a\<lparr>leftovers := q, rlid := n\<rparr>) \<and>
    store_ok q n \<and> layout U (contents q) Q"
  using assms
proof (induction ps arbitrary: a)
  case Nil
  then show ?case by (auto intro!: exI[of _ "leftovers a"] exI[of _ "rlid a"])
next
  case (Cons p ps)
  from qt.insert_fresh[of "leftovers a" "rlid a" p] Cons.prems(1) obtain q where
    q: "add (leftovers a) (rlid a) p = Some q" "store_ok q (Suc (rlid a))"
      "contents q = (contents (leftovers a))(rlid a \<mapsto> p)" by (auto simp: store_ok_fresh)
  let ?b = "a\<lparr>leftovers := q, rlid := Suc (rlid a)\<rparr>"
  have "layout U (contents q) Q"
    unfolding q(3) using Cons.prems by (intro layout_add_leftover) auto
  moreover have "apart r u" if "r \<in> set ps" "contents q i = Some u" for r i u
    using that Cons.prems(4,6) q(3) by (auto split: if_splits intro: apart_sym)
  ultimately have "\<exists>q' n. ofold (\<lambda>v b. add_leftover b v) ps ?b =
      Some (?b\<lparr>leftovers := q', rlid := n\<rparr>) \<and> store_ok q' n \<and> layout U (contents q') Q"
    using Cons.prems q(2) by (intro Cons.IH) auto
  moreover have "add_leftover a p = Some ?b" using q(1) by (simp add: add_leftover_def)
  ultimately show ?case by auto
qed

section \<open>Reusing a leftover\<close>

definition pieces :: "leftover \<Rightarrow> int \<Rightarrow> int \<Rightarrow> leftover list" where
  "pieces lo w h =
     (let x = lo_l lo; y = lo_t lo; wdelta = lo_width lo - w; hdelta = lo_height lo - h
      in if MINLOSIZE \<le> wdelta \<and> MINLOSIZE \<le> hdelta then
           [LeftOver (x + w) (y + h) wdelta hdelta] @
           (if MINLOSIZE \<le> w then [LeftOver x (y + h) w hdelta] else []) @
           (if MINLOSIZE \<le> h then [LeftOver (x + w) y wdelta h] else [])
         else if MINLOSIZE \<le> wdelta then [LeftOver (x + w) y wdelta (h + hdelta)]
         else if MINLOSIZE \<le> hdelta then [LeftOver x (y + h) (w + wdelta) hdelta]
         else [])"

lemma place_in_leftover_pieces:
  "place_in_leftover a lid w h =
     (let lo = value_at (leftovers a) lid in do {
        q \<leftarrow> erase (leftovers a) lid;
        b \<leftarrow> ofold (\<lambda>v b. add_leftover b v) (pieces lo w h)
               (a\<lparr>leftovers := q, wasted := to_u64 (wasted a - w * h)\<rparr>);
        Some (b, lo_l lo, lo_t lo) })"
  by (simp add: place_in_leftover_def pieces_def Let_def bind_assoc)

lemma LeftOver_id:
  assumes "0 \<le> x" "0 \<le> w" "x + w < 32768" "0 \<le> y" "0 \<le> h" "y + h < 32768"
  shows "LeftOver x y w h = \<lparr>lo_l = x, lo_r = x + w, lo_t = y, lo_b = y + h\<rparr>"
  using assms by (simp add: LeftOver_def Let_def)

lemma qrect_setTexCoords:
  assumes "0 \<le> x" "0 \<le> y" "0 \<le> w" "0 \<le> h" "x < 32768" "y < 32768" "w < 32768" "h < 32768"
  shows "qrect (setTexCoords x y w h) = \<lparr>lo_l = x, lo_r = x + w, lo_t = y, lo_b = y + h\<rparr>"
  using assms by (simp add: setTexCoords_def qrect_def Let_def)

lemma pieces_split:
  assumes "0 \<le> lo_l lo" "lo_r lo < 32768" "0 \<le> lo_t lo" "lo_b lo < 32768"
    and "0 < w" "w \<le> lo_width lo" "0 < h" "h \<le> lo_height lo"
  defines "s \<equiv> \<lparr>lo_l = lo_l lo, lo_r = lo_l lo + w, lo_t = lo_t lo, lo_b = lo_t lo + h\<rparr>"
  shows "inside s lo"
    and "\<forall>p \<in> set (pieces lo w h). inside p lo \<and> apart p s \<and> lo_l p < lo_r p \<and> lo_t p < lo_b p"
    and "sorted_wrt apart (pieces lo w h)"
proof -
  show "inside s lo" using assms by (auto simp: inside_def lo_width_def lo_height_def)
  show "\<forall>p \<in> set (pieces lo w h). inside p lo \<and> apart p s \<and> lo_l p < lo_r p \<and> lo_t p < lo_b p"
    using assms unfolding pieces_def Let_def
    by (auto simp: inside_def apart_def lo_width_def lo_height_def LeftOver_id MINLOSIZE_def)
  show "sorted_wrt apart (pieces lo w h)"
    using assms unfolding pieces_def Let_def
    by (auto simp: apart_def lo_width_def lo_height_def LeftOver_id MINLOSIZE_def)
qed

lemma place_in_leftover_ok:
  assumes inv: "atlas_inv a" and lo: "contents (leftovers a) lid = Some lo"
    and wh: "0 < w" "w \<le> lo_width lo" "0 < h" "h \<le> lo_height lo"
  shows "\<exists>b. place_in_leftover a lid w h = Some (b, lo_l lo, lo_t lo) \<and> same_texture a b \<and>
    atlas_ok b ((offsets a)(name \<mapsto> setTexCoords (lo_l lo) (lo_t lo) w h))"
proof -
  let ?U = "used_region (tex_w a) (tex_h a) (border a) (snd (yRange a))"
  let ?s = "\<lparr>lo_l = lo_l lo, lo_r = lo_l lo + w, lo_t = lo_t lo, lo_b = lo_t lo + h\<rparr>"
  let ?p = "setTexCoords (lo_l lo) (lo_t lo) w h"
  from inv have st: "store_ok (leftovers a) (rlid a)"
    and lay: "layout ?U (contents (leftovers a)) (offsets a)"
    and tex: "tex_w a < 32768" "tex_h a < 32768" by (auto simp: atlas_inv_def atlas_ok_def)
  have U: "?U lo" using lay lo by (auto simp: layout_def)
  then have range: "0 \<le> lo_l lo" "lo_r lo < 32768" "0 \<le> lo_t lo" "lo_b lo < 32768"
    using tex by (auto simp: used_region_def)
  note split = pieces_split[OF range wh]
  have qr: "qrect ?p = ?s"
    using range wh by (intro qrect_setTexCoords) (auto simp: lo_width_def lo_height_def)
  have Up: "?U p" if "inside p lo" "lo_l p < lo_r p" "lo_t p < lo_b p" for p
    using U that by (auto simp: used_region_def inside_def)
  from qt.delete_fresh[of "leftovers a" "rlid a" lid] st obtain q where
    q: "erase (leftovers a) lid = Some q" "store_ok q (rlid a)"
      "contents q = (contents (leftovers a))(lid := None)" by (auto simp: store_ok_fresh)
  let ?b = "a\<lparr>leftovers := q, wasted := to_u64 (wasted a - w * h)\<rparr>"
  have L: "apart lo u" if "contents q i = Some u" for i u
    using that q(3) layoutD(3)[OF lay _ lo, of i u] by (cases "i = lid") auto
  have O: "apart lo (qrect p)" if "offsets a m = Some p" for m p
    using layoutD(5)[OF lay lo that] .
  have "layout ?U (contents q) (offsets a)" unfolding q(3) using lay by (rule layout_del)
  then have "layout ?U (contents q) ((offsets a)(name \<mapsto> ?p))"
    using Up[OF split(1)] wh apart_sym[OF apart_inside[OF L split(1)]]
      apart_inside[OF O split(1)]
    by (intro layout_add_quad) (simp_all add: qr)
  then have "\<exists>q' n. ofold (\<lambda>v b. add_leftover b v) (pieces lo w h) ?b =
      Some (?b\<lparr>leftovers := q', rlid := n\<rparr>) \<and> store_ok q' n \<and>
      layout ?U (contents q') ((offsets a)(name \<mapsto> ?p))"
    using q(2) split Up apart_inside[OF L] apart_inside[OF O]
    by (intro add_leftovers_layout) (auto simp: qr split: if_splits)
  then obtain q' n where "ofold (\<lambda>v b. add_leftover b v) (pieces lo w h) ?b =
      Some (?b\<lparr>leftovers := q', rlid := n\<rparr>)" "store_ok q' n"
      "layout ?U (contents q') ((offsets a)(name \<mapsto> ?p))" by blast
  moreover have "value_at (leftovers a) lid = lo"
    using lo by (auto simp: value_at_def contents_def node_at_def split: option.splits)
  ultimately show ?thesis using q(1) inv
    by (auto simp: place_in_leftover_pieces same_texture_def atlas_inv_def atlas_ok_def)
qed

section \<open>Extending the current row\<close>

definition row_pieces :: "int \<times> int \<Rightarrow> int \<times> int \<Rightarrow> int \<Rightarrow> int \<Rightarrow> leftover list" where
  "row_pieces bd yr w h =
     (if snd yr < h then
        (if MINLOSIZE \<le> fst bd \<and> MINLOSIZE \<le> h - snd yr
         then [LeftOver 0 (fst yr) (fst bd) (h - snd yr)] else [])
      else if h < fst yr - snd bd then
        (if MINLOSIZE \<le> w \<and> MINLOSIZE \<le> fst yr - snd bd - h
         then [LeftOver (fst bd) (snd bd + h) w (fst yr - snd bd - h)] else [])
      else [])"

definition row_waste :: "int \<times> int \<Rightarrow> int \<times> int \<Rightarrow> int \<Rightarrow> int \<Rightarrow> int" where
  "row_waste bd yr w h =
     (if snd yr < h then fst bd * (h - snd yr)
      else if h < fst yr - snd bd then w * (fst yr - snd bd - h) else 0)"

lemma place_in_row_pieces:
  "place_in_row a w h =
     do { b \<leftarrow> ofold (\<lambda>v b. add_leftover b v) (row_pieces (border a) (yRange a) w h)
               (a\<lparr>border := (to_i16 (fst (border a) + w), snd (border a))\<rparr>);
          c \<leftarrow> Some (if snd (yRange a) < h \<or> h < fst (yRange a) - snd (border a)
                    then b\<lparr>wasted := to_u64 (wasted b + row_waste (border a) (yRange a) w h)\<rparr>
                    else b);
          Some (if snd (yRange a) < h
                then c\<lparr>yRange := (to_i16 (snd (border a) + h), h)\<rparr> else c,
                fst (border a), snd (border a)) }"
  by (simp add: place_in_row_def row_pieces_def row_waste_def Let_def bind_assoc)

lemma row_pieces_shape:
  assumes "row_ok W H (x, y) (rt, rh)" "W < 32768" "H < 32768" "0 < w" "x + w \<le> W" "0 < h"
    "y + h \<le> H"
  shows "row_pieces (x, y) (rt, rh) w h = [] \<or>
    rh < h \<and> 0 < x \<and>
      row_pieces (x, y) (rt, rh) w h = [\<lparr>lo_l = 0, lo_r = x, lo_t = y + rh, lo_b = y + h\<rparr>] \<or>
    h < rh \<and>
      row_pieces (x, y) (rt, rh) w h = [\<lparr>lo_l = x, lo_r = x + w, lo_t = y + h, lo_b = y + rh\<rparr>]"
  using assms by (auto simp: row_ok_def row_pieces_def LeftOver_id MINLOSIZE_def)

lemma place_in_row_ok:
  assumes tex: "0 < tex_w a" "tex_w a < 32768" "0 < tex_h a" "tex_h a < 32768"
    and st: "store_ok (leftovers a) (rlid a)"
    and row: "row_ok (tex_w a) (tex_h a) (border a) (yRange a)"
    and lay: "layout (used_region (tex_w a) (tex_h a) (border a) (snd (yRange a)))
      (contents (leftovers a)) (offsets a)"
    and wh: "0 < w" "fst (border a) + w \<le> tex_w a" "0 < h" "snd (border a) + h \<le> tex_h a"
  shows "\<exists>b. place_in_row a w h = Some (b, border a) \<and> same_texture a b \<and>
    atlas_ok b ((offsets a)(name \<mapsto> setTexCoords (fst (border a)) (snd (border a)) w h))"
proof -
  obtain x y rt rh where xy: "border a = (x, y)" "yRange a = (rt, rh)" by (metis surj_pair)
  let ?U = "used_region (tex_w a) (tex_h a) (x + w, y) (max rh h)"
  let ?s = "\<lparr>lo_l = x, lo_r = x + w, lo_t = y, lo_b = y + h\<rparr>"
  let ?p = "setTexCoords x y w h" and ?ps = "row_pieces (x, y) (rt, rh) w h"
  note r = row[unfolded row_ok_def xy fst_conv snd_conv]
  note wh' = wh[unfolded xy fst_conv snd_conv]
  have qr: "qrect ?p = ?s" using r wh' tex by (intro qrect_setTexCoords) auto
  note shape = row_pieces_shape[OF row[unfolded xy] tex(2,4) wh']
  have far: "apart p u" if "used_region (tex_w a) (tex_h a) (x, y) rh u" "p = ?s \<or> p \<in> set ?ps"
    for p u
    using shape that r wh' by (elim disjE) (auto simp: used_region_def apart_def)
  have U: "?U p" if "p = ?s \<or> p \<in> set ?ps" for p
    using shape that r wh' by (elim disjE) (auto simp: used_region_def)
  have ps: "sorted_wrt apart ?ps" "\<forall>p \<in> set ?ps. apart p ?s"
    using shape by (auto simp: apart_def)
  have lay0: "layout (used_region (tex_w a) (tex_h a) (x, y) rh) (contents (leftovers a)) (offsets a)"
    using lay by (simp add: xy)
  then have "layout ?U (contents (leftovers a)) (offsets a)"
    by (rule layout_mono) (use wh' in \<open>auto simp: used_region_def\<close>)
  then have "layout ?U (contents (leftovers a)) ((offsets a)(name \<mapsto> ?p))"
    using U layoutD(1,2)[OF lay0] far by (intro layout_add_quad) (auto simp: qr intro: apart_sym)
  then have "\<exists>q n. ofold (\<lambda>v b. add_leftover b v) ?ps (a\<lparr>border := (to_i16 (x + w), y)\<rparr>) =
      Some (a\<lparr>border := (to_i16 (x + w), y)\<rparr>\<lparr>leftovers := q, rlid := n\<rparr>) \<and> store_ok q n \<and>
      layout ?U (contents q) ((offsets a)(name \<mapsto> ?p))"
    using st U ps layoutD(1,2)[OF lay0] far
    by (intro add_leftovers_layout) (auto simp: qr split: if_splits)
  then obtain q n where "ofold (\<lambda>v b. add_leftover b v) ?ps (a\<lparr>border := (to_i16 (x + w), y)\<rparr>) =
      Some (a\<lparr>border := (to_i16 (x + w), y)\<rparr>\<lparr>leftovers := q, rlid := n\<rparr>)" "store_ok q n"
      "layout ?U (contents q) ((offsets a)(name \<mapsto> ?p))" by blast
  then show ?thesis using r wh' tex
    by (auto simp: place_in_row_pieces xy same_texture_def atlas_ok_def row_ok_def max_def)
qed

lemma layout_used_new_row:
  assumes "layout (used_region W H (x, y) rh) L Q" "0 \<le> rh"
  shows "layout (used_region W H (0, y + rh) 0) L Q"
  using assms(1) by (rule layout_mono) (use assms(2) in \<open>auto simp: used_region_def\<close>)

lemma place_at_border_cases:
  assumes inv: "atlas_inv a" and wh: "0 < w" "w \<le> tex_w a" "0 < h" "h < 32768"
  shows "place_at_border a w h = Some (a, None) \<or>
    (\<exists>b x y. place_at_border a w h = Some (b, Some (x, y)) \<and> same_texture a b \<and>
       0 \<le> x \<and> x < 32768 \<and> 0 \<le> y \<and> y < 32768 \<and>
       atlas_ok b ((offsets a)(name \<mapsto> setTexCoords x y w h)))"
proof -
  obtain x y rt rh where xy: "border a = (x, y)" "yRange a = (rt, rh)" by (metis surj_pair)
  note i = inv[unfolded atlas_inv_def atlas_ok_def]
  have tex: "0 < tex_w a" "tex_w a < 32768" "0 < tex_h a" "tex_h a < 32768"
    and st: "store_ok (leftovers a) (rlid a)"
    and row: "row_ok (tex_w a) (tex_h a) (border a) (yRange a)"
    and lay: "layout (used_region (tex_w a) (tex_h a) (border a) (snd (yRange a)))
      (contents (leftovers a)) (offsets a)" using i by blast+
  have r: "0 \<le> x" "x \<le> tex_w a" "0 \<le> y" "0 \<le> rh" "y + rh \<le> tex_h a"
    using row by (auto simp: row_ok_def xy)
  let ?a = "a\<lparr>border := (0, y + rh), yRange := (0, 0)\<rparr>"
  show ?thesis
  proof (cases "tex_w a < x + w")
    case True
    show ?thesis
    proof (cases "tex_h a < y + rh + h")
      case True
      have "a\<lparr>border := (x, y)\<rparr> = a" using xy by simp
      with \<open>tex_w a < x + w\<close> True r tex wh show ?thesis
        by (simp add: place_at_border_def xy Let_def)
    next
      case False
      have "\<exists>b. place_in_row ?a w h = Some (b, border ?a) \<and> same_texture ?a b \<and>
        atlas_ok b ((offsets ?a)(name \<mapsto> setTexCoords (fst (border ?a)) (snd (border ?a)) w h))"
        using tex st r wh False lay layout_used_new_row[of "tex_w a" "tex_h a" x y rh]
        by (intro place_in_row_ok) (auto simp: row_ok_def xy)
      with \<open>tex_w a < x + w\<close> False r tex wh show ?thesis
        by (auto simp: place_at_border_def xy Let_def same_texture_def)
    qed
  next
    case False
    show ?thesis
    proof (cases "tex_h a < y + h")
      case True
      with False r tex wh show ?thesis by (simp add: place_at_border_def xy)
    next
      case False
      from place_in_row_ok[OF tex st row lay, of w h name] \<open>\<not> tex_w a < x + w\<close> False wh
      show ?thesis using r tex by (auto simp: place_at_border_def xy)
    qed
  qed
qed

section \<open>Adding a sprite\<close>

lemma atlas_ok_recorded:
  assumes "atlas_ok b ((offsets a)(name \<mapsto> setTexCoords x y w h))" "same_texture a b"
    and "store_sprite b name buffer x y w h = (c, qd)"
  shows "atlas_inv c" and "qd = setTexCoords x y w h" and "offsets c = (offsets a)(name \<mapsto> qd)"
    and "tex_w c = tex_w a" and "tex_h c = tex_h a"
    and "uploads c = uploads a @ [(x, y, w, h, buffer)]"
  using assms
  by (auto simp: store_sprite_def Let_def same_texture_def atlas_inv_def atlas_ok_def)

text \<open>
  What a call of \<^verbatim>\<open>update\<close> may do: refuse and change nothing, or place the sprite and
  record its quad, keeping the invariant and the quads placed before.
\<close>

definition sprite_added ::
  "'d atlas \<Rightarrow> string \<Rightarrow> 'd \<Rightarrow> int \<Rightarrow> int \<Rightarrow> 'd atlas \<Rightarrow> quad \<Rightarrow> bool" where
  "sprite_added a name buffer w h c qd \<longleftrightarrow>
     atlas_inv c \<and> uploads c = uploads a @ [(lo_l (qrect qd), lo_t (qrect qd), w, h, buffer)] \<and> offsets c = (offsets a)(name \<mapsto> qd) \<and> tex_w c = tex_w a \<and> tex_h c = tex_h a \<and>
     lo_width (qrect qd) = w \<and> lo_height (qrect qd) = h"

lemma qrect_size:
  assumes "0 \<le> x" "0 \<le> y" "0 \<le> w" "0 \<le> h" "x < 32768" "y < 32768" "w < 32768" "h < 32768"
  shows "lo_width (qrect (setTexCoords x y w h)) = w"
    and "lo_height (qrect (setTexCoords x y w h)) = h"
    and "lo_l (qrect (setTexCoords x y w h)) = x" and "lo_t (qrect (setTexCoords x y w h)) = y"
  using assms by (simp_all add: qrect_setTexCoords lo_width_def lo_height_def)

lemma update_cases:
  assumes inv: "atlas_inv a" and wh: "0 < w" "w \<le> tex_w a" "0 < h" "h < 32768"
  shows "update a name buffer w h = Some (a, None) \<or>
    (\<exists>c qd. update a name buffer w h = Some (c, Some qd) \<and> sprite_added a name buffer w h c qd)"
proof -
  let ?v = "LeftOver 0 0 w h"
  have tex: "tex_w a < 32768" and st: "qinv (leftovers a)"
    and lay: "layout (used_region (tex_w a) (tex_h a) (border a) (snd (yRange a)))
      (contents (leftovers a)) (offsets a)"
    using inv by (auto simp: atlas_inv_def atlas_ok_def store_ok_def)
  have v: "?v = \<lparr>lo_l = 0, lo_r = w, lo_t = 0, lo_b = h\<rparr>"
    using wh tex by (simp add: LeftOver_id)
  have id: "to_i16 w = w" "to_i16 h = h" using wh tex by auto
  have stored: "\<exists>c qd. store_sprite b name buffer x y w h = (c, qd) \<and> sprite_added a name buffer w h c qd"
    if "atlas_ok b ((offsets a)(name \<mapsto> setTexCoords x y w h))" "same_texture a b"
      "0 \<le> x" "x < 32768" "0 \<le> y" "y < 32768" for b x y
  proof -
    obtain c qd where c: "store_sprite b name buffer x y w h = (c, qd)" by fastforce
    from atlas_ok_recorded[OF that(1,2) c] qrect_size[of x y w h] that wh tex
    show ?thesis by (auto simp: c sprite_added_def)
  qed
  obtain lid where lid: "findNode (leftovers a) ?v leftover_fits = Some lid"
    and found: "lid = 0 \<or> (\<exists>lo. contents (leftovers a) lid = Some lo \<and> leftover_fits ?v lo)"
    using findNode_sound[OF st] by fastforce
  show ?thesis
  proof (cases "lid = 0")
    case True
    from place_at_border_cases[OF inv wh, of name] show ?thesis
      using True lid wh stored by (fastforce simp: update_def id Let_def)
  next
    case False
    then obtain lo where lo: "contents (leftovers a) lid = Some lo" "leftover_fits ?v lo"
      using found by auto
    then have fit: "w \<le> lo_width lo" "h \<le> lo_height lo"
      by (auto simp: v leftover_fits_def lo_width_def lo_height_def)
    have "used_region (tex_w a) (tex_h a) (border a) (snd (yRange a)) lo"
      using layoutD(1)[OF lay lo(1)] .
    then have "0 \<le> lo_l lo" "lo_l lo < 32768" "0 \<le> lo_t lo" "lo_t lo < 32768"
      using inv by (auto simp: used_region_def atlas_inv_def atlas_ok_def)
    with place_in_leftover_ok[OF inv lo(1) wh(1) fit(1) wh(3) fit(2), of name] stored
    show ?thesis using False lid wh by (fastforce simp: update_def id Let_def)
  qed
qed

lemma new_atlas_fields [simp]:
  "tex_w (new_atlas w h) = w" "tex_h (new_atlas w h) = h" "offsets (new_atlas w h) = Map.empty"
  by (simp_all add: new_atlas_def)

lemma new_atlas_inv:
  assumes "0 < w" "w < 32768" "0 < h" "h < 32768"
  shows "atlas_inv (new_atlas w h)"
  using assms qsorted_inv[OF empty_sorted(1)] empty_sorted(2)[of leftover_compare LeftOver_default]
  by (simp add: atlas_inv_def atlas_ok_def new_atlas_def store_ok_def row_ok_def layout_def)

lemma atlas_inv_texels:
  assumes "atlas_inv a"
  shows "m \<noteq> n \<Longrightarrow> offsets a m = Some p \<Longrightarrow> offsets a n = Some q \<Longrightarrow>
      texels (qrect p) \<inter> texels (qrect q) = {}"
    and "offsets a m = Some p \<Longrightarrow> texels (qrect p) \<subseteq> {0..<tex_w a} \<times> {0..<tex_h a}"
proof -
  have lay: "layout (used_region (tex_w a) (tex_h a) (border a) (snd (yRange a)))
      (contents (leftovers a)) (offsets a)" using assms by (simp add: atlas_inv_def atlas_ok_def)
  show "m \<noteq> n \<Longrightarrow> offsets a m = Some p \<Longrightarrow> offsets a n = Some q \<Longrightarrow>
      texels (qrect p) \<inter> texels (qrect q) = {}"
    using layoutD(4)[OF lay] by (intro apart_texels)
  show "offsets a m = Some p \<Longrightarrow> texels (qrect p) \<subseteq> {0..<tex_w a} \<times> {0..<tex_h a}"
    using layoutD(2)[OF lay, of m p] by (auto simp: used_region_def texels_def)
qed

text \<open>A session of the atlas: the sprites added one after the other.\<close>

definition addSprites ::
  "(string \<times> 'd \<times> int \<times> int) list \<Rightarrow> 'd atlas \<Rightarrow> 'd atlas option" where
  "addSprites = ofold (\<lambda>(n, d, w, h) a. map_option fst (addSprite_data a n d w h))"

lemma addSprites_inv:
  assumes "atlas_inv a" "\<forall>(n, d, w, h) \<in> set ss. 0 < w \<and> w \<le> tex_w a \<and> 0 < h \<and> h < 32768"
  shows "\<exists>b. addSprites ss a = Some b \<and> atlas_inv b \<and> tex_w b = tex_w a \<and> tex_h b = tex_h a \<and>
    (\<forall>n p. offsets a n = Some p \<longrightarrow> offsets b n = Some p)"
  using assms
proof (induction ss arbitrary: a)
  case (Cons s ss)
  obtain n d w h where s: "s = (n, d, w, h)" by (cases s)
  from Cons.prems s have wh: "0 < w" "w \<le> tex_w a" "0 < h" "h < 32768" by auto
  have "\<exists>b r. addSprite_data a n d w h = Some (b, r) \<and> atlas_inv b \<and> tex_w b = tex_w a \<and>
      tex_h b = tex_h a \<and> (\<forall>m p. offsets a m = Some p \<longrightarrow> offsets b m = Some p)"
    using update_cases[OF Cons.prems(1) wh, of n d] Cons.prems(1)
    by (auto simp: addSprite_data_def sprite_added_def split: option.split)
  then obtain b r where b: "addSprite_data a n d w h = Some (b, r)" "atlas_inv b"
    "tex_w b = tex_w a" "tex_h b = tex_h a"
    "\<forall>m p. offsets a m = Some p \<longrightarrow> offsets b m = Some p" by blast
  then show ?case using Cons.IH[OF b(2)] Cons.prems s by (fastforce simp: addSprites_def)
qed (auto simp: addSprites_def)

text \<open>
  The border of the atlas has room for a sprite: beside the current row or, when that is too
  narrow, in a new row below it.
\<close>

definition border_room :: "'d atlas \<Rightarrow> int \<Rightarrow> int \<Rightarrow> bool" where
  "border_room a w h \<longleftrightarrow>
     (if fst (border a) + w \<le> tex_w a then snd (border a) + h \<le> tex_h a
      else snd (border a) + snd (yRange a) + h \<le> tex_h a)"

lemma refused_no_room:
  assumes "atlas_inv a" "0 < w" "w \<le> tex_w a" "0 < h" "h < 32768"
    and "update a name buffer w h = Some (c, None)"
  shows "\<not> border_room a w h"
proof -
  have r: "0 \<le> fst (border a)" "fst (border a) \<le> tex_w a" "0 \<le> snd (border a)"
    "snd (border a) + snd (yRange a) \<le> tex_h a" "0 \<le> snd (yRange a)" "tex_w a < 32768"
    "tex_h a < 32768"
    using assms(1) by (auto simp: atlas_inv_def atlas_ok_def row_ok_def)
  have id: "to_i16 w = w" "to_i16 h = h" using assms(2-5) r by auto
  have pos: "\<exists>b. place_at_border a w h = Some (b, None)"
    using assms(2,4,6)
    by (auto simp: update_def id Let_def split: option.splits prod.splits if_splits
        Option.bind_splits)
  have eqs: "to_u32 (fst (border a) + w) = fst (border a) + w"
    "to_u32 (snd (border a) + h) = snd (border a) + h"
    "to_i16 (snd (border a) + snd (yRange a)) = snd (border a) + snd (yRange a)"
    "to_u32 (snd (border a) + snd (yRange a) + h) = snd (border a) + snd (yRange a) + h"
    using r assms(2-5) by auto
  show ?thesis
    using pos unfolding place_at_border_def Let_def eqs border_room_def
    by (auto split: if_splits prod.splits Option.bind_splits)
qed

text \<open>
  C2: Adding a sprite whose width is between 1 and the width of the texture and whose height
  is between 1 and 32767 always returns. Under a name already in the atlas it returns the
  quad recorded for the name and changes nothing. Under a new name it is either refused, and
  then the atlas is exactly what it was and neither the current row nor a new row below it
  has room; or it is placed: its pixels are uploaded once, at the corner and with the size its
  quad names, the quads of all other sprites are kept, and the invariant holds again. (A sprite
  wider than the texture is not covered: see the theorem on wide sprites below.)
\<close>

theorem addSprite_data_places:
  assumes "atlas_inv a" "0 < w" "w \<le> tex_w a" "0 < h" "h < 32768"
  shows "case offsets a name of
      Some qd \<Rightarrow> addSprite_data a name buffer w h = Some (a, Some qd)
    | None \<Rightarrow>
        addSprite_data a name buffer w h = Some (a, None) \<and> \<not> border_room a w h \<or>
        (\<exists>c qd. addSprite_data a name buffer w h = Some (c, Some qd) \<and> atlas_inv c \<and>
           offsets c = (offsets a)(name \<mapsto> qd) \<and> tex_w c = tex_w a \<and> tex_h c = tex_h a \<and>
           lo_width (qrect qd) = w \<and> lo_height (qrect qd) = h \<and>
           uploads c = uploads a @ [(lo_l (qrect qd), lo_t (qrect qd), w, h, buffer)])"
proof (cases "offsets a name")
  case None
  show ?thesis
    using update_cases[OF assms, of name buffer] refused_no_room[OF assms, of name buffer a] None
    unfolding addSprite_data_def sprite_added_def by auto
qed (simp add: addSprite_data_def)

theorem addSprite_data_places_witness:
  "\<exists>c qd. addSprite_data (new_atlas 64 32) ''a'' (0::nat) 10 8 = Some (c, Some qd) \<and>
     atlas_inv c \<and> lo_width (qrect qd) = 10"
proof -
  have "border_room (new_atlas 64 32 :: nat atlas) 10 8"
    by (simp add: border_room_def new_atlas_def)
  then show ?thesis
    using addSprite_data_places[of "new_atlas 64 32" 10 8 "''a''" 0] new_atlas_inv[of 64 32] by auto
qed

text \<open>
  C1: Whatever sprites are added to a new atlas, in whatever order, as long as none is wider
  than the atlas, every sprite's texels lie inside the texture and no two sprites share one.
\<close>

theorem atlas_sprites_disjoint:
  assumes "0 < W" "W < 32768" "0 < H" "H < 32768"
    and "\<forall>(n, d, w, h) \<in> set ss. 0 < w \<and> w \<le> W \<and> 0 < h \<and> h < 32768"
  shows "\<exists>b. addSprites ss (new_atlas W H) = Some b \<and>
    (\<forall>m p. offsets b m = Some p \<longrightarrow> texels (qrect p) \<subseteq> {0..<W} \<times> {0..<H}) \<and>
    (\<forall>m n p q. m \<noteq> n \<longrightarrow> offsets b m = Some p \<longrightarrow> offsets b n = Some q \<longrightarrow>
       texels (qrect p) \<inter> texels (qrect q) = {})"
proof -
  obtain b where b: "addSprites ss (new_atlas W H) = Some b" "atlas_inv b" "tex_w b = W"
    "tex_h b = H" using addSprites_inv[OF new_atlas_inv[OF assms(1-4)], of ss] assms(5) by auto
  show ?thesis using b atlas_inv_texels[OF b(2)] by (intro exI[of _ b]) blast
qed

theorem atlas_sprites_disjoint_witness:
  "\<exists>b. addSprites [(''a'', (), 40, 8), (''b'', (), 40, 20), (''c'', (), 10, 6)] (new_atlas 64 64)
     = Some b \<and> texels (qrect (the (offsets b ''a''))) \<inter> texels (qrect (the (offsets b ''b''))) = {}
     \<and> offsets b ''a'' \<noteq> None \<and> offsets b ''b'' \<noteq> None"
proof -
  let ?ss = "[(''a'', (), 40, 8), (''b'', (), 40, 20), (''c'', (), 10, 6)] :: (string \<times> unit \<times> int \<times> int) list"
  have "map_option (\<lambda>b. offsets b ''a'' \<noteq> None \<and> offsets b ''b'' \<noteq> None)
      (addSprites ?ss (new_atlas 64 64)) = Some True" by code_simp
  then obtain b where b: "addSprites ?ss (new_atlas 64 64) = Some b"
    "offsets b ''a'' \<noteq> None" "offsets b ''b'' \<noteq> None" by auto
  have "\<forall>(n, d, w, h) \<in> set ?ss. 0 < w \<and> w \<le> 64 \<and> 0 < h \<and> h < 32768" by simp
  from atlas_sprites_disjoint[OF _ _ _ _ this, of 64] b(1)
  have "\<forall>m n p q. m \<noteq> n \<longrightarrow> offsets b m = Some p \<longrightarrow> offsets b n = Some q \<longrightarrow>
     texels (qrect p) \<inter> texels (qrect q) = {}" by simp
  from this[rule_format, of "''a''" "''b''"] b show ?thesis by auto
qed

text \<open>
  A name that has been placed is never placed again: adding it a second time, with any
  pixels and any size, returns the quad of the first time and changes nothing.
\<close>

theorem addSprite_again:
  assumes "addSprite_data a name buffer w h = Some (b, Some qd)"
  shows "addSprite_data b name buffer' w' h' = Some (b, Some qd) \<and>
    addSprite_file imageOf b name = Some (b, Some qd)"
proof -
  have "offsets b name = Some qd"
    using assms
    by (auto simp: addSprite_data_def update_def store_sprite_def Let_def
        split: option.splits if_splits prod.splits Option.bind_splits)
  then show ?thesis by (simp add: addSprite_data_def addSprite_file_def)
qed

theorem addSprite_again_witness:
  "\<exists>b qd. addSprite_data (new_atlas 64 32) ''a'' (0::nat) 10 8 = Some (b, Some qd) \<and>
     addSprite_data b ''a'' 7 20 20 = Some (b, Some qd)"
proof -
  have "map_option (\<lambda>(c, r). r \<noteq> None) (addSprite_data (new_atlas 64 32) ''a'' (0::nat) 10 8) =
      Some True" by code_simp
  then obtain b qd where "addSprite_data (new_atlas 64 32) ''a'' (0::nat) 10 8 = Some (b, Some qd)"
    by auto
  then show ?thesis using addSprite_again[of "new_atlas 64 32" "''a''" 0 10 8 b qd 7 20 20] by blast
qed

section \<open>The leftover search and its limits\<close>

definition add_leftovers :: "(nat \<times> leftover) list \<Rightarrow> leftover quadtree option" where
  "add_leftovers kvs = ofold (\<lambda>(k, v) q. add q k v) kvs (empty_tree leftover_compare LeftOver_default)"

lemma adds_sorted:
  assumes "qsorted q" "distinct (map fst kvs)" "0 \<notin> set (map fst kvs)"
    "\<forall>k \<in> set (map fst kvs). contents q k = None"
  shows "\<exists>q'. ofold (\<lambda>(k, v) q. add q k v) kvs q = Some q' \<and> qsorted q' \<and>
    comparator q' = comparator q \<and> contents q' = contents q ++ map_of kvs"
  using assms
proof (induction kvs arbitrary: q)
  case (Cons kv kvs)
  obtain k v where kv: "kv = (k, v)" by (cases kv)
  from add_sorted[OF Cons.prems(1), of k v] Cons.prems kv obtain q1 where
    q1: "add q k v = Some q1" "qsorted q1" "contents q1 = (contents q)(k \<mapsto> v)" by auto
  have c: "comparator q1 = comparator q" using q1(1) by (rule add_comparator)
  have "\<exists>q'. ofold (\<lambda>(k, v) q. add q k v) kvs q1 = Some q' \<and> qsorted q' \<and>
    comparator q' = comparator q1 \<and> contents q' = contents q1 ++ map_of kvs"
    using Cons.prems kv q1 by (intro Cons.IH) auto
  moreover have "contents q1 ++ map_of kvs = contents q ++ map_of (kv # kvs)"
    using Cons.prems(2) kv q1(3) by (simp add: map_add_upd_left dom_map_of_conv_image_fst)
  ultimately show ?case using q1(1) kv c by (auto simp: map_add_def fun_eq_iff)
qed auto

lemma add_leftovers_ok:
  assumes "distinct (map fst kvs)" "0 \<notin> set (map fst kvs)"
  obtains q where "add_leftovers kvs = Some q" "qsorted q" "comparator q = leftover_compare"
    "contents q = map_of kvs"
proof -
  let ?e = "empty_tree leftover_compare LeftOver_default"
  have "\<forall>k \<in> set (map fst kvs). contents ?e k = None" by (simp add: empty_sorted(2))
  from adds_sorted[OF empty_sorted(1) assms this] that show thesis
    unfolding add_leftovers_def empty_sorted(2) by (auto simp: empty_tree_def)
qed

text \<open>
  C3: Erasing a leftover always returns, removes that entry and no other, and keeps the
  linked structure of the tree (parent links, key links, reachability from the root):
  re-adding the erased node's subtrees loses nothing.
\<close>

theorem erase_removes_one:
  assumes "qinv q"
  shows "\<exists>q'. erase q key = Some q' \<and> qinv q' \<and> contents q' = (contents q)(key := None)"
  using assms by (rule qt.delete_spec)

theorem erase_removes_one_witness:
  "\<exists>q q'. add_leftovers [(1, LeftOver 0 0 6 5), (2, LeftOver 0 0 8 7), (3, LeftOver 0 0 4 6)] = Some q
     \<and> erase q 1 = Some q' \<and> contents q' 3 = Some (LeftOver 0 0 4 6) \<and> contents q' 1 = None"
proof -
  let ?kvs = "[(1, LeftOver 0 0 6 5), (2, LeftOver 0 0 8 7), (3, LeftOver 0 0 4 6)] :: (nat \<times> leftover) list"
  obtain q where q: "add_leftovers ?kvs = Some q" "qsorted q" "contents q = map_of ?kvs"
    using add_leftovers_ok[of ?kvs] by auto
  with erase_removes_one[OF qsorted_inv[OF q(2)], of 1] show ?thesis by (fastforce simp: q(3))
qed

text \<open>
  As long as leftovers have only been added, the search never misses: if some stored
  leftover is at least as wide and as high as the sprite, \<open>findNode\<close> returns a key whose
  leftover is.
\<close>

theorem leftover_search_complete:
  assumes "distinct (map fst kvs)" "0 \<notin> set (map fst kvs)" "(k, u) \<in> set kvs" "leftover_fits v u"
  shows "\<exists>q r w. add_leftovers kvs = Some q \<and> findNode q v leftover_fits = Some r \<and> r \<noteq> 0 \<and>
    (r, w) \<in> set kvs \<and> leftover_fits v w"
proof -
  obtain q where q: "add_leftovers kvs = Some q" "qsorted q" "comparator q = leftover_compare"
    "contents q = map_of kvs"
    using add_leftovers_ok[OF assms(1,2)] .
  have "contents q k = Some u" using q(4) assms(1,3) by simp
  from lo_fit.findNode_complete[OF q(2,3) this assms(4)] q show ?thesis
    by (auto dest: map_of_SomeD)
qed

theorem leftover_search_complete_witness:
  "\<exists>q r w. add_leftovers [(1, LeftOver 0 0 6 5), (2, LeftOver 0 0 5 9)] = Some q \<and>
     findNode q (LeftOver 0 0 5 8) leftover_fits = Some r \<and> r \<noteq> 0 \<and>
     (r, w) \<in> {(1, LeftOver 0 0 6 5), (2, LeftOver 0 0 5 9)} \<and> leftover_fits (LeftOver 0 0 5 8) w"
  using leftover_search_complete[of "[(1, LeftOver 0 0 6 5), (2, LeftOver 0 0 5 9)]" 2
      "LeftOver 0 0 5 9" "LeftOver 0 0 5 8"]
  by (simp add: leftover_fits_def LeftOver_def Let_def lo_width_def lo_height_def)

text \<open>
  After one \<open>erase\<close> the search can miss. \<open>readd\<close> moves the subtrees of the erased node as
  they are, so their entries may end in a branch the search leaves out: here leftover 4 has
  exactly the size asked for, is stored, and \<open>findNode\<close> reports none.
\<close>

theorem erase_can_hide_a_fit:
  "\<exists>q q'. add_leftovers [(1, LeftOver 0 0 6 5), (2, LeftOver 0 0 8 7), (3, LeftOver 0 0 4 6),
      (4, LeftOver 0 0 5 9)] = Some q \<and> erase q 1 = Some q' \<and>
    contents q' 4 = Some (LeftOver 0 0 5 9) \<and> leftover_fits (LeftOver 0 0 5 9) (LeftOver 0 0 5 9) \<and>
    findNode q' (LeftOver 0 0 5 9) leftover_fits = Some 0"
proof -
  let ?kvs = "[(1, LeftOver 0 0 6 5), (2, LeftOver 0 0 8 7), (3, LeftOver 0 0 4 6),
      (4, LeftOver 0 0 5 9)]"
  have "do { q \<leftarrow> add_leftovers ?kvs; q' \<leftarrow> erase q 1;
             r \<leftarrow> findNode q' (LeftOver 0 0 5 9) leftover_fits; Some (contents q' 4, r) } =
      Some (Some (LeftOver 0 0 5 9), 0)" by code_simp
  then show ?thesis
    by (auto simp: leftover_fits_def split: Option.bind_splits intro!: exI)
qed

text \<open>
  The width of a sprite is never compared with the atlas once a new row has been started:
  a sprite wider than the whole atlas is accepted at column 0 and its quad reaches past the
  texture's right edge.
\<close>

theorem wide_sprite_leaves_texture:
  "\<exists>c qd. addSprite_data (new_atlas 64 64) ''wide'' () 100 10 = Some (c, Some qd) \<and>
     \<not> texels (qrect qd) \<subseteq> {0..<64} \<times> {0..<64}"
proof -
  have "map_option (map_option qrect \<circ> snd) (addSprite_data (new_atlas 64 64) ''wide'' () 100 10) =
      Some (Some \<lparr>lo_l = 0, lo_r = 100, lo_t = 0, lo_b = 10\<rparr>)" by code_simp
  then obtain c qd where "addSprite_data (new_atlas 64 64) ''wide'' () 100 10 = Some (c, Some qd)"
    "qrect qd = \<lparr>lo_l = 0, lo_r = 100, lo_t = 0, lo_b = 10\<rparr>" by auto
  moreover have "(70, 0) \<in> texels \<lparr>lo_l = 0, lo_r = 100, lo_t = 0, lo_b = 10\<rparr>"
    by (simp add: texels_def)
  moreover have "(70, 0) \<notin> {0..<64::int} \<times> {0..<64::int}" by simp
  ultimately show ?thesis by (metis subsetD)
qed

end
