(* ===== verification/Texture_Pool.thy ===== *)
theory Texture_Pool
  imports Texture_Atlas
begin

text \<open>
  The pool of atlases of \<^verbatim>\<open>src/Code/Maple/src/Engine/TexturePool.cpp\<close>. The atlases live in
  a \<^verbatim>\<open>std::vector\<close> and the name table holds raw pointers to its elements. A pointer is the
  index of the element together with the generation of the vector's storage it was taken
  in: a growth beyond the capacity moves the elements to new storage, and a pointer of an
  older generation must not be followed. \<open>grow\<close> is the capacity the library chooses.
\<close>

section \<open>State and operations\<close>

record 'd pool =
  pool_atlas :: "'d atlas list"
  pool_cap :: nat
  pool_gen :: nat
  pool_mapping :: "string \<rightharpoonup> nat \<times> nat"

definition new_pool :: "'d pool" where
  "new_pool = \<lparr>pool_atlas = [], pool_cap = 0, pool_gen = 0, pool_mapping = Map.empty\<rparr>"

definition createTextureAtlas :: "(nat \<Rightarrow> nat) \<Rightarrow> 'd pool \<Rightarrow> 'd pool" where
  "createTextureAtlas grow p =
     (let p1 = (if length (pool_atlas p) = pool_cap p
                then p\<lparr>pool_cap := grow (pool_cap p), pool_gen := Suc (pool_gen p)\<rparr> else p)
      in p1\<lparr>pool_atlas := pool_atlas p1 @ [new_atlas 4096 4096]\<rparr>)"

text \<open>\<open>with_atlas\<close> runs one of the atlas operations on element \<open>i\<close>.\<close>

definition with_atlas ::
  "('d atlas \<Rightarrow> ('d atlas \<times> quad option) option) \<Rightarrow> 'd pool \<Rightarrow> nat \<Rightarrow> ('d pool \<times> quad option) option" where
  "with_atlas f p i =
     do { (a, r) \<leftarrow> f (pool_atlas p ! i);
          Some (p\<lparr>pool_atlas := (pool_atlas p)[i := a]\<rparr>, r) }"

definition back_index :: "'d pool \<Rightarrow> nat" where
  "back_index p = length (pool_atlas p) - 1"

text \<open>
  Both overloads of \<^verbatim>\<open>addSprite\<close> have this shape; \<open>first\<close> is the call on the last atlas and
  \<open>second\<close> the one on the mapped atlas and on a newly created one.
\<close>

definition pool_addSprite ::
  "('d atlas \<Rightarrow> ('d atlas \<times> quad option) option) \<Rightarrow> ('d atlas \<Rightarrow> ('d atlas \<times> quad option) option) \<Rightarrow>
   (nat \<Rightarrow> nat) \<Rightarrow> 'd pool \<Rightarrow> string \<Rightarrow> (fault + 'd pool \<times> quad option) option" where
  "pool_addSprite first second grow p name =
     (case pool_mapping p name of
        Some (g, i) \<Rightarrow>
          if g = pool_gen p \<and> i < length (pool_atlas p)
          then map_option Inr (with_atlas second p i) else Some (Inl Dangling)
      | None \<Rightarrow>
          let p1 = (if pool_atlas p = [] then createTextureAtlas grow p else p)
          in do {
            (p2, r) \<leftarrow> with_atlas first p1 (back_index p1);
            (p3, r') \<leftarrow> (case r of
                Some qd \<Rightarrow> Some (p2, Some qd)
              | None \<Rightarrow> let p' = createTextureAtlas grow p2 in with_atlas second p' (back_index p'));
            Some (Inr (p3\<lparr>pool_mapping := (pool_mapping p3)(name \<mapsto> (pool_gen p3, back_index p3))\<rparr>, r')) })"

definition pool_addSprite_file ::
  "(string \<Rightarrow> 'd \<times> int \<times> int) \<Rightarrow> (nat \<Rightarrow> nat) \<Rightarrow> 'd pool \<Rightarrow> string \<Rightarrow>
   (fault + 'd pool \<times> quad option) option" where
  "pool_addSprite_file imageOf grow p file =
     pool_addSprite (\<lambda>a. addSprite_file imageOf a file) (\<lambda>a. addSprite_file imageOf a file) grow p file"

text \<open>
  The data overload. Its second call, and the call for a mapped name, is
  \<^verbatim>\<open>addSprite(uniqueName)\<close>, the overload that reads a file.
\<close>

definition pool_addSprite_data ::
  "(string \<Rightarrow> 'd \<times> int \<times> int) \<Rightarrow> (nat \<Rightarrow> nat) \<Rightarrow> 'd pool \<Rightarrow> string \<Rightarrow> 'd \<Rightarrow> int \<Rightarrow> int \<Rightarrow>
   (fault + 'd pool \<times> quad option) option" where
  "pool_addSprite_data imageOf grow p uniqueName data w h =
     pool_addSprite (\<lambda>a. addSprite_data a uniqueName data w h)
       (\<lambda>a. addSprite_file imageOf a uniqueName) grow p uniqueName"

section \<open>Invariant\<close>

definition atlas_good :: "'d atlas \<Rightarrow> bool" where
  "atlas_good a \<longleftrightarrow> atlas_inv a \<and> tex_w a = 4096 \<and> tex_h a = 4096"

definition pool_inv :: "'d pool \<Rightarrow> bool" where
  "pool_inv p \<longleftrightarrow>
     (\<forall>a \<in> set (pool_atlas p). atlas_good a) \<and> length (pool_atlas p) \<le> pool_cap p \<and>
     (\<forall>n g i. pool_mapping p n = Some (g, i) \<longrightarrow> g = pool_gen p \<and> i < length (pool_atlas p))"

text \<open>What the pool relies on in an atlas operation: it returns and keeps the atlas good.\<close>

definition good_op :: "('d atlas \<Rightarrow> ('d atlas \<times> quad option) option) \<Rightarrow> bool" where
  "good_op f \<longleftrightarrow> (\<forall>a. atlas_good a \<longrightarrow> (\<exists>b r. f a = Some (b, r) \<and> atlas_good b))"

definition image_ok :: "int \<Rightarrow> int \<Rightarrow> bool" where
  "image_ok w h \<longleftrightarrow> w \<le> 4096 \<and> h < 32768"

lemma addSprite_data_good: "image_ok w h \<Longrightarrow> good_op (\<lambda>a. addSprite_data a n d w h)"
  unfolding good_op_def
proof (intro allI impI)
  fix a :: "'a atlas"
  assume ok: "image_ok w h" and a: "atlas_good a"
  show "\<exists>b r. addSprite_data a n d w h = Some (b, r) \<and> atlas_good b"
  proof (cases "0 < w \<and> 0 < h")
    case True
    with update_cases[of a w h n d] ok a show ?thesis
      by (auto simp: addSprite_data_def atlas_good_def image_ok_def sprite_added_def
          split: option.split)
  next
    case False
    then have "update a n d w h = Some (a, None)" by (auto simp: update_def)
    with a show ?thesis by (auto simp: addSprite_data_def split: option.split)
  qed
qed

lemma addSprite_file_eq:
  "addSprite_file imageOf a n = (case imageOf n of (d, w, h) \<Rightarrow> addSprite_data a n d w h)"
  by (auto simp: addSprite_file_def addSprite_data_def update_def split: option.split prod.split)

lemma addSprite_file_good:
  "(\<And>d w h. imageOf n = (d, w, h) \<Longrightarrow> image_ok w h) \<Longrightarrow> good_op (\<lambda>a. addSprite_file imageOf a n)"
  by (cases "imageOf n") (simp add: addSprite_file_eq addSprite_data_good)

lemma with_atlas_good:
  assumes "good_op f" "\<forall>a \<in> set (pool_atlas p). atlas_good a" "i < length (pool_atlas p)"
  shows "\<exists>a r. with_atlas f p i = Some (p\<lparr>pool_atlas := (pool_atlas p)[i := a]\<rparr>, r) \<and> atlas_good a"
proof -
  have "atlas_good (pool_atlas p ! i)" using assms(2,3) by simp
  with assms(1) obtain b r where "f (pool_atlas p ! i) = Some (b, r)" "atlas_good b"
    unfolding good_op_def by blast
  then show ?thesis by (auto simp: with_atlas_def)
qed

lemma new_atlas_good: "atlas_good (new_atlas 4096 4096)"
  using new_atlas_inv[of 4096 4096] by (simp add: atlas_good_def)

lemma updated_good:
  "\<forall>a \<in> set as. atlas_good a \<Longrightarrow> atlas_good a \<Longrightarrow> b \<in> set (as[i := a]) \<Longrightarrow> atlas_good b"
  using set_update_subset_insert by fastforce

lemma create_inv:
  assumes "pool_inv p" "length (pool_atlas p) < pool_cap p"
  shows "pool_inv (createTextureAtlas grow p)" "pool_atlas (createTextureAtlas grow p) \<noteq> []"
    "pool_gen (createTextureAtlas grow p) = pool_gen p"
    "pool_cap (createTextureAtlas grow p) = pool_cap p"
    "length (pool_atlas (createTextureAtlas grow p)) = Suc (length (pool_atlas p))"
    "pool_mapping (createTextureAtlas grow p) = pool_mapping p"
  using assms new_atlas_good
  by (auto simp: createTextureAtlas_def pool_inv_def Let_def less_Suc_eq)

lemma with_atlas_inv:
  assumes "good_op f" "pool_inv p" "i < length (pool_atlas p)"
  obtains q r where "with_atlas f p i = Some (q, r)" "pool_inv q" "pool_gen q = pool_gen p"
    "pool_cap q = pool_cap p" "length (pool_atlas q) = length (pool_atlas p)"
    "pool_mapping q = pool_mapping p"
proof -
  from with_atlas_good[OF assms(1) _ assms(3)] assms(2) obtain a r where
    "with_atlas f p i = Some (p\<lparr>pool_atlas := (pool_atlas p)[i := a]\<rparr>, r)" "atlas_good a"
    by (auto simp: pool_inv_def)
  moreover have "pool_inv (p\<lparr>pool_atlas := (pool_atlas p)[i := a]\<rparr>)"
    using assms(2) \<open>atlas_good a\<close> updated_good[of "pool_atlas p" a] by (auto simp: pool_inv_def)
  ultimately show thesis by (intro that[of "p\<lparr>pool_atlas := (pool_atlas p)[i := a]\<rparr>" r]) auto
qed

lemma mapped_inv:
  assumes "pool_inv p" "pool_atlas p \<noteq> []"
  shows "pool_inv (p\<lparr>pool_mapping := (pool_mapping p)(n \<mapsto> (pool_gen p, back_index p))\<rparr>)"
  using assms by (auto simp: pool_inv_def back_index_def)

text \<open>
  The pool needs room for one atlas for its first sprite and for one when the last atlas is
  full.
\<close>

lemma pool_addSprite_inv:
  assumes "good_op f" "good_op g" "pool_inv p" "Suc (length (pool_atlas p)) < pool_cap p"
  shows "\<exists>q r. pool_addSprite f g grow p n = Some (Inr (q, r)) \<and> pool_inv q \<and>
    pool_gen q = pool_gen p \<and> pool_mapping q n \<noteq> None"
proof (cases "pool_mapping p n")
  case (Some gi)
  then obtain i where i: "gi = (pool_gen p, i)" "i < length (pool_atlas p)"
    using assms(3) by (cases gi) (auto simp: pool_inv_def)
  from with_atlas_inv[OF assms(2,3) i(2)] obtain q r where
    "with_atlas g p i = Some (q, r)" "pool_inv q" "pool_gen q = pool_gen p"
    "pool_mapping q = pool_mapping p" by blast
  with Some i show ?thesis by (simp add: pool_addSprite_def)
next
  case None
  define p1 where "p1 = (if pool_atlas p = [] then createTextureAtlas grow p else p)"
  have p1: "pool_inv p1" "pool_atlas p1 \<noteq> []" "pool_gen p1 = pool_gen p"
    "length (pool_atlas p1) < pool_cap p1"
    using assms(3,4) create_inv[OF assms(3), of grow] by (auto simp: p1_def)
  have b: "back_index p' < length (pool_atlas p')" if "pool_atlas p' \<noteq> []" for p' :: "'a pool"
    using that by (simp add: back_index_def)
  from with_atlas_inv[OF assms(1) p1(1) b[OF p1(2)]] p1 obtain p2 r where
    p2: "with_atlas f p1 (back_index p1) = Some (p2, r)" "pool_inv p2" "pool_gen p2 = pool_gen p"
      "length (pool_atlas p2) < pool_cap p2" "pool_atlas p2 \<noteq> []" by (metis length_0_conv)
  show ?thesis
  proof (cases r)
    case (Some qd)
    with None p2 mapped_inv[OF p2(2,5), of n] show ?thesis
      by (simp add: pool_addSprite_def p1_def[symmetric] Let_def)
  next
    case rN: None
    let ?p = "createTextureAtlas grow p2"
    note c = create_inv[OF p2(2,4), of grow]
    from with_atlas_inv[OF assms(2) c(1) b[OF c(2)]] c(2,3) p2(3) obtain p3 r' where
      p3: "with_atlas g ?p (back_index ?p) = Some (p3, r')" "pool_inv p3" "pool_gen p3 = pool_gen p"
        "pool_atlas p3 \<noteq> []" by (metis length_0_conv)
    with None rN p2(1) mapped_inv[OF p3(2,4), of n] show ?thesis
      by (simp add: pool_addSprite_def p1_def[symmetric] Let_def)
  qed
qed

section \<open>Properties\<close>

text \<open>
  While the vector of atlases has room (two more elements than it holds suffice for any
  call), adding a sprite through either overload returns, keeps every atlas's layout
  invariant, and leaves every stored pointer valid.
\<close>

theorem pool_sprite_with_room:
  assumes "pool_inv p" "Suc (length (pool_atlas p)) < pool_cap p" "image_ok w h"
    "\<forall>n. case imageOf n of (d, w', h') \<Rightarrow> image_ok w' h'"
  shows "(\<exists>q r. pool_addSprite_data imageOf grow p name buffer w h = Some (Inr (q, r)) \<and> pool_inv q) \<and>
    (\<exists>q r. pool_addSprite_file imageOf grow p name = Some (Inr (q, r)) \<and> pool_inv q)"
proof -
  have g: "good_op (\<lambda>a. addSprite_file imageOf a name)"
    using assms(4)[rule_format, of name] by (intro addSprite_file_good) simp
  have "\<exists>q r. pool_addSprite_data imageOf grow p name buffer w h = Some (Inr (q, r)) \<and> pool_inv q"
    using pool_addSprite_inv[OF addSprite_data_good[OF assms(3)] g assms(1,2)]
    unfolding pool_addSprite_data_def by blast
  moreover have "\<exists>q r. pool_addSprite_file imageOf grow p name = Some (Inr (q, r)) \<and> pool_inv q"
    using pool_addSprite_inv[OF g g assms(1,2)] unfolding pool_addSprite_file_def by blast
  ultimately show ?thesis by blast
qed

theorem pool_sprite_with_room_witness:
  "\<exists>q r. pool_addSprite_data (\<lambda>n. (0::nat, 16, 16)) (\<lambda>c. 2 * c)
     (new_pool\<lparr>pool_cap := 8\<rparr>) ''a'' 5 32 32 = Some (Inr (q, r)) \<and> pool_inv q"
proof -
  have "pool_inv (new_pool\<lparr>pool_cap := 8\<rparr>)" by (simp add: pool_inv_def new_pool_def)
  from pool_sprite_with_room[OF this, of 32 32 "\<lambda>n. (0::nat, 16, 16)" "\<lambda>c. 2 * c" "''a''" 5] show ?thesis
    by (simp add: new_pool_def image_ok_def)
qed

text \<open>
  C4: A call that makes the vector grow beyond its capacity invalidates the whole name table:
  every name that was mapped before is a dangling pointer afterwards, and asking for it
  again follows that pointer.
\<close>

theorem pool_growth_dangles:
  assumes "pool_inv p" "pool_atlas p \<noteq> []" "length (pool_atlas p) = pool_cap p"
    and "pool_mapping p name \<noteq> None" "pool_mapping p file = None"
    and "pool_addSprite_file imageOf grow p file = Some (Inr (q, r))"
    and "length (pool_atlas q) \<noteq> length (pool_atlas p)"
  shows "pool_addSprite_file imageOf grow q name = Some (Inl Dangling)"
proof -
  have "\<exists>i. pool_mapping q name = Some (pool_gen p, i) \<and> pool_gen q = Suc (pool_gen p)"
    using assms unfolding pool_addSprite_file_def pool_addSprite_def
    by (auto simp: with_atlas_def createTextureAtlas_def Let_def pool_inv_def
        split: Option.bind_splits option.splits prod.splits)
  then show ?thesis by (auto simp: pool_addSprite_file_def pool_addSprite_def)
qed

definition full_pool :: "nat pool" where
  "full_pool = \<lparr>pool_atlas = [new_atlas 4096 4096], pool_cap = 1, pool_gen = 1,
     pool_mapping = [''a'' \<mapsto> (1, 0)]\<rparr>"

definition tall_image :: "string \<Rightarrow> nat \<times> int \<times> int" where
  "tall_image n = (0, 16, 5000)"

theorem pool_growth_dangles_witness:
  "\<exists>q r. pool_addSprite_file tall_image Suc full_pool ''b'' = Some (Inr (q, r)) \<and>
     pool_addSprite_file tall_image Suc q ''a'' = Some (Inl Dangling)"
proof -
  have "(case pool_addSprite_file tall_image Suc full_pool ''b'' of
      Some (Inr (q, r)) \<Rightarrow> length (pool_atlas q) = 2 | _ \<Rightarrow> False) = True" by code_simp
  then obtain q r where q: "pool_addSprite_file tall_image Suc full_pool ''b'' = Some (Inr (q, r))"
    "length (pool_atlas q) = 2" by (auto split: option.splits sum.splits prod.splits)
  have "pool_inv full_pool" using new_atlas_good by (simp add: pool_inv_def full_pool_def)
  from pool_growth_dangles[OF this, of "''a''" "''b''" tall_image Suc q r] q show ?thesis
    by (auto simp: full_pool_def)
qed

text \<open>
  When the last atlas refuses the sprite, the data overload asks the new atlas for the
  file of that name: the caller's pixels and size have no effect on the result.
\<close>

theorem pool_data_dropped:
  assumes "pool_mapping p name = None" "pool_atlas p \<noteq> []"
    and "addSprite_data (last (pool_atlas p)) name buffer w h = Some (a, None)"
    and "addSprite_data (last (pool_atlas p)) name buffer' w' h' = Some (a, None)"
  shows "pool_addSprite_data imageOf grow p name buffer w h =
    pool_addSprite_data imageOf grow p name buffer' w' h'"
  using assms
  by (simp add: pool_addSprite_data_def pool_addSprite_def with_atlas_def back_index_def last_conv_nth)

theorem pool_data_dropped_witness:
  "pool_addSprite_data tall_image Suc full_pool ''b'' 1 20 5000 =
   pool_addSprite_data tall_image Suc full_pool ''b'' 2 30 6000"
proof -
  have "addSprite_data (new_atlas 4096 4096) ''b'' d w h = Some (new_atlas 4096 4096, None)"
    if "0 < w" "w \<le> 4096" "4096 < h" "h < 32768" for d :: nat and w h
    using that by (simp add: addSprite_data_def update_def new_atlas_def findNode_def empty_tree_def
        place_at_border_def Let_def)
  then show ?thesis
    by (intro pool_data_dropped[of _ _ _ _ _ "new_atlas 4096 4096"]) (simp_all add: full_pool_def)
qed

end
