(* ===== verification/Hierarchy.thy ===== *)
theory Hierarchy
  imports Maple_Prelude
begin

text \<open>
  The entity hierarchy: the component \<^verbatim>\<open>Hierarchy\<close> of
  \<^verbatim>\<open>src/Code/Maple/src/Scene/Component/Component.cpp\<close> with its construct, destroy and update
  callbacks and \<^verbatim>\<open>reparent\<close>, and the operations of \<^verbatim>\<open>Scene/Entity/Entity.cpp\<close> that walk it.
  Each entity links to its parent, its first child and its two siblings. The registry of
  the entt library is a table from entities to components and the set of valid handles;
  the null entity is \<open>None\<close>. A loop that does not end is the value \<open>None\<close> and a bad access
  a \<open>fault\<close>.
\<close>

section \<open>Data\<close>

type_synonym entity = nat

record hierarchy =
  h_parent :: "entity option"
  h_first :: "entity option"
  h_next :: "entity option"
  h_prev :: "entity option"

record registry =
  alive :: "entity \<Rightarrow> bool"
  hier :: "entity \<rightharpoonup> hierarchy"
  names :: "entity \<rightharpoonup> string"
  actives :: "entity \<rightharpoonup> bool"

definition Hierarchy :: "entity option \<Rightarrow> hierarchy" where
  "Hierarchy p = \<lparr>h_parent = p, h_first = None, h_next = None, h_prev = None\<rparr>"

definition reset :: "hierarchy \<Rightarrow> hierarchy" where
  "reset h = h\<lparr>h_parent := None, h_first := None, h_next := None, h_prev := None\<rparr>"

text \<open>A write through the pointer \<^verbatim>\<open>try_get<Hierarchy>(e)\<close>, skipped when it is null.\<close>

definition modify :: "entity \<Rightarrow> (hierarchy \<Rightarrow> hierarchy) \<Rightarrow> (entity \<rightharpoonup> hierarchy) \<Rightarrow> (entity \<rightharpoonup> hierarchy)" where
  "modify e f m = (case m e of None \<Rightarrow> m | Some h \<Rightarrow> m(e \<mapsto> f h))"

definition modify_opt ::
  "entity option \<Rightarrow> (hierarchy \<Rightarrow> hierarchy) \<Rightarrow> (entity \<rightharpoonup> hierarchy) \<Rightarrow> (entity \<rightharpoonup> hierarchy)" where
  "modify_opt e f m = (case e of None \<Rightarrow> m | Some e \<Rightarrow> modify e f m)"

section \<open>The callbacks of the component\<close>

text \<open>The loop to the last sibling: the entity it stops at and its component, if it has one.\<close>

partial_function (option) last_sibling ::
  "(entity \<rightharpoonup> hierarchy) \<Rightarrow> entity \<Rightarrow> (entity \<times> hierarchy option) option" where
  "last_sibling m prevEnt =
     (case m prevEnt of
        None \<Rightarrow> Some (prevEnt, None)
      | Some current \<Rightarrow>
          (case h_next current of
             None \<Rightarrow> Some (prevEnt, Some current)
           | Some n \<Rightarrow> last_sibling m n))"

definition onConstruct ::
  "'a registry_scheme \<Rightarrow> entity \<Rightarrow> (fault + 'a registry_scheme) option" where
  "onConstruct r e =
     (case hier r e of
        None \<Rightarrow> Some (Inl NullDeref)
      | Some hierarchy \<Rightarrow>
          (case h_parent hierarchy of
             None \<Rightarrow> Some (Inr r)
           | Some p \<Rightarrow>
               if \<not> alive r p then Some (Inl Dangling)
               else
                 let m = (case hier r p of None \<Rightarrow> (hier r)(p \<mapsto> Hierarchy None) | Some _ \<Rightarrow> hier r)
                 in (case m p of
                       None \<Rightarrow> Some (Inl NullDeref)
                     | Some parentHierarchy \<Rightarrow>
                         (case h_first parentHierarchy of
                            None \<Rightarrow> Some (Inr (r\<lparr>hier := modify p (\<lambda>h. h\<lparr>h_first := Some e\<rparr>) m\<rparr>))
                          | Some f \<Rightarrow>
                              do { (prevEnt, current) \<leftarrow> last_sibling m f;
                                   Some (case current of
                                     None \<Rightarrow> Inl NullDeref
                                   | Some _ \<Rightarrow>
                                       Inr (r\<lparr>hier :=
                                         modify e (\<lambda>h. h\<lparr>h_prev := Some prevEnt\<rparr>)
                                           (modify prevEnt (\<lambda>h. h\<lparr>h_next := Some e\<rparr>) m)\<rparr>)) }))))"

text \<open>
  Taking an entity out of its sibling list. \<open>onDestroy\<close> ignores a previous sibling or a
  parent whose handle is no longer valid; \<open>onUpdate\<close> does the same without these tests.
\<close>

definition unlink_first :: "hierarchy \<Rightarrow> entity \<Rightarrow> (entity \<rightharpoonup> hierarchy) \<Rightarrow> (entity \<rightharpoonup> hierarchy)" where
  "unlink_first h p m =
     (if m p = None then m
      else modify_opt (h_next h) (\<lambda>n. n\<lparr>h_prev := None\<rparr>)
             (modify p (\<lambda>n. n\<lparr>h_first := h_next h\<rparr>) m))"

definition unlink_after :: "hierarchy \<Rightarrow> entity \<Rightarrow> (entity \<rightharpoonup> hierarchy) \<Rightarrow> (entity \<rightharpoonup> hierarchy)" where
  "unlink_after h q m =
     modify_opt (h_next h) (\<lambda>n. n\<lparr>h_prev := h_prev h\<rparr>)
       (modify q (\<lambda>n. n\<lparr>h_next := h_next h\<rparr>) m)"

definition leave_parent :: "'a registry_scheme \<Rightarrow> hierarchy \<Rightarrow> 'a registry_scheme" where
  "leave_parent r h =
     (case h_parent h of
        None \<Rightarrow> r
      | Some p \<Rightarrow> if alive r p then r\<lparr>hier := unlink_first h p (hier r)\<rparr> else r)"

definition onDestroy :: "'a registry_scheme \<Rightarrow> entity \<Rightarrow> fault + 'a registry_scheme" where
  "onDestroy r e =
     (case hier r e of
        None \<Rightarrow> Inl NullDeref
      | Some h \<Rightarrow>
          (case h_prev h of
             None \<Rightarrow> Inr (leave_parent r h)
           | Some q \<Rightarrow>
               if alive r q then Inr (r\<lparr>hier := unlink_after h q (hier r)\<rparr>)
               else Inr (leave_parent r h)))"

definition onUpdate :: "'a registry_scheme \<Rightarrow> entity \<Rightarrow> fault + 'a registry_scheme" where
  "onUpdate r e =
     (case hier r e of
        None \<Rightarrow> Inl NullDeref
      | Some h \<Rightarrow>
          (case h_prev h of
             None \<Rightarrow>
               (case h_parent h of
                  None \<Rightarrow> Inr r
                | Some p \<Rightarrow> Inr (r\<lparr>hier := unlink_first h p (hier r)\<rparr>))
           | Some q \<Rightarrow> Inr (r\<lparr>hier := unlink_after h q (hier r)\<rparr>)))"

definition reparent ::
  "'a registry_scheme \<Rightarrow> entity \<Rightarrow> entity option \<Rightarrow> (fault + 'a registry_scheme) option" where
  "reparent r ent parent =
     (case onDestroy r ent of
        Inl f \<Rightarrow> Some (Inl f)
      | Inr r1 \<Rightarrow>
          let r2 = r1\<lparr>hier := modify ent (\<lambda>h. h\<lparr>h_parent := None, h_next := None, h_prev := None\<rparr>) (hier r1)\<rparr>
          in (case parent of
                None \<Rightarrow> Some (Inr r2)
              | Some p \<Rightarrow>
                  onConstruct (r2\<lparr>hier := modify ent (\<lambda>h. h\<lparr>h_parent := Some p\<rparr>) (hier r2)\<rparr>) ent))"

text \<open>\<open>compare\<close>: the recursive call passes the parent's own handle.\<close>

partial_function (option) compare ::
  "(entity \<rightharpoonup> hierarchy) \<Rightarrow> hierarchy \<Rightarrow> entity option \<Rightarrow> (fault + bool) option" where
  "compare m this rhs =
     (if rhs = None \<or> rhs = h_parent this \<or> rhs = h_prev this then Some (Inr True)
      else (case h_parent this of
              None \<Rightarrow> Some (Inr False)
            | Some p \<Rightarrow>
                (case m p of
                   None \<Rightarrow> Some (Inl NullDeref)
                 | Some thisParent \<Rightarrow>
                     if m (the rhs) = None then Some (Inl NullDeref)
                     else compare m thisParent (Some p))))"

section \<open>Operations of an entity\<close>

definition isActive :: "'a registry_scheme \<Rightarrow> entity \<Rightarrow> bool" where
  "isActive r e = (case actives r e of Some a \<Rightarrow> a | None \<Rightarrow> True)"

definition setActive :: "'a registry_scheme \<Rightarrow> entity \<Rightarrow> bool \<Rightarrow> 'a registry_scheme" where
  "setActive r e a = r\<lparr>actives := (actives r)(e \<mapsto> a)\<rparr>"

partial_function (option) ancestor_loop ::
  "(entity \<rightharpoonup> hierarchy) \<Rightarrow> entity option \<Rightarrow> entity option \<Rightarrow> bool option" where
  "ancestor_loop m potential parent =
     (case parent of
        None \<Rightarrow> Some False
      | Some p \<Rightarrow>
          if Some p = potential then Some True
          else ancestor_loop m potential (case m p of None \<Rightarrow> None | Some h \<Rightarrow> h_parent h))"

definition isParent :: "'a registry_scheme \<Rightarrow> entity option \<Rightarrow> entity option \<Rightarrow> bool option" where
  "isParent r e potential =
     (case Option.bind e (hier r) of
        None \<Rightarrow> Some False
      | Some h \<Rightarrow> ancestor_loop (hier r) potential (h_parent h))"

definition emplace_hierarchy ::
  "'a registry_scheme \<Rightarrow> entity \<Rightarrow> entity option \<Rightarrow> (fault + 'a registry_scheme) option" where
  "emplace_hierarchy r e p = onConstruct (r\<lparr>hier := (hier r)(e \<mapsto> Hierarchy p)\<rparr>) e"

definition setParent ::
  "'a registry_scheme \<Rightarrow> entity \<Rightarrow> entity option \<Rightarrow> (fault + 'a registry_scheme) option" where
  "setParent r e parent =
     (case hier r e of
        Some h \<Rightarrow>
          do { par \<leftarrow> isParent r parent (Some e);
               (if parent \<noteq> Some e \<and> \<not> par \<and> h_parent h \<noteq> Some e
                then reparent r e parent else Some (Inr r)) }
      | None \<Rightarrow>
          if parent \<noteq> Some e then emplace_hierarchy r e parent else Some (Inr r))"

definition getParent :: "'a registry_scheme \<Rightarrow> entity \<Rightarrow> entity option" where
  "getParent r e = (case hier r e of None \<Rightarrow> None | Some h \<Rightarrow> h_parent h)"

partial_function (option) children_loop ::
  "'a registry_scheme \<Rightarrow> entity option \<Rightarrow> entity list \<Rightarrow> entity list option" where
  "children_loop r child children =
     (case child of
        None \<Rightarrow> Some children
      | Some c \<Rightarrow>
          if alive r c
          then children_loop r
                 (case hier r c of None \<Rightarrow> Some c | Some h \<Rightarrow> h_next h) (children @ [c])
          else Some children)"

definition getChildren :: "'a registry_scheme \<Rightarrow> entity \<Rightarrow> entity list option" where
  "getChildren r e =
     (case hier r e of None \<Rightarrow> Some [] | Some h \<Rightarrow> children_loop r (h_first h) [])"

definition destroy :: "'a registry_scheme \<Rightarrow> entity \<Rightarrow> fault + 'a registry_scheme" where
  "destroy r e =
     (if \<not> alive r e then Inl Dangling
      else
        case (if hier r e = None then Inr r else onDestroy r e) of
          Inl f \<Rightarrow> Inl f
        | Inr r1 \<Rightarrow> Inr (r1\<lparr>alive := (alive r1)(e := False), hier := (hier r1)(e := None),
                            names := (names r1)(e := None), actives := (actives r1)(e := None)\<rparr>))"

end
