(* ===== verification/Hierarchy_Forest.thy ===== *)
theory Hierarchy_Forest
  imports Hierarchy
begin

text \<open>
  The hierarchy as a forest: an abstract map from each entity to the list of its children,
  and the invariant that ties the four links of every component to it. The operations of
  theory \<open>Hierarchy\<close> are shown to implement appending to and removing from these lists.
\<close>

section \<open>Neighbours in a list\<close>

fun succ_of :: "'a \<Rightarrow> 'a list \<Rightarrow> 'a option" where
  "succ_of x (y # z # zs) = (if x = y then Some z else succ_of x (z # zs))"
| "succ_of x _ = None"

definition pred_of :: "'a \<Rightarrow> 'a list \<Rightarrow> 'a option" where
  "pred_of x xs = succ_of x (rev xs)"

definition head :: "'a list \<Rightarrow> 'a option" where
  "head xs = (case xs of [] \<Rightarrow> None | x # _ \<Rightarrow> Some x)"

lemma head_simps [simp]: "head [] = None" "head (x # xs) = Some x"
  by (simp_all add: head_def)

lemma head_append [simp]: "head (xs @ ys) = (if xs = [] then head ys else head xs)"
  by (cases xs) auto

lemma head_None [simp]: "head xs = None \<longleftrightarrow> xs = []"
  by (cases xs) auto

lemma head_in: "head xs = Some x \<Longrightarrow> x \<in> set xs"
  by (cases xs) auto

lemma succ_of_notin [simp]: "x \<notin> set xs \<Longrightarrow> succ_of x xs = None"
  by (induction x xs rule: succ_of.induct) auto

lemma succ_of_in: "succ_of x xs = Some y \<Longrightarrow> x \<in> set xs \<and> y \<in> set xs"
  by (induction x xs rule: succ_of.induct) (auto split: if_splits)

lemma succ_of_mid: "x \<notin> set xs \<Longrightarrow> succ_of x (xs @ x # ys) = head ys"
proof (induction xs)
  case Nil
  then show ?case by (cases ys) auto
next
  case (Cons a xs)
  then show ?case by (cases xs) auto
qed

lemma pred_of_mid: "x \<notin> set ys \<Longrightarrow> pred_of x (xs @ x # ys) = head (rev xs)"
  using succ_of_mid[of x "rev ys" "rev xs"] by (simp add: pred_of_def)

lemma pred_of_notin [simp]: "x \<notin> set xs \<Longrightarrow> pred_of x xs = None"
  by (simp add: pred_of_def)

lemma pred_of_in: "pred_of x xs = Some y \<Longrightarrow> x \<in> set xs \<and> y \<in> set xs"
  using succ_of_in[of x "rev xs" y] by (simp add: pred_of_def)

lemma succ_of_neq: "distinct xs \<Longrightarrow> succ_of x xs = Some y \<Longrightarrow> x \<noteq> y"
  by (induction x xs rule: succ_of.induct) (auto split: if_splits)

lemma succ_of_snoc:
  assumes "x \<noteq> e" "distinct xs"
  shows "succ_of x (xs @ [e]) = (if head (rev xs) = Some x then Some e else succ_of x xs)"
proof (cases "x \<in> set xs")
  case True
  then obtain as bs where xs: "xs = as @ x # bs" "x \<notin> set as" by (meson split_list_first)
  have "head (rev xs) = Some x \<longleftrightarrow> bs = []"
    using xs assms(2) by (cases bs rule: rev_cases) auto
  then show ?thesis using succ_of_mid[OF xs(2)] xs(1) by (cases bs) auto
next
  case False
  then show ?thesis using assms(1) by (auto dest: head_in)
qed

lemma pred_of_snoc:
  "distinct (xs @ [e]) \<Longrightarrow>
   pred_of x (xs @ [e]) = (if x = e then head (rev xs) else pred_of x xs)"
  using pred_of_mid[of e "[]" xs] by (cases "rev xs") (auto simp: pred_of_def)

lemma succ_of_snoc_last: "distinct (xs @ [e]) \<Longrightarrow> succ_of e (xs @ [e]) = None"
  using succ_of_mid[of e xs "[]"] by simp

lemma succ_of_delete:
  assumes "distinct (xs @ e # ys)" "x \<noteq> e"
  shows "succ_of x (xs @ ys) =
    (if succ_of x (xs @ e # ys) = Some e then head ys else succ_of x (xs @ e # ys))"
  using assms
proof (induction xs)
  case Nil
  then show ?case by (cases ys) (auto dest: succ_of_in)
next
  case (Cons a xs)
  then show ?case by (cases xs; cases ys) (auto dest: succ_of_in)
qed

lemma pred_of_delete:
  assumes "distinct (xs @ e # ys)" "x \<noteq> e"
  shows "pred_of x (xs @ ys) =
    (if pred_of x (xs @ e # ys) = Some e then head (rev xs) else pred_of x (xs @ e # ys))"
proof -
  have "distinct (rev ys @ e # rev xs)" using assms(1) by auto
  from succ_of_delete[OF this assms(2)] show ?thesis by (simp add: pred_of_def)
qed

lemma succ_of_split: "succ_of x xs = Some y \<Longrightarrow> \<exists>as bs. xs = as @ x # y # bs"
proof (induction x xs rule: succ_of.induct)
  case (1 x a b zs)
  show ?case
  proof (cases "x = a")
    case True
    with 1 show ?thesis by (intro exI[of _ "[]"] exI[of _ zs]) auto
  next
    case False
    with 1 obtain as bs where "b # zs = as @ x # y # bs" by auto
    then have "a # b # zs = (a # as) @ x # y # bs" by simp
    then show ?thesis by blast
  qed
qed auto

lemma succ_pred: "distinct xs \<Longrightarrow> succ_of x xs = Some y \<Longrightarrow> pred_of y xs = Some x"
  using pred_of_mid[of y _ "_ @ [x]"] by (fastforce dest!: succ_of_split)

lemma pred_succ: "distinct xs \<Longrightarrow> pred_of y xs = Some x \<Longrightarrow> succ_of x xs = Some y"
  using succ_pred[of "rev xs" y x] by (simp add: pred_of_def)

lemma succ_neighbour:
  "distinct xs \<Longrightarrow> succ_of x xs = Some y \<longleftrightarrow> pred_of y xs = Some x"
  using succ_pred pred_succ by metis

section \<open>The representation invariant\<close>

definition parents :: "(entity \<rightharpoonup> hierarchy) \<Rightarrow> (entity \<times> entity) set" where
  "parents m = {(x, p). \<exists>h. m x = Some h \<and> h_parent h = Some p}"

text \<open>The links of an entity, as the lists of children determine them.\<close>

definition linked :: "(entity \<Rightarrow> entity list) \<Rightarrow> entity \<Rightarrow> hierarchy \<Rightarrow> bool" where
  "linked ch x h \<longleftrightarrow>
     h_first h = head (ch x) \<and>
     (case h_parent h of
        None \<Rightarrow> h_next h = None \<and> h_prev h = None
      | Some p \<Rightarrow> x \<in> set (ch p) \<and> h_next h = succ_of x (ch p) \<and> h_prev h = pred_of x (ch p))"

definition forest_links :: "(entity \<rightharpoonup> hierarchy) \<Rightarrow> (entity \<Rightarrow> entity list) \<Rightarrow> bool" where
  "forest_links m ch \<longleftrightarrow>
     (\<forall>x h. m x = Some h \<longrightarrow> linked ch x h) \<and>
     (\<forall>p. distinct (ch p)) \<and>
     (\<forall>p x. x \<in> set (ch p) \<longrightarrow> (x, p) \<in> parents m \<and> m p \<noteq> None)"

definition hier_ok :: "'a registry_scheme \<Rightarrow> (entity \<Rightarrow> entity list) \<Rightarrow> bool" where
  "hier_ok r ch \<longleftrightarrow>
     forest_links (hier r) ch \<and> finite (dom (hier r)) \<and> acyclic (parents (hier r)) \<and>
     (\<forall>x. hier r x \<noteq> None \<longrightarrow> alive r x)"

definition hier_inv :: "'a registry_scheme \<Rightarrow> bool" where
  "hier_inv r \<longleftrightarrow> (\<exists>ch. hier_ok r ch)"

lemma parents_simp: "(x, p) \<in> parents m \<longleftrightarrow> (\<exists>h. m x = Some h \<and> h_parent h = Some p)"
  by (simp add: parents_def)

lemma forest_linksD:
  assumes "forest_links m ch"
  shows "m x = Some h \<Longrightarrow> linked ch x h" and "distinct (ch p)"
    and "x \<in> set (ch p) \<Longrightarrow> \<exists>h. m x = Some h \<and> h_parent h = Some p"
    and "x \<in> set (ch p) \<Longrightarrow> m p \<noteq> None"
    and "m x = None \<Longrightarrow> ch x = []"
    and "m x = Some h \<Longrightarrow> h_parent h = Some p \<longleftrightarrow> x \<in> set (ch p)"
proof -
  note f = assms[unfolded forest_links_def]
  show l: "m x = Some h \<Longrightarrow> linked ch x h" for x h using f by blast
  show "distinct (ch p)" using f by blast
  show c: "x \<in> set (ch p) \<Longrightarrow> \<exists>h. m x = Some h \<and> h_parent h = Some p" for x p
    using f by (auto simp: parents_simp)
  show "x \<in> set (ch p) \<Longrightarrow> m p \<noteq> None" using f by blast
  show "m x = None \<Longrightarrow> ch x = []" using f by (metis list.set_intros(1) neq_Nil_conv)
  show "m x = Some h \<Longrightarrow> h_parent h = Some p \<longleftrightarrow> x \<in> set (ch p)"
    using l[of x h] c[of x p] by (auto simp: linked_def)
qed

lemma forest_disjoint:
  assumes "forest_links m ch" "x \<in> set (ch p)" "x \<in> set (ch q)"
  shows "p = q"
  using forest_linksD(3)[OF assms(1,2)] forest_linksD(3)[OF assms(1,3)] by auto

lemma not_own_parent: "acyclic (parents m) \<Longrightarrow> m x = Some g \<Longrightarrow> h_parent g \<noteq> Some x"
  unfolding acyclic_def by (metis parents_simp trancl.r_into_trancl)

lemma parents_children: "forest_links m ch \<Longrightarrow> (x, p) \<in> parents m \<longleftrightarrow> x \<in> set (ch p)"
  using forest_linksD(3,6) by (fastforce simp: parents_simp)

text \<open>A forest without cycles: the ancestors of an entity end.\<close>

lemma hier_wf:
  assumes "hier_ok r ch"
  shows "wf ((parents (hier r))\<inverse>)" and "wf (parents (hier r))"
proof -
  have f: "forest_links (hier r) ch" and ac: "acyclic (parents (hier r))" using assms by (auto simp: hier_ok_def)
  have "m \<in> dom (hier r) \<times> dom (hier r)" if "m \<in> parents (hier r)" for m
    using that forest_linksD(3,4)[OF f] parents_children[OF f] by (cases m) (fastforce simp: parents_simp)
  then have "finite (parents (hier r))"
    using assms by (meson finite_SigmaI finite_subset hier_ok_def subsetI)
  then show "wf ((parents (hier r))\<inverse>)" "wf (parents (hier r))"
    using ac finite_acyclic_wf_converse finite_acyclic_wf by auto
qed

section \<open>Walking the links\<close>

fun chain :: "(entity \<rightharpoonup> hierarchy) \<Rightarrow> entity list \<Rightarrow> bool" where
  "chain m [] = True"
| "chain m (y # ys) = ((\<exists>h. m y = Some h \<and> h_next h = head ys) \<and> chain m ys)"

lemma chain_forest:
  assumes "forest_links m ch" "ch p = xs @ ys"
  shows "chain m ys"
  using assms(2)
proof (induction ys arbitrary: xs)
  case (Cons y ys)
  from forest_linksD(3)[OF assms(1), of y p] Cons.prems obtain h where
    h: "m y = Some h" "h_parent h = Some p" by auto
  have "succ_of y (ch p) = head ys"
    using forest_linksD(2)[OF assms(1), of p] Cons.prems by (auto intro!: succ_of_mid)
  then have "h_next h = head ys" using forest_linksD(1)[OF assms(1) h(1)] h by (simp add: linked_def)
  then show ?case using Cons.IH[of "xs @ [y]"] Cons.prems h by simp
qed simp

lemma chain_upd [simp]: "e \<notin> set ys \<Longrightarrow> chain (m(e \<mapsto> h)) ys \<longleftrightarrow> chain m ys"
  by (induction ys) auto

lemma last_sibling_chain:
  "chain m ys \<Longrightarrow> ys \<noteq> [] \<Longrightarrow> last_sibling m (hd ys) = Some (last ys, m (last ys))"
proof (induction ys)
  case (Cons y ys)
  then show ?case by (cases ys) (subst last_sibling.simps; auto)+
qed simp

lemma children_chain:
  "chain (hier r) ys \<Longrightarrow> \<forall>y \<in> set ys. alive r y \<Longrightarrow>
   children_loop r (head ys) acc = Some (acc @ ys)"
proof (induction ys arbitrary: acc)
  case Nil
  then show ?case by (simp add: children_loop.simps)
next
  case (Cons y ys)
  then show ?case by (subst children_loop.simps) auto
qed

lemma child_alive: "hier_ok r ch \<Longrightarrow> x \<in> set (ch p) \<Longrightarrow> alive r x \<and> hier r x \<noteq> None"
  using forest_linksD(3)[of "hier r" ch x p] by (auto simp: hier_ok_def)

lemma getChildren_forest:
  assumes "hier_ok r ch"
  shows "getChildren r e = Some (ch e)"
proof (cases "hier r e")
  case None
  then show ?thesis using forest_linksD(5)[of "hier r" ch e] assms
    by (simp add: getChildren_def hier_ok_def)
next
  case (Some h)
  then have "h_first h = head (ch e)"
    using forest_linksD(1)[of "hier r" ch e h] assms by (simp add: hier_ok_def linked_def)
  moreover have "chain (hier r) (ch e)"
    using assms chain_forest[of "hier r" ch e "[]" "ch e"] by (simp add: hier_ok_def)
  ultimately show ?thesis
    using Some children_chain[of r "ch e" "[]"] child_alive[OF assms, of _ e] by (simp add: getChildren_def)
qed

lemma ancestor_loop_None [simp]: "ancestor_loop m b None = Some False"
  by (subst ancestor_loop.simps) simp

lemma ancestor_loop_step:
  "ancestor_loop m (Some b) (Some p) =
     (if p = b then Some True else ancestor_loop m (Some b) (Option.bind (m p) h_parent))"
  by (subst ancestor_loop.simps) (auto split: option.split)

lemma ancestor_loop_forest:
  assumes "hier_ok r ch"
  shows "ancestor_loop (hier r) (Some b) (Some p) = Some ((p, b) \<in> (parents (hier r))\<^sup>*)"
  using hier_wf(1)[OF assms]
proof (induction p rule: wf_induct_rule)
  case (less p)
  show ?case
  proof (cases "p = b")
    case True
    then show ?thesis by (simp add: ancestor_loop_step)
  next
    case False
    show ?thesis
    proof (cases "Option.bind (hier r p) h_parent")
      case None
      then have "\<And>q. (p, q) \<notin> parents (hier r)" by (auto simp: parents_simp)
      then have "(p, b) \<notin> (parents (hier r))\<^sup>*" using False by (metis converse_rtranclE)
      with False None show ?thesis by (simp add: ancestor_loop_step)
    next
      case (Some q)
      then have pq: "(p, q) \<in> parents (hier r)" and u: "\<And>q'. (p, q') \<in> parents (hier r) \<Longrightarrow> q' = q"
        by (auto simp: parents_simp split: Option.bind_splits)
      have "(p, b) \<in> (parents (hier r))\<^sup>* \<longleftrightarrow> (q, b) \<in> (parents (hier r))\<^sup>*"
        using False pq u by (metis converse_rtranclE converse_rtrancl_into_rtrancl)
      with less[of q] pq False Some show ?thesis by (simp add: ancestor_loop_step)
    qed
  qed
qed

lemma isParent_forest:
  assumes "hier_ok r ch"
  shows "isParent r (Some a) (Some b) = Some ((a, b) \<in> (parents (hier r))\<^sup>+)"
proof (cases "Option.bind (hier r a) h_parent")
  case None
  then have "\<And>q. (a, q) \<notin> parents (hier r)" by (auto simp: parents_simp)
  then have "(a, b) \<notin> (parents (hier r))\<^sup>+" by (metis tranclD)
  with None show ?thesis by (auto simp: isParent_def split: option.split Option.bind_splits)
next
  case (Some p)
  then have ap: "(a, p) \<in> parents (hier r)" and u: "\<And>q. (a, q) \<in> parents (hier r) \<Longrightarrow> q = p"
    by (auto simp: parents_simp split: Option.bind_splits)
  have "(a, b) \<in> (parents (hier r))\<^sup>+ \<longleftrightarrow> (p, b) \<in> (parents (hier r))\<^sup>*"
    using ap u by (metis rtrancl_into_trancl2 tranclD)
  with Some ancestor_loop_forest[OF assms, of b p] show ?thesis
    by (auto simp: isParent_def split: Option.bind_splits)
qed

section \<open>Leaving a sibling list\<close>

lemma filter_notin [simp]: "e \<notin> set xs \<Longrightarrow> filter (\<lambda>x. x \<noteq> e) xs = xs"
  by (induction xs) auto

lemma filter_mid: "distinct (xs @ e # ys) \<Longrightarrow> filter (\<lambda>x. x \<noteq> e) (xs @ e # ys) = xs @ ys"
  by simp

lemma head_filter:
  "distinct xs \<Longrightarrow> head (filter (\<lambda>x. x \<noteq> e) xs) = (if head xs = Some e then succ_of e xs else head xs)"
  using succ_of_mid[of e "[]"] by (cases xs) auto

lemma succ_of_filter:
  assumes "distinct xs" "x \<noteq> e"
  shows "succ_of x (filter (\<lambda>y. y \<noteq> e) xs) =
    (if succ_of x xs = Some e then succ_of e xs else succ_of x xs)"
proof (cases "e \<in> set xs")
  case True
  then obtain as bs where "xs = as @ e # bs" by (meson split_list)
  with assms succ_of_delete[of as e bs x] succ_of_mid[of e as bs] filter_mid[of as e bs]
  show ?thesis by auto
next
  case False
  then show ?thesis using succ_of_in[of x xs e] by auto
qed

lemma pred_of_filter:
  assumes "distinct xs" "x \<noteq> e"
  shows "pred_of x (filter (\<lambda>y. y \<noteq> e) xs) =
    (if pred_of x xs = Some e then pred_of e xs else pred_of x xs)"
  using succ_of_filter[of "rev xs" x e] assms by (simp add: pred_of_def rev_filter)

lemma linked_child:
  assumes "forest_links m ch" "m x = Some g" "x \<in> set (ch p)"
  shows "h_parent g = Some p" "h_next g = succ_of x (ch p)" "h_prev g = pred_of x (ch p)"
proof -
  show "h_parent g = Some p" using forest_linksD(6)[OF assms(1,2)] assms(3) by simp
  then show "h_next g = succ_of x (ch p)" "h_prev g = pred_of x (ch p)"
    using forest_linksD(1)[OF assms(1,2)] by (auto simp: linked_def)
qed

lemma linked_sibling:
  assumes "forest_links m ch" "m x = Some g"
  shows "h_next g = Some y \<Longrightarrow> \<exists>p. succ_of x (ch p) = Some y"
    and "h_prev g = Some y \<Longrightarrow> \<exists>p. pred_of x (ch p) = Some y"
  using forest_linksD(1)[OF assms] by (auto simp: linked_def split: option.splits)

lemma sibling_sym:
  assumes "forest_links m ch" "m x = Some g" "m e = Some h"
  shows "h_next g = Some e \<longleftrightarrow> h_prev h = Some x"
proof
  assume "h_next g = Some e"
  then obtain p where p: "succ_of x (ch p) = Some e" using linked_sibling[OF assms(1,2)] by blast
  then show "h_prev h = Some x"
    using linked_child(3)[OF assms(1,3), of p] succ_of_in[OF p] succ_pred[OF forest_linksD(2)[OF assms(1)] p]
    by simp
next
  assume "h_prev h = Some x"
  then obtain p where p: "pred_of e (ch p) = Some x" using linked_sibling[OF assms(1,3)] by blast
  then show "h_next g = Some e"
    using linked_child(2)[OF assms(1,2), of p] pred_of_in[OF p] pred_succ[OF forest_linksD(2)[OF assms(1)] p]
    by simp
qed

lemma first_child:
  assumes "forest_links m ch" "m x = Some g" "m e = Some h"
  shows "h_first g = Some e \<longleftrightarrow> h_parent h = Some x \<and> h_prev h = None"
proof -
  have g: "h_first g = head (ch x)" using forest_linksD(1)[OF assms(1,2)] by (simp add: linked_def)
  show ?thesis
  proof (cases "e \<in> set (ch x)")
    case True
    then obtain as bs where ch: "ch x = as @ e # bs" by (meson split_list)
    have "pred_of e (ch x) = head (rev as)"
      using pred_of_mid forest_linksD(2)[OF assms(1), of x] ch by auto
    moreover have "h_parent h = Some x" "h_prev h = pred_of e (ch x)"
      using linked_child[OF assms(1,3) True] by auto
    ultimately show ?thesis using g ch forest_linksD(2)[OF assms(1), of x] by (cases as) auto
  next
    case False
    then show ?thesis using g forest_linksD(6)[OF assms(1,3), of x] by (auto dest: head_in)
  qed
qed

text \<open>What every other component looks like once \<open>e\<close> is skipped.\<close>

definition skip :: "entity \<Rightarrow> hierarchy \<Rightarrow> hierarchy \<Rightarrow> hierarchy" where
  "skip e h g =
     g\<lparr>h_first := if h_first g = Some e then h_next h else h_first g,
       h_next := if h_next g = Some e then h_next h else h_next g,
       h_prev := if h_prev g = Some e then h_prev h else h_prev g\<rparr>"

definition orphan :: "hierarchy \<Rightarrow> hierarchy" where
  "orphan h = h\<lparr>h_parent := None, h_next := None, h_prev := None\<rparr>"

definition skipped ::
  "entity \<Rightarrow> hierarchy \<Rightarrow> (entity \<rightharpoonup> hierarchy) \<Rightarrow> (entity \<rightharpoonup> hierarchy) \<Rightarrow> bool" where
  "skipped e h m m' \<longleftrightarrow> (\<forall>x. x \<noteq> e \<longrightarrow> m' x = map_option (skip e h) (m x))"

lemma skip_fields [simp]:
  "h_parent (skip e h g) = h_parent g"
  "h_first (skip e h g) = (if h_first g = Some e then h_next h else h_first g)"
  "h_next (skip e h g) = (if h_next g = Some e then h_next h else h_next g)"
  "h_prev (skip e h g) = (if h_prev g = Some e then h_prev h else h_prev g)"
  by (simp_all add: skip_def)

lemma skip_linked:
  assumes f: "forest_links m ch" and e: "m e = Some h" and x: "m x = Some g" "x \<noteq> e"
  shows "linked (\<lambda>q. filter (\<lambda>y. y \<noteq> e) (ch q)) x (skip e h g)"
proof -
  have l: "linked ch x g" using forest_linksD(1)[OF f x(1)] .
  have d: "distinct (ch q)" for q using forest_linksD(2)[OF f] .
  have "h_next h = succ_of e (ch x)" if "head (ch x) = Some e"
    using linked_child(2)[OF f e, of x] head_in[OF that] by simp
  then have 1: "h_first (skip e h g) = head (filter (\<lambda>y. y \<noteq> e) (ch x))"
    using l d[of x] by (auto simp: linked_def head_filter)
  have 2: "h_next h = succ_of e (ch p)" if "succ_of x (ch p) = Some e" for p
    using linked_child(2)[OF f e, of p] succ_of_in[OF that] by simp
  have 3: "h_prev h = pred_of e (ch p)" if "pred_of x (ch p) = Some e" for p
    using linked_child(3)[OF f e, of p] pred_of_in[OF that] by simp
  show ?thesis
    using l 1 2 3 d x(2)
    by (auto simp: linked_def succ_of_filter pred_of_filter split: option.splits)
qed

lemma skipped_links:
  assumes f: "forest_links m ch" and ac: "acyclic (parents m)"
    and e: "m e = Some h" "skipped e h m m'" "m' e = Some (orphan h)"
  shows "forest_links m' (\<lambda>q. filter (\<lambda>x. x \<noteq> e) (ch q))"
    and "parents m' = parents m - {(e, p) | p. True}" and "dom m' = dom m"
proof -
  have o: "x \<noteq> e \<Longrightarrow> m' x = map_option (skip e h) (m x)" for x using e(2) by (simp add: skipped_def)
  have pp: "(x, p) \<in> parents m' \<longleftrightarrow> (x, p) \<in> parents m \<and> x \<noteq> e" for x p
    using e(1,3) o[of x] by (cases "x = e"; cases "m x") (auto simp: parents_simp orphan_def)
  then show "parents m' = parents m - {(e, p) | p. True}" by auto
  have dm: "m' x = None \<longleftrightarrow> m x = None" for x using e(1,3) o[of x] by (cases "x = e") auto
  then show "dom m' = dom m" by (auto simp: dom_def)
  have l: "linked (\<lambda>q. filter (\<lambda>y. y \<noteq> e) (ch q)) x g'" if "m' x = Some g'" for x g'
  proof (cases "x = e")
    case True
    have "e \<notin> set (ch e)" using ac parents_children[OF f, of e e] by (auto simp: acyclic_def)
    then show ?thesis using True that e(3) forest_linksD(1)[OF f e(1)]
      by (auto simp: linked_def orphan_def)
  next
    case False
    with that o[of x] obtain g where "m x = Some g" "g' = skip e h g" by auto
    with skip_linked[OF f e(1) _ False] show ?thesis by simp
  qed
  show "forest_links m' (\<lambda>q. filter (\<lambda>x. x \<noteq> e) (ch q))"
    unfolding forest_links_def
    using l pp dm forest_linksD(2)[OF f] parents_children[OF f] forest_linksD(4)[OF f] by auto
qed

text \<open>\<open>onDestroy\<close> and the clearing of the three links in \<open>reparent\<close> skip exactly \<open>e\<close>.\<close>

lemma hierarchy_eqI:
  "h_parent g = h_parent h \<Longrightarrow> h_first g = h_first h \<Longrightarrow> h_next g = h_next h \<Longrightarrow>
   h_prev g = h_prev h \<Longrightarrow> g = (h :: hierarchy)"
  by simp

lemma modify_apply: "modify e f m x = (if x = e then map_option f (m x) else m x)"
  by (auto simp: modify_def split: option.split)

lemma modify_opt_apply: "modify_opt e f m x = (if e = Some x then map_option f (m x) else m x)"
  by (auto simp: modify_opt_def modify_apply split: option.split)

lemma skippedI:
  assumes "\<And>x g. m x = Some g \<Longrightarrow> m' x = Some (skip e h g)" "\<And>x. m x = None \<Longrightarrow> m' x = None"
  shows "skipped e h m m'"
  unfolding skipped_def
proof (intro allI impI)
  fix x
  show "m' x = map_option (skip e h) (m x)" using assms by (cases "m x") auto
qed

lemma onDestroy_skips:
  assumes ok: "hier_ok r ch" and e: "hier r e = Some h"
  obtains m where "onDestroy r e = Inr (r\<lparr>hier := m\<rparr>)" "skipped e h (hier r) m" "m e = Some h"
proof -
  have f: "forest_links (hier r) ch" and ac: "acyclic (parents (hier r))" using ok by (auto simp: hier_ok_def)
  note sym = sibling_sym[OF f _ e] sibling_sym[OF f e] and fst = first_child[OF f _ e]
  have al: "alive r x" if "hier r x = Some g" for x g using ok that by (auto simp: hier_ok_def)
  have nx: "h_next h \<noteq> Some e" using linked_sibling(1)[OF f e] succ_of_neq forest_linksD(2)[OF f] by metis
  have pv: "h_prev h \<noteq> Some e" using nx sym(1)[OF e] by simp
  show thesis
  proof (cases "h_prev h")
    case (Some q)
    then obtain g where "hier r q = Some g"
      using linked_sibling(2)[OF f e] pred_of_in forest_linksD(3)[OF f] by metis
    then have "onDestroy r e = Inr (r\<lparr>hier := unlink_after h q (hier r)\<rparr>)"
      using e Some al by (simp add: onDestroy_def)
    moreover have "skipped e h (hier r) (unlink_after h q (hier r))"
    proof (rule skippedI)
      fix x g assume "hier r x = Some g"
      from this Some sym(1,2)[OF this] fst[OF this]
      show "unlink_after h q (hier r) x = Some (skip e h g)"
        by (auto simp: unlink_after_def modify_apply modify_opt_apply intro!: hierarchy_eqI)
    qed (auto simp: unlink_after_def modify_apply modify_opt_apply)
    moreover have "unlink_after h q (hier r) e = Some h"
      using nx pv Some e by (simp add: unlink_after_def modify_apply modify_opt_apply)
    ultimately show thesis using that by blast
  next
    case None
    show thesis
    proof (cases "h_parent h")
      case pN: None
      then have "h_next h = None" using forest_linksD(1)[OF f e] by (simp add: linked_def)
      moreover have "skipped e h (hier r) (hier r)"
      proof (rule skippedI)
        fix x g assume "hier r x = Some g"
        from this pN None \<open>h_next h = None\<close> sym(1,2)[OF this] fst[OF this]
        show "hier r x = Some (skip e h g)" by (auto intro!: hierarchy_eqI)
      qed
      ultimately show thesis using that[of "hier r"] e None pN by (simp add: onDestroy_def leave_parent_def)
    next
      case (Some p)
      then have c: "e \<in> set (ch p)" using forest_linksD(6)[OF f e] by simp
      then obtain g where g: "hier r p = Some g" using forest_linksD(4)[OF f] by blast
      have "p \<noteq> e" using ac parents_children[OF f, of e p] c by (auto simp: acyclic_def)
      have "onDestroy r e = Inr (r\<lparr>hier := unlink_first h p (hier r)\<rparr>)"
        using e None Some al g by (simp add: onDestroy_def leave_parent_def)
      moreover have "skipped e h (hier r) (unlink_first h p (hier r))"
      proof (rule skippedI)
        fix x g' assume "hier r x = Some g'"
        from this None Some g sym(1,2)[OF this] fst[OF this]
        show "unlink_first h p (hier r) x = Some (skip e h g')"
          by (auto simp: unlink_first_def modify_apply modify_opt_apply intro!: hierarchy_eqI)
      qed (auto simp: unlink_first_def modify_apply modify_opt_apply)
      moreover have "unlink_first h p (hier r) e = Some h"
        using nx \<open>p \<noteq> e\<close> e g by (simp add: unlink_first_def modify_apply modify_opt_apply)
      ultimately show thesis using that by blast
    qed
  qed
qed

section \<open>Joining a sibling list\<close>

text \<open>The components once \<open>e\<close> is the last child of \<open>p\<close>.\<close>

definition join :: "(entity \<Rightarrow> entity list) \<Rightarrow> entity \<Rightarrow> entity \<Rightarrow> entity \<Rightarrow> hierarchy \<Rightarrow> hierarchy" where
  "join ch e p x g =
     (if x = e then g\<lparr>h_parent := Some p, h_prev := head (rev (ch p))\<rparr>
      else g\<lparr>h_first := if x = p \<and> ch p = [] then Some e else h_first g,
             h_next := if head (rev (ch p)) = Some x then Some e else h_next g\<rparr>)"

definition joined ::
  "(entity \<Rightarrow> entity list) \<Rightarrow> entity \<Rightarrow> entity \<Rightarrow> (entity \<rightharpoonup> hierarchy) \<Rightarrow> (entity \<rightharpoonup> hierarchy) \<Rightarrow> bool" where
  "joined ch e p m m' \<longleftrightarrow> (\<forall>x. m' x = map_option (join ch e p x) (m x))"

lemma joinedI:
  assumes "\<And>x g. m x = Some g \<Longrightarrow> m' x = Some (join ch e p x g)" "\<And>x. m x = None \<Longrightarrow> m' x = None"
  shows "joined ch e p m m'"
  unfolding joined_def
proof
  fix x
  show "m' x = map_option (join ch e p x) (m x)" using assms by (cases "m x") auto
qed

lemma root_not_child:
  "forest_links m ch \<Longrightarrow> m e = Some h \<Longrightarrow> h_parent h = None \<Longrightarrow> e \<notin> set (ch p)"
  using forest_linksD(6)[of m ch e h p] by auto

lemma join_linked:
  assumes f: "forest_links m ch" and e: "m e = Some h" "h_parent h = None" "p \<noteq> e"
    and x: "m x = Some g"
  shows "linked (ch(p := ch p @ [e])) x (join ch e p x g)"
proof -
  note ne = root_not_child[OF f e(1,2)]
  have d: "distinct (ch p @ [e])" using forest_linksD(2)[OF f] ne by simp
  show ?thesis
  proof (cases "x = e")
    case True
    then show ?thesis
      using forest_linksD(1)[OF f x] x e d succ_of_snoc_last[OF d] pred_of_snoc[OF d, of e]
      by (auto simp: linked_def join_def)
  next
    case False
    have "head (rev (ch p)) \<noteq> Some x" if "h_parent g \<noteq> Some p"
      using that forest_linksD(6)[OF f x, of p] head_in[of "rev (ch p)" x] by auto
    then show ?thesis
      using forest_linksD(1)[OF f x] False succ_of_snoc[OF False, of "ch p"] d pred_of_snoc[OF d, of x]
      by (cases "h_parent g") (auto simp: linked_def join_def split: if_splits)
  qed
qed

lemma joined_links:
  assumes f: "forest_links m ch" and e: "m e = Some h" "h_parent h = None" "p \<noteq> e" "m p \<noteq> None"
    and j: "joined ch e p m m'"
  shows "forest_links m' (ch(p := ch p @ [e]))" and "parents m' = insert (e, p) (parents m)"
    and "dom m' = dom m"
proof -
  have m': "m' x = map_option (join ch e p x) (m x)" for x using j by (simp add: joined_def)
  have pp: "(x, q) \<in> parents m' \<longleftrightarrow> (x, q) = (e, p) \<or> (x, q) \<in> parents m" for x q
    using m'[of x] e by (cases "m x") (auto simp: parents_simp join_def)
  then show "parents m' = insert (e, p) (parents m)" by auto
  have dm: "m' x = None \<longleftrightarrow> m x = None" for x using m'[of x] by auto
  then show "dom m' = dom m" by (auto simp: dom_def)
  have "linked (ch(p := ch p @ [e])) x g'" if "m' x = Some g'" for x g'
    using that m'[of x] join_linked[OF f e(1,2,3)] by auto
  moreover have "distinct ((ch(p := ch p @ [e])) q)" for q
    using forest_linksD(2)[OF f] root_not_child[OF f e(1,2)] by auto
  moreover have "(x, q) \<in> parents m' \<and> m' q \<noteq> None" if "x \<in> set ((ch(p := ch p @ [e])) q)" for x q
    using that pp[of x q] dm[of q] e parents_children[OF f, of x q] forest_linksD(4)[OF f, of x q]
    by (auto split: if_splits)
  ultimately show "forest_links m' (ch(p := ch p @ [e]))" unfolding forest_links_def by blast
qed

lemma add_root:
  assumes f: "forest_links m ch" and "m p = None"
  shows "forest_links (m(p \<mapsto> Hierarchy None)) ch" "parents (m(p \<mapsto> Hierarchy None)) = parents m"
proof -
  have pp: "(x, q) \<in> parents (m(p \<mapsto> Hierarchy None)) \<longleftrightarrow> (x, q) \<in> parents m" for x q
    using assms(2) by (auto simp: parents_simp Hierarchy_def)
  then show "parents (m(p \<mapsto> Hierarchy None)) = parents m" by auto
  have "linked ch p (Hierarchy None)"
    using forest_linksD(5)[OF f assms(2)] by (simp add: linked_def Hierarchy_def)
  then show "forest_links (m(p \<mapsto> Hierarchy None)) ch"
    using f pp unfolding forest_links_def by auto
qed

text \<open>
  The state in which \<open>onConstruct\<close> runs: \<open>e\<close> is a root of the forest except that its parent
  link is already \<open>p\<close>.
\<close>

lemma onConstruct_joins:
  assumes f: "forest_links m ch" and e: "m e = Some h" "h_parent h = None" "p \<noteq> e" "m p \<noteq> None"
    and r: "hier r = m(e \<mapsto> h\<lparr>h_parent := Some p\<rparr>)" "alive r p"
  obtains m' where "onConstruct r e = Some (Inr (r\<lparr>hier := m'\<rparr>))" "joined ch e p m m'"
proof -
  from e(4) obtain g where g: "m p = Some g" by blast
  have fst: "h_first g = head (ch p)" using forest_linksD(1)[OF f g] by (simp add: linked_def)
  note ne = root_not_child[OF f e(1,2)]
  have hn: "h_next h = None" "h_prev h = None" using forest_linksD(1)[OF f e(1)] e(2) by (auto simp: linked_def)
  show thesis
  proof (cases "ch p = []")
    case True
    let ?m = "modify p (\<lambda>h. h\<lparr>h_first := Some e\<rparr>) (hier r)"
    have "onConstruct r e = Some (Inr (r\<lparr>hier := ?m\<rparr>))"
      using r g e(3) fst True by (simp add: onConstruct_def)
    moreover have "joined ch e p m ?m"
      using r(1) e hn True by (intro joinedI) (auto simp: join_def modify_apply intro!: hierarchy_eqI)
    ultimately show thesis using that by blast
  next
    case False
    let ?l = "last (ch p)"
    let ?m = "modify e (\<lambda>h. h\<lparr>h_prev := Some ?l\<rparr>) (modify ?l (\<lambda>h. h\<lparr>h_next := Some e\<rparr>) (hier r))"
    have le: "?l \<noteq> e" using ne[of p] False last_in_set by metis
    have hd: "head (ch p) = Some (hd (ch p))" "head (rev (ch p)) = Some ?l"
      using False by (auto simp: head_def hd_rev[symmetric] split: list.split)
    have "chain m (ch p)" using chain_forest[OF f, of p "[]"] by simp
    then have "last_sibling (hier r) (hd (ch p)) = Some (?l, m ?l)"
      using last_sibling_chain[of "hier r" "ch p"] ne[of p] False le r(1) by simp
    moreover have "m ?l \<noteq> None" using forest_linksD(3)[OF f, of ?l p] False by auto
    ultimately have "onConstruct r e = Some (Inr (r\<lparr>hier := ?m\<rparr>))"
      using r g e(3) fst hd by (auto simp: onConstruct_def)
    moreover have "joined ch e p m ?m"
      using r(1) e hn False hd le
      by (intro joinedI) (auto simp: join_def modify_apply intro!: hierarchy_eqI)
    ultimately show thesis using that by blast
  qed
qed

lemma onConstruct_fresh_parent:
  assumes "hier r e = Some h" "h_parent h = Some p" "p \<noteq> e" "hier r p = None" "alive r p"
  shows "onConstruct r e = onConstruct (r\<lparr>hier := (hier r)(p \<mapsto> Hierarchy None)\<rparr>) e"
  using assms by (simp add: onConstruct_def Let_def Hierarchy_def)

section \<open>Moving an entity\<close>

definition leave :: "(entity \<Rightarrow> entity list) \<Rightarrow> entity \<Rightarrow> entity \<Rightarrow> entity list" where
  "leave ch e = (\<lambda>q. filter (\<lambda>x. x \<noteq> e) (ch q))"

definition adopt :: "(entity \<Rightarrow> entity list) \<Rightarrow> entity \<Rightarrow> entity \<Rightarrow> entity \<Rightarrow> entity list" where
  "adopt ch e p = (leave ch e)(p := leave ch e p @ [e])"

lemma attach_ok:
  assumes ok: "hier_ok r0 ch" and e: "hier r0 e = Some h" "h_parent h = None" "p \<noteq> e" "alive r0 p"
    and na: "(p, e) \<notin> (parents (hier r0))\<^sup>*"
  shows "\<exists>m. onConstruct (r0\<lparr>hier := (hier r0)(e \<mapsto> h\<lparr>h_parent := Some p\<rparr>)\<rparr>) e =
      Some (Inr (r0\<lparr>hier := m\<rparr>)) \<and> hier_ok (r0\<lparr>hier := m\<rparr>) (ch(p := ch p @ [e]))"
proof -
  define m where "m = (if hier r0 p = None then (hier r0)(p \<mapsto> Hierarchy None) else hier r0)"
  have f0: "forest_links (hier r0) ch" using ok by (simp add: hier_ok_def)
  have m: "forest_links m ch" "parents m = parents (hier r0)" "m e = Some h" "m p \<noteq> None"
    "dom m = insert p (dom (hier r0))"
    using f0 add_root[OF f0, of p] e by (auto simp: m_def)
  let ?r = "r0\<lparr>hier := m(e \<mapsto> h\<lparr>h_parent := Some p\<rparr>)\<rparr>"
  obtain m' where m': "onConstruct ?r e = Some (Inr (?r\<lparr>hier := m'\<rparr>))" "joined ch e p m m'"
    using onConstruct_joins[OF m(1,3) e(2,3) m(4), of ?r] e(4) by auto
  have "onConstruct (r0\<lparr>hier := (hier r0)(e \<mapsto> h\<lparr>h_parent := Some p\<rparr>)\<rparr>) e = onConstruct ?r e"
  proof (cases "hier r0 p = None")
    case True
    then have "m(e \<mapsto> h\<lparr>h_parent := Some p\<rparr>) =
        (hier r0)(e \<mapsto> h\<lparr>h_parent := Some p\<rparr>, p \<mapsto> Hierarchy None)"
      using e(3) by (auto simp: m_def)
    then show ?thesis
      using onConstruct_fresh_parent[of "r0\<lparr>hier := (hier r0)(e \<mapsto> h\<lparr>h_parent := Some p\<rparr>)\<rparr>" e
          "h\<lparr>h_parent := Some p\<rparr>" p] True e by simp
  qed (auto simp: m_def)
  moreover note j = joined_links[OF m(1,3) e(2,3) m(4) m'(2)]
  have "hier_ok (r0\<lparr>hier := m'\<rparr>) (ch(p := ch p @ [e]))"
    using j m(2,5) ok e(1,4) na by (auto simp: hier_ok_def domIff acyclic_insert)
  ultimately show ?thesis using m'(1) by (intro exI[of _ m']) simp
qed

lemma detach_ok:
  assumes ok: "hier_ok r ch" and e: "hier r e = Some h"
  obtains m where "onDestroy r e = Inr (r\<lparr>hier := m\<rparr>)" "m e = Some h"
    "hier_ok (r\<lparr>hier := m(e \<mapsto> orphan h)\<rparr>) (leave ch e)"
    "parents (m(e \<mapsto> orphan h)) = parents (hier r) - {(e, p) | p. True}"
proof -
  have f: "forest_links (hier r) ch" and ac: "acyclic (parents (hier r))" using ok by (auto simp: hier_ok_def)
  from onDestroy_skips[OF assms] obtain m where
    m: "onDestroy r e = Inr (r\<lparr>hier := m\<rparr>)" "skipped e h (hier r) m" "m e = Some h" .
  have "skipped e h (hier r) (m(e \<mapsto> orphan h))" using m(2) by (simp add: skipped_def)
  note s = skipped_links[OF f ac e this, simplified]
  have "acyclic (parents (m(e \<mapsto> orphan h)))" using ac unfolding s(2) by (rule acyclic_subset) auto
  moreover have "\<forall>x. (m(e \<mapsto> orphan h)) x \<noteq> None \<longrightarrow> alive r x"
    using s(3) ok e by (auto simp: hier_ok_def dom_def)
  ultimately have "hier_ok (r\<lparr>hier := m(e \<mapsto> orphan h)\<rparr>) (leave ch e)"
    using s ok by (simp add: hier_ok_def leave_def)
  then show thesis using that m(1,3) s(2) by blast
qed

lemma reparent_ok:
  assumes ok: "hier_ok r ch" and e: "hier r e = Some h"
    and p: "p \<noteq> e" "alive r p" "(p, e) \<notin> (parents (hier r))\<^sup>+"
  shows "\<exists>m. reparent r e (Some p) = Some (Inr (r\<lparr>hier := m\<rparr>)) \<and> hier_ok (r\<lparr>hier := m\<rparr>) (adopt ch e p)"
proof -
  from detach_ok[OF ok e] obtain m where m: "onDestroy r e = Inr (r\<lparr>hier := m\<rparr>)" "m e = Some h"
    "hier_ok (r\<lparr>hier := m(e \<mapsto> orphan h)\<rparr>) (leave ch e)"
    "parents (m(e \<mapsto> orphan h)) = parents (hier r) - {(e, p) | p. True}" .
  have "(p, e) \<notin> (parents (m(e \<mapsto> orphan h)))\<^sup>*"
    using p(1,3) trancl_mono[of "(p, e)" "parents (m(e \<mapsto> orphan h))" "parents (hier r)"]
    unfolding m(4) by (auto simp: rtrancl_eq_or_trancl)
  from attach_ok[OF m(3), of e "orphan h" p] this p(1,2)
  obtain m' where "onConstruct (r\<lparr>hier := m(e \<mapsto> (orphan h)\<lparr>h_parent := Some p\<rparr>)\<rparr>) e =
      Some (Inr (r\<lparr>hier := m'\<rparr>))" "hier_ok (r\<lparr>hier := m'\<rparr>) (adopt ch e p)"
    by (auto simp: orphan_def adopt_def)
  then show ?thesis using m(1,2)
    by (intro exI[of _ m']) (simp add: reparent_def modify_def orphan_def)
qed

lemma new_root_ok:
  assumes "hier_ok r ch" "hier r e = None" "alive r e"
  shows "hier_ok (r\<lparr>hier := (hier r)(e \<mapsto> Hierarchy None)\<rparr>) ch"
  using assms add_root[of "hier r" ch e] by (auto simp: hier_ok_def)

lemma no_component_no_parents: "m e = None \<Longrightarrow> forest_links m ch \<Longrightarrow> (p, e) \<notin> (parents m)\<^sup>+"
  using forest_linksD(4) parents_children tranclD2 by metis

lemma leave_none: "hier_ok r ch \<Longrightarrow> hier r e = None \<Longrightarrow> leave ch e = ch"
  using child_alive[of r ch e] by (auto simp: leave_def fun_eq_iff intro!: filter_notin)

lemma emplace_ok:
  assumes ok: "hier_ok r ch" and e: "hier r e = None" "alive r e" and p: "p \<noteq> e" "alive r p"
  shows "\<exists>m. emplace_hierarchy r e (Some p) = Some (Inr (r\<lparr>hier := m\<rparr>)) \<and>
    hier_ok (r\<lparr>hier := m\<rparr>) (adopt ch e p)"
proof -
  let ?r = "r\<lparr>hier := (hier r)(e \<mapsto> Hierarchy None)\<rparr>"
  have f: "forest_links (hier r) ch" using ok by (simp add: hier_ok_def)
  have "(p, e) \<notin> (parents (hier ?r))\<^sup>*"
    using p(1) no_component_no_parents[of "hier r" e ch p] e(1) f add_root(2)[OF f e(1)]
    by (simp add: rtrancl_eq_or_trancl)
  from attach_ok[OF new_root_ok[OF ok e], of e "Hierarchy None" p] this p
  show ?thesis
    by (simp add: emplace_hierarchy_def Hierarchy_def adopt_def leave_none[OF ok e(1)])
qed

section \<open>Properties\<close>

text \<open>
  C5: \<open>setParent\<close> always returns, without a bad access. It changes nothing when the new parent
  is the entity itself or one of its descendants; otherwise the entity leaves its old list
  of siblings and becomes the last child of the new parent, all other lists of children keep
  their order, and the hierarchy is again a well linked forest without cycles.
\<close>

theorem setParent_moves:
  assumes "hier_ok r ch" "alive r e" "alive r p"
  shows "\<exists>r'. setParent r e (Some p) = Some (Inr r') \<and>
    (if p = e \<or> (p, e) \<in> (parents (hier r))\<^sup>+ then r' = r
     else hier_ok r' (adopt ch e p) \<and> alive r' = alive r \<and> names r' = names r)"
proof (cases "hier r e")
  case None
  have "(p, e) \<notin> (parents (hier r))\<^sup>+"
    using no_component_no_parents[of "hier r" e ch] None assms(1) by (auto simp: hier_ok_def)
  then show ?thesis
    using emplace_ok[OF assms(1) None assms(2) _ assms(3)] None by (auto simp: setParent_def)
next
  case (Some h)
  have "h_parent h \<noteq> Some e"
    using assms(1) Some not_own_parent by (auto simp: hier_ok_def)
  then show ?thesis
    using reparent_ok[OF assms(1) Some _ assms(3)] isParent_forest[OF assms(1), of p e] Some
    by (auto simp: setParent_def)
qed

definition flat_registry :: registry where
  "flat_registry = \<lparr>alive = (\<lambda>e. e < 10), hier = Map.empty, names = Map.empty, actives = Map.empty\<rparr>"

lemma flat_registry_ok: "hier_ok flat_registry (\<lambda>_. [])"
  by (simp add: hier_ok_def flat_registry_def forest_links_def parents_def acyclic_def)

text \<open>Entity 1 with the children 2 and 4; entity 3 is a child of 2.\<close>

definition family :: registry where
  "family = \<lparr>alive = (\<lambda>e. e < 10),
     hier = [1 \<mapsto> \<lparr>h_parent = None, h_first = Some 2, h_next = None, h_prev = None\<rparr>,
             2 \<mapsto> \<lparr>h_parent = Some 1, h_first = Some 3, h_next = Some 4, h_prev = None\<rparr>,
             3 \<mapsto> \<lparr>h_parent = Some 2, h_first = None, h_next = None, h_prev = None\<rparr>,
             4 \<mapsto> \<lparr>h_parent = Some 1, h_first = None, h_next = None, h_prev = Some 2\<rparr>],
     names = Map.empty, actives = Map.empty\<rparr>"

lemma family_ok: "hier_ok family ((\<lambda>_. [])(1 := [2, 4], 2 := [3]))"
proof -
  have p: "parents (hier family) = {(2, 1), (3, 2), (4, 1)}"
    by (auto simp: parents_def family_def split: if_splits)
  have "wf ((parents (hier family))\<inverse>)" unfolding p by (rule wf_subset[OF wf_less_than]) auto
  then have "acyclic (parents (hier family))" using wf_acyclic acyclic_converse by blast
  then show ?thesis
    by (simp add: hier_ok_def forest_links_def p) (auto simp: family_def linked_def pred_of_def split: if_splits)
qed

theorem setParent_moves_witness:
  "\<exists>r'. setParent flat_registry 2 (Some 1) = Some (Inr r') \<and> hier_ok r' (adopt (\<lambda>_. []) 2 1)"
proof -
  have "(1, 2) \<notin> (parents (hier flat_registry))\<^sup>+" by (simp add: flat_registry_def parents_def)
  then show ?thesis using setParent_moves[OF flat_registry_ok, of 2 1] by (auto simp: flat_registry_def)
qed

text \<open>
  \<open>getChildren\<close> ends and lists the children in sibling order, and \<open>isParent\<close> ends and says
  exactly whether the second entity is an ancestor of the first.
\<close>

theorem entity_queries:
  assumes "hier_ok r ch"
  shows "getChildren r e = Some (ch e) \<and>
    isParent r (Some a) (Some b) = Some ((a, b) \<in> (parents (hier r))\<^sup>+) \<and>
    (getParent r e = Some p \<longleftrightarrow> e \<in> set (ch p))"
proof -
  have f: "forest_links (hier r) ch" using assms by (simp add: hier_ok_def)
  have "getParent r e = Some p \<longleftrightarrow> e \<in> set (ch p)"
    using forest_linksD(6)[OF f, of e] forest_linksD(3)[OF f, of e p]
    by (cases "hier r e") (auto simp: getParent_def)
  then show ?thesis using getChildren_forest[OF assms] isParent_forest[OF assms] by simp
qed

theorem entity_queries_witness:
  "\<exists>r'. setParent flat_registry 2 (Some 1) = Some (Inr r') \<and> getChildren r' 1 = Some [2]"
proof -
  obtain m where m: "emplace_hierarchy flat_registry 2 (Some 1) = Some (Inr (flat_registry\<lparr>hier := m\<rparr>))"
    "hier_ok (flat_registry\<lparr>hier := m\<rparr>) (adopt (\<lambda>_. []) 2 1)"
    using emplace_ok[OF flat_registry_ok, of 2 1] by (auto simp: flat_registry_def)
  have "setParent flat_registry 2 (Some 1) = emplace_hierarchy flat_registry 2 (Some 1)"
    by (simp add: setParent_def flat_registry_def)
  then show ?thesis using m entity_queries[OF m(2), of 1] by (auto simp: adopt_def leave_def)
qed

text \<open>
  Setting the parent an entity already has is not recognised (the test compares the old
  parent with the entity itself): the entity moves behind its siblings.
\<close>

theorem setParent_same_parent_reorders:
  assumes "hier_ok r ch" "e \<in> set (ch p)"
  shows "\<exists>r'. setParent r e (Some p) = Some (Inr r') \<and>
    getChildren r' p = Some (filter (\<lambda>x. x \<noteq> e) (ch p) @ [e])"
proof -
  have f: "forest_links (hier r) ch" and ac: "acyclic (parents (hier r))" using assms(1) by (auto simp: hier_ok_def)
  obtain h where h: "hier r e = Some h" "h_parent h = Some p" using forest_linksD(3)[OF f assms(2)] by blast
  have ep: "(e, p) \<in> parents (hier r)" using h by (simp add: parents_simp)
  then have "p \<noteq> e" "(p, e) \<notin> (parents (hier r))\<^sup>+"
    using ac by (auto simp: acyclic_def dest: trancl_into_trancl2)
  moreover have "alive r p" using forest_linksD(4)[OF f assms(2)] assms(1) by (auto simp: hier_ok_def)
  ultimately obtain m where m: "reparent r e (Some p) = Some (Inr (r\<lparr>hier := m\<rparr>))"
    "hier_ok (r\<lparr>hier := m\<rparr>) (adopt ch e p)" using reparent_ok[OF assms(1) h(1), of p] by blast
  moreover have "setParent r e (Some p) = reparent r e (Some p)"
    using isParent_forest[OF assms(1), of p e] h \<open>p \<noteq> e\<close> \<open>(p, e) \<notin> _\<close> by (simp add: setParent_def)
  ultimately show ?thesis using getChildren_forest[OF m(2), of p] by (auto simp: adopt_def leave_def)
qed

theorem setParent_same_parent_reorders_witness:
  "\<exists>r'. setParent family 2 (Some 1) = Some (Inr r') \<and> getChildren r' 1 = Some [4, 2]"
  using setParent_same_parent_reorders[OF family_ok, of 2 1] by simp

text \<open>
  On a forest \<open>compare\<close> recognises only the null entity, the parent and the previous
  sibling: its recursive call asks an ancestor about itself, so no further ancestor is ever
  found.
\<close>

theorem compare_sees_parent_only:
  assumes "hier_ok r ch" "hier r e = Some h" "hier r x \<noteq> None"
  shows "compare (hier r) h (Some x) = Some (Inr (Some x = h_parent h \<or> Some x = h_prev h))"
proof -
  have f: "forest_links (hier r) ch" and ac: "acyclic (parents (hier r))" using assms(1) by (auto simp: hier_ok_def)
  have self: "compare (hier r) g (Some p) = Some (Inr False)" if "hier r p = Some g" for p g
    using hier_wf(1)[OF assms(1)] that
  proof (induction p arbitrary: g rule: wf_induct_rule)
    case (less p)
    have "h_parent g \<noteq> Some p" using not_own_parent[OF ac less.prems] .
    moreover have "h_prev g \<noteq> Some p"
      using linked_sibling(2)[OF f less.prems] succ_of_neq[of "rev _"] forest_linksD(2)[OF f]
      by (metis distinct_rev pred_of_def)
    ultimately show ?case
    proof (cases "h_parent g")
      case (Some q)
      then have "p \<in> set (ch q)" using forest_linksD(6)[OF f less.prems] by simp
      then obtain k where "hier r q = Some k" using forest_linksD(4)[OF f] by blast
      moreover have "(q, p) \<in> (parents (hier r))\<inverse>" using Some less.prems by (simp add: parents_simp)
      ultimately show ?thesis
        using less.IH[of q k] Some less.prems \<open>h_parent g \<noteq> Some p\<close> \<open>h_prev g \<noteq> Some p\<close>
        by (subst compare.simps) auto
    qed (subst compare.simps; auto)
  qed
  show ?thesis
  proof (cases "h_parent h")
    case (Some p)
    then obtain k where "hier r p = Some k"
      using forest_linksD(6)[OF f assms(2)] forest_linksD(4)[OF f] by blast
    then show ?thesis using Some self[of p k] assms(3) by (subst compare.simps) auto
  qed (subst compare.simps; auto)
qed

theorem compare_sees_parent_only_witness:
  "compare (hier family) (the (hier family 3)) (Some 1) = Some (Inr False)"
  using compare_sees_parent_only[OF family_ok, of 3 _ 1] by (simp add: family_def)

text \<open>
  \<open>getChildren\<close> never returns when a valid sibling has lost its hierarchy component: the loop
  keeps the same child.
\<close>

theorem getChildren_stuck:
  assumes "hier r e = Some h" "h_first h = Some c" "alive r c" "hier r c = None"
  shows "getChildren r e = None"
proof -
  have "child \<noteq> Some c" if "children_loop r child acc = Some ys" for child acc ys
  proof -
    have "r = r \<longrightarrow> child \<noteq> Some c"
    proof (rule children_loop.raw_induct[OF _ that, where P = "\<lambda>s child _ _. s = r \<longrightarrow> child \<noteq> Some c"])
      fix f :: "'a registry_scheme \<Rightarrow> entity option \<Rightarrow> entity list \<Rightarrow> entity list option"
        and s :: "'a registry_scheme" and child children ys
      assume IH: "\<And>s child children ys. f s child children = Some ys \<Longrightarrow> s = r \<longrightarrow> child \<noteq> Some c"
        and step: "(case child of None \<Rightarrow> Some children
          | Some c \<Rightarrow> if alive s c
              then f s (case hier s c of None \<Rightarrow> Some c | Some h \<Rightarrow> h_next h) (children @ [c])
              else Some children) = Some ys"
      show "s = r \<longrightarrow> child \<noteq> Some c" using step IH[of r "Some c"] assms(3,4) by auto
    qed
    then show ?thesis by simp
  qed
  then show ?thesis using assms by (cases "children_loop r (Some c) []") (auto simp: getChildren_def)
qed

theorem getChildren_stuck_witness:
  "getChildren (family\<lparr>hier := (hier family)(2 := None)\<rparr>) 1 = None"
  using getChildren_stuck[of "family\<lparr>hier := (hier family)(2 := None)\<rparr>" 1 _ 2]
  by (simp add: family_def)

end
