(* ===== verification/Scene_Graph.thy ===== *)
theory Scene_Graph
  imports Hierarchy_Forest
begin

text \<open>
  Transforms and the scene graph: \<^verbatim>\<open>src/Code/Maple/src/Scene/Component/Transform.cpp\<close> and
  \<^verbatim>\<open>Scene/SceneGraph.cpp\<close>. Matrices and vectors are those of the glm library; the operations
  the code calls on them are the fields of \<open>glm\<close>. The traversal of the children has fuel:
  each nested call uses one unit.
\<close>

section \<open>Transforms\<close>

record ('m, 'v) glm =
  mat_one :: 'm
  mat_mul :: "'m \<Rightarrow> 'm \<Rightarrow> 'm"
  translate :: "'m \<Rightarrow> 'v \<Rightarrow> 'm"
  rotation :: "'v \<Rightarrow> 'm"
  scale_by :: "'m \<Rightarrow> 'v \<Rightarrow> 'm"
  decompose :: "'m \<Rightarrow> 'v \<times> 'v \<times> 'v"
  vec_zero :: 'v
  vec_one :: 'v

record ('m, 'v) transform =
  localMatrix :: 'm
  worldMatrix :: 'm
  offsetMatrix :: 'm
  localPosition :: 'v
  localScale :: 'v
  localOrientation :: 'v
  initLocalPosition :: 'v
  initLocalScale :: 'v
  initLocalOrientation :: 'v
  hasUpdate :: bool
  dirty :: bool

definition Transform :: "('m, 'v) glm \<Rightarrow> ('m, 'v) transform" where
  "Transform g =
     \<lparr>localMatrix = mat_one g, worldMatrix = mat_one g, offsetMatrix = mat_one g,
      localPosition = vec_zero g, localScale = vec_one g, localOrientation = vec_zero g,
      initLocalPosition = vec_zero g, initLocalScale = vec_one g,
      initLocalOrientation = vec_zero g, hasUpdate = False, dirty = False\<rparr>"

definition Transform_matrix :: "('m, 'v) glm \<Rightarrow> 'm \<Rightarrow> ('m, 'v) transform" where
  "Transform_matrix g matrix =
     (case decompose g matrix of (sc, rot, pos) \<Rightarrow>
        \<lparr>localMatrix = matrix, worldMatrix = matrix, offsetMatrix = mat_one g,
         localPosition = pos, localScale = sc, localOrientation = rot,
         initLocalPosition = pos, initLocalScale = sc, initLocalOrientation = rot,
         hasUpdate = False, dirty = False\<rparr>)"

definition setLocalPosition :: "'v \<Rightarrow> ('m, 'v) transform \<Rightarrow> ('m, 'v) transform" where
  "setLocalPosition v t = t\<lparr>dirty := True, localPosition := v\<rparr>"

definition setLocalScale :: "'v \<Rightarrow> ('m, 'v) transform \<Rightarrow> ('m, 'v) transform" where
  "setLocalScale v t = t\<lparr>dirty := True, localScale := v\<rparr>"

definition setLocalOrientation :: "'v \<Rightarrow> ('m, 'v) transform \<Rightarrow> ('m, 'v) transform" where
  "setLocalOrientation v t = t\<lparr>dirty := True, localOrientation := v\<rparr>"

definition Transform_position :: "('m, 'v) glm \<Rightarrow> 'v \<Rightarrow> ('m, 'v) transform" where
  "Transform_position g position =
     (let t = setLocalPosition position (Transform g)
      in t\<lparr>initLocalPosition := localPosition t, initLocalScale := localScale t,
           initLocalOrientation := localOrientation t\<rparr>)"

definition updateLocalMatrix :: "('m, 'v) glm \<Rightarrow> ('m, 'v) transform \<Rightarrow> ('m, 'v) transform" where
  "updateLocalMatrix g t =
     (let m1 = translate g (mat_one g) (localPosition t);
          m2 = mat_mul g m1 (rotation g (localOrientation t));
          m3 = scale_by g m2 (localScale t)
      in t\<lparr>localMatrix := m3, dirty := False, hasUpdate := True\<rparr>)"

definition setWorldMatrix :: "('m, 'v) glm \<Rightarrow> 'm \<Rightarrow> ('m, 'v) transform \<Rightarrow> ('m, 'v) transform" where
  "setWorldMatrix g mat t =
     (let t1 = (if dirty t then updateLocalMatrix g t else t)
      in t1\<lparr>worldMatrix := mat_mul g mat (localMatrix t1)\<rparr>)"

definition applyTransform :: "('m, 'v) glm \<Rightarrow> ('m, 'v) transform \<Rightarrow> ('m, 'v) transform" where
  "applyTransform g t =
     (case decompose g (localMatrix t) of (sc, rot, pos) \<Rightarrow>
        t\<lparr>localScale := sc, localPosition := pos, localOrientation := rot\<rparr>)"

definition setLocalTransform :: "('m, 'v) glm \<Rightarrow> 'm \<Rightarrow> ('m, 'v) transform \<Rightarrow> ('m, 'v) transform" where
  "setLocalTransform g m t = applyTransform g (t\<lparr>localMatrix := m, hasUpdate := True\<rparr>)"

definition setOffsetTransform :: "'m \<Rightarrow> ('m, 'v) transform \<Rightarrow> ('m, 'v) transform" where
  "setOffsetTransform m t = t\<lparr>offsetMatrix := m\<rparr>"

definition resetTransform :: "('m, 'v) transform \<Rightarrow> ('m, 'v) transform" where
  "resetTransform t =
     t\<lparr>dirty := True, localPosition := initLocalPosition t, localScale := initLocalScale t,
       localOrientation := initLocalOrientation t\<rparr>"

text \<open>The getters refresh the local matrix first; the result is the matrix and the new object.\<close>

definition refresh :: "('m, 'v) glm \<Rightarrow> ('m, 'v) transform \<Rightarrow> ('m, 'v) transform" where
  "refresh g t = (if dirty t then updateLocalMatrix g t else t)"

definition getWorldMatrix :: "('m, 'v) glm \<Rightarrow> ('m, 'v) transform \<Rightarrow> 'm \<times> ('m, 'v) transform" where
  "getWorldMatrix g t = (let t1 = refresh g t in (worldMatrix t1, t1))"

definition getLocalMatrix :: "('m, 'v) glm \<Rightarrow> ('m, 'v) transform \<Rightarrow> 'm \<times> ('m, 'v) transform" where
  "getLocalMatrix g t = (let t1 = refresh g t in (localMatrix t1, t1))"

section \<open>The scene graph\<close>

record ('m, 'v) scene_registry = registry +
  transforms :: "entity \<rightharpoonup> ('m, 'v) transform"

definition place_entity ::
  "('m, 'v) glm \<Rightarrow> ('m, 'v) scene_registry \<Rightarrow> entity \<Rightarrow> hierarchy \<Rightarrow> ('m, 'v) scene_registry" where
  "place_entity g r e h =
     (case transforms r e of
        None \<Rightarrow> r
      | Some t \<Rightarrow>
          (case h_parent h of
             None \<Rightarrow> r\<lparr>transforms := (transforms r)(e \<mapsto> setWorldMatrix g (mat_one g) t)\<rparr>
           | Some p \<Rightarrow>
               (case transforms r p of
                  None \<Rightarrow> r
                | Some pt \<Rightarrow>
                    let ts = (transforms r)(p \<mapsto> snd (getWorldMatrix g pt))
                    in r\<lparr>transforms :=
                         ts(e \<mapsto> setWorldMatrix g (fst (getWorldMatrix g pt)) (the (ts e)))\<rparr>)))"

fun updateTransform ::
  "('m, 'v) glm \<Rightarrow> nat \<Rightarrow> ('m, 'v) scene_registry \<Rightarrow> entity \<Rightarrow> ('m, 'v) scene_registry option"
and update_siblings ::
  "('m, 'v) glm \<Rightarrow> nat \<Rightarrow> ('m, 'v) scene_registry \<Rightarrow> entity option \<Rightarrow> ('m, 'v) scene_registry option"
where
  "updateTransform g 0 r e = None"
| "updateTransform g (Suc n) r e =
     (case hier r e of
        None \<Rightarrow> Some r
      | Some h \<Rightarrow> update_siblings g n (place_entity g r e h) (h_first h))"
| "update_siblings g n r None = Some r"
| "update_siblings g 0 r (Some c) = None"
| "update_siblings g (Suc n) r (Some c) =
     (let nxt = (case hier r c of None \<Rightarrow> None | Some h \<Rightarrow> h_next h)
      in do { r1 \<leftarrow> updateTransform g n r c; update_siblings g n r1 nxt })"

text \<open>\<open>es\<close> is the order in which the registry's view lists the entities that have a transform.\<close>

definition update_lone :: "('m, 'v) glm \<Rightarrow> entity list \<Rightarrow> ('m, 'v) scene_registry \<Rightarrow> ('m, 'v) scene_registry" where
  "update_lone g es r =
     fold (\<lambda>e r. if hier r e = None
                 then r\<lparr>transforms := (transforms r)(e := map_option (setWorldMatrix g (mat_one g)) (transforms r e))\<rparr>
                 else r) es r"

definition update_graph ::
  "('m, 'v) glm \<Rightarrow> nat \<Rightarrow> entity list \<Rightarrow> ('m, 'v) scene_registry \<Rightarrow> ('m, 'v) scene_registry option" where
  "update_graph g n es r =
     ofold (\<lambda>e r. case hier r e of
                    Some h \<Rightarrow> if h_parent h = None then updateTransform g n r e else Some r
                  | None \<Rightarrow> Some r) es (update_lone g es r)"

section \<open>Subtrees\<close>

definition subtree :: "(entity \<rightharpoonup> hierarchy) \<Rightarrow> entity \<Rightarrow> entity set" where
  "subtree m e = {x. (x, e) \<in> (parents m)\<^sup>*}"

lemma subtree_self [simp]: "e \<in> subtree m e"
  by (simp add: subtree_def)

lemma subtree_children:
  assumes "forest_links m ch"
  shows "subtree m e = insert e (\<Union>c \<in> set (ch e). subtree m c)"
proof -
  have "(x, e) \<in> (parents m)\<^sup>* \<longleftrightarrow> x = e \<or> (\<exists>c \<in> set (ch e). (x, c) \<in> (parents m)\<^sup>*)" for x
    using parents_children[OF assms] by (metis rtrancl.simps)
  then show ?thesis by (auto simp: subtree_def)
qed

lemma parents_unique: "(x, p) \<in> parents m \<Longrightarrow> (x, q) \<in> parents m \<Longrightarrow> p = q"
  by (auto simp: parents_simp)

lemma ancestors_linear:
  "(x, a) \<in> (parents m)\<^sup>* \<Longrightarrow> (x, b) \<in> (parents m)\<^sup>* \<Longrightarrow>
   (a, b) \<in> (parents m)\<^sup>* \<or> (b, a) \<in> (parents m)\<^sup>*"
proof (induction rule: converse_rtrancl_induct)
  case (step x y)
  then show ?case by (metis converse_rtranclE parents_unique r_into_rtrancl rtrancl_trans)
qed blast

lemma unrelated_disjoint:
  assumes "(a, b) \<notin> (parents m)\<^sup>*" "(b, a) \<notin> (parents m)\<^sup>*"
  shows "subtree m a \<inter> subtree m b = {}"
proof -
  have "False" if "(x, a) \<in> (parents m)\<^sup>*" "(x, b) \<in> (parents m)\<^sup>*" for x
    using ancestors_linear[OF that] assms by simp
  then show ?thesis by (auto simp: subtree_def)
qed

lemma subtree_stored: "x \<in> subtree m e \<Longrightarrow> m e \<noteq> None \<Longrightarrow> m x \<noteq> None"
  unfolding subtree_def by (metis converse_rtranclE mem_Collect_eq option.distinct(1) parents_simp)

lemma parent_outside:
  assumes "acyclic (parents m)" "(c, e) \<in> parents m"
  shows "e \<notin> subtree m c"
  using assms by (auto simp: subtree_def acyclic_def dest: rtrancl_into_trancl1)

lemma siblings_disjoint:
  assumes f: "forest_links m ch" and ac: "acyclic (parents m)"
    and c: "c \<in> set (ch e)" "d \<in> set (ch e)" "c \<noteq> d"
  shows "subtree m c \<inter> subtree m d = {}"
proof -
  have up: "(c', d') \<notin> (parents m)\<^sup>*" if "c' \<in> set (ch e)" "d' \<in> set (ch e)" "c' \<noteq> d'" for c' d'
  proof
    assume "(c', d') \<in> (parents m)\<^sup>*"
    with that(3) obtain q where "(c', q) \<in> parents m" "(q, d') \<in> (parents m)\<^sup>*"
      by (metis converse_rtranclE)
    moreover have "(c', e) \<in> parents m" "(d', e) \<in> parents m"
      using parents_children[OF f] that by auto
    ultimately have "(e, d') \<in> (parents m)\<^sup>*" using parents_unique by metis
    then have "e \<in> subtree m d'" by (simp add: subtree_def)
    then show False using parent_outside[OF ac \<open>(d', e) \<in> parents m\<close>] by simp
  qed
  show ?thesis using unrelated_disjoint[OF up[OF c] up[OF c(2,1)]] c(3) by simp
qed

lemma subtree_closed: "x \<in> subtree m c \<Longrightarrow> x \<noteq> c \<Longrightarrow> (x, p) \<in> parents m \<Longrightarrow> p \<in> subtree m c"
  unfolding subtree_def by (metis converse_rtranclE mem_Collect_eq parents_unique)

section \<open>What an update settles\<close>

definition base_matrix :: "('m, 'v) glm \<Rightarrow> ('m, 'v) scene_registry \<Rightarrow> entity \<Rightarrow> 'm" where
  "base_matrix g r x =
     (case Option.bind (hier r x) h_parent of
        None \<Rightarrow> mat_one g
      | Some p \<Rightarrow> worldMatrix (the (transforms r p)))"

definition settles ::
  "('m, 'v) glm \<Rightarrow> entity set \<Rightarrow> ('m, 'v) scene_registry \<Rightarrow> ('m, 'v) scene_registry \<Rightarrow> bool" where
  "settles g A r r' \<longleftrightarrow>
     hier r' = hier r \<and> (\<forall>x. x \<notin> A \<longrightarrow> transforms r' x = transforms r x) \<and>
     (\<forall>x \<in> A. transforms r' x = map_option (setWorldMatrix g (base_matrix g r' x)) (transforms r x))"

lemma settles_refl: "settles g {} r r"
  by (simp add: settles_def)

lemma settles_cong: "settles g A r r' \<Longrightarrow> A = B \<Longrightarrow> settles g B r r'"
  by simp

lemma settles_trans:
  assumes 1: "settles g A r r1" and 2: "settles g B r1 r2" and d: "A \<inter> B = {}"
    and p: "\<And>x p. x \<in> A \<Longrightarrow> (x, p) \<in> parents (hier r) \<Longrightarrow> p \<notin> B"
  shows "settles g (A \<union> B) r r2"
proof -
  have h: "hier r1 = hier r" "hier r2 = hier r" using 1 2 by (auto simp: settles_def)
  have u: "x \<notin> B \<Longrightarrow> transforms r2 x = transforms r1 x" for x using 2 by (simp add: settles_def)
  have "base_matrix g r2 x = base_matrix g r1 x" if "x \<in> A" for x
    using p[OF that] u h
    by (auto simp: base_matrix_def parents_simp split: option.split Option.bind_split)
  then show ?thesis using 1 2 d h u by (auto simp: settles_def disjoint_iff)
qed

lemma world_clean [simp]: "\<not> dirty (setWorldMatrix g mat t)"
  by (simp add: setWorldMatrix_def updateLocalMatrix_def Let_def)

definition clean :: "('m, 'v) scene_registry \<Rightarrow> entity \<Rightarrow> bool" where
  "clean r e \<longleftrightarrow> (\<forall>t. transforms r e = Some t \<longrightarrow> \<not> dirty t)"

lemma settles_clean: "settles g A r r' \<Longrightarrow> x \<in> A \<Longrightarrow> clean r' x"
  by (auto simp: settles_def clean_def)

lemma settles_keeps: "settles g A r r' \<Longrightarrow> (transforms r' x = None) = (transforms r x = None)"
  by (cases "x \<in> A") (auto simp: settles_def)

lemma place_settles:
  assumes "hier r e = Some h" "h_parent h \<noteq> Some e"
    and "\<And>p. h_parent h = Some p \<Longrightarrow> clean r p \<and> transforms r p \<noteq> None"
  shows "settles g {e} r (place_entity g r e h)"
proof (cases "h_parent h")
  case None
  then show ?thesis using assms(1)
    by (auto simp: settles_def place_entity_def base_matrix_def split: option.split)
next
  case (Some p)
  with assms(3) obtain pt where pt: "transforms r p = Some pt" "\<not> dirty pt" by (auto simp: clean_def)
  have "(transforms r)(p \<mapsto> pt) = transforms r" using pt by auto
  then show ?thesis using assms(1,2) Some pt
    by (auto simp: settles_def place_entity_def base_matrix_def getWorldMatrix_def refresh_def Let_def
        split: option.split)
qed

section \<open>The traversal\<close>

definition traversable :: "('m, 'v) scene_registry \<Rightarrow> (entity \<rightharpoonup> hierarchy) \<Rightarrow> bool" where
  "traversable r m \<longleftrightarrow> hier r = m \<and> (\<forall>x. m x \<noteq> None \<longrightarrow> transforms r x \<noteq> None)"

lemma settles_traversable: "traversable r m \<Longrightarrow> settles g A r r' \<Longrightarrow> traversable r' m"
  using settles_keeps[of g A r r'] by (auto simp: traversable_def settles_def)

lemma siblings_settle:
  assumes f: "forest_links m ch" and ac: "acyclic (parents m)"
    and IH: "\<And>c r. c \<in> set (ch e) \<Longrightarrow> traversable r m \<Longrightarrow> clean r e \<Longrightarrow>
      \<exists>N r'. (\<forall>n \<ge> N. updateTransform g n r c = Some r') \<and> settles g (subtree m c) r r'"
    and "ch e = xs @ ys" "traversable r m" "clean r e"
  shows "\<exists>N r'. (\<forall>n \<ge> N. update_siblings g n r (head ys) = Some r') \<and>
    settles g (\<Union>c \<in> set ys. subtree m c) r r'"
  using assms(4-6)
proof (induction ys arbitrary: xs r)
  case Nil
  then show ?case by (intro exI[of _ 0] exI[of _ r]) (simp add: settles_refl)
next
  case (Cons c ys)
  have c: "c \<in> set (ch e)" using Cons.prems by simp
  then have out: "e \<notin> subtree m c" using parent_outside[OF ac] parents_children[OF f] by simp
  from IH[OF c Cons.prems(2,3)] obtain N1 r1 where
    r1: "\<forall>n \<ge> N1. updateTransform g n r c = Some r1" "settles g (subtree m c) r r1" by blast
  have "clean r1 e" using r1(2) out Cons.prems(3) by (simp add: settles_def clean_def)
  with Cons.IH[of "xs @ [c]" r1] settles_traversable[OF Cons.prems(2) r1(2)] Cons.prems(1)
  obtain N2 r2 where r2: "\<forall>n \<ge> N2. update_siblings g n r1 (head ys) = Some r2"
    "settles g (\<Union>c \<in> set ys. subtree m c) r1 r2" by auto
  obtain h where h: "m c = Some h" using forest_linksD(3)[OF f c] by blast
  have "succ_of c (ch e) = head ys"
    using forest_linksD(2)[OF f, of e] Cons.prems(1) by (auto intro!: succ_of_mid)
  then have hn: "h_next h = head ys" using linked_child(2)[OF f h c] by simp
  have "update_siblings g n r (head (c # ys)) = Some r2" if "n \<ge> Suc (max N1 N2)" for n
    using that r1(1) r2(1) h hn Cons.prems(2) by (cases n) (auto simp: traversable_def)
  moreover have "settles g (subtree m c \<union> (\<Union>c \<in> set ys. subtree m c)) r r2"
  proof (rule settles_trans[OF r1(2) r2(2)])
    have "distinct (c # ys)" "set (c # ys) \<subseteq> set (ch e)"
      using forest_linksD(2)[OF f, of e] Cons.prems(1) by auto
    then have sib: "d \<in> set ys \<Longrightarrow> d \<in> set (ch e) \<and> c \<noteq> d" for d by auto
    then have dis: "d \<in> set ys \<Longrightarrow> subtree m c \<inter> subtree m d = {}" for d
      using siblings_disjoint[OF f ac c] by blast
    then show "subtree m c \<inter> (\<Union>c \<in> set ys. subtree m c) = {}" by blast
    fix x p assume x: "x \<in> subtree m c" "(x, p) \<in> parents (hier r)"
    then have xp: "(x, p) \<in> parents m" using Cons.prems(2) by (simp add: traversable_def)
    have "p = e" if "x = c" using that xp parents_children[OF f] c parents_unique by metis
    then have "p = e \<or> p \<in> subtree m c" using subtree_closed[OF x(1) _ xp] by blast
    then show "p \<notin> (\<Union>c \<in> set ys. subtree m c)"
      using dis sib parent_outside[OF ac] parents_children[OF f] by blast
  qed
  ultimately show ?case by (intro exI[of _ "Suc (max N1 N2)"] exI[of _ r2]) simp
qed

lemma updateTransform_settles:
  assumes f: "forest_links m ch" and ac: "acyclic (parents m)" and w: "wf (parents m)"
    and "traversable r m" "\<And>p. (e, p) \<in> parents m \<Longrightarrow> clean r p"
    and "m e \<noteq> None"
  shows "\<exists>N r'. (\<forall>n \<ge> N. updateTransform g n r e = Some r') \<and> settles g (subtree m e) r r'"
  using w assms(4-6)
proof (induction e arbitrary: r rule: wf_induct_rule)
  case (less e)
  from less.prems(3) obtain h where h: "m e = Some h" by blast
  have hr: "hier r = m" using less.prems(1) by (simp add: traversable_def)
  have p: "clean r q \<and> transforms r q \<noteq> None" if "h_parent h = Some q" for q
  proof -
    have eq: "(e, q) \<in> parents m" using that h by (simp add: parents_simp)
    then have "e \<in> set (ch q)" using parents_children[OF f] by simp
    then have "m q \<noteq> None" using forest_linksD(4)[OF f] by blast
    then show ?thesis using less.prems eq by (auto simp: traversable_def)
  qed
  let ?r = "place_entity g r e h"
  have pl: "settles g {e} r ?r"
    using place_settles[of r e h g] hr h not_own_parent[OF ac h] p by simp
  have tr: "traversable ?r m" by (rule settles_traversable[OF less.prems(1) pl])
  have IH: "\<exists>N r'. (\<forall>n \<ge> N. updateTransform g n s c = Some r') \<and> settles g (subtree m c) s r'"
    if c: "c \<in> set (ch e)" "traversable s m" "clean s e" for c s
  proof (rule less.IH)
    show "(c, e) \<in> parents m" using parents_children[OF f] c(1) by simp
    then show "\<And>p. (c, p) \<in> parents m \<Longrightarrow> clean s p" using c(3) parents_unique by metis
    show "m c \<noteq> None" using forest_linksD(3)[OF f c(1)] by auto
  qed (rule c(2))
  from siblings_settle[where e = e and xs = "[]" and ys = "ch e" and r = ?r, OF f ac IH] tr
    settles_clean[OF pl]
  obtain N r' where r': "\<forall>n \<ge> N. update_siblings g n ?r (head (ch e)) = Some r'"
    "settles g (\<Union>c \<in> set (ch e). subtree m c) ?r r'" by auto
  have "h_first h = head (ch e)" using forest_linksD(1)[OF f h] by (simp add: linked_def)
  then have "updateTransform g n r e = Some r'" if "n \<ge> Suc N" for n
    using that r'(1) h hr by (cases n) auto
  moreover have "settles g ({e} \<union> (\<Union>c \<in> set (ch e). subtree m c)) r r'"
  proof (rule settles_trans[OF pl r'(2)])
    show "{e} \<inter> (\<Union>c \<in> set (ch e). subtree m c) = {}"
      using parent_outside[OF ac] parents_children[OF f] by blast
    fix x q assume "x \<in> {e}" "(x, q) \<in> parents (hier r)"
    then have "(e, q) \<in> parents m" using hr by simp
    then have "q \<notin> subtree m e" by (rule parent_outside[OF ac])
    then show "q \<notin> (\<Union>c \<in> set (ch e). subtree m c)" using subtree_children[OF f, of e] by blast
  qed
  ultimately show ?case using subtree_children[OF f, of e]
    by (intro exI[of _ "Suc N"] exI[of _ r']) auto
qed

section \<open>One frame\<close>

lemma update_lone_settles:
  assumes "distinct es" "\<forall>x. hier r x = None \<longrightarrow> transforms r x \<noteq> None \<longrightarrow> x \<in> set es"
  shows "settles g {x \<in> set es. hier r x = None} r (update_lone g es r)"
  using assms(1) unfolding update_lone_def
proof (induction es rule: rev_induct)
  case Nil
  then show ?case by (simp add: settles_def)
next
  case (snoc e es)
  then show ?case by (auto simp: settles_def base_matrix_def)
qed

lemma roots_settle:
  assumes f: "forest_links m ch" and ac: "acyclic (parents m)" and w: "wf (parents m)"
    and "distinct es" "traversable r m"
  shows "\<exists>N r'. (\<forall>n \<ge> N. ofold (\<lambda>e r. case hier r e of
        Some h \<Rightarrow> if h_parent h = None then updateTransform g n r e else Some r
      | None \<Rightarrow> Some r) es r = Some r') \<and>
    settles g (\<Union>e \<in> {e \<in> set es. \<exists>h. m e = Some h \<and> h_parent h = None}. subtree m e) r r'"
  using assms(4,5)
proof (induction es arbitrary: r)
  case Nil
  then show ?case by (intro exI[of _ 0] exI[of _ r]) (simp add: settles_refl)
next
  case (Cons e es)
  let ?root = "\<lambda>e. \<exists>h. m e = Some h \<and> h_parent h = None"
  have hr: "hier r = m" using Cons.prems(2) by (simp add: traversable_def)
  show ?case
  proof (cases "?root e")
    case False
    then have "{x \<in> set (e # es). ?root x} = {x \<in> set es. ?root x}" by auto
    moreover have "(case m e of None \<Rightarrow> Some r
        | Some h \<Rightarrow> if h_parent h = None then updateTransform g n r e else Some r) = Some r" for n
      using False by (auto split: option.split)
    ultimately show ?thesis using Cons.IH[of r] Cons.prems hr by simp
  next
    case True
    have no: "(e, p) \<notin> parents m" for p using True by (auto simp: parents_simp)
    obtain N1 r1 where r1: "\<forall>n \<ge> N1. updateTransform g n r e = Some r1" "settles g (subtree m e) r r1"
      using updateTransform_settles[OF f ac w Cons.prems(2), of e g] no True by blast
    from Cons.IH[of r1] settles_traversable[OF Cons.prems(2) r1(2)] Cons.prems(1)
    obtain N2 r2 where r2: "\<forall>n \<ge> N2. ofold (\<lambda>e r. case hier r e of
        Some h \<Rightarrow> if h_parent h = None then updateTransform g n r e else Some r
      | None \<Rightarrow> Some r) es r1 = Some r2"
      "settles g (\<Union>e \<in> {e \<in> set es. ?root e}. subtree m e) r1 r2" by auto
    have dis: "subtree m e \<inter> subtree m d = {}" if "d \<in> set es" "?root d" for d
    proof -
      have "(d, p) \<notin> parents m" for p using that by (auto simp: parents_simp)
      moreover have "e \<noteq> d" using that Cons.prems(1) by auto
      ultimately have "(e, d) \<notin> (parents m)\<^sup>*" "(d, e) \<notin> (parents m)\<^sup>*"
        using no by (metis converse_rtranclE)+
      then show ?thesis by (rule unrelated_disjoint)
    qed
    have "settles g (subtree m e \<union> (\<Union>e \<in> {e \<in> set es. ?root e}. subtree m e)) r r2"
    proof (rule settles_trans[OF r1(2) r2(2)])
      show "subtree m e \<inter> (\<Union>e \<in> {e \<in> set es. ?root e}. subtree m e) = {}" using dis by blast
      fix x p assume x: "x \<in> subtree m e" "(x, p) \<in> parents (hier r)"
      then have "p \<in> subtree m e" using subtree_closed[OF x(1)] no hr by metis
      then show "p \<notin> (\<Union>e \<in> {e \<in> set es. ?root e}. subtree m e)" using dis by blast
    qed
    moreover have "subtree m e \<union> (\<Union>e \<in> {e \<in> set es. ?root e}. subtree m e) =
        (\<Union>x \<in> {x \<in> set (e # es). ?root x}. subtree m x)" using True by auto
    ultimately show ?thesis using r1(1) r2(1) True hr
      by (intro exI[of _ "max N1 N2"] exI[of _ r2]) auto
  qed
qed

lemma reaches_root:
  assumes f: "forest_links m ch" and w: "wf ((parents m)\<inverse>)" and "m x \<noteq> None"
  shows "\<exists>e h. m e = Some h \<and> h_parent h = None \<and> x \<in> subtree m e"
  using w assms(3)
proof (induction x rule: wf_induct_rule)
  case (less x)
  then obtain h where h: "m x = Some h" by blast
  show ?case
  proof (cases "h_parent h")
    case (Some p)
    then have xp: "(x, p) \<in> parents m" using h by (simp add: parents_simp)
    then have "m p \<noteq> None" using forest_linksD(4)[OF f] parents_children[OF f] by blast
    with less.IH[of p] xp obtain e k where "m e = Some k" "h_parent k = None" "p \<in> subtree m e" by blast
    then show ?thesis using xp by (auto simp: subtree_def intro: converse_rtrancl_into_rtrancl)
  qed (use h in \<open>auto simp: subtree_def\<close>)
qed

lemma setWorldMatrix_fields:
  "localMatrix (setWorldMatrix g m t) = (if dirty t
     then scale_by g (mat_mul g (translate g (mat_one g) (localPosition t)) (rotation g (localOrientation t))) (localScale t)
     else localMatrix t)"
  "worldMatrix (setWorldMatrix g m t) = mat_mul g m (localMatrix (setWorldMatrix g m t))"
  "localPosition (setWorldMatrix g m t) = localPosition t" "localOrientation (setWorldMatrix g m t) = localOrientation t"
  "localScale (setWorldMatrix g m t) = localScale t"
  by (simp_all add: setWorldMatrix_def updateLocalMatrix_def Let_def)

lemma update_graph_settles:
  assumes ok: "hier_ok r ch" and es: "distinct es" "set es = {x. transforms r x \<noteq> None}"
    and all: "\<forall>x. hier r x \<noteq> None \<longrightarrow> transforms r x \<noteq> None"
  shows "\<exists>N r'. (\<forall>n \<ge> N. update_graph g n es r = Some r') \<and> hier r' = hier r \<and>
    (\<forall>x. transforms r' x = map_option (setWorldMatrix g (base_matrix g r' x)) (transforms r x))"
proof -
  let ?m = "hier r" and ?r = "update_lone g es r"
  have f: "forest_links ?m ch" and ac: "acyclic (parents ?m)" using ok by (auto simp: hier_ok_def)
  note w' = hier_wf(1)[OF ok] and w = hier_wf(2)[OF ok]
  have lone: "settles g {x \<in> set es. hier r x = None} r ?r"
    using update_lone_settles[OF es(1)] es(2) by blast
  have "traversable r ?m" using all by (simp add: traversable_def)
  from roots_settle[OF f ac w es(1) settles_traversable[OF this lone]]
  obtain N r' where r': "\<forall>n \<ge> N. update_graph g n es r = Some r'"
    "settles g (\<Union>e \<in> {e \<in> set es. \<exists>h. ?m e = Some h \<and> h_parent h = None}. subtree ?m e) ?r r'"
    unfolding update_graph_def by blast
  let ?A = "{x \<in> set es. hier r x = None}"
    and ?B = "\<Union>e \<in> {e \<in> set es. \<exists>h. ?m e = Some h \<and> h_parent h = None}. subtree ?m e"
  have in_tree: "?m x \<noteq> None" if "x \<in> ?B" for x
  proof -
    from that obtain e h where "?m e = Some h" "x \<in> subtree ?m e" by blast
    then show ?thesis using subtree_stored[of x ?m e] by simp
  qed
  have S: "settles g (?A \<union> ?B) r r'"
  proof (rule settles_trans[OF lone r'(2)])
    show "?A \<inter> ?B = {}" using in_tree by blast
  qed (auto simp: parents_simp)
  have cover: "x \<in> ?A \<union> ?B" if "transforms r x \<noteq> None" for x
  proof (cases "?m x = None")
    case False
    from reaches_root[OF f w' this] obtain e h where
      e: "?m e = Some h" "h_parent h = None" "x \<in> subtree ?m e" by blast
    then have "e \<in> set es" using all es(2) by simp
    then show ?thesis using e by blast
  qed (use that es(2) in auto)
  have "transforms r' x = map_option (setWorldMatrix g (base_matrix g r' x)) (transforms r x)" for x
  proof (cases "transforms r x = None")
    case True
    then show ?thesis using settles_keeps[OF S, of x] by simp
  next
    case False
    from S have "\<forall>x \<in> ?A \<union> ?B. transforms r' x =
        map_option (setWorldMatrix g (base_matrix g r' x)) (transforms r x)" unfolding settles_def by blast
    then show ?thesis using cover[OF False] by blast
  qed
  moreover have "hier r' = hier r" using S by (simp add: settles_def)
  ultimately show ?thesis using r'(1) by blast
qed

text \<open>
  C6: One frame of the scene graph over a well linked hierarchy in which every entity with a hierarchy component also has a transform. With enough fuel the
  traversal ends. Afterwards no transform is dirty; the local matrix of every entity is translation times rotation times scale of its position, orientation and
  scale where these had changed, and otherwise what it was; and its world matrix is the product of its parent's new world matrix with its own local
  matrix, in this order, or its local matrix after the identity for an entity without a parent or without a hierarchy component.
\<close>

theorem update_graph_world:
  assumes "hier_ok r ch" "distinct es" "set es = {x. transforms r x \<noteq> None}"
    and "\<forall>x. hier r x \<noteq> None \<longrightarrow> transforms r x \<noteq> None"
  shows "\<exists>N r'. (\<forall>n \<ge> N. update_graph g n es r = Some r') \<and> hier r' = hier r \<and>
    (\<forall>x. transforms r x = None \<longrightarrow> transforms r' x = None) \<and>
    (\<forall>x t. transforms r x = Some t \<longrightarrow> (\<exists>t'. transforms r' x = Some t' \<and> \<not> dirty t' \<and>
       localPosition t' = localPosition t \<and> localOrientation t' = localOrientation t \<and> localScale t' = localScale t \<and>
       localMatrix t' = (if dirty t
         then scale_by g (mat_mul g (translate g (mat_one g) (localPosition t)) (rotation g (localOrientation t))) (localScale t)
         else localMatrix t) \<and>
       worldMatrix t' = mat_mul g (case hier r x of
           None \<Rightarrow> mat_one g
         | Some h \<Rightarrow> (case h_parent h of None \<Rightarrow> mat_one g | Some p \<Rightarrow> worldMatrix (the (transforms r' p)))) (localMatrix t')))"
proof -
  obtain N r' where r': "\<forall>n \<ge> N. update_graph g n es r = Some r'" "hier r' = hier r"
    "\<forall>x. transforms r' x = map_option (setWorldMatrix g (base_matrix g r' x)) (transforms r x)"
    using update_graph_settles[OF assms] by blast
  have base: "base_matrix g r' x = (case hier r x of None \<Rightarrow> mat_one g
      | Some h \<Rightarrow> (case h_parent h of None \<Rightarrow> mat_one g | Some p \<Rightarrow> worldMatrix (the (transforms r' p))))" for x
    using r'(2) by (simp add: base_matrix_def split: option.split)
  show ?thesis
  proof (intro exI conjI allI impI)
    fix x t assume t: "transforms r x = Some t"
    show "transforms r' x = Some (setWorldMatrix g (base_matrix g r' x) t)" using r'(3) t by simp
    show "worldMatrix (setWorldMatrix g (base_matrix g r' x) t) = mat_mul g (case hier r x of
         None \<Rightarrow> mat_one g
       | Some h \<Rightarrow> (case h_parent h of None \<Rightarrow> mat_one g | Some p \<Rightarrow> worldMatrix (the (transforms r' p))))
         (localMatrix (setWorldMatrix g (base_matrix g r' x) t))"
      unfolding base[symmetric] by (rule setWorldMatrix_fields(2))
  qed (use r' in \<open>auto simp: setWorldMatrix_fields\<close>)
qed

text \<open>Matrices are words of their factors here, so that the order of a product can be seen.\<close>

definition list_glm :: "(int list, int) glm" where
  "list_glm = \<lparr>mat_one = [], mat_mul = (@), translate = (\<lambda>m v. m @ [v]), rotation = (\<lambda>v. [v]),
     scale_by = (\<lambda>m v. m @ [v]), decompose = (\<lambda>m. (1, 0, 0)), vec_zero = 0, vec_one = 1\<rparr>"

definition family_scene :: "(int list, int) scene_registry" where
  "family_scene = registry.extend family
     (scene_registry.fields (\<lambda>e. if 1 \<le> e \<and> e \<le> 4 then Some (setLocalPosition (10 * int e) (Transform list_glm)) else None))"

theorem update_graph_world_witness:
  "\<exists>N r' t. (\<forall>n \<ge> N. update_graph list_glm n [1, 2, 3, 4] family_scene = Some r') \<and>
     transforms r' 3 = Some t \<and> worldMatrix t = [10, 0, 1, 20, 0, 1, 30, 0, 1]"
proof -
  let ?ts = "\<lambda>e. if 1 \<le> e \<and> e \<le> 4 then Some (setLocalPosition (10 * int e) (Transform list_glm)) else None"
  have h: "hier family_scene = hier family" "alive family_scene = alive family" "transforms family_scene = ?ts"
    by (simp_all add: family_scene_def registry.defs scene_registry.defs family_def)
  have 1: "hier_ok family_scene ((\<lambda>_. [])(1 := [2, 4], 2 := [3]))"
    using family_ok by (simp add: hier_ok_def h)
  have 2: "set [1, 2, 3, 4] = {x. transforms family_scene x \<noteq> None}" by (auto simp: h)
  have 3: "\<forall>x. hier family_scene x \<noteq> None \<longrightarrow> transforms family_scene x \<noteq> None"
    unfolding h by (auto simp: family_def split: if_splits)
  have 4: "distinct [1, 2, 3, 4 :: entity]" by simp
  obtain N r' where r': "\<forall>n \<ge> N. update_graph list_glm n [1, 2, 3, 4] family_scene = Some r'"
    and w: "\<And>x t. transforms family_scene x = Some t \<Longrightarrow> \<exists>t'. transforms r' x = Some t' \<and>
       localMatrix t' = (if dirty t then scale_by list_glm (mat_mul list_glm (translate list_glm (mat_one list_glm) (localPosition t))
         (rotation list_glm (localOrientation t))) (localScale t) else localMatrix t) \<and>
       worldMatrix t' = mat_mul list_glm (case hier family_scene x of None \<Rightarrow> mat_one list_glm
         | Some h \<Rightarrow> (case h_parent h of None \<Rightarrow> mat_one list_glm | Some p \<Rightarrow> worldMatrix (the (transforms r' p)))) (localMatrix t')"
    using update_graph_world[OF 1 4 2 3, of list_glm] by blast
  note e = h list_glm_def Transform_def setLocalPosition_def family_def
  obtain t1 where "transforms r' 1 = Some t1" "worldMatrix t1 = [10, 0, 1]"
    using w[of 1 "setLocalPosition 10 (Transform list_glm)"] by (auto simp: e)
  moreover from this obtain t2 where "transforms r' 2 = Some t2" "worldMatrix t2 = [10, 0, 1, 20, 0, 1]"
    using w[of 2 "setLocalPosition 20 (Transform list_glm)"] by (auto simp: e)
  moreover from this obtain t3 where "transforms r' 3 = Some t3" "worldMatrix t3 = [10, 0, 1, 20, 0, 1, 30, 0, 1]"
    using w[of 3 "setLocalPosition 30 (Transform list_glm)"] by (auto simp: e)
  ultimately show ?thesis using r' by blast
qed

text \<open>
  A change of position, orientation or scale is not visible in the world matrix until
  the next frame: \<open>getWorldMatrix\<close> rebuilds the local matrix and clears the dirty flag, but
  returns the world matrix computed before the change.
\<close>

theorem getWorldMatrix_stale:
  "fst (getWorldMatrix g (setLocalPosition v t)) = worldMatrix t \<and>
   \<not> dirty (snd (getWorldMatrix g (setLocalPosition v t)))"
  by (simp add: getWorldMatrix_def refresh_def setLocalPosition_def updateLocalMatrix_def Let_def)

end
