(* ===== verification/Scene_Manager.thy ===== *)
theory Scene_Manager
  imports Maple_Prelude "HOL-Library.AList"
begin

text \<open>
  Scenes and their manager: \<^verbatim>\<open>src/Code/Maple/src/Scene/Scene.cpp\<close>,
  \<^verbatim>\<open>Scene/Entity/EntityManager.cpp\<close> (creation and lookup by name), \<^verbatim>\<open>Scene/SceneManager.cpp\<close> and
  \<^verbatim>\<open>Scene/System/SystemManager.cpp\<close>. Scenes are objects with an identity: the manager's table
  owns them, and its current scene is a raw pointer that may outlive its object.
\<close>

section \<open>Decimal numbers as text\<close>

definition digit :: "nat \<Rightarrow> char" where
  "digit d = char_of (48 + d)"

fun to_string :: "nat \<Rightarrow> string" where
  "to_string n = (if n < 10 then [digit n] else to_string (n div 10) @ [digit (n mod 10)])"

declare to_string.simps [simp del]

lemma digit_inj:
  assumes "a < 10" "b < 10" "digit a = digit b"
  shows "a = b"
proof -
  have "of_char (digit a) = (of_char (digit b) :: nat)" using assms(3) by simp
  then show ?thesis using assms(1,2) by (simp add: digit_def)
qed

lemma to_string_ne: "to_string n \<noteq> []"
  by (subst to_string.simps) simp

lemma to_string_inj: "to_string a = to_string b \<Longrightarrow> a = b"
proof (induction a arbitrary: b rule: to_string.induct)
  case (1 n)
  show ?case
  proof (cases "n < 10")
    case True
    then have n: "to_string n = [digit n]" by (simp add: to_string.simps)
    have "b < 10"
    proof (rule ccontr)
      assume "\<not> b < 10"
      then show False using "1.prems" n to_string_ne[of "b div 10"] by (subst (asm) to_string.simps[of b]) simp
    qed
    then have "to_string b = [digit b]" by (simp add: to_string.simps)
    with 1 n True \<open>b < 10\<close> show ?thesis by (auto intro: digit_inj)
  next
    case False
    then have n: "to_string n = to_string (n div 10) @ [digit (n mod 10)]" by (subst to_string.simps) simp
    have nb: "\<not> b < 10"
    proof
      assume "b < 10"
      then have "to_string b = [digit b]" by (simp add: to_string.simps)
      then show False using "1.prems" n to_string_ne[of "n div 10"] by simp
    qed
    then have b: "to_string b = to_string (b div 10) @ [digit (b mod 10)]" by (subst to_string.simps) simp
    have "to_string (n div 10) = to_string (b div 10)" "digit (n mod 10) = digit (b mod 10)"
      using "1.prems" n b by auto
    then have "n div 10 = b div 10" "n mod 10 = b mod 10"
      using "1.IH"[OF False] digit_inj[of "n mod 10" "b mod 10"] by auto
    then show ?thesis by (metis div_mult_mod_eq)
  qed
qed

section \<open>A scene\<close>

text \<open>
  \<open>named\<close> is the pool of name components in the order of the registry's view, \<open>next_entity\<close>
  the handle the registry hands out next, \<open>saved\<close> the log of files written.
\<close>

record scene =
  scene_name :: string
  filePath :: string
  scene_dirty :: bool
  width :: nat
  height :: nat
  gameView :: bool
  cameras :: "nat list"
  overrideCamera :: "nat option"
  named :: "(nat \<times> string) list"
  next_entity :: nat
  saved :: "string list"

definition Scene :: "string \<Rightarrow> scene" where
  "Scene initName =
     \<lparr>scene_name = initName, filePath = '''', scene_dirty = False, width = 0, height = 0,
      gameView = False, cameras = [], overrideCamera = None, named = [], next_entity = 0,
      saved = []\<rparr>"

definition setSize :: "nat \<Rightarrow> nat \<Rightarrow> scene \<Rightarrow> scene" where
  "setSize w h s = s\<lparr>width := w, height := h\<rparr>"

definition saveTo :: "string \<Rightarrow> string \<Rightarrow> scene \<Rightarrow> scene" where
  "saveTo delimiter path s =
     (if scene_dirty s then
        let s1 = (if path \<noteq> '''' \<and> path \<noteq> filePath s
                  then s\<lparr>filePath := path @ delimiter @ scene_name s @ ''.scene''\<rparr> else s);
            s2 = (if filePath s1 = '''' then s1\<lparr>filePath := scene_name s1 @ ''.scene''\<rparr> else s1)
        in s2\<lparr>saved := saved s2 @ [filePath s2], scene_dirty := False\<rparr>
      else s)"

definition clear_entities :: "scene \<Rightarrow> scene" where
  "clear_entities s = s\<lparr>named := [], cameras := []\<rparr>"

text \<open>\<open>load\<close> stands for the cereal-based deserialiser.\<close>

definition loadFrom :: "(string \<Rightarrow> scene \<Rightarrow> scene) \<Rightarrow> scene \<Rightarrow> scene" where
  "loadFrom load s = (if filePath s \<noteq> '''' then load (filePath s) (clear_entities s) else s)"

definition getEntityByName :: "scene \<Rightarrow> string \<Rightarrow> nat option" where
  "getEntityByName s n = map_option fst (find (\<lambda>(e, m). m = n) (named s))"

definition create_named :: "scene \<Rightarrow> string \<Rightarrow> scene \<times> nat" where
  "create_named s n =
     (s\<lparr>named := named s @ [(next_entity s, n)], next_entity := Suc (next_entity s)\<rparr>, next_entity s)"

definition numbered :: "string \<Rightarrow> nat \<Rightarrow> string" where
  "numbered n i = n @ ''('' @ to_string i @ '')''"

partial_function (option) unique_loop :: "scene \<Rightarrow> string \<Rightarrow> nat option \<Rightarrow> nat \<Rightarrow> nat option" where
  "unique_loop s n entity i =
     (if entity \<noteq> None then unique_loop s n (getEntityByName s (numbered n (i + 1))) (i + 1)
      else Some i)"

definition createEntity :: "scene \<Rightarrow> string \<Rightarrow> (scene \<times> nat) option" where
  "createEntity s n =
     (let s1 = s\<lparr>scene_dirty := True\<rparr>
      in do { i \<leftarrow> unique_loop s1 n (getEntityByName s1 n) 0;
              Some (create_named s1 (if i = 0 then n else numbered n i)) })"

definition createEntity_anonymous :: "scene \<Rightarrow> scene \<times> nat" where
  "createEntity_anonymous s = (s\<lparr>scene_dirty := True, next_entity := Suc (next_entity s)\<rparr>, next_entity s)"

definition getCamera :: "scene \<Rightarrow> nat option" where
  "getCamera s = (if cameras s \<noteq> [] \<and> gameView s then Some (hd (cameras s)) else overrideCamera s)"

section \<open>The scene manager\<close>

record manager =
  currentScene :: "nat option"
  allScenes :: "(string \<times> nat option) list"
  objects :: "nat \<rightharpoonup> scene"
  switchingScenes :: bool
  currentName :: string

definition new_manager :: manager where
  "new_manager = \<lparr>currentScene = None, allScenes = [], objects = Map.empty,
     switchingScenes = False, currentName = ''''\<rparr>"

definition switchScene :: "string \<Rightarrow> manager \<Rightarrow> manager" where
  "switchScene n m =
     (let m1 = m\<lparr>switchingScenes := True\<rparr>
      in if map_of (allScenes m1) n \<noteq> None then m1\<lparr>switchingScenes := True, currentName := n\<rparr>
         else m1\<lparr>switchingScenes := False\<rparr>)"

definition getSceneByName :: "manager \<Rightarrow> string \<Rightarrow> nat option" where
  "getSceneByName m n = (case map_of (allScenes m) n of None \<Rightarrow> None | Some p \<Rightarrow> p)"

text \<open>
  \<open>addScene\<close> replaces the shared pointer under the name: the scene it held is destroyed. A scene
  without a camera gets an entity for one.
\<close>

definition addScene :: "string \<Rightarrow> nat \<Rightarrow> scene \<Rightarrow> manager \<Rightarrow> manager option" where
  "addScene n p scene m =
     (let freed = (case map_of (allScenes m) n of Some (Some q) \<Rightarrow> (objects m)(q := None) | _ \<Rightarrow> objects m)
      in do {
        s \<leftarrow> (if cameras scene = []
              then do { (s1, e) \<leftarrow> createEntity scene ''Main Camera'';
                        Some (s1\<lparr>cameras := cameras s1 @ [e]\<rparr>) }
              else Some scene);
        Some (m\<lparr>allScenes := AList.update n (Some p) (allScenes m), objects := freed(p \<mapsto> s)\<rparr>) })"

text \<open>
  \<open>apply\<close>: \<open>fresh\<close> is the address of the scene it may allocate, \<open>load\<close> the deserialiser, \<open>init\<close> what the
  init callback and the script system do to the scene in play mode. The table's \<^verbatim>\<open>operator[]\<close>
  inserts a null pointer for an unknown name.
\<close>

definition apply_scene ::
  "(string \<Rightarrow> scene \<Rightarrow> scene) \<Rightarrow> (scene \<Rightarrow> scene) \<Rightarrow> bool \<Rightarrow> nat \<Rightarrow> manager \<Rightarrow>
   (fault + manager) option" where
  "apply_scene load init playing fresh m =
     (if \<not> switchingScenes m \<and> currentScene m \<noteq> None then Some (Inr m)
      else do {
        m1 \<leftarrow> (if \<not> switchingScenes m \<and> allScenes m = []
               then addScene ''default'' fresh (Scene ''default'') (m\<lparr>currentName := ''default''\<rparr>)
               else Some m);
        Some (
          if (case currentScene m1 of None \<Rightarrow> False | Some p \<Rightarrow> objects m1 p = None) then Inl Dangling
          else
            let m2 = (if map_of (allScenes m1) (currentName m1) = None
                      then m1\<lparr>allScenes := AList.update (currentName m1) None (allScenes m1)\<rparr> else m1);
                m3 = m2\<lparr>currentScene := the (map_of (allScenes m2) (currentName m2))\<rparr>
            in (case currentScene m3 of
                  None \<Rightarrow> Inl NullDeref
                | Some p \<Rightarrow>
                    (case objects m3 p of
                       None \<Rightarrow> Inl Dangling
                     | Some s \<Rightarrow>
                         let s1 = loadFrom load s; s2 = (if playing then init s1 else s1)
                         in Inr (m3\<lparr>objects := (objects m3)(p \<mapsto> s2), switchingScenes := False\<rparr>)))) })"

section \<open>The system manager\<close>

text \<open>The table of systems by the hash of their type.\<close>

definition addSystem :: "nat \<Rightarrow> 's \<Rightarrow> (nat \<rightharpoonup> 's) \<Rightarrow> (nat \<rightharpoonup> 's) \<times> 's" where
  "addSystem k v m = (case m k of Some w \<Rightarrow> (m, w) | None \<Rightarrow> (m(k \<mapsto> v), v))"

definition removeSystem :: "nat \<Rightarrow> (nat \<rightharpoonup> 's) \<Rightarrow> (nat \<rightharpoonup> 's)" where
  "removeSystem k m = (if m k \<noteq> None then m(k := None) else m)"

definition getSystem :: "nat \<Rightarrow> (nat \<rightharpoonup> 's) \<Rightarrow> 's option" where
  "getSystem k m = (if m k \<noteq> None then m k else None)"

section \<open>Unique names\<close>

definition taken :: "scene \<Rightarrow> string \<Rightarrow> bool" where
  "taken s n \<longleftrightarrow> n \<in> snd ` set (named s)"

lemma getEntityByName_taken: "getEntityByName s n \<noteq> None \<longleftrightarrow> taken s n"
  by (force simp: getEntityByName_def taken_def find_None_iff)

lemma numbered_inj: "numbered n i = numbered n j \<longleftrightarrow> i = j"
  by (auto simp: numbered_def dest: to_string_inj)

lemma some_number_free: "\<exists>j \<ge> i. \<not> taken s (numbered n j)"
proof (rule ccontr)
  assume "\<not> ?thesis"
  then have "numbered n ` {i..i + length (named s)} \<subseteq> snd ` set (named s)" by (auto simp: taken_def)
  then have "card (numbered n ` {i..i + length (named s)}) \<le> card (snd ` set (named s))"
    by (intro card_mono) auto
  also have "\<dots> \<le> length (named s)"
    by (metis List.finite_set card_image_le card_length le_trans)
  finally show False by (simp add: card_image inj_on_def numbered_inj)
qed

lemma unique_loop_least:
  assumes "\<not> taken s (numbered n j)" "i \<le> j" "\<forall>k. i < k \<and> k < j \<longrightarrow> taken s (numbered n k)"
    and "e \<noteq> None \<longleftrightarrow> i < j"
  shows "unique_loop s n e i = Some j"
  using assms
proof (induction "j - i" arbitrary: i e)
  case 0
  then show ?case by (subst unique_loop.simps) simp
next
  case (Suc d)
  then have "i < j" by simp
  moreover have "getEntityByName s (numbered n (i + 1)) \<noteq> None \<longleftrightarrow> i + 1 < j"
    using Suc.prems(1,3) \<open>i < j\<close> unfolding getEntityByName_taken by (cases "i + 1 = j") auto
  ultimately have "unique_loop s n (getEntityByName s (numbered n (i + 1))) (i + 1) = Some j"
    using Suc.hyps(2) Suc.prems by (intro Suc.hyps(1)) auto
  then show ?case using \<open>i < j\<close> Suc.prems(4) by (subst unique_loop.simps) simp
qed

lemma unique_loop_ends: "\<exists>i. unique_loop s n (getEntityByName s n) 0 = Some i"
proof (cases "taken s n")
  case False
  then have "getEntityByName s n = None" using getEntityByName_taken[of s n] by simp
  then show ?thesis by (subst unique_loop.simps) simp
next
  case True
  define i where "i = (LEAST j. 1 \<le> j \<and> \<not> taken s (numbered n j))"
  have i: "1 \<le> i" "\<not> taken s (numbered n i)"
    using LeastI_ex[of "\<lambda>j. 1 \<le> j \<and> \<not> taken s (numbered n j)"] some_number_free[of 1 s n]
    by (auto simp: i_def)
  have "taken s (numbered n j)" if "1 \<le> j" "j < i" for j
    using that not_less_Least[of j "\<lambda>j. 1 \<le> j \<and> \<not> taken s (numbered n j)"] by (auto simp: i_def)
  then show ?thesis using i True getEntityByName_taken[of s n] by (intro exI[of _ i] unique_loop_least) auto
qed

text \<open>
  C7: Creating an entity by name ends, and the name it gets is not in use: the name itself
  when it is free, otherwise the name with the smallest free number in parentheses. Every
  other entity keeps its name.
\<close>

theorem createEntity_unique:
  "\<exists>s' e k. createEntity s n = Some (s', e) \<and> named s' = named s @ [(e, k)] \<and> \<not> taken s k \<and>
     (if taken s n
      then \<exists>i. 1 \<le> i \<and> k = numbered n i \<and> {1..<i} \<subseteq> {j. taken s (numbered n j)}
      else k = n)"
proof -
  let ?s = "s\<lparr>scene_dirty := True\<rparr>"
  have t: "taken ?s = taken s" by (simp add: taken_def fun_eq_iff)
  show ?thesis
  proof (cases "taken s n")
    case False
    then have "getEntityByName ?s n = None" using getEntityByName_taken[of ?s n] t by simp
    then have "unique_loop ?s n (getEntityByName ?s n) 0 = Some 0" by (subst unique_loop.simps) simp
    then show ?thesis using False by (auto simp: createEntity_def create_named_def Let_def)
  next
    case True
    define i where "i = (LEAST j. 1 \<le> j \<and> \<not> taken s (numbered n j))"
    have i: "1 \<le> i" "\<not> taken s (numbered n i)"
      using LeastI_ex[of "\<lambda>j. 1 \<le> j \<and> \<not> taken s (numbered n j)"] some_number_free[of 1 s n]
      by (auto simp: i_def)
    have least: "taken s (numbered n j)" if "1 \<le> j" "j < i" for j
      using that not_less_Least[of j "\<lambda>j. 1 \<le> j \<and> \<not> taken s (numbered n j)"] by (auto simp: i_def)
    have "unique_loop ?s n (getEntityByName ?s n) 0 = Some i"
      using i least True getEntityByName_taken[of ?s n] t by (intro unique_loop_least) auto
    then show ?thesis using True i least by (auto simp: createEntity_def create_named_def Let_def)
  qed
qed

section \<open>Switching scenes\<close>

text \<open>Every entry of the table and the current scene point to a live scene.\<close>

definition manager_ok :: "manager \<Rightarrow> bool" where
  "manager_ok m \<longleftrightarrow>
     (\<forall>n p. map_of (allScenes m) n = Some p \<longrightarrow> (\<exists>q s. p = Some q \<and> objects m q = Some s)) \<and>
     (\<forall>p. currentScene m = Some p \<longrightarrow> objects m p \<noteq> None) \<and>
     (switchingScenes m \<longrightarrow> map_of (allScenes m) (currentName m) \<noteq> None)"

text \<open>
  After \<open>switchScene\<close> to a scene of the table, \<open>apply\<close> makes that scene current, loads it, ends the
  switch, and keeps all pointers valid; a further \<open>apply\<close> changes nothing.
\<close>

theorem switch_then_apply:
  assumes "manager_ok m" "map_of (allScenes m) n = Some (Some p)"
  shows "\<exists>m'. apply_scene load init playing fresh (switchScene n m) = Some (Inr m') \<and>
    currentScene m' = Some p \<and> currentName m' = n \<and> \<not> switchingScenes m' \<and> manager_ok m' \<and>
    apply_scene load init playing fresh' m' = Some (Inr m')"
proof -
  from assms obtain s where s: "objects m p = Some s" unfolding manager_ok_def by blast
  have sw: "switchScene n m = m\<lparr>switchingScenes := True, currentName := n\<rparr>"
    using assms(2) by (simp add: switchScene_def)
  define t where "t = (if playing then init (loadFrom load s) else loadFrom load s)"
  define m' where "m' = m\<lparr>switchingScenes := False, currentName := n, currentScene := Some p,
    objects := (objects m)(p \<mapsto> t)\<rparr>"
  have "apply_scene load init playing fresh (switchScene n m) = Some (Inr m')"
    using assms s by (auto simp: sw apply_scene_def manager_ok_def m'_def t_def Let_def split: option.split)
  moreover have "manager_ok m'" using assms s unfolding manager_ok_def m'_def by fastforce
  ultimately show ?thesis by (auto simp: apply_scene_def m'_def)
qed

definition one_scene :: manager where
  "one_scene = \<lparr>currentScene = None, allScenes = [(''intro'', Some 1)],
     objects = [1 \<mapsto> Scene ''intro''], switchingScenes = False, currentName = ''''\<rparr>"

theorem switch_then_apply_witness:
  "\<exists>m'. apply_scene (\<lambda>f s. s) id True 2 (switchScene ''intro'' one_scene) = Some (Inr m') \<and>
     currentScene m' = Some 1"
proof -
  have "manager_ok one_scene" by (simp add: manager_ok_def one_scene_def)
  moreover have "map_of (allScenes one_scene) ''intro'' = Some (Some 1)" by (simp add: one_scene_def)
  ultimately show ?thesis
    using switch_then_apply[of one_scene "''intro''" 1 "\<lambda>f s. s" id True 2 2] by blast
qed

text \<open>
  A request for an unknown scene cancels a switch that was already requested: the next
  \<open>apply\<close> leaves the manager as it is, although a known scene had been asked for.
\<close>

theorem unknown_cancels_switch:
  assumes "currentScene m = Some p" "map_of (allScenes m) n \<noteq> None" "map_of (allScenes m) k = None"
  shows "currentScene (switchScene k (switchScene n m)) = Some p \<and>
    apply_scene load init playing fresh (switchScene k (switchScene n m)) =
      Some (Inr (switchScene k (switchScene n m)))"
  using assms by (auto simp: switchScene_def apply_scene_def Let_def)

theorem unknown_cancels_switch_witness:
  "currentScene (switchScene ''x'' (switchScene ''intro'' (one_scene\<lparr>currentScene := Some 1\<rparr>))) = Some 1"
  using unknown_cancels_switch[of "one_scene\<lparr>currentScene := Some 1\<rparr>" 1 "''intro''" "''x''"]
  by (simp add: one_scene_def)

text \<open>
  If scenes were added but none was ever selected, \<open>apply\<close> looks up the name that was never
  set, gets a null pointer and follows it.
\<close>

theorem apply_without_switch_faults:
  assumes "currentScene m = None" "\<not> switchingScenes m" "allScenes m \<noteq> []"
    "map_of (allScenes m) (currentName m) = None"
  shows "apply_scene load init playing fresh m = Some (Inl NullDeref)"
  using assms by (simp add: apply_scene_def Let_def update_conv')

theorem apply_without_switch_faults_witness:
  "apply_scene (\<lambda>f s. s) id True 2 one_scene = Some (Inl NullDeref)"
  using apply_without_switch_faults[of one_scene] by (simp add: one_scene_def)

text \<open>
  Adding a scene under the name of the current scene destroys the current scene while
  the manager still points to it; the next switch follows the dangling pointer.
\<close>

theorem replaced_scene_dangles:
  assumes "currentScene m = Some p" "map_of (allScenes m) n = Some (Some p)" "q \<noteq> p"
    and "addScene n q scene m = Some m'"
  shows "apply_scene load init playing fresh (switchScene n m') = Some (Inl Dangling)"
  using assms
  by (auto simp: addScene_def switchScene_def apply_scene_def Let_def update_conv'
      split: Option.bind_splits)

theorem replaced_scene_dangles_witness:
  "\<exists>m'. addScene ''intro'' 7 (Scene ''intro'') (one_scene\<lparr>currentScene := Some 1\<rparr>) = Some m' \<and>
     apply_scene (\<lambda>f s. s) id True 2 (switchScene ''intro'' m') = Some (Inl Dangling)"
proof -
  have "getEntityByName (Scene ''intro''\<lparr>scene_dirty := True\<rparr>) ''Main Camera'' = None"
    by (simp add: getEntityByName_def Scene_def)
  then obtain m' where "addScene ''intro'' 7 (Scene ''intro'') (one_scene\<lparr>currentScene := Some 1\<rparr>) = Some m'"
    by (auto simp: addScene_def createEntity_def unique_loop.simps create_named_def Let_def Scene_def)
  then show ?thesis
    using replaced_scene_dangles[of "one_scene\<lparr>currentScene := Some 1\<rparr>" 1 "''intro''" 7]
    by (auto simp: one_scene_def)
qed

text \<open>
  Saving writes a changed scene once: afterwards the scene is clean, its path is not
  empty, exactly one file has been written, and saving again to any place writes nothing.
\<close>

theorem saveTo_once:
  "(let s' = saveTo d path s in
     \<not> scene_dirty s' \<and> saveTo d path' s' = s' \<and>
     saved s' = saved s @ (if scene_dirty s then [filePath s'] else []) \<and>
     (if scene_dirty s then filePath s' \<noteq> [] else s' = s))"
  by (auto simp: saveTo_def Let_def)

text \<open>
  The table of systems behaves as a map that never overwrites: a system that was added is
  found, adding a second one of the same type returns the first, removing forgets it.
\<close>

theorem system_table:
  "getSystem k (fst (addSystem k v m)) = Some (snd (addSystem k v m)) \<and>
   snd (addSystem k w (fst (addSystem k v m))) = snd (addSystem k v m) \<and>
   getSystem j (removeSystem k m) = (if j = k then None else getSystem j m) \<and>
   getSystem j (fst (addSystem k v m)) = (if j = k then Some (snd (addSystem k v m)) else getSystem j m)"
  by (auto simp: getSystem_def addSystem_def removeSystem_def split: option.split)

end
