(* ===== verification/Work_Queue.thy ===== *)
theory Work_Queue
  imports Maple_Prelude
begin

text \<open>
  The loop the engine uses for its two queues of deferred work, the dispatcher's events and
  the callbacks for the main thread: take the front element, then run it, which may append
  further elements. The interface states what such a queue promises, and its lemmas show
  that everything is served once and in order.
\<close>

locale work_queue =
  fixes queue :: "'s \<Rightarrow> 'a list" and pop :: "'s \<Rightarrow> 's" and handle :: "'a \<Rightarrow> 's \<Rightarrow> 's"
    and served :: "'s \<Rightarrow> 'p list" and receipt :: "'a \<Rightarrow> 'p list" and drain :: "'s \<Rightarrow> 's option"
  assumes pop_queue: "queue s = a # q \<Longrightarrow> queue (pop s) = q"
    and pop_served: "served (pop s) = served s"
    and handle_appends: "\<exists>posted. queue (handle a s) = queue s @ posted"
    and handle_served: "served (handle a s) = served s @ receipt a"
    and drain_empty: "queue s = [] \<Longrightarrow> drain s = Some s"
    and drain_step: "queue s = a # q \<Longrightarrow> drain s = drain (handle a (pop s))"
    and drain_steps: "drain s = Some s' \<Longrightarrow>
      (s, s') \<in> {(s, handle a (pop s)) | s a q. queue s = a # q}\<^sup>* \<and> queue s' = []"
begin

lemma step_served:
  assumes "queue s = a # q"
  shows "\<exists>posted. queue (handle a (pop s)) = q @ posted \<and>
    served (handle a (pop s)) = served s @ receipt a"
  using handle_appends[of a "pop s"] handle_served[of a "pop s"] pop_queue[OF assms] pop_served[of s]
  by auto

lemma steps_served:
  assumes "(s, s') \<in> {(s, handle a (pop s)) | s a q. queue s = a # q}\<^sup>*"
  shows "\<exists>fin posted. queue s @ posted = fin @ queue s' \<and>
    served s' = served s @ concat (map receipt fin)"
  using assms
proof (induction rule: rtrancl_induct)
  case base
  show ?case by (intro exI[of _ "[]"]) simp
next
  case (step t u)
  then obtain a q where a: "queue t = a # q" "u = handle a (pop t)" by auto
  from step.IH obtain fin posted where
    d: "queue s @ posted = fin @ queue t" "served t = served s @ concat (map receipt fin)" by blast
  from step_served[OF a(1)] obtain more where
    "queue u = q @ more" "served u = served t @ receipt a" using a(2) by auto
  with d a have "queue s @ (posted @ more) = (fin @ [a]) @ queue u"
    "served u = served s @ concat (map receipt (fin @ [a]))" by auto
  then show ?case by blast
qed

text \<open>A drained queue has served what was in it first, in order, then what was added.\<close>

lemma drain_fifo:
  assumes "drain s = Some s'"
  shows "\<exists>posted. queue s' = [] \<and> served s' = served s @ concat (map receipt (queue s @ posted))"
proof -
  from drain_steps[OF assms] steps_served obtain fin posted where
    "queue s' = []" "queue s @ posted = fin @ queue s'"
    "served s' = served s @ concat (map receipt fin)" by blast
  then show ?thesis by auto
qed

lemma drain_quiet:
  assumes "\<And>a t. I t \<Longrightarrow> queue (handle a t) = queue t \<and> I (handle a t)" "\<And>t. I t \<Longrightarrow> I (pop t)" "I s"
  shows "\<exists>s'. drain s = Some s' \<and> queue s' = [] \<and> I s' \<and>
    served s' = served s @ concat (map receipt (queue s))"
  using assms(3)
proof (induction "queue s" arbitrary: s)
  case Nil
  then show ?case using drain_empty[of s] by auto
next
  case (Cons a q)
  let ?t = "handle a (pop s)"
  have t: "queue ?t = q" "I ?t" "served ?t = served s @ receipt a"
    using assms(1)[OF assms(2)[OF Cons.prems], of a] pop_queue[OF Cons.hyps(2)[symmetric]]
      step_served[OF Cons.hyps(2)[symmetric]] by auto
  from Cons.hyps(1)[OF t(1)[symmetric] t(2)] t(1,3) drain_step[OF Cons.hyps(2)[symmetric]]
    Cons.hyps(2)[symmetric] show ?case by auto
qed

end

end
