(* ===== verification/Events.thy ===== *)
theory Events
  imports Work_Queue "HOL-Library.Sublist"
begin

text \<open>
  The event system of \<^verbatim>\<open>src/Code/Maple/src/Event\<close>: the event classes, the handlers and the
  dispatcher. Handlers and dispatchers are objects with addresses. A handler's callback may
  call the dispatcher again, so what a callback returns is its verdict and the list of calls
  it makes (add, remove, post); \<open>hook\<close> gives the callback a handler has installed for a type of
  event. Coordinates are floats, a type parameter here.
\<close>

section \<open>Events\<close>

datatype event_type =
  NoneType | WindowClose | WindowResize | WindowFocus | WindowLostFocus | Tick | Update | Render
| KeyPressed | KeyReleased | CharInput | MouseClicked | MouseReleased | MouseMove | MouseScrolled
| DeferredType | RecompileScripts

datatype 'f event =
  RecompileScriptsEvent "nat option"
| MouseMoveEvent 'f 'f
| MouseClickEvent int 'f 'f
| MouseReleaseEvent int 'f 'f
| MouseScrolledEvent 'f 'f 'f 'f
| KeyPressedEvent int int
| KeyReleasedEvent int
| CharInputEvent int char
| DeferredTypeEvent int
| WindowResizeEvent int int

fun getType :: "'f event \<Rightarrow> event_type" where
  "getType (RecompileScriptsEvent _) = RecompileScripts"
| "getType (MouseMoveEvent _ _) = MouseMove"
| "getType (MouseClickEvent _ _ _) = MouseClicked"
| "getType (MouseReleaseEvent _ _ _) = MouseReleased"
| "getType (MouseScrolledEvent _ _ _ _) = MouseScrolled"
| "getType (KeyPressedEvent _ _) = KeyPressed"
| "getType (KeyReleasedEvent _) = KeyReleased"
| "getType (CharInputEvent _ _) = CharInput"
| "getType (DeferredTypeEvent _) = DeferredType"
| "getType (WindowResizeEvent _ _) = WindowResize"

section \<open>State\<close>

record 'f dispatcher =
  eventHandlers :: "nat list"
  eventHandlerAddSet :: "nat set"
  eventHandlerDeleteSet :: "nat set"
  eventQueue :: "(nat \<times> 'f event option) list"

text \<open>
  All dispatchers by address, the handlers' priorities and back pointers, the number of
  promises made, and two logs: the promises fulfilled and the callbacks invoked.
\<close>

record 'f event_world =
  dispatchers :: "nat \<Rightarrow> 'f dispatcher"
  priority :: "nat \<Rightarrow> int"
  owner :: "nat \<Rightarrow> nat option"
  promises :: nat
  results :: "(nat \<times> bool) list"
  invoked :: "nat list"

datatype 'f action = Add nat nat | Remove nat nat | Post nat "'f event option"

type_synonym 'f hook =
  "nat \<Rightarrow> event_type \<Rightarrow> ('f event \<Rightarrow> 'f event_world \<Rightarrow> bool \<times> 'f action list) option"

definition on_dispatcher :: "nat \<Rightarrow> ('f dispatcher \<Rightarrow> 'f dispatcher) \<Rightarrow> 'f event_world \<Rightarrow> 'f event_world" where
  "on_dispatcher d f w = w\<lparr>dispatchers := (dispatchers w)(d := f (dispatchers w d))\<rparr>"

section \<open>Handlers\<close>

definition removeEventHandler :: "nat \<Rightarrow> nat \<Rightarrow> 'f event_world \<Rightarrow> 'f event_world" where
  "removeEventHandler this h w =
     (let w1 = (if owner w h = Some this then w\<lparr>owner := (owner w)(h := None)\<rparr> else w)
      in on_dispatcher this
           (\<lambda>d. d\<lparr>eventHandlerDeleteSet := insert h (eventHandlerDeleteSet d),
                  eventHandlerAddSet := eventHandlerAddSet d - {h}\<rparr>) w1)"

definition addEventHandler :: "nat \<Rightarrow> nat \<Rightarrow> 'f event_world \<Rightarrow> 'f event_world" where
  "addEventHandler this h w =
     (let w1 = (case owner w h of None \<Rightarrow> w | Some d \<Rightarrow> removeEventHandler d h w);
          w2 = w1\<lparr>owner := (owner w1)(h \<mapsto> this)\<rparr>
      in on_dispatcher this
           (\<lambda>d. d\<lparr>eventHandlerAddSet := insert h (eventHandlerAddSet d),
                  eventHandlerDeleteSet := eventHandlerDeleteSet d - {h}\<rparr>) w2)"

text \<open>\<^verbatim>\<open>EventHandler::remove\<close> and the destructor of a handler.\<close>

definition handler_remove :: "nat \<Rightarrow> 'f event_world \<Rightarrow> 'f event_world" where
  "handler_remove h w =
     (case owner w h of
        None \<Rightarrow> w
      | Some d \<Rightarrow> (let w1 = removeEventHandler d h w in w1\<lparr>owner := (owner w1)(h := None)\<rparr>))"

definition destroy_handler :: "nat \<Rightarrow> 'f event_world \<Rightarrow> 'f event_world" where
  "destroy_handler h w = (case owner w h of None \<Rightarrow> w | Some d \<Rightarrow> removeEventHandler d h w)"

text \<open>A new handler object at address \<open>h\<close>.\<close>

definition new_handler :: "nat \<Rightarrow> int \<Rightarrow> 'f event_world \<Rightarrow> 'f event_world" where
  "new_handler h prio w = w\<lparr>priority := (priority w)(h := prio), owner := (owner w)(h := None)\<rparr>"

definition destroy_dispatcher :: "nat \<Rightarrow> 'f event_world \<Rightarrow> 'f event_world" where
  "destroy_dispatcher this w =
     (let d = dispatchers w this
      in w\<lparr>owner := (\<lambda>h. if h \<in> eventHandlerAddSet d then None
                        else if h \<in> set (eventHandlers d) \<and> h \<notin> eventHandlerDeleteSet d then None
                        else owner w h)\<rparr>)"

definition postEvent :: "nat \<Rightarrow> 'f event option \<Rightarrow> 'f event_world \<Rightarrow> 'f event_world" where
  "postEvent this e w =
     (on_dispatcher this (\<lambda>d. d\<lparr>eventQueue := eventQueue d @ [(promises w, e)]\<rparr>) w)
       \<lparr>promises := Suc (promises w)\<rparr>"

fun act :: "'f action \<Rightarrow> 'f event_world \<Rightarrow> 'f event_world" where
  "act (Add d h) w = addEventHandler d h w"
| "act (Remove d h) w = removeEventHandler d h w"
| "act (Post d e) w = postEvent d e w"

section \<open>Dispatching one event\<close>

text \<open>The types for which the dispatcher looks up a callback.\<close>

fun routed :: "event_type \<Rightarrow> bool" where
  "routed KeyPressed = True"
| "routed KeyReleased = True"
| "routed MouseClicked = True"
| "routed MouseReleased = True"
| "routed MouseMove = True"
| "routed MouseScrolled = True"
| "routed DeferredType = True"
| "routed CharInput = True"
| "routed RecompileScripts = True"
| "routed _ = False"

fun dispatch_loop ::
  "'f hook \<Rightarrow> nat \<Rightarrow> 'f event \<Rightarrow> nat list \<Rightarrow> 'f event_world \<Rightarrow> 'f event_world \<times> bool" where
  "dispatch_loop hook this e [] w = (w, False)"
| "dispatch_loop hook this e (h # hs) w =
     (if h \<in> eventHandlerDeleteSet (dispatchers w this) \<or> \<not> routed (getType e)
      then dispatch_loop hook this e hs w
      else
        case hook h (getType e) of
          None \<Rightarrow> dispatch_loop hook this e hs w
        | Some f \<Rightarrow>
            let (handled, acts) = f e w;
                w1 = fold act acts (w\<lparr>invoked := invoked w @ [h]\<rparr>)
            in if handled then (w1, True) else dispatch_loop hook this e hs w1)"

definition dispatchEvent ::
  "'f hook \<Rightarrow> nat \<Rightarrow> 'f event option \<Rightarrow> 'f event_world \<Rightarrow> 'f event_world \<times> bool" where
  "dispatchEvent hook this event w =
     (case event of
        None \<Rightarrow> (w, False)
      | Some e \<Rightarrow> dispatch_loop hook this e (eventHandlers (dispatchers w this)) w)"

section \<open>Dispatching the queue\<close>

text \<open>\<^verbatim>\<open>std::find\<close> and \<^verbatim>\<open>erase\<close>: the first occurrence goes. The sets are visited in address order.\<close>

definition purge :: "'f dispatcher \<Rightarrow> 'f dispatcher" where
  "purge d =
     d\<lparr>eventHandlers := fold remove1 (sorted_list_of_set (eventHandlerDeleteSet d)) (eventHandlers d),
       eventHandlerDeleteSet := {}\<rparr>"

text \<open>
  \<^verbatim>\<open>std::upper_bound\<close> with the descending order of priorities: behind every handler whose
  priority is not smaller.
\<close>

definition insert_handler :: "(nat \<Rightarrow> int) \<Rightarrow> nat \<Rightarrow> nat list \<Rightarrow> nat list" where
  "insert_handler prio h hs =
     (if h \<in> set hs then hs
      else takeWhile (\<lambda>x. \<not> prio x < prio h) hs @ h # dropWhile (\<lambda>x. \<not> prio x < prio h) hs)"

definition admit :: "(nat \<Rightarrow> int) \<Rightarrow> 'f dispatcher \<Rightarrow> 'f dispatcher" where
  "admit prio d =
     d\<lparr>eventHandlers :=
         fold (insert_handler prio) (sorted_list_of_set (eventHandlerAddSet d)) (eventHandlers d),
       eventHandlerAddSet := {}\<rparr>"

definition pop_event :: "nat \<Rightarrow> 'f event_world \<Rightarrow> 'f event_world" where
  "pop_event this = on_dispatcher this (\<lambda>d. d\<lparr>eventQueue := tl (eventQueue d)\<rparr>)"

definition serve_event ::
  "'f hook \<Rightarrow> nat \<Rightarrow> nat \<times> 'f event option \<Rightarrow> 'f event_world \<Rightarrow> 'f event_world" where
  "serve_event hook this pe w =
     (let (w1, b) = dispatchEvent hook this (snd pe) w in w1\<lparr>results := results w1 @ [(fst pe, b)]\<rparr>)"

partial_function (option) drain_events ::
  "'f hook \<Rightarrow> nat \<Rightarrow> 'f event_world \<Rightarrow> 'f event_world option" where
  "drain_events hook this w =
     (case eventQueue (dispatchers w this) of
        [] \<Rightarrow> Some w
      | pe # _ \<Rightarrow> drain_events hook this (serve_event hook this pe (pop_event this w)))"

declare drain_events.simps [code]

definition dispatchEvents :: "'f hook \<Rightarrow> nat \<Rightarrow> 'f event_world \<Rightarrow> 'f event_world option" where
  "dispatchEvents hook this w =
     drain_events hook this (on_dispatcher this (\<lambda>d. admit (priority w) (purge d)) w)"

section \<open>The order of handlers\<close>

lemma in_set_Cons: "x \<in> set xs \<Longrightarrow> \<exists>y ys. xs = y # ys"
  by (cases xs) auto

definition by_priority :: "(nat \<Rightarrow> int) \<Rightarrow> nat list \<Rightarrow> bool" where
  "by_priority prio hs \<longleftrightarrow> distinct hs \<and> sorted_wrt (\<lambda>a b. prio b \<le> prio a) hs"

lemma by_priority_remove1: "by_priority prio hs \<Longrightarrow> by_priority prio (remove1 h hs)"
  unfolding by_priority_def
proof (elim conjE, intro conjI)
  show "sorted_wrt (\<lambda>a b. prio b \<le> prio a) hs \<Longrightarrow> sorted_wrt (\<lambda>a b. prio b \<le> prio a) (remove1 h hs)"
    by (induction hs) (auto dest: set_remove1_subset[THEN subsetD])
qed simp

lemma fold_remove1:
  "by_priority prio hs \<Longrightarrow> by_priority prio (fold remove1 ds hs) \<and> set (fold remove1 ds hs) = set hs - set ds"
proof (induction ds arbitrary: hs)
  case (Cons d ds)
  then show ?case using by_priority_remove1[OF Cons.prems, of d]
    by (auto simp: by_priority_def)
qed simp

lemma sorted_wrt_insert:
  "sorted_wrt R (xs @ ys) \<Longrightarrow> (\<And>x. x \<in> set xs \<Longrightarrow> R x h) \<Longrightarrow> (\<And>y. y \<in> set ys \<Longrightarrow> R h y) \<Longrightarrow>
   sorted_wrt R (xs @ h # ys)"
  by (auto simp: sorted_wrt_append)

lemma distinct_insert: "distinct (xs @ ys) \<Longrightarrow> h \<notin> set xs \<union> set ys \<Longrightarrow> distinct (xs @ h # ys)"
  by auto

lemma insert_handler_priority:
  assumes "by_priority prio hs"
  shows "by_priority prio (insert_handler prio h hs) \<and> set (insert_handler prio h hs) = insert h (set hs)"
proof (cases "h \<in> set hs")
  case False
  let ?P = "\<lambda>x. \<not> prio x < prio h"
  have split: "takeWhile ?P hs @ dropWhile ?P hs = hs" by simp
  have d: "prio x < prio h" if xd: "x \<in> set (dropWhile ?P hs)" for x
  proof -
    obtain y ys where y: "dropWhile ?P hs = y # ys"
      using in_set_Cons[OF xd] by blast
    then have "prio y < prio h" using hd_dropWhile[of ?P hs] by simp
    moreover have "sorted_wrt (\<lambda>a b. prio b \<le> prio a) (y # ys)"
      using assms split y unfolding by_priority_def by (metis sorted_wrt_append)
    ultimately show ?thesis using xd y by auto
  qed
  have t: "prio h \<le> prio x" if "x \<in> set (takeWhile ?P hs)" for x
    using set_takeWhileD[OF that] by simp
  have s: "sorted_wrt (\<lambda>a b. prio b \<le> prio a) (takeWhile ?P hs @ dropWhile ?P hs)"
    "distinct (takeWhile ?P hs @ dropWhile ?P hs)"
    using assms split by (simp_all add: by_priority_def)
  have u: "set (takeWhile ?P hs) \<union> set (dropWhile ?P hs) = set hs"
    using split by (metis set_append)
  have "sorted_wrt (\<lambda>a b. prio b \<le> prio a) (takeWhile ?P hs @ h # dropWhile ?P hs)"
    by (rule sorted_wrt_insert[OF s(1)], erule t, erule less_imp_le[OF d])
  moreover have "distinct (takeWhile ?P hs @ h # dropWhile ?P hs)"
    using s(2) False u by (intro distinct_insert) auto
  ultimately show ?thesis
    using False u by (auto simp: insert_handler_def by_priority_def)
qed (use assms in \<open>auto simp: insert_handler_def\<close>)

lemma fold_insert_handler:
  "by_priority prio hs \<Longrightarrow>
   by_priority prio (fold (insert_handler prio) as hs) \<and> set (fold (insert_handler prio) as hs) = set hs \<union> set as"
proof (induction as arbitrary: hs)
  case (Cons a as)
  then show ?case using insert_handler_priority[OF Cons.prems, of a] by auto
qed simp

lemma refreshed_handlers:
  assumes "by_priority prio (eventHandlers d)" "finite (eventHandlerAddSet d)" "finite (eventHandlerDeleteSet d)"
  shows "by_priority prio (eventHandlers (admit prio (purge d)))"
    and "set (eventHandlers (admit prio (purge d))) =
      (set (eventHandlers d) - eventHandlerDeleteSet d) \<union> eventHandlerAddSet d"
  using fold_remove1[OF assms(1), of "sorted_list_of_set (eventHandlerDeleteSet d)"]
    fold_insert_handler[of prio "fold remove1 (sorted_list_of_set (eventHandlerDeleteSet d)) (eventHandlers d)"
      "sorted_list_of_set (eventHandlerAddSet d)"] assms(2,3)
  by (auto simp: admit_def purge_def)

section \<open>What callbacks cannot change\<close>

lemma on_dispatcher_fields [simp]:
  "priority (on_dispatcher d f w) = priority w" "results (on_dispatcher d f w) = results w"
  "invoked (on_dispatcher d f w) = invoked w" "owner (on_dispatcher d f w) = owner w"
  "promises (on_dispatcher d f w) = promises w"
  "dispatchers (on_dispatcher d f w) k = (if k = d then f (dispatchers w d) else dispatchers w k)"
  by (simp_all add: on_dispatcher_def)

definition stable :: "'f event_world \<Rightarrow> 'f event_world \<Rightarrow> bool" where
  "stable w w' \<longleftrightarrow>
     priority w' = priority w \<and> results w' = results w \<and>
     (\<forall>d. eventHandlers (dispatchers w' d) = eventHandlers (dispatchers w d)) \<and>
     (\<forall>d. \<exists>posted. eventQueue (dispatchers w' d) = eventQueue (dispatchers w d) @ posted)"

lemma stable_refl: "stable w w"
  by (simp add: stable_def)

lemma stable_trans: "stable w w1 \<Longrightarrow> stable w1 w2 \<Longrightarrow> stable w w2"
  unfolding stable_def by (metis append.assoc)

lemma removeEventHandler_stable: "stable w (removeEventHandler d h w)"
  by (simp add: stable_def removeEventHandler_def Let_def)

lemma act_stable: "stable w (act a w)"
proof (cases a)
  case (Add d h)
  have "stable (case owner w h of None \<Rightarrow> w | Some k \<Rightarrow> removeEventHandler k h w) (act a w)"
    by (simp add: Add addEventHandler_def Let_def stable_def)
  moreover have "stable w (case owner w h of None \<Rightarrow> w | Some k \<Rightarrow> removeEventHandler k h w)"
    by (simp add: stable_refl removeEventHandler_stable split: option.split)
  ultimately show ?thesis using stable_trans by blast
next
  case (Remove d h)
  then show ?thesis by (simp add: removeEventHandler_stable)
next
  case (Post d e)
  then show ?thesis by (simp add: stable_def postEvent_def)
qed

lemma acts_stable: "stable w (fold act as w)"
  by (induction as arbitrary: w) (auto simp: stable_refl intro: stable_trans[OF act_stable])

lemma invoked_stable: "stable w (w\<lparr>invoked := i\<rparr>)"
  by (simp add: stable_def)

lemma dispatch_loop_stable: "stable w (fst (dispatch_loop hook this e hs w))"
proof (induction hs arbitrary: w)
  case (Cons h hs)
  have "stable w (fst (dispatch_loop hook this e hs (fold act as (w\<lparr>invoked := i\<rparr>))))" for as i
    using Cons stable_trans invoked_stable acts_stable by blast
  moreover have "stable w (fold act as (w\<lparr>invoked := i\<rparr>))" for as i
    using stable_trans invoked_stable acts_stable by blast
  ultimately show ?case using Cons by (auto simp: Let_def split: option.split prod.split)
qed (simp add: stable_refl)

lemma dispatchEvent_stable: "stable w (fst (dispatchEvent hook this e w))"
  by (simp add: dispatchEvent_def stable_refl dispatch_loop_stable split: option.split)

lemma serve_event_spec:
  "priority (serve_event hook this pe w) = priority w"
  "eventHandlers (dispatchers (serve_event hook this pe w) d) = eventHandlers (dispatchers w d)"
  "\<exists>posted. eventQueue (dispatchers (serve_event hook this pe w) d) = eventQueue (dispatchers w d) @ posted"
  "map fst (results (serve_event hook this pe w)) = map fst (results w) @ [fst pe]"
  using dispatchEvent_stable[of w hook this "snd pe"]
  by (auto simp: serve_event_def stable_def Let_def split: prod.split)

section \<open>The queue of events as a work queue\<close>

lemma drain_events_steps:
  assumes "drain_events hook this w = Some w'"
  shows "(w, w') \<in> {(s, serve_event hook this a (pop_event this s)) | s a q.
      eventQueue (dispatchers s this) = a # q}\<^sup>* \<and> eventQueue (dispatchers w' this) = []"
proof (rule drain_events.raw_induct[OF _ assms, where P = "\<lambda>hook this w w'.
    (w, w') \<in> {(s, serve_event hook this a (pop_event this s)) | s a q.
      eventQueue (dispatchers s this) = a # q}\<^sup>* \<and> eventQueue (dispatchers w' this) = []"])
  fix f and hook :: "'a hook" and this and w w' :: "'a event_world"
  let ?R = "{(s, serve_event hook this a (pop_event this s)) | s a q. eventQueue (dispatchers s this) = a # q}"
  assume IH: "\<And>hook this w w'. f hook this w = Some w' \<Longrightarrow>
      (w, w') \<in> {(s, serve_event hook this a (pop_event this s)) | s a q.
        eventQueue (dispatchers s this) = a # q}\<^sup>* \<and> eventQueue (dispatchers w' this) = []"
    and step: "(case eventQueue (dispatchers w this) of [] \<Rightarrow> Some w
      | pe # _ \<Rightarrow> f hook this (serve_event hook this pe (pop_event this w))) = Some w'"
  show "(w, w') \<in> ?R\<^sup>* \<and> eventQueue (dispatchers w' this) = []"
  proof (cases "eventQueue (dispatchers w this)")
    case Nil
    then show ?thesis using step by simp
  next
    case (Cons a q)
    then have "(w, serve_event hook this a (pop_event this w)) \<in> ?R" by blast
    moreover have "(serve_event hook this a (pop_event this w), w') \<in> ?R\<^sup>*" "eventQueue (dispatchers w' this) = []"
      using IH step Cons by auto
    ultimately show ?thesis by (meson converse_rtrancl_into_rtrancl)
  qed
qed

interpretation ev: work_queue "\<lambda>w. eventQueue (dispatchers w this)" "pop_event this"
  "serve_event hook this" "\<lambda>w. map fst (results w)" "\<lambda>pe. [fst pe]" "drain_events hook this"
  for hook :: "'f hook" and this
proof
  fix w w' :: "'f event_world" and a q
  show "eventQueue (dispatchers w this) = a # q \<Longrightarrow> eventQueue (dispatchers (pop_event this w) this) = q"
    by (simp add: pop_event_def)
  show "map fst (results (pop_event this w)) = map fst (results w)" by (simp add: pop_event_def)
  show "\<exists>posted. eventQueue (dispatchers (serve_event hook this a w) this) = eventQueue (dispatchers w this) @ posted"
    by (rule serve_event_spec(3))
  show "map fst (results (serve_event hook this a w)) = map fst (results w) @ [fst a]"
    by (rule serve_event_spec(4))
  show "eventQueue (dispatchers w this) = [] \<Longrightarrow> drain_events hook this w = Some w"
    by (subst drain_events.simps) simp
  show "eventQueue (dispatchers w this) = a # q \<Longrightarrow>
      drain_events hook this w = drain_events hook this (serve_event hook this a (pop_event this w))"
    by (subst drain_events.simps) simp
  show "drain_events hook this w = Some w' \<Longrightarrow>
      (w, w') \<in> {(s, serve_event hook this a (pop_event this s)) | s a q.
        eventQueue (dispatchers s this) = a # q}\<^sup>* \<and> eventQueue (dispatchers w' this) = []"
    by (rule drain_events_steps)
qed

section \<open>Properties\<close>

lemma drain_keeps_handlers:
  assumes "drain_events hook this w = Some w'"
  shows "eventHandlers (dispatchers w' d) = eventHandlers (dispatchers w d) \<and> priority w' = priority w"
proof -
  have "(w, w') \<in> {(s, serve_event hook this a (pop_event this s)) | s a q.
      eventQueue (dispatchers s this) = a # q}\<^sup>*" using drain_events_steps[OF assms] by blast
  then show ?thesis
    by (induction rule: rtrancl_induct) (auto simp: serve_event_spec pop_event_def)
qed

text \<open>
  C8: Each round of dispatching first brings the list of handlers up to date: it holds exactly
  the old handlers without the removed ones and with the added ones, each once, in descending
  order of priority, whatever the callbacks do during the round.
\<close>

theorem dispatch_updates_handlers:
  assumes "by_priority (priority w) (eventHandlers (dispatchers w this))"
    and "finite (eventHandlerAddSet (dispatchers w this))" "finite (eventHandlerDeleteSet (dispatchers w this))"
    and "dispatchEvents hook this w = Some w'"
  shows "set (eventHandlers (dispatchers w' this)) =
      (set (eventHandlers (dispatchers w this)) - eventHandlerDeleteSet (dispatchers w this)) \<union>
      eventHandlerAddSet (dispatchers w this) \<and>
    by_priority (priority w') (eventHandlers (dispatchers w' this))"
  using drain_keeps_handlers[OF assms(4)[unfolded dispatchEvents_def], of this] refreshed_handlers[OF assms(1-3)]
  by simp

text \<open>
  Events are served first in, first out, each promise exactly once: after a round that
  returns the queue is empty, and the promises fulfilled are those of the queued events in
  order, followed by those of the events posted meanwhile.
\<close>

theorem dispatch_fifo:
  assumes "dispatchEvents hook this w = Some w'"
  shows "\<exists>posted. eventQueue (dispatchers w' this) = [] \<and>
    map fst (results w') = map fst (results w) @ map fst (eventQueue (dispatchers w this) @ posted)"
proof -
  let ?w = "on_dispatcher this (\<lambda>d. admit (priority w) (purge d)) w"
  have "eventQueue (dispatchers ?w this) = eventQueue (dispatchers w this)"
    by (simp add: admit_def purge_def)
  with ev.drain_fifo[OF assms[unfolded dispatchEvents_def]] show ?thesis by (auto simp: map_concat comp_def)
qed

text \<open>
  C9: A round of dispatching returns when no callback posts an event, and then serves exactly
  the events that were queued.
\<close>

theorem dispatch_returns:
  assumes "\<And>h t f e u a. hook h t = Some f \<Longrightarrow> a \<in> set (snd (f e u)) \<Longrightarrow> \<nexists>d x. a = Post d x"
  shows "\<exists>w'. dispatchEvents hook this w = Some w' \<and> eventQueue (dispatchers w' this) = [] \<and>
    map fst (results w') = map fst (results w) @ map fst (eventQueue (dispatchers w this))"
proof -
  have act: "eventQueue (dispatchers (act a u) d) = eventQueue (dispatchers u d)"
    if "\<nexists>d x. a = Post d x" for a u d
    using that by (cases a)
      (auto simp: addEventHandler_def removeEventHandler_def Let_def split: option.split)
  have acts: "eventQueue (dispatchers (fold act as u) d) = eventQueue (dispatchers u d)"
    if "\<forall>a \<in> set as. \<nexists>d x. a = Post d x" for as u d
    using that by (induction as arbitrary: u) (auto simp: act)
  have loop: "eventQueue (dispatchers (fst (dispatch_loop hook this e hs u)) d) = eventQueue (dispatchers u d)"
    for e hs u d
  proof (induction hs arbitrary: u)
    case (Cons h hs)
    have "eventQueue (dispatchers (fold act (snd (f e u)) (u\<lparr>invoked := i\<rparr>)) d) = eventQueue (dispatchers u d)"
      if "hook h (getType e) = Some f" for f i
    proof -
      have "\<forall>a \<in> set (snd (f e u)). \<nexists>d x. a = Post d x" using assms[OF that] by blast
      from acts[OF this] show ?thesis by simp
    qed
    then show ?case using Cons
      by (auto simp: Let_def split: option.split prod.split) (metis snd_conv)+
  qed simp
  have "eventQueue (dispatchers (serve_event hook this pe u) this) = eventQueue (dispatchers u this)" for pe u
    using loop by (auto simp: serve_event_def dispatchEvent_def Let_def split: option.split prod.split)
      (metis fst_conv)+
  then have "\<exists>w'. drain_events hook this v = Some w' \<and> eventQueue (dispatchers w' this) = [] \<and>
      map fst (results w') = map fst (results v) @ concat (map (\<lambda>pe. [fst pe]) (eventQueue (dispatchers v this)))" for v
    using ev.drain_quiet[where I = "\<lambda>_. True" and hook = hook and this = this and s = v] by blast
  from this[of "on_dispatcher this (\<lambda>d. admit (priority w) (purge d)) w"] show ?thesis
    by (simp add: dispatchEvents_def admit_def purge_def)
qed

lemma invoked_acts: "invoked (fold act as w) = invoked w"
proof (induction as arbitrary: w)
  case (Cons a as)
  have "invoked (act a w) = invoked w"
    by (cases a) (auto simp: addEventHandler_def removeEventHandler_def postEvent_def Let_def split: option.split)
  then show ?case using Cons by simp
qed simp

text \<open>
  Within one event the callbacks run in the order of the handler list, each handler at
  most once; a handler that was removed and is not added again by a callback is never invoked,
  although it stays in the list until the next round.
\<close>

theorem removed_not_invoked:
  assumes "\<And>k t f e u. hook k t = Some f \<Longrightarrow> Add this h \<notin> set (snd (f e u))"
    and "h \<in> eventHandlerDeleteSet (dispatchers w this)"
  shows "\<exists>calls. invoked (fst (dispatch_loop hook this e hs w)) = invoked w @ calls \<and>
    subseq calls hs \<and> h \<notin> set calls"
  using assms(2)
proof (induction hs arbitrary: w)
  case (Cons k hs)
  have rm: "h \<in> eventHandlerDeleteSet (dispatchers (removeEventHandler d j u) this)"
    if "h \<in> eventHandlerDeleteSet (dispatchers u this)" for d j and u :: "'a event_world"
    using that by (auto simp: removeEventHandler_def Let_def)
  have act: "h \<in> eventHandlerDeleteSet (dispatchers (act a u) this)"
    if "h \<in> eventHandlerDeleteSet (dispatchers u this)" "a \<noteq> Add this h" for a and u :: "'a event_world"
    using that rm[of u] by (cases a) (auto simp: addEventHandler_def postEvent_def Let_def split: option.split)
  have acts: "h \<in> eventHandlerDeleteSet (dispatchers (fold act as u) this)"
    if "h \<in> eventHandlerDeleteSet (dispatchers u this)" "Add this h \<notin> set as" for as and u :: "'a event_world"
    using that by (induction as arbitrary: u) (auto simp: act)
  show ?case
  proof (cases "k \<in> eventHandlerDeleteSet (dispatchers w this) \<or> \<not> routed (getType e) \<or> hook k (getType e) = None")
    case True
    then have "dispatch_loop hook this e (k # hs) w = dispatch_loop hook this e hs w" by auto
    then show ?thesis using Cons.IH[OF Cons.prems] by auto
  next
    case False
    then obtain f where f: "hook k (getType e) = Some f" by auto
    obtain b as where b: "f e w = (b, as)" by fastforce
    let ?w = "fold act as (w\<lparr>invoked := invoked w @ [k]\<rparr>)"
    have "h \<in> eventHandlerDeleteSet (dispatchers ?w this)"
      using acts[of "w\<lparr>invoked := invoked w @ [k]\<rparr>" as] Cons.prems assms(1)[OF f, of e w] b by simp
    from Cons.IH[OF this] obtain calls where c: "invoked (fst (dispatch_loop hook this e hs ?w)) = invoked ?w @ calls"
      "subseq calls hs" "h \<notin> set calls" by blast
    have "h \<noteq> k" using False Cons.prems by auto
    show ?thesis
    proof (cases b)
      case True
      then show ?thesis using False f b \<open>h \<noteq> k\<close> by (intro exI[of _ "[k]"]) (simp add: invoked_acts)
    next
      case nb: False
      then show ?thesis using False f b c \<open>h \<noteq> k\<close>
        by (intro exI[of _ "k # calls"]) (simp add: invoked_acts)
    qed
  qed
qed simp

definition two_handlers :: "nat event_world" where
  "two_handlers = \<lparr>dispatchers = (\<lambda>_. \<lparr>eventHandlers = [1, 2], eventHandlerAddSet = {},
       eventHandlerDeleteSet = {}, eventQueue = []\<rparr>),
     priority = (\<lambda>h. if h = 1 then 10 else 5), owner = (\<lambda>_. Some 0), promises = 0, results = [],
     invoked = []\<rparr>"

text \<open>
  The list can lose its order when a handler is destroyed and another one is created at
  the same address between two rounds: the new one takes over the old one's place, whatever
  its priority.
\<close>

theorem reused_address_breaks_order:
  "by_priority (priority two_handlers) (eventHandlers (dispatchers two_handlers 0)) \<and>
   (\<exists>w. dispatchEvents (\<lambda>_ _. None) 0 (addEventHandler 0 1 (new_handler 1 0 (destroy_handler 1 two_handlers))) = Some w \<and>
     \<not> by_priority (priority w) (eventHandlers (dispatchers w 0)))"
proof -
  have "map_option (\<lambda>w. (eventHandlers (dispatchers w 0), priority w 1, priority w 2))
      (dispatchEvents (\<lambda>_ _. None) 0 (addEventHandler 0 1 (new_handler 1 0 (destroy_handler 1 two_handlers)))) =
    Some ([1, 2], 0, 5)" by code_simp
  then obtain w where "dispatchEvents (\<lambda>_ _. None) 0
      (addEventHandler 0 1 (new_handler 1 0 (destroy_handler 1 two_handlers))) = Some w"
    "eventHandlers (dispatchers w 0) = [1, 2]" "priority w 1 = 0" "priority w 2 = 5" by auto
  then show ?thesis by (simp add: by_priority_def two_handlers_def)
qed

text \<open>Witnesses, on a dispatcher with one queued key event and one handler that logs it.\<close>

definition key_world :: "nat event_world" where
  "key_world = two_handlers\<lparr>dispatchers := (\<lambda>_. \<lparr>eventHandlers = [1], eventHandlerAddSet = {2},
       eventHandlerDeleteSet = {1}, eventQueue = [(0, Some (KeyReleasedEvent 65)), (1, None)]\<rparr>), promises := 2\<rparr>"

definition handle_all :: "nat hook" where
  "handle_all h t = Some (\<lambda>e w. (True, []))"

lemma key_world_returns: "\<exists>w'. dispatchEvents handle_all 0 key_world = Some w'"
proof -
  have "(dispatchEvents handle_all 0 key_world = None) = False" by code_simp
  then show ?thesis by auto
qed

lemma key_world_data:
  "map fst (eventQueue (dispatchers key_world 0)) = [0, 1]" "results key_world = []"
  by (simp_all add: key_world_def two_handlers_def)

theorem dispatch_updates_handlers_witness:
  "\<exists>w'. dispatchEvents handle_all 0 key_world = Some w' \<and> set (eventHandlers (dispatchers w' 0)) = {2}"
proof -
  from key_world_returns obtain w' where w': "dispatchEvents handle_all 0 key_world = Some w'" by blast
  from dispatch_updates_handlers[OF _ _ _ this] show ?thesis
    using w' by (auto simp: key_world_def by_priority_def)
qed

theorem dispatch_fifo_witness:
  "\<exists>w' posted. dispatchEvents handle_all 0 key_world = Some w' \<and>
     map fst (results w') = [0, 1] @ map fst (posted :: (nat \<times> nat event option) list)"
proof -
  from key_world_returns obtain w' where w': "dispatchEvents handle_all 0 key_world = Some w'" by blast
  from dispatch_fifo[OF this] show ?thesis using w' key_world_data by auto
qed

theorem dispatch_returns_witness:
  "\<exists>w'. dispatchEvents handle_all 0 key_world = Some w' \<and> map fst (results w') = [0, 1]"
proof -
  have "\<exists>w'. dispatchEvents handle_all 0 key_world = Some w' \<and> eventQueue (dispatchers w' 0) = [] \<and>
    map fst (results w') = map fst (results key_world) @ map fst (eventQueue (dispatchers key_world 0))"
    by (rule dispatch_returns) (auto simp: handle_all_def)
  then show ?thesis using key_world_data by auto
qed

theorem removed_not_invoked_witness:
  "\<exists>calls. invoked (fst (dispatch_loop handle_all 0 (KeyReleasedEvent 65) [1, 2] key_world)) = calls \<and> 1 \<notin> set calls"
  using removed_not_invoked[of handle_all 0 1 key_world "KeyReleasedEvent 65" "[1, 2]"]
  by (auto simp: handle_all_def key_world_def two_handlers_def)

end
