(* ===== verification/Threads.thy ===== *)
theory Threads
  imports Work_Queue
begin

text \<open>
  Worker threads: \<^verbatim>\<open>src/Code/Maple/src/Thread/ThreadPool.cpp\<close> and the main thread's queue of
  \<^verbatim>\<open>Application::postOnMainThread\<close> and \<^verbatim>\<open>executeAll\<close>. One worker with its callers is a
  transition system: every section of code under the mutex is one step, the condition variable
  is the set of blocked threads, \<^verbatim>\<open>notify_one\<close> wakes any one of them, and a woken thread tests
  its predicate again.
\<close>

section \<open>Choosing a thread of the pool\<close>

definition INT32_MAX :: int where
  "INT32_MAX = 2147483647"

text \<open>The search for the shortest queue; \<open>lens\<close> are the sizes \<open>getTaskSize\<close> reports, from index \<open>i\<close> on.\<close>

fun shortest_loop :: "int list \<Rightarrow> int \<Rightarrow> int \<Rightarrow> int \<Rightarrow> int" where
  "shortest_loop [] i minLen minIndex = minIndex"
| "shortest_loop (len # lens) i minLen minIndex =
     (if minLen > len
      then (if len = 0 then i else shortest_loop lens (i + 1) len i)
      else shortest_loop lens (i + 1) minLen minIndex)"

text \<open>The thread a task goes to: indexing the vector with -1 is a fault.\<close>

definition choose_thread :: "int list \<Rightarrow> int \<Rightarrow> fault + nat" where
  "choose_thread lens threadIndex =
     (if 0 \<le> threadIndex \<and> threadIndex < int (length lens) then Inr (nat threadIndex)
      else
        let minIndex = shortest_loop lens 0 INT32_MAX (- 1)
        in if minIndex < 0 then Inl BadIndex else Inr (nat minIndex))"

definition pool_addTask :: "'t list list \<Rightarrow> 't \<Rightarrow> int \<Rightarrow> fault + 't list list" where
  "pool_addTask queues task threadIndex =
     (case choose_thread (map (\<lambda>q. int (length q)) queues) threadIndex of
        Inl f \<Rightarrow> Inl f
      | Inr i \<Rightarrow> Inr (queues[i := queues ! i @ [task]]))"

definition new_pool_threads :: "int \<Rightarrow> 't list list" where
  "new_pool_threads count = replicate (nat count) []"

definition best :: "int list \<Rightarrow> int \<Rightarrow> int \<Rightarrow> bool" where
  "best xs m i \<longleftrightarrow>
     (if i = - 1 then m = INT32_MAX \<and> (\<forall>l \<in> set xs. INT32_MAX \<le> l)
      else 0 \<le> i \<and> i < int (length xs) \<and> xs ! nat i = m \<and> (\<forall>l \<in> set xs. m \<le> l))"

lemma best_snoc_smaller: "best xs m i \<Longrightarrow> l < m \<Longrightarrow> best (xs @ [l]) l (int (length xs))"
  by (auto simp: best_def nth_append split: if_splits)

lemma best_snoc_other: "best xs m i \<Longrightarrow> \<not> l < m \<Longrightarrow> best (xs @ [l]) m i"
  by (auto simp: best_def nth_append split: if_splits)

lemma best_zero: "best (xs @ [0]) 0 (int (length xs)) \<Longrightarrow> \<forall>l \<in> set ls. 0 \<le> l \<Longrightarrow>
    best (xs @ 0 # ls) 0 (int (length xs))"
  by (auto simp: best_def nth_append)

lemma shortest_loop_best:
  assumes "\<forall>l \<in> set lens. 0 \<le> l" "best pre m mi"
  shows "\<exists>m'. best (pre @ lens) m' (shortest_loop lens (int (length pre)) m mi)"
  using assms
proof (induction lens arbitrary: pre m mi)
  case (Cons len lens)
  show ?case
  proof (cases "len < m")
    case True
    note b = best_snoc_smaller[OF Cons.prems(2) True]
    show ?thesis
    proof (cases "len = 0")
      case zero: True
      then show ?thesis using best_zero[of pre lens] b True Cons.prems(1) by auto
    next
      case False
      with Cons.IH[OF _ b] Cons.prems(1) True show ?thesis by (simp add: add.commute)
    qed
  next
    case False
    with Cons.IH[OF _ best_snoc_other[OF Cons.prems(2) False]] Cons.prems(1) show ?thesis
      by (simp add: add.commute)
  qed
qed auto

text \<open>
  A task without a valid thread index goes to a thread whose queue is shortest among the
  observed sizes; a valid index is used as it is. With no thread at all the vector is indexed
  with -1.
\<close>

theorem choose_thread_shortest:
  assumes "\<forall>l \<in> set lens. 0 \<le> l \<and> l < INT32_MAX"
  shows "choose_thread lens k =
      (if lens = [] then Inl BadIndex
       else Inr (if 0 \<le> k \<and> k < int (length lens) then nat k
                 else nat (shortest_loop lens 0 INT32_MAX (- 1)))) \<and>
    (lens \<noteq> [] \<longrightarrow> nat (shortest_loop lens 0 INT32_MAX (- 1)) < length lens \<and>
       (\<forall>l \<in> set lens. lens ! nat (shortest_loop lens 0 INT32_MAX (- 1)) \<le> l))"
proof (cases "lens = []")
  case True
  then show ?thesis by (simp add: choose_thread_def)
next
  case False
  let ?r = "shortest_loop lens 0 INT32_MAX (- 1)"
  have "best [] INT32_MAX (- 1)" by (simp add: best_def)
  then obtain m' where b: "best lens m' ?r" using shortest_loop_best[of lens "[]" INT32_MAX "- 1"] assms by auto
  obtain l where "l \<in> set lens" using False by (cases lens) auto
  then have "\<not> (\<forall>l \<in> set lens. INT32_MAX \<le> l)" using assms by force
  then have "0 \<le> ?r" "?r < int (length lens)" "\<forall>l \<in> set lens. lens ! nat ?r \<le> l"
    using b by (auto simp: best_def split: if_splits)
  then show ?thesis using False by (auto simp: choose_thread_def Let_def)
qed

theorem choose_thread_shortest_witness:
  "choose_thread [3, 1, 2] (- 1) = Inr 1"
  using choose_thread_shortest[of "[3, 1, 2]" "- 1"] by (simp add: INT32_MAX_def)

section \<open>A worker thread\<close>

record 't task =
  job :: "'t option"
  complete :: "'t option"

datatype 't pc = AtWait | Running "'t task" | Ran "'t task" | Exited

datatype waiter = Worker | Caller nat

text \<open>
  \<open>waiting\<close>: the callers inside \<open>wait\<close>. Three logs: the tasks submitted, the tasks whose job has
  been run, the completions posted to the main thread.
\<close>

record 't thread =
  jobs :: "'t task list"
  close :: bool
  pc :: "'t pc"
  blocked :: "waiter set"
  waiting :: "nat set"
  submitted :: "'t task list"
  executed :: "'t task list"
  posted :: "'t list"

definition new_thread :: "'t thread" where
  "new_thread = \<lparr>jobs = [], close = False, pc = AtWait, blocked = {}, waiting = {},
     submitted = [], executed = [], posted = []\<rparr>"

inductive notify_one :: "'t thread \<Rightarrow> 't thread \<Rightarrow> bool" where
  nobody: "blocked s = {} \<Longrightarrow> notify_one s s"
| wake: "x \<in> blocked s \<Longrightarrow> notify_one s (s\<lparr>blocked := blocked s - {x}\<rparr>)"

inductive step :: "'t thread \<Rightarrow> 't thread \<Rightarrow> bool" where
  addTask: "notify_one (s\<lparr>jobs := jobs s @ [t], submitted := submitted s @ [t]\<rparr>) s' \<Longrightarrow> step s s'"
| run_wait: "pc s = AtWait \<Longrightarrow> Worker \<notin> blocked s \<Longrightarrow> jobs s = [] \<Longrightarrow> \<not> close s \<Longrightarrow>
    step s (s\<lparr>blocked := insert Worker (blocked s)\<rparr>)"
| run_close: "pc s = AtWait \<Longrightarrow> Worker \<notin> blocked s \<Longrightarrow> close s \<Longrightarrow> step s (s\<lparr>pc := Exited\<rparr>)"
| run_take: "pc s = AtWait \<Longrightarrow> Worker \<notin> blocked s \<Longrightarrow> jobs s = t # q \<Longrightarrow> \<not> close s \<Longrightarrow>
    step s (s\<lparr>pc := Running t\<rparr>)"
| run_job: "pc s = Running t \<Longrightarrow>
    step s (s\<lparr>pc := Ran t, executed := executed s @ [t],
              posted := posted s @ (case (job t, complete t) of (Some _, Some c) \<Rightarrow> [c] | _ \<Rightarrow> [])\<rparr>)"
| run_pop: "pc s = Ran t \<Longrightarrow> notify_one (s\<lparr>pc := AtWait, jobs := tl (jobs s)\<rparr>) s' \<Longrightarrow> step s s'"
| wait_enter: "c \<notin> waiting s \<Longrightarrow> step s (s\<lparr>waiting := insert c (waiting s)\<rparr>)"
| wait_block: "c \<in> waiting s \<Longrightarrow> Caller c \<notin> blocked s \<Longrightarrow> jobs s \<noteq> [] \<Longrightarrow>
    step s (s\<lparr>blocked := insert (Caller c) (blocked s)\<rparr>)"
| wait_return: "c \<in> waiting s \<Longrightarrow> Caller c \<notin> blocked s \<Longrightarrow> jobs s = [] \<Longrightarrow>
    step s (s\<lparr>waiting := waiting s - {c}\<rparr>)"
| close_thread: "notify_one (s\<lparr>close := True\<rparr>) s' \<Longrightarrow> step s s'"
| spurious: "x \<in> blocked s \<Longrightarrow> step s (s\<lparr>blocked := blocked s - {x}\<rparr>)"

inductive reachable :: "'t thread \<Rightarrow> bool" where
  start: "reachable new_thread"
| next_step: "reachable s \<Longrightarrow> step s s' \<Longrightarrow> reachable s'"

inductive_cases notifyE: "notify_one s s'"
inductive_cases stepE: "step s s'"

section \<open>What a worker guarantees\<close>

definition thread_inv :: "'t thread \<Rightarrow> bool" where
  "thread_inv s \<longleftrightarrow>
     (case pc s of
        Running t \<Rightarrow> jobs s \<noteq> [] \<and> hd (jobs s) = t \<and> submitted s = executed s @ jobs s
      | Ran t \<Rightarrow> jobs s \<noteq> [] \<and> hd (jobs s) = t \<and> submitted s = executed s @ tl (jobs s)
      | _ \<Rightarrow> submitted s = executed s @ jobs s) \<and>
     posted s = concat (map (\<lambda>t. case (job t, complete t) of (Some _, Some c) \<Rightarrow> [c] | _ \<Rightarrow> []) (executed s))"

lemma notify_inv: "notify_one s s' \<Longrightarrow> thread_inv s' = thread_inv s"
  by (auto elim!: notifyE simp: thread_inv_def split: pc.split)

lemma step_inv: "step s s' \<Longrightarrow> thread_inv s \<Longrightarrow> thread_inv s'"
proof (induction rule: step.induct)
  case (addTask s t s')
  have "thread_inv (s\<lparr>jobs := jobs s @ [t], submitted := submitted s @ [t]\<rparr>)"
    using addTask.prems by (auto simp: thread_inv_def split: pc.splits)
  then show ?case using notify_inv[OF addTask.hyps] by simp
next
  case (run_pop s t s')
  have "thread_inv (s\<lparr>pc := AtWait, jobs := tl (jobs s)\<rparr>)"
    using run_pop.prems run_pop.hyps(1) by (simp add: thread_inv_def)
  then show ?case using notify_inv[OF run_pop.hyps(2)] by simp
next
  case (close_thread s s')
  then show ?case using notify_inv[OF close_thread.hyps] by (simp add: thread_inv_def split: pc.splits)
next
  case (run_job s t)
  then show ?case by (cases "jobs s") (auto simp: thread_inv_def)
qed (auto simp: thread_inv_def split: pc.splits)

lemma reachable_inv: "reachable s \<Longrightarrow> thread_inv s"
proof (induction rule: reachable.induct)
  case start
  show ?case by (simp add: thread_inv_def new_thread_def)
qed (rule step_inv)

text \<open>
  A worker runs the submitted tasks in order of submission, each at most once: in every
  reachable state the tasks run so far are a prefix of those submitted, and what is missing is
  what its queue still holds (without the front task while that one is between its run and its
  removal). The completions posted to the main thread follow the same order.
\<close>

theorem worker_fifo:
  assumes "reachable s"
  shows "submitted s = executed s @ (case pc s of Ran _ \<Rightarrow> tl (jobs s) | _ \<Rightarrow> jobs s) \<and>
    posted s = concat (map (\<lambda>t. case (job t, complete t) of (Some _, Some c) \<Rightarrow> [c] | _ \<Rightarrow> []) (executed s))"
  using reachable_inv[OF assms] by (auto simp: thread_inv_def split: pc.splits)

definition task1 :: "nat task" where
  "task1 = \<lparr>job = Some 1, complete = Some 2\<rparr>"

definition loaded :: "nat thread" where
  "loaded = new_thread\<lparr>jobs := [task1], submitted := [task1]\<rparr>"

lemma reachable_loaded: "reachable loaded"
proof (rule next_step[OF start])
  show "step new_thread loaded"
    by (rule addTask[where t = task1], unfold loaded_def) (auto simp: new_thread_def intro!: notify_one.nobody)
qed

theorem worker_fifo_witness: "submitted loaded = executed loaded @ [task1]"
  using worker_fifo[OF reachable_loaded] by (simp add: loaded_def new_thread_def)

lemma notify_waiting: "notify_one u s' \<Longrightarrow> waiting s' = waiting u"
  by (auto elim!: notifyE)

lemma step_waiting:
  "step s s' \<Longrightarrow> waiting s \<subseteq> waiting s' \<or> (\<exists>c. jobs s = [] \<and> s' = s\<lparr>waiting := waiting s - {c}\<rparr>)"
proof (induction rule: step.induct)
  case (wait_return c s)
  then show ?case by blast
qed (auto dest!: notify_waiting)

text \<open>
  C10: \<open>wait\<close> means what it says: when it returns, which it does only on an empty queue, every
  task submitted until then has been run.
\<close>

theorem wait_returns_when_all_ran:
  assumes "reachable s" "step s s'" "c \<in> waiting s" "c \<notin> waiting s'"
  shows "executed s' = submitted s' \<and> jobs s' = [] \<and>
    posted s' = concat (map (\<lambda>t. case (job t, complete t) of (Some _, Some c) \<Rightarrow> [c] | _ \<Rightarrow> []) (submitted s'))"
proof -
  from step_waiting[OF assms(2)] assms(3,4) have "jobs s = [] \<and> s' = s\<lparr>waiting := waiting s - {c}\<rparr>"
    by auto
  moreover have "pc s \<noteq> Running t" "pc s \<noteq> Ran t" if "jobs s = []" for t
    using reachable_inv[OF assms(1)] that by (auto simp: thread_inv_def)
  ultimately show ?thesis using reachable_inv[OF assms(1)] by (auto simp: thread_inv_def split: pc.splits)
qed

text \<open>A caller enters \<open>wait\<close> with a task in the queue, blocks, is woken when the worker has run the task, and returns.\<close>

theorem wait_returns_when_all_ran_witness:
  "\<exists>s s' :: nat thread. reachable s \<and> step s s' \<and> 0 \<in> waiting s \<and> 0 \<notin> waiting s' \<and>
     submitted s' = [task1] \<and> executed s' = [task1] \<and> posted s' = [2]"
proof -
  let ?s1 = "loaded\<lparr>waiting := {0}\<rparr>"
  let ?s2 = "?s1\<lparr>blocked := {Caller 0}\<rparr>"
  let ?s3 = "?s2\<lparr>pc := Running task1\<rparr>"
  let ?s4 = "?s2\<lparr>pc := Ran task1, executed := [task1], posted := [2]\<rparr>"
  let ?s5 = "loaded\<lparr>jobs := [], waiting := {0}, executed := [task1], posted := [2]\<rparr>"
  let ?s6 = "?s5\<lparr>waiting := {}\<rparr>"
  note d = loaded_def new_thread_def
  have "step loaded ?s1" using wait_enter[of 0 loaded] by (simp add: d)
  moreover have "step ?s1 ?s2" using wait_block[of 0 ?s1] by (simp add: d)
  moreover have "step ?s2 ?s3" using run_take[of ?s2 task1 "[]"] by (simp add: d)
  moreover have "step ?s3 ?s4" using run_job[of ?s3 task1] by (simp add: d task1_def)
  moreover have "step ?s4 ?s5"
    using run_pop[of ?s4 task1 ?s5] wake[of "Caller 0" "?s4\<lparr>pc := AtWait, jobs := []\<rparr>"] by (simp add: d)
  ultimately have r: "reachable ?s5" by (meson next_step reachable_loaded)
  have last: "step ?s5 ?s6" using wait_return[of 0 ?s5] by (simp add: d)
  from wait_returns_when_all_ran[OF r last, of 0] r last show ?thesis
    by (intro exI[of _ ?s5] exI[of _ ?s6]) (simp add: d task1_def)
qed

text \<open>
  C11: A wake-up can be lost. Two callers of \<open>wait\<close> and the worker share one condition variable
  with \<^verbatim>\<open>notify_one\<close>: there is a reachable state with a task in the queue in which the worker and
  every caller are blocked, so that, unless a thread wakes without cause or something new is
  submitted, the task is never run.
\<close>

theorem wakeup_lost:
  "\<exists>s :: nat thread. reachable s \<and> jobs s \<noteq> [] \<and> pc s = AtWait \<and> Worker \<in> blocked s \<and> waiting s \<noteq> {} \<and>
     Caller ` waiting s \<subseteq> blocked s \<and> \<not> close s"
proof -
  let ?n = "new_thread :: nat thread"
  let ?s1 = "loaded" and ?W = "{0, 1 :: nat}"
  let ?s2 = "?s1\<lparr>waiting := {0}\<rparr>" and ?s3 = "?s1\<lparr>waiting := {0, 1}\<rparr>"
  let ?s4 = "?s3\<lparr>blocked := {Caller 0}\<rparr>" and ?s5 = "?s3\<lparr>blocked := {Caller 0, Caller 1}\<rparr>"
  let ?s6 = "?s5\<lparr>pc := Running task1\<rparr>"
  let ?s7 = "?s5\<lparr>pc := Ran task1, executed := [task1], posted := [2]\<rparr>"
  let ?s8 = "?s3\<lparr>jobs := [], blocked := {Caller 1}, executed := [task1], posted := [2]\<rparr>"
  let ?s9 = "?s8\<lparr>waiting := {1}\<rparr>"
  let ?s10 = "?s9\<lparr>blocked := {Caller 1, Worker}\<rparr>"
  let ?s11 = "?s9\<lparr>jobs := [task1], submitted := [task1, task1], blocked := {Worker}\<rparr>"
  let ?s12 = "?s11\<lparr>blocked := {Caller 1, Worker}\<rparr>"
  note d = loaded_def new_thread_def
  have "step ?s1 ?s2" using wait_enter[of 0 ?s1] by (simp add: d)
  moreover have "step ?s2 ?s3" using wait_enter[of 1 ?s2] by (simp add: d insert_commute)
  moreover have "step ?s3 ?s4" using wait_block[of 0 ?s3] by (simp add: d)
  moreover have "step ?s4 ?s5" using wait_block[of 1 ?s4] by (simp add: d insert_commute)
  moreover have "step ?s5 ?s6" using run_take[of ?s5 task1 "[]"] by (simp add: d)
  moreover have "step ?s6 ?s7" using run_job[of ?s6 task1] by (simp add: d task1_def)
  moreover have "step ?s7 ?s8"
    using run_pop[of ?s7 task1 ?s8] wake[of "Caller 0" "?s7\<lparr>pc := AtWait, jobs := []\<rparr>"]
    by (simp add: d insert_Diff_if)
  moreover have "step ?s8 ?s9" using wait_return[of 0 ?s8] by (simp add: d insert_Diff_if)
  moreover have "step ?s9 ?s10" using run_wait[of ?s9] by (simp add: d insert_commute)
  moreover have "step ?s10 ?s11"
    using addTask[of ?s10 task1 ?s11] wake[of "Caller 1" "?s10\<lparr>jobs := [task1], submitted := [task1, task1]\<rparr>"]
    by (simp add: d insert_Diff_if)
  moreover have "step ?s11 ?s12" using wait_block[of 1 ?s11] by (simp add: d)
  ultimately have "reachable ?s12"
    using reachable_loaded next_step by metis
  then show ?thesis by (intro exI[of _ ?s12]) (simp add: d)
qed

text \<open>
  The destructor waits for an empty queue, but then gives up the lock before it sets the
  closing flag: a task submitted in between is never run, since the worker leaves its loop
  first. There is a reachable state with a task in the queue and the worker gone.
\<close>

theorem close_loses_task:
  "\<exists>s :: nat thread. reachable s \<and> pc s = Exited \<and> jobs s \<noteq> [] \<and> executed s \<noteq> submitted s"
proof -
  let ?s1 = "loaded\<lparr>close := True\<rparr>" and ?s2 = "loaded\<lparr>close := True, pc := Exited\<rparr>"
  note d = loaded_def new_thread_def
  have "step loaded ?s1" using close_thread[OF nobody[of ?s1]] by (simp add: d)
  moreover have "step ?s1 ?s2" using run_close[of ?s1] by (simp add: d)
  ultimately have "reachable ?s2" using reachable_loaded next_step by metis
  then show ?thesis by (intro exI[of _ ?s2]) (simp add: d)
qed

section \<open>Callbacks for the main thread\<close>

text \<open>
  A callback is \<open>None\<close> for an empty \<^verbatim>\<open>std::function\<close>, otherwise the result it returns and the
  callbacks it posts, which may depend on the state.
\<close>

record 'c main_state =
  executeQueue :: "(nat \<times> 'c option) list"
  next_promise :: nat
  fulfilled :: "(nat \<times> bool) list"

definition postOnMainThread :: "'c option \<Rightarrow> 'c main_state \<Rightarrow> 'c main_state \<times> nat" where
  "postOnMainThread cb s =
     (s\<lparr>executeQueue := executeQueue s @ [(next_promise s, cb)], next_promise := Suc (next_promise s)\<rparr>,
      next_promise s)"

definition pop_callback :: "'c main_state \<Rightarrow> 'c main_state" where
  "pop_callback s = s\<lparr>executeQueue := tl (executeQueue s)\<rparr>"

definition run_callback ::
  "('c \<Rightarrow> 'c main_state \<Rightarrow> bool \<times> 'c option list) \<Rightarrow> nat \<times> 'c option \<Rightarrow> 'c main_state \<Rightarrow> 'c main_state" where
  "run_callback run pf s =
     (case snd pf of
        None \<Rightarrow> s
      | Some cb \<Rightarrow>
          let (b, ps) = run cb s; s1 = fold (\<lambda>c s. fst (postOnMainThread c s)) ps s
          in s1\<lparr>fulfilled := fulfilled s1 @ [(fst pf, b)]\<rparr>)"

partial_function (option) executeAll ::
  "('c \<Rightarrow> 'c main_state \<Rightarrow> bool \<times> 'c option list) \<Rightarrow> 'c main_state \<Rightarrow> 'c main_state option" where
  "executeAll run s =
     (case executeQueue s of
        [] \<Rightarrow> Some s
      | pf # _ \<Rightarrow> executeAll run (run_callback run pf (pop_callback s)))"

declare executeAll.simps [code]

definition receipt :: "nat \<times> 'c option \<Rightarrow> nat list" where
  "receipt pf = (if snd pf = None then [] else [fst pf])"

lemma posts_append:
  "\<exists>more. executeQueue (fold (\<lambda>c s. fst (postOnMainThread c s)) ps s) = executeQueue s @ more \<and>
     fulfilled (fold (\<lambda>c s. fst (postOnMainThread c s)) ps s) = fulfilled s"
proof (induction ps arbitrary: s)
  case (Cons p ps)
  from Cons[of "fst (postOnMainThread p s)"] show ?case by (auto simp: postOnMainThread_def)
qed simp

lemma run_callback_spec:
  "\<exists>more. executeQueue (run_callback run pf s) = executeQueue s @ more"
  "map fst (fulfilled (run_callback run pf s)) = map fst (fulfilled s) @ receipt pf"
proof -
  have "(\<exists>more. executeQueue (run_callback run pf s) = executeQueue s @ more) \<and>
      map fst (fulfilled (run_callback run pf s)) = map fst (fulfilled s) @ receipt pf"
  proof (cases "snd pf")
    case (Some c)
    obtain b ps where "run c s = (b, ps)" by fastforce
    with Some posts_append[of ps s] show ?thesis by (auto simp: run_callback_def receipt_def)
  qed (simp add: run_callback_def receipt_def)
  then show "\<exists>more. executeQueue (run_callback run pf s) = executeQueue s @ more"
    "map fst (fulfilled (run_callback run pf s)) = map fst (fulfilled s) @ receipt pf" by auto
qed

lemma executeAll_steps:
  assumes "executeAll run s = Some s'"
  shows "(s, s') \<in> {(s, run_callback run a (pop_callback s)) | s a q. executeQueue s = a # q}\<^sup>* \<and>
    executeQueue s' = []"
proof (rule executeAll.raw_induct[OF _ assms, where P = "\<lambda>run s s'.
    (s, s') \<in> {(s, run_callback run a (pop_callback s)) | s a q. executeQueue s = a # q}\<^sup>* \<and> executeQueue s' = []"])
  fix f and run :: "'a \<Rightarrow> 'a main_state \<Rightarrow> bool \<times> 'a option list" and s s' :: "'a main_state"
  let ?R = "{(s, run_callback run a (pop_callback s)) | s a q. executeQueue s = a # q}"
  assume IH: "\<And>run s s'. f run s = Some s' \<Longrightarrow>
      (s, s') \<in> {(s, run_callback run a (pop_callback s)) | s a q. executeQueue s = a # q}\<^sup>* \<and> executeQueue s' = []"
    and st: "(case executeQueue s of [] \<Rightarrow> Some s
      | pf # _ \<Rightarrow> f run (run_callback run pf (pop_callback s))) = Some s'"
  show "(s, s') \<in> ?R\<^sup>* \<and> executeQueue s' = []"
  proof (cases "executeQueue s")
    case Nil
    then show ?thesis using st by simp
  next
    case (Cons a q)
    then have "(s, run_callback run a (pop_callback s)) \<in> ?R" by blast
    moreover have "(run_callback run a (pop_callback s), s') \<in> ?R\<^sup>*" "executeQueue s' = []"
      using IH st Cons by auto
    ultimately show ?thesis by (meson converse_rtrancl_into_rtrancl)
  qed
qed

interpretation mt: work_queue executeQueue pop_callback "run_callback run"
  "\<lambda>s. map fst (fulfilled s)" receipt "executeAll run"
  for run :: "'c \<Rightarrow> 'c main_state \<Rightarrow> bool \<times> 'c option list"
proof
  fix s s' :: "'c main_state" and a q
  show "executeQueue s = a # q \<Longrightarrow> executeQueue (pop_callback s) = q" by (simp add: pop_callback_def)
  show "map fst (fulfilled (pop_callback s)) = map fst (fulfilled s)" by (simp add: pop_callback_def)
  show "\<exists>p. executeQueue (run_callback run a s) = executeQueue s @ p" by (rule run_callback_spec)
  show "map fst (fulfilled (run_callback run a s)) = map fst (fulfilled s) @ receipt a" by (rule run_callback_spec)
  show "executeQueue s = [] \<Longrightarrow> executeAll run s = Some s" by (subst executeAll.simps) simp
  show "executeQueue s = a # q \<Longrightarrow> executeAll run s = executeAll run (run_callback run a (pop_callback s))"
    by (subst executeAll.simps) simp
  show "executeAll run s = Some s' \<Longrightarrow>
      (s, s') \<in> {(s, run_callback run a (pop_callback s)) | s a q. executeQueue s = a # q}\<^sup>* \<and> executeQueue s' = []"
    by (rule executeAll_steps)
qed

text \<open>
  The callbacks posted to the main thread run in the order they were posted. After
  \<open>executeAll\<close> the queue is empty and the promises fulfilled are those of the non-empty callbacks,
  in order; it returns if the callbacks post nothing.
\<close>

theorem executeAll_fifo:
  "(\<forall>s'. executeAll run s = Some s' \<longrightarrow>
      (\<exists>more. executeQueue s' = [] \<and>
         map fst (fulfilled s') = map fst (fulfilled s) @ concat (map receipt (executeQueue s @ more)))) \<and>
   ((\<forall>c t. snd (run c t) = []) \<longrightarrow>
      (\<exists>s'. executeAll run s = Some s' \<and>
         map fst (fulfilled s') = map fst (fulfilled s) @ concat (map receipt (executeQueue s))))"
proof -
  have "executeQueue (run_callback run a t) = executeQueue t" if "\<forall>c t. snd (run c t) = []" for a t
    using that[rule_format, of _ t]
    by (auto simp: run_callback_def Let_def split: option.split prod.split) (metis fold_simps(1) snd_conv)
  then show ?thesis
    using mt.drain_fifo[where run = run and s = s] mt.drain_quiet[where I = "\<lambda>_. True" and run = run and s = s]
    by blast
qed

theorem executeAll_fifo_witness:
  "\<exists>s'. executeAll (\<lambda>c t. (True, [])) \<lparr>executeQueue = [(0, Some (5::nat)), (1, None), (2, Some 7)],
      next_promise = 3, fulfilled = []\<rparr> = Some s' \<and> map fst (fulfilled s') = [0, 2]"
  using executeAll_fifo[of "\<lambda>c t. (True, [])" "\<lparr>executeQueue = [(0, Some (5::nat)), (1, None), (2, Some 7)],
      next_promise = 3, fulfilled = []\<rparr>"] by (simp add: receipt_def)

end
