(* ===== verification/Strings.thy ===== *)
theory Strings
  imports Maple_Prelude "HOL-Library.Sublist"
begin

text \<open>
  String and path utilities: \<^verbatim>\<open>src/Code/Maple/src/Others/StringUtils.cpp\<close> and the path functions
  of \<^verbatim>\<open>FileSystem/File.cpp\<close>. The overloads for \<^verbatim>\<open>std::string\<close> and \<^verbatim>\<open>std::u16string\<close> are one
  polymorphic definition. Positions are natural numbers and \<open>None\<close> is \<^verbatim>\<open>npos\<close>; the two loops that
  search for a pattern are partial functions, since they do not end on an empty pattern.
\<close>

section \<open>Searching\<close>

text \<open>\<^verbatim>\<open>std::string::find\<close> from the front and from a position.\<close>

fun find_sub :: "'a list \<Rightarrow> 'a list \<Rightarrow> nat option" where
  "find_sub s p =
     (if take (length p) s = p then Some 0
      else (case s of [] \<Rightarrow> None | _ # t \<Rightarrow> map_option Suc (find_sub t p)))"

declare find_sub.simps [simp del]

definition find_at :: "'a list \<Rightarrow> 'a list \<Rightarrow> nat \<Rightarrow> nat option" where
  "find_at s p pos = (if pos \<le> length s then map_option (\<lambda>i. pos + i) (find_sub (drop pos s) p) else None)"

text \<open>\<^verbatim>\<open>find_last_of\<close> for one character.\<close>

definition find_last_of :: "'a list \<Rightarrow> 'a \<Rightarrow> nat option" where
  "find_last_of s c =
     (if c \<in> set s then Some (length s - 1 - length (takeWhile (\<lambda>x. x \<noteq> c) (rev s))) else None)"

section \<open>Splitting, joining, replacing, trimming\<close>

partial_function (option) split_loop ::
  "'a list \<Rightarrow> 'a list \<Rightarrow> 'a list list \<Rightarrow> 'a list list option" where
  "split_loop input delimiter acc_ret =
     (case find_sub input delimiter of
        None \<Rightarrow> Some (acc_ret @ [input])
      | Some pos \<Rightarrow> split_loop (drop (pos + length delimiter) input) delimiter (acc_ret @ [take pos input]))"

definition split :: "'a list \<Rightarrow> 'a list \<Rightarrow> 'a list list option" where
  "split input delimiter = split_loop input delimiter []"

definition split_into :: "'a list \<Rightarrow> 'a list \<Rightarrow> 'a list list \<Rightarrow> 'a list list option" where
  "split_into input delimiter outs = split_loop input delimiter outs"

partial_function (option) replace_loop ::
  "'a list \<Rightarrow> 'a list \<Rightarrow> 'a list \<Rightarrow> nat \<Rightarrow> 'a list option" where
  "replace_loop str old new pos =
     (case find_at str old pos of
        None \<Rightarrow> Some str
      | Some p \<Rightarrow>
          replace_loop (take p str @ new @ drop (p + length old) str) old new (p + length new))"

definition replace :: "'a list \<Rightarrow> 'a list \<Rightarrow> 'a list \<Rightarrow> 'a list option" where
  "replace str old new = replace_loop str old new 0"

declare split_loop.simps [code] and replace_loop.simps [code]

definition trim :: "'a list \<Rightarrow> 'a list \<Rightarrow> 'a list" where
  "trim str trimStr =
     (if str = [] then str
      else
        let s1 = dropWhile (\<lambda>c. c \<in> set trimStr) str
        in rev (dropWhile (\<lambda>c. c \<in> set trimStr) (rev s1)))"

text \<open>The version for wide strings: blanks (code 32) first, then ideographic spaces (code 12288).\<close>

definition trim_wide :: "nat list \<Rightarrow> nat list" where
  "trim_wide str = (if str = [] then str else trim (trim str [32]) [12288])"

definition startWith :: "'a list \<Rightarrow> 'a list \<Rightarrow> bool" where
  "startWith str start \<longleftrightarrow> take (length start) str = start"

definition contains :: "'a list \<Rightarrow> 'a list \<Rightarrow> bool" where
  "contains str start \<longleftrightarrow> find_sub str start \<noteq> None"

text \<open>The position passed to \<^verbatim>\<open>compare\<close> wraps around when the pattern is longer than the string.\<close>

definition endWith :: "'a list \<Rightarrow> 'a list \<Rightarrow> fault + bool" where
  "endWith str start =
     (let pos = to_u64 (int (length str) - int (length start))
      in if int (length str) < pos then Inl OutOfRange
         else Inr (take (length start) (drop (nat pos) str) = start))"

section \<open>Characters\<close>

definition to_lower :: "char \<Rightarrow> char" where
  "to_lower c = (let n = of_char c :: nat in if 65 \<le> n \<and> n \<le> 90 then char_of (n + 32) else c)"

definition toLower :: "string \<Rightarrow> string" where
  "toLower = map to_lower"

definition is_space :: "char \<Rightarrow> bool" where
  "is_space c \<longleftrightarrow> (let n = of_char c :: nat in n = 32 \<or> (9 \<le> n \<and> n \<le> 13))"

definition isEmptyOrWhitespace :: "string \<Rightarrow> bool" where
  "isEmptyOrWhitespace str \<longleftrightarrow> str = [] \<or> list_all is_space str"

section \<open>Paths\<close>

definition getExtension :: "string \<Rightarrow> string" where
  "getExtension fileName =
     (case find_last_of fileName (CHR ''.'') of Some pos \<Rightarrow> drop (pos + 1) fileName | None \<Rightarrow> '''')"

definition removeExtension :: "string \<Rightarrow> string" where
  "removeExtension fileName =
     (case find_last_of fileName (CHR ''.'') of Some pos \<Rightarrow> take pos fileName | None \<Rightarrow> fileName)"

definition getFileName :: "char \<Rightarrow> string \<Rightarrow> string" where
  "getFileName delimiter filePath =
     (case find_last_of filePath delimiter of Some pos \<Rightarrow> drop (pos + 1) filePath | None \<Rightarrow> filePath)"

definition getFileNameWithoutExtension :: "char \<Rightarrow> string \<Rightarrow> string" where
  "getFileNameWithoutExtension delimiter filePath = removeExtension (getFileName delimiter filePath)"

definition replaceExtension :: "string \<Rightarrow> string \<Rightarrow> string" where
  "replaceExtension path extension = removeExtension path @ extension"

definition isHiddenFile :: "string \<Rightarrow> bool" where
  "isHiddenFile filePath \<longleftrightarrow>
     filePath \<noteq> ''..'' \<and> filePath \<noteq> ''.'' \<and> filePath \<noteq> [] \<and> hd filePath = CHR ''.''"

definition clean_extension :: "string \<Rightarrow> string" where
  "clean_extension filePath = toLower (trim (getExtension filePath) '' '')"

definition isTextFile :: "string \<Rightarrow> bool" where
  "isTextFile filePath \<longleftrightarrow>
     clean_extension filePath \<in> {''txt'', ''glsl'', ''shader'', ''vert'', ''frag'', ''lua''}"

definition isLuaFile :: "string \<Rightarrow> bool" where
  "isLuaFile filePath \<longleftrightarrow> clean_extension filePath = ''lua''"

definition isAudioFile :: "string \<Rightarrow> bool" where
  "isAudioFile filePath \<longleftrightarrow> clean_extension filePath \<in> {''ogg'', ''mp3'', ''wav'', ''aac''}"

definition isSceneFile :: "string \<Rightarrow> bool" where
  "isSceneFile filePath \<longleftrightarrow> clean_extension filePath = ''scene''"

definition isControllerFile :: "string \<Rightarrow> bool" where
  "isControllerFile filePath \<longleftrightarrow> clean_extension filePath = ''controller''"

definition isModelFile :: "string \<Rightarrow> bool" where
  "isModelFile filePath \<longleftrightarrow>
     clean_extension filePath \<in> {''obj'', ''gltf'', ''glb'', ''fbx'', ''FBX''}"

definition isTextureFile :: "string \<Rightarrow> bool" where
  "isTextureFile filePath \<longleftrightarrow> clean_extension filePath \<in> {''png'', ''tga'', ''jpg'', ''hdr''}"

definition isCSharpFile :: "string \<Rightarrow> bool" where
  "isCSharpFile filePath \<longleftrightarrow> clean_extension filePath = ''cs''"

section \<open>Files\<close>

datatype file_type =
  Normal | Folder | Texture | Model | FBX | OBJ | Text | Script | Dll | SceneFile | MP3 | OGG | AAC | WAV
| TTF | C_SHARP | Length

definition file_types :: "(string \<times> file_type) list" where
  "file_types =
     [(''mp3'', MP3), (''ogg'', OGG), (''wav'', WAV), (''aac'', AAC), (''jpg'', Texture), (''png'', Texture),
      (''tga'', Texture), (''lua'', Script), (''cs'', C_SHARP), (''glsl'', Text), (''shader'', Text),
      (''vert'', Text), (''frag'', Text), (''text'', Text), (''scene'', SceneFile), (''obj'', Model),
      (''fbx'', Model), (''glb'', Model), (''gltf'', Model), (''dll'', Dll), (''so'', Dll)]"

definition getFileType :: "string \<Rightarrow> file_type" where
  "getFileType path =
     (case map_of file_types (toLower (getExtension path)) of Some t \<Rightarrow> t | None \<Rightarrow> Normal)"

text \<open>\<^verbatim>\<open>File::removeExtension\<close> erases from \<^verbatim>\<open>npos\<close> when there is no dot, which throws.\<close>

definition file_removeExtension :: "string \<Rightarrow> fault + string" where
  "file_removeExtension file =
     (if file = [] then Inr []
      else (case find_last_of file (CHR ''.'') of None \<Rightarrow> Inl OutOfRange | Some pos \<Rightarrow> Inr (take pos file)))"

definition file_getFileName :: "string \<Rightarrow> string" where
  "file_getFileName file =
     (case find_last_of file (CHR ''/'') of None \<Rightarrow> file | Some pos \<Rightarrow> drop (pos + 1) file)"

text \<open>The directory tree that \<^verbatim>\<open>std::filesystem\<close> presents: a path with its entries, or a file.\<close>

datatype entry = Dir string "entry list" | Plain string

fun list_entries :: "(string \<Rightarrow> bool) option \<Rightarrow> entry list \<Rightarrow> string list \<Rightarrow> string list" where
  "list_entries predict [] outs = outs"
| "list_entries predict (Dir p es # rest) outs = list_entries predict rest (list_entries predict es outs)"
| "list_entries predict (Plain p # rest) outs =
     list_entries predict rest
       (if (case predict of None \<Rightarrow> True | Some f \<Rightarrow> f p) then outs @ [p] else outs)"

definition listFolder :: "(string \<Rightarrow> bool) option \<Rightarrow> entry option \<Rightarrow> string list \<Rightarrow> string list" where
  "listFolder predict path outs =
     (case path of Some (Dir p es) \<Rightarrow> list_entries predict es outs | _ \<Rightarrow> outs)"

section \<open>Searching\<close>

lemma find_sub_None: "find_sub s p = None \<longleftrightarrow> \<not> sublist p s"
proof (induction s)
  case Nil
  then show ?case by (subst find_sub.simps) auto
next
  case (Cons a s)
  have "sublist p (a # s) \<longleftrightarrow> prefix p (a # s) \<or> sublist p s" by (auto simp: sublist_Cons_right)
  moreover have "prefix p (a # s) \<longleftrightarrow> take (length p) (a # s) = p"
    by (metis append_eq_conv_conj prefix_def take_is_prefix)
  ultimately show ?case using Cons by (subst find_sub.simps) auto
qed

lemma find_sub_Some:
  assumes "find_sub s p = Some i"
  shows "s = take i s @ p @ drop (i + length p) s \<and> i + length p \<le> length s \<and> (p \<noteq> [] \<longrightarrow> \<not> sublist p (take i s))"
  using assms
proof (induction s arbitrary: i)
  case Nil
  then show ?case by (subst (asm) find_sub.simps) (auto split: if_splits)
next
  case (Cons a s)
  show ?case
  proof (cases "take (length p) (a # s) = p")
    case True
    then have "i = 0" using Cons.prems by (subst (asm) find_sub.simps) simp
    moreover have "length p \<le> length (a # s)" using True by (metis length_take min.cobounded1)
    ultimately show ?thesis using True by (metis append_take_drop_id plus_nat.add_0 self_append_conv2
        sublist_Nil_right take0)
  next
    case False
    then obtain j where j: "find_sub s p = Some j" "i = Suc j"
      using Cons.prems by (subst (asm) find_sub.simps) (auto split: if_splits)
    have "\<not> prefix p (a # take j s)"
      using False by (metis append_eq_conv_conj prefix_def prefix_order.trans take_Suc_Cons take_is_prefix)
    with Cons.IH[OF j(1)] j(2) show ?thesis by (auto simp: sublist_Cons_right)
  qed
qed

lemma find_at_append: "find_at (pre @ s) p (length pre) = map_option (\<lambda>i. length pre + i) (find_sub s p)"
  by (simp add: find_at_def)

section \<open>Splitting\<close>

fun join :: "'a list \<Rightarrow> 'a list list \<Rightarrow> 'a list" where
  "join d [] = []"
| "join d [x] = x"
| "join d (x # y # ys) = x @ d @ join d (y # ys)"

lemma join_Cons: "ys \<noteq> [] \<Longrightarrow> join d (x # ys) = x @ d @ join d ys"
  by (cases ys) auto

lemma split_loop_step:
  "find_sub s d = Some i \<Longrightarrow> split_loop s d acc_ret = split_loop (drop (i + length d) s) d (acc_ret @ [take i s])"
  "find_sub s d = None \<Longrightarrow> split_loop s d acc_ret = Some (acc_ret @ [s])"
  by (subst split_loop.simps, simp)+

lemma split_loop_pieces:
  assumes "d \<noteq> []"
  shows "\<exists>ps. (\<forall>acc_ret. split_loop s d acc_ret = Some (acc_ret @ ps)) \<and> ps \<noteq> [] \<and> join d ps = s \<and> (\<forall>p \<in> set ps. \<not> sublist d p)"
proof (induction s rule: length_induct)
  case (1 s)
  show ?case
  proof (cases "find_sub s d")
    case None
    then show ?thesis by (intro exI[of _ "[s]"]) (simp add: split_loop_step find_sub_None)
  next
    case (Some i)
    note f = find_sub_Some[OF Some]
    let ?t = "drop (i + length d) s"
    have "length ?t < length s" using conjunct1[OF conjunct2[OF f]] assms by (cases d) auto
    with 1 obtain ps where ps: "\<forall>acc_ret. split_loop ?t d acc_ret = Some (acc_ret @ ps)" "ps \<noteq> []" "join d ps = ?t"
      "\<forall>p \<in> set ps. \<not> sublist d p" by blast
    then show ?thesis using Some f assms
      by (intro exI[of _ "take i s # ps"]) (auto simp: split_loop_step(1) join_Cons)
  qed
qed

text \<open>
  C12: Splitting at a non-empty delimiter ends, and its pieces are the string again when they
  are joined with the delimiter; no piece contains the delimiter.
\<close>

theorem split_join:
  assumes "delimiter \<noteq> []"
  shows "\<exists>ps. split input delimiter = Some ps \<and> join delimiter ps = input \<and>
    \<not> (\<exists>p. p \<in> set ps \<and> sublist delimiter p)"
  using split_loop_pieces[OF assms, of input] by (auto simp: split_def)

theorem split_join_witness:
  "\<exists>ps. split ''a/b'' ''/'' = Some ps \<and> join ''/'' ps = ''a/b''"
  using split_join[of "''/''" "''a/b''"] by auto

text \<open>Pieces without the delimiter, of one character, are found again.\<close>

lemma sublist_single: "sublist [c] p \<longleftrightarrow> c \<in> set p"
  by (auto simp: sublist_def) (metis split_list)

lemma takeWhile_upto: "c \<notin> set p \<Longrightarrow> takeWhile (\<lambda>x. x \<noteq> c) (p @ c # r) = p"
  by (induction p) auto

lemma join_single_inject:
  "ps \<noteq> [] \<Longrightarrow> qs \<noteq> [] \<Longrightarrow> \<forall>p \<in> set ps. c \<notin> set p \<Longrightarrow> \<forall>q \<in> set qs. c \<notin> set q \<Longrightarrow> join [c] ps = join [c] qs \<Longrightarrow> ps = qs"
proof (induction ps arbitrary: qs)
  case (Cons p ps)
  obtain q qs' where qs: "qs = q # qs'" using Cons.prems(2) by (cases qs) auto
  show ?case
  proof (cases "ps = []"; cases "qs' = []")
    assume "ps = []" "qs' = []"
    then show ?thesis using Cons.prems(5) qs by simp
  next
    assume a: "ps = []" "qs' \<noteq> []"
    then have "c \<in> set p" using Cons.prems(5) qs by (simp add: join_Cons)
    then show ?thesis using Cons.prems(3) by simp
  next
    assume a: "ps \<noteq> []" "qs' = []"
    then have "c \<in> set q" using Cons.prems(5) qs by (simp add: join_Cons) (metis in_set_conv_decomp)
    then show ?thesis using Cons.prems(4) qs by simp
  next
    assume a: "ps \<noteq> []" "qs' \<noteq> []"
    then have e: "p @ c # join [c] ps = q @ c # join [c] qs'" using Cons.prems(5) qs by (simp add: join_Cons)
    then have "takeWhile (\<lambda>x. x \<noteq> c) (p @ c # join [c] ps) = takeWhile (\<lambda>x. x \<noteq> c) (q @ c # join [c] qs')" by simp
    then have "p = q" using Cons.prems(3,4) qs by (simp add: takeWhile_upto)
    then show ?thesis using e Cons.IH[OF a] Cons.prems(3,4) qs by simp
  qed
qed simp

lemma split_join_single:
  assumes "ps \<noteq> []" "\<forall>p \<in> set ps. c \<notin> set p"
  shows "split (join [c] ps) [c] = Some ps"
proof -
  obtain qs where q: "\<forall>acc_ret. split_loop (join [c] ps) [c] acc_ret = Some (acc_ret @ qs)" "qs \<noteq> []"
    "join [c] qs = join [c] ps" "\<forall>p \<in> set qs. c \<notin> set p"
    using split_loop_pieces[of "[c]" "join [c] ps"] by (auto simp: sublist_single)
  then have "qs = ps" using join_single_inject[of qs ps c] assms by simp
  then show ?thesis using q(1) by (simp add: split_def)
qed

lemma replace_loop_join:
  assumes "old \<noteq> []"
  shows "\<exists>ps. (\<forall>acc_ret. split_loop s old acc_ret = Some (acc_ret @ ps)) \<and> ps \<noteq> [] \<and>
    (\<forall>pre. replace_loop (pre @ s) old new (length pre) = Some (pre @ join new ps))"
proof (induction s rule: length_induct)
  case (1 s)
  show ?case
  proof (cases "find_sub s old")
    case None
    then show ?thesis
      by (intro exI[of _ "[s]"]) (simp add: split_loop_step replace_loop.simps find_at_append)
  next
    case (Some i)
    note f = find_sub_Some[OF Some]
    let ?t = "drop (i + length old) s"
    have "length ?t < length s" using conjunct1[OF conjunct2[OF f]] assms by (cases old) auto
    with 1 obtain ps where ps: "\<forall>acc_ret. split_loop ?t old acc_ret = Some (acc_ret @ ps)" "ps \<noteq> []"
      "\<forall>pre. replace_loop (pre @ ?t) old new (length pre) = Some (pre @ join new ps)" by blast
    have "replace_loop (pre @ s) old new (length pre) = Some (pre @ take i s @ new @ join new ps)" for pre
    proof -
      have "replace_loop (pre @ s) old new (length pre) =
          replace_loop ((pre @ take i s @ new) @ ?t) old new (length (pre @ take i s @ new))"
        using Some f by (subst replace_loop.simps) (simp add: find_at_append add.assoc)
      also have "\<dots> = Some (pre @ take i s @ new @ join new ps)" using ps(3) by (simp del: length_append append_assoc)
      finally show ?thesis .
    qed
    then show ?thesis using Some ps(1,2)
      by (intro exI[of _ "take i s # ps"]) (simp add: split_loop_step(1) join_Cons)
  qed
qed

text \<open>
  C13: Replacing a non-empty pattern ends, and gives the pieces between the occurrences of the
  pattern, joined by the new text: every occurrence found from left to right is replaced once,
  and the inserted text is not searched again.
\<close>

theorem replace_joins_pieces:
  assumes "old \<noteq> []"
  shows "\<exists>ps. split str old = Some ps \<and> replace str old new = Some (join new ps)"
  using replace_loop_join[OF assms, of str new] unfolding split_def replace_def
  by (metis append_Nil list.size(3))

theorem replace_joins_pieces_witness:
  "\<exists>ps. split ''a.b'' ''.'' = Some ps \<and> replace ''a.b'' ''.'' ''--'' = Some (join ''--'' ps)"
  using replace_joins_pieces[of "''.''" "''a.b''" "''--''"] by simp

text \<open>
  With an empty pattern neither loop ever ends: splitting finds the empty delimiter at the
  front again and again.
\<close>

theorem split_empty_diverges: "split input [] = None"
proof -
  have no: "delimiter \<noteq> []" if "split_loop s delimiter acc_ret = Some ps" for s delimiter :: "'a list" and acc_ret ps
  proof (rule split_loop.raw_induct[OF _ that, where P = "\<lambda>_ d _ _. d \<noteq> []"])
    fix f :: "'a list \<Rightarrow> 'a list \<Rightarrow> 'a list list \<Rightarrow> 'a list list option" and s d acc_ret ps
    assume "\<And>s d acc_ret ps. f s d acc_ret = Some ps \<Longrightarrow> d \<noteq> []"
      and "(case find_sub s d of None \<Rightarrow> Some (acc_ret @ [s])
        | Some pos \<Rightarrow> f (drop (pos + length d) s) d (acc_ret @ [take pos s])) = Some ps"
    then show "d \<noteq> []" using find_sub_None[of s "[]"] by (cases "find_sub s d") auto
  qed
  then show ?thesis unfolding split_def using no by (metis option.exhaust)
qed

section \<open>Paths\<close>

lemma find_last_of_Some:
  assumes "find_last_of s c = Some i"
  shows "s = take i s @ c # drop (i + 1) s" "c \<notin> set (drop (i + 1) s)"
proof -
  have c: "c \<in> set s" and i: "i = length s - 1 - length (takeWhile (\<lambda>x. x \<noteq> c) (rev s))"
    using assms by (auto simp: find_last_of_def split: if_splits)
  then obtain xs ys where s: "s = xs @ c # ys" "c \<notin> set ys" by (meson split_list_last)
  have "takeWhile (\<lambda>x. x \<noteq> c) (rev s) = rev ys" using s by (auto simp: takeWhile_append)
  then have "i = length xs" using i s by simp
  then show "s = take i s @ c # drop (i + 1) s" "c \<notin> set (drop (i + 1) s)" using s by auto
qed

lemma find_last_of_None: "find_last_of s c = None \<longleftrightarrow> c \<notin> set s"
  by (simp add: find_last_of_def)

text \<open>
  A file name is its stem, a dot and its extension, where the extension has no dot; a path is
  a directory part, the separator and the file name. The same function of the file class, in
  contrast, throws on a name without a dot.
\<close>

theorem path_parts:
  "(if CHR ''.'' \<in> set f then f = removeExtension f @ ''.'' @ getExtension f \<and> CHR ''.'' \<notin> set (getExtension f) \<and>
        file_removeExtension f = Inr (removeExtension f)
    else removeExtension f = f \<and> getExtension f = [] \<and>
        file_removeExtension f = (if f = [] then Inr [] else Inl OutOfRange)) \<and>
   (\<exists>dir. f = dir @ getFileName d f \<and> d \<notin> set (getFileName d f)) \<and>
   getFileName (CHR ''/'') f = file_getFileName f"
proof -
  have "\<exists>dir. f = dir @ getFileName d f \<and> d \<notin> set (getFileName d f)"
  proof (cases "find_last_of f d")
    case (Some i)
    with find_last_of_Some[OF Some] show ?thesis
      by (intro exI[of _ "take i f @ [d]"]) (simp add: getFileName_def)
  next
    case None
    then show ?thesis by (simp add: getFileName_def) (simp add: find_last_of_None)
  qed
  moreover have "getFileName (CHR ''/'') f = file_getFileName f"
    by (simp add: getFileName_def file_getFileName_def split: option.split)
  moreover have "if CHR ''.'' \<in> set f then f = removeExtension f @ ''.'' @ getExtension f \<and>
        CHR ''.'' \<notin> set (getExtension f) \<and> file_removeExtension f = Inr (removeExtension f)
    else removeExtension f = f \<and> getExtension f = [] \<and>
        file_removeExtension f = (if f = [] then Inr [] else Inl OutOfRange)"
  proof (cases "find_last_of f (CHR ''.'')")
    case None
    then show ?thesis
      by (simp add: removeExtension_def getExtension_def file_removeExtension_def) (simp add: find_last_of_None)
  next
    case (Some i)
    then have "CHR ''.'' \<in> set f" "f \<noteq> []" by (auto simp: find_last_of_def split: if_splits)
    with Some find_last_of_Some[OF Some] show ?thesis
      by (simp add: removeExtension_def getExtension_def file_removeExtension_def)
  qed
  ultimately show ?thesis by blast
qed

lemma to_u64_negative: "- 18446744073709551616 \<le> x \<Longrightarrow> x < 0 \<Longrightarrow> to_u64 x = x + 18446744073709551616"
proof -
  assume "- 18446744073709551616 \<le> x" "x < 0"
  then have "(x + 18446744073709551616) mod 18446744073709551616 = x + 18446744073709551616"
    by (intro mod_pos_pos_trivial) auto
  then show ?thesis by (simp add: to_u64_def)
qed

text \<open>
  \<open>endWith\<close> tests for a suffix when the pattern is no longer than the string, and throws out of
  range otherwise; \<open>startWith\<close> tests for a prefix in all cases.
\<close>

theorem affix_tests:
  assumes "length str < 2 ^ 62" "length pat < 2 ^ 62"
  shows "endWith str pat = (if length str < length pat then Inl OutOfRange else Inr (suffix pat str)) \<and>
    startWith str pat = prefix pat str"
proof (intro conjI)
  show "startWith str pat = prefix pat str"
    by (metis append_eq_conv_conj prefix_def startWith_def take_is_prefix)
  show "endWith str pat = (if length str < length pat then Inl OutOfRange else Inr (suffix pat str))"
  proof (cases "length str < length pat")
    case True
    have "int (length str) - int (length pat) + 2 ^ 64 > int (length str)"
      using assms by (simp add: )
    moreover have "to_u64 (int (length str) - int (length pat)) = int (length str) - int (length pat) + 2 ^ 64"
      using True assms to_u64_negative[of "int (length str) - int (length pat)"] by simp
    ultimately show ?thesis using True by (simp add: endWith_def Let_def)
  next
    case False
    then have "to_u64 (int (length str) - int (length pat)) = int (length str - length pat)"
      using assms unfolding to_u64_def by (simp add: of_nat_diff)
    moreover have "take (length pat) (drop (length str - length pat) str) = pat \<longleftrightarrow> suffix pat str"
      using False by (auto simp: suffix_def) (metis append_take_drop_id)
    ultimately show ?thesis using False by (simp add: endWith_def Let_def nat_diff_distrib' flip: of_nat_diff)
  qed
qed

theorem affix_tests_witness:
  "endWith ''ab'' ''abc'' = Inl OutOfRange \<and> endWith ''abc'' ''bc'' = Inr (suffix ''bc'' ''abc'')"
  using affix_tests[of "''ab''" "''abc''"] affix_tests[of "''abc''" "''bc''"] by simp

text \<open>
  The two classifications of files disagree: a \<^verbatim>\<open>.txt\<close> file is a text file for one and a
  normal file for the other, and an \<^verbatim>\<open>.hdr\<close> image is a texture for one only.
\<close>

theorem file_types_disagree:
  "isTextFile ''a.txt'' \<and> getFileType ''a.txt'' = Normal \<and> isTextureFile ''a.hdr'' \<and> getFileType ''a.hdr'' = Normal"
  by code_simp

fun files_below :: "entry \<Rightarrow> string list" where
  "files_below (Plain p) = [p]"
| "files_below (Dir p es) = concat (map files_below es)"

lemma list_entries_files:
  "list_entries predict es outs =
     outs @ filter (\<lambda>p. case predict of None \<Rightarrow> True | Some f \<Rightarrow> f p) (concat (map files_below es))"
  by (induction predict es outs rule: list_entries.induct) auto

text \<open>
  Listing a folder appends exactly the files below it that the predicate accepts, each once
  per occurrence and in the order of a depth-first walk, and keeps what the list held before.
\<close>

theorem listFolder_files:
  "listFolder predict (Some (Dir p es)) outs =
     outs @ filter (\<lambda>f. case predict of None \<Rightarrow> True | Some g \<Rightarrow> g f) (files_below (Dir p es))"
  by (simp add: listFolder_def list_entries_files)

end
