(* ===== verification/Terrain_Mesh.thy ===== *)
theory Terrain_Mesh
  imports Maple_Prelude
begin

text \<open>
  The terrain mesh with continuous level of detail, \<^verbatim>\<open>Terrain/QuadCollapseMesh.cpp\<close>, its
  vertices (\<^verbatim>\<open>Engine/Vertex.cpp\<close>) and the builder that makes it from a height map
  (\<^verbatim>\<open>Terrain/TerrainBuilder.cpp\<close>).

  A pointer to a vertex node is its index in \<^verbatim>\<open>vertNodePool\<close>; a pointer to a quad node is
  \<open>Node i\<close> or, for a leaf cast to \<^verbatim>\<open>QuadNode*\<close>, \<open>Leaf i\<close>. The pools are not resized after the
  first pointer into them is taken, so that the bounds of the pools are checked where
  pointers are made. Single-precision arithmetic and the vector operations of glm are a record
  of operations. A loop that does not end is \<open>None\<close>.
\<close>

section \<open>Vertices\<close>

record ('v, 'f) glm =
  vec_sub :: "'v \<Rightarrow> 'v \<Rightarrow> 'v"
  vec_add :: "'v \<Rightarrow> 'v \<Rightarrow> 'v"
  vec_scale :: "'v \<Rightarrow> 'f \<Rightarrow> 'v"
  vec_length :: "'v \<Rightarrow> 'f"
  vec_dot :: "'v \<Rightarrow> 'v \<Rightarrow> 'f"
  vec_normalize :: "'v \<Rightarrow> 'v"
  vec_of :: "'f list \<Rightarrow> 'v"
  vec_uninit :: "'v"
  f_less :: "'f \<Rightarrow> 'f \<Rightarrow> bool"
  f_add :: "'f \<Rightarrow> 'f \<Rightarrow> 'f"
  f_sub :: "'f \<Rightarrow> 'f \<Rightarrow> 'f"
  f_mul :: "'f \<Rightarrow> 'f \<Rightarrow> 'f"
  f_div :: "'f \<Rightarrow> 'f \<Rightarrow> 'f"
  f_neg :: "'f \<Rightarrow> 'f"
  f_sqrt :: "'f \<Rightarrow> 'f"
  f_dec :: "int \<Rightarrow> nat \<Rightarrow> 'f"

text \<open>
  \<open>f_dec m d\<close> is the float nearest to $m \cdot 10^{-d}$: a literal, or a converted integer. The
  field \<open>tangent\<close> is not assigned by the vertex operators.
\<close>

record 'v vertex =
  pos :: "'v"
  color :: "'v"
  texCoord :: "'v"
  normal :: "'v"
  tangent :: "'v"

definition vertex_sub :: "('v, 'f) glm \<Rightarrow> 'v vertex \<Rightarrow> 'v vertex \<Rightarrow> 'v vertex" where
  "vertex_sub g a b =
     \<lparr>pos = vec_sub g (pos a) (pos b), color = vec_sub g (color a) (color b),
      texCoord = vec_sub g (texCoord a) (texCoord b), normal = vec_sub g (normal a) (normal b),
      tangent = vec_uninit g\<rparr>"

definition vertex_add :: "('v, 'f) glm \<Rightarrow> 'v vertex \<Rightarrow> 'v vertex \<Rightarrow> 'v vertex" where
  "vertex_add g a b =
     \<lparr>pos = vec_add g (pos a) (pos b), color = vec_add g (color a) (color b),
      texCoord = vec_add g (texCoord a) (texCoord b), normal = vec_add g (normal a) (normal b),
      tangent = vec_uninit g\<rparr>"

definition vertex_scale :: "('v, 'f) glm \<Rightarrow> 'v vertex \<Rightarrow> 'f \<Rightarrow> 'v vertex" where
  "vertex_scale g a factor =
     \<lparr>pos = vec_scale g (pos a) factor, color = vec_scale g (color a) factor,
      texCoord = vec_scale g (texCoord a) factor, normal = vec_scale g (normal a) factor,
      tangent = vec_uninit g\<rparr>"

text \<open>The test \<^verbatim>\<open>glm::length((c - p).pos) < glm::length((c - q).pos)\<close>.\<close>

definition closer :: "('v, 'f) glm \<Rightarrow> 'v vertex \<Rightarrow> 'v vertex \<Rightarrow> 'v vertex \<Rightarrow> bool" where
  "closer g c p q = f_less g (vec_length g (pos (vertex_sub g c p))) (vec_length g (pos (vertex_sub g c q)))"

section \<open>Nodes\<close>

definition isPowerOf2 :: "nat \<Rightarrow> bool" where
  "isPowerOf2 n \<longleftrightarrow> n \<noteq> 0 \<and> and n (n - 1) = 0"

datatype triangulation_mode = TM_NW_SE | TM_SW_NE

datatype node_state = NS_ACTIVE | NS_BOUNDARY

datatype quad_ptr = Node nat | Leaf nat

text \<open>
  \<open>adjcentQuads\<close> holds the first \<^verbatim>\<open>adjcentQuadsCount\<close> entries of the array of that name.
\<close>

record ('v, 'f) vert_node =
  v_activeFrame :: nat
  v_state :: node_state
  v_level :: nat
  adjcentQuads :: "quad_ptr list"
  originalVertex :: "'v vertex"
  interpolationFactor :: "'f"
  interpolatedVertex :: "'v vertex"
  v_parent :: "nat option"
  firstChild :: "nat option"
  nextSibling :: "nat option"

text \<open>
  \<^verbatim>\<open>QuadLeaf\<close> is a prefix of \<^verbatim>\<open>QuadNode\<close>: in a leaf the last two fields do not exist and
  reading \<open>children\<close> through a leaf pointer is a fault.
\<close>

record quad_node =
  q_activeFrame :: nat
  q_state :: node_state
  q_level :: nat
  triangulationMode :: triangulation_mode
  q_parent :: "quad_ptr option"
  cornerVertNodes :: "nat list"
  centerVertNode :: "nat option"
  children :: "quad_ptr list"

text \<open>The value-initialised elements of the pools, as \<^verbatim>\<open>resize\<close> makes them.\<close>

definition new_quad :: quad_node where
  "new_quad = \<lparr>q_activeFrame = 0, q_state = NS_ACTIVE, q_level = 0, triangulationMode = TM_NW_SE,
     q_parent = None, cornerVertNodes = [], centerVertNode = None, children = []\<rparr>"

definition new_vertex :: "('v, 'f) glm \<Rightarrow> 'v vertex" where
  "new_vertex g = (let z = vec_of g [f_dec g 0 0, f_dec g 0 0, f_dec g 0 0] in
     \<lparr>pos = z, color = z, texCoord = z, normal = z, tangent = z\<rparr>)"

definition new_vert :: "('v, 'f) glm \<Rightarrow> ('v, 'f) vert_node" where
  "new_vert g = \<lparr>v_activeFrame = 0, v_state = NS_ACTIVE, v_level = 0, adjcentQuads = [],
     originalVertex = new_vertex g, interpolationFactor = f_dec g 0 0, interpolatedVertex = new_vertex g,
     v_parent = None, firstChild = None, nextSibling = None\<rparr>"

text \<open>
  Adding a child. The second half of the function repeats the first; it is not reached, because
  the first half ends with \<^verbatim>\<open>child->parent == this\<close>.
\<close>

definition upd_vert :: "nat \<Rightarrow> (('v, 'f) vert_node \<Rightarrow> ('v, 'f) vert_node) \<Rightarrow> ('v, 'f) vert_node list \<Rightarrow> ('v, 'f) vert_node list" where
  "upd_vert i f vs = vs[i := f (vs ! i)]"

definition addChild_half :: "nat \<Rightarrow> nat \<Rightarrow> ('v, 'f) vert_node list \<Rightarrow> ('v, 'f) vert_node list \<times> bool" where
  "addChild_half this child vs =
     (if v_parent (vs ! child) = Some this then (vs, True)
      else if v_level (vs ! child) \<noteq> v_level (vs ! this) + 1 then (vs, True)
      else
        let vs = upd_vert child (\<lambda>n. n\<lparr>v_parent := Some this\<rparr>) vs
        in if nextSibling (vs ! child) \<noteq> None then (vs, True)
           else
             let vs = (if firstChild (vs ! this) \<noteq> None
                       then upd_vert child (\<lambda>n. n\<lparr>nextSibling := firstChild (vs ! this)\<rparr>) vs
                       else vs)
             in (upd_vert this (\<lambda>n. n\<lparr>firstChild := Some child\<rparr>) vs, False))"

definition addChild :: "nat \<Rightarrow> nat \<Rightarrow> ('v, 'f) vert_node list \<Rightarrow> ('v, 'f) vert_node list" where
  "addChild this child vs =
     (case addChild_half this child vs of
        (vs, returned) \<Rightarrow> if returned then vs else fst (addChild_half this child vs))"

definition addAdjcentQuad :: "nat \<Rightarrow> quad_ptr \<Rightarrow> ('v, 'f) vert_node list \<Rightarrow> ('v, 'f) vert_node list run" where
  "addAdjcentQuad this quadNode vs =
     (if quadNode \<in> set (adjcentQuads (vs ! this)) then ret vs
      else if length (adjcentQuads (vs ! this)) < 4
      then ret (upd_vert this (\<lambda>n. n\<lparr>adjcentQuads := adjcentQuads n @ [quadNode]\<rparr>) vs)
      else fail BadIndex)"

partial_function (option) child_loop :: "('v, 'f) vert_node list \<Rightarrow> nat \<Rightarrow> nat option \<Rightarrow> bool option" where
  "child_loop vs testNode child =
     (case child of
        None \<Rightarrow> Some False
      | Some c \<Rightarrow> if c = testNode then Some True else child_loop vs testNode (nextSibling (vs ! c)))"

declare child_loop.simps [code]

definition hasChild :: "('v, 'f) vert_node list \<Rightarrow> nat \<Rightarrow> nat \<Rightarrow> bool option" where
  "hasChild vs this testNode = child_loop vs testNode (firstChild (vs ! this))"

definition isDiagonalConnected :: "quad_node \<Rightarrow> nat \<Rightarrow> nat \<Rightarrow> bool" where
  "isDiagonalConnected q vn1 vn2 =
     (if triangulationMode q = TM_NW_SE
      then (vn1 = cornerVertNodes q ! 1 \<and> vn2 = cornerVertNodes q ! 3) \<or>
           (vn1 = cornerVertNodes q ! 3 \<and> vn2 = cornerVertNodes q ! 1)
      else (vn1 = cornerVertNodes q ! 0 \<and> vn2 = cornerVertNodes q ! 2) \<or>
           (vn1 = cornerVertNodes q ! 2 \<and> vn2 = cornerVertNodes q ! 0))"

section \<open>The mesh\<close>

text \<open>A GPU buffer: its size in bytes and the elements uploaded last.\<close>

record 'a gpu_buffer =
  buf_size :: nat
  buf_data :: "'a list"

definition setData :: "nat \<Rightarrow> 'a list \<Rightarrow> 'a gpu_buffer \<Rightarrow> 'a gpu_buffer" where
  "setData bytes data b = \<lparr>buf_size = bytes mod 2 ^ 32, buf_data = data\<rparr>"

definition MAX_LENGTH :: nat where
  "MAX_LENGTH = 4097"

definition MAX_QUAD_LEVEL_COUNT :: nat where
  "MAX_QUAD_LEVEL_COUNT = 13"

definition sizeof_Vertex :: nat where
  "sizeof_Vertex = 60"

record ('v, 'f) mesh =
  lod :: bool
  indices :: "nat list"
  lodIndices :: "nat list"
  vertices :: "'v vertex list"
  activeVertices :: "'v vertex list"
  maxLevelVerticesLength :: int
  maxLevel :: nat
  vertNodesActiveDistance :: "'f list"
  quadNodesCullRadius :: "'f list"
  vertNodesLevelOffset :: "nat list"
  vertNodePool :: "('v, 'f) vert_node list"
  quadNodePool :: "quad_node list"
  quadLeafPool :: "quad_node list"
  quadNodePoolAllocated :: nat
  quadLeafPoolAllocated :: nat
  rootQuadNode :: "quad_ptr option"
  rootVertNodes :: "nat list"
  updateFrame :: nat
  mesh_size :: nat
  indexBuffer :: "nat gpu_buffer"
  vertexBuffer :: "'v vertex gpu_buffer"

definition QuadCollapseMesh :: "('v, 'f) glm \<Rightarrow> ('v, 'f) mesh" where
  "QuadCollapseMesh g =
     \<lparr>lod = False, indices = [], lodIndices = [], vertices = [], activeVertices = [],
      maxLevelVerticesLength = 0, maxLevel = 0, vertNodesActiveDistance = replicate 13 (f_dec g 0 0),
      quadNodesCullRadius = replicate 13 (f_dec g 0 0), vertNodesLevelOffset = replicate 13 0,
      vertNodePool = [], quadNodePool = [], quadLeafPool = [], quadNodePoolAllocated = 0,
      quadLeafPoolAllocated = 0, rootQuadNode = None, rootVertNodes = [], updateFrame = 0, mesh_size = 0,
      indexBuffer = \<lparr>buf_size = 0, buf_data = []\<rparr>, vertexBuffer = \<lparr>buf_size = 0, buf_data = []\<rparr>\<rparr>"

definition setLod :: "bool \<Rightarrow> ('v, 'f) mesh \<Rightarrow> ('v, 'f) mesh" where
  "setLod b m = m\<lparr>lod := b\<rparr>"

definition getMaxLevelLength :: "('v, 'f) mesh \<Rightarrow> int" where
  "getMaxLevelLength m = maxLevelVerticesLength m"

text \<open>Access through a quad pointer; \<open>quad_at\<close> reads the fields a leaf and a node share.\<close>

definition quad_at :: "('v, 'f) mesh \<Rightarrow> quad_ptr \<Rightarrow> quad_node" where
  "quad_at m q = (case q of Node i \<Rightarrow> quadNodePool m ! i | Leaf i \<Rightarrow> quadLeafPool m ! i)"

definition upd_quad :: "quad_ptr \<Rightarrow> (quad_node \<Rightarrow> quad_node) \<Rightarrow> ('v, 'f) mesh \<Rightarrow> ('v, 'f) mesh" where
  "upd_quad q f m =
     (case q of
        Node i \<Rightarrow> m\<lparr>quadNodePool := (quadNodePool m)[i := f (quadNodePool m ! i)]\<rparr>
      | Leaf i \<Rightarrow> m\<lparr>quadLeafPool := (quadLeafPool m)[i := f (quadLeafPool m ! i)]\<rparr>)"

definition children_at :: "('v, 'f) mesh \<Rightarrow> quad_ptr \<Rightarrow> quad_ptr list run" where
  "children_at m q = (case q of Node i \<Rightarrow> ret (children (quadNodePool m ! i)) | Leaf i \<Rightarrow> fail BadIndex)"

definition getVertNode :: "nat \<Rightarrow> nat \<Rightarrow> nat \<Rightarrow> ('v, 'f) mesh \<Rightarrow> nat run" where
  "getVertNode level x y m =
     (if level < MAX_QUAD_LEVEL_COUNT \<and> level \<le> maxLevel m then
        let off = vertNodesLevelOffset m ! level;
            shift = maxLevel m - level;
            rowStep = 2 ^ level + 1;
            i = off + (y div 2 ^ shift) * rowStep + x div 2 ^ shift
        in if off < length (vertNodePool m) \<and> i < length (vertNodePool m) then ret i else fail BadIndex
      else fail BadIndex)"

definition allocQuadNode :: "('v, 'f) mesh \<Rightarrow> nat option \<times> ('v, 'f) mesh" where
  "allocQuadNode m =
     (if quadNodePoolAllocated m \<ge> length (quadNodePool m) then (None, m)
      else (Some (quadNodePoolAllocated m), m\<lparr>quadNodePoolAllocated := quadNodePoolAllocated m + 1\<rparr>))"

definition allocQuadLeaf :: "('v, 'f) mesh \<Rightarrow> nat option \<times> ('v, 'f) mesh" where
  "allocQuadLeaf m =
     (if quadLeafPoolAllocated m \<ge> length (quadLeafPool m) then (None, m)
      else (Some (quadLeafPoolAllocated m), m\<lparr>quadLeafPoolAllocated := quadLeafPoolAllocated m + 1\<rparr>))"

section \<open>Building: index buffer and pools\<close>

text \<open>
  The triangles of the full-resolution mesh. \<open>count\<close> is the number of indices written; the six
  writes of a quad are one step.
\<close>

definition quad_indices :: "nat \<Rightarrow> nat \<times> nat \<Rightarrow> nat list" where
  "quad_indices width xy = (case xy of (x, y) \<Rightarrow>
     let a = (x * width + y) mod 2 ^ 32;
         b = ((x + 1) * width + y) mod 2 ^ 32;
         c = ((x + 1) * width + (y + 1)) mod 2 ^ 32;
         d = (x * width + (y + 1)) mod 2 ^ 32
     in [c, b, a, a, d, c])"

definition write_quad :: "nat \<Rightarrow> nat \<Rightarrow> nat \<times> nat \<Rightarrow> nat \<times> nat list \<Rightarrow> (nat \<times> nat list) run" where
  "write_quad width numIndices xy st = (case st of (count, ind) \<Rightarrow>
     if int count < to_u32 (int numIndices - 6) then
       if count + 6 \<le> length ind
       then ret (count + 6, take count ind @ quad_indices width xy @ drop (count + 6) ind)
       else fail BadIndex
     else ret (count, ind))"

definition cells :: "nat \<Rightarrow> nat \<Rightarrow> (nat \<times> nat) list" where
  "cells nx ny = concat (map (\<lambda>x. map (Pair x) [0..<ny]) [0..<nx])"

definition resize :: "nat \<Rightarrow> 'a \<Rightarrow> 'a list \<Rightarrow> 'a list" where
  "resize n d xs = take n xs @ replicate (n - length xs) d"

definition buildIndices :: "nat \<Rightarrow> nat \<Rightarrow> ('v, 'f) mesh \<Rightarrow> ('v, 'f) mesh run" where
  "buildIndices width height m =
     (let nx = nat (to_u32 (int width - 1));
          ny = nat (to_u32 (int height - 1));
          numIndices = nat (to_u32 (int nx * int ny * 6));
          ind = resize numIndices 0 (indices m)
      in rbind (rfold (write_quad width numIndices) (cells nx ny) (0, ind)) (\<lambda>(_, ind).
         ret (m\<lparr>indices := ind, mesh_size := numIndices,
                indexBuffer := \<lparr>buf_size = (4 * length ind) mod 2 ^ 32, buf_data = ind\<rparr>,
                vertexBuffer := \<lparr>buf_size = 0, buf_data = []\<rparr>\<rparr>)))"

text \<open>The number of levels: one for each bit of \<^verbatim>\<open>width - 1\<close>.\<close>

fun level_count :: "nat \<Rightarrow> nat" where
  "level_count temp = (if temp = 0 then 0 else Suc (level_count (temp div 2)))"

declare level_count.simps [simp del]

text \<open>One round of the loop that sizes the pools.\<close>

record pool_sizes =
  quadCountPerEdge :: nat
  vertCountPerEdge :: nat
  quadLeafPoolSize :: nat
  quadNodePoolSize :: nat
  vertNodePoolSize :: nat

definition cull_radius :: "('v, 'f) glm \<Rightarrow> nat \<Rightarrow> nat \<Rightarrow> 'f" where
  "cull_radius g width i =
     (let quadSize = f_dec g (int ((width - 1) div 2 ^ i)) 0;
          quadHalfSize = f_mul g quadSize (f_dec g 5 1)
      in f_sqrt g (f_mul g (f_mul g quadHalfSize quadSize) (f_dec g 2 0)))"

definition size_level ::
  "('v, 'f) glm \<Rightarrow> nat \<Rightarrow> nat \<Rightarrow> pool_sizes \<times> ('v, 'f) mesh \<Rightarrow> pool_sizes \<times> ('v, 'f) mesh" where
  "size_level g levelCount i st = (case st of (s, m) \<Rightarrow>
     let radius = cull_radius g (nat (maxLevelVerticesLength m)) i;
         quads = quadCountPerEdge s * quadCountPerEdge s;
         verts = vertCountPerEdge s * vertCountPerEdge s
     in (s\<lparr>quadLeafPoolSize := (if i = levelCount - 1 then quads else quadLeafPoolSize s),
           quadNodePoolSize := (if i = levelCount - 1 then quadNodePoolSize s else quadNodePoolSize s + quads),
           vertNodePoolSize := vertNodePoolSize s + verts,
           quadCountPerEdge := 2 * quadCountPerEdge s,
           vertCountPerEdge := vertCountPerEdge s + vertCountPerEdge s - 1\<rparr>,
         m\<lparr>quadNodesCullRadius := (quadNodesCullRadius m)[i := radius],
           vertNodesActiveDistance := (vertNodesActiveDistance m)[i := f_mul g radius (f_dec g 16 0)],
           vertNodesLevelOffset := (vertNodesLevelOffset m)[i := vertNodePoolSize s]\<rparr>))"

definition sizePools :: "('v, 'f) glm \<Rightarrow> nat \<Rightarrow> ('v, 'f) mesh \<Rightarrow> ('v, 'f) mesh" where
  "sizePools g levelCount m =
     (case fold (size_level g levelCount) [0..<levelCount]
        (\<lparr>quadCountPerEdge = 1, vertCountPerEdge = 2, quadLeafPoolSize = 0, quadNodePoolSize = 0,
          vertNodePoolSize = 0\<rparr>, m) of
      (s, m) \<Rightarrow>
        m\<lparr>vertNodePool := resize (vertNodePoolSize s) (new_vert g) (vertNodePool m),
          quadNodePool := resize (quadNodePoolSize s) new_quad (quadNodePool m),
          quadLeafPool := resize (quadLeafPoolSize s) new_quad (quadLeafPool m)\<rparr>)"

section \<open>Building: vertex nodes\<close>

definition init_vert :: "('v, 'f) glm \<Rightarrow> nat \<Rightarrow> nat \<times> nat \<Rightarrow> ('v, 'f) mesh \<Rightarrow> ('v, 'f) mesh run" where
  "init_vert g level yx m = (case yx of (y, x) \<Rightarrow>
     rbind (getVertNode level x y m) (\<lambda>i.
       if y * nat (maxLevelVerticesLength m) + x < length (vertices m) then
         let v = vertices m ! (y * nat (maxLevelVerticesLength m) + x)
         in ret (m\<lparr>vertNodePool := (vertNodePool m)[i :=
              \<lparr>v_activeFrame = 0, v_state = NS_ACTIVE, v_level = level mod 16, adjcentQuads = [],
               originalVertex = v, interpolationFactor = f_dec g 1 0, interpolatedVertex = v,
               v_parent = None, firstChild = None, nextSibling = None\<rparr>]\<rparr>)
       else fail BadIndex))"

text \<open>The values of \<^verbatim>\<open>for (y = 0; y < length; y += step)\<close>.\<close>

definition strides :: "nat \<Rightarrow> nat \<Rightarrow> nat list" where
  "strides len step = map (\<lambda>i. i * step) [0..<(len + step - 1) div step]"

definition init_level :: "('v, 'f) glm \<Rightarrow> nat \<Rightarrow> nat \<Rightarrow> ('v, 'f) mesh \<Rightarrow> ('v, 'f) mesh run" where
  "init_level g level step m =
     (let s = strides (nat (maxLevelVerticesLength m)) step
      in rfold (init_vert g level) (concat (map (\<lambda>y. map (Pair y) s) s)) m)"

function vert_levels :: "('v, 'f) glm \<Rightarrow> nat \<Rightarrow> nat \<Rightarrow> ('v, 'f) mesh \<Rightarrow> ('v, 'f) mesh run" where
  "vert_levels g level step m =
     (if step > 0 then rbind (init_level g level step m) (vert_levels g (level + 1) (step div 2)) else ret m)"
  by pat_completeness auto
termination by (relation "measure (\<lambda>(_, _, step, _). step)") auto

declare vert_levels.simps [simp del]

definition buildVertNodes :: "('v, 'f) glm \<Rightarrow> ('v, 'f) mesh \<Rightarrow> ('v, 'f) mesh run" where
  "buildVertNodes g m =
     (let n = nat (maxLevelVerticesLength m) - 1
      in rbind (vert_levels g 0 n m) (\<lambda>m.
         rbind (getVertNode 0 0 0 m) (\<lambda>r0. rbind (getVertNode 0 n 0 m) (\<lambda>r1.
         rbind (getVertNode 0 n n m) (\<lambda>r2. rbind (getVertNode 0 0 n m) (\<lambda>r3.
         ret (m\<lparr>rootVertNodes := [r0, r1, r2, r3]\<rparr>)))))))"

section \<open>Building: the collapse of four quads into one\<close>

text \<open>The thirteen vertex nodes of a collapse, with the names of the code.\<close>

record collapse =
  childBt :: nat
  childRt :: nat
  childTp :: nat
  childLf :: nat
  childCt :: nat
  childSw :: nat
  childSe :: nat
  childNe :: nat
  childNw :: nat
  parentSw :: nat
  parentSe :: nat
  parentNe :: nat
  parentNw :: nat

definition collapse_ptrs :: "quad_node \<Rightarrow> (nat \<Rightarrow> quad_node) \<Rightarrow> collapse" where
  "collapse_ptrs q ch =
     \<lparr>childBt = cornerVertNodes (ch 0) ! 1, childRt = cornerVertNodes (ch 1) ! 2,
      childTp = cornerVertNodes (ch 2) ! 3, childLf = cornerVertNodes (ch 3) ! 0,
      childCt = cornerVertNodes (ch 0) ! 2, childSw = cornerVertNodes (ch 0) ! 0,
      childSe = cornerVertNodes (ch 1) ! 1, childNe = cornerVertNodes (ch 2) ! 2,
      childNw = cornerVertNodes (ch 3) ! 3, parentSw = cornerVertNodes q ! 0,
      parentSe = cornerVertNodes q ! 1, parentNe = cornerVertNodes q ! 2, parentNw = cornerVertNodes q ! 3\<rparr>"

definition collapse_corners :: "collapse \<Rightarrow> ('v, 'f) vert_node list \<Rightarrow> ('v, 'f) vert_node list" where
  "collapse_corners k vs =
     addChild (parentNw k) (childNw k) (addChild (parentNe k) (childNe k)
       (addChild (parentSe k) (childSe k) (addChild (parentSw k) (childSw k) vs)))"

definition nearer_parent :: "('v, 'f) glm \<Rightarrow> nat \<Rightarrow> nat \<Rightarrow> nat \<Rightarrow> ('v, 'f) vert_node list \<Rightarrow> nat" where
  "nearer_parent g c p q vs =
     (if closer g (originalVertex (vs ! c)) (originalVertex (vs ! p)) (originalVertex (vs ! q)) then p else q)"

definition collapse_edge :: "('v, 'f) glm \<Rightarrow> nat \<Rightarrow> nat \<Rightarrow> nat \<Rightarrow> ('v, 'f) vert_node list \<Rightarrow> ('v, 'f) vert_node list" where
  "collapse_edge g c p q vs =
     (if v_parent (vs ! c) = None then addChild (nearer_parent g c p q vs) c vs else vs)"

definition collapse_edges :: "('v, 'f) glm \<Rightarrow> collapse \<Rightarrow> ('v, 'f) vert_node list \<Rightarrow> ('v, 'f) vert_node list" where
  "collapse_edges g k vs =
     collapse_edge g (childLf k) (parentNw k) (parentSw k)
       (collapse_edge g (childTp k) (parentNe k) (parentNw k)
         (collapse_edge g (childRt k) (parentNe k) (parentSe k)
           (collapse_edge g (childBt k) (parentSe k) (parentSw k) vs)))"

text \<open>The nearest of the four parents, the first of several.\<close>

definition nearest_parent :: "('v, 'f) glm \<Rightarrow> nat \<Rightarrow> nat list \<Rightarrow> ('v, 'f) vert_node list \<Rightarrow> nat" where
  "nearest_parent g c parents vs =
     (let dist = map (\<lambda>p. vec_length g (pos (vertex_sub g (originalVertex (vs ! c)) (originalVertex (vs ! p))))) parents;
          (minDist, minParentIdx) =
            fold (\<lambda>i (minDist, minParentIdx).
                    if f_less g (dist ! i) minDist then (dist ! i, i) else (minDist, minParentIdx))
              [1..<4] (dist ! 0, 0)
      in parents ! minParentIdx)"

text \<open>The parent of the centre vertex, as the cascade of tests chooses it.\<close>

definition center_parent ::
  "('v, 'f) glm \<Rightarrow> collapse \<Rightarrow> (nat \<Rightarrow> quad_node) \<Rightarrow> ('v, 'f) vert_node list \<Rightarrow> nat option" where
  "center_parent g k ch vs =
     Option.bind (and_also (hasChild vs (parentSw k) (childLf k)) (and_also (hasChild vs (parentSw k) (childBt k))
        (and_also (hasChild vs (parentNe k) (childRt k)) (hasChild vs (parentNe k) (childTp k))))) (\<lambda>t1.
     if t1 then Some (nearer_parent g (childCt k) (parentSw k) (parentNe k) vs)
     else Option.bind (and_also (hasChild vs (parentSe k) (childBt k)) (and_also (hasChild vs (parentSe k) (childRt k))
        (and_also (hasChild vs (parentNw k) (childTp k)) (hasChild vs (parentNw k) (childLf k))))) (\<lambda>t2.
     if t2 then Some (nearer_parent g (childCt k) (parentSe k) (parentNw k) vs)
     else Option.bind (and_also (hasChild vs (parentSw k) (childLf k)) (hasChild vs (parentSw k) (childBt k))) (\<lambda>t3.
     if t3 then Some (parentSw k)
     else Option.bind (and_also (hasChild vs (parentSe k) (childBt k)) (hasChild vs (parentSe k) (childRt k))) (\<lambda>t4.
     if t4 then Some (parentSe k)
     else Option.bind (and_also (hasChild vs (parentNe k) (childRt k)) (hasChild vs (parentNe k) (childTp k))) (\<lambda>t5.
     if t5 then Some (parentNe k)
     else Option.bind (and_also (hasChild vs (parentNw k) (childTp k)) (hasChild vs (parentNw k) (childLf k))) (\<lambda>t6.
     if t6 then Some (parentNw k)
     else if isDiagonalConnected (ch 0) (childCt k) (childSw k) then Some (parentSw k)
     else if isDiagonalConnected (ch 1) (childCt k) (childSe k) then Some (parentSe k)
     else if isDiagonalConnected (ch 2) (childCt k) (childNe k) then Some (parentNe k)
     else if isDiagonalConnected (ch 3) (childCt k) (childNw k) then Some (parentNw k)
     else Some (nearest_parent g (childCt k) [parentSw k, parentSe k, parentNe k, parentNw k] vs)))))))"

text \<open>The triangle layout of the collapsed quad.\<close>

definition layout_mode :: "collapse \<Rightarrow> (nat \<Rightarrow> quad_node) \<Rightarrow> ('v, 'f) vert_node list \<Rightarrow> triangulation_mode option" where
  "layout_mode k ch vs =
     (if v_parent (vs ! childCt k) = Some (parentSw k) then
        map_option (\<lambda>t. if t \<or> isDiagonalConnected (ch 2) (childCt k) (childNe k) then TM_SW_NE else TM_NW_SE)
          (or_else (hasChild vs (parentNe k) (childTp k)) (hasChild vs (parentNe k) (childRt k)))
      else if v_parent (vs ! childCt k) = Some (parentSe k) then
        map_option (\<lambda>t. if t \<or> isDiagonalConnected (ch 3) (childCt k) (childNw k) then TM_NW_SE else TM_SW_NE)
          (or_else (hasChild vs (parentNw k) (childTp k)) (hasChild vs (parentNw k) (childLf k)))
      else if v_parent (vs ! childCt k) = Some (parentNe k) then
        map_option (\<lambda>t. if t \<or> isDiagonalConnected (ch 0) (childCt k) (childSw k) then TM_SW_NE else TM_NW_SE)
          (or_else (hasChild vs (parentSw k) (childBt k)) (hasChild vs (parentSw k) (childLf k)))
      else
        map_option (\<lambda>t. if t \<or> isDiagonalConnected (ch 1) (childCt k) (childSe k) then TM_NW_SE else TM_SW_NE)
          (or_else (hasChild vs (parentSe k) (childBt k)) (hasChild vs (parentSe k) (childRt k))))"

definition collapseQuad :: "('v, 'f) glm \<Rightarrow> nat \<Rightarrow> ('v, 'f) mesh \<Rightarrow> ('v, 'f) mesh option" where
  "collapseQuad g i m =
     (let q = quadNodePool m ! i;
          ch = (\<lambda>j. quad_at m (children q ! j));
          k = collapse_ptrs q ch;
          vs = collapse_corners k (vertNodePool m)
      in if v_parent (vs ! childCt k) \<noteq> None then Some (m\<lparr>vertNodePool := vs\<rparr>)
         else
           let vs = collapse_edges g k vs
           in Option.bind (center_parent g k ch vs) (\<lambda>p.
                let vs = addChild p (childCt k) vs
                in Option.bind (layout_mode k ch vs) (\<lambda>mode.
                     Some (upd_quad (Node i) (\<lambda>n. n\<lparr>triangulationMode := mode\<rparr>) (m\<lparr>vertNodePool := vs\<rparr>)))))"

section \<open>Building: the quad tree\<close>

definition corner_nodes :: "nat \<Rightarrow> nat \<Rightarrow> nat \<Rightarrow> nat \<Rightarrow> ('v, 'f) mesh \<Rightarrow> nat list run" where
  "corner_nodes level x0 y0 step m =
     rbind (getVertNode level x0 y0 m) (\<lambda>c0. rbind (getVertNode level (x0 + step) y0 m) (\<lambda>c1.
     rbind (getVertNode level (x0 + step) (y0 + step) m) (\<lambda>c2. rbind (getVertNode level x0 (y0 + step) m) (\<lambda>c3.
     ret [c0, c1, c2, c3]))))"

definition add_to_corner :: "quad_ptr \<Rightarrow> (nat \<Rightarrow> bool) \<Rightarrow> nat \<Rightarrow> ('v, 'f) mesh \<Rightarrow> ('v, 'f) mesh run" where
  "add_to_corner q guard c m =
     (if guard (v_level (vertNodePool m ! c))
      then rbind (addAdjcentQuad c q (vertNodePool m)) (\<lambda>vs. ret (m\<lparr>vertNodePool := vs\<rparr>))
      else ret m)"

partial_function (option) recursiveBuildQuadNodes ::
  "('v, 'f) glm \<Rightarrow> nat \<Rightarrow> nat \<Rightarrow> nat \<Rightarrow> nat \<Rightarrow> ('v, 'f) mesh \<Rightarrow> (fault + quad_ptr \<times> ('v, 'f) mesh) option" where
  "recursiveBuildQuadNodes g level x0 y0 step m =
     (if step = 1 then
        (case allocQuadLeaf m of
           (None, _) \<Rightarrow> fail NullDeref
         | (Some i, m) \<Rightarrow>
             rbind (corner_nodes level x0 y0 step m) (\<lambda>cs.
             let m = upd_quad (Leaf i) (\<lambda>n. n\<lparr>q_activeFrame := 0, q_state := NS_ACTIVE, q_level := level mod 16,
                       triangulationMode := TM_NW_SE, q_parent := None, cornerVertNodes := cs\<rparr>) m
             in rbind (rfold (add_to_corner (Leaf i) (\<lambda>l. l = level)) cs m) (\<lambda>m. ret (Leaf i, m))))
      else
        (case allocQuadNode m of
           (None, _) \<Rightarrow> fail NullDeref
         | (Some i, m) \<Rightarrow>
             let half = step div 2 in
             rbind (getVertNode (level + 1) (x0 + half) (y0 + half) m) (\<lambda>center.
             rbind (corner_nodes level x0 y0 step m) (\<lambda>cs.
             let m = upd_quad (Node i) (\<lambda>n. n\<lparr>q_activeFrame := 0, q_state := NS_ACTIVE, q_level := level mod 16,
                       q_parent := None, cornerVertNodes := cs, centerVertNode := Some center\<rparr>) m
             in rbind (rfold (add_to_corner (Node i) (\<lambda>_. True)) cs m) (\<lambda>m.
             rbind (recursiveBuildQuadNodes g (level + 1) x0 y0 half m) (\<lambda>(q0, m).
             rbind (recursiveBuildQuadNodes g (level + 1) (x0 + half) y0 half m) (\<lambda>(q1, m).
             rbind (recursiveBuildQuadNodes g (level + 1) (x0 + half) (y0 + half) half m) (\<lambda>(q2, m).
             rbind (recursiveBuildQuadNodes g (level + 1) x0 (y0 + half) half m) (\<lambda>(q3, m).
             let m = upd_quad (Node i) (\<lambda>n. n\<lparr>children := [q0, q1, q2, q3]\<rparr>) m;
                 m = fold (\<lambda>q. upd_quad q (\<lambda>n. n\<lparr>q_parent := Some (Node i)\<rparr>)) [q0, q1, q2, q3] m
             in Option.bind (collapseQuad g i m) (\<lambda>m. ret (Node i, m)))))))))))"

text \<open>
  The whole of \<^verbatim>\<open>build\<close>. A refused size leaves the index buffer built and returns false; the
  counters of the quad pools are not reset.
\<close>

definition build :: "('v, 'f) glm \<Rightarrow> 'v vertex list \<Rightarrow> nat \<Rightarrow> nat \<Rightarrow> ('v, 'f) mesh \<Rightarrow> (bool \<times> ('v, 'f) mesh) run" where
  "build g vs width height m =
     rbind (buildIndices width height
              (m\<lparr>vertices := vs, lodIndices := lodIndices m @ [0..<length vs]\<rparr>)) (\<lambda>m.
     let len = to_i32 (int width)
     in if len < 2 then ret (False, m\<lparr>maxLevelVerticesLength := len\<rparr>)
        else if int MAX_LENGTH < len then ret (False, m\<lparr>maxLevelVerticesLength := len\<rparr>)
        else
          let levelCount = level_count (nat len - 1);
              m = m\<lparr>maxLevelVerticesLength := len\<rparr>
          in if MAX_QUAD_LEVEL_COUNT < levelCount then ret (False, m)
             else
               rbind (buildVertNodes g (sizePools g levelCount (m\<lparr>maxLevel := levelCount - 1\<rparr>))) (\<lambda>m.
               rbind (recursiveBuildQuadNodes g 0 0 0 (nat len - 1) m) (\<lambda>(q, m).
               ret (True, m\<lparr>rootQuadNode := Some q\<rparr>))))"

section \<open>A frame\<close>

text \<open>
  The frame stamps of the nodes are bit fields of 24 and 26 bits; \<^verbatim>\<open>updateFrame\<close> has 32.
\<close>

definition stamped_vert :: "('v, 'f) mesh \<Rightarrow> nat \<Rightarrow> bool" where
  "stamped_vert m v \<longleftrightarrow> v_activeFrame (vertNodePool m ! v) = updateFrame m"

definition stamped_quad :: "('v, 'f) mesh \<Rightarrow> quad_ptr \<Rightarrow> bool" where
  "stamped_quad m q \<longleftrightarrow> q_activeFrame (quad_at m q) = updateFrame m"

definition stamp_vert :: "nat \<Rightarrow> node_state \<Rightarrow> ('v, 'f) mesh \<Rightarrow> ('v, 'f) mesh" where
  "stamp_vert v s m = m\<lparr>vertNodePool :=
     upd_vert v (\<lambda>n. n\<lparr>v_activeFrame := updateFrame m mod 2 ^ 24, v_state := s\<rparr>) (vertNodePool m)\<rparr>"

definition stamp_quad :: "quad_ptr \<Rightarrow> node_state \<Rightarrow> ('v, 'f) mesh \<Rightarrow> ('v, 'f) mesh" where
  "stamp_quad q s m = upd_quad q (\<lambda>n. n\<lparr>q_activeFrame := updateFrame m mod 2 ^ 26, q_state := s\<rparr>) m"

partial_function (option) parents_loop ::
  "quad_ptr option \<Rightarrow> ('v, 'f) mesh \<Rightarrow> ('v, 'f) mesh option" where
  "parents_loop p m =
     (case p of
        None \<Rightarrow> Some m
      | Some q \<Rightarrow>
          if stamped_quad m q \<and> q_state (quad_at m q) = NS_ACTIVE then Some m
          else
            let m = stamp_quad q NS_ACTIVE m
            in parents_loop (q_parent (quad_at m q)) m)"

declare parents_loop.simps [code]

definition quadNodeSetBoundary :: "quad_ptr \<Rightarrow> ('v, 'f) mesh \<Rightarrow> ('v, 'f) mesh option" where
  "quadNodeSetBoundary q m =
     (if stamped_quad m q \<and> q_state (quad_at m q) = NS_ACTIVE then Some m
      else
        let m = stamp_quad q NS_BOUNDARY m
        in parents_loop (q_parent (quad_at m q)) m)"

definition boundary_quads :: "nat \<Rightarrow> ('v, 'f) mesh \<Rightarrow> ('v, 'f) mesh option" where
  "boundary_quads v m = ofold quadNodeSetBoundary (adjcentQuads (vertNodePool m ! v)) m"

definition eye_delta :: "('v, 'f) glm \<Rightarrow> 'v vertex \<Rightarrow> 'v" where
  "eye_delta g v = vec_sub g (vec_of g [f_dec g 1 0, f_dec g 1 0, f_dec g 1 0]) (pos v)"

definition set_interpolated :: "nat \<Rightarrow> 'v vertex \<Rightarrow> ('v, 'f) mesh \<Rightarrow> ('v, 'f) mesh" where
  "set_interpolated v x m =
     m\<lparr>vertNodePool := upd_vert v (\<lambda>n. n\<lparr>interpolatedVertex := x\<rparr>) (vertNodePool m)\<rparr>"

text \<open>The position between a vertex and its parent.\<close>

definition interpolate :: "('v, 'f) glm \<Rightarrow> 'f list \<Rightarrow> nat \<Rightarrow> 'v vertex \<Rightarrow> 'v vertex \<Rightarrow> 'v vertex" where
  "interpolate g active level c p =
     (let dist = vec_length g (eye_delta g c);
          o_minus_c = vertex_sub g c p;
          l = vec_normalize g (eye_delta g c);
          l_dot_o_minus_c = vec_dot g l (pos o_minus_c);
          r = active ! (level - 1);
          sqrLength = vec_dot g (pos o_minus_c) (pos o_minus_c);
          temp = f_add g (f_sub g (f_mul g l_dot_o_minus_c l_dot_o_minus_c) sqrLength) (f_mul g r r);
          d = f_add g (f_neg g l_dot_o_minus_c) (f_sqrt g temp);
          t = f_div g (f_sub g d dist) (f_sub g d (active ! level))
      in vertex_add g p (vertex_scale g (vertex_sub g c p) t))"

datatype visit = Visit nat | Siblings "nat option"

text \<open>
  \<open>Visit v\<close> is \<^verbatim>\<open>recursiveUpdateVertNode\<close> on a vertex, \<open>Siblings c\<close> the rest of its loop over the
  children, from child \<open>c\<close> on.
\<close>

partial_function (option) visit_verts :: "('v, 'f) glm \<Rightarrow> visit \<Rightarrow> ('v, 'f) mesh \<Rightarrow> ('v, 'f) mesh option" where
  "visit_verts g t m =
     (case t of
        Siblings None \<Rightarrow> Some m
      | Siblings (Some c) \<Rightarrow>
          Option.bind (visit_verts g (Visit c) m) (\<lambda>m.
            visit_verts g (Siblings (nextSibling (vertNodePool m ! c))) m)
      | Visit v \<Rightarrow>
          if stamped_vert m v then Some m
          else
            let m = stamp_vert v NS_BOUNDARY m;
                n = vertNodePool m ! v;
                x = originalVertex n
            in if f_less g (vec_length g (eye_delta g x)) (vertNodesActiveDistance m ! v_level n) then
                 (if firstChild n \<noteq> None then
                    visit_verts g (Siblings (firstChild n)) (stamp_vert v NS_ACTIVE m)
                  else boundary_quads v (set_interpolated v x m))
               else
                 (case v_parent n of
                    Some p \<Rightarrow>
                      boundary_quads v
                        (set_interpolated v
                          (interpolate g (vertNodesActiveDistance m) (v_level n) x (originalVertex (vertNodePool m ! p))) m)
                  | None \<Rightarrow> boundary_quads v (set_interpolated v x m)))"

definition recursiveUpdateVertNode :: "('v, 'f) glm \<Rightarrow> nat \<Rightarrow> ('v, 'f) mesh \<Rightarrow> ('v, 'f) mesh option" where
  "recursiveUpdateVertNode g v m = visit_verts g (Visit v) m"

text \<open>The nearest ancestor that was visited in this frame.\<close>

partial_function (option) active_ancestor :: "('v, 'f) mesh \<Rightarrow> nat option \<Rightarrow> nat option option" where
  "active_ancestor m p =
     (case p of
        None \<Rightarrow> Some None
      | Some v \<Rightarrow> if stamped_vert m v then Some (Some v) else active_ancestor m (v_parent (vertNodePool m ! v)))"

declare active_ancestor.simps [code]

definition addActiveVertNode :: "nat \<Rightarrow> ('v, 'f) mesh \<Rightarrow> ('v, 'f) mesh option" where
  "addActiveVertNode v m =
     (if stamped_vert m v
      then Some (m\<lparr>activeVertices := activeVertices m @ [interpolatedVertex (vertNodePool m ! v)]\<rparr>)
      else Option.bind (active_ancestor m (v_parent (vertNodePool m ! v))) (\<lambda>a.
             case a of
               Some p \<Rightarrow> Some (m\<lparr>activeVertices := activeVertices m @ [interpolatedVertex (vertNodePool m ! p)]\<rparr>)
             | None \<Rightarrow> Some m))"

text \<open>The two triangles of a quad.\<close>

definition triangle_corners :: "quad_node \<Rightarrow> nat list" where
  "triangle_corners q = map (\<lambda>i. cornerVertNodes q ! i)
     (if triangulationMode q = TM_SW_NE then [0, 1, 2, 0, 2, 3] else [0, 1, 3, 1, 2, 3])"

definition emit_quad :: "quad_ptr \<Rightarrow> ('v, 'f) mesh \<Rightarrow> ('v, 'f) mesh option" where
  "emit_quad q m = ofold addActiveVertNode (triangle_corners (quad_at m q)) m"

partial_function (option) recursiveSetActiveMesh ::
  "quad_ptr option \<Rightarrow> ('v, 'f) mesh \<Rightarrow> (fault + ('v, 'f) mesh) option" where
  "recursiveSetActiveMesh p m =
     (case p of
        None \<Rightarrow> ret m
      | Some q \<Rightarrow>
          if stamped_quad m q then
            if q_state (quad_at m q) = NS_BOUNDARY then Option.bind (emit_quad q m) ret
            else
              rbind (children_at m q) (\<lambda>cs.
              rbind (recursiveSetActiveMesh (Some (cs ! 0)) m) (\<lambda>m.
              rbind (recursiveSetActiveMesh (Some (cs ! 1)) m) (\<lambda>m.
              rbind (recursiveSetActiveMesh (Some (cs ! 2)) m) (\<lambda>m.
              recursiveSetActiveMesh (Some (cs ! 3)) m))))
          else Option.bind (emit_quad q m) ret)"

definition upload_lod :: "('v, 'f) mesh \<Rightarrow> ('v, 'f) mesh" where
  "upload_lod m =
     (if activeVertices m \<noteq> [] then
        let m = m\<lparr>vertexBuffer := setData (sizeof_Vertex * length (activeVertices m)) (activeVertices m) (vertexBuffer m),
                  mesh_size := length (activeVertices m)\<rparr>
        in if buf_size (indexBuffer m) \<noteq> 4 * length (lodIndices m)
           then m\<lparr>indexBuffer := setData (4 * length (lodIndices m)) (lodIndices m) (indexBuffer m)\<rparr> else m
      else m)"

definition upload_full :: "('v, 'f) mesh \<Rightarrow> ('v, 'f) mesh" where
  "upload_full m =
     (if sizeof_Vertex * length (vertices m) \<noteq> buf_size (vertexBuffer m) then
        let m = m\<lparr>vertexBuffer := setData (sizeof_Vertex * length (vertices m)) (vertices m) (vertexBuffer m),
                  mesh_size := length (indices m)\<rparr>
        in if buf_size (indexBuffer m) \<noteq> 4 * length (indices m)
           then m\<lparr>indexBuffer := setData (4 * mesh_size m) (indices m) (indexBuffer m)\<rparr> else m
      else m)"

definition visit_root :: "('v, 'f) glm \<Rightarrow> nat \<Rightarrow> ('v, 'f) mesh \<Rightarrow> ('v, 'f) mesh option" where
  "visit_root g v m = recursiveUpdateVertNode g v (set_interpolated v (originalVertex (vertNodePool m ! v)) m)"

definition update_mesh :: "('v, 'f) glm \<Rightarrow> ('v, 'f) mesh \<Rightarrow> ('v, 'f) mesh run" where
  "update_mesh g m =
     (let m = m\<lparr>updateFrame := (updateFrame m + 1) mod 2 ^ 32\<rparr>
      in if lod m then
           if length (rootVertNodes m) = 4 then
             Option.bind (ofold (visit_root g) (rootVertNodes m) m) (\<lambda>m.
             rbind (recursiveSetActiveMesh (rootQuadNode m) (m\<lparr>activeVertices := []\<rparr>)) (\<lambda>m. ret (upload_lod m)))
           else fail NullDeref
         else ret (upload_full m))"

section \<open>The builder\<close>

text \<open>
  A height map: its size and the four bytes of each pixel, in rows. Only the width, the height
  and the bytes are read from the image.
\<close>

record height_map =
  hm_width :: nat
  hm_height :: nat
  hm_pixels :: "(nat \<times> nat \<times> nat \<times> nat) list"

definition builder_vertex :: "('v, 'f) glm \<Rightarrow> height_map \<Rightarrow> nat \<times> nat \<Rightarrow> 'v vertex" where
  "builder_vertex g hm xy = (case xy of (x, y) \<Rightarrow>
     (case hm_pixels hm ! (y * hm_width hm + x) of (r, gr, b, a) \<Rightarrow>
        (new_vertex g)\<lparr>pos := vec_of g [f_dec g (int x) 0, f_dec g (int y) 0, f_dec g (int r) 0],
          color := vec_of g [f_dec g (int r) 0, f_dec g (int gr) 0, f_dec g (int b) 0, f_dec g (int a) 0],
          texCoord := vec_of g
            [f_div g (f_dec g (int x) 0) (f_sub g (f_dec g (int (hm_width hm)) 0) (f_dec g 1 0)),
             f_div g (f_dec g (int y) 0) (f_sub g (f_dec g (int (hm_height hm)) 0) (f_dec g 1 0))]\<rparr>))"

text \<open>The pixel of the vertex at index \<open>x + y * width\<close> of the list filled by the loop over the cells.\<close>

definition vertex_cell :: "height_map \<Rightarrow> nat \<Rightarrow> nat \<times> nat" where
  "vertex_cell hm i = cells (hm_width hm) (hm_height hm) ! i"

definition height_at :: "('v, 'f) glm \<Rightarrow> height_map \<Rightarrow> int \<Rightarrow> int \<Rightarrow> 'f" where
  "height_at g hm x y =
     (if x < 0 \<or> y < 0 \<or> int (hm_width hm) \<le> x \<or> int (hm_height hm) \<le> y then f_dec g 0 0
      else
        (case vertex_cell hm (nat (x + y * int (hm_width hm))) of (x', y') \<Rightarrow>
           f_div g (f_dec g (int (fst (hm_pixels hm ! (y' * hm_width hm + x')))) 0) (f_dec g 255 0)))"

definition builder_normal :: "('v, 'f) glm \<Rightarrow> height_map \<Rightarrow> nat \<times> nat \<Rightarrow> 'v" where
  "builder_normal g hm xy = (case xy of (x, y) \<Rightarrow>
     (let hL = height_at g hm (int x - 1) (int y); hR = height_at g hm (int x + 1) (int y);
          hD = height_at g hm (int x) (int y - 1); hU = height_at g hm (int x) (int y + 1)
      in vec_normalize g (vec_of g [f_sub g hL hR, f_sub g hD hU, f_dec g 2 0])))"

definition builder_vertices :: "('v, 'f) glm \<Rightarrow> height_map \<Rightarrow> 'v vertex list" where
  "builder_vertices g hm =
     map (\<lambda>xy. (builder_vertex g hm xy)\<lparr>normal := builder_normal g hm xy\<rparr>) (cells (hm_width hm) (hm_height hm))"

definition builder_build :: "('v, 'f) glm \<Rightarrow> height_map \<Rightarrow> ('v, 'f) mesh run" where
  "builder_build g hm =
     (if length (hm_pixels hm) < hm_width hm * hm_height hm then fail BadIndex
      else rbind (build g (builder_vertices g hm) (hm_width hm) (hm_height hm) (QuadCollapseMesh g))
             (\<lambda>(_, m). ret m))"

end
