(* ===== verification/Terrain_Build.thy ===== *)
theory Terrain_Build
  imports Terrain_Mesh
begin

text \<open>
  What \<^verbatim>\<open>QuadCollapseMesh::build\<close> makes: the index buffer of the full mesh, the sizes of the
  pools, the tree of quads and the forest of vertices.
\<close>

section \<open>The index buffer\<close>

lemma length_cells [simp]: "length (cells nx ny) = nx * ny"
  by (simp add: cells_def length_concat comp_def sum_list_triv)

lemma cell_less: "x < nx \<Longrightarrow> y < ny \<Longrightarrow> x * ny + y < nx * (ny::nat)"
  by (metis add.commute add_less_cancel_left less_le_trans mult_Suc mult_le_mono1 Suc_leI)

lemma cells_nth: "x < nx \<Longrightarrow> y < ny \<Longrightarrow> cells nx ny ! (x * ny + y) = (x, y)"
proof (induction nx)
  case (Suc nx)
  have eq: "cells (Suc nx) ny = cells nx ny @ map (Pair nx) [0..<ny]" by (simp add: cells_def)
  show ?case
  proof (cases "x = nx")
    case True
    then show ?thesis using Suc.prems by (simp add: eq nth_append)
  next
    case False
    then have x: "x < nx" using Suc.prems by simp
    then show ?thesis using cell_less[OF x Suc.prems(2)] Suc.IH[OF x Suc.prems(2)] by (simp add: eq nth_append)
  qed
qed simp

lemma set_cells [simp]: "set (cells nx ny) = {..<nx} \<times> {..<ny}"
  by (auto simp: cells_def)

lemma length_quad_indices [simp]: "length (quad_indices w xy) = 6"
  by (simp add: quad_indices_def Let_def split: prod.split)

lemma length_concat_quads [simp]: "length (concat (map (quad_indices w) cs)) = 6 * length cs"
  by (induction cs) auto

text \<open>The loop writes the quads one after another while a further quad remains.\<close>

lemma write_quads:
  assumes "length cs + n < N" "6 * N < 2 ^ 32" "length ind = 6 * N" "length pre = 6 * n"
  shows "rfold (write_quad w (6 * N)) cs (6 * n, pre @ drop (6 * n) ind) =
    ret (6 * (n + length cs), pre @ concat (map (quad_indices w) cs) @ drop (6 * (n + length cs)) ind)"
  using assms
proof (induction cs arbitrary: n pre)
  case (Cons c cs)
  have guard: "int (6 * n) < to_u32 (int (6 * N) - 6)"
  proof -
    have "to_u32 (int (6 * N) - 6) = int (6 * N) - 6" using Cons.prems by (intro to_u32_id) auto
    then show ?thesis using Cons.prems by simp
  qed
  have step: "write_quad w (6 * N) c (6 * n, pre @ drop (6 * n) ind) =
      ret (6 * Suc n, (pre @ quad_indices w c) @ drop (6 * Suc n) ind)"
    unfolding write_quad_def using guard Cons.prems by (simp add: add.commute)
  show ?case
    using Cons.IH[of "Suc n" "pre @ quad_indices w c"] Cons.prems by (simp add: step)
qed simp

lemma write_all_quads:
  assumes "cs \<noteq> []" "6 * length cs < 2 ^ 32" "length ind = 6 * length cs"
  shows "rfold (write_quad w (6 * length cs)) cs (0, ind) =
    ret (6 * (length cs - 1), concat (map (quad_indices w) (butlast cs)) @ drop (6 * (length cs - 1)) ind)"
proof -
  let ?N = "length cs"
  have full: "int (6 * (?N - 1)) = to_u32 (int (6 * ?N) - 6)"
    using assms by (cases cs) (simp_all add: to_u32_id algebra_simps)
  have "rfold (write_quad w (6 * ?N)) (butlast cs) (0, ind) =
      ret (6 * (?N - 1), concat (map (quad_indices w) (butlast cs)) @ drop (6 * (?N - 1)) ind)"
    using write_quads[of "butlast cs" 0 ?N ind "[]" w] assms by (cases cs) simp_all
  moreover have "write_quad w (6 * ?N) (last cs) (6 * (?N - 1), xs) = ret (6 * (?N - 1), xs)" for xs
    using full by (simp add: write_quad_def)
  moreover have "cs = butlast cs @ [last cs]" using assms(1) by simp
  ultimately show ?thesis by (metis (no_types, lifting) rbind_simps(1) rfold.simps rfold_append)
qed

lemma length_resize [simp]: "length (resize n d xs) = n"
  by (simp add: resize_def)

lemma buildIndices_run:
  fixes m :: "('v, 'f) mesh"
  assumes "2 \<le> width" "2 \<le> height" "6 * ((width - 1) * (height - 1)) < 2 ^ 32" "width < 2 ^ 32" "height < 2 ^ 32"
  defines "N \<equiv> (width - 1) * (height - 1)"
  defines "ind \<equiv> concat (map (quad_indices width) (butlast (cells (width - 1) (height - 1)))) @
    drop (6 * (N - 1)) (resize (6 * N) 0 (indices m))"
  shows "buildIndices width height m = ret (m\<lparr>indices := ind, mesh_size := 6 * N,
    indexBuffer := \<lparr>buf_size = (4 * length ind) mod 2 ^ 32, buf_data = ind\<rparr>,
    vertexBuffer := \<lparr>buf_size = 0, buf_data = []\<rparr>\<rparr>)"
proof -
  let ?cs = "cells (width - 1) (height - 1)"
  have u: "nat (to_u32 (int width - 1)) = width - 1" "nat (to_u32 (int height - 1)) = height - 1"
    using assms(1-5) by (subst to_u32_id; simp)+
  have n: "nat (to_u32 (int (width - 1) * int (height - 1) * 6)) = 6 * N"
  proof -
    have "int (width - 1) * int (height - 1) * 6 = int (6 * N)" unfolding N_def by (simp only: of_nat_mult mult.commute)
    moreover have "to_u32 (int (6 * N)) = int (6 * N)" using assms(3) unfolding N_def by (rule to_u32_nat)
    ultimately show ?thesis by (simp only: nat_int)
  qed
  have "N \<noteq> 0" using assms(1,2) by (simp add: N_def)
  then have ne: "?cs \<noteq> []" unfolding N_def by (metis length_cells list.size(3))
  have "rfold (write_quad width (6 * N)) ?cs (0, resize (6 * N) 0 (indices m)) =
    ret (6 * (N - 1), concat (map (quad_indices width) (butlast ?cs)) @ drop (6 * (N - 1)) (resize (6 * N) 0 (indices m)))"
    by (rule write_all_quads[OF ne, unfolded length_cells, folded N_def]) (use assms(3) in \<open>simp_all only: N_def length_resize\<close>)
  then show ?thesis unfolding buildIndices_def Let_def u n ind_def by simp
qed

text \<open>A concrete instance of the operations of glm, on lists of integers.\<close>

definition int_glm :: "(int list, int) glm" where
  "int_glm = \<lparr>vec_sub = map2 (-), vec_add = map2 (+), vec_scale = (\<lambda>v s. map ((*) s) v),
     vec_length = (\<lambda>v. sum_list (map abs v)), vec_dot = (\<lambda>v w. sum_list (map2 (*) v w)), vec_normalize = id, vec_of = id,
     vec_uninit = [], f_less = (<), f_add = (+), f_sub = (-), f_mul = (*), f_div = (div), f_neg = uminus, f_sqrt = id,
     f_dec = (\<lambda>n d. n div 10 ^ d)\<rparr>"

text \<open>
  The index buffer of a new mesh holds the two triangles of every cell but the last one, whose
  six indices stay zero.
\<close>

theorem buildIndices_all_but_last:
  assumes "2 \<le> width" "2 \<le> height" "6 * ((width - 1) * (height - 1)) < 2 ^ 32" "width < 2 ^ 32" "height < 2 ^ 32"
    "indices m = []"
  shows "\<exists>m'. buildIndices width height m = ret m' \<and>
    indices m' = concat (map (quad_indices width) (butlast (cells (width - 1) (height - 1)))) @ replicate 6 0 \<and>
    buf_data (indexBuffer m') = indices m' \<and> mesh_size m' = length (indices m') \<and>
    length (indices m') = 6 * ((width - 1) * (height - 1))"
proof -
  let ?N = "(width - 1) * (height - 1)"
  have N: "?N \<noteq> 0" using assms by simp
  have six: "6 * k - 6 * (k - 1) = 6" "6 * (k - 1) + 6 = 6 * k" if "k \<noteq> 0" for k :: nat using that by simp_all
  have d: "drop (6 * (?N - 1)) (resize (6 * ?N) (0::nat) (indices m)) = replicate 6 0"
    using six(1)[OF N] assms(6) by (simp only: resize_def take_Nil list.size(3) append_Nil minus_nat.diff_0 drop_replicate)
  have l: "length (concat (map (quad_indices width) (butlast (cells (width - 1) (height - 1)))) @ replicate 6 (0::nat)) = 6 * ?N"
    using six(2)[OF N] by simp
  have gen: "\<exists>m'. ret (m\<lparr>indices := xs, mesh_size := M, indexBuffer := \<lparr>buf_size = a, buf_data = xs\<rparr>, vertexBuffer := b\<rparr>) = ret m' \<and>
      indices m' = xs \<and> buf_data (indexBuffer m') = indices m' \<and> mesh_size m' = length (indices m') \<and> length (indices m') = M"
    if "length xs = M" for xs M a b
    using that by auto
  show ?thesis unfolding buildIndices_run[OF assms(1-5)] d by (rule gen[OF l])
qed

theorem buildIndices_all_but_last_witness:
  "\<exists>m'. buildIndices 3 4 (QuadCollapseMesh int_glm) = ret m' \<and>
    indices m' = concat (map (quad_indices 3) (butlast (cells (3 - 1) (4 - 1)))) @ replicate 6 0 \<and>
    buf_data (indexBuffer m') = indices m' \<and> mesh_size m' = length (indices m') \<and>
    length (indices m') = 6 * ((3 - 1) * (4 - 1))"
  by (rule buildIndices_all_but_last) (simp_all add: QuadCollapseMesh_def)

section \<open>Sizes of the pools\<close>

text \<open>The vertices before a level, and the inner quads of a tree with the given number of levels.\<close>

definition voff :: "nat \<Rightarrow> nat" where
  "voff l = (\<Sum>j<l. (2 ^ j + 1) * (2 ^ j + 1))"

definition inner_quads :: "nat \<Rightarrow> nat" where
  "inner_quads d = (\<Sum>j<d. 4 ^ j)"

definition pool_sizes_at :: "nat \<Rightarrow> nat \<Rightarrow> pool_sizes" where
  "pool_sizes_at k i =
     \<lparr>quadCountPerEdge = 2 ^ i, vertCountPerEdge = 2 ^ i + 1,
      quadLeafPoolSize = (if k < i then 4 ^ k else 0), quadNodePoolSize = inner_quads (min i k),
      vertNodePoolSize = voff i\<rparr>"

lemma voff_Suc: "voff (Suc l) = voff l + (2 ^ l + 1) * (2 ^ l + 1)"
  by (simp add: voff_def)

lemma voff_mono: "l \<le> l' \<Longrightarrow> voff l \<le> voff l'"
  unfolding voff_def by (intro sum_mono2) auto

lemma inner_quads_Suc: "inner_quads (Suc d) = 4 * inner_quads d + 1"
proof -
  have "inner_quads (Suc d) = 1 + (\<Sum>j<d. 4 ^ Suc j)"
    unfolding inner_quads_def by (subst sum.lessThan_Suc_shift) simp
  also have "(\<Sum>j<d. 4 ^ Suc j) = 4 * inner_quads d" by (simp add: inner_quads_def sum_distrib_left)
  finally show ?thesis by simp
qed

lemma level_count_pow2: "level_count (2 ^ k) = Suc k"
  by (induction k) (simp_all add: level_count.simps)

lemma four_pow: "(2::nat) ^ i * 2 ^ i = 4 ^ i"
  by (simp flip: power_mult_distrib)

lemma size_level_step:
  "i \<le> k \<Longrightarrow> fst (size_level g (Suc k) i (pool_sizes_at k i, m)) = pool_sizes_at k (Suc i)"
  by (auto simp: size_level_def pool_sizes_at_def Let_def voff_Suc inner_quads_def min_def four_pow)

text \<open>What the loop over the levels keeps of the mesh.\<close>

definition same_shape :: "('v, 'f) mesh \<Rightarrow> ('v, 'f) mesh \<Rightarrow> bool" where
  "same_shape m m' \<longleftrightarrow>
     maxLevel m' = maxLevel m \<and> maxLevelVerticesLength m' = maxLevelVerticesLength m \<and>
     vertices m' = vertices m \<and> length (vertNodesLevelOffset m') = length (vertNodesLevelOffset m) \<and>
     vertNodePool m' = vertNodePool m \<and> quadNodePool m' = quadNodePool m \<and> quadLeafPool m' = quadLeafPool m \<and>
     quadNodePoolAllocated m' = quadNodePoolAllocated m \<and> quadLeafPoolAllocated m' = quadLeafPoolAllocated m \<and>
     lod m' = lod m \<and> lodIndices m' = lodIndices m \<and> updateFrame m' = updateFrame m \<and> indices m' = indices m"

lemma size_levels:
  assumes "n \<le> Suc k" "Suc k \<le> length (vertNodesLevelOffset m)"
  shows "\<exists>m'. fold (size_level g (Suc k)) [0..<n] (pool_sizes_at k 0, m) = (pool_sizes_at k n, m') \<and>
    same_shape m m' \<and> (\<forall>j<n. vertNodesLevelOffset m' ! j = voff j)"
  using assms(1)
proof (induction n)
  case 0
  then show ?case by (simp add: same_shape_def)
next
  case (Suc n)
  then obtain m' where m': "fold (size_level g (Suc k)) [0..<n] (pool_sizes_at k 0, m) = (pool_sizes_at k n, m')"
    "same_shape m m'" "\<forall>j<n. vertNodesLevelOffset m' ! j = voff j" by auto
  obtain m'' where m'': "size_level g (Suc k) n (pool_sizes_at k n, m') = (pool_sizes_at k (Suc n), m'')"
    using size_level_step[of n k g m'] Suc.prems by (metis Suc_le_mono prod.collapse)
  then have "m'' = snd (size_level g (Suc k) n (pool_sizes_at k n, m'))" by simp
  then have "same_shape m m'' \<and> (\<forall>j<Suc n. vertNodesLevelOffset m'' ! j = voff j)"
    using m'(2,3) Suc.prems assms(2)
    by (auto simp: size_level_def Let_def same_shape_def pool_sizes_at_def nth_list_update less_Suc_eq)
  then show ?case using m'(1) m'' by simp
qed

text \<open>A mesh whose pools have the sizes for a terrain of $2^k + 1$ vertices a side.\<close>

definition sized :: "nat \<Rightarrow> ('v, 'f) mesh \<Rightarrow> bool" where
  "sized k m \<longleftrightarrow>
     k < MAX_QUAD_LEVEL_COUNT \<and> maxLevel m = k \<and> nat (maxLevelVerticesLength m) = 2 ^ k + 1 \<and>
     (\<forall>j\<le>k. vertNodesLevelOffset m ! j = voff j) \<and> length (vertNodePool m) = voff (Suc k) \<and>
     length (quadNodePool m) = inner_quads k \<and> length (quadLeafPool m) = 4 ^ k"

lemma sizePools_sized:
  assumes "k < MAX_QUAD_LEVEL_COUNT" "maxLevel m = k" "nat (maxLevelVerticesLength m) = 2 ^ k + 1"
    "length (vertNodesLevelOffset m) = MAX_QUAD_LEVEL_COUNT"
  shows "sized k (sizePools g (Suc k) m) \<and> vertices (sizePools g (Suc k) m) = vertices m \<and>
    quadNodePoolAllocated (sizePools g (Suc k) m) = quadNodePoolAllocated m \<and>
    quadLeafPoolAllocated (sizePools g (Suc k) m) = quadLeafPoolAllocated m \<and>
    quadNodePool (sizePools g (Suc k) m) = resize (inner_quads k) new_quad (quadNodePool m) \<and>
    lod (sizePools g (Suc k) m) = lod m \<and> lodIndices (sizePools g (Suc k) m) = lodIndices m \<and>
    updateFrame (sizePools g (Suc k) m) = updateFrame m \<and> indices (sizePools g (Suc k) m) = indices m \<and>
    length (vertNodesLevelOffset (sizePools g (Suc k) m)) = length (vertNodesLevelOffset m)"
proof -
  obtain m' where m': "fold (size_level g (Suc k)) [0..<Suc k] (pool_sizes_at k 0, m) = (pool_sizes_at k (Suc k), m')"
    "same_shape m m'" "\<forall>j<Suc k. vertNodesLevelOffset m' ! j = voff j"
    using size_levels[of "Suc k" k m g] assms by auto
  have "\<lparr>quadCountPerEdge = 1, vertCountPerEdge = 2, quadLeafPoolSize = 0, quadNodePoolSize = 0,
      vertNodePoolSize = 0\<rparr> = pool_sizes_at k 0"
    by (simp add: pool_sizes_at_def voff_def inner_quads_def)
  then have "sizePools g (Suc k) m =
    m'\<lparr>vertNodePool := resize (voff (Suc k)) (new_vert g) (vertNodePool m'),
       quadNodePool := resize (inner_quads k) new_quad (quadNodePool m'),
       quadLeafPool := resize (4 ^ k) new_quad (quadLeafPool m')\<rparr>"
    unfolding sizePools_def by (simp only: m'(1) prod.case) (simp add: pool_sizes_at_def)
  then show ?thesis using m'(2,3) assms by (auto simp: sized_def same_shape_def)
qed

section \<open>Positions of vertices\<close>

text \<open>The index of the vertex in column \<open>x\<close> and row \<open>y\<close> of a level.\<close>

definition vid :: "nat \<Rightarrow> nat \<Rightarrow> nat \<Rightarrow> nat" where
  "vid l x y = voff l + y * (2 ^ l + 1) + x"

lemma vid_bounds: "x \<le> 2 ^ l \<Longrightarrow> y \<le> 2 ^ l \<Longrightarrow> voff l \<le> vid l x y \<and> vid l x y < voff (Suc l)"
proof -
  assume a: "x \<le> 2 ^ l" "y \<le> 2 ^ l"
  then have "y * (2 ^ l + 1) + x < Suc y * (2 ^ l + 1)" by simp
  also have "\<dots> \<le> (2 ^ l + 1) * (2 ^ l + 1)" using a by (intro mult_le_mono1) simp
  finally show ?thesis by (simp add: vid_def voff_Suc)
qed

lemma vid_less: "l \<le> k \<Longrightarrow> x \<le> 2 ^ l \<Longrightarrow> y \<le> 2 ^ l \<Longrightarrow> vid l x y < voff (Suc k)"
  using vid_bounds[of x l y] voff_mono[of "Suc l" "Suc k"] by simp

lemma vid_inject:
  assumes "x \<le> 2 ^ l" "y \<le> 2 ^ l" "x' \<le> 2 ^ l'" "y' \<le> 2 ^ l'"
  shows "vid l x y = vid l' x' y' \<longleftrightarrow> l = l' \<and> x = x' \<and> y = y'"
proof
  assume eq: "vid l x y = vid l' x' y'"
  have "l = l'"
  proof (rule ccontr)
    assume "l \<noteq> l'"
    then have "voff (Suc l) \<le> voff l' \<or> voff (Suc l') \<le> voff l" using voff_mono by (metis Suc_leI linorder_neqE_nat)
    then show False using vid_bounds[OF assms(1,2)] vid_bounds[OF assms(3,4)] eq by linarith
  qed
  then have e: "y * (2 ^ l + 1) + x = y' * (2 ^ l + 1) + x'" using eq by (simp add: vid_def)
  have "(y * (2 ^ l + 1) + x) div (2 ^ l + 1) = y" "(y' * (2 ^ l + 1) + x') div (2 ^ l + 1) = y'"
    using assms \<open>l = l'\<close> by (subst div_mult_self3; simp)+
  then have "y = y'" using e by simp
  then show "l = l' \<and> x = x' \<and> y = y'" using e \<open>l = l'\<close> by simp
qed simp

lemma vid_exhaust_ex:
  "i < voff n \<Longrightarrow> \<exists>l x y. l < n \<and> x \<le> 2 ^ l \<and> y \<le> 2 ^ l \<and> i = vid l x y"
proof (induction n)
  case (Suc n)
  show ?case
  proof (cases "i < voff n")
    case True
    then show ?thesis using Suc.IH less_Suc_eq by blast
  next
    case False
    define r where "r = i - voff n"
    have r: "r < (2 ^ n + 1) * (2 ^ n + 1)" "i = voff n + r" using False Suc.prems by (simp_all add: r_def voff_Suc)
    have "r mod (2 ^ n + 1) < 2 ^ n + 1" by simp
    moreover have "r div (2 ^ n + 1) < 2 ^ n + 1" using r(1) by (rule less_mult_imp_div_less)
    moreover have "i = vid n (r mod (2 ^ n + 1)) (r div (2 ^ n + 1))"
      unfolding vid_def r(2) by (simp only: div_mult_mod_eq add.assoc)
    ultimately show ?thesis by (intro exI[of _ n] exI conjI) (simp_all only: less_Suc_eq_le Suc_eq_plus1 [symmetric])
  qed
qed (simp add: voff_def)

lemma vid_exhaust:
  assumes "i < voff (Suc k)"
  obtains l x y where "l \<le> k" "x \<le> 2 ^ l" "y \<le> 2 ^ l" "i = vid l x y"
  using vid_exhaust_ex[OF assms] by (auto simp: less_Suc_eq_le)

lemma getVertNode_vid:
  assumes "sized k m" "l \<le> k" "x \<le> 2 ^ l" "y \<le> 2 ^ l"
  shows "getVertNode l (x * 2 ^ (k - l)) (y * 2 ^ (k - l)) m = ret (vid l x y)"
  using assms vid_less[of l k x y] voff_mono[of l k]
  by (auto simp: getVertNode_def sized_def Let_def vid_def voff_Suc)

section \<open>The vertex nodes\<close>

definition fresh_vert :: "nat \<Rightarrow> ('v, 'f) vert_node \<Rightarrow> bool" where
  "fresh_vert l n \<longleftrightarrow> v_level n = l \<and> v_activeFrame n = 0 \<and> adjcentQuads n = [] \<and> v_parent n = None \<and>
     firstChild n = None \<and> nextSibling n = None"

text \<open>The frame of the initialisation: only the vertex pool is written.\<close>

definition only_verts :: "('v, 'f) mesh \<Rightarrow> ('v, 'f) mesh \<Rightarrow> bool" where
  "only_verts m m' \<longleftrightarrow> (\<exists>vs. m' = m\<lparr>vertNodePool := vs\<rparr> \<and> length vs = length (vertNodePool m))"

lemma only_verts_refl [simp]: "only_verts m m"
  unfolding only_verts_def by (rule exI[of _ "vertNodePool m"]) simp

lemma only_verts_upd: "length vs = length (vertNodePool m) \<Longrightarrow> only_verts m (m\<lparr>vertNodePool := vs\<rparr>)"
  by (auto simp: only_verts_def)

lemma only_verts_trans: "only_verts m m' \<Longrightarrow> only_verts m' m'' \<Longrightarrow> only_verts m m''"
  by (auto simp: only_verts_def)

lemma only_verts_fields:
  assumes "only_verts m m'"
  shows "maxLevel m' = maxLevel m" "maxLevelVerticesLength m' = maxLevelVerticesLength m" "vertices m' = vertices m"
    "vertNodesLevelOffset m' = vertNodesLevelOffset m" "quadNodePool m' = quadNodePool m"
    "quadLeafPool m' = quadLeafPool m" "quadNodePoolAllocated m' = quadNodePoolAllocated m"
    "quadLeafPoolAllocated m' = quadLeafPoolAllocated m" "length (vertNodePool m') = length (vertNodePool m)"
  using assms by (auto simp: only_verts_def)

lemma only_verts_sized: "only_verts m m' \<Longrightarrow> sized k m' = sized k m"
  by (simp add: sized_def only_verts_fields)

definition fresh_at :: "('v, 'f) mesh \<Rightarrow> nat \<times> nat \<times> nat \<Rightarrow> bool" where
  "fresh_at m p = (case p of (l, x, y) \<Rightarrow> fresh_vert l (vertNodePool m ! vid l x y))"

definition keeps_fresh :: "nat \<Rightarrow> ('v, 'f) mesh \<Rightarrow> ('v, 'f) mesh \<Rightarrow> bool" where
  "keeps_fresh k m m' \<longleftrightarrow>
     (\<forall>l\<le>k. \<forall>x\<le>2 ^ l. \<forall>y\<le>2 ^ l. fresh_at m (l, x, y) \<longrightarrow> fresh_at m' (l, x, y))"

lemma keeps_fresh_refl [simp]: "keeps_fresh k m m"
  by (simp add: keeps_fresh_def)

lemma keeps_fresh_trans: "keeps_fresh k m m' \<Longrightarrow> keeps_fresh k m' m'' \<Longrightarrow> keeps_fresh k m m''"
  by (simp add: keeps_fresh_def)

lemma keeps_freshD:
  "keeps_fresh k m m' \<Longrightarrow> fresh_at m (l, x, y) \<Longrightarrow> l \<le> k \<Longrightarrow> x \<le> 2 ^ l \<Longrightarrow> y \<le> 2 ^ l \<Longrightarrow> fresh_at m' (l, x, y)"
  by (simp add: keeps_fresh_def)

lemma init_vert_fresh:
  assumes "sized k m" "length (vertices m) = (2 ^ k + 1) * (2 ^ k + 1)" "l \<le> k" "x \<le> 2 ^ l" "y \<le> 2 ^ l"
  shows "\<exists>m'. init_vert g l (y * 2 ^ (k - l), x * 2 ^ (k - l)) m = ret m' \<and> only_verts m m' \<and> fresh_at m' (l, x, y) \<and>
    keeps_fresh k m m'"
proof -
  have side: "z * 2 ^ (k - l) \<le> 2 ^ k" if "z \<le> 2 ^ l" for z :: nat
    using mult_le_mono1[OF that, of "2 ^ (k - l)"] assms(3) by (simp flip: power_add)
  have "y * 2 ^ (k - l) * (2 ^ k + 1) \<le> 2 ^ k * (2 ^ k + 1)"
    using side[OF assms(5)] by (rule mult_le_mono1)
  then have "y * 2 ^ (k - l) * (2 ^ k + 1) + x * 2 ^ (k - l) < (2 ^ k + 1) * (2 ^ k + 1)"
    using side[OF assms(4)] by simp
  then have "y * 2 ^ (k - l) * nat (maxLevelVerticesLength m) + x * 2 ^ (k - l) < length (vertices m)"
    using assms(1,2) by (simp add: sized_def)
  moreover have i: "vid l x y < length (vertNodePool m)" using assms vid_less by (simp add: sized_def)
  moreover have "l mod 16 = l" using assms(1,3) by (simp add: sized_def MAX_QUAD_LEVEL_COUNT_def)
  ultimately obtain n where n: "init_vert g l (y * 2 ^ (k - l), x * 2 ^ (k - l)) m =
      ret (m\<lparr>vertNodePool := (vertNodePool m)[vid l x y := n]\<rparr>)" "fresh_vert l n"
    unfolding init_vert_def prod.case getVertNode_vid[OF assms(1,3-5)]
    by (simp add: Let_def) (simp add: fresh_vert_def)
  let ?m = "m\<lparr>vertNodePool := (vertNodePool m)[vid l x y := n]\<rparr>"
  have "fresh_at ?m (l, x, y)" using n(2) i by (simp add: fresh_at_def)
  moreover have "keeps_fresh k m ?m"
    using n(2) i assms(4,5) by (auto simp: keeps_fresh_def fresh_at_def vid_inject nth_list_update)
  ultimately show ?thesis using n(1) by (intro exI[of _ ?m]) (simp add: only_verts_upd)
qed

lemma strides_pow2:
  assumes "l \<le> k"
  shows "strides (2 ^ k + 1) (2 ^ (k - l)) = map (\<lambda>i. i * 2 ^ (k - l)) [0..<2 ^ l + 1]"
proof -
  have "(2 ^ k + 1 + 2 ^ (k - l) - 1) div 2 ^ (k - l) = (2 ^ l + 1 :: nat)"
  proof -
    have "(2::nat) ^ k = 2 ^ l * 2 ^ (k - l)" using assms by (simp flip: power_add)
    then show ?thesis by simp
  qed
  then show ?thesis by (simp only: strides_def)
qed

lemma set_strides: "l \<le> k \<Longrightarrow> set (strides (2 ^ k + 1) (2 ^ (k - l))) = (\<lambda>i. i * 2 ^ (k - l)) ` {..2 ^ l}"
  unfolding strides_pow2 by (simp only: set_map set_upt) (simp only: atLeast0LessThan Suc_eq_plus1 [symmetric] lessThan_Suc_atMost)

lemma init_level_fresh:
  assumes "sized k m" "length (vertices m) = (2 ^ k + 1) * (2 ^ k + 1)" "l \<le> k"
  shows "\<exists>m'. init_level g l (2 ^ (k - l)) m = ret m' \<and> only_verts m m' \<and>
    (\<forall>x\<le>2 ^ l. \<forall>y\<le>2 ^ l. fresh_at m' (l, x, y)) \<and>
    keeps_fresh k m m'"
proof -
  let ?s = "2 ^ (k - l) :: nat"
  let ?xs = "concat (map (\<lambda>y. map (Pair y) (strides (nat (maxLevelVerticesLength m)) ?s))
    (strides (nat (maxLevelVerticesLength m)) ?s))"
  define Q where "Q = (\<lambda>yx (m' :: ('a, 'b) mesh).
     (\<forall>x y. x \<le> 2 ^ l \<and> y \<le> 2 ^ l \<and> yx = (y * ?s, x * ?s) \<longrightarrow> fresh_at m' (l, x, y)))"
  have set: "set ?xs = {(y * ?s, x * ?s) | x y. x \<le> 2 ^ l \<and> y \<le> 2 ^ l}"
  proof -
    have len: "nat (maxLevelVerticesLength m) = 2 ^ k + 1" using assms(1) by (simp add: sized_def)
    have st: "set (strides (nat (maxLevelVerticesLength m)) ?s) = (\<lambda>i. i * ?s) ` {..2 ^ l}"
      unfolding len by (rule set_strides[OF assms(3)])
    show ?thesis by (auto simp: st)
  qed
  have "\<exists>m'. rfold (init_vert g l) ?xs m = ret m' \<and>
      (only_verts m m' \<and> keeps_fresh k m m') \<and>
      (\<forall>yx\<in>set ?xs. Q yx m') \<and> (\<forall>yx. Q yx m \<longrightarrow> Q yx m')"
  proof (rule rfold_establish)
    fix yx and m1 :: "('a, 'b) mesh"
    assume yx: "yx \<in> set ?xs"
      and I: "only_verts m m1 \<and> keeps_fresh k m m1"
    obtain x y where xy: "x \<le> 2 ^ l" "y \<le> 2 ^ l" "yx = (y * ?s, x * ?s)" using yx unfolding set by auto
    have "sized k m1" "length (vertices m1) = (2 ^ k + 1) * (2 ^ k + 1)"
      using I assms(1,2) only_verts_sized[of m m1] only_verts_fields(3)[of m m1] by simp_all
    from init_vert_fresh[OF this assms(3) xy(1,2), of g] obtain m2 where m2:
      "init_vert g l yx m1 = ret m2" "only_verts m1 m2" "fresh_at m2 (l, x, y)"
      "keeps_fresh k m1 m2"
      using xy(3) by auto
    have "Q yx m2" using m2(3) xy(3) by (auto simp: Q_def)
    moreover have "\<forall>z. Q z m1 \<longrightarrow> Q z m2" using keeps_freshD[OF m2(4)] assms(3) by (auto simp: Q_def)
    ultimately show "\<exists>s'. init_vert g l yx m1 = ret s' \<and>
        (only_verts m s' \<and> keeps_fresh k m s') \<and>
        Q yx s' \<and> (\<forall>y. Q y m1 \<longrightarrow> Q y s')"
      using m2 I only_verts_trans[OF _ m2(2)] keeps_fresh_trans[OF _ m2(4)] by auto
  qed simp
  then obtain m' where "rfold (init_vert g l) ?xs m = ret m'" "only_verts m m'"
    "keeps_fresh k m m'" "\<forall>yx\<in>set ?xs. Q yx m'" by blast
  moreover from this(4) have "\<forall>x\<le>2 ^ l. \<forall>y\<le>2 ^ l. fresh_at m' (l, x, y)" unfolding set Q_def by blast
  ultimately show ?thesis unfolding init_level_def Let_def by blast
qed

lemma vert_levels_fresh:
  assumes "sized k m" "length (vertices m) = (2 ^ k + 1) * (2 ^ k + 1)" "l \<le> k"
  shows "\<exists>m'. vert_levels g l (2 ^ (k - l)) m = ret m' \<and> only_verts m m' \<and>
    (\<forall>l'\<le>k. \<forall>x\<le>2 ^ l'. \<forall>y\<le>2 ^ l'. l \<le> l' \<or> fresh_at m (l', x, y) \<longrightarrow> fresh_at m' (l', x, y))"
  using assms
proof (induction "k - l" arbitrary: l m)
  case (0 l m)
  obtain m1 where m1: "init_level g l (2 ^ (k - l)) m = ret m1" "only_verts m m1"
    "\<forall>x\<le>2 ^ l. \<forall>y\<le>2 ^ l. fresh_at m1 (l, x, y)"
    "keeps_fresh k m m1"
    using init_level_fresh[OF "0.prems", of g] by blast
  have "l = k" using 0 by simp
  then have "vert_levels g l (2 ^ (k - l)) m = ret m1"
    using m1(1) by (simp add: vert_levels.simps[of _ _ "Suc 0"] vert_levels.simps[of _ _ 0])
  moreover have "fresh_at m1 (l', x, y)"
    if "l' \<le> k" "x \<le> 2 ^ l'" "y \<le> 2 ^ l'" "l \<le> l' \<or> fresh_at m (l', x, y)" for l' x y
    using that m1(3) keeps_freshD[OF m1(4)] \<open>l = k\<close> by (cases "l' = k") auto
  ultimately show ?case using m1(2) by blast
next
  case (Suc n l m)
  obtain m1 where m1: "init_level g l (2 ^ (k - l)) m = ret m1" "only_verts m m1"
    "\<forall>x\<le>2 ^ l. \<forall>y\<le>2 ^ l. fresh_at m1 (l, x, y)"
    "keeps_fresh k m m1"
    using init_level_fresh[OF Suc.prems, of g] by blast
  have l: "n = k - Suc l" "Suc l \<le> k" "2 ^ (k - l) div 2 = (2::nat) ^ (k - Suc l)"
    using Suc.hyps(2) by (simp_all add: Suc_diff_Suc [symmetric])
  have "sized k m1" "length (vertices m1) = (2 ^ k + 1) * (2 ^ k + 1)"
    using m1(2) Suc.prems by (simp_all add: only_verts_sized only_verts_fields)
  from Suc.hyps(1)[OF l(1) this l(2)] obtain m2 where m2: "vert_levels g (Suc l) (2 ^ (k - Suc l)) m1 = ret m2"
    "only_verts m1 m2"
    "\<forall>l'\<le>k. \<forall>x\<le>2 ^ l'. \<forall>y\<le>2 ^ l'. Suc l \<le> l' \<or> fresh_at m1 (l', x, y) \<longrightarrow> fresh_at m2 (l', x, y)" by blast
  have "vert_levels g l (2 ^ (k - l)) m = ret m2"
    using m1(1) m2(1) l(3) by (subst vert_levels.simps) simp
  moreover have "fresh_at m2 (l', x, y)" if "l' \<le> k" "x \<le> 2 ^ l'" "y \<le> 2 ^ l'" "l \<le> l' \<or> fresh_at m (l', x, y)" for l' x y
  proof (cases "Suc l \<le> l'")
    case True
    then show ?thesis using that m2(3) by blast
  next
    case False
    then have "fresh_at m1 (l', x, y)" using that m1(3) keeps_freshD[OF m1(4)] by (cases "l = l'") auto
    then show ?thesis using that m2(3) by blast
  qed
  ultimately show ?case using m1(2) m2(2) only_verts_trans by blast
qed

end
