(* ===== verification/Terrain_Forest.thy ===== *)
theory Terrain_Forest
  imports Terrain_Mesh
begin

text \<open>
  The forest of terrain vertices: \<open>kids_ok vs K\<close> says that the first-child and next-sibling links
  of the pool \<open>vs\<close> list exactly the children \<open>K p\<close> of every vertex \<open>p\<close>, and that a child is one
  level below its parent. \<open>addChild\<close> puts a vertex without a parent in front of the list,
  \<open>hasChild\<close> decides membership, and a collapse keeps the invariant and gives a parent to each
  of the nine vertices of the finer level.
\<close>

section \<open>Child lists\<close>

fun chained :: "('v, 'f) vert_node list \<Rightarrow> nat option \<Rightarrow> nat list \<Rightarrow> bool" where
  "chained vs s [] \<longleftrightarrow> s = None"
| "chained vs s (c # cs) \<longleftrightarrow> s = Some c \<and> chained vs (nextSibling (vs ! c)) cs"

definition kids_ok :: "('v, 'f) vert_node list \<Rightarrow> (nat \<Rightarrow> nat list) \<Rightarrow> bool" where
  "kids_ok vs K \<longleftrightarrow>
     (\<forall>p<length vs. chained vs (firstChild (vs ! p)) (K p) \<and> distinct (K p) \<and>
        (\<forall>c. c \<in> set (K p) \<longleftrightarrow> c < length vs \<and> v_parent (vs ! c) = Some p)) \<and>
     (\<forall>c<length vs. v_parent (vs ! c) = None \<longrightarrow> nextSibling (vs ! c) = None) \<and>
     (\<forall>c<length vs. \<forall>p. v_parent (vs ! c) = Some p \<longrightarrow> p < length vs \<and> v_level (vs ! c) = v_level (vs ! p) + 1)"

text \<open>The data a change of links leaves alone.\<close>

definition same_nodes :: "('v, 'f) vert_node list \<Rightarrow> ('v, 'f) vert_node list \<Rightarrow> bool" where
  "same_nodes vs vs' \<longleftrightarrow> length vs' = length vs \<and>
     (\<forall>i. v_level (vs' ! i) = v_level (vs ! i) \<and> adjcentQuads (vs' ! i) = adjcentQuads (vs ! i) \<and>
       originalVertex (vs' ! i) = originalVertex (vs ! i) \<and> v_activeFrame (vs' ! i) = v_activeFrame (vs ! i))"

lemma same_nodes_refl [simp]: "same_nodes vs vs"
  by (simp add: same_nodes_def)

lemma same_nodes_trans: "same_nodes vs vs' \<Longrightarrow> same_nodes vs' vs'' \<Longrightarrow> same_nodes vs vs''"
  by (simp add: same_nodes_def)

lemma same_nodesD:
  assumes "same_nodes vs vs'"
  shows "length vs' = length vs" "v_level (vs' ! i) = v_level (vs ! i)" "adjcentQuads (vs' ! i) = adjcentQuads (vs ! i)"
    "originalVertex (vs' ! i) = originalVertex (vs ! i)" "v_activeFrame (vs' ! i) = v_activeFrame (vs ! i)"
  using assms by (simp_all add: same_nodes_def)

lemma child_loop_chained: "chained vs s cs \<Longrightarrow> child_loop vs t s = Some (t \<in> set cs)"
  by (induction cs arbitrary: s) (simp_all add: child_loop.simps)

lemma hasChild_kids: "kids_ok vs K \<Longrightarrow> p < length vs \<Longrightarrow> hasChild vs p c = Some (c \<in> set (K p))"
  unfolding hasChild_def by (rule child_loop_chained) (simp add: kids_ok_def)

lemma kids_memD:
  assumes "kids_ok vs K" "p < length vs" "c \<in> set (K p)"
  shows "c < length vs" "v_parent (vs ! c) = Some p" "v_level (vs ! c) = v_level (vs ! p) + 1"
  using assms by (auto simp: kids_ok_def)

lemma kids_memI: "kids_ok vs K \<Longrightarrow> p < length vs \<Longrightarrow> c < length vs \<Longrightarrow> v_parent (vs ! c) = Some p \<Longrightarrow> c \<in> set (K p)"
  by (simp add: kids_ok_def)

lemma chained_cong:
  "\<forall>c\<in>set cs. nextSibling (vs' ! c) = nextSibling (vs ! c) \<Longrightarrow> chained vs' s cs = chained vs s cs"
  by (induction cs arbitrary: s) auto

text \<open>The second copy of the body of \<open>addChild\<close> is not reached.\<close>

lemma addChild_half_parent:
  assumes "addChild_half p c vs = (vs', False)" "p < length vs" "c < length vs"
  shows "v_parent (vs' ! c) = Some p"
  using assms by (auto simp: addChild_half_def upd_vert_def Let_def nth_list_update split: if_splits)

lemma addChild_once:
  assumes "p < length vs" "c < length vs"
  shows "addChild p c vs = fst (addChild_half p c vs)"
proof (cases "addChild_half p c vs")
  case (Pair vs' returned)
  then show ?thesis
    using addChild_half_parent[of p c vs vs'] assms
    by (cases returned) (simp_all add: addChild_def addChild_half_def[of p c vs'])
qed

lemma addChild_same_parent: "v_parent (vs ! c) = Some p \<Longrightarrow> addChild p c vs = vs"
  by (simp add: addChild_def addChild_half_def)

lemma addChild_orphan:
  assumes "p < length vs" "c < length vs" "p \<noteq> c" "v_parent (vs ! c) = None" "nextSibling (vs ! c) = None"
    "v_level (vs ! c) = v_level (vs ! p) + 1"
  shows "addChild p c vs = vs[c := (vs ! c)\<lparr>v_parent := Some p, nextSibling := firstChild (vs ! p)\<rparr>,
    p := (vs ! p)\<lparr>firstChild := Some c\<rparr>]"
proof -
  have e: "(vs ! c)\<lparr>v_parent := Some p, nextSibling := None\<rparr> = (vs ! c)\<lparr>v_parent := Some p\<rparr>"
    using assms(5) by (cases "vs ! c") simp
  then show ?thesis unfolding addChild_once[OF assms(1,2)]
    using assms by (cases "firstChild (vs ! p)") (simp_all add: e addChild_half_def upd_vert_def Let_def nth_list_update)
qed

lemma addChild_kids:
  assumes K: "kids_ok vs K" and "p < length vs" "c < length vs" "v_parent (vs ! c) = None"
    "v_level (vs ! c) = v_level (vs ! p) + 1"
  shows "kids_ok (addChild p c vs) (K(p := c # K p)) \<and> same_nodes vs (addChild p c vs) \<and>
    v_parent (addChild p c vs ! c) = Some p \<and>
    (\<forall>i. i \<noteq> c \<longrightarrow> v_parent (addChild p c vs ! i) = v_parent (vs ! i))"
proof -
  have pc: "p \<noteq> c" using assms(5) by auto
  have ns: "nextSibling (vs ! c) = None" using K assms(3,4) by (simp add: kids_ok_def)
  let ?vs = "vs[c := (vs ! c)\<lparr>v_parent := Some p, nextSibling := firstChild (vs ! p)\<rparr>,
    p := (vs ! p)\<lparr>firstChild := Some c\<rparr>]"
  have eq: "addChild p c vs = ?vs" using addChild_orphan[OF assms(2,3) pc assms(4) ns assms(5)] .
  have n: "?vs ! i = (if i = p then (vs ! p)\<lparr>firstChild := Some c\<rparr>
      else if i = c then (vs ! c)\<lparr>v_parent := Some p, nextSibling := firstChild (vs ! p)\<rparr> else vs ! i)" for i
    using assms(2,3) pc by (auto simp: nth_list_update)
  have cK: "c \<notin> set (K q)" if "q < length vs" for q using kids_memD(2)[OF K that] assms(4) by auto
  have ch: "chained ?vs s (K q) = chained vs s (K q)" if "q < length vs" for s q
    using cK[OF that] by (intro chained_cong) (auto simp: n)
  have "same_nodes vs ?vs" by (auto simp: same_nodes_def n)
  moreover have "kids_ok ?vs (K(p := c # K p))"
    unfolding kids_ok_def
  proof (intro conjI allI impI)
    fix q assume q: "q < length ?vs"
    then have Kq: "chained vs (firstChild (vs ! q)) (K q)" "distinct (K q)"
      "\<And>x. x \<in> set (K q) \<longleftrightarrow> x < length vs \<and> v_parent (vs ! x) = Some q" using K by (auto simp: kids_ok_def)
    show "chained ?vs (firstChild (?vs ! q)) ((K(p := c # K p)) q)"
      using Kq(1) q assms(2) pc by (cases "q = p") (auto simp: n ch assms(4))
    show "distinct ((K(p := c # K p)) q)" using Kq(2) cK[of q] q by auto
    show "x \<in> set ((K(p := c # K p)) q) \<longleftrightarrow> x < length ?vs \<and> v_parent (?vs ! x) = Some q" for x
      using Kq(3)[of x] assms(3,4) pc by (auto simp: n)
  next
    fix d assume "d < length ?vs" "v_parent (?vs ! d) = None"
    then show "nextSibling (?vs ! d) = None" using K pc by (auto simp: n kids_ok_def split: if_splits)
  next
    fix d q assume dq: "d < length ?vs" "v_parent (?vs ! d) = Some q"
    then have "q < length vs \<and> v_level (vs ! d) = v_level (vs ! q) + 1"
      using K assms(2,5) pc by (auto simp: n kids_ok_def split: if_splits)
    then show "q < length ?vs" "v_level (?vs ! d) = v_level (?vs ! q) + 1" by (auto simp: n)
  qed
  ultimately show ?thesis unfolding eq using pc by (auto simp: n)
qed

section \<open>Growing the forest\<close>

definition kids :: "('v, 'f) vert_node list \<Rightarrow> bool" where
  "kids vs \<longleftrightarrow> (\<exists>K. kids_ok vs K)"

text \<open>From \<open>vs\<close> to \<open>vs'\<close> some vertices in \<open>C\<close> got a parent; nothing else changed.\<close>

definition grows :: "nat set \<Rightarrow> ('v, 'f) vert_node list \<Rightarrow> ('v, 'f) vert_node list \<Rightarrow> bool" where
  "grows C vs vs' \<longleftrightarrow> same_nodes vs vs' \<and> kids vs' \<and>
     (\<forall>i. v_parent (vs ! i) \<noteq> None \<or> i \<notin> C \<longrightarrow> v_parent (vs' ! i) = v_parent (vs ! i))"

lemma grows_refl: "kids vs \<Longrightarrow> grows C vs vs"
  by (simp add: grows_def)

lemma grows_trans: "grows C vs vs' \<Longrightarrow> grows C' vs' vs'' \<Longrightarrow> grows (C \<union> C') vs vs''"
  unfolding grows_def by (metis UnCI same_nodes_trans)

lemma grows_mono: "grows C vs vs' \<Longrightarrow> C \<subseteq> C' \<Longrightarrow> grows C' vs vs'"
  unfolding grows_def by blast

lemma growsD:
  assumes "grows C vs vs'"
  shows "kids vs'" "same_nodes vs vs'" "length vs' = length vs" "v_level (vs' ! i) = v_level (vs ! i)"
    "i \<notin> C \<Longrightarrow> v_parent (vs' ! i) = v_parent (vs ! i)"
    "v_parent (vs ! i) = Some p \<Longrightarrow> v_parent (vs' ! i) = Some p"
  using assms by (simp_all add: grows_def same_nodes_def)

lemma addChild_grows:
  assumes "kids vs" "p < length vs" "c < length vs" "v_level (vs ! c) = v_level (vs ! p) + 1"
    "v_parent (vs ! c) = None \<or> v_parent (vs ! c) = Some p"
  shows "grows {c} vs (addChild p c vs) \<and> v_parent (addChild p c vs ! c) = Some p"
proof (cases "v_parent (vs ! c) = Some p")
  case True
  then show ?thesis using assms(1) by (simp add: addChild_same_parent grows_refl)
next
  case False
  obtain K where "kids_ok vs K" using assms(1) by (auto simp: kids_def)
  then have a: "kids_ok (addChild p c vs) (K(p := c # K p))" "same_nodes vs (addChild p c vs)"
    "v_parent (addChild p c vs ! c) = Some p" "\<And>i. i \<noteq> c \<Longrightarrow> v_parent (addChild p c vs ! i) = v_parent (vs ! i)"
    using addChild_kids[of vs K p c] assms False by simp_all
  have "v_parent (addChild p c vs ! i) = v_parent (vs ! i)" if "v_parent (vs ! i) \<noteq> None \<or> i \<notin> {c}" for i
    using that assms(5) False by (intro a(4)) auto
  then show ?thesis using a(1-3) by (auto simp: grows_def kids_def)
qed

lemma collapse_edge_grows:
  assumes "kids vs" "p < length vs" "q < length vs" "c < length vs" "v_level (vs ! c) = v_level (vs ! p) + 1"
    "v_level (vs ! c) = v_level (vs ! q) + 1"
  shows "grows {c} vs (collapse_edge g c p q vs) \<and> v_parent (collapse_edge g c p q vs ! c) \<noteq> None"
proof (cases "v_parent (vs ! c) = None")
  case True
  have "nearer_parent g c p q vs \<in> {p, q}" by (simp add: nearer_parent_def)
  then show ?thesis
    using addChild_grows[of vs p c] addChild_grows[of vs q c] assms True by (auto simp: collapse_edge_def)
next
  case False
  then show ?thesis using assms(1) by (auto simp: collapse_edge_def grows_refl)
qed

section \<open>A collapse\<close>

abbreviation coarse :: "collapse \<Rightarrow> nat set" where
  "coarse k \<equiv> {parentSw k, parentSe k, parentNe k, parentNw k}"

abbreviation fine :: "collapse \<Rightarrow> nat set" where
  "fine k \<equiv> {childSw k, childSe k, childNe k, childNw k, childBt k, childRt k, childTp k, childLf k, childCt k}"

text \<open>The thirteen vertices of a quad of level \<open>l\<close>, before its collapse.\<close>

definition collapsible :: "nat \<Rightarrow> collapse \<Rightarrow> ('v, 'f) vert_node list \<Rightarrow> bool" where
  "collapsible l k vs \<longleftrightarrow> kids vs \<and>
     (\<forall>p\<in>coarse k. p < length vs \<and> v_level (vs ! p) = l) \<and>
     (\<forall>c\<in>fine k. c < length vs \<and> v_level (vs ! c) = l + 1) \<and>
     distinct [childSw k, childSe k, childNe k, childNw k, childBt k, childRt k, childTp k, childLf k, childCt k] \<and>
     v_parent (vs ! childSw k) \<in> {None, Some (parentSw k)} \<and> v_parent (vs ! childSe k) \<in> {None, Some (parentSe k)} \<and>
     v_parent (vs ! childNe k) \<in> {None, Some (parentNe k)} \<and> v_parent (vs ! childNw k) \<in> {None, Some (parentNw k)} \<and>
     v_parent (vs ! childCt k) = None"

lemma collapse_corners_grows:
  assumes "collapsible l k vs"
  shows "grows {childSw k, childSe k, childNe k, childNw k} vs (collapse_corners k vs) \<and>
    v_parent (collapse_corners k vs ! childSw k) = Some (parentSw k) \<and>
    v_parent (collapse_corners k vs ! childSe k) = Some (parentSe k) \<and>
    v_parent (collapse_corners k vs ! childNe k) = Some (parentNe k) \<and>
    v_parent (collapse_corners k vs ! childNw k) = Some (parentNw k)"
proof -
  note c = assms[unfolded collapsible_def]
  have b: "\<And>p. p \<in> coarse k \<Longrightarrow> p < length vs" "\<And>p. p \<in> coarse k \<Longrightarrow> v_level (vs ! p) = l"
    "\<And>c. c \<in> fine k \<Longrightarrow> c < length vs" "\<And>c. c \<in> fine k \<Longrightarrow> v_level (vs ! c) = l + 1" "kids vs"
    using c by blast+
  have d: "childSe k \<noteq> childSw k" "childNe k \<noteq> childSw k" "childNw k \<noteq> childSw k" "childNe k \<noteq> childSe k"
    "childNw k \<noteq> childSe k" "childNw k \<noteq> childNe k"
    using conjunct1[OF conjunct2[OF conjunct2[OF conjunct2[OF c]]]] by auto
  have p: "v_parent (vs ! childSw k) = None \<or> v_parent (vs ! childSw k) = Some (parentSw k)"
    "v_parent (vs ! childSe k) = None \<or> v_parent (vs ! childSe k) = Some (parentSe k)"
    "v_parent (vs ! childNe k) = None \<or> v_parent (vs ! childNe k) = Some (parentNe k)"
    "v_parent (vs ! childNw k) = None \<or> v_parent (vs ! childNw k) = Some (parentNw k)" using c by blast+
  define v1 where "v1 = addChild (parentSw k) (childSw k) vs"
  define v2 where "v2 = addChild (parentSe k) (childSe k) v1"
  define v3 where "v3 = addChild (parentNe k) (childNe k) v2"
  define v4 where "v4 = addChild (parentNw k) (childNw k) v3"
  have 1: "grows {childSw k} vs v1 \<and> v_parent (v1 ! childSw k) = Some (parentSw k)"
    unfolding v1_def by (rule addChild_grows) (simp_all add: b d p)
  note d1 = growsD[OF conjunct1[OF 1]]
  have 2: "grows {childSe k} v1 v2 \<and> v_parent (v2 ! childSe k) = Some (parentSe k)"
    unfolding v2_def by (rule addChild_grows) (simp_all add: b d p d1(1,3-5))
  note d2 = growsD[OF conjunct1[OF 2]]
  have 3: "grows {childNe k} v2 v3 \<and> v_parent (v3 ! childNe k) = Some (parentNe k)"
    unfolding v3_def by (rule addChild_grows) (simp_all add: b d p d1(1,3-5) d2(1,3-5))
  note d3 = growsD[OF conjunct1[OF 3]]
  have 4: "grows {childNw k} v3 v4 \<and> v_parent (v4 ! childNw k) = Some (parentNw k)"
    unfolding v4_def by (rule addChild_grows) (simp_all add: b d p d1(1,3-5) d2(1,3-5) d3(1,3-5))
  note d4 = growsD[OF conjunct1[OF 4]]
  have "grows ({childSw k} \<union> ({childSe k} \<union> ({childNe k} \<union> {childNw k}))) vs v4"
    by (intro grows_trans[OF conjunct1[OF 1]] grows_trans[OF conjunct1[OF 2]] grows_trans[OF conjunct1[OF 3]] conjunct1[OF 4])
  moreover have "v4 = collapse_corners k vs" by (simp add: collapse_corners_def v1_def v2_def v3_def v4_def)
  ultimately show ?thesis using 1 2 3 4 d2(6) d3(6) d4(6) by (auto simp: insert_commute)
qed

lemma collapse_edges_grows:
  assumes "kids vs" "\<forall>p\<in>coarse k. p < length vs \<and> v_level (vs ! p) = l"
    "\<forall>c\<in>fine k. c < length vs \<and> v_level (vs ! c) = l + 1"
  shows "grows {childBt k, childRt k, childTp k, childLf k} vs (collapse_edges g k vs) \<and>
    (\<forall>c\<in>{childBt k, childRt k, childTp k, childLf k}. v_parent (collapse_edges g k vs ! c) \<noteq> None)"
proof -
  define v1 where "v1 = collapse_edge g (childBt k) (parentSe k) (parentSw k) vs"
  define v2 where "v2 = collapse_edge g (childRt k) (parentNe k) (parentSe k) v1"
  define v3 where "v3 = collapse_edge g (childTp k) (parentNe k) (parentNw k) v2"
  define v4 where "v4 = collapse_edge g (childLf k) (parentNw k) (parentSw k) v3"
  have 1: "grows {childBt k} vs v1 \<and> v_parent (v1 ! childBt k) \<noteq> None"
    unfolding v1_def by (rule collapse_edge_grows) (use assms in auto)
  note d1 = growsD[OF conjunct1[OF 1]]
  have 2: "grows {childRt k} v1 v2 \<and> v_parent (v2 ! childRt k) \<noteq> None"
    unfolding v2_def by (rule collapse_edge_grows) (use assms in \<open>auto simp: d1(1,3-5)\<close>)
  note d2 = growsD[OF conjunct1[OF 2]]
  have 3: "grows {childTp k} v2 v3 \<and> v_parent (v3 ! childTp k) \<noteq> None"
    unfolding v3_def by (rule collapse_edge_grows) (use assms in \<open>auto simp: d1(1,3-5) d2(1,3-5)\<close>)
  note d3 = growsD[OF conjunct1[OF 3]]
  have 4: "grows {childLf k} v3 v4 \<and> v_parent (v4 ! childLf k) \<noteq> None"
    unfolding v4_def by (rule collapse_edge_grows) (use assms in \<open>auto simp: d1(1,3-5) d2(1,3-5) d3(1,3-5)\<close>)
  note d4 = growsD[OF conjunct1[OF 4]]
  have "grows ({childBt k} \<union> ({childRt k} \<union> ({childTp k} \<union> {childLf k}))) vs v4"
    by (intro grows_trans[OF conjunct1[OF 1]] grows_trans[OF conjunct1[OF 2]] grows_trans[OF conjunct1[OF 3]] conjunct1[OF 4])
  moreover have "v4 = collapse_edges g k vs" by (simp add: collapse_edges_def v1_def v2_def v3_def v4_def)
  ultimately show ?thesis using 1 2 3 4 d2(6) d3(6) d4(6) by (auto simp: insert_commute)
qed

lemma nearest_parent_mem:
  assumes "length ps = 4"
  shows "nearest_parent g c ps vs \<in> set ps"
proof -
  have "snd (fold (\<lambda>i (d, j). if f_less g (dist ! i) d then (dist ! i, i) else (d, j)) xs (d, j)) < 4"
    if "j < 4" "\<forall>i\<in>set xs. i < 4" for dist xs d and j :: nat
    using that by (induction xs arbitrary: d j) auto
  note idx = this[of 0 "[1..<4]"]
  obtain dist where dist: "dist = map (\<lambda>p. vec_length g (pos (vertex_sub g (originalVertex (vs ! c)) (originalVertex (vs ! p))))) ps"
    by simp
  have "nearest_parent g c ps vs = ps ! snd (fold (\<lambda>i (d, j). if f_less g (dist ! i) d then (dist ! i, i) else (d, j)) [1..<4] (dist ! 0, 0))"
    unfolding nearest_parent_def Let_def dist by (simp only: case_prod_beta)
  then show ?thesis using idx[of dist "dist ! 0"] assms by (simp add: case_prod_beta)
qed

lemma center_parent_mem:
  assumes "kids vs" "\<forall>p\<in>coarse k. p < length vs"
  shows "\<exists>p\<in>coarse k. center_parent g k ch vs = Some p"
proof -
  obtain K where "kids_ok vs K" using assms(1) by (auto simp: kids_def)
  then have h: "\<And>c. hasChild vs (parentSw k) c = Some (c \<in> set (K (parentSw k)))"
    "\<And>c. hasChild vs (parentSe k) c = Some (c \<in> set (K (parentSe k)))"
    "\<And>c. hasChild vs (parentNe k) c = Some (c \<in> set (K (parentNe k)))"
    "\<And>c. hasChild vs (parentNw k) c = Some (c \<in> set (K (parentNw k)))"
    using assms(2) by (simp_all add: hasChild_kids)
  have n: "nearer_parent g c p q vs \<in> {p, q}" for c p q by (simp add: nearer_parent_def)
  have n4: "nearest_parent g (childCt k) [parentSw k, parentSe k, parentNe k, parentNw k] vs \<in> coarse k"
    using nearest_parent_mem[of "[parentSw k, parentSe k, parentNe k, parentNw k]" g "childCt k" vs] by simp
  have n2: "nearer_parent g (childCt k) (parentSw k) (parentNe k) vs \<in> coarse k"
    "nearer_parent g (childCt k) (parentSe k) (parentNw k) vs \<in> coarse k"
    using n[of "childCt k" "parentSw k" "parentNe k"] n[of "childCt k" "parentSe k" "parentNw k"] by auto
  have branch: "\<exists>p\<in>S. (if b then x else y) = Some p" if "\<exists>p\<in>S. x = Some p" "\<exists>p\<in>S. y = Some p" for S b x and y :: "nat option"
    using that by simp
  have leaf: "\<exists>p\<in>S. Some x = Some p" if "x \<in> S" for S and x :: nat using that by simp
  show ?thesis
    unfolding center_parent_def h and_also_Some Option.bind.bind_lunit
    by (intro branch leaf n2 n4) simp_all
qed

lemma layout_mode_defined:
  assumes "kids vs" "\<forall>p\<in>coarse k. p < length vs"
  shows "\<exists>mode. layout_mode k ch vs = Some mode"
proof -
  obtain K where "kids_ok vs K" using assms(1) by (auto simp: kids_def)
  then show ?thesis using assms(2) by (simp add: layout_mode_def hasChild_kids)
qed

text \<open>
  A collapse returns, links the nine fine vertices below the four coarse ones, keeps the forest
  and changes no quad but the collapsed one.
\<close>

lemma collapseQuad_links:
  assumes "q = quadNodePool m ! i" "ch = (\<lambda>j. quad_at m (children q ! j))" "k = collapse_ptrs q ch"
    "collapsible l k (vertNodePool m)"
  shows "\<exists>vs mode. collapseQuad g i m =
      Some (upd_quad (Node i) (\<lambda>n. n\<lparr>triangulationMode := mode\<rparr>) (m\<lparr>vertNodePool := vs\<rparr>)) \<and>
    grows (fine k) (vertNodePool m) vs \<and> (\<forall>c\<in>fine k. v_parent (vs ! c) \<noteq> None) \<and>
    v_parent (vs ! childSw k) = Some (parentSw k) \<and> v_parent (vs ! childSe k) = Some (parentSe k) \<and>
    v_parent (vs ! childNe k) = Some (parentNe k) \<and> v_parent (vs ! childNw k) = Some (parentNw k)"
proof -
  define vs0 where "vs0 = vertNodePool m"
  have c: "\<forall>p\<in>coarse k. p < length vs0 \<and> v_level (vs0 ! p) = l" "\<forall>c\<in>fine k. c < length vs0 \<and> v_level (vs0 ! c) = l + 1"
    "v_parent (vs0 ! childCt k) = None"
    "distinct [childSw k, childSe k, childNe k, childNw k, childBt k, childRt k, childTp k, childLf k, childCt k]"
    using assms(4) unfolding collapsible_def vs0_def by blast+
  define vs1 where "vs1 = collapse_corners k vs0"
  have 1: "grows {childSw k, childSe k, childNe k, childNw k} vs0 vs1"
    "v_parent (vs1 ! childSw k) = Some (parentSw k)" "v_parent (vs1 ! childSe k) = Some (parentSe k)"
    "v_parent (vs1 ! childNe k) = Some (parentNe k)" "v_parent (vs1 ! childNw k) = Some (parentNw k)"
    using collapse_corners_grows[OF assms(4)] by (simp_all add: vs0_def vs1_def)
  note d1 = growsD[OF 1(1)]
  have ct1: "v_parent (vs1 ! childCt k) = None" using c(3,4) d1(5)[of "childCt k"] by auto
  define vs2 where "vs2 = collapse_edges g k vs1"
  have 2: "grows {childBt k, childRt k, childTp k, childLf k} vs1 vs2"
    "\<forall>c\<in>{childBt k, childRt k, childTp k, childLf k}. v_parent (vs2 ! c) \<noteq> None"
    using collapse_edges_grows[of vs1 k l g] c(1,2) d1(1) by (simp_all add: d1(3,4) vs2_def)
  note d2 = growsD[OF 2(1)]
  have ct2: "v_parent (vs2 ! childCt k) = None" using ct1 c(4) d2(5)[of "childCt k"] by auto
  have len2: "\<forall>p\<in>coarse k. p < length vs2" using c(1) by (simp add: d1(3) d2(3))
  obtain p where p: "p \<in> coarse k" "center_parent g k ch vs2 = Some p"
    using center_parent_mem[OF d2(1) len2] by blast
  define vs3 where "vs3 = addChild p (childCt k) vs2"
  have "p < length vs2" "childCt k < length vs2" "v_level (vs2 ! childCt k) = v_level (vs2 ! p) + 1"
    using p(1) c(1,2) by (auto simp: d1(3,4) d2(3,4))
  then have 3: "grows {childCt k} vs2 vs3" "v_parent (vs3 ! childCt k) = Some p"
    using addChild_grows[OF d2(1), of p "childCt k"] ct2 by (simp_all add: vs3_def)
  note d3 = growsD[OF 3(1)]
  have "\<forall>p\<in>coarse k. p < length vs3" using len2 by (simp add: d3(3))
  then obtain mode where mode: "layout_mode k ch vs3 = Some mode" using layout_mode_defined[OF d3(1)] by blast
  have "collapseQuad g i m = Some (upd_quad (Node i) (\<lambda>n. n\<lparr>triangulationMode := mode\<rparr>) (m\<lparr>vertNodePool := vs3\<rparr>))"
    unfolding collapseQuad_def Let_def assms(1,2)[symmetric] assms(3)[symmetric]
    using ct1 p(2) mode by (simp add: vs0_def[symmetric] vs1_def[symmetric] vs2_def[symmetric] vs3_def[symmetric])
  moreover have "grows (fine k) vs0 vs3"
    by (rule grows_mono[OF grows_trans[OF 1(1) grows_trans[OF 2(1) 3(1)]]]) auto
  moreover have "v_parent (vs3 ! c) \<noteq> None" if "c \<in> fine k" for c
  proof -
    have "\<exists>p. v_parent (vs1 ! c) = Some p \<or> v_parent (vs2 ! c) = Some p \<or> v_parent (vs3 ! c) = Some p"
      using that 1(2-5) 2(2) 3(2) by auto
    then show ?thesis using d2(6)[of c] d3(6)[of c] by auto
  qed
  moreover have "v_parent (vs3 ! childSw k) = Some (parentSw k)" "v_parent (vs3 ! childSe k) = Some (parentSe k)"
    "v_parent (vs3 ! childNe k) = Some (parentNe k)" "v_parent (vs3 ! childNw k) = Some (parentNw k)"
    using 1(2-5) d2(6) d3(6) by blast+
  ultimately show ?thesis unfolding vs0_def by blast
qed

end
