(* ===== verification/Terrain_Tree.thy ===== *)
theory Terrain_Tree
  imports Terrain_Build Terrain_Forest
begin

text \<open>
  The tree of quads. \<open>tree_inv k m\<close> is the invariant of \<^verbatim>\<open>recursiveBuildQuadNodes\<close> on a terrain of
  $2^k + 1$ vertices a side: every quad that was allocated sits at a position of its own, the
  vertices know at most four adjacent quads, the links of quads and vertices go one level up.
  The main result is that \<^verbatim>\<open>build\<close> returns and makes the complete tree.
\<close>

section \<open>The invariant\<close>

definition alloced :: "('v, 'f) mesh \<Rightarrow> quad_ptr \<Rightarrow> bool" where
  "alloced m q = (case q of Node i \<Rightarrow> i < quadNodePoolAllocated m | Leaf i \<Rightarrow> i < quadLeafPoolAllocated m)"

definition corners_at :: "nat \<Rightarrow> nat \<Rightarrow> nat \<Rightarrow> nat list" where
  "corners_at l x y = [vid l x y, vid l (x + 1) y, vid l (x + 1) (y + 1), vid l x (y + 1)]"

definition quad_on :: "('v, 'f) mesh \<Rightarrow> quad_ptr \<Rightarrow> nat \<Rightarrow> nat \<Rightarrow> nat \<Rightarrow> bool" where
  "quad_on m q l x y \<longleftrightarrow> cornerVertNodes (quad_at m q) = corners_at l x y \<and> q_level (quad_at m q) = l \<and>
     q_activeFrame (quad_at m q) = 0"

definition corner0 :: "('v, 'f) mesh \<Rightarrow> quad_ptr \<Rightarrow> nat" where
  "corner0 m q = cornerVertNodes (quad_at m q) ! 0"

definition taken_at :: "('v, 'f) mesh \<Rightarrow> nat set" where
  "taken_at m = corner0 m ` {q. alloced m q}"

definition quads_ok :: "nat \<Rightarrow> ('v, 'f) mesh \<Rightarrow> bool" where
  "quads_ok k m \<longleftrightarrow>
     quadNodePoolAllocated m \<le> inner_quads k \<and> quadLeafPoolAllocated m \<le> 4 ^ k \<and>
     (\<forall>q. alloced m q \<longrightarrow> (\<exists>l x y. l \<le> k \<and> x < 2 ^ l \<and> y < 2 ^ l \<and> quad_on m q l x y)) \<and>
     inj_on (corner0 m) {q. alloced m q} \<and>
     (\<forall>q p. alloced m q \<and> q_parent (quad_at m q) = Some p \<longrightarrow>
        alloced m p \<and> (\<exists>i. p = Node i) \<and> q_level (quad_at m q) = q_level (quad_at m p) + 1) \<and>
     (\<forall>i<quadNodePoolAllocated m. \<forall>c\<in>set (children (quadNodePool m ! i)).
        alloced m c \<and> q_parent (quad_at m c) = Some (Node i)) \<and>
     (\<forall>i. quadNodePoolAllocated m \<le> i \<and> i < inner_quads k \<longrightarrow> quadNodePool m ! i = new_quad)"

definition adjacency_ok :: "('v, 'f) mesh \<Rightarrow> bool" where
  "adjacency_ok m \<longleftrightarrow> (\<forall>v<length (vertNodePool m). v_activeFrame (vertNodePool m ! v) = 0 \<and> distinct (adjcentQuads (vertNodePool m ! v)) \<and>
     (\<forall>q\<in>set (adjcentQuads (vertNodePool m ! v)). alloced m q \<and> v \<in> set (cornerVertNodes (quad_at m q))))"

definition links_ok :: "nat \<Rightarrow> ('v, 'f) mesh \<Rightarrow> bool" where
  "links_ok k m \<longleftrightarrow> kids (vertNodePool m) \<and>
     (\<forall>l\<le>k. \<forall>x\<le>2 ^ l. \<forall>y\<le>2 ^ l. v_level (vertNodePool m ! vid l x y) = l) \<and>
     (\<forall>l<k. \<forall>x\<le>2 ^ l. \<forall>y\<le>2 ^ l.
        v_parent (vertNodePool m ! vid (l + 1) (2 * x) (2 * y)) \<in> {None, Some (vid l x y)}) \<and>
     (\<forall>l<k. \<forall>x<2 ^ l. \<forall>y<2 ^ l.
        v_parent (vertNodePool m ! vid (l + 1) (2 * x + 1) (2 * y + 1)) \<noteq> None \<longrightarrow> vid l x y \<in> taken_at m)"

definition tree_inv :: "nat \<Rightarrow> ('v, 'f) mesh \<Rightarrow> bool" where
  "tree_inv k m \<longleftrightarrow> sized k m \<and> quads_ok k m \<and> adjacency_ok m \<and> links_ok k m"

lemmas tree_defs = tree_inv_def quads_ok_def adjacency_ok_def links_ok_def

section \<open>Access to the pools\<close>

lemma quad_at_upd:
  assumes "case q of Node i \<Rightarrow> i < length (quadNodePool m) | Leaf i \<Rightarrow> i < length (quadLeafPool m)"
  shows "quad_at (upd_quad q f m) r = (if r = q then f (quad_at m q) else quad_at m r)"
  using assms by (cases q; cases r) (auto simp: quad_at_def upd_quad_def nth_list_update)

lemma upd_quad_fields [simp]:
  "vertNodePool (upd_quad q f m) = vertNodePool m" "quadNodePoolAllocated (upd_quad q f m) = quadNodePoolAllocated m"
  "quadLeafPoolAllocated (upd_quad q f m) = quadLeafPoolAllocated m" "maxLevel (upd_quad q f m) = maxLevel m"
  "vertNodesLevelOffset (upd_quad q f m) = vertNodesLevelOffset m"
  "maxLevelVerticesLength (upd_quad q f m) = maxLevelVerticesLength m"
  "length (quadNodePool (upd_quad q f m)) = length (quadNodePool m)"
  "length (quadLeafPool (upd_quad q f m)) = length (quadLeafPool m)"
  by (cases q; simp add: upd_quad_def)+

lemma alloced_upd [simp]: "alloced (upd_quad q f m) = alloced m"
  by (rule ext) (simp add: alloced_def split: quad_ptr.split)

lemma alloced_verts [simp]: "alloced (m\<lparr>vertNodePool := vs\<rparr>) = alloced m"
  by (rule ext) (simp add: alloced_def split: quad_ptr.split)

lemma quad_at_verts [simp]: "quad_at (m\<lparr>vertNodePool := vs\<rparr>) = quad_at m"
  by (rule ext) (simp add: quad_at_def split: quad_ptr.split)

lemma corner0_verts [simp]: "corner0 (m\<lparr>vertNodePool := vs\<rparr>) = corner0 m"
  by (rule ext) (simp add: corner0_def)

lemma taken_at_verts [simp]: "taken_at (m\<lparr>vertNodePool := vs\<rparr>) = taken_at m"
  by (simp add: taken_at_def)

lemma quads_ok_verts [simp]: "quads_ok k (m\<lparr>vertNodePool := vs\<rparr>) = quads_ok k m"
  by (simp add: quads_ok_def quad_on_def)

lemma sized_upd [simp]: "sized k (upd_quad q f m) = sized k m"
  by (simp add: sized_def)

lemma corners_inside: "x < 2 ^ l \<Longrightarrow> y < 2 ^ l \<Longrightarrow> l \<le> k \<Longrightarrow> v \<in> set (corners_at l x y) \<Longrightarrow> v < voff (Suc k)"
  by (auto simp: corners_at_def intro!: vid_less)

lemma corners_distinct: "x < 2 ^ l \<Longrightarrow> y < 2 ^ l \<Longrightarrow> distinct (corners_at l x y)"
  by (auto simp: corners_at_def vid_inject)

section \<open>A new quad at its corners\<close>

definition add_quad :: "quad_ptr \<Rightarrow> nat list \<Rightarrow> ('v, 'f) vert_node list \<Rightarrow> ('v, 'f) vert_node list" where
  "add_quad q cs vs = fold (\<lambda>c. upd_vert c (\<lambda>n. n\<lparr>adjcentQuads := adjcentQuads n @ [q]\<rparr>)) cs vs"

lemma length_add_quad [simp]: "length (add_quad q cs vs) = length vs"
  unfolding add_quad_def by (induction cs arbitrary: vs) (simp_all add: upd_vert_def)

lemma add_quad_nth:
  assumes "distinct cs" "i < length vs"
  shows "add_quad q cs vs ! i =
    (if i \<in> set cs then (vs ! i)\<lparr>adjcentQuads := adjcentQuads (vs ! i) @ [q]\<rparr> else vs ! i)"
  using assms
proof (induction cs arbitrary: vs)
  case (Cons c cs)
  have "add_quad q (c # cs) vs = add_quad q cs (upd_vert c (\<lambda>n. n\<lparr>adjcentQuads := adjcentQuads n @ [q]\<rparr>) vs)"
    by (simp add: add_quad_def)
  then show ?case using Cons by (cases "c = i") (simp_all add: upd_vert_def)
qed (simp add: add_quad_def)

lemma add_to_corners:
  assumes "distinct cs" "\<forall>c\<in>set cs. c < length (vertNodePool m) \<and> guard (v_level (vertNodePool m ! c)) \<and>
      q \<notin> set (adjcentQuads (vertNodePool m ! c)) \<and> length (adjcentQuads (vertNodePool m ! c)) < 4"
  shows "rfold (add_to_corner q guard) cs m = ret (m\<lparr>vertNodePool := add_quad q cs (vertNodePool m)\<rparr>)"
  using assms
proof (induction cs arbitrary: m)
  case (Cons c cs)
  let ?vs = "upd_vert c (\<lambda>n. n\<lparr>adjcentQuads := adjcentQuads n @ [q]\<rparr>) (vertNodePool m)"
  have "add_to_corner q guard c m = ret (m\<lparr>vertNodePool := ?vs\<rparr>)"
    using Cons.prems by (simp add: add_to_corner_def addAdjcentQuad_def)
  moreover have "rfold (add_to_corner q guard) cs (m\<lparr>vertNodePool := ?vs\<rparr>) =
      ret (m\<lparr>vertNodePool := add_quad q cs ?vs\<rparr>)"
  proof -
    have "\<forall>d\<in>set cs. ?vs ! d = vertNodePool m ! d" using Cons.prems(1) by (auto simp: upd_vert_def intro!: nth_list_update_neq)
    moreover have "length ?vs = length (vertNodePool m)" by (simp add: upd_vert_def)
    ultimately show ?thesis using Cons.IH[of "m\<lparr>vertNodePool := ?vs\<rparr>"] Cons.prems by simp
  qed
  ultimately show ?case by (simp add: add_quad_def)
qed (simp add: add_quad_def)

text \<open>A vertex at a free position has at most three adjacent quads so far.\<close>

lemma few_adjacent:
  assumes inv: "tree_inv k m" and l: "l \<le> k" and xy: "x < 2 ^ l" "y < 2 ^ l"
    and free: "vid l x y \<notin> taken_at m" and v: "v \<in> set (corners_at l x y)"
  shows "length (adjcentQuads (vertNodePool m ! v)) < 4"
proof -
  let ?adj = "adjcentQuads (vertNodePool m ! v)"
  obtain x1 y1 where v1: "v = vid l x1 y1" "x1 = x \<or> x1 = x + 1" "y1 = y \<or> y1 = y + 1"
    using v by (auto simp: corners_at_def)
  let ?S = "{vid l (x1 - 1) (y1 - 1), vid l x1 (y1 - 1), vid l (x1 - 1) y1, vid l x1 y1}"
  have vlen: "v < length (vertNodePool m)"
    using corners_inside[OF xy l v] inv by (simp add: tree_inv_def sized_def)
  then have adj: "distinct ?adj" "\<forall>q\<in>set ?adj. alloced m q \<and> v \<in> set (cornerVertNodes (quad_at m q))"
    using inv by (auto simp: tree_inv_def adjacency_ok_def)
  have "corner0 m q \<in> ?S - {vid l x y}" if "q \<in> set ?adj" for q
  proof -
    have q: "alloced m q" "v \<in> set (cornerVertNodes (quad_at m q))" using adj(2) that by auto
    obtain l' x' y' where p: "x' < 2 ^ l'" "y' < 2 ^ l'" "quad_on m q l' x' y'"
      using inv q(1) by (auto simp: tree_inv_def quads_ok_def)
    then obtain x2 y2 where v2: "v = vid l' x2 y2" "x2 = x' \<or> x2 = x' + 1" "y2 = y' \<or> y2 = y' + 1"
      using q(2) by (auto simp: quad_on_def corners_at_def)
    have "x1 \<le> 2 ^ l" "y1 \<le> 2 ^ l" "x2 \<le> 2 ^ l'" "y2 \<le> 2 ^ l'" using v1(2,3) v2(2,3) xy p(1,2) by linarith+
    then have "l' = l" "x1 = x2" "y1 = y2" using vid_inject[of x1 l y1 x2 l' y2] v1(1) v2(1) by auto
    then have "corner0 m q \<in> ?S" using p(3) v2 by (auto simp: corner0_def quad_on_def corners_at_def)
    moreover have "corner0 m q \<in> taken_at m" using q(1) by (simp add: taken_at_def)
    ultimately show ?thesis using free by auto
  qed
  then have "corner0 m ` set ?adj \<subseteq> ?S - {vid l x y}" by (rule image_subsetI)
  moreover have "card (?S - {vid l x y}) < 4"
  proof -
    have "vid l x y \<in> ?S" using v1 by auto
    then have "card (?S - {vid l x y}) < card ?S" by (intro psubset_card_mono) auto
    also have "card ?S \<le> 4"
      using card_length[of "[vid l (x1 - 1) (y1 - 1), vid l x1 (y1 - 1), vid l (x1 - 1) y1, vid l x1 y1]"] by simp
    finally show ?thesis .
  qed
  ultimately have "card (corner0 m ` set ?adj) < 4" by (meson card_mono finite.emptyI finite.insertI finite_Diff order_le_less_trans)
  moreover have "inj_on (corner0 m) (set ?adj)"
    using inv adj(2) by (auto simp: tree_inv_def quads_ok_def inj_on_def)
  ultimately show ?thesis using adj(1) by (simp add: card_image distinct_card)
qed

text \<open>The fields that building the tree leaves alone.\<close>

definition quad_frame :: "('v, 'f) mesh \<Rightarrow> ('v, 'f) mesh \<Rightarrow> bool" where
  "quad_frame m m' \<longleftrightarrow> (\<exists>vs qs ls a b. m' = m\<lparr>vertNodePool := vs, quadNodePool := qs, quadLeafPool := ls,
     quadNodePoolAllocated := a, quadLeafPoolAllocated := b\<rparr>)"

lemma quad_frame_trans: "quad_frame m m' \<Longrightarrow> quad_frame m' m'' \<Longrightarrow> quad_frame m m''"
  unfolding quad_frame_def by (elim exE) (hypsubst, intro exI, simp)

lemma quad_frame_upd [simp]: "quad_frame m (upd_quad q f m)"
  unfolding quad_frame_def
  by (cases q; rule exI[of _ "vertNodePool m"], rule exI[of _ "quadNodePool (upd_quad q f m)"],
      rule exI[of _ "quadLeafPool (upd_quad q f m)"], rule exI[of _ "quadNodePoolAllocated m"],
      rule exI[of _ "quadLeafPoolAllocated m"], simp add: upd_quad_def)

lemma quad_frame_verts [simp]: "quad_frame m (m\<lparr>vertNodePool := vs\<rparr>)"
  unfolding quad_frame_def
  by (rule exI[of _ vs], rule exI[of _ "quadNodePool m"], rule exI[of _ "quadLeafPool m"],
      rule exI[of _ "quadNodePoolAllocated m"], rule exI[of _ "quadLeafPoolAllocated m"], simp)

lemma quad_frame_alloc [simp]:
  "quad_frame m (m\<lparr>quadNodePoolAllocated := a\<rparr>)" "quad_frame m (m\<lparr>quadLeafPoolAllocated := b\<rparr>)"
  unfolding quad_frame_def
  by (rule exI[of _ "vertNodePool m"], rule exI[of _ "quadNodePool m"], rule exI[of _ "quadLeafPool m"],
      rule exI[of _ a], rule exI[of _ "quadLeafPoolAllocated m"], simp)
    (rule exI[of _ "vertNodePool m"], rule exI[of _ "quadNodePool m"], rule exI[of _ "quadLeafPool m"],
      rule exI[of _ "quadNodePoolAllocated m"], rule exI[of _ b], simp)

text \<open>The mesh \<open>m1\<close> after the allocation of the quad \<open>q\<close> from a pool with room.\<close>

definition allocs :: "nat \<Rightarrow> ('v, 'f) mesh \<Rightarrow> quad_ptr \<Rightarrow> ('v, 'f) mesh \<Rightarrow> bool" where
  "allocs k m q m1 \<longleftrightarrow>
     (q = Node (quadNodePoolAllocated m) \<and> quadNodePoolAllocated m < inner_quads k \<and>
        m1 = m\<lparr>quadNodePoolAllocated := quadNodePoolAllocated m + 1\<rparr>) \<or>
     (q = Leaf (quadLeafPoolAllocated m) \<and> quadLeafPoolAllocated m < 4 ^ k \<and>
        m1 = m\<lparr>quadLeafPoolAllocated := quadLeafPoolAllocated m + 1\<rparr>)"

lemma allocs_fields:
  assumes "allocs k m q m1"
  shows "vertNodePool m1 = vertNodePool m" "quad_at m1 = quad_at m" "sized k m1 = sized k m" "quad_frame m m1"
    "quadNodePool m1 = quadNodePool m" "quadLeafPool m1 = quadLeafPool m"
    "alloced m1 r \<longleftrightarrow> alloced m r \<or> r = q" "\<not> alloced m q"
  using assms by (auto simp: allocs_def sized_def alloced_def quad_at_def fun_eq_iff split: quad_ptr.split)

lemma allocs_quads_ok:
  assumes ok: "quads_ok k m" "sized k m" and a: "allocs k m q m1"
    and l: "l \<le> k" "x < 2 ^ l" "y < 2 ^ l" and free: "vid l x y \<notin> taken_at m"
    and f: "\<And>n. cornerVertNodes (f n) = corners_at l x y" "\<And>n. q_level (f n) = l" "\<And>n. q_activeFrame (f n) = 0"
      "\<And>n. q_parent (f n) = None" "\<And>n. children (f n) = children n"
  shows "quads_ok k (upd_quad q f m1) \<and> taken_at (upd_quad q f m1) = insert (vid l x y) (taken_at m)"
proof -
  let ?m = "upd_quad q f m1"
  note af = allocs_fields[OF a]
  have "case q of Node i \<Rightarrow> i < length (quadNodePool m1) | Leaf i \<Rightarrow> i < length (quadLeafPool m1)"
    using a ok(2) by (auto simp: allocs_def sized_def)
  note at = quad_at_upd[OF this, of f, unfolded af(2)]
  have al: "alloced ?m r \<longleftrightarrow> alloced m r \<or> r = q" for r by (simp add: af(7))
  have c0: "corner0 ?m r = (if r = q then vid l x y else corner0 m r)" for r
    by (simp add: corner0_def at f(1) corners_at_def)
  have nq: "r \<noteq> q" if "alloced m r" for r using that af(8) by auto
  have set: "{r. alloced ?m r} = insert q {r. alloced m r}" using al by blast
  have img: "corner0 ?m ` {r. alloced m r} = corner0 m ` {r. alloced m r}" using nq c0 by (intro image_cong) auto
  have c0q: "corner0 ?m q = vid l x y" by (simp add: c0)
  have taken: "taken_at ?m = insert (vid l x y) (taken_at m)"
    unfolding taken_at_def set image_insert img c0q ..
  have inj: "inj_on (corner0 m) {r. alloced m r}" using ok(1) by (simp add: quads_ok_def)
  have new: "children (quad_at m q) = []" if "q = Node i" for i
    using ok(1) a that by (auto simp: allocs_def quads_ok_def quad_at_def new_quad_def)
  have pool: "children (quadNodePool ?m ! i) = children (quad_at ?m (Node i))" for i by (simp add: quad_at_def)
  have "quadNodePoolAllocated ?m \<le> inner_quads k \<and> quadLeafPoolAllocated ?m \<le> 4 ^ k"
    using a ok(1) by (auto simp: allocs_def quads_ok_def)
  moreover have "\<forall>r. alloced ?m r \<longrightarrow> (\<exists>l x y. l \<le> k \<and> x < 2 ^ l \<and> y < 2 ^ l \<and> quad_on ?m r l x y)"
    using ok(1) l nq f(1-3) by (auto simp: af(7) quads_ok_def quad_on_def at)
  moreover have "inj_on (corner0 ?m) {r. alloced ?m r}"
  proof -
    have "inj_on (corner0 ?m) {r. alloced m r}" using inj nq c0 by (intro inj_onI) (auto dest: inj_onD)
    moreover have "{r. alloced m r} - {q} = {r. alloced m r}" using nq by blast
    ultimately show ?thesis using free by (simp only: set inj_on_insert img c0q taken_at_def simp_thms)
  qed
  moreover have "\<forall>r p. alloced ?m r \<and> q_parent (quad_at ?m r) = Some p \<longrightarrow>
      alloced ?m p \<and> (\<exists>i. p = Node i) \<and> q_level (quad_at ?m r) = q_level (quad_at ?m p) + 1"
    using ok(1) nq f(4) by (auto simp: af(7) at quads_ok_def)
  moreover have "\<forall>i<quadNodePoolAllocated ?m. \<forall>c\<in>set (children (quadNodePool ?m ! i)).
      alloced ?m c \<and> q_parent (quad_at ?m c) = Some (Node i)"
  proof (intro allI impI ballI)
    fix i c assume i: "i < quadNodePoolAllocated ?m" and c: "c \<in> set (children (quadNodePool ?m ! i))"
    have c': "c \<in> set (children (if Node i = q then f (quad_at m q) else quad_at m (Node i)))"
      using c unfolding pool at .
    show "alloced ?m c \<and> q_parent (quad_at ?m c) = Some (Node i)"
    proof (cases "q = Node i")
      case True
      then show ?thesis using c' new f(5) by simp
    next
      case False
      then have "i < quadNodePoolAllocated m" using i a by (auto simp: allocs_def)
      moreover have "c \<in> set (children (quadNodePool m ! i))" using c' False by (simp add: quad_at_def)
      ultimately show ?thesis using ok(1) nq by (auto simp: af(7) at quads_ok_def)
    qed
  qed
  moreover have "\<forall>i. quadNodePoolAllocated ?m \<le> i \<and> i < inner_quads k \<longrightarrow> quadNodePool ?m ! i = new_quad"
    using ok(1) a by (auto simp: quads_ok_def allocs_def upd_quad_def nth_list_update)
  ultimately show ?thesis using taken unfolding quads_ok_def by blast
qed

lemma kids_cong:
  fixes vs vs' :: "('v, 'f) vert_node list"
  assumes "length vs' = length vs" "\<And>i. i < length vs \<Longrightarrow> v_parent (vs' ! i) = v_parent (vs ! i) \<and>
      firstChild (vs' ! i) = firstChild (vs ! i) \<and> nextSibling (vs' ! i) = nextSibling (vs ! i) \<and>
      v_level (vs' ! i) = v_level (vs ! i)"
  shows "kids vs' = kids vs"
proof -
  have "kids_ok vs' K" if "kids_ok vs K" and eq: "length vs' = length vs" "\<And>i. i < length vs \<Longrightarrow> v_parent (vs' ! i) = v_parent (vs ! i) \<and>
      firstChild (vs' ! i) = firstChild (vs ! i) \<and> nextSibling (vs' ! i) = nextSibling (vs ! i) \<and>
      v_level (vs' ! i) = v_level (vs ! i)" for K and vs vs' :: "('v, 'f) vert_node list"
  proof -
    have "chained vs' s (K p) = chained vs s (K p)" if "p < length vs" for s p
      using kids_memD(1)[OF \<open>kids_ok vs K\<close> that] eq(2) by (intro chained_cong) auto
    then show ?thesis using that unfolding kids_ok_def by auto
  qed
  from this[of vs _ vs'] this[of vs' _ vs] show ?thesis using assms unfolding kids_def by metis
qed

text \<open>
  A quad that is allocated, filled in and entered at its four corners: the invariant holds again,
  all other quads and all links of vertices are as before.
\<close>

definition placed :: "('v, 'f) mesh \<Rightarrow> quad_ptr \<Rightarrow> (quad_node \<Rightarrow> quad_node) \<Rightarrow> nat \<Rightarrow> ('v, 'f) mesh \<Rightarrow> bool" where
  "placed m q f v m' \<longleftrightarrow> quad_at m' q = f (quad_at m q) \<and> (\<forall>r. r \<noteq> q \<longrightarrow> quad_at m' r = quad_at m r) \<and>
     (\<forall>r. alloced m' r \<longleftrightarrow> alloced m r \<or> r = q) \<and> taken_at m' = insert v (taken_at m) \<and>
     (\<forall>i<length (vertNodePool m). v_parent (vertNodePool m' ! i) = v_parent (vertNodePool m ! i)) \<and> quad_frame m m'"

lemma place_quad:
  assumes inv: "tree_inv k m" and a: "allocs k m q m1"
    and l: "l \<le> k" "x < 2 ^ l" "y < 2 ^ l" and free: "vid l x y \<notin> taken_at m" and guard: "guard l"
    and f: "\<And>n. cornerVertNodes (f n) = corners_at l x y" "\<And>n. q_level (f n) = l" "\<And>n. q_activeFrame (f n) = 0"
      "\<And>n. q_parent (f n) = None" "\<And>n. children (f n) = children n"
  shows "\<exists>m'. rfold (add_to_corner q guard) (corners_at l x y) (upd_quad q f m1) = ret m' \<and> tree_inv k m' \<and>
    placed m q f (vid l x y) m' \<and> quadNodePoolAllocated m' = quadNodePoolAllocated m1 \<and>
    quadLeafPoolAllocated m' = quadLeafPoolAllocated m1"
proof -
  let ?cs = "corners_at l x y"
  let ?m = "upd_quad q f m1"
  let ?vs = "vertNodePool m"
  let ?vs' = "add_quad q ?cs ?vs"
  let ?m' = "?m\<lparr>vertNodePool := ?vs'\<rparr>"
  note af = allocs_fields[OF a]
  have sz: "sized k m" and qo: "quads_ok k m" and ao: "adjacency_ok m" and lo: "links_ok k m"
    using inv by (simp_all add: tree_inv_def)
  have in_pool: "case q of Node i \<Rightarrow> i < length (quadNodePool m1) | Leaf i \<Rightarrow> i < length (quadLeafPool m1)"
    using a sz by (auto simp: allocs_def sized_def)
  note at = quad_at_upd[OF in_pool, of f, unfolded af(2)]
  have Q: "quads_ok k ?m" "taken_at ?m = insert (vid l x y) (taken_at m)"
    using allocs_quads_ok[OF qo sz a l free, of f] f by simp_all
  have cs: "c < length ?vs" "v_level (?vs ! c) = l" "q \<notin> set (adjcentQuads (?vs ! c))"
    "length (adjcentQuads (?vs ! c)) < 4" if "c \<in> set ?cs" for c
  proof -
    show c: "c < length ?vs" using corners_inside[OF l(2,3,1) that] sz by (simp add: sized_def)
    show "v_level (?vs ! c) = l" using that lo l by (auto simp: corners_at_def links_ok_def)
    show "q \<notin> set (adjcentQuads (?vs ! c))" using ao c af(8) by (auto simp: adjacency_ok_def)
    show "length (adjcentQuads (?vs ! c)) < 4" by (rule few_adjacent[OF inv l free that])
  qed
  have run: "rfold (add_to_corner q guard) ?cs ?m = ret ?m'"
    using add_to_corners[OF corners_distinct[OF l(2,3)], of ?m guard q] cs guard by (simp add: af(1))
  note nth = add_quad_nth[OF corners_distinct[OF l(2,3)], of _ ?vs q]
  have "taken_at ?m' = taken_at ?m" by (simp add: taken_at_def corner0_def)
  moreover have "quads_ok k ?m'" using Q(1) by simp
  moreover have "adjacency_ok ?m'"
  proof -
    have "v_activeFrame (?vs' ! v) = 0 \<and> distinct (adjcentQuads (?vs' ! v)) \<and>
        (\<forall>r\<in>set (adjcentQuads (?vs' ! v)). alloced ?m r \<and> v \<in> set (cornerVertNodes (quad_at ?m r)))"
      if v: "v < length ?vs" for v
    proof -
      have "v_activeFrame (?vs ! v) = 0" "distinct (adjcentQuads (?vs ! v))"
        "\<And>r. r \<in> set (adjcentQuads (?vs ! v)) \<Longrightarrow> alloced m r \<and> v \<in> set (cornerVertNodes (quad_at m r)) \<and> r \<noteq> q"
        using ao v af(8) by (auto simp: adjacency_ok_def)
      then show ?thesis using cs(3) by (auto simp: nth[OF v] at f(1) af(7))
    qed
    then show ?thesis by (simp add: adjacency_ok_def)
  qed
  moreover have "links_ok k ?m'"
  proof -
    have "kids ?vs' = kids ?vs" by (rule kids_cong) (auto simp: nth)
    moreover have "v_parent (?vs' ! vid i a b) = v_parent (?vs ! vid i a b) \<and> v_level (?vs' ! vid i a b) = v_level (?vs ! vid i a b)"
      if "i \<le> k" "a \<le> 2 ^ i" "b \<le> 2 ^ i" for i a b
      using vid_less[OF that] sz by (auto simp: sized_def nth)
    ultimately show ?thesis using lo Q(2) \<open>taken_at ?m' = taken_at ?m\<close> by (simp add: links_ok_def) 
  qed
  moreover have "sized k ?m'" using sz af(3) by (simp add: sized_def af(1,5,6))
  moreover have "quad_frame m ?m'"
    using quad_frame_trans[OF af(4) quad_frame_trans[OF quad_frame_upd quad_frame_verts]] .
  ultimately show ?thesis using run Q(2)
    by (intro exI[of _ ?m']) (auto simp: tree_inv_def placed_def at af(7) nth)
qed

section \<open>Subtrees\<close>

text \<open>The first corners of the quads at and below a position.\<close>

definition below :: "nat \<Rightarrow> nat \<Rightarrow> nat \<Rightarrow> nat \<Rightarrow> nat set" where
  "below k l x y = {vid i a b | i a b. l \<le> i \<and> i \<le> k \<and> a div 2 ^ (i - l) = x \<and> b div 2 ^ (i - l) = y}"

lemma div_pow_less: "a div 2 ^ (i - l) < 2 ^ l \<Longrightarrow> l \<le> i \<Longrightarrow> a < (2::nat) ^ i"
  by (metis div_less_iff_less_mult le_add_diff_inverse power_add mult.commute zero_less_numeral zero_less_power)

lemma below_memD:
  assumes "v \<in> below k l x y" "x < 2 ^ l" "y < 2 ^ l"
  obtains i a b where "v = vid i a b" "l \<le> i" "i \<le> k" "a div 2 ^ (i - l) = x" "b div 2 ^ (i - l) = y" "a < 2 ^ i" "b < 2 ^ i"
  using assms div_pow_less unfolding below_def by blast

lemma belowI: "l \<le> i \<Longrightarrow> i \<le> k \<Longrightarrow> vid i a b \<in> below k l (a div 2 ^ (i - l)) (b div 2 ^ (i - l))"
  unfolding below_def by blast

lemma below_self: "l \<le> k \<Longrightarrow> vid l x y \<in> below k l x y"
  using belowI[of l l k x y] by simp

lemma below_leaf: "below k k x y = {vid k x y}"
  using below_self[of k k x y] by (auto simp: below_def)

lemma div_half: "a div 2 ^ (i - l) = a div 2 ^ (i - (l + 1)) div (2::nat)" if "l < i"
proof -
  have "i - l = Suc (i - (l + 1))" using that by simp
  then show ?thesis by (simp only: power_Suc2 div_mult2_eq)
qed

lemma below_up:
  assumes "v \<in> below k (l + 1) x y"
  shows "v \<in> below k l (x div 2) (y div 2)"
proof -
  obtain i a b where v: "v = vid i a b" "l + 1 \<le> i" "i \<le> k" "a div 2 ^ (i - (l + 1)) = x" "b div 2 ^ (i - (l + 1)) = y"
    using assms by (auto simp: below_def)
  then show ?thesis using belowI[of l i k a b] div_half[of l i] by simp
qed

lemma below_down:
  assumes "v \<in> below k l x y" "v \<noteq> vid l x y"
  shows "\<exists>x' y'. x' div 2 = x \<and> y' div 2 = y \<and> v \<in> below k (l + 1) x' y'"
proof -
  obtain i a b where v: "v = vid i a b" "l \<le> i" "i \<le> k" "a div 2 ^ (i - l) = x" "b div 2 ^ (i - l) = y"
    using assms(1) by (auto simp: below_def)
  then have "l < i" using assms(2) by (cases "i = l") auto
  then show ?thesis using v belowI[of "l + 1" i k a b] div_half[of l i] by auto
qed

lemma below_split:
  assumes "l < k"
  shows "below k l x y = insert (vid l x y) (below k (l + 1) (2 * x) (2 * y) \<union> below k (l + 1) (2 * x + 1) (2 * y) \<union>
    below k (l + 1) (2 * x + 1) (2 * y + 1) \<union> below k (l + 1) (2 * x) (2 * y + 1))" (is "_ = ?R")
proof (intro subset_antisym subsetI)
  fix v assume v: "v \<in> below k l x y"
  show "v \<in> ?R"
  proof (cases "v = vid l x y")
    case False
    obtain x' y' where xy: "x' div 2 = x" "y' div 2 = y" "v \<in> below k (l + 1) x' y'"
      using below_down[OF v False] by blast
    have "x' = 2 * x \<or> x' = 2 * x + 1" "y' = 2 * y \<or> y' = 2 * y + 1" using xy(1,2) by auto
    then show ?thesis using xy(3) by auto
  qed simp
next
  fix v assume "v \<in> ?R"
  then show "v \<in> below k l x y"
    using below_self[of l k x y] assms below_up[of v k l "2 * x" "2 * y"] below_up[of v k l "2 * x + 1" "2 * y"]
      below_up[of v k l "2 * x + 1" "2 * y + 1"] below_up[of v k l "2 * x" "2 * y + 1"] by auto
qed

lemma below_disjoint:
  assumes "x < 2 ^ l" "y < 2 ^ l" "x' < 2 ^ l" "y' < 2 ^ l" "(x, y) \<noteq> (x', y')"
  shows "below k l x y \<inter> below k l x' y' = {}"
proof (rule ccontr)
  assume "below k l x y \<inter> below k l x' y' \<noteq> {}"
  then obtain v where v: "v \<in> below k l x y" "v \<in> below k l x' y'" by blast
  obtain i a b where 1: "v = vid i a b" "l \<le> i" "a div 2 ^ (i - l) = x" "b div 2 ^ (i - l) = y" "a < 2 ^ i" "b < 2 ^ i"
    using below_memD[OF v(1) assms(1,2)] by metis
  obtain i' a' b' where 2: "v = vid i' a' b'" "l \<le> i'" "a' div 2 ^ (i' - l) = x'" "b' div 2 ^ (i' - l) = y'"
    "a' < 2 ^ i'" "b' < 2 ^ i'"
    using below_memD[OF v(2) assms(3,4)] by metis
  have "i = i' \<and> a = a' \<and> b = b'" using vid_inject[of a i b a' i' b'] 1 2 by auto
  then show False using 1 2 assms(5) by auto
qed

lemma not_below_deeper:
  assumes "x < 2 ^ l" "y < 2 ^ l" "x' < 2 ^ (l + 1)" "y' < 2 ^ (l + 1)"
  shows "vid l x y \<notin> below k (l + 1) x' y'"
proof
  assume "vid l x y \<in> below k (l + 1) x' y'"
  then obtain i a b where "vid l x y = vid i a b" "l + 1 \<le> i" "a < 2 ^ i" "b < 2 ^ i"
    using below_memD[OF _ assms(3,4)] by metis
  then show False using vid_inject[of x l y a i b] assms by auto
qed

text \<open>The complete subtree of depth \<open>d\<close> at a position.\<close>

fun complete :: "('v, 'f) mesh \<Rightarrow> nat \<Rightarrow> quad_ptr \<Rightarrow> nat \<Rightarrow> nat \<Rightarrow> nat \<Rightarrow> bool" where
  "complete m 0 q l x y \<longleftrightarrow>
     (\<exists>i. q = Leaf i) \<and> alloced m q \<and> cornerVertNodes (quad_at m q) = corners_at l x y"
| "complete m (Suc d) q l x y \<longleftrightarrow>
     (\<exists>i. q = Node i) \<and> alloced m q \<and> cornerVertNodes (quad_at m q) = corners_at l x y \<and>
     (\<exists>q0 q1 q2 q3. children (quad_at m q) = [q0, q1, q2, q3] \<and>
        complete m d q0 (l + 1) (2 * x) (2 * y) \<and> complete m d q1 (l + 1) (2 * x + 1) (2 * y) \<and>
        complete m d q2 (l + 1) (2 * x + 1) (2 * y + 1) \<and> complete m d q3 (l + 1) (2 * x) (2 * y + 1))"

lemma complete_cong:
  assumes "complete m d q l x y" "\<And>r. alloced m r \<Longrightarrow> alloced m' r \<and>
      cornerVertNodes (quad_at m' r) = cornerVertNodes (quad_at m r) \<and> children (quad_at m' r) = children (quad_at m r)"
  shows "complete m' d q l x y"
  using assms(1) by (induction d arbitrary: q l x y) (use assms(2) in \<open>fastforce+\<close>)

text \<open>The vertices of all finer levels on a square have parents.\<close>

definition rooted :: "nat \<Rightarrow> ('v, 'f) mesh \<Rightarrow> nat \<Rightarrow> nat \<Rightarrow> nat \<Rightarrow> bool" where
  "rooted k m l x y \<longleftrightarrow> (\<forall>i a b. l < i \<and> i \<le> k \<and> x * 2 ^ (i - l) \<le> a \<and> a \<le> (x + 1) * 2 ^ (i - l) \<and>
     y * 2 ^ (i - l) \<le> b \<and> b \<le> (y + 1) * 2 ^ (i - l) \<longrightarrow> v_parent (vertNodePool m ! vid i a b) \<noteq> None)"

text \<open>What a call at level \<open>l\<close> keeps of the mesh.\<close>

definition extends :: "nat \<Rightarrow> nat \<Rightarrow> ('v, 'f) mesh \<Rightarrow> ('v, 'f) mesh \<Rightarrow> bool" where
  "extends k l m m' \<longleftrightarrow> tree_inv k m' \<and> quad_frame m m' \<and>
     (\<forall>r. alloced m r \<longrightarrow> alloced m' r \<and> quad_at m' r = quad_at m r) \<and>
     (\<forall>v<length (vertNodePool m). (v_level (vertNodePool m ! v) \<le> l \<longrightarrow>
          v_parent (vertNodePool m' ! v) = v_parent (vertNodePool m ! v)) \<and>
        (\<forall>p. v_parent (vertNodePool m ! v) = Some p \<longrightarrow> v_parent (vertNodePool m' ! v) = Some p))"

end
