(* ===== verification/Terrain_Complete.thy ===== *)
theory Terrain_Complete
  imports Terrain_Tree
begin

text \<open>
  The recursion that builds the quads: what one call does, and that \<^verbatim>\<open>build\<close> returns with the
  complete tree of quads over a forest of vertices in which every vertex below the top level
  has a parent one level up.
\<close>

section \<open>Composing calls\<close>

lemma tree_length: "tree_inv k m \<Longrightarrow> length (vertNodePool m) = voff (Suc k)"
  by (simp add: tree_inv_def sized_def)

lemma tree_level:
  assumes "tree_inv k m" "tree_inv k m'" "v < voff (Suc k)"
  shows "v_level (vertNodePool m' ! v) = v_level (vertNodePool m ! v)"
proof -
  obtain l x y where "l \<le> k" "x \<le> 2 ^ l" "y \<le> 2 ^ l" "v = vid l x y" using vid_exhaust[OF assms(3)] .
  then show ?thesis using assms(1,2) by (simp add: tree_inv_def links_ok_def)
qed

lemma extendsD:
  assumes "extends k l m m'"
  shows "tree_inv k m'" "quad_frame m m'" "alloced m r \<Longrightarrow> alloced m' r" "alloced m r \<Longrightarrow> quad_at m' r = quad_at m r"
    "v < length (vertNodePool m) \<Longrightarrow> v_level (vertNodePool m ! v) \<le> l \<Longrightarrow>
      v_parent (vertNodePool m' ! v) = v_parent (vertNodePool m ! v)"
    "v < length (vertNodePool m) \<Longrightarrow> v_parent (vertNodePool m ! v) = Some p \<Longrightarrow> v_parent (vertNodePool m' ! v) = Some p"
  using assms by (simp_all add: extends_def)

lemma extends_refl: "tree_inv k m \<Longrightarrow> extends k l m m"
  unfolding extends_def using quad_frame_verts[of m "vertNodePool m"] by simp

lemma extends_trans:
  assumes "tree_inv k m" "extends k l m m'" "extends k l' m' m''" "l \<le> l'"
  shows "extends k l m m''"
  unfolding extends_def
proof (intro conjI allI impI)
  note e = extendsD[OF assms(2)] and e' = extendsD[OF assms(3)]
  note len = tree_length[OF assms(1)] tree_length[OF e(1)]
  show "tree_inv k m''" by (rule e'(1))
  show "quad_frame m m''" by (rule quad_frame_trans[OF e(2) e'(2)])
  show "alloced m'' r" "quad_at m'' r = quad_at m r" if "alloced m r" for r
    using e(3,4)[OF that] e'(3,4)[of r] by auto
  fix v assume v: "v < length (vertNodePool m)"
  then have "v_level (vertNodePool m' ! v) = v_level (vertNodePool m ! v)"
    using tree_level[OF assms(1) e(1)] len by simp
  then show "v_parent (vertNodePool m'' ! v) = v_parent (vertNodePool m ! v)"
    if "v_level (vertNodePool m ! v) \<le> l"
    using that e(5)[of v] e'(5)[of v] v len assms(4) by simp
  show "v_parent (vertNodePool m'' ! v) = Some p" if "v_parent (vertNodePool m ! v) = Some p" for p
    using that e(6)[of v p] e'(6)[of v p] v len by simp
qed

lemma extends_weaken: "extends k l' m m' \<Longrightarrow> l \<le> l' \<Longrightarrow> extends k l m m'"
  unfolding extends_def by auto

lemma extends_complete:
  assumes "extends k l m m'" "complete m d q i x y"
  shows "complete m' d q i x y"
  by (rule complete_cong[OF assms(2)]) (use extendsD(3,4)[OF assms(1)] in auto)

lemma rooted_vid:
  assumes "l < i" "i \<le> k" "x < 2 ^ l" "a \<le> (x + 1) * 2 ^ (i - l)"
  shows "a \<le> (2::nat) ^ i"
proof -
  have "(x + 1) * 2 ^ (i - l) \<le> 2 ^ l * (2::nat) ^ (i - l)" using assms(3) by (intro mult_le_mono1) simp
  also have "\<dots> = 2 ^ i" using assms(1) by (simp flip: power_add)
  finally show ?thesis using assms(4) by simp
qed

section \<open>Linking the children\<close>

lemma quads_ok_upd:
  assumes "quads_ok k m" "alloced m q" "sized k m"
    and f: "\<And>n. cornerVertNodes (f n) = cornerVertNodes n" "\<And>n. q_level (f n) = q_level n"
      "\<And>n. q_activeFrame (f n) = q_activeFrame n"
    and p: "q_parent (f (quad_at m q)) = q_parent (quad_at m q) \<or> q_parent (quad_at m q) = None \<and>
       (\<exists>i<quadNodePoolAllocated m. q_parent (f (quad_at m q)) = Some (Node i) \<and> q_level (quad_at m q) = q_level (quad_at m (Node i)) + 1)"
    and c: "\<And>i d. q = Node i \<Longrightarrow> d \<in> set (children (f (quad_at m q))) \<Longrightarrow> d \<noteq> q \<and> alloced m d \<and> q_parent (quad_at m d) = Some (Node i)"
  shows "quads_ok k (upd_quad q f m) \<and> corner0 (upd_quad q f m) = corner0 m \<and>
    (\<forall>r. quad_at (upd_quad q f m) r = (if r = q then f (quad_at m q) else quad_at m r))"
proof -
  let ?m = "upd_quad q f m"
  have pool: "case q of Node i \<Rightarrow> i < length (quadNodePool m) | Leaf i \<Rightarrow> i < length (quadLeafPool m)"
    using assms(1-3) by (cases q) (auto simp: alloced_def quads_ok_def sized_def)
  note at = quad_at_upd[OF pool, of f]
  have c0: "corner0 ?m = corner0 m" by (rule ext) (simp add: corner0_def at f(1))
  have chil: "children (quadNodePool ?m ! i) = children (quad_at ?m (Node i))" for i by (simp add: quad_at_def)
  have "\<forall>r. alloced ?m r \<longrightarrow> (\<exists>l x y. l \<le> k \<and> x < 2 ^ l \<and> y < 2 ^ l \<and> quad_on ?m r l x y)"
    using assms(1) f by (auto simp: quads_ok_def quad_on_def at)
  moreover have "inj_on (corner0 ?m) {r. alloced ?m r}" using assms(1) by (simp add: quads_ok_def c0)
  moreover have "\<forall>r s. alloced ?m r \<and> q_parent (quad_at ?m r) = Some s \<longrightarrow>
      alloced ?m s \<and> (\<exists>i. s = Node i) \<and> q_level (quad_at ?m r) = q_level (quad_at ?m s) + 1"
  proof (intro allI impI)
    fix r s assume r: "alloced ?m r \<and> q_parent (quad_at ?m r) = Some s"
    have lev: "q_level (quad_at ?m t) = q_level (quad_at m t)" for t by (simp add: at f(2))
    have old: "alloced m s \<and> (\<exists>i. s = Node i) \<and> q_level (quad_at m r) = q_level (quad_at m s) + 1"
      if "q_parent (quad_at m r) = Some s" using assms(1) r that by (auto simp: quads_ok_def)
    show "alloced ?m s \<and> (\<exists>i. s = Node i) \<and> q_level (quad_at ?m r) = q_level (quad_at ?m s) + 1"
    proof (cases "q_parent (quad_at m r) = Some s")
      case True
      then show ?thesis using old by (simp add: lev)
    next
      case False
      then have "r = q" using r by (auto simp: at split: if_splits)
      then obtain i where "i < quadNodePoolAllocated m" "s = Node i" "q_level (quad_at m q) = q_level (quad_at m (Node i)) + 1"
        using p r False by (auto simp: at)
      then show ?thesis using \<open>r = q\<close> by (simp add: lev alloced_def)
    qed
  qed
  moreover have "\<forall>i<quadNodePoolAllocated ?m. \<forall>d\<in>set (children (quadNodePool ?m ! i)).
      alloced ?m d \<and> q_parent (quad_at ?m d) = Some (Node i)"
  proof (intro allI impI ballI)
    fix i d assume i: "i < quadNodePoolAllocated ?m" and d: "d \<in> set (children (quadNodePool ?m ! i))"
    have d': "d \<in> set (children (if Node i = q then f (quad_at m q) else quad_at m (Node i)))" using d unfolding chil at .
    have old: "alloced m d \<and> q_parent (quad_at m d) = Some (Node i)"
    proof (cases "Node i = q")
      case True
      then show ?thesis using c[of i d] d' by auto
    next
      case False
      then have "d \<in> set (children (quadNodePool m ! i))" using d' by (simp add: quad_at_def)
      then show ?thesis using assms(1) i by (auto simp: quads_ok_def)
    qed
    moreover have "q_parent (quad_at ?m d) = q_parent (quad_at m d)"
      using old p by (auto simp: at)
    ultimately show "alloced ?m d \<and> q_parent (quad_at ?m d) = Some (Node i)" by simp
  qed
  moreover have "\<forall>i. quadNodePoolAllocated ?m \<le> i \<and> i < inner_quads k \<longrightarrow> quadNodePool ?m ! i = new_quad"
  proof (intro allI impI)
    fix i assume i: "quadNodePoolAllocated ?m \<le> i \<and> i < inner_quads k"
    then have "Node i \<noteq> q" using assms(2) by (auto simp: alloced_def)
    then have "quad_at ?m (Node i) = quad_at m (Node i)" by (simp add: at)
    then show "quadNodePool ?m ! i = new_quad" using assms(1) i by (simp add: quad_at_def quads_ok_def)
  qed
  moreover have "quadNodePoolAllocated ?m \<le> inner_quads k \<and> quadLeafPoolAllocated ?m \<le> 4 ^ k"
    using assms(1) by (simp add: quads_ok_def)
  ultimately have "quads_ok k ?m" unfolding quads_ok_def by blast
  then show ?thesis using c0 at by simp
qed

lemma upd_quad_commute: "q \<noteq> r \<Longrightarrow> upd_quad q f (upd_quad r g m) = upd_quad r g (upd_quad q f m)"
  by (cases q; cases r) (simp_all add: upd_quad_def list_update_swap)

abbreviation set_parent :: "nat \<Rightarrow> quad_ptr \<Rightarrow> ('v, 'f) mesh \<Rightarrow> ('v, 'f) mesh" where
  "set_parent i q \<equiv> upd_quad q (\<lambda>n. n\<lparr>q_parent := Some (Node i)\<rparr>)"

lemma fold_set_parent_commute:
  "Node i \<notin> set qs \<Longrightarrow> fold (set_parent i) qs (upd_quad (Node i) f m) = upd_quad (Node i) f (fold (set_parent i) qs m)"
proof (induction qs arbitrary: m)
  case (Cons q qs)
  then have "set_parent i q (upd_quad (Node i) f m) = upd_quad (Node i) f (set_parent i q m)"
    by (intro upd_quad_commute) auto
  then show ?case using Cons by simp
qed simp

lemma set_parents:
  assumes "quads_ok k m" "sized k m" "i < quadNodePoolAllocated m" "distinct qs"
    "\<forall>q\<in>set qs. alloced m q \<and> q_parent (quad_at m q) = None \<and> q_level (quad_at m q) = q_level (quad_at m (Node i)) + 1"
  shows "quads_ok k (fold (set_parent i) qs m) \<and> sized k (fold (set_parent i) qs m) \<and>
    corner0 (fold (set_parent i) qs m) = corner0 m \<and> alloced (fold (set_parent i) qs m) = alloced m \<and>
    vertNodePool (fold (set_parent i) qs m) = vertNodePool m \<and> quad_frame m (fold (set_parent i) qs m) \<and>
    quadNodePoolAllocated (fold (set_parent i) qs m) = quadNodePoolAllocated m \<and>
    quadLeafPoolAllocated (fold (set_parent i) qs m) = quadLeafPoolAllocated m \<and>
    (\<forall>r. quad_at (fold (set_parent i) qs m) r =
       (if r \<in> set qs then (quad_at m r)\<lparr>q_parent := Some (Node i)\<rparr> else quad_at m r))"
  using assms
proof (induction qs arbitrary: m)
  case Nil
  then show ?case using quad_frame_verts[of m "vertNodePool m"] by simp
next
  case (Cons q qs)
  let ?m = "set_parent i q m"
  have q: "alloced m q" "q_parent (quad_at m q) = None" "q_level (quad_at m q) = q_level (quad_at m (Node i)) + 1"
    using Cons.prems(5) by auto
  have "children (quad_at m q) = children (quadNodePool m ! j)" if "q = Node j" for j using that by (simp add: quad_at_def)
  moreover have "j < quadNodePoolAllocated m" if "q = Node j" for j using that q(1) by (simp add: alloced_def)
  ultimately have kids: "d \<noteq> q \<and> alloced m d \<and> q_parent (quad_at m d) = Some (Node j)"
    if "q = Node j" "d \<in> set (children (quad_at m q))" for j d
    using Cons.prems(1) that q(2) unfolding quads_ok_def by (metis option.distinct(1))
  have 1: "quads_ok k ?m \<and> corner0 ?m = corner0 m \<and>
      (\<forall>r. quad_at ?m r = (if r = q then (quad_at m q)\<lparr>q_parent := Some (Node i)\<rparr> else quad_at m r))"
    by (rule quads_ok_upd) (use Cons.prems(1-3) q kids in auto)
  have "Node i \<noteq> q" using q(3) by auto
  then have "\<forall>r\<in>set qs. alloced ?m r \<and> q_parent (quad_at ?m r) = None \<and> q_level (quad_at ?m r) = q_level (quad_at ?m (Node i)) + 1"
    using Cons.prems(4,5) 1 by auto
  then have "quads_ok k (fold (set_parent i) qs ?m) \<and> sized k (fold (set_parent i) qs ?m) \<and>
    corner0 (fold (set_parent i) qs ?m) = corner0 ?m \<and> alloced (fold (set_parent i) qs ?m) = alloced ?m \<and>
    vertNodePool (fold (set_parent i) qs ?m) = vertNodePool ?m \<and> quad_frame ?m (fold (set_parent i) qs ?m) \<and>
    quadNodePoolAllocated (fold (set_parent i) qs ?m) = quadNodePoolAllocated ?m \<and>
    quadLeafPoolAllocated (fold (set_parent i) qs ?m) = quadLeafPoolAllocated ?m \<and>
    (\<forall>r. quad_at (fold (set_parent i) qs ?m) r =
       (if r \<in> set qs then (quad_at ?m r)\<lparr>q_parent := Some (Node i)\<rparr> else quad_at ?m r))"
    using Cons.IH[of ?m] 1 Cons.prems(2-4) by simp
  then show ?case using 1 Cons.prems(4) quad_frame_trans[OF quad_frame_upd[of m q]] by auto
qed

text \<open>The four children linked below node \<open>i\<close>.\<close>

definition link_children :: "nat \<Rightarrow> quad_ptr list \<Rightarrow> ('v, 'f) mesh \<Rightarrow> ('v, 'f) mesh" where
  "link_children i qs m = fold (\<lambda>q. upd_quad q (\<lambda>n. n\<lparr>q_parent := Some (Node i)\<rparr>)) qs
     (upd_quad (Node i) (\<lambda>n. n\<lparr>children := qs\<rparr>) m)"

lemma link_children_ok:
  assumes inv: "tree_inv k m" and "i < quadNodePoolAllocated m" "distinct qs"
    "\<forall>q\<in>set qs. alloced m q \<and> q_parent (quad_at m q) = None \<and> q_level (quad_at m q) = q_level (quad_at m (Node i)) + 1"
  shows "tree_inv k (link_children i qs m) \<and> quad_frame m (link_children i qs m) \<and>
    alloced (link_children i qs m) = alloced m \<and> vertNodePool (link_children i qs m) = vertNodePool m \<and>
    taken_at (link_children i qs m) = taken_at m \<and>
    quadNodePoolAllocated (link_children i qs m) = quadNodePoolAllocated m \<and>
    quadLeafPoolAllocated (link_children i qs m) = quadLeafPoolAllocated m \<and>
    (\<forall>r. quad_at (link_children i qs m) r =
      (if r = Node i then (quad_at m r)\<lparr>children := qs\<rparr>
       else if r \<in> set qs then (quad_at m r)\<lparr>q_parent := Some (Node i)\<rparr> else quad_at m r))"
proof -
  have ni: "Node i \<notin> set qs" using assms(4) by auto
  define m1 where "m1 = fold (set_parent i) qs m"
  have eq: "link_children i qs m = upd_quad (Node i) (\<lambda>n. n\<lparr>children := qs\<rparr>) m1"
    unfolding link_children_def m1_def by (rule fold_set_parent_commute[OF ni])
  have 1: "quads_ok k m1" "sized k m1" "corner0 m1 = corner0 m" "alloced m1 = alloced m" "vertNodePool m1 = vertNodePool m"
    "quad_frame m m1" "quadNodePoolAllocated m1 = quadNodePoolAllocated m" "quadLeafPoolAllocated m1 = quadLeafPoolAllocated m"
    "\<And>r. quad_at m1 r = (if r \<in> set qs then (quad_at m r)\<lparr>q_parent := Some (Node i)\<rparr> else quad_at m r)"
    using set_parents[of k m i qs] inv assms(2-4) by (simp_all add: m1_def tree_inv_def)
  have "quads_ok k (link_children i qs m) \<and> corner0 (link_children i qs m) = corner0 m1 \<and>
    (\<forall>r. quad_at (link_children i qs m) r = (if r = Node i then (quad_at m1 (Node i))\<lparr>children := qs\<rparr> else quad_at m1 r))"
    unfolding eq by (rule quads_ok_upd[OF 1(1) _ 1(2)])
      (use assms(2,4) ni 1(4,7,9) in \<open>auto simp: alloced_def\<close>)
  then have 2: "quads_ok k (link_children i qs m)" "corner0 (link_children i qs m) = corner0 m"
    "\<And>r. quad_at (link_children i qs m) r = (if r = Node i then (quad_at m r)\<lparr>children := qs\<rparr>
       else if r \<in> set qs then (quad_at m r)\<lparr>q_parent := Some (Node i)\<rparr> else quad_at m r)"
    using 1(3,9) ni by auto
  have al: "alloced (link_children i qs m) = alloced m" by (simp add: eq 1(4))
  have vs: "vertNodePool (link_children i qs m) = vertNodePool m" by (simp add: eq 1(5))
  have tk: "taken_at (link_children i qs m) = taken_at m" by (simp add: taken_at_def al 2(2))
  have "adjacency_ok (link_children i qs m)" using inv by (simp add: tree_inv_def adjacency_ok_def al vs 2(3))
  moreover have "links_ok k (link_children i qs m)" using inv by (simp add: tree_inv_def links_ok_def vs tk)
  moreover have "sized k (link_children i qs m)" by (simp add: eq 1(2))
  moreover have "quad_frame m (link_children i qs m)" unfolding eq by (rule quad_frame_trans[OF 1(6) quad_frame_upd])
  ultimately show ?thesis using 2 al vs tk by (simp add: tree_inv_def eq 1(7,8))
qed

section \<open>The collapse in the tree\<close>

text \<open>The thirteen vertices of the quad at a position.\<close>

definition collapse_at :: "nat \<Rightarrow> nat \<Rightarrow> nat \<Rightarrow> collapse" where
  "collapse_at l x y =
     \<lparr>childBt = vid (l + 1) (2 * x + 1) (2 * y), childRt = vid (l + 1) (2 * x + 2) (2 * y + 1),
      childTp = vid (l + 1) (2 * x + 1) (2 * y + 2), childLf = vid (l + 1) (2 * x) (2 * y + 1),
      childCt = vid (l + 1) (2 * x + 1) (2 * y + 1), childSw = vid (l + 1) (2 * x) (2 * y),
      childSe = vid (l + 1) (2 * x + 2) (2 * y), childNe = vid (l + 1) (2 * x + 2) (2 * y + 2),
      childNw = vid (l + 1) (2 * x) (2 * y + 2), parentSw = vid l x y, parentSe = vid l (x + 1) y,
      parentNe = vid l (x + 1) (y + 1), parentNw = vid l x (y + 1)\<rparr>"

lemma fine_collapse_at:
  "fine (collapse_at l x y) =
    (\<lambda>(a, b). vid (l + 1) a b) ` ({2 * x, 2 * x + 1, 2 * x + 2} \<times> {2 * y, 2 * y + 1, 2 * y + 2})"
  by (simp add: collapse_at_def insert_commute insert_Times_insert)

lemma fineE:
  assumes "c \<in> fine (collapse_at l x y)"
  obtains a b where "c = vid (l + 1) a b" "2 * x \<le> a" "a \<le> 2 * x + 2" "2 * y \<le> b" "b \<le> 2 * y + 2"
  using assms unfolding fine_collapse_at by auto

lemma fineI:
  assumes "2 * x \<le> a" "a \<le> 2 * x + 2" "2 * y \<le> b" "b \<le> 2 * y + 2"
  shows "vid (l + 1) a b \<in> fine (collapse_at l x y)"
proof -
  have "a \<in> {2 * x, 2 * x + 1, 2 * x + 2}" "b \<in> {2 * y, 2 * y + 1, 2 * y + 2}" using assms by auto
  then show ?thesis unfolding fine_collapse_at by (auto intro!: image_eqI[of _ _ "(a, b)"])
qed

lemma collapse_bounds: "x < 2 ^ l \<Longrightarrow> a \<le> 2 * x + 2 \<Longrightarrow> a \<le> (2::nat) ^ (l + 1)"
  by simp

lemma collapsible_at:
  assumes inv: "tree_inv k m" and l: "l < k" "x < 2 ^ l" "y < 2 ^ l"
    and ct: "v_parent (vertNodePool m ! vid (l + 1) (2 * x + 1) (2 * y + 1)) = None"
  shows "collapsible l (collapse_at l x y) (vertNodePool m)"
proof -
  let ?vs = "vertNodePool m" and ?k = "collapse_at l x y"
  have lk: "links_ok k m" and len: "length ?vs = voff (Suc k)" using inv by (simp_all add: tree_inv_def sized_def)
  have "c < length ?vs \<and> v_level (?vs ! c) = l + 1" if cf: "c \<in> fine ?k" for c
  proof -
    obtain a b where c: "c = vid (l + 1) a b" "a \<le> 2 * x + 2" "b \<le> 2 * y + 2" using fineE[OF cf] by metis
    have ab: "a \<le> 2 ^ (l + 1)" "b \<le> 2 ^ (l + 1)" using c(2,3) collapse_bounds l by blast+
    then show ?thesis using lk len l(1) vid_less[of "l + 1" k a b] unfolding c(1) links_ok_def by simp
  qed
  moreover have "p < length ?vs \<and> v_level (?vs ! p) = l" if "p \<in> coarse ?k" for p
    using that l lk len vid_less[of l k] by (auto simp: collapse_at_def links_ok_def)
  moreover have "distinct [childSw ?k, childSe ?k, childNe ?k, childNw ?k, childBt ?k, childRt ?k, childTp ?k, childLf ?k, childCt ?k]"
    using l by (simp add: collapse_at_def vid_inject)
  moreover have "v_parent (?vs ! vid (l + 1) (2 * a) (2 * b)) \<in> {None, Some (vid l a b)}" if "a \<le> 2 ^ l" "b \<le> 2 ^ l" for a b
    using lk l(1) that by (auto simp: links_ok_def)
  note this[of x y] this[of "x + 1" y] this[of "x + 1" "y + 1"] this[of x "y + 1"]
  ultimately show ?thesis
    unfolding collapsible_def using lk ct l by (simp add: collapse_at_def links_ok_def)
qed

lemma links_after_collapse:
  assumes inv: "tree_inv k m" and l: "l < k" "x < 2 ^ l" "y < 2 ^ l" and tk: "vid l x y \<in> taken_at m"
    and gr: "grows (fine (collapse_at l x y)) (vertNodePool m) vs"
    and cs: "v_parent (vs ! vid (l + 1) (2 * x) (2 * y)) = Some (vid l x y)"
      "v_parent (vs ! vid (l + 1) (2 * x + 2) (2 * y)) = Some (vid l (x + 1) y)"
      "v_parent (vs ! vid (l + 1) (2 * x + 2) (2 * y + 2)) = Some (vid l (x + 1) (y + 1))"
      "v_parent (vs ! vid (l + 1) (2 * x) (2 * y + 2)) = Some (vid l x (y + 1))"
  shows "tree_inv k (m\<lparr>vertNodePool := vs\<rparr>)"
proof -
  let ?m = "m\<lparr>vertNodePool := vs\<rparr>" and ?F = "fine (collapse_at l x y)"
  note g = growsD[OF gr]
  have lo: "links_ok k m" using inv by (simp add: tree_inv_def)
  have pos: "l' = l \<and> 2 * x \<le> a \<and> a \<le> 2 * x + 2 \<and> 2 * y \<le> b \<and> b \<le> 2 * y + 2"
    if vf: "vid (l' + 1) a b \<in> ?F" and "a \<le> 2 ^ (l' + 1)" "b \<le> 2 ^ (l' + 1)" for l' a b
  proof -
    obtain a' b' where ab: "vid (l' + 1) a b = vid (l + 1) a' b'" "2 * x \<le> a'" "a' \<le> 2 * x + 2" "2 * y \<le> b'" "b' \<le> 2 * y + 2"
      using fineE[OF vf] .
    have "a' \<le> 2 ^ (l + 1)" "b' \<le> 2 ^ (l + 1)" using ab l collapse_bounds by blast+
    then show ?thesis using vid_inject[OF that(2,3)] ab by auto
  qed
  have "v_parent (vs ! vid (l' + 1) (2 * a) (2 * b)) \<in> {None, Some (vid l' a b)}" if "l' < k" "a \<le> 2 ^ l'" "b \<le> 2 ^ l'" for l' a b
  proof (cases "vid (l' + 1) (2 * a) (2 * b) \<in> ?F")
    case True
    then have "l' = l" "a = x \<or> a = x + 1" "b = y \<or> b = y + 1" using pos[OF True] that by auto
    then show ?thesis using cs by auto
  next
    case False
    then show ?thesis using g(5)[OF False] lo that by (simp add: links_ok_def)
  qed
  moreover have "vid l' a b \<in> taken_at m"
    if "l' < k" "a < 2 ^ l'" "b < 2 ^ l'" "v_parent (vs ! vid (l' + 1) (2 * a + 1) (2 * b + 1)) \<noteq> None" for l' a b
  proof (cases "vid (l' + 1) (2 * a + 1) (2 * b + 1) \<in> ?F")
    case True
    then have "l' = l" "a = x" "b = y" using pos[OF True] that(2,3) by auto
    then show ?thesis using tk by simp
  next
    case False
    then show ?thesis using g(5)[OF False] lo that unfolding links_ok_def by metis
  qed
  ultimately have "links_ok k ?m" using lo g(1,4) by (simp add: links_ok_def)
  moreover have "adjacency_ok ?m" using inv same_nodesD(1,3,5)[OF g(2)] by (simp add: tree_inv_def adjacency_ok_def)
  ultimately show ?thesis using inv g(3) by (simp add: tree_inv_def sized_def)
qed

lemma collapse_in_tree:
  assumes inv: "tree_inv k m" and l: "l < k" "x < 2 ^ l" "y < 2 ^ l" and i: "i < quadNodePoolAllocated m"
    and q: "cornerVertNodes (quad_at m (Node i)) = corners_at l x y" "children (quad_at m (Node i)) = [q0, q1, q2, q3]"
      "cornerVertNodes (quad_at m q0) = corners_at (l + 1) (2 * x) (2 * y)"
      "cornerVertNodes (quad_at m q1) = corners_at (l + 1) (2 * x + 1) (2 * y)"
      "cornerVertNodes (quad_at m q2) = corners_at (l + 1) (2 * x + 1) (2 * y + 1)"
      "cornerVertNodes (quad_at m q3) = corners_at (l + 1) (2 * x) (2 * y + 1)"
    and ct: "v_parent (vertNodePool m ! vid (l + 1) (2 * x + 1) (2 * y + 1)) = None"
  shows "\<exists>m' mode. collapseQuad g i m = Some m' \<and> tree_inv k m' \<and> quad_frame m m' \<and> alloced m' = alloced m \<and>
    taken_at m' = taken_at m \<and> quadNodePoolAllocated m' = quadNodePoolAllocated m \<and>
    quadLeafPoolAllocated m' = quadLeafPoolAllocated m \<and>
    (\<forall>r. quad_at m' r = (if r = Node i then (quad_at m r)\<lparr>triangulationMode := mode\<rparr> else quad_at m r)) \<and>
    grows (fine (collapse_at l x y)) (vertNodePool m) (vertNodePool m') \<and>
    (\<forall>c\<in>fine (collapse_at l x y). v_parent (vertNodePool m' ! c) \<noteq> None)"
proof -
  let ?q = "quadNodePool m ! i" and ?ch = "\<lambda>j. quad_at m (children (quadNodePool m ! i) ! j)"
  have qi: "quadNodePool m ! i = quad_at m (Node i)" by (simp add: quad_at_def)
  have ptrs: "collapse_at l x y = collapse_ptrs ?q ?ch"
    unfolding collapse_ptrs_def qi q(2) by (simp add: q corners_at_def collapse_at_def)
  obtain vs mode where c: "collapseQuad g i m =
      Some (upd_quad (Node i) (\<lambda>n. n\<lparr>triangulationMode := mode\<rparr>) (m\<lparr>vertNodePool := vs\<rparr>))"
    and gr: "grows (fine (collapse_at l x y)) (vertNodePool m) vs"
    and all: "\<forall>c\<in>fine (collapse_at l x y). v_parent (vs ! c) \<noteq> None"
    and cs: "v_parent (vs ! childSw (collapse_at l x y)) = Some (parentSw (collapse_at l x y))"
      "v_parent (vs ! childSe (collapse_at l x y)) = Some (parentSe (collapse_at l x y))"
      "v_parent (vs ! childNe (collapse_at l x y)) = Some (parentNe (collapse_at l x y))"
      "v_parent (vs ! childNw (collapse_at l x y)) = Some (parentNw (collapse_at l x y))"
    using collapseQuad_links[OF refl refl ptrs collapsible_at[OF inv l ct], of g] by blast
  have al: "alloced m (Node i)" using i by (simp add: alloced_def)
  have "vid l x y \<in> taken_at m"
    using al q(1) by (auto simp: taken_at_def corner0_def corners_at_def intro!: image_eqI[of _ _ "Node i"])
  then have inv1: "tree_inv k (m\<lparr>vertNodePool := vs\<rparr>)"
    by (intro links_after_collapse[OF inv l _ gr]) (use cs in \<open>simp_all add: collapse_at_def\<close>)
  let ?m1 = "m\<lparr>vertNodePool := vs\<rparr>"
  let ?m' = "upd_quad (Node i) (\<lambda>n. n\<lparr>triangulationMode := mode\<rparr>) ?m1"
  have kids: "d \<noteq> Node i \<and> alloced ?m1 d \<and> q_parent (quad_at ?m1 d) = Some (Node j)"
    if "Node i = Node j" "d \<in> set (children (quad_at m (Node i)))" for j d
  proof -
    have ok: "quads_ok k m" using inv by (simp add: tree_inv_def)
    then have d: "alloced m d" "q_parent (quad_at m d) = Some (Node i)" using i that(2) unfolding quads_ok_def qi[symmetric] by auto
    then have "q_level (quad_at m d) = q_level (quad_at m (Node i)) + 1" using ok unfolding quads_ok_def by blast
    then show ?thesis using d that(1) by auto
  qed
  have "quads_ok k ?m' \<and> corner0 ?m' = corner0 ?m1 \<and>
      (\<forall>r. quad_at ?m' r = (if r = Node i then (quad_at ?m1 (Node i))\<lparr>triangulationMode := mode\<rparr> else quad_at ?m1 r))"
    by (rule quads_ok_upd) (use inv1 kids i in \<open>auto simp: tree_inv_def alloced_def\<close>)
  then have Q: "quads_ok k ?m'" "corner0 ?m' = corner0 m"
    "\<And>r. quad_at ?m' r = (if r = Node i then (quad_at m r)\<lparr>triangulationMode := mode\<rparr> else quad_at m r)"
    by simp_all
  have tk: "taken_at ?m' = taken_at m" by (simp add: taken_at_def Q(2))
  have "adjacency_ok ?m'" using inv1 by (simp add: tree_inv_def adjacency_ok_def Q(3))
  moreover have "links_ok k ?m'" using inv1 by (simp add: tree_inv_def links_ok_def tk)
  ultimately have "tree_inv k ?m'" using inv1 Q(1) by (simp add: tree_inv_def)
  moreover have "quad_frame m ?m'" by (rule quad_frame_trans[OF quad_frame_verts quad_frame_upd])
  ultimately show ?thesis using c gr all tk Q(3) by (intro exI[of _ ?m'] exI[of _ mode]) simp
qed

section \<open>The recursion\<close>

definition call_ok :: "nat \<Rightarrow> nat \<Rightarrow> nat \<Rightarrow> nat \<Rightarrow> ('v, 'f) mesh \<Rightarrow> quad_ptr \<Rightarrow> ('v, 'f) mesh \<Rightarrow> bool" where
  "call_ok k l x y m q m' \<longleftrightarrow> extends k l m m' \<and> \<not> alloced m q \<and> complete m' (k - l) q l x y \<and>
     quad_on m' q l x y \<and> q_parent (quad_at m' q) = None \<and> taken_at m' = taken_at m \<union> below k l x y \<and>
     rooted k m' l x y \<and> quadNodePoolAllocated m' = quadNodePoolAllocated m + inner_quads (k - l) \<and>
     quadLeafPoolAllocated m' = quadLeafPoolAllocated m + 4 ^ (k - l)"

text \<open>The condition on which a call relies.\<close>

definition call_pre :: "nat \<Rightarrow> nat \<Rightarrow> nat \<Rightarrow> nat \<Rightarrow> ('v, 'f) mesh \<Rightarrow> bool" where
  "call_pre k l x y m \<longleftrightarrow> tree_inv k m \<and> l \<le> k \<and> x < 2 ^ l \<and> y < 2 ^ l \<and> taken_at m \<inter> below k l x y = {} \<and>
     quadNodePoolAllocated m + inner_quads (k - l) \<le> inner_quads k \<and> quadLeafPoolAllocated m + 4 ^ (k - l) \<le> 4 ^ k"

lemma corner_nodes_at:
  assumes "sized k m" "l \<le> k" "x < 2 ^ l" "y < 2 ^ l"
  shows "corner_nodes l (x * 2 ^ (k - l)) (y * 2 ^ (k - l)) (2 ^ (k - l)) m = ret (corners_at l x y)"
proof -
  have s: "z * 2 ^ (k - l) + 2 ^ (k - l) = (z + 1) * 2 ^ (k - l)" for z :: nat by simp
  have b: "x \<le> 2 ^ l" "y \<le> 2 ^ l" "x + 1 \<le> 2 ^ l" "y + 1 \<le> 2 ^ l" using assms(3,4) by simp_all
  show ?thesis unfolding corner_nodes_def s by (simp only: getVertNode_vid[OF assms(1,2)] b rbind_simps corners_at_def)
qed

lemma placed_extends:
  assumes "tree_inv k m" "tree_inv k m'" "placed m q f v m'" "\<not> alloced m q"
  shows "extends k l m m'"
  using assms by (auto simp: extends_def placed_def)

lemma level_mod: "sized k m \<Longrightarrow> l \<le> k \<Longrightarrow> l mod 16 = l"
  by (simp add: sized_def MAX_QUAD_LEVEL_COUNT_def)

lemma build_leaf:
  assumes "call_pre k k x y m"
  shows "\<exists>q m'. recursiveBuildQuadNodes g k x y 1 m = ret (q, m') \<and> call_ok k k x y m q m'"
proof -
  have pre: "tree_inv k m" "x < 2 ^ k" "y < 2 ^ k" "vid k x y \<notin> taken_at m" "quadLeafPoolAllocated m < 4 ^ k"
    using assms by (auto simp: call_pre_def below_leaf)
  have sz: "sized k m" using pre(1) by (simp add: tree_inv_def)
  let ?q = "Leaf (quadLeafPoolAllocated m)"
  let ?m1 = "m\<lparr>quadLeafPoolAllocated := quadLeafPoolAllocated m + 1\<rparr>"
  let ?f = "\<lambda>n. n\<lparr>q_activeFrame := 0, q_state := NS_ACTIVE, q_level := k mod 16,
       triangulationMode := TM_NW_SE, q_parent := None, cornerVertNodes := corners_at k x y\<rparr>"
  have a: "allocs k m ?q ?m1" using pre(5) by (simp add: allocs_def)
  have sz1: "sized k ?m1" using sz by (simp add: sized_def)
  obtain m' where m': "rfold (add_to_corner ?q (\<lambda>l. l = k)) (corners_at k x y) (upd_quad ?q ?f ?m1) = ret m'"
    "tree_inv k m'" "placed m ?q ?f (vid k x y) m'" "quadNodePoolAllocated m' = quadNodePoolAllocated ?m1"
    "quadLeafPoolAllocated m' = quadLeafPoolAllocated ?m1"
    using place_quad[OF pre(1) a order_refl pre(2-4), of "\<lambda>l. l = k" ?f] level_mod[OF sz order_refl] by auto
  have "allocQuadLeaf m = (Some (quadLeafPoolAllocated m), ?m1)"
    using pre(5) sz by (simp add: allocQuadLeaf_def sized_def)
  moreover have "corner_nodes k x y 1 ?m1 = ret (corners_at k x y)"
    using corner_nodes_at[OF sz1 order_refl pre(2,3)] by simp
  ultimately have run: "recursiveBuildQuadNodes g k x y 1 m = ret (?q, m')"
    using m'(1) by (subst recursiveBuildQuadNodes.simps) (simp add: Let_def)
  have al: "\<not> alloced m ?q" by (simp add: alloced_def)
  have "quad_at m' ?q = ?f (quad_at m ?q)" "alloced m' ?q" "taken_at m' = insert (vid k x y) (taken_at m)"
    using m'(3) by (simp_all add: placed_def)
  moreover have "rooted k m' k x y" by (auto simp: rooted_def)
  ultimately have "call_ok k k x y m ?q m'"
    using placed_extends[OF pre(1) m'(2,3) al] al m'(4,5) level_mod[OF sz order_refl]
    by (simp add: call_ok_def quad_on_def below_leaf inner_quads_def)
  then show ?thesis using run by blast
qed

lemma call_next:
  assumes ok: "call_ok k l x y m q m'" and pre: "call_pre k l x y m" and b: "x' < 2 ^ l" "y' < 2 ^ l" "(x, y) \<noteq> (x', y')"
    and free: "taken_at m \<inter> below k l x' y' = {}"
    and room: "quadNodePoolAllocated m + 2 * inner_quads (k - l) \<le> inner_quads k"
      "quadLeafPoolAllocated m + 2 * 4 ^ (k - l) \<le> 4 ^ k"
  shows "call_pre k l x' y' m'"
proof -
  have "below k l x y \<inter> below k l x' y' = {}" using below_disjoint pre b by (simp add: call_pre_def)
  then show ?thesis using ok pre b free room by (auto simp: call_ok_def call_pre_def dest: extendsD(1))
qed

lemma rooted_split:
  assumes "l < k"
    and nine: "\<forall>c\<in>fine (collapse_at l x y). v_parent (vertNodePool m ! c) \<noteq> None"
    and kids: "rooted k m (l + 1) (2 * x) (2 * y)" "rooted k m (l + 1) (2 * x + 1) (2 * y)"
      "rooted k m (l + 1) (2 * x + 1) (2 * y + 1)" "rooted k m (l + 1) (2 * x) (2 * y + 1)"
  shows "rooted k m l x y"
  unfolding rooted_def
proof (intro allI impI, elim conjE)
  fix i a b
  assume i: "l < i" "i \<le> k" "x * 2 ^ (i - l) \<le> a" "a \<le> (x + 1) * 2 ^ (i - l)" "y * 2 ^ (i - l) \<le> b" "b \<le> (y + 1) * 2 ^ (i - l)"
  show "v_parent (vertNodePool m ! vid i a b) \<noteq> None"
  proof (cases "i = l + 1")
    case True
    then have "vid i a b \<in> fine (collapse_at l x y)" using i fineI[of x a y b l] by simp
    then show ?thesis using nine by blast
  next
    case False
    let ?w = "2 ^ (i - (l + 1)) :: nat"
    have w: "2 ^ (i - l) = 2 * ?w" using i(1) by (simp add: Suc_diff_Suc flip: power_Suc)
    obtain a' where a': "a' = 2 * x \<or> a' = 2 * x + 1" "a' * ?w \<le> a" "a \<le> (a' + 1) * ?w"
    proof (cases "a \<le> (2 * x + 1) * ?w")
      case True
      then show ?thesis using i(3) w that[of "2 * x"] by (simp add: mult.assoc mult.left_commute)
    next
      case False
      have "a \<le> (2 * x + 1 + 1) * ?w" using i(4) w by (simp add: algebra_simps)
      then show ?thesis using False that[of "2 * x + 1"] by simp
    qed
    obtain b' where b': "b' = 2 * y \<or> b' = 2 * y + 1" "b' * ?w \<le> b" "b \<le> (b' + 1) * ?w"
    proof (cases "b \<le> (2 * y + 1) * ?w")
      case True
      then show ?thesis using i(5) w that[of "2 * y"] by (simp add: mult.assoc mult.left_commute)
    next
      case False
      have "b \<le> (2 * y + 1 + 1) * ?w" using i(6) w by (simp add: algebra_simps)
      then show ?thesis using False that[of "2 * y + 1"] by simp
    qed
    have "rooted k m (l + 1) a' b'" using kids a'(1) b'(1) by auto
    moreover have "l + 1 < i" using i(1) False by simp
    ultimately show ?thesis using a'(2,3) b'(2,3) i(2) unfolding rooted_def by blast
  qed
qed

definition call_returns :: "('v, 'f) glm \<Rightarrow> nat \<Rightarrow> nat \<Rightarrow> nat \<Rightarrow> nat \<Rightarrow> ('v, 'f) mesh \<Rightarrow> bool" where
  "call_returns g k l x y m \<longleftrightarrow> (\<exists>q m'. recursiveBuildQuadNodes g l (x * 2 ^ (k - l)) (y * 2 ^ (k - l)) (2 ^ (k - l)) m =
     ret (q, m') \<and> call_ok k l x y m q m')"

text \<open>The four recursive calls, one after another.\<close>

lemma four_calls:
  assumes IH: "\<And>x y m. call_pre k (l + 1) x y m \<Longrightarrow> call_returns g k (l + 1) x y m"
    and inv: "tree_inv k m" and l: "l < k" "x < 2 ^ l" "y < 2 ^ l"
    and free: "taken_at m \<inter> below k (l + 1) (2 * x) (2 * y) = {}" "taken_at m \<inter> below k (l + 1) (2 * x + 1) (2 * y) = {}"
      "taken_at m \<inter> below k (l + 1) (2 * x + 1) (2 * y + 1) = {}" "taken_at m \<inter> below k (l + 1) (2 * x) (2 * y + 1) = {}"
    and room: "quadNodePoolAllocated m + 4 * inner_quads (k - (l + 1)) \<le> inner_quads k"
      "quadLeafPoolAllocated m + 4 * 4 ^ (k - (l + 1)) \<le> 4 ^ k"
  shows "\<exists>q0 q1 q2 q3 m0 m1 m2 m3. let h = 2 ^ (k - (l + 1)) in
    recursiveBuildQuadNodes g (l + 1) (2 * x * h) (2 * y * h) h m = ret (q0, m0) \<and>
    recursiveBuildQuadNodes g (l + 1) ((2 * x + 1) * h) (2 * y * h) h m0 = ret (q1, m1) \<and>
    recursiveBuildQuadNodes g (l + 1) ((2 * x + 1) * h) ((2 * y + 1) * h) h m1 = ret (q2, m2) \<and>
    recursiveBuildQuadNodes g (l + 1) (2 * x * h) ((2 * y + 1) * h) h m2 = ret (q3, m3) \<and>
    call_ok k (l + 1) (2 * x) (2 * y) m q0 m0 \<and> call_ok k (l + 1) (2 * x + 1) (2 * y) m0 q1 m1 \<and>
    call_ok k (l + 1) (2 * x + 1) (2 * y + 1) m1 q2 m2 \<and> call_ok k (l + 1) (2 * x) (2 * y + 1) m2 q3 m3"
proof -
  let ?n = "inner_quads (k - (l + 1))" and ?f = "4 ^ (k - (l + 1)) :: nat"
  have b: "2 * x < 2 ^ (l + 1)" "2 * x + 1 < 2 ^ (l + 1)" "2 * y < 2 ^ (l + 1)" "2 * y + 1 < 2 ^ (l + 1)" using l by simp_all
  have dis: "below k (l + 1) u v \<inter> below k (l + 1) u' v' = {}"
    if "u < 2 ^ (l + 1)" "v < 2 ^ (l + 1)" "u' < 2 ^ (l + 1)" "v' < 2 ^ (l + 1)" "(u, v) \<noteq> (u', v')" for u v u' v'
    using below_disjoint[OF that] .
  have p0: "call_pre k (l + 1) (2 * x) (2 * y) m" using inv l b free(1) room by (simp add: call_pre_def)
  then obtain q0 m0 where c0: "recursiveBuildQuadNodes g (l + 1) (2 * x * 2 ^ (k - (l + 1))) (2 * y * 2 ^ (k - (l + 1))) (2 ^ (k - (l + 1))) m = ret (q0, m0)"
    "call_ok k (l + 1) (2 * x) (2 * y) m q0 m0" using IH unfolding call_returns_def by blast
  have t0: "taken_at m0 = taken_at m \<union> below k (l + 1) (2 * x) (2 * y)" "quadNodePoolAllocated m0 = quadNodePoolAllocated m + ?n"
    "quadLeafPoolAllocated m0 = quadLeafPoolAllocated m + ?f" using c0(2) by (simp_all add: call_ok_def)
  have p1: "call_pre k (l + 1) (2 * x + 1) (2 * y) m0"
    by (rule call_next[OF c0(2) p0]) (use b free(2) room in auto)
  then obtain q1 m1 where c1: "recursiveBuildQuadNodes g (l + 1) ((2 * x + 1) * 2 ^ (k - (l + 1))) (2 * y * 2 ^ (k - (l + 1))) (2 ^ (k - (l + 1))) m0 = ret (q1, m1)"
    "call_ok k (l + 1) (2 * x + 1) (2 * y) m0 q1 m1" using IH unfolding call_returns_def by blast
  have t1: "taken_at m1 = taken_at m0 \<union> below k (l + 1) (2 * x + 1) (2 * y)" "quadNodePoolAllocated m1 = quadNodePoolAllocated m0 + ?n"
    "quadLeafPoolAllocated m1 = quadLeafPoolAllocated m0 + ?f" using c1(2) by (simp_all add: call_ok_def)
  have f2: "taken_at m0 \<inter> below k (l + 1) (2 * x + 1) (2 * y + 1) = {}"
    using free(3) dis[of "2 * x" "2 * y" "2 * x + 1" "2 * y + 1"] b unfolding t0(1) by auto
  have p2: "call_pre k (l + 1) (2 * x + 1) (2 * y + 1) m1"
    by (rule call_next[OF c1(2) p1]) (use b f2 room t0 in auto)
  then obtain q2 m2 where c2: "recursiveBuildQuadNodes g (l + 1) ((2 * x + 1) * 2 ^ (k - (l + 1))) ((2 * y + 1) * 2 ^ (k - (l + 1))) (2 ^ (k - (l + 1))) m1 = ret (q2, m2)"
    "call_ok k (l + 1) (2 * x + 1) (2 * y + 1) m1 q2 m2" using IH unfolding call_returns_def by blast
  have f3: "taken_at m1 \<inter> below k (l + 1) (2 * x) (2 * y + 1) = {}"
    using free(4) dis[of "2 * x" "2 * y" "2 * x" "2 * y + 1"] dis[of "2 * x + 1" "2 * y" "2 * x" "2 * y + 1"] b
    unfolding t1(1) t0(1) by auto
  have p3: "call_pre k (l + 1) (2 * x) (2 * y + 1) m2"
    by (rule call_next[OF c2(2) p2]) (use b f3 room t0 t1 in auto)
  then obtain q3 m3 where c3: "recursiveBuildQuadNodes g (l + 1) (2 * x * 2 ^ (k - (l + 1))) ((2 * y + 1) * 2 ^ (k - (l + 1))) (2 ^ (k - (l + 1))) m2 = ret (q3, m3)"
    "call_ok k (l + 1) (2 * x) (2 * y + 1) m2 q3 m3" using IH unfolding call_returns_def by blast
  show ?thesis unfolding Let_def using c0 c1 c2 c3 by blast
qed

lemma complete_cong_above:
  assumes "complete m d q l x y" "x < 2 ^ l" "y < 2 ^ l"
    and s: "cornerVertNodes (quad_at m s) = corners_at l0 x0 y0" "l0 < l" "x0 < 2 ^ l0" "y0 < 2 ^ l0"
    and same: "\<And>r. alloced m r \<Longrightarrow> r \<noteq> s \<Longrightarrow> alloced m' r \<and>
      cornerVertNodes (quad_at m' r) = cornerVertNodes (quad_at m r) \<and> children (quad_at m' r) = children (quad_at m r)"
  shows "complete m' d q l x y"
  using assms(1-3) s(2)
proof (induction d arbitrary: q l x y)
  have ns: "r \<noteq> s" if "cornerVertNodes (quad_at m r) = corners_at l x y" "x < 2 ^ l" "y < 2 ^ l" "l0 < l" for r l x y
    using that s(1,3,4) vid_inject[of x l y x0 l0 y0] by (auto simp: corners_at_def)
  case 0
  then show ?case using same[of q] ns[of q l x y] by auto
next
  have ns: "r \<noteq> s" if "cornerVertNodes (quad_at m r) = corners_at l x y" "x < 2 ^ l" "y < 2 ^ l" "l0 < l" for r l x y
    using that s(1,3,4) vid_inject[of x l y x0 l0 y0] by (auto simp: corners_at_def)
  case (Suc d)
  obtain q0 q1 q2 q3 where q: "\<exists>i. q = Node i" "alloced m q" "cornerVertNodes (quad_at m q) = corners_at l x y"
    "children (quad_at m q) = [q0, q1, q2, q3]" "complete m d q0 (l + 1) (2 * x) (2 * y)"
    "complete m d q1 (l + 1) (2 * x + 1) (2 * y)" "complete m d q2 (l + 1) (2 * x + 1) (2 * y + 1)"
    "complete m d q3 (l + 1) (2 * x) (2 * y + 1)"
    using Suc.prems(1) by (auto simp only: complete.simps)
  have b: "2 * x < 2 ^ (l + 1)" "2 * x + 1 < 2 ^ (l + 1)" "2 * y < 2 ^ (l + 1)" "2 * y + 1 < 2 ^ (l + 1)" "l0 < l + 1"
    using Suc.prems by simp_all
  note kids = Suc.IH[OF q(5) b(1,3,5)] Suc.IH[OF q(6) b(2,3,5)] Suc.IH[OF q(7) b(2,4,5)] Suc.IH[OF q(8) b(1,4,5)]
  have "alloced m' q \<and> cornerVertNodes (quad_at m' q) = corners_at l x y \<and> children (quad_at m' q) = [q0, q1, q2, q3]"
    using same[of q] ns[OF q(3) Suc.prems(2-4)] q(2-4) by simp
  then show ?case using q(1) kids by (simp only: complete.simps) blast
qed

lemma rooted_mono:
  assumes "rooted k m i x y" "x < 2 ^ i" "y < 2 ^ i"
    and "\<And>v p. v < voff (Suc k) \<Longrightarrow> v_parent (vertNodePool m ! v) = Some p \<Longrightarrow> v_parent (vertNodePool m' ! v) = Some p"
  shows "rooted k m' i x y"
  unfolding rooted_def
proof (intro allI impI, elim conjE)
  fix j a b
  assume j: "i < j" "j \<le> k" "x * 2 ^ (j - i) \<le> a" "a \<le> (x + 1) * 2 ^ (j - i)" "y * 2 ^ (j - i) \<le> b" "b \<le> (y + 1) * 2 ^ (j - i)"
  have "vid j a b < voff (Suc k)"
    using vid_less[OF j(2) rooted_vid[OF j(1,2) assms(2) j(4)] rooted_vid[OF j(1,2) assms(3) j(6)]] .
  moreover obtain p where "v_parent (vertNodePool m ! vid j a b) = Some p" using assms(1) j unfolding rooted_def by blast
  ultimately show "v_parent (vertNodePool m' ! vid j a b) \<noteq> None" using assms(4) by auto
qed

text \<open>What holds of a child of the four calls once all four have returned.\<close>

lemma child_after:
  assumes "call_ok k l x y m q m'" "extends k l m' m''" "tree_inv k m'" "x < 2 ^ l" "y < 2 ^ l"
  shows "alloced m' q" "alloced m'' q" "q_parent (quad_at m'' q) = None" "q_level (quad_at m'' q) = l"
    "cornerVertNodes (quad_at m'' q) = corners_at l x y" "complete m'' (k - l) q l x y" "rooted k m'' l x y" "\<not> alloced m q"
proof -
  have c: "complete m' (k - l) q l x y" "quad_on m' q l x y" "q_parent (quad_at m' q) = None" "rooted k m' l x y"
    "\<not> alloced m q" using assms(1) by (simp_all add: call_ok_def)
  show a: "alloced m' q" using c(1) by (cases "k - l") auto
  note e = extendsD(3,4)[OF assms(2) a]
  show "alloced m'' q" "q_parent (quad_at m'' q) = None" "q_level (quad_at m'' q) = l"
    "cornerVertNodes (quad_at m'' q) = corners_at l x y" "\<not> alloced m q" using e c by (simp_all add: quad_on_def)
  show "complete m'' (k - l) q l x y" by (rule extends_complete[OF assms(2) c(1)])
  show "rooted k m'' l x y"
    by (rule rooted_mono[OF c(4) assms(4,5)]) (use extendsD(6)[OF assms(2)] tree_length[OF assms(3)] in simp)
qed

text \<open>After the calls: the children are linked, the quad collapsed.\<close>

lemma finish_node:
  assumes pre: "call_pre k l x y m" and l: "l < k" and i: "i = quadNodePoolAllocated m"
    and pl: "placed m (Node i) f (vid l x y) ma" and inva: "tree_inv k ma"
    and na: "quadNodePoolAllocated ma = i + 1" "quadLeafPoolAllocated ma = quadLeafPoolAllocated m"
    and f: "\<And>n. cornerVertNodes (f n) = corners_at l x y" "\<And>n. q_level (f n) = l" "\<And>n. q_activeFrame (f n) = 0"
      "\<And>n. q_parent (f n) = None"
    and c: "call_ok k (l + 1) (2 * x) (2 * y) ma q0 m0" "call_ok k (l + 1) (2 * x + 1) (2 * y) m0 q1 m1"
      "call_ok k (l + 1) (2 * x + 1) (2 * y + 1) m1 q2 m2" "call_ok k (l + 1) (2 * x) (2 * y + 1) m2 q3 m3"
  shows "\<exists>m'. collapseQuad g i (link_children i [q0, q1, q2, q3] m3) = Some m' \<and> call_ok k l x y m (Node i) m'"
proof -
  have inv: "tree_inv k m" and b: "x < 2 ^ l" "y < 2 ^ l" and free: "taken_at m \<inter> below k l x y = {}"
    using pre by (simp_all add: call_pre_def)
  have b1: "2 * x < 2 ^ (l + 1)" "2 * x + 1 < 2 ^ (l + 1)" "2 * y < 2 ^ (l + 1)" "2 * y + 1 < 2 ^ (l + 1)" using b by simp_all
  have e: "extends k (l + 1) ma m0" "extends k (l + 1) m0 m1" "extends k (l + 1) m1 m2" "extends k (l + 1) m2 m3"
    using c by (simp_all add: call_ok_def)
  note inv0 = extendsD(1)[OF e(1)] and inv1 = extendsD(1)[OF e(2)] and inv2 = extendsD(1)[OF e(3)] and inv3 = extendsD(1)[OF e(4)]
  note e23 = extends_trans[OF inv1 e(3) e(4) order_refl]
  note e13 = extends_trans[OF inv0 e(2) e23 order_refl]
  note ea3 = extends_trans[OF inva e(1) e13 order_refl]
  note k0 = child_after[OF c(1) e13 inv0 b1(1,3)] and k1 = child_after[OF c(2) e23 inv1 b1(2,3)]
    and k2 = child_after[OF c(3) e(4) inv2 b1(2,4)] and k3 = child_after[OF c(4) extends_refl[OF inv3] inv3 b1(1,4)]
  have dist: "distinct [q0, q1, q2, q3]"
    using k0(1,8) k1(1,8) k2(1,8) k3(8) extendsD(3)[OF e(2)] extendsD(3)[OF e(3)] by auto
  have P: "quad_at ma (Node i) = f (quad_at m (Node i))" "\<And>r. r \<noteq> Node i \<Longrightarrow> quad_at ma r = quad_at m r"
    "\<And>r. alloced ma r \<longleftrightarrow> alloced m r \<or> r = Node i" "taken_at ma = insert (vid l x y) (taken_at m)"
    "\<And>v. v < length (vertNodePool m) \<Longrightarrow> v_parent (vertNodePool ma ! v) = v_parent (vertNodePool m ! v)" "quad_frame m ma"
    using pl by (auto simp: placed_def)
  have ani: "alloced ma (Node i)" using P(3) by simp
  have ni3: "quad_at m3 (Node i) = f (quad_at m (Node i))" using extendsD(4)[OF ea3 ani] P(1) by simp
  have i3: "i < quadNodePoolAllocated m3" using extendsD(3)[OF ea3 ani] by (simp add: alloced_def)
  have qs: "\<forall>q\<in>set [q0, q1, q2, q3]. alloced m3 q \<and> q_parent (quad_at m3 q) = None \<and>
      q_level (quad_at m3 q) = q_level (quad_at m3 (Node i)) + 1"
    using k0(2-4) k1(2-4) k2(2-4) k3(2-4) ni3 f(2) by simp
  define m4 where "m4 = link_children i [q0, q1, q2, q3] m3"
  have L: "tree_inv k m4" "quad_frame m3 m4" "alloced m4 = alloced m3" "vertNodePool m4 = vertNodePool m3" "taken_at m4 = taken_at m3"
    "quadNodePoolAllocated m4 = quadNodePoolAllocated m3" "quadLeafPoolAllocated m4 = quadLeafPoolAllocated m3"
    "\<And>r. quad_at m4 r = (if r = Node i then (quad_at m3 r)\<lparr>children := [q0, q1, q2, q3]\<rparr>
       else if r \<in> {q0, q1, q2, q3} then (quad_at m3 r)\<lparr>q_parent := Some (Node i)\<rparr> else quad_at m3 r)"
    using link_children_ok[OF inv3 i3 dist qs] by (simp_all add: m4_def)
  have corners4: "cornerVertNodes (quad_at m4 r) = cornerVertNodes (quad_at m3 r)" for r by (simp add: L(8))
  have ct: "v_parent (vertNodePool m4 ! vid (l + 1) (2 * x + 1) (2 * y + 1)) = None"
  proof -
    let ?v = "vid (l + 1) (2 * x + 1) (2 * y + 1)"
    have v: "?v < voff (Suc k)" using vid_less[of "l + 1" k "2 * x + 1" "2 * y + 1"] l b1 by simp
    have lev: "v_level (vertNodePool ma ! ?v) = l + 1" using inva l b1 by (simp add: tree_inv_def links_ok_def)
    have "vid l x y \<notin> taken_at m" using free below_self[of l k x y] l by auto
    then have "v_parent (vertNodePool m ! ?v) = None" using inv l b unfolding tree_inv_def links_ok_def by blast
    then show ?thesis
      using extendsD(5)[OF ea3, of ?v] lev v P(5)[of ?v] tree_length[OF inv] tree_length[OF inva] by (simp add: L(4))
  qed
  have p4: "i < quadNodePoolAllocated m4" "cornerVertNodes (quad_at m4 (Node i)) = corners_at l x y"
    "children (quad_at m4 (Node i)) = [q0, q1, q2, q3]"
    "cornerVertNodes (quad_at m4 q0) = corners_at (l + 1) (2 * x) (2 * y)"
    "cornerVertNodes (quad_at m4 q1) = corners_at (l + 1) (2 * x + 1) (2 * y)"
    "cornerVertNodes (quad_at m4 q2) = corners_at (l + 1) (2 * x + 1) (2 * y + 1)"
    "cornerVertNodes (quad_at m4 q3) = corners_at (l + 1) (2 * x) (2 * y + 1)"
    using i3 k0(5) k1(5) k2(5) k3(5) ni3 f(1) by (simp_all add: L(6) corners4) (simp add: L(8))
  obtain m5 mode where C: "collapseQuad g i m4 = Some m5" "tree_inv k m5" "quad_frame m4 m5" "alloced m5 = alloced m4"
    "taken_at m5 = taken_at m4" "quadNodePoolAllocated m5 = quadNodePoolAllocated m4" "quadLeafPoolAllocated m5 = quadLeafPoolAllocated m4"
    "\<And>r. quad_at m5 r = (if r = Node i then (quad_at m4 r)\<lparr>triangulationMode := mode\<rparr> else quad_at m4 r)"
    "grows (fine (collapse_at l x y)) (vertNodePool m4) (vertNodePool m5)"
    "\<forall>c\<in>fine (collapse_at l x y). v_parent (vertNodePool m5 ! c) \<noteq> None"
    using collapse_in_tree[OF L(1) l b p4 ct, of g] by blast
  note gr = growsD[OF C(9), unfolded L(4)]
  have q5: "cornerVertNodes (quad_at m5 r) = cornerVertNodes (quad_at m3 r)"
    "r \<noteq> Node i \<Longrightarrow> children (quad_at m5 r) = children (quad_at m3 r)" for r by (simp_all add: C(8) L(8))
  have comp: "complete m5 (k - (l + 1)) q (l + 1) u v"
    if "complete m3 (k - (l + 1)) q (l + 1) u v" "u < 2 ^ (l + 1)" "v < 2 ^ (l + 1)" for q u v
    by (rule complete_cong_above[OF that, of "Node i" l x y]) (use b f(1) q5 in \<open>simp_all add: ni3 C(4) L(3)\<close>)
  have root: "rooted k m5 (l + 1) u v" if "rooted k m3 (l + 1) u v" "u < 2 ^ (l + 1)" "v < 2 ^ (l + 1)" for u v
    by (rule rooted_mono[OF that]) (use gr(6) in blast)
  have node5: "quad_at m5 (Node i) = (f (quad_at m (Node i)))\<lparr>children := [q0, q1, q2, q3], triangulationMode := mode\<rparr>"
    by (simp add: C(8) L(8) ni3)
  have al5: "alloced m5 (Node i)" using i3 by (simp add: C(4) L(3) alloced_def)
  have kl: "k - l = Suc (k - (l + 1))" using l by simp
  have "complete m5 (k - l) (Node i) l x y"
    unfolding kl complete.simps using comp k0(6) k1(6) k2(6) k3(6) b1 node5 f(1) al5 by simp
  moreover have "rooted k m5 l x y"
    by (rule rooted_split[OF l C(10)]) (use root k0(7) k1(7) k2(7) k3(7) b1 in blast)+
  moreover have "taken_at m5 = taken_at m \<union> below k l x y"
    using c by (auto simp: call_ok_def C(5) L(5) P(4) below_split[OF l])
  moreover have "quadNodePoolAllocated m5 = quadNodePoolAllocated m + inner_quads (k - l)"
    "quadLeafPoolAllocated m5 = quadLeafPoolAllocated m + 4 ^ (k - l)"
    using c na i by (simp_all add: call_ok_def C(6,7) L(6,7) kl inner_quads_Suc)
  moreover have "extends k l m m5"
    unfolding extends_def
  proof (intro conjI allI impI)
    show "tree_inv k m5" by (rule C(2))
    show "quad_frame m m5"
      using quad_frame_trans[OF P(6) quad_frame_trans[OF extendsD(2)[OF ea3] quad_frame_trans[OF L(2) C(3)]]] .
    fix r assume r: "alloced m r"
    then have ra: "alloced ma r" "r \<noteq> Node i" using P(3) i by (auto simp: alloced_def)
    then show "alloced m5 r" using extendsD(3)[OF ea3] by (simp add: C(4) L(3))
    have "r \<notin> {q0, q1, q2, q3}"
      using k0(8) k1(8) k2(8) k3(8) ra(1) extendsD(3)[OF e(1)] extendsD(3)[OF e(2)] extendsD(3)[OF e(3)] by blast
    then show "quad_at m5 r = quad_at m r" using extendsD(4)[OF ea3 ra(1)] P(2)[OF ra(2)] ra(2) by (simp add: C(8) L(8))
  next
    fix v assume v: "v < length (vertNodePool m)"
    have va: "v < voff (Suc k)" "v < length (vertNodePool ma)" using v tree_length[OF inv] tree_length[OF inva] by simp_all
    show "v_parent (vertNodePool m5 ! v) = v_parent (vertNodePool m ! v)" if lv: "v_level (vertNodePool m ! v) \<le> l"
    proof -
      have lev: "v_level (vertNodePool ma ! v) \<le> l" "v_level (vertNodePool m3 ! v) \<le> l"
        using lv tree_level[OF inv inva va(1)] tree_level[OF inv inv3 va(1)] by simp_all
      have "v \<notin> fine (collapse_at l x y)"
      proof
        assume "v \<in> fine (collapse_at l x y)"
        then obtain a d where ad: "v = vid (l + 1) a d" "a \<le> 2 * x + 2" "d \<le> 2 * y + 2" using fineE by metis
        then have "a \<le> 2 ^ (l + 1)" "d \<le> 2 ^ (l + 1)" using collapse_bounds b by blast+
        then show False using lev(2) inv3 l ad(1) by (simp add: tree_inv_def links_ok_def)
      qed
      then show ?thesis using gr(5) extendsD(5)[OF ea3 va(2)] lev(1) P(5)[OF v] by simp
    qed
    show "v_parent (vertNodePool m5 ! v) = Some p" if "v_parent (vertNodePool m ! v) = Some p" for p
      using that gr(6) extendsD(6)[OF ea3 va(2)] P(5)[OF v] by simp
  qed
  ultimately have "call_ok k l x y m (Node i) m5"
    using node5 f i by (simp add: call_ok_def quad_on_def alloced_def)
  then show ?thesis using C(1) unfolding m4_def by blast
qed

lemma build_node_unfold:
  assumes "step \<noteq> 1" "half = step div 2" "allocQuadNode m = (Some i, m1)"
    "getVertNode (level + 1) (x0 + half) (y0 + half) m1 = ret c" "corner_nodes level x0 y0 step m1 = ret cs"
    "rfold (add_to_corner (Node i) (\<lambda>_. True)) cs (upd_quad (Node i) (\<lambda>n. n\<lparr>q_activeFrame := 0, q_state := NS_ACTIVE,
       q_level := level mod 16, q_parent := None, cornerVertNodes := cs, centerVertNode := Some c\<rparr>) m1) = ret ma"
    "recursiveBuildQuadNodes g (level + 1) x0 y0 half ma = ret (q0, ma0)"
    "recursiveBuildQuadNodes g (level + 1) (x0 + half) y0 half ma0 = ret (q1, ma1)"
    "recursiveBuildQuadNodes g (level + 1) (x0 + half) (y0 + half) half ma1 = ret (q2, ma2)"
    "recursiveBuildQuadNodes g (level + 1) x0 (y0 + half) half ma2 = ret (q3, ma3)"
    "collapseQuad g i (link_children i [q0, q1, q2, q3] ma3) = Some m'"
  shows "recursiveBuildQuadNodes g level x0 y0 step m = ret (Node i, m')"
  using assms(1,3-11) unfolding link_children_def assms(2)
  by (subst recursiveBuildQuadNodes.simps) (simp add: Let_def)

lemma build_node:
  assumes IH: "\<And>x y m. call_pre k (l + 1) x y m \<Longrightarrow> call_returns g k (l + 1) x y m"
    and l: "l < k" and pre: "call_pre k l x y m"
  shows "call_returns g k l x y m"
proof -
  let ?d = "k - (l + 1)"
  let ?i = "quadNodePoolAllocated m" and ?c = "vid (l + 1) (2 * x + 1) (2 * y + 1)"
  let ?m1 = "m\<lparr>quadNodePoolAllocated := ?i + 1\<rparr>"
  let ?f = "\<lambda>n. n\<lparr>q_activeFrame := 0, q_state := NS_ACTIVE, q_level := l mod 16, q_parent := None,
    cornerVertNodes := corners_at l x y, centerVertNode := Some ?c\<rparr>"
  have inv: "tree_inv k m" and b: "x < 2 ^ l" "y < 2 ^ l" and free: "taken_at m \<inter> below k l x y = {}"
    and room: "?i + inner_quads (k - l) \<le> inner_quads k" "quadLeafPoolAllocated m + 4 ^ (k - l) \<le> 4 ^ k"
    using pre by (simp_all add: call_pre_def)
  have kl: "k - l = Suc ?d" using l by simp
  have pw: "2 ^ (k - l) = 2 * (2::nat) ^ ?d" "z * 2 ^ (k - l) = 2 * z * (2::nat) ^ ?d"
    "2 * z * (2::nat) ^ ?d + 2 ^ ?d = (2 * z + 1) * 2 ^ ?d" for z by (simp_all add: kl algebra_simps)
  have rm: "?i + 1 + 4 * inner_quads ?d \<le> inner_quads k" "quadLeafPoolAllocated m + 4 * 4 ^ ?d \<le> 4 ^ k"
    using room by (simp_all add: kl inner_quads_Suc)
  have sz: "sized k m" using inv by (simp add: tree_inv_def)
  have sz1: "sized k ?m1" using sz by (simp add: sized_def)
  have a: "allocs k m (Node ?i) ?m1" using rm(1) by (simp add: allocs_def)
  have fr: "vid l x y \<notin> taken_at m" using free below_self[of l k x y] l by auto
  obtain ma where ma: "rfold (add_to_corner (Node ?i) (\<lambda>_. True)) (corners_at l x y) (upd_quad (Node ?i) ?f ?m1) = ret ma"
    "tree_inv k ma" "placed m (Node ?i) ?f (vid l x y) ma" "quadNodePoolAllocated ma = ?i + 1"
    "quadLeafPoolAllocated ma = quadLeafPoolAllocated m"
    using place_quad[OF inv a less_imp_le[OF l] b fr, of "\<lambda>_. True" ?f] level_mod[OF sz less_imp_le[OF l]] by auto
  have tk: "taken_at ma = insert (vid l x y) (taken_at m)" using ma(3) by (simp add: placed_def)
  have fa: "taken_at ma \<inter> below k (l + 1) u v = {}"
    if "u \<in> {2 * x, 2 * x + 1}" "v \<in> {2 * y, 2 * y + 1}" for u v
  proof -
    have "below k (l + 1) u v \<subseteq> below k l x y" using below_split[OF l, of x y] that by auto
    moreover have "vid l x y \<notin> below k (l + 1) u v" using that b by (intro not_below_deeper) auto
    ultimately show ?thesis using free tk by auto
  qed
  from four_calls[OF IH ma(2) l b fa fa fa fa]
  obtain q0 q1 q2 q3 m0 m1 m2 m3 where
    run: "recursiveBuildQuadNodes g (l + 1) (2 * x * 2 ^ ?d) (2 * y * 2 ^ ?d) (2 ^ ?d) ma = ret (q0, m0)"
    "recursiveBuildQuadNodes g (l + 1) ((2 * x + 1) * 2 ^ ?d) (2 * y * 2 ^ ?d) (2 ^ ?d) m0 = ret (q1, m1)"
    "recursiveBuildQuadNodes g (l + 1) ((2 * x + 1) * 2 ^ ?d) ((2 * y + 1) * 2 ^ ?d) (2 ^ ?d) m1 = ret (q2, m2)"
    "recursiveBuildQuadNodes g (l + 1) (2 * x * 2 ^ ?d) ((2 * y + 1) * 2 ^ ?d) (2 ^ ?d) m2 = ret (q3, m3)"
    and c: "call_ok k (l + 1) (2 * x) (2 * y) ma q0 m0" "call_ok k (l + 1) (2 * x + 1) (2 * y) m0 q1 m1"
      "call_ok k (l + 1) (2 * x + 1) (2 * y + 1) m1 q2 m2" "call_ok k (l + 1) (2 * x) (2 * y + 1) m2 q3 m3"
    using rm by (auto simp: Let_def ma(4,5))
  have "\<exists>m'. collapseQuad g ?i (link_children ?i [q0, q1, q2, q3] m3) = Some m' \<and> call_ok k l x y m (Node ?i) m'"
    by (rule finish_node[OF pre l refl ma(3,2,4,5) _ _ _ _ c]) (use level_mod[OF sz less_imp_le[OF l]] in auto)
  then obtain m' where m': "collapseQuad g ?i (link_children ?i [q0, q1, q2, q3] m3) = Some m'" "call_ok k l x y m (Node ?i) m'"
    by blast
  have al: "allocQuadNode m = (Some ?i, ?m1)" using rm(1) sz by (simp add: allocQuadNode_def sized_def)
  have cn: "getVertNode (l + 1) ((2 * x + 1) * 2 ^ ?d) ((2 * y + 1) * 2 ^ ?d) ?m1 = ret ?c"
    using getVertNode_vid[OF sz1, of "l + 1" "2 * x + 1" "2 * y + 1"] l b by simp
  have co: "corner_nodes l (2 * x * 2 ^ ?d) (2 * y * 2 ^ ?d) (2 * 2 ^ ?d) ?m1 = ret (corners_at l x y)"
    using corner_nodes_at[OF sz1 less_imp_le[OF l] b, unfolded pw(2), unfolded pw(1)] .
  have "recursiveBuildQuadNodes g l (2 * x * 2 ^ ?d) (2 * y * 2 ^ ?d) (2 * 2 ^ ?d) m = ret (Node ?i, m')"
    by (rule build_node_unfold[OF _ _ al cn[folded pw(3)] co ma(1) run(1) run(2)[folded pw(3)] run(3)[folded pw(3)]
          run(4)[folded pw(3)] m'(1)]) simp_all
  then show ?thesis unfolding call_returns_def pw(2) unfolding pw(1) using m'(2) by blast
qed

lemma build_quads:
  assumes "call_pre k l x y m"
  shows "call_returns g k l x y m"
proof -
  have "l \<le> k" using assms by (simp add: call_pre_def)
  then show ?thesis using assms
  proof (induction arbitrary: x y m rule: inc_induct)
    case base
    then show ?case using build_leaf[of k x y m g] by (simp add: call_returns_def)
  next
    case (step n)
    then show ?case using build_node[of k n g x y m] by simp
  qed
qed

section \<open>Building a terrain\<close>

lemma fresh_tree:
  assumes sz: "sized k m" and fresh: "\<forall>l\<le>k. \<forall>x\<le>2 ^ l. \<forall>y\<le>2 ^ l. fresh_at m (l, x, y)"
    and none: "quadNodePoolAllocated m = 0" "quadLeafPoolAllocated m = 0" "quadNodePool m = replicate (inner_quads k) new_quad"
  shows "tree_inv k m"
proof -
  let ?vs = "vertNodePool m"
  have f: "v_parent (?vs ! v) = None \<and> firstChild (?vs ! v) = None \<and> nextSibling (?vs ! v) = None \<and> adjcentQuads (?vs ! v) = [] \<and>
    v_activeFrame (?vs ! v) = 0"
    if v: "v < length ?vs" for v
  proof -
    have "v < voff (Suc k)" using v sz by (simp add: sized_def)
    then obtain l x y where "l \<le> k" "x \<le> 2 ^ l" "y \<le> 2 ^ l" "v = vid l x y" by (rule vid_exhaust)
    then show ?thesis using fresh by (simp add: fresh_at_def fresh_vert_def)
  qed
  have na: "\<not> alloced m q" for q using none by (simp add: alloced_def split: quad_ptr.split)
  have "kids_ok ?vs (\<lambda>_. [])" using f by (auto simp: kids_ok_def)
  then have "kids ?vs" by (auto simp: kids_def)
  moreover have "v_level (?vs ! vid l x y) = l \<and> v_parent (?vs ! vid l x y) = None" if "l \<le> k" "x \<le> 2 ^ l" "y \<le> 2 ^ l" for l x y
    using fresh that by (simp add: fresh_at_def fresh_vert_def)
  ultimately have "links_ok k m" by (simp add: links_ok_def)
  moreover have "adjacency_ok m" using f by (simp add: adjacency_ok_def)
  moreover have "quads_ok k m" using na none by (simp add: quads_ok_def)
  ultimately show ?thesis using sz by (simp add: tree_inv_def)
qed

text \<open>What the levels of detail rely on: the complete tree over the rooted forest.\<close>

definition terrain :: "nat \<Rightarrow> ('v, 'f) mesh \<Rightarrow> bool" where
  "terrain k m \<longleftrightarrow> tree_inv k m \<and> rooted k m 0 0 0 \<and>
     rootVertNodes m = [vid 0 0 0, vid 0 1 0, vid 0 1 1, vid 0 0 1] \<and>
     (\<exists>q. rootQuadNode m = Some q \<and> complete m k q 0 0 0 \<and> q_parent (quad_at m q) = None) \<and>
     quadNodePoolAllocated m = length (quadNodePool m) \<and> quadLeafPoolAllocated m = length (quadLeafPool m)"

lemma terrain_cong:
  "terrain k (m\<lparr>rootQuadNode := Some q\<rparr>) \<longleftrightarrow> tree_inv k m \<and> rooted k m 0 0 0 \<and>
     rootVertNodes m = [vid 0 0 0, vid 0 1 0, vid 0 1 1, vid 0 0 1] \<and> complete m k q 0 0 0 \<and> q_parent (quad_at m q) = None \<and>
     quadNodePoolAllocated m = length (quadNodePool m) \<and> quadLeafPoolAllocated m = length (quadLeafPool m)"
proof -
  let ?m = "m\<lparr>rootQuadNode := Some q\<rparr>"
  have at: "quad_at ?m = quad_at m" by (rule ext) (simp add: quad_at_def split: quad_ptr.split)
  have al: "alloced ?m = alloced m" by (rule ext) (simp add: alloced_def split: quad_ptr.split)
  have c0: "corner0 ?m = corner0 m" by (rule ext) (simp add: corner0_def at)
  have tk: "taken_at ?m = taken_at m" by (simp add: taken_at_def c0 al)
  have "tree_inv k ?m = tree_inv k m"
    by (simp add: tree_inv_def sized_def quads_ok_def adjacency_ok_def links_ok_def quad_on_def at al c0 tk)
  moreover have "rooted k ?m 0 0 0 = rooted k m 0 0 0" by (simp add: rooted_def)
  moreover have "complete ?m k q 0 0 0 = complete m k q 0 0 0"
    using complete_cong[of m k q 0 0 0 ?m] complete_cong[of ?m k q 0 0 0 m] by (auto simp: at al)
  ultimately show ?thesis by (simp add: terrain_def at)
qed

lemma buildVertNodes_fresh:
  assumes "sized k m" "length (vertices m) = (2 ^ k + 1) * (2 ^ k + 1)"
  shows "\<exists>m'. buildVertNodes g m = ret (m'\<lparr>rootVertNodes := [vid 0 0 0, vid 0 1 0, vid 0 1 1, vid 0 0 1]\<rparr>) \<and>
    only_verts m m' \<and> (\<forall>l\<le>k. \<forall>x\<le>2 ^ l. \<forall>y\<le>2 ^ l. fresh_at m' (l, x, y))"
proof -
  obtain m' where m': "vert_levels g 0 (2 ^ k) m = ret m'" "only_verts m m'"
    "\<forall>l\<le>k. \<forall>x\<le>2 ^ l. \<forall>y\<le>2 ^ l. 0 \<le> l \<or> fresh_at m (l, x, y) \<longrightarrow> fresh_at m' (l, x, y)"
    using vert_levels_fresh[OF assms, of 0 g] by auto
  have sz: "sized k m'" using m'(2) assms(1) by (simp add: only_verts_sized)
  have root: "getVertNode 0 (x * 2 ^ k) (y * 2 ^ k) m' = ret (vid 0 x y)" if "x \<le> 1" "y \<le> 1" for x y
    using getVertNode_vid[OF sz, of 0 x y] that by simp
  have "nat (maxLevelVerticesLength m) - 1 = 2 ^ k" using assms(1) by (simp add: sized_def)
  then have "buildVertNodes g m = ret (m'\<lparr>rootVertNodes := [vid 0 0 0, vid 0 1 0, vid 0 1 1, vid 0 0 1]\<rparr>)"
    unfolding buildVertNodes_def Let_def using m'(1) root[of 0 0] root[of 1 0] root[of 1 1] root[of 0 1] by simp
  then show ?thesis using m'(2,3) by auto
qed

text \<open>The work of \<^verbatim>\<open>build\<close> up to the quads.\<close>

lemma build_front:
  assumes k: "k < MAX_QUAD_LEVEL_COUNT" and len: "length vs = (2 ^ k + 1) * (2 ^ k + 1)"
    and off: "length (vertNodesLevelOffset m) = MAX_QUAD_LEVEL_COUNT"
  shows "\<exists>m'. build g vs (2 ^ k + 1) (2 ^ k + 1) m =
      rbind (recursiveBuildQuadNodes g 0 0 0 (2 ^ k) m') (\<lambda>(q, m). ret (True, m\<lparr>rootQuadNode := Some q\<rparr>)) \<and>
    sized k m' \<and> (\<forall>l\<le>k. \<forall>x\<le>2 ^ l. \<forall>y\<le>2 ^ l. fresh_at m' (l, x, y)) \<and>
    rootVertNodes m' = [vid 0 0 0, vid 0 1 0, vid 0 1 1, vid 0 0 1] \<and>
    quadNodePoolAllocated m' = quadNodePoolAllocated m \<and> quadLeafPoolAllocated m' = quadLeafPoolAllocated m \<and>
    quadNodePool m' = resize (inner_quads k) new_quad (quadNodePool m) \<and> lod m' = lod m \<and>
    updateFrame m' = updateFrame m \<and> lodIndices m' = lodIndices m @ [0..<length vs] \<and>
    length (vertNodesLevelOffset m') = MAX_QUAD_LEVEL_COUNT"
proof -
  let ?w = "2 ^ k + 1 :: nat" and ?m0 = "m\<lparr>vertices := vs, lodIndices := lodIndices m @ [0..<length vs]\<rparr>"
  have kk: "k \<le> 12" using k by (simp add: MAX_QUAD_LEVEL_COUNT_def)
  then have small: "(2::nat) ^ k \<le> 4096" using power_increasing[OF kk, of "2::nat"] by simp
  have sq: "2 ^ k * (2::nat) ^ k \<le> 16777216" using mult_le_mono[OF small small] by simp
  have b: "2 \<le> ?w" "6 * ((?w - 1) * (?w - 1)) < 2 ^ 32" "?w < 2 ^ 32" using small sq by simp_all
  obtain m1 where m1: "buildIndices ?w ?w ?m0 = ret m1" and m1': "\<exists>ind n b c. m1 = ?m0\<lparr>indices := ind, mesh_size := n, indexBuffer := b, vertexBuffer := c\<rparr>"
    using buildIndices_run[OF b(1,1,2,3,3), of ?m0] by blast
  define m2 where "m2 = m1\<lparr>maxLevelVerticesLength := int ?w, maxLevel := k\<rparr>"
  have "maxLevelVerticesLength m2 = int ?w" by (simp add: m2_def)
  then have w2: "nat (maxLevelVerticesLength m2) = ?w" by (simp only: nat_int)
  have m2: "maxLevel m2 = k" "nat (maxLevelVerticesLength m2) = 2 ^ k + 1" "length (vertNodesLevelOffset m2) = MAX_QUAD_LEVEL_COUNT"
    "vertices m2 = vs" "quadNodePoolAllocated m2 = quadNodePoolAllocated m" "quadLeafPoolAllocated m2 = quadLeafPoolAllocated m"
    "quadNodePool m2 = quadNodePool m" "lodIndices m2 = lodIndices m @ [0..<length vs]" "updateFrame m2 = updateFrame m" "lod m2 = lod m"
    using w2 m1' off by (auto simp: m2_def)
  have S: "sized k (sizePools g (Suc k) m2)" "vertices (sizePools g (Suc k) m2) = vs"
    "quadNodePoolAllocated (sizePools g (Suc k) m2) = quadNodePoolAllocated m"
    "quadLeafPoolAllocated (sizePools g (Suc k) m2) = quadLeafPoolAllocated m"
    "quadNodePool (sizePools g (Suc k) m2) = resize (inner_quads k) new_quad (quadNodePool m)"
    "lodIndices (sizePools g (Suc k) m2) = lodIndices m @ [0..<length vs]" "updateFrame (sizePools g (Suc k) m2) = updateFrame m"
    "lod (sizePools g (Suc k) m2) = lod m" "length (vertNodesLevelOffset (sizePools g (Suc k) m2)) = MAX_QUAD_LEVEL_COUNT"
    using sizePools_sized[OF k m2(1-3), of g] by (simp_all add: m2(3-10))
  obtain m3 where m3: "buildVertNodes g (sizePools g (Suc k) m2) =
      ret (m3\<lparr>rootVertNodes := [vid 0 0 0, vid 0 1 0, vid 0 1 1, vid 0 0 1]\<rparr>)" "only_verts (sizePools g (Suc k) m2) m3"
    "\<forall>l\<le>k. \<forall>x\<le>2 ^ l. \<forall>y\<le>2 ^ l. fresh_at m3 (l, x, y)"
    using buildVertNodes_fresh[OF S(1), of g] S(2) len by auto
  define m4 where "m4 = m3\<lparr>rootVertNodes := [vid 0 0 0, vid 0 1 0, vid 0 1 1, vid 0 0 1]\<rparr>"
  have "to_i32 (int ?w) = int ?w" using small by (intro to_i32_nat) simp
  moreover have "buildVertNodes g (sizePools g (Suc k) m2) = ret m4" using m3(1) by (simp add: m4_def)
  moreover have "nat (int ?w) - 1 = 2 ^ k" by (simp only: nat_int diff_add_inverse2)
  moreover have "\<not> int ?w < 2" by (simp add: not_less)
  moreover have "\<not> int MAX_LENGTH < int ?w" unfolding of_nat_less_iff using small by (simp add: MAX_LENGTH_def)
  ultimately have "build g vs ?w ?w m = rbind (recursiveBuildQuadNodes g 0 0 0 (2 ^ k) m4) (\<lambda>(q, m). ret (True, m\<lparr>rootQuadNode := Some q\<rparr>))"
    unfolding build_def m2_def using m1 k by (simp add: Let_def level_count_pow2 del: of_nat_add)
  then show ?thesis using m3(2,3) S by (intro exI[of _ m4]) (auto simp: m4_def only_verts_def sized_def fresh_at_def)
qed

lemma build_run:
  assumes k: "k < MAX_QUAD_LEVEL_COUNT" and len: "length vs = (2 ^ k + 1) * (2 ^ k + 1)"
  shows "\<exists>m. build g vs (2 ^ k + 1) (2 ^ k + 1) (QuadCollapseMesh g) = ret (True, m) \<and> terrain k m \<and>
    updateFrame m = 0 \<and> lodIndices m = [0..<length vs] \<and> lod m = False \<and>
    length (vertNodesLevelOffset m) = MAX_QUAD_LEVEL_COUNT"
proof -
  have off: "length (vertNodesLevelOffset (QuadCollapseMesh g)) = MAX_QUAD_LEVEL_COUNT"
    by (simp add: QuadCollapseMesh_def MAX_QUAD_LEVEL_COUNT_def)
  obtain m4 where run: "build g vs (2 ^ k + 1) (2 ^ k + 1) (QuadCollapseMesh g) =
      rbind (recursiveBuildQuadNodes g 0 0 0 (2 ^ k) m4) (\<lambda>(q, m). ret (True, m\<lparr>rootQuadNode := Some q\<rparr>))"
    and m4: "sized k m4" "\<forall>l\<le>k. \<forall>x\<le>2 ^ l. \<forall>y\<le>2 ^ l. fresh_at m4 (l, x, y)" "quadNodePoolAllocated m4 = 0"
    "quadLeafPoolAllocated m4 = 0" "quadNodePool m4 = replicate (inner_quads k) new_quad"
    "lodIndices m4 = [0..<length vs]" "updateFrame m4 = 0" "lod m4 = False"
    "rootVertNodes m4 = [vid 0 0 0, vid 0 1 0, vid 0 1 1, vid 0 0 1]" "length (vertNodesLevelOffset m4) = MAX_QUAD_LEVEL_COUNT"
    using build_front[OF k len off, of g] by (auto simp: QuadCollapseMesh_def resize_def)
  have inv: "tree_inv k m4" by (rule fresh_tree[OF m4(1-5)])
  have "taken_at m4 = {}" using m4(3,4) by (simp add: taken_at_def alloced_def split: quad_ptr.split)
  then have "call_pre k 0 0 0 m4" using inv m4(3,4) by (simp add: call_pre_def)
  then obtain q m5 where m5: "recursiveBuildQuadNodes g 0 0 0 (2 ^ k) m4 = ret (q, m5)" "call_ok k 0 0 0 m4 q m5"
    using build_quads[of k 0 0 0 m4 g] by (auto simp: call_returns_def)
  have C: "extends k 0 m4 m5" "complete m5 k q 0 0 0" "q_parent (quad_at m5 q) = None" "rooted k m5 0 0 0"
    "quadNodePoolAllocated m5 = inner_quads k" "quadLeafPoolAllocated m5 = 4 ^ k"
    using m5(2) m4(3,4) by (simp_all add: call_ok_def)
  have fr: "rootVertNodes m5 = rootVertNodes m4" "lodIndices m5 = lodIndices m4" "updateFrame m5 = updateFrame m4" "lod m5 = lod m4"
    "vertNodesLevelOffset m5 = vertNodesLevelOffset m4"
    using extendsD(2)[OF C(1)] by (auto simp: quad_frame_def)
  have "terrain k (m5\<lparr>rootQuadNode := Some q\<rparr>)"
    using C extendsD(1)[OF C(1)] fr(1) m4(9) unfolding terrain_cong by (simp add: tree_inv_def sized_def)
  then show ?thesis using run m5(1) fr(2-5) m4(6-8,10) by (intro exI[of _ "m5\<lparr>rootQuadNode := Some q\<rparr>"]) simp
qed

lemma terrain_parent:
  assumes "terrain k m" "v < length (vertNodePool m)" "v_level (vertNodePool m ! v) \<noteq> 0"
  shows "\<exists>p<length (vertNodePool m). v_parent (vertNodePool m ! v) = Some p \<and>
    v_level (vertNodePool m ! v) = v_level (vertNodePool m ! p) + 1"
proof -
  have inv: "tree_inv k m" and root: "rooted k m 0 0 0" using assms(1) by (simp_all add: terrain_def)
  obtain l x y where v: "l \<le> k" "x \<le> 2 ^ l" "y \<le> 2 ^ l" "v = vid l x y"
    using vid_exhaust[of v k] assms(2) tree_length[OF inv] by metis
  have "v_level (vertNodePool m ! v) = l" using inv v by (simp add: tree_inv_def links_ok_def)
  then have "0 < l" using assms(3) by simp
  then obtain p where p: "v_parent (vertNodePool m ! v) = Some p"
    using root v unfolding rooted_def by (metis (no_types, lifting) add_0 diff_zero le0 mult_0 mult_1 not_None_eq)
  obtain K where K: "kids_ok (vertNodePool m) K" using inv by (auto simp: tree_inv_def links_ok_def kids_def)
  then have "p < length (vertNodePool m) \<and> v_level (vertNodePool m ! v) = v_level (vertNodePool m ! p) + 1"
    using p assms(2) unfolding kids_ok_def by blast
  then show ?thesis using p by blast
qed

text \<open>
  C14: On a square of $2^k + 1$ by $2^k + 1$ vertices, for \<open>k\<close> below 13, \<^verbatim>\<open>build\<close> of a new mesh returns
  true and has made the complete quad tree of depth \<open>k\<close>, using up both pools of quads exactly; the
  vertices form a forest in which every vertex below the top level has a parent one level up.
\<close>

theorem build_complete:
  assumes "k < MAX_QUAD_LEVEL_COUNT" "length vs = (2 ^ k + 1) * (2 ^ k + 1)"
  shows "\<exists>m q. build g vs (2 ^ k + 1) (2 ^ k + 1) (QuadCollapseMesh g) = ret (True, m) \<and>
    rootQuadNode m = Some q \<and> complete m k q 0 0 0 \<and> q_parent (quad_at m q) = None \<and>
    quadNodePoolAllocated m = length (quadNodePool m) \<and> quadLeafPoolAllocated m = length (quadLeafPool m) \<and>
    (\<forall>v<length (vertNodePool m). v_level (vertNodePool m ! v) = 0 \<or>
      (\<exists>p<length (vertNodePool m). v_parent (vertNodePool m ! v) = Some p \<and>
         v_level (vertNodePool m ! v) = v_level (vertNodePool m ! p) + 1))"
proof -
  obtain m where m: "build g vs (2 ^ k + 1) (2 ^ k + 1) (QuadCollapseMesh g) = ret (True, m)" "terrain k m"
    using build_run[OF assms, of g] by blast
  then show ?thesis using terrain_parent[OF m(2)] unfolding terrain_def by blast
qed

text \<open>Flat terrains for the examples.\<close>

definition flat :: "nat \<Rightarrow> int list vertex list" where
  "flat n = replicate n (new_vertex int_glm)"

lemma length_flat [simp]: "length (flat n) = n"
  by (simp add: flat_def)

theorem build_complete_witness:
  "\<exists>m q. build int_glm (flat 25) (2 ^ 2 + 1) (2 ^ 2 + 1) (QuadCollapseMesh int_glm) = ret (True, m) \<and>
    rootQuadNode m = Some q \<and> complete m 2 q 0 0 0 \<and> q_parent (quad_at m q) = None \<and>
    quadNodePoolAllocated m = length (quadNodePool m) \<and> quadLeafPoolAllocated m = length (quadLeafPool m) \<and>
    (\<forall>v<length (vertNodePool m). v_level (vertNodePool m ! v) = 0 \<or>
      (\<exists>p<length (vertNodePool m). v_parent (vertNodePool m ! v) = Some p \<and>
         v_level (vertNodePool m ! v) = v_level (vertNodePool m ! p) + 1))"
  by (rule build_complete) (simp_all add: MAX_QUAD_LEVEL_COUNT_def)

section \<open>Sizes that are refused or overrun the pool\<close>

lemma level_count_between: "2 ^ k \<le> n \<Longrightarrow> n < 2 ^ (k + 1) \<Longrightarrow> level_count n = Suc k"
proof (induction k arbitrary: n)
  case 0
  then show ?case by (simp add: level_count.simps[of n] level_count.simps[of 0])
next
  case (Suc k)
  then have "2 ^ k \<le> n div 2" "n div 2 < 2 ^ (k + 1)" by simp_all
  then show ?case using Suc by (simp add: level_count.simps[of n])
qed

text \<open>The state in which the vertices of a side of \<open>n + 1\<close> are initialised.\<close>

definition overrun :: "nat \<Rightarrow> nat \<Rightarrow> ('v, 'f) mesh \<Rightarrow> bool" where
  "overrun k n m \<longleftrightarrow> maxLevel m = k \<and> nat (maxLevelVerticesLength m) = n + 1 \<and> vertNodesLevelOffset m ! k = voff k \<and>
     length (vertNodePool m) = voff (Suc k)"

lemma init_vert_safe:
  "overrun k n m \<Longrightarrow> init_vert g l yx m = fail BadIndex \<or> (\<exists>m'. init_vert g l yx m = ret m' \<and> overrun k n m')"
  unfolding init_vert_def getVertNode_def Let_def
  by (cases yx) (auto simp: overrun_def)

lemma init_vert_overruns:
  assumes "overrun k n m" "2 ^ k < n"
  shows "init_vert g k (n, n) m = fail BadIndex"
proof -
  have "(2 ^ k + 1) * (2 ^ k + 1) \<le> n * (2 ^ k + 1)" using assms(2) by (intro mult_le_mono1) simp
  then have "\<not> voff k + n * (2 ^ k + 1) + n < voff (Suc k)" unfolding voff_Suc using assms(2) by linarith
  then have "getVertNode k n n m = fail BadIndex"
    using assms(1) by (simp add: getVertNode_def overrun_def Let_def)
  then show ?thesis by (simp add: init_vert_def)
qed

lemma vert_levels_overrun:
  assumes "overrun k n m" "2 ^ k < n" "n < 2 ^ (k + 1)" "j \<le> k"
  shows "vert_levels g j (n div 2 ^ j) m = fail BadIndex"
  using assms(4,1)
proof (induction arbitrary: m rule: inc_induct)
  case base
  have one: "n div 2 ^ k = 1" using assms(2,3) by (simp add: div_nat_eqI)
  have "set (strides (n + 1) 1) = {..n}" by (auto simp: strides_def)
  then have "rfold (init_vert g k) (concat (map (\<lambda>y. map (Pair y) (strides (n + 1) 1)) (strides (n + 1) 1))) m = fail BadIndex"
    by (intro rfold_fails[where I = "overrun k n" and z = "(n, n)"] init_vert_safe init_vert_overruns base assms(2)) auto
  moreover have "nat (maxLevelVerticesLength m) = n + 1" using base by (simp add: overrun_def)
  ultimately show ?case by (subst vert_levels.simps) (simp only: one init_level_def Let_def, simp)
next
  case (step j)
  have pos: "0 < n div 2 ^ j" using assms(2) step.hyps by (simp add: div_greater_zero_iff)
      (meson less_imp_le order_trans power_increasing one_le_numeral)
  have half: "n div 2 ^ j div 2 = n div 2 ^ Suc j" by (simp only: power_Suc2 div_mult2_eq)
  have "init_level g j (n div 2 ^ j) m = fail BadIndex \<or> (\<exists>m'. init_level g j (n div 2 ^ j) m = ret m' \<and> overrun k n m')"
    unfolding init_level_def Let_def by (rule rfold_safe) (use init_vert_safe step.prems in blast)+
  then show ?case using step.IH pos by (subst vert_levels.simps) (auto simp only: half rbind_simps if_True Suc_eq_plus1 [symmetric])
qed

text \<open>
  The test that the side is one more than a power of two is commented out. On any other square
  that \<^verbatim>\<open>build\<close> accepts, with \<^verbatim>\<open>width - 1\<close> strictly between two powers of two, the vertex pool is too
  small and \<^verbatim>\<open>build\<close> writes past its end.
\<close>

theorem build_overruns_pool:
  assumes "2 ^ k < n" "n < 2 ^ (k + 1)" "n < 4096" "length vs = (n + 1) * (n + 1)"
  shows "build g vs (n + 1) (n + 1) (QuadCollapseMesh g) = fail BadIndex"
proof -
  let ?m0 = "(QuadCollapseMesh g)\<lparr>vertices := vs, lodIndices := lodIndices (QuadCollapseMesh g) @ [0..<length vs]\<rparr>"
  have "k < 12" using assms(1,3) power_increasing[of 12 k "2::nat"] by (cases "12 \<le> k") auto
  have sq: "n * n \<le> 4096 * 4096" using assms(3) by (intro mult_le_mono) simp_all
  have n0: "n \<noteq> 0" using assms(1) by auto
  have "2 \<le> n + 1" "6 * ((n + 1 - 1) * (n + 1 - 1)) < 2 ^ 32" "n + 1 < 2 ^ 32" using assms(3) sq n0 by simp_all
  from buildIndices_run[OF this(1,1,2,3,3), of ?m0] obtain m1 where m1: "buildIndices (n + 1) (n + 1) ?m0 = ret m1"
    and "\<exists>ind s b c. m1 = ?m0\<lparr>indices := ind, mesh_size := s, indexBuffer := b, vertexBuffer := c\<rparr>" by blast
  then obtain ind s b c where m1': "m1 = ?m0\<lparr>indices := ind, mesh_size := s, indexBuffer := b, vertexBuffer := c\<rparr>" by blast
  define m2 where "m2 = m1\<lparr>maxLevelVerticesLength := int (n + 1), maxLevel := k\<rparr>"
  have mv: "maxLevelVerticesLength m2 = int (n + 1)" by (simp add: m2_def)
  have len: "Suc k \<le> length (vertNodesLevelOffset m2)" using \<open>k < 12\<close> by (simp add: m2_def m1' QuadCollapseMesh_def)
  obtain m3 where m3: "fold (size_level g (Suc k)) [0..<Suc k] (pool_sizes_at k 0, m2) = (pool_sizes_at k (Suc k), m3)"
    "same_shape m2 m3" "\<forall>j<Suc k. vertNodesLevelOffset m3 ! j = voff j"
    using size_levels[OF order_refl len, of g] by auto
  have "\<lparr>quadCountPerEdge = 1, vertCountPerEdge = 2, quadLeafPoolSize = 0, quadNodePoolSize = 0,
      vertNodePoolSize = 0\<rparr> = pool_sizes_at k 0"
    by (simp add: pool_sizes_at_def voff_def inner_quads_def)
  then have "sizePools g (Suc k) m2 = m3\<lparr>vertNodePool := resize (voff (Suc k)) (new_vert g) (vertNodePool m3),
       quadNodePool := resize (inner_quads k) new_quad (quadNodePool m3),
       quadLeafPool := resize (4 ^ k) new_quad (quadLeafPool m3)\<rparr>"
    unfolding sizePools_def by (simp only: m3(1) prod.case) (simp add: pool_sizes_at_def)
  then have ov: "overrun k n (sizePools g (Suc k) m2)" and mv': "nat (maxLevelVerticesLength (sizePools g (Suc k) m2)) - 1 = n"
    using m3(2,3) mv by (simp_all add: overrun_def same_shape_def m2_def)
  have "buildVertNodes g (sizePools g (Suc k) m2) = fail BadIndex"
    unfolding buildVertNodes_def Let_def mv' using vert_levels_overrun[OF ov assms(1,2), of 0 g] by simp
  moreover have "to_i32 (int (n + 1)) = int (n + 1)" using assms(3) by (intro to_i32_nat) simp
  moreover have "level_count n = Suc k" using assms(1,2) by (intro level_count_between) simp_all
  moreover have "\<not> int (n + 1) < 2" "\<not> int MAX_LENGTH < int (n + 1)" "nat (int (n + 1)) - 1 = n"
    using assms(3) n0 by (simp_all add: MAX_LENGTH_def)
  ultimately show ?thesis
    unfolding build_def m2_def using m1 \<open>k < 12\<close> by (simp add: Let_def MAX_QUAD_LEVEL_COUNT_def del: of_nat_add)
qed

theorem build_overruns_pool_witness:
  "build int_glm (flat 16) (3 + 1) (3 + 1) (QuadCollapseMesh int_glm) = fail BadIndex"
  by (rule build_overruns_pool[of 1]) simp_all

text \<open>
  The counters of the quad pools are never reset: building a mesh a second time with the same size
  finds both pools used up and dereferences the null pointer that the allocation returns.
\<close>

theorem rebuild_faults:
  assumes "k < MAX_QUAD_LEVEL_COUNT" "length vs = (2 ^ k + 1) * (2 ^ k + 1)" "length vs' = (2 ^ k + 1) * (2 ^ k + 1)"
  shows "rbind (build g vs (2 ^ k + 1) (2 ^ k + 1) (QuadCollapseMesh g))
      (\<lambda>(ok, m). build g vs' (2 ^ k + 1) (2 ^ k + 1) m) = fail NullDeref"
proof -
  obtain m where m: "build g vs (2 ^ k + 1) (2 ^ k + 1) (QuadCollapseMesh g) = ret (True, m)" "terrain k m"
    "length (vertNodesLevelOffset m) = MAX_QUAD_LEVEL_COUNT"
    using build_run[OF assms(1,2), of g] by blast
  have full: "quadNodePoolAllocated m = inner_quads k" "quadLeafPoolAllocated m = 4 ^ k"
    using m(2) by (simp_all add: terrain_def tree_inv_def sized_def)
  obtain m' where run: "build g vs' (2 ^ k + 1) (2 ^ k + 1) m =
      rbind (recursiveBuildQuadNodes g 0 0 0 (2 ^ k) m') (\<lambda>(q, m). ret (True, m\<lparr>rootQuadNode := Some q\<rparr>))"
    and m': "sized k m'" "quadNodePoolAllocated m' = inner_quads k" "quadLeafPoolAllocated m' = 4 ^ k"
    using build_front[OF assms(1,3) m(3), of g] full by auto
  have "recursiveBuildQuadNodes g 0 0 0 (2 ^ k) m' = fail NullDeref"
    using m' by (subst recursiveBuildQuadNodes.simps) (simp add: sized_def allocQuadLeaf_def allocQuadNode_def)
  then show ?thesis using m(1) run by simp
qed

theorem rebuild_faults_witness:
  "rbind (build int_glm (flat 9) (2 ^ 1 + 1) (2 ^ 1 + 1) (QuadCollapseMesh int_glm))
      (\<lambda>(ok, m). build int_glm (flat 9) (2 ^ 1 + 1) (2 ^ 1 + 1) m) = fail NullDeref"
  by (rule rebuild_faults) (simp_all add: MAX_QUAD_LEVEL_COUNT_def)

end
