(* ===== verification/Terrain_Lod.thy ===== *)
theory Terrain_Lod
  imports Terrain_Complete
begin

text \<open>
  A frame of \<^verbatim>\<open>QuadCollapseMesh::update\<close> with levels of detail on a terrain made by \<^verbatim>\<open>build\<close>: all its
  loops end, no leaf is read as an inner node, the quads it draws tile the terrain, and each of
  them is drawn with six vertices as long as the frame counter fits the 24 bits of the stamps.
\<close>

section \<open>What a frame leaves alone\<close>

definition vert_core :: "('v, 'f) vert_node \<Rightarrow> nat \<times> quad_ptr list \<times> 'v vertex \<times> nat option \<times> nat option \<times> nat option" where
  "vert_core n = (v_level n, adjcentQuads n, originalVertex n, v_parent n, firstChild n, nextSibling n)"

definition quad_core :: "quad_node \<Rightarrow> nat \<times> quad_ptr option \<times> nat list \<times> quad_ptr list \<times> triangulation_mode" where
  "quad_core n = (q_level n, q_parent n, cornerVertNodes n, children n, triangulationMode n)"

definition restamp :: "('v, 'f) mesh \<Rightarrow> ('v, 'f) mesh \<Rightarrow> bool" where
  "restamp m m' \<longleftrightarrow> map vert_core (vertNodePool m') = map vert_core (vertNodePool m) \<and>
     map quad_core (quadNodePool m') = map quad_core (quadNodePool m) \<and>
     map quad_core (quadLeafPool m') = map quad_core (quadLeafPool m) \<and>
     (\<exists>vs qs ls. m' = m\<lparr>vertNodePool := vs, quadNodePool := qs, quadLeafPool := ls\<rparr>)"

lemma restamp_refl [simp]: "restamp m m"
  unfolding restamp_def
  by (intro conjI refl exI[of _ "vertNodePool m"] exI[of _ "quadNodePool m"] exI[of _ "quadLeafPool m"]) simp

lemma restamp_verts:
  assumes "map vert_core vs = map vert_core (vertNodePool m)"
  shows "restamp m (m\<lparr>vertNodePool := vs\<rparr>)"
proof -
  have "m\<lparr>vertNodePool := vs\<rparr> = m\<lparr>vertNodePool := vs, quadNodePool := quadNodePool m, quadLeafPool := quadLeafPool m\<rparr>"
    by simp
  then have "\<exists>us qs ls. m\<lparr>vertNodePool := vs\<rparr> = m\<lparr>vertNodePool := us, quadNodePool := qs, quadLeafPool := ls\<rparr>" by blast
  then show ?thesis unfolding restamp_def using assms by simp
qed

lemma restamp_trans: "restamp m m' \<Longrightarrow> restamp m' m'' \<Longrightarrow> restamp m m''"
  unfolding restamp_def by (elim conjE exE) (intro conjI, simp, simp, simp, hypsubst, intro exI, simp)

lemma map_eq_nthD: "map f xs = map f ys \<Longrightarrow> length xs = length ys \<and> (i < length ys \<longrightarrow> f (xs ! i) = f (ys ! i))"
  by (metis length_map nth_map)

lemma restampD:
  assumes "restamp m m'"
  shows "length (vertNodePool m') = length (vertNodePool m)" "length (quadNodePool m') = length (quadNodePool m)"
    "length (quadLeafPool m') = length (quadLeafPool m)" "updateFrame m' = updateFrame m"
    "quadNodePoolAllocated m' = quadNodePoolAllocated m" "quadLeafPoolAllocated m' = quadLeafPoolAllocated m"
    "rootVertNodes m' = rootVertNodes m" "rootQuadNode m' = rootQuadNode m" "activeVertices m' = activeVertices m"
    "lodIndices m' = lodIndices m" "lod m' = lod m" "alloced m' = alloced m"
    "vertNodesActiveDistance m' = vertNodesActiveDistance m"
    "vertexBuffer m' = vertexBuffer m" "indexBuffer m' = indexBuffer m" "mesh_size m' = mesh_size m"
proof -
  obtain vs qs ls where m': "m' = m\<lparr>vertNodePool := vs, quadNodePool := qs, quadLeafPool := ls\<rparr>"
    using assms unfolding restamp_def by blast
  show "length (vertNodePool m') = length (vertNodePool m)" "length (quadNodePool m') = length (quadNodePool m)"
    "length (quadLeafPool m') = length (quadLeafPool m)"
    using assms map_eq_nthD unfolding restamp_def by metis+
  show "updateFrame m' = updateFrame m" "quadNodePoolAllocated m' = quadNodePoolAllocated m"
    "quadLeafPoolAllocated m' = quadLeafPoolAllocated m" "rootVertNodes m' = rootVertNodes m" "rootQuadNode m' = rootQuadNode m"
    "activeVertices m' = activeVertices m" "lodIndices m' = lodIndices m" "lod m' = lod m"
    "vertNodesActiveDistance m' = vertNodesActiveDistance m" "vertexBuffer m' = vertexBuffer m"
    "indexBuffer m' = indexBuffer m" "mesh_size m' = mesh_size m" by (simp_all add: m')
  show "alloced m' = alloced m" by (rule ext) (simp add: m' alloced_def split: quad_ptr.split)
qed

lemma restamp_vert:
  assumes "restamp m m'" "v < length (vertNodePool m)"
  shows "v_level (vertNodePool m' ! v) = v_level (vertNodePool m ! v)" "adjcentQuads (vertNodePool m' ! v) = adjcentQuads (vertNodePool m ! v)"
    "v_parent (vertNodePool m' ! v) = v_parent (vertNodePool m ! v)" "firstChild (vertNodePool m' ! v) = firstChild (vertNodePool m ! v)"
    "nextSibling (vertNodePool m' ! v) = nextSibling (vertNodePool m ! v)"
  using assms map_eq_nthD[of vert_core "vertNodePool m'" "vertNodePool m" v] by (simp_all add: restamp_def vert_core_def)

text \<open>The pools are fully allocated.\<close>

definition full_pools :: "('v, 'f) mesh \<Rightarrow> bool" where
  "full_pools m \<longleftrightarrow> quadNodePoolAllocated m = length (quadNodePool m) \<and> quadLeafPoolAllocated m = length (quadLeafPool m)"

lemma restamp_quad:
  assumes "restamp m m'" "full_pools m" "alloced m q"
  shows "quad_core (quad_at m' q) = quad_core (quad_at m q)"
  using assms map_eq_nthD[of quad_core "quadNodePool m'" "quadNodePool m"] map_eq_nthD[of quad_core "quadLeafPool m'" "quadLeafPool m"]
  by (cases q) (simp_all add: restamp_def full_pools_def alloced_def quad_at_def)

lemmas restamp_quadD = restamp_quad[unfolded quad_core_def prod.inject]

section \<open>The invariant between frames\<close>

definition lod_struct :: "nat \<Rightarrow> ('v, 'f) mesh \<Rightarrow> bool" where
  "lod_struct k m \<longleftrightarrow> full_pools m \<and> kids (vertNodePool m) \<and>
     (\<forall>v<length (vertNodePool m). v_level (vertNodePool m ! v) \<le> k) \<and>
     (\<forall>v<length (vertNodePool m). v_level (vertNodePool m ! v) \<noteq> 0 \<longrightarrow> v_parent (vertNodePool m ! v) \<noteq> None) \<and>
     (\<forall>v<length (vertNodePool m). v_level (vertNodePool m ! v) = 0 \<longrightarrow> v \<in> set (rootVertNodes m)) \<and>
     (\<forall>v<length (vertNodePool m). \<forall>q\<in>set (adjcentQuads (vertNodePool m ! v)). alloced m q) \<and>
     (\<forall>q p. alloced m q \<and> q_parent (quad_at m q) = Some p \<longrightarrow>
        alloced m p \<and> (\<exists>i. p = Node i) \<and> q_level (quad_at m q) = q_level (quad_at m p) + 1) \<and>
     length (rootVertNodes m) = 4 \<and> (\<forall>v\<in>set (rootVertNodes m). v < length (vertNodePool m)) \<and>
     length (vertNodePool m) = voff (Suc k) \<and>
     (\<exists>q. rootQuadNode m = Some q \<and> complete m k q 0 0 0)"

definition stamps_ok :: "('v, 'f) mesh \<Rightarrow> bool" where
  "stamps_ok m \<longleftrightarrow>
     (\<forall>v<length (vertNodePool m). v_activeFrame (vertNodePool m ! v) \<le> updateFrame m \<and>
        v_activeFrame (vertNodePool m ! v) < 2 ^ 24) \<and>
     (\<forall>q. alloced m q \<longrightarrow> q_activeFrame (quad_at m q) \<le> updateFrame m) \<and>
     (\<forall>i. alloced m (Leaf i) \<and> q_state (quad_at m (Leaf i)) = NS_ACTIVE \<longrightarrow> q_activeFrame (quad_at m (Leaf i)) = 0)"

lemma restamp_struct:
  assumes r: "restamp m m'" and s: "lod_struct k m"
  shows "lod_struct k m'"
proof -
  note d = restampD[OF r] and v = restamp_vert[OF r]
  have fp: "full_pools m" using s by (simp add: lod_struct_def)
  note q = restamp_quadD[OF r fp]
  show ?thesis
    unfolding lod_struct_def
  proof (intro conjI)
    have "kids (vertNodePool m') = kids (vertNodePool m)" by (rule kids_cong) (use d(1) v in auto)
    then show "kids (vertNodePool m')" using s by (simp add: lod_struct_def)
    show "full_pools m'" using fp by (simp add: full_pools_def d)
    show "\<forall>v\<in>set (rootVertNodes m'). v < length (vertNodePool m')" using s unfolding lod_struct_def d by blast
    have "complete m' k p 0 0 0" if "complete m k p 0 0 0" for p
      by (rule complete_cong[OF that]) (use q in \<open>simp add: d(12)\<close>)
    then show "\<exists>q. rootQuadNode m' = Some q \<and> complete m' k q 0 0 0" using s unfolding lod_struct_def d(8) by blast
    show "\<forall>p s. alloced m' p \<and> q_parent (quad_at m' p) = Some s \<longrightarrow>
        alloced m' s \<and> (\<exists>i. s = Node i) \<and> q_level (quad_at m' p) = q_level (quad_at m' s) + 1"
    proof (intro allI impI)
      fix p t assume p: "alloced m' p \<and> q_parent (quad_at m' p) = Some t"
      then have "alloced m p" "q_parent (quad_at m p) = Some t" using q[of p] by (simp_all add: d(12))
      then have "alloced m t \<and> (\<exists>i. t = Node i) \<and> q_level (quad_at m p) = q_level (quad_at m t) + 1"
        using s unfolding lod_struct_def by blast
      then show "alloced m' t \<and> (\<exists>i. t = Node i) \<and> q_level (quad_at m' p) = q_level (quad_at m' t) + 1"
        using q[of p] q[of t] p by (simp add: d(12))
    qed
  qed (use s v in \<open>simp_all add: lod_struct_def d\<close>)
qed

lemma terrain_lod:
  assumes t: "terrain k m"
  shows "lod_struct k m \<and> stamps_ok m"
proof -
  have inv: "tree_inv k m" using t by (simp add: terrain_def)
  have len: "length (vertNodePool m) = voff (Suc k)" by (rule tree_length[OF inv])
  have root: "rootVertNodes m = [vid 0 0 0, vid 0 1 0, vid 0 1 1, vid 0 0 1]" using t by (simp add: terrain_def)
  have lev: "v_level (vertNodePool m ! v) \<le> k \<and> (v_level (vertNodePool m ! v) = 0 \<longrightarrow> v \<in> set (rootVertNodes m))"
    if v: "v < length (vertNodePool m)" for v
  proof -
    obtain l x y where p: "l \<le> k" "x \<le> 2 ^ l" "y \<le> 2 ^ l" "v = vid l x y" using vid_exhaust[of v k] v len by metis
    then have "v_level (vertNodePool m ! v) = l" using inv by (simp add: tree_inv_def links_ok_def)
    moreover have "v \<in> set (rootVertNodes m)" if "l = 0"
      using p that unfolding root by (cases "x = 0"; cases "y = 0") (auto simp: le_Suc_eq)
    ultimately show ?thesis using p(1) by simp
  qed
  have qo: "quads_ok k m" and ao: "adjacency_ok m" and lo: "links_ok k m" using inv by (simp_all add: tree_inv_def)
  have q0: "q_activeFrame (quad_at m q) = 0" if "alloced m q" for q
    using qo that unfolding quads_ok_def quad_on_def by blast
  have "lod_struct k m"
    unfolding lod_struct_def
  proof (intro conjI)
    show "full_pools m" using t by (simp add: terrain_def full_pools_def)
    show "kids (vertNodePool m)" using lo by (simp add: links_ok_def)
    show "\<forall>v<length (vertNodePool m). v_level (vertNodePool m ! v) \<noteq> 0 \<longrightarrow> v_parent (vertNodePool m ! v) \<noteq> None"
      using terrain_parent[OF t] by fastforce
    show "\<forall>v<length (vertNodePool m). \<forall>q\<in>set (adjcentQuads (vertNodePool m ! v)). alloced m q" using ao by (simp add: adjacency_ok_def)
    show "\<forall>q p. alloced m q \<and> q_parent (quad_at m q) = Some p \<longrightarrow>
        alloced m p \<and> (\<exists>i. p = Node i) \<and> q_level (quad_at m q) = q_level (quad_at m p) + 1" using qo unfolding quads_ok_def by blast
    show "\<exists>q. rootQuadNode m = Some q \<and> complete m k q 0 0 0" using t by (auto simp: terrain_def)
    show "\<forall>v\<in>set (rootVertNodes m). v < length (vertNodePool m)" unfolding root len by (auto intro!: vid_less)
  qed (use lev len root in auto)
  moreover have "stamps_ok m" using ao q0 by (simp add: stamps_ok_def adjacency_ok_def)
  ultimately show ?thesis by blast
qed

section \<open>The loops end\<close>

text \<open>
  \<open>marks m m'\<close>: from \<open>m\<close> to \<open>m'\<close> only stamps, states and interpolated vertices changed, vertices
  stamped in this frame stay stamped, and no leaf was marked active.
\<close>

definition marks :: "('v, 'f) mesh \<Rightarrow> ('v, 'f) mesh \<Rightarrow> bool" where
  "marks m m' \<longleftrightarrow> restamp m m' \<and> stamps_ok m' \<and>
     (\<forall>v<length (vertNodePool m). stamped_vert m v \<longrightarrow> stamped_vert m' v)"

lemma marks_refl: "stamps_ok m \<Longrightarrow> marks m m"
  by (simp add: marks_def)

lemma marks_trans: "marks m m' \<Longrightarrow> marks m' m'' \<Longrightarrow> marks m m''"
  unfolding marks_def using restamp_trans restampD(1) by metis

lemma marksD:
  assumes "marks m m'"
  shows "restamp m m'" "stamps_ok m'" "lod_struct k m \<Longrightarrow> lod_struct k m'"
    "v < length (vertNodePool m) \<Longrightarrow> stamped_vert m v \<Longrightarrow> stamped_vert m' v"
  using assms restamp_struct by (auto simp: marks_def)

lemma map_list_update_same: "f x = f (xs ! i) \<Longrightarrow> map f (xs[i := x]) = map f xs"
  by (cases "i < length xs") (simp_all add: map_update list_update_same_conv list_update_beyond)

lemma stamp_quad_marks:
  assumes "full_pools m" "stamps_ok m" "alloced m q" "\<And>i. q = Leaf i \<Longrightarrow> s = NS_BOUNDARY"
  shows "marks m (stamp_quad q s m)" "quad_core (quad_at (stamp_quad q s m) q) = quad_core (quad_at m q)"
proof -
  let ?f = "\<lambda>n. n\<lparr>q_activeFrame := updateFrame m mod 2 ^ 26, q_state := s\<rparr>"
  have pool: "case q of Node i \<Rightarrow> i < length (quadNodePool m) | Leaf i \<Rightarrow> i < length (quadLeafPool m)"
    using assms(1,3) by (cases q) (simp_all add: full_pools_def alloced_def)
  note at = quad_at_upd[OF pool, of ?f, folded stamp_quad_def]
  have core: "quad_core (n\<lparr>q_activeFrame := a, q_state := s\<rparr>) = quad_core n" for n a by (simp add: quad_core_def)
  show "quad_core (quad_at (stamp_quad q s m) q) = quad_core (quad_at m q)" by (simp add: at core)
  have "restamp m (stamp_quad q s m)"
    unfolding restamp_def
  proof (intro conjI)
    show "\<exists>vs qs ls. stamp_quad q s m = m\<lparr>vertNodePool := vs, quadNodePool := qs, quadLeafPool := ls\<rparr>"
      by (cases q; intro exI[of _ "vertNodePool m"] exI[of _ "quadNodePool (stamp_quad q s m)"] exI[of _ "quadLeafPool (stamp_quad q s m)"])
        (simp_all add: stamp_quad_def upd_quad_def)
  qed (cases q; simp add: stamp_quad_def upd_quad_def map_list_update_same core)+
  moreover have "updateFrame (stamp_quad q s m) = updateFrame m" by (cases q) (simp_all add: stamp_quad_def upd_quad_def)
  moreover have "vertNodePool (stamp_quad q s m) = vertNodePool m" "alloced (stamp_quad q s m) = alloced m"
    by (simp_all add: stamp_quad_def)
  ultimately show "marks m (stamp_quad q s m)"
    using assms(2,4) by (auto simp: marks_def stamps_ok_def stamped_vert_def at)
qed

lemma stamp_vert_marks:
  assumes "stamps_ok m" "v < length (vertNodePool m)"
  shows "marks m (stamp_vert v s m)" "vert_core (vertNodePool (stamp_vert v s m) ! v) = vert_core (vertNodePool m ! v)"
    "updateFrame m < 2 ^ 24 \<Longrightarrow> stamped_vert (stamp_vert v s m) v"
proof -
  let ?n = "(vertNodePool m ! v)\<lparr>v_activeFrame := updateFrame m mod 2 ^ 24, v_state := s\<rparr>"
  have m': "stamp_vert v s m = m\<lparr>vertNodePool := (vertNodePool m)[v := ?n]\<rparr>" by (simp add: stamp_vert_def upd_vert_def)
  have core: "vert_core ?n = vert_core (vertNodePool m ! v)" by (simp add: vert_core_def)
  then show "vert_core (vertNodePool (stamp_vert v s m) ! v) = vert_core (vertNodePool m ! v)" using assms(2) by (simp add: m')
  show "stamped_vert (stamp_vert v s m) v" if "updateFrame m < 2 ^ 24" using that assms(2) by (simp add: stamped_vert_def m')
  have "restamp m (stamp_vert v s m)"
    unfolding m' by (rule restamp_verts, rule map_list_update_same, rule core)
  moreover have "stamped_vert (stamp_vert v s m) w" if "w < length (vertNodePool m)" "stamped_vert m w" for w
    using that assms(1) by (cases "w = v") (auto simp: stamped_vert_def m' stamps_ok_def nth_list_update)
  moreover have "stamps_ok (stamp_vert v s m)" using assms by (auto simp: stamps_ok_def m' nth_list_update)
  ultimately show "marks m (stamp_vert v s m)" by (simp add: marks_def)
qed

lemma set_interpolated_marks:
  assumes "stamps_ok m"
  shows "marks m (set_interpolated v x m)" "vert_core (vertNodePool (set_interpolated v x m) ! v) = vert_core (vertNodePool m ! v)"
proof -
  let ?n = "(vertNodePool m ! v)\<lparr>interpolatedVertex := x\<rparr>"
  have m': "set_interpolated v x m = m\<lparr>vertNodePool := (vertNodePool m)[v := ?n]\<rparr>" by (simp add: set_interpolated_def upd_vert_def)
  have core: "vert_core ?n = vert_core (vertNodePool m ! v)" by (simp add: vert_core_def)
  have fr: "v_activeFrame ((vertNodePool m)[v := ?n] ! w) = v_activeFrame (vertNodePool m ! w)" for w
    by (cases "v < length (vertNodePool m)") (auto simp: nth_list_update list_update_beyond)
  show "vert_core (vertNodePool (set_interpolated v x m) ! v) = vert_core (vertNodePool m ! v)"
    using core by (cases "v < length (vertNodePool m)") (simp_all add: m' list_update_beyond)
  have "restamp m (set_interpolated v x m)"
    unfolding m' by (rule restamp_verts, rule map_list_update_same, rule core)
  then show "marks m (set_interpolated v x m)" using assms fr by (simp add: marks_def stamps_ok_def stamped_vert_def m')
qed

lemma parents_loop_ends:
  assumes "lod_struct k m" "stamps_ok m" "\<And>q. p = Some q \<Longrightarrow> alloced m q \<and> (\<exists>i. q = Node i)"
  shows "\<exists>m'. parents_loop p m = Some m' \<and> marks m m'"
  using assms
proof (induction "case p of None \<Rightarrow> 0 | Some q \<Rightarrow> Suc (q_level (quad_at m q))" arbitrary: p m rule: less_induct)
  case less
  show ?case
  proof (cases p)
    case None
    then show ?thesis using less.prems(2) by (simp add: parents_loop.simps marks_refl)
  next
    case (Some q)
    have q: "alloced m q" "\<exists>i. q = Node i" using less.prems(3) Some by auto
    have fp: "full_pools m" using less.prems(1) by (simp add: lod_struct_def)
    let ?m = "stamp_quad q NS_ACTIVE m"
    have mk: "marks m ?m" "quad_core (quad_at ?m q) = quad_core (quad_at m q)"
      using stamp_quad_marks[OF fp less.prems(2) q(1), of NS_ACTIVE] q(2) by auto
    have "\<exists>m'. parents_loop (q_parent (quad_at ?m q)) ?m = Some m' \<and> marks ?m m'"
    proof (rule less.hyps)
      show "lod_struct k ?m" "stamps_ok ?m" using marksD[OF mk(1)] less.prems(1) by blast+
      then show "alloced ?m r \<and> (\<exists>i. r = Node i)" if "q_parent (quad_at ?m q) = Some r" for r
        using that q(1) restampD(12)[OF marksD(1)[OF mk(1)]] unfolding lod_struct_def by metis
      show "(case q_parent (quad_at ?m q) of None \<Rightarrow> 0 | Some r \<Rightarrow> Suc (q_level (quad_at ?m r))) <
          (case p of None \<Rightarrow> 0 | Some q \<Rightarrow> Suc (q_level (quad_at m q)))"
      proof (cases "q_parent (quad_at ?m q)")
        case None
        then show ?thesis using Some by simp
      next
        case (Some r)
        have "q_level (quad_at ?m q) = q_level (quad_at ?m r) + 1"
          using \<open>lod_struct k ?m\<close> Some q(1) restampD(12)[OF marksD(1)[OF mk(1)]] unfolding lod_struct_def by metis
        then have "q_level (quad_at ?m r) < q_level (quad_at m q)" using mk(2) by (simp add: quad_core_def)
        then show ?thesis unfolding Some \<open>p = Some q\<close> by simp
      qed
    qed
    then obtain m' where "parents_loop (q_parent (quad_at ?m q)) ?m = Some m'" "marks ?m m'" by blast
    then show ?thesis using Some marks_trans[OF mk(1)] marks_refl[OF less.prems(2)]
      by (subst parents_loop.simps) (auto simp: Let_def)
  qed
qed

lemma quadNodeSetBoundary_ends:
  assumes "lod_struct k m" "stamps_ok m" "alloced m q"
  shows "\<exists>m'. quadNodeSetBoundary q m = Some m' \<and> marks m m'"
proof -
  have fp: "full_pools m" using assms(1) by (simp add: lod_struct_def)
  let ?m = "stamp_quad q NS_BOUNDARY m"
  have mk: "marks m ?m" by (rule stamp_quad_marks[OF fp assms(2,3)]) simp
  note s = marksD(3)[OF mk assms(1)] marksD(2)[OF mk]
  have "alloced ?m r \<and> (\<exists>i. r = Node i)" if "q_parent (quad_at ?m q) = Some r" for r
    using that assms(3) s(1) restampD(12)[OF marksD(1)[OF mk]] unfolding lod_struct_def by metis
  then obtain m' where "parents_loop (q_parent (quad_at ?m q)) ?m = Some m'" "marks ?m m'"
    using parents_loop_ends[OF s] by blast
  then show ?thesis using marks_trans[OF mk] marks_refl[OF assms(2)] by (auto simp: quadNodeSetBoundary_def Let_def)
qed

lemma ofold_marks:
  assumes "lod_struct k m" "stamps_ok m" "set xs \<subseteq> X"
    and "\<And>x m. x \<in> X \<Longrightarrow> lod_struct k m \<Longrightarrow> stamps_ok m \<Longrightarrow> P m \<Longrightarrow> \<exists>m'. f x m = Some m' \<and> marks m m'"
    and "\<And>m m'. P m \<Longrightarrow> marks m m' \<Longrightarrow> P m'" "P m"
  shows "\<exists>m'. ofold f xs m = Some m' \<and> marks m m'"
  using assms(1-3,6)
proof (induction xs arbitrary: m)
  case Nil
  then show ?case by (simp add: marks_refl)
next
  case (Cons x xs)
  obtain m1 where m1: "f x m = Some m1" "marks m m1" using assms(4)[of x m] Cons.prems by auto
  obtain m2 where "ofold f xs m1 = Some m2" "marks m1 m2"
    using Cons.IH[of m1] marksD[OF m1(2)] Cons.prems assms(5)[OF _ m1(2)] by auto
  then show ?case using m1 marks_trans by auto
qed

lemma boundary_quads_ends:
  assumes "lod_struct k m" "stamps_ok m" "v < length (vertNodePool m)"
  shows "\<exists>m'. boundary_quads v m = Some m' \<and> marks m m'"
  unfolding boundary_quads_def
proof (rule ofold_marks[OF assms(1,2) subset_refl, where P = "\<lambda>m'. alloced m' = alloced m"])
  fix q m' assume q: "q \<in> set (adjcentQuads (vertNodePool m ! v))" and m': "lod_struct k m'" "stamps_ok m'" "alloced m' = alloced m"
  have "alloced m q" using assms(1,3) q by (auto simp: lod_struct_def)
  then show "\<exists>m''. quadNodeSetBoundary q m' = Some m'' \<and> marks m' m''" using quadNodeSetBoundary_ends[OF m'(1,2)] m'(3) by simp
qed (auto dest: restampD(12)[OF marksD(1)])

lemma siblings_end:
  assumes "\<And>c m. c \<in> set cs \<Longrightarrow> lod_struct k m \<Longrightarrow> stamps_ok m \<Longrightarrow> P m \<Longrightarrow>
      \<exists>m'. visit_verts g (Visit c) m = Some m' \<and> marks m m'"
    and "\<And>m m'. P m \<Longrightarrow> marks m m' \<Longrightarrow> P m'"
    and "lod_struct k m" "stamps_ok m" "P m" "chained (vertNodePool m) s cs" "\<forall>c\<in>set cs. c < length (vertNodePool m)"
  shows "\<exists>m'. visit_verts g (Siblings s) m = Some m' \<and> marks m m'"
  using assms(1,3-7)
proof (induction cs arbitrary: s m)
  case Nil
  then show ?case by (simp add: visit_verts.simps marks_refl)
next
  case (Cons c cs)
  obtain m1 where m1: "visit_verts g (Visit c) m = Some m1" "marks m m1"
    using Cons.prems(1)[of c m] Cons.prems(2-4) by auto
  note r = marksD(1)[OF m1(2)]
  have s: "s = Some c" "chained (vertNodePool m) (nextSibling (vertNodePool m ! c)) cs" using Cons.prems(5) by auto
  have "nextSibling (vertNodePool m1 ! d) = nextSibling (vertNodePool m ! d)" if "d \<in> set (c # cs)" for d
    using restamp_vert(5)[OF r] Cons.prems(6) that by blast
  then have "chained (vertNodePool m1) (nextSibling (vertNodePool m1 ! c)) cs"
    using s(2) chained_cong[of cs "vertNodePool m1" "vertNodePool m"] by simp
  then obtain m2 where "visit_verts g (Siblings (nextSibling (vertNodePool m1 ! c))) m1 = Some m2" "marks m1 m2"
    using Cons.IH[of m1 "nextSibling (vertNodePool m1 ! c)"] Cons.prems marksD[OF m1(2)] assms(2)[OF _ m1(2)] restampD(1)[OF r] by auto
  then show ?case using m1 s(1) marks_trans by (subst visit_verts.simps) auto
qed

lemma visit_ends:
  assumes "lod_struct k m" "stamps_ok m" "v < length (vertNodePool m)"
  shows "\<exists>m'. visit_verts g (Visit v) m = Some m' \<and> marks m m' \<and> (updateFrame m < 2 ^ 24 \<longrightarrow> stamped_vert m' v)"
  using assms
proof (induction "k - v_level (vertNodePool m ! v)" arbitrary: v m rule: less_induct)
  case less
  show ?case
  proof (cases "stamped_vert m v")
    case True
    then show ?thesis using less.prems(2) by (subst visit_verts.simps) (simp add: marks_refl)
  next
    case False
    let ?m = "stamp_vert v NS_BOUNDARY m"
    let ?n = "vertNodePool ?m ! v"
    note st = stamp_vert_marks[OF less.prems(2,3), of NS_BOUNDARY]
    note s1 = marksD(3)[OF st(1) less.prems(1)] marksD(2)[OF st(1)]
    note r1 = marksD(1)[OF st(1)]
    have v1: "v < length (vertNodePool ?m)" using less.prems(3) restampD(1)[OF r1] by simp
    have stamped: "updateFrame m < 2 ^ 24 \<longrightarrow> stamped_vert m' v" if "marks ?m m'" for m'
      using st(3) marksD(4)[OF that v1] by blast
    have quads: "\<exists>m'. boundary_quads v (set_interpolated v x ?m) = Some m' \<and> marks ?m m'" for x
    proof -
      note si = set_interpolated_marks(1)[OF s1(2), of v x]
      obtain m' where "boundary_quads v (set_interpolated v x ?m) = Some m'" "marks (set_interpolated v x ?m) m'"
        using boundary_quads_ends[OF marksD(3)[OF si s1(1)] marksD(2)[OF si]] v1 restampD(1)[OF marksD(1)[OF si]] by auto
      then show ?thesis using marks_trans[OF si] by blast
    qed
    have kids: "\<exists>m'. visit_verts g (Siblings (firstChild ?n)) (stamp_vert v NS_ACTIVE ?m) = Some m' \<and> marks ?m m'"
    proof -
      let ?m2 = "stamp_vert v NS_ACTIVE ?m"
      note st2 = stamp_vert_marks[OF s1(2) v1, of NS_ACTIVE]
      note s2 = marksD(3)[OF st2(1) s1(1)] marksD(2)[OF st2(1)]
      have v2: "v < length (vertNodePool ?m2)" using v1 restampD(1)[OF marksD(1)[OF st2(1)]] by simp
      obtain K where K: "kids_ok (vertNodePool ?m2) K" using s2(1) by (auto simp: lod_struct_def kids_def)
      have fc: "firstChild (vertNodePool ?m2 ! v) = firstChild ?n" using st2(2) by (simp add: vert_core_def)
      have "chained (vertNodePool ?m2) (firstChild (vertNodePool ?m2 ! v)) (K v)" using K v2 unfolding kids_ok_def by blast
      then have ch: "chained (vertNodePool ?m2) (firstChild ?n) (K v)" unfolding fc .
      have lev: "v_level (vertNodePool ?m2 ! v) = v_level (vertNodePool m ! v)"
        using st2(2) st(2) by (simp add: vert_core_def)
      have r2: "restamp m ?m2" by (rule restamp_trans[OF r1 marksD(1)[OF st2(1)]])
      have "\<exists>m'. visit_verts g (Siblings (firstChild ?n)) ?m2 = Some m' \<and> marks ?m2 m'"
      proof (rule siblings_end[OF _ _ s2 _ ch, where P = "\<lambda>m'. restamp ?m2 m'"])
        fix c m' assume c: "c \<in> set (K v)" and m': "lod_struct k m'" "stamps_ok m'" "restamp ?m2 m'"
        note kc = kids_memD[OF K v2 c]
        have c': "c < length (vertNodePool m')" using kc(1) restampD(1)[OF m'(3)] by simp
        have lc: "v_level (vertNodePool m' ! c) = v_level (vertNodePool m ! v) + 1"
          using restamp_vert(1)[OF m'(3) kc(1)] kc(3) lev by simp
        moreover have "v_level (vertNodePool m' ! c) \<le> k" using m'(1) c' by (simp add: lod_struct_def)
        ultimately have "k - v_level (vertNodePool m' ! c) < k - v_level (vertNodePool m ! v)" by simp
        then show "\<exists>m''. visit_verts g (Visit c) m' = Some m'' \<and> marks m' m''" using less.hyps[OF _ m'(1,2) c'] by blast
      next
        show "\<forall>c\<in>set (K v). c < length (vertNodePool ?m2)" using kids_memD(1)[OF K v2] by blast
      qed (use marksD(1) restamp_trans restamp_refl in blast)+
      then show ?thesis using marks_trans[OF st2(1)] by blast
    qed
    have "\<exists>m'. visit_verts g (Visit v) m = Some m' \<and> marks ?m m'"
      apply (subst visit_verts.simps)
      using kids quads False by (auto simp: Let_def split: option.split)
    then show ?thesis using marks_trans[OF st(1)] stamped by blast
  qed
qed

section \<open>The vertices that are drawn\<close>

definition drawn_at :: "('v, 'f) mesh \<Rightarrow> nat \<Rightarrow> 'v vertex list" where
  "drawn_at m v = (case active_ancestor m (Some v) of
     Some (Some a) \<Rightarrow> [interpolatedVertex (vertNodePool m ! a)] | _ \<Rightarrow> [])"

definition roots_stamped :: "('v, 'f) mesh \<Rightarrow> bool" where
  "roots_stamped m \<longleftrightarrow> (\<forall>v\<in>set (rootVertNodes m). stamped_vert m v)"

lemma stamped_draw [simp]:
  "stamped_vert (m\<lparr>activeVertices := av\<rparr>) v = stamped_vert m v" "stamped_quad (m\<lparr>activeVertices := av\<rparr>) q = stamped_quad m q"
  "quad_at (m\<lparr>activeVertices := av\<rparr>) q = quad_at m q"
  by (simp_all add: stamped_vert_def stamped_quad_def quad_at_def split: quad_ptr.split)

lemma lod_parent:
  assumes "lod_struct k m" "v < length (vertNodePool m)" "v_parent (vertNodePool m ! v) = Some p"
  shows "p < length (vertNodePool m)" "v_level (vertNodePool m ! v) = v_level (vertNodePool m ! p) + 1"
proof -
  obtain K where "kids_ok (vertNodePool m) K" using assms(1) by (auto simp: lod_struct_def kids_def)
  then show "p < length (vertNodePool m)" "v_level (vertNodePool m ! v) = v_level (vertNodePool m ! p) + 1"
    using assms(2,3) unfolding kids_ok_def by blast+
qed

lemma active_ancestor_ends:
  assumes "lod_struct k m" "v < length (vertNodePool m)"
  shows "\<exists>a. (\<forall>av. active_ancestor (m\<lparr>activeVertices := av\<rparr>) (Some v) = Some a) \<and> (roots_stamped m \<longrightarrow> a \<noteq> None) \<and>
    ((\<forall>v<length (vertNodePool m). \<not> stamped_vert m v) \<longrightarrow> a = None)"
  using assms(2)
proof (induction "v_level (vertNodePool m ! v)" arbitrary: v rule: less_induct)
  case less
  show ?case
  proof (cases "stamped_vert m v")
    case True
    then show ?thesis using less.prems by (intro exI[of _ "Some v"]) (auto simp: active_ancestor.simps)
  next
    case False
    show ?thesis
    proof (cases "v_parent (vertNodePool m ! v)")
      case None
      then have "v \<in> set (rootVertNodes m)" using assms(1) less.prems unfolding lod_struct_def by metis
      then show ?thesis using False None by (intro exI[of _ None]) (auto simp: active_ancestor.simps roots_stamped_def)
    next
      case (Some p)
      note lp = lod_parent[OF assms(1) less.prems Some]
      have "active_ancestor (m\<lparr>activeVertices := av\<rparr>) (Some v) = active_ancestor (m\<lparr>activeVertices := av\<rparr>) (Some p)" for av
        using False Some by (subst active_ancestor.simps) simp
      then show ?thesis using less.hyps[of p] lp by simp
    qed
  qed
qed

lemma active_ancestor_draw:
  assumes "lod_struct k m" "v < length (vertNodePool m)"
  shows "active_ancestor (m\<lparr>activeVertices := av\<rparr>) (Some v) = active_ancestor m (Some v)"
proof -
  have "m\<lparr>activeVertices := activeVertices m\<rparr> = m" by simp
  then show ?thesis using active_ancestor_ends[OF assms] by metis
qed

lemma addActiveVertNode_draws:
  assumes "lod_struct k m" "v < length (vertNodePool m)"
  shows "addActiveVertNode v (m\<lparr>activeVertices := av\<rparr>) = Some (m\<lparr>activeVertices := av @ drawn_at m v\<rparr>)"
proof -
  let ?m = "m\<lparr>activeVertices := av\<rparr>"
  obtain a where a: "active_ancestor ?m (Some v) = Some a" using active_ancestor_ends[OF assms] by blast
  then have m: "active_ancestor m (Some v) = Some a" using active_ancestor_draw[OF assms] by metis
  show ?thesis
  proof (cases "stamped_vert m v")
    case True
    then have "a = Some v" using a by (simp add: active_ancestor.simps)
    then show ?thesis using True m by (simp add: addActiveVertNode_def drawn_at_def)
  next
    case False
    then have "active_ancestor ?m (v_parent (vertNodePool m ! v)) = Some a" using a by (subst (asm) active_ancestor.simps) simp
    then show ?thesis using False m by (cases a) (simp_all add: addActiveVertNode_def drawn_at_def)
  qed
qed

definition quad_vertices :: "('v, 'f) mesh \<Rightarrow> quad_ptr \<Rightarrow> 'v vertex list" where
  "quad_vertices m q = concat (map (drawn_at m) (triangle_corners (quad_at m q)))"

lemma emit_quad_draws:
  assumes "lod_struct k m" "\<forall>v\<in>set (triangle_corners (quad_at m q)). v < length (vertNodePool m)"
  shows "emit_quad q (m\<lparr>activeVertices := av\<rparr>) = Some (m\<lparr>activeVertices := av @ quad_vertices m q\<rparr>)"
proof -
  have "ofold addActiveVertNode vs (m\<lparr>activeVertices := av\<rparr>) = Some (m\<lparr>activeVertices := av @ concat (map (drawn_at m) vs)\<rparr>)"
    if "\<forall>v\<in>set vs. v < length (vertNodePool m)" for vs
    using that
  proof (induction vs arbitrary: av)
    case (Cons v vs)
    then show ?case using addActiveVertNode_draws[OF assms(1), of v av] by simp
  qed simp
  from this[OF assms(2)] show ?thesis by (simp add: emit_quad_def quad_vertices_def)
qed

text \<open>The quads that a frame draws, with their positions.\<close>

fun frontier :: "('v, 'f) mesh \<Rightarrow> nat \<Rightarrow> quad_ptr \<Rightarrow> nat \<Rightarrow> nat \<Rightarrow> nat \<Rightarrow> (quad_ptr \<times> nat \<times> nat \<times> nat) list" where
  "frontier m 0 q l x y = [(q, l, x, y)]"
| "frontier m (Suc d) q l x y =
     (if stamped_quad m q \<and> q_state (quad_at m q) = NS_ACTIVE then
        frontier m d (children (quad_at m q) ! 0) (l + 1) (2 * x) (2 * y) @
        frontier m d (children (quad_at m q) ! 1) (l + 1) (2 * x + 1) (2 * y) @
        frontier m d (children (quad_at m q) ! 2) (l + 1) (2 * x + 1) (2 * y + 1) @
        frontier m d (children (quad_at m q) ! 3) (l + 1) (2 * x) (2 * y + 1)
      else [(q, l, x, y)])"

definition covers :: "nat \<Rightarrow> nat \<times> nat \<Rightarrow> quad_ptr \<times> nat \<times> nat \<times> nat \<Rightarrow> bool" where
  "covers k ab p = (case (ab, p) of ((a, b), (q, l, x, y)) \<Rightarrow> a div 2 ^ (k - l) = x \<and> b div 2 ^ (k - l) = y)"

lemma frontier_tiles:
  assumes "l + d = k"
  shows "length (filter (covers k (a, b)) (frontier m d q l x y)) = (if covers k (a, b) (q, l, x, y) then 1 else 0)"
  using assms
proof (induction d arbitrary: q l x y)
  case (Suc d)
  have k: "k - l = Suc d" "k - (l + 1) = d" using Suc.prems by auto
  have half: "a div 2 ^ Suc d = a div 2 ^ d div 2" "b div 2 ^ Suc d = b div 2 ^ d div 2" by (simp_all only: power_Suc2 div_mult2_eq)
  have cov: "covers k (a, b) (r, l + 1, u, v) \<longleftrightarrow> a div 2 ^ d = u \<and> b div 2 ^ d = v" for r u v unfolding covers_def by (simp only: prod.case k)
  have top: "covers k (a, b) (q, l, x, y) \<longleftrightarrow> a div 2 ^ d div 2 = x \<and> b div 2 ^ d div 2 = y" unfolding covers_def by (simp only: prod.case k half)
  have IH: "length (filter (covers k (a, b)) (frontier m d r (l + 1) u v)) = (if a div 2 ^ d = u \<and> b div 2 ^ d = v then 1 else 0)" for r u v
    using Suc.IH[of "l + 1" r u v] Suc.prems by (simp only: cov add.assoc add_Suc_right add_Suc plus_1_eq_Suc)
  show ?case
  proof (cases "stamped_quad m q \<and> q_state (quad_at m q) = NS_ACTIVE")
    case True
    show ?thesis by (simp only: frontier.simps if_P[OF True] filter_append length_append IH top) auto
  next
    case False
    show ?thesis by (simp only: frontier.simps if_not_P[OF False]) simp
  qed
qed (simp add: covers_def)

lemma complete_corners_inside:
  assumes "complete m d q l x y" "x < 2 ^ l" "y < 2 ^ l" "l \<le> k"
  shows "\<forall>v\<in>set (triangle_corners (quad_at m q)). v < voff (Suc k)"
proof -
  have "cornerVertNodes (quad_at m q) = corners_at l x y" using assms(1) by (cases d) auto
  then have "set (triangle_corners (quad_at m q)) \<subseteq> set (corners_at l x y)"
    by (auto simp: triangle_corners_def corners_at_def)
  then show ?thesis using corners_inside[OF assms(2-4)] by blast
qed

lemma set_active_draws:
  assumes "lod_struct k m" "stamps_ok m" "0 < updateFrame m" "complete m d q l x y" "x < 2 ^ l" "y < 2 ^ l" "l + d = k"
  shows "recursiveSetActiveMesh (Some q) (m\<lparr>activeVertices := av\<rparr>) =
    ret (m\<lparr>activeVertices := av @ concat (map (\<lambda>p. quad_vertices m (fst p)) (frontier m d q l x y))\<rparr>)"
  using assms(4-7)
proof (induction d arbitrary: q l x y av)
  case 0
  have len: "length (vertNodePool m) = voff (Suc k)" using assms(1) by (simp add: lod_struct_def)
  have em: "emit_quad q (m\<lparr>activeVertices := av\<rparr>) = Some (m\<lparr>activeVertices := av @ quad_vertices m q\<rparr>)"
    using emit_quad_draws[OF assms(1)] complete_corners_inside[OF 0(1-3)] 0(4) len by simp
  obtain i where q: "q = Leaf i" "alloced m q" using 0(1) by auto
  have "q_state (quad_at m q) = NS_BOUNDARY" if "stamped_quad m q"
    using assms(2,3) that q by (cases "q_state (quad_at m q)") (auto simp: stamps_ok_def stamped_quad_def)
  then show ?case using em by (subst recursiveSetActiveMesh.simps) (simp add: ret_def)
next
  case (Suc d)
  have len: "length (vertNodePool m) = voff (Suc k)" using assms(1) by (simp add: lod_struct_def)
  have lk: "l \<le> k" using Suc.prems(4) by simp
  have em: "emit_quad q (m\<lparr>activeVertices := av\<rparr>) = Some (m\<lparr>activeVertices := av @ quad_vertices m q\<rparr>)"
    using emit_quad_draws[OF assms(1)] complete_corners_inside[OF Suc.prems(1-3) lk] len by simp
  obtain i q0 q1 q2 q3 where q: "q = Node i" "children (quad_at m q) = [q0, q1, q2, q3]"
    "complete m d q0 (l + 1) (2 * x) (2 * y)" "complete m d q1 (l + 1) (2 * x + 1) (2 * y)"
    "complete m d q2 (l + 1) (2 * x + 1) (2 * y + 1)" "complete m d q3 (l + 1) (2 * x) (2 * y + 1)"
    using Suc.prems(1) by auto
  have b: "2 * x < 2 ^ (l + 1)" "2 * x + 1 < 2 ^ (l + 1)" "2 * y < 2 ^ (l + 1)" "2 * y + 1 < 2 ^ (l + 1)" "l + 1 + d = k"
    using Suc.prems by simp_all
  note IH = Suc.IH[OF q(3) b(1,3,5)] Suc.IH[OF q(4) b(2,3,5)] Suc.IH[OF q(5) b(2,4,5)] Suc.IH[OF q(6) b(1,4,5)]
  show ?case
  proof (cases "stamped_quad m q \<and> q_state (quad_at m q) = NS_ACTIVE")
    case True
    have "children_at (m\<lparr>activeVertices := av\<rparr>) q = ret [q0, q1, q2, q3]"
      using q(1,2) by (simp add: children_at_def quad_at_def)
    then show ?thesis using True IH q(2) by (subst recursiveSetActiveMesh.simps) simp
  next
    case False
    then have "stamped_quad m q \<Longrightarrow> q_state (quad_at m q) = NS_BOUNDARY" using node_state.exhaust by blast
    then show ?thesis using em False by (subst recursiveSetActiveMesh.simps) (auto simp: ret_def)
  qed
qed

section \<open>A frame\<close>

lemma visit_roots:
  assumes "lod_struct k m" "stamps_ok m" "\<forall>v\<in>set vs. v < length (vertNodePool m)"
  shows "\<exists>m'. ofold (visit_root g) vs m = Some m' \<and> marks m m' \<and> (updateFrame m < 2 ^ 24 \<longrightarrow> (\<forall>v\<in>set vs. stamped_vert m' v))"
  using assms
proof (induction vs arbitrary: m)
  case Nil
  then show ?case by (simp add: marks_refl)
next
  case (Cons v vs)
  let ?m = "set_interpolated v (originalVertex (vertNodePool m ! v)) m"
  note si = set_interpolated_marks(1)[OF Cons.prems(2), of v "originalVertex (vertNodePool m ! v)"]
  have v: "v < length (vertNodePool ?m)" using Cons.prems(3) restampD(1)[OF marksD(1)[OF si]] by simp
  obtain m1 where m1: "visit_verts g (Visit v) ?m = Some m1" "marks ?m m1" "updateFrame ?m < 2 ^ 24 \<longrightarrow> stamped_vert m1 v"
    using visit_ends[OF marksD(3)[OF si Cons.prems(1)] marksD(2)[OF si] v] by blast
  note mk = marks_trans[OF si m1(2)]
  have f: "updateFrame ?m = updateFrame m" "updateFrame m1 = updateFrame m" "length (vertNodePool m1) = length (vertNodePool m)"
    using restampD(4)[OF marksD(1)[OF si]] restampD(1,4)[OF marksD(1)[OF mk]] by auto
  obtain m2 where m2: "ofold (visit_root g) vs m1 = Some m2" "marks m1 m2" "updateFrame m1 < 2 ^ 24 \<longrightarrow> (\<forall>v\<in>set vs. stamped_vert m2 v)"
    using Cons.IH[OF marksD(3)[OF mk Cons.prems(1)] marksD(2)[OF mk]] Cons.prems(3) f(3) by auto
  have "visit_root g v m = Some m1" using m1(1) by (simp add: visit_root_def recursiveUpdateVertNode_def)
  moreover have "updateFrame m < 2 ^ 24 \<longrightarrow> stamped_vert m2 v" using m1(3) f marksD(4)[OF m2(2)] Cons.prems(3) by simp
  ultimately show ?case using m2 f(2) marks_trans[OF mk m2(2)] by auto
qed

definition lod_inv :: "nat \<Rightarrow> ('v, 'f) mesh \<Rightarrow> bool" where
  "lod_inv k m \<longleftrightarrow> lod_struct k m \<and> stamps_ok m"

lemma lod_inv_same:
  assumes "vertNodePool m' = vertNodePool m" "quadNodePool m' = quadNodePool m" "quadLeafPool m' = quadLeafPool m"
    "quadNodePoolAllocated m' = quadNodePoolAllocated m" "quadLeafPoolAllocated m' = quadLeafPoolAllocated m"
    "rootQuadNode m' = rootQuadNode m" "rootVertNodes m' = rootVertNodes m" "updateFrame m' = updateFrame m"
  shows "lod_inv k m' = lod_inv k m"
proof -
  have at: "quad_at m' = quad_at m" by (rule ext) (simp add: quad_at_def assms split: quad_ptr.split)
  have al: "alloced m' = alloced m" by (rule ext) (simp add: alloced_def assms split: quad_ptr.split)
  have "complete m' k q 0 0 0 = complete m k q 0 0 0" for q
    using complete_cong[of m k q 0 0 0 m'] complete_cong[of m' k q 0 0 0 m] by (auto simp: at al)
  then show ?thesis by (simp add: lod_inv_def lod_struct_def stamps_ok_def full_pools_def at al assms)
qed

lemma lod_inv_cong:
  "lod_inv k (m\<lparr>activeVertices := av, vertexBuffer := vb, mesh_size := s, indexBuffer := ib\<rparr>) = lod_inv k m"
  by (rule lod_inv_same) simp_all

lemma next_frame:
  assumes "lod_inv k m" "updateFrame m + 1 < 2 ^ 32"
  shows "lod_inv k (m\<lparr>updateFrame := updateFrame m + 1\<rparr>)"
proof -
  define f where "f = updateFrame m + 1"
  let ?m = "m\<lparr>updateFrame := f\<rparr>"
  have at: "quad_at ?m = quad_at m" by (rule ext) (simp add: quad_at_def split: quad_ptr.split)
  have al: "alloced ?m = alloced m" by (rule ext) (simp add: alloced_def split: quad_ptr.split)
  have "complete ?m k q 0 0 0 = complete m k q 0 0 0" for q
    using complete_cong[of m k q 0 0 0 ?m] complete_cong[of ?m k q 0 0 0 m] by (auto simp: at al)
  then have "lod_struct k ?m = lod_struct k m" by (simp add: lod_struct_def full_pools_def at al)
  moreover have "n \<le> f" if "n \<le> updateFrame m" for n using that f_def by simp
  then have "stamps_ok m \<Longrightarrow> stamps_ok ?m" by (simp add: stamps_ok_def at al)
  ultimately show ?thesis using assms(1) unfolding f_def [symmetric] lod_inv_def by simp
qed

definition only_uploads :: "('v, 'f) mesh \<Rightarrow> ('v, 'f) mesh \<Rightarrow> bool" where
  "only_uploads m m' \<longleftrightarrow> (\<exists>av vb s ib. m' = m\<lparr>activeVertices := av, vertexBuffer := vb, mesh_size := s, indexBuffer := ib\<rparr>)"

lemma upload_lod_only: "only_uploads m (upload_lod (m\<lparr>activeVertices := av\<rparr>))"
proof -
  have "\<exists>vb s ib. upload_lod (m\<lparr>activeVertices := av\<rparr>) = m\<lparr>activeVertices := av, vertexBuffer := vb, mesh_size := s, indexBuffer := ib\<rparr>"
    by (intro exI[of _ "vertexBuffer (upload_lod (m\<lparr>activeVertices := av\<rparr>))"] exI[of _ "mesh_size (upload_lod (m\<lparr>activeVertices := av\<rparr>))"]
        exI[of _ "indexBuffer (upload_lod (m\<lparr>activeVertices := av\<rparr>))"]) (simp add: upload_lod_def Let_def)
  then show ?thesis unfolding only_uploads_def by blast
qed

lemma only_uploadsD:
  assumes "only_uploads m m'"
  shows "lod_inv k m' = lod_inv k m" "updateFrame m' = updateFrame m" "lod m' = lod m" "rootQuadNode m' = rootQuadNode m"
    "lodIndices m' = lodIndices m" "vertNodePool m' = vertNodePool m" "quad_at m' = quad_at m" "rootVertNodes m' = rootVertNodes m"
proof -
  obtain av vb s ib where m': "m' = m\<lparr>activeVertices := av, vertexBuffer := vb, mesh_size := s, indexBuffer := ib\<rparr>"
    using assms unfolding only_uploads_def by blast
  show "lod_inv k m' = lod_inv k m" unfolding m' by (rule lod_inv_cong)
  show "quad_at m' = quad_at m" unfolding m' by (rule ext) (simp add: quad_at_def split: quad_ptr.split)
  show "updateFrame m' = updateFrame m" "lod m' = lod m" "rootQuadNode m' = rootQuadNode m"
    "lodIndices m' = lodIndices m" "vertNodePool m' = vertNodePool m" "rootVertNodes m' = rootVertNodes m"
    unfolding m' by simp_all
qed

lemma frontier_cong:
  assumes "quad_at m' = quad_at m" "updateFrame m' = updateFrame m"
  shows "frontier m' d q l x y = frontier m d q l x y"
  by (induction d arbitrary: q l x y) (simp_all add: stamped_quad_def assms)

text \<open>What is drawn: the contents of the two buffers and the number of vertices.\<close>

definition same_buffers :: "('v, 'f) mesh \<Rightarrow> ('v, 'f) mesh \<Rightarrow> bool" where
  "same_buffers m m' \<longleftrightarrow> vertexBuffer m' = vertexBuffer m \<and> indexBuffer m' = indexBuffer m \<and> mesh_size m' = mesh_size m"

lemma frame_run:
  assumes inv: "lod_inv k m" and "lod m" and f: "updateFrame m + 1 < 2 ^ 32"
  shows "\<exists>m1 q. update_mesh g m =
      ret (upload_lod (m1\<lparr>activeVertices := concat (map (\<lambda>p. quad_vertices m1 (fst p)) (frontier m1 k q 0 0 0))\<rparr>)) \<and>
    lod_inv k m1 \<and> updateFrame m1 = updateFrame m + 1 \<and> rootQuadNode m1 = Some q \<and> complete m1 k q 0 0 0 \<and>
    lod m1 \<and> lodIndices m1 = lodIndices m \<and> (updateFrame m + 1 < 2 ^ 24 \<longrightarrow> roots_stamped m1) \<and>
    same_buffers m m1"
proof -
  define f where "f = updateFrame m + 1"
  let ?m = "m\<lparr>updateFrame := f\<rparr>"
  have i1: "lod_struct k ?m" "stamps_ok ?m" using next_frame[OF inv f] by (simp_all add: lod_inv_def f_def)
  have roots: "length (rootVertNodes ?m) = 4" "\<forall>v\<in>set (rootVertNodes ?m). v < length (vertNodePool ?m)"
    using i1(1) unfolding lod_struct_def by blast+
  obtain m1 where m1: "ofold (visit_root g) (rootVertNodes ?m) ?m = Some m1" "marks ?m m1"
    "updateFrame ?m < 2 ^ 24 \<longrightarrow> (\<forall>v\<in>set (rootVertNodes ?m). stamped_vert m1 v)"
    using visit_roots[OF i1 roots(2)] by blast
  note d = restampD[OF marksD(1)[OF m1(2)]]
  have i2: "lod_struct k m1" "stamps_ok m1" using marksD(2,3)[OF m1(2)] i1(1) by blast+
  obtain q where q: "rootQuadNode m1 = Some q" "complete m1 k q 0 0 0" using i2(1) unfolding lod_struct_def by blast
  have "recursiveSetActiveMesh (Some q) (m1\<lparr>activeVertices := []\<rparr>) =
      ret (m1\<lparr>activeVertices := concat (map (\<lambda>p. quad_vertices m1 (fst p)) (frontier m1 k q 0 0 0))\<rparr>)"
    using set_active_draws[OF i2 _ q(2), of "[]"] by (simp add: d(4) f_def)
  then have "update_mesh g m =
      ret (upload_lod (m1\<lparr>activeVertices := concat (map (\<lambda>p. quad_vertices m1 (fst p)) (frontier m1 k q 0 0 0))\<rparr>))"
    using m1(1) assms(2,3) roots(1) q(1) by (simp add: update_mesh_def Let_def f_def)
  moreover have "f < 2 ^ 24 \<longrightarrow> roots_stamped m1" using m1(3) by (simp add: roots_stamped_def d(7))
  moreover have "same_buffers m m1" using d(14-16) by (simp add: same_buffers_def)
  ultimately show ?thesis using i2 q d(4,10,11) assms(2) by (intro exI[of _ m1] exI[of _ q]) (simp add: lod_inv_def f_def)
qed

lemma quad_vertices_six:
  assumes "lod_inv k m" "roots_stamped m" "cornerVertNodes (quad_at m q) = corners_at l x y" "x < 2 ^ l" "y < 2 ^ l" "l \<le> k"
  shows "length (quad_vertices m q) = 6"
proof -
  have s: "lod_struct k m" using assms(1) unfolding lod_inv_def by blast
  then have len: "length (vertNodePool m) = voff (Suc k)" unfolding lod_struct_def by blast
  have "length (drawn_at m v) = 1" if v: "v < length (vertNodePool m)" for v
  proof -
    obtain a where "active_ancestor m (Some v) = Some (Some a)"
      using active_ancestor_ends[OF s v] active_ancestor_draw[OF s v] assms(2) by (metis not_None_eq)
    then show ?thesis by (simp add: drawn_at_def)
  qed
  moreover have "v < length (vertNodePool m)" if "v \<in> set (triangle_corners (quad_at m q))" for v
  proof -
    have "v \<in> set (corners_at l x y)" using that assms(3) by (auto simp: triangle_corners_def corners_at_def split: if_splits)
    then show ?thesis using corners_inside[OF assms(4-6)] len by simp
  qed
  moreover have "length (triangle_corners (quad_at m q)) = 6" by (simp add: triangle_corners_def)
  moreover have "length (concat (map f xs)) = length xs" if "\<And>x. x \<in> set xs \<Longrightarrow> length (f x) = 1" for f :: "nat \<Rightarrow> 'a vertex list" and xs
    using that by (induction xs) auto
  ultimately show ?thesis unfolding quad_vertices_def by simp
qed

lemma frontier_positions:
  assumes "complete m d q l x y" "x < 2 ^ l" "y < 2 ^ l" "l + d = k" "(r, i, a, b) \<in> set (frontier m d q l x y)"
  shows "cornerVertNodes (quad_at m r) = corners_at i a b \<and> a < 2 ^ i \<and> b < 2 ^ i \<and> i \<le> k"
  using assms
proof (induction d arbitrary: q l x y)
  case (Suc d)
  obtain q0 q1 q2 q3 where q: "cornerVertNodes (quad_at m q) = corners_at l x y" "children (quad_at m q) = [q0, q1, q2, q3]"
    "complete m d q0 (l + 1) (2 * x) (2 * y)" "complete m d q1 (l + 1) (2 * x + 1) (2 * y)"
    "complete m d q2 (l + 1) (2 * x + 1) (2 * y + 1)" "complete m d q3 (l + 1) (2 * x) (2 * y + 1)"
    using Suc.prems(1) by auto
  have b: "2 * x < 2 ^ (l + 1)" "2 * x + 1 < 2 ^ (l + 1)" "2 * y < 2 ^ (l + 1)" "2 * y + 1 < 2 ^ (l + 1)" "l + 1 + d = k"
    using Suc.prems by simp_all
  show ?case
    using Suc.prems q Suc.IH[OF q(3) b(1,3,5)] Suc.IH[OF q(4) b(2,3,5)] Suc.IH[OF q(5) b(2,4,5)] Suc.IH[OF q(6) b(1,4,5)]
    by (auto split: if_splits)
qed auto

lemma quad_vertices_blank:
  assumes "lod_inv k m" "2 ^ 24 \<le> updateFrame m" "\<forall>v\<in>set (triangle_corners (quad_at m q)). v < length (vertNodePool m)"
  shows "quad_vertices m q = []"
proof -
  have s: "lod_struct k m" "stamps_ok m" using assms(1) unfolding lod_inv_def by blast+
  have un: "\<not> stamped_vert m v" if "v < length (vertNodePool m)" for v
    using s(2) that assms(2) unfolding stamps_ok_def stamped_vert_def by fastforce
  have "drawn_at m v = []" if v: "v < length (vertNodePool m)" for v
  proof -
    have "active_ancestor m (Some v) = Some None"
      using active_ancestor_ends[OF s(1) v] active_ancestor_draw[OF s(1) v] un by metis
    then show ?thesis by (simp add: drawn_at_def)
  qed
  then show ?thesis using assms(3) unfolding quad_vertices_def by simp
qed

lemma length_concat_six: "(\<And>x. x \<in> set xs \<Longrightarrow> length (f x) = 6) \<Longrightarrow> length (concat (map f xs)) = 6 * length xs"
  by (induction xs) auto

lemma upload_lod_fields:
  "activeVertices (upload_lod m) = activeVertices m" "activeVertices m \<noteq> [] \<Longrightarrow> mesh_size (upload_lod m) = length (activeVertices m)"
  by (simp_all add: upload_lod_def Let_def)

lemma root_covers: "a < 2 ^ k \<Longrightarrow> b < 2 ^ k \<Longrightarrow> covers k (a, b) (q, 0, 0, 0)"
  by (simp add: covers_def)

lemma frontier_not_empty: "frontier m k q 0 0 0 \<noteq> []"
  using frontier_tiles[of 0 k k 0 0 m q 0 0] root_covers[of 0 k 0 q] by auto

text \<open>What one frame does to a mesh that \<^verbatim>\<open>build\<close> made.\<close>

lemma frame_ok:
  assumes inv: "lod_inv k m" and "lod m" and f: "updateFrame m + 1 < 2 ^ 32"
  shows "\<exists>m' q. update_mesh g m = ret m' \<and> lod_inv k m' \<and> updateFrame m' = updateFrame m + 1 \<and> lod m' \<and>
    lodIndices m' = lodIndices m \<and> rootQuadNode m' = Some q \<and>
    (updateFrame m' < 2 ^ 24 \<longrightarrow> length (activeVertices m') = 6 * length (frontier m' k q 0 0 0) \<and>
       mesh_size m' = length (activeVertices m')) \<and>
    (2 ^ 24 \<le> updateFrame m' \<longrightarrow> activeVertices m' = []) \<and>
    (\<forall>(r, i, x, y)\<in>set (frontier m' k q 0 0 0). cornerVertNodes (quad_at m' r) = corners_at i x y)"
proof -
  obtain m1 q where m1: "update_mesh g m =
      ret (upload_lod (m1\<lparr>activeVertices := concat (map (\<lambda>p. quad_vertices m1 (fst p)) (frontier m1 k q 0 0 0))\<rparr>))"
    "lod_inv k m1" "updateFrame m1 = updateFrame m + 1" "rootQuadNode m1 = Some q" "complete m1 k q 0 0 0"
    "lod m1" "lodIndices m1 = lodIndices m" "updateFrame m + 1 < 2 ^ 24 \<longrightarrow> roots_stamped m1"
    using frame_run[OF assms, of g] by blast
  define av where "av = concat (map (\<lambda>p. quad_vertices m1 (fst p)) (frontier m1 k q 0 0 0))"
  define m' where "m' = upload_lod (m1\<lparr>activeVertices := av\<rparr>)"
  have o: "only_uploads m1 m'" unfolding m'_def by (rule upload_lod_only)
  note d = only_uploadsD[OF o]
  have fr: "frontier m' k q 0 0 0 = frontier m1 k q 0 0 0" by (rule frontier_cong[OF d(7,2)])
  have pos: "cornerVertNodes (quad_at m1 r) = corners_at i x y \<and> x < 2 ^ i \<and> y < 2 ^ i \<and> i \<le> k"
    if "(r, i, x, y) \<in> set (frontier m1 k q 0 0 0)" for r i x y
    using frontier_positions[OF m1(5) _ _ _ that, of k] by simp
  have av': "activeVertices m' = av" by (simp add: m'_def upload_lod_fields)
  have six: "length av = 6 * length (frontier m1 k q 0 0 0)" if "updateFrame m' < 2 ^ 24"
    unfolding av_def
  proof (rule length_concat_six)
    fix p assume p: "p \<in> set (frontier m1 k q 0 0 0)"
    obtain r i x y where "p = (r, i, x, y)" by (cases p)
    then show "length (quad_vertices m1 (fst p)) = 6"
      using quad_vertices_six[OF m1(2)] pos p m1(8) that d(2) m1(3) by fastforce
  qed
  have blank: "av = []" if "2 ^ 24 \<le> updateFrame m'"
  proof -
    have b: "2 ^ 24 \<le> updateFrame m1" using that d(2) by simp
    have len: "length (vertNodePool m1) = voff (Suc k)" using m1(2) unfolding lod_inv_def lod_struct_def by blast
    have "quad_vertices m1 (fst p) = []" if p: "p \<in> set (frontier m1 k q 0 0 0)" for p
    proof -
      obtain r i x y where rp: "p = (r, i, x, y)" by (cases p)
      have c: "cornerVertNodes (quad_at m1 r) = corners_at i x y" "x < 2 ^ i" "y < 2 ^ i" "i \<le> k" using pos p rp by blast+
      have "set (triangle_corners (quad_at m1 r)) \<subseteq> set (corners_at i x y)"
        using c(1) by (auto simp: triangle_corners_def corners_at_def)
      then show ?thesis using quad_vertices_blank[OF m1(2) b] corners_inside[OF c(2-4)] len rp by auto
    qed
    then show ?thesis by (simp add: av_def)
  qed
  have ne: "av \<noteq> []" if "updateFrame m' < 2 ^ 24" using six[OF that] frontier_not_empty[of m1 k q] by auto
  have up: "update_mesh g m = ret m'" unfolding m'_def av_def by (rule m1(1))
  show ?thesis
  proof (intro exI[of _ m'] exI[of _ q] conjI)
    show "update_mesh g m = ret m'" by (rule up)
    show "updateFrame m' < 2 ^ 24 \<longrightarrow> length (activeVertices m') = 6 * length (frontier m' k q 0 0 0) \<and>
       mesh_size m' = length (activeVertices m')"
      using six ne av' fr upload_lod_fields(2)[of "m1\<lparr>activeVertices := av\<rparr>"] by (simp add: m'_def)
    show "2 ^ 24 \<le> updateFrame m' \<longrightarrow> activeVertices m' = []" using blank av' by simp
    show "\<forall>(r, i, x, y)\<in>set (frontier m' k q 0 0 0). cornerVertNodes (quad_at m' r) = corners_at i x y"
      using pos unfolding fr d(7) by blast
  qed (use d m1 in simp_all)
qed

fun frames :: "('v, 'f) glm \<Rightarrow> nat \<Rightarrow> ('v, 'f) mesh \<Rightarrow> ('v, 'f) mesh run" where
  "frames g 0 m = ret m"
| "frames g (Suc n) m = rbind (update_mesh g m) (frames g n)"

lemma frames_ok:
  assumes "lod_inv k m" "lod m" "updateFrame m + n < 2 ^ 32"
  shows "\<exists>m'. frames g n m = ret m' \<and> lod_inv k m' \<and> updateFrame m' = updateFrame m + n \<and> lod m' \<and> lodIndices m' = lodIndices m"
  using assms
proof (induction n arbitrary: m)
  case (Suc n)
  have "updateFrame m + 1 < 2 ^ 32" using Suc.prems(3) by simp
  from frame_ok[OF Suc.prems(1,2) this, of g] obtain m1 where m1: "update_mesh g m = ret m1" "lod_inv k m1"
    "updateFrame m1 = updateFrame m + 1" "lod m1" "lodIndices m1 = lodIndices m" by blast
  then show ?case using Suc.IH[of m1] Suc.prems(3) by auto
qed simp

lemma lod_run:
  assumes "k < MAX_QUAD_LEVEL_COUNT" "length vs = (2 ^ k + 1) * (2 ^ k + 1)" "n < 2 ^ 32"
  shows "\<exists>m0 m. build g vs (2 ^ k + 1) (2 ^ k + 1) (QuadCollapseMesh g) = ret (True, m0) \<and>
    frames g n (setLod True m0) = ret m \<and> lod_inv k m \<and> updateFrame m = n \<and> lod m \<and> lodIndices m = [0..<length vs]"
proof -
  obtain m0 where m0: "build g vs (2 ^ k + 1) (2 ^ k + 1) (QuadCollapseMesh g) = ret (True, m0)" "terrain k m0"
    "updateFrame m0 = 0" "lodIndices m0 = [0..<length vs]"
    using build_run[OF assms(1,2), of g] by blast
  have "lod_inv k m0" using terrain_lod[OF m0(2)] by (simp add: lod_inv_def)
  moreover have "lod_inv k (setLod True m0) = lod_inv k m0" by (rule lod_inv_same) (simp_all add: setLod_def)
  ultimately show ?thesis using frames_ok[of k "setLod True m0" n g] m0 assms(3) by (auto simp: setLod_def)
qed

section \<open>What a frame draws\<close>

text \<open>
  A quad is subdivided when this frame stamped it active. The quads reached from the root
  through subdivided quads, with their positions: the quad at \<open>(x, y)\<close> of level \<open>l\<close> is the
  \<open>x\<close>-th from the left and the \<open>y\<close>-th from the top among the \<open>2 ^ l\<close> by \<open>2 ^ l\<close> quads of its level.
\<close>

definition subdivided :: "('v, 'f) mesh \<Rightarrow> quad_ptr \<Rightarrow> bool" where
  "subdivided m q \<longleftrightarrow> q_activeFrame (quad_at m q) = updateFrame m \<and> q_state (quad_at m q) = NS_ACTIVE"

inductive reached :: "('v, 'f) mesh \<Rightarrow> quad_ptr \<Rightarrow> nat \<Rightarrow> nat \<Rightarrow> nat \<Rightarrow> bool" for m where
  root: "rootQuadNode m = Some q \<Longrightarrow> reached m q 0 0 0"
| child: "reached m q l x y \<Longrightarrow> subdivided m q \<Longrightarrow> children (quad_at m q) = [c0, c1, c2, c3] \<Longrightarrow>
    (c, dx, dy) \<in> {(c0, 0, 0), (c1, 1, 0), (c2, 1, 1), (c3, 0, 1)} \<Longrightarrow>
    reached m c (l + 1) (2 * x + dx) (2 * y + dy)"

text \<open>The vertex drawn for a corner: the corner or its nearest ancestor visited in this frame.\<close>

inductive nearest :: "('v, 'f) mesh \<Rightarrow> nat \<Rightarrow> nat \<Rightarrow> bool" for m where
  visited: "v_activeFrame (vertNodePool m ! v) = updateFrame m \<Longrightarrow> nearest m v v"
| upward: "v_activeFrame (vertNodePool m ! v) \<noteq> updateFrame m \<Longrightarrow>
    v_parent (vertNodePool m ! v) = Some p \<Longrightarrow> nearest m p a \<Longrightarrow> nearest m v a"

text \<open>The corners of the two triangles of a quad at a position, cut along one diagonal or the other.\<close>

definition two_triangles :: "triangulation_mode \<Rightarrow> nat \<Rightarrow> nat \<Rightarrow> nat \<Rightarrow> nat list" where
  "two_triangles t l x y =
     (let a = vid l x y; b = vid l (x + 1) y; c = vid l (x + 1) (y + 1); d = vid l x (y + 1)
      in if t = TM_SW_NE then [a, b, c, a, c, d] else [a, b, d, b, c, d])"

lemma triangle_corners_two:
  "cornerVertNodes (quad_at m r) = corners_at l x y \<Longrightarrow>
    triangle_corners (quad_at m r) = two_triangles (triangulationMode (quad_at m r)) l x y"
  by (simp add: triangle_corners_def two_triangles_def corners_at_def Let_def)

lemma nearest_ancestor:
  assumes "lod_struct k m" "v < length (vertNodePool m)" "active_ancestor m (Some v) = Some (Some a)"
  shows "nearest m v a"
  using assms(2,3)
proof (induction "v_level (vertNodePool m ! v)" arbitrary: v rule: less_induct)
  case less
  show ?case
  proof (cases "stamped_vert m v")
    case True
    then have "a = v" using less.prems(2) by (subst (asm) active_ancestor.simps) simp
    then show ?thesis using True by (auto simp: stamped_vert_def intro: nearest.visited)
  next
    case False
    then have up: "active_ancestor m (v_parent (vertNodePool m ! v)) = Some (Some a)"
      using less.prems(2) by (subst (asm) active_ancestor.simps) simp
    then obtain p where p: "v_parent (vertNodePool m ! v) = Some p"
      by (cases "v_parent (vertNodePool m ! v)") (simp_all add: active_ancestor.simps)
    note lp = lod_parent[OF assms(1) less.prems(1) p]
    have "nearest m p a" using less.hyps[of p] lp up p by simp
    then show ?thesis using False p by (auto simp: stamped_vert_def intro: nearest.upward)
  qed
qed

lemma drawn_at_nearest:
  assumes "lod_struct k m" "roots_stamped m" "v < length (vertNodePool m)"
  shows "\<exists>a. drawn_at m v = [interpolatedVertex (vertNodePool m ! a)] \<and> nearest m v a"
proof -
  obtain a where "active_ancestor m (Some v) = Some (Some a)"
    using active_ancestor_ends[OF assms(1,3)] active_ancestor_draw[OF assms(1,3)] assms(2)
    by (metis not_None_eq)
  then show ?thesis using nearest_ancestor[OF assms(1,3)] by (auto simp: drawn_at_def)
qed

definition drawn_as :: "('v, 'f) mesh \<Rightarrow> nat \<Rightarrow> 'v vertex \<Rightarrow> bool" where
  "drawn_as m c z \<longleftrightarrow> (\<exists>a. nearest m c a \<and> z = interpolatedVertex (vertNodePool m ! a))"

lemma drawn_corners:
  assumes "lod_struct k m" "roots_stamped m" "\<forall>v\<in>set vs. v < length (vertNodePool m)"
  shows "list_all2 (drawn_as m) vs (concat (map (drawn_at m) vs))"
  using assms(3)
proof (induction vs)
  case (Cons v vs)
  obtain a where "drawn_at m v = [interpolatedVertex (vertNodePool m ! a)]" "nearest m v a"
    using drawn_at_nearest[OF assms(1,2), of v] Cons.prems by auto
  then show ?case using Cons by (auto simp: drawn_as_def)
qed simp

lemma drawn_quads:
  assumes "lod_struct k m" "roots_stamped m"
    and "\<And>r i x y. (r, i, x, y) \<in> set ts \<Longrightarrow>
      cornerVertNodes (quad_at m r) = corners_at i x y \<and> x < 2 ^ i \<and> y < 2 ^ i \<and> i \<le> k"
  shows "list_all2 (drawn_as m)
    (concat (map (\<lambda>(r, i, x, y). two_triangles (triangulationMode (quad_at m r)) i x y) ts))
    (concat (map (\<lambda>p. quad_vertices m (fst p)) ts))"
  using assms(3)
proof (induction ts)
  case (Cons t ts)
  obtain r i x y where t: "t = (r, i, x, y)" by (cases t)
  have c: "cornerVertNodes (quad_at m r) = corners_at i x y" "x < 2 ^ i" "y < 2 ^ i" "i \<le> k"
    using Cons.prems[of r i x y] t by auto
  have len: "length (vertNodePool m) = voff (Suc k)" using assms(1) by (simp add: lod_struct_def)
  have "set (triangle_corners (quad_at m r)) \<subseteq> set (corners_at i x y)"
    using c(1) by (auto simp: triangle_corners_def corners_at_def)
  then have "\<forall>v\<in>set (triangle_corners (quad_at m r)). v < length (vertNodePool m)"
    using corners_inside[OF c(2-4)] len by auto
  from drawn_corners[OF assms(1,2) this]
  have "list_all2 (drawn_as m) (two_triangles (triangulationMode (quad_at m r)) i x y) (quad_vertices m r)"
    by (simp add: quad_vertices_def triangle_corners_two[OF c(1)])
  moreover have "list_all2 (drawn_as m)
    (concat (map (\<lambda>(r, i, x, y). two_triangles (triangulationMode (quad_at m r)) i x y) ts))
    (concat (map (\<lambda>p. quad_vertices m (fst p)) ts))"
    by (rule Cons.IH) (rule Cons.prems, simp)
  ultimately show ?case using t by (simp add: list_all2_appendI)
qed simp

lemma frontier_reached:
  assumes "complete m d q l x y" "reached m q l x y" "l + d = k" "(r, i, a, b) \<in> set (frontier m d q l x y)"
  shows "reached m r i a b \<and> (i < k \<longrightarrow> \<not> subdivided m r)"
  using assms
proof (induction d arbitrary: q l x y)
  case (Suc d)
  obtain q0 q1 q2 q3 where q: "children (quad_at m q) = [q0, q1, q2, q3]"
    "complete m d q0 (l + 1) (2 * x) (2 * y)" "complete m d q1 (l + 1) (2 * x + 1) (2 * y)"
    "complete m d q2 (l + 1) (2 * x + 1) (2 * y + 1)" "complete m d q3 (l + 1) (2 * x) (2 * y + 1)"
    using Suc.prems(1) by auto
  show ?case
  proof (cases "subdivided m q")
    case True
    note ch = reached.child[OF Suc.prems(2) True q(1)]
    have k: "l + 1 + d = k" using Suc.prems(3) by simp
    have re: "reached m q0 (l + 1) (2 * x) (2 * y)" "reached m q1 (l + 1) (2 * x + 1) (2 * y)"
      "reached m q2 (l + 1) (2 * x + 1) (2 * y + 1)" "reached m q3 (l + 1) (2 * x) (2 * y + 1)"
      using ch[of q0 0 0] ch[of q1 1 0] ch[of q2 1 1] ch[of q3 0 1] by simp_all
    show ?thesis
      using Suc.prems(4) True q(1) Suc.IH[OF q(2) re(1) k] Suc.IH[OF q(3) re(2) k] Suc.IH[OF q(4) re(3) k]
        Suc.IH[OF q(5) re(4) k] by (auto simp: subdivided_def stamped_quad_def)
  next
    case False
    then show ?thesis using Suc.prems(2,4) by (auto simp: subdivided_def stamped_quad_def split: if_splits)
  qed
qed auto

lemma reached_cong:
  assumes "rootQuadNode m' = rootQuadNode m" "quad_at m' = quad_at m" "updateFrame m' = updateFrame m"
    and "reached m q l x y"
  shows "reached m' q l x y"
  using assms(4)
proof induction
  case (child q l x y c0 c1 c2 c3 c dx dy)
  show ?case
    by (rule reached.child[OF child.IH, of c0 c1 c2 c3]) (use child.hyps assms(2,3) in \<open>simp_all add: subdivided_def\<close>)
qed (simp add: reached.root assms(1))

lemma nearest_cong:
  assumes "vertNodePool m' = vertNodePool m" "updateFrame m' = updateFrame m" and "nearest m v a"
  shows "nearest m' v a"
  using assms(3)
proof induction
  case (upward v p a)
  show ?case by (rule nearest.upward[OF _ _ upward.IH]) (use upward.hyps assms(1,2) in simp_all)
qed (simp add: nearest.visited assms(1,2))

lemma upload_lod_data:
  assumes "av \<noteq> []"
  shows "buf_data (vertexBuffer (upload_lod (m\<lparr>activeVertices := av\<rparr>))) = av"
    and "mesh_size (upload_lod (m\<lparr>activeVertices := av\<rparr>)) = length av"
  using assms by (simp_all add: upload_lod_def Let_def setData_def)

definition tile_corners :: "('v, 'f) mesh \<Rightarrow> quad_ptr \<times> nat \<times> nat \<times> nat \<Rightarrow> nat list" where
  "tile_corners m t = (case t of (r, i, x, y) \<Rightarrow> two_triangles (triangulationMode (quad_at m r)) i x y)"

lemma tile_corners_six: "length (concat (map (tile_corners m) ts)) = 6 * length ts"
  by (rule length_concat_six) (auto simp: tile_corners_def two_triangles_def Let_def)

lemma frame_drawn:
  assumes inv: "lod_inv k m" and "lod m" and f: "updateFrame m + 1 < 2 ^ 24"
  shows "\<exists>m' ts. update_mesh g m = ret m' \<and>
    (\<forall>(r, i, x, y)\<in>set ts. reached m' r i x y \<and> i \<le> k \<and> (i < k \<longrightarrow> \<not> subdivided m' r) \<and>
       cornerVertNodes (quad_at m' r) = corners_at i x y) \<and>
    (\<forall>a<2 ^ k. \<forall>b<2 ^ k. length (filter (covers k (a, b)) ts) = 1) \<and>
    list_all2 (drawn_as m') (concat (map (tile_corners m') ts)) (activeVertices m') \<and>
    buf_data (vertexBuffer m') = activeVertices m' \<and> mesh_size m' = length (activeVertices m') \<and>
    lodIndices m' = lodIndices m"
proof -
  have "updateFrame m + 1 < 2 ^ 32" using f by simp
  from frame_run[OF inv assms(2) this, of g] f obtain m1 q where m1: "update_mesh g m =
      ret (upload_lod (m1\<lparr>activeVertices := concat (map (\<lambda>p. quad_vertices m1 (fst p)) (frontier m1 k q 0 0 0))\<rparr>))"
    "lod_inv k m1" "rootQuadNode m1 = Some q" "complete m1 k q 0 0 0" "lodIndices m1 = lodIndices m" "roots_stamped m1"
    by blast
  define ts where "ts = frontier m1 k q 0 0 0"
  define av where "av = concat (map (\<lambda>p. quad_vertices m1 (fst p)) ts)"
  define m' where "m' = upload_lod (m1\<lparr>activeVertices := av\<rparr>)"
  have o: "only_uploads m1 m'" unfolding m'_def by (rule upload_lod_only)
  note d = only_uploadsD[OF o]
  have pos: "cornerVertNodes (quad_at m1 r) = corners_at i x y \<and> x < 2 ^ i \<and> y < 2 ^ i \<and> i \<le> k"
    if "(r, i, x, y) \<in> set ts" for r i x y
    using frontier_positions[OF m1(4) _ _ _ that[unfolded ts_def], of k] by simp
  have re: "reached m' r i x y \<and> (i < k \<longrightarrow> \<not> subdivided m' r)" if t: "(r, i, x, y) \<in> set ts" for r i x y
  proof -
    have "reached m1 r i x y \<and> (i < k \<longrightarrow> \<not> subdivided m1 r)"
      using frontier_reached[OF m1(4) reached.root[OF m1(3)] _ t[unfolded ts_def]] by simp
    then show ?thesis using reached_cong[OF d(4,7,2)] by (simp add: subdivided_def d)
  qed
  have s1: "lod_struct k m1" using m1(2) unfolding lod_inv_def by blast
  have tc: "tile_corners m' = tile_corners m1" by (rule ext) (simp add: tile_corners_def d(7))
  have "list_all2 (drawn_as m1) (concat (map (tile_corners m1) ts)) av"
    using drawn_quads[OF s1 m1(6) pos] unfolding av_def tile_corners_def by (simp add: split_def)
  moreover have "drawn_as m' c z" if "drawn_as m1 c z" for c z
    using that nearest_cong[OF d(6,2)] d(6) unfolding drawn_as_def by metis
  ultimately have all: "list_all2 (drawn_as m') (concat (map (tile_corners m') ts)) av"
    unfolding tc by (rule list_all2_mono)
  have "length av = 6 * length ts" using list_all2_lengthD[OF all] tile_corners_six[of m' ts] by simp
  then have ne: "av \<noteq> []" using frontier_not_empty[of m1 k q] unfolding ts_def by auto
  have av': "activeVertices m' = av" by (simp add: m'_def upload_lod_fields)
  have til: "length (filter (covers k (a, b)) ts) = 1" if "a < 2 ^ k" "b < 2 ^ k" for a b
    using frontier_tiles[of 0 k k a b m1 q 0 0] root_covers[OF that] unfolding ts_def by simp
  show ?thesis
    using m1(1,5) re pos til all av' upload_lod_data[OF ne, of m1] d(5,7)
    by (intro exI[of _ m'] exI[of _ ts] conjI) (auto simp: m'_def av_def ts_def)
qed

lemma frames_add: "frames g (a + b) m = rbind (frames g a m) (frames g b)"
proof (induction a arbitrary: m)
  case (Suc a)
  show ?case by (cases "update_mesh g m" rule: run_cases) (simp_all add: Suc.IH)
qed simp

lemma upload_lod_empty: "m\<lparr>activeVertices := []\<rparr> = m' \<Longrightarrow> upload_lod m' = m'"
  by (auto simp: upload_lod_def)

lemma frame_frozen:
  assumes inv: "lod_inv k m" and "lod m" and f: "2 ^ 24 \<le> updateFrame m + 1" "updateFrame m + 1 < 2 ^ 32"
  shows "\<exists>m'. update_mesh g m = ret m' \<and> activeVertices m' = [] \<and> same_buffers m m' \<and> lod_inv k m' \<and>
    lod m' \<and> updateFrame m' = updateFrame m + 1"
proof -
  from frame_run[OF inv assms(2) f(2), of g] obtain m1 q where m1: "update_mesh g m =
      ret (upload_lod (m1\<lparr>activeVertices := concat (map (\<lambda>p. quad_vertices m1 (fst p)) (frontier m1 k q 0 0 0))\<rparr>))"
    "same_buffers m m1" by blast
  define av where "av = concat (map (\<lambda>p. quad_vertices m1 (fst p)) (frontier m1 k q 0 0 0))"
  from frame_ok[OF inv assms(2) f(2), of g] f(1) obtain m' where m': "update_mesh g m = ret m'" "activeVertices m' = []"
    "lod_inv k m'" "lod m'" "updateFrame m' = updateFrame m + 1" by metis
  have eq: "m' = upload_lod (m1\<lparr>activeVertices := av\<rparr>)" using m1(1) m'(1) by (simp add: av_def)
  then have "av = []" using m'(2) by (simp add: upload_lod_fields)
  then have "same_buffers m m'" using eq m1(2) by (simp add: upload_lod_def same_buffers_def)
  then show ?thesis using m' by blast
qed

lemma frames_frozen:
  assumes "lod_inv k m" "lod m" "2 ^ 24 \<le> updateFrame m + 1" "updateFrame m + n < 2 ^ 32"
  shows "\<exists>m'. frames g n m = ret m' \<and> same_buffers m m' \<and> (0 < n \<longrightarrow> activeVertices m' = [])"
  using assms
proof (induction n arbitrary: m)
  case 0
  then show ?case by (simp add: same_buffers_def)
next
  case (Suc n)
  have "updateFrame m + 1 < 2 ^ 32" using Suc.prems(4) by simp
  from frame_frozen[OF Suc.prems(1-3) this, of g] obtain m1 where m1: "update_mesh g m = ret m1"
    "activeVertices m1 = []" "same_buffers m m1" "lod_inv k m1" "lod m1" "updateFrame m1 = updateFrame m + 1" by blast
  have "\<exists>m'. frames g n m1 = ret m' \<and> same_buffers m1 m' \<and> (0 < n \<longrightarrow> activeVertices m' = [])"
    by (rule Suc.IH) (use m1 Suc.prems in simp_all)
  then show ?case using m1 by (cases n) (auto simp: same_buffers_def)
qed

text \<open>
  C15: With levels of detail, every frame of a built terrain up to number $2^{24} - 1$ returns. The quads
  it draws are reached from the root through subdivided quads and are not subdivided themselves
  (unless they are leaves), and together they cover every cell of the finest level exactly once.
  The vertices uploaded and drawn are, quad after quad, those of the two triangles over the quad's
  four corners, along the diagonal of its triangulation mode: for each corner the interpolated
  vertex stored in the corner's node or, when the frame did not visit that node, in its nearest
  visited ancestor. (How the stored vertex is blended is not part of the claim. The number of
  indices for them stays the number of vertices of the terrain.)
\<close>

theorem lod_frame_tiles:
  assumes "k < MAX_QUAD_LEVEL_COUNT" "length vs = (2 ^ k + 1) * (2 ^ k + 1)" "n + 1 < 2 ^ 24"
  shows "\<exists>m0 m m' ts. build g vs (2 ^ k + 1) (2 ^ k + 1) (QuadCollapseMesh g) = ret (True, m0) \<and>
    frames g n (setLod True m0) = ret m \<and> update_mesh g m = ret m' \<and>
    (\<forall>(r, i, x, y)\<in>set ts. reached m' r i x y \<and> i \<le> k \<and> (i < k \<longrightarrow> \<not> subdivided m' r) \<and>
       cornerVertNodes (quad_at m' r) = corners_at i x y) \<and>
    (\<forall>a<2 ^ k. \<forall>b<2 ^ k. length (filter (covers k (a, b)) ts) = 1) \<and>
    list_all2 (drawn_as m') (concat (map (tile_corners m') ts)) (activeVertices m') \<and>
    buf_data (vertexBuffer m') = activeVertices m' \<and> mesh_size m' = length (activeVertices m') \<and>
    lodIndices m' = [0..<length vs]"
proof -
  have "n < 2 ^ 32" using assms(3) by simp
  from lod_run[OF assms(1,2) this, of g] obtain m0 m where m:
    "build g vs (2 ^ k + 1) (2 ^ k + 1) (QuadCollapseMesh g) = ret (True, m0)" "frames g n (setLod True m0) = ret m"
    "lod_inv k m" "updateFrame m = n" "lod m" "lodIndices m = [0..<length vs]" by blast
  have "updateFrame m + 1 < 2 ^ 24" using m(4) assms(3) by simp
  from frame_drawn[OF m(3,5) this, of g, unfolded m(6)] show ?thesis
    using m(1,2) by (elim exE conjE, intro exI conjI) assumption+
qed

theorem lod_frame_tiles_witness:
  "\<exists>m0 m m' ts. build int_glm (flat 25) (2 ^ 2 + 1) (2 ^ 2 + 1) (QuadCollapseMesh int_glm) = ret (True, m0) \<and>
    frames int_glm 3 (setLod True m0) = ret m \<and> update_mesh int_glm m = ret m' \<and>
    (\<forall>(r, i, x, y)\<in>set ts. reached m' r i x y \<and> i \<le> 2 \<and> (i < 2 \<longrightarrow> \<not> subdivided m' r) \<and>
       cornerVertNodes (quad_at m' r) = corners_at i x y) \<and>
    (\<forall>a<2 ^ 2. \<forall>b<2 ^ 2. length (filter (covers 2 (a, b)) ts) = 1) \<and>
    list_all2 (drawn_as m') (concat (map (tile_corners m') ts)) (activeVertices m') \<and>
    buf_data (vertexBuffer m') = activeVertices m' \<and> mesh_size m' = length (activeVertices m') \<and>
    lodIndices m' = [0..<length (flat 25)]"
  by (rule lod_frame_tiles) (simp_all add: MAX_QUAD_LEVEL_COUNT_def)

text \<open>
  C16: The frame counter has 32 bits, the stamp of a vertex 24. In the frames from number $2^{24}$ up to
  the wrap of the counter no vertex counts as visited, no vertex is collected, and the upload is
  skipped: the vertex buffer, the index buffer and the size drawn stay what frame $2^{24} - 1$ left
  in them, wherever the camera goes.
\<close>

theorem lod_frozen_after_24_bits:
  assumes "k < MAX_QUAD_LEVEL_COUNT" "length vs = (2 ^ k + 1) * (2 ^ k + 1)" "2 ^ 24 \<le> n" "n < 2 ^ 32"
  shows "\<exists>m0 m m'. build g vs (2 ^ k + 1) (2 ^ k + 1) (QuadCollapseMesh g) = ret (True, m0) \<and>
    frames g (2 ^ 24 - 1) (setLod True m0) = ret m \<and> frames g n (setLod True m0) = ret m' \<and>
    activeVertices m' = [] \<and> vertexBuffer m' = vertexBuffer m \<and> indexBuffer m' = indexBuffer m \<and>
    mesh_size m' = mesh_size m"
proof -
  define p :: nat where "p = 2 ^ 24 - 1"
  have p: "p < 2 ^ 32" "2 ^ 24 \<le> p + 1" by (simp_all add: p_def)
  obtain j where j: "n = p + j" "0 < j" using assms(3) by (auto simp: p_def le_iff_add)
  from lod_run[OF assms(1,2) p(1), of g] obtain m0 m where m:
    "build g vs (2 ^ k + 1) (2 ^ k + 1) (QuadCollapseMesh g) = ret (True, m0)" "frames g p (setLod True m0) = ret m"
    "lod_inv k m" "updateFrame m = p" "lod m" by blast
  have "2 ^ 24 \<le> updateFrame m + 1" "updateFrame m + j < 2 ^ 32" using m(4) p(2) j(1) assms(4) by simp_all
  from frames_frozen[OF m(3,5) this, of g] j(2) obtain m' where m': "frames g j m = ret m'" "same_buffers m m'"
    "activeVertices m' = []" by blast
  have "frames g n (setLod True m0) = ret m'" unfolding j(1) frames_add by (simp add: m(2) m'(1))
  then show ?thesis using m(1) m(2)[unfolded p_def] m'(2,3) unfolding same_buffers_def by blast
qed

theorem lod_frozen_after_24_bits_witness:
  "\<exists>m0 m m'. build int_glm (flat 9) (2 ^ 1 + 1) (2 ^ 1 + 1) (QuadCollapseMesh int_glm) = ret (True, m0) \<and>
    frames int_glm (2 ^ 24 - 1) (setLod True m0) = ret m \<and> frames int_glm 16777216 (setLod True m0) = ret m' \<and>
    activeVertices m' = [] \<and> vertexBuffer m' = vertexBuffer m \<and> indexBuffer m' = indexBuffer m \<and>
    mesh_size m' = mesh_size m"
  by (rule lod_frozen_after_24_bits) (simp_all add: MAX_QUAD_LEVEL_COUNT_def)

end
