(* ===== verification/Terrain_Builder.thy ===== *)
theory Terrain_Builder
  imports Terrain_Build
begin

text \<open>
  What \<^verbatim>\<open>TerrainBuilder::build\<close> hands to the mesh: which pixel a vertex and a normal read, and which
  vertices the triangles of \<^verbatim>\<open>QuadCollapseMesh::build\<close> then join.
\<close>

lemma length_builder_vertices [simp]: "length (builder_vertices g hm) = hm_width hm * hm_height hm"
  by (simp add: builder_vertices_def)

text \<open>The vertices are stored column by column.\<close>

lemma builder_vertices_nth:
  assumes "x < hm_width hm" "y < hm_height hm"
  shows "builder_vertices g hm ! (x * hm_height hm + y) = (builder_vertex g hm (x, y))\<lparr>normal := builder_normal g hm (x, y)\<rparr>"
proof -
  have "x * hm_height hm + y < length (cells (hm_width hm) (hm_height hm))"
    using cell_less[OF assms] by simp
  then show ?thesis using cells_nth[OF assms] by (simp add: builder_vertices_def)
qed

text \<open>
  On a square height map the two triangles of a cell join the vertices of its four corners, and
  the indices stay within the vertices.
\<close>

theorem builder_triangles:
  assumes "hm_width hm = n" "hm_height hm = n" "n * n \<le> 2 ^ 32" "x + 1 < n" "y + 1 < n"
  shows "map (\<lambda>i. builder_vertices g hm ! i) (quad_indices n (x, y)) =
      map (\<lambda>xy. (builder_vertex g hm xy)\<lparr>normal := builder_normal g hm xy\<rparr>)
        [(x + 1, y + 1), (x + 1, y), (x, y), (x, y), (x, y + 1), (x + 1, y + 1)] \<and>
    list_all (\<lambda>i. i < length (builder_vertices g hm)) (quad_indices n (x, y))"
proof -
  have lt: "a * n + b < n * n" if "a < n" "b < n" for a b using cell_less[OF that] .
  have md: "(a * n + b) mod 2 ^ 32 = a * n + b" if "a < n" "b < n" for a b
    using lt[OF that] assms(3) by (intro mod_less) linarith
  have at: "builder_vertices g hm ! (a * n + b) = (builder_vertex g hm (a, b))\<lparr>normal := builder_normal g hm (a, b)\<rparr>"
    if "a < n" "b < n" for a b using builder_vertices_nth[of a hm b g] that assms(1,2) by simp
  have xy: "x < n" "y < n" using assms(4,5) by simp_all
  have q: "quad_indices n (x, y) =
      [(x + 1) * n + (y + 1), (x + 1) * n + y, x * n + y, x * n + y, x * n + (y + 1), (x + 1) * n + (y + 1)]"
    unfolding quad_indices_def Let_def prod.case
    by (simp only: md[OF xy] md[OF assms(4) xy(2)] md[OF assms(4,5)] md[OF xy(1) assms(5)])
  show ?thesis unfolding q length_builder_vertices assms(1,2)
    by (simp only: list.map list.pred_inject at[OF xy] at[OF assms(4) xy(2)] at[OF assms(4,5)] at[OF xy(1) assms(5)]
        lt[OF xy] lt[OF assms(4) xy(2)] lt[OF assms(4,5)] lt[OF xy(1) assms(5)] simp_thms)
qed

definition ramp :: "nat \<Rightarrow> nat \<Rightarrow> height_map" where
  "ramp w h = \<lparr>hm_width = w, hm_height = h, hm_pixels = map (\<lambda>i. (i, 0, 0, 255)) [0..<w * h]\<rparr>"

theorem builder_triangles_witness:
  "map (\<lambda>i. builder_vertices int_glm (ramp 3 3) ! i) (quad_indices 3 (1, 0)) =
      map (\<lambda>xy. (builder_vertex int_glm (ramp 3 3) xy)\<lparr>normal := builder_normal int_glm (ramp 3 3) xy\<rparr>)
        [(1 + 1, 0 + 1), (1 + 1, 0), (1, 0), (1, 0), (1, 0 + 1), (1 + 1, 0 + 1)] \<and>
    list_all (\<lambda>i. i < length (builder_vertices int_glm (ramp 3 3))) (quad_indices 3 (1, 0))"
  by (rule builder_triangles) (simp_all add: ramp_def)

text \<open>
  The heights from which a normal is made are those of the transposed map: the vertex of column
  \<open>x\<close> and row \<open>y\<close> has the height of the pixel in row \<open>y\<close>, and \<^verbatim>\<open>height(x, y)\<close> reads the pixel in
  row \<open>x\<close> and column \<open>y\<close>.
\<close>

theorem height_reads_transposed:
  assumes "hm_width hm = n" "hm_height hm = n" "x < n" "y < n"
  shows "pos (builder_vertex g hm (x, y)) =
      vec_of g [f_dec g (int x) 0, f_dec g (int y) 0, f_dec g (int (fst (hm_pixels hm ! (y * n + x)))) 0] \<and>
    height_at g hm (int x) (int y) = f_div g (f_dec g (int (fst (hm_pixels hm ! (x * n + y)))) 0) (f_dec g 255 0)"
proof
  show "pos (builder_vertex g hm (x, y)) =
      vec_of g [f_dec g (int x) 0, f_dec g (int y) 0, f_dec g (int (fst (hm_pixels hm ! (y * n + x)))) 0]"
    by (simp add: builder_vertex_def assms(1) split: prod.split)
  have "nat (int x + int y * int (hm_width hm)) = y * n + x"
    by (simp add: assms(1) nat_eq_iff)
  moreover have "vertex_cell hm (y * n + x) = (y, x)"
    using cells_nth[of y n x n] assms by (simp add: vertex_cell_def)
  ultimately show "height_at g hm (int x) (int y) = f_div g (f_dec g (int (fst (hm_pixels hm ! (x * n + y)))) 0) (f_dec g 255 0)"
    using assms by (simp add: height_at_def)
qed

theorem height_reads_transposed_witness:
  "pos (builder_vertex int_glm (ramp 3 3) (2, 0)) =
      vec_of int_glm [f_dec int_glm (int 2) 0, f_dec int_glm (int 0) 0, f_dec int_glm (int (fst (hm_pixels (ramp 3 3) ! (0 * 3 + 2)))) 0] \<and>
    height_at int_glm (ramp 3 3) (int 2) (int 0) =
      f_div int_glm (f_dec int_glm (int (fst (hm_pixels (ramp 3 3) ! (2 * 3 + 0)))) 0) (f_dec int_glm 255 0)"
  by (rule height_reads_transposed) (simp_all add: ramp_def)

text \<open>
  A row of vertices is as long as the map is high, but the indices step by its width: on a map
  that is wider than high they run past the vertices.
\<close>

theorem wide_map_indices_outside:
  assumes "3 \<le> hm_height hm" "hm_height hm < hm_width hm" "6 * ((hm_width hm - 1) * (hm_height hm - 1)) < 2 ^ 32"
    "hm_width hm * hm_width hm < 2 ^ 32"
  shows "\<exists>m. buildIndices (hm_width hm) (hm_height hm) (QuadCollapseMesh g) = ret m \<and>
    (\<exists>i\<in>set (indices m). length (builder_vertices g hm) \<le> i)"
proof -
  define w h where "w = hm_width hm" and "h = hm_height hm"
  have wh: "3 \<le> h" "h < w" "w * w < 2 ^ 32" using assms by (simp_all add: w_def h_def)
  have "1 * w \<le> w * w" using wh by (intro mult_le_mono) simp_all
  then have "w < 2 ^ 32" using wh(3) by linarith
  then have w32: "w < 2 ^ 32" "h < 2 ^ 32" "2 \<le> w" "2 \<le> h" using wh(1,2) by linarith+
  have "6 * ((w - 1) * (h - 1)) < 2 ^ 32" using assms(3) unfolding w_def h_def .
  from buildIndices_run[OF w32(3,4) this w32(1,2), of "QuadCollapseMesh g"] obtain m ys where m:
    "buildIndices w h (QuadCollapseMesh g) = ret m"
    "indices m = concat (map (quad_indices w) (butlast (cells (w - 1) (h - 1)))) @ ys" by simp
  let ?x = "w - 2" and ?y = "h - 3"
  have "?x < w - 1" "?y < h - 1" using wh by simp_all
  note nth = cells_nth[OF this] and less = cell_less[OF this]
  have "?x * (h - 1) + ?y < (w - 1) * (h - 1) - 1"
  proof -
    have "w - 1 = Suc ?x" using wh by simp
    then have "(w - 1) * (h - 1) = ?x * (h - 1) + (h - 1)" by simp
    then show ?thesis using wh by linarith
  qed
  then have "(?x, ?y) \<in> set (butlast (cells (w - 1) (h - 1)))"
    using nth by (metis length_butlast length_cells nth_butlast nth_mem)
  moreover have "(?x + 1) * w + (?y + 1) \<in> set (quad_indices w (?x, ?y))"
  proof -
    have "(?x + 1) * w + (?y + 1) < w * w" using cell_less[of "?x + 1" w "?y + 1" w] wh by simp
    then have "((?x + 1) * w + (?y + 1)) mod 2 ^ 32 = (?x + 1) * w + (?y + 1)" using wh(3) by (intro mod_less) linarith
    then show ?thesis unfolding quad_indices_def Let_def by simp
  qed
  moreover have "w * h \<le> (?x + 1) * w + (?y + 1)"
  proof -
    have "h * w \<le> (?x + 1) * w" using wh by (intro mult_le_mono) simp_all
    then show ?thesis by (simp add: mult.commute)
  qed
  ultimately have "\<exists>i\<in>set (indices m). w * h \<le> i" unfolding m(2) by fastforce
  then show ?thesis using m(1) by (auto simp: w_def h_def)
qed

theorem wide_map_indices_outside_witness:
  "\<exists>m. buildIndices (hm_width (ramp 4 3)) (hm_height (ramp 4 3)) (QuadCollapseMesh int_glm) = ret m \<and>
    (\<exists>i\<in>set (indices m). length (builder_vertices int_glm (ramp 4 3)) \<le> i)"
  by (rule wide_map_indices_outside) (simp_all add: ramp_def)

end
