(* ===== verification/Batch_2D.thy ===== *)
theory Batch_2D
  imports Maple_Prelude "HOL-Library.Multiset"
begin

text \<open>
  Batching of sprites and lines: \<^verbatim>\<open>Engine/Renderer/Renderer2D.cpp\<close> and
  \<^verbatim>\<open>Engine/Renderer/LineRenderer.cpp\<close>. A vertex buffer is the list of vertices written to its mapped
  memory and whether it is mapped; the pointer \<^verbatim>\<open>buffer\<close> is a buffer and a position in it. The
  recorded draw calls are a log of the vertices they cover. All of them bind one descriptor set,
  which is rewritten between them while the command buffer is still being recorded; what a draw
  samples is what the set holds when the command buffer is submitted, after the last of them. Matrices, colours and texture coordinates are parameters.
\<close>

section \<open>Sprites\<close>

record config2d =
  maxQuads :: nat
  bufferSize :: nat
  indiciesSize :: nat
  maxTextures :: nat
  maxBatchDrawCalls :: nat

definition sizeof_Vertex2D :: nat where
  "sizeof_Vertex2D = 40"

definition default_config2d :: config2d where
  "default_config2d = \<lparr>maxQuads = 10000, bufferSize = 10000 * sizeof_Vertex2D * 4, indiciesSize = 10000 * 6,
     maxTextures = 16, maxBatchDrawCalls = 10\<rparr>"

definition setMaxQuads :: "nat \<Rightarrow> config2d \<Rightarrow> config2d" where
  "setMaxQuads quads c = c\<lparr>maxQuads := quads, bufferSize := (quads * sizeof_Vertex2D * 4) mod 2 ^ 32,
     indiciesSize := (quads * 6) mod 2 ^ 32\<rparr>"

record ('f, 'u, 'c, 't) quad2d =
  offset :: "'f \<times> 'f"
  quad_w :: nat
  quad_h :: nat
  quad_color :: "'c"
  texCoords :: "'u list"
  quad_texture :: "'t option"

record ('p, 'u, 'c) vertex2d =
  v2_vertex :: "'p"
  v2_uv :: "'u \<times> int"
  v2_color :: "'c"

record ('f, 'u, 'c, 't, 'm) command2d =
  cmd_quad :: "('f, 'u, 'c, 't) quad2d"
  cmd_transform :: "'m"

text \<open>
  \<open>at_point m x y\<close> is \<^verbatim>\<open>transform * glm::vec4(x, y, 0, 1)\<close>, \<open>depth\<close> the entry \<^verbatim>\<open>transform[3][2]\<close>.
\<close>

record ('f, 'p, 'm, 'z) ops2d =
  at_point :: "'m \<Rightarrow> 'f \<Rightarrow> 'f \<Rightarrow> 'p"
  float_add :: "'f \<Rightarrow> 'f \<Rightarrow> 'f"
  float_of_u32 :: "nat \<Rightarrow> 'f"
  depth :: "'m \<Rightarrow> 'z"

record ('p, 'u, 'c) vbuf =
  vb_data :: "('p, 'u, 'c) vertex2d list"
  vb_mapped :: bool

record ('p, 'u, 'c) draw2d =
  drawn_vertices :: "('p, 'u, 'c) vertex2d list"

record ('f, 'p, 'u, 'c, 't, 'm) renderer2d =
  config :: config2d
  indexCount :: nat
  textureCount :: nat
  batchDrawCallIndex :: nat
  textures :: "'t option list"
  descriptorSet :: "'t option list"
  vertexBuffers :: "('p, 'u, 'c) vbuf list"
  index2d :: "nat list"
  buffer :: "nat \<times> nat"
  commands :: "('f, 'u, 'c, 't, 'm) command2d list"
  draws :: "('p, 'u, 'c) draw2d list"

text \<open>The constructor and the part of \<^verbatim>\<open>init\<close> that makes the buffers.\<close>

definition Renderer2D :: "config2d \<Rightarrow> ('f, 'p, 'u, 'c, 't, 'm) renderer2d" where
  "Renderer2D c = \<lparr>config = c, indexCount = 0, textureCount = 0, batchDrawCallIndex = 0, textures = replicate 16 None,
     descriptorSet = [], vertexBuffers = [], index2d = [], buffer = (0, 0), commands = [], draws = []\<rparr>"

definition batch_indices :: "nat \<Rightarrow> nat list" where
  "batch_indices n = concat (map (\<lambda>i. [4 * i, 4 * i + 1, 4 * i + 2, 4 * i + 2, 4 * i + 3, 4 * i]) [0..<n])"

definition init2d :: "('f, 'p, 'u, 'c, 't, 'm) renderer2d \<Rightarrow> ('f, 'p, 'u, 'c, 't, 'm) renderer2d run" where
  "init2d r =
     (if indiciesSize (config r) mod 6 = 0
      then ret (r\<lparr>vertexBuffers := replicate (maxBatchDrawCalls (config r)) \<lparr>vb_data = [], vb_mapped = False\<rparr>,
                  index2d := batch_indices (indiciesSize (config r) div 6)\<rparr>)
      else fail BadIndex)"

text \<open>Mapping and unmapping the buffer of the current batch; the subscript is not checked by the code.\<close>

definition set_mapped :: "bool \<Rightarrow> ('f, 'p, 'u, 'c, 't, 'm) renderer2d \<Rightarrow> ('f, 'p, 'u, 'c, 't, 'm) renderer2d run" where
  "set_mapped b r =
     (let i = batchDrawCallIndex r
      in if i < length (vertexBuffers r)
         then ret (r\<lparr>vertexBuffers := (vertexBuffers r)[i := (vertexBuffers r ! i)\<lparr>vb_mapped := b\<rparr>]\<rparr>)
         else fail BadIndex)"

definition releasePointer :: "('f, 'p, 'u, 'c, 't, 'm) renderer2d \<Rightarrow> ('f, 'p, 'u, 'c, 't, 'm) renderer2d run" where
  "releasePointer r = set_mapped False r"

definition getPointer :: "('f, 'p, 'u, 'c, 't, 'm) renderer2d \<Rightarrow> ('f, 'p, 'u, 'c, 't, 'm) renderer2d run" where
  "getPointer r = rbind (set_mapped True r) (\<lambda>r. ret (r\<lparr>buffer := (batchDrawCallIndex r, 0)\<rparr>))"

definition begin2d :: "('f, 'p, 'u, 'c, 't, 'm) renderer2d \<Rightarrow> ('f, 'p, 'u, 'c, 't, 'm) renderer2d run" where
  "begin2d r = getPointer (r\<lparr>textureCount := 0\<rparr>)"

definition updateDesciptorSet :: "('f, 'p, 'u, 'c, 't, 'm) renderer2d \<Rightarrow> ('f, 'p, 'u, 'c, 't, 'm) renderer2d" where
  "updateDesciptorSet r = (if textureCount r = 0 then r else r\<lparr>descriptorSet := textures r\<rparr>)"

text \<open>\<open>drawIndexed\<close> covers the vertices of the first \<^verbatim>\<open>indexCount\<close> indices: four for every six.\<close>

definition draw_batch :: "('f, 'p, 'u, 'c, 't, 'm) renderer2d \<Rightarrow> ('f, 'p, 'u, 'c, 't, 'm) renderer2d" where
  "draw_batch r = r\<lparr>draws := draws r @
     [\<lparr>drawn_vertices = take (4 * (indexCount r div 6)) (vb_data (vertexBuffers r ! batchDrawCallIndex r))\<rparr>]\<rparr>"

definition present2d :: "('f, 'p, 'u, 'c, 't, 'm) renderer2d \<Rightarrow> ('f, 'p, 'u, 'c, 't, 'm) renderer2d run" where
  "present2d r =
     (if indexCount r = 0 then releasePointer r
      else rbind (releasePointer (updateDesciptorSet r)) (\<lambda>r.
           let r = draw_batch r
           in ret (r\<lparr>indexCount := 0, batchDrawCallIndex := batchDrawCallIndex r + 1\<rparr>)))"

definition flush2d :: "('f, 'p, 'u, 'c, 't, 'm) renderer2d \<Rightarrow> ('f, 'p, 'u, 'c, 't, 'm) renderer2d run" where
  "flush2d r = rbind (present2d r) (\<lambda>r. getPointer (r\<lparr>textureCount := 0\<rparr>))"

text \<open>The slot of a texture in the batch, counted from one.\<close>

fun find_slot :: "'t option list \<Rightarrow> 't \<Rightarrow> nat \<Rightarrow> nat option" where
  "find_slot ts t 0 = None"
| "find_slot [] t (Suc n) = None"
| "find_slot (x # ts) t (Suc n) = (if x = Some t then Some 1 else map_option Suc (find_slot ts t n))"

definition submitTexture :: "'t \<Rightarrow> ('f, 'p, 'u, 'c, 't, 'm) renderer2d \<Rightarrow> (int \<times> ('f, 'p, 'u, 'c, 't, 'm) renderer2d) run" where
  "submitTexture t r =
     (case find_slot (textures r) t (textureCount r) of
        Some i \<Rightarrow> ret (int i, r)
      | None \<Rightarrow>
          rbind (if textureCount r \<ge> maxTextures (config r) then flush2d r else ret r) (\<lambda>r.
          if textureCount r < length (textures r)
          then ret (int (textureCount r) + 1,
                 r\<lparr>textures := (textures r)[textureCount r := Some t], textureCount := textureCount r + 1\<rparr>)
          else fail BadIndex))"

definition put_vertex :: "('p, 'u, 'c) vertex2d \<Rightarrow> ('f, 'p, 'u, 'c, 't, 'm) renderer2d \<Rightarrow> ('f, 'p, 'u, 'c, 't, 'm) renderer2d run" where
  "put_vertex v r = (case buffer r of (b, i) \<Rightarrow>
     if b < length (vertexBuffers r) \<and> vb_mapped (vertexBuffers r ! b) \<and> i < bufferSize (config r) div sizeof_Vertex2D
     then
       let d = vb_data (vertexBuffers r ! b)
       in ret (r\<lparr>vertexBuffers := (vertexBuffers r)[b := (vertexBuffers r ! b)\<lparr>vb_data := take i d @ [v] @ drop (i + 1) d\<rparr>],
                 buffer := (b, i + 1)\<rparr>)
     else fail BadIndex)"

definition quad_corners :: "('f, 'p, 'm, 'z) ops2d \<Rightarrow> ('f, 'u, 'c, 't, 'm) command2d \<Rightarrow> int \<Rightarrow> ('p, 'u, 'c) vertex2d list" where
  "quad_corners g c slot =
     (let q = cmd_quad c; m = cmd_transform c;
          minx = fst (offset q); miny = snd (offset q);
          maxx = float_add g minx (float_of_u32 g (quad_w q)); maxy = float_add g miny (float_of_u32 g (quad_h q));
          vert = (\<lambda>x y i. \<lparr>v2_vertex = at_point g m x y, v2_uv = (texCoords q ! i, slot), v2_color = quad_color q\<rparr>)
      in [vert minx miny 0, vert maxx miny 1, vert maxx maxy 2, vert minx maxy 3])"

definition submit_command :: "('f, 'p, 'm, 'z) ops2d \<Rightarrow> ('f, 'u, 'c, 't, 'm) command2d \<Rightarrow>
    ('f, 'p, 'u, 'c, 't, 'm) renderer2d \<Rightarrow> ('f, 'p, 'u, 'c, 't, 'm) renderer2d run" where
  "submit_command g c r =
     rbind (if indexCount r \<ge> indiciesSize (config r) then flush2d r else ret r) (\<lambda>r.
     rbind (case quad_texture (cmd_quad c) of Some t \<Rightarrow> submitTexture t r | None \<Rightarrow> ret (-1, r)) (\<lambda>(slot, r).
     rbind (rfold put_vertex (quad_corners g c slot) r) (\<lambda>r.
     ret (r\<lparr>indexCount := indexCount r + 6\<rparr>))))"

definition submitQuad :: "('f, 'p, 'm, 'z) ops2d \<Rightarrow> ('f, 'p, 'u, 'c, 't, 'm) renderer2d \<Rightarrow> ('f, 'p, 'u, 'c, 't, 'm) renderer2d run" where
  "submitQuad g r = rfold (submit_command g) (commands r) r"

definition end2d :: "('f, 'p, 'u, 'c, 't, 'm) renderer2d \<Rightarrow> ('f, 'p, 'u, 'c, 't, 'm) renderer2d" where
  "end2d r = r\<lparr>batchDrawCallIndex := 0\<rparr>"

definition renderScene2d :: "('f, 'p, 'm, 'z) ops2d \<Rightarrow> ('f, 'p, 'u, 'c, 't, 'm) renderer2d \<Rightarrow> ('f, 'p, 'u, 'c, 't, 'm) renderer2d run" where
  "renderScene2d g r =
     rbind (begin2d r) (\<lambda>r. rbind (submitQuad g r) (\<lambda>r. rbind (present2d r) (\<lambda>r. ret (end2d r))))"

text \<open>
  \<^verbatim>\<open>beginScene\<close>: the commands are those of the sprites and then of the animated sprites of the scene
  (absent quads are not submitted), sorted by depth with \<^verbatim>\<open>std::sort\<close>, which does not fix the order of
  equal elements: the sorting function is a parameter.
\<close>

definition submit2d :: "('f, 'u, 'c, 't) quad2d option \<Rightarrow> 'm \<Rightarrow> ('f, 'p, 'u, 'c, 't, 'm) renderer2d \<Rightarrow> ('f, 'p, 'u, 'c, 't, 'm) renderer2d" where
  "submit2d q m r = (case q of
     Some q \<Rightarrow> r\<lparr>commands := commands r @ [\<lparr>cmd_quad = q, cmd_transform = m\<rparr>]\<rparr> | None \<Rightarrow> r)"

definition beginScene2d ::
  "(('f, 'u, 'c, 't, 'm) command2d list \<Rightarrow> ('f, 'u, 'c, 't, 'm) command2d list) \<Rightarrow> bool \<Rightarrow>
   (('f, 'u, 'c, 't) quad2d \<times> 'm) list \<Rightarrow> (('f, 'u, 'c, 't) quad2d \<times> 'm) list \<Rightarrow>
   ('f, 'p, 'u, 'c, 't, 'm) renderer2d \<Rightarrow> ('f, 'p, 'u, 'c, 't, 'm) renderer2d" where
  "beginScene2d srt camera sprites animated r =
     (if \<not> camera then r
      else
        let r = fold (\<lambda>(q, m). submit2d (Some q) m) sprites (r\<lparr>commands := []\<rparr>);
            r = fold (\<lambda>(q, m). submit2d (Some q) m) animated r
        in r\<lparr>commands := srt (commands r)\<rparr>)"

section \<open>The batches\<close>

text \<open>
  The reference for the batching: the quads go into the current batch until it is full or its
  textures are; \<open>flushes\<close> counts how often the batch is closed before the last command.
\<close>

definition place_quad2d :: "nat \<Rightarrow> nat \<Rightarrow> nat \<Rightarrow> 't list \<Rightarrow> 't option \<Rightarrow> bool \<times> 't list" where
  "place_quad2d mq mt n ts t =
     (let full = mq \<le> n; ts = (if full then [] else ts)
      in case t of
           None \<Rightarrow> (full, ts)
         | Some t \<Rightarrow> if t \<in> set ts then (full, ts) else if mt \<le> length ts then (True, [t]) else (full, ts @ [t]))"

fun flushes :: "nat \<Rightarrow> nat \<Rightarrow> nat \<Rightarrow> 't list \<Rightarrow> 't option list \<Rightarrow> nat" where
  "flushes mq mt n ts [] = 0"
| "flushes mq mt n ts (t # us) = (case place_quad2d mq mt n ts t of
     (new, ts') \<Rightarrow> if new then Suc (flushes mq mt 1 ts' us) else flushes mq mt (Suc n) ts' us)"

definition config_ok :: "config2d \<Rightarrow> bool" where
  "config_ok c \<longleftrightarrow> 1 \<le> maxQuads c \<and> indiciesSize c = 6 * maxQuads c \<and> bufferSize c div sizeof_Vertex2D = 4 * maxQuads c \<and>
     1 \<le> maxTextures c \<and> maxTextures c \<le> 16"

text \<open>A quad that carries the slot of its texture among the first \<open>n\<close>, or \<open>-1\<close> without a texture.\<close>

definition slot_ok :: "'t option list \<Rightarrow> nat \<Rightarrow> ('f, 'u, 'c, 't, 'm) command2d \<times> int \<Rightarrow> bool" where
  "slot_ok ts n cs = (case quad_texture (cmd_quad (fst cs)) of
     None \<Rightarrow> snd cs = - 1
   | Some t \<Rightarrow> \<exists>i<n. i < length ts \<and> snd cs = int i + 1 \<and> ts ! i = Some t)"

definition batch_vertices :: "('f, 'p, 'm, 'z) ops2d \<Rightarrow> (('f, 'u, 'c, 't, 'm) command2d \<times> int) list \<Rightarrow> ('p, 'u, 'c) vertex2d list" where
  "batch_vertices g cur = concat (map (\<lambda>(c, s). quad_corners g c s) cur)"

text \<open>\<open>cur\<close> are the quads of the batch that is being filled, \<open>ts\<close> its textures.\<close>

definition batch_inv :: "('f, 'p, 'm, 'z) ops2d \<Rightarrow> ('f, 'p, 'u, 'c, 't, 'm) renderer2d \<Rightarrow>
    (('f, 'u, 'c, 't, 'm) command2d \<times> int) list \<Rightarrow> 't list \<Rightarrow> bool" where
  "batch_inv g r cur ts \<longleftrightarrow> config_ok (config r) \<and>
     buffer r = (batchDrawCallIndex r, 4 * length cur) \<and> batchDrawCallIndex r < length (vertexBuffers r) \<and>
     vb_mapped (vertexBuffers r ! batchDrawCallIndex r) \<and>
     4 * length cur \<le> length (vb_data (vertexBuffers r ! batchDrawCallIndex r)) \<and>
     take (4 * length cur) (vb_data (vertexBuffers r ! batchDrawCallIndex r)) = batch_vertices g cur \<and>
     indexCount r = 6 * length cur \<and> length cur \<le> maxQuads (config r) \<and>
     length (textures r) = 16 \<and> textureCount r = length ts \<and> length ts \<le> maxTextures (config r) \<and>
     take (length ts) (textures r) = map Some ts \<and> (\<forall>p\<in>set cur. slot_ok (textures r) (length ts) p)"

definition same_frame :: "('f, 'p, 'u, 'c, 't, 'm) renderer2d \<Rightarrow> ('f, 'p, 'u, 'c, 't, 'm) renderer2d \<Rightarrow> bool" where
  "same_frame r r' \<longleftrightarrow> config r' = config r \<and> commands r' = commands r \<and> index2d r' = index2d r \<and>
     length (vertexBuffers r') = length (vertexBuffers r)"

definition batch_drawn :: "('f, 'p, 'm, 'z) ops2d \<Rightarrow> (('f, 'u, 'c, 't, 'm) command2d \<times> int) list \<Rightarrow> ('p, 'u, 'c) draw2d \<Rightarrow> bool" where
  "batch_drawn g cur d \<longleftrightarrow> drawn_vertices d = batch_vertices g cur \<and>
     (\<exists>ts. length ts = 16 \<and> (\<forall>p\<in>set cur. slot_ok ts 16 p))"

text \<open>
  The texture that \<^verbatim>\<open>Batch2D.shader\<close> samples for a slot when the descriptor set holds \<open>ts\<close>: none for
  a slot that is not positive, otherwise the entry before the slot.
\<close>

definition sampled :: "'t option list \<Rightarrow> int \<Rightarrow> 't option" where
  "sampled ts s = (if s \<le> 0 then None else ts ! nat (s - 1))"

lemma slot_ok_sampled: "slot_ok ts n (c, s) \<Longrightarrow> sampled ts s = quad_texture (cmd_quad c)"
  by (auto simp: slot_ok_def sampled_def split: option.splits)

lemma length_quad_corners [simp]: "length (quad_corners g c s) = 4"
  by (simp add: quad_corners_def Let_def)

lemma length_batch_vertices [simp]: "length (batch_vertices g cur) = 4 * length cur"
  by (induction cur) (auto simp: batch_vertices_def)

lemma find_slot_None: "find_slot xs t n = None \<longleftrightarrow> Some t \<notin> set (take n xs)"
  by (induction xs t n rule: find_slot.induct) auto

lemma find_slot_Some: "find_slot xs t n = Some j \<Longrightarrow> \<exists>i<n. j = Suc i \<and> i < length xs \<and> xs ! i = Some t"
proof (induction xs t n arbitrary: j rule: find_slot.induct)
  case (3 x ts t n)
  show ?case
  proof (cases "x = Some t")
    case True
    then show ?thesis using "3.prems" by (intro exI[of _ 0]) simp
  next
    case False
    then obtain j' where "find_slot ts t n = Some j'" "j = Suc j'" using "3.prems" by auto
    then obtain i where "i < n" "j' = Suc i" "i < length ts" "ts ! i = Some t" using "3.IH"[OF False] by blast
    then show ?thesis using \<open>j = Suc j'\<close> by (intro exI[of _ "Suc i"]) simp
  qed
qed simp_all

lemma slot_ok_mono: "slot_ok ts n p \<Longrightarrow> n \<le> m \<Longrightarrow> slot_ok ts m p"
  unfolding slot_ok_def by (auto split: option.splits)

lemma slot_ok_more:
  assumes "slot_ok ts n p" "n < length ts"
  shows "slot_ok (ts[n := x]) (Suc n) p"
  using assms unfolding slot_ok_def by (auto split: option.splits)

lemma put_vertices:
  assumes "buffer r = (b, i)" "b < length (vertexBuffers r)" "vb_mapped (vertexBuffers r ! b)"
    "i + length vs \<le> bufferSize (config r) div sizeof_Vertex2D" "i \<le> length (vb_data (vertexBuffers r ! b))"
  shows "\<exists>r'. rfold put_vertex vs r = ret r' \<and>
    r' = r\<lparr>vertexBuffers := (vertexBuffers r)[b := (vertexBuffers r ! b)\<lparr>vb_data :=
        take i (vb_data (vertexBuffers r ! b)) @ vs @ drop (i + length vs) (vb_data (vertexBuffers r ! b))\<rparr>],
      buffer := (b, i + length vs)\<rparr>"
  using assms
proof (induction vs arbitrary: r i)
  case Nil
  have "(vertexBuffers r)[b := vertexBuffers r ! b] = vertexBuffers r" by simp
  then show ?case using Nil by simp
next
  case (Cons v vs)
  let ?d = "vb_data (vertexBuffers r ! b)"
  define d where "d = take i ?d @ [v] @ drop (i + 1) ?d"
  let ?r = "r\<lparr>vertexBuffers := (vertexBuffers r)[b := (vertexBuffers r ! b)\<lparr>vb_data := d\<rparr>], buffer := (b, i + 1)\<rparr>"
  have step: "put_vertex v r = ret ?r" using Cons.prems by (simp add: put_vertex_def Let_def d_def)
  have d: "i + 1 \<le> length d" "take (i + 1) d = take i ?d @ [v]" "drop (i + 1 + length vs) d = drop (i + 1 + length vs) ?d"
    using Cons.prems(5) by (simp_all add: d_def add.commute)
  obtain r' where "rfold put_vertex vs ?r = ret r'" and r': "r' = ?r\<lparr>vertexBuffers := (vertexBuffers ?r)[b := (vertexBuffers ?r ! b)\<lparr>vb_data :=
        take (i + 1) (vb_data (vertexBuffers ?r ! b)) @ vs @ drop (i + 1 + length vs) (vb_data (vertexBuffers ?r ! b))\<rparr>],
      buffer := (b, i + 1 + length vs)\<rparr>"
    using Cons.IH[of ?r "i + 1"] Cons.prems d(1) by auto
  moreover have "r' = r\<lparr>vertexBuffers := (vertexBuffers r)[b := (vertexBuffers r ! b)\<lparr>vb_data :=
        (take i ?d @ [v]) @ vs @ drop (i + 1 + length vs) ?d\<rparr>], buffer := (b, i + 1 + length vs)\<rparr>"
    using Cons.prems(2) unfolding r' d(2,3)[symmetric] by simp
  ultimately show ?case using step by simp
qed

lemma batch_invD:
  assumes "batch_inv g r cur ts"
  shows "config_ok (config r)" "buffer r = (batchDrawCallIndex r, 4 * length cur)"
    "batchDrawCallIndex r < length (vertexBuffers r)" "vb_mapped (vertexBuffers r ! batchDrawCallIndex r)"
    "4 * length cur \<le> length (vb_data (vertexBuffers r ! batchDrawCallIndex r))"
    "take (4 * length cur) (vb_data (vertexBuffers r ! batchDrawCallIndex r)) = batch_vertices g cur"
    "indexCount r = 6 * length cur" "length cur \<le> maxQuads (config r)" "length (textures r) = 16"
    "textureCount r = length ts" "length ts \<le> maxTextures (config r)"
    "take (length ts) (textures r) = map Some ts" "p \<in> set cur \<Longrightarrow> slot_ok (textures r) (length ts) p"
  using assms unfolding batch_inv_def by blast+

lemma start_batch:
  assumes "config_ok (config r)" "length (textures r) = 16" "indexCount r = 0"
  shows "getPointer (r\<lparr>textureCount := 0\<rparr>) = fail BadIndex \<and> length (vertexBuffers r) \<le> batchDrawCallIndex r \<or>
    (\<exists>r'. getPointer (r\<lparr>textureCount := 0\<rparr>) = ret r' \<and> batch_inv g r' [] [] \<and> same_frame r r' \<and> draws r' = draws r \<and>
       batchDrawCallIndex r' = batchDrawCallIndex r \<and> batchDrawCallIndex r < length (vertexBuffers r))"
  using assms
  by (simp add: getPointer_def set_mapped_def Let_def batch_inv_def same_frame_def batch_vertices_def)

lemma present_batch:
  assumes inv: "batch_inv g r cur ts" and "cur \<noteq> []"
  shows "\<exists>r' d. present2d r = ret r' \<and> same_frame r r' \<and> draws r' = draws r @ [d] \<and> batch_drawn g cur d \<and>
    batchDrawCallIndex r' = batchDrawCallIndex r + 1 \<and> indexCount r' = 0 \<and> textures r' = textures r \<and>
    (\<forall>(c, s)\<in>set cur. sampled (descriptorSet r') s = quad_texture (cmd_quad c))"
proof -
  note D = batch_invD[OF inv]
  let ?u = "updateDesciptorSet r"
  have u: "vertexBuffers ?u = vertexBuffers r" "batchDrawCallIndex ?u = batchDrawCallIndex r" "indexCount ?u = indexCount r"
    "config ?u = config r" "commands ?u = commands r" "index2d ?u = index2d r" "draws ?u = draws r" "textures ?u = textures r"
    by (simp_all add: updateDesciptorSet_def)
  define r' where "r' = (draw_batch (?u\<lparr>vertexBuffers := (vertexBuffers r)[batchDrawCallIndex r :=
      (vertexBuffers r ! batchDrawCallIndex r)\<lparr>vb_mapped := False\<rparr>]\<rparr>))\<lparr>indexCount := 0, batchDrawCallIndex := batchDrawCallIndex r + 1\<rparr>"
  define d where "d = \<lparr>drawn_vertices = batch_vertices g cur\<rparr>"
  have run: "present2d r = ret r'"
    using D(3,7) assms(2) by (simp add: present2d_def releasePointer_def set_mapped_def Let_def u r'_def draw_batch_def)
  have dr: "draws r' = draws r @ [d]"
    using D(3,6,7) by (simp add: r'_def draw_batch_def u d_def)
  have "length ts \<le> 16" using D(1,11) by (simp add: config_ok_def)
  then have "\<forall>p\<in>set cur. slot_ok (textures r) 16 p" using slot_ok_mono[OF D(13)] by blast
  then have "batch_drawn g cur d" using D(9) unfolding batch_drawn_def d_def by auto
  moreover have "sampled (descriptorSet r') s = quad_texture (cmd_quad c)" if p: "(c, s) \<in> set cur" for c s
  proof (cases "ts = []")
    case True
    then show ?thesis using D(13)[OF p] by (auto simp: slot_ok_def sampled_def split: option.splits)
  next
    case False
    then have "descriptorSet r' = textures r" using D(10) by (simp add: r'_def draw_batch_def updateDesciptorSet_def)
    then show ?thesis using slot_ok_sampled[OF D(13)[OF p]] by simp
  qed
  moreover have "same_frame r r'" by (simp add: same_frame_def r'_def draw_batch_def u)
  moreover have "batchDrawCallIndex r' = batchDrawCallIndex r + 1 \<and> indexCount r' = 0 \<and> textures r' = textures r"
    by (simp add: r'_def draw_batch_def u)
  ultimately show ?thesis using run dr by blast
qed

lemma same_frame_trans: "same_frame r r' \<Longrightarrow> same_frame r' r'' \<Longrightarrow> same_frame r r''"
  by (simp add: same_frame_def)

lemma flush_batch:
  assumes inv: "batch_inv g r cur ts" and "cur \<noteq> []"
  shows "flush2d r = fail BadIndex \<and> length (vertexBuffers r) \<le> batchDrawCallIndex r + 1 \<or>
    (\<exists>r' d. flush2d r = ret r' \<and> batch_inv g r' [] [] \<and> same_frame r r' \<and> draws r' = draws r @ [d] \<and> batch_drawn g cur d \<and>
       batchDrawCallIndex r' = batchDrawCallIndex r + 1 \<and> batchDrawCallIndex r + 1 < length (vertexBuffers r))"
proof -
  obtain r1 d where r1: "present2d r = ret r1" "same_frame r r1" "draws r1 = draws r @ [d]" "batch_drawn g cur d"
    "batchDrawCallIndex r1 = batchDrawCallIndex r + 1" "indexCount r1 = 0" "textures r1 = textures r"
    using present_batch[OF assms] by blast
  have "config_ok (config r1)" "length (textures r1) = 16"
    using batch_invD(1,9)[OF inv] r1(2,7) by (simp_all add: same_frame_def)
  from start_batch[OF this r1(6), of g] show ?thesis
    using r1 same_frame_trans[OF r1(2)] by (auto simp: flush2d_def same_frame_def)
qed

lemma write_quad2d:
  assumes inv: "batch_inv g r cur ts" and room: "length cur < maxQuads (config r)" and slot: "slot_ok (textures r) (length ts) (c, s)"
  shows "\<exists>r'. rbind (rfold put_vertex (quad_corners g c s) r) (\<lambda>r. ret (r\<lparr>indexCount := indexCount r + 6\<rparr>)) = ret r' \<and>
    batch_inv g r' (cur @ [(c, s)]) ts \<and> same_frame r r' \<and> draws r' = draws r \<and> batchDrawCallIndex r' = batchDrawCallIndex r"
proof -
  note D = batch_invD[OF inv]
  let ?b = "batchDrawCallIndex r" and ?i = "4 * length cur"
  let ?d = "vb_data (vertexBuffers r ! ?b)"
  define d where "d = take ?i ?d @ quad_corners g c s @ drop (?i + 4) ?d"
  define r' where "r' = r\<lparr>vertexBuffers := (vertexBuffers r)[?b := (vertexBuffers r ! ?b)\<lparr>vb_data := d\<rparr>], buffer := (?b, ?i + 4),
    indexCount := indexCount r + 6\<rparr>"
  have "?i + length (quad_corners g c s) \<le> bufferSize (config r) div sizeof_Vertex2D" using D(1) room by (simp add: config_ok_def)
  from put_vertices[OF D(2,3,4) this D(5)] have run:
    "rbind (rfold put_vertex (quad_corners g c s) r) (\<lambda>r. ret (r\<lparr>indexCount := indexCount r + 6\<rparr>)) = ret r'"
    by (auto simp: r'_def d_def)
  have "batch_vertices g (cur @ [(c, s)]) = batch_vertices g cur @ quad_corners g c s" by (simp add: batch_vertices_def)
  then have "take (4 * length (cur @ [(c, s)])) d = batch_vertices g (cur @ [(c, s)])" "4 * length (cur @ [(c, s)]) \<le> length d"
    using D(5,6) by (simp_all add: d_def)
  then have "batch_inv g r' (cur @ [(c, s)]) ts"
    unfolding batch_inv_def using D slot room by (simp add: r'_def ball_Un)
  then show ?thesis using run by (intro exI[of _ r']) (simp add: r'_def same_frame_def)
qed

lemma known_texture:
  assumes inv: "batch_inv g r cur ts"
  shows "t \<in> set ts \<Longrightarrow> \<exists>s. submitTexture t r = ret (s, r) \<and> (quad_texture (cmd_quad c) = Some t \<longrightarrow> slot_ok (textures r) (length ts) (c, s))"
    "t \<notin> set ts \<Longrightarrow> find_slot (textures r) t (textureCount r) = None"
proof -
  have D: "take (textureCount r) (textures r) = map Some ts" "textureCount r = length ts" using batch_invD(10,12)[OF inv] by simp_all
  show "t \<notin> set ts \<Longrightarrow> find_slot (textures r) t (textureCount r) = None" using D(1) by (auto simp: find_slot_None)
  assume "t \<in> set ts"
  then have "find_slot (textures r) t (textureCount r) \<noteq> None" using D(1) by (auto simp: find_slot_None)
  then obtain j where j: "find_slot (textures r) t (textureCount r) = Some j" by blast
  from find_slot_Some[OF this] obtain i where "i < length ts" "j = Suc i" "i < length (textures r)" "textures r ! i = Some t"
    using D(2) by auto
  then show "\<exists>s. submitTexture t r = ret (s, r) \<and> (quad_texture (cmd_quad c) = Some t \<longrightarrow> slot_ok (textures r) (length ts) (c, s))"
    using j by (auto simp: submitTexture_def slot_ok_def)
qed

lemma new_texture:
  assumes inv: "batch_inv g r cur ts" and mt: "length ts < maxTextures (config r)"
  shows "\<exists>s r'. (if textureCount r < length (textures r)
          then ret (int (textureCount r) + 1, r\<lparr>textures := (textures r)[textureCount r := Some t], textureCount := textureCount r + 1\<rparr>)
          else fail BadIndex) = ret (s, r') \<and> batch_inv g r' cur (ts @ [t]) \<and> same_frame r r' \<and> draws r' = draws r \<and>
      batchDrawCallIndex r' = batchDrawCallIndex r \<and> (quad_texture (cmd_quad c) = Some t \<longrightarrow> slot_ok (textures r') (length (ts @ [t])) (c, s))"
proof -
  note D = batch_invD[OF inv]
  let ?r = "r\<lparr>textures := (textures r)[length ts := Some t], textureCount := length ts + 1\<rparr>"
  have lt: "length ts < length (textures r)" using D(1,9) mt by (simp add: config_ok_def)
  have tk: "take (length ts + 1) ((textures r)[length ts := Some t]) = map Some ts @ [Some t]"
    using D(12) lt by (simp add: take_Suc_conv_app_nth)
  have "slot_ok ((textures r)[length ts := Some t]) (length ts + 1) p" if "p \<in> set cur" for p
    using slot_ok_more[OF D(13)[OF that] lt] by simp
  then have "batch_inv g ?r cur (ts @ [t])" unfolding batch_inv_def using D tk mt by simp
  moreover have "quad_texture (cmd_quad c) = Some t \<longrightarrow> slot_ok (textures ?r) (length (ts @ [t])) (c, int (length ts) + 1)"
    using lt by (auto simp: slot_ok_def)
  ultimately show ?thesis using lt D(10) by (intro exI[of _ "int (length ts) + 1"] exI[of _ ?r]) (simp add: same_frame_def)
qed

text \<open>What a step does: it closes the batch or not, and puts the quad into the new or the same batch.\<close>

definition stepped :: "('f, 'p, 'm, 'z) ops2d \<Rightarrow> ('f, 'u, 'c, 't, 'm) command2d \<Rightarrow> ('f, 'p, 'u, 'c, 't, 'm) renderer2d \<Rightarrow>
    (('f, 'u, 'c, 't, 'm) command2d \<times> int) list \<Rightarrow> bool \<times> 't list \<Rightarrow> ('f, 'p, 'u, 'c, 't, 'm) renderer2d run \<Rightarrow> bool" where
  "stepped g c r cur p res = (case p of (new, ts') \<Rightarrow>
     (new \<and> res = fail BadIndex \<and> length (vertexBuffers r) \<le> batchDrawCallIndex r + 1) \<or>
     (\<exists>r' s ds. res = ret r' \<and> batch_inv g r' ((if new then [] else cur) @ [(c, s)]) ts' \<and> same_frame r r' \<and>
        draws r' = draws r @ ds \<and> list_all2 (batch_drawn g) (if new then [cur] else []) ds \<and>
        batchDrawCallIndex r' = batchDrawCallIndex r + (if new then 1 else 0) \<and>
        (new \<longrightarrow> batchDrawCallIndex r + 1 < length (vertexBuffers r))))"

definition submit_rest :: "('f, 'p, 'm, 'z) ops2d \<Rightarrow> ('f, 'u, 'c, 't, 'm) command2d \<Rightarrow>
    ('f, 'p, 'u, 'c, 't, 'm) renderer2d \<Rightarrow> ('f, 'p, 'u, 'c, 't, 'm) renderer2d run" where
  "submit_rest g c r =
     rbind (case quad_texture (cmd_quad c) of Some t \<Rightarrow> submitTexture t r | None \<Rightarrow> ret (-1, r)) (\<lambda>(slot, r).
     rbind (rfold put_vertex (quad_corners g c slot) r) (\<lambda>r. ret (r\<lparr>indexCount := indexCount r + 6\<rparr>)))"

lemma stepped_write:
  assumes "batch_inv g r1 cur ts'" "length cur < maxQuads (config r1)" "slot_ok (textures r1) (length ts') (c, s)"
    "same_frame r r1" "draws r1 = draws r" "batchDrawCallIndex r1 = batchDrawCallIndex r"
  shows "stepped g c r cur (False, ts') (rbind (rfold put_vertex (quad_corners g c s) r1) (\<lambda>r. ret (r\<lparr>indexCount := indexCount r + 6\<rparr>)))"
proof -
  obtain r' where "rbind (rfold put_vertex (quad_corners g c s) r1) (\<lambda>r. ret (r\<lparr>indexCount := indexCount r + 6\<rparr>)) = ret r'"
    "batch_inv g r' (cur @ [(c, s)]) ts'" "same_frame r1 r'" "draws r' = draws r1" "batchDrawCallIndex r' = batchDrawCallIndex r1"
    using write_quad2d[OF assms(1-3)] by blast
  then show ?thesis unfolding stepped_def using assms(4-6) same_frame_trans by auto
qed

lemma place_not_full:
  assumes "n < mq"
  shows "place_quad2d mq mt n ts None = (False, ts)" "t \<in> set ts \<Longrightarrow> place_quad2d mq mt n ts (Some t) = (False, ts)"
    "t \<notin> set ts \<Longrightarrow> length ts < mt \<Longrightarrow> place_quad2d mq mt n ts (Some t) = (False, ts @ [t])"
    "t \<notin> set ts \<Longrightarrow> mt \<le> length ts \<Longrightarrow> place_quad2d mq mt n ts (Some t) = (True, [t])"
  using assms by (simp_all add: place_quad2d_def)

text \<open>A step after a closed batch is a step of the whole.\<close>

lemma stepped_flush:
  assumes flush: "flush2d r = ret r1" "same_frame r r1" "draws r1 = draws r @ [d]" "batch_drawn g cur d"
    "batchDrawCallIndex r1 = batchDrawCallIndex r + 1" "batchDrawCallIndex r + 1 < length (vertexBuffers r)"
    and "stepped g c r1 [] (False, ts') res"
  shows "stepped g c r cur (True, ts') res"
  using assms(7) flush(2-6) same_frame_trans[OF flush(2)] unfolding stepped_def by auto

lemma submit_rest_step:
  assumes inv: "batch_inv g r cur ts" and room: "length cur < maxQuads (config r)" and "cur = [] \<longrightarrow> ts = []"
  shows "stepped g c r cur (place_quad2d (maxQuads (config r)) (maxTextures (config r)) (length cur) ts (quad_texture (cmd_quad c)))
    (submit_rest g c r)"
proof (cases "quad_texture (cmd_quad c)")
  case None
  then have "slot_ok (textures r) (length ts) (c, - 1)" by (simp add: slot_ok_def)
  then show ?thesis using None stepped_write[OF inv room] by (simp add: submit_rest_def place_not_full(1)[OF room] same_frame_def)
next
  case (Some t)
  note place = place_not_full[OF room]
  consider (known) "t \<in> set ts" | (room) "t \<notin> set ts" "length ts < maxTextures (config r)"
    | (full) "t \<notin> set ts" "maxTextures (config r) \<le> length ts" by linarith
  then show ?thesis
  proof cases
    case known
    then obtain s where "submitTexture t r = ret (s, r)" "slot_ok (textures r) (length ts) (c, s)"
      using known_texture(1)[OF inv known, of c] Some by blast
    then show ?thesis using Some stepped_write[OF inv assms(2), of c s r] by (simp add: submit_rest_def place(2)[OF known] same_frame_def)
  next
    case room
    obtain s r1 where r1: "submitTexture t r = ret (s, r1)" "batch_inv g r1 cur (ts @ [t])" "same_frame r r1" "draws r1 = draws r"
      "batchDrawCallIndex r1 = batchDrawCallIndex r" "slot_ok (textures r1) (length (ts @ [t])) (c, s)"
      using new_texture[OF inv room(2), of t c] Some room(2) known_texture(2)[OF inv room(1)] batch_invD(10)[OF inv]
      by (auto simp: submitTexture_def)
    have "length cur < maxQuads (config r1)" using assms(2) r1(3) by (simp add: same_frame_def)
    from stepped_write[OF r1(2) this r1(6,3,4,5)] show ?thesis using Some r1(1) by (simp add: submit_rest_def place(3)[OF room])
  next
    case full
    have c: "config_ok (config r)" by (rule batch_invD(1)[OF inv])
    then have "cur \<noteq> []" using assms(3) full(2) by (auto simp: config_ok_def)
    note fl = flush_batch[OF inv this]
    have sub: "submitTexture t r = rbind (flush2d r) (\<lambda>r. if textureCount r < length (textures r)
          then ret (int (textureCount r) + 1, r\<lparr>textures := (textures r)[textureCount r := Some t], textureCount := textureCount r + 1\<rparr>)
          else fail BadIndex)"
      using full(2) known_texture(2)[OF inv full(1)] batch_invD(10)[OF inv] by (simp add: submitTexture_def)
    from fl show ?thesis
    proof
      assume "flush2d r = fail BadIndex \<and> length (vertexBuffers r) \<le> batchDrawCallIndex r + 1"
      then show ?thesis using Some sub by (simp add: submit_rest_def place(4)[OF full] stepped_def)
    next
      assume "\<exists>r' d. flush2d r = ret r' \<and> batch_inv g r' [] [] \<and> same_frame r r' \<and> draws r' = draws r @ [d] \<and> batch_drawn g cur d \<and>
        batchDrawCallIndex r' = batchDrawCallIndex r + 1 \<and> batchDrawCallIndex r + 1 < length (vertexBuffers r)"
      then obtain r1 d where r1: "flush2d r = ret r1" "same_frame r r1" "draws r1 = draws r @ [d]" "batch_drawn g cur d"
        "batchDrawCallIndex r1 = batchDrawCallIndex r + 1" "batchDrawCallIndex r + 1 < length (vertexBuffers r)" "batch_inv g r1 [] []" by blast
      have cfg: "config r1 = config r" using r1(2) by (simp add: same_frame_def)
      have "length [] < maxTextures (config r1)" using c cfg by (simp add: config_ok_def)
      from new_texture[OF r1(7) this, of t c] obtain s r2 where r2: "submitTexture t r = ret (s, r2)" "batch_inv g r2 [] [t]" "same_frame r1 r2"
        "draws r2 = draws r1" "batchDrawCallIndex r2 = batchDrawCallIndex r1" "slot_ok (textures r2) (length [t]) (c, s)"
        using sub r1(1) Some by auto
      have "length [] < maxQuads (config r2)" using c cfg r2(3) by (simp add: config_ok_def same_frame_def)
      from stepped_flush[OF r1(1-6) stepped_write[OF r2(2) this r2(6,3,4,5)]] show ?thesis
        using Some r2(1) by (simp add: submit_rest_def place(4)[OF full])
    qed
  qed
qed

lemma submit_command_step:
  assumes inv: "batch_inv g r cur ts" and "cur = [] \<longrightarrow> ts = []"
  shows "stepped g c r cur (place_quad2d (maxQuads (config r)) (maxTextures (config r)) (length cur) ts (quad_texture (cmd_quad c)))
    (submit_command g c r)"
proof -
  have c: "config_ok (config r)" by (rule batch_invD(1)[OF inv])
  have eq: "submit_command g c r = rbind (if indexCount r \<ge> indiciesSize (config r) then flush2d r else ret r) (submit_rest g c)"
    unfolding submit_command_def submit_rest_def ..
  have ge: "indexCount r \<ge> indiciesSize (config r) \<longleftrightarrow> maxQuads (config r) \<le> length cur"
    using c batch_invD(7)[OF inv] by (simp add: config_ok_def)
  show ?thesis
  proof (cases "maxQuads (config r) \<le> length cur")
    case False
    then show ?thesis using submit_rest_step[OF inv _ assms(2)] by (simp add: eq ge)
  next
    case True
    then have "cur \<noteq> []" using c by (auto simp: config_ok_def)
    obtain ts' where p: "place_quad2d (maxQuads (config r)) (maxTextures (config r)) (length cur) ts (quad_texture (cmd_quad c)) = (True, ts')"
      "place_quad2d (maxQuads (config r)) (maxTextures (config r)) 0 [] (quad_texture (cmd_quad c)) = (False, ts')"
      using True c by (cases "quad_texture (cmd_quad c)") (auto simp: place_quad2d_def config_ok_def)
    from flush_batch[OF inv \<open>cur \<noteq> []\<close>] show ?thesis
    proof
      assume "flush2d r = fail BadIndex \<and> length (vertexBuffers r) \<le> batchDrawCallIndex r + 1"
      then show ?thesis using True by (simp add: eq ge p stepped_def)
    next
      assume "\<exists>r' d. flush2d r = ret r' \<and> batch_inv g r' [] [] \<and> same_frame r r' \<and> draws r' = draws r @ [d] \<and> batch_drawn g cur d \<and>
        batchDrawCallIndex r' = batchDrawCallIndex r + 1 \<and> batchDrawCallIndex r + 1 < length (vertexBuffers r)"
      then obtain r1 d where r1: "flush2d r = ret r1" "same_frame r r1" "draws r1 = draws r @ [d]" "batch_drawn g cur d"
        "batchDrawCallIndex r1 = batchDrawCallIndex r + 1" "batchDrawCallIndex r + 1 < length (vertexBuffers r)" "batch_inv g r1 [] []" by blast
      have cfg: "config r1 = config r" using r1(2) by (simp add: same_frame_def)
      have "stepped g c r1 [] (False, ts') (submit_rest g c r1)"
        using submit_rest_step[OF r1(7), of c] c p(2) cfg by (simp add: config_ok_def)
      from stepped_flush[OF r1(1-6) this] show ?thesis using True r1(1) by (simp add: eq ge p)
    qed
  qed
qed

text \<open>The commands \<open>cs\<close> went into the closed batches \<open>bs\<close>, drawn by \<open>ds\<close>, and the open batch \<open>cur'\<close>.\<close>

definition submitted :: "('f, 'p, 'm, 'z) ops2d \<Rightarrow> ('f, 'p, 'u, 'c, 't, 'm) renderer2d \<Rightarrow> (('f, 'u, 'c, 't, 'm) command2d \<times> int) list \<Rightarrow>
    ('f, 'u, 'c, 't, 'm) command2d list \<Rightarrow> ('f, 'p, 'u, 'c, 't, 'm) renderer2d \<Rightarrow> (('f, 'u, 'c, 't, 'm) command2d \<times> int) list \<Rightarrow>
    (('f, 'u, 'c, 't, 'm) command2d \<times> int) list list \<Rightarrow> ('p, 'u, 'c) draw2d list \<Rightarrow> bool" where
  "submitted g r cur cs r' cur' bs ds \<longleftrightarrow> (\<exists>ts'. batch_inv g r' cur' ts') \<and> same_frame r r' \<and> draws r' = draws r @ ds \<and>
     list_all2 (batch_drawn g) bs ds \<and> (\<forall>b\<in>set bs. b \<noteq> [] \<and> length b \<le> maxQuads (config r)) \<and>
     map fst (concat bs @ cur') = map fst cur @ cs \<and> (cur' = [] \<longrightarrow> cs = [] \<and> cur = [])"

lemma submit_commands:
  assumes "batch_inv g r cur ts" "cur = [] \<longrightarrow> ts = []"
    and "n = flushes (maxQuads (config r)) (maxTextures (config r)) (length cur) ts (map (\<lambda>c. quad_texture (cmd_quad c)) cs)"
  shows "if batchDrawCallIndex r + n < length (vertexBuffers r)
    then \<exists>r' cur' bs ds. rfold (submit_command g) cs r = ret r' \<and> submitted g r cur cs r' cur' bs ds
    else rfold (submit_command g) cs r = fail BadIndex"
  using assms
proof (induction cs arbitrary: r cur ts n)
  case Nil
  have "batchDrawCallIndex r < length (vertexBuffers r)" by (rule batch_invD(3)[OF Nil.prems(1)])
  moreover have "submitted g r cur [] r cur [] []" using Nil.prems(1) by (auto simp: submitted_def same_frame_def)
  ultimately show ?case using Nil.prems(3) by auto
next
  case (Cons c cs)
  let ?mq = "maxQuads (config r)" and ?mt = "maxTextures (config r)"
  obtain new ts1 where p: "place_quad2d ?mq ?mt (length cur) ts (quad_texture (cmd_quad c)) = (new, ts1)" by fastforce
  let ?k = "if new then 1 else 0 :: nat" and ?cur1 = "\<lambda>s. (if new then [] else cur) @ [(c, s)]"
  define n1 where "n1 = flushes ?mq ?mt (length (?cur1 0)) ts1 (map (\<lambda>c. quad_texture (cmd_quad c)) cs)"
  have n: "n = ?k + n1" using Cons.prems(3) by (simp add: p n1_def)
  note st = submit_command_step[OF Cons.prems(1,2), of c, unfolded p]
  then consider (stop) "new" "submit_command g c r = fail BadIndex" "length (vertexBuffers r) \<le> batchDrawCallIndex r + 1"
    | (go) r1 s ds1 where "submit_command g c r = ret r1" "batch_inv g r1 (?cur1 s) ts1" "same_frame r r1" "draws r1 = draws r @ ds1"
        "list_all2 (batch_drawn g) (if new then [cur] else []) ds1" "batchDrawCallIndex r1 = batchDrawCallIndex r + ?k"
    unfolding stepped_def by auto
  then show ?case
  proof cases
    case stop
    then show ?thesis using n by simp
  next
    case go
    have cfg: "config r1 = config r" "length (vertexBuffers r1) = length (vertexBuffers r)" using go(3) by (simp_all add: same_frame_def)
    have "n1 = flushes (maxQuads (config r1)) (maxTextures (config r1)) (length (?cur1 s)) ts1 (map (\<lambda>c. quad_texture (cmd_quad c)) cs)"
      by (simp add: n1_def cfg)
    from Cons.IH[OF go(2) _ this] have IH: "if batchDrawCallIndex r1 + n1 < length (vertexBuffers r1)
      then \<exists>r' cur' bs ds. rfold (submit_command g) cs r1 = ret r' \<and> submitted g r1 (?cur1 s) cs r' cur' bs ds
      else rfold (submit_command g) cs r1 = fail BadIndex" by simp
    show ?thesis
    proof (cases "batchDrawCallIndex r + n < length (vertexBuffers r)")
      case False
      then show ?thesis using IH go(1,6) cfg(2) n by simp
    next
      case True
      then obtain r' cur' bs ds where run: "rfold (submit_command g) cs r1 = ret r'" and sub: "submitted g r1 (?cur1 s) cs r' cur' bs ds"
        using IH go(6) cfg(2) n by (auto simp: add.assoc)
      then have r': "\<exists>ts'. batch_inv g r' cur' ts'" "same_frame r1 r'"
        "draws r' = draws r1 @ ds" "list_all2 (batch_drawn g) bs ds" "\<forall>b\<in>set bs. b \<noteq> [] \<and> length b \<le> maxQuads (config r1)"
        "map fst (concat bs @ cur') = map fst (?cur1 s) @ cs" "cur' = [] \<longrightarrow> cs = [] \<and> ?cur1 s = []"
        unfolding submitted_def by blast+
      let ?bs = "(if new then [cur] else []) @ bs" and ?ds = "ds1 @ ds"
      have "cur \<noteq> []" if "new"
        using p that Cons.prems(2) batch_invD(1)[OF Cons.prems(1)]
        by (cases "quad_texture (cmd_quad c)") (auto simp: place_quad2d_def config_ok_def Let_def split: if_splits)
      then have "\<forall>b\<in>set ?bs. b \<noteq> [] \<and> length b \<le> ?mq" using r'(5) cfg(1) batch_invD(8)[OF Cons.prems(1)] by auto
      moreover have "list_all2 (batch_drawn g) ?bs ?ds" using go(5) r'(4) by (rule list_all2_appendI)
      moreover have "map fst (concat ?bs @ cur') = map fst cur @ c # cs" using r'(6) by (cases new) simp_all
      moreover have "draws r' = draws r @ ?ds" using r'(3) go(4) by simp
      moreover have "cur' \<noteq> []" using r'(7) by auto
      ultimately have "submitted g r cur (c # cs) r' cur' ?bs ?ds"
        unfolding submitted_def using r'(1) same_frame_trans[OF go(3) r'(2)] by blast
      moreover have "rfold (submit_command g) (c # cs) r = ret r'" using go(1) run by simp
      ultimately show ?thesis unfolding if_P[OF True] by blast
    qed
  qed
qed

text \<open>Between frames.\<close>

definition idle2d :: "('f, 'p, 'u, 'c, 't, 'm) renderer2d \<Rightarrow> bool" where
  "idle2d r \<longleftrightarrow> config_ok (config r) \<and> length (textures r) = 16 \<and> indexCount r = 0 \<and> batchDrawCallIndex r = 0 \<and>
     length (vertexBuffers r) = maxBatchDrawCalls (config r) \<and> 0 < maxBatchDrawCalls (config r)"

lemma renderScene2d_run:
  assumes "idle2d r"
  shows "if flushes (maxQuads (config r)) (maxTextures (config r)) 0 [] (map (\<lambda>c. quad_texture (cmd_quad c)) (commands r))
      < maxBatchDrawCalls (config r)
    then \<exists>r' bs ds. renderScene2d g r = ret r' \<and> idle2d r' \<and> draws r' = draws r @ ds \<and>
      map fst (concat bs) = commands r \<and> list_all2 (batch_drawn g) bs ds \<and>
      (\<forall>b\<in>set bs. b \<noteq> [] \<and> length b \<le> maxQuads (config r)) \<and>
      (bs \<noteq> [] \<longrightarrow> (\<forall>(c, s)\<in>set (last bs). sampled (descriptorSet r') s = quad_texture (cmd_quad c)))
    else renderScene2d g r = fail BadIndex"
proof -
  have I: "config_ok (config r)" "length (textures r) = 16" "indexCount r = 0" "batchDrawCallIndex r = 0"
    "length (vertexBuffers r) = maxBatchDrawCalls (config r)" "0 < maxBatchDrawCalls (config r)"
    using assms by (simp_all add: idle2d_def)
  obtain r1 where r1: "begin2d r = ret r1" "batch_inv g r1 [] []" "same_frame r r1" "draws r1 = draws r" "batchDrawCallIndex r1 = 0"
    using start_batch[OF I(1-3), of g] I(4-6) by (auto simp: begin2d_def)
  have fr: "config r1 = config r" "commands r1 = commands r" "length (vertexBuffers r1) = maxBatchDrawCalls (config r)"
    using r1(3) I(5) by (simp_all add: same_frame_def)
  let ?n = "flushes (maxQuads (config r)) (maxTextures (config r)) 0 [] (map (\<lambda>c. quad_texture (cmd_quad c)) (commands r))"
  have sub: "if ?n < maxBatchDrawCalls (config r)
    then \<exists>r' cur' bs ds. submitQuad g r1 = ret r' \<and> submitted g r1 [] (commands r) r' cur' bs ds
    else submitQuad g r1 = fail BadIndex"
    using submit_commands[OF r1(2) impI[OF refl] refl, of "commands r"]
    unfolding submitQuad_def r1(5) fr list.size(3) add_0 .
  show ?thesis
  proof (cases "?n < maxBatchDrawCalls (config r)")
    case False
    then show ?thesis using sub r1(1) by (simp add: renderScene2d_def)
  next
    case True
    then obtain r2 cur bs ds where r2: "submitQuad g r1 = ret r2" "submitted g r1 [] (commands r) r2 cur bs ds" using sub by auto
    then obtain ts where r2: "submitQuad g r1 = ret r2" "batch_inv g r2 cur ts" "same_frame r1 r2" "draws r2 = draws r1 @ ds"
      "list_all2 (batch_drawn g) bs ds" "\<forall>b\<in>set bs. b \<noteq> [] \<and> length b \<le> maxQuads (config r)" "map fst (concat bs @ cur) = commands r"
      "cur = [] \<longrightarrow> commands r = []"
      unfolding submitted_def fr by auto
    note D = batch_invD[OF r2(2)]
    have run: "renderScene2d g r = rbind (present2d r2) (\<lambda>r. ret (end2d r))" using r1(1) r2(1) by (simp add: renderScene2d_def)
    have idle: "idle2d (end2d r3)" if "same_frame r2 r3" "indexCount r3 = 0" "textures r3 = textures r2" for r3
      using same_frame_trans[OF same_frame_trans[OF r1(3) r2(3)] that(1)] that(2,3) D(1,9) I
      by (simp add: idle2d_def end2d_def same_frame_def)
    show ?thesis
    proof (cases "cur = []")
      case True
      then have "commands r = []" "bs = []" "ds = []" using r2(5-8) by (auto simp: concat_eq_Nil_conv)
      moreover obtain r3 where r3: "present2d r2 = ret r3" "same_frame r2 r3" "indexCount r3 = 0" "textures r3 = textures r2" "draws r3 = draws r2"
        using True D(3,7) by (auto simp: present2d_def releasePointer_def set_mapped_def Let_def same_frame_def)
      ultimately show ?thesis using run idle[OF r3(2-4)] \<open>?n < _\<close> r2(4) r1(4)
        by (simp add: end2d_def)
    next
      case False
      from present_batch[OF r2(2) this] obtain r3 d where r3: "present2d r2 = ret r3" "same_frame r2 r3" "draws r3 = draws r2 @ [d]"
        "batch_drawn g cur d" "indexCount r3 = 0" "textures r3 = textures r2"
        "\<forall>(c, s)\<in>set cur. sampled (descriptorSet r3) s = quad_texture (cmd_quad c)" by blast
      have "list_all2 (batch_drawn g) (bs @ [cur]) (ds @ [d])" using r2(5) r3(4) by (simp add: list_all2_appendI)
      moreover have "\<forall>b\<in>set (bs @ [cur]). b \<noteq> [] \<and> length b \<le> maxQuads (config r)"
        using r2(6) False D(8) r2(3) fr(1) by (auto simp: same_frame_def)
      moreover have "draws (end2d r3) = draws r @ (ds @ [d])" using r3(3) r2(4) r1(4) by (simp add: end2d_def)
      moreover have "map fst (concat (bs @ [cur])) = commands r" using r2(7) by simp
      moreover have "renderScene2d g r = ret (end2d r3)" using run r3(1) by simp
      moreover have "\<forall>(c, s)\<in>set (last (bs @ [cur])). sampled (descriptorSet (end2d r3)) s = quad_texture (cmd_quad c)"
        using r3(7) by (simp add: end2d_def)
      ultimately show ?thesis using idle[OF r3(2,5,6)] unfolding if_P[OF True] by blast
    qed
  qed
qed

text \<open>
  C17: A frame of the 2D renderer draws the sprites in the order of the commands, none twice and none
  left out, in batches of at least one and at most \<^verbatim>\<open>maxQuads\<close>, each with the slots of one array of at
  most sixteen textures. When the frame is submitted, every sprite of the last batch (of a frame with
  one batch: every sprite) has the slot of its own texture in the descriptor set; nothing is claimed
  of the textures of earlier batches, whose entries the last one overwrites. The frame needs one more
  batch than \<open>flushes\<close> counts; when that is more than \<^verbatim>\<open>maxBatchDrawCalls\<close>, the subscript of
  \<^verbatim>\<open>vertexBuffers\<close> leaves the vector.
\<close>

theorem renderScene2d_batches:
  assumes "idle2d r"
  shows "if flushes (maxQuads (config r)) (maxTextures (config r)) 0 [] (map (\<lambda>c. quad_texture (cmd_quad c)) (commands r))
      < maxBatchDrawCalls (config r)
    then \<exists>r' bs ds. renderScene2d g r = ret r' \<and> idle2d r' \<and> draws r' = draws r @ ds \<and>
      map fst (concat bs) = commands r \<and> list_all2 (batch_drawn g) bs ds \<and>
      (\<forall>b\<in>set bs. b \<noteq> [] \<and> length b \<le> maxQuads (config r)) \<and>
      (bs \<noteq> [] \<longrightarrow> (\<forall>(c, s)\<in>set (last bs). sampled (descriptorSet r') s = quad_texture (cmd_quad c)))
    else renderScene2d g r = fail BadIndex"
  by (rule renderScene2d_run[OF assms])

section \<open>How many batches a scene needs\<close>

lemma flushes_few_from:
  assumes "finite U" "card U \<le> mt" "set ts \<subseteq> U" "distinct ts" "{t. Some t \<in> set us} \<subseteq> U" "1 \<le> n" "n \<le> mq"
  shows "flushes mq mt n ts us = (n + length us - 1) div mq"
  using assms(3-7)
proof (induction us arbitrary: n ts)
  case Nil
  then have "n - 1 < mq" by simp
  then show ?case by simp
next
  case (Cons u us)
  have fit: "length ts < mt" if "t \<in> U" "t \<notin> set ts" for t
  proof -
    have "card (insert t (set ts)) \<le> card U" using that Cons.prems(1) assms(1) by (intro card_mono) auto
    then show ?thesis using that Cons.prems(2) assms(2) by (simp add: distinct_card)
  qed
  have U: "t \<in> U" if "u = Some t" for t using that Cons.prems(3) by auto
  have us: "{t. Some t \<in> set us} \<subseteq> U" using Cons.prems(3) by auto
  show ?case
  proof (cases "n = mq")
    case True
    have mt: "1 \<le> mt" if "u = Some t" for t
      using U[OF that] assms(1,2) by (metis card_0_eq empty_iff le_zero_eq not_less_eq_eq One_nat_def)
    then obtain ts' where "place_quad2d mq mt n ts u = (True, ts')" "set ts' \<subseteq> U" "distinct ts'"
      using True U by (cases u) (auto simp: place_quad2d_def Let_def)
    then have "flushes mq mt n ts (u # us) = Suc ((1 + length us - 1) div mq)"
      using Cons.IH[of ts' 1] us Cons.prems(4,5) by simp
    then show ?thesis using True Cons.prems(4) by (simp add: div_add_self1)
  next
    case False
    then have n: "n < mq" using Cons.prems(5) by simp
    obtain ts' where "place_quad2d mq mt n ts u = (False, ts')" "set ts' \<subseteq> U" "distinct ts'"
    proof (cases u)
      case None
      then show ?thesis using that[of ts] place_not_full(1)[OF n, of mt ts] Cons.prems(1,2) by simp
    next
      case (Some t)
      then show ?thesis
        using that[of ts] that[of "ts @ [t]"] place_not_full(2,3)[OF n, of t ts mt] fit[OF U[OF Some]] U[OF Some] Cons.prems(1,2)
        by (cases "t \<in> set ts") auto
    qed
    then show ?thesis using Cons.IH[of ts' "Suc n"] us n by simp
  qed
qed

text \<open>With few textures only the number of quads counts; with a texture of its own for every quad, the textures do.\<close>

lemma flushes_few:
  assumes "finite U" "card U \<le> mt" "{t. Some t \<in> set us} \<subseteq> U" "1 \<le> mq" "1 \<le> mt"
  shows "flushes mq mt 0 [] us = (length us - 1) div mq"
proof (cases us)
  case (Cons u vs)
  have "0 < mq" using assms(4) by simp
  then obtain ts where "place_quad2d mq mt 0 [] u = (False, ts)" "set ts \<subseteq> U" "distinct ts"
    using assms(3,5) Cons by (cases u) (auto simp: place_quad2d_def Let_def)
  then show ?thesis using flushes_few_from[OF assms(1,2), of ts vs 1 mq] assms(3,4) Cons by auto
qed simp

lemma flushes_distinct_from:
  assumes "length ts = n" "distinct (ts @ us)" "1 \<le> n" "n \<le> mt" "mt \<le> mq"
  shows "flushes mq mt n ts (map Some us) = (n + length us - 1) div mt"
  using assms
proof (induction us arbitrary: n ts)
  case Nil
  then have "n - 1 < mt" by simp
  then show ?case by simp
next
  case (Cons u us)
  show ?case
  proof (cases "n = mt")
    case True
    then have "place_quad2d mq mt n ts (Some u) = (True, [u])" using Cons.prems by (auto simp: place_quad2d_def Let_def)
    then have "flushes mq mt n ts (map Some (u # us)) = Suc (length us div mt)"
      using Cons.IH[of "[u]" 1] Cons.prems by simp
    then show ?thesis using True Cons.prems(3) by (simp add: div_add_self1)
  next
    case False
    then have "place_quad2d mq mt n ts (Some u) = (False, ts @ [u])" using Cons.prems by (auto simp: place_quad2d_def Let_def)
    then show ?thesis using Cons.IH[of "ts @ [u]" "Suc n"] Cons.prems False by simp
  qed
qed

lemma flushes_distinct:
  assumes "distinct us" "1 \<le> mt" "mt \<le> mq"
  shows "flushes mq mt 0 [] (map Some us) = (length us - 1) div mt"
proof (cases us)
  case (Cons u vs)
  have "place_quad2d mq mt 0 [] (Some u) = (False, [u])" using assms(2,3) by (simp add: place_quad2d_def)
  then show ?thesis using flushes_distinct_from[of "[u]" 1 vs mt mq] assms Cons by simp
qed simp

lemma default_config_ok: "config_ok default_config2d"
  by (simp add: config_ok_def default_config2d_def sizeof_Vertex2D_def)

definition fresh2d :: "('f, 'p, 'u, 'c, 't, 'm) renderer2d" where
  "fresh2d = (Renderer2D default_config2d)\<lparr>vertexBuffers := replicate 10 \<lparr>vb_data = [], vb_mapped = False\<rparr>, index2d := batch_indices 10000\<rparr>"

lemma init2d_fresh: "init2d (Renderer2D default_config2d) = ret fresh2d" "idle2d fresh2d" "config fresh2d = default_config2d" "draws fresh2d = []"
proof -
  show "init2d (Renderer2D default_config2d) = ret fresh2d"
    unfolding init2d_def fresh2d_def Renderer2D_def by (simp add: default_config2d_def)
  show "idle2d fresh2d" using default_config_ok by (simp add: idle2d_def fresh2d_def Renderer2D_def) (simp add: default_config2d_def)
  show "config fresh2d = default_config2d" "draws fresh2d = []" by (simp_all add: fresh2d_def Renderer2D_def)
qed

lemma fresh2d_frame:
  fixes cs :: "('f, 'u, 'c, 't, 'm) command2d list" and g :: "('f, 'p, 'm, 'z) ops2d"
  shows "if flushes 10000 16 0 [] (map (\<lambda>c. quad_texture (cmd_quad c)) cs) < 10
    then \<exists>r' bs ds. renderScene2d g (fresh2d\<lparr>commands := cs\<rparr>) = ret r' \<and> idle2d r' \<and> draws r' = ds \<and>
      map fst (concat bs) = cs \<and> list_all2 (batch_drawn g) bs ds \<and> (\<forall>b\<in>set bs. b \<noteq> [] \<and> length b \<le> 10000)
    else renderScene2d g (fresh2d\<lparr>commands := cs\<rparr>) = fail BadIndex"
proof -
  let ?r = "fresh2d\<lparr>commands := cs\<rparr> :: ('f, 'p, 'u, 'c, 't, 'm) renderer2d"
  have idle: "idle2d ?r" using init2d_fresh(2) by (simp add: idle2d_def)
  have f: "maxQuads (config ?r) = 10000" "maxTextures (config ?r) = 16" "maxBatchDrawCalls (config ?r) = 10" "commands ?r = cs" "draws ?r = []"
    by (simp_all add: init2d_fresh(3,4)) (simp_all add: default_config2d_def)
  show ?thesis using renderScene2d_run[OF idle, of g] unfolding f append_Nil
    by (cases "flushes 10000 16 0 [] (map (\<lambda>c. quad_texture (cmd_quad c)) cs) < 10")
      (simp only: if_P if_True if_False, blast, simp only: if_False)
qed

text \<open>
  A new 2D renderer draws 160 sprites with textures of their own and no more: the next one makes it
  index past the ten vertex buffers.
\<close>

theorem distinct_textures_limit:
  assumes "distinct (map (\<lambda>c. quad_texture (cmd_quad c)) cs)" "\<forall>c\<in>set cs. quad_texture (cmd_quad c) \<noteq> None"
  shows "rbind (init2d (Renderer2D default_config2d)) (\<lambda>r. renderScene2d g (r\<lparr>commands := cs\<rparr>)) = fail BadIndex \<longleftrightarrow> 160 < length cs"
proof -
  let ?r = "fresh2d\<lparr>commands := cs\<rparr>"
  define us where "us = map (\<lambda>c. the (quad_texture (cmd_quad c))) cs"
  have us: "map Some us = map (\<lambda>c. quad_texture (cmd_quad c)) cs" using assms(2) by (simp add: us_def)
  have "distinct us" using assms(1) unfolding us[symmetric] by (simp add: distinct_map)
  then have n: "flushes 10000 16 0 [] (map (\<lambda>c. quad_texture (cmd_quad c)) cs) = (length cs - 1) div 16"
    using flushes_distinct[of us 16 10000] unfolding us by (simp add: us_def)
  have "if (length cs - 1) div 16 < 10 then \<exists>r'. renderScene2d g ?r = ret r' else renderScene2d g ?r = fail BadIndex"
    using fresh2d_frame[of cs g] unfolding n by (cases "(length cs - 1) div 16 < 10") auto
  then have "renderScene2d g ?r = fail BadIndex \<longleftrightarrow> \<not> (length cs - 1) div 16 < 10" by (auto split: if_splits)
  also have "\<dots> \<longleftrightarrow> 160 < length cs" by (simp add: not_less less_mult_imp_div_less) linarith
  finally show ?thesis by (simp add: init2d_fresh(1))
qed

lemma fold_submit2d:
  "fold (\<lambda>(q, m). submit2d (Some q) m) qs r = r\<lparr>commands := commands r @ map (\<lambda>(q, m). \<lparr>cmd_quad = q, cmd_transform = m\<rparr>) qs\<rparr>"
  by (induction qs arbitrary: r) (auto simp: submit2d_def)

lemma beginScene2d_commands:
  "commands (beginScene2d srt True sprites animated r) = srt (map (\<lambda>(q, m). \<lparr>cmd_quad = q, cmd_transform = m\<rparr>) (sprites @ animated))"
  "config (beginScene2d srt True sprites animated r) = config r" "draws (beginScene2d srt True sprites animated r) = draws r"
  "idle2d (beginScene2d srt True sprites animated r) = idle2d r"
  by (simp_all add: beginScene2d_def fold_submit2d Let_def idle2d_def)

text \<open>
  A frame of a scene with a camera, at most \<^verbatim>\<open>maxTextures\<close> textures and no more sprites than fit in all
  batches draws each sprite and animated sprite of the scene once, from the back to the front.
\<close>

theorem sprites_back_to_front:
  fixes g :: "('f, 'p, 'm, 'z::linorder) ops2d"
  assumes "idle2d r" and "\<And>xs. mset (srt xs) = mset xs" and "\<And>xs. sorted (map (\<lambda>c. depth g (cmd_transform c)) (srt xs))"
    and "card {t. \<exists>p\<in>set (sprites @ animated). quad_texture (fst p) = Some t} \<le> maxTextures (config r)"
    and "length (sprites @ animated) \<le> maxQuads (config r) * maxBatchDrawCalls (config r)"
  shows "\<exists>r' bs ds. renderScene2d g (beginScene2d srt True sprites animated r) = ret r' \<and> draws r' = draws r @ ds \<and>
    list_all2 (batch_drawn g) bs ds \<and>
    mset (map (\<lambda>p. (cmd_quad (fst p), cmd_transform (fst p))) (concat bs)) = mset (sprites @ animated) \<and>
    sorted (map (\<lambda>p. depth g (cmd_transform (fst p))) (concat bs))"
proof -
  let ?r = "beginScene2d srt True sprites animated r" and ?mq = "maxQuads (config r)" and ?mb = "maxBatchDrawCalls (config r)"
  let ?U = "{t. \<exists>p\<in>set (sprites @ animated). quad_texture (fst p) = Some t}"
  define cs where "cs = srt (map (\<lambda>(q, m). \<lparr>cmd_quad = q, cmd_transform = m\<rparr>) (sprites @ animated))"
  have ms: "mset cs = mset (map (\<lambda>(q, m). \<lparr>cmd_quad = q, cmd_transform = m\<rparr>) (sprites @ animated))" unfolding cs_def by (rule assms(2))
  have set: "set cs = (\<lambda>(q, m). \<lparr>cmd_quad = q, cmd_transform = m\<rparr>) ` set (sprites @ animated)"
    using arg_cong[OF ms, of set_mset] by (simp add: image_Un)
  have len: "length cs = length (sprites @ animated)" using arg_cong[OF ms, of size] by simp
  have cfg: "1 \<le> ?mq" "1 \<le> maxTextures (config r)" "0 < ?mb" using assms(1) by (simp_all add: idle2d_def config_ok_def)
  have fin: "finite ?U"
  proof (rule finite_subset)
    show "?U \<subseteq> (\<lambda>p. the (quad_texture (fst p))) ` set (sprites @ animated)" by force
  qed simp
  have "{t. Some t \<in> set (map (\<lambda>c. quad_texture (cmd_quad c)) cs)} \<subseteq> ?U" using set by force
  from flushes_few[OF fin assms(4) this cfg(1,2)]
  have "flushes ?mq (maxTextures (config r)) 0 [] (map (\<lambda>c. quad_texture (cmd_quad c)) cs) = (length cs - 1) div ?mq" by simp
  also have "\<dots> < ?mb"
  proof (rule less_mult_imp_div_less)
    have "0 < ?mb * ?mq" using cfg(1,3) by simp
    moreover have "length cs \<le> ?mb * ?mq" using assms(5) len by (simp only: mult.commute)
    ultimately show "length cs - 1 < ?mb * ?mq" by linarith
  qed
  finally have n: "flushes ?mq (maxTextures (config r)) 0 [] (map (\<lambda>c. quad_texture (cmd_quad c)) cs) < ?mb" .
  have idle: "idle2d ?r" using assms(1) by (simp add: beginScene2d_commands)
  obtain r' bs ds where r': "renderScene2d g ?r = ret r'" "draws r' = draws r @ ds" "map fst (concat bs) = cs" "list_all2 (batch_drawn g) bs ds"
    using renderScene2d_run[OF idle, of g] n unfolding beginScene2d_commands cs_def[symmetric] by auto
  have "mset (map (\<lambda>c. (cmd_quad c, cmd_transform c)) cs) = mset (sprites @ animated)"
    using arg_cong[OF ms, of "image_mset (\<lambda>c. (cmd_quad c, cmd_transform c))"] by (simp add: multiset.map_comp comp_def case_prod_beta)
  moreover have "sorted (map (\<lambda>c. depth g (cmd_transform c)) cs)" unfolding cs_def by (rule assms(3))
  ultimately show ?thesis using r' unfolding r'(3)[symmetric] by (auto simp: comp_def)
qed

text \<open>The indices of a batch stay within the vertices written for it: four for every six.\<close>

lemma batch_indices_take: "k \<le> n \<Longrightarrow> take (6 * k) (batch_indices n) = batch_indices k"
proof (induction n)
  case (Suc n)
  have step: "batch_indices (Suc n) = batch_indices n @ [4 * n, 4 * n + 1, 4 * n + 2, 4 * n + 2, 4 * n + 3, 4 * n]"
    by (simp add: batch_indices_def)
  have len: "length (batch_indices m) = 6 * m" for m by (induction m) (simp_all add: batch_indices_def)
  show ?case
  proof (cases "k \<le> n")
    case True
    then show ?thesis using Suc.IH by (simp add: step len)
  next
    case False
    then have "k = Suc n" using Suc.prems by simp
    then show ?thesis using len[of "Suc n"] by simp
  qed
qed (simp add: batch_indices_def)

lemma batch_indices_bound: "i \<in> set (batch_indices k) \<Longrightarrow> i < 4 * k"
  by (auto simp: batch_indices_def)

section \<open>Lines\<close>

definition MAX_LINES :: nat where "MAX_LINES = 10000"

definition MAX_LINE_VERTICES :: nat where "MAX_LINE_VERTICES = MAX_LINES * 2"

definition MAX_LINE_INDICES :: nat where "MAX_LINE_INDICES = MAX_LINES * 6"

definition sizeof_LineVertex :: nat where "sizeof_LineVertex = 28"

definition RENDERER_LINE_SIZE :: nat where "RENDERER_LINE_SIZE = sizeof_LineVertex * 4"

definition RENDERER_BUFFER_SIZE :: nat where "RENDERER_BUFFER_SIZE = RENDERER_LINE_SIZE * MAX_LINE_VERTICES"

record ('p, 'c) line =
  line_start :: "'p"
  line_end :: "'p"
  line_color :: "'c"

text \<open>A draw call is the buffer it reads and its number of indices.\<close>

record ('p, 'c) line_renderer =
  lines :: "('p, 'c) line list"
  lineIndexCount :: nat
  lineBatch :: nat
  lineBuffers :: "('p \<times> 'c) list list"
  lineIndices :: "nat list"
  linePointer :: "nat \<times> nat"
  lineDraws :: "(('p \<times> 'c) list \<times> nat) list"

definition init_lines :: "('p, 'c) line_renderer" where
  "init_lines = \<lparr>lines = [], lineIndexCount = 0, lineBatch = 0, lineBuffers = replicate 100 [],
     lineIndices = [0..<MAX_LINE_INDICES], linePointer = (0, 0), lineDraws = []\<rparr>"

definition submit_line :: "'p \<Rightarrow> 'p \<Rightarrow> 'c \<Rightarrow> ('p, 'c) line_renderer \<Rightarrow> ('p, 'c) line_renderer" where
  "submit_line p1 p2 col r = r\<lparr>lines := lines r @ [\<lparr>line_start = p1, line_end = p2, line_color = col\<rparr>]\<rparr>"

definition put_line_vertex :: "'p \<times> 'c \<Rightarrow> ('p, 'c) line_renderer \<Rightarrow> ('p, 'c) line_renderer run" where
  "put_line_vertex v r = (case linePointer r of (b, i) \<Rightarrow>
     if b < length (lineBuffers r) \<and> i < RENDERER_BUFFER_SIZE div sizeof_LineVertex
     then ret (r\<lparr>lineBuffers := (lineBuffers r)[b := take i (lineBuffers r ! b) @ [v] @ drop (i + 1) (lineBuffers r ! b)],
                 linePointer := (b, i + 1)\<rparr>)
     else fail BadIndex)"

definition submit_one_line :: "('p, 'c) line \<Rightarrow> ('p, 'c) line_renderer \<Rightarrow> ('p, 'c) line_renderer run" where
  "submit_one_line l r =
     rbind (put_line_vertex (line_start l, line_color l) r) (\<lambda>r.
     rbind (put_line_vertex (line_end l, line_color l) r) (\<lambda>r.
     ret (r\<lparr>lineIndexCount := lineIndexCount r + 2\<rparr>)))"

definition submitLines :: "('p, 'c) line_renderer \<Rightarrow> ('p, 'c) line_renderer run" where
  "submitLines r = rfold submit_one_line (lines r) r"

definition present_lines :: "('p, 'c) line_renderer \<Rightarrow> ('p, 'c) line_renderer run" where
  "present_lines r =
     (if lineBatch r < length (lineBuffers r)
      then ret (r\<lparr>lineDraws := lineDraws r @ [(lineBuffers r ! lineBatch r, lineIndexCount r)],
                  lineIndexCount := 0, lineBatch := lineBatch r + 1\<rparr>)
      else fail BadIndex)"

definition clear_lines :: "('p, 'c) line_renderer \<Rightarrow> ('p, 'c) line_renderer" where
  "clear_lines r = r\<lparr>lines := []\<rparr>"

text \<open>\<^verbatim>\<open>flush\<close> has no caller left.\<close>

definition flush_lines :: "('p, 'c) line_renderer \<Rightarrow> ('p, 'c) line_renderer run" where
  "flush_lines r = rbind (present_lines r) (\<lambda>r.
     if lineBatch r < length (lineBuffers r) then ret ((clear_lines r)\<lparr>linePointer := (lineBatch r, 0)\<rparr>) else fail BadIndex)"

definition end_lines :: "('p, 'c) line_renderer \<Rightarrow> ('p, 'c) line_renderer" where
  "end_lines r = r\<lparr>lineBatch := 0, lineIndexCount := 0, lines := []\<rparr>"

definition renderScene_lines :: "('p, 'c) line_renderer \<Rightarrow> ('p, 'c) line_renderer run" where
  "renderScene_lines r =
     (if lineBatch r < length (lineBuffers r)
      then rbind (submitLines (r\<lparr>linePointer := (lineBatch r, 0)\<rparr>)) (\<lambda>r. rbind (present_lines r) (\<lambda>r. ret (end_lines r)))
      else fail BadIndex)"

definition line_vertices :: "('p, 'c) line list \<Rightarrow> ('p \<times> 'c) list" where
  "line_vertices ls = concat (map (\<lambda>l. [(line_start l, line_color l), (line_end l, line_color l)]) ls)"

lemma length_line_vertices [simp]: "length (line_vertices ls) = 2 * length ls"
  by (induction ls) (auto simp: line_vertices_def)

lemma line_capacity: "RENDERER_BUFFER_SIZE div sizeof_LineVertex = 80000"
  by (simp add: RENDERER_BUFFER_SIZE_def RENDERER_LINE_SIZE_def sizeof_LineVertex_def MAX_LINE_VERTICES_def MAX_LINES_def)

lemma submit_lines_run:
  assumes "linePointer r = (b, 2 * n)" "b < length (lineBuffers r)" "lineIndexCount r = 2 * n" "2 * n \<le> length (lineBuffers r ! b)"
  shows "if n + length ls \<le> 40000
    then \<exists>r'. rfold submit_one_line ls r = ret r' \<and> lineIndexCount r' = 2 * (n + length ls) \<and> length (lineBuffers r') = length (lineBuffers r) \<and>
      take (2 * (n + length ls)) (lineBuffers r' ! b) = take (2 * n) (lineBuffers r ! b) @ line_vertices ls \<and>
      2 * (n + length ls) \<le> length (lineBuffers r' ! b) \<and> lineBatch r' = lineBatch r \<and> lineDraws r' = lineDraws r \<and> lineIndices r' = lineIndices r
    else n \<le> 40000 \<longrightarrow> rfold submit_one_line ls r = fail BadIndex"
  using assms
proof (induction ls arbitrary: r n)
  case (Cons l ls)
  let ?d = "lineBuffers r ! b"
  show ?case
  proof (cases "n < 40000")
    case False
    then show ?thesis using Cons.prems by (simp add: submit_one_line_def put_line_vertex_def line_capacity)
  next
    case True
    define d where "d = take (2 * n) ?d @ [(line_start l, line_color l), (line_end l, line_color l)] @ drop (2 * n + 2) ?d"
    define r1 where "r1 = r\<lparr>lineBuffers := (lineBuffers r)[b := d], linePointer := (b, 2 * (n + 1)), lineIndexCount := 2 * (n + 1)\<rparr>"
    have run: "submit_one_line l r = ret r1"
      using Cons.prems True by (simp add: submit_one_line_def put_line_vertex_def line_capacity r1_def d_def Suc_diff_le)
    have d: "2 * (n + 1) \<le> length d" "take (2 * (n + 1)) d = take (2 * n) ?d @ [(line_start l, line_color l), (line_end l, line_color l)]"
      using Cons.prems(4) by (simp_all add: d_def)
    have "lineBuffers r1 ! b = d" "b < length (lineBuffers r1)" using Cons.prems(2) by (simp_all add: r1_def)
    then show ?thesis using Cons.IH[of r1 "n + 1"] run d Cons.prems(2) True
      by (auto simp: r1_def line_vertices_def split: if_splits)
  qed
qed (auto simp: line_vertices_def)

text \<open>
  The line renderer puts all lines of a frame into one buffer. Up to 40000 lines it draws them in
  order; beyond 30000 the draw has more indices than the index buffer; beyond 40000 the vertices
  are written past the end of the buffer. The test that would start a new batch is commented out.
\<close>

theorem line_batch_limits:
  assumes "lineBatch r < length (lineBuffers r)" "lineIndexCount r = 0" "lineIndices r = [0..<MAX_LINE_INDICES]"
  shows "if length (lines r) \<le> 40000
    then \<exists>r' d. renderScene_lines r = ret r' \<and> lines r' = [] \<and> lineDraws r' = lineDraws r @ [(d, 2 * length (lines r))] \<and>
      take (2 * length (lines r)) d = line_vertices (lines r) \<and>
      (2 * length (lines r) \<le> length (lineIndices r') \<longleftrightarrow> length (lines r) \<le> 30000)
    else renderScene_lines r = fail BadIndex"
proof -
  let ?r = "r\<lparr>linePointer := (lineBatch r, 0)\<rparr>"
  have run: "renderScene_lines r = rbind (submitLines ?r) (\<lambda>r. rbind (present_lines r) (\<lambda>r. ret (end_lines r)))"
    using assms(1) by (simp add: renderScene_lines_def)
  note sub = submit_lines_run[of ?r "lineBatch r" 0 "lines r"]
  show ?thesis
  proof (cases "length (lines r) \<le> 40000")
    case False
    then show ?thesis using sub assms run by (simp add: submitLines_def)
  next
    case True
    obtain r1 where r1: "submitLines ?r = ret r1" "lineIndexCount r1 = 2 * length (lines r)" "length (lineBuffers r1) = length (lineBuffers r)"
      "take (2 * length (lines r)) (lineBuffers r1 ! lineBatch r) = line_vertices (lines r)" "lineBatch r1 = lineBatch r"
      "lineDraws r1 = lineDraws r" "lineIndices r1 = lineIndices r"
      using sub assms True by (auto simp: submitLines_def)
    then show ?thesis using True run assms
      by (simp add: present_lines_def end_lines_def MAX_LINE_INDICES_def MAX_LINES_def)
  qed
qed

section \<open>Examples\<close>

definition int_ops2d :: "(int, int \<times> int, int \<times> int, int) ops2d" where
  "int_ops2d = \<lparr>at_point = (\<lambda>(dx, dz) x y. (x + dx, y)), float_add = (+), float_of_u32 = int, depth = snd\<rparr>"

definition tile :: "nat \<Rightarrow> (int, nat, nat, nat) quad2d" where
  "tile t = \<lparr>offset = (0, 0), quad_w = 2, quad_h = 2, quad_color = 0, texCoords = [0, 1, 2, 3], quad_texture = Some t\<rparr>"

definition tile_command :: "nat \<Rightarrow> (int, nat, nat, nat, int \<times> int) command2d" where
  "tile_command t = \<lparr>cmd_quad = tile t, cmd_transform = (int t, 5 - int t)\<rparr>"

definition tiles2d :: "nat \<Rightarrow> (int, int \<times> int, nat, nat, nat, int \<times> int) renderer2d" where
  "tiles2d n = fresh2d\<lparr>commands := map tile_command [0..<n]\<rparr>"

lemma idle_fresh2d: "idle2d (fresh2d\<lparr>commands := cs\<rparr>)"
  using init2d_fresh(2) by (simp add: idle2d_def)

theorem renderScene2d_batches_witness:
  "if flushes (maxQuads (config (tiles2d 20))) (maxTextures (config (tiles2d 20))) 0 []
      (map (\<lambda>c. quad_texture (cmd_quad c)) (commands (tiles2d 20)))
      < maxBatchDrawCalls (config (tiles2d 20))
    then \<exists>r' bs ds. renderScene2d int_ops2d (tiles2d 20) = ret r' \<and> idle2d r' \<and>
      draws r' = draws (tiles2d 20) @ ds \<and>
      map fst (concat bs) = commands (tiles2d 20) \<and> list_all2 (batch_drawn int_ops2d) bs ds \<and>
      (\<forall>b\<in>set bs. b \<noteq> [] \<and> length b \<le> maxQuads (config (tiles2d 20))) \<and>
      (bs \<noteq> [] \<longrightarrow> (\<forall>(c, s)\<in>set (last bs). sampled (descriptorSet r') s = quad_texture (cmd_quad c)))
    else renderScene2d int_ops2d (tiles2d 20) = fail BadIndex"
  by (rule renderScene2d_batches) (simp add: tiles2d_def idle_fresh2d)

text \<open>
  Two batches in one frame: with two textures a batch and three sprites with a texture each, the
  first two are drawn with the slots 1 and 2, the third with slot 1 of the second batch. What the
  set holds in the end gives the first sprite the texture of the third.
\<close>

definition small_frame :: "nat \<Rightarrow> (int, int \<times> int, nat, nat, nat, int \<times> int) renderer2d run" where
  "small_frame n =
     rbind (init2d (Renderer2D \<lparr>maxQuads = 4, bufferSize = 640, indiciesSize = 24, maxTextures = 2, maxBatchDrawCalls = 10\<rparr>)) (\<lambda>r.
       renderScene2d int_ops2d (r\<lparr>commands := map tile_command [0..<n]\<rparr>))"

theorem earlier_batch_textures_lost:
  "case small_frame 3 of Some (Inr r) \<Rightarrow>
      length (draws r) = 2 \<and> snd (v2_uv (drawn_vertices (draws r ! 0) ! 0)) = 1 \<and>
      quad_texture (cmd_quad (commands r ! 0)) = Some 0 \<and> sampled (descriptorSet r) 1 = Some 2
    | _ \<Rightarrow> False"
  by code_simp

theorem distinct_textures_limit_witness:
  "rbind (init2d (Renderer2D default_config2d)) (\<lambda>r. renderScene2d int_ops2d (r\<lparr>commands := map tile_command [0..<161]\<rparr>)) = fail BadIndex"
  using distinct_textures_limit[of "map tile_command [0..<161]" int_ops2d]
  by (simp add: distinct_map inj_on_def comp_def tile_command_def tile_def)

theorem sprites_back_to_front_witness:
  "\<exists>r' bs ds. renderScene2d int_ops2d (beginScene2d (sort_key (\<lambda>c. depth int_ops2d (cmd_transform c))) True [(tile 1, (0, 3)), (tile 2, (1, 1))] [(tile 1, (2, 2))] (tiles2d 0)) = ret r' \<and>
    draws r' = draws (tiles2d 0) @ ds \<and> list_all2 (batch_drawn int_ops2d) bs ds \<and>
    mset (map (\<lambda>p. (cmd_quad (fst p), cmd_transform (fst p))) (concat bs)) = mset ([(tile 1, (0, 3)), (tile 2, (1, 1))] @ [(tile 1, (2, 2))]) \<and>
    sorted (map (\<lambda>p. depth int_ops2d (cmd_transform (fst p))) (concat bs))"
proof (rule sprites_back_to_front)
  show "idle2d (tiles2d 0)" unfolding tiles2d_def by (rule idle_fresh2d)
  show "sorted (map (\<lambda>c. depth int_ops2d (cmd_transform c)) (sort_key (\<lambda>c. depth int_ops2d (cmd_transform c)) xs))" for xs
    by (rule sorted_sort_key)
  have "{t. \<exists>p\<in>set ([(tile 1, (0::int, 3::int)), (tile 2, (1, 1))] @ [(tile 1, (2, 2))]). quad_texture (fst p) = Some t} = {1, 2}"
    by (auto simp: tile_def)
  then show "card {t. \<exists>p\<in>set ([(tile 1, (0::int, 3::int)), (tile 2, (1, 1))] @ [(tile 1, (2, 2))]). quad_texture (fst p) = Some t} \<le> maxTextures (config (tiles2d 0))"
    by (simp add: tiles2d_def init2d_fresh(3)) (simp add: default_config2d_def)
  show "length ([(tile 1, (0::int, 3::int)), (tile 2, (1, 1))] @ [(tile 1, (2, 2))]) \<le> maxQuads (config (tiles2d 0)) * maxBatchDrawCalls (config (tiles2d 0))"
    by (simp add: tiles2d_def init2d_fresh(3)) (simp add: default_config2d_def)
qed simp

theorem line_batch_limits_witness:
  "renderScene_lines (init_lines\<lparr>lines := replicate 40001 \<lparr>line_start = 0::nat, line_end = 1, line_color = 2::nat\<rparr>\<rparr>) = fail BadIndex"
  using line_batch_limits[of "init_lines\<lparr>lines := replicate 40001 \<lparr>line_start = 0::nat, line_end = 1, line_color = 2::nat\<rparr>\<rparr>"]
  by (simp add: init_lines_def)

end
