(* ===== verification/Vulkan_Images.thy ===== *)
theory Vulkan_Images
  imports Maple_Prelude
begin

text \<open>
  Layouts of images: the barriers of \<^verbatim>\<open>Engine/Vulkan/VulkanHelper.cpp\<close> and the commands that
  \<^verbatim>\<open>Engine/Vulkan/VulkanTexture.cpp\<close> records to load, update and mip-map a texture. A recorded
  command is a value; the effect of a command stream on the layouts and contents of the mip levels
  follows the documented rules of Vulkan and is the specification the streams are checked against.
\<close>

section \<open>Commands\<close>

datatype layout =
    L_UNDEFINED | L_PREINITIALIZED | L_COLOR_ATTACHMENT | L_DEPTH_STENCIL_ATTACHMENT
  | L_TRANSFER_SRC | L_TRANSFER_DST | L_SHADER_READ_ONLY | L_GENERAL | L_PRESENT_SRC

datatype access =
    A_HOST_WRITE | A_COLOR_WRITE | A_DEPTH_STENCIL_READ | A_DEPTH_STENCIL_WRITE
  | A_TRANSFER_READ | A_TRANSFER_WRITE | A_SHADER_READ

datatype stage = S_TOP_OF_PIPE | S_TRANSFER | S_FRAGMENT_SHADER | S_EARLY_FRAGMENT_TESTS | S_ALL_COMMANDS

datatype aspect = AS_COLOR | AS_DEPTH | AS_STENCIL

record barrier =
  oldLayout :: layout
  newLayout :: layout
  srcAccess :: "access set"
  dstAccess :: "access set"
  aspectMask :: "aspect set"
  baseMipLevel :: nat
  levelCount :: nat
  srcStage :: "stage set"
  dstStage :: "stage set"

datatype command =
    PipelineBarrier barrier
  | BlitImage nat "nat \<times> nat" nat "nat \<times> nat"
  | CopyBufferToImage nat "nat \<times> nat" "int \<times> int"

section \<open>Barriers\<close>

definition imageMemoryBarrier :: barrier where
  "imageMemoryBarrier = \<lparr>oldLayout = L_UNDEFINED, newLayout = L_UNDEFINED, srcAccess = {}, dstAccess = {},
     aspectMask = {}, baseMipLevel = 0, levelCount = 0, srcStage = {}, dstStage = {}\<rparr>"

definition src_access :: "layout \<Rightarrow> access set" where
  "src_access old = (case old of
     L_UNDEFINED \<Rightarrow> {}
   | L_PREINITIALIZED \<Rightarrow> {A_HOST_WRITE}
   | L_COLOR_ATTACHMENT \<Rightarrow> {A_COLOR_WRITE}
   | L_DEPTH_STENCIL_ATTACHMENT \<Rightarrow> {A_DEPTH_STENCIL_WRITE}
   | L_TRANSFER_SRC \<Rightarrow> {A_TRANSFER_READ}
   | L_TRANSFER_DST \<Rightarrow> {A_TRANSFER_WRITE}
   | L_SHADER_READ_ONLY \<Rightarrow> {A_SHADER_READ}
   | _ \<Rightarrow> {})"

definition with_dst_access :: "layout \<Rightarrow> barrier \<Rightarrow> barrier" where
  "with_dst_access new b = (case new of
     L_TRANSFER_DST \<Rightarrow> b\<lparr>dstAccess := {A_TRANSFER_WRITE}\<rparr>
   | L_TRANSFER_SRC \<Rightarrow> b\<lparr>dstAccess := {A_TRANSFER_READ}\<rparr>
   | L_COLOR_ATTACHMENT \<Rightarrow> b\<lparr>dstAccess := {A_COLOR_WRITE}\<rparr>
   | L_DEPTH_STENCIL_ATTACHMENT \<Rightarrow> b\<lparr>dstAccess := dstAccess b \<union> {A_DEPTH_STENCIL_WRITE}\<rparr>
   | L_SHADER_READ_ONLY \<Rightarrow>
       (if srcAccess b = {} then b\<lparr>srcAccess := {A_HOST_WRITE, A_TRANSFER_WRITE}\<rparr> else b)\<lparr>dstAccess := {A_SHADER_READ}\<rparr>
   | _ \<Rightarrow> b)"

definition setImageLayout :: "layout \<Rightarrow> layout \<Rightarrow> aspect set \<Rightarrow> nat \<Rightarrow> nat \<Rightarrow> stage set \<Rightarrow> stage set \<Rightarrow> command" where
  "setImageLayout old new aspects base levels srcStageMask dstStageMask =
     PipelineBarrier (with_dst_access new
       (imageMemoryBarrier\<lparr>oldLayout := old, newLayout := new, aspectMask := aspects, baseMipLevel := base, levelCount := levels,
          srcAccess := src_access old, srcStage := srcStageMask, dstStage := dstStageMask\<rparr>))"

text \<open>The overload for the first mip level and layer.\<close>

definition setImageLayout_first :: "aspect set \<Rightarrow> layout \<Rightarrow> layout \<Rightarrow> stage set \<Rightarrow> stage set \<Rightarrow> command" where
  "setImageLayout_first aspects old new srcStageMask dstStageMask = setImageLayout old new aspects 0 1 srcStageMask dstStageMask"

datatype depth_format = D32_SFLOAT_S8_UINT | D32_SFLOAT | D24_UNORM_S8_UINT | D16_UNORM_S8_UINT | D16_UNORM | COLOR_FORMAT

definition hasStencilComponent :: "depth_format \<Rightarrow> bool" where
  "hasStencilComponent f \<longleftrightarrow> f = D32_SFLOAT_S8_UINT \<or> f = D24_UNORM_S8_UINT"

text \<open>An unsupported transition is logged and leaves masks and stages empty.\<close>

definition transition_masks :: "layout \<Rightarrow> layout \<Rightarrow> access set \<times> access set \<times> stage set \<times> stage set" where
  "transition_masks old new =
     (if old = L_UNDEFINED \<and> new = L_TRANSFER_DST then ({}, {A_TRANSFER_WRITE}, {S_TOP_OF_PIPE}, {S_TRANSFER})
      else if old = L_TRANSFER_DST \<and> new = L_SHADER_READ_ONLY then ({A_TRANSFER_WRITE}, {A_SHADER_READ}, {S_TRANSFER}, {S_FRAGMENT_SHADER})
      else if old = L_UNDEFINED \<and> new = L_DEPTH_STENCIL_ATTACHMENT
      then ({}, {A_DEPTH_STENCIL_READ, A_DEPTH_STENCIL_WRITE}, {S_TOP_OF_PIPE}, {S_EARLY_FRAGMENT_TESTS})
      else ({}, {}, {}, {}))"

definition transitionImageLayout :: "depth_format \<Rightarrow> layout \<Rightarrow> layout \<Rightarrow> nat \<Rightarrow> command" where
  "transitionImageLayout format old new mipLevels =
     (case transition_masks old new of (src, dst, srcS, dstS) \<Rightarrow>
        PipelineBarrier \<lparr>oldLayout = old, newLayout = new, srcAccess = src, dstAccess = dst,
          aspectMask = (if new = L_DEPTH_STENCIL_ATTACHMENT
                        then {AS_DEPTH} \<union> (if hasStencilComponent format then {AS_STENCIL} else {}) else {AS_COLOR}),
          baseMipLevel = 0, levelCount = mipLevels, srcStage = srcS, dstStage = dstS\<rparr>)"

definition copyBufferToImage :: "nat \<Rightarrow> nat \<Rightarrow> int \<Rightarrow> int \<Rightarrow> command" where
  "copyBufferToImage width height offsetX offsetY = CopyBufferToImage 0 (width, height) (offsetX, offsetY)"

section \<open>Textures\<close>

definition mip_barrier :: "nat \<Rightarrow> layout \<Rightarrow> layout \<Rightarrow> access \<Rightarrow> access \<Rightarrow> stage \<Rightarrow> command" where
  "mip_barrier level old new src dst stage = PipelineBarrier \<lparr>oldLayout = old, newLayout = new, srcAccess = {src}, dstAccess = {dst},
     aspectMask = {AS_COLOR}, baseMipLevel = level, levelCount = 1, srcStage = {S_TRANSFER}, dstStage = {stage}\<rparr>"

text \<open>The rounds \<open>i, i + 1, \<dots>\<close> of the loop over the mip levels.\<close>

fun mip_loop :: "nat \<Rightarrow> nat \<Rightarrow> nat \<Rightarrow> nat \<Rightarrow> command list" where
  "mip_loop 0 i mipWidth mipHeight = []"
| "mip_loop (Suc k) i mipWidth mipHeight =
     [mip_barrier (i - 1) L_TRANSFER_DST L_TRANSFER_SRC A_TRANSFER_WRITE A_TRANSFER_READ S_TRANSFER,
      BlitImage (i - 1) (mipWidth, mipHeight) i (if mipWidth > 1 then mipWidth div 2 else 1, if mipHeight > 1 then mipHeight div 2 else 1),
      mip_barrier (i - 1) L_TRANSFER_SRC L_SHADER_READ_ONLY A_TRANSFER_READ A_SHADER_READ S_FRAGMENT_SHADER] @
     mip_loop k (i + 1) (if mipWidth > 1 then mipWidth div 2 else mipWidth) (if mipHeight > 1 then mipHeight div 2 else mipHeight)"

definition generateMipmaps :: "nat \<Rightarrow> nat \<Rightarrow> nat \<Rightarrow> command list" where
  "generateMipmaps texWidth texHeight mipLevels =
     mip_loop (mipLevels - 1) 1 texWidth texHeight @
     [mip_barrier (mipLevels - 1) L_TRANSFER_DST L_SHADER_READ_ONLY A_TRANSFER_WRITE A_SHADER_READ S_FRAGMENT_SHADER]"

text \<open>\<^verbatim>\<open>floor(log2(n)) + 1\<close> for positive \<open>n\<close>.\<close>

fun mip_count :: "nat \<Rightarrow> nat" where
  "mip_count n = (if n < 2 then 1 else mip_count (n div 2) + 1)"

declare mip_count.simps [simp del]

text \<open>\<open>load\<close> yields the number of mip levels and the recorded commands.\<close>

definition load_texture :: "nat \<Rightarrow> nat \<Rightarrow> bool \<Rightarrow> nat \<times> command list" where
  "load_texture width height genMips =
     (let mipLevels = (if genMips then mip_count (max width height) else 1)
      in (mipLevels,
          [transitionImageLayout COLOR_FORMAT L_UNDEFINED L_TRANSFER_DST mipLevels,
           copyBufferToImage width height 0 0,
           transitionImageLayout COLOR_FORMAT L_TRANSFER_DST L_SHADER_READ_ONLY mipLevels] @
          (if genMips then generateMipmaps width height mipLevels else [])))"

definition update_texture :: "nat \<Rightarrow> nat \<Rightarrow> nat \<Rightarrow> nat \<Rightarrow> nat \<Rightarrow> command list" where
  "update_texture mipLevels x y w h =
     [transitionImageLayout COLOR_FORMAT L_UNDEFINED L_TRANSFER_DST mipLevels,
      copyBufferToImage w h (int x) (int y),
      transitionImageLayout COLOR_FORMAT L_TRANSFER_DST L_SHADER_READ_ONLY mipLevels]"

definition depth_init :: "depth_format \<Rightarrow> command list" where
  "depth_init format = [transitionImageLayout format L_UNDEFINED L_DEPTH_STENCIL_ATTACHMENT 1]"

text \<open>The copy regions of \<^verbatim>\<open>loadKTX\<close>: level and extent, for one layer.\<close>

definition ktx_regions :: "nat \<Rightarrow> nat \<Rightarrow> nat \<Rightarrow> (nat \<times> nat \<times> nat) list" where
  "ktx_regions baseWidth baseHeight mipLevels =
     map (\<lambda>level. (level, drop_bit level baseWidth, drop_bit level baseHeight)) [0..<mipLevels]"

definition loadKTX :: "nat \<Rightarrow> nat \<Rightarrow> nat \<Rightarrow> command list" where
  "loadKTX baseWidth baseHeight mipLevels =
     [setImageLayout L_UNDEFINED L_TRANSFER_DST {AS_COLOR} 0 mipLevels {S_ALL_COMMANDS} {S_ALL_COMMANDS}] @
     map (\<lambda>(level, w, h). CopyBufferToImage level (w, h) (0, 0)) (ktx_regions baseWidth baseHeight mipLevels) @
     [setImageLayout L_TRANSFER_DST L_SHADER_READ_ONLY {AS_COLOR} 0 mipLevels {S_ALL_COMMANDS} {S_ALL_COMMANDS}]"

section \<open>Specification: the effect of a command stream\<close>

text \<open>
  The state of an image: for every mip level its layout and whether all its texels are defined. A
  command outside the rules has no result. A barrier needs stages on both sides, an old layout that is
  undefined (which discards the contents) or the current one, and a new layout that is not
  undefined; a blit needs its source and its destination in the transfer layouts; the copied or
  blitted regions are not empty and lie inside their level.
\<close>

record image =
  extent :: "nat \<times> nat"
  mips :: "(layout \<times> bool) list"

definition level_extent :: "image \<Rightarrow> nat \<Rightarrow> nat \<times> nat" where
  "level_extent im l = (max 1 (fst (extent im) div 2 ^ l), max 1 (snd (extent im) div 2 ^ l))"

definition barrier_ok :: "barrier \<Rightarrow> image \<Rightarrow> bool" where
  "barrier_ok b im \<longleftrightarrow> srcStage b \<noteq> {} \<and> dstStage b \<noteq> {} \<and> newLayout b \<noteq> L_UNDEFINED \<and> 0 < levelCount b \<and>
     baseMipLevel b + levelCount b \<le> length (mips im) \<and>
     list_all (\<lambda>i. oldLayout b = L_UNDEFINED \<or> fst (mips im ! i) = oldLayout b) [baseMipLevel b..<baseMipLevel b + levelCount b]"

fun perform :: "command \<Rightarrow> image \<Rightarrow> image option" where
  "perform (PipelineBarrier b) im =
     (if barrier_ok b im
      then Some (im\<lparr>mips := map (\<lambda>i. if baseMipLevel b \<le> i \<and> i < baseMipLevel b + levelCount b
             then (newLayout b, oldLayout b \<noteq> L_UNDEFINED \<and> snd (mips im ! i)) else mips im ! i) [0..<length (mips im)]\<rparr>)
      else None)"
| "perform (BlitImage s (sw, sh) d (dw, dh)) im =
     (if s < length (mips im) \<and> d < length (mips im) \<and> s \<noteq> d \<and> fst (mips im ! s) = L_TRANSFER_SRC \<and> fst (mips im ! d) = L_TRANSFER_DST \<and>
         0 < sw \<and> 0 < sh \<and> 0 < dw \<and> 0 < dh \<and> sw \<le> fst (level_extent im s) \<and> sh \<le> snd (level_extent im s) \<and>
         dw \<le> fst (level_extent im d) \<and> dh \<le> snd (level_extent im d)
      then Some (im\<lparr>mips := (mips im)[d := (L_TRANSFER_DST,
             snd (mips im ! s) \<and> (snd (mips im ! d) \<or> (dw, dh) = level_extent im d))]\<rparr>)
      else None)"
| "perform (CopyBufferToImage l (w, h) (x, y)) im =
     (if l < length (mips im) \<and> fst (mips im ! l) = L_TRANSFER_DST \<and> 0 < w \<and> 0 < h \<and> 0 \<le> x \<and> 0 \<le> y \<and>
         nat x + w \<le> fst (level_extent im l) \<and> nat y + h \<le> snd (level_extent im l)
      then Some (im\<lparr>mips := (mips im)[l := (L_TRANSFER_DST, snd (mips im ! l) \<or> (w, h) = level_extent im l)]\<rparr>)
      else None)"

definition perform_all :: "command list \<Rightarrow> image \<Rightarrow> image option" where
  "perform_all = ofold perform"

definition new_image :: "nat \<Rightarrow> nat \<Rightarrow> nat \<Rightarrow> image" where
  "new_image w h levels = \<lparr>extent = (w, h), mips = replicate levels (L_UNDEFINED, False)\<rparr>"

section \<open>Mip maps\<close>

lemma half_extent:
  fixes w :: nat
  assumes "m = max 1 (w div 2 ^ j)"
  shows "(if 1 < m then m div 2 else 1) = max 1 (w div 2 ^ Suc j)" "(if 1 < m then m div 2 else m) = max 1 (w div 2 ^ Suc j)"
proof -
  have "w div 2 ^ Suc j = w div 2 ^ j div 2" by (simp only: power_Suc2 div_mult2_eq)
  then show "(if 1 < m then m div 2 else 1) = max 1 (w div 2 ^ Suc j)" "(if 1 < m then m div 2 else m) = max 1 (w div 2 ^ Suc j)"
    using assms by (auto simp: max_def)
qed

text \<open>Levels below \<open>j\<close> are finished, level \<open>j\<close> is filled, the others wait for their blit.\<close>

definition mip_state :: "nat \<Rightarrow> nat \<Rightarrow> nat \<Rightarrow> nat \<Rightarrow> image" where
  "mip_state w h n j = \<lparr>extent = (w, h),
     mips = map (\<lambda>i. if i < j then (L_SHADER_READ_ONLY, True) else (L_TRANSFER_DST, i = j)) [0..<n]\<rparr>"

lemma barrier_one:
  assumes "l < length (mips im)" "fst (mips im ! l) = old" "old \<noteq> L_UNDEFINED" "new \<noteq> L_UNDEFINED"
  shows "perform (mip_barrier l old new a b s) im = Some (im\<lparr>mips := (mips im)[l := (new, snd (mips im ! l))]\<rparr>)"
proof -
  have "map (\<lambda>i. if l \<le> i \<and> i < l + 1 then (new, snd (mips im ! i)) else mips im ! i) [0..<length (mips im)] =
      (mips im)[l := (new, snd (mips im ! l))]"
    using assms(1) by (intro nth_equalityI) (auto simp: nth_list_update)
  then show ?thesis using assms by (simp add: mip_barrier_def barrier_ok_def cong: if_cong)
qed

lemma mip_state_nth: "i < n \<Longrightarrow> mips (mip_state w h n j) ! i = (if i < j then (L_SHADER_READ_ONLY, True) else (L_TRANSFER_DST, i = j))"
  by (simp add: mip_state_def)

lemma mip_state_length [simp]: "length (mips (mip_state w h n j)) = n" "level_extent (mip_state w h n j) l = (max 1 (w div 2 ^ l), max 1 (h div 2 ^ l))"
  by (simp_all add: mip_state_def level_extent_def)

lemma mip_round:
  assumes "Suc j < n" "mw = max 1 (w div 2 ^ j)" "mh = max 1 (h div 2 ^ j)"
  shows "perform_all (mip_loop (Suc k) (Suc j) mw mh) (mip_state w h n j) =
    perform_all (mip_loop k (Suc (Suc j)) (max 1 (w div 2 ^ Suc j)) (max 1 (h div 2 ^ Suc j))) (mip_state w h n (Suc j))"
proof -
  let ?s = "mip_state w h n j"
  define s1 where "s1 = ?s\<lparr>mips := (mips ?s)[j := (L_TRANSFER_SRC, True)]\<rparr>"
  define s2 where "s2 = s1\<lparr>mips := (mips s1)[Suc j := (L_TRANSFER_DST, True)]\<rparr>"
  have j: "j < n" "mips ?s ! j = (L_TRANSFER_DST, True)" "mips ?s ! Suc j = (L_TRANSFER_DST, False)"
    using assms(1) by (simp_all add: mip_state_nth)
  have ext: "level_extent s1 l = (max 1 (w div 2 ^ l), max 1 (h div 2 ^ l))" for l by (simp add: s1_def mip_state_def level_extent_def)
  have s1: "length (mips s1) = n" "mips s1 ! j = (L_TRANSFER_SRC, True)" "mips s1 ! Suc j = (L_TRANSFER_DST, False)"
    using assms(1) j by (simp_all add: s1_def)
  have b1: "perform (mip_barrier j L_TRANSFER_DST L_TRANSFER_SRC A_TRANSFER_WRITE A_TRANSFER_READ S_TRANSFER) ?s = Some s1"
    using barrier_one[of j ?s L_TRANSFER_DST L_TRANSFER_SRC A_TRANSFER_WRITE A_TRANSFER_READ S_TRANSFER] j by (simp add: s1_def)
  have b2: "perform (BlitImage j (mw, mh) (Suc j) (max 1 (w div 2 ^ Suc j), max 1 (h div 2 ^ Suc j))) s1 = Some s2"
    using s1 assms by (simp add: ext s2_def)
  have "mips s2 ! j = (L_TRANSFER_SRC, True)" "length (mips s2) = n" using s1 by (simp_all add: s2_def)
  then have "perform (mip_barrier j L_TRANSFER_SRC L_SHADER_READ_ONLY A_TRANSFER_READ A_SHADER_READ S_FRAGMENT_SHADER) s2 =
      Some (s2\<lparr>mips := (mips s2)[j := (L_SHADER_READ_ONLY, True)]\<rparr>)"
    using barrier_one[of j s2 L_TRANSFER_SRC L_SHADER_READ_ONLY A_TRANSFER_READ A_SHADER_READ S_FRAGMENT_SHADER] j(1) by simp
  moreover have "s2\<lparr>mips := (mips s2)[j := (L_SHADER_READ_ONLY, True)]\<rparr> = mip_state w h n (Suc j)"
  proof -
    have "(mips s2)[j := (L_SHADER_READ_ONLY, True)] = mips (mip_state w h n (Suc j))"
      by (rule nth_equalityI) (auto simp: s2_def s1_def mip_state_nth nth_list_update less_Suc_eq)
    then show ?thesis by (simp add: s2_def s1_def mip_state_def)
  qed
  ultimately show ?thesis
    using b1 b2 half_extent[OF assms(2)] half_extent[OF assms(3)] by (simp add: perform_all_def)
qed

lemma mip_rounds:
  assumes "j + k < n" "mw = max 1 (w div 2 ^ j)" "mh = max 1 (h div 2 ^ j)"
  shows "perform_all (mip_loop k (Suc j) mw mh) (mip_state w h n j) = Some (mip_state w h n (j + k))"
  using assms
proof (induction k arbitrary: j mw mh)
  case (Suc k)
  then have "Suc j < n" by simp
  then show ?case using mip_round[OF _ Suc.prems(2,3)] Suc.IH[of "Suc j"] Suc.prems(1) by simp
qed (simp add: perform_all_def)

lemma perform_all_append: "perform_all (cs @ ds) im = Option.bind (perform_all cs im) (perform_all ds)"
  by (simp add: perform_all_def ofold_append)

text \<open>
  C18: On an image whose levels are all in the layout of a transfer destination and whose first level is
  filled, the commands of \<^verbatim>\<open>generateMipmaps\<close> follow the rules and leave every level filled and
  readable by shaders.
\<close>

theorem generateMipmaps_fills_levels:
  assumes "0 < w" "0 < h" "0 < n"
  shows "perform_all (generateMipmaps w h n) \<lparr>extent = (w, h), mips = (L_TRANSFER_DST, True) # replicate (n - 1) (L_TRANSFER_DST, False)\<rparr> =
    Some \<lparr>extent = (w, h), mips = replicate n (L_SHADER_READ_ONLY, True)\<rparr>"
proof -
  have start: "\<lparr>extent = (w, h), mips = (L_TRANSFER_DST, True) # replicate (n - 1) (L_TRANSFER_DST, False)\<rparr> = mip_state w h n 0"
    using assms(3) by (auto simp: mip_state_def nth_Cons' intro!: nth_equalityI)
  have "w = max 1 (w div 2 ^ 0)" "h = max 1 (h div 2 ^ 0)" using assms by simp_all
  from mip_rounds[of 0 "n - 1" n, OF _ this] have r: "perform_all (mip_loop (n - 1) (Suc 0) w h) (mip_state w h n 0) = Some (mip_state w h n (n - 1))"
    using assms(3) by simp
  let ?s = "mip_state w h n (n - 1)"
  have "n - 1 < n" using assms(3) by simp
  then have "perform (mip_barrier (n - 1) L_TRANSFER_DST L_SHADER_READ_ONLY A_TRANSFER_WRITE A_SHADER_READ S_FRAGMENT_SHADER) ?s =
      Some (?s\<lparr>mips := (mips ?s)[n - 1 := (L_SHADER_READ_ONLY, True)]\<rparr>)"
    using barrier_one[of "n - 1" ?s L_TRANSFER_DST L_SHADER_READ_ONLY A_TRANSFER_WRITE A_SHADER_READ S_FRAGMENT_SHADER] by (simp add: mip_state_nth)
  moreover have "?s\<lparr>mips := (mips ?s)[n - 1 := (L_SHADER_READ_ONLY, True)]\<rparr> = \<lparr>extent = (w, h), mips = replicate n (L_SHADER_READ_ONLY, True)\<rparr>"
  proof -
    have "(mips ?s)[n - 1 := (L_SHADER_READ_ONLY, True)] = replicate n (L_SHADER_READ_ONLY, True)"
      by (rule nth_equalityI) (auto simp: mip_state_nth nth_list_update)
    then show ?thesis by (simp add: mip_state_def)
  qed
  ultimately show ?thesis using r by (simp add: start[unfolded One_nat_def] generateMipmaps_def perform_all_append) (simp add: perform_all_def)
qed

lemma transition_all:
  assumes "transition_masks old new \<noteq> ({}, {}, {}, {})" "0 < n" "length (mips im) = n" "\<forall>i<n. old = L_UNDEFINED \<or> fst (mips im ! i) = old"
  shows "perform (transitionImageLayout f old new n) im =
    Some (im\<lparr>mips := map (\<lambda>i. (new, old \<noteq> L_UNDEFINED \<and> snd (mips im ! i))) [0..<n]\<rparr>)"
proof -
  have "\<exists>src dst srcS dstS. transition_masks old new = (src, dst, srcS, dstS) \<and> srcS \<noteq> {} \<and> dstS \<noteq> {} \<and> new \<noteq> L_UNDEFINED"
    using assms(1) by (auto simp: transition_masks_def split: if_splits)
  then obtain src dst srcS dstS where m: "transition_masks old new = (src, dst, srcS, dstS)" "srcS \<noteq> {}" "dstS \<noteq> {}" "new \<noteq> L_UNDEFINED" by blast
  have "list_all (\<lambda>i. old = L_UNDEFINED \<or> fst (mips im ! i) = old) [0..<n]" using assms(4) by (simp add: list_all_iff)
  moreover have "map (\<lambda>i. if i < n then (new, old \<noteq> L_UNDEFINED \<and> snd (mips im ! i)) else mips im ! i) [0..<n] =
      map (\<lambda>i. (new, old \<noteq> L_UNDEFINED \<and> snd (mips im ! i))) [0..<n]" by simp
  ultimately show ?thesis using m assms(2,3) by (simp add: transitionImageLayout_def barrier_ok_def cong: if_cong)
qed

lemma load_prefix:
  assumes "0 < w" "0 < h" "0 < n"
  shows "perform_all [transitionImageLayout COLOR_FORMAT L_UNDEFINED L_TRANSFER_DST n, copyBufferToImage w h 0 0,
      transitionImageLayout COLOR_FORMAT L_TRANSFER_DST L_SHADER_READ_ONLY n] (new_image w h n) =
    Some \<lparr>extent = (w, h), mips = (L_SHADER_READ_ONLY, True) # replicate (n - 1) (L_SHADER_READ_ONLY, False)\<rparr>"
proof -
  define s1 where "s1 = \<lparr>extent = (w, h), mips = replicate n (L_TRANSFER_DST, False)\<rparr>"
  define s2 where "s2 = \<lparr>extent = (w, h), mips = (L_TRANSFER_DST, True) # replicate (n - 1) (L_TRANSFER_DST, False)\<rparr>"
  have t: "transition_masks L_UNDEFINED L_TRANSFER_DST \<noteq> ({}, {}, {}, {})" "transition_masks L_TRANSFER_DST L_SHADER_READ_ONLY \<noteq> ({}, {}, {}, {})"
    by (simp_all add: transition_masks_def)
  have "perform (transitionImageLayout COLOR_FORMAT L_UNDEFINED L_TRANSFER_DST n) (new_image w h n) = Some s1"
    using transition_all[OF t(1) assms(3), of "new_image w h n"] by (simp add: new_image_def s1_def map_replicate_const)
  moreover have "perform (copyBufferToImage w h 0 0) s1 = Some s2"
  proof -
    have "(replicate n (L_TRANSFER_DST, False))[0 := (L_TRANSFER_DST, True)] = (L_TRANSFER_DST, True) # replicate (n - 1) (L_TRANSFER_DST, False)"
      using assms(3) by (cases n) simp_all
    then show ?thesis using assms by (simp add: copyBufferToImage_def s1_def s2_def level_extent_def)
  qed
  moreover have "perform (transitionImageLayout COLOR_FORMAT L_TRANSFER_DST L_SHADER_READ_ONLY n) s2 =
      Some \<lparr>extent = (w, h), mips = (L_SHADER_READ_ONLY, True) # replicate (n - 1) (L_SHADER_READ_ONLY, False)\<rparr>"
  proof -
    have "map (\<lambda>i. (L_SHADER_READ_ONLY, snd (mips s2 ! i))) [0..<n] = (L_SHADER_READ_ONLY, True) # replicate (n - 1) (L_SHADER_READ_ONLY, False)"
      using assms(3) by (intro nth_equalityI) (auto simp: s2_def nth_Cons')
    moreover have "length (mips s2) = n" "\<forall>i<n. fst (mips s2 ! i) = L_TRANSFER_DST" using assms(3) by (simp_all add: s2_def nth_Cons')
    ultimately show ?thesis using transition_all[OF t(2) assms(3), of s2] by (simp add: s2_def)
  qed
  ultimately show ?thesis by (simp add: perform_all_def)
qed

text \<open>
  \<^verbatim>\<open>load\<close> makes the image readable by shaders before it generates the mip maps: the first barrier of
  \<^verbatim>\<open>generateMipmaps\<close> then names a layout the image is not in. Without mip maps the loaded image is
  filled and readable.
\<close>

theorem load_texture_layouts:
  assumes "0 < w" "0 < h"
  shows "perform_all (snd (load_texture w h False)) (new_image w h (fst (load_texture w h False))) =
      Some \<lparr>extent = (w, h), mips = [(L_SHADER_READ_ONLY, True)]\<rparr> \<and>
    perform_all (snd (load_texture w h True)) (new_image w h (fst (load_texture w h True))) = None"
proof
  show "perform_all (snd (load_texture w h False)) (new_image w h (fst (load_texture w h False))) =
      Some \<lparr>extent = (w, h), mips = [(L_SHADER_READ_ONLY, True)]\<rparr>"
    using load_prefix[OF assms, of 1] by (simp add: load_texture_def)
  define n where "n = mip_count (max w h)"
  have n: "0 < n" by (simp add: n_def mip_count.simps[of "max w h"])
  let ?s = "\<lparr>extent = (w, h), mips = (L_SHADER_READ_ONLY, True) # replicate (n - 1) (L_SHADER_READ_ONLY, False)\<rparr>"
  have "perform_all (generateMipmaps w h n) ?s = None"
    by (cases "n - 1") (simp_all add: generateMipmaps_def perform_all_def mip_barrier_def barrier_ok_def)
  moreover have "snd (load_texture w h True) = [transitionImageLayout COLOR_FORMAT L_UNDEFINED L_TRANSFER_DST n, copyBufferToImage w h 0 0,
      transitionImageLayout COLOR_FORMAT L_TRANSFER_DST L_SHADER_READ_ONLY n] @ generateMipmaps w h n" "fst (load_texture w h True) = n"
    by (simp_all add: load_texture_def n_def Let_def)
  ultimately show "perform_all (snd (load_texture w h True)) (new_image w h (fst (load_texture w h True))) = None"
    using load_prefix[OF assms n] by (simp only: perform_all_append bind.bind_lunit)
qed

theorem load_texture_layouts_witness:
  "perform_all (snd (load_texture 4 2 False)) (new_image 4 2 (fst (load_texture 4 2 False))) =
      Some \<lparr>extent = (4, 2), mips = [(L_SHADER_READ_ONLY, True)]\<rparr> \<and>
    perform_all (snd (load_texture 4 2 True)) (new_image 4 2 (fst (load_texture 4 2 True))) = None"
  by (rule load_texture_layouts) simp_all

theorem generateMipmaps_fills_levels_witness:
  "perform_all (generateMipmaps 8 2 4) \<lparr>extent = (8, 2), mips = (L_TRANSFER_DST, True) # replicate (4 - 1) (L_TRANSFER_DST, False)\<rparr> =
    Some \<lparr>extent = (8, 2), mips = replicate 4 (L_SHADER_READ_ONLY, True)\<rparr>"
  by (rule generateMipmaps_fills_levels) simp_all

text \<open>
  An update of a part of a texture, such as a new sprite in an atlas, declares the old layout
  undefined: the commands follow the rules, and the contents of the rest of the image are
  undefined afterwards.
\<close>

theorem update_texture_discards:
  assumes "0 < w" "0 < h" "x + w \<le> W" "y + h \<le> H" "0 < n" "length (mips im) = n" "extent im = (W, H)"
  shows "\<exists>im'. perform_all (update_texture n x y w h) im = Some im' \<and> length (mips im') = n \<and>
    (\<forall>i<n. fst (mips im' ! i) = L_SHADER_READ_ONLY \<and> (snd (mips im' ! i) \<longleftrightarrow> i = 0 \<and> w = W \<and> h = H))"
proof -
  define s1 where "s1 = im\<lparr>mips := replicate n (L_TRANSFER_DST, False)\<rparr>"
  define s2 where "s2 = im\<lparr>mips := (replicate n (L_TRANSFER_DST, False))[0 := (L_TRANSFER_DST, (w, h) = (W, H))]\<rparr>"
  have t: "transition_masks L_UNDEFINED L_TRANSFER_DST \<noteq> ({}, {}, {}, {})" "transition_masks L_TRANSFER_DST L_SHADER_READ_ONLY \<noteq> ({}, {}, {}, {})"
    by (simp_all add: transition_masks_def)
  have WH: "0 < W" "0 < H" using assms(1-4) by simp_all
  have "perform (transitionImageLayout COLOR_FORMAT L_UNDEFINED L_TRANSFER_DST n) im = Some s1"
    using transition_all[OF t(1) assms(5,6)] by (simp add: s1_def map_replicate_const)
  moreover have "perform (copyBufferToImage w h (int x) (int y)) s1 = Some s2"
    using assms WH by (simp add: copyBufferToImage_def s1_def s2_def level_extent_def)
  moreover have "perform (transitionImageLayout COLOR_FORMAT L_TRANSFER_DST L_SHADER_READ_ONLY n) s2 =
      Some (s2\<lparr>mips := map (\<lambda>i. (L_SHADER_READ_ONLY, snd (mips s2 ! i))) [0..<n]\<rparr>)"
    using transition_all[OF t(2) assms(5), of s2] by (simp add: s2_def nth_list_update)
  ultimately have "perform_all (update_texture n x y w h) im = Some (s2\<lparr>mips := map (\<lambda>i. (L_SHADER_READ_ONLY, snd (mips s2 ! i))) [0..<n]\<rparr>)"
    by (simp add: perform_all_def update_texture_def)
  then show ?thesis by (simp add: s2_def nth_list_update)
qed

theorem update_texture_discards_witness:
  "\<exists>im'. perform_all (update_texture 1 2 0 2 2) \<lparr>extent = (4, 4), mips = [(L_SHADER_READ_ONLY, True)]\<rparr> = Some im' \<and> length (mips im') = 1 \<and>
    (\<forall>i<1. fst (mips im' ! i) = L_SHADER_READ_ONLY \<and> (snd (mips im' ! i) \<longleftrightarrow> i = 0 \<and> 2 = (4::nat) \<and> 2 = (4::nat)))"
  by (rule update_texture_discards) simp_all

text \<open>
  The last mip level has a side of one texel at most and none after it is needed.
\<close>

lemma mip_count_covers: "0 < n \<Longrightarrow> n div 2 ^ (mip_count n - 1) = 1"
proof (induction n rule: mip_count.induct)
  case (1 n)
  show ?case
  proof (cases "n < 2")
    case True
    then show ?thesis using "1.prems" by (simp add: mip_count.simps[of n])
  next
    case False
    have c: "0 < mip_count (n div 2)" by (simp add: mip_count.simps[of "n div 2"])
    then have "n div 2 ^ (mip_count n - 1) = n div 2 div 2 ^ (mip_count (n div 2) - 1)"
      using False by (simp add: mip_count.simps[of n] div_mult2_eq[symmetric] power_Suc[symmetric] del: power_Suc)
    then show ?thesis using "1.IH" False by simp
  qed
qed

text \<open>
  The two ways to change a layout agree on colour images: for the transitions that
  \<^verbatim>\<open>transitionImageLayout\<close> supports they have the same access masks, except that it also waits for
  reads of a depth attachment.
\<close>

theorem layout_changes_agree:
  assumes "transition_masks old new \<noteq> ({}, {}, {}, {})"
  shows "\<exists>b c. transitionImageLayout f old new n = PipelineBarrier b \<and> setImageLayout old new a 0 n s s' = PipelineBarrier c \<and>
    oldLayout b = oldLayout c \<and> newLayout b = newLayout c \<and> srcAccess b = srcAccess c \<and>
    dstAccess b = dstAccess c \<union> (if new = L_DEPTH_STENCIL_ATTACHMENT then {A_DEPTH_STENCIL_READ} else {}) \<and>
    baseMipLevel b = baseMipLevel c \<and> levelCount b = levelCount c"
  using assms
  by (auto simp: transition_masks_def transitionImageLayout_def setImageLayout_def with_dst_access_def src_access_def imageMemoryBarrier_def
      split: if_splits)

theorem layout_changes_agree_witness:
  "\<exists>b c. transitionImageLayout D32_SFLOAT L_UNDEFINED L_DEPTH_STENCIL_ATTACHMENT 1 = PipelineBarrier b \<and>
    setImageLayout L_UNDEFINED L_DEPTH_STENCIL_ATTACHMENT {AS_DEPTH} 0 1 {S_ALL_COMMANDS} {S_ALL_COMMANDS} = PipelineBarrier c \<and>
    oldLayout b = oldLayout c \<and> newLayout b = newLayout c \<and> srcAccess b = srcAccess c \<and>
    dstAccess b = dstAccess c \<union> (if L_DEPTH_STENCIL_ATTACHMENT = L_DEPTH_STENCIL_ATTACHMENT then {A_DEPTH_STENCIL_READ} else {}) \<and>
    baseMipLevel b = baseMipLevel c \<and> levelCount b = levelCount c"
  by (rule layout_changes_agree) (simp add: transition_masks_def)

text \<open>On a texture that is not square, the smaller mip levels of \<^verbatim>\<open>loadKTX\<close> have an empty extent.\<close>

lemma ktx_empty_extent:
  assumes "w < 2 ^ l" "l < n"
  shows "(l, 0, drop_bit l h) \<in> set (ktx_regions w h n)"
  using assms by (force simp: ktx_regions_def drop_bit_eq_div)

end
