(* ===== verification/Input_State.thy ===== *)
theory Input_State
  imports Events
begin

text \<open>
  Input devices: the native callbacks of \<^verbatim>\<open>Window/WindowWin.cpp\<close>, the key and mouse state of
  \<^verbatim>\<open>Devices/Input.cpp\<close>, the tables of \<^verbatim>\<open>Devices/KeyCodes.h\<close> and \<^verbatim>\<open>Devices/InputExport.cpp\<close>, and the
  order in which a frame of \<^verbatim>\<open>Application.cpp\<close> resets, reads and updates the state. Coordinates
  are of a type \<open>'f\<close>, those GLFW delivers of a type \<open>'d\<close> with the conversion \<open>narrow\<close>. A flag
  outside its array is the fault \<^term>\<open>BadIndex\<close>.
\<close>

section \<open>Native callbacks\<close>

text \<open>What GLFW reports while it polls: the arguments of the registered callbacks.\<close>

datatype 'd native =
  WindowSize int int
| MouseButton int int 'd 'd
| CursorPos 'd 'd
| Scroll 'd 'd 'd 'd
| Chars int
| Key int int

definition GLFW_RELEASE :: int where "GLFW_RELEASE = 0"
definition GLFW_PRESS :: int where "GLFW_PRESS = 1"
definition GLFW_REPEAT :: int where "GLFW_REPEAT = 2"

definition to_u16 :: "int \<Rightarrow> int" where
  "to_u16 x = x mod 65536"

lemma to_u16_id [simp]: "0 \<le> x \<Longrightarrow> x < 65536 \<Longrightarrow> to_u16 x = x"
  by (simp add: to_u16_def)

lemma to_u16_nonneg [simp]: "0 \<le> to_u16 x"
  by (simp add: to_u16_def)

text \<open>The engine's number of a GLFW button: left 0, right 1 and middle 2 in GLFW.\<close>

definition button_of :: "int \<Rightarrow> int" where
  "button_of btnId = (if btnId = 0 then 0 else if btnId = 2 then 1 else if btnId = 1 then 2 else - 1)"

fun native_callback :: "('d \<Rightarrow> 'f) \<Rightarrow> 'd native \<Rightarrow> 'f event option" where
  "native_callback narrow (WindowSize w h) = Some (WindowResizeEvent w h)"
| "native_callback narrow (MouseButton btnId state x y) =
     (if state = GLFW_PRESS \<or> state = GLFW_REPEAT
      then Some (MouseClickEvent (button_of btnId) (narrow x) (narrow y))
      else if state = GLFW_RELEASE
      then Some (MouseReleaseEvent (button_of btnId) (narrow x) (narrow y)) else None)"
| "native_callback narrow (CursorPos x y) = Some (MouseMoveEvent (narrow x) (narrow y))"
| "native_callback narrow (Scroll xOffset yOffset x y) =
     Some (MouseScrolledEvent (narrow xOffset) (narrow yOffset) (narrow x) (narrow y))"
| "native_callback narrow (Chars keycode) =
     Some (CharInputEvent (to_u16 keycode) (char_of (nat (keycode mod 256))))"
| "native_callback narrow (Key key action) =
     (if action = GLFW_PRESS then Some (KeyPressedEvent (to_u16 key) 0)
      else if action = GLFW_RELEASE then Some (KeyReleasedEvent (to_u16 key))
      else if action = GLFW_REPEAT then Some (KeyPressedEvent (to_u16 key) 1) else None)"

section \<open>The state of the devices\<close>

definition MAX_KEYS :: nat where "MAX_KEYS = 1024"
definition MAX_BUTTONS :: nat where "MAX_BUTTONS = 32"

record 'f input =
  keyPressed :: "bool list"
  keyHeld :: "bool list"
  mouseHeld :: "bool list"
  mouseClicked :: "bool list"
  scrollOffset :: 'f
  mouseOnScreen :: bool
  windowFocus :: bool
  mousePosition :: "'f \<times> 'f"

definition get_flag :: "bool list \<Rightarrow> int \<Rightarrow> bool run" where
  "get_flag xs k = (if 0 \<le> k \<and> k < int (length xs) then ret (xs ! nat k) else fail BadIndex)"

definition put_flag :: "bool list \<Rightarrow> int \<Rightarrow> bool \<Rightarrow> bool list run" where
  "put_flag xs k a = (if 0 \<le> k \<and> k < int (length xs) then ret (xs[nat k := a]) else fail BadIndex)"

definition isKeyPressed :: "int \<Rightarrow> 'f input \<Rightarrow> bool run" where
  "isKeyPressed key i = get_flag (keyPressed i) key"

definition isKeyHeld :: "int \<Rightarrow> 'f input \<Rightarrow> bool run" where
  "isKeyHeld key i = get_flag (keyHeld i) key"

definition isMouseClicked :: "int \<Rightarrow> 'f input \<Rightarrow> bool run" where
  "isMouseClicked key i = get_flag (mouseClicked i) key"

definition isMouseHeld :: "int \<Rightarrow> 'f input \<Rightarrow> bool run" where
  "isMouseHeld key i = get_flag (mouseHeld i) key"

definition setKeyPressed :: "int \<Rightarrow> bool \<Rightarrow> 'f input \<Rightarrow> 'f input run" where
  "setKeyPressed key a i = rbind (put_flag (keyPressed i) key a) (\<lambda>xs. ret (i\<lparr>keyPressed := xs\<rparr>))"

definition setKeyHeld :: "int \<Rightarrow> bool \<Rightarrow> 'f input \<Rightarrow> 'f input run" where
  "setKeyHeld key a i = rbind (put_flag (keyHeld i) key a) (\<lambda>xs. ret (i\<lparr>keyHeld := xs\<rparr>))"

definition setMouseClicked :: "int \<Rightarrow> bool \<Rightarrow> 'f input \<Rightarrow> 'f input run" where
  "setMouseClicked key a i = rbind (put_flag (mouseClicked i) key a) (\<lambda>xs. ret (i\<lparr>mouseClicked := xs\<rparr>))"

definition setMouseHeld :: "int \<Rightarrow> bool \<Rightarrow> 'f input \<Rightarrow> 'f input run" where
  "setMouseHeld key a i = rbind (put_flag (mouseHeld i) key a) (\<lambda>xs. ret (i\<lparr>mouseHeld := xs\<rparr>))"

definition reset_input :: "'f::zero input \<Rightarrow> 'f input" where
  "reset_input i = i\<lparr>keyHeld := replicate MAX_KEYS False, keyPressed := replicate MAX_KEYS False,
     mouseClicked := replicate MAX_BUTTONS False, mouseHeld := replicate MAX_BUTTONS False,
     mouseOnScreen := True, windowFocus := True, scrollOffset := 0\<rparr>"

definition resetPressed :: "'f::zero input \<Rightarrow> 'f input" where
  "resetPressed i = i\<lparr>keyPressed := replicate MAX_KEYS False,
     mouseClicked := replicate MAX_BUTTONS False, scrollOffset := 0\<rparr>"

section \<open>The handlers\<close>

definition onKeyPressed :: "int \<Rightarrow> int \<Rightarrow> 'f input \<Rightarrow> 'f input run" where
  "onKeyPressed key repeatCount i = rbind (setKeyPressed key (repeatCount < 1) i) (setKeyHeld key True)"

definition onKeyReleased :: "int \<Rightarrow> 'f input \<Rightarrow> 'f input run" where
  "onKeyReleased key i = rbind (setKeyPressed key False i) (setKeyHeld key False)"

definition onMousePressed :: "int \<Rightarrow> 'f input \<Rightarrow> 'f input run" where
  "onMousePressed buttonId i = rbind (setMouseClicked buttonId True i) (setMouseHeld buttonId True)"

definition onMouseReleased :: "int \<Rightarrow> 'f input \<Rightarrow> 'f input run" where
  "onMouseReleased buttonId i = rbind (setMouseClicked buttonId False i) (setMouseHeld buttonId False)"

definition onMouseScrolled :: "'f \<Rightarrow> 'f input \<Rightarrow> 'f input run" where
  "onMouseScrolled yOffset i = ret (i\<lparr>scrollOffset := yOffset\<rparr>)"

definition onMouseMoved :: "'f \<times> 'f \<Rightarrow> 'f input \<Rightarrow> 'f input run" where
  "onMouseMoved position i = ret (i\<lparr>mousePosition := position\<rparr>)"

text \<open>The six callbacks that the constructor installs; all return false to the dispatcher.\<close>

fun input_event :: "'f event \<Rightarrow> 'f input \<Rightarrow> 'f input run" where
  "input_event (MouseScrolledEvent xOffset yOffset x y) i = onMouseScrolled yOffset i"
| "input_event (MouseClickEvent b x y) i = onMousePressed b i"
| "input_event (MouseReleaseEvent b x y) i = onMouseReleased b i"
| "input_event (MouseMoveEvent x y) i = onMouseMoved (x, y) i"
| "input_event (KeyPressedEvent key repeatCount) i = onKeyPressed key repeatCount i"
| "input_event (KeyReleasedEvent key) i = onKeyReleased key i"
| "input_event _ i = ret i"

fun input_subscribes :: "event_type \<Rightarrow> bool" where
  "input_subscribes MouseScrolled = True"
| "input_subscribes MouseClicked = True"
| "input_subscribes MouseReleased = True"
| "input_subscribes MouseMove = True"
| "input_subscribes KeyPressed = True"
| "input_subscribes KeyReleased = True"
| "input_subscribes _ = False"

section \<open>A frame of the application\<close>

text \<open>
  The parts of the main loop that touch the input: the pressed flags are reset, the systems
  run the scripts, the window polls and posts events, the dispatcher serves them, the scenes
  are updated. What the scripts and the scenes can read is logged.
\<close>

record 'f app_state =
  dispatch_world :: "'f event_world"
  app_input :: "'f input"
  scripts_saw :: "'f input list"
  scenes_saw :: "'f input list"

definition systems_update :: "'f app_state \<Rightarrow> 'f app_state" where
  "systems_update a = a\<lparr>scripts_saw := scripts_saw a @ [app_input a]\<rparr>"

definition window_update :: "('d \<Rightarrow> 'f) \<Rightarrow> 'd native list \<Rightarrow> 'f app_state \<Rightarrow> 'f app_state" where
  "window_update narrow natives a = a\<lparr>dispatch_world :=
     fold (\<lambda>e. postEvent 0 (Some e)) (List.map_filter (native_callback narrow) natives) (dispatch_world a)\<rparr>"

definition delivered :: "nat \<Rightarrow> 'f event_world \<Rightarrow> 'f event list" where
  "delivered this w = List.map_filter snd (eventQueue (dispatchers w this))"

definition dispatch_update :: "'f hook \<Rightarrow> 'f app_state \<Rightarrow> 'f app_state run" where
  "dispatch_update hook a =
     (case dispatchEvents hook 0 (dispatch_world a) of
        None \<Rightarrow> None
      | Some w \<Rightarrow> rbind (rfold input_event (delivered 0 (dispatch_world a)) (app_input a))
                    (\<lambda>i. ret (a\<lparr>dispatch_world := w, app_input := i\<rparr>)))"

definition scenes_update :: "'f app_state \<Rightarrow> 'f app_state" where
  "scenes_update a = a\<lparr>scenes_saw := scenes_saw a @ [app_input a]\<rparr>"

definition app_frame ::
  "('d \<Rightarrow> 'f) \<Rightarrow> 'f hook \<Rightarrow> 'd native list \<Rightarrow> 'f::zero app_state \<Rightarrow> 'f app_state run" where
  "app_frame narrow hook natives a =
     rbind (dispatch_update hook
              (window_update narrow natives
                (systems_update (a\<lparr>app_input := resetPressed (app_input a)\<rparr>))))
       (\<lambda>a. ret (scenes_update a))"

definition app_frames ::
  "('d \<Rightarrow> 'f) \<Rightarrow> 'f hook \<Rightarrow> 'd native list list \<Rightarrow> 'f::zero app_state \<Rightarrow> 'f app_state run" where
  "app_frames narrow hook = rfold (app_frame narrow hook)"

section \<open>Key codes\<close>

text \<open>The enumerators of \<^verbatim>\<open>KeyCode::Id\<close> with their values.\<close>

definition KeyCode_Id :: "(string \<times> int) list" where
  "KeyCode_Id = [
    (''Space'', 32), (''Apostrophe'', 39), (''Comma'', 44), (''Minus'', 45), (''Period'', 46),
    (''Slash'', 47), (''D0'', 48), (''D1'', 49), (''D2'', 50), (''D3'', 51), (''D4'', 52),
    (''D5'', 53), (''D6'', 54), (''D7'', 55), (''D8'', 56), (''D9'', 57), (''Semicolon'', 59),
    (''Equal'', 61), (''A'', 65), (''B'', 66), (''C'', 67), (''D'', 68), (''E'', 69),
    (''F'', 70), (''G'', 71), (''H'', 72), (''I'', 73), (''J'', 74), (''K'', 75), (''L'', 76),
    (''M'', 77), (''N'', 78), (''O'', 79), (''P'', 80), (''Q'', 81), (''R'', 82), (''S'', 83),
    (''T'', 84), (''U'', 85), (''V'', 86), (''W'', 87), (''X'', 88), (''Y'', 89), (''Z'', 90),
    (''LeftBracket'', 91), (''Backslash'', 92), (''RightBracket'', 93), (''GraveAccent'', 96),
    (''World1'', 161), (''World2'', 162), (''Escape'', 256), (''Enter'', 257), (''Tab'', 258),
    (''Backspace'', 259), (''Insert'', 260), (''Delete'', 261), (''Right'', 262),
    (''Left'', 263), (''Down'', 264), (''Up'', 265), (''PageUp'', 266), (''PageDown'', 267),
    (''Home'', 268), (''End'', 269), (''CapsLock'', 280), (''ScrollLock'', 281),
    (''NumLock'', 282), (''PrintScreen'', 283), (''Pause'', 284), (''F1'', 290),
    (''F2'', 291), (''F3'', 292), (''F4'', 293), (''F5'', 294), (''F6'', 295), (''F7'', 296),
    (''F8'', 297), (''F9'', 298), (''F10'', 299), (''F11'', 300), (''F12'', 301),
    (''F13'', 302), (''F14'', 303), (''F15'', 304), (''F16'', 305), (''F17'', 306),
    (''F18'', 307), (''F19'', 308), (''F20'', 309), (''F21'', 310), (''F22'', 311),
    (''F23'', 312), (''F24'', 313), (''F25'', 314), (''KP0'', 320), (''KP1'', 321),
    (''KP2'', 322), (''KP3'', 323), (''KP4'', 324), (''KP5'', 325), (''KP6'', 326),
    (''KP7'', 327), (''KP8'', 328), (''KP9'', 329), (''KPDecimal'', 330), (''KPDivide'', 331),
    (''KPMultiply'', 332), (''KPSubtract'', 333), (''KPAdd'', 334), (''KPEnter'', 335),
    (''KPEqual'', 336), (''LeftShift'', 340), (''LeftControl'', 341), (''LeftAlt'', 342),
    (''LeftSuper'', 343), (''RightShift'', 344), (''RightControl'', 345), (''RightAlt'', 346),
    (''RightSuper'', 347), (''Menu'', 348)]"

definition key_code :: "string \<Rightarrow> int option" where
  "key_code = map_of KeyCode_Id"

text \<open>The names that Lua scripts use, with the enumerators they stand for.\<close>

definition keyItems :: "(string \<times> string) list" where
  "keyItems = [
    (''A'', ''A''), (''B'', ''B''), (''C'', ''C''), (''D'', ''D''), (''E'', ''E''),
    (''F'', ''F''), (''H'', ''G''), (''G'', ''H''), (''I'', ''I''), (''J'', ''J''),
    (''K'', ''K''), (''L'', ''L''), (''M'', ''M''), (''N'', ''N''), (''O'', ''O''),
    (''P'', ''P''), (''Q'', ''Q''), (''R'', ''R''), (''S'', ''S''), (''T'', ''T''),
    (''U'', ''U''), (''V'', ''V''), (''W'', ''W''), (''X'', ''X''), (''Y'', ''Y''),
    (''Z'', ''Z''), (''Space'', ''Space''), (''Escape'', ''Escape''), (''MINUS'', ''Minus''),
    (''PERIOD'', ''Period''), (''SLASH'', ''Slash''), (''SEMICOLON'', ''Semicolon''),
    (''EQUAL'', ''Equal''), (''LEFT_BRACKET'', ''LeftBracket''),
    (''BACKSLASH'', ''Backslash''), (''RIGHT_BRACKET'', ''RightBracket''),
    (''Enter'', ''Enter''), (''Tab'', ''Tab''), (''Backspace'', ''Backspace''),
    (''Insert'', ''Insert''), (''Delete'', ''Delete''), (''Right'', ''Right''),
    (''Left'', ''Left''), (''Down'', ''Down''), (''Up'', ''Up''), (''PageUp'', ''PageUp''),
    (''PageDown'', ''PageDown''), (''Home'', ''Home''), (''End'', ''End''),
    (''CAPS_LOCK'', ''CapsLock''), (''SCROLL_LOCK'', ''ScrollLock''),
    (''NumLock'', ''NumLock''), (''PrintScreen'', ''PrintScreen''), (''Pause'', ''Pause''),
    (''LeftShift'', ''LeftShift''), (''LeftControl'', ''LeftControl''),
    (''LEFT_ALT'', ''LeftAlt''), (''LEFT_SUPER'', ''LeftSuper''),
    (''RightShift'', ''RightShift''), (''RightControl'', ''RightControl''),
    (''RIGHT_ALT'', ''RightAlt''), (''RIGHT_SUPER'', ''RightSuper''), (''Menu'', ''Menu''),
    (''F1'', ''F1''), (''F2'', ''F2''), (''F3'', ''F3''), (''F4'', ''F4''), (''F5'', ''F5''),
    (''F6'', ''F6''), (''F7'', ''F7''), (''F8'', ''F8''), (''F9'', ''F9''),
    (''F10'', ''F10''), (''F11'', ''F11''), (''F12'', ''F12''), (''Keypad0'', ''D0''),
    (''Keypad1'', ''D1''), (''Keypad2'', ''D2''), (''Keypad3'', ''D3''),
    (''Keypad4'', ''D4''), (''Keypad5'', ''D5''), (''Keypad6'', ''D6''),
    (''Keypad7'', ''D7''), (''Keypad8'', ''D8''), (''Keypad9'', ''D9'')]"

definition lua_assign :: "(string \<times> string) list \<Rightarrow> (string \<rightharpoonup> int) \<Rightarrow> (string \<rightharpoonup> int)" where
  "lua_assign items table = fold (\<lambda>(name, key) t. t(name := key_code key)) items table"

text \<open>The two global tables \<^verbatim>\<open>KeyCode\<close> and \<^verbatim>\<open>MouseKey\<close>; both loops fill the first one.\<close>

definition exportLua :: "(string \<rightharpoonup> int) \<times> (string \<rightharpoonup> int)" where
  "exportLua =
     (let v1 = lua_assign keyItems Map.empty;
          v2 = Map.empty;
          v1 = lua_assign keyItems v1
      in (v1, v2))"

section \<open>Flags that events switch\<close>

text \<open>
  A flag is a latch: an event either says what its value becomes or leaves it. After a run the
  last event that said something decides.
\<close>

lemma map_filter_append: "List.map_filter f (xs @ ys) = List.map_filter f xs @ List.map_filter f ys"
  by (simp add: List.map_filter_def)

definition latest :: "('e \<Rightarrow> bool option) \<Rightarrow> 'e list \<Rightarrow> bool \<Rightarrow> bool" where
  "latest verdict es b = (case List.map_filter verdict (rev es) of [] \<Rightarrow> b | c # _ \<Rightarrow> c)"

lemma latest_append: "latest v (es @ fs) b = latest v fs (latest v es b)"
  by (simp add: latest_def map_filter_append split: list.split)

locale latch =
  fixes step :: "'e \<Rightarrow> 's \<Rightarrow> 's run" and flag :: "'s \<Rightarrow> bool" and verdict :: "'e \<Rightarrow> bool option"
  assumes step_flag: "step e s = ret s' \<Longrightarrow> flag s' = (case verdict e of None \<Rightarrow> flag s | Some b \<Rightarrow> b)"
begin

lemma run_flag:
  "rfold step es s = ret s' \<Longrightarrow>
   flag s' = latest verdict es (flag s)"
proof (induction es arbitrary: s' rule: rev_induct)
  case (snoc e es)
  from snoc.prems obtain s1 where s1: "rfold step es s = ret s1" "step e s1 = ret s'"
    by (auto simp: rfold_append dest!: rbind_ret_eqD)
  show ?case using snoc.IH[OF s1(1)] step_flag[OF s1(2)]
    by (simp add: latest_def List.map_filter_simps split: option.split)
qed (simp add: latest_def List.map_filter_simps)

end

definition flag_at :: "bool list \<Rightarrow> int \<Rightarrow> bool" where
  "flag_at xs k \<longleftrightarrow> 0 \<le> k \<and> k < int (length xs) \<and> xs ! nat k"

lemma get_flag_eq: "0 \<le> k \<Longrightarrow> k < int (length xs) \<Longrightarrow> get_flag xs k = ret (flag_at xs k)"
  by (simp add: get_flag_def flag_at_def)

lemma put_flag_ret:
  "put_flag xs k a = ret ys \<longleftrightarrow> 0 \<le> k \<and> k < int (length xs) \<and> ys = xs[nat k := a]"
  by (auto simp: put_flag_def)

lemma flag_at_update:
  "0 \<le> k \<Longrightarrow> k < int (length xs) \<Longrightarrow> flag_at (xs[nat k := a]) j = (if j = k then a else flag_at xs j)"
  by (auto simp: flag_at_def nth_list_update)

lemma flag_at_replicate [simp]: "\<not> flag_at (replicate n False) k"
  by (auto simp: flag_at_def)

text \<open>What an event says about a key or a button.\<close>

fun key_verdict :: "int \<Rightarrow> 'f event \<Rightarrow> bool option" where
  "key_verdict k (KeyPressedEvent key n) = (if key = k then Some True else None)"
| "key_verdict k (KeyReleasedEvent key) = (if key = k then Some False else None)"
| "key_verdict k _ = None"

fun press_verdict :: "int \<Rightarrow> 'f event \<Rightarrow> bool option" where
  "press_verdict k (KeyPressedEvent key n) = (if key = k then Some (n < 1) else None)"
| "press_verdict k (KeyReleasedEvent key) = (if key = k then Some False else None)"
| "press_verdict k _ = None"

fun button_verdict :: "int \<Rightarrow> 'f event \<Rightarrow> bool option" where
  "button_verdict k (MouseClickEvent b x y) = (if b = k then Some True else None)"
| "button_verdict k (MouseReleaseEvent b x y) = (if b = k then Some False else None)"
| "button_verdict k _ = None"

lemmas input_ops = onKeyPressed_def onKeyReleased_def onMousePressed_def onMouseReleased_def
  onMouseScrolled_def onMouseMoved_def setKeyPressed_def setKeyHeld_def setMouseClicked_def setMouseHeld_def

lemma input_event_flags:
  assumes "input_event e i = ret i'"
  shows "flag_at (keyHeld i') k = (case key_verdict k e of None \<Rightarrow> flag_at (keyHeld i) k | Some b \<Rightarrow> b)"
    "flag_at (keyPressed i') k = (case press_verdict k e of None \<Rightarrow> flag_at (keyPressed i) k | Some b \<Rightarrow> b)"
    "flag_at (mouseHeld i') k = (case button_verdict k e of None \<Rightarrow> flag_at (mouseHeld i) k | Some b \<Rightarrow> b)"
    "flag_at (mouseClicked i') k = (case button_verdict k e of None \<Rightarrow> flag_at (mouseClicked i) k | Some b \<Rightarrow> b)"
  using assms
  by (cases e; auto simp: input_ops put_flag_ret flag_at_update dest!: rbind_ret_eqD)+

interpretation held: latch input_event "\<lambda>i. flag_at (keyHeld i) k" "key_verdict k" for k
  by unfold_locales (rule input_event_flags(1))

interpretation pressed: latch input_event "\<lambda>i. flag_at (keyPressed i) k" "press_verdict k" for k
  by unfold_locales (rule input_event_flags(2))

interpretation mheld: latch input_event "\<lambda>i. flag_at (mouseHeld i) k" "button_verdict k" for k
  by unfold_locales (rule input_event_flags(3))

interpretation clicked: latch input_event "\<lambda>i. flag_at (mouseClicked i) k" "button_verdict k" for k
  by unfold_locales (rule input_event_flags(4))

section \<open>Which events are safe\<close>

definition wf_input :: "'f input \<Rightarrow> bool" where
  "wf_input i \<longleftrightarrow> length (keyPressed i) = MAX_KEYS \<and> length (keyHeld i) = MAX_KEYS \<and>
     length (mouseHeld i) = MAX_BUTTONS \<and> length (mouseClicked i) = MAX_BUTTONS"

fun safe_event :: "'f event \<Rightarrow> bool" where
  "safe_event (KeyPressedEvent key n) \<longleftrightarrow> 0 \<le> key \<and> key < int MAX_KEYS"
| "safe_event (KeyReleasedEvent key) \<longleftrightarrow> 0 \<le> key \<and> key < int MAX_KEYS"
| "safe_event (MouseClickEvent b x y) \<longleftrightarrow> 0 \<le> b \<and> b < int MAX_BUTTONS"
| "safe_event (MouseReleaseEvent b x y) \<longleftrightarrow> 0 \<le> b \<and> b < int MAX_BUTTONS"
| "safe_event _ \<longleftrightarrow> True"

lemma wf_resets [simp]: "wf_input i \<Longrightarrow> wf_input (resetPressed i)" "wf_input (reset_input i)"
  by (simp_all add: wf_input_def resetPressed_def reset_input_def)

lemma input_event_safe:
  assumes "wf_input i"
  shows "safe_event e \<Longrightarrow> \<exists>i'. input_event e i = ret i' \<and> wf_input i'"
    and "\<not> safe_event e \<Longrightarrow> input_event e i = fail BadIndex"
  using assms by (cases e; auto simp: input_ops put_flag_def wf_input_def)+

lemma input_events_safe:
  "wf_input i \<Longrightarrow> \<forall>e \<in> set es. safe_event e \<Longrightarrow> \<exists>i'. rfold input_event es i = ret i' \<and> wf_input i'"
proof (induction es arbitrary: i)
  case (Cons e es)
  then show ?case using input_event_safe(1)[of i e] by fastforce
qed simp

lemma input_events_unsafe:
  "wf_input i \<Longrightarrow> \<exists>e \<in> set es. \<not> safe_event e \<Longrightarrow> rfold input_event es i = fail BadIndex"
proof (induction es arbitrary: i)
  case (Cons e es)
  then show ?case using input_event_safe[of i e] by (cases "safe_event e") fastforce+
qed simp

text \<open>Safety in terms of what GLFW reports.\<close>

fun safe_native :: "'d native \<Rightarrow> bool" where
  "safe_native (Key key action) \<longleftrightarrow>
     (action = GLFW_PRESS \<or> action = GLFW_RELEASE \<or> action = GLFW_REPEAT \<longrightarrow> to_u16 key < 1024)"
| "safe_native (MouseButton b state x y) \<longleftrightarrow>
     (state = GLFW_PRESS \<or> state = GLFW_RELEASE \<or> state = GLFW_REPEAT \<longrightarrow> b = 0 \<or> b = 1 \<or> b = 2)"
| "safe_native _ \<longleftrightarrow> True"

lemma safe_native_event:
  "safe_native n \<longleftrightarrow> (\<forall>e. native_callback narrow n = Some e \<longrightarrow> safe_event e)"
  by (cases n) (auto simp: MAX_KEYS_def MAX_BUTTONS_def button_of_def)

lemma safe_natives:
  "(\<forall>n \<in> set natives. safe_native n) \<longleftrightarrow>
   (\<forall>e \<in> set (List.map_filter (native_callback narrow) natives). safe_event e)"
  by (auto simp: List.map_filter_def safe_native_event[of _ narrow])

section \<open>Delivery by the dispatcher\<close>

text \<open>
  The other callbacks of the engine do not consume the events of the devices, and no callback
  calls the dispatcher.
\<close>

definition quiet_hooks :: "'f hook \<Rightarrow> bool" where
  "quiet_hooks hook \<longleftrightarrow> (\<forall>k t f e w. hook k t = Some f \<longrightarrow>
     snd (f e w) = [] \<and> (input_subscribes t \<longrightarrow> \<not> fst (f e w)))"

definition input_handler :: "'f hook \<Rightarrow> nat \<Rightarrow> bool" where
  "input_handler hook h \<longleftrightarrow> (\<forall>t. hook h t \<noteq> None \<longleftrightarrow> input_subscribes t)"

lemma input_subscribes_routed: "input_subscribes t \<Longrightarrow> routed t"
  by (cases t) simp_all

lemma quiet_loop:
  assumes "quiet_hooks hook"
  shows "\<exists>calls. fst (dispatch_loop hook this e hs w) = w\<lparr>invoked := invoked w @ calls\<rparr> \<and>
    (input_handler hook h \<longrightarrow> h \<notin> eventHandlerDeleteSet (dispatchers w this) \<longrightarrow>
      filter ((=) h) calls = (if input_subscribes (getType e) then filter ((=) h) hs else []))"
proof (induction hs arbitrary: w)
  case Nil
  show ?case by (rule exI[of _ "[]"]) simp
next
  case (Cons k hs)
  show ?case
  proof (cases "k \<in> eventHandlerDeleteSet (dispatchers w this) \<or> \<not> routed (getType e) \<or> hook k (getType e) = None")
    case True
    then have eq: "dispatch_loop hook this e (k # hs) w = dispatch_loop hook this e hs w" by auto
    have "\<not> input_subscribes (getType e)"
      if "input_handler hook h" "h \<notin> eventHandlerDeleteSet (dispatchers w this)" "h = k"
      using True that input_subscribes_routed unfolding input_handler_def by metis
    with Cons[of w] show ?thesis unfolding eq by (metis (full_types) filter.simps(2))
  next
    case False
    then obtain f where f: "hook k (getType e) = Some f" by auto
    let ?w = "w\<lparr>invoked := invoked w @ [k]\<rparr>"
    have q: "f e w = (fst (f e w), [])" "input_subscribes (getType e) \<Longrightarrow> \<not> fst (f e w)"
      using assms f unfolding quiet_hooks_def by (metis prod.collapse)+
    have k: "input_handler hook h \<Longrightarrow> h = k \<Longrightarrow> input_subscribes (getType e)"
      using f unfolding input_handler_def by (metis option.distinct(1))
    have "fst (dispatch_loop hook this e (k # hs) w) =
        (if fst (f e w) then ?w else fst (dispatch_loop hook this e hs ?w))"
      using False f q(1) by (auto simp: Let_def split: prod.split)
    moreover obtain calls where c: "fst (dispatch_loop hook this e hs ?w) = ?w\<lparr>invoked := invoked ?w @ calls\<rparr>"
      "input_handler hook h \<Longrightarrow> h \<notin> eventHandlerDeleteSet (dispatchers w this) \<Longrightarrow>
        filter ((=) h) calls = (if input_subscribes (getType e) then filter ((=) h) hs else [])"
      using Cons[of ?w] by auto
    ultimately show ?thesis
      using q(2) k
      by (intro exI[of _ "if fst (f e w) then [k] else k # calls"]) auto
  qed
qed

lemma quiet_serve:
  assumes "quiet_hooks hook"
  shows "\<exists>calls. serve_event hook this pe w =
      w\<lparr>invoked := invoked w @ calls, results := results w @ [(fst pe, snd (dispatchEvent hook this (snd pe) w))]\<rparr> \<and>
    (input_handler hook h \<longrightarrow> h \<notin> eventHandlerDeleteSet (dispatchers w this) \<longrightarrow>
      filter ((=) h) calls =
        (case snd pe of None \<Rightarrow> [] | Some e \<Rightarrow> if input_subscribes (getType e)
           then filter ((=) h) (eventHandlers (dispatchers w this)) else []))"
proof (cases "snd pe")
  case None
  then show ?thesis by (intro exI[of _ "[]"]) (simp add: serve_event_def dispatchEvent_def)
next
  case (Some e)
  then show ?thesis using quiet_loop[OF assms, of this e "eventHandlers (dispatchers w this)" w h]
    by (auto simp: serve_event_def dispatchEvent_def Let_def split: prod.split)
qed

lemma filter_eq_single: "distinct xs \<Longrightarrow> x \<in> set xs \<Longrightarrow> filter ((=) x) xs = [x]"
  by (induction xs) (auto simp: filter_empty_conv)

lemma concat_replicate_single: "concat (replicate n [x]) = replicate n x"
  by (induction n) simp_all

lemma pop_event_fields:
  "eventHandlers (dispatchers (pop_event this w) this) = eventHandlers (dispatchers w this)"
  "eventHandlerDeleteSet (dispatchers (pop_event this w) this) = eventHandlerDeleteSet (dispatchers w this)"
  by (simp_all add: pop_event_def)

lemma quiet_drain:
  assumes "quiet_hooks hook"
    and "input_handler hook h \<Longrightarrow> h \<notin> eventHandlerDeleteSet (dispatchers w this)"
  shows "\<exists>w'. drain_events hook this w = Some w' \<and> eventQueue (dispatchers w' this) = [] \<and>
    (input_handler hook h \<longrightarrow> filter ((=) h) (invoked w') = filter ((=) h) (invoked w) @
      concat (map (\<lambda>e. filter ((=) h) (eventHandlers (dispatchers w this)))
        (filter (\<lambda>e. input_subscribes (getType e)) (delivered this w))))"
  using assms(2)
proof (induction "eventQueue (dispatchers w this)" arbitrary: w)
  case Nil
  then show ?case by (subst drain_events.simps) (simp add: delivered_def List.map_filter_simps)
next
  case (Cons pe q)
  let ?w = "pop_event this w"
  obtain calls where c: "serve_event hook this pe ?w =
      ?w\<lparr>invoked := invoked ?w @ calls, results := results ?w @ [(fst pe, snd (dispatchEvent hook this (snd pe) ?w))]\<rparr>"
    "input_handler hook h \<Longrightarrow> h \<notin> eventHandlerDeleteSet (dispatchers w this) \<Longrightarrow> filter ((=) h) calls =
        (case snd pe of None \<Rightarrow> [] | Some e \<Rightarrow> if input_subscribes (getType e)
           then filter ((=) h) (eventHandlers (dispatchers w this)) else [])"
    using quiet_serve[OF assms(1), of this pe ?w h] unfolding pop_event_fields by blast
  let ?v = "serve_event hook this pe ?w"
  have v: "eventQueue (dispatchers ?v this) = q" "eventHandlers (dispatchers ?v this) = eventHandlers (dispatchers w this)"
    "eventHandlerDeleteSet (dispatchers ?v this) = eventHandlerDeleteSet (dispatchers w this)"
    "invoked ?v = invoked w @ calls"
    unfolding c(1) using Cons.hyps(2) by (simp_all add: pop_event_def flip: Cons.hyps(2))
  have d: "delivered this w = (case snd pe of None \<Rightarrow> [] | Some e \<Rightarrow> [e]) @ delivered this ?v"
    unfolding delivered_def v(1) by (simp add: List.map_filter_simps flip: Cons.hyps(2) split: option.split)
  have "drain_events hook this w = drain_events hook this ?v"
    by (subst drain_events.simps) (simp flip: Cons.hyps(2))
  moreover from Cons.hyps(1)[of ?v] obtain w' where "drain_events hook this ?v = Some w'"
    "eventQueue (dispatchers w' this) = []"
    "input_handler hook h \<Longrightarrow> filter ((=) h) (invoked w') = filter ((=) h) (invoked ?v) @
      concat (map (\<lambda>e. filter ((=) h) (eventHandlers (dispatchers ?v this)))
        (filter (\<lambda>e. input_subscribes (getType e)) (delivered this ?v)))"
    using v(1,3) Cons.prems by auto
  ultimately show ?case using c(2) Cons.prems v(2,4) d by (auto split: option.split)
qed

lemma quiet_dispatch:
  assumes "quiet_hooks hook"
  shows "\<exists>w'. dispatchEvents hook this w = Some w' \<and> eventQueue (dispatchers w' this) = []"
  using quiet_drain[OF assms, of _ "on_dispatcher this (\<lambda>d. admit (priority w) (purge d)) w" this]
  unfolding dispatchEvents_def by (auto simp: admit_def purge_def)

text \<open>
  The handler of the input is called exactly once for each posted event of its six types.
\<close>

theorem input_called_per_event:
  assumes "quiet_hooks hook" "input_handler hook h"
    and "by_priority (priority w) (eventHandlers (dispatchers w this))"
    and "finite (eventHandlerAddSet (dispatchers w this))" "finite (eventHandlerDeleteSet (dispatchers w this))"
    and "h \<in> (set (eventHandlers (dispatchers w this)) - eventHandlerDeleteSet (dispatchers w this)) \<union>
      eventHandlerAddSet (dispatchers w this)"
  shows "\<exists>w'. dispatchEvents hook this w = Some w' \<and>
    filter ((=) h) (invoked w') = filter ((=) h) (invoked w) @
      replicate (length (filter (\<lambda>e. input_subscribes (getType e)) (delivered this w))) h"
proof -
  let ?w = "on_dispatcher this (\<lambda>d. admit (priority w) (purge d)) w"
  have "distinct (eventHandlers (dispatchers ?w this))" "h \<in> set (eventHandlers (dispatchers ?w this))"
    using refreshed_handlers[OF assms(3-5)] assms(6) by (auto simp: by_priority_def)
  then have one: "filter ((=) h) (eventHandlers (dispatchers ?w this)) = [h]"
    by (rule filter_eq_single)
  have "h \<notin> eventHandlerDeleteSet (dispatchers ?w this)" "delivered this ?w = delivered this w"
    by (simp_all add: admit_def purge_def delivered_def)
  with quiet_drain[OF assms(1), of h ?w this] assms(2) one show ?thesis
    by (auto simp: dispatchEvents_def concat_replicate_single map_replicate_const)
qed

section \<open>Frames\<close>

definition wf_app :: "'f app_state \<Rightarrow> bool" where
  "wf_app a \<longleftrightarrow> wf_input (app_input a) \<and> eventQueue (dispatchers (dispatch_world a) 0) = []"

definition native_events :: "('d \<Rightarrow> 'f) \<Rightarrow> 'd native list \<Rightarrow> 'f event list" where
  "native_events narrow = List.map_filter (native_callback narrow)"

lemma delivered_posts: "delivered d (fold (\<lambda>e. postEvent d (Some e)) es w) = delivered d w @ es"
proof (induction es arbitrary: w)
  case (Cons e es)
  have "delivered d (postEvent d (Some e) w) = delivered d w @ [e]"
    by (simp add: delivered_def postEvent_def map_filter_append List.map_filter_simps)
  then show ?case using Cons by simp
qed simp

lemma app_frame_run:
  assumes "quiet_hooks hook" "wf_app a"
  shows "(\<exists>n \<in> set ns. \<not> safe_native n) \<Longrightarrow> app_frame narrow hook ns a = fail BadIndex"
    and "(\<forall>n \<in> set ns. safe_native n) \<Longrightarrow> \<exists>a'. app_frame narrow hook ns a = ret a' \<and> wf_app a' \<and>
      rfold input_event (native_events narrow ns) (resetPressed (app_input a)) = ret (app_input a') \<and>
      scripts_saw a' = scripts_saw a @ [resetPressed (app_input a)] \<and>
      scenes_saw a' = scenes_saw a @ [app_input a']"
proof -
  let ?a = "window_update narrow ns (systems_update (a\<lparr>app_input := resetPressed (app_input a)\<rparr>))"
  have del: "delivered 0 (dispatch_world ?a) = native_events narrow ns"
    using assms(2) by (simp add: window_update_def systems_update_def delivered_posts native_events_def
        wf_app_def delivered_def[of 0 "dispatch_world a"] List.map_filter_simps)
  have fields: "app_input ?a = resetPressed (app_input a)" "scripts_saw ?a = scripts_saw a @ [resetPressed (app_input a)]"
    "scenes_saw ?a = scenes_saw a"
    by (simp_all add: window_update_def systems_update_def)
  obtain w where w: "dispatchEvents hook 0 (dispatch_world ?a) = Some w" "eventQueue (dispatchers w 0) = []"
    using quiet_dispatch[OF assms(1)] by blast
  have run: "app_frame narrow hook ns a =
      rbind (rfold input_event (native_events narrow ns) (resetPressed (app_input a)))
        (\<lambda>i. ret (scenes_update (?a\<lparr>dispatch_world := w, app_input := i\<rparr>)))"
    unfolding app_frame_def dispatch_update_def by (simp add: w(1) del fields rbind_assoc)
  have wf: "wf_input (resetPressed (app_input a))" using assms(2) by (simp add: wf_app_def)
  show "app_frame narrow hook ns a = fail BadIndex" if "\<exists>n \<in> set ns. \<not> safe_native n"
  proof -
    have "\<exists>e \<in> set (native_events narrow ns). \<not> safe_event e"
      using that safe_natives[of ns narrow] unfolding native_events_def by blast
    from input_events_unsafe[OF wf this] show ?thesis by (simp add: run)
  qed
  assume "\<forall>n \<in> set ns. safe_native n"
  then obtain i where i: "rfold input_event (native_events narrow ns) (resetPressed (app_input a)) = ret i" "wf_input i"
    using safe_natives[of ns narrow] input_events_safe[OF wf, of "native_events narrow ns"]
    by (auto simp: native_events_def)
  then show "\<exists>a'. app_frame narrow hook ns a = ret a' \<and> wf_app a' \<and>
      rfold input_event (native_events narrow ns) (resetPressed (app_input a)) = ret (app_input a') \<and>
      scripts_saw a' = scripts_saw a @ [resetPressed (app_input a)] \<and>
      scenes_saw a' = scenes_saw a @ [app_input a']"
    using w(2) fields by (simp add: run scenes_update_def wf_app_def)
qed

lemma app_frame_ret:
  assumes "quiet_hooks hook" "wf_app a" "app_frame narrow hook ns a = ret a'"
  shows "wf_app a'" "rfold input_event (native_events narrow ns) (resetPressed (app_input a)) = ret (app_input a')"
    "scripts_saw a' = scripts_saw a @ [resetPressed (app_input a)]" "scenes_saw a' = scenes_saw a @ [app_input a']"
  using app_frame_run[OF assms(1,2), of ns narrow] assms(3) by (cases "\<forall>n \<in> set ns. safe_native n"; auto)+

lemma app_frames_wf:
  assumes "quiet_hooks hook" "wf_app a" "app_frames narrow hook nss a = ret a'"
  shows "wf_app a'"
  using assms(2,3)
proof (induction nss arbitrary: a)
  case (Cons ns nss)
  then show ?case using app_frame_ret(1)[OF assms(1)] by (fastforce simp: app_frames_def dest!: rbind_ret_eqD)
qed (simp add: app_frames_def)

text \<open>
  Held flags survive the reset at the start of a frame, the others do not.
\<close>

lemma app_frame_flags:
  assumes "quiet_hooks hook" "wf_app a" "app_frame narrow hook ns a = ret a'"
  shows "flag_at (keyHeld (app_input a')) k =
      latest (key_verdict k) (native_events narrow ns) (flag_at (keyHeld (app_input a)) k)"
    "flag_at (mouseHeld (app_input a')) k =
      latest (button_verdict k) (native_events narrow ns) (flag_at (mouseHeld (app_input a)) k)"
    "flag_at (keyPressed (app_input a')) k = latest (press_verdict k) (native_events narrow ns) False"
    "flag_at (mouseClicked (app_input a')) k = latest (button_verdict k) (native_events narrow ns) False"
  using held.run_flag[OF app_frame_ret(2)[OF assms], of k] mheld.run_flag[OF app_frame_ret(2)[OF assms], of k]
    pressed.run_flag[OF app_frame_ret(2)[OF assms], of k] clicked.run_flag[OF app_frame_ret(2)[OF assms], of k]
  by (simp_all add: resetPressed_def)

lemma app_frames_held:
  assumes "quiet_hooks hook" "wf_app a" "app_frames narrow hook nss a = ret a'"
  shows "flag_at (keyHeld (app_input a')) k =
      latest (key_verdict k) (concat (map (native_events narrow) nss)) (flag_at (keyHeld (app_input a)) k) \<and>
    flag_at (mouseHeld (app_input a')) k =
      latest (button_verdict k) (concat (map (native_events narrow) nss)) (flag_at (mouseHeld (app_input a)) k)"
  using assms(2,3)
proof (induction nss arbitrary: a)
  case (Cons ns nss)
  from Cons.prems(2) obtain b where b: "app_frame narrow hook ns a = ret b" "app_frames narrow hook nss b = ret a'"
    by (auto simp: app_frames_def dest!: rbind_ret_eqD)
  from Cons.IH[OF app_frame_ret(1)[OF assms(1) Cons.prems(1) b(1)] b(2)] show ?case
    by (simp add: latest_append app_frame_flags[OF assms(1) Cons.prems(1) b(1)])
qed (simp add: app_frames_def latest_def List.map_filter_simps)

lemma lua_assign_Some:
  "lua_assign items t name = Some c \<Longrightarrow> (\<exists>key. (name, key) \<in> set items \<and> key_code key = Some c) \<or> t name = Some c"
proof (induction items arbitrary: t)
  case (Cons x items)
  have eq: "lua_assign (x # items) t = lua_assign items (t(fst x := key_code (snd x)))"
    by (simp add: lua_assign_def case_prod_beta)
  from Cons.IH[OF Cons.prems[unfolded eq]] show ?case by (cases x) (auto split: if_splits)
qed (simp add: lua_assign_def)

lemma lua_assign_last:
  assumes "items = us @ (name, key) # vs" "name \<notin> set (map fst vs)"
  shows "lua_assign items t name = key_code key"
proof -
  have "lua_assign vs u name = u name" for u
    using assms(2) by (induction vs arbitrary: u) (auto simp: lua_assign_def)
  then show ?thesis by (simp add: assms(1) lua_assign_def)
qed

lemma exportLua_Some:
  assumes "fst exportLua name = Some c"
  shows "\<exists>key. (name, key) \<in> set keyItems \<and> key_code key = Some c"
  using assms unfolding exportLua_def Let_def fst_conv
  by (auto dest!: lua_assign_Some)

lemma app_frames_run:
  assumes "quiet_hooks hook" "wf_app a"
  shows "(\<forall>ns \<in> set nss. \<forall>n \<in> set ns. safe_native n) \<Longrightarrow> \<exists>a'. app_frames narrow hook nss a = ret a' \<and> wf_app a'"
    and "(\<exists>ns \<in> set nss. \<exists>n \<in> set ns. \<not> safe_native n) \<Longrightarrow> app_frames narrow hook nss a = fail BadIndex"
  using assms(2)
proof (induction nss arbitrary: a)
  case (Cons ns nss)
  have step: "app_frames narrow hook (ns # nss) a = rbind (app_frame narrow hook ns a) (app_frames narrow hook nss)"
    for a by (simp add: app_frames_def)
  {
    case 1
    then obtain b where "app_frame narrow hook ns a = ret b" "wf_app b"
      using app_frame_run(2)[OF assms(1) 1(2)] by fastforce
    with Cons.IH(1)[of b] 1 show ?case by (simp add: step)
  next
    case 2
    show ?case
    proof (cases "\<forall>n \<in> set ns. safe_native n")
      case True
      then obtain b where "app_frame narrow hook ns a = ret b" "wf_app b"
        using app_frame_run(2)[OF assms(1) 2(2)] by fastforce
      with Cons.IH(2)[of b] 2 True show ?thesis by (auto simp: step)
    next
      case False
      then have "app_frame narrow hook ns a = fail BadIndex" by (intro app_frame_run(1)[OF assms(1) 2(2)]) blast
      then show ?thesis by (simp add: step)
    qed
  }
qed (simp_all add: app_frames_def)

section \<open>Properties\<close>

text \<open>
  What the scenes read after a frame that returns: a key or button is held when the last event about it
  in all frames so far was a press; it is pressed or clicked when the last event about it in this
  very frame was a press, for keys one that is not a repetition.
\<close>

theorem scene_reads_last_events:
  assumes "quiet_hooks hook" "wf_app a" "app_frames narrow hook (nss @ [ns]) a = ret a'"
    and "0 \<le> key" "key < 1024" "0 \<le> button" "button < 32"
  shows "isKeyHeld key (app_input a') = ret (latest (key_verdict key)
      (concat (map (native_events narrow) (nss @ [ns]))) (flag_at (keyHeld (app_input a)) key)) \<and>
    isMouseHeld button (app_input a') = ret (latest (button_verdict button)
      (concat (map (native_events narrow) (nss @ [ns]))) (flag_at (mouseHeld (app_input a)) button)) \<and>
    isKeyPressed key (app_input a') = ret (latest (press_verdict key) (native_events narrow ns) False) \<and>
    isMouseClicked button (app_input a') = ret (latest (button_verdict button) (native_events narrow ns) False)"
proof -
  from assms(3) obtain b where b: "app_frames narrow hook nss a = ret b" "app_frame narrow hook ns b = ret a'"
    by (auto simp: app_frames_def rfold_append dest!: rbind_ret_eqD)
  have "wf_app b" by (rule app_frames_wf[OF assms(1,2) b(1)])
  note flags = app_frame_flags[OF assms(1) this b(2)] and held = app_frames_held[OF assms(1-3)]
  have "wf_input (app_input a')" using app_frames_wf[OF assms(1-3)] by (simp add: wf_app_def)
  then have "length (keyHeld (app_input a')) = 1024" "length (keyPressed (app_input a')) = 1024"
    "length (mouseHeld (app_input a')) = 32" "length (mouseClicked (app_input a')) = 32"
    by (simp_all add: wf_input_def MAX_KEYS_def MAX_BUTTONS_def)
  with assms(4-7) flags held[of key] held[of button] show ?thesis
    by (simp add: isKeyHeld_def isMouseHeld_def isKeyPressed_def isMouseClicked_def get_flag_eq del: map_append concat_append)
qed

text \<open>
  C19: Whatever the devices report, a script that runs in the systems' update never sees a key
  pressed, a button clicked or the wheel turned: the flags set in one frame are reset at the start of the next,
  before the scripts run.
\<close>

theorem scripts_never_see_presses:
  fixes a :: "'f::zero app_state"
  assumes "quiet_hooks hook" "wf_app a" "scripts_saw a = []" "app_frames narrow hook nss a = ret a'"
  shows "length (scripts_saw a') = length nss \<and> (\<forall>i \<in> set (scripts_saw a').
    (\<forall>key. 0 \<le> key \<longrightarrow> key < 1024 \<longrightarrow> isKeyPressed key i = ret False) \<and>
    (\<forall>button. 0 \<le> button \<longrightarrow> button < 32 \<longrightarrow> isMouseClicked button i = ret False) \<and> scrollOffset i = 0)"
proof -
  define blind where "blind i \<longleftrightarrow> (\<forall>key. 0 \<le> key \<longrightarrow> key < 1024 \<longrightarrow> isKeyPressed key i = ret False) \<and>
    (\<forall>button. 0 \<le> button \<longrightarrow> button < 32 \<longrightarrow> isMouseClicked button i = ret False) \<and> scrollOffset i = 0"
    for i :: "'f input"
  have r: "blind (resetPressed i)" for i
    by (simp add: blind_def resetPressed_def isKeyPressed_def isMouseClicked_def get_flag_def MAX_KEYS_def MAX_BUTTONS_def)
  have "length (scripts_saw a') = length (scripts_saw a) + length nss \<and>
      (\<forall>i \<in> set (scripts_saw a'). i \<in> set (scripts_saw a) \<or> blind i)"
    using assms(2,4)
  proof (induction nss arbitrary: a)
    case (Cons ns nss)
    from Cons.prems(2) obtain b where b: "app_frame narrow hook ns a = ret b" "app_frames narrow hook nss b = ret a'"
      by (auto simp: app_frames_def dest!: rbind_ret_eqD)
    note f = app_frame_ret[OF assms(1) Cons.prems(1) b(1)]
    from Cons.IH[OF f(1) b(2)] r show ?case by (auto simp: f(3))
  qed (simp add: app_frames_def)
  then show ?thesis unfolding blind_def using assms(3) by simp
qed

text \<open>
  The main loop stays inside the arrays exactly as long as every key GLFW reports has a code that
  is below 1024 after the conversion to 16 bits and every button is one of the first three. A key that
  GLFW does not know (code -1) or a fourth button writes outside.
\<close>

theorem frames_fault_on_unknown_devices:
  assumes "quiet_hooks hook" "wf_app a"
  shows "if \<forall>ns \<in> set nss. \<forall>n \<in> set ns. safe_native n
    then \<exists>a'. app_frames narrow hook nss a = ret a' \<and> wf_app a'
    else app_frames narrow hook nss a = fail BadIndex"
  using app_frames_run[OF assms, of nss narrow] by (auto simp del: safe_native.simps)

text \<open>
  Every enumerator of the key codes is a valid index. The table of key names for Lua has the right codes
  except that G and H are exchanged, and the table of mouse buttons is empty.
\<close>

theorem lua_key_table:
  "(\<forall>(name, code) \<in> set KeyCode_Id. 0 \<le> code \<and> code < int MAX_KEYS) \<and> distinct (map snd KeyCode_Id) \<and>
   (\<forall>name \<in> dom (fst exportLua) \<inter> dom key_code - {''G'', ''H''}. fst exportLua name = key_code name) \<and>
   fst exportLua ''G'' = key_code ''H'' \<and> fst exportLua ''H'' = key_code ''G'' \<and> snd exportLua = Map.empty"
proof -
  have codes: "\<forall>(name, code) \<in> set KeyCode_Id. 0 \<le> code \<and> code < int MAX_KEYS" "distinct (map snd KeyCode_Id)"
    by (simp_all add: KeyCode_Id_def MAX_KEYS_def)
  have table: "\<forall>(name, key) \<in> set keyItems. name = key \<or> name = ''G'' \<or> name = ''H'' \<or> key_code name = None"
    by code_simp
  have "fst exportLua name = key_code name" if dom: "name \<in> dom (fst exportLua) \<inter> dom key_code - {''G'', ''H''}" for name
  proof -
    from dom obtain c where c: "fst exportLua name = Some c" by auto
    from exportLua_Some[OF this] obtain key where "(name, key) \<in> set keyItems" "key_code key = Some c" by blast
    with table dom c show ?thesis by force
  qed
  moreover have "fst exportLua ''G'' = key_code ''H''" "fst exportLua ''H'' = key_code ''G''"
    unfolding exportLua_def Let_def fst_conv
    by (rule lua_assign_last[of _ "take 7 keyItems" _ _ "drop 8 keyItems"] 
        lua_assign_last[of _ "take 6 keyItems" _ _ "drop 7 keyItems"]; simp add: keyItems_def)+
  moreover have "snd exportLua = Map.empty" by (simp add: exportLua_def Let_def)
  ultimately show ?thesis using codes by blast
qed

section \<open>Witnesses\<close>

definition only_input :: "int hook" where
  "only_input k t = (if k = 1 \<and> input_subscribes t then Some (\<lambda>e w. (False, [])) else None)"

definition new_app :: "int app_state" where
  "new_app = \<lparr>dispatch_world = \<lparr>dispatchers = (\<lambda>_. \<lparr>eventHandlers = [1], eventHandlerAddSet = {},
         eventHandlerDeleteSet = {}, eventQueue = []\<rparr>), priority = (\<lambda>_. 0), owner = (\<lambda>_. Some 0),
         promises = 0, results = [], invoked = []\<rparr>,
       app_input = reset_input \<lparr>keyPressed = [], keyHeld = [], mouseHeld = [], mouseClicked = [],
         scrollOffset = 0, mouseOnScreen = False, windowFocus = False, mousePosition = (0, 0)\<rparr>,
       scripts_saw = [], scenes_saw = []\<rparr>"

lemma new_app_ok: "quiet_hooks only_input" "wf_app new_app" "scripts_saw new_app = []"
  by (auto simp: quiet_hooks_def only_input_def new_app_def wf_app_def split: if_splits)

text \<open>The key A is pressed in one frame and repeated in the next.\<close>

definition typed :: "int native list list" where
  "typed = [[Key 65 1, CursorPos 3 4], [Key 65 2, MouseButton 1 1 3 4]]"

lemma typed_returns: "\<exists>a. app_frames id only_input typed new_app = ret a"
proof -
  have "\<forall>ns \<in> set typed. \<forall>n \<in> set ns. safe_native n"
    by (simp add: typed_def GLFW_PRESS_def GLFW_RELEASE_def GLFW_REPEAT_def)
  from app_frames_run(1)[OF new_app_ok(1,2) this] show ?thesis by blast
qed

theorem scene_reads_last_events_witness:
  "\<exists>a. app_frames id only_input typed new_app = ret a \<and> isKeyHeld 65 (app_input a) = ret True \<and>
     isKeyPressed 65 (app_input a) = ret False \<and> isMouseClicked 2 (app_input a) = ret True"
proof -
  obtain a where a: "app_frames id only_input typed new_app = ret a" using typed_returns by blast
  have t: "typed = [[Key 65 1, CursorPos 3 4]] @ [[Key 65 2, MouseButton 1 1 3 4]]" by (simp add: typed_def)
  from scene_reads_last_events[OF new_app_ok(1,2) a[unfolded t], of 65 2] a show ?thesis
    by (simp add: latest_def native_events_def List.map_filter_simps button_of_def
        GLFW_PRESS_def GLFW_RELEASE_def GLFW_REPEAT_def)
qed

theorem scripts_never_see_presses_witness:
  "\<exists>a i. app_frames id only_input typed new_app = ret a \<and> i \<in> set (scripts_saw a) \<and> isKeyPressed 65 i = ret False"
proof -
  obtain a where a: "app_frames id only_input typed new_app = ret a" using typed_returns by blast
  from scripts_never_see_presses[OF new_app_ok a] have "length (scripts_saw a) = 2"
    "\<forall>i \<in> set (scripts_saw a). isKeyPressed 65 i = ret False" by (simp_all add: typed_def)
  then show ?thesis using a by (cases "scripts_saw a") auto
qed

theorem frames_fault_on_unknown_devices_witness:
  "app_frames id only_input [[Key 65 1], [Key (- 1) 1]] new_app = fail BadIndex"
  using frames_fault_on_unknown_devices[OF new_app_ok(1,2), of "[[Key 65 1], [Key (- 1) 1]]" id]
  by (simp add: to_u16_def GLFW_PRESS_def)

end
