(* ===== verification/Vulkan_Choices.thy ===== *)
theory Vulkan_Choices
  imports Maple_Prelude "HOL-Library.Word"
begin

unbundle bit_operations_syntax

text \<open>
  The choices the Vulkan layer makes before it draws: memory types, queue families, extensions
  and layers, the physical device, the format, mode, extent and image count of the swap chain,
  depth formats, and the conversion of the engine's enumerations
  (\<^verbatim>\<open>Engine/Vulkan/VulkanHelper.cpp\<close>, \<^verbatim>\<open>VulkanDevice.cpp\<close>, \<^verbatim>\<open>VulkanSwapChain.cpp\<close>). What the driver
  answers to the queries of a physical device is a record; flags are 32-bit words.
\<close>

section \<open>What a device reports\<close>

datatype vk_format =
  R8_UNORM | R8_SRGB | R8G8_UNORM | R8G8_SRGB | R8G8B8_UNORM | R8G8B8_SRGB
| R8G8B8A8_UNORM | R8G8B8A8_SRGB | B8G8R8A8_UNORM | B8G8R8A8_SRGB
| R16G16B16_SFLOAT | R16G16B16A16_SFLOAT | R32G32B32_SFLOAT | R32G32B32A32_SFLOAT
| D32_SFLOAT_S8_UINT | D32_SFLOAT | D24_UNORM_S8_UINT | D16_UNORM_S8_UINT | D16_UNORM

datatype present_mode = IMMEDIATE | MAILBOX | FIFO | FIFO_RELAXED

record queue_family =
  queueFlags :: "32 word"
  presentSupport :: bool

record capabilities =
  minImageCount :: nat
  maxImageCount :: nat
  currentExtent :: "nat \<times> nat"
  minImageExtent :: "nat \<times> nat"
  maxImageExtent :: "nat \<times> nat"

record vk_device =
  queueFamilies :: "queue_family list"
  extensionNames :: "string list"
  surfaceCapabilities :: capabilities
  surfaceFormats :: "(vk_format \<times> bool) list"
  surfacePresentModes :: "present_mode list"
  samplerAnisotropy :: bool
  memoryTypes :: "32 word list"
  linearTilingFeatures :: "vk_format \<Rightarrow> 32 word"
  optimalTilingFeatures :: "vk_format \<Rightarrow> 32 word"

text \<open>The flag of a surface format says whether its colour space is the non-linear sRGB one.\<close>

definition VK_QUEUE_GRAPHICS_BIT :: "32 word" where "VK_QUEUE_GRAPHICS_BIT = 1"
definition VK_QUEUE_COMPUTE_BIT :: "32 word" where "VK_QUEUE_COMPUTE_BIT = 2"
definition DEPTH_STENCIL_ATTACHMENT_BIT :: "32 word" where "DEPTH_STENCIL_ATTACHMENT_BIT = 0x200"

section \<open>Memory types\<close>

definition memory_fits :: "32 word \<Rightarrow> 32 word \<Rightarrow> 32 word list \<Rightarrow> nat \<Rightarrow> bool" where
  "memory_fits typeFilter properties types i \<longleftrightarrow>
     typeFilter AND push_bit i 1 \<noteq> 0 \<and> types ! i AND properties = properties"

definition findMemoryType :: "vk_device \<Rightarrow> 32 word \<Rightarrow> 32 word \<Rightarrow> nat run" where
  "findMemoryType dev typeFilter properties =
     (case find (memory_fits typeFilter properties (memoryTypes dev)) [0..<length (memoryTypes dev)] of
        Some i \<Rightarrow> ret i
      | None \<Rightarrow> fail (RuntimeError ''failed to find suitable memory type!''))"

section \<open>Extensions and layers\<close>

definition checkDeviceExtensionSupport :: "vk_device \<Rightarrow> string list \<Rightarrow> bool" where
  "checkDeviceExtensionSupport dev deviceExtensions \<longleftrightarrow>
     fold (\<lambda>extension required. required - {extension}) (extensionNames dev) (set deviceExtensions) = {}"

fun layer_found :: "string \<Rightarrow> string list \<Rightarrow> bool" where
  "layer_found layerName [] = False"
| "layer_found layerName (l # ls) = (if layerName = l then True else layer_found layerName ls)"

fun checkValidationLayerSupport :: "string list \<Rightarrow> string list \<Rightarrow> bool" where
  "checkValidationLayerSupport availableLayers [] = True"
| "checkValidationLayerSupport availableLayers (layerName # layerNames) =
     (if \<not> layer_found layerName availableLayers then False
      else checkValidationLayerSupport availableLayers layerNames)"

section \<open>Queue families\<close>

record family_indices =
  graphicsFamily :: "nat option"
  presentFamily :: "nat option"
  computeFamily :: "nat option"

definition isComplete :: "family_indices \<Rightarrow> bool" where
  "isComplete ind \<longleftrightarrow> graphicsFamily ind \<noteq> None \<and> presentFamily ind \<noteq> None \<and> computeFamily ind \<noteq> None"

definition note_family :: "nat \<Rightarrow> queue_family \<Rightarrow> family_indices \<Rightarrow> family_indices" where
  "note_family i q ind =
     (let ind = (if queueFlags q AND VK_QUEUE_GRAPHICS_BIT \<noteq> 0 then ind\<lparr>graphicsFamily := Some i\<rparr> else ind);
          ind = (if queueFlags q AND VK_QUEUE_COMPUTE_BIT \<noteq> 0 then ind\<lparr>computeFamily := Some i\<rparr> else ind)
      in if presentSupport q then ind\<lparr>presentFamily := Some i\<rparr> else ind)"

fun family_loop :: "nat \<Rightarrow> queue_family list \<Rightarrow> family_indices \<Rightarrow> family_indices" where
  "family_loop i [] ind = ind"
| "family_loop i (q # qs) ind =
     (let ind = note_family i q ind in if isComplete ind then ind else family_loop (Suc i) qs ind)"

definition findQueueFamilies :: "vk_device \<Rightarrow> family_indices" where
  "findQueueFamilies dev =
     family_loop 0 (queueFamilies dev) \<lparr>graphicsFamily = None, presentFamily = None, computeFamily = None\<rparr>"

section \<open>The physical and the logical device\<close>

definition deviceExtensions :: "string list" where
  "deviceExtensions = [''VK_KHR_swapchain'', ''VK_KHR_shader_non_semantic_info'', ''VK_KHR_maintenance1'']"

definition isDeviceSuitable :: "vk_device \<Rightarrow> family_indices \<times> bool" where
  "isDeviceSuitable dev =
     (let indices = findQueueFamilies dev;
          extensionsSupported = checkDeviceExtensionSupport dev deviceExtensions;
          swapChainAdequate = (if extensionsSupported
            then surfaceFormats dev \<noteq> [] \<and> surfacePresentModes dev \<noteq> [] else False)
      in (indices, isComplete indices \<and> extensionsSupported \<and> swapChainAdequate \<and> samplerAnisotropy dev))"

fun select_device :: "vk_device list \<Rightarrow> vk_device option \<Rightarrow> family_indices \<Rightarrow> vk_device option \<times> family_indices" where
  "select_device [] chosen indices = (chosen, indices)"
| "select_device (d # ds) chosen indices =
     (let (ind, suitable) = isDeviceSuitable d
      in if suitable then (Some d, ind) else select_device ds chosen ind)"

text \<open>
  The handle starts with the value \<open>garbage\<close> that the memory held, because the class does not
  initialise it; \<open>None\<close> is the null handle.
\<close>

definition VulkanPhysicalDevice :: "vk_device option \<Rightarrow> vk_device list \<Rightarrow> (vk_device \<times> family_indices) run" where
  "VulkanPhysicalDevice garbage devices =
     (if devices = [] then fail (RuntimeError ''failed to find GPUs with Vulkan support!'')
      else
        let (handle, indices) = select_device devices garbage
              \<lparr>graphicsFamily = None, presentFamily = None, computeFamily = None\<rparr>
        in case handle of
             None \<Rightarrow> fail (RuntimeError ''failed to find a suitable GPU!'')
           | Some d \<Rightarrow> ret (d, indices))"

definition optional_value :: "'a option \<Rightarrow> 'a run" where
  "optional_value m = (case m of None \<Rightarrow> fail (RuntimeError ''bad optional access'') | Some x \<Rightarrow> ret x)"

text \<open>The families for which the logical device creates a queue, in the order of the set.\<close>

definition device_init :: "vk_device option \<Rightarrow> vk_device list \<Rightarrow> (vk_device \<times> nat list) run" where
  "device_init garbage devices =
     rbind (VulkanPhysicalDevice garbage devices) (\<lambda>(d, _).
       let indices = findQueueFamilies d in
       rbind (optional_value (graphicsFamily indices)) (\<lambda>g.
       rbind (optional_value (presentFamily indices)) (\<lambda>p.
       ret (d, if g < p then [g, p] else if p < g then [p, g] else [g]))))"

section \<open>The swap chain\<close>

definition chooseSwapSurfaceFormat :: "(vk_format \<times> bool) list \<Rightarrow> (vk_format \<times> bool) run" where
  "chooseSwapSurfaceFormat availableFormats =
     (case find (\<lambda>f. f = (B8G8R8A8_SRGB, True)) availableFormats of
        Some f \<Rightarrow> ret f
      | None \<Rightarrow> (case availableFormats of [] \<Rightarrow> fail BadIndex | f # _ \<Rightarrow> ret f))"

fun present_mode_loop :: "present_mode list \<Rightarrow> present_mode \<Rightarrow> present_mode" where
  "present_mode_loop [] swapchainPresentMode = swapchainPresentMode"
| "present_mode_loop (m # ms) swapchainPresentMode =
     (if m = MAILBOX then MAILBOX
      else present_mode_loop ms (if m = IMMEDIATE then IMMEDIATE else swapchainPresentMode))"

definition chooseSwapPresentMode :: "present_mode list \<Rightarrow> bool \<Rightarrow> present_mode" where
  "chooseSwapPresentMode availablePresentModes vsync =
     (if \<not> vsync then present_mode_loop availablePresentModes FIFO else FIFO)"

definition clamp_extent :: "nat \<Rightarrow> nat \<Rightarrow> nat \<Rightarrow> nat" where
  "clamp_extent lo hi x = max lo (min hi x)"

definition chooseSwapExtent :: "nat \<times> nat \<Rightarrow> capabilities \<Rightarrow> nat \<times> nat" where
  "chooseSwapExtent framebufferSize caps =
     (if fst (currentExtent caps) \<noteq> 2 ^ 32 - 1 then currentExtent caps
      else (clamp_extent (fst (minImageExtent caps)) (fst (maxImageExtent caps)) (fst framebufferSize),
            clamp_extent (snd (minImageExtent caps)) (snd (maxImageExtent caps)) (snd framebufferSize)))"

record swapchain_info =
  info_minImageCount :: nat
  info_format :: "vk_format \<times> bool"
  info_extent :: "nat \<times> nat"
  info_concurrent :: "nat list"
  info_presentMode :: present_mode

definition swapchain_create_info ::
  "nat \<times> nat \<Rightarrow> vk_device \<Rightarrow> family_indices \<Rightarrow> swapchain_info run" where
  "swapchain_create_info framebufferSize dev indices =
     rbind (chooseSwapSurfaceFormat (surfaceFormats dev)) (\<lambda>surfaceFormat.
     let presentMode = chooseSwapPresentMode (surfacePresentModes dev) False;
         extent = chooseSwapExtent framebufferSize (surfaceCapabilities dev);
         imageCount = min (maxImageCount (surfaceCapabilities dev)) 3
     in rbind (optional_value (graphicsFamily indices)) (\<lambda>g.
        rbind (optional_value (presentFamily indices)) (\<lambda>p.
        ret \<lparr>info_minImageCount = imageCount, info_format = surfaceFormat, info_extent = extent,
             info_concurrent = (if graphicsFamily indices \<noteq> presentFamily indices then [g, p] else []),
             info_presentMode = presentMode\<rparr>)))"

section \<open>Depth formats\<close>

definition getSupportedDepthFormat :: "vk_device \<Rightarrow> vk_format option" where
  "getSupportedDepthFormat dev =
     find (\<lambda>f. optimalTilingFeatures dev f AND DEPTH_STENCIL_ATTACHMENT_BIT \<noteq> 0)
       [D32_SFLOAT_S8_UINT, D32_SFLOAT, D24_UNORM_S8_UINT, D16_UNORM_S8_UINT, D16_UNORM]"

datatype tiling = LINEAR_TILING | OPTIMAL_TILING

fun findSupportedFormat :: "vk_device \<Rightarrow> vk_format list \<Rightarrow> tiling \<Rightarrow> 32 word \<Rightarrow> vk_format run" where
  "findSupportedFormat dev [] tiling features = fail (RuntimeError ''failed to find supported format!'')"
| "findSupportedFormat dev (f # fs) tiling features =
     (if tiling = LINEAR_TILING \<and> linearTilingFeatures dev f AND features = features then ret f
      else if tiling = OPTIMAL_TILING \<and> optimalTilingFeatures dev f AND features = features then ret f
      else findSupportedFormat dev fs tiling features)"

definition findDepthFormat :: "vk_device \<Rightarrow> vk_format run" where
  "findDepthFormat dev =
     findSupportedFormat dev [D32_SFLOAT, D32_SFLOAT_S8_UINT, D24_UNORM_S8_UINT] OPTIMAL_TILING
       DEPTH_STENCIL_ATTACHMENT_BIT"

section \<open>Conversions\<close>

datatype texture_format =
  TF_NONE | TF_R8 | TF_RG8 | TF_RGB8 | TF_RGBA8 | TF_RGB16 | TF_RGBA16 | TF_RGB32 | TF_RGBA32
| TF_RGB | TF_RGBA | TF_BGRA8 | TF_DEPTH | TF_STENCIL | TF_DEPTH_STENCIL

fun textureFormatToVK :: "texture_format \<Rightarrow> bool \<Rightarrow> vk_format" where
  "textureFormatToVK TF_RGBA srgb = R8G8B8A8_UNORM"
| "textureFormatToVK TF_RGB srgb = (if srgb then R8G8B8_SRGB else R8G8B8_UNORM)"
| "textureFormatToVK TF_R8 srgb = (if srgb then R8_SRGB else R8_UNORM)"
| "textureFormatToVK TF_RG8 srgb = (if srgb then R8G8_SRGB else R8G8_UNORM)"
| "textureFormatToVK TF_RGB8 srgb = (if srgb then R8G8B8A8_SRGB else R8G8B8A8_UNORM)"
| "textureFormatToVK TF_RGBA8 srgb = (if srgb then R8G8B8A8_SRGB else R8G8B8A8_UNORM)"
| "textureFormatToVK TF_RGB16 srgb = R16G16B16_SFLOAT"
| "textureFormatToVK TF_RGBA16 srgb = R16G16B16A16_SFLOAT"
| "textureFormatToVK TF_RGB32 srgb = R32G32B32_SFLOAT"
| "textureFormatToVK TF_RGBA32 srgb = R32G32B32A32_SFLOAT"
| "textureFormatToVK TF_BGRA8 srgb = (if srgb then B8G8R8A8_SRGB else B8G8R8A8_UNORM)"
| "textureFormatToVK _ srgb = (if srgb then R8G8B8A8_SRGB else R8G8B8A8_UNORM)"

datatype texture_filter = FILTER_NONE | FILTER_LINEAR | FILTER_NEAREST | LINEAR_MIPMAP_LINEAR
datatype vk_filter = VK_FILTER_NEAREST | VK_FILTER_LINEAR

fun textureFilterToVK :: "texture_filter \<Rightarrow> vk_filter" where
  "textureFilterToVK FILTER_NEAREST = VK_FILTER_NEAREST"
| "textureFilterToVK FILTER_LINEAR = VK_FILTER_LINEAR"
| "textureFilterToVK FILTER_NONE = VK_FILTER_LINEAR"
| "textureFilterToVK _ = VK_FILTER_LINEAR"

datatype texture_wrap = WRAP_NONE | REPEAT | CLAMP | MIRRORED_REPEAT | CLAMP_TO_EDGE | CLAMP_TO_BORDER
datatype address_mode = ADDRESS_REPEAT | ADDRESS_MIRRORED_REPEAT | ADDRESS_CLAMP_TO_EDGE | ADDRESS_CLAMP_TO_BORDER

fun textureWrapToVK :: "texture_wrap \<Rightarrow> address_mode" where
  "textureWrapToVK CLAMP = ADDRESS_CLAMP_TO_EDGE"
| "textureWrapToVK CLAMP_TO_BORDER = ADDRESS_CLAMP_TO_BORDER"
| "textureWrapToVK CLAMP_TO_EDGE = ADDRESS_CLAMP_TO_EDGE"
| "textureWrapToVK REPEAT = ADDRESS_REPEAT"
| "textureWrapToVK MIRRORED_REPEAT = ADDRESS_MIRRORED_REPEAT"
| "textureWrapToVK _ = ADDRESS_CLAMP_TO_EDGE"

text \<open>The texts for the results that the source names; the numbers are those of the Vulkan headers.\<close>

definition error_names :: "(int \<times> string) list" where
  "error_names = [(1, ''NOT_READY''), (2, ''TIMEOUT''), (3, ''EVENT_SET''), (4, ''EVENT_RESET''), (5, ''INCOMPLETE''),
     (- 1, ''ERROR_OUT_OF_HOST_MEMORY''), (- 2, ''ERROR_OUT_OF_DEVICE_MEMORY''),
     (- 3, ''ERROR_INITIALIZATION_FAILED''), (- 4, ''ERROR_DEVICE_LOST''), (- 5, ''ERROR_MEMORY_MAP_FAILED''),
     (- 6, ''ERROR_LAYER_NOT_PRESENT''), (- 7, ''ERROR_EXTENSION_NOT_PRESENT''), (- 8, ''ERROR_FEATURE_NOT_PRESENT''),
     (- 9, ''ERROR_INCOMPATIBLE_DRIVER''), (- 10, ''ERROR_TOO_MANY_OBJECTS''), (- 11, ''ERROR_FORMAT_NOT_SUPPORTED''),
     (- 1000000000, ''ERROR_SURFACE_LOST_KHR''), (- 1000000001, ''ERROR_NATIVE_WINDOW_IN_USE_KHR''),
     (1000001003, ''SUBOPTIMAL_KHR''), (- 1000001004, ''ERROR_OUT_OF_DATE_KHR''),
     (- 1000003001, ''ERROR_INCOMPATIBLE_DISPLAY_KHR''), (- 1000011001, ''ERROR_VALIDATION_FAILED_EXT''),
     (- 1000012000, ''ERROR_INVALID_SHADER_NV'')]"

definition errorString :: "int \<Rightarrow> string" where
  "errorString errorCode = (case map_of error_names errorCode of Some s \<Rightarrow> s | None \<Rightarrow> ''UNKNOWN_ERROR'')"

definition physicalDeviceTypeString :: "int \<Rightarrow> string" where
  "physicalDeviceTypeString type =
     (if type = 0 then ''OTHER'' else if type = 1 then ''INTEGRATED_GPU'' else if type = 2 then ''DISCRETE_GPU''
      else if type = 3 then ''VIRTUAL_GPU'' else ''UNKNOWN_DEVICE_TYPE'')"

section \<open>Memory types: the first that fits\<close>

definition usable_memory :: "vk_device \<Rightarrow> 32 word \<Rightarrow> 32 word \<Rightarrow> nat \<Rightarrow> bool" where
  "usable_memory dev typeFilter properties i \<longleftrightarrow> i < length (memoryTypes dev) \<and> bit typeFilter i \<and>
     (\<forall>b. bit properties b \<longrightarrow> bit (memoryTypes dev ! i) b)"

text \<open>
  The memory type chosen is the first whose bit is set in the filter and that has all the
  requested properties; the call throws exactly when there is none.
\<close>

theorem findMemoryType_first:
  "(findMemoryType dev typeFilter properties = ret i \<longleftrightarrow>
      usable_memory dev typeFilter properties i \<and> (\<forall>j < i. \<not> usable_memory dev typeFilter properties j)) \<and>
   (findMemoryType dev typeFilter properties = fail (RuntimeError ''failed to find suitable memory type!'') \<longleftrightarrow>
      (\<forall>j. \<not> usable_memory dev typeFilter properties j))"
proof -
  let ?fits = "usable_memory dev typeFilter properties"
  let ?n = "length (memoryTypes dev)"
  have bits: "(x AND properties = properties) = (\<forall>b. bit properties b \<longrightarrow> bit x b)" for x :: "32 word"
  proof
    assume "x AND properties = properties"
    then show "\<forall>b. bit properties b \<longrightarrow> bit x b" using bit_and_iff[of x properties] by metis
  qed (rule bit_eqI, auto simp: bit_and_iff)
  have f: "?fits j \<longleftrightarrow> j < ?n \<and> memory_fits typeFilter properties (memoryTypes dev) j" for j
    unfolding usable_memory_def memory_fits_def bits bit_iff_and_push_bit_not_eq_0 by (rule refl)
  show ?thesis
  proof (cases "find (memory_fits typeFilter properties (memoryTypes dev)) [0..<?n]")
    case None
    then have "\<not> ?fits j" for j by (auto simp: find_None_iff f)
    with None show ?thesis by (simp add: findMemoryType_def)
  next
    case (Some k)
    then have k: "k < ?n" "memory_fits typeFilter properties (memoryTypes dev) k"
      "\<And>j. j < k \<Longrightarrow> \<not> memory_fits typeFilter properties (memoryTypes dev) j"
      by (auto simp: find_Some_iff)
    then have "?fits k" "\<And>j. j < k \<Longrightarrow> \<not> ?fits j" by (simp_all add: f)
    with Some show ?thesis
      by (auto simp: findMemoryType_def) (metis linorder_neqE_nat)
  qed
qed

section \<open>Extensions and layers: the same test\<close>

lemma fold_erase: "fold (\<lambda>x S. S - {x}) xs S = S - set xs"
  by (induction xs arbitrary: S) auto

lemma layer_found_iff: "layer_found l ls \<longleftrightarrow> l \<in> set ls"
  by (induction ls) auto

lemma checkValidationLayerSupport_iff: "checkValidationLayerSupport available names \<longleftrightarrow> set names \<subseteq> set available"
  by (induction names) (auto simp: layer_found_iff)

text \<open>
  The two checks, one by erasing from a set and one by nested loops, decide the same question:
  whether every requested name is available.
\<close>

theorem support_checks_agree:
  "checkDeviceExtensionSupport dev names = checkValidationLayerSupport (extensionNames dev) names \<and>
   (checkDeviceExtensionSupport dev names \<longleftrightarrow> set names \<subseteq> set (extensionNames dev))"
  by (simp add: checkDeviceExtensionSupport_def fold_erase checkValidationLayerSupport_iff)

section \<open>Queue families\<close>

definition is_graphics :: "queue_family \<Rightarrow> bool" where
  "is_graphics q \<longleftrightarrow> bit (queueFlags q) 0"

definition is_compute :: "queue_family \<Rightarrow> bool" where
  "is_compute q \<longleftrightarrow> bit (queueFlags q) 1"

lemma queue_bits:
  "queueFlags q AND VK_QUEUE_GRAPHICS_BIT \<noteq> 0 \<longleftrightarrow> is_graphics q"
  "queueFlags q AND VK_QUEUE_COMPUTE_BIT \<noteq> 0 \<longleftrightarrow> is_compute q"
  unfolding is_graphics_def is_compute_def bit_iff_and_push_bit_not_eq_0
  by (simp_all add: VK_QUEUE_GRAPHICS_BIT_def VK_QUEUE_COMPUTE_BIT_def)

text \<open>An index tracks a capability over the families seen so far.\<close>

definition tracks :: "(queue_family \<Rightarrow> bool) \<Rightarrow> queue_family list \<Rightarrow> nat option \<Rightarrow> bool" where
  "tracks P ps m \<longleftrightarrow> (case m of None \<Rightarrow> \<forall>q \<in> set ps. \<not> P q | Some i \<Rightarrow> i < length ps \<and> P (ps ! i))"

lemma tracks_Some: "tracks P ps (Some i) \<longleftrightarrow> i < length ps \<and> P (ps ! i)"
  by (simp add: tracks_def)

lemma tracks_None: "tracks P ps None \<longleftrightarrow> (\<forall>q \<in> set ps. \<not> P q)"
  by (simp add: tracks_def)

lemma tracks_snoc: "tracks P ps m \<Longrightarrow> tracks P (ps @ [q]) (if P q then Some (length ps) else m)"
  by (auto simp: tracks_def nth_append split: option.splits)

definition tracks_all :: "queue_family list \<Rightarrow> family_indices \<Rightarrow> bool" where
  "tracks_all ps ind \<longleftrightarrow> tracks is_graphics ps (graphicsFamily ind) \<and>
     tracks presentSupport ps (presentFamily ind) \<and> tracks is_compute ps (computeFamily ind)"

lemma note_family_fields:
  "graphicsFamily (note_family i q ind) = (if is_graphics q then Some i else graphicsFamily ind)"
  "presentFamily (note_family i q ind) = (if presentSupport q then Some i else presentFamily ind)"
  "computeFamily (note_family i q ind) = (if is_compute q then Some i else computeFamily ind)"
  by (simp_all add: note_family_def queue_bits Let_def)

lemma note_family_tracks: "tracks_all ps ind \<Longrightarrow> tracks_all (ps @ [q]) (note_family (length ps) q ind)"
  by (simp add: tracks_all_def note_family_fields tracks_snoc del: if_split)

lemma family_loop_tracks:
  "tracks_all ps ind \<Longrightarrow>
   \<exists>us vs. qs = us @ vs \<and> tracks_all (ps @ us) (family_loop (length ps) qs ind) \<and>
     (vs = [] \<or> isComplete (family_loop (length ps) qs ind))"
proof (induction qs arbitrary: ps ind)
  case Nil
  then show ?case by simp
next
  case (Cons q qs)
  note t = note_family_tracks[OF Cons.prems, of q]
  show ?case
  proof (cases "isComplete (note_family (length ps) q ind)")
    case True
    with t show ?thesis by (intro exI[of _ "[q]"] exI[of _ qs]) simp
  next
    case False
    from Cons.IH[OF t] obtain us vs where "qs = us @ vs" "tracks_all ((ps @ [q]) @ us)
        (family_loop (length (ps @ [q])) qs (note_family (length ps) q ind))"
      "vs = [] \<or> isComplete (family_loop (length (ps @ [q])) qs (note_family (length ps) q ind))" by blast
    with False show ?thesis by (intro exI[of _ "q # us"] exI[of _ vs]) simp
  qed
qed

lemma findQueueFamilies_tracks:
  "\<exists>us vs. queueFamilies dev = us @ vs \<and> tracks_all us (findQueueFamilies dev) \<and>
     (vs = [] \<or> isComplete (findQueueFamilies dev))"
  using family_loop_tracks[of "[]" "\<lparr>graphicsFamily = None, presentFamily = None, computeFamily = None\<rparr>"]
  by (simp add: findQueueFamilies_def tracks_all_def tracks_def)

lemma tracks_append: "tracks P us (Some i) \<Longrightarrow> tracks P (us @ vs) (Some i)"
  by (auto simp: tracks_Some nth_append)

lemma findQueueFamilies_sound:
  "graphicsFamily (findQueueFamilies dev) = Some i \<Longrightarrow> tracks is_graphics (queueFamilies dev) (Some i)"
  "presentFamily (findQueueFamilies dev) = Some i \<Longrightarrow> tracks presentSupport (queueFamilies dev) (Some i)"
  "computeFamily (findQueueFamilies dev) = Some i \<Longrightarrow> tracks is_compute (queueFamilies dev) (Some i)"
  using findQueueFamilies_tracks[of dev] by (auto simp: tracks_all_def tracks_append)

lemma findQueueFamilies_complete:
  "isComplete (findQueueFamilies dev) \<longleftrightarrow>
   (\<exists>q \<in> set (queueFamilies dev). is_graphics q) \<and> (\<exists>q \<in> set (queueFamilies dev). presentSupport q) \<and>
   (\<exists>q \<in> set (queueFamilies dev). is_compute q)"
proof
  assume "isComplete (findQueueFamilies dev)"
  then show "(\<exists>q \<in> set (queueFamilies dev). is_graphics q) \<and> (\<exists>q \<in> set (queueFamilies dev). presentSupport q) \<and>
      (\<exists>q \<in> set (queueFamilies dev). is_compute q)"
    unfolding isComplete_def using findQueueFamilies_sound[of dev] by (meson not_None_eq nth_mem tracks_Some)
next
  assume a: "(\<exists>q \<in> set (queueFamilies dev). is_graphics q) \<and> (\<exists>q \<in> set (queueFamilies dev). presentSupport q) \<and>
      (\<exists>q \<in> set (queueFamilies dev). is_compute q)"
  from findQueueFamilies_tracks[of dev] obtain us vs where u: "queueFamilies dev = us @ vs"
    "tracks_all us (findQueueFamilies dev)" "vs = [] \<or> isComplete (findQueueFamilies dev)" by blast
  show "isComplete (findQueueFamilies dev)"
  proof (rule ccontr)
    assume n: "\<not> isComplete (findQueueFamilies dev)"
    with u have "tracks_all (queueFamilies dev) (findQueueFamilies dev)" by simp
    with a n show False unfolding isComplete_def tracks_all_def by (metis tracks_None)
  qed
qed

section \<open>Device selection\<close>

definition suitable :: "vk_device \<Rightarrow> bool" where
  "suitable d \<longleftrightarrow> (\<exists>q \<in> set (queueFamilies d). is_graphics q) \<and> (\<exists>q \<in> set (queueFamilies d). presentSupport q) \<and>
     (\<exists>q \<in> set (queueFamilies d). is_compute q) \<and> set deviceExtensions \<subseteq> set (extensionNames d) \<and>
     surfaceFormats d \<noteq> [] \<and> surfacePresentModes d \<noteq> [] \<and> samplerAnisotropy d"

lemma isDeviceSuitable_eq: "isDeviceSuitable d = (findQueueFamilies d, suitable d)"
proof -
  have "checkDeviceExtensionSupport d deviceExtensions = (set deviceExtensions \<subseteq> set (extensionNames d))"
    by (simp add: checkDeviceExtensionSupport_def fold_erase)
  then show ?thesis
    by (auto simp: isDeviceSuitable_def suitable_def findQueueFamilies_complete Let_def)
qed

lemma select_device_first:
  "find suitable ds = Some d \<Longrightarrow> select_device ds chosen ind = (Some d, findQueueFamilies d)"
  "find suitable ds = None \<Longrightarrow> fst (select_device ds chosen ind) = chosen"
  by (induction ds arbitrary: ind) (auto simp: isDeviceSuitable_eq split: if_splits)

lemma chooseSwapSurfaceFormat_spec:
  assumes "fs \<noteq> []"
  shows "\<exists>f \<in> set fs. chooseSwapSurfaceFormat fs = ret f \<and>
    ((B8G8R8A8_SRGB, True) \<in> set fs \<longrightarrow> f = (B8G8R8A8_SRGB, True))"
proof (cases "find (\<lambda>f. f = (B8G8R8A8_SRGB, True)) fs")
  case None
  then have "(B8G8R8A8_SRGB, True) \<notin> set fs" by (auto simp: find_None_iff)
  with assms None show ?thesis by (cases fs) (auto simp: chooseSwapSurfaceFormat_def)
next
  case (Some f)
  then have "f = (B8G8R8A8_SRGB, True)" "f \<in> set fs" by (auto simp: find_Some_iff) (metis nth_mem)
  with Some show ?thesis by (auto simp: chooseSwapSurfaceFormat_def)
qed

text \<open>
  When some device is suitable, the first such device is taken whatever the handle held before, its
  queue families are all there, so that creating the logical device and describing the swap chain
  cannot fail on a missing value; queues are created once each for the graphics and the presenting
  family, and these are the families that share the images.
\<close>

theorem device_and_swapchain:
  assumes "find suitable devices = Some d"
  shows "\<exists>g p qs info. VulkanPhysicalDevice garbage devices = ret (d, findQueueFamilies d) \<and>
    device_init garbage devices = ret (d, qs) \<and> set qs = {g, p} \<and> distinct qs \<and> sorted qs \<and>
    tracks is_graphics (queueFamilies d) (Some g) \<and> tracks presentSupport (queueFamilies d) (Some p) \<and>
    swapchain_create_info framebufferSize d (findQueueFamilies d) = ret info \<and>
    set (info_concurrent info) = (if g = p then {} else set qs) \<and> info_format info \<in> set (surfaceFormats d)"
proof -
  let ?ind = "findQueueFamilies d"
  have s: "suitable d" using assms by (auto simp: find_Some_iff)
  then have "isComplete ?ind" by (simp add: findQueueFamilies_complete suitable_def)
  then obtain g p where gp: "graphicsFamily ?ind = Some g" "presentFamily ?ind = Some p"
    by (auto simp: isComplete_def)
  have "devices \<noteq> []" using assms by auto
  then have dev: "VulkanPhysicalDevice garbage devices = ret (d, ?ind)"
    using select_device_first(1)[OF assms] by (simp add: VulkanPhysicalDevice_def)
  let ?qs = "if g < p then [g, p] else if p < g then [p, g] else [g]"
  have qs: "set ?qs = {g, p}" "distinct ?qs" "sorted ?qs" by auto
  have init: "device_init garbage devices = ret (d, ?qs)"
    using gp by (simp add: device_init_def dev optional_value_def Let_def)
  obtain f where f: "f \<in> set (surfaceFormats d)" "chooseSwapSurfaceFormat (surfaceFormats d) = ret f"
    using chooseSwapSurfaceFormat_spec[of "surfaceFormats d"] s by (auto simp: suitable_def)
  obtain info where info: "swapchain_create_info framebufferSize d ?ind = ret info"
    "info_concurrent info = (if g = p then [] else [g, p])" "info_format info = f"
    using f gp by (simp add: swapchain_create_info_def optional_value_def Let_def)
  have "set (info_concurrent info) = (if g = p then {} else set ?qs)" using info(2) qs(1) by simp
  then show ?thesis
    using dev init qs findQueueFamilies_sound(1)[OF gp(1)] findQueueFamilies_sound(2)[OF gp(2)] info(1,3) f(1)
    by blast
qed

text \<open>
  When no device is suitable, the outcome depends on the uninitialised handle: only if it
  happens to be null does the constructor throw.
\<close>

theorem no_suitable_device:
  assumes "devices \<noteq> []" "find suitable devices = None"
  shows "VulkanPhysicalDevice None devices = fail (RuntimeError ''failed to find a suitable GPU!'') \<and>
    (\<exists>ind. VulkanPhysicalDevice (Some rubbish) devices = ret (rubbish, ind))"
  using assms select_device_first(2)[OF assms(2)]
  by (auto simp: VulkanPhysicalDevice_def Let_def split: prod.split)
    (metis fst_conv option.simps)+

section \<open>The swap chain\<close>

lemma present_mode_loop_spec:
  "present_mode_loop ms m =
     (if MAILBOX \<in> set ms then MAILBOX else if IMMEDIATE \<in> set ms then IMMEDIATE else m)"
  by (induction ms arbitrary: m) auto

text \<open>
  What the swap chain asks for, on a surface whose limits are consistent: the extent is the
  surface's own or lies within its limits; the mode is the first available of mailbox, immediate
  and fifo; but the number of images respects the limits only if the surface names a maximum and
  needs at most three: without a maximum, which Vulkan writes as 0, no image is requested.
\<close>

theorem swapchain_request:
  assumes "swapchain_create_info framebufferSize d ind = ret info"
    and "surfaceCapabilities d = caps" "1 \<le> minImageCount caps"
    and "maxImageCount caps = 0 \<or> minImageCount caps \<le> maxImageCount caps"
    and "fst (minImageExtent caps) \<le> fst (maxImageExtent caps)" "snd (minImageExtent caps) \<le> snd (maxImageExtent caps)"
  shows "(minImageCount caps \<le> info_minImageCount info \<and>
      (maxImageCount caps = 0 \<or> info_minImageCount info \<le> maxImageCount caps) \<longleftrightarrow>
      maxImageCount caps \<noteq> 0 \<and> minImageCount caps \<le> 3) \<and>
    (info_extent info = currentExtent caps \<or>
      fst (minImageExtent caps) \<le> fst (info_extent info) \<and> fst (info_extent info) \<le> fst (maxImageExtent caps) \<and>
      snd (minImageExtent caps) \<le> snd (info_extent info) \<and> snd (info_extent info) \<le> snd (maxImageExtent caps)) \<and>
    info_presentMode info = (if MAILBOX \<in> set (surfacePresentModes d) then MAILBOX
      else if IMMEDIATE \<in> set (surfacePresentModes d) then IMMEDIATE else FIFO)"
proof -
  have count: "info_minImageCount info = min (maxImageCount caps) 3"
    and extent: "info_extent info = chooseSwapExtent framebufferSize caps"
    and mode: "info_presentMode info = present_mode_loop (surfacePresentModes d) FIFO"
    using assms(1,2)
    by (auto simp: swapchain_create_info_def chooseSwapPresentMode_def Let_def dest!: rbind_ret_eqD)
  have "info_extent info = currentExtent caps \<or>
      fst (minImageExtent caps) \<le> fst (info_extent info) \<and> fst (info_extent info) \<le> fst (maxImageExtent caps) \<and>
      snd (minImageExtent caps) \<le> snd (info_extent info) \<and> snd (info_extent info) \<le> snd (maxImageExtent caps)"
    using assms(5,6) unfolding extent chooseSwapExtent_def clamp_extent_def by (auto simp: max_def min_def)
  moreover have "(minImageCount caps \<le> info_minImageCount info \<and>
      (maxImageCount caps = 0 \<or> info_minImageCount info \<le> maxImageCount caps)) =
      (maxImageCount caps \<noteq> 0 \<and> minImageCount caps \<le> 3)"
    using assms(3,4) unfolding count by auto
  ultimately show ?thesis by (simp add: mode present_mode_loop_spec)
qed

section \<open>Depth formats and conversions\<close>

text \<open>
  The two searches for a depth format agree on whether there is one as long as the device
  supports a format of 24 bits or more.
\<close>

lemma and_single_bit:
  fixes x :: "32 word"
  assumes "n < 32"
  shows "(x AND push_bit n 1 = push_bit n 1) = bit x n"
proof
  assume "bit x n"
  then show "x AND push_bit n 1 = push_bit n 1"
    by (intro bit_eqI) (auto simp: bit_and_iff bit_exp_iff)
next
  assume "x AND push_bit n 1 = push_bit n 1"
  then have "bit (x AND push_bit n 1) n = bit (push_bit n 1 :: 32 word) n" by simp
  then show "bit x n" using assms by (simp add: bit_and_iff bit_exp_iff)
qed

lemma single_bit_and:
  "(x AND DEPTH_STENCIL_ATTACHMENT_BIT \<noteq> 0) = (x AND DEPTH_STENCIL_ATTACHMENT_BIT = DEPTH_STENCIL_ATTACHMENT_BIT)"
proof -
  have d: "DEPTH_STENCIL_ATTACHMENT_BIT = push_bit 9 1" by (simp add: DEPTH_STENCIL_ATTACHMENT_BIT_def push_bit_eq_mult)
  show ?thesis unfolding d using and_single_bit[of 9 x] bit_iff_and_push_bit_not_eq_0[of x 9] by simp
qed

theorem depth_searches_agree:
  "(\<exists>f. findDepthFormat dev = ret f) \<longleftrightarrow>
   (\<exists>f \<in> {D32_SFLOAT, D32_SFLOAT_S8_UINT, D24_UNORM_S8_UINT}.
      getSupportedDepthFormat dev = Some f)"
  by (auto simp: findDepthFormat_def getSupportedDepthFormat_def single_bit_and)

fun vk_channels :: "vk_format \<Rightarrow> nat" where
  "vk_channels f = (if f \<in> {R8_UNORM, R8_SRGB} then 1 else if f \<in> {R8G8_UNORM, R8G8_SRGB} then 2
     else if f \<in> {R8G8B8_UNORM, R8G8B8_SRGB, R16G16B16_SFLOAT, R32G32B32_SFLOAT} then 3
     else if f \<in> {R8G8B8A8_UNORM, R8G8B8A8_SRGB, B8G8R8A8_UNORM, B8G8R8A8_SRGB, R16G16B16A16_SFLOAT, R32G32B32A32_SFLOAT}
     then 4 else 1)"

fun texture_channels :: "texture_format \<Rightarrow> nat" where
  "texture_channels TF_R8 = 1" | "texture_channels TF_RG8 = 2" | "texture_channels TF_RGB8 = 3"
| "texture_channels TF_RGBA8 = 4" | "texture_channels TF_RGB16 = 3" | "texture_channels TF_RGBA16 = 4"
| "texture_channels TF_RGB32 = 3" | "texture_channels TF_RGBA32 = 4" | "texture_channels TF_RGB = 3"
| "texture_channels TF_RGBA = 4" | "texture_channels TF_BGRA8 = 4" | "texture_channels _ = 1"

text \<open>
  A converted texture format has the channels of the engine's format, except that the format of
  three 8-bit channels becomes one of four, and depth and stencil formats and none become a colour format.
\<close>

theorem textureFormatToVK_channels:
  "vk_channels (textureFormatToVK f srgb) =
     (if f \<in> {TF_RGB8, TF_NONE, TF_DEPTH, TF_STENCIL, TF_DEPTH_STENCIL} then 4 else texture_channels f)"
  by (cases f; cases srgb) simp_all

lemma errorString_inj: "inj_on errorString (set (map fst error_names))"
proof -
  have d: "distinct (map fst error_names)" "distinct (map snd error_names)" by (simp_all add: error_names_def)
  have "errorString c = s" if "(c, s) \<in> set error_names" for c s
    using map_of_is_SomeI[OF d(1) that] by (simp add: errorString_def)
  then show ?thesis
    by (intro inj_onI) (auto, metis d(2) distinct_map inj_onD snd_conv prod.inject)
qed

section \<open>Witnesses\<close>

definition small_gpu :: vk_device where
  "small_gpu = \<lparr>queueFamilies = [\<lparr>queueFlags = 1, presentSupport = False\<rparr>, \<lparr>queueFlags = 2, presentSupport = True\<rparr>],
     extensionNames = deviceExtensions,
     surfaceCapabilities = \<lparr>minImageCount = 2, maxImageCount = 0, currentExtent = (1280, 720),
       minImageExtent = (1, 1), maxImageExtent = (4096, 4096)\<rparr>,
     surfaceFormats = [(R8G8B8A8_UNORM, True)], surfacePresentModes = [FIFO, IMMEDIATE],
     samplerAnisotropy = True, memoryTypes = [1, 6], linearTilingFeatures = (\<lambda>_. 0),
     optimalTilingFeatures = (\<lambda>_. 0)\<rparr>"

lemma small_gpu_suitable: "suitable small_gpu"
  by (simp add: suitable_def small_gpu_def is_graphics_def is_compute_def)

theorem device_and_swapchain_witness:
  "\<exists>qs. device_init None [small_gpu\<lparr>samplerAnisotropy := False\<rparr>, small_gpu] = ret (small_gpu, qs) \<and> distinct qs"
proof -
  have "find suitable [small_gpu\<lparr>samplerAnisotropy := False\<rparr>, small_gpu] = Some small_gpu"
    using small_gpu_suitable by (simp add: suitable_def)
  from device_and_swapchain[OF this, of None "(800, 600)"] show ?thesis by blast
qed

theorem no_suitable_device_witness:
  "VulkanPhysicalDevice None [small_gpu\<lparr>samplerAnisotropy := False\<rparr>] =
     fail (RuntimeError ''failed to find a suitable GPU!'')"
  using no_suitable_device[of "[small_gpu\<lparr>samplerAnisotropy := False\<rparr>]" small_gpu] by (simp add: suitable_def)

lemma small_gpu_families: "graphicsFamily (findQueueFamilies small_gpu) = Some 0" "presentFamily (findQueueFamilies small_gpu) = Some 1"
  by (simp_all add: findQueueFamilies_def small_gpu_def note_family_fields is_graphics_def is_compute_def isComplete_def Let_def)

theorem swapchain_request_witness:
  "\<exists>info. swapchain_create_info (800, 600) small_gpu (findQueueFamilies small_gpu) = ret info \<and>
     info_presentMode info = IMMEDIATE \<and> \<not> 2 \<le> info_minImageCount info"
proof -
  obtain info where info: "swapchain_create_info (800, 600) small_gpu (findQueueFamilies small_gpu) = ret info"
    by (simp add: swapchain_create_info_def small_gpu_families optional_value_def Let_def)
      (simp add: small_gpu_def chooseSwapSurfaceFormat_def)
  from swapchain_request[OF this refl] info show ?thesis by (simp add: small_gpu_def)
qed

end
