(* ===== verification/Vulkan_Frames.thy ===== *)
theory Vulkan_Frames
  imports Maple_Prelude
begin

text \<open>
  The frames of the swap chain: \<^verbatim>\<open>Engine/Vulkan/VulkanSwapChain.cpp\<close>, \<^verbatim>\<open>VulkanCommandBuffer.cpp\<close>,
  \<^verbatim>\<open>VulkanContext.cpp\<close> (\<^verbatim>\<open>resize\<close>) and \<^verbatim>\<open>Engine/Renderer/VkRenderDevice.cpp\<close>. The first section states what the
  Vulkan specification requires of and promises for the calls that the engine makes on command
  buffers, fences, semaphores and swap chain images: a call against the rules is the fault
  \<^term>\<open>ApiMisuse\<close>. What the driver answers (the index or error of an acquisition, the result of a
  presentation, the number of images of a new swap chain) is an argument.
\<close>

section \<open>The rules of Vulkan\<close>

datatype cb_state = Initial | Recording | Executable | Pending | Invalid
datatype fence_state = Signaled | Unsignaled | InUse

record frame_data =
  presentSemaphore :: bool
  renderSemaphore :: bool
  renderFence :: fence_state
  commandBuffer :: cb_state

text \<open>A semaphore is true when it is signalled or its signal operation is pending.\<close>

datatype acquire_result = Acquired nat | AcquiredSuboptimal nat | AcquireOutOfDate | AcquireError

datatype present_result = Presented | PresentOutOfDate | PresentSuboptimal

record swap_chain =
  imageCount :: nat
  chain_frames :: "frame_data list"
  currentBuffer :: nat
  acquireImageIndex :: nat
  acquired :: "nat list"
  target :: "nat option"
  drawn :: "nat list"
  shown :: "nat list"

definition vk_begin :: "cb_state \<Rightarrow> cb_state run" where
  "vk_begin c = (if c = Recording \<or> c = Pending then fail (ApiMisuse ''vkBeginCommandBuffer'') else ret Recording)"

definition vk_end :: "cb_state \<Rightarrow> cb_state run" where
  "vk_end c = (if c = Recording then ret Executable else fail (ApiMisuse ''vkEndCommandBuffer''))"

definition vk_reset_fence :: "frame_data \<Rightarrow> frame_data run" where
  "vk_reset_fence f = (if renderFence f = InUse then fail (ApiMisuse ''vkResetFences'')
     else ret (f\<lparr>renderFence := Unsignaled\<rparr>))"

definition vk_submit :: "frame_data \<Rightarrow> frame_data run" where
  "vk_submit f =
     (if renderFence f = Unsignaled \<and> commandBuffer f = Executable \<and> presentSemaphore f \<and> \<not> renderSemaphore f
      then ret (f\<lparr>renderFence := InUse, commandBuffer := Pending, presentSemaphore := False, renderSemaphore := True\<rparr>)
      else fail (ApiMisuse ''vkQueueSubmit''))"

text \<open>Waiting for a fence that no submission will signal does not end.\<close>

definition vk_wait_fence :: "frame_data \<Rightarrow> frame_data run" where
  "vk_wait_fence f = (case renderFence f of
       Signaled \<Rightarrow> ret f
     | InUse \<Rightarrow> ret (f\<lparr>renderFence := Signaled, commandBuffer := Invalid\<rparr>)
     | Unsignaled \<Rightarrow> None)"

definition vk_reset_pool :: "frame_data \<Rightarrow> frame_data run" where
  "vk_reset_pool f = (if commandBuffer f = Pending then fail (ApiMisuse ''vkResetCommandPool'')
     else ret (f\<lparr>commandBuffer := Initial\<rparr>))"

section \<open>The swap chain\<close>

definition MAX_SWAPCHAIN_BUFFERS :: nat where "MAX_SWAPCHAIN_BUFFERS = 3"

definition fresh_frame :: frame_data where
  "fresh_frame = \<lparr>presentSemaphore = False, renderSemaphore = False, renderFence = Signaled, commandBuffer = Initial\<rparr>"

text \<open>
  \<^verbatim>\<open>init\<close> with \<^verbatim>\<open>createImageView\<close>: one round per image writes the frame of that number. The frames that no
  round writes hold null handles; they are never used.
\<close>

definition init_swapchain :: "nat option \<Rightarrow> swap_chain run" where
  "init_swapchain created =
     (case created of
        None \<Rightarrow> fail (RuntimeError ''failed to create swap chain!'')
      | Some n \<Rightarrow>
          rbind (rfold (\<lambda>i fs. if i < length fs then ret (fs[i := fresh_frame]) else fail BadIndex) [0..<n]
                   (replicate MAX_SWAPCHAIN_BUFFERS fresh_frame))
            (\<lambda>fs. ret \<lparr>imageCount = n, chain_frames = fs, currentBuffer = 0, acquireImageIndex = 0,
                      acquired = [], target = None, drawn = [], shown = []\<rparr>))"

definition getFrameData :: "swap_chain \<Rightarrow> frame_data run" where
  "getFrameData s =
     (if \<not> currentBuffer s < imageCount s then fail (RuntimeError ''invaild swapchain buffer index'')
      else if currentBuffer s < length (chain_frames s) then ret (chain_frames s ! currentBuffer s)
      else fail BadIndex)"

definition put_frame :: "swap_chain \<Rightarrow> frame_data \<Rightarrow> swap_chain" where
  "put_frame s f = s\<lparr>chain_frames := (chain_frames s)[currentBuffer s := f]\<rparr>"

definition on_frame :: "(frame_data \<Rightarrow> frame_data run) \<Rightarrow> swap_chain \<Rightarrow> swap_chain run" where
  "on_frame act s = rbind (getFrameData s) (\<lambda>f. rbind (act f) (\<lambda>f. ret (put_frame s f)))"

text \<open>The driver hands out an image that is not acquired and will signal the semaphore.\<close>

definition take_image :: "nat \<Rightarrow> swap_chain \<Rightarrow> swap_chain run" where
  "take_image i s = on_frame (\<lambda>f. if presentSemaphore f then fail (ApiMisuse ''vkAcquireNextImageKHR'')
       else ret (f\<lparr>presentSemaphore := True\<rparr>)) (s\<lparr>acquireImageIndex := i, acquired := i # acquired s\<rparr>)"

definition acquireNextImage :: "acquire_result \<Rightarrow> swap_chain \<Rightarrow> swap_chain run" where
  "acquireNextImage r s = (case r of
       Acquired i \<Rightarrow> take_image i s
     | AcquiredSuboptimal i \<Rightarrow> take_image i s
     | _ \<Rightarrow> rbind (getFrameData s) (\<lambda>_. ret s))"

text \<open>
  The renderers draw into the frame buffer with the number of the current buffer, between the
  begin and the end of the recording: the recorded commands write the swap chain image of that
  number. When they are executed, the image must be acquired.
\<close>

definition beginRecording :: "swap_chain \<Rightarrow> swap_chain run" where
  "beginRecording s = on_frame (\<lambda>f. rbind (vk_begin (commandBuffer f)) (\<lambda>c. ret (f\<lparr>commandBuffer := c\<rparr>))) s"

definition render_into :: "swap_chain \<Rightarrow> swap_chain" where
  "render_into s = s\<lparr>target := Some (currentBuffer s)\<rparr>"

definition vk_execute :: "swap_chain \<Rightarrow> swap_chain run" where
  "vk_execute s = (case target s of
       None \<Rightarrow> ret s
     | Some i \<Rightarrow> if i \<in> set (acquired s) then ret (s\<lparr>target := None, drawn := drawn s @ [i]\<rparr>)
         else fail (ApiMisuse ''vkQueueSubmit''))"

definition endRecording :: "swap_chain \<Rightarrow> swap_chain run" where
  "endRecording s = on_frame (\<lambda>f. rbind (vk_end (commandBuffer f)) (\<lambda>c. ret (f\<lparr>commandBuffer := c\<rparr>))) s"

text \<open>The image must be acquired and the semaphore signalled; both are given up.\<close>

definition vk_present :: "swap_chain \<Rightarrow> swap_chain run" where
  "vk_present s = rbind (getFrameData s) (\<lambda>f.
     if renderSemaphore f \<and> acquireImageIndex s \<in> set (acquired s)
     then ret (put_frame (s\<lparr>acquired := removeAll (acquireImageIndex s) (acquired s),
                            shown := shown s @ [acquireImageIndex s]\<rparr>) (f\<lparr>renderSemaphore := False\<rparr>))
     else fail (ApiMisuse ''vkQueuePresentKHR''))"

definition present_chain :: "swap_chain \<Rightarrow> swap_chain run" where
  "present_chain s =
     rbind (on_frame vk_reset_fence s) (\<lambda>s.
     rbind (on_frame vk_submit s) (\<lambda>s.
     rbind (vk_execute s) (\<lambda>s.
     rbind (on_frame vk_wait_fence s) (\<lambda>s.
     rbind (on_frame vk_reset_pool s) (\<lambda>s.
     rbind (vk_present s) (\<lambda>s.
     ret (s\<lparr>currentBuffer := (currentBuffer s + 1) mod imageCount s\<rparr>)))))))"

section \<open>The render device\<close>

text \<open>
  \<open>create b\<close> is the driver's answer to the creation of a swap chain: the number of its images, or an
  error; \<open>b\<close> says whether another swap chain of the surface is still alive. The functions
  of the device hold a reference to the old one while they resize, the window's callback does not.
\<close>

type_synonym creator = "bool \<Rightarrow> nat option"

record render_device =
  dev_width :: nat
  dev_height :: nat
  dev_chain :: swap_chain

definition onResize ::
  "creator \<Rightarrow> ((nat \<times> nat) \<times> (nat \<times> nat)) \<Rightarrow> bool \<Rightarrow> nat \<Rightarrow> nat \<Rightarrow> render_device \<Rightarrow> render_device run" where
  "onResize create limits old_alive width height d =
     (if width = 0 \<or> height = 0 then ret d
      else rbind (init_swapchain (create old_alive)) (\<lambda>s.
        ret (d\<lparr>dev_width := max (fst (fst limits)) (min (fst (snd limits)) width),
               dev_height := max (snd (fst limits)) (min (snd (snd limits)) height), dev_chain := s\<rparr>)))"

definition begin_frame ::
  "creator \<Rightarrow> ((nat \<times> nat) \<times> (nat \<times> nat)) \<Rightarrow> acquire_result \<Rightarrow> render_device \<Rightarrow> render_device run" where
  "begin_frame create limits r d =
     rbind (acquireNextImage r (dev_chain d)) (\<lambda>s.
     let d = d\<lparr>dev_chain := s\<rparr> in
     rbind (if r = AcquireOutOfDate then onResize create limits True (dev_width d) (dev_height d) d
            else if r = AcquireError then fail (RuntimeError ''failed to acquire swap chain image!'')
            else ret d) (\<lambda>d.
     rbind (beginRecording (dev_chain d)) (\<lambda>s. ret (d\<lparr>dev_chain := s\<rparr>))))"

definition end_frame :: "render_device \<Rightarrow> render_device run" where
  "end_frame d = rbind (endRecording (dev_chain d)) (\<lambda>s. ret (d\<lparr>dev_chain := s\<rparr>))"

definition present_frame ::
  "creator \<Rightarrow> ((nat \<times> nat) \<times> (nat \<times> nat)) \<Rightarrow> present_result \<Rightarrow> render_device \<Rightarrow> render_device run" where
  "present_frame create limits r d =
     rbind (present_chain (dev_chain d)) (\<lambda>s.
     let d = d\<lparr>dev_chain := s\<rparr> in
     if r = PresentOutOfDate \<or> r = PresentSuboptimal
     then onResize create limits True (dev_width d) (dev_height d) d else ret d)"

definition draw_frame ::
  "creator \<Rightarrow> ((nat \<times> nat) \<times> (nat \<times> nat)) \<Rightarrow> acquire_result \<times> present_result \<Rightarrow> render_device \<Rightarrow> render_device run" where
  "draw_frame create limits answers d =
     rbind (begin_frame create limits (fst answers) d) (\<lambda>d.
     rbind (end_frame (d\<lparr>dev_chain := render_into (dev_chain d)\<rparr>)) (\<lambda>d.
     present_frame create limits (snd answers) d))"

section \<open>Command buffers of their own\<close>

text \<open>
  \<^verbatim>\<open>executeInternal\<close> on a command buffer with its own fence. Without the fence the call waits until the
  queue is idle.
\<close>

record command_buffer =
  cb :: cb_state
  cb_fence :: fence_state

definition submit_cb :: "bool \<Rightarrow> command_buffer \<Rightarrow> command_buffer run" where
  "submit_cb with_fence c =
     (if cb c = Executable \<and> (with_fence \<longrightarrow> cb_fence c = Unsignaled)
      then ret (c\<lparr>cb := Pending, cb_fence := if with_fence then InUse else cb_fence c\<rparr>)
      else fail (ApiMisuse ''vkQueueSubmit''))"

definition executeInternal :: "bool \<Rightarrow> command_buffer \<Rightarrow> command_buffer run" where
  "executeInternal waitFence c =
     (if waitFence then
        rbind (case cb_fence c of Signaled \<Rightarrow> ret c
               | InUse \<Rightarrow> ret (c\<lparr>cb_fence := Signaled, cb := Invalid\<rparr>)
               | Unsignaled \<Rightarrow> None) (\<lambda>c.
        rbind (submit_cb True c) (\<lambda>c.
        if cb_fence c = InUse then fail (ApiMisuse ''vkResetFences'') else ret (c\<lparr>cb_fence := Unsignaled\<rparr>)))
      else
        rbind (submit_cb False c) (\<lambda>c. ret (c\<lparr>cb := Invalid\<rparr>)))"

definition new_command_buffer :: command_buffer where
  "new_command_buffer = \<lparr>cb = Initial, cb_fence = Signaled\<rparr>"

definition record_cb :: "command_buffer \<Rightarrow> command_buffer run" where
  "record_cb c = rbind (vk_begin (cb c)) (\<lambda>b. rbind (vk_end b) (\<lambda>b. ret (c\<lparr>cb := b\<rparr>)))"

section \<open>One frame\<close>

definition live :: "swap_chain \<Rightarrow> bool" where
  "live s \<longleftrightarrow> currentBuffer s < imageCount s \<and> currentBuffer s < length (chain_frames s)"

definition current_frame :: "swap_chain \<Rightarrow> frame_data" where
  "current_frame s = chain_frames s ! currentBuffer s"

lemma getFrameData_live: "live s \<Longrightarrow> getFrameData s = ret (current_frame s)"
  by (simp add: getFrameData_def live_def current_frame_def)

lemma put_frame_fields [simp]:
  "imageCount (put_frame s f) = imageCount s" "currentBuffer (put_frame s f) = currentBuffer s"
  "acquireImageIndex (put_frame s f) = acquireImageIndex s" "acquired (put_frame s f) = acquired s"
  "target (put_frame s f) = target s"
  "drawn (put_frame s f) = drawn s" "shown (put_frame s f) = shown s" "live (put_frame s f) = live s"
  "chain_frames (put_frame s f) = (chain_frames s)[currentBuffer s := f]"
  by (simp_all add: put_frame_def live_def)

lemma put_put_frame [simp]: "put_frame (put_frame s f) g = put_frame s g"
  by (simp add: put_frame_def)

lemma current_put_frame [simp]: "live s \<Longrightarrow> current_frame (put_frame s f) = f"
  by (simp add: current_frame_def live_def)

lemma on_frame_live: "live s \<Longrightarrow> on_frame act s = rbind (act (current_frame s)) (\<lambda>f. ret (put_frame s f))"
  by (simp add: on_frame_def getFrameData_live)

text \<open>Between two frames nothing is pending.\<close>

definition ready :: "nat \<Rightarrow> swap_chain \<Rightarrow> bool" where
  "ready n s \<longleftrightarrow> 1 \<le> n \<and> n \<le> 3 \<and> imageCount s = n \<and> length (chain_frames s) = 3 \<and> currentBuffer s < n \<and>
     (\<forall>i < n. chain_frames s ! i = fresh_frame) \<and> acquired s = [] \<and> target s = None"

lemma ready_live: "ready n s \<Longrightarrow> live s" "ready n s \<Longrightarrow> current_frame s = fresh_frame"
  by (auto simp: ready_def live_def current_frame_def)

lemma ready_put: "ready n s \<Longrightarrow> put_frame s fresh_frame = s"
  by (cases s) (auto simp: ready_def put_frame_def intro!: nth_equalityI simp: nth_list_update)

lemma init_frames:
  "n \<le> 3 \<Longrightarrow> rfold (\<lambda>i fs. if i < length fs then ret (fs[i := fresh_frame]) else fail BadIndex) [0..<n]
     (replicate 3 fresh_frame) = ret (replicate 3 fresh_frame)"
  by (induction n) (auto simp: rfold_append list_update_same_conv)

lemma init_swapchain_ready:
  assumes "1 \<le> n" "n \<le> 3"
  shows "\<exists>s. init_swapchain (Some n) = ret s \<and> ready n s \<and> currentBuffer s = 0 \<and> drawn s = [] \<and> shown s = []"
  using assms by (simp add: init_swapchain_def MAX_SWAPCHAIN_BUFFERS_def init_frames ready_def)

lemma init_swapchain_overflow:
  assumes "3 < n"
  shows "init_swapchain (Some n) = fail BadIndex"
proof -
  have "[0..<n] = [0..<3] @ 3 # [4..<n]"
    using assms upt_add_eq_append[of 0 3 "n - 3"] by (simp add: upt_conv_Cons numeral_eq_Suc)
  then show ?thesis by (simp add: init_swapchain_def MAX_SWAPCHAIN_BUFFERS_def rfold_append init_frames[of 3])
qed

text \<open>The recording state of the current frame, while an image is taken.\<close>

lemma take_image_ready:
  assumes "ready n s"
  shows "take_image i s = ret (put_frame (s\<lparr>acquireImageIndex := i, acquired := [i]\<rparr>)
    (fresh_frame\<lparr>presentSemaphore := True\<rparr>))"
proof -
  let ?s = "s\<lparr>acquireImageIndex := i, acquired := i # acquired s\<rparr>"
  have "live ?s" "current_frame ?s = fresh_frame" using ready_live[OF assms] by (simp_all add: live_def current_frame_def)
  then show ?thesis using assms by (simp add: take_image_def on_frame_live ready_def) (simp add: fresh_frame_def)
qed

lemma present_chain_run:
  assumes "live s" "current_frame s = fresh_frame\<lparr>presentSemaphore := True, commandBuffer := Executable\<rparr>"
    and "target s = Some j" "acquired s = [acquireImageIndex s]"
  shows "present_chain s =
    (if j = acquireImageIndex s then
       ret ((put_frame s fresh_frame)\<lparr>acquired := [], target := None, drawn := drawn s @ [j],
         shown := shown s @ [j], currentBuffer := (currentBuffer s + 1) mod imageCount s\<rparr>)
     else fail (ApiMisuse ''vkQueueSubmit''))"
proof -
  have p: "put_frame (t\<lparr>acquired := a, shown := b\<rparr>) f = (put_frame t f)\<lparr>acquired := a, shown := b\<rparr>"
    "put_frame (t\<lparr>target := u, drawn := e\<rparr>) f = (put_frame t f)\<lparr>target := u, drawn := e\<rparr>"
    "live (t\<lparr>target := u, drawn := e\<rparr>) = live t" "current_frame (t\<lparr>target := u, drawn := e\<rparr>) = current_frame t"
    for t a b f u e
    by (simp_all add: put_frame_def live_def current_frame_def)
  show ?thesis using assms
    by (simp add: present_chain_def on_frame_live vk_reset_fence_def vk_submit_def vk_execute_def vk_wait_fence_def
        vk_reset_pool_def vk_present_def getFrameData_live fresh_frame_def p)
qed

lemma record_frame:
  assumes "live s" "commandBuffer (current_frame s) = Initial"
  shows "beginRecording s = ret (put_frame s ((current_frame s)\<lparr>commandBuffer := Recording\<rparr>))"
    and "endRecording (render_into (put_frame s ((current_frame s)\<lparr>commandBuffer := Recording\<rparr>))) =
      ret (render_into (put_frame s ((current_frame s)\<lparr>commandBuffer := Executable\<rparr>)))"
proof -
  show "beginRecording s = ret (put_frame s ((current_frame s)\<lparr>commandBuffer := Recording\<rparr>))"
    using assms by (simp add: beginRecording_def on_frame_live vk_begin_def)
  have r: "live (render_into t) = live t" "current_frame (render_into t) = current_frame t"
    "put_frame (render_into t) f = render_into (put_frame t f)" for t f
    by (simp_all add: render_into_def live_def current_frame_def put_frame_def)
  show "endRecording (render_into (put_frame s ((current_frame s)\<lparr>commandBuffer := Recording\<rparr>))) =
      ret (render_into (put_frame s ((current_frame s)\<lparr>commandBuffer := Executable\<rparr>)))"
    using assms(1) by (simp add: endRecording_def on_frame_live r vk_end_def)
qed

definition chain_after :: "swap_chain \<Rightarrow> swap_chain" where
  "chain_after s = s\<lparr>acquireImageIndex := currentBuffer s, drawn := drawn s @ [currentBuffer s],
     shown := shown s @ [currentBuffer s], currentBuffer := (currentBuffer s + 1) mod imageCount s\<rparr>"

lemma chain_after_ready: "ready n s \<Longrightarrow> ready n (chain_after s)"
  by (auto simp: ready_def chain_after_def)

lemma draw_frame_good:
  assumes "ready n (dev_chain d)" "r = Acquired i \<or> r = AcquiredSuboptimal i"
  shows "draw_frame create limits (r, p) d =
    (if i = currentBuffer (dev_chain d) then
       (let d = d\<lparr>dev_chain := chain_after (dev_chain d)\<rparr> in
        if p = Presented then ret d else onResize create limits True (dev_width d) (dev_height d) d)
     else fail (ApiMisuse ''vkQueueSubmit''))"
proof -
  let ?s = "dev_chain d"
  let ?t = "put_frame (?s\<lparr>acquireImageIndex := i, acquired := [i]\<rparr>) (fresh_frame\<lparr>presentSemaphore := True\<rparr>)"
  have live: "live ?t" using ready_live(1)[OF assms(1)] by (simp add: live_def)
  then have cur: "current_frame ?t = fresh_frame\<lparr>presentSemaphore := True\<rparr>" by simp
  then have c: "commandBuffer (current_frame ?t) = Initial" by (simp add: fresh_frame_def)
  note rec = record_frame[OF live c]
  let ?u = "render_into (put_frame ?t ((current_frame ?t)\<lparr>commandBuffer := Executable\<rparr>))"
  have u: "live ?u" "current_frame ?u = fresh_frame\<lparr>presentSemaphore := True, commandBuffer := Executable\<rparr>"
    "target ?u = Some (currentBuffer ?s)" "acquired ?u = [acquireImageIndex ?u]"
    using live cur by (simp_all add: render_into_def live_def current_frame_def)
  have "put_frame ?s fresh_frame = ?s" by (rule ready_put[OF assms(1)])
  then have fs: "(chain_frames ?s)[currentBuffer ?s := fresh_frame] = chain_frames ?s"
    by (metis put_frame_fields(9))
  have "present_chain ?u = (if i = currentBuffer ?s then ret (chain_after ?s) else fail (ApiMisuse ''vkQueueSubmit''))"
    unfolding present_chain_run[OF u]
    using assms(1) fs by (simp add: chain_after_def render_into_def put_frame_def ready_def)
  moreover have "acquireNextImage r ?s = ret ?t" "r \<noteq> AcquireOutOfDate" "r \<noteq> AcquireError"
    using assms(2) take_image_ready[OF assms(1)] by (auto simp: acquireNextImage_def)
  ultimately show ?thesis
    using rec by (cases p) (simp_all add: draw_frame_def begin_frame_def end_frame_def present_frame_def Let_def)
qed

section \<open>Sequences of frames\<close>

lemma frames_run:
  assumes "ready n (dev_chain d)"
  shows "if \<forall>k < length is. is ! k = (currentBuffer (dev_chain d) + k) mod n
    then \<exists>d'. rfold (draw_frame create limits) (map (\<lambda>i. (Acquired i, Presented)) is) d = ret d' \<and> ready n (dev_chain d') \<and>
      shown (dev_chain d') = shown (dev_chain d) @ is \<and> drawn (dev_chain d') = drawn (dev_chain d) @ is
    else rfold (draw_frame create limits) (map (\<lambda>i. (Acquired i, Presented)) is) d = fail (ApiMisuse ''vkQueueSubmit'')"
  using assms
proof (induction "is" arbitrary: d)
  case (Cons i "is")
  let ?d = "d\<lparr>dev_chain := chain_after (dev_chain d)\<rparr>" and ?a = "currentBuffer (dev_chain d)"
  have step: "draw_frame create limits (Acquired i, Presented) d =
      (if i = ?a then ret ?d else fail (ApiMisuse ''vkQueueSubmit''))"
    using draw_frame_good[OF Cons.prems, of "Acquired i" i create limits Presented] by (simp add: Let_def)
  have a: "?a < n" "imageCount (dev_chain d) = n" using Cons.prems by (simp_all add: ready_def)
  have f: "shown (dev_chain ?d) = shown (dev_chain d) @ [?a]" "drawn (dev_chain ?d) = drawn (dev_chain d) @ [?a]"
    "currentBuffer (dev_chain ?d) = (?a + 1) mod n"
    using a(2) by (simp_all add: chain_after_def)
  have all: "(\<forall>k < length (i # is). (i # is) ! k = (?a + k) mod n) \<longleftrightarrow>
      i = ?a \<and> (\<forall>k < length is. is ! k = (currentBuffer (dev_chain ?d) + k) mod n)"
  proof -
    have "currentBuffer (chain_after (dev_chain d)) = Suc ?a mod n" using a(2) by (simp add: chain_after_def)
    moreover have "(Suc ?a mod n + k) mod n = Suc (?a + k) mod n" for k by (simp add: mod_add_left_eq)
    ultimately show ?thesis using a(1) by (auto simp: All_less_Suc2)
  qed
  have "ready n (dev_chain ?d)" using chain_after_ready[OF Cons.prems] by simp
  note IH = Cons.IH[OF this]
  show ?case
  proof (cases "\<forall>k < length (i # is). (i # is) ! k = (?a + k) mod n")
    case True
    then have i: "i = ?a" and t: "\<forall>k < length is. is ! k = (currentBuffer (dev_chain ?d) + k) mod n"
      unfolding all by blast+
    show ?thesis unfolding if_P[OF True] using IH[unfolded if_P[OF t]] step i f(1,2) by simp
  next
    case False
    show ?thesis
    proof (cases "i = ?a")
      case True
      then have "\<not> (\<forall>k < length is. is ! k = (currentBuffer (dev_chain ?d) + k) mod n)" using False unfolding all by blast
      from IH[unfolded if_not_P[OF this]] show ?thesis unfolding if_not_P[OF False] using step True by simp
    next
      case neq: False
      then show ?thesis unfolding if_not_P[OF False] using step by simp
    qed
  qed
qed simp

text \<open>
  C20: On a fresh swap chain of one to three images, while the driver reports no error and accepts every
  presentation: when it hands out the images in turn, starting with the first, every frame keeps
  the modelled rules of Vulkan, shows the image it drew and leaves nothing pending. When some frame
  gets another image than the next in turn, the run breaks the rules: the frame renders into an
  image that it has not acquired, since the renderers go by the current buffer and not by the index
  handed out.
\<close>

theorem frames_follow_rules:
  assumes "1 \<le> n" "n \<le> 3" "init_swapchain (Some n) = ret (dev_chain d)"
  shows "if \<forall>k < length is. is ! k = k mod n
    then \<exists>d'. rfold (draw_frame create limits) (map (\<lambda>i. (Acquired i, Presented)) is) d = ret d' \<and>
      ready n (dev_chain d') \<and> shown (dev_chain d') = is \<and> drawn (dev_chain d') = is
    else rfold (draw_frame create limits) (map (\<lambda>i. (Acquired i, Presented)) is) d = fail (ApiMisuse ''vkQueueSubmit'')"
proof -
  obtain s where "init_swapchain (Some n) = ret s" "ready n s" "currentBuffer s = 0" "drawn s = []" "shown s = []"
    using init_swapchain_ready[OF assms(1,2)] by blast
  with assms(3) have r: "ready n (dev_chain d)" "currentBuffer (dev_chain d) = 0" "drawn (dev_chain d) = []"
    "shown (dev_chain d) = []" by simp_all
  from frames_run[OF r(1), of "is" create limits] show ?thesis unfolding r(2-4) add_0 append_Nil .
qed

lemma idle_frame:
  assumes "ready m (dev_chain d)"
  shows "rbind (beginRecording (dev_chain d)) (\<lambda>s.
      rbind (end_frame (d\<lparr>dev_chain := render_into s\<rparr>)) (present_frame create limits p)) =
    fail (ApiMisuse ''vkQueueSubmit'')"
proof -
  let ?s = "dev_chain d"
  note l = ready_live[OF assms]
  have c: "commandBuffer (current_frame ?s) = Initial" using l(2) by (simp add: fresh_frame_def)
  let ?v = "render_into (put_frame ?s (fresh_frame\<lparr>commandBuffer := Executable\<rparr>))"
  have "live ?v" "current_frame ?v = fresh_frame\<lparr>commandBuffer := Executable\<rparr>"
    using l(1) by (simp_all add: render_into_def live_def current_frame_def)
  then have "present_chain ?v = fail (ApiMisuse ''vkQueueSubmit'')"
    by (simp add: present_chain_def on_frame_live vk_reset_fence_def vk_submit_def fresh_frame_def)
  then show ?thesis using record_frame[OF l(1) c] l(2) by (simp add: end_frame_def present_frame_def)
qed

lemma out_of_date_run:
  assumes "ready n (dev_chain d)"
  shows "draw_frame create limits (AcquireOutOfDate, p) d =
    fail (if dev_width d = 0 \<or> dev_height d = 0 then ApiMisuse ''vkQueueSubmit''
      else case create True of
          None \<Rightarrow> RuntimeError ''failed to create swap chain!''
        | Some m \<Rightarrow> if m = 0 then RuntimeError ''invaild swapchain buffer index''
            else if m \<le> 3 then ApiMisuse ''vkQueueSubmit'' else BadIndex)"
proof -
  have frame: "draw_frame create limits (AcquireOutOfDate, p) d =
      rbind (onResize create limits True (dev_width d) (dev_height d) d) (\<lambda>d. rbind (beginRecording (dev_chain d)) (\<lambda>s.
        rbind (end_frame (d\<lparr>dev_chain := render_into s\<rparr>)) (present_frame create limits p)))"
    using ready_live(1)[OF assms]
    by (simp add: draw_frame_def begin_frame_def acquireNextImage_def getFrameData_live rbind_assoc)
  show ?thesis
  proof (cases "dev_width d = 0 \<or> dev_height d = 0")
    case True
    then show ?thesis using idle_frame[OF assms] by (auto simp: frame onResize_def)
  next
    case False
    then have rs: "onResize create limits True (dev_width d) (dev_height d) d =
        rbind (init_swapchain (create True)) (\<lambda>s.
          ret (d\<lparr>dev_width := max (fst (fst limits)) (min (fst (snd limits)) (dev_width d)),
               dev_height := max (snd (fst limits)) (min (snd (snd limits)) (dev_height d)), dev_chain := s\<rparr>))"
      by (simp add: onResize_def)
    show ?thesis
    proof (cases "create True")
      case None
      then show ?thesis using False by (simp add: frame rs init_swapchain_def)
    next
      case (Some m)
      consider "m = 0" | "1 \<le> m" "m \<le> 3" | "3 < m" by linarith
      then show ?thesis
      proof cases
        case 1
        then show ?thesis using False Some
          by (simp add: frame rs init_swapchain_def beginRecording_def on_frame_def getFrameData_def)
      next
        case 2
        from init_swapchain_ready[OF 2] obtain s where s: "init_swapchain (Some m) = ret s" "ready m s" by blast
        from idle_frame[of m "d\<lparr>dev_width := w, dev_height := h, dev_chain := s\<rparr>" create limits p for w h] s(2)
        show ?thesis using False Some 2 by (simp add: frame rs s(1))
      next
        case 3
        then show ?thesis using False Some init_swapchain_overflow[OF 3] by (simp add: frame rs)
      qed
    qed
  qed
qed

text \<open>
  C21: A frame in which the driver reports the swap chain as out of date when an image is acquired cannot
  succeed, whatever the driver answers to the creation of a new one: either the creation fails, or
  the frame goes on without an image and submits a wait for a semaphore that nothing signals.
\<close>

theorem out_of_date_frame_fails:
  assumes "ready n (dev_chain d)"
  shows "\<exists>e. draw_frame create limits (AcquireOutOfDate, p) d = fail e \<and>
    (dev_width d = 0 \<or> dev_height d = 0 \<longrightarrow> e = ApiMisuse ''vkQueueSubmit'') \<and>
    (0 < dev_width d \<longrightarrow> 0 < dev_height d \<longrightarrow> create True = None \<longrightarrow>
      e = RuntimeError ''failed to create swap chain!'') \<and>
    (\<forall>m. 0 < dev_width d \<longrightarrow> 0 < dev_height d \<longrightarrow> create True = Some m \<longrightarrow> 1 \<le> m \<longrightarrow> m \<le> 3 \<longrightarrow>
      e = ApiMisuse ''vkQueueSubmit'')"
  unfolding out_of_date_run[OF assms] by (auto split: option.split)

section \<open>The device as a state machine\<close>

inductive device_step :: "creator \<Rightarrow> ((nat \<times> nat) \<times> (nat \<times> nat)) \<Rightarrow> render_device \<Rightarrow> render_device \<Rightarrow> bool"
  for create limits where
  frame: "draw_frame create limits answers d = ret d' \<Longrightarrow> device_step create limits d d'"
| resize: "onResize create limits False w h d = ret d' \<Longrightarrow> device_step create limits d d'"

lemma onResize_ready:
  assumes "onResize create limits b w h d = ret d'" "\<exists>n. ready n (dev_chain d)" "\<And>b. create b \<noteq> Some 0"
  shows "\<exists>n. ready n (dev_chain d')"
proof (cases "w = 0 \<or> h = 0")
  case True
  then show ?thesis using assms(1,2) by (auto simp: onResize_def)
next
  case False
  show ?thesis
  proof (cases "create b")
    case None
    then show ?thesis using assms(1) False by (simp add: onResize_def init_swapchain_def)
  next
    case (Some m)
    then have "m \<noteq> 0" using assms(3)[of b] by simp
    moreover have "m \<le> 3" using assms(1) False Some init_swapchain_overflow[of m]
      by (rule_tac ccontr) (simp add: onResize_def)
    ultimately obtain s where "init_swapchain (Some m) = ret s" "ready m s" using init_swapchain_ready[of m] by auto
    then show ?thesis using assms(1) False Some by (auto simp: onResize_def)
  qed
qed

lemma device_step_ready:
  assumes "device_step create limits d d'" "\<exists>n. ready n (dev_chain d)" "\<And>b. create b \<noteq> Some 0"
  shows "\<exists>n. ready n (dev_chain d')"
  using assms(1)
proof cases
  case (frame answers)
  obtain r p where a: "answers = (r, p)" by (cases answers)
  obtain n where n: "ready n (dev_chain d)" using assms(2) by blast
  show ?thesis
  proof (cases r)
    case (Acquired i)
    then show ?thesis using draw_frame_good[OF n, of r i create limits p] frame a chain_after_ready[OF n]
        onResize_ready[of create limits True _ _ "d\<lparr>dev_chain := chain_after (dev_chain d)\<rparr>" d'] assms(3)
      by (auto simp: Let_def split: if_splits)
  next
    case (AcquiredSuboptimal i)
    then show ?thesis using draw_frame_good[OF n, of r i create limits p] frame a chain_after_ready[OF n]
        onResize_ready[of create limits True _ _ "d\<lparr>dev_chain := chain_after (dev_chain d)\<rparr>" d'] assms(3)
      by (auto simp: Let_def split: if_splits)
  next
    case AcquireOutOfDate
    then show ?thesis using out_of_date_run[OF n, of create limits p] frame a by simp
  next
    case AcquireError
    then show ?thesis using frame a ready_live(1)[OF n]
      by (simp add: draw_frame_def begin_frame_def acquireNextImage_def getFrameData_live Let_def)
  qed
next
  case (resize w h)
  then show ?thesis using onResize_ready assms(2,3) by blast
qed

text \<open>
  When every swap chain the driver creates has an image, the device stays ready: in every state
  that frames and resizes can reach no fence, semaphore, command buffer or image is left pending and
  the current buffer is one of at most three.
\<close>

theorem reachable_ready:
  assumes "(device_step create limits)\<^sup>*\<^sup>* d d'" "ready n (dev_chain d)" "\<And>b. create b \<noteq> Some 0"
  shows "\<exists>n. ready n (dev_chain d')"
  using assms(1)
proof (induction rule: rtranclp_induct)
  case base
  then show ?case using assms(2) by blast
next
  case (step d1 d2)
  then show ?case using device_step_ready[OF step.hyps(2) step.IH] assms(3) by blast
qed

text \<open>
  A resize by the window callback gives a ready swap chain when the driver creates one to
  three images; from four images on the frames' array is overrun.
\<close>

theorem resize_image_limit:
  assumes "0 < w" "0 < h" "create False = Some m" "1 \<le> m"
  shows "if m \<le> 3 then \<exists>d'. onResize create limits False w h d = ret d' \<and> ready m (dev_chain d')
    else onResize create limits False w h d = fail BadIndex"
proof (cases "m \<le> 3")
  case True
  from init_swapchain_ready[OF assms(4) True] obtain s where "init_swapchain (Some m) = ret s" "ready m s" by blast
  then show ?thesis using assms True by (simp add: onResize_def)
next
  case False
  then show ?thesis using assms init_swapchain_overflow[of m] by (simp add: onResize_def)
qed

text \<open>
  Executing a recorded command buffer without its fence keeps the rules and can be repeated;
  with the fence the very first submission breaks them, because the fence is still signalled.
\<close>

theorem execute_command_buffer:
  assumes "cb_fence c = Signaled" "cb c \<noteq> Recording" "cb c \<noteq> Pending"
  shows "rbind (record_cb c) (executeInternal False) = ret (c\<lparr>cb := Invalid\<rparr>) \<and>
    rbind (record_cb c) (executeInternal True) = fail (ApiMisuse ''vkQueueSubmit'')"
  using assms by (simp add: record_cb_def executeInternal_def vk_begin_def vk_end_def submit_cb_def)

section \<open>Witnesses\<close>

definition three_images :: creator where
  "three_images old_alive = (if old_alive then None else Some 3)"

definition fresh_chain :: swap_chain where
  "fresh_chain = \<lparr>imageCount = 3, chain_frames = replicate 3 fresh_frame, currentBuffer = 0, acquireImageIndex = 0,
     acquired = [], target = None, drawn = [], shown = []\<rparr>"

definition fresh_device :: render_device where
  "fresh_device = \<lparr>dev_width = 1280, dev_height = 720, dev_chain = fresh_chain\<rparr>"

lemma fresh_device_init: "init_swapchain (Some 3) = ret (dev_chain fresh_device)"
  by (simp add: init_swapchain_def MAX_SWAPCHAIN_BUFFERS_def init_frames fresh_device_def fresh_chain_def)

lemma fresh_device_ready: "ready 3 (dev_chain fresh_device)"
  by (simp add: ready_def fresh_device_def fresh_chain_def)

theorem frames_follow_rules_witness:
  "rfold (draw_frame three_images ((1, 1), (4096, 4096))) (map (\<lambda>i. (Acquired i, Presented)) [0, 2]) fresh_device =
     fail (ApiMisuse ''vkQueueSubmit'') \<and>
   (\<exists>d'. rfold (draw_frame three_images ((1, 1), (4096, 4096))) (map (\<lambda>i. (Acquired i, Presented)) [0, 1, 2, 0]) fresh_device = ret d' \<and>
     shown (dev_chain d') = [0, 1, 2, 0] \<and> drawn (dev_chain d') = [0, 1, 2, 0])"
proof -
  note rule = frames_follow_rules[OF _ _ fresh_device_init, of _ three_images "((1, 1), (4096, 4096))"]
  have no: "\<not> (\<forall>k < length [0, 2]. [0, 2] ! k = k mod (3::nat))" by (simp add: All_less_Suc2)
  have yes: "\<forall>k < length [0, 1, 2, 0]. [0, 1, 2, 0] ! k = k mod (3::nat)"
    by (simp add: All_less_Suc2)
  show ?thesis using rule[of "[0, 2]", unfolded if_not_P[OF no]] rule[of "[0, 1, 2, 0]", unfolded if_P[OF yes]] by auto
qed

theorem out_of_date_frame_fails_witness:
  "draw_frame three_images ((1, 1), (4096, 4096)) (AcquireOutOfDate, Presented) fresh_device =
     fail (RuntimeError ''failed to create swap chain!'')"
  using out_of_date_frame_fails[OF fresh_device_ready, of three_images "((1, 1), (4096, 4096))" Presented]
  by (auto simp: fresh_device_def three_images_def)

theorem reachable_ready_witness:
  "\<exists>d' n. onResize three_images ((1, 1), (4096, 4096)) False 800 600 fresh_device = ret d' \<and> ready n (dev_chain d')"
proof -
  obtain d' where d': "onResize three_images ((1, 1), (4096, 4096)) False 800 600 fresh_device = ret d'"
    by (simp add: onResize_def three_images_def fresh_device_init)
  then have "(device_step three_images ((1, 1), (4096, 4096)))\<^sup>*\<^sup>* fresh_device d'"
    by (intro r_into_rtranclp device_step.resize)
  from reachable_ready[OF this fresh_device_ready] d' show ?thesis by (auto simp: three_images_def)
qed

theorem resize_image_limit_witness:
  "onResize (\<lambda>_. Some 4) ((1, 1), (4096, 4096)) False 800 600 fresh_device = fail BadIndex"
  using resize_image_limit[of 800 600 "\<lambda>_. Some 4" 4 "((1, 1), (4096, 4096))" fresh_device] by simp

theorem execute_command_buffer_witness:
  "rbind (record_cb new_command_buffer) (executeInternal True) = fail (ApiMisuse ''vkQueueSubmit'')"
  using execute_command_buffer[of new_command_buffer] by (simp add: new_command_buffer_def)

end
