(* ===== verification/Geometry.thy ===== *)
theory Geometry
  imports Complex_Main
begin

text \<open>
  The geometry of \<^verbatim>\<open>src/Code/Maple/src/Math\<close>: bounding boxes, rectangles, rays and the scalar
  utilities. Coordinates are elements of a linearly ordered field, so that arithmetic is exact; the infinities
  that an empty box starts with are two more values of an extended order. NaN is not modelled.
\<close>

section \<open>Numbers with infinities\<close>

datatype 'a ext = NegInf | Fin 'a | PosInf

fun ext_le :: "'a::linorder ext \<Rightarrow> 'a ext \<Rightarrow> bool" where
  "ext_le NegInf y = True"
| "ext_le x PosInf = True"
| "ext_le (Fin a) (Fin b) = (a \<le> b)"
| "ext_le _ _ = False"

instantiation ext :: (linorder) linorder
begin

definition less_eq_ext :: "'a ext \<Rightarrow> 'a ext \<Rightarrow> bool" where "less_eq_ext = ext_le"

definition less_ext :: "'a ext \<Rightarrow> 'a ext \<Rightarrow> bool" where "less_ext x y = (ext_le x y \<and> \<not> ext_le y x)"

instance
proof
  fix x y z :: "'a ext"
  show "(x < y) = (x \<le> y \<and> \<not> y \<le> x)" by (simp add: less_eq_ext_def less_ext_def)
  show "x \<le> x" by (cases x) (simp_all add: less_eq_ext_def)
  show "x \<le> y \<Longrightarrow> y \<le> z \<Longrightarrow> x \<le> z" by (cases x; cases y; cases z) (simp_all add: less_eq_ext_def)
  show "x \<le> y \<Longrightarrow> y \<le> x \<Longrightarrow> x = y" by (cases x; cases y) (simp_all add: less_eq_ext_def)
  show "x \<le> y \<or> y \<le> x" by (cases x; cases y) (auto simp: less_eq_ext_def)
qed

end

lemma ext_order [simp]:
  "NegInf \<le> x" "x \<le> PosInf" "Fin a \<le> Fin b \<longleftrightarrow> a \<le> b" "\<not> Fin a \<le> NegInf" "\<not> PosInf \<le> Fin a"
  "Fin a < Fin b \<longleftrightarrow> a < b" "Fin a < PosInf" "NegInf < Fin a"
  by (cases x; auto simp: less_eq_ext_def less_ext_def)+

datatype 'a vec2 = Vec2 (x2: 'a) (y2: 'a)
datatype 'a vec3 = Vec3 (x3: 'a) (y3: 'a) (z3: 'a)

definition keep_min :: "'a::linorder \<Rightarrow> 'a \<Rightarrow> 'a" where
  "keep_min p m = (if p < m then p else m)"

definition keep_max :: "'a::linorder \<Rightarrow> 'a \<Rightarrow> 'a" where
  "keep_max p m = (if p > m then p else m)"

lemma keep_bounds [simp]:
  "c \<le> keep_min p m \<longleftrightarrow> c \<le> m \<and> c \<le> p" "keep_max p m \<le> c \<longleftrightarrow> m \<le> c \<and> p \<le> c"
  by (auto simp: keep_min_def keep_max_def)

section \<open>Bounding boxes\<close>

record 'a bounding_box =
  box_min :: "'a ext vec3"
  box_max :: "'a ext vec3"

definition empty_box :: "'a bounding_box" where
  "empty_box = \<lparr>box_min = Vec3 PosInf PosInf PosInf, box_max = Vec3 NegInf NegInf NegInf\<rparr>"

definition merge_point :: "'a::linorder bounding_box \<Rightarrow> 'a vec3 \<Rightarrow> 'a bounding_box" where
  "merge_point b p =
     \<lparr>box_min = Vec3 (keep_min (Fin (x3 p)) (x3 (box_min b))) (keep_min (Fin (y3 p)) (y3 (box_min b)))
                  (keep_min (Fin (z3 p)) (z3 (box_min b))),
      box_max = Vec3 (keep_max (Fin (x3 p)) (x3 (box_max b))) (keep_max (Fin (y3 p)) (y3 (box_max b)))
                  (keep_max (Fin (z3 p)) (z3 (box_max b)))\<rparr>"

definition merge_box :: "'a::linorder bounding_box \<Rightarrow> 'a bounding_box \<Rightarrow> 'a bounding_box" where
  "merge_box b c =
     \<lparr>box_min = Vec3 (keep_min (x3 (box_min c)) (x3 (box_min b))) (keep_min (y3 (box_min c)) (y3 (box_min b)))
                  (keep_min (z3 (box_min c)) (z3 (box_min b))),
      box_max = Vec3 (keep_max (x3 (box_max c)) (x3 (box_max b))) (keep_max (y3 (box_max c)) (y3 (box_max b)))
                  (keep_max (z3 (box_max c)) (z3 (box_max b)))\<rparr>"

definition isDefined :: "'a bounding_box \<Rightarrow> bool" where
  "isDefined b \<longleftrightarrow> x3 (box_min b) \<noteq> PosInf"

definition box_contains :: "'a::linorder bounding_box \<Rightarrow> 'a vec3 \<Rightarrow> bool" where
  "box_contains b p \<longleftrightarrow> \<not> (Fin (x3 p) < x3 (box_min b) \<or> Fin (x3 p) > x3 (box_max b) \<or>
     Fin (y3 p) < y3 (box_min b) \<or> Fin (y3 p) > y3 (box_max b) \<or>
     Fin (z3 p) < z3 (box_min b) \<or> Fin (z3 p) > z3 (box_max b))"

text \<open>The box that the constructor of a mesh makes from the positions of its vertices.\<close>

definition mesh_box :: "'a::linorder vec3 list \<Rightarrow> 'a bounding_box" where
  "mesh_box positions = foldl merge_point empty_box positions"

section \<open>Rectangles\<close>

record 'a rect2d =
  rect_min :: "'a ext vec2"
  rect_max :: "'a ext vec2"

definition empty_rect :: "'a rect2d" where
  "empty_rect = \<lparr>rect_min = Vec2 PosInf PosInf, rect_max = Vec2 NegInf NegInf\<rparr>"

definition rect_merge_point :: "'a::linorder rect2d \<Rightarrow> 'a vec2 \<Rightarrow> 'a rect2d" where
  "rect_merge_point r p =
     \<lparr>rect_min = Vec2 (keep_min (Fin (x2 p)) (x2 (rect_min r))) (keep_min (Fin (y2 p)) (y2 (rect_min r))),
      rect_max = Vec2 (keep_max (Fin (x2 p)) (x2 (rect_max r))) (keep_max (Fin (y2 p)) (y2 (rect_max r)))\<rparr>"

definition rect_merge :: "'a::linorder rect2d \<Rightarrow> 'a rect2d \<Rightarrow> 'a rect2d" where
  "rect_merge r s =
     \<lparr>rect_min = Vec2 (keep_min (x2 (rect_min s)) (x2 (rect_min r))) (keep_min (y2 (rect_min s)) (y2 (rect_min r))),
      rect_max = Vec2 (keep_max (x2 (rect_max s)) (x2 (rect_max r))) (keep_max (y2 (rect_max s)) (y2 (rect_max r)))\<rparr>"

definition rect_contains :: "'a::linorder rect2d \<Rightarrow> 'a vec2 \<Rightarrow> bool" where
  "rect_contains r p \<longleftrightarrow> \<not> (Fin (x2 p) < x2 (rect_min r) \<or> Fin (y2 p) < y2 (rect_min r) \<or>
     Fin (x2 p) > x2 (rect_max r) \<or> Fin (y2 p) > y2 (rect_max r))"

definition rect_of_points :: "'a::linorder vec2 list \<Rightarrow> 'a rect2d" where
  "rect_of_points points = foldl rect_merge_point empty_rect points"

section \<open>Rays\<close>

record 'a ray =
  origin :: "'a vec3"
  direction :: "'a vec3"

fun the_fin :: "'a::zero ext \<Rightarrow> 'a" where
  "the_fin (Fin a) = a" | "the_fin _ = 0"

definition point_at :: "'a::linordered_field ray \<Rightarrow> 'a \<Rightarrow> 'a vec3" where
  "point_at r t = Vec3 (x3 (origin r) + t * x3 (direction r)) (y3 (origin r) + t * y3 (direction r))
     (z3 (origin r) + t * z3 (direction r))"

text \<open>
  One of the six tests: the origin lies beyond a face and the ray goes towards it, the
  parameter of the crossing is smaller than the distance so far, and the crossing lies within the other two
  slabs.
\<close>

definition try_face :: "'a::linordered_field ray \<Rightarrow> bool \<times> 'a \<times> ('a vec3 \<Rightarrow> bool) \<Rightarrow> 'a ext \<Rightarrow> 'a ext" where
  "try_face r face distance = (case face of (towards, x, fits) \<Rightarrow>
     if towards then (if Fin x < distance then (if fits (point_at r x) then Fin x else distance) else distance) else distance)"

text \<open>The tests in the order of the source; \<open>lo\<close> and \<open>hi\<close> are the corners of the box.\<close>

definition box_faces :: "'a::linordered_field ray \<Rightarrow> 'a vec3 \<Rightarrow> 'a vec3 \<Rightarrow> (bool \<times> 'a \<times> ('a vec3 \<Rightarrow> bool)) list" where
  "box_faces r lo hi =
     (let in_x = (\<lambda>p. x3 lo \<le> x3 p \<and> x3 p \<le> x3 hi);
          in_y = (\<lambda>p. y3 lo \<le> y3 p \<and> y3 p \<le> y3 hi);
          in_z = (\<lambda>p. z3 lo \<le> z3 p \<and> z3 p \<le> z3 hi);
          ori = origin r; dir = direction r
      in [(x3 ori < x3 lo \<and> x3 dir > 0, (x3 lo - x3 ori) / x3 dir, \<lambda>p. in_y p \<and> in_z p),
          (x3 ori > x3 hi \<and> x3 dir < 0, (x3 hi - x3 ori) / x3 dir, \<lambda>p. in_y p \<and> in_z p),
          (y3 ori < y3 lo \<and> y3 dir > 0, (y3 lo - y3 ori) / y3 dir, \<lambda>p. in_x p \<and> in_z p),
          (y3 ori > y3 hi \<and> y3 dir < 0, (y3 hi - y3 ori) / y3 dir, \<lambda>p. in_x p \<and> in_z p),
          (z3 ori < z3 lo \<and> z3 dir > 0, (z3 lo - z3 ori) / z3 dir, \<lambda>p. in_x p \<and> in_y p),
          (z3 ori > z3 hi \<and> z3 dir < 0, (z3 hi - z3 ori) / z3 dir, \<lambda>p. in_x p \<and> in_y p)])"

definition corner :: "'a::zero ext vec3 \<Rightarrow> 'a vec3" where
  "corner v = Vec3 (the_fin (x3 v)) (the_fin (y3 v)) (the_fin (z3 v))"

definition hit :: "'a::linordered_field ray \<Rightarrow> 'a bounding_box \<Rightarrow> 'a ext" where
  "hit r b =
     (if \<not> isDefined b then PosInf
      else if box_contains b (origin r) then Fin 0
      else fold (try_face r) (box_faces r (corner (box_min b)) (corner (box_max b))) PosInf)"

definition vec_dot :: "'a::comm_ring vec3 \<Rightarrow> 'a vec3 \<Rightarrow> 'a" where
  "vec_dot a b = x3 a * x3 b + y3 a * y3 b + z3 a * z3 b"

definition vec_minus :: "'a::comm_ring vec3 \<Rightarrow> 'a vec3 \<Rightarrow> 'a vec3" where
  "vec_minus a b = Vec3 (x3 a - x3 b) (y3 a - y3 b) (z3 a - z3 b)"

definition EPS :: "'a::linordered_field" where
  "EPS = 1 / 1000000"

definition getClosestPoint :: "'a::linordered_field ray \<Rightarrow> 'a ray \<Rightarrow> 'a vec3" where
  "getClosestPoint this ray =
     (let p13 = vec_minus (origin this) (origin ray); p43 = direction ray; p21 = direction this;
          d1343 = vec_dot p13 p43; d4321 = vec_dot p43 p21; d1321 = vec_dot p13 p21;
          d4343 = vec_dot p43 p43; d2121 = vec_dot p21 p21;
          d = d2121 * d4343 - d4321 * d4321
      in if \<bar>d\<bar> < EPS then origin this
         else let n = d1343 * d4321 - d1321 * d4343; a = n / d in point_at this a)"

definition project :: "'a::linordered_field ray \<Rightarrow> 'a vec3 \<Rightarrow> 'a vec3" where
  "project r point = point_at r (vec_dot (vec_minus point (origin r)) (direction r))"

section \<open>Scalars\<close>

definition lerp :: "'a::linordered_field \<Rightarrow> 'a \<Rightarrow> 'a \<Rightarrow> bool \<Rightarrow> 'a" where
  "lerp a b t clamp01 = (let t = (if clamp01 then min (max t 0) 1 else t) in a + (b - a) * t)"

definition approx_equals :: "'a::linordered_field \<Rightarrow> 'a \<Rightarrow> bool" where
  "approx_equals lhs rhs \<longleftrightarrow> lhs + EPS \<ge> rhs \<and> lhs - EPS \<le> rhs"

section \<open>Hulls\<close>

text \<open>
  What boxes and rectangles share: an order of inclusion in which adding a point and joining are least
  upper bounds.
\<close>

locale hull =
  fixes start :: 'b and add :: "'b \<Rightarrow> 'p \<Rightarrow> 'b" and join :: "'b \<Rightarrow> 'b \<Rightarrow> 'b"
    and has :: "'b \<Rightarrow> 'p \<Rightarrow> bool" and subbox :: "'b \<Rightarrow> 'b \<Rightarrow> bool"
  assumes within_refl: "subbox b b"
    and within_antisym: "subbox a b \<Longrightarrow> subbox b a \<Longrightarrow> a = b"
    and within_has: "subbox a b \<Longrightarrow> has a p \<Longrightarrow> has b p"
    and start_within: "subbox start b"
    and add_within: "subbox (add b p) c \<longleftrightarrow> subbox b c \<and> has c p"
    and join_within: "subbox (join a b) c \<longleftrightarrow> subbox a c \<and> subbox b c"
begin

lemma hull_within: "subbox (foldl add b ps) c \<longleftrightarrow> subbox b c \<and> (\<forall>p \<in> set ps. has c p)"
  by (induction ps arbitrary: b) (auto simp: add_within)

lemma hull_least: "subbox (foldl add start ps) c \<longleftrightarrow> (\<forall>p \<in> set ps. has c p)"
  by (simp add: hull_within start_within)

lemma hull_has: "p \<in> set ps \<Longrightarrow> has (foldl add start ps) p"
  using hull_least[of ps "foldl add start ps"] within_refl by blast

lemma hull_eqI: "(\<And>c. subbox a c \<longleftrightarrow> subbox b c) \<Longrightarrow> a = b"
  using within_refl within_antisym by blast

lemma hull_join: "join (foldl add start ps) (foldl add start qs) = foldl add start (ps @ qs)"
  by (rule hull_eqI) (simp add: join_within hull_least hull_within start_within ball_Un)

lemma hull_set: "set ps = set qs \<Longrightarrow> foldl add start ps = foldl add start qs"
  by (rule hull_eqI) (simp add: hull_least)

end

definition box_within :: "'a::linorder bounding_box \<Rightarrow> 'a bounding_box \<Rightarrow> bool" where
  "box_within b c \<longleftrightarrow> x3 (box_min c) \<le> x3 (box_min b) \<and> y3 (box_min c) \<le> y3 (box_min b) \<and> z3 (box_min c) \<le> z3 (box_min b) \<and>
     x3 (box_max b) \<le> x3 (box_max c) \<and> y3 (box_max b) \<le> y3 (box_max c) \<and> z3 (box_max b) \<le> z3 (box_max c)"

definition rect_within :: "'a::linorder rect2d \<Rightarrow> 'a rect2d \<Rightarrow> bool" where
  "rect_within r s \<longleftrightarrow> x2 (rect_min s) \<le> x2 (rect_min r) \<and> y2 (rect_min s) \<le> y2 (rect_min r) \<and>
     x2 (rect_max r) \<le> x2 (rect_max s) \<and> y2 (rect_max r) \<le> y2 (rect_max s)"

lemma box_contains_iff:
  "box_contains b p \<longleftrightarrow> x3 (box_min b) \<le> Fin (x3 p) \<and> Fin (x3 p) \<le> x3 (box_max b) \<and> y3 (box_min b) \<le> Fin (y3 p) \<and>
     Fin (y3 p) \<le> y3 (box_max b) \<and> z3 (box_min b) \<le> Fin (z3 p) \<and> Fin (z3 p) \<le> z3 (box_max b)"
  by (auto simp: box_contains_def not_less)

lemma rect_contains_iff:
  "rect_contains r p \<longleftrightarrow> x2 (rect_min r) \<le> Fin (x2 p) \<and> Fin (x2 p) \<le> x2 (rect_max r) \<and>
     y2 (rect_min r) \<le> Fin (y2 p) \<and> Fin (y2 p) \<le> y2 (rect_max r)"
  by (auto simp: rect_contains_def not_less)

interpretation bb: hull empty_box merge_point merge_box box_contains box_within
proof
  fix a b c :: "'a bounding_box" and p
  show "box_within b b" by (simp add: box_within_def)
  show "box_within a b \<Longrightarrow> box_within b a \<Longrightarrow> a = b"
    by (cases a; cases b) (auto simp: box_within_def intro!: vec3.expand)
  show "box_within a b \<Longrightarrow> box_contains a p \<Longrightarrow> box_contains b p"
    unfolding box_within_def box_contains_iff by (meson order_trans)
  show "box_within empty_box b" by (simp add: box_within_def empty_box_def)
  show "box_within (merge_point b p) c \<longleftrightarrow> box_within b c \<and> box_contains c p"
    unfolding box_contains_iff by (auto simp: box_within_def merge_point_def)
  show "box_within (merge_box a b) c \<longleftrightarrow> box_within a c \<and> box_within b c"
    by (auto simp: box_within_def merge_box_def)
qed

interpretation rc: hull empty_rect rect_merge_point rect_merge rect_contains rect_within
proof
  fix a b c :: "'a rect2d" and p
  show "rect_within b b" by (simp add: rect_within_def)
  show "rect_within a b \<Longrightarrow> rect_within b a \<Longrightarrow> a = b"
    by (cases a; cases b) (auto simp: rect_within_def intro!: vec2.expand)
  show "rect_within a b \<Longrightarrow> rect_contains a p \<Longrightarrow> rect_contains b p"
    unfolding rect_within_def rect_contains_iff by (meson order_trans)
  show "rect_within empty_rect b" by (simp add: rect_within_def empty_rect_def)
  show "rect_within (rect_merge_point b p) c \<longleftrightarrow> rect_within b c \<and> rect_contains c p"
    unfolding rect_contains_iff by (auto simp: rect_within_def rect_merge_point_def)
  show "rect_within (rect_merge a b) c \<longleftrightarrow> rect_within a c \<and> rect_within b c"
    by (auto simp: rect_within_def rect_merge_def)
qed

section \<open>Boxes of points\<close>

fun is_fin :: "'a ext \<Rightarrow> bool" where
  "is_fin (Fin _) = True" | "is_fin _ = False"

definition finite_box :: "'a bounding_box \<Rightarrow> bool" where
  "finite_box b \<longleftrightarrow> is_fin (x3 (box_min b)) \<and> is_fin (y3 (box_min b)) \<and> is_fin (z3 (box_min b)) \<and>
     is_fin (x3 (box_max b)) \<and> is_fin (y3 (box_max b)) \<and> is_fin (z3 (box_max b))"

lemma merge_point_finite: "finite_box b \<or> b = empty_box \<Longrightarrow> finite_box (merge_point b p)"
  by (auto simp: finite_box_def merge_point_def keep_min_def keep_max_def empty_box_def)

lemma mesh_box_finite:
  assumes "ps \<noteq> []"
  shows "finite_box (mesh_box ps)"
proof -
  have "finite_box b \<Longrightarrow> finite_box (foldl merge_point b qs)" for b :: "'a bounding_box" and qs
    by (induction qs arbitrary: b) (simp_all add: merge_point_finite)
  moreover obtain q qs where "ps = q # qs" using assms by (cases ps) auto
  ultimately show ?thesis by (simp add: mesh_box_def merge_point_finite)
qed

text \<open>
  The bounding box of a mesh contains every vertex and lies within every box that does; it is defined
  exactly when the mesh has a vertex, does not depend on order or repetition of the vertices, and
  merging the boxes of two meshes gives the box of all their vertices.
\<close>

theorem mesh_box_least:
  "(\<forall>p \<in> set ps. box_contains (mesh_box ps) p) \<and>
   (\<forall>c. (\<forall>p \<in> set ps. box_contains c p) \<longrightarrow> box_within (mesh_box ps) c) \<and>
   (isDefined (mesh_box ps) \<longleftrightarrow> ps \<noteq> []) \<and>
   (\<forall>qs. set qs = set ps \<longrightarrow> mesh_box qs = mesh_box ps) \<and>
   (\<forall>qs. merge_box (mesh_box ps) (mesh_box qs) = mesh_box (ps @ qs))"
proof (intro conjI allI impI ballI)
  show "box_contains (mesh_box ps) p" if "p \<in> set ps" for p
    unfolding mesh_box_def using that by (rule bb.hull_has)
  show "box_within (mesh_box ps) c" if "\<forall>p \<in> set ps. box_contains c p" for c
    unfolding mesh_box_def using that by (simp only: bb.hull_least)
  show "mesh_box qs = mesh_box ps" if "set qs = set ps" for qs
    unfolding mesh_box_def using that by (rule bb.hull_set)
  show "merge_box (mesh_box ps) (mesh_box qs) = mesh_box (ps @ qs)" for qs
    unfolding mesh_box_def by (rule bb.hull_join)
  show "isDefined (mesh_box ps) \<longleftrightarrow> ps \<noteq> []"
  proof (cases "ps = []")
    case True
    then show ?thesis by (simp add: isDefined_def mesh_box_def empty_box_def)
  next
    case False
    then show ?thesis using mesh_box_finite[OF False] by (auto simp: isDefined_def finite_box_def)
  qed
qed

section \<open>A ray and a slab\<close>

text \<open>One axis: the ray is in the slab at a parameter, and the parameter at which it enters.\<close>

definition slab :: "'a::linordered_field \<Rightarrow> 'a \<Rightarrow> 'a \<Rightarrow> 'a \<Rightarrow> 'a \<Rightarrow> bool" where
  "slab lo hi ori d t \<longleftrightarrow> lo \<le> ori + t * d \<and> ori + t * d \<le> hi"

definition enters :: "'a::linordered_field \<Rightarrow> 'a \<Rightarrow> 'a \<Rightarrow> 'a \<Rightarrow> 'a \<Rightarrow> bool" where
  "enters lo hi ori d t \<longleftrightarrow> (ori < lo \<and> d > 0 \<and> t = (lo - ori) / d) \<or> (ori > hi \<and> d < 0 \<and> t = (hi - ori) / d)"

lemma enters_slab:
  assumes "enters lo hi ori d t" "lo \<le> hi"
  shows "0 < t \<and> slab lo hi ori d t"
  using assms by (auto simp: enters_def slab_def divide_pos_pos divide_neg_neg)

lemma slab_convex:
  assumes "slab lo hi ori d u" "slab lo hi ori d v" "u \<le> t" "t \<le> v"
  shows "slab lo hi ori d t"
proof (cases "0 \<le> d")
  case True
  then have "u * d \<le> t * d" "t * d \<le> v * d" using assms(3,4) by (simp_all add: mult_right_mono)
  then show ?thesis using assms(1,2) by (auto simp: slab_def intro: order_trans)
next
  case False
  then have "t * d \<le> u * d" "v * d \<le> t * d" using assms(3,4) by (simp_all add: mult_right_mono_neg)
  then show ?thesis using assms(1,2) by (auto simp: slab_def intro: order_trans)
qed

lemma slab_entry:
  assumes "lo \<le> hi" "slab lo hi ori d t" "0 \<le> t"
  shows "\<exists>a. 0 \<le> a \<and> a \<le> t \<and> (\<forall>s. a \<le> s \<longrightarrow> s \<le> t \<longrightarrow> slab lo hi ori d s) \<and> (a = 0 \<or> enters lo hi ori d a)"
proof -
  consider "slab lo hi ori d 0" | "ori < lo" | "ori > hi" unfolding slab_def by fastforce
  then show ?thesis
  proof cases
    case 1
    then show ?thesis using assms slab_convex[OF 1 assms(2)] by auto
  next
    case 2
    then have "0 < t * d" using assms(2) by (auto simp: slab_def)
    then have d: "0 < d" using assms(3) by (simp add: zero_less_mult_iff)
    let ?a = "(lo - ori) / d"
    have e: "enters lo hi ori d ?a" using 2 d by (simp add: enters_def)
    have "?a \<le> t" using d assms(2) by (simp add: slab_def field_simps)
    then show ?thesis using enters_slab[OF e assms(1)] slab_convex[OF _ assms(2)] e by (intro exI[of _ ?a]) auto
  next
    case 3
    then have "t * d < 0" using assms(2) by (auto simp: slab_def)
    then have d: "d < 0" using assms(3) by (simp add: mult_less_0_iff)
    let ?a = "(hi - ori) / d"
    have e: "enters lo hi ori d ?a" using 3 d by (simp add: enters_def)
    have "?a \<le> t" using d assms(2) by (simp add: slab_def field_simps)
    then show ?thesis using enters_slab[OF e assms(1)] slab_convex[OF _ assms(2)] e by (intro exI[of _ ?a]) auto
  qed
qed

section \<open>The distance of a box\<close>

lemma fold_try_face:
  "(\<forall>(tw, x, w) \<in> set fs. tw \<longrightarrow> w (point_at r x) \<longrightarrow> fold (try_face r) fs distance \<le> Fin x) \<and> fold (try_face r) fs distance \<le> distance \<and>
   (fold (try_face r) fs distance = distance \<or> (\<exists>(tw, x, w) \<in> set fs. tw \<and> w (point_at r x) \<and> fold (try_face r) fs distance = Fin x))"
proof (induction fs arbitrary: distance)
  case (Cons f fs)
  obtain tw x w where f: "f = (tw, x, w)" by (cases f)
  have step: "try_face r f distance \<le> distance" "tw \<Longrightarrow> w (point_at r x) \<Longrightarrow> try_face r f distance \<le> Fin x"
    "try_face r f distance = distance \<or> (tw \<and> w (point_at r x) \<and> try_face r f distance = Fin x)"
    by (auto simp: try_face_def f)
  let ?e = "fold (try_face r) fs (try_face r f distance)"
  have "?e \<le> try_face r f distance" using Cons[of "try_face r f distance"] by blast
  with Cons[of "try_face r f distance"] step show ?case
    unfolding f by (auto intro: order_trans)
qed simp

definition finite_bounds :: "'a vec3 \<Rightarrow> 'a vec3 \<Rightarrow> 'a bounding_box" where
  "finite_bounds lo hi = \<lparr>box_min = Vec3 (Fin (x3 lo)) (Fin (y3 lo)) (Fin (z3 lo)),
     box_max = Vec3 (Fin (x3 hi)) (Fin (y3 hi)) (Fin (z3 hi))\<rparr>"

definition inside :: "'a::linordered_field ray \<Rightarrow> 'a vec3 \<Rightarrow> 'a vec3 \<Rightarrow> 'a \<Rightarrow> bool" where
  "inside r lo hi t \<longleftrightarrow> slab (x3 lo) (x3 hi) (x3 (origin r)) (x3 (direction r)) t \<and>
     slab (y3 lo) (y3 hi) (y3 (origin r)) (y3 (direction r)) t \<and> slab (z3 lo) (z3 hi) (z3 (origin r)) (z3 (direction r)) t"

lemma inside_iff: "inside r lo hi t \<longleftrightarrow> box_contains (finite_bounds lo hi) (point_at r t)"
  by (auto simp: inside_def slab_def box_contains_iff finite_bounds_def point_at_def)

definition crossing :: "'a::linordered_field ray \<Rightarrow> 'a vec3 \<Rightarrow> 'a vec3 \<Rightarrow> 'a \<Rightarrow> bool" where
  "crossing r lo hi t \<longleftrightarrow> inside r lo hi t \<and>
     (enters (x3 lo) (x3 hi) (x3 (origin r)) (x3 (direction r)) t \<or>
      enters (y3 lo) (y3 hi) (y3 (origin r)) (y3 (direction r)) t \<or>
      enters (z3 lo) (z3 hi) (z3 (origin r)) (z3 (direction r)) t)"

lemma crossing_before:
  assumes "x3 lo \<le> x3 hi" "y3 lo \<le> y3 hi" "z3 lo \<le> z3 hi" "\<not> inside r lo hi 0" "inside r lo hi t" "0 \<le> t"
  shows "\<exists>s \<le> t. crossing r lo hi s"
proof -
  obtain ax where ax: "0 \<le> ax" "ax \<le> t" "\<And>s. ax \<le> s \<Longrightarrow> s \<le> t \<Longrightarrow> slab (x3 lo) (x3 hi) (x3 (origin r)) (x3 (direction r)) s"
    "ax = 0 \<or> enters (x3 lo) (x3 hi) (x3 (origin r)) (x3 (direction r)) ax"
    using slab_entry[OF assms(1) _ assms(6)] assms(5) unfolding inside_def by blast
  obtain ay where ay: "0 \<le> ay" "ay \<le> t" "\<And>s. ay \<le> s \<Longrightarrow> s \<le> t \<Longrightarrow> slab (y3 lo) (y3 hi) (y3 (origin r)) (y3 (direction r)) s"
    "ay = 0 \<or> enters (y3 lo) (y3 hi) (y3 (origin r)) (y3 (direction r)) ay"
    using slab_entry[OF assms(2) _ assms(6)] assms(5) unfolding inside_def by blast
  obtain az where az: "0 \<le> az" "az \<le> t" "\<And>s. az \<le> s \<Longrightarrow> s \<le> t \<Longrightarrow> slab (z3 lo) (z3 hi) (z3 (origin r)) (z3 (direction r)) s"
    "az = 0 \<or> enters (z3 lo) (z3 hi) (z3 (origin r)) (z3 (direction r)) az"
    using slab_entry[OF assms(3) _ assms(6)] assms(5) unfolding inside_def by blast
  let ?m = "max ax (max ay az)"
  have m: "ax \<le> ?m" "ay \<le> ?m" "az \<le> ?m" "?m \<le> t" "?m = ax \<or> ?m = ay \<or> ?m = az" using ax(2) ay(2) az(2) by (auto simp: max_def)
  have "inside r lo hi ?m" unfolding inside_def using ax(3)[OF m(1,4)] ay(3)[OF m(2,4)] az(3)[OF m(3,4)] by blast
  moreover have "?m \<noteq> 0" using calculation assms(4) by metis
  ultimately show ?thesis unfolding crossing_def using m(4,5) ax(4) ay(4) az(4) by metis
qed

lemma crossing_faces:
  assumes le: "x3 lo \<le> x3 hi" "y3 lo \<le> y3 hi" "z3 lo \<le> z3 hi"
  shows "crossing r lo hi t \<longleftrightarrow> (\<exists>(tw, x, w) \<in> set (box_faces r lo hi). tw \<and> t = x \<and> w (point_at r t))"
proof -
  have s: "lo \<le> hi \<Longrightarrow> enters lo hi ori d t \<Longrightarrow> slab lo hi ori d t" for lo hi ori d :: 'a using enters_slab by blast
  have c: "crossing r lo hi t \<longleftrightarrow>
      enters (x3 lo) (x3 hi) (x3 (origin r)) (x3 (direction r)) t \<and>
        slab (y3 lo) (y3 hi) (y3 (origin r)) (y3 (direction r)) t \<and> slab (z3 lo) (z3 hi) (z3 (origin r)) (z3 (direction r)) t \<or>
      enters (y3 lo) (y3 hi) (y3 (origin r)) (y3 (direction r)) t \<and>
        slab (x3 lo) (x3 hi) (x3 (origin r)) (x3 (direction r)) t \<and> slab (z3 lo) (z3 hi) (z3 (origin r)) (z3 (direction r)) t \<or>
      enters (z3 lo) (z3 hi) (z3 (origin r)) (z3 (direction r)) t \<and>
        slab (x3 lo) (x3 hi) (x3 (origin r)) (x3 (direction r)) t \<and> slab (y3 lo) (y3 hi) (y3 (origin r)) (y3 (direction r)) t"
    unfolding crossing_def inside_def using s le by blast
  show ?thesis
    unfolding c slab_def enters_def box_faces_def Let_def
    by (simp only: list.set insert_iff bex_simps bex_empty prod.case point_at_def vec3.sel
        conj_disj_distribR conj_assoc disj_assoc simp_thms)
qed

lemma hit_first_entry:
  assumes "x3 lo \<le> x3 hi" "y3 lo \<le> y3 hi" "z3 lo \<le> z3 hi"
  shows "(hit r (finite_bounds lo hi) = PosInf \<longleftrightarrow> (\<forall>t \<ge> 0. \<not> box_contains (finite_bounds lo hi) (point_at r t))) \<and>
    (hit r (finite_bounds lo hi) = Fin t \<longleftrightarrow> 0 \<le> t \<and> box_contains (finite_bounds lo hi) (point_at r t) \<and>
      (\<forall>s. 0 \<le> s \<longrightarrow> s < t \<longrightarrow> \<not> box_contains (finite_bounds lo hi) (point_at r s)))"
  unfolding inside_iff[symmetric]
proof (cases "inside r lo hi 0")
  case True
  then have "hit r (finite_bounds lo hi) = Fin 0"
    by (simp add: hit_def isDefined_def finite_bounds_def inside_iff point_at_def)
  with True show "(hit r (finite_bounds lo hi) = PosInf \<longleftrightarrow> (\<forall>t \<ge> 0. \<not> inside r lo hi t)) \<and>
    (hit r (finite_bounds lo hi) = Fin t \<longleftrightarrow> 0 \<le> t \<and> inside r lo hi t \<and> (\<forall>s. 0 \<le> s \<longrightarrow> s < t \<longrightarrow> \<not> inside r lo hi s))"
    by (auto simp: order.order_iff_strict)
next
  case False
  let ?h = "fold (try_face r) (box_faces r lo hi) PosInf"
  have h: "hit r (finite_bounds lo hi) = ?h"
    using False by (simp add: hit_def isDefined_def finite_bounds_def corner_def inside_iff point_at_def)
  have before: "\<exists>s \<le> t. crossing r lo hi s" if "inside r lo hi t" "0 \<le> t" for t
    by (rule crossing_before[OF assms False that])
  have pos: "0 < t \<and> inside r lo hi t" if "crossing r lo hi t" for t
    using that enters_slab assms unfolding crossing_def by blast
  have least: "?h \<le> Fin t" if "crossing r lo hi t" for t
    using that fold_try_face[where r = r and fs = "box_faces r lo hi" and distance = PosInf] unfolding crossing_faces[OF assms] by blast
  have some: "?h = PosInf \<or> (\<exists>t. crossing r lo hi t \<and> ?h = Fin t)"
    using fold_try_face[where r = r and fs = "box_faces r lo hi" and distance = PosInf] unfolding crossing_faces[OF assms] by blast
  show "(hit r (finite_bounds lo hi) = PosInf \<longleftrightarrow> (\<forall>t \<ge> 0. \<not> inside r lo hi t)) \<and>
    (hit r (finite_bounds lo hi) = Fin t \<longleftrightarrow> 0 \<le> t \<and> inside r lo hi t \<and> (\<forall>s. 0 \<le> s \<longrightarrow> s < t \<longrightarrow> \<not> inside r lo hi s))"
    unfolding h using some
  proof (elim disjE exE conjE)
    assume inf: "?h = PosInf"
    then have "\<not> crossing r lo hi s" for s using least[of s] by auto
    then show "(?h = PosInf \<longleftrightarrow> (\<forall>t \<ge> 0. \<not> inside r lo hi t)) \<and>
      (?h = Fin t \<longleftrightarrow> 0 \<le> t \<and> inside r lo hi t \<and> (\<forall>s. 0 \<le> s \<longrightarrow> s < t \<longrightarrow> \<not> inside r lo hi s))"
      using before inf by auto
  next
    fix u
    assume u: "crossing r lo hi u" "?h = Fin u"
    have first: "u \<le> s" if "inside r lo hi s" "0 \<le> s" for s
      using before[OF that] least u(2) by (auto intro: order_trans)
    show "(?h = PosInf \<longleftrightarrow> (\<forall>t \<ge> 0. \<not> inside r lo hi t)) \<and>
      (?h = Fin t \<longleftrightarrow> 0 \<le> t \<and> inside r lo hi t \<and> (\<forall>s. 0 \<le> s \<longrightarrow> s < t \<longrightarrow> \<not> inside r lo hi s))"
    proof -
      have same: "u = t" if "0 \<le> t" "inside r lo hi t" "\<forall>s. 0 \<le> s \<longrightarrow> s < t \<longrightarrow> \<not> inside r lo hi s"
        using first[OF that(2,1)] pos[OF u(1)] that(3) by (metis less_imp_le order.not_eq_order_implies_strict)
      have "\<forall>s. 0 \<le> s \<longrightarrow> s < u \<longrightarrow> \<not> inside r lo hi s" using first by (meson not_le)
      then show ?thesis unfolding u(2) using pos[OF u(1)] same by (auto intro: less_imp_le)
    qed
  qed
qed

text \<open>
  C22: The distance from a ray to a finite box whose minimum is on no axis above its maximum is the smallest non-negative parameter at which the ray is
  in the box, and infinite when the ray misses it. (A box that is turned over by its transformation counts as defined as well, but contains no point; of its
  distance nothing is said.)
\<close>

theorem hit_is_first_entry:
  assumes "x3 lo \<le> x3 hi" "y3 lo \<le> y3 hi" "z3 lo \<le> z3 hi"
  shows "(hit r (finite_bounds lo hi) = PosInf \<longleftrightarrow> (\<forall>t \<ge> 0. \<not> box_contains (finite_bounds lo hi) (point_at r t))) \<and>
    (hit r (finite_bounds lo hi) = Fin t \<longleftrightarrow> 0 \<le> t \<and> box_contains (finite_bounds lo hi) (point_at r t) \<and>
      (\<forall>s. 0 \<le> s \<longrightarrow> s < t \<longrightarrow> \<not> box_contains (finite_bounds lo hi) (point_at r s)))"
  by (rule hit_first_entry[OF assms])

section \<open>The closest point of two rays\<close>

lemma dot_difference:
  "vec_dot (vec_minus (point_at r a) (point_at s b)) w =
     vec_dot (vec_minus (origin r) (origin s)) w + a * vec_dot (direction r) w - b * vec_dot (direction s) w"
  by (simp add: vec_dot_def vec_minus_def point_at_def algebra_simps)

lemma vec_dot_commute: "vec_dot a b = vec_dot b a"
  by (simp add: vec_dot_def mult.commute)

lemma vec_dot_self_zero: "vec_dot v v = (0 :: 'a::linordered_field) \<Longrightarrow> vec_dot v w = 0"
proof -
  assume z: "vec_dot v v = 0"
  have "x3 v * x3 v \<le> 0" "y3 v * y3 v \<le> 0" "z3 v * z3 v \<le> 0"
    using z zero_le_square[of "x3 v"] zero_le_square[of "y3 v"] zero_le_square[of "z3 v"] unfolding vec_dot_def by linarith+
  then have "x3 v = 0" "y3 v = 0" "z3 v = 0" by (metis mult_eq_0_iff order.antisym zero_le_square)+
  then show ?thesis by (simp add: vec_dot_def)
qed

lemma vec_dot_self_nonneg: "(0 :: 'a::linordered_field) \<le> vec_dot v v"
  unfolding vec_dot_def using zero_le_square[of "x3 v"] zero_le_square[of "y3 v"] zero_le_square[of "z3 v"] by linarith

definition dist2 :: "'a::linordered_field vec3 \<Rightarrow> 'a vec3 \<Rightarrow> 'a" where
  "dist2 p q = vec_dot (vec_minus p q) (vec_minus p q)"

lemma perpendicular_closest:
  assumes "vec_dot (vec_minus (point_at r a) (point_at s b)) (direction r) = 0"
    "vec_dot (vec_minus (point_at r a) (point_at s b)) (direction s) = 0"
  shows "dist2 (point_at r a) (point_at s b) \<le> dist2 (point_at r a') (point_at s b')"
proof -
  let ?x = "vec_minus (point_at r a) (point_at s b)" and ?y = "vec_minus (point_at r a') (point_at s b')"
  define u where "u = Vec3 ((a' - a) * x3 (direction r) - (b' - b) * x3 (direction s))
    ((a' - a) * y3 (direction r) - (b' - b) * y3 (direction s)) ((a' - a) * z3 (direction r) - (b' - b) * z3 (direction s))"
  have "vec_dot ?y ?y = vec_dot ?x ?x + 2 * vec_dot ?x u + vec_dot u u"
    by (simp add: u_def vec_dot_def vec_minus_def point_at_def algebra_simps)
  moreover have "vec_dot ?x u = (a' - a) * vec_dot ?x (direction r) - (b' - b) * vec_dot ?x (direction s)"
    by (simp add: u_def vec_dot_def algebra_simps)
  ultimately show ?thesis using assms vec_dot_self_nonneg[of u] by (simp add: dist2_def)
qed

lemma closest_scalars:
  fixes uu vv vu pu pv :: "'a::field"
  assumes "a * (uu * vv - vu * vu) = pv * vu - pu * vv" "b * vv = pv + vu * a" "vv \<noteq> 0"
  shows "pu + a * uu - b * vu = 0" "pv + a * vu - b * vv = 0"
proof -
  have "vv * (pu + a * uu - b * vu) = pu * vv + a * (uu * vv - vu * vu) + vu * vu * a - vu * (b * vv)"
    by (simp add: algebra_simps)
  also have "\<dots> = 0" unfolding assms(1,2) by (simp add: algebra_simps)
  finally show "pu + a * uu - b * vu = 0" using assms(3) by simp
  show "pv + a * vu - b * vv = 0" using assms(2) by (simp add: mult.commute)
qed

text \<open>
  Unless the rays are nearly parallel, the point returned lies on this ray's line and is the foot of
  the common perpendicular: together with a point of the other line it realises the smallest distance
  between points of the two lines.
\<close>

theorem getClosestPoint_minimises:
  assumes "EPS \<le> \<bar>vec_dot (direction r) (direction r) * vec_dot (direction s) (direction s) -
      vec_dot (direction s) (direction r) * vec_dot (direction s) (direction r)\<bar>"
  shows "\<exists>a b. getClosestPoint r s = point_at r a \<and>
    (\<forall>a' b'. dist2 (getClosestPoint r s) (point_at s b) \<le> dist2 (point_at r a') (point_at s b'))"
proof -
  let ?p = "vec_minus (origin r) (origin s)"
  let ?uu = "vec_dot (direction r) (direction r)" and ?vv = "vec_dot (direction s) (direction s)"
  let ?vu = "vec_dot (direction s) (direction r)" and ?pu = "vec_dot ?p (direction r)" and ?pv = "vec_dot ?p (direction s)"
  let ?d = "?uu * ?vv - ?vu * ?vu"
  have "(0 :: 'a) < EPS" by (simp add: EPS_def)
  then have d: "?d \<noteq> 0" using assms by auto
  have v: "?vv \<noteq> 0"
  proof
    assume "?vv = 0"
    then have "?vu = 0" by (rule vec_dot_self_zero)
    with \<open>?vv = 0\<close> d show False by simp
  qed
  define a where "a = (?pv * ?vu - ?pu * ?vv) / ?d"
  define b where "b = (?pv + ?vu * a) / ?vv"
  have ab: "a * ?d = ?pv * ?vu - ?pu * ?vv" "b * ?vv = ?pv + ?vu * a" using d v by (simp_all add: a_def b_def)
  have c: "getClosestPoint r s = point_at r a"
    using assms by (simp add: getClosestPoint_def Let_def not_less[symmetric] a_def)
  show ?thesis
    using perpendicular_closest[of r a s b] closest_scalars[OF ab v]
    unfolding c dot_difference vec_dot_commute[of "direction r" "direction s"] by blast
qed

text \<open>A clamped interpolation stays between its ends; the comparison with a tolerance is symmetric.\<close>

lemma lerp_between:
  fixes a b :: "'a::linordered_field"
  assumes "a \<le> b"
  shows "a \<le> lerp a b t True \<and> lerp a b t True \<le> b"
proof -
  let ?t = "min (max t 0) 1"
  have t: "0 \<le> ?t" "?t \<le> 1" by simp_all
  have "0 \<le> (b - a) * ?t" using assms t(1) by simp
  moreover have "(b - a) * ?t \<le> b - a" using mult_left_mono[OF t(2), of "b - a"] assms by simp
  ultimately have "a \<le> a + (b - a) * ?t" "a + (b - a) * ?t \<le> b" by linarith+
  then show ?thesis by (simp only: lerp_def Let_def if_True simp_thms)
qed

lemma approx_equals_sym: "approx_equals a b \<longleftrightarrow> approx_equals b a"
  by (auto simp: approx_equals_def)

section \<open>Witnesses\<close>

definition sight :: "rat ray" where
  "sight = \<lparr>origin = Vec3 (- 3) 0 0, direction = Vec3 1 0 0\<rparr>"

theorem hit_is_first_entry_witness:
  "hit sight (finite_bounds (Vec3 (- 1) (- 1) (- 1)) (Vec3 1 1 1)) = Fin 2"
proof -
  have "hit sight (finite_bounds (Vec3 (- 1) (- 1) (- 1)) (Vec3 1 1 1)) = Fin 2 \<longleftrightarrow> 0 \<le> (2 :: rat) \<and>
      box_contains (finite_bounds (Vec3 (- 1) (- 1) (- 1)) (Vec3 1 1 1)) (point_at sight 2) \<and>
      (\<forall>s. 0 \<le> s \<longrightarrow> s < 2 \<longrightarrow> \<not> box_contains (finite_bounds (Vec3 (- 1) (- 1) (- 1)) (Vec3 1 1 1)) (point_at sight s))"
    using hit_is_first_entry[of "Vec3 (- 1) (- 1) (- 1)" "Vec3 1 1 1" sight 2] by simp
  then show ?thesis by (auto simp: sight_def point_at_def finite_bounds_def box_contains_iff)
qed

theorem getClosestPoint_minimises_witness:
  "\<exists>a b. getClosestPoint sight \<lparr>origin = Vec3 0 0 5, direction = Vec3 0 1 0\<rparr> = point_at sight a \<and>
     dist2 (getClosestPoint sight \<lparr>origin = Vec3 0 0 5, direction = Vec3 0 1 0\<rparr>)
       (point_at \<lparr>origin = Vec3 0 0 5, direction = Vec3 0 1 0\<rparr> b) \<le>
     dist2 (point_at sight 7) (point_at \<lparr>origin = Vec3 0 0 5, direction = Vec3 0 1 0\<rparr> 7)"
  using getClosestPoint_minimises[of sight "\<lparr>origin = Vec3 0 0 5, direction = Vec3 0 1 0\<rparr>"]
  by (auto simp: sight_def EPS_def vec_dot_def)

theorem mesh_box_least_witness:
  "box_contains (mesh_box [Vec3 0 0 0, Vec3 2 3 (4::int)]) (Vec3 2 3 4) \<and>
   merge_box (mesh_box [Vec3 0 0 0]) (mesh_box [Vec3 2 3 (4::int)]) = mesh_box [Vec3 0 0 0, Vec3 2 3 4]"
proof
  have "\<forall>p \<in> set [Vec3 0 0 0, Vec3 2 3 (4::int)]. box_contains (mesh_box [Vec3 0 0 0, Vec3 2 3 (4::int)]) p"
    using mesh_box_least[of "[Vec3 0 0 0, Vec3 2 3 (4::int)]"] by (rule conjunct1)
  then show "box_contains (mesh_box [Vec3 0 0 0, Vec3 2 3 (4::int)]) (Vec3 2 3 4)" by simp
  have "\<forall>qs. merge_box (mesh_box [Vec3 0 0 0]) (mesh_box qs) = mesh_box ([Vec3 0 0 (0::int)] @ qs)"
    using mesh_box_least[of "[Vec3 0 0 (0::int)]"] by blast
  then show "merge_box (mesh_box [Vec3 0 0 0]) (mesh_box [Vec3 2 3 (4::int)]) = mesh_box [Vec3 0 0 0, Vec3 2 3 4]" by simp
qed

end
