(* ===== verification/Shaders.thy ===== *)
theory Shaders
  imports Strings
begin

text \<open>
  Shaders and vertex layouts: the description file and the reflection of \<^verbatim>\<open>Engine/Vulkan/VulkanShader.cpp\<close>, and the
  layout of vertex buffers, \<^verbatim>\<open>Engine/Interface/BufferLayout.cpp\<close>. What the SPIR-V compiler library reports of a
  module (its inputs, uniforms and push constants) is an argument. Offsets and sizes are 32 bits wide.
\<close>

section \<open>The description file\<close>

datatype shader_type = UNKNOWN | VERTEX_SHADER | FRAGMENT_SHADER | GEOMETRY_SHADER | COMPUTE_SHADER

definition getShaderTypeByName :: "string \<Rightarrow> shader_type" where
  "getShaderTypeByName name =
     (if contains name ''Vertex'' then VERTEX_SHADER
      else if contains name ''Fragment'' then FRAGMENT_SHADER
      else if contains name ''Geometry'' then GEOMETRY_SHADER
      else if contains name ''Compute'' then COMPUTE_SHADER else UNKNOWN)"

definition carriage_return :: string where
  "carriage_return = [char_of (13 :: nat)]"

definition newline :: string where
  "newline = [char_of (10 :: nat)]"

definition parse_line :: "string \<Rightarrow> (shader_type \<rightharpoonup> string) \<Rightarrow> (shader_type \<rightharpoonup> string) run" where
  "parse_line str shaders =
     (if startWith str ''#'' then
        case split str '' '' of
          None \<Rightarrow> None
        | Some path \<Rightarrow>
            let type = getShaderTypeByName (hd path)
            in if type \<noteq> UNKNOWN
               then (if length path < 2 then fail BadIndex else ret (shaders(type \<mapsto> trim (path ! 1) carriage_return)))
               else ret shaders
      else ret shaders)"

definition parseSource :: "string list \<Rightarrow> (shader_type \<rightharpoonup> string) \<Rightarrow> (shader_type \<rightharpoonup> string) run" where
  "parseSource lines shaders = rfold parse_line lines shaders"

definition shader_sources :: "string \<Rightarrow> (shader_type \<rightharpoonup> string) run" where
  "shader_sources str = (case split_into str newline [] of None \<Rightarrow> None | Some lines \<Rightarrow> parseSource lines Map.empty)"

datatype vk_stage = VK_SHADER_STAGE_VERTEX_BIT | VK_SHADER_STAGE_FRAGMENT_BIT

fun shaderTypeToVK :: "shader_type \<Rightarrow> vk_stage" where
  "shaderTypeToVK VERTEX_SHADER = VK_SHADER_STAGE_VERTEX_BIT"
| "shaderTypeToVK FRAGMENT_SHADER = VK_SHADER_STAGE_FRAGMENT_BIT"
| "shaderTypeToVK _ = VK_SHADER_STAGE_VERTEX_BIT"

section \<open>Reflection of the vertex inputs\<close>

datatype basetype = UIntType | IntType | FloatType | DoubleType | OtherType

text \<open>The formats of 32 and 64 bits per channel, with the number of channels.\<close>

datatype attr_format = UINT nat | SINT nat | SFLOAT nat | SFLOAT64 nat

record shader_input =
  in_basetype :: basetype
  in_vecsize :: nat
  in_binding :: nat
  in_location :: nat

record attr_description =
  binding :: nat
  location :: nat
  attr_offset :: nat
  attr_format :: attr_format

record vertex_input =
  vertexInputStride :: nat
  descriptions :: "attr_description list"

definition format_of :: "(nat \<Rightarrow> attr_format) \<Rightarrow> nat \<Rightarrow> attr_format run" where
  "format_of types vecsize = (if 1 \<le> vecsize \<and> vecsize \<le> 4 then ret (types vecsize) else fail BadIndex)"

definition getVulkanFormat :: "basetype \<Rightarrow> nat \<Rightarrow> attr_format run" where
  "getVulkanFormat b vecsize = (case b of
       UIntType \<Rightarrow> format_of UINT vecsize
     | IntType \<Rightarrow> format_of SINT vecsize
     | FloatType \<Rightarrow> format_of SFLOAT vecsize
     | DoubleType \<Rightarrow> format_of SFLOAT64 vecsize
     | OtherType \<Rightarrow> ret (SFLOAT 4))"

fun getStrideFromVulkanFormat :: "attr_format \<Rightarrow> nat" where
  "getStrideFromVulkanFormat (SINT n) = (if 1 \<le> n \<and> n \<le> 4 then 4 * n else 0)"
| "getStrideFromVulkanFormat (SFLOAT n) = (if 1 \<le> n \<and> n \<le> 4 then 4 * n else 0)"
| "getStrideFromVulkanFormat (UINT n) = (if 2 \<le> n \<and> n \<le> 4 then 4 * n else 0)"
| "getStrideFromVulkanFormat (SFLOAT64 n) = 0"

definition push_input :: "shader_input \<Rightarrow> vertex_input \<Rightarrow> vertex_input run" where
  "push_input i v =
     rbind (getVulkanFormat (in_basetype i) (in_vecsize i)) (\<lambda>f.
     ret (v\<lparr>descriptions := descriptions v @ [\<lparr>binding = in_binding i, location = in_location i,
               attr_offset = vertexInputStride v, attr_format = f\<rparr>],
            vertexInputStride := (vertexInputStride v + getStrideFromVulkanFormat f) mod 2 ^ 32\<rparr>))"

definition reflect_inputs :: "shader_input list \<Rightarrow> vertex_input \<Rightarrow> vertex_input run" where
  "reflect_inputs stage_inputs v = rfold push_input stage_inputs (v\<lparr>vertexInputStride := 0\<rparr>)"

section \<open>Uniforms and push constants\<close>

datatype descriptor_type = UNIFORM_BUFFER | UNIFORM_BUFFER_DYNAMIC | IMAGE_SAMPLER

record uniform =
  uni_set :: nat
  uni_binding :: nat
  uni_array :: "nat list"

record layout_info =
  li_type :: descriptor_type
  li_stage :: shader_type
  li_binding :: nat
  li_setId :: nat
  li_count :: nat

definition add_layout :: "descriptor_type \<Rightarrow> shader_type \<Rightarrow> uniform list \<Rightarrow> layout_info list \<Rightarrow> layout_info list" where
  "add_layout t shaderType us infos =
     infos @ map (\<lambda>u. \<lparr>li_type = t, li_stage = shaderType, li_binding = uni_binding u, li_setId = uni_set u,
                      li_count = (case uni_array u of [] \<Rightarrow> 1 | n # _ \<Rightarrow> n)\<rparr>) us"

definition reflect_uniforms :: "shader_type \<Rightarrow> uniform list \<Rightarrow> uniform list \<Rightarrow> layout_info list \<Rightarrow> layout_info list" where
  "reflect_uniforms shaderType uniform_buffers sampled_images infos =
     add_layout IMAGE_SAMPLER shaderType sampled_images (add_layout UNIFORM_BUFFER shaderType uniform_buffers infos)"

definition push_constant_size :: "nat list \<Rightarrow> nat" where
  "push_constant_size ranges = fold (\<lambda>r total. (total + r mod 2 ^ 32) mod 2 ^ 32) ranges 0"

section \<open>Buffer layouts\<close>

datatype attr_type = TyUint32 | TyUint8 | TyFloat | TyVec2 | TyVec3 | TyVec4
datatype buf_format = R32_UINT | R8_UINT | R32_FLOAT | R32G32_FLOAT | R32G32B32_FLOAT | R32G32B32A32_FLOAT

record buffer_element =
  el_name :: string
  el_format :: buf_format
  el_offset :: nat
  el_normalized :: bool

record buffer_layout =
  bl_size :: nat
  bl_layout :: "buffer_element list"

definition BufferLayout :: buffer_layout where
  "BufferLayout = \<lparr>bl_size = 0, bl_layout = []\<rparr>"

definition push_element :: "string \<Rightarrow> buf_format \<Rightarrow> nat \<Rightarrow> bool \<Rightarrow> buffer_layout \<Rightarrow> buffer_layout" where
  "push_element name format bytes normalized b =
     \<lparr>bl_size = (bl_size b + bytes) mod 2 ^ 32,
      bl_layout = bl_layout b @ [\<lparr>el_name = name, el_format = format, el_offset = bl_size b, el_normalized = normalized\<rparr>]\<rparr>"

fun push_typed :: "attr_type \<Rightarrow> string \<Rightarrow> bool \<Rightarrow> buffer_layout \<Rightarrow> buffer_layout" where
  "push_typed TyUint32 name normalized b = push_element name R32_UINT 4 normalized b"
| "push_typed TyUint8 name normalized b = push_element name R8_UINT 1 normalized b"
| "push_typed TyFloat name normalized b = push_element name R32_FLOAT 4 normalized b"
| "push_typed TyVec2 name normalized b = push_element name R32G32_FLOAT 8 normalized b"
| "push_typed TyVec3 name normalized b = push_element name R32G32B32_FLOAT 12 normalized b"
| "push_typed TyVec4 name normalized b = push_element name R32G32B32A32_FLOAT 16 normalized b"

section \<open>Packing\<close>

text \<open>
  What the two layouts share: each new element starts where the ones before it end.
\<close>

fun packed_at :: "nat \<Rightarrow> nat list \<Rightarrow> nat list" where
  "packed_at start [] = []"
| "packed_at start (w # ws) = start # packed_at (start + w) ws"

locale packing =
  fixes push :: "'e \<Rightarrow> 's \<Rightarrow> 's" and offsets :: "'s \<Rightarrow> nat list" and stride :: "'s \<Rightarrow> nat" and width :: "'e \<Rightarrow> nat"
  assumes push_offsets: "offsets (push e s) = offsets s @ [stride s]"
    and push_stride: "stride (push e s) = (stride s + width e) mod 2 ^ 32"
begin

lemma packed:
  "stride s + sum_list (map width es) < 2 ^ 32 \<Longrightarrow>
   offsets (fold push es s) = offsets s @ packed_at (stride s) (map width es) \<and>
   stride (fold push es s) = stride s + sum_list (map width es)"
proof (induction es arbitrary: s)
  case (Cons e es)
  then have "stride (push e s) = stride s + width e" by (simp add: push_stride)
  then show ?case using Cons.IH[of "push e s"] Cons.prems by (simp add: push_offsets add.assoc)
qed simp

end

text \<open>Ranges laid out by \<^const>\<open>packed_at\<close> do not overlap and fill the space without gaps.\<close>

lemma packed_at_nth: "k < length ws \<Longrightarrow> packed_at s ws ! k = s + sum_list (take k ws)"
proof (induction ws arbitrary: s k)
  case (Cons w ws)
  then show ?case by (cases k) simp_all
qed simp

lemma packed_at_length [simp]: "length (packed_at s ws) = length ws"
  by (induction ws arbitrary: s) simp_all

lemma sum_list_take_mono: "i \<le> j \<Longrightarrow> sum_list (take i ws) \<le> sum_list (take j (ws :: nat list))"
  by (metis le_add1 le_Suc_ex sum_list_append take_add)

lemma packed_at_disjoint:
  assumes "i < j" "j < length ws"
  shows "packed_at s ws ! i + ws ! i \<le> packed_at s ws ! j"
proof -
  have "sum_list (take i ws) + ws ! i = sum_list (take (Suc i) ws)"
    using assms by (simp add: take_Suc_conv_app_nth)
  also have "\<dots> \<le> sum_list (take j ws)" using assms by (intro sum_list_take_mono) simp
  finally show ?thesis using assms by (simp add: packed_at_nth)
qed

section \<open>Vertex layouts\<close>

fun attr_bytes :: "attr_type \<Rightarrow> nat" where
  "attr_bytes TyUint32 = 4" | "attr_bytes TyUint8 = 1" | "attr_bytes TyFloat = 4"
| "attr_bytes TyVec2 = 8" | "attr_bytes TyVec3 = 12" | "attr_bytes TyVec4 = 16"

definition push_attr :: "attr_type \<times> string \<times> bool \<Rightarrow> buffer_layout \<Rightarrow> buffer_layout" where
  "push_attr a = push_typed (fst a) (fst (snd a)) (snd (snd a))"

lemma push_typed_fields:
  "map el_offset (bl_layout (push_typed t name n b)) = map el_offset (bl_layout b) @ [bl_size b]"
  "bl_size (push_typed t name n b) = (bl_size b + attr_bytes t) mod 2 ^ 32"
  by (cases t; simp add: push_element_def)+

interpretation bl: packing push_attr "\<lambda>b. map el_offset (bl_layout b)" bl_size "\<lambda>a. attr_bytes (fst a)"
  by unfold_locales (simp_all add: push_attr_def push_typed_fields)

text \<open>The formats whose width the engine knows, with the width; and the push of a resolved input.\<close>

definition push_format :: "shader_input \<times> attr_format \<Rightarrow> vertex_input \<Rightarrow> vertex_input" where
  "push_format x v = v\<lparr>descriptions := descriptions v @ [\<lparr>binding = in_binding (fst x), location = in_location (fst x),
       attr_offset = vertexInputStride v, attr_format = snd x\<rparr>],
     vertexInputStride := (vertexInputStride v + getStrideFromVulkanFormat (snd x)) mod 2 ^ 32\<rparr>"

interpretation vi: packing push_format "\<lambda>v. map attr_offset (descriptions v)" vertexInputStride
  "\<lambda>x. getStrideFromVulkanFormat (snd x)"
  by unfold_locales (simp_all add: push_format_def)

fun input_format :: "shader_input \<Rightarrow> attr_format" where
  "input_format i = (case in_basetype i of UIntType \<Rightarrow> UINT (in_vecsize i) | IntType \<Rightarrow> SINT (in_vecsize i)
     | FloatType \<Rightarrow> SFLOAT (in_vecsize i) | DoubleType \<Rightarrow> SFLOAT64 (in_vecsize i) | OtherType \<Rightarrow> SFLOAT 4)"

definition wf_shader_input :: "shader_input \<Rightarrow> bool" where
  "wf_shader_input i \<longleftrightarrow> 1 \<le> in_vecsize i \<and> in_vecsize i \<le> 4"

lemma push_input_format: "wf_shader_input i \<Longrightarrow> push_input i v = ret (push_format (i, input_format i) v)"
  by (cases "in_basetype i")
    (auto simp: push_input_def push_format_def getVulkanFormat_def format_of_def wf_shader_input_def)

lemma reflect_inputs_fold:
  "\<forall>i \<in> set is. wf_shader_input i \<Longrightarrow>
   rfold push_input is v = ret (fold push_format (map (\<lambda>i. (i, input_format i)) is) v)"
  by (induction "is" arbitrary: v) (simp_all add: push_input_format)

text \<open>The number of bytes that an input of a shader takes in a vertex buffer.\<close>

definition input_bytes :: "shader_input \<Rightarrow> nat" where
  "input_bytes i = (case in_basetype i of DoubleType \<Rightarrow> 8 * in_vecsize i | OtherType \<Rightarrow> 16 | _ \<Rightarrow> 4 * in_vecsize i)"

definition known_width :: "shader_input \<Rightarrow> bool" where
  "known_width i \<longleftrightarrow> in_basetype i \<noteq> DoubleType \<and> \<not> (in_basetype i = UIntType \<and> in_vecsize i = 1)"

lemma known_width_iff: "wf_shader_input i \<Longrightarrow> (getStrideFromVulkanFormat (input_format i) = input_bytes i) = known_width i"
  by (cases "in_basetype i") (auto simp: input_bytes_def known_width_def wf_shader_input_def)

lemma sum_bounded: "(\<And>x. x \<in> set xs \<Longrightarrow> f x \<le> c) \<Longrightarrow> sum_list (map f xs) \<le> c * length xs" for f :: "'x \<Rightarrow> nat"
  by (induction xs) force+

lemma stride_le_16: "wf_shader_input i \<Longrightarrow> getStrideFromVulkanFormat (input_format i) \<le> 16"
  by (cases "in_basetype i") (auto simp: wf_shader_input_def)

lemma reflect_inputs_packed:
  assumes "\<forall>i \<in> set is. wf_shader_input i" "length is < 2 ^ 28"
  shows "\<exists>v. reflect_inputs is \<lparr>vertexInputStride = s0, descriptions = []\<rparr> = ret v \<and>
    map attr_offset (descriptions v) = packed_at 0 (map (\<lambda>i. getStrideFromVulkanFormat (input_format i)) is) \<and>
    vertexInputStride v = sum_list (map (\<lambda>i. getStrideFromVulkanFormat (input_format i)) is)"
proof -
  let ?xs = "map (\<lambda>i. (i, input_format i)) is" and ?v = "\<lparr>vertexInputStride = 0, descriptions = []\<rparr>"
  have c: "map (\<lambda>x. getStrideFromVulkanFormat (snd x)) ?xs = map (\<lambda>i. getStrideFromVulkanFormat (input_format i)) is"
    by simp
  have "sum_list (map (\<lambda>i. getStrideFromVulkanFormat (input_format i)) is) \<le> 16 * length is"
    using assms(1) by (intro sum_bounded stride_le_16) blast
  also have "\<dots> < 2 ^ 32" using assms(2) by simp
  finally have "vertexInputStride ?v + sum_list (map (\<lambda>x. getStrideFromVulkanFormat (snd x)) ?xs) < 2 ^ 32"
    unfolding c by simp
  from vi.packed[OF this] reflect_inputs_fold[OF assms(1), of ?v] show ?thesis
    unfolding c by (simp add: reflect_inputs_def del: input_format.simps)
qed

text \<open>
  C23: The vertex inputs that a shader declares are packed without gaps and overlaps, in the order
  of reflection, exactly when no input is a scalar of type uint or of a double type: the engine takes the width of those as
  zero, and the next input overlaps them.
\<close>

theorem vertex_inputs_packed:
  assumes "\<forall>i \<in> set is. wf_shader_input i" "length is < 2 ^ 28"
  shows "\<exists>v. reflect_inputs is \<lparr>vertexInputStride = s0, descriptions = []\<rparr> = ret v \<and>
    (map attr_offset (descriptions v) = packed_at 0 (map input_bytes is) \<and> vertexInputStride v = sum_list (map input_bytes is) \<longleftrightarrow>
     (\<forall>i \<in> set is. known_width i))"
proof -
  obtain v where v: "reflect_inputs is \<lparr>vertexInputStride = s0, descriptions = []\<rparr> = ret v"
    "map attr_offset (descriptions v) = packed_at 0 (map (\<lambda>i. getStrideFromVulkanFormat (input_format i)) is)"
    "vertexInputStride v = sum_list (map (\<lambda>i. getStrideFromVulkanFormat (input_format i)) is)"
    using reflect_inputs_packed[OF assms] by blast
  have le: "getStrideFromVulkanFormat (input_format i) \<le> input_bytes i" if "wf_shader_input i" for i
    using that by (cases "in_basetype i") (auto simp: input_bytes_def wf_shader_input_def)
  have sums: "sum_list (map (\<lambda>i. getStrideFromVulkanFormat (input_format i)) js) = sum_list (map input_bytes js) \<longleftrightarrow>
      (\<forall>i \<in> set js. known_width i)" if "\<forall>i \<in> set js. wf_shader_input i" for js
    using that
  proof (induction js)
    case (Cons j js)
    have "sum_list (map (\<lambda>i. getStrideFromVulkanFormat (input_format i)) js) \<le> sum_list (map input_bytes js)"
      using Cons.prems le by (intro sum_list_mono) simp
    with Cons le[of j] known_width_iff[of j] show ?case by (auto simp del: input_format.simps) 
  qed simp
  have "map attr_offset (descriptions v) = packed_at 0 (map input_bytes is)" if "\<forall>i \<in> set is. known_width i"
  proof -
    have "map (\<lambda>i. getStrideFromVulkanFormat (input_format i)) is = map input_bytes is"
      using that assms(1) known_width_iff by (intro map_cong) blast+
    then show ?thesis by (metis v(2))
  qed
  then show ?thesis using v(1,3) sums[OF assms(1)] by auto
qed

text \<open>
  A layout built by typed pushes has its elements in order without gaps; for the fields of
  \<^verbatim>\<open>Vertex\<close> the offsets and the stride are those of the struct, and a shader that declares the
  same fields is given the same ones.
\<close>

definition vertex_fields :: "(attr_type \<times> string \<times> bool) list" where
  "vertex_fields = [(TyVec3, ''pos'', False), (TyVec4, ''color'', False), (TyVec2, ''texCoord'', False),
     (TyVec3, ''normal'', False), (TyVec3, ''tangent'', False)]"

definition float_input :: "nat \<Rightarrow> nat \<Rightarrow> shader_input" where
  "float_input l n = \<lparr>in_basetype = FloatType, in_vecsize = n, in_binding = 0, in_location = l\<rparr>"

definition vertex_inputs :: "shader_input list" where
  "vertex_inputs = [float_input 0 3, float_input 1 4, float_input 2 2, float_input 3 3, float_input 4 3]"

theorem buffer_layout_packed:
  assumes "sum_list (map (\<lambda>a. attr_bytes (fst a)) as) < 2 ^ 32"
  shows "map el_offset (bl_layout (fold push_attr as BufferLayout)) = packed_at 0 (map (\<lambda>a. attr_bytes (fst a)) as) \<and>
    bl_size (fold push_attr as BufferLayout) = sum_list (map (\<lambda>a. attr_bytes (fst a)) as) \<and>
    (\<exists>v. reflect_inputs vertex_inputs \<lparr>vertexInputStride = 0, descriptions = []\<rparr> = ret v \<and>
      map attr_offset (descriptions v) = map el_offset (bl_layout (fold push_attr vertex_fields BufferLayout)) \<and>
      vertexInputStride v = bl_size (fold push_attr vertex_fields BufferLayout))"
proof -
  have general: "map el_offset (bl_layout (fold push_attr bs BufferLayout)) = packed_at 0 (map (\<lambda>a. attr_bytes (fst a)) bs) \<and>
      bl_size (fold push_attr bs BufferLayout) = sum_list (map (\<lambda>a. attr_bytes (fst a)) bs)"
    if "sum_list (map (\<lambda>a. attr_bytes (fst a)) bs) < 2 ^ 32" for bs
    using bl.packed[of BufferLayout bs] that by (simp add: BufferLayout_def)
  have wf: "\<forall>i \<in> set vertex_inputs. wf_shader_input i" "length vertex_inputs < 2 ^ 28"
    by (simp_all add: vertex_inputs_def float_input_def wf_shader_input_def)
  have "map (\<lambda>i. getStrideFromVulkanFormat (input_format i)) vertex_inputs = [12, 16, 8, 12, 12]"
    "map (\<lambda>a. attr_bytes (fst a)) vertex_fields = [12, 16, 8, 12, 12]"
    by (simp_all add: vertex_inputs_def float_input_def vertex_fields_def)
  with reflect_inputs_packed[OF wf, of 0] general[of vertex_fields] general[OF assms] show ?thesis by auto
qed

section \<open>Shader files\<close>

fun stage_name :: "shader_type \<Rightarrow> string" where
  "stage_name VERTEX_SHADER = ''Vertex''"
| "stage_name FRAGMENT_SHADER = ''Fragment''"
| "stage_name GEOMETRY_SHADER = ''Geometry''"
| "stage_name COMPUTE_SHADER = ''Compute''"
| "stage_name UNKNOWN = ''Unknown''"

text \<open>A description with one line per stage, with line ends of one or of two characters.\<close>

definition shader_line :: "bool \<Rightarrow> shader_type \<times> string \<Rightarrow> string" where
  "shader_line crlf e = ''#'' @ stage_name (fst e) @ '' '' @ snd e @ (if crlf then carriage_return else [])"

text \<open>The lines are separated by line ends of one of the two kinds, with or without a line end after the last.\<close>

definition line_end :: "bool \<Rightarrow> string" where
  "line_end crlf = (if crlf then carriage_return @ newline else newline)"

definition shader_file :: "bool \<Rightarrow> bool \<Rightarrow> (shader_type \<times> string) list \<Rightarrow> string" where
  "shader_file crlf closed es = join (line_end crlf) (map (shader_line False) es) @ (if closed then line_end crlf else [])"

definition plain_path :: "string \<Rightarrow> bool" where
  "plain_path p \<longleftrightarrow> CHR '' '' \<notin> set p \<and> CHR 0x0A \<notin> set p \<and> CHR 0x0D \<notin> set p"

lemma special_chars: "carriage_return = [CHR 0x0D]" "newline = [CHR 0x0A]"
  by code_simp+

lemma trim_end: "c \<notin> set p \<Longrightarrow> trim (p @ (if b then [c] else [])) [c] = p"
proof -
  assume c: "c \<notin> set p"
  have d: "dropWhile (\<lambda>x. x \<in> set [c]) q = q" if "c \<notin> set q" for q using that by (cases q) auto
  have "dropWhile (\<lambda>x. x \<in> set [c]) (p @ [c]) = (if p = [] then [] else p @ [c])" using c by (cases p) auto
  then show ?thesis using c d[of p] d[of "rev p"] by (auto simp: trim_def Let_def)
qed

lemma stage_of_name: "getShaderTypeByName (''#'' @ stage_name t) = t"
proof -
  have "getShaderTypeByName ''#Vertex'' = VERTEX_SHADER" "getShaderTypeByName ''#Fragment'' = FRAGMENT_SHADER"
    "getShaderTypeByName ''#Geometry'' = GEOMETRY_SHADER" "getShaderTypeByName ''#Compute'' = COMPUTE_SHADER"
    "getShaderTypeByName ''#Unknown'' = UNKNOWN" by code_simp+
  then show ?thesis by (cases t) simp_all
qed

lemma stage_name_plain: "CHR '' '' \<notin> set (stage_name t)" "CHR 0x0A \<notin> set (stage_name t)"
  by (cases t; simp)+

lemma parse_shader_line:
  assumes "fst e \<noteq> UNKNOWN" "plain_path (snd e)"
  shows "parse_line (shader_line crlf e) m = ret (m(fst e \<mapsto> snd e))"
proof -
  let ?p = "snd e @ (if crlf then carriage_return else [])"
  let ?ps = "[''#'' @ stage_name (fst e), ?p]"
  have "\<forall>p \<in> set ?ps. CHR '' '' \<notin> set p"
    using assms(2) stage_name_plain(1)[of "fst e"] by (auto simp: plain_path_def special_chars)
  then have "split (join '' '' ?ps) '' '' = Some ?ps" by (intro split_join_single) simp_all
  moreover have "shader_line crlf e = join '' '' ?ps" by (simp add: shader_line_def)
  moreover have "startWith (shader_line crlf e) ''#''" by (simp add: startWith_def shader_line_def)
  moreover have "trim ?p carriage_return = snd e"
    using trim_end[of "CHR 0x0D" "snd e" crlf] assms(2) by (simp add: plain_path_def special_chars cong: if_cong)
  ultimately show ?thesis using assms(1) stage_of_name[of "fst e"] by (simp add: parse_line_def Let_def)
qed

lemma parse_shader_lines:
  "\<forall>e \<in> set es. fst e \<noteq> UNKNOWN \<and> plain_path (snd e) \<Longrightarrow>
   rfold parse_line (map (shader_line crlf) es) m = ret (m ++ map_of (rev es))"
proof (induction es arbitrary: m)
  case (Cons e es)
  then show ?case using parse_shader_line[of e crlf m] by (cases e) simp
qed simp

text \<open>What the parser sees between the line feeds.\<close>

definition file_lines :: "bool \<Rightarrow> bool \<Rightarrow> (shader_type \<times> string) list \<Rightarrow> string list" where
  "file_lines crlf closed es = (if closed then map (shader_line crlf) es @ [[]]
     else map (shader_line crlf) (butlast es) @ [shader_line False (last es)])"

lemma shader_line_crlf: "shader_line crlf e = shader_line False e @ (if crlf then carriage_return else [])"
  by (simp add: shader_line_def)

lemma join_line_ends:
  assumes "es \<noteq> []"
  shows "join (line_end crlf) (map (shader_line False) es) =
    join newline (map (shader_line crlf) (butlast es) @ [shader_line False (last es)])"
  using assms
proof (induction es)
  case (Cons e es)
  then show ?case by (cases es) (auto simp: line_end_def shader_line_def)
qed simp

lemma shader_file_lines:
  assumes "es \<noteq> []"
  shows "shader_file crlf closed es = join newline (file_lines crlf closed es)"
proof -
  have snoc: "join newline (ls @ [l]) @ (if crlf then carriage_return else []) @ newline = join newline (ls @ [l @ (if crlf then carriage_return else []), []])" for ls l
  proof (induction ls)
    case (Cons x ls)
    then show ?case by (cases ls) auto
  qed simp
  have e: "map (shader_line crlf) (butlast es) @ [shader_line False (last es) @ (if crlf then carriage_return else []), []] =
      map (shader_line crlf) es @ [[]]"
    using assms shader_line_crlf[of crlf "last es"] append_butlast_last_id[OF assms]
    by (metis append_Cons append_Nil append_assoc list.simps(8,9) map_append)
  show ?thesis
    using snoc[of "map (shader_line crlf) (butlast es)" "shader_line False (last es)", unfolded e]
      join_line_ends[OF assms, of crlf]
    by (cases closed; cases crlf) (simp_all add: shader_file_def file_lines_def line_end_def)
qed

lemma parse_file_lines:
  assumes "\<forall>e \<in> set es. fst e \<noteq> UNKNOWN \<and> plain_path (snd e)" "es \<noteq> []"
  shows "rfold parse_line (file_lines crlf closed es) Map.empty = ret (map_of (rev es))"
proof (cases closed)
  case True
  then show ?thesis using parse_shader_lines[OF assms(1), of crlf Map.empty]
    by (simp add: file_lines_def rfold_append parse_line_def startWith_def)
next
  case False
  have m: "map_of (rev es) = (map_of (rev (butlast es)))(fst (last es) \<mapsto> snd (last es))"
  proof -
    have "rev es = last es # rev (butlast es)" using append_butlast_last_id[OF assms(2)] by (metis rev_eq_Cons_iff rev_rev_ident)
    then show ?thesis by (simp only: map_of.simps)
  qed
  have "\<forall>e \<in> set (butlast es). fst e \<noteq> UNKNOWN \<and> plain_path (snd e)" using assms(1) in_set_butlastD by fastforce
  then show ?thesis
    using False assms parse_shader_lines[of "butlast es" crlf Map.empty] parse_shader_line[of "last es" False "map_of (rev (butlast es))"]
    by (simp add: file_lines_def rfold_append m)
qed

text \<open>
  C24: The stages and paths written to a description file, one per line, are read back, for paths without blanks, line feeds and carriage returns: with
  either kind of line end, and with or without a line end after the last line, the parser returns, and it maps each stage to the last path given for it.
\<close>

theorem shader_file_roundtrip:
  assumes "\<forall>e \<in> set es. fst e \<noteq> UNKNOWN \<and> plain_path (snd e)"
  shows "shader_sources (shader_file crlf closed es) = ret (map_of (rev es))"
proof (cases "es = []")
  case True
  let ?ls = "if closed then [if crlf then carriage_return else [], []] else [[]]"
  have "shader_file crlf closed es = join newline ?ls" by (simp add: True shader_file_def line_end_def)
  moreover have "split (join newline ?ls) newline = Some ?ls"
    unfolding special_chars(2) by (intro split_join_single) (simp_all add: special_chars)
  ultimately show ?thesis
    by (simp add: True shader_sources_def split_into_def split_def parseSource_def parse_line_def startWith_def special_chars)
next
  case False
  have "\<forall>l \<in> set (file_lines crlf closed es). CHR 0x0A \<notin> set l"
    using assms False stage_name_plain(2)
    by (auto simp: file_lines_def shader_line_def plain_path_def special_chars dest: in_set_butlastD split: if_splits)
  then have "split (shader_file crlf closed es) newline = Some (file_lines crlf closed es)"
    unfolding shader_file_lines[OF False] special_chars(2) by (intro split_join_single) (simp_all add: file_lines_def)
  then show ?thesis
    using parse_file_lines[OF assms False, of crlf closed] by (simp add: shader_sources_def split_into_def split_def parseSource_def)
qed

text \<open>
  A stage line without a path makes the parser index past the end of the pieces.
\<close>

theorem stage_without_path_faults:
  assumes "t \<noteq> UNKNOWN"
  shows "parseSource [''#'' @ stage_name t] m = fail BadIndex"
proof -
  have "split (join '' '' [''#'' @ stage_name t]) '' '' = Some [''#'' @ stage_name t]"
    using stage_name_plain(1)[of t] by (intro split_join_single) auto
  then show ?thesis using assms stage_of_name[of t] by (simp add: parseSource_def parse_line_def startWith_def Let_def)
qed

section \<open>Witnesses\<close>

theorem vertex_inputs_packed_witness:
  "\<exists>v. reflect_inputs vertex_inputs \<lparr>vertexInputStride = 7, descriptions = []\<rparr> = ret v \<and> vertexInputStride v = 60"
proof -
  have wf: "\<forall>i \<in> set vertex_inputs. wf_shader_input i" "length vertex_inputs < 2 ^ 28"
    "\<forall>i \<in> set vertex_inputs. known_width i" "sum_list (map input_bytes vertex_inputs) = 60"
    by (simp_all add: vertex_inputs_def float_input_def wf_shader_input_def known_width_def input_bytes_def)
  from vertex_inputs_packed[OF wf(1,2), of 7] wf(3,4) show ?thesis by auto
qed

theorem buffer_layout_packed_witness:
  "map el_offset (bl_layout (fold push_attr vertex_fields BufferLayout)) = [0, 12, 28, 36, 48]"
  using buffer_layout_packed[of vertex_fields] by (simp add: vertex_fields_def)

theorem shader_file_roundtrip_witness:
  "shader_sources (shader_file True True [(VERTEX_SHADER, ''a.vert''), (FRAGMENT_SHADER, ''b.frag''), (VERTEX_SHADER, ''c.vert'')]) =
     ret [VERTEX_SHADER \<mapsto> ''c.vert'', FRAGMENT_SHADER \<mapsto> ''b.frag'']"
  using shader_file_roundtrip[of "[(VERTEX_SHADER, ''a.vert''), (FRAGMENT_SHADER, ''b.frag''), (VERTEX_SHADER, ''c.vert'')]" True True]
  by (auto simp: plain_path_def)

end
