(* ===== verification/Sprites.thy ===== *)
theory Sprites
  imports Texture_Pool Complex_Main
begin

text \<open>
  Sprites and animated sprites, \<^verbatim>\<open>Scene/Component/Sprite.cpp\<close>: their quads come from the texture pool, the
  current frame is advanced by the update of the scene. Times and offsets are elements of a
  linearly ordered field; a colour channel is kept as the number that the code divides by 255.
\<close>

section \<open>Sprites\<close>

record 'f quad2d =
  region :: quad
  quad_color :: "int list"
  quad_offset :: "'f \<times> 'f"

definition default_region :: quad where
  "default_region = \<lparr>quad_w = 0, quad_h = 0, texCoords = [(0, 1), (1, 1), (1, 0), (0, 0)]\<rparr>"

definition nullQuad :: "'f::zero quad2d" where
  "nullQuad = \<lparr>region = default_region, quad_color = [255, 255, 255, 255], quad_offset = (0, 0)\<rparr>"

definition new_quad :: "quad \<Rightarrow> 'f::zero quad2d" where
  "new_quad q = nullQuad\<lparr>region := q\<rparr>"

text \<open>
  The constructor from data and \<^verbatim>\<open>loadQuad\<close>: the quad is replaced when the pool returns one.
\<close>

definition take_quad ::
  "'f::zero quad2d \<Rightarrow> (fault + 'd pool \<times> quad option) option \<Rightarrow> ('d pool \<times> 'f quad2d) run" where
  "take_quad old result = rbind result (\<lambda>(p, q). ret (p, case q of Some q \<Rightarrow> new_quad q | None \<Rightarrow> old))"

definition Sprite ::
  "(string \<Rightarrow> 'd \<times> int \<times> int) \<Rightarrow> (nat \<Rightarrow> nat) \<Rightarrow> 'd pool \<Rightarrow> string \<Rightarrow> 'd \<Rightarrow> int \<Rightarrow> int \<Rightarrow> ('d pool \<times> 'f::zero quad2d) run" where
  "Sprite imageOf grow p uniqueName data width height =
     take_quad nullQuad (pool_addSprite_data imageOf grow p uniqueName data width height)"

definition loadQuad ::
  "(string \<Rightarrow> 'd \<times> int \<times> int) \<Rightarrow> (nat \<Rightarrow> nat) \<Rightarrow> 'd pool \<Rightarrow> string \<Rightarrow> 'f::zero quad2d \<Rightarrow> ('d pool \<times> 'f quad2d) run" where
  "loadQuad imageOf grow p path quad = take_quad quad (pool_addSprite_file imageOf grow p path)"

text \<open>\<^verbatim>\<open>getTexturePath\<close> always returns the empty string, which is what is saved; an empty path loads nothing.\<close>

definition getTexturePath :: "'f quad2d \<Rightarrow> string" where
  "getTexturePath quad = ''''"

definition load_sprite ::
  "(string \<Rightarrow> 'd \<times> int \<times> int) \<Rightarrow> (nat \<Rightarrow> nat) \<Rightarrow> 'd pool \<Rightarrow> string \<Rightarrow> 'f::zero quad2d \<Rightarrow> ('d pool \<times> 'f quad2d) run" where
  "load_sprite imageOf grow p textureFilePath quad =
     (if textureFilePath \<noteq> '''' then loadQuad imageOf grow p textureFilePath quad else ret (p, quad))"

section \<open>Animated sprites\<close>

record 'f animation_frame =
  af_width :: int
  af_height :: int
  delay :: 'f
  uniqueKey :: string
  af_quad :: "'f quad2d"

record 'f animated_sprite =
  currentFrame :: nat
  frameTimer :: 'f
  loop :: bool
  animationFrames :: "'f animation_frame list"

definition AnimatedSprite :: "'f::zero animated_sprite" where
  "AnimatedSprite = \<lparr>currentFrame = 0, frameTimer = 0, loop = True, animationFrames = []\<rparr>"

text \<open>The bytes of a 32-bit colour, lowest first.\<close>

definition color8888 :: "int \<Rightarrow> int list" where
  "color8888 c = [c mod 256, c div 256 mod 256, c div 65536 mod 256, c div 16777216 mod 256]"

definition addFrame ::
  "(string \<Rightarrow> 'd \<times> int \<times> int) \<Rightarrow> (nat \<Rightarrow> nat) \<Rightarrow> 'd \<Rightarrow> int \<Rightarrow> int \<Rightarrow> 'f \<Rightarrow> string \<Rightarrow> 'f \<Rightarrow> 'f \<Rightarrow> int \<Rightarrow>
   'd pool \<times> 'f::linordered_field animated_sprite \<Rightarrow> ('d pool \<times> 'f animated_sprite) run" where
  "addFrame imageOf grow data width height d key xOffset yOffset color ps =
     rbind (pool_addSprite_data imageOf grow (fst ps) key data width height) (\<lambda>(p, q).
       case q of
         None \<Rightarrow> ret (p, snd ps)
       | Some q \<Rightarrow> ret (p, (snd ps)\<lparr>animationFrames := animationFrames (snd ps) @
           [\<lparr>af_width = width, af_height = height, delay = d, uniqueKey = key,
             af_quad = (new_quad q)\<lparr>quad_color := color8888 color, quad_offset := (xOffset, - yOffset - of_int height)\<rparr>\<rparr>]\<rparr>))"

definition onUpdate :: "'f::linordered_field \<Rightarrow> 'f animated_sprite \<Rightarrow> 'f animated_sprite" where
  "onUpdate dt s =
     (let s = s\<lparr>frameTimer := frameTimer s + dt\<rparr> in
      if currentFrame s < length (animationFrames s) then
        let frame = animationFrames s ! currentFrame s in
        if frameTimer s \<ge> delay frame then
          let s = s\<lparr>frameTimer := 0, currentFrame := currentFrame s + 1\<rparr> in
          if currentFrame s \<ge> length (animationFrames s)
          then s\<lparr>currentFrame := (if loop s then 0 else length (animationFrames s) - 1)\<rparr>
          else s
        else s
      else s)"

definition getQuad :: "'f::zero animated_sprite \<Rightarrow> 'f quad2d" where
  "getQuad s = (if currentFrame s < length (animationFrames s)
     then af_quad (animationFrames s ! currentFrame s) else nullQuad)"

definition getCurrentFrame :: "'f animated_sprite \<Rightarrow> 'f animation_frame option" where
  "getCurrentFrame s = (if currentFrame s < length (animationFrames s)
     then Some (animationFrames s ! currentFrame s) else None)"

definition getDelay :: "'f::zero animated_sprite \<Rightarrow> 'f" where
  "getDelay s = (case getCurrentFrame s of Some f \<Rightarrow> delay f | None \<Rightarrow> 0)"

definition anim_getWidth :: "'f animated_sprite \<Rightarrow> int" where
  "anim_getWidth s = (case getCurrentFrame s of Some f \<Rightarrow> af_width f | None \<Rightarrow> 0)"

definition anim_getHeight :: "'f animated_sprite \<Rightarrow> int" where
  "anim_getHeight s = (case getCurrentFrame s of Some f \<Rightarrow> af_height f | None \<Rightarrow> 0)"

definition setCurrentFrame :: "nat \<Rightarrow> 'f animated_sprite \<Rightarrow> 'f animated_sprite" where
  "setCurrentFrame frame s = s\<lparr>currentFrame := frame\<rparr>"

section \<open>The course of an animation\<close>

definition next_frame :: "'f animated_sprite \<Rightarrow> nat" where
  "next_frame s = (if Suc (currentFrame s) < length (animationFrames s) then Suc (currentFrame s)
     else if loop s then 0 else length (animationFrames s) - 1)"

lemma onUpdate_eq:
  "currentFrame s < length (animationFrames s) \<Longrightarrow>
   onUpdate dt s = (if frameTimer s + dt < delay (animationFrames s ! currentFrame s)
     then s\<lparr>frameTimer := frameTimer s + dt\<rparr> else s\<lparr>frameTimer := 0, currentFrame := next_frame s\<rparr>)"
  by (auto simp: onUpdate_def next_frame_def Let_def not_less)

lemma onUpdate_out: "\<not> currentFrame s < length (animationFrames s) \<Longrightarrow> onUpdate dt s = s\<lparr>frameTimer := frameTimer s + dt\<rparr>"
  by (simp add: onUpdate_def Let_def)

lemma next_frame_less: "currentFrame s < length (animationFrames s) \<Longrightarrow> next_frame s < length (animationFrames s)"
  by (auto simp: next_frame_def)

lemma onUpdate_frames [simp]: "animationFrames (onUpdate dt s) = animationFrames s" "loop (onUpdate dt s) = loop s"
  by (simp_all add: onUpdate_def Let_def)

lemma onUpdate_waits:
  assumes "currentFrame s < length (animationFrames s)" "frameTimer s = 0"
    and "\<And>j. 1 \<le> j \<Longrightarrow> j \<le> m \<Longrightarrow> of_nat j * dt < delay (animationFrames s ! currentFrame s)"
  shows "(onUpdate dt ^^ m) s = s\<lparr>frameTimer := of_nat m * dt\<rparr>"
  using assms(3)
proof (induction m)
  case 0
  then show ?case using assms(2) by (cases s) simp
next
  case (Suc m)
  then have IH: "(onUpdate dt ^^ m) s = s\<lparr>frameTimer := of_nat m * dt\<rparr>" by simp
  have "of_nat (Suc m) * dt < delay (animationFrames s ! currentFrame s)" using Suc.prems[of "Suc m"] by simp
  then have "of_nat m * dt + dt < delay (animationFrames s ! currentFrame s)" by (simp add: algebra_simps)
  then show ?case using assms(1) by (simp add: IH onUpdate_eq algebra_simps)
qed

text \<open>
  With updates of equal length a frame is shown for exactly as many updates as are needed to
  reach its delay, at least one; then the next frame follows, at the end the first one or, without looping, the
  last one again.
\<close>

theorem frame_duration:
  assumes "currentFrame s < length (animationFrames s)" "frameTimer s = 0" "1 \<le> n"
    and "\<And>j. 1 \<le> j \<Longrightarrow> j < n \<Longrightarrow> of_nat j * dt < delay (animationFrames s ! currentFrame s)"
    and "delay (animationFrames s ! currentFrame s) \<le> of_nat n * dt"
  shows "(\<forall>m < n. getCurrentFrame ((onUpdate dt ^^ m) s) = getCurrentFrame s) \<and>
    (onUpdate dt ^^ n) s = s\<lparr>currentFrame := next_frame s\<rparr>"
proof -
  have wait: "(onUpdate dt ^^ m) s = s\<lparr>frameTimer := of_nat m * dt\<rparr>" if "m < n" for m
    by (rule onUpdate_waits[OF assms(1,2)]) (use assms(4) that in auto)
  obtain m where m: "n = Suc m" using assms(3) by (cases n) auto
  have "\<not> of_nat m * dt + dt < delay (animationFrames s ! currentFrame s)"
    using assms(5) m by (simp add: algebra_simps not_less)
  then have "(onUpdate dt ^^ n) s = s\<lparr>frameTimer := 0, currentFrame := next_frame s\<rparr>"
    using wait[of m] m assms(1) by (simp add: onUpdate_eq next_frame_def)
  then show ?thesis using wait assms(2) by (simp add: getCurrentFrame_def)
qed

text \<open>
  The current frame stays within the frames for any sequence of updates once it is there; if it is set
  outside, no update brings it back, and the sprite keeps showing the null quad.
\<close>

theorem current_frame_invariant:
  "(currentFrame s < length (animationFrames s) \<longleftrightarrow>
     currentFrame (fold onUpdate dts s) < length (animationFrames (fold onUpdate dts s))) \<and>
   (\<not> currentFrame s < length (animationFrames s) \<longrightarrow> getQuad (fold onUpdate dts s) = nullQuad)"
proof -
  have inv: "currentFrame s < length (animationFrames s) \<longleftrightarrow>
      currentFrame (fold onUpdate dts s) < length (animationFrames (fold onUpdate dts s))"
  proof (induction dts arbitrary: s)
    case (Cons dt dts)
    have "currentFrame s < length (animationFrames s) \<longleftrightarrow> currentFrame (onUpdate dt s) < length (animationFrames (onUpdate dt s))"
      by (cases "currentFrame s < length (animationFrames s)") (simp_all add: onUpdate_eq onUpdate_out next_frame_less)
    then show ?case using Cons[of "onUpdate dt s"] by simp
  qed simp
  then show ?thesis by (simp add: getQuad_def)
qed

text \<open>
  Adding a frame to an animation, while the pool has room: the call returns and keeps the pool's
  invariant; either the frame is appended with its own delay, key and region, or, when the pool has no place
  for the image, the animation stays as it was.
\<close>

theorem addFrame_spec:
  assumes "pool_inv p" "Suc (length (pool_atlas p)) < pool_cap p" "image_ok w h"
    "case imageOf key of (d, w', h') \<Rightarrow> image_ok w' h'"
  shows "\<exists>q t. addFrame imageOf grow data w h dl key xo yo color (p, s) = ret (q, t) \<and> pool_inv q \<and>
    (t = s \<or> (\<exists>f. t = s\<lparr>animationFrames := animationFrames s @ [f]\<rparr> \<and> delay f = dl \<and> uniqueKey f = key \<and>
      quad_color (af_quad f) = color8888 color \<and>
      pool_addSprite_data imageOf grow p key data w h = ret (q, Some (region (af_quad f)))))"
proof -
  have g: "good_op (\<lambda>a. addSprite_file imageOf a key)"
    using assms(4) by (intro addSprite_file_good) simp
  obtain q r where q: "pool_addSprite_data imageOf grow p key data w h = ret (q, r)" "pool_inv q"
    using pool_addSprite_inv[OF addSprite_data_good[OF assms(3)] g assms(1,2)]
    unfolding pool_addSprite_data_def ret_def by blast
  then show ?thesis by (cases r) (auto simp: addFrame_def new_quad_def)
qed

section \<open>Witnesses\<close>

definition two_frames :: "rat animated_sprite" where
  "two_frames = AnimatedSprite\<lparr>animationFrames :=
     [\<lparr>af_width = 1, af_height = 1, delay = 1/4, uniqueKey = ''a'', af_quad = nullQuad\<rparr>,
      \<lparr>af_width = 2, af_height = 2, delay = 1/4, uniqueKey = ''b'', af_quad = nullQuad\<rparr>]\<rparr>"

theorem frame_duration_witness:
  "(onUpdate (1/10) ^^ 3) two_frames = two_frames\<lparr>currentFrame := 1\<rparr>"
proof -
  have j: "1 \<le> j \<Longrightarrow> j < 3 \<Longrightarrow> j = 1 \<or> j = 2" for j :: nat by auto
  have "(onUpdate (1/10) ^^ 3) two_frames = two_frames\<lparr>currentFrame := next_frame two_frames\<rparr>"
    by (rule conjunct2[OF frame_duration[of two_frames 3 "1/10"]])
      (auto simp: two_frames_def AnimatedSprite_def dest!: j)
  then show ?thesis by (simp add: next_frame_def two_frames_def AnimatedSprite_def)
qed

theorem current_frame_invariant_witness:
  "getQuad (fold onUpdate [1/10, 1/10] (setCurrentFrame 7 two_frames)) = nullQuad"
  using current_frame_invariant[of "setCurrentFrame 7 two_frames" "[1/10, 1/10]"]
  by (simp add: setCurrentFrame_def two_frames_def AnimatedSprite_def)

theorem addFrame_spec_witness:
  "\<exists>q t. addFrame (\<lambda>n. (0::nat, 16, 16)) (\<lambda>c. 2 * c) 5 32 32 (1/4 :: rat) ''a'' 0 0 255 (new_pool\<lparr>pool_cap := 8\<rparr>, two_frames) =
     ret (q, t) \<and> pool_inv q"
proof -
  have "pool_inv (new_pool\<lparr>pool_cap := 8\<rparr>)" by (simp add: pool_inv_def new_pool_def)
  from addFrame_spec[OF this, of 32 32 "\<lambda>n. (0::nat, 16, 16)" "''a''" "\<lambda>c. 2 * c" 5 "1/4" 0 0 255 two_frames] show ?thesis
    by (auto simp: new_pool_def image_ok_def)
qed

end
