(* ===== verification/Cameras.thy ===== *)
theory Cameras
  imports Input_State Geometry
begin

text \<open>
  The camera with its cached projection matrix (\<^verbatim>\<open>Engine/Camera.cpp\<close>) and the camera controller of the
  editor (\<^verbatim>\<open>Engine/CameraController.cpp\<close>), which reads the input devices. Numbers are elements of a
  linearly ordered field; matrices, projections, powers, angles and directions of a
  transform are operations of glm and the standard library, a record of functions here.
\<close>

section \<open>The camera\<close>

record ('f, 'm) projections =
  glm_ortho :: "'f \<Rightarrow> 'f \<Rightarrow> 'f \<Rightarrow> 'f \<Rightarrow> 'f \<Rightarrow> 'f \<Rightarrow> 'm"
  glm_perspective :: "'f \<Rightarrow> 'f \<Rightarrow> 'f \<Rightarrow> 'f \<Rightarrow> 'm"
  glm_radians :: "'f \<Rightarrow> 'f"
  glm_identity :: 'm
  mat_times :: "'m \<Rightarrow> 'm \<Rightarrow> 'm"
  mat_inverse :: "'m \<Rightarrow> 'm"
  mat_vec4 :: "'m \<Rightarrow> 'f \<times> 'f \<times> 'f \<times> 'f \<Rightarrow> 'f \<times> 'f \<times> 'f \<times> 'f"
  glm_normalize :: "'f vec3 \<Rightarrow> 'f vec3"

record ('f, 'm) camera =
  aspectRatio :: 'f
  scale :: 'f
  projMatrix :: 'm
  projectionDirty :: bool
  orthographic :: bool
  fov :: 'f
  near_plane :: 'f
  far_plane :: 'f

definition default_camera :: "('f, 'm) projections \<Rightarrow> ('f::linordered_field, 'm) camera" where
  "default_camera g = \<lparr>aspectRatio = 0, scale = 100, projMatrix = glm_identity g, projectionDirty = False,
     orthographic = False, fov = 0, near_plane = 0, far_plane = 0\<rparr>"

definition perspective_camera ::
  "('f, 'm) projections \<Rightarrow> 'f \<Rightarrow> 'f \<Rightarrow> 'f \<Rightarrow> 'f \<Rightarrow> ('f::linordered_field, 'm) camera" where
  "perspective_camera g fv n f aspect = (default_camera g)\<lparr>aspectRatio := aspect, projectionDirty := True, fov := fv,
     near_plane := n, far_plane := f, orthographic := False\<rparr>"

definition ortho_camera :: "('f, 'm) projections \<Rightarrow> 'f \<Rightarrow> 'f \<Rightarrow> ('f::linordered_field, 'm) camera" where
  "ortho_camera g aspect s = (default_camera g)\<lparr>aspectRatio := aspect, scale := s, projectionDirty := True, fov := 0,
     near_plane := 1, far_plane := 3200000, orthographic := True\<rparr>"

text \<open>The constructor with a pose ignores the pose.\<close>

definition posed_camera ::
  "('f, 'm) projections \<Rightarrow> 'f \<Rightarrow> 'f \<Rightarrow> 'f vec3 \<Rightarrow> 'f \<Rightarrow> 'f \<Rightarrow> 'f \<Rightarrow> 'f \<Rightarrow> ('f::linordered_field, 'm) camera" where
  "posed_camera g pitch yaw position fv n f aspect = (default_camera g)\<lparr>aspectRatio := aspect, projectionDirty := True,
     fov := fv, near_plane := n, far_plane := f, orthographic := False\<rparr>"

definition setOrthographic :: "bool \<Rightarrow> ('f, 'm) camera \<Rightarrow> ('f, 'm) camera" where
  "setOrthographic ortho c = c\<lparr>orthographic := ortho, projectionDirty := True\<rparr>"

definition setAspectRatio :: "'f \<Rightarrow> ('f, 'm) camera \<Rightarrow> ('f, 'm) camera" where
  "setAspectRatio y c = c\<lparr>aspectRatio := y, projectionDirty := True\<rparr>"

definition setFar :: "'f \<Rightarrow> ('f, 'm) camera \<Rightarrow> ('f, 'm) camera" where
  "setFar y c = c\<lparr>far_plane := y, projectionDirty := True\<rparr>"

definition setNear :: "'f \<Rightarrow> ('f, 'm) camera \<Rightarrow> ('f, 'm) camera" where
  "setNear y c = c\<lparr>near_plane := y, projectionDirty := True\<rparr>"

definition setScale :: "'f \<Rightarrow> ('f, 'm) camera \<Rightarrow> ('f, 'm) camera" where
  "setScale y c = c\<lparr>scale := y, projectionDirty := True\<rparr>"

definition setFov :: "'f \<Rightarrow> ('f, 'm) camera \<Rightarrow> ('f, 'm) camera" where
  "setFov y c = c\<lparr>fov := y, projectionDirty := True\<rparr>"

definition projection :: "('f, 'm) projections \<Rightarrow> ('f::linordered_field, 'm) camera \<Rightarrow> 'm" where
  "projection g c =
     (if orthographic c
      then glm_ortho g (aspectRatio c * - scale c) (aspectRatio c * scale c) (- scale c) (scale c) (near_plane c) (far_plane c)
      else glm_perspective g (glm_radians g (fov c)) (aspectRatio c) (near_plane c) (far_plane c))"

definition updateProjectionMatrix :: "('f, 'm) projections \<Rightarrow> ('f::linordered_field, 'm) camera \<Rightarrow> ('f, 'm) camera" where
  "updateProjectionMatrix g c = c\<lparr>projMatrix := projection g c\<rparr>"

definition getProjectionMatrix :: "('f, 'm) projections \<Rightarrow> ('f::linordered_field, 'm) camera \<Rightarrow> ('f, 'm) camera \<times> 'm" where
  "getProjectionMatrix g c =
     (let c = (if projectionDirty c then (updateProjectionMatrix g c)\<lparr>projectionDirty := False\<rparr> else c)
      in (c, projMatrix c))"

text \<open>
  \<^verbatim>\<open>getFrustum\<close> up to the matrix that \<^verbatim>\<open>Frustum::from\<close> is given. \<^verbatim>\<open>sendRay\<close> is constant: it reads the stored
  matrix and does not ask whether it is dirty.
\<close>

definition getFrustum :: "('f, 'm) projections \<Rightarrow> 'm \<Rightarrow> ('f::linordered_field, 'm) camera \<Rightarrow> ('f, 'm) camera \<times> 'm" where
  "getFrustum g view c =
     (let c = (if projectionDirty c then (updateProjectionMatrix g c)\<lparr>projectionDirty := False\<rparr> else c)
      in (c, mat_times g (projMatrix c) view))"

definition sendRay ::
  "('f, 'm) projections \<Rightarrow> 'f \<Rightarrow> 'f \<Rightarrow> 'm \<Rightarrow> bool \<Rightarrow> ('f::linordered_field, 'm) camera \<Rightarrow> 'f ray" where
  "sendRay g x y view invertY c =
     (let viewProjInverse = mat_inverse g (mat_times g (projMatrix c) view);
          x = 2 * x - 1;
          y = 2 * y - 1;
          y = (if invertY then y * -1 else y);
          (px, py, pz, pw) = mat_vec4 g viewProjInverse (x, y, 0, 1);
          (qx, qy, qz, qw) = mat_vec4 g viewProjInverse (x, y, 1, 1);
          start = Vec3 (px / pw) (py / pw) (pz / pw)
      in \<lparr>origin = start, direction = glm_normalize g (vec_minus (Vec3 (qx / qw) (qy / qw) (qz / qw)) start)\<rparr>)"

text \<open>What is saved of a camera, and loading it into another.\<close>

definition save_camera :: "('f, 'm) camera \<Rightarrow> 'f list" where
  "save_camera c = [scale c, aspectRatio c, fov c, near_plane c, far_plane c]"

fun load_camera :: "'f list \<Rightarrow> ('f, 'm) camera \<Rightarrow> ('f, 'm) camera option" where
  "load_camera [s, a, f, n, r] c =
     Some (c\<lparr>scale := s, aspectRatio := a, fov := f, near_plane := n, far_plane := r, projectionDirty := True\<rparr>)"
| "load_camera _ c = None"

section \<open>The controller of the editor\<close>

record 'f transform =
  localPosition :: "'f vec3"
  localOrientation :: "'f vec3"

record 'f motion =
  std_pow :: "'f \<Rightarrow> 'f \<Rightarrow> 'f"
  to_degrees :: "'f \<Rightarrow> 'f"
  to_radians :: "'f \<Rightarrow> 'f"
  forward_dir :: "'f transform \<Rightarrow> 'f vec3"
  right_dir :: "'f transform \<Rightarrow> 'f vec3"
  up_dir :: "'f transform \<Rightarrow> 'f vec3"

record 'f controller =
  velocity :: "'f vec3"
  rotateVelocity :: "'f vec2"
  zoomVelocity :: 'f
  cameraSpeed :: 'f
  previousCurserPos :: "'f vec2"
  mouseSensitivity :: 'f
  zoomDampeningFactor :: 'f
  dampeningFactor :: 'f
  rotateDampeningFactor :: 'f
  mode2D :: bool

definition EditorCameraController :: "'f::linordered_field controller" where
  "EditorCameraController = \<lparr>velocity = Vec3 0 0 0, rotateVelocity = Vec2 0 0, zoomVelocity = 0, cameraSpeed = 0,
     previousCurserPos = Vec2 0 0, mouseSensitivity = 1 / 100000, zoomDampeningFactor = 1 / 100000,
     dampeningFactor = 1 / 100000, rotateDampeningFactor = 1 / 10000000, mode2D = False\<rparr>"

definition vadd :: "'f::linordered_field vec3 \<Rightarrow> 'f vec3 \<Rightarrow> 'f vec3" where
  "vadd a b = Vec3 (x3 a + x3 b) (y3 a + y3 b) (z3 a + z3 b)"

definition vscale :: "'f::linordered_field vec3 \<Rightarrow> 'f \<Rightarrow> 'f vec3" where
  "vscale a t = Vec3 (x3 a * t) (y3 a * t) (z3 a * t)"

definition equals3 :: "'f::linordered_field vec3 \<Rightarrow> 'f vec3 \<Rightarrow> bool" where
  "equals3 a b \<longleftrightarrow> approx_equals (x3 a) (x3 b) \<and> approx_equals (y3 a) (y3 b) \<and> approx_equals (z3 a) (z3 b)"

text \<open>If the key is held, the velocity changes by a direction times a speed.\<close>

definition push_key :: "'f input \<Rightarrow> int \<Rightarrow> 'f::linordered_field vec3 \<Rightarrow> 'f \<Rightarrow> 'f vec3 \<Rightarrow> 'f vec3 run" where
  "push_key i key dir speed v = rbind (isKeyHeld key i) (\<lambda>held. ret (if held then vadd v (vscale dir speed) else v))"

definition move_by :: "'f::linordered_field motion \<Rightarrow> 'f \<Rightarrow> 'f controller \<times> 'f transform \<Rightarrow> 'f controller \<times> 'f transform" where
  "move_by g dt = (\<lambda>(c, t).
     if \<not> equals3 (velocity c) (Vec3 0 0 0)
     then (c\<lparr>velocity := vscale (velocity c) (std_pow g (dampeningFactor c) dt)\<rparr>,
           t\<lparr>localPosition := vadd (localPosition t) (vscale (velocity c) dt)\<rparr>)
     else (c, t))"

definition handleKeyboard ::
  "'f::linordered_field motion \<Rightarrow> 'f input \<Rightarrow> 'f \<Rightarrow> 'f controller \<times> 'f transform \<Rightarrow> ('f controller \<times> 'f transform) run" where
  "handleKeyboard g i dt = (\<lambda>(c, t).
     if mode2D c then
       let speed = dt * 20; up = Vec3 0 1 0; right = Vec3 1 0 0 in
       rbind (push_key i 65 right (- speed) (velocity c)) (\<lambda>v.
       rbind (push_key i 68 right speed v) (\<lambda>v.
       rbind (push_key i 87 up speed v) (\<lambda>v.
       rbind (push_key i 83 up (- speed) v) (\<lambda>v.
       ret (move_by g dt (c\<lparr>velocity := v, cameraSpeed := speed\<rparr>, t))))))
     else
       rbind (isKeyHeld 340 i) (\<lambda>shift.
       let speed = (if shift then 2000 else 100) * dt in
       rbind (isMouseHeld 2 i) (\<lambda>rightButton.
       rbind (if rightButton then
                rbind (push_key i 87 (forward_dir g t) (- speed) (velocity c)) (\<lambda>v.
                rbind (push_key i 83 (forward_dir g t) speed v) (\<lambda>v.
                rbind (push_key i 65 (right_dir g t) (- speed) v) (\<lambda>v.
                rbind (push_key i 68 (right_dir g t) speed v) (\<lambda>v.
                rbind (push_key i 81 (up_dir g t) (- speed) v) (\<lambda>v.
                push_key i 69 (up_dir g t) speed v)))))
              else ret (velocity c)) (\<lambda>v.
       ret (move_by g dt (c\<lparr>velocity := v, cameraSpeed := speed\<rparr>, t))))))"

definition updateScroll ::
  "'f::linordered_field motion \<Rightarrow> 'f input \<Rightarrow> 'f \<Rightarrow> 'f \<Rightarrow> ('f, 'm) camera \<times> 'f controller \<times> 'f transform \<Rightarrow>
   (('f, 'm) camera \<times> 'f controller \<times> 'f transform) run" where
  "updateScroll g i offset dt = (\<lambda>(cam, c, t).
     if mode2D c then
       rbind (isKeyHeld 340 i) (\<lambda>shift.
       let multiplier = (if shift then 200 else 100);
           c = (if offset \<noteq> 0 then c\<lparr>zoomVelocity := zoomVelocity c + dt * offset * multiplier\<rparr> else c)
       in if \<not> approx_equals (zoomVelocity c) 0 then
            let s = scale cam - zoomVelocity c in
            if s < 3 / 20 then ret (setScale (3 / 20) cam, c\<lparr>zoomVelocity := 0\<rparr>, t)
            else ret (setScale s cam, c\<lparr>zoomVelocity := zoomVelocity c * std_pow g (zoomDampeningFactor c) dt\<rparr>, t)
          else ret (cam, c, t))
     else
       let c = (if offset \<noteq> 0 then c\<lparr>zoomVelocity := zoomVelocity c - dt * offset * 10\<rparr> else c)
       in if \<not> approx_equals (zoomVelocity c) 0 then
            ret (cam, c\<lparr>zoomVelocity := zoomVelocity c * std_pow g (zoomDampeningFactor c) dt\<rparr>,
                 t\<lparr>localPosition := vadd (localPosition t) (vscale (forward_dir g t) (zoomVelocity c))\<rparr>)
          else ret (cam, c, t))"

definition handleMouse ::
  "'f::linordered_field motion \<Rightarrow> 'f input \<Rightarrow> 'f \<Rightarrow> 'f \<Rightarrow> 'f \<Rightarrow> ('f, 'm) camera \<times> 'f controller \<times> 'f transform \<Rightarrow>
   (('f, 'm) camera \<times> 'f controller \<times> 'f transform) run" where
  "handleMouse g i dt xpos ypos = (\<lambda>(cam, c, t).
     rbind (isMouseHeld 2 i) (\<lambda>rightButton.
     let dx = xpos - x2 (previousCurserPos c); dy = ypos - y2 (previousCurserPos c);
         (c, t) =
           (if mode2D c then
              (if rightButton then
                 let c = c\<lparr>mouseSensitivity := 1\<rparr>; p = localPosition t in
                 (c, t\<lparr>localPosition := Vec3 (x3 p - dx * mouseSensitivity c * (1 / 2))
                                          (y3 p + dy * mouseSensitivity c * (1 / 2)) (z3 p)\<rparr>)
               else (c, t))
            else
              let c = (if rightButton then
                         let c = c\<lparr>mouseSensitivity := 1 / 100\<rparr> in
                         c\<lparr>rotateVelocity := Vec2 (x2 (rotateVelocity c) + dx * mouseSensitivity c)
                                              (y2 (rotateVelocity c) + dy * mouseSensitivity c)\<rparr>
                       else c);
                  pitch = to_degrees g (x3 (localOrientation t)) - y2 (rotateVelocity c);
                  yaw = to_degrees g (y3 (localOrientation t)) - x2 (rotateVelocity c);
                  pitch = max (min pitch 89) (- 89)
              in (c, t\<lparr>localOrientation := Vec3 (to_radians g pitch) (to_radians g yaw) (to_radians g 0)\<rparr>));
         damp = std_pow g (rotateDampeningFactor c) dt;
         c = c\<lparr>previousCurserPos := Vec2 xpos ypos,
               rotateVelocity := Vec2 (x2 (rotateVelocity c) * damp) (y2 (rotateVelocity c) * damp)\<rparr>
     in updateScroll g i (scrollOffset i) dt (cam, c, t)))"

section \<open>The cached projection\<close>

text \<open>
  A camera without a cache: the parameters alone. A camera is coherent when its matrix, if it
  is not marked dirty, is the projection of the parameters.
\<close>

definition coherent :: "('f, 'm) projections \<Rightarrow> ('f::linordered_field, 'm) camera \<Rightarrow> bool" where
  "coherent g c \<longleftrightarrow> projectionDirty c \<or> projMatrix c = projection g c"

datatype ('f, 'm) camera_op =
  SetOrthographic bool | SetAspectRatio 'f | SetFar 'f | SetNear 'f | SetScale 'f | SetFov 'f
| GetProjection | GetFrustum 'm | SendRay 'f 'f 'm bool

fun camera_step :: "('f, 'm) projections \<Rightarrow> ('f, 'm) camera_op \<Rightarrow> ('f::linordered_field, 'm) camera \<Rightarrow> ('f, 'm) camera" where
  "camera_step g (SetOrthographic b) c = setOrthographic b c"
| "camera_step g (SetAspectRatio y) c = setAspectRatio y c"
| "camera_step g (SetFar y) c = setFar y c"
| "camera_step g (SetNear y) c = setNear y c"
| "camera_step g (SetScale y) c = setScale y c"
| "camera_step g (SetFov y) c = setFov y c"
| "camera_step g GetProjection c = fst (getProjectionMatrix g c)"
| "camera_step g (GetFrustum view) c = fst (getFrustum g view c)"
| "camera_step g (SendRay x y view flip) c = c"

record 'f lens =
  l_aspect :: 'f
  l_scale :: 'f
  l_ortho :: bool
  l_fov :: 'f
  l_near :: 'f
  l_far :: 'f

definition lens_of :: "('f, 'm) camera \<Rightarrow> 'f lens" where
  "lens_of c = \<lparr>l_aspect = aspectRatio c, l_scale = scale c, l_ortho = orthographic c, l_fov = fov c, l_near = near_plane c,
     l_far = far_plane c\<rparr>"

fun lens_step :: "('f, 'm) camera_op \<Rightarrow> 'f lens \<Rightarrow> 'f lens" where
  "lens_step (SetOrthographic b) l = l\<lparr>l_ortho := b\<rparr>"
| "lens_step (SetAspectRatio y) l = l\<lparr>l_aspect := y\<rparr>"
| "lens_step (SetFar y) l = l\<lparr>l_far := y\<rparr>"
| "lens_step (SetNear y) l = l\<lparr>l_near := y\<rparr>"
| "lens_step (SetScale y) l = l\<lparr>l_scale := y\<rparr>"
| "lens_step (SetFov y) l = l\<lparr>l_fov := y\<rparr>"
| "lens_step _ l = l"

definition lens_projection :: "('f, 'm) projections \<Rightarrow> 'f::linordered_field lens \<Rightarrow> 'm" where
  "lens_projection g l =
     (if l_ortho l then glm_ortho g (l_aspect l * - l_scale l) (l_aspect l * l_scale l) (- l_scale l) (l_scale l) (l_near l) (l_far l)
      else glm_perspective g (glm_radians g (l_fov l)) (l_aspect l) (l_near l) (l_far l))"

lemmas camera_ops = setOrthographic_def setAspectRatio_def setFar_def setNear_def setScale_def setFov_def
  getProjectionMatrix_def getFrustum_def updateProjectionMatrix_def

lemma projection_lens: "projection g c = lens_projection g (lens_of c)"
  by (simp add: projection_def lens_projection_def lens_of_def)

lemma camera_step_coherent: "coherent g c \<Longrightarrow> coherent g (camera_step g ops c)"
  by (cases ops) (auto simp: coherent_def camera_ops Let_def projection_def)

lemma camera_step_lens: "lens_of (camera_step g ops c) = lens_step ops (lens_of c)"
  by (cases ops) (auto simp: lens_of_def camera_ops Let_def)

lemma camera_run:
  "coherent g c \<Longrightarrow> coherent g (fold (camera_step g) ops c) \<and> lens_of (fold (camera_step g) ops c) = fold lens_step ops (lens_of c)"
  by (induction ops arbitrary: c) (simp_all add: camera_step_coherent camera_step_lens)

lemma getProjectionMatrix_coherent: "coherent g c \<Longrightarrow> snd (getProjectionMatrix g c) = projection g c"
  by (auto simp: coherent_def getProjectionMatrix_def updateProjectionMatrix_def Let_def projection_def)

text \<open>
  The camera without a cache, for all three queries. \<open>settled\<close> says whether a constructor with
  arguments or a setter has run. \<open>projected\<close> is the matrix of the last query for the projection or
  the frustum, which is what rays are sent with: \<open>m\<close> if there was none.
\<close>

fun is_setter :: "('f, 'm) camera_op \<Rightarrow> bool" where
  "is_setter GetProjection = False"
| "is_setter (GetFrustum view) = False"
| "is_setter (SendRay x y view flip) = False"
| "is_setter _ = True"

fun recomputes :: "('f, 'm) camera_op \<Rightarrow> bool" where
  "recomputes GetProjection = True"
| "recomputes (GetFrustum view) = True"
| "recomputes _ = False"

fun projected :: "('f, 'm) projections \<Rightarrow> ('f, 'm) camera_op list \<Rightarrow> 'f::linordered_field lens \<Rightarrow> bool \<Rightarrow> 'm \<Rightarrow> 'm" where
  "projected g [] l settled m = m"
| "projected g (x # xs) l settled m = projected g xs (lens_step x l) (settled \<or> is_setter x)
     (if recomputes x \<and> settled then lens_projection g l else m)"

definition cache_inv :: "('f, 'm) projections \<Rightarrow> bool \<Rightarrow> ('f::linordered_field, 'm) camera \<Rightarrow> bool" where
  "cache_inv g settled c \<longleftrightarrow> (projectionDirty c \<longrightarrow> settled) \<and> (settled \<longrightarrow> coherent g c)"

lemma camera_step_cache:
  assumes "cache_inv g settled c"
  shows "cache_inv g (settled \<or> is_setter x) (camera_step g x c)"
    and "projMatrix (camera_step g x c) = (if recomputes x \<and> settled then lens_projection g (lens_of c) else projMatrix c)"
  using assms by (cases x; auto simp: cache_inv_def coherent_def camera_ops Let_def projection_lens lens_of_def)+

lemma camera_fold_cache:
  "cache_inv g settled c \<Longrightarrow>
    cache_inv g (settled \<or> list_ex is_setter xs) (fold (camera_step g) xs c) \<and>
    lens_of (fold (camera_step g) xs c) = fold lens_step xs (lens_of c) \<and>
    projMatrix (fold (camera_step g) xs c) = projected g xs (lens_of c) settled (projMatrix c)"
proof (induction xs arbitrary: settled c)
  case (Cons x xs)
  from Cons.IH[OF camera_step_cache(1)[OF Cons.prems, of x]] show ?case
    using camera_step_cache(2)[OF Cons.prems, of x] by (simp add: camera_step_lens disj_assoc)
qed simp

text \<open>
  The ray through a point of the screen, for a combined matrix: from the point of depth 0 towards
  the point of depth 1, both taken back through the inverse and divided by their last component.
\<close>

definition unprojected :: "('f, 'm) projections \<Rightarrow> 'm \<Rightarrow> 'f \<Rightarrow> 'f \<Rightarrow> 'f \<Rightarrow> 'f::linordered_field vec3" where
  "unprojected g w u v z = (case mat_vec4 g w (u, v, z, 1) of (px, py, pz, pw) \<Rightarrow> Vec3 (px / pw) (py / pw) (pz / pw))"

definition ray_between :: "('f, 'm) projections \<Rightarrow> 'f::linordered_field vec3 \<Rightarrow> 'f vec3 \<Rightarrow> 'f ray" where
  "ray_between g p q = \<lparr>origin = p, direction = glm_normalize g (vec_minus q p)\<rparr>"

lemma sendRay_between:
  "sendRay g x y view flip c =
     (let m = mat_inverse g (mat_times g (projMatrix c) view); u = 2 * x - 1; v = (if flip then 1 - 2 * y else 2 * y - 1)
      in ray_between g (unprojected g m u v 0) (unprojected g m u v 1))"
  by (auto simp: sendRay_def unprojected_def ray_between_def Let_def split: prod.splits)

text \<open>
  C25: After any sequence of setters and queries on a camera made by a constructor with arguments,
  \<^verbatim>\<open>getProjectionMatrix\<close> returns the projection of the parameters last set, and \<^verbatim>\<open>getFrustum\<close> extracts
  the frustum of its product with the view matrix. \<^verbatim>\<open>sendRay\<close> is not fresh: it sends its ray
  with the matrix of the last query for the projection or the frustum, the identity when there was
  none, whatever was set since. A camera of the default constructor is the same with one exception:
  until the first setter is called, the projection is the identity.
\<close>

theorem camera_cache_refines:
  assumes "c = default_camera g \<and> \<not> settled \<or> settled \<and>
    c \<in> {perspective_camera g fv n f a, ortho_camera g a s, posed_camera g pitch yaw position fv n f a}"
  shows "let c' = fold (camera_step g) ops c;
      now = (if settled \<or> list_ex is_setter ops then lens_projection g (fold lens_step ops (lens_of c)) else glm_identity g);
      stale = mat_inverse g (mat_times g (projected g ops (lens_of c) settled (glm_identity g)) view);
      u = 2 * x - 1; v = (if flip then 1 - 2 * y else 2 * y - 1)
    in snd (getProjectionMatrix g c') = now \<and> snd (getFrustum g view c') = mat_times g now view \<and>
      sendRay g x y view flip c' = ray_between g (unprojected g stale u v 0) (unprojected g stale u v 1)"
proof -
  have c: "cache_inv g settled c" "projMatrix c = glm_identity g"
    using assms by (auto simp: cache_inv_def coherent_def perspective_camera_def ortho_camera_def posed_camera_def default_camera_def)
  define c' where "c' = fold (camera_step g) ops c"
  have f: "cache_inv g (settled \<or> list_ex is_setter ops) c'" "lens_of c' = fold lens_step ops (lens_of c)"
    "projMatrix c' = projected g ops (lens_of c) settled (glm_identity g)"
    using camera_fold_cache[OF c(1), of ops] c(2) by (simp_all add: c'_def)
  have un: "projected g xs l False m = m" if "\<not> list_ex is_setter xs" for xs l m
    using that by (induction xs arbitrary: l) auto
  have now: "snd (getProjectionMatrix g c') =
      (if settled \<or> list_ex is_setter ops then lens_projection g (lens_of c') else glm_identity g)"
  proof (cases "settled \<or> list_ex is_setter ops")
    case True
    then have "coherent g c'" using f(1) by (simp add: cache_inv_def)
    then show ?thesis using True by (simp add: getProjectionMatrix_coherent projection_lens)
  next
    case False
    then have "\<not> projectionDirty c'" "projMatrix c' = glm_identity g" using f(1,3) un by (simp_all add: cache_inv_def)
    then show ?thesis using False by (simp add: getProjectionMatrix_def)
  qed
  moreover have "snd (getFrustum g view c') = mat_times g (snd (getProjectionMatrix g c')) view"
    by (simp add: getFrustum_def getProjectionMatrix_def Let_def)
  ultimately show ?thesis unfolding Let_def c'_def [symmetric] by (simp add: f(2,3) sendRay_between Let_def)
qed

text \<open>
  Saving a camera and loading it into a new one keeps the projection of a perspective camera; an
  orthographic camera comes back as a perspective one, because the flag is not saved.
\<close>

theorem camera_save_load:
  assumes "coherent g c"
  shows "\<exists>d. load_camera (save_camera c) (default_camera g) = Some d \<and>
    snd (getProjectionMatrix g d) = lens_projection g ((lens_of c)\<lparr>l_ortho := False\<rparr>) \<and>
    (\<not> orthographic c \<longrightarrow> snd (getProjectionMatrix g d) = snd (getProjectionMatrix g c))"
proof -
  obtain d where d: "load_camera (save_camera c) (default_camera g) = Some d" "coherent g d"
    "lens_of d = (lens_of c)\<lparr>l_ortho := False\<rparr>"
    by (simp add: save_camera_def default_camera_def coherent_def lens_of_def)
  moreover have "(lens_of c)\<lparr>l_ortho := False\<rparr> = lens_of c" if "\<not> orthographic c" using that by (simp add: lens_of_def)
  ultimately show ?thesis using assms by (simp add: getProjectionMatrix_coherent projection_lens)
qed

section \<open>The controller\<close>

lemma flags_readable:
  assumes "wf_input i" "0 \<le> k"
  shows "k < 1024 \<Longrightarrow> \<exists>b. isKeyHeld k i = ret b" "k < 32 \<Longrightarrow> \<exists>b. isMouseHeld k i = ret b"
  using assms by (auto simp: isKeyHeld_def isMouseHeld_def get_flag_def wf_input_def MAX_KEYS_def MAX_BUTTONS_def)

definition returns :: "'a run \<Rightarrow> bool" where
  "returns m \<longleftrightarrow> (\<exists>x. m = ret x)"

lemma returns_rules:
  "returns (ret x)" "returns m \<Longrightarrow> (\<And>x. returns (f x)) \<Longrightarrow> returns (rbind m f)"
  "(b \<Longrightarrow> returns m) \<Longrightarrow> (\<not> b \<Longrightarrow> returns m') \<Longrightarrow> returns (if b then m else m')"
  by (auto simp: returns_def)

lemma returns_inputs:
  assumes "wf_input i"
  shows "0 \<le> k \<Longrightarrow> k < 1024 \<Longrightarrow> returns (isKeyHeld k i)" "0 \<le> k \<Longrightarrow> k < 32 \<Longrightarrow> returns (isMouseHeld k i)"
    "0 \<le> k \<Longrightarrow> k < 1024 \<Longrightarrow> returns (push_key i k d s v)"
proof -
  show k: "returns (isKeyHeld k i)" if "0 \<le> k" "k < 1024" for k
    using flags_readable(1)[OF assms that(1,2)] by (simp add: returns_def)
  show "returns (isMouseHeld k i)" if "0 \<le> k" "k < 32"
    using flags_readable(2)[OF assms that(1,2)] by (simp add: returns_def)
  show "returns (push_key i k d s v)" if "0 \<le> k" "k < 1024"
    unfolding push_key_def by (intro returns_rules k that)
qed

lemma handleKeyboard_returns: "wf_input i \<Longrightarrow> returns (handleKeyboard g i dt (c, t))"
  unfolding handleKeyboard_def Let_def prod.case
  by (intro returns_rules returns_inputs) simp_all

lemma updateScroll_returns:
  assumes "wf_input i"
  shows "\<exists>cam' c' t'. updateScroll g i off dt (cam, c, t) = ret (cam', c', t') \<and>
    (mode2D c' = mode2D c) \<and> localOrientation t' = localOrientation t \<and> (3 / 20 \<le> scale cam \<longrightarrow> 3 / 20 \<le> scale cam')"
proof -
  obtain b where "isKeyHeld 340 i = ret b" using flags_readable(1)[OF assms, of 340] by auto
  then show ?thesis by (auto simp: updateScroll_def Let_def setScale_def)
qed

text \<open>
  One frame of the controller, as the scene calls it.
\<close>

definition controller_frame ::
  "'f::linordered_field motion \<Rightarrow> 'f input \<Rightarrow> 'f \<Rightarrow> ('f, 'm) camera \<times> 'f controller \<times> 'f transform \<Rightarrow>
   (('f, 'm) camera \<times> 'f controller \<times> 'f transform) run" where
  "controller_frame g i dt x =
     rbind (handleMouse g i dt (fst (mousePosition i)) (snd (mousePosition i)) x) (\<lambda>(cam, c, t).
     rbind (handleKeyboard g i dt (c, t)) (\<lambda>(c, t). ret (cam, c, t)))"

lemma handleKeyboard_keeps:
  assumes "handleKeyboard g i dt (c, t) = ret (c', t')"
  shows "mode2D c' = mode2D c \<and> localOrientation t' = localOrientation t"
  using assms unfolding handleKeyboard_def Let_def prod.case
  by (auto simp: move_by_def split: if_splits dest!: rbind_ret_eqD)

lemma handleMouse_spec:
  assumes "wf_input i" "\<And>x. to_degrees g (to_radians g x) = x"
  shows "\<exists>cam' c' t'. handleMouse g i dt xp yp (cam, c, t) = ret (cam', c', t') \<and> mode2D c' = mode2D c \<and>
    (3 / 20 \<le> scale cam \<longrightarrow> 3 / 20 \<le> scale cam') \<and>
    (\<not> mode2D c \<longrightarrow> - 89 \<le> to_degrees g (x3 (localOrientation t')) \<and> to_degrees g (x3 (localOrientation t')) \<le> 89)"
proof -
  obtain b where b: "isMouseHeld 2 i = ret b" using flags_readable(2)[OF assms(1), of 2] by auto
  obtain c1 t1 where h: "handleMouse g i dt xp yp (cam, c, t) = updateScroll g i (scrollOffset i) dt (cam, c1, t1)"
    and m: "mode2D c1 = mode2D c"
    and p: "\<not> mode2D c \<longrightarrow> - 89 \<le> to_degrees g (x3 (localOrientation t1)) \<and> to_degrees g (x3 (localOrientation t1)) \<le> 89"
    using b assms(2) by (cases "mode2D c"; cases b) (auto simp: handleMouse_def Let_def)
  from updateScroll_returns[OF assms(1), of g "scrollOffset i" dt cam c1 t1] h m p show ?thesis by auto
qed

lemma controller_frame_spec:
  assumes "wf_input i" "3 / 20 \<le> scale cam" "\<And>x. to_degrees g (to_radians g x) = x"
  shows "\<exists>cam' c' t'. controller_frame g i dt (cam, c, t) = ret (cam', c', t') \<and> 3 / 20 \<le> scale cam' \<and> mode2D c' = mode2D c \<and>
    (\<not> mode2D c \<longrightarrow> - 89 \<le> to_degrees g (x3 (localOrientation t')) \<and> to_degrees g (x3 (localOrientation t')) \<le> 89)"
proof -
  obtain cam1 c1 t1 where h: "handleMouse g i dt (fst (mousePosition i)) (snd (mousePosition i)) (cam, c, t) = ret (cam1, c1, t1)"
    "mode2D c1 = mode2D c" "3 / 20 \<le> scale cam1"
    "\<not> mode2D c \<longrightarrow> - 89 \<le> to_degrees g (x3 (localOrientation t1)) \<and> to_degrees g (x3 (localOrientation t1)) \<le> 89"
    using handleMouse_spec[OF assms(1,3), of dt "fst (mousePosition i)" "snd (mousePosition i)" cam c t] assms(2) by auto
  obtain c2 t2 where k: "handleKeyboard g i dt (c1, t1) = ret (c2, t2)"
    using handleKeyboard_returns[OF assms(1), of g dt c1 t1] by (auto simp: returns_def)
  from handleKeyboard_keeps[OF k] h k show ?thesis by (simp add: controller_frame_def)
qed

text \<open>
  The controller never leaves the arrays of the input, and keeps its bounds over any sequence of
  frames: the scale of the camera never falls below 0.15, and in three dimensions the pitch is between -89 and
  89 degrees after every frame. Degrees and radians are taken as inverse conversions.
\<close>

theorem controller_bounds:
  assumes "\<And>x. to_degrees g (to_radians g x) = x" "\<forall>x \<in> set (frame # frames). wf_input (fst x)" "3 / 20 \<le> scale cam"
  shows "\<exists>cam' c' t'. rfold (\<lambda>x. controller_frame g (fst x) (snd x)) (frame # frames) (cam, c, t) = ret (cam', c', t') \<and>
    3 / 20 \<le> scale cam' \<and>
    (\<not> mode2D c \<longrightarrow> - 89 \<le> to_degrees g (x3 (localOrientation t')) \<and> to_degrees g (x3 (localOrientation t')) \<le> 89)"
  using assms(2,3)
proof (induction frames arbitrary: frame cam c t)
  case Nil
  then show ?case using controller_frame_spec[of "fst frame" cam g "snd frame" c t] assms(1) by auto
next
  case (Cons next_one frames)
  obtain cam1 c1 t1 where f: "controller_frame g (fst frame) (snd frame) (cam, c, t) = ret (cam1, c1, t1)"
    "3 / 20 \<le> scale cam1" "mode2D c1 = mode2D c"
    using controller_frame_spec[of "fst frame" cam g "snd frame" c t] assms(1) Cons.prems by auto
  from Cons.IH[of next_one cam1 c1 t1] Cons.prems(1) f show ?case by simp
qed

section \<open>Witnesses\<close>

definition some_lens :: "(rat, rat list) projections" where
  "some_lens = \<lparr>glm_ortho = (\<lambda>a b c d e f. [a, b, c, d, e, f]), glm_perspective = (\<lambda>a b c d. [a, b, c, d]),
     glm_radians = (\<lambda>x. x / 57), glm_identity = [],
     mat_times = (@), mat_inverse = (\<lambda>m. m), mat_vec4 = (\<lambda>m (x, y, z, w). (x + sum_list m, y, z, w)), glm_normalize = (\<lambda>v. v)\<rparr>"

definition some_motion :: "rat motion" where
  "some_motion = \<lparr>std_pow = (\<lambda>a b. a), to_degrees = (\<lambda>x. x * 57), to_radians = (\<lambda>x. x / 57),
     forward_dir = (\<lambda>_. Vec3 0 0 1), right_dir = (\<lambda>_. Vec3 1 0 0), up_dir = (\<lambda>_. Vec3 0 1 0)\<rparr>"

definition idle_input :: "rat input" where
  "idle_input = reset_input \<lparr>keyPressed = [], keyHeld = [], mouseHeld = [], mouseClicked = [],
     scrollOffset = 0, mouseOnScreen = False, windowFocus = False, mousePosition = (0, 0)\<rparr>"

theorem camera_cache_refines_witness:
  "let c = fold (camera_step some_lens) [GetProjection, SetFov 114, SetOrthographic False] (perspective_camera some_lens 57 1 100 2)
    in snd (getProjectionMatrix some_lens c) = [2, 2, 1, 100] \<and>
      sendRay some_lens 0 0 [] True c = \<lparr>origin = Vec3 103 1 0, direction = Vec3 0 0 1\<rparr>"
  using camera_cache_refines[of "perspective_camera some_lens 57 1 100 2" some_lens True 57 1 100 2 0 0 0 "Vec3 0 0 0"
      "[GetProjection, SetFov 114, SetOrthographic False]" "[]" 0 True 0]
  by (simp add: Let_def lens_projection_def lens_of_def perspective_camera_def default_camera_def some_lens_def
      unprojected_def ray_between_def vec_minus_def)

theorem camera_save_load_witness:
  "\<exists>d. load_camera (save_camera (ortho_camera some_lens 2 10)) (default_camera some_lens) = Some d \<and>
     snd (getProjectionMatrix some_lens d) = [0, 2, 1, 3200000]"
proof -
  have "coherent some_lens (ortho_camera some_lens 2 10)" by (simp add: coherent_def ortho_camera_def)
  from camera_save_load[OF this] show ?thesis
    by (auto simp: lens_projection_def lens_of_def ortho_camera_def default_camera_def some_lens_def)
qed

theorem controller_bounds_witness:
  "\<exists>cam' c' t'. rfold (\<lambda>x. controller_frame some_motion (fst x) (snd x)) [(idle_input, 1), (idle_input, 1)]
     (ortho_camera some_lens 2 10, EditorCameraController, \<lparr>localPosition = Vec3 0 0 0, localOrientation = Vec3 5 0 0\<rparr>) =
     ret (cam', c', t') \<and> 3 / 20 \<le> scale cam'"
proof -
  have w: "\<forall>x \<in> set [(idle_input, 1), (idle_input, 1 :: rat)]. wf_input (fst x)" by (simp add: idle_input_def)
  have "\<And>x. to_degrees some_motion (to_radians some_motion x) = x" "3 / 20 \<le> scale (ortho_camera some_lens 2 10)"
    by (simp_all add: some_motion_def ortho_camera_def)
  from controller_bounds[OF this(1) w this(2)] show ?thesis by blast
qed

end
