(* ===== verification/Meshes.thy ===== *)
theory Meshes
  imports Maple_Prelude Geometry
begin

text \<open>
  Meshes, \<^verbatim>\<open>Engine/Mesh.cpp\<close>: the quad, the cube and the sphere, and the generation of normals and
  tangents from the triangles. Coordinates are elements of a field with exact arithmetic; \<open>nrm\<close> stands for
  \<^verbatim>\<open>glm::normalize\<close>. Reading past the end of a vector is the fault \<^term>\<open>BadIndex\<close>.
\<close>

section \<open>Shapes\<close>

record 'a mesh_vertex =
  mv_pos :: "'a vec3"
  mv_color :: "'a list"
  mv_texCoord :: "'a vec2"
  mv_normal :: "'a vec3"
  mv_tangent :: "'a vec3"

record 'a mesh =
  mesh_indices :: "nat list"
  mesh_vertices :: "'a mesh_vertex list"

definition zero3 :: "'a::zero vec3" where
  "zero3 = Vec3 0 0 0"

definition quad_vertex :: "'a::linordered_field \<Rightarrow> 'a \<Rightarrow> 'a \<Rightarrow> 'a \<Rightarrow> 'a \<Rightarrow> 'a mesh_vertex" where
  "quad_vertex x y u v c = \<lparr>mv_pos = Vec3 x y 0, mv_color = [c, c, c, c], mv_texCoord = Vec2 u v,
     mv_normal = zero3, mv_tangent = zero3\<rparr>"

definition createQuad :: "'a::linordered_field mesh" where
  "createQuad = \<lparr>mesh_indices = [0, 1, 2, 2, 3, 0],
     mesh_vertices = [quad_vertex (- 1) (- 1) 0 0 0, quad_vertex 1 (- 1) 1 0 1,
       quad_vertex 1 1 1 1 (1 / 2), quad_vertex (- 1) 1 0 1 (1 / 5)]\<rparr>"

definition cube_corners :: "('a::linordered_idom vec3 \<times> 'a vec3) list" where
  "cube_corners = [
     ((Vec3 1 1 1), (Vec3 0 0 1)),
     ((Vec3 (- 1) 1 1), (Vec3 0 0 1)),
     ((Vec3 (- 1) (- 1) 1), (Vec3 0 0 1)),
     ((Vec3 1 (- 1) 1), (Vec3 0 0 1)),
     ((Vec3 1 1 1), (Vec3 1 0 0)),
     ((Vec3 1 (- 1) 1), (Vec3 1 0 0)),
     ((Vec3 1 (- 1) (- 1)), (Vec3 1 0 0)),
     ((Vec3 1 1 (- 1)), (Vec3 1 0 0)),
     ((Vec3 1 1 1), (Vec3 0 1 0)),
     ((Vec3 1 1 (- 1)), (Vec3 0 1 0)),
     ((Vec3 (- 1) 1 (- 1)), (Vec3 0 1 0)),
     ((Vec3 (- 1) 1 1), (Vec3 0 1 0)),
     ((Vec3 (- 1) 1 1), (Vec3 (- 1) 0 0)),
     ((Vec3 (- 1) 1 (- 1)), (Vec3 (- 1) 0 0)),
     ((Vec3 (- 1) (- 1) (- 1)), (Vec3 (- 1) 0 0)),
     ((Vec3 (- 1) (- 1) 1), (Vec3 (- 1) 0 0)),
     ((Vec3 (- 1) (- 1) (- 1)), (Vec3 0 (- 1) 0)),
     ((Vec3 1 (- 1) (- 1)), (Vec3 0 (- 1) 0)),
     ((Vec3 1 (- 1) 1), (Vec3 0 (- 1) 0)),
     ((Vec3 (- 1) (- 1) 1), (Vec3 0 (- 1) 0)),
     ((Vec3 1 (- 1) (- 1)), (Vec3 0 0 (- 1))),
     ((Vec3 (- 1) (- 1) (- 1)), (Vec3 0 0 (- 1))),
     ((Vec3 (- 1) 1 (- 1)), (Vec3 0 0 (- 1))),
     ((Vec3 1 1 (- 1)), (Vec3 0 0 (- 1)))]"

text \<open>The texture coordinates of a face; the loop overwrites the two that were set before.\<close>

definition face_uv :: "'a::linordered_idom vec2 list" where
  "face_uv = [Vec2 0 0, Vec2 1 0, Vec2 1 1, Vec2 0 1]"

definition cube_indices :: "nat list" where
  "cube_indices = [0, 1, 2, 0, 2, 3, 4, 5, 6, 4, 6, 7, 8, 9, 10, 8, 10, 11,
     12, 13, 14, 12, 14, 15, 16, 17, 18, 16, 18, 19, 20, 21, 22, 20, 22, 23]"

definition createCube :: "'a::linordered_idom mesh" where
  "createCube = \<lparr>mesh_indices = cube_indices,
     mesh_vertices = map (\<lambda>k. \<lparr>mv_pos = fst (cube_corners ! k), mv_color = [0, 0, 0, 0],
       mv_texCoord = face_uv ! (k mod 4), mv_normal = snd (cube_corners ! k), mv_tangent = zero3\<rparr>) [0..<24]\<rparr>"

text \<open>
  The sphere of \<open>xs\<close> sectors and \<open>ys\<close> stacks: the number of its vertices and its triangles. The angles, and with them the
  positions, are left out. Indices are 32 bits wide. The loops compare with the numbers of segments as floats,
  which are exact up to $2^{24}$.
\<close>

definition sphere_vertex_count :: "nat \<Rightarrow> nat \<Rightarrow> nat" where
  "sphere_vertex_count xs ys = length (concat (map (\<lambda>i. map (\<lambda>j. (i, j)) [0..<xs + 1]) [0..<ys + 1]))"

definition sphere_cell :: "nat \<Rightarrow> nat \<Rightarrow> nat \<Rightarrow> nat \<Rightarrow> nat list" where
  "sphere_cell xs ys i j =
     (let k1 = (i * (xs + 1) + j) mod 2 ^ 32; k2 = (i * (xs + 1) + xs + 1 + j) mod 2 ^ 32
      in (if i \<noteq> 0 then [k1, k2, (k1 + 1) mod 2 ^ 32] else []) @
         (if i + 1 \<noteq> ys then [(k1 + 1) mod 2 ^ 32, k2, (k2 + 1) mod 2 ^ 32] else []))"

definition sphere_indices :: "nat \<Rightarrow> nat \<Rightarrow> nat list" where
  "sphere_indices xs ys = concat (map (\<lambda>i. concat (map (sphere_cell xs ys i) [0..<xs])) [0..<ys])"

section \<open>Normals and tangents\<close>

definition vec_plus :: "'a::comm_ring vec3 \<Rightarrow> 'a vec3 \<Rightarrow> 'a vec3" where
  "vec_plus a b = Vec3 (x3 a + x3 b) (y3 a + y3 b) (z3 a + z3 b)"

definition cross :: "'a::comm_ring vec3 \<Rightarrow> 'a vec3 \<Rightarrow> 'a vec3" where
  "cross a b = Vec3 (y3 a * z3 b - y3 b * z3 a) (z3 a * x3 b - z3 b * x3 a) (x3 a * y3 b - x3 b * y3 a)"

definition add_at :: "nat \<Rightarrow> 'a::comm_ring vec3 \<Rightarrow> 'a vec3 list \<Rightarrow> 'a vec3 list" where
  "add_at k v vs = vs[k := vec_plus (vs ! k) v]"

text \<open>
  The loop over the indices, three at a time: the vector of a triangle is added at its three corners. The two functions have
  the same loop with their own vector.
\<close>

fun accumulate :: "(nat \<Rightarrow> nat \<Rightarrow> nat \<Rightarrow> 'a::comm_ring vec3) \<Rightarrow> nat \<Rightarrow> nat list \<Rightarrow> 'a vec3 list \<Rightarrow> 'a vec3 list run" where
  "accumulate face n [] vs = ret vs"
| "accumulate face n (a # b # c # idx) vs =
     (if a < n \<and> b < n \<and> c < n
      then accumulate face n idx (add_at c (face a b c) (add_at b (face a b c) (add_at a (face a b c) vs)))
      else fail BadIndex)"
| "accumulate face n _ vs = fail BadIndex"

definition face_normal :: "'a::comm_ring vec3 list \<Rightarrow> nat \<Rightarrow> nat \<Rightarrow> nat \<Rightarrow> 'a vec3" where
  "face_normal ps a b c = cross (vec_minus (ps ! b) (ps ! a)) (vec_minus (ps ! c) (ps ! a))"

text \<open>Without indices, every three vertices are a triangle of their own; the normals are assigned.\<close>

fun flat_normals :: "'a::comm_ring vec3 list \<Rightarrow> 'a vec3 list run" where
  "flat_normals [] = ret []"
| "flat_normals (a # b # c # ps) =
     (let n = cross (vec_minus b a) (vec_minus c a) in rbind (flat_normals ps) (\<lambda>ns. ret (n # n # n # ns)))"
| "flat_normals _ = fail BadIndex"

definition set_normals :: "('a vec3 \<Rightarrow> 'a vec3) \<Rightarrow> 'a mesh_vertex list \<Rightarrow> 'a vec3 list \<Rightarrow> 'a mesh_vertex list" where
  "set_normals nrm vs ns = map2 (\<lambda>v n. v\<lparr>mv_normal := nrm n\<rparr>) vs ns"

definition generateNormals ::
  "('a vec3 \<Rightarrow> 'a vec3) \<Rightarrow> 'a::comm_ring mesh_vertex list \<Rightarrow> nat list \<Rightarrow> 'a mesh_vertex list run" where
  "generateNormals nrm vs indices =
     rbind (if indices \<noteq> []
            then accumulate (face_normal (map mv_pos vs)) (length vs) indices (replicate (length vs) zero3)
            else flat_normals (map mv_pos vs))
       (\<lambda>ns. ret (set_normals nrm vs ns))"

definition generateTangent ::
  "'a::field vec3 \<Rightarrow> 'a vec3 \<Rightarrow> 'a vec3 \<Rightarrow> 'a vec2 \<Rightarrow> 'a vec2 \<Rightarrow> 'a vec2 \<Rightarrow> 'a vec3" where
  "generateTangent a b c ta tb tc =
     (let u1 = x2 tb - x2 ta; v1 = y2 tb - y2 ta; u2 = x2 tc - x2 ta; v2 = y2 tc - y2 ta;
          e1 = vec_minus b a; e2 = vec_minus c a;
          axis = Vec3 (x3 e1 * v2 - x3 e2 * v1) (y3 e1 * v2 - y3 e2 * v1) (z3 e1 * v2 - z3 e2 * v1);
          factor = 1 / (u1 * v2 - u2 * v1)
      in Vec3 (x3 axis * factor) (y3 axis * factor) (z3 axis * factor))"

definition face_tangent :: "'a::field mesh_vertex list \<Rightarrow> nat \<Rightarrow> nat \<Rightarrow> nat \<Rightarrow> 'a vec3" where
  "face_tangent vs a b c = generateTangent (mv_pos (vs ! a)) (mv_pos (vs ! b)) (mv_pos (vs ! c))
     (mv_texCoord (vs ! a)) (mv_texCoord (vs ! b)) (mv_texCoord (vs ! c))"

text \<open>Without indices the triangles are the vertices in order.\<close>

definition generateTangents ::
  "('a vec3 \<Rightarrow> 'a vec3) \<Rightarrow> 'a::field mesh_vertex list \<Rightarrow> nat list \<Rightarrow> 'a mesh_vertex list run" where
  "generateTangents nrm vs indices =
     rbind (accumulate (face_tangent vs) (length vs) (if indices \<noteq> [] then indices else [0..<length vs])
              (replicate (length vs) zero3))
       (\<lambda>ts. ret (map2 (\<lambda>v t. v\<lparr>mv_tangent := nrm t\<rparr>) vs ts))"

section \<open>What the loop accumulates\<close>

text \<open>The vectors of the triangles at a vertex, once per corner, in the order of the loop.\<close>

fun corner_faces :: "(nat \<Rightarrow> nat \<Rightarrow> nat \<Rightarrow> 'v) \<Rightarrow> nat list \<Rightarrow> nat \<Rightarrow> 'v list" where
  "corner_faces face (a # b # c # idx) v =
     replicate (count_list [a, b, c] v) (face a b c) @ corner_faces face idx v"
| "corner_faces face _ v = []"

lemma add_at_nth: "k < length vs \<Longrightarrow> j < length vs \<Longrightarrow> add_at k v vs ! j = (if j = k then vec_plus (vs ! j) v else vs ! j)"
  by (simp add: add_at_def)

lemma add_at_length [simp]: "length (add_at k v vs) = length vs"
  by (simp add: add_at_def)

lemma accumulate_spec:
  "length idx mod 3 = 0 \<Longrightarrow> \<forall>k \<in> set idx. k < n \<Longrightarrow> length vs = n \<Longrightarrow>
   \<exists>ws. accumulate face n idx vs = ret ws \<and> length ws = n \<and>
     (\<forall>v < n. ws ! v = foldl vec_plus (vs ! v) (corner_faces face idx v))"
proof (induction face n idx vs rule: accumulate.induct)
  case (2 face n a b c idx vs)
  let ?f = "face a b c" and ?vs = "add_at c (face a b c) (add_at b (face a b c) (add_at a (face a b c) vs))"
  have n: "a < n" "b < n" "c < n" using 2(3) by simp_all
  then obtain ws where ws: "accumulate face n idx ?vs = ret ws" "length ws = n"
    "\<And>v. v < n \<Longrightarrow> ws ! v = foldl vec_plus (?vs ! v) (corner_faces face idx v)"
    using 2 by auto
  have "?vs ! v = foldl vec_plus (vs ! v) (replicate (count_list [a, b, c] v) ?f)" if "v < n" for v
    using that n 2(4) by (auto simp: add_at_nth)
  then show ?case using n ws by simp
qed simp_all

lemma accumulate_fails:
  "length vs = n \<Longrightarrow> length idx mod 3 \<noteq> 0 \<or> (\<exists>k \<in> set idx. \<not> k < n) \<Longrightarrow> accumulate face n idx vs = fail BadIndex"
proof (induction face n idx vs rule: accumulate.induct)
  case (2 face n a b c idx vs)
  then show ?case by (cases "a < n \<and> b < n \<and> c < n") auto
qed simp_all

text \<open>In the flat order every vertex belongs to one triangle, that of its group of three.\<close>

lemma corner_faces_flat:
  "corner_faces face [3 * s..<3 * (s + m)] v =
     (if s \<le> v div 3 \<and> v div 3 < s + m then [face (3 * (v div 3)) (3 * (v div 3) + 1) (3 * (v div 3) + 2)] else [])"
proof (induction m arbitrary: s)
  case (Suc m)
  have upt: "[3 * s..<3 * (s + Suc m)] = 3 * s # (3 * s + 1) # (3 * s + 2) # [3 * Suc s..<3 * (Suc s + m)]"
    using upt_conv_Cons[of "3 * s" "3 * (s + Suc m)"] upt_conv_Cons[of "3 * s + 1" "3 * (s + Suc m)"]
      upt_conv_Cons[of "3 * s + 2" "3 * (s + Suc m)"] by (simp add: numeral_3_eq_3)
  have here: "count_list [3 * s, 3 * s + 1, 3 * s + 2] v = (if v div 3 = s then 1 else 0)" by (simp, arith)
  show ?case unfolding upt corner_faces.simps Suc here by auto
qed simp

lemma flat_normals_spec:
  "length ps = 3 * m \<Longrightarrow> \<exists>ns. flat_normals ps = ret ns \<and> length ns = length ps \<and>
     (\<forall>v < length ps. ns ! v = face_normal ps (3 * (v div 3)) (3 * (v div 3) + 1) (3 * (v div 3) + 2))"
proof (induction m arbitrary: ps)
  case (Suc m)
  obtain a b c qs where "ps = a # b # c # qs" by (rule flat_normals.cases[of ps]) (use Suc.prems in simp_all)
  with Suc.prems have ps: "ps = a # b # c # qs" "length qs = 3 * m" by simp_all
  from Suc.IH[OF ps(2)] obtain ns where ns: "flat_normals qs = ret ns" "length ns = length qs"
    "\<And>v. v < length qs \<Longrightarrow> ns ! v = face_normal qs (3 * (v div 3)) (3 * (v div 3) + 1) (3 * (v div 3) + 2)" by auto
  let ?n = "cross (vec_minus b a) (vec_minus c a)"
  have "(?n # ?n # ?n # ns) ! v = face_normal ps (3 * (v div 3)) (3 * (v div 3) + 1) (3 * (v div 3) + 2)"
    if "v < length ps" for v
  proof (cases "v < 3")
    case True
    then consider "v = 0" | "v = 1" | "v = 2" by linarith
    then show ?thesis by cases (simp_all add: ps(1) face_normal_def numeral_2_eq_2)
  next
    case False
    then obtain w where w: "v = w + 3" by (metis add.commute le_Suc_ex not_less)
    have shift: "(x # y # z # us) ! (k + 3) = us ! k" for x y z :: "'a vec3" and us k
      by (simp add: numeral_3_eq_3)
    have "3 * (v div 3) = 3 * (w div 3) + 3" by (simp add: w)
    moreover have "k + 3 + 1 = (k + 1) + 3" "k + 3 + 2 = (k + 2) + 3" for k :: nat by simp_all
    moreover have "w < length qs" using that by (simp add: w ps(1))
    ultimately show ?thesis by (simp only: w shift ns(3) face_normal_def ps(1))
  qed
  then show ?case using ns by (simp add: ps Let_def)
qed simp

lemma flat_normals_fails: "length ps mod 3 \<noteq> 0 \<Longrightarrow> flat_normals ps = fail BadIndex"
  by (induction ps rule: flat_normals.induct) auto

section \<open>Normals\<close>

definition triangles_of :: "'a mesh_vertex list \<Rightarrow> nat list \<Rightarrow> nat list" where
  "triangles_of vs indices = (if indices = [] then [0..<length vs] else indices)"

lemma corner_faces_all:
  "v < 3 * m \<Longrightarrow> corner_faces face [0..<3 * m] v = [face (3 * (v div 3)) (3 * (v div 3) + 1) (3 * (v div 3) + 2)]"
  using corner_faces_flat[of face 0 m v] by auto

lemma normal_sums:
  assumes "length (triangles_of vs indices) mod 3 = 0" "\<forall>k \<in> set (triangles_of vs indices). k < length vs"
  shows "\<exists>ns. (if indices \<noteq> []
      then accumulate (face_normal (map mv_pos vs)) (length vs) indices (replicate (length vs) zero3)
      else flat_normals (map mv_pos vs)) = ret ns \<and> length ns = length vs \<and>
    (\<forall>v < length vs. ns ! v =
      foldl vec_plus zero3 (corner_faces (face_normal (map mv_pos vs)) (triangles_of vs indices) v))"
proof (cases "indices = []")
  case True
  with assms(1) obtain m where m: "length (map mv_pos vs) = 3 * m" by (auto simp: triangles_of_def)
  have "foldl vec_plus zero3 [x] = x" for x :: "'a vec3" by (cases x) (simp add: vec_plus_def zero3_def)
  then show ?thesis using flat_normals_spec[OF m] True m by (auto simp: triangles_of_def corner_faces_all)
next
  case False
  then show ?thesis
    using accumulate_spec[of indices "length vs" "replicate (length vs) zero3" "face_normal (map mv_pos vs)"] assms
    by (auto simp: triangles_of_def)
qed

text \<open>
  C26: The generated normals: on complete triangles with indices of existing vertices the call returns and
  gives every vertex the normalised sum of the normals of the triangles at its corners, and changes
  nothing else; without indices the triangles are the vertices in order. In every other case the call
  reads past the end of a vector.
\<close>

theorem generateNormals_sums:
  "if length (triangles_of vs indices) mod 3 = 0 \<and> (\<forall>k \<in> set (triangles_of vs indices). k < length vs)
   then \<exists>ws. generateNormals nrm vs indices = ret ws \<and> length ws = length vs \<and>
     (\<forall>v < length vs. ws ! v = (vs ! v)\<lparr>mv_normal :=
        nrm (foldl vec_plus zero3 (corner_faces (face_normal (map mv_pos vs)) (triangles_of vs indices) v))\<rparr>)
   else generateNormals nrm vs indices = fail BadIndex"
proof (cases "length (triangles_of vs indices) mod 3 = 0 \<and> (\<forall>k \<in> set (triangles_of vs indices). k < length vs)")
  case True
  then obtain ns where "(if indices \<noteq> []
      then accumulate (face_normal (map mv_pos vs)) (length vs) indices (replicate (length vs) zero3)
      else flat_normals (map mv_pos vs)) = ret ns" "length ns = length vs"
    "\<And>v. v < length vs \<Longrightarrow> ns ! v =
      foldl vec_plus zero3 (corner_faces (face_normal (map mv_pos vs)) (triangles_of vs indices) v)"
    using normal_sums[of vs indices] by metis
  with True show ?thesis by (simp only: generateNormals_def rbind_simps if_True) (simp add: set_normals_def)
next
  case False
  have "generateNormals nrm vs indices = fail BadIndex"
  proof (cases "indices = []")
    case True
    with False show ?thesis by (auto simp: generateNormals_def triangles_of_def flat_normals_fails)
  next
    case ne: False
    with False show ?thesis
      using accumulate_fails[of "replicate (length vs) zero3" "length vs" indices "face_normal (map mv_pos vs)"]
      by (auto simp: generateNormals_def triangles_of_def)
  qed
  with False show ?thesis by (simp only: if_False)
qed

lemma generateNormals_sums_witness:
  "(\<exists>ws. generateNormals (\<lambda>n. n) (mesh_vertices createQuad) [0, 1, 2, 2, 3, 0] = ret ws \<and>
     mv_normal (ws ! 0) = Vec3 0 0 (8::rat) \<and> mv_normal (ws ! 1) = Vec3 0 0 4) \<and>
   generateNormals (\<lambda>n. n) (mesh_vertices (createQuad :: rat mesh)) [0, 1, 4] = fail BadIndex"
proof -
  let ?vs = "mesh_vertices (createQuad :: rat mesh)"
  have n: "length ?vs = 4" by (simp add: createQuad_def)
  have f: "face_normal (map mv_pos ?vs) 0 1 2 = Vec3 0 0 4" "face_normal (map mv_pos ?vs) 2 3 0 = Vec3 0 0 4"
    by (simp_all add: createQuad_def quad_vertex_def face_normal_def cross_def vec_minus_def)
  have "triangles_of ?vs [0, 1, 2, 2, 3, 0] = [0, 1, 2, 2, 3, 0]" "triangles_of ?vs [0, 1, 4] = [0, 1, 4]"
    by (simp_all add: triangles_of_def)
  then show ?thesis
    using generateNormals_sums[of ?vs "[0, 1, 2, 2, 3, 0]" "\<lambda>n. n"] generateNormals_sums[of ?vs "[0, 1, 4]" "\<lambda>n. n"]
    by (auto simp: n f f(1)[unfolded One_nat_def] zero3_def vec_plus_def)
qed

text \<open>
  The cube: generating its normals anew from its triangles gives the normals it was created with, for
  every normalisation that maps a multiple of an axis to its direction. So all its triangles face outwards.
\<close>

theorem cube_normals_regenerate:
  fixes nrm :: "'a::linordered_idom vec3 \<Rightarrow> 'a vec3"
  assumes "\<And>k. 0 < k \<Longrightarrow> nrm (Vec3 k 0 0) = Vec3 1 0 0 \<and> nrm (Vec3 0 k 0) = Vec3 0 1 0 \<and> nrm (Vec3 0 0 k) = Vec3 0 0 1"
    and "\<And>k. k < 0 \<Longrightarrow> nrm (Vec3 k 0 0) = Vec3 (- 1) 0 0 \<and> nrm (Vec3 0 k 0) = Vec3 0 (- 1) 0 \<and> nrm (Vec3 0 0 k) = Vec3 0 0 (- 1)"
  shows "generateNormals nrm (mesh_vertices createCube) (mesh_indices createCube) = ret (mesh_vertices createCube)"
proof -
  have [simp]: "nrm (Vec3 k 0 0) = (if 0 < k then Vec3 1 0 0 else Vec3 (- 1) 0 0)" 
    "nrm (Vec3 0 k 0) = (if 0 < k then Vec3 0 1 0 else Vec3 0 (- 1) 0)"
    "nrm (Vec3 0 0 k) = (if 0 < k then Vec3 0 0 1 else Vec3 0 0 (- 1))" if "k \<noteq> 0" for k
    using assms that by (cases "0 < k"; simp)+
  show ?thesis
    by (simp add: generateNormals_def createCube_def cube_indices_def cube_corners_def face_normal_def cross_def
      vec_minus_def vec_plus_def zero3_def set_normals_def add_at_def face_uv_def upt_rec nth_Cons')
qed



section \<open>The triangles of the sphere\<close>

lemma sphere_vertex_count_eq: "sphere_vertex_count xs ys = (xs + 1) * (ys + 1)"
  by (simp add: sphere_vertex_count_def length_concat o_def sum_list_triv)

lemma sphere_cell_in_range:
  assumes "i < ys" "j < xs" "(xs + 1) * (ys + 1) \<le> 2 ^ 32"
  shows "\<forall>k \<in> set (sphere_cell xs ys i j). k < (xs + 1) * (ys + 1)"
    and "length (sphere_cell xs ys i j) = (if i \<noteq> 0 then 3 else 0) + (if i + 1 \<noteq> ys then 3 else 0)"
proof -
  have "(i + 2) * (xs + 1) \<le> (ys + 1) * (xs + 1)" using assms(1) by (intro mult_le_mono1) simp
  then have top: "i * (xs + 1) + xs + 1 + j + 1 < (xs + 1) * (ys + 1)" using assms(2) by (simp add: algebra_simps)
  then show "\<forall>k \<in> set (sphere_cell xs ys i j). k < (xs + 1) * (ys + 1)"
    using assms(3) by (auto simp: sphere_cell_def Let_def mod_Suc)
  show "length (sphere_cell xs ys i j) = (if i \<noteq> 0 then 3 else 0) + (if i + 1 \<noteq> ys then 3 else 0)"
    by (simp add: sphere_cell_def Let_def)
qed

lemma sum_but_one: "(\<Sum>i\<leftarrow>[0..<n]. if i \<noteq> a then c else 0 :: nat) = c * (if a < n then n - 1 else n)"
proof (induction n)
  case (Suc n)
  then show ?case by (cases n) (auto simp: less_Suc_eq)
qed simp

lemma sphere_row_sum:
  "(\<Sum>i\<leftarrow>[0..<Suc m]. (xs::nat) * ((if i \<noteq> 0 then 3 else 0) + (if i \<noteq> m then 3 else 0))) = 6 * xs * m"
  unfolding sum_list_const_mult sum_list_addf sum_but_one by simp

text \<open>
  The sphere has two triangles for each cell between the stacks but one for those at the poles, and all
  its indices belong to its vertices as long as their number fits into 32 bits. So the normals can be generated.
\<close>

theorem sphere_indices_valid:
  assumes "(xs + 1) * (ys + 1) \<le> 2 ^ 32" "length vs = sphere_vertex_count xs ys"
  shows "length (sphere_indices xs ys) = 6 * xs * (ys - 1) \<and>
    (\<forall>k \<in> set (sphere_indices xs ys). k < sphere_vertex_count xs ys) \<and>
    (1 \<le> xs \<longrightarrow> 2 \<le> ys \<longrightarrow> (\<exists>ws. generateNormals nrm vs (sphere_indices xs ys) = ret ws))"
proof -
  let ?n = "(xs + 1) * (ys + 1)"
  have range: "\<forall>k \<in> set (sphere_indices xs ys). k < ?n"
    unfolding sphere_indices_def using sphere_cell_in_range(1)[OF _ _ assms(1)] by fastforce
  have "length (sphere_indices xs ys) = (\<Sum>i\<leftarrow>[0..<ys]. \<Sum>j\<leftarrow>[0..<xs]. length (sphere_cell xs ys i j))"
    by (simp add: sphere_indices_def length_concat o_def)
  also have "\<dots> = (\<Sum>i\<leftarrow>[0..<ys]. \<Sum>j\<leftarrow>[0..<xs]. (if i \<noteq> 0 then 3 else 0) + (if i + 1 \<noteq> ys then 3 else 0))"
    using sphere_cell_in_range(2)[OF _ _ assms(1)]
    by (intro arg_cong[where f = sum_list] map_cong refl) auto
  also have "\<dots> = 6 * xs * (ys - 1)"
    by (cases ys) (simp_all only: sum_list_triv length_upt of_nat_id Suc_eq_plus1[symmetric] nat.inject sphere_row_sum, simp_all)
  finally have len: "length (sphere_indices xs ys) = 6 * xs * (ys - 1)" .
  have "\<exists>ws. generateNormals nrm vs (sphere_indices xs ys) = ret ws" if "1 \<le> xs" "2 \<le> ys"
  proof -
    have "sphere_indices xs ys \<noteq> []" using len that by auto
    then have "triangles_of vs (sphere_indices xs ys) = sphere_indices xs ys" by (simp add: triangles_of_def)
    moreover have "length (sphere_indices xs ys) mod 3 = 0" unfolding len
      using mod_mult_self1_is_0[of 3 "2 * xs * (ys - 1)"] by (simp add: ac_simps)
    ultimately show ?thesis using normal_sums[of vs "sphere_indices xs ys"] range assms(2)
      by (auto simp: generateNormals_def sphere_vertex_count_eq)
  qed
  with len range show ?thesis by (simp add: sphere_vertex_count_eq)
qed


section \<open>Tangents\<close>

lemma generateTangents_sums:
  assumes "length (triangles_of vs indices) mod 3 = 0" "\<forall>k \<in> set (triangles_of vs indices). k < length vs"
  shows "\<exists>ws. generateTangents nrm vs indices = ret ws \<and> length ws = length vs \<and>
    (\<forall>v < length vs. ws ! v = (vs ! v)\<lparr>mv_tangent :=
       nrm (foldl vec_plus zero3 (corner_faces (face_tangent vs) (triangles_of vs indices) v))\<rparr>)"
proof -
  have t: "(if indices \<noteq> [] then indices else [0..<length vs]) = triangles_of vs indices" by (simp add: triangles_of_def)
  obtain ts where "accumulate (face_tangent vs) (length vs) (triangles_of vs indices) (replicate (length vs) zero3) = ret ts"
    "length ts = length vs"
    "\<And>v. v < length vs \<Longrightarrow> ts ! v = foldl vec_plus zero3 (corner_faces (face_tangent vs) (triangles_of vs indices) v)"
    using accumulate_spec[OF assms, of "replicate (length vs) zero3" "face_tangent vs"] by auto
  then show ?thesis unfolding generateTangents_def t by simp
qed

text \<open>A surface on which the position is an affine function of the texture coordinates.\<close>

definition mapped_at :: "'a::comm_ring vec3 \<Rightarrow> 'a vec3 \<Rightarrow> 'a vec3 \<Rightarrow> 'a vec2 \<Rightarrow> 'a vec3" where
  "mapped_at p t b uv = Vec3 (x3 p + x2 uv * x3 t + y2 uv * x3 b) (y3 p + x2 uv * y3 t + y2 uv * y3 b)
     (z3 p + x2 uv * z3 t + y2 uv * z3 b)"

definition uv_area :: "'a::comm_ring vec2 \<Rightarrow> 'a vec2 \<Rightarrow> 'a vec2 \<Rightarrow> 'a" where
  "uv_area ta tb tc = (x2 tb - x2 ta) * (y2 tc - y2 ta) - (x2 tc - x2 ta) * (y2 tb - y2 ta)"

lemma scaled_back: "d \<noteq> 0 \<Longrightarrow> x = t * d \<Longrightarrow> x * (1 / d) = (t :: 'a::field)"
  by simp

lemma generateTangent_mapped:
  assumes "uv_area ta tb tc \<noteq> (0 :: 'a::field)"
  shows "generateTangent (mapped_at p t b ta) (mapped_at p t b tb) (mapped_at p t b tc) ta tb tc = t"
  using assms unfolding generateTangent_def mapped_at_def uv_area_def Let_def vec_minus_def vec3.sel
  by (cases t) (simp only: vec3.inject vec3.sel, intro conjI scaled_back, simp_all add: algebra_simps)

fun proper_triangles :: "'a::comm_ring mesh_vertex list \<Rightarrow> nat list \<Rightarrow> bool" where
  "proper_triangles vs (a # b # c # idx) \<longleftrightarrow>
     uv_area (mv_texCoord (vs ! a)) (mv_texCoord (vs ! b)) (mv_texCoord (vs ! c)) \<noteq> 0 \<and> proper_triangles vs idx"
| "proper_triangles vs _ \<longleftrightarrow> True"

lemma corner_faces_mapped:
  fixes vs :: "'a::field mesh_vertex list"
  shows "\<forall>v \<in> set vs. mv_pos v = mapped_at p t b (mv_texCoord v) \<Longrightarrow>
    length idx mod 3 = 0 \<Longrightarrow> \<forall>k \<in> set idx. k < length vs \<Longrightarrow> proper_triangles vs idx \<Longrightarrow>
    corner_faces (face_tangent vs) idx v = replicate (count_list idx v) t"
proof (induction vs idx rule: proper_triangles.induct)
  case (1 vs x y z idx)
  have "face_tangent vs x y z = t" using 1(2,4,5) by (simp add: face_tangent_def generateTangent_mapped)
  moreover have "corner_faces (face_tangent vs) idx v = replicate (count_list idx v) t" using 1 by simp
  moreover have "count_list (x # y # z # idx) v = count_list [x, y, z] v + count_list idx v" by simp
  ultimately show ?case by (simp only: corner_faces.simps replicate_add)
qed simp_all

lemma foldl_replicate_plus:
  "foldl vec_plus u (replicate n t) = vec_plus u (Vec3 (of_nat n * x3 t) (of_nat n * y3 t) (of_nat n * z3 t))"
  for t :: "'a::comm_ring_1 vec3"
  by (induction n arbitrary: u) (simp_all add: vec_plus_def algebra_simps vec3.expand)

text \<open>
  On a surface whose positions depend affinely on the texture coordinates, with no triangle degenerate in the
  texture, every vertex gets the direction in which the first texture coordinate grows, as many times
  as it is a corner, before it is normalised.
\<close>

theorem generateTangents_mapped:
  fixes vs :: "'a::field mesh_vertex list"
  assumes "\<forall>v \<in> set vs. mv_pos v = mapped_at p t b (mv_texCoord v)"
    and "length indices mod 3 = 0" "indices \<noteq> []" "\<forall>k \<in> set indices. k < length vs" "proper_triangles vs indices"
  shows "\<exists>ws. generateTangents nrm vs indices = ret ws \<and> length ws = length vs \<and>
    (\<forall>v < length vs. let n = of_nat (count_list indices v) in
       ws ! v = (vs ! v)\<lparr>mv_tangent := nrm (Vec3 (n * x3 t) (n * y3 t) (n * z3 t))\<rparr>)"
proof -
  have t: "triangles_of vs indices = indices" using assms(3) by (simp add: triangles_of_def)
  show ?thesis using generateTangents_sums[of vs indices nrm] assms(2,4)
    by (auto simp: t corner_faces_mapped[OF assms(1,2,4,5)] foldl_replicate_plus Let_def vec_plus_def zero3_def)
qed

end
