(* ===== verification/Entity_Search.thy ===== *)
theory Entity_Search
  imports Hierarchy_Forest Strings
begin

text \<open>
  The searches of \<^verbatim>\<open>Scene/Entity/Entity.cpp\<close> by name: \<^verbatim>\<open>getChildInChildren\<close>, depth first among all
  descendants, and \<^verbatim>\<open>findByPath\<close> along the names of a path. Reading the name of an entity without a name
  component is the fault \<^term>\<open>NullDeref\<close>; the null entity is \<open>None\<close>.
\<close>

section \<open>The searches\<close>

definition children_run :: "'a registry_scheme \<Rightarrow> entity \<Rightarrow> entity list run" where
  "children_run r e = map_option Inr (getChildren r e)"

definition getName :: "'a registry_scheme \<Rightarrow> entity \<Rightarrow> string run" where
  "getName r e = (case names r e of None \<Rightarrow> fail NullDeref | Some n \<Rightarrow> ret n)"

definition valid :: "'a registry_scheme \<Rightarrow> entity option \<Rightarrow> bool" where
  "valid r e = (case e of None \<Rightarrow> False | Some e \<Rightarrow> alive r e)"

text \<open>The loop over the children with the recursive call.\<close>

partial_function (option) search_children ::
  "'a registry_scheme \<Rightarrow> string \<Rightarrow> entity list \<Rightarrow> entity option run" where
  "search_children r name children =
     (case children of
        [] \<Rightarrow> ret None
      | entt # rest \<Rightarrow>
          rbind (getName r entt) (\<lambda>n.
          if name = n then ret (Some entt)
          else rbind (children_run r entt) (\<lambda>cs.
               rbind (search_children r name cs) (\<lambda>found.
               if valid r found then ret found else search_children r name rest))))"

definition getChildInChildren :: "'a registry_scheme \<Rightarrow> entity \<Rightarrow> string \<Rightarrow> entity option run" where
  "getChildInChildren r e name = rbind (children_run r e) (search_children r name)"

text \<open>The inner loop of \<^verbatim>\<open>findByPath\<close>: the first child with the name of the layer.\<close>

fun find_layer :: "'a registry_scheme \<Rightarrow> string \<Rightarrow> entity list \<Rightarrow> entity option run" where
  "find_layer r layer [] = ret None"
| "find_layer r layer (entt # rest) =
     rbind (getName r entt) (\<lambda>n. if layer = n then ret (Some entt) else find_layer r layer rest)"

fun path_loop ::
  "'a registry_scheme \<Rightarrow> entity \<Rightarrow> string list \<Rightarrow> entity option \<Rightarrow> entity list \<Rightarrow> entity option run" where
  "path_loop r this [] ent children = ret ent"
| "path_loop r this (layer # layers) ent children =
     (if layer = ''..'' then path_loop r this layers (getParent r this) children
      else rbind (find_layer r layer children) (\<lambda>found.
           case found of
             None \<Rightarrow> path_loop r this layers ent children
           | Some entt \<Rightarrow> rbind (children_run r entt) (path_loop r this layers (Some entt))))"

definition findByPath :: "'a registry_scheme \<Rightarrow> entity \<Rightarrow> string \<Rightarrow> entity option run" where
  "findByPath r this path =
     (if path = '''' then ret None
      else case split path ''/'' of
             None \<Rightarrow> None
           | Some layers \<Rightarrow> rbind (children_run r this) (path_loop r this layers None))"

declare search_children.simps [code]

section \<open>Depth-first search\<close>

lemma children_run_ok: "hier_ok r ch \<Longrightarrow> children_run r e = ret (ch e)"
  by (simp add: children_run_def getChildren_forest ret_def)

text \<open>\<open>finds r name D res\<close>: the answer \<open>res\<close> to a search in the set \<open>D\<close>.\<close>

definition finds :: "'a registry_scheme \<Rightarrow> string \<Rightarrow> entity set \<Rightarrow> entity option \<Rightarrow> bool" where
  "finds r name D res = (case res of
     Some x \<Rightarrow> x \<in> D \<and> names r x = Some name | None \<Rightarrow> \<forall>x \<in> D. names r x \<noteq> Some name)"

definition descendants :: "'a registry_scheme \<Rightarrow> entity \<Rightarrow> entity set" where
  "descendants r e = {x. (x, e) \<in> (parents (hier r))\<^sup>+}"

lemma descendants_children:
  assumes "hier_ok r ch"
  shows "descendants r e = (\<Union>c \<in> set (ch e). insert c (descendants r c))"
proof -
  have f: "forest_links (hier r) ch" using assms by (simp add: hier_ok_def)
  have "(x, e) \<in> (parents (hier r))\<^sup>+ \<longleftrightarrow> (\<exists>c. (c, e) \<in> parents (hier r) \<and> (x = c \<or> (x, c) \<in> (parents (hier r))\<^sup>+))" for x
    by (auto elim: tranclE intro: trancl_into_trancl)
  then show ?thesis by (auto simp: descendants_def parents_children[OF f])
qed

lemma descendants_alive: "hier_ok r ch \<Longrightarrow> x \<in> descendants r e \<Longrightarrow> alive r x"
  using tranclD[of x e "parents (hier r)"] by (auto simp: descendants_def parents_simp hier_ok_def)

lemma search_children_finds:
  assumes ok: "hier_ok r ch"
    and IH: "\<And>c. c \<in> set cs \<Longrightarrow> \<forall>x \<in> descendants r c. names r x \<noteq> None \<Longrightarrow>
      \<exists>res. search_children r name (ch c) = ret res \<and> finds r name (descendants r c) res"
    and named: "\<forall>c \<in> set cs. names r c \<noteq> None \<and> (\<forall>x \<in> descendants r c. names r x \<noteq> None)"
  shows "\<exists>res. search_children r name cs = ret res \<and> finds r name (\<Union>c \<in> set cs. insert c (descendants r c)) res"
  using IH named
proof (induction cs)
  case Nil
  then show ?case by (subst search_children.simps) (simp add: finds_def)
next
  case (Cons c cs)
  obtain n where n: "names r c = Some n" using Cons.prems(2) by auto
  obtain sub where sub: "search_children r name (ch c) = ret sub" "finds r name (descendants r c) sub"
    using Cons.prems(1)[of c] Cons.prems(2) by auto
  obtain rest where rest: "search_children r name cs = ret rest"
    "finds r name (\<Union>c \<in> set cs. insert c (descendants r c)) rest" using Cons by auto
  have v: "valid r sub \<longleftrightarrow> sub \<noteq> None"
    using sub(2) descendants_alive[OF ok] by (auto simp: valid_def finds_def split: option.splits)
  have "search_children r name (c # cs) =
    (if name = n then ret (Some c) else if sub \<noteq> None then ret sub else ret rest)"
    by (subst search_children.simps) (simp add: getName_def n children_run_ok[OF ok] sub(1) v rest(1))
  moreover have "finds r name (\<Union>c \<in> set (c # cs). insert c (descendants r c))
    (if name = n then Some c else if sub \<noteq> None then sub else rest)"
    using n sub(2) rest(2) by (auto simp: finds_def split: option.splits)
  ultimately show ?case by auto
qed

text \<open>
  The search among all descendants ends and is right: it returns a descendant with the name, and
  the null entity exactly when there is none, if all descendants have names.
\<close>

theorem getChildInChildren_finds:
  assumes "hier_ok r ch" "\<forall>x. (x, e) \<in> (parents (hier r))\<^sup>+ \<longrightarrow> names r x \<noteq> None"
  shows "\<exists>res. getChildInChildren r e name = ret res \<and>
    (\<forall>x. res = Some x \<longrightarrow> (x, e) \<in> (parents (hier r))\<^sup>+ \<and> names r x = Some name) \<and>
    (res = None \<longleftrightarrow> (\<forall>x. (x, e) \<in> (parents (hier r))\<^sup>+ \<longrightarrow> names r x \<noteq> Some name))"
proof -
  have "\<forall>x \<in> descendants r e. names r x \<noteq> None \<Longrightarrow>
    \<exists>res. search_children r name (ch e) = ret res \<and> finds r name (descendants r e) res" for e
  proof (induction e rule: wf_induct_rule[OF hier_wf(2)[OF assms(1)]])
    case (1 e)
    have f: "forest_links (hier r) ch" using assms(1) by (simp add: hier_ok_def)
    show ?case unfolding descendants_children[OF assms(1), of e]
    proof (rule search_children_finds[OF assms(1)])
      show "\<forall>c\<in>set (ch e). names r c \<noteq> None \<and> (\<forall>x\<in>descendants r c. names r x \<noteq> None)"
        using 1(2) descendants_children[OF assms(1), of e] by auto
    qed (use 1(1) in \<open>auto simp: parents_children[OF f]\<close>)
  qed
  then obtain res where "getChildInChildren r e name = ret res" "finds r name (descendants r e) res"
    using assms(2) by (auto simp: getChildInChildren_def children_run_ok[OF assms(1)] descendants_def)
  then show ?thesis by (auto simp: finds_def descendants_def split: option.splits)
qed

text \<open>Entities 2, 3 and 4 of the family get names.\<close>

definition named_family :: registry where
  "named_family = family\<lparr>names := [2 \<mapsto> ''arm'', 3 \<mapsto> ''hand'', 4 \<mapsto> ''leg'']\<rparr>"

lemma named_family_ok: "hier_ok named_family ((\<lambda>_. [])(1 := [2, 4], 2 := [3]))"
  using family_ok by (simp add: named_family_def hier_ok_def)

lemma named_family_parents: "parents (hier named_family) = {(2, 1), (3, 2), (4, 1)}"
  by (auto simp: parents_def named_family_def family_def split: if_splits)

theorem getChildInChildren_finds_witness:
  "\<exists>x. getChildInChildren named_family 1 ''hand'' = ret (Some x) \<and> names named_family x = Some ''hand''"
proof -
  have "x \<in> {2, 3, 4}" if "(x, 1) \<in> (parents (hier named_family))\<^sup>+" for x
    using tranclD[OF that] by (auto simp: named_family_parents)
  then have "\<forall>x. (x, 1) \<in> (parents (hier named_family))\<^sup>+ \<longrightarrow> names named_family x \<noteq> None"
    by (fastforce simp: named_family_def)
  from getChildInChildren_finds[OF named_family_ok this, of "''hand''"] obtain res where
    res: "getChildInChildren named_family 1 ''hand'' = ret res"
      "\<And>x. res = Some x \<Longrightarrow> names named_family x = Some ''hand''"
      "res = None \<Longrightarrow> \<forall>x. (x, 1) \<in> (parents (hier named_family))\<^sup>+ \<longrightarrow> names named_family x \<noteq> Some ''hand''" by blast
  have "(3, 1) \<in> (parents (hier named_family))\<^sup>+" unfolding named_family_parents by (rule trancl_trans[of _ 2]) auto
  moreover have "names named_family 3 = Some ''hand''" by (simp add: named_family_def)
  ultimately have "res \<noteq> None" using res(3) by blast
  then show ?thesis using res(1,2) by auto
qed

section \<open>Paths\<close>

text \<open>The entity a path of names leads to: at each layer the first child with the name.\<close>

fun walk :: "'a registry_scheme \<Rightarrow> (entity \<Rightarrow> entity list) \<Rightarrow> entity \<Rightarrow> string list \<Rightarrow> entity option" where
  "walk r ch e [] = Some e"
| "walk r ch e (n # ns) =
     (case find (\<lambda>c. names r c = Some n) (ch e) of None \<Rightarrow> None | Some c \<Rightarrow> walk r ch c ns)"

lemma find_layer_find:
  "\<forall>c \<in> set cs. names r c \<noteq> None \<Longrightarrow> find_layer r n cs = ret (find (\<lambda>c. names r c = Some n) cs)"
  by (induction cs) (auto simp: getName_def)

lemma path_loop_walk:
  assumes "hier_ok r ch" "\<forall>e. \<forall>c \<in> set (ch e). names r c \<noteq> None"
  shows "''..'' \<notin> set ns \<Longrightarrow> walk r ch e ns = Some x \<Longrightarrow> ns \<noteq> [] \<or> ent = Some e \<Longrightarrow>
    path_loop r this ns ent (ch e) = ret (Some x)"
proof (induction ns arbitrary: e ent)
  case (Cons n ns)
  from Cons.prems(2) obtain c where c: "find (\<lambda>c. names r c = Some n) (ch e) = Some c" "walk r ch c ns = Some x"
    by (auto split: option.splits)
  then show ?case using Cons.IH[of c "Some c"] Cons.prems(1) assms(2)
    by (auto simp: find_layer_find children_run_ok[OF assms(1)])
qed simp

lemma path_loop_missing:
  assumes "\<forall>c \<in> set cs. names r c \<noteq> None" "\<forall>c \<in> set cs. names r c \<noteq> Some n" "n \<noteq> ''..''"
  shows "path_loop r this (n # ns) ent cs = path_loop r this ns ent cs"
proof -
  have "find (\<lambda>c. names r c = Some n) cs = None" using assms(2) by (auto simp: find_None_iff)
  then show ?thesis using assms(1,3) by (simp add: find_layer_find)
qed

lemma path_loop_ends:
  assumes "hier_ok r ch" "\<forall>e. \<forall>c \<in> set (ch e). names r c \<noteq> None"
  shows "\<exists>res cs. path_loop r this ns ent (ch e) = ret res \<and>
    path_loop r this (ns @ [''..'']) ent (ch e) = ret (getParent r this)"
proof (induction ns arbitrary: e ent)
  case (Cons n ns)
  show ?case
  proof (cases "find (\<lambda>c. names r c = Some n) (ch e)")
    case None
    then show ?thesis using Cons[of _ e] assms(2) by (simp add: find_layer_find)
  next
    case (Some c)
    then show ?thesis using Cons[of "Some c" c] Cons[of "getParent r this" e] assms(2)
      by (simp add: find_layer_find children_run_ok[OF assms(1)])
  qed
qed simp

lemma findByPath_layers:
  assumes "hier_ok r ch" "ns \<noteq> []" "\<forall>n \<in> set ns. CHR ''/'' \<notin> set n" "ns \<noteq> [[]]"
  shows "findByPath r e (Strings.join ''/'' ns) = path_loop r e ns None (ch e)"
proof -
  have "Strings.join ''/'' ns \<noteq> []" using assms(2,4) by (cases "(''/'', ns)" rule: Strings.join.cases) auto
  then show ?thesis using split_join_single[OF assms(2,3)] by (simp add: findByPath_def children_run_ok[OF assms(1)])
qed

text \<open>Where a path has led to when the names that are not found and the dots are passed over.\<close>

definition reached :: "'a registry_scheme \<Rightarrow> (entity \<Rightarrow> entity list) \<Rightarrow> entity \<Rightarrow> string list \<Rightarrow> entity" where
  "reached r ch e ns = foldl (\<lambda>p n. case find (\<lambda>c. names r c = Some n) (ch p) of None \<Rightarrow> p | Some c \<Rightarrow> c) e (filter (\<lambda>n. n \<noteq> ''..'') ns)"

lemma path_loop_append:
  assumes "hier_ok r ch" "\<forall>e. \<forall>c \<in> set (ch e). names r c \<noteq> None"
  shows "\<exists>ent'. \<forall>vs. path_loop r this (us @ vs) ent (ch e) = path_loop r this vs ent' (ch (reached r ch e us))"
proof (induction us arbitrary: e ent)
  case Nil
  show ?case by (rule exI[of _ ent]) (simp add: reached_def)
next
  case (Cons n us)
  show ?case
  proof (cases "n = ''..''")
    case True
    then show ?thesis using Cons[of "getParent r this" e] by (simp add: reached_def)
  next
    case n: False
    show ?thesis
    proof (cases "find (\<lambda>c. names r c = Some n) (ch e)")
      case None
      then show ?thesis using Cons[of ent e] n assms(2) by (simp add: reached_def find_layer_find)
    next
      case (Some c)
      then show ?thesis using Cons[of "Some c" c] n assms(2)
        by (simp add: reached_def find_layer_find children_run_ok[OF assms(1)])
    qed
  qed
qed

text \<open>
  C27: Looking up a path of non-empty names from an entity, where all entities that are children have names. The call returns. Wherever the path has led to so
  far, if the remaining names lead from there from first child to first child with the name to an entity, that entity is found; but a name that no child
  has is passed over at any place of the path instead of failing, so that the path means what it means without it (and a path of one such name
  nothing); and a path that ends with two dots always leads to the parent of the entity it started from.
\<close>

theorem findByPath_spec:
  assumes "hier_ok r ch" "\<forall>e. \<forall>c \<in> set (ch e). names r c \<noteq> None"
    and "\<forall>n \<in> set us \<union> set vs. CHR ''/'' \<notin> set n \<and> n \<noteq> []" and "us @ vs \<noteq> []"
  shows "(\<exists>res. findByPath r e (Strings.join ''/'' (us @ vs)) = ret res) \<and>
    (vs \<noteq> [] \<longrightarrow> ''..'' \<notin> set vs \<longrightarrow> (\<forall>x. walk r ch (reached r ch e us) vs = Some x \<longrightarrow>
       findByPath r e (Strings.join ''/'' (us @ vs)) = ret (Some x))) \<and>
    (\<forall>m. CHR ''/'' \<notin> set m \<longrightarrow> m \<noteq> [] \<longrightarrow> m \<noteq> ''..'' \<longrightarrow> (\<forall>c \<in> set (ch (reached r ch e us)). names r c \<noteq> Some m) \<longrightarrow>
       findByPath r e (Strings.join ''/'' (us @ m # vs)) = findByPath r e (Strings.join ''/'' (us @ vs)) \<and>
       (us = [] \<longrightarrow> findByPath r e m = ret None)) \<and>
    findByPath r e (Strings.join ''/'' (us @ vs @ [''..''])) = ret (getParent r e)"
proof -
  have l: "findByPath r e (Strings.join ''/'' ns) = path_loop r e ns None (ch e)"
    if "ns \<noteq> []" "\<forall>n \<in> set ns. CHR ''/'' \<notin> set n \<and> n \<noteq> []" for ns
    using that by (intro findByPath_layers[OF assms(1)]) auto
  obtain ent where ent: "\<And>xs. path_loop r e (us @ xs) None (ch e) = path_loop r e xs ent (ch (reached r ch e us))"
    using path_loop_append[OF assms(1,2), of e us None e] by blast
  have path: "findByPath r e (Strings.join ''/'' (us @ vs)) = path_loop r e (us @ vs) None (ch e)"
    using assms(3,4) by (intro l) auto
  have dots: "findByPath r e (Strings.join ''/'' (us @ vs @ [''..''])) = path_loop r e ((us @ vs) @ [''..'']) None (ch e)"
    using assms(3) by (subst l) auto
  have over: "findByPath r e (Strings.join ''/'' (us @ m # vs)) = path_loop r e (us @ m # vs) None (ch e)"
    if "CHR ''/'' \<notin> set m" "m \<noteq> []" for m
    using assms(3) that by (intro l) auto
  have one: "findByPath r e m = ret None" if "CHR ''/'' \<notin> set m" "m \<noteq> []" "m \<noteq> ''..''" "\<forall>c \<in> set (ch e). names r c \<noteq> Some m" for m
    using l[of "[m]"] that path_loop_missing[of "ch e" r m e "[]" None] assms(2) by simp
  show ?thesis
  proof (intro conjI allI impI)
    show "\<exists>res. findByPath r e (Strings.join ''/'' (us @ vs)) = ret res"
      using path path_loop_ends[OF assms(1,2), of e "us @ vs" None e] by auto
    show "findByPath r e (Strings.join ''/'' (us @ vs)) = ret (Some x)"
      if "vs \<noteq> []" "''..'' \<notin> set vs" "walk r ch (reached r ch e us) vs = Some x" for x
      using path path_loop_walk[OF assms(1,2) that(2,3), of ent e] that(1) by (simp add: ent)
    show "findByPath r e (Strings.join ''/'' (us @ m # vs)) = findByPath r e (Strings.join ''/'' (us @ vs))"
      if "CHR ''/'' \<notin> set m" "m \<noteq> []" "m \<noteq> ''..''" "\<forall>c \<in> set (ch (reached r ch e us)). names r c \<noteq> Some m" for m
      using path over[OF that(1,2)] path_loop_missing[OF _ that(4,3)] assms(2) by (simp add: ent)
    show "findByPath r e m = ret None"
      if "CHR ''/'' \<notin> set m" "m \<noteq> []" "m \<noteq> ''..''" "\<forall>c \<in> set (ch (reached r ch e us)). names r c \<noteq> Some m" "us = []" for m
      using one[of m] that by (simp add: reached_def)
    show "findByPath r e (Strings.join ''/'' (us @ vs @ [''..''])) = ret (getParent r e)"
      using dots path_loop_ends[OF assms(1,2), of e "us @ vs" None e] by auto
  qed
qed

text \<open>A path through the family, one with a missing name in the middle, and one with dots.\<close>

theorem findByPath_spec_witness:
  "findByPath named_family 1 ''arm/hand'' = ret (Some 3) \<and> findByPath named_family 1 ''arm/head/hand'' = ret (Some 3) \<and>
   findByPath named_family 1 ''head'' = ret None \<and> findByPath named_family 2 ''hand/..'' = ret (Some 1)"
proof -
  let ?ch = "(\<lambda>_ :: nat. [])(1 := [2, 4], 2 := [3 :: nat])"
  have n: "\<forall>e. \<forall>c \<in> set (?ch e). names named_family c \<noteq> None" by (simp add: named_family_def)
  have w: "walk named_family ?ch 2 [''hand''] = Some 3" by (simp add: named_family_def)
  have at: "reached named_family ?ch 1 [''arm''] = 2" "reached named_family ?ch 1 [] = 1"
    by (simp_all add: reached_def named_family_def)
  have missing: "\<forall>c \<in> set (?ch 2). names named_family c \<noteq> Some ''head''" "\<forall>c \<in> set (?ch 1). names named_family c \<noteq> Some ''head''"
    by (simp_all add: named_family_def)
  have "getParent named_family 2 = Some 1" by (simp add: getParent_def named_family_def family_def)
  then have "findByPath named_family 2 ''hand/..'' = ret (Some 1)"
    using findByPath_spec[OF named_family_ok n, of "[]" "[''hand'']" 2] by simp
  moreover have p: "findByPath named_family 1 ''arm/hand'' = ret (Some 3)" "findByPath named_family 1 ''arm/head/hand'' = findByPath named_family 1 ''arm/hand''"
    using findByPath_spec[OF named_family_ok n, of "[''arm'']" "[''hand'']" 1, unfolded at] w missing(1)
    by (auto simp del: walk.simps fun_upd_apply dest!: spec[of _ "''head''"])
  moreover have "findByPath named_family 1 ''head'' = ret None"
    using findByPath_spec[OF named_family_ok n, of "[]" "[''hand'']" 1, unfolded at] missing(2)
    by (auto simp del: walk.simps fun_upd_apply dest!: spec[of _ "''head''"])
  ultimately show ?thesis by simp
qed

end
