(* ===== verification/Vulkan_Passes.thy ===== *)
theory Vulkan_Passes
  imports Vulkan_Choices
begin

text \<open>
  Render passes and framebuffers: \<^verbatim>\<open>Engine/Vulkan/VulkanRenderPass.cpp\<close>, \<^verbatim>\<open>VulkanFrameBuffer.cpp\<close> and the
  blend state of \<^verbatim>\<open>VulkanPipeline.cpp\<close>. A pass is described by its attachments; what the driver is told about each of
  them, the references of the only subpass and the values for clearing are lists in the order of the attachments.
\<close>

section \<open>Attachments\<close>

datatype texture_type = COLOR | DEPTH | DEPTHARRAY | CUBE | OTHER

record attachment_info =
  ai_type :: texture_type
  ai_format :: texture_format
  ai_srgb :: bool

datatype load_op = LOAD_OP_LOAD | LOAD_OP_CLEAR

datatype image_layout =
  UNDEFINED | COLOR_ATTACHMENT_OPTIMAL | DEPTH_STENCIL_ATTACHMENT_OPTIMAL
| DEPTH_STENCIL_READ_ONLY_OPTIMAL | SHADER_READ_ONLY_OPTIMAL

text \<open>The format \<open>None\<close> is the undefined one, the value zero.\<close>

record attachment_description =
  ad_format :: "vk_format option"
  ad_loadOp :: load_op
  ad_initialLayout :: image_layout
  ad_finalLayout :: image_layout

definition load_part :: "bool \<Rightarrow> texture_type \<Rightarrow> load_op \<times> image_layout" where
  "load_part clear t =
     (let (op, initial) = (if clear then (LOAD_OP_CLEAR, UNDEFINED) else (LOAD_OP_LOAD, SHADER_READ_ONLY_OPTIMAL))
      in (op, if t = CUBE then COLOR_ATTACHMENT_OPTIMAL else initial))"

definition describe :: "vk_format \<Rightarrow> image_layout \<Rightarrow> bool \<Rightarrow> texture_type \<Rightarrow> attachment_description" where
  "describe format final clear t =
     \<lparr>ad_format = Some format, ad_loadOp = fst (load_part clear t), ad_initialLayout = snd (load_part clear t),
      ad_finalLayout = final\<rparr>"

definition getAttachmentDescription :: "vk_device \<Rightarrow> attachment_info \<Rightarrow> bool \<Rightarrow> attachment_description run" where
  "getAttachmentDescription dev info clear =
     (case ai_type info of
        COLOR \<Rightarrow> ret (describe (textureFormatToVK (ai_format info) (ai_srgb info)) SHADER_READ_ONLY_OPTIMAL clear COLOR)
      | DEPTH \<Rightarrow> rbind (findDepthFormat dev) (\<lambda>f. ret (describe f DEPTH_STENCIL_READ_ONLY_OPTIMAL clear DEPTH))
      | DEPTHARRAY \<Rightarrow> rbind (findDepthFormat dev) (\<lambda>f. ret (describe f DEPTH_STENCIL_READ_ONLY_OPTIMAL clear DEPTHARRAY))
      | CUBE \<Rightarrow> ret (describe (textureFormatToVK (ai_format info) (ai_srgb info)) COLOR_ATTACHMENT_OPTIMAL clear CUBE)
      | OTHER \<Rightarrow> ret \<lparr>ad_format = None, ad_loadOp = LOAD_OP_LOAD, ad_initialLayout = UNDEFINED, ad_finalLayout = UNDEFINED\<rparr>)"

section \<open>The pass\<close>

text \<open>\<open>None\<close> is a clear value that was never written.\<close>

datatype 'c clear_value = ClearColor 'c | ClearDepth

record 'c render_pass =
  attachmentTypes :: "texture_type list"
  descriptions :: "attachment_description list"
  colourReferences :: "nat list"
  depthReferences :: "nat list"
  clearValue :: "'c clear_value option list"
  clearCount :: nat
  clearDepth :: bool
  depthOnly :: bool

definition new_pass :: "'c render_pass" where
  "new_pass = \<lparr>attachmentTypes = [], descriptions = [], colourReferences = [], depthReferences = [], clearValue = [],
     clearCount = 0, clearDepth = False, depthOnly = True\<rparr>"

text \<open>One round of the loop over the attachments; \<open>i\<close> is the number of the attachment.\<close>

definition add_attachment :: "vk_device \<Rightarrow> bool \<Rightarrow> nat \<times> attachment_info \<Rightarrow> 'c render_pass \<Rightarrow> 'c render_pass run" where
  "add_attachment dev clear x p = (case x of (i, info) \<Rightarrow>
     rbind (getAttachmentDescription dev info clear) (\<lambda>a.
     let p = p\<lparr>descriptions := descriptions p @ [a], attachmentTypes := attachmentTypes p @ [ai_type info]\<rparr>
     in ret (case ai_type info of
          COLOR \<Rightarrow> p\<lparr>colourReferences := colourReferences p @ [i], depthOnly := False\<rparr>
        | CUBE \<Rightarrow> p\<lparr>colourReferences := colourReferences p @ [i], depthOnly := False\<rparr>
        | DEPTH \<Rightarrow> p\<lparr>depthReferences := depthReferences p @ [i], clearDepth := clear\<rparr>
        | DEPTHARRAY \<Rightarrow> p\<lparr>depthReferences := depthReferences p @ [i], clearDepth := clear\<rparr>
        | OTHER \<Rightarrow> p)))"

definition init_pass :: "vk_device \<Rightarrow> attachment_info list \<Rightarrow> bool \<Rightarrow> 'c render_pass run" where
  "init_pass dev infos clear =
     rbind (rfold (add_attachment dev clear) (enumerate 0 infos) new_pass) (\<lambda>p.
     ret (p\<lparr>clearValue := replicate (length infos) None, clearCount := length infos\<rparr>))"

definition beginRenderPass :: "'c \<Rightarrow> 'c render_pass \<Rightarrow> 'c render_pass run" where
  "beginRenderPass clearColor p =
     (let p = (if depthOnly p then p else p\<lparr>clearValue := map (\<lambda>_. Some (ClearColor clearColor)) (clearValue p)\<rparr>)
      in if clearDepth p
         then (if clearCount p = 0 then fail BadIndex
               else ret (p\<lparr>clearValue := (clearValue p)[clearCount p - 1 := Some ClearDepth]\<rparr>))
         else ret p)"

section \<open>Blend state and framebuffer\<close>

datatype blend_factor = FACTOR_ZERO | FACTOR_ONE | FACTOR_SRC_ALPHA | FACTOR_ONE_MINUS_SRC_ALPHA

record blend_state =
  blendEnable :: bool
  srcColor :: blend_factor
  dstColor :: blend_factor
  srcAlpha :: blend_factor
  dstAlpha :: blend_factor

definition createColorBlend :: "bool \<Rightarrow> 'c render_pass \<Rightarrow> blend_state list" where
  "createColorBlend transparencyEnabled p =
     map (\<lambda>_. if transparencyEnabled
              then \<lparr>blendEnable = True, srcColor = FACTOR_SRC_ALPHA, dstColor = FACTOR_ONE_MINUS_SRC_ALPHA,
                    srcAlpha = FACTOR_ONE, dstAlpha = FACTOR_ONE\<rparr>
              else \<lparr>blendEnable = False, srcColor = FACTOR_ZERO, dstColor = FACTOR_ZERO,
                    srcAlpha = FACTOR_ZERO, dstAlpha = FACTOR_ZERO\<rparr>)
       (filter (\<lambda>t. t = COLOR) (attachmentTypes p))"

text \<open>The image views of a framebuffer; \<open>view t a\<close> is the view of the texture \<open>a\<close> taken as one of type \<open>t\<close>.\<close>

fun framebuffer_views :: "(texture_type \<Rightarrow> 'a \<Rightarrow> 'w) \<Rightarrow> texture_type list \<Rightarrow> 'a list \<Rightarrow> 'w list run" where
  "framebuffer_views view types [] = ret []"
| "framebuffer_views view [] (a # attachments) = fail BadIndex"
| "framebuffer_views view (t # types) (a # attachments) =
     rbind (framebuffer_views view types attachments) (\<lambda>vs. ret (if t = OTHER then vs else view t a # vs))"

section \<open>What a pass is made of\<close>

abbreviation is_depth :: "texture_type \<Rightarrow> bool" where
  "is_depth t \<equiv> t = DEPTH \<or> t = DEPTHARRAY"

abbreviation is_colour :: "texture_type \<Rightarrow> bool" where
  "is_colour t \<equiv> t = COLOR \<or> t = CUBE"

definition positions :: "(texture_type \<Rightarrow> bool) \<Rightarrow> nat \<Rightarrow> attachment_info list \<Rightarrow> nat list" where
  "positions P n infos = map fst (filter (\<lambda>x. P (ai_type (snd x))) (enumerate n infos))"

definition extended :: "bool \<Rightarrow> nat \<Rightarrow> attachment_info list \<Rightarrow> attachment_description list \<Rightarrow> 'c render_pass \<Rightarrow> 'c render_pass" where
  "extended clear n infos ds p = p\<lparr>descriptions := descriptions p @ ds, attachmentTypes := attachmentTypes p @ map ai_type infos,
     colourReferences := colourReferences p @ positions is_colour n infos,
     depthReferences := depthReferences p @ positions is_depth n infos,
     depthOnly := depthOnly p \<and> \<not> (\<exists>a \<in> set infos. is_colour (ai_type a)),
     clearDepth := (if \<exists>a \<in> set infos. is_depth (ai_type a) then clear else clearDepth p)\<rparr>"

lemma attachment_loop:
  "findDepthFormat dev = ret f \<Longrightarrow>
   \<exists>ds. rfold (add_attachment dev clear) (enumerate n infos) p = ret (extended clear n infos ds p) \<and>
     length ds = length infos \<and> (\<forall>i < length infos. getAttachmentDescription dev (infos ! i) clear = ret (ds ! i))"
proof (induction infos arbitrary: n p)
  case Nil
  then show ?case by (simp add: extended_def positions_def)
next
  case (Cons a infos)
  obtain d where d: "getAttachmentDescription dev a clear = ret d"
    using Cons.prems by (cases "ai_type a") (simp_all add: getAttachmentDescription_def)
  let ?q = "extended clear n [a] [d] p"
  have q: "add_attachment dev clear (n, a) p = ret ?q"
    using d by (cases "ai_type a") (simp_all add: add_attachment_def extended_def positions_def Let_def)
  obtain ds where ds: "rfold (add_attachment dev clear) (enumerate (Suc n) infos) ?q = ret (extended clear (Suc n) infos ds ?q)"
    "length ds = length infos" "\<forall>i < length infos. getAttachmentDescription dev (infos ! i) clear = ret (ds ! i)"
    using Cons.IH[OF Cons.prems, of "Suc n" ?q] by blast
  have "extended clear (Suc n) infos ds ?q = extended clear n (a # infos) (d # ds) p"
    by (auto simp: extended_def positions_def)
  moreover have "\<forall>i < length (a # infos). getAttachmentDescription dev ((a # infos) ! i) clear = ret ((d # ds) ! i)"
    using d ds(3) by (auto simp: less_Suc_eq_0_disj)
  ultimately show ?case using q ds(1,2) by (intro exI[of _ "d # ds"]) simp
qed

lemma init_pass_made:
  assumes "findDepthFormat dev = ret f"
  shows "\<exists>ds. init_pass dev infos clear =
      ret ((extended clear 0 infos ds (new_pass :: 'c render_pass))\<lparr>clearValue := replicate (length infos) None, clearCount := length infos\<rparr>) \<and>
    length ds = length infos \<and> (\<forall>i < length infos. getAttachmentDescription dev (infos ! i) clear = ret (ds ! i))"
proof -
  obtain ds where "rfold (add_attachment dev clear) (enumerate 0 infos) (new_pass :: 'c render_pass) = ret (extended clear 0 infos ds new_pass)"
    "length ds = length infos" "\<forall>i < length infos. getAttachmentDescription dev (infos ! i) clear = ret (ds ! i)"
    using attachment_loop[OF assms] by blast
  then show ?thesis by (intro exI[of _ ds]) (simp add: init_pass_def)
qed

section \<open>Clearing and blending\<close>

text \<open>The clear value an attachment needs.\<close>

fun wanted :: "'c \<Rightarrow> texture_type \<Rightarrow> 'c clear_value" where
  "wanted c t = (if is_depth t then ClearDepth else ClearColor c)"

lemma clear_list:
  fixes c :: 'c
  assumes "\<forall>a \<in> set infos. ai_type a \<noteq> OTHER"
    and "vs = (if \<exists>a \<in> set infos. is_colour (ai_type a) then replicate (length infos) (Some (ClearColor c))
      else replicate (length infos) None)"
    and "ws = (if \<exists>a \<in> set infos. is_depth (ai_type a) then vs[length infos - 1 := Some ClearDepth] else vs)"
  shows "ws = map (\<lambda>a. Some (wanted c (ai_type a))) infos \<longleftrightarrow>
    (\<forall>i < length infos. is_depth (ai_type (infos ! i)) \<longrightarrow> i = length infos - 1)" (is "?l \<longleftrightarrow> ?r")
proof -
  have len: "length ws = length infos" by (simp add: assms(2,3))
  have w: "ws ! i = (if (\<exists>a \<in> set infos. is_depth (ai_type a)) \<and> i = length infos - 1 then Some ClearDepth
      else if \<exists>a \<in> set infos. is_colour (ai_type a) then Some (ClearColor c) else None)" if "i < length infos" for i
    using that by (simp add: assms(2,3) nth_list_update)
  have kinds: "is_colour (ai_type (infos ! i)) \<or> is_depth (ai_type (infos ! i))" if "i < length infos" for i
    using assms(1) nth_mem[OF that] by (cases "ai_type (infos ! i)") auto
  show ?thesis
  proof
    assume l: ?l
    show ?r
    proof (intro allI impI)
      fix i assume i: "i < length infos" "is_depth (ai_type (infos ! i))"
      then have "ws ! i = Some ClearDepth" using l by auto
      then show "i = length infos - 1" using w[OF i(1)] by (auto split: if_splits)
    qed
  next
    assume r: ?r
    have "ws ! i = Some (wanted c (ai_type (infos ! i)))" if i: "i < length infos" for i
    proof (cases "is_depth (ai_type (infos ! i))")
      case True
      then show ?thesis using w[OF i] r i nth_mem[OF i] by auto
    next
      case False
      then have col: "\<exists>a \<in> set infos. is_colour (ai_type a)" using kinds[OF i] nth_mem[OF i] by auto
      have "i \<noteq> length infos - 1" if "\<exists>a \<in> set infos. is_depth (ai_type a)"
        using that r False by (metis in_set_conv_nth)
      then show ?thesis using w[OF i] col False by auto
    qed
    then show ?l using len by (intro nth_equalityI) simp_all
  qed
qed

lemma length_positions: "length (positions P n infos) = length (filter P (map ai_type infos))"
  by (induction infos arbitrary: n) (simp_all add: positions_def)

lemma blend_count:
  "length (filter (\<lambda>t. t = COLOR) ts) = length (filter (\<lambda>t. is_colour t) ts) \<longleftrightarrow> CUBE \<notin> set ts"
proof (induction ts)
  case (Cons t ts)
  have "length (filter (\<lambda>t. t = COLOR) ts) \<le> length (filter (\<lambda>t. is_colour t) ts)" by (induction ts) auto
  then show ?case using Cons by (cases t) auto
qed simp

text \<open>
  C28: A pass that clears, on a device with a depth format and with attachments of the four known types: it is made and begun without a fault.
  Every attachment gets the clear value of its kind exactly when no depth attachment stands before the last place: the
  value for depth is always written to the last place. The pipeline has a blend state for every colour attachment of the
  subpass, as Vulkan requires, exactly when none of them is a cube map.
\<close>

theorem clearing_pass:
  fixes c :: 'a
  assumes "findDepthFormat dev = ret f" "\<forall>a \<in> set infos. ai_type a \<noteq> OTHER"
  shows "\<exists>p q. init_pass dev infos True = ret p \<and> beginRenderPass c p = ret q \<and>
    colourReferences p = positions is_colour 0 infos \<and> depthReferences p = positions is_depth 0 infos \<and>
    (clearValue q = map (\<lambda>a. Some (wanted c (ai_type a))) infos \<longleftrightarrow>
      (\<forall>i < length infos. is_depth (ai_type (infos ! i)) \<longrightarrow> i = length infos - 1)) \<and>
    (length (createColorBlend transparent p) = length (colourReferences p) \<longleftrightarrow> CUBE \<notin> ai_type ` set infos)"
proof -
  obtain ds where p: "init_pass dev infos True = ret ((extended True 0 infos ds (new_pass :: 'a render_pass))
      \<lparr>clearValue := replicate (length infos) None, clearCount := length infos\<rparr>)" (is "_ = ret ?p")
    using init_pass_made[OF assms(1)] by blast
  let ?vs = "if \<exists>a \<in> set infos. is_colour (ai_type a) then replicate (length infos) (Some (ClearColor c))
      else replicate (length infos) None"
  let ?ws = "if \<exists>a \<in> set infos. is_depth (ai_type a) then ?vs[length infos - 1 := Some ClearDepth] else ?vs"
  have "\<exists>q. beginRenderPass c ?p = ret q \<and> clearValue q = ?ws"
    by (auto simp: beginRenderPass_def extended_def new_pass_def Let_def map_replicate_const)
  then obtain q where q: "beginRenderPass c ?p = ret q" "clearValue q = ?ws" by blast
  have "length (createColorBlend transparent ?p) = length (colourReferences ?p) \<longleftrightarrow> CUBE \<notin> ai_type ` set infos"
    using blend_count[of "map ai_type infos"]
    by (simp add: createColorBlend_def extended_def new_pass_def length_positions)
  then show ?thesis
    using p q clear_list[OF assms(2) refl refl, of c]
    by (intro exI[of _ ?p] exI[of _ q]) (simp add: extended_def new_pass_def)
qed

definition colour_and_depth :: "attachment_info list" where
  "colour_and_depth = [\<lparr>ai_type = COLOR, ai_format = TF_RGBA8, ai_srgb = False\<rparr>, \<lparr>ai_type = DEPTH, ai_format = TF_DEPTH, ai_srgb = False\<rparr>]"

definition depth_gpu :: vk_device where
  "depth_gpu = small_gpu\<lparr>optimalTilingFeatures := (\<lambda>_. DEPTH_STENCIL_ATTACHMENT_BIT)\<rparr>"

lemma depth_gpu_format: "findDepthFormat depth_gpu = ret D32_SFLOAT"
  by (simp add: findDepthFormat_def depth_gpu_def)

theorem clearing_pass_witness:
  "\<exists>p q. init_pass depth_gpu colour_and_depth True = ret p \<and> beginRenderPass (7::int) p = ret q \<and>
     clearValue q = [Some (ClearColor 7), Some ClearDepth]"
proof -
  have t: "map (\<lambda>a. Some (wanted (7::int) (ai_type a))) colour_and_depth = [Some (ClearColor 7), Some ClearDepth]"
    "\<forall>a \<in> set colour_and_depth. ai_type a \<noteq> OTHER"
    "\<forall>i < length colour_and_depth. is_depth (ai_type (colour_and_depth ! i)) \<longrightarrow> i = length colour_and_depth - 1"
    by (auto simp: colour_and_depth_def less_Suc_eq)
  show ?thesis using clearing_pass[OF depth_gpu_format t(2), of 7 True] t(1,3) by metis
qed

section \<open>Layouts over several passes\<close>

text \<open>
  An image used by one pass after another: Vulkan requires that the image is in the initial layout of the pass, unless that is the
  undefined one, and the pass leaves it in the final layout. \<open>clears\<close> says for each pass whether it clears.
\<close>

fun use_image :: "vk_device \<Rightarrow> attachment_info \<Rightarrow> bool list \<Rightarrow> image_layout \<Rightarrow> image_layout run" where
  "use_image dev a [] l = ret l"
| "use_image dev a (clear # clears) l =
     rbind (getAttachmentDescription dev a clear) (\<lambda>d.
     if ad_initialLayout d = UNDEFINED \<or> ad_initialLayout d = l then use_image dev a clears (ad_finalLayout d)
     else fail (ApiMisuse ''vkCmdBeginRenderPass''))"

lemma use_image_step:
  assumes "findDepthFormat dev = ret f" "ai_type a \<noteq> OTHER"
  shows "use_image dev a (clear # clears) l =
    (if clear \<and> ai_type a \<noteq> CUBE \<or> l = (if ai_type a = CUBE then COLOR_ATTACHMENT_OPTIMAL else SHADER_READ_ONLY_OPTIMAL)
     then use_image dev a clears (if ai_type a = COLOR then SHADER_READ_ONLY_OPTIMAL
       else if ai_type a = CUBE then COLOR_ATTACHMENT_OPTIMAL else DEPTH_STENCIL_READ_ONLY_OPTIMAL)
     else fail (ApiMisuse ''vkCmdBeginRenderPass''))"
  using assms by (cases "ai_type a"; cases clear)
    (auto simp: getAttachmentDescription_def describe_def load_part_def)

lemma use_image_settled:
  assumes "findDepthFormat dev = ret f" "ai_type a \<noteq> OTHER"
    and "l = (if ai_type a = COLOR then SHADER_READ_ONLY_OPTIMAL
       else if ai_type a = CUBE then COLOR_ATTACHMENT_OPTIMAL else DEPTH_STENCIL_READ_ONLY_OPTIMAL)"
  shows "use_image dev a clears l =
    (if is_depth (ai_type a) \<and> False \<in> set clears then fail (ApiMisuse ''vkCmdBeginRenderPass'') else ret l)"
proof (induction clears)
  case (Cons clear clears)
  have "ai_type a = COLOR \<or> ai_type a = CUBE \<or> is_depth (ai_type a)" using assms(2) by (cases "ai_type a") auto
  then show ?case unfolding use_image_step[OF assms(1,2)] using Cons assms(3) by auto
qed simp

text \<open>
  Passes on an image that starts in no particular layout: a colour image may be cleared by the first pass and loaded by all later ones.
  A depth image can only be cleared: a pass that loads it expects the layout of a texture to be sampled, which
  no pass leaves it in. A cube map has to be put into the layout for attachments beforehand, and then stays in it.
\<close>

theorem pass_layouts:
  assumes "findDepthFormat dev = ret f"
  shows "(ai_type a = COLOR \<longrightarrow> ((\<exists>l. use_image dev a (clear # clears) UNDEFINED = ret l) \<longleftrightarrow> clear)) \<and>
    (is_depth (ai_type a) \<longrightarrow> ((\<exists>l. use_image dev a (clear # clears) UNDEFINED = ret l) \<longleftrightarrow> clear \<and> False \<notin> set clears)) \<and>
    (ai_type a = CUBE \<longrightarrow> use_image dev a (clear # clears) UNDEFINED = fail (ApiMisuse ''vkCmdBeginRenderPass'') \<and>
      use_image dev a (clear # clears) COLOR_ATTACHMENT_OPTIMAL = ret COLOR_ATTACHMENT_OPTIMAL)"
proof (cases "ai_type a = OTHER")
  case False
  show ?thesis unfolding use_image_step[OF assms False]
    using use_image_settled[OF assms False, of _ clears] by auto
qed simp

theorem pass_layouts_witness:
  "(\<exists>l. use_image depth_gpu (colour_and_depth ! 0) [True, False, False] UNDEFINED = ret l) \<and>
   \<not> (\<exists>l. use_image depth_gpu (colour_and_depth ! 1) [True, False] UNDEFINED = ret l)"
proof -
  have t: "ai_type (colour_and_depth ! 0) = COLOR" "is_depth (ai_type (colour_and_depth ! 1))"
    by (simp_all add: colour_and_depth_def)
  show ?thesis using pass_layouts[OF depth_gpu_format, of "colour_and_depth ! 0" True "[False, False]"]
    pass_layouts[OF depth_gpu_format, of "colour_and_depth ! 1" True "[False]"] t by auto
qed

end
