(* ===== verification/Vulkan_Descriptors.thy ===== *)
theory Vulkan_Descriptors
  imports Shaders
begin

text \<open>
  Descriptors: the update of a descriptor set (\<^verbatim>\<open>Engine/Vulkan/VulkanDescriptorSet.cpp\<close>), the layouts a pipeline makes from
  the reflection of its shader (\<^verbatim>\<open>VulkanPipeline.cpp\<close>), the binding of sets (\<^verbatim>\<open>Engine/Renderer/Renderer.cpp\<close>) and the descriptors of a
  material (\<^verbatim>\<open>Engine/Material.cpp\<close>). The arrays of 16 entries that the writes point into are lists;
  the driver reads them when all writes have been collected.
\<close>

section \<open>Updating a set\<close>

definition MAX_BUFFER_INFOS :: nat where "MAX_BUFFER_INFOS = 16"
definition MAX_IMAGE_INFOS :: nat where "MAX_IMAGE_INFOS = 16"
definition MAX_WRITE_DESCTIPTORS :: nat where "MAX_WRITE_DESCTIPTORS = 16"

text \<open>A null texture is \<open>None\<close>.\<close>

record 't image_info =
  ii_textures :: "'t option list"
  ii_binding :: int

record 'b buffer_info =
  bi_buffer :: 'b
  bi_offset :: nat
  bi_size :: nat
  bi_binding :: int
  bi_type :: descriptor_type

text \<open>A write names the first entry of the pool it reads and how many; \<open>None\<close> in a pool is an entry never written.\<close>

datatype descriptor_write = ImageWrite int nat nat | BufferWrite descriptor_type int nat

record ('t, 'b) descriptor_set =
  imageInfoPool :: "'t option list"
  bufferInfoPool :: "('b \<times> nat \<times> nat) option list"
  writeDescriptorSetPool :: "descriptor_write list"
  dynamic :: bool

definition new_set :: "('t, 'b) descriptor_set" where
  "new_set = \<lparr>imageInfoPool = replicate MAX_IMAGE_INFOS None, bufferInfoPool = replicate MAX_BUFFER_INFOS None,
     writeDescriptorSetPool = [], dynamic = False\<rparr>"

text \<open>The loop over the textures of one entry: texture \<open>i\<close> goes to \<open>i + imageIndex\<close>; the result counts those that are not null.\<close>

fun put_textures :: "nat \<Rightarrow> nat \<Rightarrow> 't option list \<Rightarrow> 't option list \<Rightarrow> ('t option list \<times> nat) run" where
  "put_textures imageIndex i [] pool = ret (pool, 0)"
| "put_textures imageIndex i (None # ts) pool = put_textures imageIndex (Suc i) ts pool"
| "put_textures imageIndex i (Some t # ts) pool =
     (if i + imageIndex < length pool
      then rbind (put_textures imageIndex (Suc i) ts (pool[i + imageIndex := Some t])) (\<lambda>(pool, n). ret (pool, Suc n))
      else fail BadIndex)"

definition add_write :: "descriptor_write \<Rightarrow> ('t, 'b) descriptor_set \<Rightarrow> ('t, 'b) descriptor_set run" where
  "add_write w s = (if length (writeDescriptorSetPool s) < MAX_WRITE_DESCTIPTORS
     then ret (s\<lparr>writeDescriptorSetPool := writeDescriptorSetPool s @ [w]\<rparr>) else fail BadIndex)"

definition put_image :: "nat \<times> 't image_info \<Rightarrow> ('t, 'b) descriptor_set \<Rightarrow> ('t, 'b) descriptor_set run" where
  "put_image x s = (case x of (imageIndex, info) \<Rightarrow>
     rbind (put_textures imageIndex 0 (ii_textures info) (imageInfoPool s)) (\<lambda>(pool, descriptorCount).
     add_write (ImageWrite (ii_binding info) imageIndex descriptorCount) (s\<lparr>imageInfoPool := pool\<rparr>)))"

definition put_buffer :: "nat \<times> 'b buffer_info \<Rightarrow> ('t, 'b) descriptor_set \<Rightarrow> ('t, 'b) descriptor_set run" where
  "put_buffer x s = (case x of (index, info) \<Rightarrow>
     if index < length (bufferInfoPool s)
     then rbind (add_write (BufferWrite (bi_type info) (bi_binding info) index)
                  (s\<lparr>bufferInfoPool := (bufferInfoPool s)[index := Some (bi_buffer info, bi_offset info, bi_size info)]\<rparr>))
            (\<lambda>s. ret (if bi_type info = UNIFORM_BUFFER_DYNAMIC then s\<lparr>dynamic := True\<rparr> else s))
     else fail BadIndex)"

text \<open>What the driver reads for a write.\<close>

datatype ('t, 'b) descriptor = Images int "'t option list" | Buffer descriptor_type int "('b \<times> nat \<times> nat) option"

fun resolve :: "('t, 'b) descriptor_set \<Rightarrow> descriptor_write \<Rightarrow> ('t, 'b) descriptor" where
  "resolve s (ImageWrite b start n) = Images b (take n (drop start (imageInfoPool s)))"
| "resolve s (BufferWrite t b i) = Buffer t b (bufferInfoPool s ! i)"

definition updateInternal ::
  "'t image_info list \<Rightarrow> 'b buffer_info list \<Rightarrow> ('t, 'b) descriptor_set \<Rightarrow> (('t, 'b) descriptor_set \<times> ('t, 'b) descriptor list) run" where
  "updateInternal imageInfos bufferInfos s =
     rbind (rfold put_image (enumerate 0 imageInfos) (s\<lparr>dynamic := False, writeDescriptorSetPool := []\<rparr>)) (\<lambda>s.
     rbind (rfold put_buffer (enumerate 0 bufferInfos) s) (\<lambda>s.
     ret (s, map (resolve s) (writeDescriptorSetPool s))))"

section \<open>Layouts of a pipeline\<close>

fun group_layouts :: "layout_info list \<Rightarrow> layout_info list list \<Rightarrow> layout_info list list run" where
  "group_layouts [] layouts = ret layouts"
| "group_layouts (d # ds) layouts =
     (let layouts = (if length layouts < li_setId d + 1 then layouts @ [[]] else layouts)
      in if li_setId d < length layouts
         then group_layouts ds (layouts[li_setId d := layouts ! li_setId d @ [d]])
         else fail BadIndex)"

record set_binding =
  sb_type :: descriptor_type
  sb_stage :: vk_stage
  sb_binding :: nat
  sb_count :: nat

definition createPipelineLayout :: "layout_info list \<Rightarrow> set_binding list list run" where
  "createPipelineLayout infos =
     rbind (group_layouts infos []) (\<lambda>layouts.
     ret (map (map (\<lambda>i. \<lparr>sb_type = li_type i, sb_stage = shaderTypeToVK (li_stage i), sb_binding = li_binding i,
                         sb_count = li_count i\<rparr>)) layouts))"

section \<open>Binding sets\<close>

text \<open>
  The sets handed to the driver; one dynamic offset is passed by its address, so that the driver reads past it when more
  than one set is dynamic.
\<close>

definition bindDescriptorSets :: "('t, 'b) descriptor_set option list \<Rightarrow> ('t, 'b) descriptor_set list run" where
  "bindDescriptorSets sets =
     (let present = map the (filter (\<lambda>s. s \<noteq> None) sets)
      in if 16 < length present \<or> 1 < length (filter dynamic present) then fail BadIndex else ret present)"

section \<open>Materials\<close>

record 't textures =
  albedo :: "'t option"
  normal :: "'t option"
  metallic :: "'t option"
  roughness :: "'t option"
  ao :: "'t option"
  emissive :: "'t option"

text \<open>Whether each map is used, 1 or 0 in the source.\<close>

record using_maps =
  usingAlbedoMap :: bool
  usingMetallicMap :: bool
  usingRoughnessMap :: bool
  usingNormalMap :: bool
  usingAOMap :: bool
  usingEmissiveMap :: bool

definition getImageInfo :: "'t \<Rightarrow> 't option \<Rightarrow> int \<Rightarrow> 't image_info" where
  "getImageInfo fallback texture b = \<lparr>ii_textures = [Some (case texture of Some t \<Rightarrow> t | None \<Rightarrow> fallback)], ii_binding = b\<rparr>"

text \<open>The descriptors and the flags; \<open>buffer\<close> is the uniform buffer of the properties and \<open>size\<close> their size.\<close>

definition material_infos :: "'t \<Rightarrow> bool \<Rightarrow> 'b \<Rightarrow> nat \<Rightarrow> 't textures \<Rightarrow> 't image_info list \<times> 'b buffer_info list" where
  "material_infos fallback pbr buffer bytes t =
     (getImageInfo fallback (albedo t) 0 #
        (if pbr then [getImageInfo fallback (metallic t) 1, getImageInfo fallback (roughness t) 2, getImageInfo fallback (normal t) 3,
                      getImageInfo fallback (ao t) 4, getImageInfo fallback (emissive t) 5] else []),
      if pbr then [\<lparr>bi_buffer = buffer, bi_offset = 0, bi_size = bytes, bi_binding = 6, bi_type = UNIFORM_BUFFER\<rparr>] else [])"

definition material_flags :: "bool \<Rightarrow> 't textures \<Rightarrow> using_maps \<Rightarrow> using_maps" where
  "material_flags pbr t u =
     (let u = (if albedo t = None then u\<lparr>usingAlbedoMap := False\<rparr> else u)
      in if pbr then
           let u = (if metallic t = None then u\<lparr>usingMetallicMap := False\<rparr> else u);
               u = (if roughness t = None then u\<lparr>usingRoughnessMap := False\<rparr> else u);
               u = (if normal t = None then u\<lparr>usingNormalMap := False\<rparr> else u);
               u = (if ao t = None then u\<lparr>usingAOMap := False\<rparr> else u)
           in if emissive t = None then u\<lparr>usingAOMap := False\<rparr> else u
         else u)"

definition createDescriptorSet ::
  "'t \<Rightarrow> bool \<Rightarrow> 'b \<Rightarrow> nat \<Rightarrow> 't textures \<Rightarrow> using_maps \<times> ('t, 'b) descriptor_set \<Rightarrow>
   (using_maps \<times> ('t, 'b) descriptor_set \<times> ('t, 'b) descriptor list) run" where
  "createDescriptorSet fallback pbr buffer bytes t x = (case x of (u, s) \<Rightarrow>
     case material_infos fallback pbr buffer bytes t of (images, buffers) \<Rightarrow>
     rbind (updateInternal images buffers s) (\<lambda>(s, ds). ret (material_flags pbr t u, s, ds)))"

section \<open>What an update writes\<close>

text \<open>The textures of an entry that are not null; \<open>leading\<close> says that they come first.\<close>

definition tex :: "'t image_info \<Rightarrow> 't list" where
  "tex i = map the (filter (\<lambda>t. t \<noteq> None) (ii_textures i))"

definition leading :: "'t image_info \<Rightarrow> bool" where
  "leading i \<longleftrightarrow> (\<exists>m. ii_textures i = map Some (tex i) @ replicate m None)"

definition image_writes :: "nat \<Rightarrow> 't image_info list \<Rightarrow> descriptor_write list" where
  "image_writes n infos = map (\<lambda>(k, i). ImageWrite (ii_binding i) k (length (tex i))) (enumerate n infos)"

definition buffer_writes :: "nat \<Rightarrow> 'b buffer_info list \<Rightarrow> descriptor_write list" where
  "buffer_writes n infos = map (\<lambda>(k, i). BufferWrite (bi_type i) (bi_binding i) k) (enumerate n infos)"

definition buffer_entry :: "'b buffer_info \<Rightarrow> ('b \<times> nat \<times> nat) option" where
  "buffer_entry i = Some (bi_buffer i, bi_offset i, bi_size i)"

lemma image_writes_length [simp]: "length (image_writes n infos) = length infos"
  by (simp add: image_writes_def)

lemma put_nulls: "put_textures n i (replicate m None) pool = ret (pool, 0)"
  by (induction m arbitrary: i) simp_all

lemma overlay_step:
  "k < length pool \<Longrightarrow> take (Suc k) (pool[k := x]) = take k pool @ [x]"
  "drop (Suc k + m) (pool[k := x]) = drop (Suc k + m) pool"
  by (simp_all add: take_Suc_conv_app_nth)

lemma put_textures_leading:
  "i + n + length ts \<le> length pool \<Longrightarrow>
   put_textures n i (map Some ts @ replicate m None) pool =
     ret (take (i + n) pool @ map Some ts @ drop (i + n + length ts) pool, length ts)"
proof (induction ts arbitrary: i pool)
  case (Cons t ts)
  let ?q = "pool[i + n := Some t]"
  have "put_textures n (Suc i) (map Some ts @ replicate m None) ?q =
    ret (take (Suc (i + n)) ?q @ map Some ts @ drop (Suc (i + n) + length ts) ?q, length ts)"
    using Cons.IH[of "Suc i" ?q] Cons.prems by simp
  then show ?case using Cons.prems by (simp only: overlay_step) (simp add: overlay_step)
qed (simp add: put_nulls)

lemma image_loop:
  assumes "\<forall>i \<in> set infos. leading i" "\<forall>k < length infos. n + k + length (tex (infos ! k)) \<le> length (imageInfoPool s)"
    and "length (writeDescriptorSetPool s) + length infos \<le> 16"
  shows "\<exists>pool. rfold put_image (enumerate n infos) s =
      ret (s\<lparr>imageInfoPool := pool, writeDescriptorSetPool := writeDescriptorSetPool s @ image_writes n infos\<rparr>) \<and>
    length pool = length (imageInfoPool s) \<and> take n pool = take n (imageInfoPool s) \<and>
    (\<forall>k < length infos. tex (infos ! k) \<noteq> [] \<longrightarrow> pool ! (n + k) = Some (hd (tex (infos ! k)))) \<and>
    (infos \<noteq> [] \<longrightarrow> take (length (tex (last infos))) (drop (n + length infos - 1) pool) = map Some (tex (last infos)))"
  using assms
proof (induction infos arbitrary: n s)
  case Nil
  then show ?case by (intro exI[of _ "imageInfoPool s"]) (simp add: image_writes_def)
next
  case (Cons i infos)
  let ?ts = "tex i" and ?pool = "imageInfoPool s"
  have fits: "n + length ?ts \<le> length ?pool" using Cons.prems(2) by fastforce
  obtain m where m: "ii_textures i = map Some ?ts @ replicate m None" using Cons.prems(1) by (auto simp: leading_def)
  define p where "p = take n ?pool @ map Some ?ts @ drop (n + length ?ts) ?pool"
  define t where "t = s\<lparr>imageInfoPool := p, writeDescriptorSetPool := writeDescriptorSetPool s @ [ImageWrite (ii_binding i) n (length ?ts)]\<rparr>"
  have lp: "length p = length ?pool" using fits by (simp add: p_def)
  have step: "put_image (n, i) s = ret t"
    using put_textures_leading[of 0 n ?ts ?pool m] fits Cons.prems(3)
    by (simp add: put_image_def m add_write_def MAX_WRITE_DESCTIPTORS_def p_def t_def)
  have "Suc n + k + length (tex (infos ! k)) \<le> length p" if "k < length infos" for k
    using Cons.prems(2)[rule_format, of "Suc k"] that lp by simp
  then obtain q where q: "rfold put_image (enumerate (Suc n) infos) t =
      ret (t\<lparr>imageInfoPool := q, writeDescriptorSetPool := writeDescriptorSetPool t @ image_writes (Suc n) infos\<rparr>)"
    "length q = length p" "take (Suc n) q = take (Suc n) p"
    "\<And>k. k < length infos \<Longrightarrow> tex (infos ! k) \<noteq> [] \<Longrightarrow> q ! (Suc n + k) = Some (hd (tex (infos ! k)))"
    "infos \<noteq> [] \<Longrightarrow> take (length (tex (last infos))) (drop (Suc n + length infos - 1) q) = map Some (tex (last infos))"
    "infos = [] \<Longrightarrow> q = p"
    using Cons.IH[of "Suc n" t] Cons.prems(1,3) by (cases "infos = []") (auto simp: t_def image_writes_def)
  have low: "take n q = take n ?pool"
  proof -
    have "take n q = take n (take (Suc n) q)" by (simp add: min_def)
    also have "\<dots> = take n p" using q(3) by (simp add: min_def)
    finally show ?thesis using fits by (simp add: p_def)
  qed
  have here: "q ! n = Some (hd ?ts)" if "?ts \<noteq> []"
  proof -
    have "q ! n = take (Suc n) q ! n" by simp
    also have "\<dots> = p ! n" using q(3) by simp
    finally show ?thesis using that fits by (simp add: p_def nth_append hd_conv_nth)
  qed
  have all: "\<forall>k < length (i # infos). tex ((i # infos) ! k) \<noteq> [] \<longrightarrow> q ! (n + k) = Some (hd (tex ((i # infos) ! k)))"
    using here q(4) by (auto simp: less_Suc_eq_0_disj)
  have "take (length (tex (last (i # infos)))) (drop (n + length (i # infos) - 1) q) = map Some (tex (last (i # infos)))"
    using q(5,6) fits by (cases "infos = []") (simp_all add: p_def)
  with all low q(1,2) step lp show ?case by (intro exI[of _ q]) (simp add: t_def image_writes_def)
qed


lemma buffer_loop:
  assumes "n + length infos \<le> length (bufferInfoPool s)" "length (writeDescriptorSetPool s) + length infos \<le> 16"
  shows "rfold put_buffer (enumerate n infos) s = ret (s\<lparr>
    bufferInfoPool := take n (bufferInfoPool s) @ map buffer_entry infos @ drop (n + length infos) (bufferInfoPool s),
    writeDescriptorSetPool := writeDescriptorSetPool s @ buffer_writes n infos,
    dynamic := dynamic s \<or> (\<exists>i \<in> set infos. bi_type i = UNIFORM_BUFFER_DYNAMIC)\<rparr>)"
  using assms
proof (induction infos arbitrary: n s)
  case Nil
  then show ?case by (simp add: buffer_writes_def)
next
  case (Cons i infos)
  let ?pool = "bufferInfoPool s"
  define t where "t = s\<lparr>bufferInfoPool := ?pool[n := buffer_entry i],
    writeDescriptorSetPool := writeDescriptorSetPool s @ [BufferWrite (bi_type i) (bi_binding i) n],
    dynamic := dynamic s \<or> bi_type i = UNIFORM_BUFFER_DYNAMIC\<rparr>"
  have n: "n < length ?pool" using Cons.prems(1) by simp
  have step: "put_buffer (n, i) s = ret t"
    using n Cons.prems(2) by (simp add: put_buffer_def add_write_def MAX_WRITE_DESCTIPTORS_def t_def buffer_entry_def)
  have f: "take (Suc n) (?pool[n := buffer_entry i]) = take n ?pool @ [buffer_entry i]"
    "drop (Suc n + length infos) (?pool[n := buffer_entry i]) = drop (Suc n + length infos) ?pool"
    using n by (simp_all add: overlay_step)
  show ?case using Cons.IH[of "Suc n" t] Cons.prems step f
    by (simp add: t_def buffer_writes_def disj_assoc)
qed

text \<open>Nothing exceeds the pools.\<close>

definition fits :: "'t image_info list \<Rightarrow> 'b buffer_info list \<Rightarrow> ('t, 'b) descriptor_set \<Rightarrow> bool" where
  "fits images buffers s \<longleftrightarrow> length (imageInfoPool s) = 16 \<and> length (bufferInfoPool s) = 16 \<and>
     (\<forall>k < length images. k + length (tex (images ! k)) \<le> 16) \<and> length images + length buffers \<le> 16"

lemma updateInternal_reads:
  assumes "fits images buffers s" "\<forall>i \<in> set images. leading i"
  shows "\<exists>t pool. updateInternal images buffers s = ret (t,
      map (\<lambda>(k, i). Images (ii_binding i) (take (length (tex i)) (drop k pool))) (enumerate 0 images) @
      map (\<lambda>i. Buffer (bi_type i) (bi_binding i) (buffer_entry i)) buffers) \<and>
    dynamic t = (\<exists>i \<in> set buffers. bi_type i = UNIFORM_BUFFER_DYNAMIC) \<and> length pool = 16 \<and>
    length (imageInfoPool t) = 16 \<and> length (bufferInfoPool t) = 16 \<and>
    (\<forall>k < length images. tex (images ! k) \<noteq> [] \<longrightarrow> pool ! k = Some (hd (tex (images ! k)))) \<and>
    (images \<noteq> [] \<longrightarrow> take (length (tex (last images))) (drop (length images - 1) pool) = map Some (tex (last images)))"
proof -
  let ?s = "s\<lparr>dynamic := False, writeDescriptorSetPool := []\<rparr>"
  from assms image_loop[of images 0 ?s] obtain pool where pool: "rfold put_image (enumerate 0 images) ?s =
      ret (?s\<lparr>imageInfoPool := pool, writeDescriptorSetPool := image_writes 0 images\<rparr>)" "length pool = 16"
    "\<forall>k < length images. tex (images ! k) \<noteq> [] \<longrightarrow> pool ! k = Some (hd (tex (images ! k)))"
    "images \<noteq> [] \<longrightarrow> take (length (tex (last images))) (drop (length images - 1) pool) = map Some (tex (last images))"
    by (auto simp: fits_def)
  let ?t = "s\<lparr>imageInfoPool := pool, bufferInfoPool := map buffer_entry buffers @ drop (length buffers) (bufferInfoPool s),
    writeDescriptorSetPool := image_writes 0 images @ buffer_writes 0 buffers,
    dynamic := \<exists>i \<in> set buffers. bi_type i = UNIFORM_BUFFER_DYNAMIC\<rparr>"
  have u: "updateInternal images buffers s = ret (?t, map (resolve ?t) (writeDescriptorSetPool ?t))"
    using assms(1) pool(1) buffer_loop[of 0 buffers "?s\<lparr>imageInfoPool := pool, writeDescriptorSetPool := image_writes 0 images\<rparr>"]
    by (simp add: updateInternal_def fits_def)
  have "map (resolve ?t) (image_writes 0 images) =
    map (\<lambda>(k, i). Images (ii_binding i) (take (length (tex i)) (drop k pool))) (enumerate 0 images)"
    by (auto simp: image_writes_def)
  moreover have "map (resolve ?t) (buffer_writes 0 buffers) =
    map (\<lambda>i. Buffer (bi_type i) (bi_binding i) (buffer_entry i)) buffers"
    by (rule nth_equalityI) (simp_all add: buffer_writes_def nth_enumerate_eq nth_append)
  moreover have "length (map buffer_entry buffers @ drop (length buffers) (bufferInfoPool s)) = 16"
    using assms(1) by (simp add: fits_def)
  ultimately show ?thesis using u pool(2-) by (intro exI[of _ ?t] exI[of _ pool]) simp
qed


text \<open>What the driver reads from a pool when every entry but the last has one texture.\<close>

lemma single_descriptors:
  assumes len: "length images \<le> length pool"
    and first: "\<And>k. k < length images \<Longrightarrow> tex (images ! k) \<noteq> [] \<Longrightarrow> pool ! k = Some (hd (tex (images ! k)))"
    and final: "images \<noteq> [] \<Longrightarrow> take (length (tex (last images))) (drop (length images - 1) pool) = map Some (tex (last images))"
    and one: "\<forall>k < length images - 1. length (tex (images ! k)) = 1"
  shows "map (\<lambda>(k, i). Images (ii_binding i) (take (length (tex i)) (drop k pool))) (enumerate 0 images) =
    map (\<lambda>i. Images (ii_binding i) (map Some (tex i))) images"
proof (rule nth_equalityI)
  let ?ds = "map (\<lambda>(k, i). Images (ii_binding i) (take (length (tex i)) (drop k pool))) (enumerate 0 images)"
  fix k assume "k < length ?ds"
  then have k: "k < length images" by simp
  have "take (length (tex (images ! k))) (drop k pool) = map Some (tex (images ! k))"
  proof (cases "k = length images - 1")
    case True
    moreover have "images \<noteq> []" using k by auto
    ultimately show ?thesis using final by (simp add: last_conv_nth)
  next
    case False
    then have "length (tex (images ! k)) = 1" using one k by simp
    then obtain x where x: "tex (images ! k) = [x]" by (auto simp: length_Suc_conv)
    then have "take 1 (drop k pool) = [Some x]" using first[OF k] k len by (simp add: take_Suc hd_drop_conv_nth)
    then show ?thesis by (simp add: x)
  qed
  then show "?ds ! k = map (\<lambda>i. Images (ii_binding i) (map Some (tex i))) images ! k" using k by (simp add: nth_enumerate_eq)
qed simp

text \<open>
  C29: An update whose entries fit into the pools, each with its null textures at the end, returns. If every image entry but
  the last has one texture, each binding gets its textures that are not null; in every case each buffer binding gets its buffer, and the set is
  dynamic exactly when one of the buffers is. But when an entry with several textures is followed by another entry,
  its second descriptor is the first texture of that entry, because the place in the pool advances by one per entry.
\<close>

theorem update_descriptors:
  assumes "fits images buffers s" "\<forall>i \<in> set images. leading i"
  shows "\<exists>t ds. updateInternal images buffers s = ret (t, ds @ map (\<lambda>i. Buffer (bi_type i) (bi_binding i) (buffer_entry i)) buffers) \<and>
    length ds = length images \<and> dynamic t = (\<exists>i \<in> set buffers. bi_type i = UNIFORM_BUFFER_DYNAMIC) \<and>
    ((\<forall>k < length images - 1. length (tex (images ! k)) = 1) \<longrightarrow>
      ds = map (\<lambda>i. Images (ii_binding i) (map Some (tex i))) images) \<and>
    (\<forall>k < length images - 1. 2 \<le> length (tex (images ! k)) \<longrightarrow> tex (images ! Suc k) \<noteq> [] \<longrightarrow>
      (\<exists>xs. ds ! k = Images (ii_binding (images ! k)) xs \<and> xs ! 1 = Some (hd (tex (images ! Suc k)))))"
proof -
  obtain t pool where u: "updateInternal images buffers s = ret (t,
      map (\<lambda>(k, i). Images (ii_binding i) (take (length (tex i)) (drop k pool))) (enumerate 0 images) @
      map (\<lambda>i. Buffer (bi_type i) (bi_binding i) (buffer_entry i)) buffers)"
    "dynamic t = (\<exists>i \<in> set buffers. bi_type i = UNIFORM_BUFFER_DYNAMIC)" "length pool = 16"
    and first: "\<And>k. k < length images \<Longrightarrow> tex (images ! k) \<noteq> [] \<Longrightarrow> pool ! k = Some (hd (tex (images ! k)))"
    and final: "images \<noteq> [] \<Longrightarrow> take (length (tex (last images))) (drop (length images - 1) pool) = map Some (tex (last images))"
    using updateInternal_reads[OF assms] by blast
  let ?ds = "map (\<lambda>(k, i). Images (ii_binding i) (take (length (tex i)) (drop k pool))) (enumerate 0 images)"
  have nth: "?ds ! k = Images (ii_binding (images ! k)) (take (length (tex (images ! k))) (drop k pool))"
    if "k < length images" for k using that by (simp add: nth_enumerate_eq)
  have n16: "length images \<le> length pool" using assms(1) u(3) by (simp add: fits_def)
  have "?ds = map (\<lambda>i. Images (ii_binding i) (map Some (tex i))) images"
    if "\<forall>k < length images - 1. length (tex (images ! k)) = 1"
    using single_descriptors[OF n16 first final that] by simp
  moreover have "\<exists>xs. ?ds ! k = Images (ii_binding (images ! k)) xs \<and> xs ! 1 = Some (hd (tex (images ! Suc k)))"
    if "k < length images - 1" "2 \<le> length (tex (images ! k))" "tex (images ! Suc k) \<noteq> []" for k
  proof -
    have k: "k < length images" "Suc k < length images" using that(1) by simp_all
    have "take (length (tex (images ! k))) (drop k pool) ! 1 = pool ! Suc k" using that(2) k n16 by simp
    then show ?thesis using nth[OF k(1)] first[OF k(2) that(3)] by metis
  qed
  moreover have "length ?ds = length images" by simp
  ultimately show ?thesis using u(1,2) by blast
qed

definition texture_entry :: "'t list \<Rightarrow> int \<Rightarrow> 't image_info" where
  "texture_entry ts b = \<lparr>ii_textures = map Some ts, ii_binding = b\<rparr>"

lemma texture_entry_tex: "tex (texture_entry ts b) = ts" "leading (texture_entry ts b)" "ii_binding (texture_entry ts b) = b"
proof -
  show t: "tex (texture_entry ts b) = ts" by (induction ts) (simp_all add: tex_def texture_entry_def)
  show "leading (texture_entry ts b)" unfolding leading_def t by (rule exI[of _ 0]) (simp add: texture_entry_def)
qed (simp add: texture_entry_def)

theorem update_descriptors_witness:
  "(\<exists>t. updateInternal [texture_entry [10] 0, texture_entry [11, 12] 1] [] (new_set :: (nat, nat) descriptor_set) =
     ret (t, [Images 0 [Some 10], Images 1 [Some 11, Some 12]])) \<and>
   (\<exists>t ds xs. updateInternal [texture_entry [10, 11] 0, texture_entry [12] 1] [] (new_set :: (nat, nat) descriptor_set) =
     ret (t, ds) \<and> ds ! 0 = Images 0 xs \<and> xs ! 1 = Some 12)"
proof -
  have fit: "fits [texture_entry us 0, texture_entry vs 1] ([] :: nat buffer_info list) (new_set :: (nat, nat) descriptor_set)"
    if "length us \<le> 2" "length vs \<le> 2" for us vs :: "nat list"
    using that by (auto simp: fits_def new_set_def MAX_IMAGE_INFOS_def MAX_BUFFER_INFOS_def texture_entry_tex less_Suc_eq)
  have lead: "\<forall>i \<in> set [texture_entry us 0, texture_entry vs 1]. leading i" for us vs :: "nat list"
    by (simp add: texture_entry_tex)
  show ?thesis
    using update_descriptors[OF fit lead, of "[10]" "[11, 12]"] update_descriptors[OF fit lead, of "[10, 11]" "[12]"]
    by (auto simp: texture_entry_tex)
qed


section \<open>Layouts\<close>

text \<open>Every set number is at most the number of sets seen before.\<close>

fun sets_in_order :: "nat \<Rightarrow> layout_info list \<Rightarrow> bool" where
  "sets_in_order n [] \<longleftrightarrow> True"
| "sets_in_order n (d # ds) \<longleftrightarrow> li_setId d \<le> n \<and> sets_in_order (max n (Suc (li_setId d))) ds"

definition set_count :: "nat \<Rightarrow> layout_info list \<Rightarrow> nat" where
  "set_count n ds = fold (\<lambda>d n. max n (Suc (li_setId d))) ds n"

definition in_set :: "layout_info list \<Rightarrow> nat \<Rightarrow> layout_info list" where
  "in_set ds k = filter (\<lambda>d. li_setId d = k) ds"

lemma set_count_ge: "n \<le> set_count n ds"
  unfolding set_count_def by (induction ds arbitrary: n) (auto intro: order_trans[OF max.cobounded1])

lemma group_layouts_sets:
  "group_layouts ds ls = (if sets_in_order (length ls) ds
     then ret (map (\<lambda>k. (if k < length ls then ls ! k else []) @ in_set ds k) [0..<set_count (length ls) ds])
     else fail BadIndex)"
proof (induction ds arbitrary: ls)
  case Nil
  have "map (\<lambda>k. (if k < length ls then ls ! k else []) @ in_set [] k) [0..<length ls] = ls"
    by (rule nth_equalityI) (simp_all add: in_set_def)
  then show ?case by (simp add: set_count_def)
next
  case (Cons d ds)
  let ?n = "length ls" and ?k = "li_setId d"
  let ?ls = "if ?n < ?k + 1 then ls @ [[]] else ls"
  show ?case
  proof (cases "?k \<le> ?n")
    case True
    let ?us = "?ls[?k := ?ls ! ?k @ [d]]"
    have len: "length ?us = max ?n (Suc ?k)" using True by auto
    have "set_count ?n (d # ds) = set_count (length ?us) ds" unfolding len by (simp add: set_count_def)
    moreover have "(if j < length ?us then ?us ! j else []) @ in_set ds j =
      (if j < ?n then ls ! j else []) @ in_set (d # ds) j" for j
      using True by (auto simp: in_set_def nth_list_update nth_append)
    moreover have "group_layouts (d # ds) ls = group_layouts ds ?us" using True by (simp add: Let_def)
    moreover have "sets_in_order ?n (d # ds) = sets_in_order (length ?us) ds" unfolding len using True by simp
    ultimately show ?thesis unfolding Cons by simp
  next
    case False
    then show ?thesis by (simp add: Let_def)
  qed
qed

text \<open>
  The layouts of a pipeline: when the uniforms arrive with set numbers that never skip one, there is a layout for every set up to the
  highest, with the bindings of its uniforms in order, those of both stages together; so a uniform that both
  stages declare is bound twice. When a set number is skipped, the grouping writes past the end of the vector.
\<close>

theorem pipeline_layouts:
  "if sets_in_order 0 infos
   then \<exists>ls. createPipelineLayout infos = ret ls \<and> length ls = set_count 0 infos \<and>
     (\<forall>k < length ls. map sb_binding (ls ! k) = map li_binding (in_set infos k) \<and>
        map sb_type (ls ! k) = map li_type (in_set infos k)) \<and>
     (\<forall>d \<in> set infos. li_setId d < length ls)
   else createPipelineLayout infos = fail BadIndex"
proof (cases "sets_in_order 0 infos")
  case True
  have "li_setId d < set_count n infos" if "d \<in> set infos" for d n
    using that
  proof (induction infos arbitrary: n)
    case (Cons a as)
    then show ?case using set_count_ge[of "max n (Suc (li_setId a))" as] by (auto simp: set_count_def)
  qed simp
  then show ?thesis using True group_layouts_sets[of infos "[]"] by (simp add: createPipelineLayout_def o_def)
next
  case False
  then show ?thesis using group_layouts_sets[of infos "[]"] by (simp add: createPipelineLayout_def)
qed

definition uniform_at :: "nat \<Rightarrow> nat \<Rightarrow> uniform" where
  "uniform_at s b = \<lparr>uni_set = s, uni_binding = b, uni_array = []\<rparr>"

theorem pipeline_layouts_witness:
  "(\<exists>ls. createPipelineLayout (reflect_uniforms FRAGMENT_SHADER [uniform_at 0 0] [uniform_at 1 0]
      (reflect_uniforms VERTEX_SHADER [uniform_at 0 0] [] [])) = ret ls \<and> map sb_binding (ls ! 0) = [0, 0]) \<and>
   createPipelineLayout (reflect_uniforms VERTEX_SHADER [uniform_at 1 0] [] []) = fail BadIndex"
proof -
  let ?a = "reflect_uniforms FRAGMENT_SHADER [uniform_at 0 0] [uniform_at 1 0] (reflect_uniforms VERTEX_SHADER [uniform_at 0 0] [] [])"
  let ?b = "reflect_uniforms VERTEX_SHADER [uniform_at 1 0] [] []"
  have d: "sets_in_order 0 ?a" "set_count 0 ?a = 2" "map li_binding (in_set ?a 0) = [0, 0]" "\<not> sets_in_order 0 ?b"
    by (simp_all add: reflect_uniforms_def add_layout_def uniform_at_def set_count_def in_set_def)
  have "\<exists>ls. createPipelineLayout ?a = ret ls \<and> map sb_binding (ls ! 0) = [0, 0]"
    using pipeline_layouts[of ?a] d by fastforce
  then show ?thesis using pipeline_layouts[of ?b] d(4) by simp
qed


section \<open>Materials\<close>

text \<open>
  The descriptors of a material, on a set whose pools have their 16 places: every map is bound to its number, with the fallback where it has no
  texture, and the properties are bound to number 6. A flag is cleared when its map has no texture, but the absence of an
  emissive map clears the flag of ambient occlusion, and the flag of the emissive map is never cleared.
\<close>

theorem material_descriptors:
  assumes "length (imageInfoPool s) = 16" "length (bufferInfoPool s) = 16"
  shows "\<exists>u' s'. createDescriptorSet fallback True buf bytes t (u, s) = ret (u', s',
      map (\<lambda>(b, m). Images b [Some (case m of Some x \<Rightarrow> x | None \<Rightarrow> fallback)])
        [(0, albedo t), (1, metallic t), (2, roughness t), (3, normal t), (4, ao t), (5, emissive t)] @
      [Buffer UNIFORM_BUFFER 6 (Some (buf, 0, bytes))]) \<and>
    (usingAlbedoMap u' \<longleftrightarrow> usingAlbedoMap u \<and> albedo t \<noteq> None) \<and> (usingMetallicMap u' \<longleftrightarrow> usingMetallicMap u \<and> metallic t \<noteq> None) \<and>
    (usingRoughnessMap u' \<longleftrightarrow> usingRoughnessMap u \<and> roughness t \<noteq> None) \<and> (usingNormalMap u' \<longleftrightarrow> usingNormalMap u \<and> normal t \<noteq> None) \<and>
    (usingAOMap u' \<longleftrightarrow> usingAOMap u \<and> ao t \<noteq> None \<and> emissive t \<noteq> None) \<and> usingEmissiveMap u' = usingEmissiveMap u"
proof -
  let ?x = "\<lambda>m. case m of Some x \<Rightarrow> x | None \<Rightarrow> fallback"
  let ?i = "fst (material_infos fallback True buf bytes t)" and ?b = "snd (material_infos fallback True buf bytes t)"
  have i: "?i = map (\<lambda>(b, m). texture_entry [?x m] b)
      [(0, albedo t), (1, metallic t), (2, roughness t), (3, normal t), (4, ao t), (5, emissive t)]"
    by (simp add: material_infos_def getImageInfo_def texture_entry_def)
  have b: "?b = [\<lparr>bi_buffer = buf, bi_offset = 0, bi_size = bytes, bi_binding = 6, bi_type = UNIFORM_BUFFER\<rparr>]"
    by (simp add: material_infos_def)
  have one: "tex e = [hd (tex e)] \<and> leading e" if "e \<in> set ?i" for e
    using that unfolding i by (auto simp: texture_entry_tex)
  have n: "length ?i = 6" by (simp add: i)
  have len: "length (tex (?i ! k)) = 1" if "k < 6" for k using one[of "?i ! k"] nth_mem[of k ?i] that n
    by (metis length_Cons list.size(3) One_nat_def)
  have fit: "fits ?i ?b s" using assms n len by (simp add: fits_def b)
  obtain s' pool where u: "updateInternal ?i ?b s = ret (s',
      map (\<lambda>(k, i). Images (ii_binding i) (take (length (tex i)) (drop k pool))) (enumerate 0 ?i) @
      map (\<lambda>i. Buffer (bi_type i) (bi_binding i) (buffer_entry i)) ?b)" "length pool = 16"
    "\<And>k. k < length ?i \<Longrightarrow> tex (?i ! k) \<noteq> [] \<Longrightarrow> pool ! k = Some (hd (tex (?i ! k)))"
    "?i \<noteq> [] \<Longrightarrow> take (length (tex (last ?i))) (drop (length ?i - 1) pool) = map Some (tex (last ?i))"
    using updateInternal_reads[OF fit] one by blast
  have "map (\<lambda>(k, i). Images (ii_binding i) (take (length (tex i)) (drop k pool))) (enumerate 0 ?i) =
    map (\<lambda>i. Images (ii_binding i) (map Some (tex i))) ?i"
  proof (rule single_descriptors[OF _ u(3,4)])
    show "length ?i \<le> length pool" using n u(2) by simp
    show "\<forall>k < length ?i - 1. length (tex (?i ! k)) = 1" using len n by auto
  qed
  with u(1) have "updateInternal ?i ?b s = ret (s', map (\<lambda>i. Images (ii_binding i) (map Some (tex i))) ?i @
      map (\<lambda>i. Buffer (bi_type i) (bi_binding i) (buffer_entry i)) ?b)" by simp
  then have "createDescriptorSet fallback True buf bytes t (u, s) = ret (material_flags True t u, s',
      map (\<lambda>(b, m). Images b [Some (?x m)])
        [(0, albedo t), (1, metallic t), (2, roughness t), (3, normal t), (4, ao t), (5, emissive t)] @
      [Buffer UNIFORM_BUFFER 6 (Some (buf, 0, bytes))])"
    unfolding createDescriptorSet_def by (simp add: split_beta i b texture_entry_tex buffer_entry_def)
  then show ?thesis by (intro exI[of _ "material_flags True t u"] exI[of _ s']) (simp add: material_flags_def Let_def)
qed

theorem material_descriptors_witness:
  "\<exists>u' s' ds. createDescriptorSet (0::nat) True (9::nat) 96
      \<lparr>albedo = Some 1, normal = None, metallic = None, roughness = None, ao = Some 5, emissive = None\<rparr>
      (\<lparr>usingAlbedoMap = True, usingMetallicMap = True, usingRoughnessMap = True, usingNormalMap = True, usingAOMap = True,
        usingEmissiveMap = True\<rparr>, new_set) = ret (u', s', ds) \<and> ds ! 4 = Images 4 [Some 5] \<and> \<not> usingAOMap u' \<and> usingEmissiveMap u'"
proof -
  have p: "length (imageInfoPool (new_set :: (nat, nat) descriptor_set)) = 16" "length (bufferInfoPool (new_set :: (nat, nat) descriptor_set)) = 16"
    by (simp_all add: new_set_def MAX_IMAGE_INFOS_def MAX_BUFFER_INFOS_def)
  show ?thesis using material_descriptors[OF p, of 0 9 96
      "\<lparr>albedo = Some 1, normal = None, metallic = None, roughness = None, ao = Some 5, emissive = None\<rparr>"
      "\<lparr>usingAlbedoMap = True, usingMetallicMap = True, usingRoughnessMap = True, usingNormalMap = True, usingAOMap = True,
        usingEmissiveMap = True\<rparr>"] by auto
qed

section \<open>Binding\<close>

text \<open>
  Binding sets: the sets that are not null are bound in order under consecutive numbers, as long as there are at most 16 of
  them and at most one is dynamic. So a null set in the middle moves the later ones to other numbers than they were given.
\<close>

theorem bindDescriptorSets_numbers:
  "(\<exists>bound. bindDescriptorSets sets = ret bound) \<longleftrightarrow>
     length (filter (\<lambda>s. s \<noteq> None) sets) \<le> 16 \<and> length (filter (\<lambda>s. case s of None \<Rightarrow> False | Some s \<Rightarrow> dynamic s) sets) \<le> 1"
  and "bindDescriptorSets sets = ret bound \<Longrightarrow> (map Some bound = sets \<longleftrightarrow> None \<notin> set sets)"
proof -
  have dyn: "length (filter dynamic (map the (filter (\<lambda>s. s \<noteq> None) sets))) =
    length (filter (\<lambda>s. case s of None \<Rightarrow> False | Some s \<Rightarrow> dynamic s) sets)"
    by (induction sets) (auto split: option.splits)
  then show "(\<exists>bound. bindDescriptorSets sets = ret bound) \<longleftrightarrow>
     length (filter (\<lambda>s. s \<noteq> None) sets) \<le> 16 \<and> length (filter (\<lambda>s. case s of None \<Rightarrow> False | Some s \<Rightarrow> dynamic s) sets) \<le> 1"
    by (auto simp: bindDescriptorSets_def Let_def)
  have "map Some (map the (filter (\<lambda>s. s \<noteq> None) sets)) = filter (\<lambda>s. s \<noteq> None) sets"
    by (induction sets) auto
  moreover have "filter (\<lambda>s. s \<noteq> None) sets = sets \<longleftrightarrow> None \<notin> set sets" unfolding filter_id_conv by metis
  ultimately show "bindDescriptorSets sets = ret bound \<Longrightarrow> (map Some bound = sets \<longleftrightarrow> None \<notin> set sets)"
    by (auto simp: bindDescriptorSets_def Let_def split: if_splits)
qed

end
