(* ===== verification/Shadow_Cascades.thy ===== *)
theory Shadow_Cascades
  imports Maple_Prelude Geometry
begin

text \<open>
  The cascades of the shadow renderer, \<^verbatim>\<open>Engine/Renderer/ShadowRenderer.cpp\<close>: the split of the camera's frustum into slices, the
  sphere around each slice, the choice of the light and the command queues. Arithmetic is that of the real numbers, with
  \<open>powr\<close> for \<^verbatim>\<open>std::pow\<close>; the matrices of the light, made from the sphere by glm, are left out.
\<close>

section \<open>Splits\<close>

definition SHADOWMAP_MAX :: nat where "SHADOWMAP_MAX = 4"

definition split_depth_at :: "real \<Rightarrow> real \<Rightarrow> real \<Rightarrow> nat \<Rightarrow> real" where
  "split_depth_at nearClip farClip lambda i =
     (let clipRange = farClip - nearClip; minZ = nearClip; maxZ = nearClip + clipRange; range = maxZ - minZ;
          ratio = maxZ / minZ; p = (real i + 1) / real SHADOWMAP_MAX; log = minZ * ratio powr p; uniform = minZ + range * p
      in lambda * (log - uniform) + uniform)"

definition cascadeSplits :: "real \<Rightarrow> real \<Rightarrow> real \<Rightarrow> nat \<Rightarrow> real" where
  "cascadeSplits nearClip farClip lambda i =
     (split_depth_at nearClip farClip lambda i - nearClip) / (farClip - nearClip)"

section \<open>Slices\<close>

definition vec_add :: "real vec3 \<Rightarrow> real vec3 \<Rightarrow> real vec3" where
  "vec_add a b = Vec3 (x3 a + x3 b) (y3 a + y3 b) (z3 a + z3 b)"

definition vec_mul :: "real \<Rightarrow> real vec3 \<Rightarrow> real vec3" where
  "vec_mul k a = Vec3 (k * x3 a) (k * y3 a) (k * z3 a)"

definition vec_length :: "real vec3 \<Rightarrow> real" where
  "vec_length a = sqrt (vec_dot a a)"

text \<open>The corners of a frustum: four of the near plane, then four of the far plane, in the same order.\<close>

definition along :: "real vec3 list \<Rightarrow> nat \<Rightarrow> real \<Rightarrow> real vec3" where
  "along corners i t = vec_add (corners ! i) (vec_mul t (vec_minus (corners ! (i + 4)) (corners ! i)))"

definition slice_corners :: "real vec3 list \<Rightarrow> real \<Rightarrow> real \<Rightarrow> real vec3 list" where
  "slice_corners corners lastSplitDist splitDist =
     map (\<lambda>i. along corners i lastSplitDist) [0..<4] @ map (\<lambda>i. along corners i splitDist) [0..<4]"

definition center :: "real vec3 list \<Rightarrow> real vec3" where
  "center corners = vec_mul (1 / 8) (foldl vec_add (Vec3 0 0 0) corners)"

definition radius :: "real vec3 list \<Rightarrow> real" where
  "radius corners =
     real_of_int \<lceil>foldl (\<lambda>r c. max r (vec_length (vec_minus c (center corners)))) 0 corners * 16\<rceil> / 16"

record cascade =
  slice :: "real vec3 list"
  frustumCenter :: "real vec3"
  sphere :: real
  splitDepth :: real

definition make_cascade :: "real vec3 list \<Rightarrow> real \<Rightarrow> real \<Rightarrow> real \<Rightarrow> real \<Rightarrow> cascade" where
  "make_cascade corners nearClip farClip lastSplitDist splitDist =
     (let cs = slice_corners corners lastSplitDist splitDist
      in \<lparr>slice = cs, frustumCenter = center cs, sphere = radius cs,
          splitDepth = - (nearClip + splitDist * (farClip - nearClip))\<rparr>)"

text \<open>The loop over the maps; reading a split beyond the fourth is outside the array.\<close>

fun cascade_loop :: "real vec3 list \<Rightarrow> real \<Rightarrow> real \<Rightarrow> real \<Rightarrow> nat list \<Rightarrow> real \<Rightarrow> cascade list run" where
  "cascade_loop corners n f lambda [] lastSplitDist = ret []"
| "cascade_loop corners n f lambda (i # is) lastSplitDist =
     (if i < SHADOWMAP_MAX
      then let splitDist = cascadeSplits n f lambda i
           in rbind (cascade_loop corners n f lambda is splitDist) (\<lambda>cs. ret (make_cascade corners n f lastSplitDist splitDist # cs))
      else fail BadIndex)"

definition updateCascades :: "nat \<Rightarrow> real vec3 list \<Rightarrow> real \<Rightarrow> real \<Rightarrow> real \<Rightarrow> cascade list run" where
  "updateCascades numMaps corners nearClip farClip lambda = cascade_loop corners nearClip farClip lambda [0..<numMaps] 0"

section \<open>Queues\<close>

datatype light_type = DirectionalLight | SpotLight | PointLight

record ('l, 'm) shadow_renderer =
  hasLight :: bool
  chosenLight :: "'l option"
  cascadeCommandQueue :: "'m list list"

text \<open>The loop over the lights keeps the last directional one.\<close>

definition choose_light :: "('l \<times> light_type) list \<Rightarrow> 'l option" where
  "choose_light lights = fold (\<lambda>(l, t) light. if t = DirectionalLight then Some l else light) lights None"

text \<open>\<open>hasCamera\<close>: the scene has a camera with a transform. A mesh renderer without a mesh is \<open>None\<close>.\<close>

definition shadow_beginScene ::
  "('l \<times> light_type) list \<Rightarrow> bool \<Rightarrow> 'm option list \<Rightarrow> ('l, 'm) shadow_renderer \<Rightarrow> ('l, 'm) shadow_renderer" where
  "shadow_beginScene lights hasCamera meshes r =
     (let light = choose_light lights
      in if \<not> hasCamera \<or> light = None then r\<lparr>hasLight := False\<rparr>
         else r\<lparr>hasLight := True, chosenLight := light,
                cascadeCommandQueue := map (\<lambda>i. map the (filter (\<lambda>m. m \<noteq> None) meshes)) [0..<SHADOWMAP_MAX]\<rparr>)"

definition shadow_renderScene :: "('l, 'm) shadow_renderer \<Rightarrow> (nat \<times> 'm list) list" where
  "shadow_renderScene r =
     (if hasLight r then map (\<lambda>i. (i, cascadeCommandQueue r ! i)) [0..<SHADOWMAP_MAX] else [])"

section \<open>The splits increase\<close>

lemma mix_strict:
  fixes a :: real
  assumes "a < a'" "b < b'" "0 \<le> l" "l \<le> 1"
  shows "l * a + (1 - l) * b < l * a' + (1 - l) * b'"
proof (cases "l = 0")
  case False
  then have "l * a < l * a'" using assms(1,3) by (intro mult_strict_left_mono) auto
  moreover have "(1 - l) * b \<le> (1 - l) * b'" using assms(2,4) by (intro mult_left_mono) auto
  ultimately show ?thesis by (rule add_less_le_mono)
qed (use assms(2) in simp)

abbreviation log_depth :: "real \<Rightarrow> real \<Rightarrow> nat \<Rightarrow> real" where
  "log_depth n f i \<equiv> n * (f / n) powr ((real i + 1) / 4)"

abbreviation uniform_depth :: "real \<Rightarrow> real \<Rightarrow> nat \<Rightarrow> real" where
  "uniform_depth n f i \<equiv> n + (f - n) * ((real i + 1) / 4)"

lemma split_at_alt: "split_depth_at n f l i = l * log_depth n f i + (1 - l) * uniform_depth n f i"
proof -
  have "l * (x - u) + u = l * x + (1 - l) * u" for x u by (simp add: algebra_simps)
  then show ?thesis by (simp add: split_depth_at_def Let_def SHADOWMAP_MAX_def)
qed

lemma split_mono:
  assumes "0 < n" "n < f" "0 \<le> l" "l \<le> 1" "i < j"
  shows "split_depth_at n f l i < split_depth_at n f l j"
proof -
  have r: "1 < f / n" using assms(1,2) by simp
  have p: "(real i + 1) / 4 < (real j + 1) / 4" using assms(5) by simp
  have "log_depth n f i < log_depth n f j" using assms(1) powr_less_mono[OF p r] by simp
  moreover have "uniform_depth n f i < uniform_depth n f j"
    using assms(2) mult_strict_left_mono[OF p, of "f - n"] by linarith
  ultimately show ?thesis unfolding split_at_alt by (rule mix_strict[OF _ _ assms(3,4)])
qed

lemma split_ends:
  assumes "0 < n" "n < f" "0 \<le> l" "l \<le> 1"
  shows "n < split_depth_at n f l i" "split_depth_at n f l 3 = f"
proof -
  have "1 < (f / n) powr ((real i + 1) / 4)" using assms(1,2) by (intro gr_one_powr) auto
  then have "n < log_depth n f i" using assms(1) by simp
  moreover have "n < uniform_depth n f i" using assms(2) by simp
  ultimately have "l * n + (1 - l) * n < split_depth_at n f l i" unfolding split_at_alt by (rule mix_strict[OF _ _ assms(3,4)])
  then show "n < split_depth_at n f l i" by (simp add: algebra_simps)
  show "split_depth_at n f l 3 = f" unfolding split_at_alt using assms(1,2) by (simp add: algebra_simps)
qed

lemma splits_order:
  assumes "0 < n" "n < f" "0 \<le> l" "l \<le> 1"
  shows "0 < cascadeSplits n f l i" "cascadeSplits n f l 3 = 1" "i < j \<Longrightarrow> cascadeSplits n f l i < cascadeSplits n f l j"
  using split_ends[OF assms] split_mono[OF assms, of i j] assms(2)
  by (simp_all add: cascadeSplits_def divide_strict_right_mono)

section \<open>Slices and spheres\<close>

definition lower_split :: "real \<Rightarrow> real \<Rightarrow> real \<Rightarrow> nat \<Rightarrow> real" where
  "lower_split n f l i = (if i = 0 then 0 else cascadeSplits n f l (i - 1))"

lemma cascade_loop_all:
  "k + m \<le> 4 \<Longrightarrow> cascade_loop corners n f l [k..<k + m] (lower_split n f l k) =
     ret (map (\<lambda>i. make_cascade corners n f (lower_split n f l i) (cascadeSplits n f l i)) [k..<k + m])"
proof (induction m arbitrary: k)
  case (Suc m)
  have "[k..<k + Suc m] = k # [Suc k..<Suc k + m]" by (simp add: upt_conv_Cons)
  moreover have "cascadeSplits n f l k = lower_split n f l (Suc k)" by (simp add: lower_split_def)
  ultimately show ?case using Suc.IH[of "Suc k"] Suc.prems by (simp add: SHADOWMAP_MAX_def Let_def)
qed simp

lemma max_loop: "c \<in> set cs \<Longrightarrow> g c \<le> foldl (\<lambda>r c. max r (g c)) (r::real) cs"
proof (induction cs arbitrary: r)
  case (Cons a cs)
  have "r \<le> foldl (\<lambda>r c. max r (g c)) r cs" for r cs
  proof (induction cs arbitrary: r)
    case (Cons b cs)
    have "r \<le> max r (g b)" by simp
    then show ?case using Cons[of "max r (g b)"] by simp
  qed simp
  from this[of "max r (g a)" cs] Cons show ?case by auto
qed simp

lemma radius_covers: "c \<in> set cs \<Longrightarrow> vec_length (vec_minus c (center cs)) \<le> radius cs"
proof -
  let ?m = "foldl (\<lambda>r c. max r (vec_length (vec_minus c (center cs)))) 0 cs"
  assume "c \<in> set cs"
  then have "vec_length (vec_minus c (center cs)) \<le> ?m" by (rule max_loop)
  also have "?m \<le> radius cs" unfolding radius_def using le_of_int_ceiling[of "?m * 16"] by linarith
  finally show ?thesis .
qed

text \<open>The point at a fraction of the way from one point to another, and the depth at which the cascade number \<open>i\<close> is to end.\<close>

definition between :: "real \<Rightarrow> real vec3 \<Rightarrow> real vec3 \<Rightarrow> real vec3" where
  "between t a b = Vec3 ((1 - t) * x3 a + t * x3 b) ((1 - t) * y3 a + t * y3 b) ((1 - t) * z3 a + t * z3 b)"

definition end_depth :: "real \<Rightarrow> real \<Rightarrow> real \<Rightarrow> nat \<Rightarrow> real" where
  "end_depth n f l i = l * (n * (f / n) powr ((real i + 1) / 4)) + (1 - l) * (n + (f - n) * ((real i + 1) / 4))"

lemma slice_between:
  "j < 4 \<Longrightarrow> slice_corners corners s t ! j = between s (corners ! j) (corners ! (j + 4))"
  "j < 4 \<Longrightarrow> slice_corners corners s t ! (j + 4) = between t (corners ! j) (corners ! (j + 4))"
  "length (slice_corners corners s t) = 8"
  by (simp_all add: slice_corners_def nth_append along_def vec_add_def vec_mul_def vec_minus_def between_def algebra_simps)

text \<open>
  C30: The cascades of a frustum of eight corners, the near plane's four and then the far plane's in the same order, with \<open>0 < n < f\<close>, for at most four maps and a weight between 0 and 1.
  The slice of each cascade is bounded by two planes: its near corners are on the lines from the near to the far corners of the frustum, for the first cascade the near corners
  themselves, for the others the far corners of the slice before; its far corners are further on the same lines, at the fraction that belongs to the depth of the mixed
  logarithmic and uniform scheme, and with four maps the last ones are the far corners of the frustum. The depth that the shaders compare with is
  that of the end of the slice, and the sphere of each slice contains its corners.
\<close>

theorem cascades_partition:
  assumes "length corners = 8" "0 < n" "n < f" "0 \<le> l" "l \<le> 1" "m \<le> 4"
  shows "\<exists>cs. updateCascades m corners n f l = ret cs \<and> length cs = m \<and>
    (\<forall>i < m. length (slice (cs ! i)) = 8 \<and>
      (\<forall>j < 4. slice (cs ! i) ! j = (if i = 0 then corners ! j else slice (cs ! (i - 1)) ! (j + 4))) \<and>
      (\<exists>t. (if i = 0 then 0 else (end_depth n f l (i - 1) - n) / (f - n)) < t \<and> n + t * (f - n) = end_depth n f l i \<and> t \<le> 1 \<and>
        (\<forall>j < 4. slice (cs ! i) ! (j + 4) = between t (corners ! j) (corners ! (j + 4)))) \<and>
      (\<forall>j < 4. i = 3 \<longrightarrow> slice (cs ! i) ! (j + 4) = corners ! (j + 4)) \<and>
      splitDepth (cs ! i) = - end_depth n f l i \<and> - f \<le> splitDepth (cs ! i) \<and> splitDepth (cs ! i) < - n \<and>
      (\<forall>c \<in> set (slice (cs ! i)). vec_length (vec_minus c (frustumCenter (cs ! i))) \<le> sphere (cs ! i)))"
proof -
  let ?t = "lower_split n f l"
  note o = splits_order[OF assms(2-5)]
  define cs where "cs = map (\<lambda>i. make_cascade corners n f (?t i) (cascadeSplits n f l i)) [0..<m]"
  have u: "updateCascades m corners n f l = ret cs"
    using cascade_loop_all[of 0 m corners n f l] assms(6) by (simp add: updateCascades_def lower_split_def cs_def)
  have c: "cs ! i = make_cascade corners n f (?t i) (cascadeSplits n f l i)" if "i < m" for i using that by (simp add: cs_def)
  have sl: "slice (cs ! i) = slice_corners corners (?t i) (cascadeSplits n f l i)" if "i < m" for i
    using c[OF that] by (simp add: make_cascade_def Let_def)
  have ends: "cascadeSplits n f l i = (end_depth n f l i - n) / (f - n)" for i
    by (simp add: cascadeSplits_def split_at_alt end_depth_def)
  have depth: "n + cascadeSplits n f l i * (f - n) = end_depth n f l i" for i using assms(3) by (simp add: ends)
  have up: "?t i < cascadeSplits n f l i" for i using o(1)[of i] o(3)[of "i - 1" i] by (cases i) (simp_all add: lower_split_def)
  have one: "cascadeSplits n f l i \<le> 1" if "i < m" for i using o(2) o(3)[of i 3] that assms(6) by (cases "i = 3") auto
  have near: "between 0 a b = a" "between 1 a b = b" for a b by (simp_all add: between_def)
  have bound: "end_depth n f l i \<le> f" "n < end_depth n f l i" if "i < m" for i
  proof -
    have "cascadeSplits n f l i * (f - n) \<le> 1 * (f - n)" using one[OF that] assms(3) by (intro mult_right_mono) auto
    moreover have "0 < cascadeSplits n f l i * (f - n)" using o(1)[of i] assms(3) by simp
    ultimately show "end_depth n f l i \<le> f" "n < end_depth n f l i" unfolding depth[symmetric] by simp_all
  qed
  show ?thesis
  proof (intro exI[of _ cs] conjI allI impI ballI)
    fix i assume i: "i < m"
    show "length (slice (cs ! i)) = 8" unfolding sl[OF i] by (rule slice_between)
    show "slice (cs ! i) ! j = (if i = 0 then corners ! j else slice (cs ! (i - 1)) ! (j + 4))" if "j < 4" for j
      using i that sl[of "i - 1"] by (cases i) (simp_all add: sl slice_between lower_split_def near)
    show "\<exists>t. (if i = 0 then 0 else (end_depth n f l (i - 1) - n) / (f - n)) < t \<and> n + t * (f - n) = end_depth n f l i \<and> t \<le> 1 \<and>
        (\<forall>j < 4. slice (cs ! i) ! (j + 4) = between t (corners ! j) (corners ! (j + 4)))"
      using up[of i] one[OF i] depth[of i] i
      by (intro exI[of _ "cascadeSplits n f l i"]) (simp add: sl slice_between lower_split_def ends split: if_splits)
    show "slice (cs ! i) ! (j + 4) = corners ! (j + 4)" if "j < 4" "i = 3" for j
      using i that o(2) by (simp add: sl slice_between near)
    show "splitDepth (cs ! i) = - end_depth n f l i" using c[OF i] by (simp add: make_cascade_def Let_def depth)
    then show "- f \<le> splitDepth (cs ! i)" "splitDepth (cs ! i) < - n" using bound[OF i] by simp_all
    show "vec_length (vec_minus v (frustumCenter (cs ! i))) \<le> sphere (cs ! i)" if "v \<in> set (slice (cs ! i))" for v
      using c[OF i] that by (simp add: make_cascade_def Let_def radius_covers)
  qed (simp_all add: u cs_def)
qed

text \<open>A frustum of a square at depth 1 and one at depth 3 in the uniform scheme: the second slice goes from the depth 3/2 to 2.\<close>

definition pyramid :: "real vec3 list" where
  "pyramid = map (\<lambda>(x, y). Vec3 x y 1) [(0, 0), (1, 0), (1, 1), (0, 1)] @ map (\<lambda>(x, y). Vec3 x y 3) [(0, 0), (3, 0), (3, 3), (0, 3)]"

theorem cascades_partition_witness:
  "\<exists>cs. updateCascades 4 pyramid 1 3 0 = ret cs \<and> slice (cs ! 1) ! 2 = Vec3 (3 / 2) (3 / 2) (3 / 2) \<and>
     slice (cs ! 1) ! 6 = Vec3 2 2 2 \<and> splitDepth (cs ! 1) = - 2 \<and> slice (cs ! 3) ! 7 = Vec3 0 3 3"
proof -
  have e: "end_depth 1 3 0 i = 1 + (real i + 1) / 2" for i by (simp add: end_depth_def)
  have c: "length pyramid = 8" "pyramid ! 2 = Vec3 1 1 1" "pyramid ! 6 = Vec3 3 3 3" "pyramid ! 7 = Vec3 0 3 3"
    by (simp_all add: pyramid_def numeral_nat)
  obtain cs where u: "updateCascades 4 pyramid 1 3 0 = ret cs" and cs: "\<forall>i < 4.
      (\<forall>j < 4. slice (cs ! i) ! j = (if i = 0 then pyramid ! j else slice (cs ! (i - 1)) ! (j + 4))) \<and>
      (\<exists>t. 1 + t * (3 - 1) = end_depth 1 3 0 i \<and> (\<forall>j < 4. slice (cs ! i) ! (j + 4) = between t (pyramid ! j) (pyramid ! (j + 4)))) \<and>
      (\<forall>j < 4. i = 3 \<longrightarrow> slice (cs ! i) ! (j + 4) = pyramid ! (j + 4)) \<and> splitDepth (cs ! i) = - end_depth 1 3 0 i"
    using cascades_partition[OF c(1), of 1 3 0 4] by (fastforce simp del: split_paired_Ex)
  have far: "slice (cs ! i) ! 6 = between ((real i + 1) / 4) (pyramid ! 2) (pyramid ! 6)" if i4: "i < 4" for i
  proof -
    obtain t where t: "1 + t * (3 - 1) = end_depth 1 3 0 i" "\<forall>j < 4. slice (cs ! i) ! (j + 4) = between t (pyramid ! j) (pyramid ! (j + 4))"
      using conjunct1[OF conjunct2[OF mp[OF spec[OF cs, of i] i4]]] by blast
    have "slice (cs ! i) ! 6 = between t (pyramid ! 2) (pyramid ! 6)" using spec[OF t(2), of 2] by simp
    moreover have "t = (real i + 1) / 4" using t(1) e[of i] by simp
    ultimately show ?thesis by simp
  qed
  have "slice (cs ! 1) ! 2 = slice (cs ! 0) ! 6" using spec[OF cs, of 1] by simp
  then have "slice (cs ! 1) ! 2 = Vec3 (3 / 2) (3 / 2) (3 / 2)" "slice (cs ! 1) ! 6 = Vec3 2 2 2"
    using far[of 0] far[of 1] by (simp_all add: c between_def)
  moreover have "splitDepth (cs ! 1) = - 2" using spec[OF cs, of 1] e[of 1] by simp
  moreover have "slice (cs ! 3) ! 7 = Vec3 0 3 3" using spec[OF cs, of 3] c(4) by (simp add: numeral_nat)
  ultimately show ?thesis using u by blast
qed

text \<open>With more than four maps the loop reads past the array of splits.\<close>

theorem too_many_maps:
  assumes "4 < m"
  shows "updateCascades m corners n f l = fail BadIndex"
proof -
  have "cascade_loop corners n f l (is @ 4 # js) x = fail BadIndex" if "\<forall>i \<in> set is. i < 4" for "is" js x
    using that by (induction "is" arbitrary: x) (simp_all add: SHADOWMAP_MAX_def Let_def)
  moreover have "[0..<m] = [0..<4] @ 4 # [5..<m]" using assms upt_add_eq_append[of 0 4 "m - 4"] by (simp add: upt_conv_Cons)
  ultimately show ?thesis by (simp add: updateCascades_def)
qed

section \<open>Queues and light\<close>

lemma choose_light_last:
  "choose_light lights = (case filter (\<lambda>x. snd x = DirectionalLight) lights of [] \<Rightarrow> None | xs \<Rightarrow> Some (fst (last xs)))"
proof -
  have "fold (\<lambda>(l, t) light. if t = DirectionalLight then Some l else light) lights z =
    (case filter (\<lambda>x. snd x = DirectionalLight) lights of [] \<Rightarrow> z | xs \<Rightarrow> Some (fst (last xs)))" for z
    by (induction lights arbitrary: z) (auto split: list.splits)
  then show ?thesis by (simp add: choose_light_def)
qed

text \<open>
  What a frame draws into the shadow maps: nothing without a camera or a directional light; otherwise every mesh once in each of
  the four maps, with the last of the directional lights, whatever the queues held before.
\<close>

theorem shadow_frame:
  "let r' = shadow_beginScene lights hasCamera meshes r;
       directional = filter (\<lambda>x. snd x = DirectionalLight) lights
   in shadow_renderScene r' =
      (if hasCamera \<and> directional \<noteq> [] then map (\<lambda>i. (i, map the (filter (\<lambda>m. m \<noteq> None) meshes))) [0..<4] else []) \<and>
      (hasLight r' \<longrightarrow> chosenLight r' = Some (fst (last directional)))"
proof (cases "filter (\<lambda>x. snd x = DirectionalLight) lights")
  case Nil
  then show ?thesis by (simp add: Let_def shadow_beginScene_def shadow_renderScene_def choose_light_last)
next
  case (Cons x xs)
  have "map (\<lambda>i. (i, map (\<lambda>i. ms) [0..<4] ! i)) [0..<4] = map (\<lambda>i. (i, ms)) [0..<4]" for ms :: "'b list"
    by (rule nth_equalityI) simp_all
  then show ?thesis using Cons
    by (simp add: Let_def shadow_beginScene_def shadow_renderScene_def choose_light_last SHADOWMAP_MAX_def)
qed

end
