(* ===== verification/Resource_Cache.thy ===== *)
theory Resource_Cache
  imports Maple_Prelude
begin

text \<open>
  The caches of resources: \<^verbatim>\<open>Resources/Resources.h\<close> (the map from names to shared pointers that
  \<^verbatim>\<open>MeshResource\<close>, \<^verbatim>\<open>ShaderResource\<close> and \<^verbatim>\<open>TextureCache\<close> inherit) and the factories that go
  through it, \<^verbatim>\<open>Shader::create\<close> and the three \<^verbatim>\<open>create\<close> functions of \<^verbatim>\<open>Engine/Interface/Texture.cpp\<close>.

  A shared pointer is \<^term>\<open>None\<close> when it is null and otherwise the position of its object in the list of all
  objects built so far, so two equal pointers share one object. A call returns its value or the exception thrown, and
  in both cases the state it leaves: an exception does not undo what was done before it. The constructor of a resource reads files
  and fills device objects; it is a parameter that gives the object or the exception.
\<close>

section \<open>The map of resources\<close>

type_synonym pointer = "nat option"

record 'o resources =
  cache :: "string \<rightharpoonup> pointer"
  objects :: "'o list"

type_synonym ('o, 'a) call = "(fault + 'a) \<times> 'o resources"

definition no_resources :: "'o resources" where
  "no_resources = \<lparr>cache = (\<lambda>_. None), objects = []\<rparr>"

definition alloc :: "'o \<Rightarrow> 'o resources \<Rightarrow> nat \<times> 'o resources" where
  "alloc obj s = (length (objects s), s\<lparr>objects := objects s @ [obj]\<rparr>)"

definition get :: "(string \<Rightarrow> fault + 'o) \<Rightarrow> string \<Rightarrow> 'o resources \<Rightarrow> ('o, pointer) call" where
  "get new_T i s = (case cache s i of
       Some p \<Rightarrow> (Inr p, s)
     | None \<Rightarrow> (case new_T i of
         Inl e \<Rightarrow> (Inl e, s)
       | Inr obj \<Rightarrow> (let (p, s') = alloc obj s in (Inr (Some p), s'\<lparr>cache := (cache s')(i \<mapsto> Some p)\<rparr>))))"

definition emplace :: "('x \<Rightarrow> string \<Rightarrow> fault + 'o) \<Rightarrow> string \<Rightarrow> 'x \<Rightarrow> 'o resources \<Rightarrow> ('o, pointer) call" where
  "emplace new_T i args s = (case cache s i of
       Some p \<Rightarrow> (Inr p, s)
     | None \<Rightarrow> (case new_T args i of
         Inl e \<Rightarrow> (Inl e, s)
       | Inr obj \<Rightarrow> (let (p, s') = alloc obj s in (Inr (Some p), s'\<lparr>cache := (cache s')(i \<mapsto> Some p)\<rparr>))))"

definition add :: "string \<Rightarrow> pointer \<Rightarrow> 'o resources \<Rightarrow> 'o resources" where
  "add i p s = s\<lparr>cache := (cache s)(i \<mapsto> p)\<rparr>"

definition remove :: "string \<Rightarrow> 'o resources \<Rightarrow> 'o resources" where
  "remove i s = s\<lparr>cache := (cache s)(i := None)\<rparr>"

text \<open>\<^verbatim>\<open>operator[]\<close> of a map inserts a null pointer for a key that is missing.\<close>

definition tryGet :: "string \<Rightarrow> 'o resources \<Rightarrow> pointer \<times> 'o resources" where
  "tryGet i s = (case cache s i of Some p \<Rightarrow> (p, s) | None \<Rightarrow> (None, s\<lparr>cache := (cache s)(i \<mapsto> None)\<rparr>))"

definition clear :: "'o resources \<Rightarrow> 'o resources" where
  "clear s = s\<lparr>cache := (\<lambda>_. None)\<rparr>"

section \<open>Factories\<close>

text \<open>
  The factories look with \<^const>\<open>tryGet\<close>, build the object when the pointer is null and store it with
  \<^const>\<open>add\<close>. \<^verbatim>\<open>Shader::create\<close> returns the pointer it finds.
\<close>

definition create_cached :: "(string \<Rightarrow> fault + 'o) \<Rightarrow> string \<Rightarrow> 'o resources \<Rightarrow> ('o, nat) call" where
  "create_cached new_T i s =
     (case tryGet i s of
        (Some p, s') \<Rightarrow> (Inr p, s')
      | (None, s') \<Rightarrow> (case new_T i of
          Inl e \<Rightarrow> (Inl e, s')
        | Inr obj \<Rightarrow> (let (p, s'') = alloc obj s' in (Inr p, add i (Some p) s''))))"

definition Shader_create :: "(string \<Rightarrow> fault + 'o) \<Rightarrow> string \<Rightarrow> 'o resources \<Rightarrow> ('o, nat) call" where
  "Shader_create new_VulkanShader filePath s = create_cached new_VulkanShader filePath s"

text \<open>
  Textures of all kinds are in one cache. A texture built from a file remembers the name of the file and its parameters.
  \<^verbatim>\<open>static_pointer_cast\<close> does not check the kind: a pointer to an object of the other kind is a misuse.
\<close>

datatype 'q texture_obj = VulkanTexture2D (tex_file: string) (tex_parameters: "'q option") | VulkanTextureCube (tex_file: string)

definition cast_2D :: "('q texture_obj, nat) call \<Rightarrow> ('q texture_obj, nat) call" where
  "cast_2D c = (case c of
       (Inr p, s) \<Rightarrow> (case objects s ! p of
           VulkanTexture2D f q \<Rightarrow> (Inr p, s)
         | VulkanTextureCube f \<Rightarrow> (Inl (ApiMisuse ''static_pointer_cast<Texture2D>''), s))
     | (Inl e, s) \<Rightarrow> (Inl e, s))"

definition cast_Cube :: "('q texture_obj, nat) call \<Rightarrow> ('q texture_obj, nat) call" where
  "cast_Cube c = (case c of
       (Inr p, s) \<Rightarrow> (case objects s ! p of
           VulkanTexture2D f q \<Rightarrow> (Inl (ApiMisuse ''static_pointer_cast<TextureCube>''), s)
         | VulkanTextureCube f \<Rightarrow> (Inr p, s))
     | (Inl e, s) \<Rightarrow> (Inl e, s))"

text \<open>\<open>loads\<close> gives the exception that reading a file of textures throws, if any.\<close>

definition load_with :: "(string \<Rightarrow> fault option) \<Rightarrow> 'o \<Rightarrow> string \<Rightarrow> fault + 'o" where
  "load_with loads obj file = (case loads file of Some e \<Rightarrow> Inl e | None \<Rightarrow> Inr obj)"

definition TextureCube_create :: "(string \<Rightarrow> fault option) \<Rightarrow> string \<Rightarrow> 'q texture_obj resources \<Rightarrow> ('q texture_obj, nat) call" where
  "TextureCube_create loads files s = cast_Cube (create_cached (load_with loads (VulkanTextureCube files)) files s)"

definition Texture2D_create :: "(string \<Rightarrow> fault option) \<Rightarrow> string \<Rightarrow> string \<Rightarrow> 'q texture_obj resources \<Rightarrow> ('q texture_obj, nat) call" where
  "Texture2D_create loads name fileName s = cast_2D (create_cached (load_with loads (VulkanTexture2D fileName None)) fileName s)"

definition Texture2D_create_with ::
  "(string \<Rightarrow> fault option) \<Rightarrow> string \<Rightarrow> 'q \<Rightarrow> 'q texture_obj resources \<Rightarrow> ('q texture_obj, nat) call" where
  "Texture2D_create_with loads fileName params s =
     cast_2D (create_cached (load_with loads (VulkanTexture2D fileName (Some params))) fileName s)"


section \<open>The contract of a cache\<close>

text \<open>
  What the clients of a cache rely on: a key that is present gives its value and changes nothing, a key that is
  missing is stored with the value returned, and a failed call leaves what is present as it was.
\<close>

text \<open>A sequence of calls, each with its own constructor and key.\<close>

fun fetch_all :: "('m \<Rightarrow> 'k \<Rightarrow> 's \<Rightarrow> (fault + 'p) \<times> 's) \<Rightarrow> ('m \<times> 'k) list \<Rightarrow> 's \<Rightarrow> 's" where
  "fetch_all fetch [] s = s"
| "fetch_all fetch ((m, k) # calls) s = fetch_all fetch calls (snd (fetch m k s))"

locale keyed_cache =
  fixes inv :: "'s \<Rightarrow> bool"
    and lookup :: "'s \<Rightarrow> 'k \<Rightarrow> 'p option"
    and fetch :: "'m \<Rightarrow> 'k \<Rightarrow> 's \<Rightarrow> (fault + 'p) \<times> 's"
  assumes hit: "inv s \<Longrightarrow> lookup s k = Some p \<Longrightarrow> fetch m k s = (Inr p, s)"
    and miss: "inv s \<Longrightarrow> lookup s k = None \<Longrightarrow> fetch m k s = (Inr p, s') \<Longrightarrow> inv s' \<and> lookup s' = (lookup s)(k \<mapsto> p)"
    and thrown: "inv s \<Longrightarrow> lookup s k = None \<Longrightarrow> fetch m k s = (Inl e, s') \<Longrightarrow> inv s' \<and> lookup s' = lookup s"
begin

lemma fetch_cases:
  assumes "inv s"
  obtains (Hit) p where "lookup s k = Some p" "fetch m k s = (Inr p, s)"
  | (Built) p s' where "lookup s k = None" "fetch m k s = (Inr p, s')" "inv s'" "lookup s' = (lookup s)(k \<mapsto> p)"
  | (Thrown) e s' where "lookup s k = None" "fetch m k s = (Inl e, s')" "inv s'" "lookup s' = lookup s"
proof (cases "lookup s k")
  case None
  show ?thesis
  proof (cases "fetch m k s")
    case (Pair r s')
    then show ?thesis using None miss[OF assms None] thrown[OF assms None] Built Thrown by (cases r) auto
  qed
next
  case (Some p)
  then show ?thesis using hit[OF assms] Hit by blast
qed

lemma fetch_inv: "inv s \<Longrightarrow> inv (snd (fetch m k s))"
  by (rule fetch_cases[of s k m]) auto

lemma fetch_keeps: "inv s \<Longrightarrow> lookup s \<subseteq>\<^sub>m lookup (snd (fetch m k s))"
  by (rule fetch_cases[of s k m]) (auto simp: map_le_def)

lemma fetch_all_inv: "inv s \<Longrightarrow> inv (fetch_all fetch calls s)"
  by (induction calls arbitrary: s) (auto simp: fetch_inv)

lemma fetch_all_keeps: "inv s \<Longrightarrow> lookup s \<subseteq>\<^sub>m lookup (fetch_all fetch calls s)"
proof (induction calls arbitrary: s)
  case (Cons c calls)
  obtain m k where "c = (m, k)" by force
  then show ?case using Cons fetch_inv[of s m k] fetch_keeps[of s m k] map_le_trans by fastforce
qed simp

text \<open>Once a call has returned a value for a key, every later call for it returns the same value.\<close>

lemma fetch_shared:
  assumes "inv s" "fetch m k s = (Inr p, s')"
  shows "fetch m' k (fetch_all fetch calls s') = (Inr p, fetch_all fetch calls s')"
proof -
  have i: "inv s'" using fetch_inv[OF assms(1), of m k] assms(2) by simp
  have "lookup s' k = Some p" using assms(2) by (rule_tac fetch_cases[OF assms(1), of k m]) auto
  then have "lookup (fetch_all fetch calls s') k = Some p"
    using fetch_all_keeps[OF i, of calls] by (metis domI map_le_def)
  then show ?thesis using hit fetch_all_inv[OF i] by blast
qed

end

text \<open>Where in addition every value stored is an object that was built for it, no key is built twice.\<close>

locale counted_cache = keyed_cache +
  fixes built :: "'a \<Rightarrow> nat"
  assumes built_one: "inv s \<Longrightarrow> lookup s k = None \<Longrightarrow> fetch m k s = (Inr p, s') \<Longrightarrow> built s' = Suc (built s)"
    and built_none: "inv s \<Longrightarrow> lookup s k = None \<Longrightarrow> fetch m k s = (Inl e, s') \<Longrightarrow> built s' = built s"
begin

lemma built_step:
  assumes "inv s"
  shows "built (snd (fetch m k s)) = built s + card (dom (lookup (snd (fetch m k s))) - dom (lookup s))"
    and "finite (dom (lookup (snd (fetch m k s))) - dom (lookup s))"
  using assms
  by (rule_tac[!] fetch_cases[OF assms, of k m]) (auto simp: built_one built_none insert_Diff_if)

lemma built_all:
  "inv s \<Longrightarrow> built (fetch_all fetch calls s) = built s + card (dom (lookup (fetch_all fetch calls s)) - dom (lookup s)) \<and>
     finite (dom (lookup (fetch_all fetch calls s)) - dom (lookup s))"
proof (induction calls arbitrary: s)
  case (Cons c calls)
  obtain m k where c: "c = (m, k)" by force
  let ?s = "snd (fetch m k s)"
  let ?t = "fetch_all fetch calls ?s"
  have i: "inv ?s" by (rule fetch_inv[OF Cons.prems])
  have "dom (lookup s) \<subseteq> dom (lookup ?s)" "dom (lookup ?s) \<subseteq> dom (lookup ?t)"
    using fetch_keeps[OF Cons.prems] fetch_all_keeps[OF i] map_le_implies_dom_le by blast+
  then have split: "dom (lookup ?t) - dom (lookup s) =
      (dom (lookup ?t) - dom (lookup ?s)) \<union> (dom (lookup ?s) - dom (lookup s))" by blast
  show ?case
    using Cons.IH[OF i] built_step[OF Cons.prems, of m k]
    by (simp only: c fetch_all.simps split) (subst card_Un_disjoint, auto)
qed simp

end


section \<open>The engine's caches keep the contract\<close>

lemma get_eq: "get new_T i s = (case cache s i of
     Some p \<Rightarrow> (Inr p, s)
   | None \<Rightarrow> (case new_T i of
       Inl e \<Rightarrow> (Inl e, s)
     | Inr obj \<Rightarrow> (Inr (Some (length (objects s))),
         s\<lparr>objects := objects s @ [obj], cache := (cache s)(i \<mapsto> Some (length (objects s)))\<rparr>)))"
  by (simp add: get_def alloc_def Let_def split: option.splits sum.splits)

lemma emplace_is_get: "emplace new_T i args = get (new_T args) i"
  by (simp add: fun_eq_iff emplace_def get_def)

interpretation res: counted_cache "\<lambda>_. True" cache get "\<lambda>s. length (objects s)"
  by unfold_locales (auto simp: get_eq split: option.splits sum.splits)

text \<open>For the factories a null pointer counts as missing.\<close>

definition live :: "'o resources \<Rightarrow> string \<Rightarrow> nat option" where
  "live s i = (case cache s i of Some (Some p) \<Rightarrow> Some p | _ \<Rightarrow> None)"

lemma cache_idem: "cache s i = Some p \<Longrightarrow> s\<lparr>cache := (cache s)(i \<mapsto> p)\<rparr> = s"
  by (simp add: fun_upd_idem)

lemma create_cached_eq: "create_cached new_T i s = (case live s i of
     Some p \<Rightarrow> (Inr p, s)
   | None \<Rightarrow> (case new_T i of
       Inl e \<Rightarrow> (Inl e, s\<lparr>cache := (cache s)(i \<mapsto> None)\<rparr>)
     | Inr obj \<Rightarrow> (Inr (length (objects s)),
         s\<lparr>objects := objects s @ [obj], cache := (cache s)(i \<mapsto> Some (length (objects s)))\<rparr>)))"
  by (auto simp: create_cached_def live_def tryGet_def add_def alloc_def Let_def cache_idem split: option.splits sum.splits)

lemma live_upd [simp]: "live (s\<lparr>cache := (cache s)(i \<mapsto> p)\<rparr>) = (live s)(i := p)"
  "live (s\<lparr>objects := os, cache := (cache s)(i \<mapsto> p)\<rparr>) = (live s)(i := p)"
  "live (s\<lparr>objects := os\<rparr>) = live s"
  by (auto simp: live_def fun_eq_iff split: option.splits)

interpretation fac: counted_cache "\<lambda>_. True" live create_cached "\<lambda>s. length (objects s)"
  by unfold_locales (auto simp: create_cached_eq split: option.splits sum.splits)

section \<open>Sequences of requests\<close>

text \<open>
  The requests to one cache: through \<^const>\<open>get\<close>, through a factory, or a look with \<^const>\<open>tryGet\<close>; the first
  two carry the constructor that is called when there is nothing to return. The answer is a pointer, null or
  not, or the exception of the constructor.
\<close>

datatype 'o request = Get "string \<Rightarrow> fault + 'o" string | Create "string \<Rightarrow> fault + 'o" string | Try string

fun request_step :: "'o request \<Rightarrow> 'o resources \<Rightarrow> ('o, pointer) call" where
  "request_step (Get new_T i) s = get new_T i s"
| "request_step (Create new_T i) s = (case create_cached new_T i s of (r, s') \<Rightarrow> (map_sum id Some r, s'))"
| "request_step (Try i) s = (case tryGet i s of (p, s') \<Rightarrow> (Inr p, s'))"

definition run_requests :: "'o request list \<Rightarrow> 'o resources \<Rightarrow> (fault + pointer) list \<times> 'o resources" where
  "run_requests rs s = foldl (\<lambda>(outs, s) r. case request_step r s of (out, s') \<Rightarrow> (outs @ [out], s')) ([], s) rs"

text \<open>
  The specification knows no cache, only the requests so far with their answers: \<open>returned h i\<close> is the first pointer
  returned for the name \<open>i\<close> that is not null, \<open>looked h i\<close> says whether the name was asked for by other means than
  \<^const>\<open>get\<close>. A new object gets the number of names that have one already.
\<close>

type_synonym 'o history = "('o request \<times> (fault + pointer)) list"

fun req_name :: "'o request \<Rightarrow> string" where
  "req_name (Get c i) = i" | "req_name (Create c i) = i" | "req_name (Try i) = i"

fun pointer_of :: "fault + pointer \<Rightarrow> nat option" where
  "pointer_of (Inr p) = p" | "pointer_of (Inl e) = None"

fun returned :: "'o history \<Rightarrow> string \<Rightarrow> nat option" where
  "returned [] i = None"
| "returned ((r, out) # h) i = (if req_name r = i \<and> pointer_of out \<noteq> None then pointer_of out else returned h i)"

definition looked :: "'o history \<Rightarrow> string \<Rightarrow> bool" where
  "looked h i \<longleftrightarrow> (\<exists>(r, out) \<in> set h. req_name r = i \<and> (\<forall>c. r \<noteq> Get c i))"

definition build_for :: "'o history \<Rightarrow> fault + 'o \<Rightarrow> fault + pointer" where
  "build_for h new = (case new of Inl e \<Rightarrow> Inl e | Inr obj \<Rightarrow> Inr (Some (card {i. returned h i \<noteq> None})))"

fun expected :: "'o history \<Rightarrow> 'o request \<Rightarrow> fault + pointer" where
  "expected h (Get new_T i) = (case returned h i of
     Some p \<Rightarrow> Inr (Some p) | None \<Rightarrow> if looked h i then Inr None else build_for h (new_T i))"
| "expected h (Create new_T i) = (case returned h i of Some p \<Rightarrow> Inr (Some p) | None \<Rightarrow> build_for h (new_T i))"
| "expected h (Try i) = Inr (returned h i)"

lemma returned_snoc: "returned (h @ [(r, out)]) i = (case returned h i of
    Some p \<Rightarrow> Some p | None \<Rightarrow> if req_name r = i then pointer_of out else None)"
proof (induction h)
  case (Cons x h)
  then show ?case by (cases x) (auto split: option.split)
qed auto

lemma looked_snoc: "looked (h @ [(r, out)]) i \<longleftrightarrow> looked h i \<or> req_name r = i \<and> (\<forall>c. r \<noteq> Get c i)"
  by (auto simp: looked_def)

definition history_inv :: "'o history \<Rightarrow> 'o resources \<Rightarrow> bool" where
  "history_inv h s \<longleftrightarrow>
     (\<forall>i. cache s i = (case returned h i of Some p \<Rightarrow> Some (Some p) | None \<Rightarrow> if looked h i then Some None else None)) \<and>
     finite {i. returned h i \<noteq> None} \<and> length (objects s) = card {i. returned h i \<noteq> None} \<and>
     (\<forall>i p. returned h i = Some p \<longrightarrow> p < length (objects s) \<and>
        (\<exists>(r, out) \<in> set h. \<exists>c. (r = Get c i \<or> r = Create c i) \<and> c i = Inr (objects s ! p))) \<and>
     (\<forall>i j p. returned h i = Some p \<longrightarrow> returned h j = Some p \<longrightarrow> i = j)"

lemma history_invD:
  assumes "history_inv h s"
  shows "cache s i = (case returned h i of Some p \<Rightarrow> Some (Some p) | None \<Rightarrow> if looked h i then Some None else None)"
    and "finite {i. returned h i \<noteq> None}" and "length (objects s) = card {i. returned h i \<noteq> None}"
    and "returned h i = Some p \<Longrightarrow> p < length (objects s)"
    and "returned h i = Some p \<Longrightarrow> \<exists>(r, out) \<in> set h. \<exists>c. (r = Get c i \<or> r = Create c i) \<and> c i = Inr (objects s ! p)"
    and "returned h i = Some p \<Longrightarrow> returned h j = Some p \<Longrightarrow> i = j"
  using assms unfolding history_inv_def by blast+

text \<open>A request that builds nothing, and one that builds an object.\<close>

lemma history_same:
  assumes inv: "history_inv h s" and "pointer_of out = returned h (req_name r)"
    and "s' = s \<or> s' = s\<lparr>cache := (cache s)(req_name r \<mapsto> None)\<rparr> \<and> returned h (req_name r) = None"
    and "\<And>i. cache s' i = (case returned h i of Some p \<Rightarrow> Some (Some p) | None \<Rightarrow> if looked (h @ [(r, out)]) i then Some None else None)"
  shows "history_inv (h @ [(r, out)]) s'"
proof -
  have ret: "returned (h @ [(r, out)]) = returned h"
    using assms(2) by (auto simp: fun_eq_iff returned_snoc split: option.split)
  have ob: "objects s' = objects s" using assms(3) by auto
  note D = history_invD[OF inv]
  show ?thesis unfolding history_inv_def ret ob
  proof (intro conjI allI impI)
    show "\<exists>(q, out) \<in> set (h @ [(r, out)]). \<exists>c. (q = Get c i \<or> q = Create c i) \<and> c i = Inr (objects s ! p)"
      if "returned h i = Some p" for i p using D(5)[OF that] by auto
  qed (use D assms(4) in simp_all)
qed

lemma history_built:
  assumes inv: "history_inv h s" and new: "returned h (req_name r) = None" "r = Get c i \<or> r = Create c i" "c i = Inr obj"
    and s': "s' = s\<lparr>objects := objects s @ [obj], cache := (cache s)(i \<mapsto> Some (length (objects s)))\<rparr>"
  shows "history_inv (h @ [(r, Inr (Some (length (objects s))))]) s'"
proof -
  note D = history_invD[OF inv]
  have i: "req_name r = i" "returned h i = None" using new by auto
  let ?h = "h @ [(r, Inr (Some (length (objects s))))]"
  have ret: "returned ?h = (returned h)(i \<mapsto> length (objects s))"
    using i by (auto simp: fun_eq_iff returned_snoc split: option.split)
  have set: "{j. returned ?h j \<noteq> None} = insert i {j. returned h j \<noteq> None}" unfolding ret by auto
  have lk: "looked ?h j = looked h j" if "j \<noteq> i" for j using that i(1) by (simp add: looked_snoc)
  show ?thesis unfolding history_inv_def set
  proof (intro conjI allI impI)
    show "cache s' j = (case returned ?h j of Some p \<Rightarrow> Some (Some p) | None \<Rightarrow> if looked ?h j then Some None else None)" for j
      using D(1)[of j] lk[of j] by (cases "j = i") (simp_all add: ret s')
    show "finite (insert i {j. returned h j \<noteq> None})" using D(2) by simp
    show "length (objects s') = card (insert i {j. returned h j \<noteq> None})" using D(2,3) i(2) by (simp add: s')
    show "p < length (objects s')" if "returned ?h j = Some p" for j p
      using that D(4)[of j p] by (auto simp: ret s' split: if_splits)
    show "\<exists>(q, out) \<in> set ?h. \<exists>c. (q = Get c j \<or> q = Create c j) \<and> c j = Inr (objects s' ! p)" if "returned ?h j = Some p" for j p
    proof (cases "j = i")
      case True
      then have "p = length (objects s)" using that by (simp add: ret)
      then show ?thesis using new(2,3) True by (auto simp: s')
    next
      case False
      then have "returned h j = Some p" using that by (simp add: ret)
      then show ?thesis using D(4,5)[of j p] by (auto simp: s' nth_append)
    qed
    show "j = k" if "returned ?h j = Some p" "returned ?h k = Some p" for j k p
      using that D(4)[of j p] D(4)[of k p] D(6)[of j p k] by (auto simp: ret split: if_splits)
  qed
qed

lemma request_step_expected:
  assumes inv: "history_inv h s" and st: "request_step r s = (out, s')"
  shows "out = expected h r \<and> history_inv (h @ [(r, out)]) s'"
proof -
  define i where "i = req_name r"
  note D = history_invD[OF inv]
  have live: "live s j = returned h j" for j using D(1)[of j] by (auto simp: live_def split: option.splits if_splits)
  have same: "history_inv (h @ [(r, out)]) s'"
    if "pointer_of out = returned h i" "s' = s \<and> (looked (h @ [(r, out)]) i \<longrightarrow> looked h i \<or> returned h i \<noteq> None) \<or>
      s' = s\<lparr>cache := (cache s)(i \<mapsto> None)\<rparr> \<and> returned h i = None \<and> looked (h @ [(r, out)]) i"
  proof (rule history_same[OF inv])
    show "cache s' j = (case returned h j of Some p \<Rightarrow> Some (Some p) | None \<Rightarrow> if looked (h @ [(r, out)]) j then Some None else None)" for j
      using that(2) D(1)[of j] by (cases "j = i") (auto simp: looked_snoc i_def split: option.splits)
  qed (use that in \<open>auto simp: i_def\<close>)
  show ?thesis
  proof (cases r)
    case (Get c j)
    then have j: "i = j" "\<not> (\<forall>c. r \<noteq> Get c j)" by (simp_all add: i_def)
    show ?thesis
    proof (cases "cache s j = None \<and> (\<exists>obj. c j = Inr obj)")
      case True
      then obtain obj where obj: "cache s j = None" "c j = Inr obj" by blast
      then have n: "returned h j = None" "\<not> looked h j" using D(1)[of j] by (auto split: option.splits if_splits)
      then show ?thesis using st obj Get D(3) history_built[OF inv, of r c j obj s'] by (auto simp: get_eq build_for_def)
    next
      case False
      have eq: "out = expected h r" "s' = s"
        using st False Get D(1)[of j] by (auto simp: get_eq build_for_def split: option.splits sum.splits if_splits)
      have "pointer_of out = returned h i"
        using st False Get D(1)[of j] j(1) by (auto simp: get_eq split: option.splits sum.splits if_splits)
      then show ?thesis using eq same j by (auto simp: looked_snoc i_def)
    qed
  next
    case (Create c j)
    then have j: "i = j" by (simp add: i_def)
    show ?thesis
    proof (cases "returned h j")
      case None
      then show ?thesis
        using st Create D(3) live[of j] j same history_built[OF inv, of r c j _ s']
        by (auto simp: create_cached_eq build_for_def looked_snoc i_def split: sum.splits)
    next
      case (Some p)
      then show ?thesis using st Create live[of j] j same by (auto simp: create_cached_eq looked_snoc i_def)
    qed
  next
    case (Try j)
    then have j: "i = j" by (simp add: i_def)
    show ?thesis
      using st Try D(1)[of j] j same
      by (auto simp: tryGet_def looked_snoc i_def split: option.splits if_splits)
  qed
qed

lemma run_snoc: "run_requests (rs @ [r]) s =
    (case run_requests rs s of (outs, s) \<Rightarrow> case request_step r s of (out, s') \<Rightarrow> (outs @ [out], s'))"
  by (simp add: run_requests_def split: prod.splits)

lemma run_history:
  assumes "run_requests rs no_resources = (outs, s)"
  shows "length outs = length rs \<and> history_inv (zip rs outs) s \<and>
    (\<forall>k < length rs. outs ! k = expected (take k (zip rs outs)) (rs ! k))"
  using assms
proof (induction rs arbitrary: outs s rule: rev_induct)
  case Nil
  then show ?case by (auto simp: run_requests_def no_resources_def history_inv_def looked_def)
next
  case (snoc r rs)
  obtain outs1 s1 where r1: "run_requests rs no_resources = (outs1, s1)" by fastforce
  obtain out where o: "request_step r s1 = (out, s)" "outs = outs1 @ [out]"
    using snoc.prems r1 by (auto simp: run_snoc split: prod.splits)
  have IH: "length outs1 = length rs" "history_inv (zip rs outs1) s1"
    "\<forall>k < length rs. outs1 ! k = expected (take k (zip rs outs1)) (rs ! k)" using snoc.IH[OF r1] by blast+
  from request_step_expected[OF IH(2) o(1)] have e: "out = expected (zip rs outs1) r" "history_inv (zip rs outs1 @ [(r, out)]) s"
    by blast+
  have "outs ! k = expected (take k (zip (rs @ [r]) outs)) ((rs @ [r]) ! k)" if "k < length (rs @ [r])" for k
    using that IH(1,3) e(1) o(2) by (cases "k = length rs") (auto simp: nth_append)
  then show ?case using IH(1) e(2) o(2) by auto
qed

text \<open>
  C31: The cache of resources, over any sequence of requests through \<^verbatim>\<open>get\<close>, the factories and \<^verbatim>\<open>tryGet\<close> on an empty
  cache (and no removal, clearing or addition by hand). Every answer is determined by the answers before it: once
  a name has given a pointer, it gives the same pointer for ever; a name without one is built, objects being
  numbered in the order in which they are first built, and if the constructor throws, its exception is the answer
  and the next request through a factory builds again. The exception is \<^verbatim>\<open>get\<close> for a name that was looked for
  with \<^verbatim>\<open>tryGet\<close> or whose factory threw: it returns null, until a factory builds the object. In the end there is one
  object for each name that has given a pointer, made by a constructor passed for that name, and no two names share one.
\<close>

theorem resources_built_once:
  assumes "run_requests rs no_resources = (outs, s)"
  shows "(\<forall>k < length rs. outs ! k = expected (take k (zip rs outs)) (rs ! k)) \<and>
    length (objects s) = card {i. returned (zip rs outs) i \<noteq> None} \<and>
    (\<forall>i p. returned (zip rs outs) i = Some p \<longrightarrow> p < length (objects s) \<and>
      (\<exists>c. (Get c i \<in> set rs \<or> Create c i \<in> set rs) \<and> c i = Inr (objects s ! p)) \<and>
      (\<forall>j. returned (zip rs outs) j = Some p \<longrightarrow> i = j))"
proof -
  note R = run_history[OF assms]
  then have inv: "history_inv (zip rs outs) s" by blast
  note D = history_invD[OF inv]
  have "\<exists>c. (Get c i \<in> set rs \<or> Create c i \<in> set rs) \<and> c i = Inr (objects s ! p)" if "returned (zip rs outs) i = Some p" for i p
    using D(5)[OF that] by (auto dest: set_zip_leftD)
  then show ?thesis using R D(3,4,6) by blast
qed

definition new_named :: "string \<Rightarrow> fault + string" where
  "new_named i = (if i = ''missing'' then Inl (RuntimeError i) else Inr i)"

definition some_requests :: "string request list" where
  "some_requests = [Get new_named ''a'', Try ''b'', Get new_named ''b'', Create new_named ''missing'', Get new_named ''missing'',
     Create new_named ''b'', Get new_named ''b'', Create new_named ''a'']"

theorem resources_built_once_witness:
  "\<exists>s. run_requests some_requests no_resources =
      ([Inr (Some 0), Inr None, Inr None, Inl (RuntimeError ''missing''), Inr None, Inr (Some 1), Inr (Some 1), Inr (Some 0)], s) \<and>
    length (objects s) = 2"
proof -
  obtain outs s where r: "run_requests some_requests no_resources = (outs, s)" by fastforce
  then have outs: "outs = [Inr (Some 0), Inr None, Inr None, Inl (RuntimeError ''missing''), Inr None, Inr (Some 1), Inr (Some 1), Inr (Some 0)]"
    by (simp add: run_requests_def some_requests_def get_eq create_cached_eq tryGet_def live_def no_resources_def new_named_def)
  have "{i. returned (zip some_requests outs) i \<noteq> None} = {''a'', ''b''}"
    unfolding outs some_requests_def by auto
  then have "length (objects s) = 2" using resources_built_once[OF r] by simp
  then show ?thesis using r outs by blast
qed

text \<open>
  Looking for a name with \<^const>\<open>tryGet\<close> before it was loaded leaves a null pointer in the map, and from then on
  \<^const>\<open>get\<close> returns the null pointer instead of loading, until the entry is removed.
\<close>

lemma tryGet_blocks_get:
  assumes "cache s i = None"
  shows "get new_T i (snd (tryGet i s)) = (Inr None, snd (tryGet i s)) \<and>
    get new_T i (remove i (snd (tryGet i s))) = get new_T i s"
  using assms by (simp add: get_eq tryGet_def remove_def fun_upd_idem_iff split: option.splits sum.splits)

section \<open>Textures share one cache\<close>

lemmas texture_creates = TextureCube_create_def Texture2D_create_def Texture2D_create_with_def

text \<open>
  The first texture built from a file decides for all: every later call for the file name returns the same object, so
  the parameters of a later call are ignored, and asking for the file as a cube map is a cast of the pointer to a
  class the object does not have.
\<close>

theorem first_texture_decides:
  assumes "live s file = None" "loads file = None"
  shows "\<exists>s'. Texture2D_create_with loads file params s = (Inr (length (objects s)), s') \<and>
    objects s' ! length (objects s) = VulkanTexture2D file (Some params) \<and>
    Texture2D_create_with loads' file params' s' = (Inr (length (objects s)), s') \<and>
    Texture2D_create loads' name file s' = (Inr (length (objects s)), s') \<and>
    TextureCube_create loads' file s' = (Inl (ApiMisuse ''static_pointer_cast<TextureCube>''), s')"
  using assms
  by (simp add: texture_creates create_cached_eq load_with_def cast_2D_def cast_Cube_def)

theorem first_texture_decides_witness:
  "\<exists>s'. Texture2D_create_with (\<lambda>_. None) ''sky.hdr'' (1::nat) no_resources = (Inr 0, s') \<and>
     TextureCube_create (\<lambda>_. None) ''sky.hdr'' s' = (Inl (ApiMisuse ''static_pointer_cast<TextureCube>''), s')"
proof -
  have "live no_resources ''sky.hdr'' = None" by (simp add: live_def no_resources_def)
  from first_texture_decides[OF this, of "\<lambda>_. None" "1::nat"] show ?thesis
    by (simp add: no_resources_def) blast
qed

end
