(* ===== verification/Vulkan_Buffers.thy ===== *)
theory Vulkan_Buffers
  imports Maple_Prelude Vulkan_Choices
begin

text \<open>
  Buffers in device memory: \<^verbatim>\<open>Engine/Vulkan/VulkanBuffer.cpp\<close> and the vertex, index and uniform buffers
  made from it, \<^verbatim>\<open>VertexBuffer.cpp\<close>, \<^verbatim>\<open>IndexBuffer.cpp\<close> and \<^verbatim>\<open>VulkanUniformBuffer.cpp\<close>.

  The device holds buffers and allocations of memory under handles; an allocation is its bytes and the range that is mapped, if any.
  The calls of the Vulkan API are modelled with the rules the specification sets for them (valid handles, memory that is
  not mapped twice, ranges inside the allocation); a call against a rule is the fault \<^const>\<open>ApiMisuse\<close>. Writing
  through a null pointer, through a pointer into memory that is no longer mapped, or outside the mapped range are faults of
  their own. Allocations succeed; how much memory a buffer needs, the memory types of the device, the
  granularity of flushes and what fresh memory holds are given by the device.
\<close>

section \<open>Device memory\<close>

record 'b allocation =
  bytes :: "'b list"
  mapping :: "(nat \<times> nat) option"

record 'b device_memory =
  allocations :: "nat \<rightharpoonup> 'b allocation"
  buffers :: "nat \<rightharpoonup> nat \<times> nat"
  bindings :: "nat \<rightharpoonup> nat"
  next_handle :: nat

text \<open>\<open>buffers\<close> gives the usage and the size of a buffer, \<open>bindings\<close> the memory bound to it.\<close>

record 'b device_limits =
  physical :: vk_device
  memoryTypeBits :: "32 word"
  requiredSize :: "nat \<Rightarrow> nat"
  nonCoherentAtomSize :: nat
  fresh_byte :: 'b

definition HOST_VISIBLE_COHERENT :: "32 word" where
  "HOST_VISIBLE_COHERENT = 0x2 OR 0x4"

definition vkCreateBuffer :: "nat \<Rightarrow> nat \<Rightarrow> 'b device_memory \<Rightarrow> (nat \<times> 'b device_memory) run" where
  "vkCreateBuffer usage n d =
     (if n = 0 then fail (ApiMisuse ''VkBufferCreateInfo: size'')
      else ret (next_handle d, d\<lparr>buffers := (buffers d)(next_handle d \<mapsto> (usage, n)), next_handle := next_handle d + 1\<rparr>))"

definition vkAllocateMemory :: "'b \<Rightarrow> nat \<Rightarrow> 'b device_memory \<Rightarrow> nat \<times> 'b device_memory" where
  "vkAllocateMemory b n d =
     (next_handle d, d\<lparr>allocations := (allocations d)(next_handle d \<mapsto> \<lparr>bytes = replicate n b, mapping = None\<rparr>),
        next_handle := next_handle d + 1\<rparr>)"

definition vkMapMemory :: "nat option \<Rightarrow> nat \<Rightarrow> nat option \<Rightarrow> 'b device_memory \<Rightarrow> ((nat \<times> nat) \<times> 'b device_memory) run" where
  "vkMapMemory memory offset len d =
     (case memory of None \<Rightarrow> fail (ApiMisuse ''vkMapMemory: memory'') | Some m \<Rightarrow>
      case allocations d m of None \<Rightarrow> fail (ApiMisuse ''vkMapMemory: memory'') | Some a \<Rightarrow>
      if mapping a \<noteq> None then fail (ApiMisuse ''vkMapMemory: mapped'')
      else if \<not> offset < length (bytes a) then fail (ApiMisuse ''vkMapMemory: offset'')
      else let n = (case len of None \<Rightarrow> length (bytes a) - offset | Some n \<Rightarrow> n)
        in if n = 0 \<or> length (bytes a) < offset + n then fail (ApiMisuse ''vkMapMemory: size'')
           else ret ((m, offset), d\<lparr>allocations := (allocations d)(m \<mapsto> a\<lparr>mapping := Some (offset, n)\<rparr>)\<rparr>))"

definition vkUnmapMemory :: "nat option \<Rightarrow> 'b device_memory \<Rightarrow> 'b device_memory run" where
  "vkUnmapMemory memory d =
     (case memory of None \<Rightarrow> fail (ApiMisuse ''vkUnmapMemory: memory'') | Some m \<Rightarrow>
      case allocations d m of None \<Rightarrow> fail (ApiMisuse ''vkUnmapMemory: memory'') | Some a \<Rightarrow>
      if mapping a = None then fail (ApiMisuse ''vkUnmapMemory: not mapped'')
      else ret (d\<lparr>allocations := (allocations d)(m \<mapsto> a\<lparr>mapping := None\<rparr>)\<rparr>))"

definition vkFlushMappedMemoryRanges :: "nat \<Rightarrow> nat option \<Rightarrow> nat \<Rightarrow> nat option \<Rightarrow> 'b device_memory \<Rightarrow> unit run" where
  "vkFlushMappedMemoryRanges atom memory offset len d =
     (case memory of None \<Rightarrow> fail (ApiMisuse ''VkMappedMemoryRange: memory'') | Some m \<Rightarrow>
      case allocations d m of None \<Rightarrow> fail (ApiMisuse ''VkMappedMemoryRange: memory'') | Some a \<Rightarrow>
      case mapping a of None \<Rightarrow> fail (ApiMisuse ''VkMappedMemoryRange: not mapped'') | Some (mo, mn) \<Rightarrow>
      (case len of
         None \<Rightarrow> if mo \<le> offset \<and> offset \<le> mo + mn then ret () else fail (ApiMisuse ''VkMappedMemoryRange: offset'')
       | Some n \<Rightarrow>
           if \<not> (mo \<le> offset \<and> offset + n \<le> mo + mn) then fail (ApiMisuse ''VkMappedMemoryRange: size'')
           else if offset mod atom = 0 \<and> (n mod atom = 0 \<or> offset + n = length (bytes a)) then ret ()
           else fail (ApiMisuse ''VkMappedMemoryRange: nonCoherentAtomSize'')))"

definition vkDestroyBuffer :: "nat \<Rightarrow> 'b device_memory \<Rightarrow> 'b device_memory run" where
  "vkDestroyBuffer b d = (if buffers d b = None then fail (ApiMisuse ''vkDestroyBuffer: buffer'')
     else ret (d\<lparr>buffers := (buffers d)(b := None), bindings := (bindings d)(b := None)\<rparr>))"

definition vkFreeMemory :: "nat \<Rightarrow> 'b device_memory \<Rightarrow> 'b device_memory run" where
  "vkFreeMemory m d = (if allocations d m = None then fail (ApiMisuse ''vkFreeMemory: memory'')
     else ret (d\<lparr>allocations := (allocations d)(m := None)\<rparr>))"

text \<open>Copying \<open>n\<close> bytes to a pointer into device memory: a pointer is the handle of the memory and the position.\<close>

definition overwrite :: "nat \<Rightarrow> 'b list \<Rightarrow> 'b list \<Rightarrow> 'b list" where
  "overwrite at src bs = take at bs @ src @ drop (at + length src) bs"

definition memcpy :: "(nat \<times> nat) option \<Rightarrow> nat \<Rightarrow> 'b list \<Rightarrow> nat \<Rightarrow> 'b device_memory \<Rightarrow> 'b device_memory run" where
  "memcpy ptr offset src n d =
     (case ptr of None \<Rightarrow> fail NullDeref | Some (m, base) \<Rightarrow>
      case allocations d m of None \<Rightarrow> fail Dangling | Some a \<Rightarrow>
      case mapping a of None \<Rightarrow> fail Dangling | Some (mo, mn) \<Rightarrow>
      if length src < n then fail BadIndex
      else if n \<noteq> 0 \<and> \<not> (mo \<le> base + offset \<and> base + offset + n \<le> mo + mn) then fail BadIndex
      else ret (d\<lparr>allocations := (allocations d)(m \<mapsto> a\<lparr>bytes := overwrite (base + offset) (take n src) (bytes a)\<rparr>)\<rparr>))"

section \<open>VulkanBuffer\<close>

record vulkan_buffer =
  vb_buffer :: "nat option"
  vb_memory :: "nat option"
  vb_size :: nat
  vb_mapped :: "(nat \<times> nat) option"
  vb_usage :: nat

definition new_buffer :: "nat \<Rightarrow> vulkan_buffer" where
  "new_buffer usage = \<lparr>vb_buffer = None, vb_memory = None, vb_size = 0, vb_mapped = None, vb_usage = usage\<rparr>"

type_synonym 'b buffer_state = "vulkan_buffer \<times> 'b device_memory"

definition buffer_map :: "nat option \<Rightarrow> nat \<Rightarrow> 'b buffer_state \<Rightarrow> 'b buffer_state run" where
  "buffer_map len offset = (\<lambda>(vb, d). rbind (vkMapMemory (vb_memory vb) offset len d)
     (\<lambda>(p, d). ret (vb\<lparr>vb_mapped := Some p\<rparr>, d)))"

definition unmap :: "'b buffer_state \<Rightarrow> 'b buffer_state run" where
  "unmap = (\<lambda>(vb, d). if vb_mapped vb \<noteq> None
     then rbind (vkUnmapMemory (vb_memory vb) d) (\<lambda>d. ret (vb\<lparr>vb_mapped := None\<rparr>, d))
     else ret (vb, d))"

definition flush :: "nat \<Rightarrow> nat option \<Rightarrow> nat \<Rightarrow> 'b buffer_state \<Rightarrow> 'b buffer_state run" where
  "flush atom len offset = (\<lambda>(vb, d). rbind (vkFlushMappedMemoryRanges atom (vb_memory vb) offset len d) (\<lambda>_. ret (vb, d)))"

text \<open>\<^verbatim>\<open>setData\<close> maps the range and then adds the offset to the pointer that is already at the offset.\<close>

definition setData :: "nat \<Rightarrow> 'b list \<Rightarrow> nat \<Rightarrow> 'b buffer_state \<Rightarrow> 'b buffer_state run" where
  "setData n src offset s = rbind (buffer_map (Some n) offset s) (\<lambda>(vb, d).
     rbind (memcpy (vb_mapped vb) offset src n d) (\<lambda>d. unmap (vb, d)))"

definition init :: "'b device_limits \<Rightarrow> nat \<Rightarrow> nat \<Rightarrow> 'b list option \<Rightarrow> 'b buffer_state \<Rightarrow> 'b buffer_state run" where
  "init dev usage n src = (\<lambda>(vb, d).
     let vb = vb\<lparr>vb_usage := usage, vb_size := n\<rparr> in
     rbind (vkCreateBuffer usage n d) (\<lambda>(b, d).
     let vb = vb\<lparr>vb_buffer := Some b\<rparr> in
     rbind (findMemoryType (physical dev) (memoryTypeBits dev) HOST_VISIBLE_COHERENT) (\<lambda>_.
     let (m, d) = vkAllocateMemory (fresh_byte dev) (requiredSize dev n) d;
         vb = vb\<lparr>vb_memory := Some m\<rparr>;
         d = d\<lparr>bindings := (bindings d)(b \<mapsto> m)\<rparr>
     in case src of None \<Rightarrow> ret (vb, d) | Some src \<Rightarrow> setData n src 0 (vb, d))))"

definition release :: "'b buffer_state \<Rightarrow> 'b buffer_state run" where
  "release = (\<lambda>(vb, d). case vb_buffer vb of
       None \<Rightarrow> ret (vb, d)
     | Some b \<Rightarrow> rbind (vkDestroyBuffer b d) (\<lambda>d. case vb_memory vb of
           None \<Rightarrow> ret (vb, d)
         | Some m \<Rightarrow> rbind (vkFreeMemory m d) (\<lambda>d. ret (vb, d))))"

definition resize :: "'b device_limits \<Rightarrow> nat \<Rightarrow> 'b list option \<Rightarrow> 'b buffer_state \<Rightarrow> 'b buffer_state run" where
  "resize dev n src s = rbind (release s) (\<lambda>(vb, d). init dev (vb_usage vb) n src (vb, d))"

section \<open>Vertex, index and uniform buffers\<close>

definition VERTEX_BUFFER_BIT :: nat where "VERTEX_BUFFER_BIT = 128"
definition INDEX_BUFFER_BIT :: nat where "INDEX_BUFFER_BIT = 64"
definition UNIFORM_BUFFER_BIT :: nat where "UNIFORM_BUFFER_BIT = 16"

text \<open>
  Vertex buffers and index buffers have the same \<^verbatim>\<open>setData\<close>: a new size allocates anew, the same size
  overwrites. The offset of \<^verbatim>\<open>setSubData\<close> is not used. The flag of a vertex buffer is \<^verbatim>\<open>mappedBuffer\<close>.
\<close>

definition buffer_setData :: "'b device_limits \<Rightarrow> nat \<Rightarrow> 'b list \<Rightarrow> 'b buffer_state \<Rightarrow> 'b buffer_state run" where
  "buffer_setData dev n src = (\<lambda>(vb, d).
     if n \<noteq> vb_size vb then resize dev n (Some src) (vb\<lparr>vb_size := n\<rparr>, d) else setData n src 0 (vb, d))"

type_synonym 'b vertex_state = "'b buffer_state \<times> bool"

definition vertex_setData :: "'b device_limits \<Rightarrow> nat \<Rightarrow> 'b list \<Rightarrow> 'b vertex_state \<Rightarrow> 'b vertex_state run" where
  "vertex_setData dev n src = (\<lambda>(s, mappedBuffer). rbind (buffer_setData dev n src s) (\<lambda>s. ret (s, mappedBuffer)))"

definition setSubData :: "'b device_limits \<Rightarrow> nat \<Rightarrow> 'b list \<Rightarrow> nat \<Rightarrow> 'b vertex_state \<Rightarrow> 'b vertex_state run" where
  "setSubData dev n src offset = (\<lambda>(s, mappedBuffer). rbind (buffer_setData dev n src s) (\<lambda>s. ret (s, mappedBuffer)))"

definition vertex_resize :: "'b device_limits \<Rightarrow> nat \<Rightarrow> 'b list option \<Rightarrow> 'b vertex_state \<Rightarrow> 'b vertex_state run" where
  "vertex_resize dev n src = (\<lambda>(s, mappedBuffer). rbind (resize dev n src s) (\<lambda>s. ret (s, mappedBuffer)))"

definition vertex_getPointer :: "'b vertex_state \<Rightarrow> ((nat \<times> nat) option \<times> 'b vertex_state) run" where
  "vertex_getPointer = (\<lambda>(s, mappedBuffer).
     rbind (if \<not> mappedBuffer then buffer_map None 0 s else ret s) (\<lambda>s. ret (vb_mapped (fst s), (s, True))))"

definition releasePointer :: "'b device_limits \<Rightarrow> 'b vertex_state \<Rightarrow> 'b vertex_state run" where
  "releasePointer dev = (\<lambda>(s, mappedBuffer). if mappedBuffer
     then rbind (flush (nonCoherentAtomSize dev) (Some (vb_size (fst s))) 0 s) (\<lambda>s. rbind (unmap s) (\<lambda>s. ret (s, False)))
     else ret (s, mappedBuffer))"

text \<open>The size of an index buffer is computed in 64 bits and passed as 32 bits. It is always bound as 32-bit indices.\<close>

record 'b index_state =
  ib_state :: "'b buffer_state"
  ib_count :: nat

definition IndexBuffer_16 :: "'b device_limits \<Rightarrow> 'b list \<Rightarrow> nat \<Rightarrow> 'b device_memory \<Rightarrow> 'b index_state run" where
  "IndexBuffer_16 dev src count d =
     rbind (init dev INDEX_BUFFER_BIT (count * 2 mod 2 ^ 32) (Some src) (new_buffer INDEX_BUFFER_BIT, d))
       (\<lambda>s. ret \<lparr>ib_state = s, ib_count = count\<rparr>)"

definition IndexBuffer_32 :: "'b device_limits \<Rightarrow> 'b list \<Rightarrow> nat \<Rightarrow> 'b device_memory \<Rightarrow> 'b index_state run" where
  "IndexBuffer_32 dev src count d =
     rbind (init dev INDEX_BUFFER_BIT (count * 4 mod 2 ^ 32) (Some src) (new_buffer INDEX_BUFFER_BIT, d))
       (\<lambda>s. ret \<lparr>ib_state = s, ib_count = count\<rparr>)"

definition index_setData :: "'b device_limits \<Rightarrow> nat \<Rightarrow> 'b list \<Rightarrow> 'b index_state \<Rightarrow> 'b index_state run" where
  "index_setData dev n src ib = rbind (buffer_setData dev n src (ib_state ib)) (\<lambda>s. ret (ib\<lparr>ib_state := s\<rparr>))"

definition setCount :: "nat \<Rightarrow> 'b index_state \<Rightarrow> 'b index_state" where
  "setCount n ib = ib\<lparr>ib_count := n\<rparr>"

definition index_bind :: "'b index_state \<Rightarrow> nat option \<times> nat" where
  "index_bind ib = (vb_buffer (fst (ib_state ib)), 4)"

text \<open>Drawing \<open>count\<close> indices reads that many of the bound width from the buffer.\<close>

definition draw_reads_inside :: "'b device_memory \<Rightarrow> nat option \<times> nat \<Rightarrow> nat \<Rightarrow> bool" where
  "draw_reads_inside d = (\<lambda>(b, width) count. case b of None \<Rightarrow> False | Some b \<Rightarrow>
     (case buffers d b of None \<Rightarrow> False | Some (usage, n) \<Rightarrow> count * width \<le> n))"

definition uniform_init :: "'b device_limits \<Rightarrow> nat \<Rightarrow> 'b list option \<Rightarrow> 'b buffer_state \<Rightarrow> 'b buffer_state run" where
  "uniform_init dev n src s = init dev UNIFORM_BUFFER_BIT n src s"

definition setDynamicData :: "'b device_limits \<Rightarrow> nat \<Rightarrow> nat \<Rightarrow> 'b list \<Rightarrow> 'b buffer_state \<Rightarrow> 'b buffer_state run" where
  "setDynamicData dev n typeSize src s = rbind (buffer_map None 0 s) (\<lambda>(vb, d).
     rbind (memcpy (vb_mapped vb) 0 src n d) (\<lambda>d.
     rbind (flush (nonCoherentAtomSize dev) (Some n) 0 (vb, d)) unmap))"

definition uniform_setData :: "nat \<Rightarrow> 'b list \<Rightarrow> nat \<Rightarrow> 'b buffer_state \<Rightarrow> 'b buffer_state run" where
  "uniform_setData n src offset s = setData n src offset s"


section \<open>Writing data\<close>

lemma overwrite_length [simp]: "at + length src \<le> length bs \<Longrightarrow> length (overwrite at src bs) = length bs"
  by (simp add: overwrite_def)

lemma overwrite_prefix: "length src \<le> length bs \<Longrightarrow> take (length src) (overwrite 0 src bs) = src"
  by (simp add: overwrite_def)

lemma overwrite_take: "at + length src \<le> n \<Longrightarrow> n \<le> length bs \<Longrightarrow> take n (overwrite at src bs) = overwrite at src (take n bs)"
  by (simp add: overwrite_def drop_take)

text \<open>On memory that is not mapped, \<^const>\<open>setData\<close> succeeds for offset zero only.\<close>

lemma setData_eq:
  assumes "vb_memory vb = Some m" "allocations d m = Some a" "mapping a = None" "vb_mapped vb = None"
    and "0 < n" "n \<le> length src" "offset + n \<le> length (bytes a)"
  shows "setData n src offset (vb, d) =
    (if offset = 0
     then ret (vb, d\<lparr>allocations := (allocations d)(m \<mapsto> a\<lparr>bytes := overwrite 0 (take n src) (bytes a)\<rparr>)\<rparr>)
     else fail BadIndex)"
proof -
  have a: "a\<lparr>mapping := None\<rparr> = a" using assms(3) by (cases a) simp
  have vb: "vb\<lparr>vb_mapped := None\<rparr> = vb" using assms(4) by (cases vb) simp
  have [simp]: "a\<lparr>bytes := bs, mapping := None\<rparr> = a\<lparr>bytes := bs\<rparr>" for bs using a by (cases a) simp
  show ?thesis
    using assms vb by (auto simp: setData_def buffer_map_def unmap_def vkMapMemory_def vkUnmapMemory_def memcpy_def)
qed

text \<open>
  The rules of \<^const>\<open>setData\<close>: data at the start of the memory is stored and nothing else changes; data at any
  other offset is written at twice the offset, which is outside of the mapped range.
\<close>

theorem setData_offset_faults:
  assumes "vb_memory vb = Some m" "allocations d m = Some a" "mapping a = None" "vb_mapped vb = None"
    and "0 < n" "n \<le> length src" "0 < offset" "offset + n \<le> length (bytes a)"
  shows "setData n src offset (vb, d) = fail BadIndex"
  using setData_eq[OF assms(1-6,8)] assms(7) by simp

section \<open>Creation and destruction\<close>

definition good_limits :: "'b device_limits \<Rightarrow> bool" where
  "good_limits dev \<longleftrightarrow>
     (\<exists>i. findMemoryType (physical dev) (memoryTypeBits dev) HOST_VISIBLE_COHERENT = ret i) \<and> (\<forall>n. n \<le> requiredSize dev n)"

definition created :: "'b device_limits \<Rightarrow> nat \<Rightarrow> nat \<Rightarrow> 'b list \<Rightarrow> 'b buffer_state \<Rightarrow> 'b buffer_state" where
  "created dev usage n bs = (\<lambda>(vb, d). let b = next_handle d; m = b + 1 in
     (vb\<lparr>vb_usage := usage, vb_size := n, vb_buffer := Some b, vb_memory := Some m\<rparr>,
      d\<lparr>buffers := (buffers d)(b \<mapsto> (usage, n)),
        allocations := (allocations d)(m \<mapsto> \<lparr>bytes = bs, mapping = None\<rparr>),
        next_handle := b + 2, bindings := (bindings d)(b \<mapsto> m)\<rparr>))"

lemma init_eq:
  assumes "good_limits dev" "0 < n"
  shows "init dev usage n None (vb, d) =
      ret (created dev usage n (replicate (requiredSize dev n) (fresh_byte dev)) (vb, d))"
    and "n \<le> length src \<Longrightarrow> vb_mapped vb = None \<Longrightarrow> init dev usage n (Some src) (vb, d) =
      ret (created dev usage n (take n src @ replicate (requiredSize dev n - n) (fresh_byte dev)) (vb, d))"
proof -
  obtain i where i: "findMemoryType (physical dev) (memoryTypeBits dev) HOST_VISIBLE_COHERENT = ret i"
    using assms(1) by (auto simp: good_limits_def)
  have n: "n \<le> requiredSize dev n" using assms(1) by (auto simp: good_limits_def)
  let ?m = "next_handle d + 1"
  let ?c = "created dev usage n (replicate (requiredSize dev n) (fresh_byte dev)) (vb, d)"
  have base: "init dev usage n src (vb, d) =
      (case src of None \<Rightarrow> ret ?c | Some src \<Rightarrow> setData n src 0 ?c)" for src
    using i assms(2)
    by (simp add: init_def created_def vkCreateBuffer_def vkAllocateMemory_def Let_def split: option.split)
  then show "init dev usage n None (vb, d) = ret ?c" by simp
  assume src: "n \<le> length src" "vb_mapped vb = None"
  have "overwrite 0 (take n src) (replicate (requiredSize dev n) (fresh_byte dev)) =
      take n src @ replicate (requiredSize dev n - n) (fresh_byte dev)"
    using src(1) by (simp add: overwrite_def min_absorb2)
  then show "init dev usage n (Some src) (vb, d) =
      ret (created dev usage n (take n src @ replicate (requiredSize dev n - n) (fresh_byte dev)) (vb, d))"
    using src assms(2) n by (simp add: base) (simp add: created_def Let_def setData_eq)
qed

section \<open>A vertex buffer stands for the bytes last written\<close>

text \<open>
  The operations on one vertex buffer, and what they mean for the bytes it holds: \<^term>\<open>None\<close> before the first allocation, and
  a flag that says whether the client has the pointer. \<^verbatim>\<open>Write\<close> is the client writing through the pointer.
\<close>

datatype 'b vertex_op =
    SetData nat "'b list"
  | SetSubData nat "'b list" nat
  | Resize nat "'b list option"
  | GetPointer
  | Write nat "'b list"
  | ReleasePointer

fun vertex_step :: "'b device_limits \<Rightarrow> 'b vertex_op \<Rightarrow> 'b vertex_state \<Rightarrow> 'b vertex_state run" where
  "vertex_step dev (SetData n src) v = vertex_setData dev n src v"
| "vertex_step dev (SetSubData n src offset) v = setSubData dev n src offset v"
| "vertex_step dev (Resize n src) v = vertex_resize dev n src v"
| "vertex_step dev GetPointer v = rbind (vertex_getPointer v) (\<lambda>(p, v). ret v)"
| "vertex_step dev (Write k xs) v = rbind (vertex_getPointer v) (\<lambda>(p, ((vb, d), f)).
     rbind (memcpy p k xs (length xs) d) (\<lambda>d. ret ((vb, d), f)))"
| "vertex_step dev ReleasePointer v = releasePointer dev v"

definition vertex_destroy :: "'b vertex_state \<Rightarrow> 'b device_memory run" where
  "vertex_destroy v = rbind (release (fst v)) (\<lambda>(vb, d). ret d)"

type_synonym 'b held = "'b list option \<times> bool"

fun held_step :: "'b device_limits \<Rightarrow> 'b vertex_op \<Rightarrow> 'b held \<Rightarrow> 'b held" where
  "held_step dev (SetData n src) (c, p) = (Some (take n src), p)"
| "held_step dev (SetSubData n src offset) (c, p) = (Some (take n src), p)"
| "held_step dev (Resize n (Some src)) (c, p) = (Some (take n src), p)"
| "held_step dev (Resize n None) (c, p) = (Some (replicate n (fresh_byte dev)), p)"
| "held_step dev GetPointer (c, p) = (c, True)"
| "held_step dev (Write k xs) (c, p) = (map_option (overwrite k xs) c, True)"
| "held_step dev ReleasePointer (c, p) = (c, False)"

text \<open>
  What the callers have to keep: no empty data, no more bytes than there are, no new data while the
  pointer is out, no pointer before the first allocation, and a size that may be flushed.
\<close>

fun allowed :: "'b device_limits \<Rightarrow> 'b vertex_op \<Rightarrow> 'b held \<Rightarrow> bool" where
  "allowed dev (SetData n src) (c, p) = (\<not> p \<and> 0 < n \<and> n \<le> length src)"
| "allowed dev (SetSubData n src offset) (c, p) = (\<not> p \<and> 0 < n \<and> n \<le> length src)"
| "allowed dev (Resize n src) (c, p) = (\<not> p \<and> 0 < n \<and> (case src of None \<Rightarrow> True | Some src \<Rightarrow> n \<le> length src))"
| "allowed dev GetPointer (c, p) = (c \<noteq> None)"
| "allowed dev (Write k xs) (c, p) = (case c of None \<Rightarrow> False | Some bs \<Rightarrow> k + length xs \<le> length bs)"
| "allowed dev ReleasePointer (c, p) = (p \<longrightarrow> (case c of None \<Rightarrow> False | Some bs \<Rightarrow>
     length bs mod nonCoherentAtomSize dev = 0 \<or> length bs = requiredSize dev (length bs)))"

fun all_allowed :: "'b device_limits \<Rightarrow> 'b vertex_op list \<Rightarrow> 'b held \<Rightarrow> bool" where
  "all_allowed dev [] h = True"
| "all_allowed dev (op # ops) h = (allowed dev op h \<and> all_allowed dev ops (held_step dev op h))"

text \<open>
  A vertex buffer beside the rest \<open>d0\<close> of the device: either it has no device objects, or exactly one buffer
  and one allocation are there in addition, with handles that the rest does not use.
\<close>

definition unused :: "'b device_memory \<Rightarrow> nat \<Rightarrow> bool" where
  "unused d h \<longleftrightarrow> buffers d h = None \<and> allocations d h = None \<and> bindings d h = None"

definition beside :: "'b device_memory \<Rightarrow> 'b device_memory \<Rightarrow> bool" where
  "beside d0 d \<longleftrightarrow> buffers d = buffers d0 \<and> allocations d = allocations d0 \<and> bindings d = bindings d0"

definition holds :: "'b device_limits \<Rightarrow> 'b device_memory \<Rightarrow> 'b held \<Rightarrow> 'b vertex_state \<Rightarrow> bool" where
  "holds dev d0 = (\<lambda>(c, p) ((vb, d), f). f = p \<and> (\<forall>h \<ge> next_handle d. unused d0 h) \<and>
     (case c of
        None \<Rightarrow> \<not> p \<and> vb_buffer vb = None \<and> vb_memory vb = None \<and> vb_mapped vb = None \<and> vb_size vb = 0 \<and> beside d0 d
      | Some bs \<Rightarrow> \<exists>b m a. vb_buffer vb = Some b \<and> vb_memory vb = Some m \<and> vb_size vb = length bs \<and> bs \<noteq> [] \<and>
          unused d0 b \<and> unused d0 m \<and>
          buffers d = (buffers d0)(b \<mapsto> (vb_usage vb, length bs)) \<and> allocations d = (allocations d0)(m \<mapsto> a) \<and>
          bindings d = (bindings d0)(b \<mapsto> m) \<and>
          length (bytes a) = requiredSize dev (length bs) \<and> take (length bs) (bytes a) = bs \<and>
          mapping a = (if p then Some (0, length (bytes a)) else None) \<and> vb_mapped vb = (if p then Some (m, 0) else None)))"


lemma created_holds:
  assumes "beside d0 d" "\<forall>h \<ge> next_handle d. unused d0 h" "vb_mapped vb = None"
    and "bs \<noteq> []" "length raw = requiredSize dev (length bs)" "take (length bs) raw = bs"
  shows "holds dev d0 (Some bs, False) (created dev usage (length bs) raw (vb, d), False)"
  using assms by (auto simp: holds_def created_def Let_def beside_def)

lemma release_holds:
  assumes "holds dev d0 (c, p) ((vb, d), f)"
  shows "\<exists>d'. release (vb, d) = ret (vb, d') \<and> beside d0 d' \<and> next_handle d' = next_handle d"
proof (cases c)
  case None
  then show ?thesis using assms by (auto simp: holds_def release_def)
next
  case (Some bs)
  with assms obtain b m a where *: "vb_buffer vb = Some b" "vb_memory vb = Some m" "unused d0 b" "unused d0 m"
    "buffers d = (buffers d0)(b \<mapsto> (vb_usage vb, length bs))" "allocations d = (allocations d0)(m \<mapsto> a)"
    "bindings d = (bindings d0)(b \<mapsto> m)"
    by (auto simp: holds_def)
  have "(buffers d0)(b := None) = buffers d0" "(bindings d0)(b := None) = bindings d0"
    "(allocations d0)(m := None) = allocations d0"
    using *(3,4) by (auto simp: unused_def fun_upd_idem)
  with * show ?thesis by (simp add: release_def vkDestroyBuffer_def vkFreeMemory_def beside_def)
qed

lemma resize_holds:
  assumes "good_limits dev" "holds dev d0 (c, False) ((vb, d), f)" "0 < n"
  shows "\<exists>s. resize dev n None (vb, d) = ret s \<and> holds dev d0 (Some (replicate n (fresh_byte dev)), False) (s, False)"
    and "n \<le> length src \<Longrightarrow> \<exists>s. resize dev n (Some src) (vb, d) = ret s \<and> holds dev d0 (Some (take n src), False) (s, False)"
proof -
  obtain d' where d': "release (vb, d) = ret (vb, d')" "beside d0 d'" "next_handle d' = next_handle d"
    using release_holds[OF assms(2)] by blast
  have m: "vb_mapped vb = None" and u: "\<forall>h \<ge> next_handle d'. unused d0 h"
    using assms(2) d'(3) by (auto simp: holds_def split: option.splits)
  have n: "n \<le> requiredSize dev n" using assms(1) by (simp add: good_limits_def)
  show "\<exists>s. resize dev n None (vb, d) = ret s \<and> holds dev d0 (Some (replicate n (fresh_byte dev)), False) (s, False)"
    using created_holds[OF d'(2) u m, of "replicate n (fresh_byte dev)" "replicate (requiredSize dev n) (fresh_byte dev)" dev]
      assms(3) n by (simp add: resize_def d'(1) init_eq(1)[OF assms(1,3)] min_absorb1)
  assume src: "n \<le> length src"
  with assms(3) have "src \<noteq> []" by auto
  with src show "\<exists>s. resize dev n (Some src) (vb, d) = ret s \<and> holds dev d0 (Some (take n src), False) (s, False)"
    using created_holds[OF d'(2) u m, of "take n src" "take n src @ replicate (requiredSize dev n - n) (fresh_byte dev)" dev]
      assms(3) n by (auto simp: resize_def d'(1) init_eq(2)[OF assms(1,3) src m] min_absorb2)
qed

lemma buffer_setData_holds:
  assumes "good_limits dev" "holds dev d0 (c, False) ((vb, d), f)" "0 < n" "n \<le> length src"
  shows "\<exists>s. buffer_setData dev n src (vb, d) = ret s \<and> holds dev d0 (Some (take n src), False) (s, False)"
proof (cases "n = vb_size vb")
  case False
  obtain d' where d': "release (vb, d) = ret (vb, d')" "beside d0 d'" "next_handle d' = next_handle d"
    using release_holds[OF assms(2)] by blast
  have "release (vb\<lparr>vb_size := n\<rparr>, d) = ret (vb\<lparr>vb_size := n\<rparr>, d')"
    using d'(1) by (auto simp: release_def split: option.splits dest!: rbind_ret_eqD)
  moreover have "init dev (vb_usage vb) n (Some src) (vb\<lparr>vb_size := n\<rparr>, d') = init dev (vb_usage vb) n (Some src) (vb, d')"
    by (simp add: init_def)
  ultimately have "buffer_setData dev n src (vb, d) = resize dev n (Some src) (vb, d)"
    using False d'(1) by (simp add: buffer_setData_def resize_def)
  then show ?thesis using resize_holds(2)[OF assms] by simp
next
  case True
  with assms(2,3) obtain bs b m a where c: "c = Some bs" "n = length bs" "bs \<noteq> []" "\<forall>h \<ge> next_handle d. unused d0 h"
    "vb_buffer vb = Some b" "vb_memory vb = Some m" "unused d0 b" "unused d0 m"
    "buffers d = (buffers d0)(b \<mapsto> (vb_usage vb, length bs))" "allocations d = (allocations d0)(m \<mapsto> a)"
    "bindings d = (bindings d0)(b \<mapsto> m)" "length (bytes a) = requiredSize dev (length bs)"
    "mapping a = None" "vb_mapped vb = None" "vb_size vb = length bs"
    by (cases c) (auto simp: holds_def)
  have n: "n \<le> length (bytes a)" using assms(1) c(2,12) by (simp add: good_limits_def)
  have eq: "setData n src 0 (vb, d) =
      ret (vb, d\<lparr>allocations := (allocations d)(m \<mapsto> a\<lparr>bytes := overwrite 0 (take n src) (bytes a)\<rparr>)\<rparr>)"
    using setData_eq[of vb m d a n src 0] c assms(3,4) n by simp
  have "take n (overwrite 0 (take n src) (bytes a)) = take n src"
    using overwrite_prefix[of "take n src" "bytes a"] assms(4) n by (simp add: min_absorb2)
  then show ?thesis using c eq True n assms(3,4) by (auto simp: buffer_setData_def holds_def min_absorb2)
qed


lemma holds_SomeE:
  assumes "holds dev d0 (Some bs, p) ((vb, d), f)"
  obtains b m a where "f = p" "\<forall>h \<ge> next_handle d. unused d0 h" "vb_buffer vb = Some b" "vb_memory vb = Some m"
    "vb_size vb = length bs" "bs \<noteq> []" "unused d0 b" "unused d0 m"
    "buffers d = (buffers d0)(b \<mapsto> (vb_usage vb, length bs))" "allocations d = (allocations d0)(m \<mapsto> a)"
    "bindings d = (bindings d0)(b \<mapsto> m)" "length (bytes a) = requiredSize dev (length bs)" "take (length bs) (bytes a) = bs"
    "mapping a = (if p then Some (0, length (bytes a)) else None)" "vb_mapped vb = (if p then Some (m, 0) else None)"
  using assms unfolding holds_def prod.case option.case by (elim conjE exE) blast

lemma holds_remap:
  assumes "holds dev d0 (Some bs, p) ((vb, d), f)" "vb_memory vb = Some m" "allocations d m = Some a"
    and "length bs' = length bs" "length raw = length (bytes a)" "take (length bs') raw = bs'"
    and "mapping a' = (if p' then Some (0, length raw) else None)" "bytes a' = raw"
  shows "holds dev d0 (Some bs', p')
    ((vb\<lparr>vb_mapped := (if p' then Some (m, 0) else None)\<rparr>, d\<lparr>allocations := (allocations d)(m \<mapsto> a')\<rparr>), p')"
  using assms by (cases p') (auto simp: holds_def intro!: exI[of _ a'])

lemma getPointer_holds:
  assumes "good_limits dev" "holds dev d0 (Some bs, p) v"
  shows "\<exists>vb d m. vertex_getPointer v = ret (Some (m, 0), ((vb, d), True)) \<and> holds dev d0 (Some bs, True) ((vb, d), True)"
proof -
  obtain vb d f where v: "v = ((vb, d), f)" by (metis surj_pair)
  note h = assms(2)[unfolded v]
  from h show ?thesis
  proof (cases rule: holds_SomeE)
    case (1 b m a)
    show ?thesis
    proof (cases p)
      case True
      with 1 h show ?thesis by (simp add: v vertex_getPointer_def)
    next
      case False
      have "0 < length (bytes a)"
        using 1 assms(1) by (metis good_limits_def le_zero_eq length_0_conv neq0_conv)
      moreover have "holds dev d0 (Some bs, True) ((vb\<lparr>vb_mapped := Some (m, 0)\<rparr>,
          d\<lparr>allocations := (allocations d)(m \<mapsto> a\<lparr>mapping := Some (0, length (bytes a))\<rparr>)\<rparr>), True)"
        using holds_remap[OF h, of m a bs "bytes a" "a\<lparr>mapping := Some (0, length (bytes a))\<rparr>" True] 1 by simp
      ultimately show ?thesis
        using 1 False by (auto simp: v vertex_getPointer_def buffer_map_def vkMapMemory_def)
    qed
  qed
qed

lemma write_holds:
  assumes "good_limits dev" "holds dev d0 (Some bs, p) v" "k + length xs \<le> length bs"
  shows "\<exists>v'. vertex_step dev (Write k xs) v = ret v' \<and> holds dev d0 (Some (overwrite k xs bs), True) v'"
proof -
  obtain vb d m where g: "vertex_getPointer v = ret (Some (m, 0), ((vb, d), True))" "holds dev d0 (Some bs, True) ((vb, d), True)"
    using getPointer_holds[OF assms(1,2)] by blast
  from g(2) show ?thesis
  proof (cases rule: holds_SomeE)
    case (1 b m' a)
    have m: "m' = m" using g(1) 1
      by (auto simp: vertex_getPointer_def buffer_map_def split: if_splits prod.splits dest!: rbind_ret_eqD)
    have le: "length bs \<le> length (bytes a)" using 1 assms(1) by (simp add: good_limits_def)
    let ?raw = "overwrite k xs (bytes a)"
    have len: "length ?raw = length (bytes a)" using assms(3) le by simp
    have tk: "take (length bs) ?raw = overwrite k xs bs"
      using overwrite_take[of k xs "length bs" "bytes a"] assms(3) le 1 by simp
    have lb: "length (overwrite k xs bs) = length bs" using assms(3) by simp
    have [simp]: "vb\<lparr>vb_mapped := Some (m, 0)\<rparr> = vb" using 1 m by (cases vb) simp
    have "holds dev d0 (Some (overwrite k xs bs), True) ((vb, d\<lparr>allocations := (allocations d)(m \<mapsto> a\<lparr>bytes := ?raw\<rparr>)\<rparr>), True)"
      using holds_remap[OF g(2), of m a "overwrite k xs bs" ?raw "a\<lparr>bytes := ?raw\<rparr>" True] 1 m len tk lb by simp
    then show ?thesis using 1 m g(1) assms(3) le by (auto simp: memcpy_def)
  qed
qed

lemma releasePointer_holds:
  assumes "good_limits dev" "holds dev d0 (c, p) v" "allowed dev ReleasePointer (c, p)"
  shows "\<exists>v'. releasePointer dev v = ret v' \<and> holds dev d0 (c, False) v'"
proof (cases p)
  case False
  obtain vb d f where v: "v = ((vb, d), f)" by (metis surj_pair)
  have "\<not> f" using assms(2) False by (simp add: v holds_def)
  then show ?thesis using assms(2) False by (simp add: v releasePointer_def)
next
  case True
  with assms(3) obtain bs where c: "c = Some bs"
    "length bs mod nonCoherentAtomSize dev = 0 \<or> length bs = requiredSize dev (length bs)" by (auto split: option.splits)
  obtain vb d f where v: "v = ((vb, d), f)" by (metis surj_pair)
  note h = assms(2)[unfolded v c(1)]
  from h show ?thesis
  proof (cases rule: holds_SomeE)
    case (1 b m a)
    have "length bs \<le> length (bytes a)" using 1 assms(1) by (simp add: good_limits_def)
    moreover have "holds dev d0 (Some bs, False) ((vb\<lparr>vb_mapped := None\<rparr>,
        d\<lparr>allocations := (allocations d)(m \<mapsto> a\<lparr>mapping := None\<rparr>)\<rparr>), False)"
      using holds_remap[OF h, of m a bs "bytes a" "a\<lparr>mapping := None\<rparr>" False] 1 by simp
    ultimately show ?thesis
      using 1 True c by (auto simp: v releasePointer_def flush_def unmap_def vkFlushMappedMemoryRanges_def vkUnmapMemory_def)
  qed
qed

lemma vertex_step_holds:
  assumes "good_limits dev" "holds dev d0 h v" "allowed dev op h"
  shows "\<exists>v'. vertex_step dev op v = ret v' \<and> holds dev d0 (held_step dev op h) v'"
proof -
  obtain c p where h: "h = (c, p)" by force
  obtain vb d f where v: "v = ((vb, d), f)" by (metis surj_pair)
  have f: "f = p" using assms(2) by (simp add: h v holds_def)
  show ?thesis
  proof (cases op)
    case (SetData n src)
    then show ?thesis using assms buffer_setData_holds[of dev d0 c vb d f n src] by (auto simp: h v f vertex_setData_def)
  next
    case (SetSubData n src offset)
    then show ?thesis using assms buffer_setData_holds[of dev d0 c vb d f n src] by (auto simp: h v f setSubData_def)
  next
    case (Resize n src)
    with assms have r: "holds dev d0 (c, False) ((vb, d), f)" "0 < n" "\<not> p" by (auto simp: h v)
    show ?thesis
    proof (cases src)
      case None
      then show ?thesis using Resize r resize_holds(1)[OF assms(1) r(1,2)] by (auto simp: h v f vertex_resize_def)
    next
      case (Some xs)
      then have "n \<le> length xs" using Resize assms(3) by (simp add: h)
      from resize_holds(2)[OF assms(1) r(1,2) this] show ?thesis using Resize Some r by (auto simp: h v f vertex_resize_def)
    qed
  next
    case GetPointer
    then obtain bs where "c = Some bs" using assms(3) by (auto simp: h)
    then show ?thesis using GetPointer assms(2) getPointer_holds[OF assms(1), of d0 bs p v] by (auto simp: h)
  next
    case (Write k xs)
    then obtain bs where "c = Some bs" "k + length xs \<le> length bs" using assms(3) by (auto simp: h split: option.splits)
    then show ?thesis using Write assms(2) write_holds[OF assms(1), of d0 bs p v k xs] by (simp add: h)
  next
    case ReleasePointer
    then show ?thesis using releasePointer_holds[OF assms(1), of d0 c p v] assms(2,3) by (simp add: h)
  qed
qed

lemma vertex_ops_hold:
  "good_limits dev \<Longrightarrow> holds dev d0 h v \<Longrightarrow> all_allowed dev ops h \<Longrightarrow>
   \<exists>v'. rfold (vertex_step dev) ops v = ret v' \<and> holds dev d0 (fold (held_step dev) ops h) v'"
proof (induction ops arbitrary: h v)
  case (Cons op ops)
  then show ?case using vertex_step_holds[of dev d0 h v op] by fastforce
qed simp

section \<open>Properties of the buffers\<close>

definition fresh_above :: "'b device_memory \<Rightarrow> bool" where
  "fresh_above d \<longleftrightarrow> (\<forall>h \<ge> next_handle d. unused d h)"

definition buffer_contents :: "'b vertex_state \<Rightarrow> 'b list option" where
  "buffer_contents = (\<lambda>((vb, d), f). case vb_memory vb of None \<Rightarrow> None | Some m \<Rightarrow>
     map_option (\<lambda>a. take (vb_size vb) (bytes a)) (allocations d m))"

lemma holds_contents: "holds dev d0 (c, p) v \<Longrightarrow> buffer_contents v = c"
proof -
  assume "holds dev d0 (c, p) v"
  moreover obtain vb d f where "v = ((vb, d), f)" by (metis surj_pair)
  ultimately show ?thesis by (cases c) (auto simp: holds_def buffer_contents_def)
qed

text \<open>
  C32: A vertex buffer through any sequence of operations that keeps the rules for callers, on a device where
  memory the host can see is available: no call breaks a rule of the API or faults, the memory holds the bytes that were last written,
  and nothing else on the device changes: destroying the buffer leaves the buffers and allocations that were there before it was created.
\<close>

theorem vertex_buffer_refines:
  assumes "good_limits dev" "fresh_above d0" "all_allowed dev ops (None, False)"
  shows "\<exists>v d. rfold (vertex_step dev) ops ((new_buffer VERTEX_BUFFER_BIT, d0), False) = ret v \<and>
    buffer_contents v = fst (fold (held_step dev) ops (None, False)) \<and>
    vertex_destroy v = ret d \<and> buffers d = buffers d0 \<and> allocations d = allocations d0 \<and> bindings d = bindings d0"
proof -
  have "holds dev d0 (None, False) ((new_buffer VERTEX_BUFFER_BIT, d0), False)"
    using assms(2) by (simp add: holds_def new_buffer_def beside_def fresh_above_def)
  from vertex_ops_hold[OF assms(1) this assms(3)] obtain v where
    v: "rfold (vertex_step dev) ops ((new_buffer VERTEX_BUFFER_BIT, d0), False) = ret v"
       "holds dev d0 (fold (held_step dev) ops (None, False)) v" by blast
  obtain vb d f where s: "v = ((vb, d), f)" by (metis surj_pair)
  obtain c p where h: "fold (held_step dev) ops (None, False) = (c, p)" by force
  obtain d' where "release (vb, d) = ret (vb, d')" "beside d0 d'"
    using release_holds v(2) unfolding s h by blast
  then have "vertex_destroy v = ret d'" "buffers d' = buffers d0" "allocations d' = allocations d0" "bindings d' = bindings d0"
    by (simp_all add: vertex_destroy_def s beside_def)
  moreover have "buffer_contents v = fst (fold (held_step dev) ops (None, False))"
    using holds_contents[of dev d0 c p v] v(2) by (simp add: h)
  ultimately show ?thesis using v(1) by blast
qed


definition host_limits :: "nat device_limits" where
  "host_limits = \<lparr>physical = small_gpu\<lparr>memoryTypes := [1, 7]\<rparr>, memoryTypeBits = 3, requiredSize = (\<lambda>n. n + 2),
     nonCoherentAtomSize = 2, fresh_byte = 0\<rparr>"

definition empty_device :: "'b device_memory" where
  "empty_device = \<lparr>allocations = (\<lambda>_. None), buffers = (\<lambda>_. None), bindings = (\<lambda>_. None), next_handle = 0\<rparr>"

lemma host_limits_good: "good_limits host_limits"
proof -
  have "findMemoryType (small_gpu\<lparr>memoryTypes := [1, 7]\<rparr>) 3 HOST_VISIBLE_COHERENT = ret 1"
    by (simp add: findMemoryType_def memory_fits_def HOST_VISIBLE_COHERENT_def upt_rec)
  then show ?thesis by (auto simp: good_limits_def host_limits_def)
qed

lemma empty_device_fresh: "fresh_above empty_device"
  by (simp add: fresh_above_def unused_def empty_device_def)

theorem vertex_buffer_refines_witness:
  "\<exists>v d. rfold (vertex_step host_limits) [Resize 4 None, GetPointer, Write 1 [7, 8], ReleasePointer, SetData 3 [5, 6, 9]]
      ((new_buffer VERTEX_BUFFER_BIT, empty_device), False) = ret v \<and>
    buffer_contents v = Some [5, 6, 9] \<and> vertex_destroy v = ret d \<and> allocations d = allocations empty_device"
proof -
  let ?ops = "[Resize 4 None, GetPointer, Write 1 [7, 8], ReleasePointer, SetData 3 [5, 6, 9 :: nat]]"
  have "all_allowed host_limits ?ops (None, False)" "fst (fold (held_step host_limits) ?ops (None, False)) = Some [5, 6, 9]"
    by (simp_all add: host_limits_def overwrite_def)
  with vertex_buffer_refines[OF host_limits_good empty_device_fresh, of ?ops] show ?thesis by metis
qed

text \<open>
  Data for a vertex buffer whose pointer is out: of the same size it maps the memory a second time, which the API forbids;
  of another size it is stored in new memory, and from then on \<^verbatim>\<open>getPointer\<close> returns the null pointer, because the flag still says
  that the memory is mapped.
\<close>

lemma setData_unmaps:
  assumes "vb_memory vb = Some m" "allocations d m = Some a" "mapping a = None"
    and "0 < n" "n \<le> length src" "n \<le> length (bytes a)"
  shows "\<exists>d'. setData n src 0 (vb, d) = ret (vb\<lparr>vb_mapped := None\<rparr>, d')"
  using assms by (auto simp: setData_def buffer_map_def unmap_def vkMapMemory_def vkUnmapMemory_def memcpy_def)

lemma resize_unmaps:
  assumes "good_limits dev" "holds dev d0 (Some bs, p) ((vb, d), f)" "0 < n" "n \<le> length src"
  shows "\<exists>vb' d'. resize dev n (Some src) (vb\<lparr>vb_size := k\<rparr>, d) = ret (vb', d') \<and> vb_mapped vb' = None"
proof -
  have "release (vb\<lparr>vb_size := k\<rparr>, d) = rbind (release (vb, d)) (\<lambda>(vb, d). ret (vb\<lparr>vb_size := k\<rparr>, d))"
    by (auto simp: release_def vkDestroyBuffer_def vkFreeMemory_def split: option.splits)
  then obtain d' where r: "release (vb\<lparr>vb_size := k\<rparr>, d) = ret (vb\<lparr>vb_size := k\<rparr>, d')"
    using release_holds[OF assms(2)] by auto
  obtain i where i: "findMemoryType (physical dev) (memoryTypeBits dev) HOST_VISIBLE_COHERENT = ret i" "n \<le> requiredSize dev n"
    using assms(1) by (auto simp: good_limits_def)
  let ?vb = "fst (created dev (vb_usage vb) n [] (vb, d'))"
    and ?d = "snd (created dev (vb_usage vb) n (replicate (requiredSize dev n) (fresh_byte dev)) (vb, d'))"
  have "resize dev n (Some src) (vb\<lparr>vb_size := k\<rparr>, d) = setData n src 0 (?vb, ?d)"
    using i assms(3) by (simp add: resize_def r init_def created_def vkCreateBuffer_def vkAllocateMemory_def Let_def)
  also have "\<exists>d''. \<dots> = ret (?vb\<lparr>vb_mapped := None\<rparr>, d'')"
    by (rule setData_unmaps[where m = "next_handle d' + 1" and
        a = "\<lparr>bytes = replicate (requiredSize dev n) (fresh_byte dev), mapping = None\<rparr>"]) (use assms(3,4) i in \<open>simp_all add: created_def Let_def\<close>)
  finally show ?thesis by fastforce
qed

theorem setData_while_pointer_out:
  assumes "good_limits dev" "fresh_above d0" "all_allowed dev ops (None, False)"
    and "fold (held_step dev) ops (None, False) = (Some bs, True)" "0 < n" "n \<le> length src"
  shows "\<exists>v. rfold (vertex_step dev) ops ((new_buffer VERTEX_BUFFER_BIT, d0), False) = ret v \<and>
    (if n = length bs then vertex_setData dev n src v = fail (ApiMisuse ''vkMapMemory: mapped'')
     else \<exists>v' v''. vertex_setData dev n src v = ret v' \<and> vertex_getPointer v' = ret (None, v''))"
proof -
  have "holds dev d0 (None, False) ((new_buffer VERTEX_BUFFER_BIT, d0), False)"
    using assms(2) by (simp add: holds_def new_buffer_def beside_def fresh_above_def)
  from vertex_ops_hold[OF assms(1) this assms(3)] obtain vb d f where
    v: "rfold (vertex_step dev) ops ((new_buffer VERTEX_BUFFER_BIT, d0), False) = ret ((vb, d), f)"
       "holds dev d0 (Some bs, True) ((vb, d), f)" unfolding assms(4) by auto
  from v(2) show ?thesis
  proof (cases rule: holds_SomeE)
    case (1 b m a)
    show ?thesis
    proof (cases "n = length bs")
      case True
      then show ?thesis
        using v(1) 1 by (simp add: vertex_setData_def buffer_setData_def setData_def buffer_map_def vkMapMemory_def)
    next
      case False
      obtain vb' d' where "resize dev n (Some src) (vb\<lparr>vb_size := n\<rparr>, d) = ret (vb', d')" "vb_mapped vb' = None"
        using resize_unmaps[OF assms(1) v(2) assms(5,6), of n] by blast
      then show ?thesis
        using v(1) 1 False by (auto simp: vertex_setData_def buffer_setData_def vertex_getPointer_def)
    qed
  qed
qed

text \<open>
  Indices: a buffer of 32-bit indices whose bytes fit into 32 bits is drawn inside its bounds, and a buffer
  of 16-bit indices never is, because it is bound as 32-bit indices.
\<close>

theorem index_widths:
  assumes "good_limits dev" "0 < count" "count < 2 ^ 30" "count * 4 \<le> length src"
  shows "(\<exists>ib. IndexBuffer_32 dev src count d = ret ib \<and> draw_reads_inside (snd (ib_state ib)) (index_bind ib) (ib_count ib)) \<and>
    (\<exists>ib. IndexBuffer_16 dev src count d = ret ib \<and> \<not> draw_reads_inside (snd (ib_state ib)) (index_bind ib) (ib_count ib))"
proof -
  have "count * 4 mod 2 ^ 32 = count * 4" "count * 2 mod 2 ^ 32 = count * 2" using assms(3) by simp_all
  moreover have "vb_mapped (new_buffer INDEX_BUFFER_BIT) = None" by (simp add: new_buffer_def)
  moreover have "0 < count * 4" "0 < count * 2" "count * 2 \<le> length src" using assms(2,4) by simp_all
  ultimately show ?thesis
    unfolding IndexBuffer_32_def IndexBuffer_16_def
    using init_eq(2)[OF assms(1), of "count * 4" src "new_buffer INDEX_BUFFER_BIT" INDEX_BUFFER_BIT d]
      init_eq(2)[OF assms(1), of "count * 2" src "new_buffer INDEX_BUFFER_BIT" INDEX_BUFFER_BIT d] assms(2,4)
    by (simp add: draw_reads_inside_def index_bind_def created_def Let_def)
qed

end
