(* ===== verification/Mesh_Loader.thy ===== *)
theory Mesh_Loader
  imports Meshes Resource_Cache Vulkan_Buffers Vulkan_Descriptors Strings
begin

text \<open>
  Loading meshes: \<^verbatim>\<open>FileSystem/MeshLoader.cpp\<close>, \<^verbatim>\<open>Resources/MeshResource.cpp\<close> and the mesh
  components of \<^verbatim>\<open>Scene/Component/MeshRenderer.cpp\<close>. The parser \<^verbatim>\<open>tinyobj\<close> is a parameter that gives
  the attributes, shapes and materials of a file, or the message of its failure. The bytes of a vertex and of an index are
  given by two encodings. Coordinates are elements of a field with exact arithmetic. Positions in
  the attribute arrays are integers computed without overflow; reading outside of an array is the fault \<^const>\<open>BadIndex\<close>.
\<close>

section \<open>What the parser gives\<close>

record 'a attrib =
  att_vertices :: "'a list"
  att_normals :: "'a list"
  att_texcoords :: "'a list"

record obj_index =
  vertex_index :: int
  normal_index :: int
  texcoord_index :: int

record obj_shape =
  shape_name :: string
  shape_indices :: "obj_index list"
  material_ids :: "int list"

record obj_material =
  diffuse_texname :: string
  bump_texname :: string
  roughness_texname :: string
  metallic_texname :: string
  specular_highlight_texname :: string

datatype 'a obj_file = ParseFailed string | Parsed "'a attrib" "obj_shape list" "obj_material list"

section \<open>Vertices\<close>

definition elem_at :: "'a list \<Rightarrow> int \<Rightarrow> 'a run" where
  "elem_at xs i = (if 0 \<le> i \<and> i < int (length xs) then ret (xs ! nat i) else fail BadIndex)"

definition read3 :: "'a list \<Rightarrow> int \<Rightarrow> 'a vec3 run" where
  "read3 xs i = rbind (elem_at xs (3 * i + 0)) (\<lambda>x. rbind (elem_at xs (3 * i + 1)) (\<lambda>y. rbind (elem_at xs (3 * i + 2)) (\<lambda>z. ret (Vec3 x y z))))"

definition corner_vertex :: "'a::field attrib \<Rightarrow> obj_index \<Rightarrow> 'a mesh_vertex run" where
  "corner_vertex att i =
     rbind (read3 (att_vertices att) (vertex_index i)) (\<lambda>pos.
     rbind (if normal_index i \<ge> 0 then read3 (att_normals att) (normal_index i) else ret zero3) (\<lambda>n.
     rbind (if texcoord_index i \<ge> 0
            then rbind (elem_at (att_texcoords att) (2 * texcoord_index i + 0)) (\<lambda>u.
                 rbind (elem_at (att_texcoords att) (2 * texcoord_index i + 1)) (\<lambda>v. ret (Vec2 u (1 - v))))
            else ret (Vec2 0 0)) (\<lambda>uv.
     ret \<lparr>mv_pos = pos, mv_color = [1, 1, 1, 1], mv_texCoord = uv, mv_normal = n, mv_tangent = zero3\<rparr>)))"

text \<open>Equal vertices are stored once; the map from vertices to positions is \<^verbatim>\<open>uniqueVertices\<close>.\<close>

record 'a unique =
  u_vertices :: "'a mesh_vertex list"
  u_indices :: "nat list"
  u_map :: "'a mesh_vertex \<rightharpoonup> nat"

definition no_vertices :: "'a unique" where
  "no_vertices = \<lparr>u_vertices = [], u_indices = [], u_map = (\<lambda>_. None)\<rparr>"

definition add_vertex :: "'a mesh_vertex \<Rightarrow> 'a unique \<Rightarrow> 'a unique" where
  "add_vertex v u =
     (let u = (if u_map u v = None
               then u\<lparr>u_map := (u_map u)(v \<mapsto> length (u_vertices u) mod 2 ^ 32), u_vertices := u_vertices u @ [v]\<rparr>
               else u)
      in u\<lparr>u_indices := u_indices u @ [the (u_map u v)]\<rparr>)"

definition shape_vertices :: "'a::field attrib \<Rightarrow> obj_shape \<Rightarrow> 'a unique run" where
  "shape_vertices att shape =
     rfold (\<lambda>i u. rbind (corner_vertex att i) (\<lambda>v. ret (add_vertex v u))) (shape_indices shape) no_vertices"

section \<open>Textures of a material\<close>

type_synonym 'q texture_state = "nat list \<times> 'q texture_obj resources"

text \<open>The wrap mode the caller asks for is not used.\<close>

definition loadMaterialTextures ::
  "(string \<Rightarrow> fault option) \<Rightarrow> string \<Rightarrow> string \<Rightarrow> string \<Rightarrow> 'q texture_state \<Rightarrow> (nat \<times> 'q texture_state) run" where
  "loadMaterialTextures loads typeName name directory = (\<lambda>(texturesLoaded, rs).
     case find (\<lambda>p. tex_file (objects rs ! p) = directory @ ''/'' @ name) texturesLoaded of
       Some p \<Rightarrow> ret (p, (texturesLoaded, rs))
     | None \<Rightarrow> (case Texture2D_create loads typeName (directory @ ''/'' @ name) rs of
         (Inl e, rs) \<Rightarrow> fail e
       | (Inr p, rs) \<Rightarrow> ret (p, (texturesLoaded @ [p], rs))))"

definition load_if_named ::
  "(string \<Rightarrow> fault option) \<Rightarrow> string \<Rightarrow> string \<Rightarrow> (nat \<Rightarrow> nat textures \<Rightarrow> nat textures) \<Rightarrow> string \<Rightarrow>
   nat textures \<times> 'q texture_state \<Rightarrow> (nat textures \<times> 'q texture_state) run" where
  "load_if_named loads directory typeName upd name = (\<lambda>(ts, st).
     if length name > 0
     then rbind (loadMaterialTextures loads typeName name directory st) (\<lambda>(p, st). ret (upd p ts, st))
     else ret (ts, st))"

definition no_textures :: "'t textures" where
  "no_textures = \<lparr>albedo = None, normal = None, metallic = None, roughness = None, ao = None, emissive = None\<rparr>"

definition shape_textures ::
  "(string \<Rightarrow> fault option) \<Rightarrow> string \<Rightarrow> obj_material list \<Rightarrow> obj_shape \<Rightarrow> 'q texture_state \<Rightarrow> (nat textures \<times> 'q texture_state) run" where
  "shape_textures loads directory materials shape st =
     rbind (elem_at (material_ids shape) 0) (\<lambda>k.
     if k \<ge> 0
     then rbind (elem_at materials k) (\<lambda>mp.
       rbind (load_if_named loads directory ''Albedo'' (\<lambda>p t. t\<lparr>albedo := Some p\<rparr>) (diffuse_texname mp) (no_textures, st)) (\<lambda>r.
       rbind (load_if_named loads directory ''Normal'' (\<lambda>p t. t\<lparr>normal := Some p\<rparr>) (bump_texname mp) r) (\<lambda>r.
       rbind (load_if_named loads directory ''Roughness'' (\<lambda>p t. t\<lparr>roughness := Some p\<rparr>) (roughness_texname mp) r) (\<lambda>r.
       rbind (load_if_named loads directory ''Metallic'' (\<lambda>p t. t\<lparr>metallic := Some p\<rparr>) (metallic_texname mp) r) (\<lambda>r.
       load_if_named loads directory ''Metallic'' (\<lambda>p t. t\<lparr>metallic := Some p\<rparr>) (specular_highlight_texname mp) r)))))
     else ret (no_textures, st))"

section \<open>Loading a file\<close>

text \<open>A mesh has its buffers in device memory; the encodings give 60 bytes for a vertex and 4 for an index.\<close>

record loaded_mesh =
  lm_vertexBuffer :: vulkan_buffer
  lm_indexBuffer :: vulkan_buffer
  lm_count :: nat
  lm_textures :: "nat textures"
  lm_name :: string

record ('a, 'b) mesh_formats =
  normalize :: "'a vec3 \<Rightarrow> 'a vec3"
  vertex_bytes :: "'a mesh_vertex \<Rightarrow> 'b list"
  index_bytes :: "nat \<Rightarrow> 'b list"
  limits :: "'b device_limits"

record ('b, 'q) load_state =
  ls_meshes :: "string \<rightharpoonup> loaded_mesh"
  ls_textures :: "'q texture_state"
  ls_device :: "'b device_memory"

definition shape_geometry :: "('a::field, 'b) mesh_formats \<Rightarrow> 'a attrib \<Rightarrow> obj_shape \<Rightarrow> ('a mesh_vertex list \<times> nat list) run" where
  "shape_geometry fmt att shape =
     rbind (shape_vertices att shape) (\<lambda>u.
     rbind (if att_normals att = [] then generateNormals (normalize fmt) (u_vertices u) (u_indices u) else ret (u_vertices u)) (\<lambda>vs.
     rbind (generateTangents (normalize fmt) vs (u_indices u)) (\<lambda>vs. ret (vs, u_indices u))))"

definition upload ::
  "('a, 'b) mesh_formats \<Rightarrow> 'a mesh_vertex list \<Rightarrow> nat list \<Rightarrow> 'b device_memory \<Rightarrow> (vulkan_buffer \<times> vulkan_buffer \<times> nat \<times> 'b device_memory) run" where
  "upload fmt vs indices d =
     rbind (vertex_setData (limits fmt) (60 * length vs mod 2 ^ 32) (concat (map (vertex_bytes fmt) vs))
       ((new_buffer VERTEX_BUFFER_BIT, d), False)) (\<lambda>((vb, d), f).
     rbind (IndexBuffer_32 (limits fmt) (concat (map (index_bytes fmt) indices)) (length indices mod 2 ^ 32) d) (\<lambda>ib.
     ret (vb, fst (ib_state ib), ib_count ib, snd (ib_state ib))))"

text \<open>
  \<^verbatim>\<open>emplace\<close> keeps the mesh that has the name already; the new one is then destroyed with its buffers.
\<close>

definition load_shape ::
  "('a::field, 'b) mesh_formats \<Rightarrow> (string \<Rightarrow> fault option) \<Rightarrow> string \<Rightarrow> 'a attrib \<Rightarrow> obj_material list \<Rightarrow> obj_shape \<Rightarrow>
   ('b, 'q) load_state \<Rightarrow> ('b, 'q) load_state run" where
  "load_shape fmt loads directory att materials shape ls =
     rbind (shape_geometry fmt att shape) (\<lambda>(vs, indices).
     rbind (shape_textures loads directory materials shape (ls_textures ls)) (\<lambda>(ts, st).
     rbind (upload fmt vs indices (ls_device ls)) (\<lambda>(vb, ib, count, d).
     let mesh = \<lparr>lm_vertexBuffer = vb, lm_indexBuffer = ib, lm_count = count, lm_textures = ts, lm_name = shape_name shape\<rparr>
     in case ls_meshes ls (shape_name shape) of
          None \<Rightarrow> ret (ls\<lparr>ls_meshes := (ls_meshes ls)(shape_name shape \<mapsto> mesh), ls_textures := st, ls_device := d\<rparr>)
        | Some _ \<Rightarrow> rbind (release (ib, d)) (\<lambda>(ib, d). rbind (release (vb, d)) (\<lambda>(vb, d).
            ret (ls\<lparr>ls_textures := st, ls_device := d\<rparr>))))))"

text \<open>The directory of a path without a delimiter is the whole path. The delimiter is that of the platforms other than Windows.\<close>

definition directory_of :: "string \<Rightarrow> string" where
  "directory_of obj = (case find_last_of obj (CHR ''/'') of Some pos \<Rightarrow> take pos obj | None \<Rightarrow> obj)"

definition load ::
  "('a::field, 'b) mesh_formats \<Rightarrow> (string \<Rightarrow> fault option) \<Rightarrow> (string \<Rightarrow> string \<Rightarrow> 'a obj_file) \<Rightarrow> string \<Rightarrow>
   ('b, 'q) load_state \<Rightarrow> ('b, 'q) load_state run" where
  "load fmt loads LoadObj obj ls =
     (case LoadObj obj (directory_of obj) of
        ParseFailed message \<Rightarrow> fail (RuntimeError message)
      | Parsed att shapes materials \<Rightarrow> rfold (load_shape fmt loads (directory_of obj) att materials) shapes ls)"


section \<open>Vertices are shared without changing the triangles\<close>

definition corner_ok :: "'a attrib \<Rightarrow> obj_index \<Rightarrow> bool" where
  "corner_ok att i \<longleftrightarrow> 0 \<le> vertex_index i \<and> 3 * vertex_index i + 2 < int (length (att_vertices att)) \<and>
     (0 \<le> normal_index i \<longrightarrow> 3 * normal_index i + 2 < int (length (att_normals att))) \<and>
     (0 \<le> texcoord_index i \<longrightarrow> 2 * texcoord_index i + 1 < int (length (att_texcoords att)))"

definition vec3_at :: "'a list \<Rightarrow> int \<Rightarrow> 'a vec3" where
  "vec3_at xs i = Vec3 (xs ! nat (3 * i)) (xs ! nat (3 * i + 1)) (xs ! nat (3 * i + 2))"

definition corner_of :: "'a::field attrib \<Rightarrow> obj_index \<Rightarrow> 'a mesh_vertex" where
  "corner_of att i = \<lparr>mv_pos = vec3_at (att_vertices att) (vertex_index i), mv_color = [1, 1, 1, 1],
     mv_texCoord = (if texcoord_index i \<ge> 0
       then Vec2 (att_texcoords att ! nat (2 * texcoord_index i)) (1 - att_texcoords att ! nat (2 * texcoord_index i + 1))
       else Vec2 0 0),
     mv_normal = (if normal_index i \<ge> 0 then vec3_at (att_normals att) (normal_index i) else zero3), mv_tangent = zero3\<rparr>"

lemma read3_eq: "read3 xs i = (if 0 \<le> i \<and> 3 * i + 2 < int (length xs) then ret (vec3_at xs i) else fail BadIndex)"
  by (simp add: read3_def elem_at_def vec3_at_def)

lemma corner_vertex_eq: "corner_vertex att i = (if corner_ok att i then ret (corner_of att i) else fail BadIndex)"
  by (auto simp: corner_vertex_def corner_ok_def corner_of_def read3_eq elem_at_def)

definition dedup_inv :: "'a mesh_vertex list \<Rightarrow> 'a unique \<Rightarrow> bool" where
  "dedup_inv cs u \<longleftrightarrow> distinct (u_vertices u) \<and> set (u_vertices u) = set cs \<and>
     (\<forall>v k. u_map u v = Some k \<longleftrightarrow> k < length (u_vertices u) \<and> u_vertices u ! k = v) \<and>
     (\<forall>k \<in> set (u_indices u). k < length (u_vertices u)) \<and> map ((!) (u_vertices u)) (u_indices u) = cs"

lemma add_vertex_inv:
  assumes "dedup_inv cs u" "card (set (cs @ [v])) \<le> 2 ^ 32"
  shows "dedup_inv (cs @ [v]) (add_vertex v u)"
proof (cases "u_map u v")
  case (Some k)
  then have k: "k < length (u_vertices u)" "u_vertices u ! k = v" using assms(1) by (auto simp: dedup_inv_def)
  have eq: "add_vertex v u = u\<lparr>u_indices := u_indices u @ [k]\<rparr>" using Some by (simp add: add_vertex_def Let_def)
  have "v \<in> set cs" using k assms(1) nth_mem[OF k(1)] by (simp add: dedup_inv_def)
  then show ?thesis using k assms(1) unfolding eq dedup_inv_def by (simp add: insert_absorb)
next
  case None
  let ?n = "length (u_vertices u)"
  have new: "v \<notin> set (u_vertices u)"
  proof
    assume "v \<in> set (u_vertices u)"
    then obtain k where "k < ?n" "u_vertices u ! k = v" by (auto simp: in_set_conv_nth)
    then have "u_map u v = Some k" using assms(1) unfolding dedup_inv_def by blast
    with None show False by simp
  qed
  have "distinct (u_vertices u)" "set (u_vertices u) = set cs" using assms(1) by (simp_all add: dedup_inv_def)
  then have "?n = card (set cs)" using distinct_card by metis
  also have "\<dots> < card (set (cs @ [v]))" using new assms(1) by (simp add: dedup_inv_def card_insert_if)
  finally have "?n mod 2 ^ 32 = ?n" using assms(2) by simp
  then have eq: "add_vertex v u = u\<lparr>u_map := (u_map u)(v \<mapsto> ?n), u_vertices := u_vertices u @ [v], u_indices := u_indices u @ [?n]\<rparr>"
    using None by (simp add: add_vertex_def Let_def)
  have "map ((!) (u_vertices u @ [v])) (u_indices u) = map ((!) (u_vertices u)) (u_indices u)"
    using assms(1) by (auto simp: dedup_inv_def nth_append)
  then show ?thesis
    using assms(1) new unfolding eq dedup_inv_def by (auto simp: nth_append less_Suc_eq)
qed

lemma shape_vertices_eq:
  "shape_vertices att shape =
     (if \<forall>i \<in> set (shape_indices shape). corner_ok att i
      then ret (fold add_vertex (map (corner_of att) (shape_indices shape)) no_vertices) else fail BadIndex)"
proof -
  have "rfold (\<lambda>i u. rbind (corner_vertex att i) (\<lambda>v. ret (add_vertex v u))) is u =
      (if \<forall>i \<in> set is. corner_ok att i then ret (fold add_vertex (map (corner_of att) is) u) else fail BadIndex)" for "is" u
    by (induction "is" arbitrary: u) (auto simp: corner_vertex_eq)
  then show ?thesis by (simp add: shape_vertices_def)
qed

lemma fold_add_vertex_inv: "card (set cs) \<le> 2 ^ 32 \<Longrightarrow> dedup_inv cs (fold add_vertex cs no_vertices)"
proof (induction cs rule: rev_induct)
  case Nil
  show ?case by (simp add: dedup_inv_def no_vertices_def)
next
  case (snoc v cs)
  have "card (set cs) \<le> card (set (cs @ [v]))" by (intro card_mono) auto
  then show ?case using snoc add_vertex_inv[of cs] by simp
qed

text \<open>
  Sharing of vertices when a shape is loaded: when all corners of the shape have their attributes, the loop returns
  distinct vertices and indices into them that give back the corners of the file in their order; no vertex is there
  that the file does not have. When an attribute is missing, the loop reads outside of an array.
\<close>

theorem shape_vertices_roundtrip:
  assumes "card (corner_of att ` set (shape_indices shape)) \<le> 2 ^ 32"
  shows "if \<forall>i \<in> set (shape_indices shape). corner_ok att i
    then \<exists>u. shape_vertices att shape = ret u \<and>
      map ((!) (u_vertices u)) (u_indices u) = map (corner_of att) (shape_indices shape) \<and>
      (\<forall>k \<in> set (u_indices u). k < length (u_vertices u)) \<and>
      distinct (u_vertices u) \<and> set (u_vertices u) = corner_of att ` set (shape_indices shape)
    else shape_vertices att shape = fail BadIndex"
  using fold_add_vertex_inv[of "map (corner_of att) (shape_indices shape)"] assms
  by (simp add: shape_vertices_eq dedup_inv_def)


section \<open>The triangles reach device memory\<close>

text \<open>What normals and tangents leave of a vertex.\<close>

definition surface :: "'a mesh_vertex \<Rightarrow> 'a vec3 \<times> 'a list \<times> 'a vec2" where
  "surface v = (mv_pos v, mv_color v, mv_texCoord v)"

lemma surface_upd [simp]: "surface (v\<lparr>mv_normal := n\<rparr>) = surface v" "surface (v\<lparr>mv_tangent := t\<rparr>) = surface v"
  by (simp_all add: surface_def)

lemma generateNormals_keeps:
  assumes "length (triangles_of vs indices) mod 3 = 0" "\<forall>k \<in> set (triangles_of vs indices). k < length vs"
  shows "\<exists>ws. generateNormals nrm vs indices = ret ws \<and> map surface ws = map surface vs"
proof -
  obtain ns where "(if indices \<noteq> [] then accumulate (face_normal (map mv_pos vs)) (length vs) indices (replicate (length vs) zero3)
      else flat_normals (map mv_pos vs)) = ret ns" "length ns = length vs"
    using normal_sums[OF assms] by metis
  then show ?thesis
    by (simp only: generateNormals_def rbind_simps) (auto simp: set_normals_def intro!: nth_equalityI)
qed

lemma generateTangents_keeps:
  assumes "length (triangles_of vs indices) mod 3 = 0" "\<forall>k \<in> set (triangles_of vs indices). k < length vs"
  shows "\<exists>ws. generateTangents nrm vs indices = ret ws \<and> map surface ws = map surface vs"
proof -
  obtain ws where ws: "generateTangents nrm vs indices = ret ws" "length ws = length vs"
    "\<And>v. v < length vs \<Longrightarrow> surface (ws ! v) = surface (vs ! v)"
    using generateTangents_sums[OF assms, of nrm] by force
  then have "map surface ws = map surface vs" by (auto intro!: nth_equalityI)
  with ws(1) show ?thesis by blast
qed

definition shape_fits :: "'a::field attrib \<Rightarrow> obj_shape \<Rightarrow> bool" where
  "shape_fits att shape \<longleftrightarrow> (\<forall>i \<in> set (shape_indices shape). corner_ok att i) \<and>
     shape_indices shape \<noteq> [] \<and> length (shape_indices shape) mod 3 = 0 \<and> 60 * length (shape_indices shape) < 2 ^ 32"

text \<open>
  The vertices and indices draw the corners of a shape in order. Their normals and tangents are those of the
  passes over the distinct corners: the normals are generated only if the file has none, the tangents always.
\<close>

definition draws_shape ::
  "('a vec3 \<Rightarrow> 'a vec3) \<Rightarrow> 'a::field attrib \<Rightarrow> obj_shape \<Rightarrow> 'a mesh_vertex list \<Rightarrow> nat list \<Rightarrow> bool" where
  "draws_shape nrm att shape vs indices \<longleftrightarrow> (\<forall>k \<in> set indices. k < length vs) \<and>
     map (\<lambda>k. surface (vs ! k)) indices = map (\<lambda>i. surface (corner_of att i)) (shape_indices shape) \<and>
     (\<exists>us ws. distinct us \<and> map ((!) us) indices = map (corner_of att) (shape_indices shape) \<and>
        (if att_normals att = [] then generateNormals nrm us indices = ret ws else ws = us) \<and>
        generateTangents nrm ws indices = ret vs)"

lemma draws_shape_length: "draws_shape nrm att shape vs indices \<Longrightarrow> length indices = length (shape_indices shape)"
  unfolding draws_shape_def by (metis length_map)

lemma geometry_keeps:
  assumes "indices \<noteq> []" "length indices mod 3 = 0" "\<forall>k \<in> set indices. k < length vs"
  shows "\<exists>ws ts. (if b then generateNormals nrm vs indices else ret vs) = ret ws \<and> generateTangents nrm ws indices = ret ts \<and>
    map surface ts = map surface vs"
proof -
  have tri: "triangles_of us indices = indices" for us :: "'a mesh_vertex list" using assms(1) by (simp add: triangles_of_def)
  have "\<exists>ws. (if b then generateNormals nrm vs indices else ret vs) = ret ws \<and> map surface ws = map surface vs"
    using generateNormals_keeps[of vs indices nrm] assms by (simp add: tri)
  then obtain ws where ws: "(if b then generateNormals nrm vs indices else ret vs) = ret ws" "map surface ws = map surface vs" by blast
  then have "length ws = length vs" using map_eq_imp_length_eq by blast
  then obtain ts where "generateTangents nrm ws indices = ret ts" "map surface ts = map surface ws"
    using generateTangents_keeps[of ws indices nrm] assms by (auto simp: tri)
  with ws show ?thesis by simp
qed

lemma shape_geometry_draws:
  assumes "shape_fits att shape"
  shows "\<exists>vs indices. shape_geometry fmt att shape = ret (vs, indices) \<and> draws_shape (normalize fmt) att shape vs indices \<and>
    vs \<noteq> [] \<and> length vs \<le> length (shape_indices shape)"
proof -
  let ?is = "shape_indices shape" and ?cs = "map (corner_of att) (shape_indices shape)"
  have c: "card (set ?cs) \<le> length ?is" by (metis card_length length_map)
  then have "card (set ?cs) \<le> 2 ^ 32" using assms by (simp add: shape_fits_def)
  then have "dedup_inv ?cs (fold add_vertex ?cs no_vertices)" by (rule fold_add_vertex_inv)
  then obtain u where u: "shape_vertices att shape = ret u" "dedup_inv ?cs u"
    using assms by (auto simp: shape_vertices_eq shape_fits_def)
  have d: "\<forall>k \<in> set (u_indices u). k < length (u_vertices u)" "map ((!) (u_vertices u)) (u_indices u) = ?cs"
    "length (u_vertices u) = card (set ?cs)"
    using u(2) distinct_card[of "u_vertices u"] by (simp_all add: dedup_inv_def)
  have len: "length (u_indices u) = length ?is" using d(2) by (metis length_map)
  have i: "u_indices u \<noteq> []" "length (u_indices u) mod 3 = 0" using len assms by (auto simp: shape_fits_def)
  obtain ws vs where vs: "(if att_normals att = [] then generateNormals (normalize fmt) (u_vertices u) (u_indices u)
      else ret (u_vertices u)) = ret ws" "generateTangents (normalize fmt) ws (u_indices u) = ret vs"
    "map surface vs = map surface (u_vertices u)"
    using geometry_keeps[OF i d(1), of "att_normals att = []" "normalize fmt"] by blast
  then have lv: "length vs = length (u_vertices u)" using map_eq_imp_length_eq by blast
  then have same: "surface (vs ! k) = surface (u_vertices u ! k)" if "k < length vs" for k
    using that vs(3) by (metis nth_map)
  have "map (\<lambda>k. surface (vs ! k)) (u_indices u) = map surface (map ((!) (u_vertices u)) (u_indices u))"
    using d(1) lv by (simp add: same)
  moreover have "distinct (u_vertices u)" using u(2) by (simp add: dedup_inv_def)
  then have "\<exists>us ws. distinct us \<and> map ((!) us) (u_indices u) = ?cs \<and>
      (if att_normals att = [] then generateNormals (normalize fmt) us (u_indices u) = ret ws else ws = us) \<and>
      generateTangents (normalize fmt) ws (u_indices u) = ret vs"
    using d(2) vs(1,2) by (intro exI[of _ "u_vertices u"] exI[of _ ws]) (auto split: if_splits)
  ultimately have "draws_shape (normalize fmt) att shape vs (u_indices u)"
    using d(1) lv by (simp add: draws_shape_def d(2) o_def)
  moreover have "shape_geometry fmt att shape = ret (vs, u_indices u)"
    using vs(1,2) by (simp add: shape_geometry_def u(1))
  moreover have "vs \<noteq> []" using d(1) i(1) lv by (cases "u_indices u") auto
  ultimately show ?thesis using lv d(3) c by auto
qed


definition formats_ok :: "('a, 'b) mesh_formats \<Rightarrow> bool" where
  "formats_ok fmt \<longleftrightarrow> good_limits (limits fmt) \<and> (\<forall>v. length (vertex_bytes fmt v) = 60) \<and> (\<forall>k. length (index_bytes fmt k) = 4)"

lemma length_concat_const: "\<forall>x \<in> set xs. length (f x) = n \<Longrightarrow> length (concat (map f xs)) = n * length xs"
  by (induction xs) auto

lemma created_fresh: "fresh_above d \<Longrightarrow> fresh_above (snd (created dev usage n raw (vb, d)))"
  by (auto simp: fresh_above_def unused_def created_def Let_def)

lemma holds_beside:
  "holds dev d0 h ((vb, d), f) \<Longrightarrow> beside d d' \<Longrightarrow> next_handle d \<le> next_handle d' \<Longrightarrow> holds dev d0 h ((vb, d'), f)"
  by (cases h) (simp only: holds_def beside_def prod.case, meson order_trans)

lemma init_holds:
  assumes "good_limits dev" "fresh_above d" "src \<noteq> []" "vb_mapped vb = None"
  shows "\<exists>vb' d'. init dev usage (length src) (Some src) (vb, d) = ret (vb', d') \<and>
    holds dev d (Some src, False) ((vb', d'), False) \<and> fresh_above d' \<and> next_handle d \<le> next_handle d'"
proof -
  let ?n = "length src"
  let ?raw = "src @ replicate (requiredSize dev ?n - ?n) (fresh_byte dev)"
  have n: "?n \<le> requiredSize dev ?n" using assms(1) by (simp add: good_limits_def)
  have "init dev usage ?n (Some src) (vb, d) = ret (created dev usage ?n ?raw (vb, d))"
    using init_eq(2)[OF assms(1), of ?n src vb usage d] assms(3,4) by simp
  moreover have "holds dev d (Some src, False) (created dev usage ?n ?raw (vb, d), False)"
    by (rule created_holds) (use assms n in \<open>auto simp: beside_def fresh_above_def\<close>)
  ultimately show ?thesis
    using created_fresh[OF assms(2), of dev usage ?n ?raw vb] by (simp add: created_def Let_def)
qed

lemma new_vertex_setData:
  "src \<noteq> [] \<Longrightarrow> vertex_setData dev (length src) src ((new_buffer usage, d), f) =
     rbind (init dev usage (length src) (Some src) (new_buffer usage, d)) (\<lambda>s. ret (s, f))"
  by (simp add: vertex_setData_def buffer_setData_def resize_def release_def init_def new_buffer_def)

lemma upload_holds:
  assumes "formats_ok fmt" "fresh_above d" "vs \<noteq> []" "indices \<noteq> []" "60 * length vs < 2 ^ 32" "4 * length indices < 2 ^ 32"
  shows "\<exists>vb ib d1 d2. upload fmt vs indices d = ret (vb, ib, length indices, d2) \<and>
    holds (limits fmt) d (Some (concat (map (vertex_bytes fmt) vs)), False) ((vb, d1), False) \<and>
    holds (limits fmt) d1 (Some (concat (map (index_bytes fmt) indices)), False) ((ib, d2), False) \<and> fresh_above d2 \<and>
    next_handle d \<le> next_handle d1 \<and> next_handle d1 \<le> next_handle d2"
proof -
  let ?V = "concat (map (vertex_bytes fmt) vs)" and ?I = "concat (map (index_bytes fmt) indices)"
  have g: "good_limits (limits fmt)" using assms(1) by (simp add: formats_ok_def)
  have V: "length ?V = 60 * length vs" and I: "length ?I = 4 * length indices"
    using assms(1) by (simp_all add: formats_ok_def length_concat_const)
  have ne: "?V \<noteq> []" "?I \<noteq> []" using V I assms(3,4) by (metis length_0_conv mult_eq_0_iff zero_neq_numeral)+
  obtain vb d1 where vb: "init (limits fmt) VERTEX_BUFFER_BIT (length ?V) (Some ?V) (new_buffer VERTEX_BUFFER_BIT, d) = ret (vb, d1)"
    "holds (limits fmt) d (Some ?V, False) ((vb, d1), False)" "fresh_above d1" "next_handle d \<le> next_handle d1"
    using init_holds[OF g assms(2) ne(1), of "new_buffer VERTEX_BUFFER_BIT" VERTEX_BUFFER_BIT] by (auto simp: new_buffer_def)
  obtain ib d2 where ib: "init (limits fmt) INDEX_BUFFER_BIT (length ?I) (Some ?I) (new_buffer INDEX_BUFFER_BIT, d1) = ret (ib, d2)"
    "holds (limits fmt) d1 (Some ?I, False) ((ib, d2), False)" "fresh_above d2" "next_handle d1 \<le> next_handle d2"
    using init_holds[OF g vb(3) ne(2), of "new_buffer INDEX_BUFFER_BIT" INDEX_BUFFER_BIT] by (auto simp: new_buffer_def)
  have "vertex_setData (limits fmt) (length ?V) ?V ((new_buffer VERTEX_BUFFER_BIT, d), False) = ret ((vb, d1), False)"
    using vb(1) by (simp only: new_vertex_setData[OF ne(1)] rbind_simps)
  moreover have "60 * length vs mod 2 ^ 32 = length ?V" "length indices mod 2 ^ 32 * 4 mod 2 ^ 32 = length ?I"
    "length indices mod 2 ^ 32 = length indices"
    using V I assms(5,6) by simp_all
  ultimately have "upload fmt vs indices d = ret (vb, ib, length indices, d2)"
    using ib(1) by (simp add: upload_def IndexBuffer_32_def)
  with vb ib show ?thesis by blast
qed

text \<open>The bytes a buffer object has in device memory.\<close>

definition has_bytes :: "'b device_memory \<Rightarrow> vulkan_buffer \<Rightarrow> 'b list \<Rightarrow> bool" where
  "has_bytes d vb bs \<longleftrightarrow> (case vb_memory vb of None \<Rightarrow> False | Some m \<Rightarrow>
     (case allocations d m of None \<Rightarrow> False | Some a \<Rightarrow> take (vb_size vb) (bytes a) = bs))"

lemma has_bytes_mono: "has_bytes d vb bs \<Longrightarrow> allocations d \<subseteq>\<^sub>m allocations d' \<Longrightarrow> has_bytes d' vb bs"
  by (auto simp: has_bytes_def map_le_def dom_def split: option.splits)

lemma holds_bytes: "holds dev d0 (Some bs, p) ((vb, d), f) \<Longrightarrow> has_bytes d vb bs \<and> allocations d0 \<subseteq>\<^sub>m allocations d"
  by (auto simp: holds_def has_bytes_def unused_def map_le_def dom_def)


section \<open>The textures of a material\<close>

definition tex_inv :: "'q texture_state \<Rightarrow> bool" where
  "tex_inv = (\<lambda>(ps, rs). (\<forall>k p. live rs k = Some p \<longrightarrow> p < length (objects rs) \<and> (\<exists>q. objects rs ! p = VulkanTexture2D k q)) \<and>
     (\<forall>p \<in> set ps. p < length (objects rs)) \<and> (\<forall>p < length (objects rs). live rs (tex_file (objects rs ! p)) = Some p))"

text \<open>So no file is loaded twice.\<close>

lemma tex_inv_once:
  assumes "tex_inv st"
  shows "distinct (map tex_file (objects (snd st)))"
proof -
  have "\<forall>p < length (objects (snd st)). live (snd st) (tex_file (objects (snd st) ! p)) = Some p"
    using assms by (simp add: tex_inv_def split: prod.splits)
  then show ?thesis by (auto simp: distinct_conv_nth) (metis option.inject)
qed

definition file_at :: "'q texture_state \<Rightarrow> nat \<Rightarrow> string" where
  "file_at st p = tex_file (objects (snd st) ! p)"

definition grows :: "'q texture_state \<Rightarrow> 'q texture_state \<Rightarrow> bool" where
  "grows st st' \<longleftrightarrow> (\<exists>os. objects (snd st') = objects (snd st) @ os)"

lemma loaded_grows_refl [simp]: "grows st st"
  by (simp add: grows_def)

lemma loaded_grows_trans: "grows a b \<Longrightarrow> grows b c \<Longrightarrow> grows a c"
  by (auto simp: grows_def)

lemma loadMaterialTextures_ok:
  assumes "\<forall>f. loads f = None" "tex_inv st"
  shows "\<exists>p st'. loadMaterialTextures loads typeName name directory st = ret (p, st') \<and> tex_inv st' \<and> grows st st' \<and>
    p < length (objects (snd st')) \<and> file_at st' p = directory @ ''/'' @ name"
proof -
  obtain ps rs where st: "st = (ps, rs)" by force
  let ?f = "directory @ ''/'' @ name"
  show ?thesis
  proof (cases "find (\<lambda>p. tex_file (objects rs ! p) = ?f) ps")
    case (Some p)
    then have "p \<in> set ps" "tex_file (objects rs ! p) = ?f" by (auto simp: find_Some_iff)
    then show ?thesis using Some assms(2) by (auto simp: st loadMaterialTextures_def tex_inv_def file_at_def)
  next
    case None
    show ?thesis
    proof (cases "live rs ?f")
      case (Some p)
      then obtain q where "p < length (objects rs)" "objects rs ! p = VulkanTexture2D ?f q"
        using assms(2) unfolding st tex_inv_def prod.case by blast
      then show ?thesis using None Some assms
        by (auto simp: st loadMaterialTextures_def Texture2D_create_def create_cached_eq cast_2D_def tex_inv_def file_at_def grows_def)
    next
      case missing: None
      let ?n = "length (objects rs)"
      let ?rs = "rs\<lparr>objects := objects rs @ [VulkanTexture2D ?f None], cache := (cache rs)(?f \<mapsto> Some ?n)\<rparr>"
      have "Texture2D_create loads typeName ?f rs = (Inr ?n, ?rs)"
        using missing assms(1) by (simp add: Texture2D_create_def create_cached_eq cast_2D_def load_with_def)
      then have "loadMaterialTextures loads typeName name directory st = ret (?n, (ps @ [?n], ?rs))"
        using None by (simp add: st loadMaterialTextures_def)
      moreover have "tex_inv (ps @ [?n], ?rs)"
        unfolding tex_inv_def prod.case
      proof (intro conjI)
        show "\<forall>p < length (objects ?rs). live ?rs (tex_file (objects ?rs ! p)) = Some p"
        proof (intro allI impI)
          fix p assume p: "p < length (objects ?rs)"
          show "live ?rs (tex_file (objects ?rs ! p)) = Some p"
          proof (cases "p = ?n")
            case False
            then have "live rs (tex_file (objects rs ! p)) = Some p" using p assms(2) by (simp add: st tex_inv_def)
            moreover from this have "tex_file (objects rs ! p) \<noteq> ?f" using missing by auto
            ultimately show ?thesis using p False by (simp add: nth_append)
          qed simp
        qed
      qed (use assms(2) in \<open>auto simp: st tex_inv_def nth_append less_Suc_eq\<close>)
      ultimately show ?thesis by (auto simp: st grows_def file_at_def)
    qed
  qed
qed

definition map_textures :: "('t \<Rightarrow> 'u) \<Rightarrow> 't textures \<Rightarrow> 'u textures" where
  "map_textures f t = \<lparr>albedo = map_option f (albedo t), normal = map_option f (normal t), metallic = map_option f (metallic t),
     roughness = map_option f (roughness t), ao = map_option f (ao t), emissive = map_option f (emissive t)\<rparr>"

definition texture_set :: "'t textures \<Rightarrow> 't set" where
  "texture_set t = set_option (albedo t) \<union> set_option (normal t) \<union> set_option (metallic t) \<union>
     set_option (roughness t) \<union> set_option (ao t) \<union> set_option (emissive t)"

lemma map_textures_cong: "(\<And>p. p \<in> texture_set t \<Longrightarrow> f p = g p) \<Longrightarrow> map_textures f t = map_textures g t"
  by (auto simp: map_textures_def texture_set_def intro!: option.map_cong)

definition valid_textures :: "nat textures \<times> 'q texture_state \<Rightarrow> bool" where
  "valid_textures = (\<lambda>(t, st). tex_inv st \<and> texture_set t \<subseteq> {..<length (objects (snd st))})"

definition texture_files :: "nat textures \<times> 'q texture_state \<Rightarrow> string textures" where
  "texture_files = (\<lambda>(t, st). map_textures (file_at st) t)"

definition put_file :: "string \<Rightarrow> (string \<Rightarrow> string textures \<Rightarrow> string textures) \<Rightarrow> string \<Rightarrow> string textures \<Rightarrow> string textures" where
  "put_file directory upd name t = (if name = [] then t else upd (directory @ ''/'' @ name) t)"

lemma load_if_named_ok:
  assumes "\<forall>f. loads f = None" "valid_textures r"
    and upd: "\<And>f p t. map_textures f (upd p t) = upd' (f p) (map_textures f t)" "\<And>p t. texture_set (upd p t) \<subseteq> insert p (texture_set t)"
  shows "\<exists>r'. load_if_named loads directory typeName upd name r = ret r' \<and> valid_textures r' \<and> grows (snd r) (snd r') \<and>
    texture_files r' = put_file directory upd' name (texture_files r)"
proof (cases "name = []")
  case True
  then show ?thesis using assms(2) by (cases r) (simp add: load_if_named_def put_file_def)
next
  case False
  obtain t st where r: "r = (t, st)" by (cases r)
  have v: "tex_inv st" "texture_set t \<subseteq> {..<length (objects (snd st))}" using assms(2) by (simp_all add: r valid_textures_def)
  obtain p st' where p: "loadMaterialTextures loads typeName name directory st = ret (p, st')" "tex_inv st'" "grows st st'"
    "p < length (objects (snd st'))" "file_at st' p = directory @ ''/'' @ name"
    using loadMaterialTextures_ok[OF assms(1) v(1)] by blast
  have "map_textures (file_at st') t = map_textures (file_at st) t"
    using p(3) v(2) by (intro map_textures_cong) (auto simp: grows_def file_at_def nth_append subset_iff)
  moreover have "texture_set (upd p t) \<subseteq> {..<length (objects (snd st'))}"
    using upd(2)[of p t] p(3,4) v(2) by (fastforce simp: grows_def)
  ultimately show ?thesis
    using False p by (simp add: r load_if_named_def upd(1) valid_textures_def texture_files_def put_file_def)
qed

text \<open>The files of a material: the file of the specular map takes the place of the metallic map.\<close>

definition material_files :: "string \<Rightarrow> obj_material \<Rightarrow> string textures" where
  "material_files directory mp =
     (let file = (\<lambda>name. if name = [] then None else Some (directory @ ''/'' @ name)) in
      \<lparr>albedo = file (diffuse_texname mp), normal = file (bump_texname mp),
       metallic = (if specular_highlight_texname mp = [] then file (metallic_texname mp) else file (specular_highlight_texname mp)),
       roughness = file (roughness_texname mp), ao = None, emissive = None\<rparr>)"

definition shape_files :: "string \<Rightarrow> obj_material list \<Rightarrow> obj_shape \<Rightarrow> string textures" where
  "shape_files directory materials shape =
     (if hd (material_ids shape) \<ge> 0 then material_files directory (materials ! nat (hd (material_ids shape))) else no_textures)"

definition material_fits :: "obj_material list \<Rightarrow> obj_shape \<Rightarrow> bool" where
  "material_fits materials shape \<longleftrightarrow> material_ids shape \<noteq> [] \<and> hd (material_ids shape) < int (length materials)"

lemma texture_upds:
  "map_textures f (t\<lparr>albedo := Some p\<rparr>) = (map_textures f t)\<lparr>albedo := Some (f p)\<rparr>"
  "map_textures f (t\<lparr>normal := Some p\<rparr>) = (map_textures f t)\<lparr>normal := Some (f p)\<rparr>"
  "map_textures f (t\<lparr>roughness := Some p\<rparr>) = (map_textures f t)\<lparr>roughness := Some (f p)\<rparr>"
  "map_textures f (t\<lparr>metallic := Some p\<rparr>) = (map_textures f t)\<lparr>metallic := Some (f p)\<rparr>"
  by (simp_all add: map_textures_def)

lemma texture_set_upds:
  "texture_set (t\<lparr>albedo := Some p\<rparr>) \<subseteq> insert p (texture_set t)" "texture_set (t\<lparr>normal := Some p\<rparr>) \<subseteq> insert p (texture_set t)"
  "texture_set (t\<lparr>roughness := Some p\<rparr>) \<subseteq> insert p (texture_set t)" "texture_set (t\<lparr>metallic := Some p\<rparr>) \<subseteq> insert p (texture_set t)"
  by (auto simp: texture_set_def)

lemmas load_albedo = load_if_named_ok[where upd' = "\<lambda>f t. t\<lparr>albedo := Some f\<rparr>", OF _ _ texture_upds(1) texture_set_upds(1)]
  and load_normal = load_if_named_ok[where upd' = "\<lambda>f t. t\<lparr>normal := Some f\<rparr>", OF _ _ texture_upds(2) texture_set_upds(2)]
  and load_roughness = load_if_named_ok[where upd' = "\<lambda>f t. t\<lparr>roughness := Some f\<rparr>", OF _ _ texture_upds(3) texture_set_upds(3)]
  and load_metallic = load_if_named_ok[where upd' = "\<lambda>f t. t\<lparr>metallic := Some f\<rparr>", OF _ _ texture_upds(4) texture_set_upds(4)]

lemma shape_textures_ok:
  assumes "\<forall>f. loads f = None" "tex_inv st" "material_fits materials shape"
  shows "\<exists>r. shape_textures loads directory materials shape st = ret r \<and> valid_textures r \<and> grows st (snd r) \<and>
    texture_files r = shape_files directory materials shape"
proof -
  let ?k = "hd (material_ids shape)" and ?r = "(no_textures, st)"
  have k: "elem_at (material_ids shape) 0 = ret ?k"
    using assms(3) by (cases "material_ids shape") (auto simp: elem_at_def material_fits_def)
  have none: "valid_textures ?r" "texture_files ?r = no_textures"
    using assms(2) by (simp_all add: valid_textures_def texture_files_def texture_set_def map_textures_def no_textures_def)
  show ?thesis
  proof (cases "?k \<ge> 0")
    case False
    then show ?thesis using k none by (simp add: shape_textures_def shape_files_def)
  next
    case True
    let ?m = "materials ! nat ?k"
    have m: "elem_at materials ?k = ret ?m" using True assms(3) by (simp add: elem_at_def material_fits_def)
    note step = assms(1)
    obtain r1 where 1: "load_if_named loads directory ''Albedo'' (\<lambda>p t. t\<lparr>albedo := Some p\<rparr>) (diffuse_texname ?m) ?r = ret r1"
      "valid_textures r1" "grows st (snd r1)" "texture_files r1 = put_file directory (\<lambda>f t. t\<lparr>albedo := Some f\<rparr>) (diffuse_texname ?m) no_textures"
      using load_albedo[OF step none(1)] unfolding none(2) snd_conv by blast
    obtain r2 where 2: "load_if_named loads directory ''Normal'' (\<lambda>p t. t\<lparr>normal := Some p\<rparr>) (bump_texname ?m) r1 = ret r2"
      "valid_textures r2" "grows (snd r1) (snd r2)" "texture_files r2 = put_file directory (\<lambda>f t. t\<lparr>normal := Some f\<rparr>) (bump_texname ?m) (texture_files r1)"
      using load_normal[OF step 1(2)] by blast
    obtain r3 where 3: "load_if_named loads directory ''Roughness'' (\<lambda>p t. t\<lparr>roughness := Some p\<rparr>) (roughness_texname ?m) r2 = ret r3"
      "valid_textures r3" "grows (snd r2) (snd r3)" "texture_files r3 = put_file directory (\<lambda>f t. t\<lparr>roughness := Some f\<rparr>) (roughness_texname ?m) (texture_files r2)"
      using load_roughness[OF step 2(2)] by blast
    obtain r4 where 4: "load_if_named loads directory ''Metallic'' (\<lambda>p t. t\<lparr>metallic := Some p\<rparr>) (metallic_texname ?m) r3 = ret r4"
      "valid_textures r4" "grows (snd r3) (snd r4)" "texture_files r4 = put_file directory (\<lambda>f t. t\<lparr>metallic := Some f\<rparr>) (metallic_texname ?m) (texture_files r3)"
      using load_metallic[OF step 3(2)] by blast
    obtain r5 where 5: "load_if_named loads directory ''Metallic'' (\<lambda>p t. t\<lparr>metallic := Some p\<rparr>) (specular_highlight_texname ?m) r4 = ret r5"
      "valid_textures r5" "grows (snd r4) (snd r5)" "texture_files r5 = put_file directory (\<lambda>f t. t\<lparr>metallic := Some f\<rparr>) (specular_highlight_texname ?m) (texture_files r4)"
      using load_metallic[OF step 4(2)] by blast
    have "shape_textures loads directory materials shape st = ret r5"
      using True by (simp add: shape_textures_def k m 1(1) 2(1) 3(1) 4(1) 5(1))
    moreover have "grows st (snd r5)" using 1(3) 2(3) 3(3) 4(3) 5(3) loaded_grows_trans by blast
    moreover have "texture_files r5 = shape_files directory materials shape"
      using True by (simp add: 5(4) 4(4) 3(4) 2(4) 1(4) put_file_def shape_files_def material_files_def no_textures_def Let_def)
    ultimately show ?thesis using 5(2) by blast
  qed
qed


section \<open>Loading a file\<close>

definition load_inv :: "('b, 'q) load_state \<Rightarrow> bool" where
  "load_inv ls \<longleftrightarrow> tex_inv (ls_textures ls) \<and> fresh_above (ls_device ls)"

definition load_grows :: "('b, 'q) load_state \<Rightarrow> ('b, 'q) load_state \<Rightarrow> bool" where
  "load_grows ls ls' \<longleftrightarrow> grows (ls_textures ls) (ls_textures ls') \<and>
     allocations (ls_device ls) \<subseteq>\<^sub>m allocations (ls_device ls')"

text \<open>A mesh shows a shape of the file: its buffers hold the triangles and its textures come from the files of the material.\<close>

definition shows_shape ::
  "('a::field, 'b) mesh_formats \<Rightarrow> string \<Rightarrow> 'a attrib \<Rightarrow> obj_material list \<Rightarrow> obj_shape \<Rightarrow> ('b, 'q) load_state \<Rightarrow> loaded_mesh \<Rightarrow> bool" where
  "shows_shape fmt directory att materials shape ls mesh \<longleftrightarrow> (\<exists>vs indices. draws_shape (normalize fmt) att shape vs indices \<and>
     has_bytes (ls_device ls) (lm_vertexBuffer mesh) (concat (map (vertex_bytes fmt) vs)) \<and>
     has_bytes (ls_device ls) (lm_indexBuffer mesh) (concat (map (index_bytes fmt) indices)) \<and>
     lm_count mesh = length indices \<and> lm_name mesh = shape_name shape \<and>
     texture_set (lm_textures mesh) \<subseteq> {..<length (objects (snd (ls_textures ls)))} \<and>
     texture_files (lm_textures mesh, ls_textures ls) = shape_files directory materials shape)"

lemma texture_files_grow:
  "texture_set t \<subseteq> {..<length (objects (snd st))} \<Longrightarrow> grows st st' \<Longrightarrow> texture_files (t, st') = texture_files (t, st)"
  unfolding texture_files_def prod.case
  by (rule map_textures_cong) (auto simp: grows_def file_at_def nth_append subset_iff)

lemma shows_shape_mono:
  assumes "shows_shape fmt directory att materials shape ls mesh" "load_grows ls ls'"
  shows "shows_shape fmt directory att materials shape ls' mesh"
proof -
  have "length (objects (snd (ls_textures ls))) \<le> length (objects (snd (ls_textures ls')))"
    using assms(2) by (auto simp: load_grows_def grows_def)
  then show ?thesis
    using assms has_bytes_mono texture_files_grow unfolding shows_shape_def load_grows_def
    by (smt (verit, best) lessThan_subset_iff order_trans)
qed

lemma load_grows_trans: "load_grows a b \<Longrightarrow> load_grows b c \<Longrightarrow> load_grows a c"
  unfolding load_grows_def using loaded_grows_trans map_le_trans by blast

lemma load_shape_ok:
  assumes "formats_ok fmt" "\<forall>f. loads f = None" "shape_fits att shape" "material_fits materials shape" "load_inv ls"
  shows "\<exists>ls'. load_shape fmt loads directory att materials shape ls = ret ls' \<and> load_inv ls' \<and> load_grows ls ls' \<and>
    (case ls_meshes ls (shape_name shape) of
       Some m \<Rightarrow> ls_meshes ls' = ls_meshes ls
     | None \<Rightarrow> \<exists>mesh. ls_meshes ls' = (ls_meshes ls)(shape_name shape \<mapsto> mesh) \<and>
         shows_shape fmt directory att materials shape ls' mesh)"
proof -
  obtain vs indices where g: "shape_geometry fmt att shape = ret (vs, indices)" "draws_shape (normalize fmt) att shape vs indices"
    "vs \<noteq> []" "length vs \<le> length (shape_indices shape)"
    using shape_geometry_draws[OF assms(3)] by blast
  obtain t st where t: "shape_textures loads directory materials shape (ls_textures ls) = ret (t, st)" "valid_textures (t, st)"
    "grows (ls_textures ls) st" "texture_files (t, st) = shape_files directory materials shape"
    using shape_textures_ok[OF assms(2) _ assms(4), of "ls_textures ls" directory] assms(5) by (auto simp: load_inv_def)
  have len: "indices \<noteq> []" "60 * length vs < 2 ^ 32" "4 * length indices < 2 ^ 32"
    using draws_shape_length[OF g(2)] g(4) assms(3) by (auto simp: shape_fits_def)
  have f: "fresh_above (ls_device ls)" using assms(5) by (simp add: load_inv_def)
  obtain vb ib d1 d2 where u: "upload fmt vs indices (ls_device ls) = ret (vb, ib, length indices, d2)"
    "holds (limits fmt) (ls_device ls) (Some (concat (map (vertex_bytes fmt) vs)), False) ((vb, d1), False)"
    "holds (limits fmt) d1 (Some (concat (map (index_bytes fmt) indices)), False) ((ib, d2), False)" "fresh_above d2"
    "next_handle (ls_device ls) \<le> next_handle d1" "next_handle d1 \<le> next_handle d2"
    using upload_holds[OF assms(1) f g(3) len] by blast
  have le: "allocations (ls_device ls) \<subseteq>\<^sub>m allocations d2" "allocations d1 \<subseteq>\<^sub>m allocations d2"
    using holds_bytes[OF u(2)] holds_bytes[OF u(3)] map_le_trans by blast+
  show ?thesis
  proof (cases "ls_meshes ls (shape_name shape)")
    case None
    let ?mesh = "\<lparr>lm_vertexBuffer = vb, lm_indexBuffer = ib, lm_count = length indices, lm_textures = t, lm_name = shape_name shape\<rparr>"
    let ?ls = "ls\<lparr>ls_meshes := (ls_meshes ls)(shape_name shape \<mapsto> ?mesh), ls_textures := st, ls_device := d2\<rparr>"
    have "load_shape fmt loads directory att materials shape ls = ret ?ls"
      using None by (simp add: load_shape_def g(1) t(1) u(1) Let_def)
    moreover have "shows_shape fmt directory att materials shape ?ls ?mesh"
      using g(2) holds_bytes[OF u(3)] has_bytes_mono[OF _ le(2)] holds_bytes[OF u(2)] t(2,4)
      by (auto simp: shows_shape_def valid_textures_def)
    moreover have "load_inv ?ls \<and> load_grows ls ?ls"
      using t(2,3) u(4) le(1) by (simp add: load_inv_def load_grows_def valid_textures_def)
    ultimately show ?thesis using None by auto
  next
    case (Some m)
    obtain d3 where d3: "release (ib, d2) = ret (ib, d3)" "beside d1 d3" "next_handle d3 = next_handle d2"
      using release_holds[OF u(3)] by blast
    have "holds (limits fmt) (ls_device ls) (Some (concat (map (vertex_bytes fmt) vs)), False) ((vb, d3), False)"
      using holds_beside[OF u(2) d3(2)] d3(3) u(6) by simp
    then obtain d4 where d4: "release (vb, d3) = ret (vb, d4)" "beside (ls_device ls) d4" "next_handle d4 = next_handle d3"
      using release_holds by blast
    let ?ls = "ls\<lparr>ls_textures := st, ls_device := d4\<rparr>"
    have "load_shape fmt loads directory att materials shape ls = ret ?ls"
      using Some by (simp add: load_shape_def g(1) t(1) u(1) Let_def d3(1) d4(1))
    moreover have "fresh_above d4"
      using d3(3) d4(2,3) u(5,6) f by (auto simp: fresh_above_def unused_def beside_def)
    then have "load_inv ?ls \<and> load_grows ls ?ls"
      using t(2,3) d4(2) by (simp add: load_inv_def load_grows_def valid_textures_def beside_def)
    ultimately show ?thesis using Some by auto
  qed
qed

lemma load_shapes_ok:
  assumes "formats_ok fmt" "\<forall>f. loads f = None"
  shows "\<forall>shape \<in> set shapes. shape_fits att shape \<and> material_fits materials shape \<Longrightarrow> load_inv ls \<Longrightarrow>
    \<exists>ls'. rfold (load_shape fmt loads directory att materials) shapes ls = ret ls' \<and> load_inv ls' \<and> load_grows ls ls' \<and>
    (\<forall>name. case ls_meshes ls name of
        Some m \<Rightarrow> ls_meshes ls' name = Some m
      | None \<Rightarrow> (case find (\<lambda>shape. shape_name shape = name) shapes of
          None \<Rightarrow> ls_meshes ls' name = None
        | Some shape \<Rightarrow> \<exists>mesh. ls_meshes ls' name = Some mesh \<and> shows_shape fmt directory att materials shape ls' mesh))"
proof (induction shapes arbitrary: ls)
  case Nil
  then show ?case by (simp add: load_grows_def split: option.splits)
next
  case (Cons shape shapes)
  obtain ls1 where 1: "load_shape fmt loads directory att materials shape ls = ret ls1" "load_inv ls1" "load_grows ls ls1"
    "case ls_meshes ls (shape_name shape) of
       Some m \<Rightarrow> ls_meshes ls1 = ls_meshes ls
     | None \<Rightarrow> \<exists>mesh. ls_meshes ls1 = (ls_meshes ls)(shape_name shape \<mapsto> mesh) \<and>
         shows_shape fmt directory att materials shape ls1 mesh"
    using load_shape_ok[OF assms, of att shape materials ls directory] Cons.prems by auto
  have "\<forall>shape \<in> set shapes. shape_fits att shape \<and> material_fits materials shape" using Cons.prems(1) by simp
  from Cons.IH[OF this 1(2)] obtain ls2 where 2: "rfold (load_shape fmt loads directory att materials) shapes ls1 = ret ls2"
    "load_inv ls2" "load_grows ls1 ls2"
    "\<And>name. case ls_meshes ls1 name of
        Some m \<Rightarrow> ls_meshes ls2 name = Some m
      | None \<Rightarrow> (case find (\<lambda>shape. shape_name shape = name) shapes of
          None \<Rightarrow> ls_meshes ls2 name = None
        | Some shape \<Rightarrow> \<exists>mesh. ls_meshes ls2 name = Some mesh \<and> shows_shape fmt directory att materials shape ls2 mesh)"
    by blast
  have "case ls_meshes ls name of
        Some m \<Rightarrow> ls_meshes ls2 name = Some m
      | None \<Rightarrow> (case find (\<lambda>shape. shape_name shape = name) (shape # shapes) of
          None \<Rightarrow> ls_meshes ls2 name = None
        | Some shape \<Rightarrow> \<exists>mesh. ls_meshes ls2 name = Some mesh \<and> shows_shape fmt directory att materials shape ls2 mesh)" for name
    using 1(4) 2(4)[of name] shows_shape_mono[OF _ 2(3)]
    by (cases "shape_name shape = name"; cases "ls_meshes ls (shape_name shape)"; cases "ls_meshes ls name") auto
  then show ?case using 1(1) 2(1,2) load_grows_trans[OF 1(3) 2(3)] by auto
qed


text \<open>
  C33: Loading a file whose shapes are complete triangles with attributes and materials that exist, when every texture
  loads and every texture in the cache so far is a 2D texture under its file's name: the call returns, and under every
  name that was free it has stored a mesh for the first shape of that name; meshes that were there under their names
  stay, and further shapes of a name are dropped. The vertex and index buffers of a stored mesh hold, in device
  memory, vertices and indices that draw the corners of the shape in the order of the file with the file's normals, or
  with generated ones if the file has none at all, and with generated tangents; the textures of the mesh come from the
  files its material names, and no texture file has been loaded twice.
\<close>

theorem load_shows_shapes:
  assumes "formats_ok fmt" "\<forall>f. loads f = None" "LoadObj obj (directory_of obj) = Parsed att shapes materials"
    and "\<forall>shape \<in> set shapes. shape_fits att shape \<and> material_fits materials shape" "load_inv ls"
  shows "\<exists>ls'. load fmt loads LoadObj obj ls = ret ls' \<and> load_inv ls' \<and>
    (\<forall>name. case ls_meshes ls name of
        Some m \<Rightarrow> ls_meshes ls' name = Some m
      | None \<Rightarrow> (case find (\<lambda>shape. shape_name shape = name) shapes of
          None \<Rightarrow> ls_meshes ls' name = None
        | Some shape \<Rightarrow> \<exists>mesh. ls_meshes ls' name = Some mesh \<and>
            shows_shape fmt (directory_of obj) att materials shape ls' mesh)) \<and>
    distinct (map tex_file (objects (snd (ls_textures ls'))))"
proof -
  obtain ls' where ls': "rfold (load_shape fmt loads (directory_of obj) att materials) shapes ls = ret ls'" "load_inv ls'"
    "\<forall>name. case ls_meshes ls name of
        Some m \<Rightarrow> ls_meshes ls' name = Some m
      | None \<Rightarrow> (case find (\<lambda>shape. shape_name shape = name) shapes of
          None \<Rightarrow> ls_meshes ls' name = None
        | Some shape \<Rightarrow> \<exists>mesh. ls_meshes ls' name = Some mesh \<and>
            shows_shape fmt (directory_of obj) att materials shape ls' mesh)"
    using load_shapes_ok[OF assms(1,2,4,5), of "directory_of obj"] by blast
  then have "distinct (map tex_file (objects (snd (ls_textures ls'))))" by (simp add: load_inv_def tex_inv_once)
  then show ?thesis using ls' assms(3) by (auto simp: load_def)
qed

definition triangle_attrib :: "rat attrib" where
  "triangle_attrib = \<lparr>att_vertices = [0, 0, 0, 1, 0, 0, 0, 1, 0], att_normals = [], att_texcoords = [0, 0, 1, 0]\<rparr>"

definition triangle_shape :: "string \<Rightarrow> obj_shape" where
  "triangle_shape name = \<lparr>shape_name = name,
     shape_indices = map (\<lambda>k. \<lparr>vertex_index = k, normal_index = - 1, texcoord_index = k mod 2\<rparr>) [0, 1, 2, 0, 2, 1], material_ids = [0, 0]\<rparr>"

definition wood :: obj_material where
  "wood = \<lparr>diffuse_texname = ''wood.png'', bump_texname = '''', roughness_texname = '''', metallic_texname = ''m.png'',
     specular_highlight_texname = ''s.png''\<rparr>"

definition plain_formats :: "(rat, nat) mesh_formats" where
  "plain_formats = \<lparr>normalize = (\<lambda>v. v), vertex_bytes = (\<lambda>v. replicate 60 0), index_bytes = (\<lambda>k. [k, 0, 0, 0]), limits = host_limits\<rparr>"

definition empty_load :: "(nat, unit) load_state" where
  "empty_load = \<lparr>ls_meshes = (\<lambda>_. None), ls_textures = ([], no_resources), ls_device = empty_device\<rparr>"

theorem load_shows_shapes_witness:
  "\<exists>ls' mesh. load plain_formats (\<lambda>_. None) (\<lambda>_ _. Parsed triangle_attrib [triangle_shape ''a'', triangle_shape ''a''] [wood])
      ''models/tri.obj'' empty_load = ret ls' \<and> ls_meshes ls' ''a'' = Some mesh \<and> lm_count mesh = 6 \<and>
    map_option (file_at (ls_textures ls')) (metallic (lm_textures mesh)) = Some ''models/s.png''"
proof -
  let ?shapes = "[triangle_shape ''a'', triangle_shape ''a'']"
  let ?load = "\<lambda>_ _. Parsed triangle_attrib ?shapes [wood]"
  have f: "formats_ok plain_formats" using host_limits_good by (simp add: formats_ok_def plain_formats_def)
  have s: "\<forall>shape \<in> set ?shapes. shape_fits triangle_attrib shape \<and> material_fits [wood] shape"
    by (simp add: shape_fits_def material_fits_def corner_ok_def triangle_shape_def triangle_attrib_def)
  have i: "load_inv empty_load"
    using empty_device_fresh by (simp add: load_inv_def tex_inv_def empty_load_def live_def no_resources_def)
  have d: "directory_of ''models/tri.obj'' = ''models''" by code_simp
  obtain ls' where l: "load plain_formats (\<lambda>_. None) ?load ''models/tri.obj'' empty_load = ret ls'"
    "\<exists>mesh. ls_meshes ls' ''a'' = Some mesh \<and>
       shows_shape plain_formats ''models'' triangle_attrib [wood] (triangle_shape ''a'') ls' mesh"
    using load_shows_shapes[OF f, of "\<lambda>_. None" ?load "''models/tri.obj''", OF _ refl s i] d
    by (auto simp: empty_load_def triangle_shape_def split: option.splits dest!: spec[of _ "''a''"])
  then obtain mesh where m: "ls_meshes ls' ''a'' = Some mesh"
    "shows_shape plain_formats ''models'' triangle_attrib [wood] (triangle_shape ''a'') ls' mesh" by blast
  then have "lm_count mesh = 6"
    using draws_shape_length by (fastforce simp: shows_shape_def triangle_shape_def)
  moreover have "map_option (file_at (ls_textures ls')) (metallic (lm_textures mesh)) = Some ''models/s.png''"
  proof -
    have "texture_files (lm_textures mesh, ls_textures ls') = shape_files ''models'' [wood] (triangle_shape ''a'')"
      using m(2) by (auto simp: shows_shape_def)
    from arg_cong[OF this, of metallic] show ?thesis
      by (simp add: texture_files_def map_textures_def shape_files_def material_files_def triangle_shape_def wood_def Let_def)
  qed
  ultimately show ?thesis using l(1) m(1) by blast
qed

theorem shape_vertices_roundtrip_witness:
  "\<exists>u. shape_vertices triangle_attrib (triangle_shape ''a'') = ret u \<and> length (u_vertices u) = 3 \<and>
     map ((!) (u_vertices u)) (u_indices u) = map (corner_of triangle_attrib) (shape_indices (triangle_shape ''a''))"
proof -
  let ?s = "triangle_shape ''a''" and ?c = "corner_of triangle_attrib ` set (shape_indices (triangle_shape ''a''))"
  have ok: "\<forall>i \<in> set (shape_indices ?s). corner_ok triangle_attrib i"
    by (simp add: corner_ok_def triangle_shape_def triangle_attrib_def)
  have c: "card ?c = 3"
    by (simp add: triangle_shape_def corner_of_def vec3_at_def triangle_attrib_def card_insert_if)
  then have "card ?c \<le> 2 ^ 32" by simp
  from shape_vertices_roundtrip[OF this] ok obtain u where u: "shape_vertices triangle_attrib ?s = ret u"
    "map ((!) (u_vertices u)) (u_indices u) = map (corner_of triangle_attrib) (shape_indices ?s)"
    "distinct (u_vertices u)" "set (u_vertices u) = ?c" by auto
  then have "length (u_vertices u) = 3" using c distinct_card by metis
  with u show ?thesis by blast
qed

section \<open>Where loading fails\<close>

text \<open>A shape without faces, as a group of lines or points gives it, has no material number to read.\<close>

theorem shape_without_faces:
  assumes "shape_indices shape = []" "material_ids shape = []"
  shows "load_shape fmt loads directory att materials shape ls = fail BadIndex"
proof -
  have "shape_geometry fmt att shape = ret ([], [])"
    using assms(1) by (simp add: shape_geometry_def shape_vertices_eq no_vertices_def generateNormals_def set_normals_def generateTangents_def)
  then show ?thesis using assms(2) by (simp add: load_shape_def shape_textures_def elem_at_def)
qed

text \<open>A file given without a directory has its own name as directory, so its textures are looked for below the file.\<close>

lemma directory_without_delimiter: "CHR ''/'' \<notin> set obj \<Longrightarrow> directory_of obj = obj"
  by (auto simp: directory_of_def find_last_of_def split: option.splits)


section \<open>Mesh resources and mesh renderers\<close>

text \<open>
  A mesh resource is the map of meshes of one file, filled by its constructor. The component \<^verbatim>\<open>Model\<close> has a
  kind and, for files, the resource; \<^verbatim>\<open>MeshRenderer::getMesh\<close> takes the mesh from the model of its own entity
  or of one above it. The meshes of the primitives are parameters.
\<close>

definition MeshResource_new ::
  "('a::field, 'b) mesh_formats \<Rightarrow> (string \<Rightarrow> fault option) \<Rightarrow> (string \<Rightarrow> string \<Rightarrow> 'a obj_file) \<Rightarrow> string \<Rightarrow>
   ('b, 'q) load_state \<Rightarrow> ('b, 'q) load_state run" where
  "MeshResource_new fmt loads LoadObj name ls = load fmt loads LoadObj name (ls\<lparr>ls_meshes := (\<lambda>_. None)\<rparr>)"

definition addMesh :: "string \<Rightarrow> 'm \<Rightarrow> (string \<rightharpoonup> 'm) \<Rightarrow> (string \<rightharpoonup> 'm)" where
  "addMesh name mesh meshes = (case meshes name of None \<Rightarrow> meshes(name \<mapsto> mesh) | Some _ \<Rightarrow> meshes)"

definition find_mesh :: "string \<Rightarrow> (string \<rightharpoonup> 'm) \<Rightarrow> 'm option" where
  "find_mesh name meshes = (case meshes name of Some mesh \<Rightarrow> Some mesh | None \<Rightarrow> None)"

datatype primitive_type = PlanePrim | QuadPrim | CubePrim | PyramidPrim | SpherePrim | CapsulePrim | CylinderPrim | TerrainPrim | FilePrim

record 'm model =
  model_type :: primitive_type
  model_resource :: "(string \<rightharpoonup> 'm) option"

record 'm mesh_renderer =
  renderer_mesh :: "'m option"
  meshName :: string

definition mesh_from_resource :: "string \<Rightarrow> 'm model \<Rightarrow> 'm option run" where
  "mesh_from_resource name mo = (case model_resource mo of None \<Rightarrow> fail NullDeref | Some r \<Rightarrow> ret (find_mesh name r))"

definition getMesh_named ::
  "'m \<Rightarrow> 'm \<Rightarrow> 'm model option \<Rightarrow> 'm model option \<Rightarrow> string \<Rightarrow> 'm mesh_renderer \<Rightarrow> 'm mesh_renderer run" where
  "getMesh_named cube sphere own from_parent name r =
     (case own of
        Some mo \<Rightarrow> (case model_type mo of
            CubePrim \<Rightarrow> ret (r\<lparr>renderer_mesh := Some cube\<rparr>)
          | SpherePrim \<Rightarrow> ret (r\<lparr>renderer_mesh := Some sphere\<rparr>)
          | FilePrim \<Rightarrow> rbind (mesh_from_resource name mo) (\<lambda>m. ret (r\<lparr>renderer_mesh := m\<rparr>))
          | _ \<Rightarrow> ret r)
      | None \<Rightarrow> (case from_parent of
            None \<Rightarrow> fail NullDeref
          | Some mo \<Rightarrow> rbind (mesh_from_resource name mo) (\<lambda>m. ret (r\<lparr>renderer_mesh := m\<rparr>))))"

definition getMesh ::
  "'m \<Rightarrow> 'm \<Rightarrow> 'm model option \<Rightarrow> 'm model option \<Rightarrow> 'm mesh_renderer \<Rightarrow> ('m option \<times> 'm mesh_renderer) run" where
  "getMesh cube sphere own from_parent r =
     rbind (if renderer_mesh r = None then getMesh_named cube sphere own from_parent (meshName r) r else ret r)
       (\<lambda>r. ret (renderer_mesh r, r))"

text \<open>The mesh is shared with the resource and all its other renderers, and its material is set in the shared object.\<close>

definition loadFromModel ::
  "'t \<Rightarrow> 'm \<Rightarrow> 'm \<Rightarrow> 'm model option \<Rightarrow> 'm model option \<Rightarrow> 'm mesh_renderer \<times> ('m \<rightharpoonup> 't) \<Rightarrow> ('m mesh_renderer \<times> ('m \<rightharpoonup> 't)) run" where
  "loadFromModel material cube sphere own from_parent = (\<lambda>(r, materials).
     rbind (getMesh_named cube sphere own from_parent (meshName r) r)
       (\<lambda>r. ret (r, case renderer_mesh r of None \<Rightarrow> materials | Some m \<Rightarrow> materials(m \<mapsto> material))))"

text \<open>
  A renderer below the model of a file shows the shape of the file that has the name of its mesh, and keeps it: later
  calls return the mesh that was found. A renderer that has no model at or above its entity dereferences a null pointer.
\<close>

theorem renderer_shows_file:
  assumes "formats_ok fmt" "\<forall>f. loads f = None" "LoadObj obj (directory_of obj) = Parsed att shapes materials"
    and "\<forall>shape \<in> set shapes. shape_fits att shape \<and> material_fits materials shape" "load_inv ls"
    and "find (\<lambda>shape. shape_name shape = name) shapes = Some shape"
  shows "\<exists>ls' mesh. MeshResource_new fmt loads LoadObj obj ls = ret ls' \<and>
    shows_shape fmt (directory_of obj) att materials shape ls' mesh \<and>
    getMesh cube sphere None (Some \<lparr>model_type = FilePrim, model_resource = Some (ls_meshes ls')\<rparr>)
      \<lparr>renderer_mesh = None, meshName = name\<rparr> = ret (Some mesh, \<lparr>renderer_mesh = Some mesh, meshName = name\<rparr>) \<and>
    getMesh cube sphere own up \<lparr>renderer_mesh = Some mesh, meshName = name\<rparr> =
      ret (Some mesh, \<lparr>renderer_mesh = Some mesh, meshName = name\<rparr>) \<and>
    getMesh cube sphere None None \<lparr>renderer_mesh = None, meshName = name\<rparr> = fail NullDeref"
proof -
  have "load_inv (ls\<lparr>ls_meshes := (\<lambda>_. None)\<rparr>)" using assms(5) by (simp add: load_inv_def)
  from load_shapes_ok[OF assms(1,2,4) this, of "directory_of obj"] obtain ls' where
    ls: "MeshResource_new fmt loads LoadObj obj ls = ret ls'"
    "\<And>name. case find (\<lambda>shape. shape_name shape = name) shapes of
          None \<Rightarrow> ls_meshes ls' name = None
        | Some shape \<Rightarrow> \<exists>mesh. ls_meshes ls' name = Some mesh \<and> shows_shape fmt (directory_of obj) att materials shape ls' mesh"
    using assms(3) by (auto simp: MeshResource_new_def load_def)
  obtain mesh where "ls_meshes ls' name = Some mesh" "shows_shape fmt (directory_of obj) att materials shape ls' mesh"
    using ls(2)[of name] assms(6) by auto
  then show ?thesis using ls(1) by (auto simp: getMesh_def getMesh_named_def mesh_from_resource_def find_mesh_def)
qed

end
