(* ===== verification/Lua_Scripts.thy ===== *)
theory Lua_Scripts
  imports Maple_Prelude Strings
begin

text \<open>
  Lua scripts: \<^verbatim>\<open>Scripts/Lua/LuaComponent.cpp\<close>, \<^verbatim>\<open>LuaSystem.cpp\<close>, the search path of
  \<^verbatim>\<open>LuaVirtualMachine.cpp\<close>, and the files in which the fields of a script are kept, \<^verbatim>\<open>MetaFile.cpp\<close>.

  The table of a script is a list of named fields, in the order in which \<^verbatim>\<open>luabridge::pairs\<close> visits them, and the methods that an index
  finds through the metatable when no field has the name. Vectors and entities are values of the fields. Running a file, calling \<^verbatim>\<open>new\<close> and
  calling a method are the work of the Lua machine and parameters here; a method returns the table as it leaves it and the
  error it raised, if any. An archive is a list of named values that is read by name, as \<^verbatim>\<open>cereal\<close> documents: a name that is
  missing, or a value of another kind, throws.
\<close>

section \<open>Values and tables\<close>

datatype 'f lua_value =
    LNil
  | LNumber 'f
  | LString string
  | LBool bool
  | LFunction nat
  | LTable
  | LVec "'f list"
  | LEntity nat
  | LUserdata

record 'f lua_object =
  lo_fields :: "(string \<times> 'f lua_value) list"
  lo_methods :: "string \<Rightarrow> 'f lua_value"

definition lua_index :: "'f lua_object \<Rightarrow> string \<Rightarrow> 'f lua_value" where
  "lua_index obj name = (case map_of (lo_fields obj) name of Some v \<Rightarrow> v | None \<Rightarrow> lo_methods obj name)"

fun set_field :: "string \<Rightarrow> 'v \<Rightarrow> (string \<times> 'v) list \<Rightarrow> (string \<times> 'v) list" where
  "set_field k v [] = [(k, v)]"
| "set_field k v ((k', v') # fs) = (if k = k' then (k, v) # fs else (k', v') # set_field k v fs)"

definition lua_set :: "string \<Rightarrow> 'f lua_value \<Rightarrow> 'f lua_object \<Rightarrow> 'f lua_object" where
  "lua_set k v obj = obj\<lparr>lo_fields := set_field k v (lo_fields obj)\<rparr>"

definition is_function :: "'f lua_value \<Rightarrow> bool" where
  "is_function v = (case v of LFunction _ \<Rightarrow> True | _ \<Rightarrow> False)"

section \<open>Meta files\<close>

datatype 'f json = JNum 'f | JStr string | JBool bool | JVec "'f list" | JHandle nat

type_synonym 'f archive = "(string \<times> 'f json) list"

text \<open>
  \<open>to_float\<close> is the conversion of a Lua number to a \<^verbatim>\<open>float\<close>. A vector is one of \<^verbatim>\<open>vec2\<close>,
  \<^verbatim>\<open>vec3\<close> and \<^verbatim>\<open>vec4\<close>, other user data is not written.
\<close>

definition save_value :: "('f \<Rightarrow> 'f) \<Rightarrow> string \<Rightarrow> 'f lua_value \<Rightarrow> 'f json option" where
  "save_value to_float name v = (case v of
       LNumber x \<Rightarrow> Some (JNum (to_float x))
     | LString s \<Rightarrow> Some (JStr s)
     | LBool b \<Rightarrow> Some (JBool b)
     | LVec xs \<Rightarrow> (if 2 \<le> length xs \<and> length xs \<le> 4 then Some (JVec xs) else None)
     | LEntity h \<Rightarrow> (if name \<noteq> ''entity'' then Some (JHandle h) else None)
     | _ \<Rightarrow> None)"

definition skipped_on_save :: "string \<Rightarrow> bool" where
  "skipped_on_save name \<longleftrightarrow> name = ''__cname'' \<or> name = ''__index''"

fun save_fields :: "('f \<Rightarrow> 'f) \<Rightarrow> (string \<times> 'f lua_value) list \<Rightarrow> 'f archive" where
  "save_fields to_float [] = []"
| "save_fields to_float ((name, v) # fs) =
     (if skipped_on_save name then save_fields to_float fs
      else (case save_value to_float name v of
          Some j \<Rightarrow> (name, j) # save_fields to_float fs
        | None \<Rightarrow> save_fields to_float fs))"

text \<open>The archive opens its object with the first value, so that a save without values leaves an empty file. A file that does not exist or is empty is \<^term>\<open>None\<close>.\<close>

definition meta_save :: "('f \<Rightarrow> 'f) \<Rightarrow> 'f lua_object option \<Rightarrow> 'f archive option" where
  "meta_save to_float tab = (case (case tab of Some obj \<Rightarrow> save_fields to_float (lo_fields obj) | None \<Rightarrow> []) of
       [] \<Rightarrow> None
     | j # js \<Rightarrow> Some (j # js))"

definition nvp :: "'f archive \<Rightarrow> string \<Rightarrow> 'f json run" where
  "nvp ar name = (case map_of ar name of Some j \<Rightarrow> ret j | None \<Rightarrow> fail (RuntimeError ''JSON Parsing failed - provided NVP not found''))"

definition wrong_kind :: "'a run" where
  "wrong_kind = fail (RuntimeError ''rapidjson internal assertion failure'')"

definition read_float :: "'f::semiring_1 json \<Rightarrow> 'f run" where
  "read_float j = (case j of JNum x \<Rightarrow> ret x | JHandle h \<Rightarrow> ret (of_nat h) | _ \<Rightarrow> wrong_kind)"

definition read_vec :: "nat \<Rightarrow> 'f json \<Rightarrow> 'f list run" where
  "read_vec n j = (case j of
       JVec xs \<Rightarrow> if n \<le> length xs then ret (take n xs)
         else fail (RuntimeError ''JSON Parsing failed - provided NVP not found'')
     | _ \<Rightarrow> wrong_kind)"

definition load_value :: "'f::semiring_1 archive \<Rightarrow> string \<Rightarrow> 'f lua_value \<Rightarrow> 'f lua_value run" where
  "load_value ar name v = (case v of
       LNumber x \<Rightarrow> rbind (nvp ar name) (\<lambda>j. rbind (read_float j) (\<lambda>y. ret (LNumber y)))
     | LString s \<Rightarrow> rbind (nvp ar name) (\<lambda>j. case j of JStr t \<Rightarrow> ret (LString t) | _ \<Rightarrow> wrong_kind)
     | LBool b \<Rightarrow> rbind (nvp ar name) (\<lambda>j. case j of JBool c \<Rightarrow> ret (LBool c) | _ \<Rightarrow> wrong_kind)
     | LVec xs \<Rightarrow> (if 2 \<le> length xs \<and> length xs \<le> 4
         then rbind (nvp ar name) (\<lambda>j. rbind (read_vec (length xs) j) (\<lambda>ys. ret (LVec ys))) else ret v)
     | LEntity h \<Rightarrow> (if name \<noteq> ''entity''
         then rbind (nvp ar name) (\<lambda>j. case j of JHandle k \<Rightarrow> ret (LEntity k) | _ \<Rightarrow> wrong_kind) else ret v)
     | _ \<Rightarrow> ret v)"

fun load_fields :: "'f::semiring_1 archive \<Rightarrow> (string \<times> 'f lua_value) list \<Rightarrow> (string \<times> 'f lua_value) list run" where
  "load_fields ar [] = ret []"
| "load_fields ar ((name, v) # fs) =
     rbind (load_value ar name v) (\<lambda>w. rbind (load_fields ar fs) (\<lambda>ws. ret ((name, w) # ws)))"

definition meta_load :: "'f::semiring_1 archive option \<Rightarrow> 'f lua_object \<Rightarrow> 'f lua_object run" where
  "meta_load file obj = (case file of
       None \<Rightarrow> ret obj
     | Some ar \<Rightarrow> rbind (load_fields ar (lo_fields obj)) (\<lambda>fs. ret (obj\<lparr>lo_fields := fs\<rparr>)))"

section \<open>The script component\<close>

record 'f lua_component =
  lc_file :: string
  className :: string
  lc_table :: "'f lua_object option"
  onInitFunc :: "'f lua_value option"
  onUpdateFunc :: "'f lua_value option"
  lc_entity :: nat

record 'f lua_machine =
  dofile :: "string \<Rightarrow> 'f lua_object"
  call_new :: "'f lua_object \<Rightarrow> string + 'f lua_object"
  invoke :: "'f lua_value \<Rightarrow> 'f lua_object \<Rightarrow> 'f lua_object \<times> string option"
  invoke_dt :: "'f lua_value \<Rightarrow> 'f \<Rightarrow> 'f lua_object \<Rightarrow> 'f lua_object \<times> string option"

text \<open>
  The component and the log of errors. When \<^verbatim>\<open>new\<close> is not a function or fails, the table stays
  the class and the functions stay those of an earlier load, if there was one.
\<close>

type_synonym 'f script_state = "'f lua_component \<times> string list"

definition loadScript :: "'f lua_machine \<Rightarrow> 'f script_state \<Rightarrow> 'f script_state" where
  "loadScript vm = (\<lambda>(lc, log).
     let cls = dofile vm (lc_file lc) in
     case call_new vm cls of
       Inl e \<Rightarrow> (lc\<lparr>lc_table := Some cls\<rparr>, log @ [e])
     | Inr obj \<Rightarrow> (lc\<lparr>lc_table := Some (lua_set ''entity'' (LEntity (lc_entity lc)) obj),
         onInitFunc := Some (lua_index obj ''OnInit''), onUpdateFunc := Some (lua_index obj ''OnUpdate'')\<rparr>, log))"

definition reload :: "'f lua_machine \<Rightarrow> 'f script_state \<Rightarrow> 'f script_state" where
  "reload vm s = loadScript vm s"

definition class_of_file :: "char \<Rightarrow> string \<Rightarrow> string" where
  "class_of_file delimiter file = removeExtension (getFileName delimiter file)"

definition setFilePath :: "char \<Rightarrow> string \<Rightarrow> 'f lua_component \<Rightarrow> 'f lua_component" where
  "setFilePath delimiter fileName lc = lc\<lparr>lc_file := fileName, className := class_of_file delimiter fileName\<rparr>"

definition lua_init :: "'f lua_machine \<Rightarrow> char \<Rightarrow> 'f script_state \<Rightarrow> 'f script_state" where
  "lua_init vm delimiter = (\<lambda>(lc, log). loadScript vm (lc\<lparr>className := class_of_file delimiter (lc_file lc)\<rparr>, log))"

definition defaultScript :: string where
  "defaultScript = [CHR 0x0A, CHR 0x0A] @ ''#name = {}'' @ [CHR 0x0A, CHR 0x0A] @ ''function #name:OnInit()'' @ [CHR 0x0A] @ ''end'' @
     [CHR 0x0A, CHR 0x0A] @ ''function #name:OnUpdate(dt)'' @ [CHR 0x0A] @ ''end'' @ [CHR 0x0A, CHR 0x0A] @ ''return #name'' @ [CHR 0x0A, CHR 0x0A]"

text \<open>The new file and the component: replacing always ends, since the name that is looked for is not empty.\<close>

definition saveNewFile ::
  "'f lua_machine \<Rightarrow> char \<Rightarrow> string \<Rightarrow> 'f script_state \<Rightarrow> ((string \<times> string) \<times> 'f script_state) option" where
  "saveNewFile vm delimiter clazzName = (\<lambda>(lc, log).
     case replace defaultScript ''#name'' clazzName of
       None \<Rightarrow> None
     | Some text \<Rightarrow>
         let path = ''scripts/'' @ clazzName @ ''.lua''
         in Some ((path, text), reload vm (setFilePath delimiter path (lc\<lparr>className := clazzName\<rparr>), log)))"

definition lua_onInit :: "'f::semiring_1 lua_machine \<Rightarrow> 'f archive option \<Rightarrow> 'f script_state \<Rightarrow> 'f script_state run" where
  "lua_onInit vm file = (\<lambda>(lc, log).
     let lc = lc\<lparr>lc_table := map_option (lua_set ''entity'' (LEntity (lc_entity lc))) (lc_table lc)\<rparr> in
     case onInitFunc lc of
       Some f \<Rightarrow> if is_function f
         then (case lc_table lc of
             None \<Rightarrow> fail NullDeref
           | Some obj \<Rightarrow> (let (obj, e) = invoke vm f obj in
               rbind (meta_load file obj) (\<lambda>obj.
               ret (lc\<lparr>lc_table := Some obj\<rparr>, log @ (case e of None \<Rightarrow> [] | Some m \<Rightarrow> [m])))))
         else ret (lc, log)
     | None \<Rightarrow> ret (lc, log))"

definition lua_onUpdate :: "'f lua_machine \<Rightarrow> 'f \<Rightarrow> 'f script_state \<Rightarrow> 'f script_state run" where
  "lua_onUpdate vm dt = (\<lambda>(lc, log).
     case onUpdateFunc lc of
       Some f \<Rightarrow> if is_function f
         then (case lc_table lc of
             None \<Rightarrow> fail NullDeref
           | Some obj \<Rightarrow> (let (obj, e) = invoke_dt vm f dt obj in
               ret (lc\<lparr>lc_table := Some obj\<rparr>, log @ (case e of None \<Rightarrow> [] | Some m \<Rightarrow> [m]))))
         else ret (lc, log)
     | None \<Rightarrow> ret (lc, log))"

text \<open>The system updates all script components of the scene, in the order of the registry, while the editor plays.\<close>

fun update_scripts :: "'f lua_machine \<Rightarrow> 'f \<Rightarrow> 'f lua_component list \<Rightarrow> string list \<Rightarrow> ('f lua_component list \<times> string list) run" where
  "update_scripts vm dt [] log = ret ([], log)"
| "update_scripts vm dt (lc # lcs) log = rbind (lua_onUpdate vm dt (lc, log)) (\<lambda>(lc, log).
     rbind (update_scripts vm dt lcs log) (\<lambda>(lcs, log). ret (lc # lcs, log)))"

definition LuaSystem_onUpdate ::
  "'f lua_machine \<Rightarrow> bool \<Rightarrow> 'f \<Rightarrow> 'f lua_component list \<Rightarrow> string list \<Rightarrow> ('f lua_component list \<times> string list) run" where
  "LuaSystem_onUpdate vm playing dt lcs log = (if playing then update_scripts vm dt lcs log else ret (lcs, log))"

section \<open>The search path\<close>

datatype dir = Dir string "dir list"

definition addSystemPath :: "string \<Rightarrow> string \<Rightarrow> string" where
  "addSystemPath p v = v @ '';'' @ p"

text \<open>The path of a directory is the path of the one above it, a delimiter and its name, as the iterator gives it.\<close>

fun addPath :: "string \<Rightarrow> dir \<Rightarrow> string \<Rightarrow> string" where
  "addPath p (Dir name subs) v = fold (\<lambda>sub. addPath (p @ ''/'' @ (case sub of Dir n _ \<Rightarrow> n)) sub) subs (addSystemPath (p @ ''/?.lua'') v)"


section \<open>Saving and loading the fields\<close>

text \<open>The kind of a value decides how it is read; what is read back is the saved value, or the value that was there.\<close>

definition same_kind :: "'f lua_value \<Rightarrow> 'f lua_value \<Rightarrow> bool" where
  "same_kind v w = (case v of
       LNumber _ \<Rightarrow> (case w of LNumber _ \<Rightarrow> True | _ \<Rightarrow> False)
     | LString _ \<Rightarrow> (case w of LString _ \<Rightarrow> True | _ \<Rightarrow> False)
     | LBool _ \<Rightarrow> (case w of LBool _ \<Rightarrow> True | _ \<Rightarrow> False)
     | LVec xs \<Rightarrow> (case w of LVec ys \<Rightarrow> length xs = length ys | _ \<Rightarrow> False)
     | LEntity _ \<Rightarrow> (case w of LEntity _ \<Rightarrow> True | _ \<Rightarrow> False)
     | _ \<Rightarrow> (case w of LNil \<Rightarrow> True | LFunction _ \<Rightarrow> True | LTable \<Rightarrow> True | LUserdata \<Rightarrow> True | _ \<Rightarrow> False))"

fun json_value :: "'f json \<Rightarrow> 'f lua_value" where
  "json_value (JNum x) = LNumber x"
| "json_value (JStr s) = LString s"
| "json_value (JBool b) = LBool b"
| "json_value (JVec xs) = LVec xs"
| "json_value (JHandle h) = LEntity h"

definition restored :: "('f \<Rightarrow> 'f) \<Rightarrow> string \<times> 'f lua_value \<Rightarrow> string \<times> 'f lua_value \<Rightarrow> string \<times> 'f lua_value" where
  "restored to_float = (\<lambda>(n, v) (m, w). (m, case save_value to_float n v of Some j \<Rightarrow> json_value j | None \<Rightarrow> w))"

definition same_fields :: "(string \<times> 'f lua_value) list \<Rightarrow> (string \<times> 'f lua_value) list \<Rightarrow> bool" where
  "same_fields fs gs \<longleftrightarrow> list_all2 (\<lambda>(n, v) (m, w). n = m \<and> same_kind v w) fs gs"

definition lost_on_save :: "('f \<Rightarrow> 'f) \<Rightarrow> string \<times> 'f lua_value \<Rightarrow> bool" where
  "lost_on_save to_float = (\<lambda>(n, v). skipped_on_save n \<and> save_value to_float n v \<noteq> None)"

lemma map_of_saved:
  "distinct (map fst fs) \<Longrightarrow> map_of (save_fields to_float fs) n =
     (if skipped_on_save n then None else Option.bind (map_of fs n) (save_value to_float n))"
proof (induction fs)
  case (Cons f fs)
  obtain m v where f: "f = (m, v)" by force
  have "map_of fs m = None" using Cons.prems by (auto simp: f map_of_eq_None_iff)
  then show ?case using Cons by (auto simp: f split: option.splits)
qed simp

lemma load_value_saved:
  assumes "same_kind v w" "map_of ar n = save_value to_float n v"
  shows "load_value ar n w = ret (case save_value to_float n v of Some j \<Rightarrow> json_value j | None \<Rightarrow> w)"
  using assms
  by (auto simp: same_kind_def load_value_def save_value_def nvp_def read_float_def read_vec_def split: lua_value.splits if_splits)

lemma load_value_lost:
  assumes "same_kind v w" "map_of ar n = None" "save_value to_float n v \<noteq> None"
  shows "load_value ar n w = fail (RuntimeError ''JSON Parsing failed - provided NVP not found'')"
  using assms by (auto simp: same_kind_def load_value_def save_value_def nvp_def split: lua_value.splits if_splits)

lemma load_fields_saved:
  assumes "\<And>n v. (n, v) \<in> set fs \<Longrightarrow> map_of ar n = (if skipped_on_save n then None else save_value to_float n v)"
    and "same_fields fs gs"
  shows "load_fields ar gs = (if \<exists>f \<in> set fs. lost_on_save to_float f
    then fail (RuntimeError ''JSON Parsing failed - provided NVP not found'') else ret (map2 (restored to_float) fs gs))"
  using assms(2,1) unfolding same_fields_def
proof (induction fs gs rule: list_all2_induct)
  case (Cons f fs g gs)
  obtain n v m w where fg: "f = (n, v)" "g = (m, w)" by (metis surj_pair)
  have k: "n = m" "same_kind v w" using Cons.hyps(1) by (simp_all add: fg)
  have IH: "load_fields ar gs = (if \<exists>f \<in> set fs. lost_on_save to_float f
      then fail (RuntimeError ''JSON Parsing failed - provided NVP not found'') else ret (map2 (restored to_float) fs gs))"
    using Cons.IH Cons.prems by simp
  have ar: "map_of ar n = (if skipped_on_save n then None else save_value to_float n v)" using Cons.prems by (simp add: fg)
  show ?case
  proof (cases "lost_on_save to_float f")
    case True
    then show ?thesis using ar k load_value_lost[of v w ar n to_float] by (auto simp: fg lost_on_save_def)
  next
    case False
    then have "map_of ar n = save_value to_float n v" using ar by (auto simp: fg lost_on_save_def)
    from load_value_saved[OF k(2) this] show ?thesis using False k(1) IH by (auto simp: fg restored_def)
  qed
qed simp

definition saves_nothing :: "('f \<Rightarrow> 'f) \<Rightarrow> (string \<times> 'f lua_value) list \<Rightarrow> bool" where
  "saves_nothing to_float fs \<longleftrightarrow> (\<forall>(n, v) \<in> set fs. skipped_on_save n \<or> save_value to_float n v = None)"

lemma save_fields_nothing: "save_fields to_float fs = [] \<longleftrightarrow> saves_nothing to_float fs"
  by (induction to_float fs rule: save_fields.induct) (auto simp: saves_nothing_def split: option.splits)

text \<open>
  C34: The fields of a script survive in its meta file: loading what was saved from a table into a table with the same
  fields of the same kinds gives every number (as a float), string, truth value, vector and entity the saved value and leaves the other fields and the field
  \<^verbatim>\<open>entity\<close>. Two exceptions come from the fields \<^verbatim>\<open>__cname\<close> and \<^verbatim>\<open>__index\<close>, which saving leaves out and loading asks for:
  when the table has one of them with such a value, the call throws, unless there was nothing else to save; then the file is empty, and loading
  changes nothing.
\<close>

theorem meta_file_roundtrip:
  assumes "distinct (map fst (lo_fields saved))" "same_fields (lo_fields saved) (lo_fields obj)"
  shows "meta_load (meta_save to_float (Some saved)) obj =
    (if saves_nothing to_float (lo_fields saved) then ret obj
     else if \<exists>f \<in> set (lo_fields saved). lost_on_save to_float f
     then fail (RuntimeError ''JSON Parsing failed - provided NVP not found'')
     else ret (obj\<lparr>lo_fields := map2 (restored to_float) (lo_fields saved) (lo_fields obj)\<rparr>))"
proof -
  let ?ar = "save_fields to_float (lo_fields saved)"
  have m: "meta_save to_float (Some saved) = (if saves_nothing to_float (lo_fields saved) then None else Some ?ar)"
    unfolding save_fields_nothing[symmetric] by (simp add: meta_save_def split: list.splits)
  have "map_of ?ar n = (if skipped_on_save n then None else save_value to_float n v)"
    if "(n, v) \<in> set (lo_fields saved)" for n v
    using that assms(1) by (simp add: map_of_saved)
  from load_fields_saved[OF this assms(2)] show ?thesis by (auto simp: meta_load_def m)
qed

definition script_a :: "int lua_object" where
  "script_a = \<lparr>lo_fields = [(''speed'', LNumber 3), (''OnInit'', LFunction 0), (''pos'', LVec [1, 2, 3]), (''entity'', LEntity 7),
     (''target'', LEntity 4)], lo_methods = (\<lambda>_. LNil)\<rparr>"

definition script_b :: "int lua_object" where
  "script_b = \<lparr>lo_fields = [(''speed'', LNumber 0), (''OnInit'', LFunction 5), (''pos'', LVec [0, 0, 0]), (''entity'', LEntity 9),
     (''target'', LEntity 0)], lo_methods = (\<lambda>_. LNil)\<rparr>"

theorem meta_file_roundtrip_witness:
  "meta_load (meta_save id (Some script_a)) script_b = ret (script_b\<lparr>lo_fields :=
     [(''speed'', LNumber 3), (''OnInit'', LFunction 5), (''pos'', LVec [1, 2, 3]), (''entity'', LEntity 9), (''target'', LEntity 4)]\<rparr>) \<and>
   meta_load (meta_save id (Some (script_a\<lparr>lo_fields := [(''__cname'', LString ''A''), (''speed'', LNumber 3)]\<rparr>)))
     (script_b\<lparr>lo_fields := [(''__cname'', LString ''A''), (''speed'', LNumber 0)]\<rparr>) =
       fail (RuntimeError ''JSON Parsing failed - provided NVP not found'') \<and>
   meta_load (meta_save id (Some (script_a\<lparr>lo_fields := [(''__cname'', LString ''A'')]\<rparr>)))
     (script_b\<lparr>lo_fields := [(''__cname'', LString ''B'')]\<rparr>) = ret (script_b\<lparr>lo_fields := [(''__cname'', LString ''B'')]\<rparr>)"
proof -
  let ?c = "script_a\<lparr>lo_fields := [(''__cname'', LString ''A''), (''speed'', LNumber 3)]\<rparr>" and ?c' = "script_b\<lparr>lo_fields := [(''__cname'', LString ''A''), (''speed'', LNumber 0)]\<rparr>"
  let ?d = "script_a\<lparr>lo_fields := [(''__cname'', LString ''A'')]\<rparr>" and ?d' = "script_b\<lparr>lo_fields := [(''__cname'', LString ''B'')]\<rparr>"
  note defs = lost_on_save_def skipped_on_save_def save_value_def restored_def saves_nothing_def script_a_def script_b_def
  have 1: "distinct (map fst (lo_fields script_a))" "same_fields (lo_fields script_a) (lo_fields script_b)"
    by (simp_all add: script_a_def script_b_def same_fields_def same_kind_def)
  have 2: "distinct (map fst (lo_fields ?c))" "same_fields (lo_fields ?c) (lo_fields ?c')"
    by (simp_all add: same_fields_def same_kind_def)
  have 3: "distinct (map fst (lo_fields ?d))" "same_fields (lo_fields ?d) (lo_fields ?d')"
    by (simp_all add: same_fields_def same_kind_def)
  have "\<not> saves_nothing id (lo_fields script_a)" "\<not> saves_nothing id (lo_fields ?c)" "saves_nothing id (lo_fields ?d)"
    by (simp_all add: defs)
  then show ?thesis
    using meta_file_roundtrip[OF 1, of id] meta_file_roundtrip[OF 2, of id] meta_file_roundtrip[OF 3, of id]
    by (simp add: lost_on_save_def skipped_on_save_def save_value_def restored_def script_a_def script_b_def)
qed

section \<open>Scripts as the documentation writes them\<close>

text \<open>
  A script whose table has no \<^verbatim>\<open>new\<close>, as the documentation shows it and as the file a new script is created with: a fresh component
  loads the table, logs the error, and then neither initialises nor updates the script.
\<close>

definition new_component :: "string \<Rightarrow> nat \<Rightarrow> 'f lua_component" where
  "new_component file e = \<lparr>lc_file = file, className = '''', lc_table = None, onInitFunc = None, onUpdateFunc = None, lc_entity = e\<rparr>"

theorem script_without_new_idle:
  assumes "\<forall>cls. \<not> is_function (lua_index cls ''new'') \<longrightarrow> (\<exists>e. call_new vm cls = Inl e)"
    and "\<not> is_function (lua_index (dofile vm file) ''new'')"
  shows "\<exists>lc e. lua_init vm delimiter (new_component file ent, []) = (lc, [e]) \<and> lc_table lc = Some (dofile vm file) \<and>
    lua_onInit vm meta (lc, [e]) = ret (lc\<lparr>lc_table := Some (lua_set ''entity'' (LEntity ent) (dofile vm file))\<rparr>, [e]) \<and>
    LuaSystem_onUpdate vm True dt [lc] [e] = ret ([lc], [e])"
proof -
  obtain e where "call_new vm (dofile vm file) = Inl e" using assms by blast
  then show ?thesis
    by (simp add: lua_init_def loadScript_def new_component_def Let_def lua_onInit_def LuaSystem_onUpdate_def lua_onUpdate_def)
qed

section \<open>Names and paths\<close>

lemma find_last_of_here: "c \<notin> set ys \<Longrightarrow> find_last_of (xs @ c # ys) c = Some (length xs)"
proof -
  assume c: "c \<notin> set ys"
  have "takeWhile (\<lambda>x. x \<noteq> c) (rev (xs @ c # ys)) = rev ys" using c by (simp add: takeWhile_append)
  then show ?thesis by (simp add: find_last_of_def)
qed

text \<open>
  The class of a new script is the name it was given where the delimiter is the slash that the path is written with; with the delimiter of Windows
  the class has the directory in its name.
\<close>

theorem new_script_class:
  assumes "CHR ''/'' \<notin> set clazz" "CHR 0x5C \<notin> set clazz"
  shows "class_of_file (CHR ''/'') (''scripts/'' @ clazz @ ''.lua'') = clazz \<and>
    class_of_file (CHR 0x5C) (''scripts/'' @ clazz @ ''.lua'') = ''scripts/'' @ clazz"
proof -
  have dot: "removeExtension (xs @ ''.lua'') = xs" for xs
    using find_last_of_here[of "CHR ''.''" "''lua''" xs] by (simp add: removeExtension_def)
  have "getFileName (CHR ''/'') (''scripts/'' @ clazz @ ''.lua'') = clazz @ ''.lua''"
    using find_last_of_here[of "CHR ''/''" "clazz @ ''.lua''" "''scripts''"] assms(1) by (simp add: getFileName_def)
  moreover have "getFileName (CHR 0x5C) (''scripts/'' @ clazz @ ''.lua'') = (''scripts/'' @ clazz) @ ''.lua''"
    using assms(2) by (simp add: getFileName_def find_last_of_def)
  ultimately show ?thesis unfolding class_of_file_def by (simp only: dot)
qed

fun all_dirs :: "string \<Rightarrow> dir \<Rightarrow> string list" where
  "all_dirs p (Dir name subs) = p # concat (map (\<lambda>sub. all_dirs (p @ ''/'' @ (case sub of Dir n _ \<Rightarrow> n)) sub) subs)"

text \<open>The search path is extended by one pattern for every directory below the first, each once and parents first.\<close>

theorem addPath_patterns: "addPath p d v = v @ concat (map (\<lambda>q. '';'' @ q @ ''/?.lua'') (all_dirs p d))"
proof (induction p d v rule: addPath.induct)
  case (1 p name subs v)
  have "fold (\<lambda>sub. addPath (p @ ''/'' @ (case sub of Dir n _ \<Rightarrow> n)) sub) ds u =
      u @ concat (map (\<lambda>q. '';'' @ q @ ''/?.lua'') (concat (map (\<lambda>sub. all_dirs (p @ ''/'' @ (case sub of Dir n _ \<Rightarrow> n)) sub) ds)))"
    if "set ds \<subseteq> set subs" for ds u
    using that by (induction ds arbitrary: u) (auto simp: 1[simplified])
  then show ?case by (simp add: addSystemPath_def)
qed

end
