(* ===== verification/Environment_Maps.thy ===== *)
theory Environment_Maps
  imports Resource_Cache Vulkan_Images
begin

text \<open>
  The environment of a scene: the component \<^verbatim>\<open>Environment\<close> of \<^verbatim>\<open>Scene/Component/Component.cpp\<close>, the maps that
  \<^verbatim>\<open>Engine/Renderer/PreProcessRenderer.cpp\<close> renders from its picture, and the copy of a rendered face into a cube map,
  \<^verbatim>\<open>VulkanTextureCube::update\<close> of \<^verbatim>\<open>Engine/Vulkan/VulkanTexture.cpp\<close>.

  A cube map is a pointer into the list of cubes built so far, which holds its size and its number of mip levels. Every round of begin, present and end is one capture:
  what was drawn, for which face and mip level, how large, for which cube map, and the commands that copy it there. These
  commands are values, checked against the rules of Vulkan for layouts, ranges and extents.
\<close>

section \<open>The component\<close>

record environment =
  env_file :: string
  equirectangularMap :: "nat option"
  environmnet :: "nat option"
  prefilteredEnvironment :: "nat option"
  irradianceMap :: "nat option"

definition no_environment :: environment where
  "no_environment = \<lparr>env_file = '''', equirectangularMap = None, environmnet = None, prefilteredEnvironment = None, irradianceMap = None\<rparr>"

definition IrradianceMapSize :: nat where "IrradianceMapSize = 32"
definition PrefilterMapSize :: nat where "PrefilterMapSize = 128"
definition SkyboxSize :: nat where "SkyboxSize = 512"

record 'q env_world =
  ew_textures :: "'q texture_obj resources"
  ew_cubes :: "(nat \<times> nat) list"

definition new_cube :: "nat \<Rightarrow> nat \<Rightarrow> 'q env_world \<Rightarrow> nat \<times> 'q env_world" where
  "new_cube side numMips w = (length (ew_cubes w), w\<lparr>ew_cubes := ew_cubes w @ [(side, numMips)]\<rparr>)"

definition Environment_init ::
  "(string \<Rightarrow> fault option) \<Rightarrow> 'q \<Rightarrow> string \<Rightarrow> environment \<times> 'q env_world \<Rightarrow> (environment \<times> 'q env_world) run" where
  "Environment_init loads rgba32 filePath = (\<lambda>(e, w).
     let e = e\<lparr>env_file := filePath\<rparr> in
     if filePath \<noteq> ''''
     then (case Texture2D_create_with loads filePath rgba32 (ew_textures w) of
         (Inl f, rs) \<Rightarrow> fail f
       | (Inr p, rs) \<Rightarrow>
           (let w = w\<lparr>ew_textures := rs\<rparr>;
                (i, w) = new_cube IrradianceMapSize 1 w;
                (f, w) = new_cube PrefilterMapSize 5 w
            in ret (e\<lparr>equirectangularMap := Some p, irradianceMap := Some i, prefilteredEnvironment := Some f\<rparr>, w)))
     else ret (e, w))"

section \<open>Copying a face\<close>

record cube_image =
  ci_size :: nat
  ci_mips :: nat
  ci_layout :: "nat \<times> nat \<Rightarrow> layout"

text \<open>\<open>ci_layout\<close> is indexed by layer and mip level. The picture that is copied has one of each.\<close>

datatype copy_command =
    SourceBarrier layout layout
  | CubeBarrier layout layout nat nat nat nat
  | CopyImage nat nat nat

text \<open>\<open>CubeBarrier old new base_level levels base_layer layers\<close> and \<open>CopyImage layer level extent\<close>.\<close>

definition cube_update :: "nat \<Rightarrow> nat \<Rightarrow> nat \<Rightarrow> nat \<Rightarrow> copy_command list" where
  "cube_update side numMips cubeIndex mipmapLevel =
     [SourceBarrier L_COLOR_ATTACHMENT L_TRANSFER_SRC,
      CubeBarrier L_COLOR_ATTACHMENT L_TRANSFER_SRC 0 1 0 1,
      CopyImage cubeIndex mipmapLevel side,
      SourceBarrier L_TRANSFER_SRC L_COLOR_ATTACHMENT,
      CubeBarrier L_TRANSFER_DST L_SHADER_READ_ONLY 0 numMips cubeIndex 6]"

definition cube_init :: "nat \<Rightarrow> nat \<Rightarrow> cube_image" where
  "cube_init side numMips = \<lparr>ci_size = side, ci_mips = numMips, ci_layout = (\<lambda>_. L_SHADER_READ_ONLY)\<rparr>"

fun perform_copy :: "copy_command \<Rightarrow> layout \<times> cube_image \<Rightarrow> (layout \<times> cube_image) run" where
  "perform_copy (SourceBarrier old new) (src, img) =
     (if src = old then ret (new, img) else fail (ApiMisuse ''VkImageMemoryBarrier: oldLayout''))"
| "perform_copy (CubeBarrier old new bl nl ba na) (src, img) =
     (if \<not> (bl + nl \<le> ci_mips img \<and> ba + na \<le> 6) then fail (ApiMisuse ''VkImageSubresourceRange'')
      else if \<not> list_all (\<lambda>a. list_all (\<lambda>l. ci_layout img (a, l) = old) [bl..<bl + nl]) [ba..<ba + na]
      then fail (ApiMisuse ''VkImageMemoryBarrier: oldLayout'')
      else ret (src, img\<lparr>ci_layout := (\<lambda>(a, l). if ba \<le> a \<and> a < ba + na \<and> bl \<le> l \<and> l < bl + nl then new else ci_layout img (a, l))\<rparr>))"
| "perform_copy (CopyImage layer level ext) (src, img) =
     (if src \<noteq> L_TRANSFER_SRC \<or> ci_layout img (layer, level) \<noteq> L_TRANSFER_DST then fail (ApiMisuse ''vkCmdCopyImage: layout'')
      else if \<not> (layer < 6 \<and> level < ci_mips img \<and> ext \<le> ci_size img div 2 ^ level) then fail (ApiMisuse ''VkImageCopy: extent'')
      else ret (src, img))"

section \<open>Rendering the maps\<close>

datatype capture_pipeline = SkyboxPipeline | IrradiancePipeline | PrefilterPipeline

text \<open>\<open>cap_rough\<close> is the mip level that the roughness is computed from, out of four.\<close>

record capture =
  cap_pipeline :: capture_pipeline
  cap_mip :: nat
  cap_face :: nat
  cap_size :: nat
  cap_target :: "nat option"
  cap_rough :: nat
  cap_copies :: "copy_command list"

text \<open>The copy that \<^verbatim>\<open>end\<close> records: none without a cube map.\<close>

definition end_copies :: "'q env_world \<Rightarrow> nat option \<Rightarrow> nat \<Rightarrow> nat \<Rightarrow> copy_command list" where
  "end_copies w currentTexture faceId mip = (case currentTexture of
       None \<Rightarrow> []
     | Some c \<Rightarrow> cube_update (fst (ew_cubes w ! c)) (snd (ew_cubes w ! c)) faceId mip)"

record preprocess =
  pp_map :: "nat option"
  pp_pending :: bool

definition pre_beginScene :: "environment option \<Rightarrow> preprocess \<Rightarrow> preprocess" where
  "pre_beginScene env pp = (case env of
       None \<Rightarrow> pp
     | Some e \<Rightarrow> if pp_map pp \<noteq> equirectangularMap e then pp\<lparr>pp_map := equirectangularMap e, pp_pending := True\<rparr> else pp)"

definition generateSkybox :: "'q env_world \<Rightarrow> environment \<Rightarrow> capture list" where
  "generateSkybox w e = concat (map (\<lambda>mip. map (\<lambda>face. \<lparr>cap_pipeline = SkyboxPipeline, cap_mip = mip, cap_face = face,
     cap_size = SkyboxSize div 2 ^ mip, cap_target = environmnet e, cap_rough = 0, cap_copies = end_copies w (environmnet e) face mip\<rparr>) [0..<6]) [0..<5])"

definition generateIrradianceMap :: "'q env_world \<Rightarrow> environment \<Rightarrow> capture list" where
  "generateIrradianceMap w e = map (\<lambda>face. \<lparr>cap_pipeline = IrradiancePipeline, cap_mip = 0, cap_face = face,
     cap_size = IrradianceMapSize, cap_target = irradianceMap e, cap_rough = 0, cap_copies = end_copies w (irradianceMap e) face 0\<rparr>) [0..<6]"

definition generatePrefilterMap :: "'q env_world \<Rightarrow> environment \<Rightarrow> capture list" where
  "generatePrefilterMap w e = concat (map (\<lambda>mip. map (\<lambda>face. \<lparr>cap_pipeline = PrefilterPipeline, cap_mip = mip, cap_face = face,
     cap_size = PrefilterMapSize div 2 ^ mip, cap_target = prefilteredEnvironment e, cap_rough = mip, cap_copies = end_copies w (prefilteredEnvironment e) face mip\<rparr>) [0..<6]) [0..<5])"

text \<open>The environment of the component is created with the first rendering; the pointer to the component is cleared at the end.\<close>

definition pre_renderScene ::
  "environment \<times> 'q env_world \<Rightarrow> preprocess \<Rightarrow> (environment \<times> 'q env_world) \<times> preprocess \<times> capture list" where
  "pre_renderScene ew pp =
     (if \<not> pp_pending pp then (ew, pp, [])
      else let (e, w) = ew;
               (e, w) = (if environmnet e = None then let (c, w) = new_cube SkyboxSize 5 w in (e\<lparr>environmnet := Some c\<rparr>, w) else (e, w))
           in ((e, w), pp\<lparr>pp_pending := False\<rparr>, generateSkybox w e @ generateIrradianceMap w e @ generatePrefilterMap w e))"

definition pre_frame ::
  "(environment \<times> 'q env_world) \<times> preprocess \<Rightarrow> ((environment \<times> 'q env_world) \<times> preprocess) \<times> capture list" where
  "pre_frame = (\<lambda>(ew, pp). let (ew, pp, cs) = pre_renderScene ew (pre_beginScene (Some (fst ew)) pp) in ((ew, pp), cs))"

section \<open>What is rendered\<close>

definition all_faces :: "capture_pipeline \<Rightarrow> nat \<Rightarrow> (capture_pipeline \<times> nat \<times> nat) set" where
  "all_faces p numMips = {p} \<times> {..<numMips} \<times> {..<6}"

definition cap_key :: "capture \<Rightarrow> capture_pipeline \<times> nat \<times> nat" where
  "cap_key c = (cap_pipeline c, cap_mip c, cap_face c)"

text \<open>
  A capture is for the right map: the cube map of its pipeline, which exists and has the size and levels the
  component gives it; it is as large as its level. Its copy breaks the rules whatever the layouts of the cube map are.
\<close>

definition map_of_pipeline :: "environment \<Rightarrow> capture_pipeline \<Rightarrow> nat option" where
  "map_of_pipeline e p = (case p of
       SkyboxPipeline \<Rightarrow> environmnet e | IrradiancePipeline \<Rightarrow> irradianceMap e | PrefilterPipeline \<Rightarrow> prefilteredEnvironment e)"

definition side_of_pipeline :: "capture_pipeline \<Rightarrow> nat" where
  "side_of_pipeline p = (case p of SkyboxPipeline \<Rightarrow> 512 | IrradiancePipeline \<Rightarrow> 32 | PrefilterPipeline \<Rightarrow> 128)"

definition right_target :: "environment \<Rightarrow> 'q env_world \<Rightarrow> capture \<Rightarrow> bool" where
  "right_target e w c \<longleftrightarrow> (\<exists>i. map_of_pipeline e (cap_pipeline c) = Some i \<and> cap_target c = Some i \<and> i < length (ew_cubes w) \<and>
     ew_cubes w ! i = (side_of_pipeline (cap_pipeline c), if cap_pipeline c = IrradiancePipeline then 1 else 5) \<and>
     cap_size c = side_of_pipeline (cap_pipeline c) div 2 ^ cap_mip c \<and> (cap_pipeline c = PrefilterPipeline \<longrightarrow> cap_rough c = cap_mip c))"

definition copy_misuse :: "'q env_world \<Rightarrow> capture \<Rightarrow> bool" where
  "copy_misuse w c \<longleftrightarrow> (\<forall>layouts. \<exists>e.
     rfold perform_copy (cap_copies c) (L_COLOR_ATTACHMENT,
       \<lparr>ci_size = fst (ew_cubes w ! the (cap_target c)), ci_mips = snd (ew_cubes w ! the (cap_target c)), ci_layout = layouts\<rparr>) =
     fail (ApiMisuse e))"

text \<open>The maps exist and have their sizes.\<close>

definition maps_made :: "environment \<Rightarrow> 'q env_world \<Rightarrow> bool" where
  "maps_made e w \<longleftrightarrow> (\<forall>p. \<exists>i. map_of_pipeline e p = Some i \<and> i < length (ew_cubes w) \<and>
     ew_cubes w ! i = (side_of_pipeline p, if p = IrradiancePipeline then 1 else 5))"

lemma grid_distinct: "distinct (concat (map (\<lambda>m. map (f m) [0..<n]) [0..<k]))"
  if "\<And>m m' i i'. f m i = f m' i' \<Longrightarrow> m = m' \<and> i = i'" for f :: "nat \<Rightarrow> nat \<Rightarrow> 'a"
proof (induction k)
  case (Suc k)
  have "inj_on (f k) (set [0..<n])" using that by (auto intro!: inj_onI)
  moreover have "set (concat (map (\<lambda>m. map (f m) [0..<n]) [0..<k])) \<inter> set (map (f k) [0..<n]) = {}"
  proof (rule equals0I)
    fix y assume "y \<in> set (concat (map (\<lambda>m. map (f m) [0..<n]) [0..<k])) \<inter> set (map (f k) [0..<n])"
    then obtain m i j where "m < k" "f k j = f m i" by auto
    with that[of k j m i] show False by simp
  qed
  ultimately show ?case using Suc by (simp add: distinct_map)
qed simp

text \<open>
  No face can be copied into a cube map by the rules: whatever the layouts of its faces and levels are, for every face and every
  mip level the commands fail. The first barrier puts the first face into the layout of a source although it is about to be
  the destination, the extent of the copy is that of the first level for every level, and the last barrier covers six faces from the one that was copied.
\<close>

lemma cube_update_fails:
  assumes "2 \<le> ci_size img"
  shows "\<exists>e. rfold perform_copy (cube_update (ci_size img) (ci_mips img) cubeIndex mipmapLevel) (L_COLOR_ATTACHMENT, img) =
    fail (ApiMisuse e)"
proof (cases "mipmapLevel = 0")
  case True
  then show ?thesis by (auto simp: cube_update_def)
next
  case False
  then obtain k where "mipmapLevel = Suc k" by (cases mipmapLevel) auto
  then have "ci_size img div 2 ^ mipmapLevel \<le> ci_size img div 2" by (simp add: div_mult2_eq)
  also have "\<dots> < ci_size img" using assms by simp
  finally show ?thesis by (auto simp: cube_update_def)
qed

lemma copies_misuse:
  assumes "cap_target c = Some i" "cap_copies c = end_copies w (Some i) face mip" "2 \<le> fst (ew_cubes w ! i)"
  shows "copy_misuse w c"
  using cube_update_fails[of "\<lparr>ci_size = fst (ew_cubes w ! i), ci_mips = snd (ew_cubes w ! i), ci_layout = layouts\<rparr>" face mip for layouts]
    assms by (simp add: copy_misuse_def end_copies_def)

lemmas maps_madeD = maps_made_def[THEN iffD1, THEN spec]

lemma skybox_keys:
  assumes "maps_made e w"
  shows "distinct (map cap_key (generateSkybox w e)) \<and> cap_key ` set (generateSkybox w e) = all_faces SkyboxPipeline 5 \<and>
    (\<forall>c \<in> set (generateSkybox w e). right_target e w c \<and> copy_misuse w c)"
proof -
  have "map cap_key (generateSkybox w e) = concat (map (\<lambda>m. map (\<lambda>i. (SkyboxPipeline, m, i)) [0..<6]) [0..<5])"
    by (simp add: generateSkybox_def cap_key_def map_concat o_def)
  then have "distinct (map cap_key (generateSkybox w e))" using grid_distinct[of "\<lambda>m i. (SkyboxPipeline, m, i)"] by simp
  moreover have "cap_key ` set (generateSkybox w e) = all_faces SkyboxPipeline 5"
    by (force simp: generateSkybox_def cap_key_def all_faces_def image_iff)
  moreover obtain i where i: "environmnet e = Some i" "i < length (ew_cubes w)" "ew_cubes w ! i = (512, 5)"
    using maps_madeD[OF assms, of SkyboxPipeline] by (auto simp: map_of_pipeline_def side_of_pipeline_def)
  ultimately show ?thesis
    using copies_misuse[of _ i w]
    by (auto simp: generateSkybox_def right_target_def map_of_pipeline_def side_of_pipeline_def SkyboxSize_def)
qed

lemma irradiance_keys:
  assumes "maps_made e w"
  shows "distinct (map cap_key (generateIrradianceMap w e)) \<and> cap_key ` set (generateIrradianceMap w e) = all_faces IrradiancePipeline 1 \<and>
    (\<forall>c \<in> set (generateIrradianceMap w e). right_target e w c \<and> copy_misuse w c)"
proof -
  have "distinct (map cap_key (generateIrradianceMap w e)) \<and> cap_key ` set (generateIrradianceMap w e) = all_faces IrradiancePipeline 1"
    by (auto simp: generateIrradianceMap_def cap_key_def all_faces_def distinct_map o_def inj_on_def image_iff)
  moreover obtain i where i: "irradianceMap e = Some i" "i < length (ew_cubes w)" "ew_cubes w ! i = (32, 1)"
    using maps_madeD[OF assms, of IrradiancePipeline] by (auto simp: map_of_pipeline_def side_of_pipeline_def)
  ultimately show ?thesis
    using copies_misuse[of _ i w]
    by (auto simp: generateIrradianceMap_def right_target_def map_of_pipeline_def side_of_pipeline_def IrradianceMapSize_def)
qed

lemma prefilter_keys:
  assumes "maps_made e w"
  shows "distinct (map cap_key (generatePrefilterMap w e)) \<and> cap_key ` set (generatePrefilterMap w e) = all_faces PrefilterPipeline 5 \<and>
    (\<forall>c \<in> set (generatePrefilterMap w e). right_target e w c \<and> copy_misuse w c)"
proof -
  have "map cap_key (generatePrefilterMap w e) = concat (map (\<lambda>m. map (\<lambda>i. (PrefilterPipeline, m, i)) [0..<6]) [0..<5])"
    by (simp add: generatePrefilterMap_def cap_key_def map_concat o_def)
  then have "distinct (map cap_key (generatePrefilterMap w e))" using grid_distinct[of "\<lambda>m i. (PrefilterPipeline, m, i)"] by simp
  moreover have "cap_key ` set (generatePrefilterMap w e) = all_faces PrefilterPipeline 5"
    by (force simp: generatePrefilterMap_def cap_key_def all_faces_def image_iff)
  moreover obtain i where i: "prefilteredEnvironment e = Some i" "i < length (ew_cubes w)" "ew_cubes w ! i = (128, 5)"
    using maps_madeD[OF assms, of PrefilterPipeline] by (auto simp: map_of_pipeline_def side_of_pipeline_def)
  ultimately show ?thesis
    using copies_misuse[of _ i w]
    by (auto simp: generatePrefilterMap_def right_target_def map_of_pipeline_def side_of_pipeline_def PrefilterMapSize_def)
qed

lemma Environment_init_makes:
  assumes "Environment_init loads rgba32 file (no_environment, w) = ret (e, w1)" "file \<noteq> ''''"
  shows "\<exists>p rs. e = no_environment\<lparr>env_file := file, equirectangularMap := Some p,
      irradianceMap := Some (length (ew_cubes w)), prefilteredEnvironment := Some (length (ew_cubes w) + 1)\<rparr> \<and>
    w1 = \<lparr>ew_textures = rs, ew_cubes = ew_cubes w @ [(32, 1), (128, 5)]\<rparr>"
  using assms
  by (cases w)
    (auto simp: Environment_init_def new_cube_def Let_def IrradianceMapSize_def PrefilterMapSize_def split: prod.splits sum.splits)

text \<open>
  C35: An environment whose picture loads and is another one than the renderer has seen last gets its maps
  rendered in the first frame, once: every face of every mip level of the sky (512 texels, 5 levels), of the filtered map
  (128 texels, 5 levels) and of the irradiance map (32 texels, 1 level) is drawn exactly once, at the size of that level, and its copy into the cube map
  it is for is recorded; the frames after that render nothing and change nothing. But none of these copies is valid: whatever
  the layouts of the faces of the cube map are when it is executed, its commands break the rules of Vulkan.
\<close>

theorem maps_rendered_once:
  assumes "Environment_init loads rgba32 file (no_environment, w) = ret (e, w1)" "file \<noteq> ''''" "equirectangularMap e \<noteq> pp_map pp"
  shows "\<exists>e' w' pp' cs. pre_frame ((e, w1), pp) = (((e', w'), pp'), cs) \<and>
    distinct (map cap_key cs) \<and>
    cap_key ` set cs = all_faces SkyboxPipeline 5 \<union> all_faces IrradiancePipeline 1 \<union> all_faces PrefilterPipeline 5 \<and>
    (\<forall>c \<in> set cs. right_target e' w' c \<and> copy_misuse w' c) \<and>
    pre_frame ((e', w'), pp') = (((e', w'), pp'), [])"
proof -
  obtain p rs where m: "e = no_environment\<lparr>env_file := file, equirectangularMap := Some p,
      irradianceMap := Some (length (ew_cubes w)), prefilteredEnvironment := Some (length (ew_cubes w) + 1)\<rparr>"
    "w1 = \<lparr>ew_textures = rs, ew_cubes = ew_cubes w @ [(32, 1), (128, 5)]\<rparr>"
    using Environment_init_makes[OF assms(1,2)] by blast
  define e' where "e' = e\<lparr>environmnet := Some (length (ew_cubes w) + 2)\<rparr>"
  define w' where "w' = w1\<lparr>ew_cubes := ew_cubes w @ [(32, 1), (128, 5), (512, 5)]\<rparr>"
  let ?pp = "\<lparr>pp_map = equirectangularMap e, pp_pending = False\<rparr>"
  let ?cs = "generateSkybox w' e' @ generateIrradianceMap w' e' @ generatePrefilterMap w' e'"
  have none: "environmnet e = None" using m(1) by (simp add: no_environment_def)
  have made: "maps_made e' w'"
    unfolding maps_made_def
  proof
    fix q
    show "\<exists>i. map_of_pipeline e' q = Some i \<and> i < length (ew_cubes w') \<and>
        ew_cubes w' ! i = (side_of_pipeline q, if q = IrradiancePipeline then 1 else 5)"
      by (cases q) (simp_all add: map_of_pipeline_def side_of_pipeline_def e'_def w'_def m nth_append)
  qed
  have 1: "pre_frame ((e, w1), pp) = (((e', w'), ?pp), ?cs)"
    using assms(3) none m(2)
    by (cases pp) (simp add: pre_frame_def pre_beginScene_def pre_renderScene_def new_cube_def Let_def e'_def w'_def SkyboxSize_def)
  have 2: "pre_frame ((e', w'), ?pp) = (((e', w'), ?pp), [])"
    by (simp add: pre_frame_def pre_beginScene_def pre_renderScene_def e'_def)
  have keys: "set (map cap_key xs) = cap_key ` set xs" for xs by simp
  note k = skybox_keys[OF made] irradiance_keys[OF made] prefilter_keys[OF made]
  have "distinct (map cap_key ?cs)"
    using k unfolding map_append distinct_append keys by (auto simp: all_faces_def)
  moreover have "cap_key ` set ?cs = all_faces SkyboxPipeline 5 \<union> all_faces IrradiancePipeline 1 \<union> all_faces PrefilterPipeline 5"
    using k by (simp add: image_Un Un_assoc)
  moreover have "\<forall>c \<in> set ?cs. right_target e' w' c \<and> copy_misuse w' c"
    using k by auto
  ultimately show ?thesis using 1 2 by blast
qed

definition start_preprocess :: preprocess where
  "start_preprocess = \<lparr>pp_map = None, pp_pending = False\<rparr>"

theorem maps_rendered_once_witness:
  "\<exists>e w1 e' w' pp' cs. Environment_init (\<lambda>_. None) (0::nat) ''sky.hdr'' (no_environment, \<lparr>ew_textures = no_resources, ew_cubes = []\<rparr>) = ret (e, w1) \<and>
    pre_frame ((e, w1), start_preprocess) = (((e', w'), pp'), cs) \<and>
    (SkyboxPipeline, 4, 5) \<in> cap_key ` set cs \<and> (\<forall>c \<in> set cs. right_target e' w' c \<and> copy_misuse w' c)"
proof -
  obtain e w1 where e: "Environment_init (\<lambda>_. None) (0::nat) ''sky.hdr'' (no_environment, \<lparr>ew_textures = no_resources, ew_cubes = []\<rparr>) = ret (e, w1)"
    "equirectangularMap e \<noteq> pp_map start_preprocess"
    by (simp add: Environment_init_def Texture2D_create_with_def create_cached_eq cast_2D_def load_with_def live_def no_resources_def
        new_cube_def Let_def start_preprocess_def)
  from maps_rendered_once[OF e(1) _ e(2)] obtain e' w' pp' cs where
    f: "pre_frame ((e, w1), start_preprocess) = (((e', w'), pp'), cs)"
    "cap_key ` set cs = all_faces SkyboxPipeline 5 \<union> all_faces IrradiancePipeline 1 \<union> all_faces PrefilterPipeline 5"
    "\<forall>c \<in> set cs. right_target e' w' c \<and> copy_misuse w' c" by auto
  have "(SkyboxPipeline, 4, 5) \<in> cap_key ` set cs" unfolding f(2) by (simp add: all_faces_def)
  then show ?thesis using e(1) f(1,3) by blast
qed

section \<open>The same picture again\<close>


text \<open>
  Another environment with the same picture, as in a second scene with the same sky: its picture is the cached texture of the first, so
  the renderer takes it for the environment it has seen, and the maps of the new environment, which are new textures, are never
  rendered: the frame with the new environment captures nothing and leaves the state in which the next frame does the same.
\<close>

theorem same_picture_not_rendered:
  assumes "live (ew_textures w) file = None" "loads file = None" "file \<noteq> ''''" "pp_map pp = None"
  shows "\<exists>e1 w1 e1' w1' pp1 cs e2 w2.
    Environment_init loads rgba32 file (no_environment, w) = ret (e1, w1) \<and>
    pre_frame ((e1, w1), pp) = (((e1', w1'), pp1), cs) \<and> cs \<noteq> [] \<and>
    Environment_init loads rgba32 file (no_environment, w1') = ret (e2, w2) \<and>
    irradianceMap e2 \<noteq> None \<and> irradianceMap e2 \<noteq> irradianceMap e1' \<and> environmnet e2 = None \<and>
    pre_frame ((e2, w2), pp1) = (((e2, w2), pp1), [])"
proof -
  let ?p = "length (objects (ew_textures w))" and ?n = "length (ew_cubes w)"
  let ?rs = "(ew_textures w)\<lparr>objects := objects (ew_textures w) @ [VulkanTexture2D file (Some rgba32)], cache := (cache (ew_textures w))(file \<mapsto> Some ?p)\<rparr>"
  let ?e = "\<lambda>k. no_environment\<lparr>env_file := file, equirectangularMap := Some ?p, irradianceMap := Some k, prefilteredEnvironment := Some (k + 1)\<rparr>"
  let ?cubes = "ew_cubes w @ [(IrradianceMapSize, 1), (PrefilterMapSize, 5)]"
  let ?w1 = "w\<lparr>ew_textures := ?rs, ew_cubes := ?cubes\<rparr>"
  let ?w1' = "w\<lparr>ew_textures := ?rs, ew_cubes := ?cubes @ [(SkyboxSize, 5)]\<rparr>"
  let ?w2 = "w\<lparr>ew_textures := ?rs, ew_cubes := ?cubes @ [(SkyboxSize, 5), (IrradianceMapSize, 1), (PrefilterMapSize, 5)]\<rparr>"
  let ?e1' = "(?e ?n)\<lparr>environmnet := Some (?n + 2)\<rparr>" and ?pp1 = "\<lparr>pp_map = Some ?p, pp_pending = False\<rparr>"
  have 1: "Environment_init loads rgba32 file (no_environment, w) = ret (?e ?n, ?w1)"
    using assms(1-3) by (simp add: Environment_init_def Texture2D_create_with_def create_cached_eq cast_2D_def load_with_def new_cube_def Let_def)
  have 2: "pre_frame ((?e ?n, ?w1), pp) =
      (((?e1', ?w1'), ?pp1), generateSkybox ?w1' ?e1' @ generateIrradianceMap ?w1' ?e1' @ generatePrefilterMap ?w1' ?e1')"
    using assms(4) by (cases pp) (simp add: pre_frame_def pre_beginScene_def pre_renderScene_def new_cube_def Let_def no_environment_def)
  have 3: "Environment_init loads rgba32 file (no_environment, ?w1') = ret (?e (?n + 3), ?w2)"
    using assms(3) by (simp add: Environment_init_def Texture2D_create_with_def create_cached_eq cast_2D_def new_cube_def Let_def)
  have 4: "pre_frame ((?e (?n + 3), ?w2), ?pp1) = (((?e (?n + 3), ?w2), ?pp1), [])"
    by (simp add: pre_frame_def pre_beginScene_def pre_renderScene_def)
  have 5: "generateSkybox ?w1' ?e1' @ generateIrradianceMap ?w1' ?e1' @ generatePrefilterMap ?w1' ?e1' \<noteq> []"
    by (simp add: generateIrradianceMap_def)
  have 6: "environmnet (?e (?n + 3)) = None" by (simp add: no_environment_def)
  show ?thesis
    by (intro exI conjI, rule 1, rule 2, rule 5, rule 3, simp, simp, rule 6, rule 4)
qed

theorem same_picture_not_rendered_witness:
  "\<exists>e1 w1 e1' w1' pp1 cs e2 w2.
    Environment_init (\<lambda>_. None) (0::nat) ''sky.hdr'' (no_environment, \<lparr>ew_textures = no_resources, ew_cubes = []\<rparr>) = ret (e1, w1) \<and>
    pre_frame ((e1, w1), start_preprocess) = (((e1', w1'), pp1), cs) \<and> cs \<noteq> [] \<and>
    Environment_init (\<lambda>_. None) (0::nat) ''sky.hdr'' (no_environment, w1') = ret (e2, w2) \<and>
    environmnet e2 = None \<and> pre_frame ((e2, w2), pp1) = (((e2, w2), pp1), [])"
proof -
  let ?w = "\<lparr>ew_textures = no_resources, ew_cubes = []\<rparr> :: nat env_world"
  have "live (ew_textures ?w) ''sky.hdr'' = None" "''sky.hdr'' \<noteq> ''''" "pp_map start_preprocess = None"
    by (simp_all add: live_def no_resources_def start_preprocess_def)
  from same_picture_not_rendered[OF this(1) refl this(2,3), of 0] show ?thesis by blast
qed

end
