(* ===== verification/Deferred_Rendering.thy ===== *)
theory Deferred_Rendering
  imports Environment_Maps Vulkan_Descriptors
begin

text \<open>
  Deferred rendering: \<^verbatim>\<open>Engine/Renderer/DeferredRenderer.cpp\<close>, \<^verbatim>\<open>DeferredOffScreenRenderer.cpp\<close>, \<^verbatim>\<open>SkyboxRenderer.cpp\<close>,
  the parts of \<^verbatim>\<open>RenderManager.cpp\<close> and \<^verbatim>\<open>Engine/GBuffer.cpp\<close> that resize them.

  Rebuilding a texture destroys its image view and makes a new one. A view is therefore a texture and the number of times it was
  built, and frame buffers and descriptors refer to views. Lights, transforms and matrices are parameters. The entities of a scene
  are given in the order in which the registry visits them.
\<close>

section \<open>State\<close>

datatype dtex = GColor | GPosition | GNormals | GPbr | GDepth | ShadowMap | OmniShadowMap | BrdfLut | CubeMap nat | Preview | SwapImage nat

type_synonym view = "dtex \<times> nat"

record render_context =
  built :: "dtex \<Rightarrow> nat"
  swapCount :: nat
  currentBuffer :: nat
  hasShadow :: bool
  hasOmniShadow :: bool
  cubeMips :: "nat \<Rightarrow> nat"

definition now :: "render_context \<Rightarrow> dtex \<Rightarrow> view" where
  "now ctx t = (t, built ctx t)"

definition MAX_LIGHTS :: nat where "MAX_LIGHTS = 32"

record ('l, 'm) deferred =
  df_lights :: "'l list"
  df_lightCount :: nat
  df_lod :: nat
  df_environmentMap :: "nat option"
  df_irradianceMap :: "nat option"
  df_set :: "(view, unit) descriptor_set"
  df_bound :: "int \<rightharpoonup> view list"
  df_target :: "dtex option"
  df_frames :: "view list"
  off_frame :: "view list"
  off_queue :: "'m list"

section \<open>Lights\<close>

text \<open>\<open>place\<close> sets direction and position from the transform. A light without a transform has nothing to get.\<close>

fun put_lights :: "('t \<Rightarrow> 'l \<Rightarrow> 'l) \<Rightarrow> nat \<Rightarrow> ('l \<times> 't option) list \<Rightarrow> 'l list \<Rightarrow> 'l list run" where
  "put_lights place i [] slots = ret slots"
| "put_lights place i ((l, None) # ls) slots = fail NullDeref"
| "put_lights place i ((l, Some t) # ls) slots =
     (if i < length slots then put_lights place (Suc i) ls (slots[i := place t l]) else fail BadIndex)"

definition submitLight ::
  "('t \<Rightarrow> 'l \<Rightarrow> 'l) \<Rightarrow> render_context \<Rightarrow> bool \<Rightarrow> ('l \<times> 't option) list \<Rightarrow> ('l, 'm) deferred \<Rightarrow> ('l, 'm) deferred run" where
  "submitLight place ctx camera ls df =
     (if camera
      then rbind (put_lights place 0 ls (df_lights df)) (\<lambda>slots.
        ret (df\<lparr>df_lightCount := length ls, df_lights := slots,
          df_lod := (case df_environmentMap df of Some c \<Rightarrow> cubeMips ctx c | None \<Rightarrow> 0)\<rparr>))
      else ret df)"

section \<open>Descriptors of the screen\<close>

definition image_of :: "view \<Rightarrow> int \<Rightarrow> view image_info" where
  "image_of v b = \<lparr>ii_textures = [Some v], ii_binding = b\<rparr>"

definition screen_infos :: "render_context \<Rightarrow> ('l, 'm) deferred \<Rightarrow> view image_info list" where
  "screen_infos ctx df =
     [image_of (now ctx GColor) 0, image_of (now ctx GPosition) 1, image_of (now ctx GNormals) 2, image_of (now ctx GDepth) 3] @
     (if hasShadow ctx then [image_of (now ctx ShadowMap) 4] else []) @
     (if hasOmniShadow ctx then [image_of (now ctx OmniShadowMap) 5] else []) @
     [image_of (now ctx GPbr) 6] @
     (case df_irradianceMap df of Some c \<Rightarrow> [image_of (now ctx (CubeMap c)) 7] | None \<Rightarrow> []) @
     (case df_environmentMap df of Some c \<Rightarrow> [image_of (now ctx (CubeMap c)) 8] | None \<Rightarrow> []) @
     [image_of (now ctx BrdfLut) 9]"

text \<open>What the set refers to after the writes: a binding that is not written keeps what it had.\<close>

fun apply_descriptor :: "(view, unit) descriptor \<Rightarrow> (int \<rightharpoonup> view list) \<Rightarrow> (int \<rightharpoonup> view list)" where
  "apply_descriptor (Images b ts) m = m(b \<mapsto> map the ts)"
| "apply_descriptor (Buffer t b x) m = m"

definition updateScreenDescriptorSet :: "render_context \<Rightarrow> ('l, 'm) deferred \<Rightarrow> ('l, 'm) deferred run" where
  "updateScreenDescriptorSet ctx df = rbind (updateInternal (screen_infos ctx df) [] (df_set df))
     (\<lambda>(s, ds). ret (df\<lparr>df_set := s, df_bound := fold apply_descriptor ds (df_bound df)\<rparr>))"

section \<open>Frame buffers\<close>

definition createFrameBuffers :: "render_context \<Rightarrow> ('l, 'm) deferred \<Rightarrow> ('l, 'm) deferred" where
  "createFrameBuffers ctx df = df\<lparr>df_frames := (case df_target df of
       Some t \<Rightarrow> [now ctx t] | None \<Rightarrow> map (\<lambda>i. now ctx (SwapImage i)) [0..<swapCount ctx])\<rparr>"

definition off_createFrameBuffers :: "render_context \<Rightarrow> ('l, 'm) deferred \<Rightarrow> ('l, 'm) deferred" where
  "off_createFrameBuffers ctx df =
     df\<lparr>off_frame := [now ctx GColor, now ctx GPosition, now ctx GNormals, now ctx GPbr, now ctx GDepth]\<rparr>"

definition df_setRenderTarget :: "render_context \<Rightarrow> dtex option \<Rightarrow> bool \<Rightarrow> ('l, 'm) deferred \<Rightarrow> ('l, 'm) deferred" where
  "df_setRenderTarget ctx t rebuild df =
     (let df = df\<lparr>df_target := t\<rparr> in if rebuild then createFrameBuffers ctx df else df)"

definition df_begin :: "render_context \<Rightarrow> ('l, 'm) deferred \<Rightarrow> view run" where
  "df_begin ctx df =
     (let bufferId = (if df_target df \<noteq> None then 0 else currentBuffer ctx)
      in if bufferId < length (df_frames df) then ret (df_frames df ! bufferId) else fail BadIndex)"

definition df_onResize :: "render_context \<Rightarrow> ('l, 'm) deferred \<Rightarrow> ('l, 'm) deferred run" where
  "df_onResize ctx df = updateScreenDescriptorSet ctx (off_createFrameBuffers ctx (createFrameBuffers ctx df))"

text \<open>The G-buffer rebuilds its textures in place.\<close>

definition gbuffer_resize :: "render_context \<Rightarrow> render_context" where
  "gbuffer_resize ctx = ctx\<lparr>built := (\<lambda>t. if t \<in> {GColor, GPosition, GNormals, GPbr, GDepth} then Suc (built ctx t) else built ctx t)\<rparr>"

definition manager_onResize :: "render_context \<times> ('l, 'm) deferred \<Rightarrow> (render_context \<times> ('l, 'm) deferred) run" where
  "manager_onResize = (\<lambda>(ctx, df). let ctx = gbuffer_resize ctx in rbind (df_onResize ctx df) (\<lambda>df. ret (ctx, df)))"

section \<open>The scene\<close>

text \<open>
  The off-screen renderer queues every mesh renderer that has a transform; a renderer whose mesh is missing is dereferenced.
  \<open>command\<close> makes the command from the mesh and the transform.
\<close>

fun queue_meshes :: "('mesh \<Rightarrow> 't \<Rightarrow> 'm) \<Rightarrow> ('mesh option \<times> 't) list \<Rightarrow> 'm list \<Rightarrow> 'm list run" where
  "queue_meshes command [] q = ret q"
| "queue_meshes command ((None, t) # ms) q = fail NullDeref"
| "queue_meshes command ((Some m, t) # ms) q = queue_meshes command ms (q @ [command m t])"

definition off_beginScene ::
  "('mesh \<Rightarrow> 't \<Rightarrow> 'm) \<Rightarrow> bool \<Rightarrow> ('mesh option \<times> 't) list \<Rightarrow> ('l, 'm) deferred \<Rightarrow> ('l, 'm) deferred run" where
  "off_beginScene command camera ms df =
     (let df = df\<lparr>off_queue := []\<rparr>
      in if camera then rbind (queue_meshes command ms []) (\<lambda>q. ret (df\<lparr>off_queue := q\<rparr>)) else ret df)"

definition df_environment :: "render_context \<Rightarrow> environment option \<Rightarrow> ('l, 'm) deferred \<Rightarrow> ('l, 'm) deferred run" where
  "df_environment ctx env df = (case env of
       None \<Rightarrow> if df_environmentMap df \<noteq> None
         then updateScreenDescriptorSet ctx (df\<lparr>df_environmentMap := None, df_irradianceMap := None\<rparr>) else ret df
     | Some e \<Rightarrow> if df_environmentMap df \<noteq> prefilteredEnvironment e
         then updateScreenDescriptorSet ctx (df\<lparr>df_environmentMap := prefilteredEnvironment e, df_irradianceMap := irradianceMap e\<rparr>)
         else ret df)"

definition df_beginScene ::
  "('t \<Rightarrow> 'l \<Rightarrow> 'l) \<Rightarrow> ('mesh \<Rightarrow> 't \<Rightarrow> 'm) \<Rightarrow> render_context \<Rightarrow> bool \<Rightarrow> ('l \<times> 't option) list \<Rightarrow> ('mesh option \<times> 't) list \<Rightarrow>
   environment option \<Rightarrow> ('l, 'm) deferred \<Rightarrow> ('l, 'm) deferred run" where
  "df_beginScene place command ctx camera ls ms env df =
     rbind (submitLight place ctx camera ls df) (\<lambda>df.
     rbind (df_environment ctx env df) (\<lambda>df.
     off_beginScene command camera ms df))"

text \<open>The draws of a frame: the queue into the G-buffer, then the quad with the lights and the bound textures.\<close>

definition df_renderScene :: "render_context \<Rightarrow> ('l, 'm) deferred \<Rightarrow> ('m list \<times> view list \<times> view \<times> 'l list \<times> (int \<rightharpoonup> view list)) run" where
  "df_renderScene ctx df = rbind (df_begin ctx df) (\<lambda>target.
     ret (off_queue df, off_frame df, target, take (df_lightCount df) (df_lights df), df_bound df))"

text \<open>The sky: the cube map it draws is set when the environment of the component changes, and never taken back.\<close>

definition sky_beginScene :: "bool \<Rightarrow> environment option \<Rightarrow> nat option \<Rightarrow> nat option" where
  "sky_beginScene camera env cubeMap = (if camera
     then (case env of Some e \<Rightarrow> if cubeMap \<noteq> environmnet e then environmnet e else cubeMap | None \<Rightarrow> cubeMap) else cubeMap)"

definition sky_renderScene :: "nat option \<Rightarrow> nat list" where
  "sky_renderScene cubeMap = (case cubeMap of None \<Rightarrow> [] | Some c \<Rightarrow> [c])"

section \<open>What the descriptors refer to\<close>

lemma image_of_tex [simp]: "tex (image_of v b) = [v]" "leading (image_of v b)" "ii_binding (image_of v b) = b"
  by (auto simp: tex_def image_of_def leading_def)

lemma screen_infos_single: "i \<in> set (screen_infos ctx df) \<Longrightarrow> leading i \<and> (\<exists>v. tex i = [v])"
  by (auto simp: screen_infos_def split: if_splits option.splits)

lemma screen_infos_bound: "length (screen_infos ctx df) \<le> 10"
  by (simp add: screen_infos_def split: option.splits)

text \<open>Both pools have their sixteen entries.\<close>

definition pools :: "('l, 'm) deferred \<Rightarrow> bool" where
  "pools df \<longleftrightarrow> length (imageInfoPool (df_set df)) = 16 \<and> length (bufferInfoPool (df_set df)) = 16"

text \<open>One write per entry of the list, each with the texture of the entry.\<close>

lemma updateScreen_writes:
  assumes "pools df"
  shows "\<exists>s. updateScreenDescriptorSet ctx df = ret (df\<lparr>df_set := s,
      df_bound := fold (\<lambda>i m. m(ii_binding i \<mapsto> tex i)) (screen_infos ctx df) (df_bound df)\<rparr>) \<and>
    length (imageInfoPool s) = 16 \<and> length (bufferInfoPool s) = 16"
proof -
  let ?is = "screen_infos ctx df"
  have one: "tex i = [hd (tex i)] \<and> leading i" if "i \<in> set ?is" for i using screen_infos_single[OF that] by auto
  have len: "length (tex (?is ! k)) = 1" if "k < length ?is" for k using one[OF nth_mem[OF that]] by (metis length_Cons list.size(3) One_nat_def)
  have "fits ?is [] (df_set df)" using assms len screen_infos_bound[of ctx df] by (auto simp: fits_def pools_def)
  from updateInternal_reads[OF this] one obtain t pool where u: "updateInternal ?is [] (df_set df) =
      ret (t, map (\<lambda>(k, i). Images (ii_binding i) (take (length (tex i)) (drop k pool))) (enumerate 0 ?is))"
    and t: "length pool = 16" "length (imageInfoPool t) = 16" "length (bufferInfoPool t) = 16"
    and first: "\<And>k. k < length ?is \<Longrightarrow> tex (?is ! k) \<noteq> [] \<Longrightarrow> pool ! k = Some (hd (tex (?is ! k)))"
    and final: "?is \<noteq> [] \<Longrightarrow> take (length (tex (last ?is))) (drop (length ?is - 1) pool) = map Some (tex (last ?is))"
    by fastforce
  have ds: "map (\<lambda>(k, i). Images (ii_binding i) (take (length (tex i)) (drop k pool))) (enumerate 0 ?is) =
    map (\<lambda>i. Images (ii_binding i) (map Some (tex i))) ?is"
    by (rule single_descriptors[OF _ first final]) (use t(1) screen_infos_bound[of ctx df] len in simp_all)
  have "fold apply_descriptor (map (\<lambda>i. Images (ii_binding i) (map Some (tex i))) xs) m =
    fold (\<lambda>i m. m(ii_binding i \<mapsto> tex i)) xs m" for xs m
    by (induction xs arbitrary: m) (simp_all add: comp_def)
  then have "updateScreenDescriptorSet ctx df = ret (df\<lparr>df_set := t,
      df_bound := fold (\<lambda>i m. m(ii_binding i \<mapsto> tex i)) ?is (df_bound df)\<rparr>)"
    unfolding updateScreenDescriptorSet_def u ds by simp
  with t(2,3) show ?thesis by blast
qed

text \<open>The bindings of the screen refer to the textures as they are now; \<open>current\<close> says this of all a frame draws into or reads.\<close>

definition reads :: "render_context \<Rightarrow> ('l, 'm) deferred \<Rightarrow> bool" where
  "reads ctx df \<longleftrightarrow> (let m = df_bound df in
     m 0 = Some [now ctx GColor] \<and> m 1 = Some [now ctx GPosition] \<and> m 2 = Some [now ctx GNormals] \<and> m 3 = Some [now ctx GDepth] \<and>
     (hasShadow ctx \<longrightarrow> m 4 = Some [now ctx ShadowMap]) \<and> (hasOmniShadow ctx \<longrightarrow> m 5 = Some [now ctx OmniShadowMap]) \<and>
     m 6 = Some [now ctx GPbr] \<and> (\<forall>c. df_irradianceMap df = Some c \<longrightarrow> m 7 = Some [now ctx (CubeMap c)]) \<and>
     (\<forall>c. df_environmentMap df = Some c \<longrightarrow> m 8 = Some [now ctx (CubeMap c)]) \<and> m 9 = Some [now ctx BrdfLut])"

definition target_views :: "render_context \<Rightarrow> dtex option \<Rightarrow> view list" where
  "target_views ctx target = (case target of Some t \<Rightarrow> [now ctx t] | None \<Rightarrow> map (\<lambda>i. now ctx (SwapImage i)) [0..<swapCount ctx])"

definition gbuffer_views :: "render_context \<Rightarrow> view list" where
  "gbuffer_views ctx = map (now ctx) [GColor, GPosition, GNormals, GPbr, GDepth]"

definition current :: "render_context \<Rightarrow> ('l, 'm) deferred \<Rightarrow> bool" where
  "current ctx df \<longleftrightarrow> pools df \<and> reads ctx df \<and> off_frame df = gbuffer_views ctx \<and> df_frames df = target_views ctx (df_target df)"

lemma updateScreen_reads:
  assumes "pools df"
  shows "\<exists>s m. updateScreenDescriptorSet ctx df = ret (df\<lparr>df_set := s, df_bound := m\<rparr>) \<and>
    pools (df\<lparr>df_set := s, df_bound := m\<rparr>) \<and> reads ctx (df\<lparr>df_set := s, df_bound := m\<rparr>) \<and>
    (df_irradianceMap df = None \<longrightarrow> m 7 = df_bound df 7) \<and> (df_environmentMap df = None \<longrightarrow> m 8 = df_bound df 8)"
proof -
  let ?m = "fold (\<lambda>i m. m(ii_binding i \<mapsto> tex i)) (screen_infos ctx df) (df_bound df)"
  obtain s where s: "updateScreenDescriptorSet ctx df = ret (df\<lparr>df_set := s, df_bound := ?m\<rparr>)"
    "length (imageInfoPool s) = 16" "length (bufferInfoPool s) = 16"
    using updateScreen_writes[OF assms] by blast
  have "reads ctx (df\<lparr>df_set := s, df_bound := ?m\<rparr>)"
    by (cases "df_irradianceMap df"; cases "df_environmentMap df") (simp_all add: reads_def screen_infos_def)
  moreover have "df_irradianceMap df = None \<longrightarrow> ?m 7 = df_bound df 7" "df_environmentMap df = None \<longrightarrow> ?m 8 = df_bound df 8"
    by (simp_all add: screen_infos_def split: option.split)
  ultimately show ?thesis using s by (intro exI[of _ s] exI[of _ ?m]) (simp add: pools_def)
qed

lemma df_environment_reads:
  assumes "current ctx df"
  shows "\<exists>df'. df_environment ctx env df = ret df' \<and> current ctx df' \<and>
    (case env of Some e \<Rightarrow> df_environmentMap df' = prefilteredEnvironment e
     | None \<Rightarrow> df_environmentMap df' = None \<and> (df_environmentMap df \<noteq> None \<longrightarrow> df_bound df' 7 = df_bound df 7) \<and> df_bound df' 8 = df_bound df 8) \<and>
    df_lights df' = df_lights df \<and> df_lightCount df' = df_lightCount df \<and> df_lod df' = df_lod df \<and> df_target df' = df_target df"
proof -
  have upd: "\<exists>df'. updateScreenDescriptorSet ctx (df\<lparr>df_environmentMap := e, df_irradianceMap := i\<rparr>) = ret df' \<and> current ctx df' \<and>
    df_environmentMap df' = e \<and> (i = None \<longrightarrow> df_bound df' 7 = df_bound df 7) \<and> (e = None \<longrightarrow> df_bound df' 8 = df_bound df 8) \<and>
    df_lights df' = df_lights df \<and> df_lightCount df' = df_lightCount df \<and> df_lod df' = df_lod df \<and> df_target df' = df_target df" for e i
  proof -
    let ?d = "df\<lparr>df_environmentMap := e, df_irradianceMap := i\<rparr>"
    have "pools ?d" using assms by (simp add: current_def pools_def)
    from updateScreen_reads[OF this, of ctx] obtain s m where
      u: "updateScreenDescriptorSet ctx ?d = ret (?d\<lparr>df_set := s, df_bound := m\<rparr>)"
      "pools (?d\<lparr>df_set := s, df_bound := m\<rparr>)" "reads ctx (?d\<lparr>df_set := s, df_bound := m\<rparr>)"
      "i = None \<longrightarrow> m 7 = df_bound df 7" "e = None \<longrightarrow> m 8 = df_bound df 8" by auto
    then show ?thesis using assms by (intro exI[of _ "?d\<lparr>df_set := s, df_bound := m\<rparr>"]) (simp add: current_def)
  qed
  show ?thesis
  proof (cases env)
    case None
    then show ?thesis using upd[of None None] assms by (cases "df_environmentMap df") (simp_all add: df_environment_def)
  next
    case (Some e)
    then show ?thesis using upd[where e = "prefilteredEnvironment e" and i = "irradianceMap e"] assms
      by (cases "df_environmentMap df = prefilteredEnvironment e") (auto simp: df_environment_def)
  qed
qed

section \<open>A frame\<close>

lemma put_lights_fit:
  "i + length ls \<le> length slots \<Longrightarrow> put_lights place i (map (\<lambda>(l, t). (l, Some t)) ls) slots =
     ret (take i slots @ map (\<lambda>(l, t). place t l) ls @ drop (i + length ls) slots)"
proof (induction ls arbitrary: i slots)
  case (Cons a ls)
  obtain l t where a: "a = (l, t)" by fastforce
  have "take (Suc i) (slots[i := place t l]) = take i slots @ [place t l]" using Cons.prems by (simp add: take_Suc_conv_app_nth)
  then show ?case using Cons.IH[of "Suc i" "slots[i := place t l]"] Cons.prems by (simp add: a)
qed simp

lemma put_lights_overrun:
  "length slots < i + length ls \<Longrightarrow> i \<le> length slots \<Longrightarrow> put_lights place i (map (\<lambda>(l, t). (l, Some t)) ls) slots = fail BadIndex"
  by (induction ls arbitrary: i slots) auto

lemma queue_meshes_all: "queue_meshes command (map (\<lambda>(m, t). (Some m, t)) ms) q = ret (q @ map (\<lambda>(m, t). command m t) ms)"
  by (induction ms arbitrary: q) auto

lemma df_begin_target:
  "df_frames df = target_views ctx (df_target df) \<Longrightarrow> currentBuffer ctx < swapCount ctx \<Longrightarrow>
   df_begin ctx df = ret (now ctx (case df_target df of Some t \<Rightarrow> t | None \<Rightarrow> SwapImage (currentBuffer ctx)))"
  by (simp add: df_begin_def target_views_def split: option.split)

text \<open>What of an environment reaches the shader: its prefiltered map when there is one, and otherwise what was bound before.\<close>

definition shows_environment :: "render_context \<Rightarrow> environment option \<Rightarrow> ('l, 'm) deferred \<Rightarrow> ('l, 'm) deferred \<Rightarrow> bool" where
  "shows_environment ctx env df df' = (case env of
       Some e \<Rightarrow> df_environmentMap df' = prefilteredEnvironment e \<and>
         (\<forall>c. prefilteredEnvironment e = Some c \<longrightarrow> df_bound df' 8 = Some [now ctx (CubeMap c)])
     | None \<Rightarrow> df_environmentMap df' = None \<and> df_bound df' 8 = df_bound df 8)"

definition target_now :: "render_context \<Rightarrow> ('l, 'm) deferred \<Rightarrow> view" where
  "target_now ctx df = now ctx (case df_target df of Some t \<Rightarrow> t | None \<Rightarrow> SwapImage (currentBuffer ctx))"

lemma frame_with_room:
  assumes "current ctx df" "length (df_lights df) = MAX_LIGHTS" "currentBuffer ctx < swapCount ctx" "length ls \<le> MAX_LIGHTS"
  shows "\<exists>df'. df_beginScene place command ctx True (map (\<lambda>(l, t). (l, Some t)) ls) (map (\<lambda>(x, t). (Some x, t)) ms) env df = ret df' \<and>
    df_renderScene ctx df' = ret (map (\<lambda>(x, t). command x t) ms, gbuffer_views ctx, target_now ctx df, map (\<lambda>(l, t). place t l) ls, df_bound df') \<and>
    current ctx df' \<and> length (df_lights df') = MAX_LIGHTS \<and> df_target df' = df_target df \<and>
    df_lod df' = (case df_environmentMap df of Some c \<Rightarrow> cubeMips ctx c | None \<Rightarrow> 0) \<and> shows_environment ctx env df df'"
proof -
  let ?lod = "case df_environmentMap df of Some c \<Rightarrow> cubeMips ctx c | None \<Rightarrow> 0"
  let ?slots = "map (\<lambda>(l, t). place t l) ls @ drop (length ls) (df_lights df)"
  let ?d = "df\<lparr>df_lightCount := length ls, df_lights := ?slots, df_lod := ?lod\<rparr>"
  have sub: "submitLight place ctx True (map (\<lambda>(l, t). (l, Some t)) ls) df = ret ?d"
    using put_lights_fit[of 0 ls "df_lights df" place] assms(2,4) by (simp add: submitLight_def)
  have "current ctx ?d" using assms(1) by (simp add: current_def pools_def reads_def)
  from df_environment_reads[OF this, of env] obtain d where d: "df_environment ctx env ?d = ret d" "current ctx d"
    "df_lights d = ?slots" "df_lightCount d = length ls" "df_lod d = ?lod" "df_target d = df_target df"
    and env: "case env of Some e \<Rightarrow> df_environmentMap d = prefilteredEnvironment e
      | None \<Rightarrow> df_environmentMap d = None \<and> df_bound d 8 = df_bound df 8"
    by (auto split: option.splits)
  let ?f = "d\<lparr>off_queue := map (\<lambda>(x, t). command x t) ms\<rparr>"
  have cur: "current ctx ?f" using d(2) by (simp add: current_def pools_def reads_def)
  have "df_beginScene place command ctx True (map (\<lambda>(l, t). (l, Some t)) ls) (map (\<lambda>(x, t). (Some x, t)) ms) env df = ret ?f"
    using sub d(1) by (simp add: df_beginScene_def off_beginScene_def queue_meshes_all)
  moreover have "df_renderScene ctx ?f =
    ret (map (\<lambda>(x, t). command x t) ms, gbuffer_views ctx, target_now ctx df, map (\<lambda>(l, t). place t l) ls, df_bound d)"
    using df_begin_target[of ?f ctx] cur assms(3) d by (simp add: df_renderScene_def current_def target_now_def)
  moreover have "shows_environment ctx env df ?f"
    using env d(2) by (auto simp: shows_environment_def current_def reads_def Let_def split: option.splits)
  moreover have "length (df_lights ?f) = MAX_LIGHTS" using d(3) assms(2,4) by simp
  ultimately show ?thesis using cur d(5,6) by (intro exI[of _ ?f]) simp
qed

text \<open>
  C36: When the descriptors and frame buffers are current, a camera is there and every mesh renderer has its mesh, then a frame with at most 32 lights
  draws all meshes in order into the current G-buffer and lights the current target with the lights of the scene in order;
  everything is current afterwards, with the prefiltered map of the environment bound; with more lights
  the write leaves the array. Two things lag behind: the level of detail is that of the environment map of the frame before, and without an environment the
  shader still reads the map bound last.
\<close>

theorem deferred_frame:
  assumes "current ctx df" "length (df_lights df) = MAX_LIGHTS" "currentBuffer ctx < swapCount ctx"
  shows "(length ls \<le> MAX_LIGHTS \<longrightarrow> (\<exists>df'.
      df_beginScene place command ctx True (map (\<lambda>(l, t). (l, Some t)) ls) (map (\<lambda>(x, t). (Some x, t)) ms) env df = ret df' \<and>
      df_renderScene ctx df' = ret (map (\<lambda>(x, t). command x t) ms, gbuffer_views ctx, target_now ctx df, map (\<lambda>(l, t). place t l) ls, df_bound df') \<and>
      current ctx df' \<and> length (df_lights df') = MAX_LIGHTS \<and> df_target df' = df_target df \<and>
      df_lod df' = (case df_environmentMap df of Some c \<Rightarrow> cubeMips ctx c | None \<Rightarrow> 0) \<and> shows_environment ctx env df df')) \<and>
    (MAX_LIGHTS < length ls \<longrightarrow>
      df_beginScene place command ctx True (map (\<lambda>(l, t). (l, Some t)) ls) (map (\<lambda>(x, t). (Some x, t)) ms) env df = fail BadIndex)"
  using frame_with_room[OF assms] put_lights_overrun[of "df_lights df" 0 ls place] assms(2)
  by (auto simp: df_beginScene_def submitLight_def)

section \<open>Resizing\<close>

text \<open>
  Whatever the renderer refers to, resizing the render manager returns and leaves the G-buffer views, the frame buffers and the
  descriptors current, so that a frame can begin on its target, while before the call what was bound of the G-buffer was the destroyed view;
  taking the render target away without rebuilding instead leaves one
  frame buffer for all swap chain images, and a frame on any image but the first indexes past it.
\<close>

theorem resize_makes_current:
  assumes "pools df" "currentBuffer ctx < swapCount ctx"
  shows "(\<exists>ctx' df'. manager_onResize (ctx, df) = ret (ctx', df') \<and> current ctx' df' \<and> df_begin ctx' df' = ret (target_now ctx' df) \<and>
      (current ctx df \<longrightarrow> \<not> reads ctx' df) \<and> df_lights df' = df_lights df) \<and>
    (df_target df = Some t \<longrightarrow> current ctx df \<longrightarrow>
      df_begin ctx (df_setRenderTarget ctx None False df) = (if currentBuffer ctx = 0 then ret (now ctx t) else fail BadIndex) \<and>
      df_begin ctx (df_setRenderTarget ctx None True df) = ret (now ctx (SwapImage (currentBuffer ctx))))"
proof -
  let ?c = "gbuffer_resize ctx" and ?d = "off_createFrameBuffers (gbuffer_resize ctx) (createFrameBuffers (gbuffer_resize ctx) df)"
  have "pools ?d" using assms(1) by (simp add: pools_def off_createFrameBuffers_def createFrameBuffers_def)
  from updateScreen_reads[OF this, of ?c] obtain s m where u: "updateScreenDescriptorSet ?c ?d = ret (?d\<lparr>df_set := s, df_bound := m\<rparr>)"
    "pools (?d\<lparr>df_set := s, df_bound := m\<rparr>)" "reads ?c (?d\<lparr>df_set := s, df_bound := m\<rparr>)" by blast
  let ?f = "?d\<lparr>df_set := s, df_bound := m\<rparr>"
  have run: "manager_onResize (ctx, df) = ret (?c, ?f)" using u(1) by (simp add: manager_onResize_def df_onResize_def Let_def)
  have fields: "df_frames ?f = target_views ?c (df_target df)" "df_target ?f = df_target df" "off_frame ?f = gbuffer_views ?c" "df_lights ?f = df_lights df"
    by (simp_all add: off_createFrameBuffers_def createFrameBuffers_def target_views_def gbuffer_views_def)
  have cur: "current ?c ?f" using u(2,3) fields by (simp add: current_def)
  have "currentBuffer ?c < swapCount ?c" using assms(2) by (simp add: gbuffer_resize_def)
  then have "df_begin ?c ?f = ret (target_now ?c df)" using df_begin_target[of ?f ?c] fields by (simp add: target_now_def)
  moreover have "current ctx df \<longrightarrow> \<not> reads ?c df" by (auto simp: current_def reads_def Let_def now_def gbuffer_resize_def)
  moreover have "df_begin ctx (df_setRenderTarget ctx None False df) = (if currentBuffer ctx = 0 then ret (now ctx t) else fail BadIndex) \<and>
      df_begin ctx (df_setRenderTarget ctx None True df) = ret (now ctx (SwapImage (currentBuffer ctx)))"
    if "df_target df = Some t" "current ctx df"
    using that assms(2) by (simp add: df_begin_def df_setRenderTarget_def current_def target_views_def createFrameBuffers_def)
  ultimately show ?thesis using run cur fields(4) by blast
qed

text \<open>A context with three swap chain images of which the second is drawn, and a renderer set up for it with a preview as its target and cube map 1 as its environment.\<close>

definition three_buffers :: render_context where
  "three_buffers = \<lparr>built = (\<lambda>_. 1), swapCount = 3, currentBuffer = 1, hasShadow = True, hasOmniShadow = False, cubeMips = (\<lambda>_. 5)\<rparr>"

definition ready_deferred :: "(nat, nat) deferred" where
  "ready_deferred = \<lparr>df_lights = replicate 32 0, df_lightCount = 0, df_lod = 0, df_environmentMap = Some 1, df_irradianceMap = Some 0,
     df_set = new_set, df_bound = [0 \<mapsto> [(GColor, 1)], 1 \<mapsto> [(GPosition, 1)], 2 \<mapsto> [(GNormals, 1)], 3 \<mapsto> [(GDepth, 1)], 4 \<mapsto> [(ShadowMap, 1)],
       6 \<mapsto> [(GPbr, 1)], 7 \<mapsto> [(CubeMap 0, 1)], 8 \<mapsto> [(CubeMap 1, 1)], 9 \<mapsto> [(BrdfLut, 1)]],
     df_target = Some Preview, df_frames = [(Preview, 1)],
     off_frame = [(GColor, 1), (GPosition, 1), (GNormals, 1), (GPbr, 1), (GDepth, 1)], off_queue = []\<rparr>"

lemma ready: "current three_buffers ready_deferred" "pools ready_deferred" "length (df_lights ready_deferred) = MAX_LIGHTS"
  "currentBuffer three_buffers < swapCount three_buffers" "df_target ready_deferred = Some Preview" "currentBuffer three_buffers = 1"
  "target_now three_buffers ready_deferred = (Preview, 1)" "df_bound ready_deferred 8 = Some [(CubeMap 1, 1)]"
  by (simp_all add: current_def pools_def reads_def ready_deferred_def three_buffers_def new_set_def MAX_IMAGE_INFOS_def MAX_BUFFER_INFOS_def
      target_views_def gbuffer_views_def now_def MAX_LIGHTS_def target_now_def)

theorem deferred_frame_witness:
  "(\<exists>df'. df_beginScene (+) (+) three_buffers True [(5, Some 1), (6, Some 2)] [(Some 3, 4)] None ready_deferred = ret df' \<and>
      df_renderScene three_buffers df' = ret ([7], gbuffer_views three_buffers, (Preview, 1), [6, 8], df_bound df') \<and>
      df_environmentMap df' = None \<and> df_bound df' 8 = Some [(CubeMap 1, 1)]) \<and>
   df_beginScene (+) (+) three_buffers True (replicate 33 (5, Some 1)) [(Some 3, 4)] None ready_deferred = fail BadIndex"
  using deferred_frame[OF ready(1,3,4), of "[(5, 1), (6, 2)]" "(+)" "(+)" "[(3, 4)]" None]
    deferred_frame[OF ready(1,3,4), of "replicate 33 (5, 1)" "(+)" "(+)" "[(3, 4)]" None] ready(7,8)
  by (auto simp: shows_environment_def MAX_LIGHTS_def)

theorem resize_makes_current_witness:
  "(\<exists>ctx' df'. manager_onResize (three_buffers, ready_deferred) = ret (ctx', df') \<and> current ctx' df' \<and> \<not> reads ctx' ready_deferred) \<and>
   df_begin three_buffers (df_setRenderTarget three_buffers None False ready_deferred) = fail BadIndex \<and>
   df_begin three_buffers (df_setRenderTarget three_buffers None True ready_deferred) = ret (SwapImage 1, 1)"
proof -
  have "now three_buffers (SwapImage 1) = (SwapImage 1, 1)" by (simp add: now_def three_buffers_def)
  then show ?thesis using resize_makes_current[OF ready(2,4), of Preview] ready(1,5,6) by auto
qed

section \<open>The sky and the environment\<close>

text \<open>
  Over the frames of a scene whose environment component is removed, the sky keeps drawing the cube map it had;
  a frame without a camera does not take up a new one.
\<close>

lemma sky_keeps_cube:
  "fold (sky_beginScene True) (replicate n None) cubeMap = cubeMap" "sky_beginScene False env cubeMap = cubeMap"
  "sky_beginScene True (Some e) cubeMap = environmnet e"
  by (induction n) (simp_all add: sky_beginScene_def)

end
