(* ===== verification/Editor_Hierarchy.thy ===== *)
theory Editor_Hierarchy
  imports Hierarchy_Forest Scene_Manager
begin

text \<open>
  The hierarchy window of the editor, \<^verbatim>\<open>src/Code/Editor/src/HierarchyWindow.cpp\<close>, with the selection and the copied entity
  of \<^verbatim>\<open>Editor.cpp\<close>: drawing the tree of entities, the entries of the window's pop-up and of the context menu of a node, and dropping one entity onto another or onto the panel.
  What the user does in a frame (which item, which entry) is a value; the calls of ImGui only report it. The filter and
  the nodes that are folded open are predicates.
\<close>

section \<open>Drawing the tree\<close>

text \<open>
  The nodes that \<^verbatim>\<open>drawNode\<close> shows, in order. With \<open>whole\<close> the call is for an entity, otherwise
  for it and the siblings behind it, the loop over the children.
\<close>

partial_function (option) draw_walk ::
  "(entity \<Rightarrow> bool) \<Rightarrow> (entity \<Rightarrow> bool) \<Rightarrow> 'a registry_scheme \<Rightarrow> bool \<Rightarrow> entity option \<Rightarrow> entity list option" where
  "draw_walk pass isOpen r whole node =
     (case node of
        None \<Rightarrow> Some []
      | Some e \<Rightarrow>
          if whole
          then (if \<not> alive r e \<or> \<not> pass e then Some []
                else (case hier r e of
                    None \<Rightarrow> Some [e]
                  | Some h \<Rightarrow>
                      if h_first h = None \<or> \<not> isOpen e then Some [e]
                      else do { xs \<leftarrow> draw_walk pass isOpen r False (h_first h); Some (e # xs) }))
          else if \<not> alive r e then Some []
          else do { xs \<leftarrow> draw_walk pass isOpen r True (Some e);
                    ys \<leftarrow> draw_walk pass isOpen r False (case hier r e of Some h \<Rightarrow> h_next h | None \<Rightarrow> None);
                    Some (xs @ ys) })"

definition drawNode :: "(entity \<Rightarrow> bool) \<Rightarrow> (entity \<Rightarrow> bool) \<Rightarrow> 'a registry_scheme \<Rightarrow> entity \<Rightarrow> entity list option" where
  "drawNode pass isOpen r node = draw_walk pass isOpen r True (Some node)"

text \<open>The loop over the registry draws every entity without a parent; \<open>es\<close> are the entities in the order of the registry.\<close>

definition is_root :: "'a registry_scheme \<Rightarrow> entity \<Rightarrow> bool" where
  "is_root r e = (case hier r e of None \<Rightarrow> True | Some h \<Rightarrow> h_parent h = None)"

fun draw_roots :: "(entity \<Rightarrow> bool) \<Rightarrow> (entity \<Rightarrow> bool) \<Rightarrow> 'a registry_scheme \<Rightarrow> entity list \<Rightarrow> entity list option" where
  "draw_roots pass isOpen r [] = Some []"
| "draw_roots pass isOpen r (e # es) =
     do { xs \<leftarrow> (if alive r e \<and> is_root r e then drawNode pass isOpen r e else Some []);
          ys \<leftarrow> draw_roots pass isOpen r es;
          Some (xs @ ys) }"

section \<open>Deleting\<close>

text \<open>\<^verbatim>\<open>destroyEntity\<close>: the children first, then the entity; \<open>whole\<close> as above.\<close>

partial_function (option) destroy_walk ::
  "'a registry_scheme \<Rightarrow> bool \<Rightarrow> entity option \<Rightarrow> 'a registry_scheme run" where
  "destroy_walk r whole node =
     (case node of
        None \<Rightarrow> ret r
      | Some e \<Rightarrow>
          if whole
          then rbind (destroy_walk r False (case hier r e of Some h \<Rightarrow> h_first h | None \<Rightarrow> None)) (\<lambda>r. Some (destroy r e))
          else (let n = (case hier r e of Some h \<Rightarrow> h_next h | None \<Rightarrow> None)
                in rbind (destroy_walk r True (Some e)) (\<lambda>r. destroy_walk r False n)))"

definition destroyEntity :: "'a registry_scheme \<Rightarrow> entity \<Rightarrow> 'a registry_scheme run" where
  "destroyEntity r e = destroy_walk r True (Some e)"

definition isParentOfEntity :: "'a registry_scheme \<Rightarrow> entity \<Rightarrow> entity \<Rightarrow> bool option" where
  "isParentOfEntity r entity child =
     (case hier r child of None \<Rightarrow> Some False | Some h \<Rightarrow> ancestor_loop (hier r) (Some entity) (h_parent h))"

section \<open>The editor\<close>

record editor =
  ed_registry :: registry
  ed_next :: entity
  selectedNode :: "entity option"
  prevSelectedNode :: "entity option"
  copiedNode :: "entity option"
  cutCopyEntity :: bool
  doubleClickedEntity :: "entity option"
  droppedEntity :: "entity option"
  pool_capacity :: nat
  pool_generation :: nat
  pool_growth :: "nat \<Rightarrow> nat"

text \<open>
  The registry keeps the \<^verbatim>\<open>Hierarchy\<close> components in one \<^verbatim>\<open>std::vector\<close>. When components are added
  beyond its capacity, it moves them to new storage, the next generation, and pointers of the older generation dangle. Its new capacity for \<open>n\<close> components
  is \<open>pool_growth\<close> of \<open>n\<close>, which the library chooses; removing components never moves the storage.
\<close>

definition pool_count :: "editor \<Rightarrow> nat" where
  "pool_count s = length (filter (\<lambda>e. hier (ed_registry s) e \<noteq> None) [0..<ed_next s])"

definition settle :: "editor \<Rightarrow> editor" where
  "settle s = (if pool_capacity s < pool_count s
     then s\<lparr>pool_capacity := pool_growth s (pool_count s), pool_generation := Suc (pool_generation s)\<rparr> else s)"

definition setSelected :: "entity option \<Rightarrow> editor \<Rightarrow> editor" where
  "setSelected node s = s\<lparr>prevSelectedNode := selectedNode s, selectedNode := node\<rparr>"

text \<open>The second argument, \<^verbatim>\<open>cut\<close>, is not used.\<close>

definition setCopiedEntity :: "entity option \<Rightarrow> bool \<Rightarrow> editor \<Rightarrow> editor" where
  "setCopiedEntity node isCut s = s\<lparr>copiedNode := node\<rparr>"

definition create_entity :: "editor \<Rightarrow> entity \<times> editor" where
  "create_entity s = (ed_next s, s\<lparr>ed_registry := (ed_registry s)\<lparr>alive := (alive (ed_registry s))(ed_next s := True)\<rparr>, ed_next := Suc (ed_next s)\<rparr>)"

definition on_registry :: "(registry \<Rightarrow> registry run) \<Rightarrow> editor \<Rightarrow> editor run" where
  "on_registry f s = rbind (f (ed_registry s)) (\<lambda>r. ret (settle (s\<lparr>ed_registry := r\<rparr>)))"

text \<open>Copying the components is not implemented.\<close>

definition duplicate_under :: "entity \<Rightarrow> entity \<Rightarrow> editor \<Rightarrow> editor run" where
  "duplicate_under entity parent s =
     (let (newEntity, s) = create_entity s in on_registry (\<lambda>r. setParent r newEntity (Some parent)) s)"

definition duplicate :: "entity \<Rightarrow> editor \<Rightarrow> editor" where
  "duplicate entity s = snd (create_entity s)"

definition add_child :: "entity \<Rightarrow> editor \<Rightarrow> editor run" where
  "add_child node s = (let (child, s) = create_entity s in on_registry (\<lambda>r. setParent r child (Some node)) s)"

lemma settle_fields [simp]:
  "ed_registry (settle s) = ed_registry s" "ed_next (settle s) = ed_next s" "selectedNode (settle s) = selectedNode s"
  "copiedNode (settle s) = copiedNode s" "cutCopyEntity (settle s) = cutCopyEntity s" "pool_growth (settle s) = pool_growth s"
  "pool_count (settle s) = pool_count s"
  by (simp_all add: settle_def pool_count_def)

section \<open>The context menu and dropping\<close>

datatype menu_entry = CopyEntry | CutEntry | PasteEntry | DuplicateEntry | DeleteEntry | RenameEntry | AddChildEntry

text \<open>The first component tells whether the entity of the menu is to be deleted. An open menu takes the selection away.\<close>

definition deselect :: "entity \<Rightarrow> editor \<Rightarrow> editor" where
  "deselect node s = (if selectedNode s = Some node then setSelected None s else s)"

definition paste :: "entity \<Rightarrow> editor \<Rightarrow> (bool \<times> editor) run" where
  "paste node s = (case copiedNode s of
       None \<Rightarrow> ret (False, s)
     | Some copied \<Rightarrow>
         if \<not> alive (ed_registry s) copied then ret (False, s)
         else rbind (duplicate_under copied node s) (\<lambda>s. ret (cutCopyEntity s, s)))"

definition menu :: "entity \<Rightarrow> menu_entry \<Rightarrow> editor \<Rightarrow> (bool \<times> editor) run" where
  "menu node entry s = (case entry of
       CopyEntry \<Rightarrow> ret (False, deselect node (setCopiedEntity (Some node) False s))
     | CutEntry \<Rightarrow> ret (False, deselect node (setCopiedEntity (Some node) True s))
     | PasteEntry \<Rightarrow> rbind (paste node s) (\<lambda>(deleteEntity, s). ret (deleteEntity, deselect node s))
     | DuplicateEntry \<Rightarrow> ret (False, deselect node (duplicate node s))
     | DeleteEntry \<Rightarrow> ret (True, deselect node s)
     | RenameEntry \<Rightarrow> ret (False, (deselect node s)\<lparr>doubleClickedEntity := Some node\<rparr>)
     | AddChildEntry \<Rightarrow> rbind (add_child node (deselect node s)) (\<lambda>s. ret (False, s)))"

definition choose_entry :: "entity \<Rightarrow> menu_entry \<Rightarrow> editor \<Rightarrow> editor run" where
  "choose_entry node entry s = rbind (menu node entry s) (\<lambda>(deleteEntity, s).
     if deleteEntity then on_registry (\<lambda>r. destroyEntity r node) s else ret s)"

text \<open>
  After the menu and the drop, \<^verbatim>\<open>drawNode\<close> goes on: if the node is open and had children, it takes the first one from the
  component at the pointer \<open>hierarchyComponent\<close> that was taken before them.
\<close>

definition has_children :: "'a registry_scheme \<Rightarrow> entity \<Rightarrow> bool" where
  "has_children r node = (case hier r node of None \<Rightarrow> False | Some h \<Rightarrow> h_first h \<noteq> None)"

definition draw_children :: "entity \<Rightarrow> bool \<Rightarrow> editor \<Rightarrow> editor \<Rightarrow> editor run" where
  "draw_children node nodeOpen earlier s =
     (if nodeOpen \<and> has_children (ed_registry earlier) node \<and> pool_generation s \<noteq> pool_generation earlier
      then fail Dangling else ret s)"

definition drop_on_node :: "entity \<Rightarrow> entity \<Rightarrow> editor \<Rightarrow> editor run" where
  "drop_on_node entity node s =
     (let r = ed_registry s in
      case hier r entity of
        Some h \<Rightarrow> Option.bind (isParentOfEntity r entity node) (\<lambda>par.
          if entity \<noteq> node \<and> \<not> par \<and> h_parent h \<noteq> Some node
          then rbind (reparent r entity (Some node)) (\<lambda>r. ret (settle (s\<lparr>ed_registry := r, droppedEntity := Some node\<rparr>)))
          else ret s)
      | None \<Rightarrow>
          if entity \<noteq> node
          then rbind (emplace_hierarchy r entity (Some node)) (\<lambda>r. ret (settle (s\<lparr>ed_registry := r, droppedEntity := Some node\<rparr>)))
          else ret s)"

text \<open>Dropping onto the window; then dropping onto the free part of the panel, which also removes the component.\<close>

definition drop_on_window :: "entity \<Rightarrow> editor \<Rightarrow> editor run" where
  "drop_on_window entity s = (case hier (ed_registry s) entity of
       None \<Rightarrow> ret s
     | Some _ \<Rightarrow> on_registry (\<lambda>r. reparent r entity None) s)"

definition remove_hierarchy :: "'a registry_scheme \<Rightarrow> entity \<Rightarrow> 'a registry_scheme run" where
  "remove_hierarchy r e = rbind (Some (onDestroy r e)) (\<lambda>r. ret (r\<lparr>hier := (hier r)(e := None)\<rparr>))"

definition drop_on_panel :: "entity \<Rightarrow> editor \<Rightarrow> editor run" where
  "drop_on_panel entity s = (case hier (ed_registry s) entity of
       None \<Rightarrow> ret s
     | Some h \<Rightarrow>
         if h_parent h \<noteq> None
         then rbind (on_registry (\<lambda>r. reparent r entity None) s) (on_registry (\<lambda>r. remove_hierarchy r entity))
         else ret s)"

section \<open>What is drawn\<close>

definition desc :: "'a registry_scheme \<Rightarrow> entity \<Rightarrow> entity set" where
  "desc r e = {x. (x, e) \<in> (parents (hier r))\<^sup>*}"

text \<open>From an entity that is drawn, the children that pass the filter are drawn when it is open.\<close>

definition opens :: "(entity \<Rightarrow> bool) \<Rightarrow> (entity \<Rightarrow> bool) \<Rightarrow> 'a registry_scheme \<Rightarrow> (entity \<times> entity) set" where
  "opens pass isOpen r = {(p, x). (x, p) \<in> parents (hier r) \<and> isOpen p \<and> pass x}"

definition shown_from :: "(entity \<Rightarrow> bool) \<Rightarrow> (entity \<Rightarrow> bool) \<Rightarrow> 'a registry_scheme \<Rightarrow> entity \<Rightarrow> entity set" where
  "shown_from pass isOpen r e = (if pass e then (opens pass isOpen r)\<^sup>* `` {e} else {})"

definition agree :: "'a registry_scheme \<Rightarrow> 'a registry_scheme \<Rightarrow> entity set \<Rightarrow> bool" where
  "agree r r' S \<longleftrightarrow> (\<forall>x \<in> S. alive r' x = alive r x \<and> hier r' x = hier r x)"

lemma desc_refl [simp]: "e \<in> desc r e"
  by (simp add: desc_def)

lemma desc_child: "(c, e) \<in> parents (hier r) \<Longrightarrow> desc r c \<subseteq> desc r e"
  by (auto simp: desc_def intro: rtrancl_into_rtrancl)

lemma shown_in_desc: "shown_from pass isOpen r e \<subseteq> desc r e"
proof -
  have "(x, e) \<in> (parents (hier r))\<^sup>*" if "(e, x) \<in> (opens pass isOpen r)\<^sup>*" for x
    using that by (induction rule: rtrancl_induct) (auto simp: opens_def intro: converse_rtrancl_into_rtrancl)
  then show ?thesis by (auto simp: shown_from_def desc_def)
qed

lemma shown_from_step:
  "pass e \<Longrightarrow> shown_from pass isOpen r e =
     insert e (if isOpen e then \<Union> (shown_from pass isOpen r ` {c. (c, e) \<in> parents (hier r)}) else {})"
  by (force simp: shown_from_def opens_def elim: converse_rtranclE intro: converse_rtrancl_into_rtrancl)

text \<open>Two children of one entity have no descendant in common.\<close>

lemma child_subtrees_disjoint:
  assumes ok: "hier_ok r ch" and c: "(c, p) \<in> parents (hier r)" "(d, p) \<in> parents (hier r)" and x: "x \<in> desc r c" "x \<in> desc r d"
  shows "c = d"
proof (rule ccontr)
  assume ne: "c \<noteq> d"
  have ac: "acyclic (parents (hier r))" using ok by (simp add: hier_ok_def)
  have sv: "single_valued (parents (hier r))" by (auto simp: single_valued_def parents_simp)
  have "(c, d) \<in> (parents (hier r))\<^sup>* \<or> (d, c) \<in> (parents (hier r))\<^sup>*"
    using single_valued_confluent[OF sv] x by (auto simp: desc_def dest: single_valued_confluent[OF sv])
  then have "(p, c) \<in> (parents (hier r))\<^sup>* \<or> (p, d) \<in> (parents (hier r))\<^sup>*"
    using ne c sv by (metis converse_rtranclE single_valuedD)
  then show False using ac c by (auto simp: acyclic_def dest: rtrancl_into_trancl2)
qed

lemma draw_loop:
  assumes ok: "hier_ok r ch" and ag: "agree r r' (\<Union> (desc r ` set (ch p)))" and ch: "ch p = before @ cs"
    and IH: "\<And>c. c \<in> set cs \<Longrightarrow> \<exists>xs. draw_walk pass isOpen r' True (Some c) = Some xs \<and> distinct xs \<and> set xs = shown_from pass isOpen r c"
  shows "\<exists>xs. draw_walk pass isOpen r' False (head cs) = Some xs \<and> distinct xs \<and> set xs = \<Union> (shown_from pass isOpen r ` set cs)"
  using ch IH
proof (induction cs arbitrary: before)
  case Nil
  then show ?case by (simp add: draw_walk.simps)
next
  case (Cons c cs)
  have f: "forest_links (hier r) ch" using ok by (simp add: hier_ok_def)
  have c: "(c, p) \<in> parents (hier r)" "\<And>d. d \<in> set cs \<Longrightarrow> (d, p) \<in> parents (hier r)"
    using parents_children[OF f] Cons.prems(1) by auto
  have nd: "c \<notin> set cs" using forest_linksD(2)[OF f, of p] Cons.prems(1) by simp
  obtain h where h: "hier r c = Some h" "h_next h = head cs"
    using chain_forest[OF f, of p before "c # cs"] Cons.prems(1) by auto
  have "alive r' c \<and> hier r' c = hier r c" using ag Cons.prems(1) child_alive[OF ok, of c p] by (auto simp: agree_def)
  with h have here: "alive r' c" "hier r' c = Some h" by simp_all
  obtain xs where xs: "draw_walk pass isOpen r' True (Some c) = Some xs" "distinct xs" "set xs = shown_from pass isOpen r c"
    using Cons.prems(2)[of c] by auto
  obtain ys where ys: "draw_walk pass isOpen r' False (head cs) = Some ys" "distinct ys" "set ys = \<Union> (shown_from pass isOpen r ` set cs)"
    using Cons.IH[of "before @ [c]"] Cons.prems by auto
  have "set xs \<inter> set ys = {}"
    using child_subtrees_disjoint[OF ok c(1) c(2)] nd shown_in_desc xs(3) ys(3) by fastforce
  then show ?case using xs ys here h by (subst draw_walk.simps) simp
qed

lemma draw_subtree:
  assumes ok: "hier_ok r ch" and "alive r e" "agree r r' (desc r e)"
  shows "\<exists>xs. draw_walk pass isOpen r' True (Some e) = Some xs \<and> distinct xs \<and> set xs = shown_from pass isOpen r e"
  using hier_wf(2)[OF ok] assms(2,3)
proof (induction e rule: wf_induct_rule)
  case (less e)
  have f: "forest_links (hier r) ch" using ok by (simp add: hier_ok_def)
  have here: "alive r' e" "hier r' e = hier r e" using less.prems by (auto simp: agree_def)
  have kids: "(c, e) \<in> parents (hier r) \<longleftrightarrow> c \<in> set (ch e)" for c using parents_children[OF f] .
  show ?case
  proof (cases "pass e")
    case False
    then show ?thesis by (subst draw_walk.simps) (simp add: shown_from_def)
  next
    case pass: True
    have "\<Union> (desc r ` set (ch e)) \<subseteq> desc r e" using desc_child kids by fast
    then have ag: "agree r r' (\<Union> (desc r ` set (ch e)))" using less.prems(2) by (auto simp: agree_def)
    have IH: "\<exists>xs. draw_walk pass isOpen r' True (Some c) = Some xs \<and> distinct xs \<and> set xs = shown_from pass isOpen r c"
      if "c \<in> set (ch e)" for c
      using less.IH[of c] that kids child_alive[OF ok that] desc_child[of c e r] less.prems(2) by (auto simp: agree_def)
    obtain xs where xs: "draw_walk pass isOpen r' False (head (ch e)) = Some xs" "distinct xs"
      "set xs = \<Union> (shown_from pass isOpen r ` set (ch e))"
      using draw_loop[OF ok ag _ IH, of "[]" "ch e"] by auto
    have "e \<notin> set xs"
    proof
      assume "e \<in> set xs"
      then obtain c where "c \<in> set (ch e)" "e \<in> desc r c" using xs(3) shown_in_desc by fastforce
      then have "(e, e) \<in> (parents (hier r))\<^sup>+" using kids by (auto simp: desc_def intro: rtrancl_into_trancl1)
      then show False using ok by (simp add: hier_ok_def acyclic_def)
    qed
    moreover have "h_first h = head (ch e)" if "hier r e = Some h" for h
      using forest_linksD(1)[OF f that] by (simp add: linked_def)
    moreover have "ch e = []" if "hier r e = None" using forest_linksD(5)[OF f that] .
    moreover have "{c. (c, e) \<in> parents (hier r)} = set (ch e)" using kids by auto
    ultimately show ?thesis using here less.prems(1) pass xs shown_from_step[of pass e isOpen r]
      by (subst draw_walk.simps) (auto split: option.split)
  qed
qed

text \<open>An entity is visible when it passes the filter and all its ancestors pass and are open.\<close>

definition visible :: "(entity \<Rightarrow> bool) \<Rightarrow> (entity \<Rightarrow> bool) \<Rightarrow> 'a registry_scheme \<Rightarrow> entity \<Rightarrow> bool" where
  "visible pass isOpen r x \<longleftrightarrow> alive r x \<and> pass x \<and> (\<forall>a. (x, a) \<in> (parents (hier r))\<^sup>+ \<longrightarrow> pass a \<and> isOpen a)"

lemma is_root_iff: "is_root r e \<longleftrightarrow> (\<forall>p. (e, p) \<notin> parents (hier r))"
  by (auto simp: is_root_def parents_simp split: option.splits)

lemma above_root: "is_root r a \<Longrightarrow> (a, b) \<in> (parents (hier r))\<^sup>* \<Longrightarrow> a = b"
  by (metis converse_rtranclE is_root_iff)

lemma roots_disjoint:
  assumes "is_root r a" "is_root r b" "x \<in> desc r a" "x \<in> desc r b"
  shows "a = b"
proof -
  have sv: "single_valued (parents (hier r))" by (auto simp: single_valued_def parents_simp)
  have "(a, b) \<in> (parents (hier r))\<^sup>* \<or> (b, a) \<in> (parents (hier r))\<^sup>*"
    using single_valued_confluent[OF sv] assms(3,4) by (auto simp: desc_def)
  then show ?thesis using above_root assms(1,2) by metis
qed

lemma visible_child:
  assumes "hier_ok r ch" "(x, p) \<in> parents (hier r)"
  shows "visible pass isOpen r x \<longleftrightarrow> visible pass isOpen r p \<and> isOpen p \<and> pass x"
proof -
  have f: "forest_links (hier r) ch" using assms(1) by (simp add: hier_ok_def)
  have "x \<in> set (ch p)" using parents_children[OF f] assms(2) by blast
  then have "alive r x" "alive r p" using child_alive[OF assms(1)] forest_linksD(4)[OF f] assms(1) by (auto simp: hier_ok_def)
  moreover have "(x, a) \<in> (parents (hier r))\<^sup>+ \<longleftrightarrow> a = p \<or> (p, a) \<in> (parents (hier r))\<^sup>+" for a
  proof -
    have "q = p" if "(x, q) \<in> parents (hier r)" for q using that assms(2) by (auto simp: parents_simp)
    then show ?thesis using assms(2) by (metis trancl.r_into_trancl trancl_into_trancl2 tranclD rtranclD)
  qed
  ultimately show ?thesis by (auto simp: visible_def)
qed

lemma visible_root: "is_root r e \<Longrightarrow> visible pass isOpen r e \<longleftrightarrow> alive r e \<and> pass e"
  using above_root[of r e] by (auto simp: visible_def is_root_iff dest: tranclD)

lemma shown_visible:
  assumes ok: "hier_ok r ch"
  shows "(\<Union> (shown_from pass isOpen r ` {e. alive r e \<and> is_root r e})) = {x. visible pass isOpen r x}" (is "?U = ?V")
proof
  have "visible pass isOpen r x" if "(e, x) \<in> (opens pass isOpen r)\<^sup>*" "visible pass isOpen r e" for e x
    using that by (induction rule: rtrancl_induct) (auto simp: opens_def visible_child[OF ok])
  then show "?U \<subseteq> ?V" by (auto simp: shown_from_def visible_root split: if_splits)
  show "?V \<subseteq> ?U"
  proof
    fix x assume "x \<in> ?V"
    then have "visible pass isOpen r x" by simp
    with hier_wf(1)[OF ok] show "x \<in> ?U"
    proof (induction x rule: wf_induct_rule)
      case (less x)
      show ?case
      proof (cases "is_root r x")
        case True
        then show ?thesis using less.prems by (auto simp: visible_def shown_from_def)
      next
        case False
        then obtain p where p: "(x, p) \<in> parents (hier r)" by (auto simp: is_root_iff)
        then have v: "visible pass isOpen r p" "isOpen p" "pass x" using visible_child[OF ok p] less.prems by auto
        then obtain e where "alive r e" "is_root r e" "p \<in> shown_from pass isOpen r e" using less.IH[of p] p by auto
        moreover have "(p, x) \<in> opens pass isOpen r" using p v by (simp add: opens_def)
        ultimately show ?thesis by (auto simp: shown_from_def intro: rtrancl_into_rtrancl split: if_splits)
      qed
    qed
  qed
qed

text \<open>Drawing the roots, which are those of a well linked registry \<open>r\<close>.\<close>

lemma draw_roots_of:
  assumes "distinct es" "\<And>e. e \<in> set es \<Longrightarrow> alive r' e \<and> (is_root r' e \<longleftrightarrow> is_root r e)"
    and "\<And>e. e \<in> set es \<Longrightarrow> is_root r e \<Longrightarrow>
      \<exists>xs. drawNode pass isOpen r' e = Some xs \<and> distinct xs \<and> set xs = S e \<and> S e \<subseteq> desc r e"
  shows "\<exists>xs. draw_roots pass isOpen r' es = Some xs \<and> distinct xs \<and> set xs = \<Union> (S ` {e \<in> set es. is_root r e})"
  using assms
proof (induction es)
  case Nil
  then show ?case by simp
next
  case (Cons e es)
  obtain ys where ys: "draw_roots pass isOpen r' es = Some ys" "distinct ys" "set ys = \<Union> (S ` {e \<in> set es. is_root r e})"
    using Cons by auto
  show ?case
  proof (cases "is_root r e")
    case True
    obtain xs where xs: "drawNode pass isOpen r' e = Some xs" "distinct xs" "set xs = S e" "S e \<subseteq> desc r e"
      using Cons.prems(3)[of e] True by auto
    have "set xs \<inter> set ys = {}"
    proof (rule equals0I)
      fix x assume "x \<in> set xs \<inter> set ys"
      then obtain d where d: "d \<in> set es" "is_root r d" "x \<in> S d" "x \<in> desc r e" using xs(3,4) ys(3) by auto
      then have "x \<in> desc r d" using Cons.prems(3)[of d] by auto
      then have "e = d" using roots_disjoint[of r e d x] True d(2,4) by simp
      then show False using d(1) Cons.prems(1) by simp
    qed
    moreover have "{x \<in> set (e # es). is_root r x} = insert e {x \<in> set es. is_root r x}" using True by auto
    ultimately show ?thesis using xs ys True Cons.prems(2)[of e] by auto
  next
    case False
    moreover have "{x \<in> set (e # es). is_root r x} = {x \<in> set es. is_root r x}" using False by auto
    ultimately show ?thesis using ys Cons.prems(2)[of e] by simp
  qed
qed

text \<open>
  In a well linked hierarchy the window is drawn without end: every living entity that passes the filter and whose ancestors
  all pass the filter and are open is shown exactly once, and nothing else; an entity that passes the filter below one that does not is therefore hidden.
\<close>

theorem window_shows_entities:
  assumes "hier_ok r ch" "distinct es" "set es = {e. alive r e}"
  shows "\<exists>xs. draw_roots pass isOpen r es = Some xs \<and> distinct xs \<and> set xs = {x. visible pass isOpen r x}"
proof -
  have "\<exists>xs. draw_roots pass isOpen r es = Some xs \<and> distinct xs \<and>
      set xs = \<Union> (shown_from pass isOpen r ` {e \<in> set es. is_root r e})"
    using assms(3) draw_subtree[OF assms(1), of _ r pass isOpen] shown_in_desc[of pass isOpen r]
    by (intro draw_roots_of[OF assms(2)]) (auto simp: agree_def drawNode_def)
  moreover have "{e \<in> set es. is_root r e} = {e. alive r e \<and> is_root r e}" using assms(3) by auto
  ultimately show ?thesis using shown_visible[OF assms(1), of pass isOpen] by simp
qed

theorem window_shows_entities_witness:
  "\<exists>xs. draw_roots (\<lambda>e. e \<noteq> 2) (\<lambda>_. True) family [0, 1, 2, 3, 4, 5, 6, 7, 8, 9] = Some xs \<and> distinct xs \<and> 1 \<in> set xs \<and> 3 \<notin> set xs"
proof -
  let ?es = "[0, 1, 2, 3, 4, 5, 6, 7, 8, 9] :: nat list" and ?p = "\<lambda>e :: nat. e \<noteq> 2"
  have "set ?es = {e. alive family e}" by (auto simp: family_def)
  then obtain xs where xs: "draw_roots ?p (\<lambda>_. True) family ?es = Some xs" "distinct xs" "set xs = {x. visible ?p (\<lambda>_. True) family x}"
    using window_shows_entities[OF family_ok, of ?es ?p "\<lambda>_. True"] by auto
  have "(3, 2) \<in> (parents (hier family))\<^sup>+" by (rule r_into_trancl) (simp add: parents_simp family_def)
  then have "\<not> visible ?p (\<lambda>_. True) family 3" by (auto simp: visible_def)
  moreover have "visible ?p (\<lambda>_. True) family 1" by (subst visible_root) (auto simp: is_root_def family_def)
  ultimately show ?thesis using xs by blast
qed

section \<open>What is deleted\<close>

definition prune :: "entity set \<Rightarrow> (entity \<Rightarrow> entity list) \<Rightarrow> entity \<Rightarrow> entity list" where
  "prune D ch = (\<lambda>q. if q \<in> D then [] else filter (\<lambda>x. x \<notin> D) (ch q))"

text \<open>Exactly the entities of \<open>D\<close> are gone, with their components; the others keep theirs and their order.\<close>

definition removed :: "entity set \<Rightarrow> 'a registry_scheme \<Rightarrow> (entity \<Rightarrow> entity list) \<Rightarrow> 'a registry_scheme \<Rightarrow> bool" where
  "removed D r ch r' \<longleftrightarrow> hier_ok r' (prune D ch) \<and> (\<forall>x. alive r' x \<longleftrightarrow> alive r x \<and> x \<notin> D) \<and>
     (\<forall>x. names r' x = (if x \<in> D then None else names r x)) \<and> (\<forall>x. actives r' x = (if x \<in> D then None else actives r x)) \<and>
     parents (hier r') = {(x, p) \<in> parents (hier r). x \<notin> D}"

lemma prune_prune: "prune D' (prune D ch) = prune (D \<union> D') ch"
  by (rule ext) (auto simp: prune_def conj_commute)

lemma removed_empty: "hier_ok r ch \<Longrightarrow> removed {} r ch r"
  by (simp add: removed_def prune_def)

lemma removed_trans: "removed D r ch r1 \<Longrightarrow> removed D' r1 (prune D ch) r2 \<Longrightarrow> removed (D \<union> D') r ch r2"
  by (auto simp: removed_def prune_prune)

text \<open>Removing the component of an entity without links.\<close>

lemma drop_lonely:
  assumes f: "forest_links m ch" and e: "m e = Some h" "h_parent h = None" "ch e = []"
  shows "forest_links (m(e := None)) ch" "parents (m(e := None)) = parents m"
proof -
  have nc: "x \<in> set (ch p) \<Longrightarrow> x \<noteq> e \<and> p \<noteq> e" for x p using root_not_child[OF f e(1,2)] e(3) by auto
  show p: "parents (m(e := None)) = parents m" using e(1,2) by (auto simp: parents_def split: if_splits)
  show "forest_links (m(e := None)) ch"
    unfolding forest_links_def p using f nc by (auto simp: forest_links_def)
qed

lemma destroy_leaf:
  assumes ok: "hier_ok r ch" and e: "alive r e" "ch e = []"
  shows "\<exists>r'. destroy r e = Inr r' \<and> removed {e} r ch r'"
proof (cases "hier r e")
  case None
  have f: "forest_links (hier r) ch" using ok by (simp add: hier_ok_def)
  have "e \<notin> set (ch q)" for q using child_alive[OF ok, of e q] None by auto
  then have "prune {e} ch = ch" using e(2) by (auto simp: prune_def fun_eq_iff intro!: filter_True)
  moreover have "(e, p) \<notin> parents (hier r)" for p using None by (simp add: parents_simp)
  moreover have "(hier r)(e := None) = hier r" using None by auto
  ultimately show ?thesis using ok e None by (auto simp: destroy_def removed_def hier_ok_def)
next
  case (Some h)
  obtain m where m: "onDestroy r e = Inr (r\<lparr>hier := m\<rparr>)" "m e = Some h" "hier_ok (r\<lparr>hier := m(e \<mapsto> orphan h)\<rparr>) (leave ch e)"
    "parents (m(e \<mapsto> orphan h)) = parents (hier r) - {(e, p) | p. True}" using detach_ok[OF ok Some] .
  let ?m = "m(e \<mapsto> orphan h)"
  have l: "leave ch e e = []" using e(2) by (simp add: leave_def)
  have pr: "prune {e} ch = leave ch e" using e(2) by (auto simp: prune_def leave_def fun_eq_iff)
  have f: "forest_links ?m (leave ch e)" using m(3) by (simp add: hier_ok_def)
  note d = drop_lonely[OF f _ _ l, of "orphan h", simplified, simplified orphan_def]
  have "hier_ok (r\<lparr>alive := (alive r)(e := False), hier := m(e := None), names := (names r)(e := None), actives := (actives r)(e := None)\<rparr>) (prune {e} ch)"
    using m(3) d unfolding pr by (auto simp: hier_ok_def orphan_def domIff intro: finite_subset[of _ "dom ?m"])
  moreover have "parents (m(e := None)) = {(x, p) \<in> parents (hier r). x \<notin> {e}}" using d(2) m(4) by (auto simp: orphan_def)
  ultimately show ?thesis using m(1) Some e(1) by (auto simp: destroy_def removed_def)
qed

lemma desc_removed:
  assumes "removed (desc r y) r ch r1" "c \<notin> desc r y"
  shows "desc r1 c = desc r c - desc r y"
proof -
  let ?P = "parents (hier r)" and ?D = "desc r y"
  have P1: "parents (hier r1) = {(x, p) \<in> ?P. x \<notin> ?D}" using assms(1) by (simp add: removed_def)
  have closed: "x \<in> ?D" if "(x, p) \<in> ?P" "p \<in> ?D" for x p
    using that by (auto simp: desc_def intro: converse_rtrancl_into_rtrancl)
  have "(x, c) \<in> ?P\<^sup>* \<and> x \<notin> ?D" if "(x, c) \<in> (parents (hier r1))\<^sup>*" for x
    using that by (induction rule: converse_rtrancl_induct) (auto simp: P1 assms(2) intro: converse_rtrancl_into_rtrancl)
  moreover have "x \<notin> ?D \<longrightarrow> (x, c) \<in> (parents (hier r1))\<^sup>*" if "(x, c) \<in> ?P\<^sup>*" for x
    using that
  proof (induction rule: converse_rtrancl_induct)
    case (step x x')
    then show ?case using closed by (auto simp: P1 intro: converse_rtrancl_into_rtrancl)
  qed simp
  ultimately show ?thesis by (auto simp: desc_def)
qed

lemma desc_finite: "hier_ok r ch \<Longrightarrow> finite (desc r e)"
proof -
  assume ok: "hier_ok r ch"
  have "x \<in> insert e (dom (hier r))" if "(x, e) \<in> (parents (hier r))\<^sup>*" for x
    using that by (cases rule: converse_rtranclE) (auto simp: parents_simp)
  then show ?thesis using ok by (auto simp: desc_def hier_ok_def intro: finite_subset[of _ "insert e (dom (hier r))"])
qed

lemma desc_kids:
  assumes "hier_ok r ch"
  shows "desc r e = insert e (\<Union> (desc r ` set (ch e)))"
proof -
  have "(x, e) \<in> (parents (hier r))\<^sup>* \<longleftrightarrow> x = e \<or> (\<exists>c. (x, c) \<in> (parents (hier r))\<^sup>* \<and> c \<in> set (ch e))" for x
    using parents_children[of "hier r" ch _ e] assms by (metis hier_ok_def rtrancl.simps)
  then show ?thesis by (auto simp: desc_def)
qed

lemma parent_not_below:
  assumes "hier_ok r ch" "(c, e) \<in> parents (hier r)"
  shows "e \<notin> desc r c"
  using assms by (auto simp: desc_def hier_ok_def acyclic_def dest: rtrancl_into_trancl2)

lemma destroy_loop:
  fixes r :: "'a registry_scheme"
  assumes IH: "\<And>(r :: 'a registry_scheme) ch c. hier_ok r ch \<Longrightarrow> alive r c \<Longrightarrow> card (desc r c) < n \<Longrightarrow>
      \<exists>r'. destroy_walk r True (Some c) = ret r' \<and> removed (desc r c) r ch r'"
    and "hier_ok r ch" "ch p = cs" "\<forall>c \<in> set cs. card (desc r c) < n"
  shows "\<exists>r'. destroy_walk r False (head cs) = ret r' \<and> removed (\<Union> (desc r ` set cs)) r ch r'"
  using assms(2-)
proof (induction cs arbitrary: r ch)
  case Nil
  then show ?case using removed_empty[of r ch] by (simp add: destroy_walk.simps)
next
  case (Cons c cs)
  have f: "forest_links (hier r) ch" using Cons.prems(1) by (simp add: hier_ok_def)
  have par: "(d, p) \<in> parents (hier r)" if "d \<in> set (c # cs)" for d using parents_children[OF f] that Cons.prems(2) by simp
  have nd: "c \<notin> set cs" using forest_linksD(2)[OF f, of p] Cons.prems(2) by simp
  obtain h where h: "hier r c = Some h" "h_next h = head cs"
    using chain_forest[OF f, of p "[]" "c # cs"] Cons.prems(2) by auto
  obtain r1 where r1: "destroy_walk r True (Some c) = ret r1" "removed (desc r c) r ch r1"
    using IH[OF Cons.prems(1), of c] child_alive[OF Cons.prems(1), of c p] Cons.prems(2,3) by auto
  have other: "d \<notin> desc r c" if "d \<in> set cs" for d
    using child_subtrees_disjoint[OF Cons.prems(1) par par, of c d d] that nd by auto
  have "p \<notin> desc r c" using parent_not_below[OF Cons.prems(1) par, of c] by simp
  then have kids: "prune (desc r c) ch p = cs" using Cons.prems(2) other by (simp add: prune_def)
  have ok1: "hier_ok r1 (prune (desc r c) ch)" using r1(2) by (simp add: removed_def)
  have d1: "desc r1 d = desc r d - desc r c" if "d \<in> set cs" for d using desc_removed[OF r1(2) other[OF that]] .
  have "card (desc r1 d) < n" if "d \<in> set cs" for d
  proof -
    have "card (desc r1 d) \<le> card (desc r d)" unfolding d1[OF that] by (rule card_mono[OF desc_finite[OF Cons.prems(1)]]) auto
    then show ?thesis using Cons.prems(3) that by fastforce
  qed
  then obtain r2 where r2: "destroy_walk r1 False (head cs) = ret r2" "removed (\<Union> (desc r1 ` set cs)) r1 (prune (desc r c) ch) r2"
    using Cons.IH[OF ok1 kids] by auto
  have "desc r c \<union> \<Union> (desc r1 ` set cs) = \<Union> (desc r ` set (c # cs))" using d1 by auto
  then have "removed (\<Union> (desc r ` set (c # cs))) r ch r2" using removed_trans[OF r1(2) r2(2)] by simp
  then show ?case using r1(1) r2(1) h by (subst destroy_walk.simps) simp
qed

lemma destroy_subtree:
  "hier_ok r ch \<Longrightarrow> alive r e \<Longrightarrow> \<exists>r'. destroy_walk r True (Some e) = ret r' \<and> removed (desc r e) r ch r'"
proof (induction "card (desc r e)" arbitrary: r ch e rule: less_induct)
  case less
  have f: "forest_links (hier r) ch" using less.prems(1) by (simp add: hier_ok_def)
  let ?K = "\<Union> (desc r ` set (ch e))"
  have e: "e \<notin> ?K" using parent_not_below[OF less.prems(1)] parents_children[OF f] by auto
  have "card (desc r c) < card (desc r e)" if "c \<in> set (ch e)" for c
    using that e desc_kids[OF less.prems(1), of e]
    by (intro psubset_card_mono[OF desc_finite[OF less.prems(1)]] psubsetI) (blast, use desc_refl in blast)
  then obtain r1 where r1: "destroy_walk r False (head (ch e)) = ret r1" "removed ?K r ch r1"
    using destroy_loop[OF less.hyps less.prems(1) refl] by blast
  have "(case hier r e of Some h \<Rightarrow> h_first h | None \<Rightarrow> None) = head (ch e)"
    using forest_linksD(1,5)[OF f, of e] by (auto simp: linked_def split: option.split)
  then have w: "destroy_walk r True (Some e) = Some (destroy r1 e)" using r1(1) by (subst destroy_walk.simps) simp
  have "prune ?K ch e = []" using e by (auto simp: prune_def filter_empty_conv intro: desc_refl)
  then obtain r2 where "destroy r1 e = Inr r2" "removed {e} r1 (prune ?K ch) r2"
    using destroy_leaf[of r1 "prune ?K ch" e] r1(2) less.prems(2) e by (auto simp: removed_def)
  then show ?case using w removed_trans[OF r1(2), of "{e}" r2] desc_kids[OF less.prems(1), of e]
    by (simp add: ret_def Un_insert_right)
qed

section \<open>Properties of the window\<close>

text \<open>
  C38: Deleting an entity in a well linked hierarchy returns and removes exactly the entity and its descendants with their components; the
  hierarchy stays well linked and the others keep their places and names. The selection is taken away only from the entity itself:
  a selected descendant stays selected although it no longer lives.
\<close>

theorem delete_removes_subtree:
  assumes "hier_ok (ed_registry s) ch" "alive (ed_registry s) node"
  shows "\<exists>s'. choose_entry node DeleteEntry s = ret s' \<and> removed (desc (ed_registry s) node) (ed_registry s) ch (ed_registry s') \<and>
    (\<forall>x. selectedNode s = Some x \<longrightarrow>
       (if x = node then selectedNode s' = None
        else selectedNode s' = Some x \<and> (x \<in> desc (ed_registry s) node \<longrightarrow> \<not> alive (ed_registry s') x)))"
proof -
  have r: "ed_registry (deselect node s) = ed_registry s" by (simp add: deselect_def setSelected_def)
  obtain r' where r': "destroyEntity (ed_registry s) node = ret r'" "removed (desc (ed_registry s) node) (ed_registry s) ch r'"
    using destroy_subtree[OF assms] by (auto simp: destroyEntity_def)
  let ?s = "settle ((deselect node s)\<lparr>ed_registry := r'\<rparr>)"
  have "choose_entry node DeleteEntry s = ret ?s" using r r'(1) by (simp add: choose_entry_def menu_def on_registry_def)
  then show ?thesis using r'(2) by (intro exI[of _ ?s]) (auto simp: deselect_def setSelected_def removed_def)
qed

definition family_editor :: "entity option \<Rightarrow> editor" where
  "family_editor sel = \<lparr>ed_registry = family, ed_next = 10, selectedNode = sel, prevSelectedNode = None, copiedNode = Some 4,
     cutCopyEntity = False, doubleClickedEntity = None, droppedEntity = None, pool_capacity = 4, pool_generation = 0, pool_growth = (\<lambda>n. 2 * n)\<rparr>"

lemma family_desc: "(x, p) \<in> parents (hier family) \<longleftrightarrow> (x, p) \<in> {(2, 1), (3, 2), (4, 1)}"
  by (auto simp: parents_def family_def)

theorem delete_removes_subtree_witness:
  "\<exists>s'. choose_entry 2 DeleteEntry (family_editor (Some 3)) = ret s' \<and> selectedNode s' = Some 3 \<and> \<not> alive (ed_registry s') 3 \<and>
     hier_ok (ed_registry s') (prune (desc family 2) ((\<lambda>_. [])(1 := [2, 4], 2 := [3])))"
proof -
  have "3 \<in> desc family 2" by (simp add: desc_def family_desc r_into_rtrancl)
  then show ?thesis
    using delete_removes_subtree[of "family_editor (Some 3)" "(\<lambda>_. [])(1 := [2, 4], 2 := [3])" 2] family_ok
    by (auto simp: family_editor_def removed_def family_def)
qed

text \<open>Taking an entity out of the list of its parent.\<close>

lemma reparent_to_root:
  assumes "hier_ok r ch" "hier r e = Some h"
  shows "\<exists>m. reparent r e None = ret (r\<lparr>hier := m\<rparr>) \<and> hier_ok (r\<lparr>hier := m\<rparr>) (leave ch e) \<and> m e = Some (orphan h) \<and>
    parents m = parents (hier r) - {(e, p) | p. True}"
proof -
  obtain m where m: "onDestroy r e = Inr (r\<lparr>hier := m\<rparr>)" "m e = Some h" "hier_ok (r\<lparr>hier := m(e \<mapsto> orphan h)\<rparr>) (leave ch e)"
    "parents (m(e \<mapsto> orphan h)) = parents (hier r) - {(e, p) | p. True}" using detach_ok[OF assms] .
  then show ?thesis
    by (intro exI[of _ "m(e \<mapsto> orphan h)"]) (simp add: reparent_def modify_def orphan_def ret_def)
qed

lemma desc_detached:
  assumes "parents (hier r') = parents (hier r) - {(e, p) | p. True}"
  shows "desc r' e = desc r e"
proof -
  have "(x, e) \<in> (parents (hier r'))\<^sup>*" if "(x, e) \<in> (parents (hier r))\<^sup>*" for x
    using that
  proof (induction rule: converse_rtrancl_induct)
    case (step x y)
    then show ?case using assms by (cases "x = e") (auto intro: converse_rtrancl_into_rtrancl)
  qed simp
  moreover have "(x, e) \<in> (parents (hier r))\<^sup>*" if "(x, e) \<in> (parents (hier r'))\<^sup>*" for x
    using that rtrancl_mono[of "parents (hier r')" "parents (hier r)"] assms by blast
  ultimately show ?thesis by (auto simp: desc_def)
qed

lemma shown_all: "shown_from (\<lambda>_. True) (\<lambda>_. True) r e = desc r e"
proof -
  have "opens (\<lambda>_. True) (\<lambda>_. True) r = (parents (hier r))\<inverse>" by (auto simp: opens_def)
  then show ?thesis by (auto simp: shown_from_def desc_def rtrancl_converse)
qed

text \<open>
  Dropping a child onto the free part of the panel makes it a root and removes its component. No entity dies, but if it has children
  the window then shows every living entity except its descendants: they still name it as their parent, and it no longer has
  links to them; the hierarchy is not well linked any more.
\<close>

theorem panel_drop_loses_children:
  assumes ok: "hier_ok (ed_registry s) ch" and e: "e \<in> set (ch p)" and es: "distinct es" "set es = {x. alive (ed_registry s) x}"
  shows "\<exists>s'. drop_on_panel e s = ret s' \<and> alive (ed_registry s') = alive (ed_registry s) \<and> hier (ed_registry s') e = None \<and>
    (\<exists>xs. draw_roots (\<lambda>_. True) (\<lambda>_. True) (ed_registry s') es = Some xs \<and> distinct xs \<and>
       set xs = {x. alive (ed_registry s) x} - (desc (ed_registry s) e - {e})) \<and>
    (ch e \<noteq> [] \<longrightarrow> \<not> hier_inv (ed_registry s'))"
proof -
  let ?r = "ed_registry s"
  have f: "forest_links (hier ?r) ch" using ok by (simp add: hier_ok_def)
  obtain h where h: "hier ?r e = Some h" "h_parent h = Some p" using forest_linksD(3)[OF f e] by blast
  obtain m where m: "reparent ?r e None = ret (?r\<lparr>hier := m\<rparr>)" "hier_ok (?r\<lparr>hier := m\<rparr>) (leave ch e)" "m e = Some (orphan h)"
    "parents m = parents (hier ?r) - {(e, p) | p. True}" using reparent_to_root[OF ok h(1)] by blast
  let ?r2 = "?r\<lparr>hier := m\<rparr>" and ?r3 = "?r\<lparr>hier := m(e := None)\<rparr>"
  have "onDestroy ?r2 e = Inr ?r2" using m(3) by (simp add: onDestroy_def orphan_def leave_parent_def)
  then have run: "drop_on_panel e s = ret (settle ((settle (s\<lparr>ed_registry := ?r2\<rparr>))\<lparr>ed_registry := ?r3\<rparr>))"
    using h m(1) by (simp add: drop_on_panel_def on_registry_def remove_hierarchy_def ret_def[symmetric])
  have root: "is_root ?r3 x = is_root ?r2 x" "is_root ?r2 e" for x using m(3) by (auto simp: is_root_def orphan_def)
  have desc: "desc ?r2 e = desc ?r e" using desc_detached[of ?r2 ?r e] m(4) by simp
  define S where "S x = (if x = e then {e} else desc ?r2 x)" for x
  have draw: "\<exists>xs. drawNode (\<lambda>_. True) (\<lambda>_. True) ?r3 x = Some xs \<and> distinct xs \<and> set xs = S x \<and> S x \<subseteq> desc ?r2 x"
    if "alive ?r x" "is_root ?r2 x" for x
  proof (cases "x = e")
    case True
    then show ?thesis using that(1) by (auto simp: drawNode_def S_def draw_walk.simps[of _ _ ?r3 True])
  next
    case False
    then have "e \<notin> desc ?r2 x" using above_root[OF root(2), of x] by (auto simp: desc_def)
    then have "agree ?r2 ?r3 (desc ?r2 x)" by (auto simp: agree_def)
    then show ?thesis using draw_subtree[OF m(2), of x ?r3 "\<lambda>_. True" "\<lambda>_. True"] that False
      by (auto simp: S_def drawNode_def shown_all)
  qed
  obtain xs where xs: "draw_roots (\<lambda>_. True) (\<lambda>_. True) ?r3 es = Some xs" "distinct xs" "set xs = \<Union> (S ` {x \<in> set es. is_root ?r2 x})"
    using draw_roots_of[OF es(1), of ?r3 ?r2 "\<lambda>_. True" "\<lambda>_. True" S] es(2) draw root by auto
  have all: "\<Union> (desc ?r2 ` {x. alive ?r x \<and> is_root ?r2 x}) = {x. alive ?r x}"
    using shown_visible[OF m(2), of "\<lambda>_. True" "\<lambda>_. True"] by (simp add: shown_all visible_def)
  have "alive ?r e" using child_alive[OF ok e] by simp
  have "x \<in> set xs \<longleftrightarrow> alive ?r x \<and> (x \<in> desc ?r2 e \<longrightarrow> x = e)" for x
  proof -
    have "x \<in> set xs \<longleftrightarrow> (\<exists>d. alive ?r d \<and> is_root ?r2 d \<and> x \<in> S d)" using xs(3) es(2) by auto
    also have "\<dots> \<longleftrightarrow> x = e \<or> (\<exists>d. d \<noteq> e \<and> alive ?r d \<and> is_root ?r2 d \<and> x \<in> desc ?r2 d)"
      using \<open>alive ?r e\<close> root(2) by (auto simp: S_def)
    also have "\<dots> \<longleftrightarrow> x = e \<or> (\<exists>d. alive ?r d \<and> is_root ?r2 d \<and> x \<in> desc ?r2 d) \<and> x \<notin> desc ?r2 e"
      using roots_disjoint[OF root(2), of _ x] by metis
    also have "(\<exists>d. alive ?r d \<and> is_root ?r2 d \<and> x \<in> desc ?r2 d) \<longleftrightarrow> alive ?r x" using all by blast
    finally show ?thesis using \<open>alive ?r e\<close> by auto
  qed
  then have "set xs = {x. alive ?r x} - (desc ?r2 e - {e})" by auto
  moreover have "\<not> hier_inv ?r3" if ne: "ch e \<noteq> []"
  proof
    assume "hier_inv ?r3"
    then obtain ch' where f3: "forest_links (hier ?r3) ch'" by (auto simp: hier_inv_def hier_ok_def)
    obtain c where c: "c \<in> set (ch e)" using ne by (cases "ch e") auto
    have "(c, e) \<in> parents m" using c m(4) parents_children[OF f, of c e] parent_not_below[OF ok, of c e] by (auto simp: desc_def)
    then have "(c, e) \<in> parents (hier ?r3)" using parents_children[OF f, of e e] parent_not_below[OF ok, of e e] m(3)
      by (auto simp: parents_simp orphan_def)
    then show False using parents_children[OF f3, of c e] forest_linksD(4)[OF f3, of c e] by simp
  qed
  ultimately show ?thesis using run xs(1,2) desc by (intro exI[of _ "settle ((settle (s\<lparr>ed_registry := ?r2\<rparr>))\<lparr>ed_registry := ?r3\<rparr>)"]) auto
qed

theorem panel_drop_loses_children_witness:
  "\<exists>s' xs. drop_on_panel 2 (family_editor None) = ret s' \<and> alive (ed_registry s') 3 \<and>
     draw_roots (\<lambda>_. True) (\<lambda>_. True) (ed_registry s') [0, 1, 2, 3, 4, 5, 6, 7, 8, 9] = Some xs \<and> 3 \<notin> set xs \<and> \<not> hier_inv (ed_registry s')"
proof -
  let ?es = "[0, 1, 2, 3, 4, 5, 6, 7, 8, 9] :: nat list" and ?s = "family_editor None"
  let ?ch = "(\<lambda>_. [])(1 := [2, 4], 2 := [3]) :: nat \<Rightarrow> nat list"
  have es: "distinct ?es" "set ?es = {x. alive (ed_registry ?s) x}" by (auto simp: family_editor_def family_def)
  have ok: "hier_ok (ed_registry ?s) ?ch" using family_ok by (simp add: family_editor_def)
  have e: "2 \<in> set (?ch 1)" "?ch 2 \<noteq> []" by simp_all
  obtain s' xs where s': "drop_on_panel 2 ?s = ret s'" "alive (ed_registry s') = alive (ed_registry ?s)" "\<not> hier_inv (ed_registry s')"
    "draw_roots (\<lambda>_. True) (\<lambda>_. True) (ed_registry s') ?es = Some xs"
    "set xs = {x. alive (ed_registry ?s) x} - (desc (ed_registry ?s) 2 - {2})"
    using panel_drop_loses_children[OF ok e(1) es] e(2) by blast
  have "3 \<in> desc (ed_registry ?s) 2" by (simp add: family_editor_def desc_def family_desc r_into_rtrancl)
  then have "3 \<notin> set xs" using s'(5) by simp
  moreover have "alive (ed_registry s') 3" using s'(2) by (simp add: family_editor_def family_def)
  ultimately show ?thesis using s'(1,3,4) by blast
qed

section \<open>Sessions\<close>

text \<open>
  The window's own pop-up: every entry creates an entity with a name that is not in use yet and without a \<^verbatim>\<open>Hierarchy\<close>; of the shapes only
  the sphere and the cube do anything. The light, camera, sprite, mesh and transform components the entity gets are in pools of their own, which are not part of this state.
\<close>

datatype shape = Sphere | Cube | Pyramid | Capsule | Cylinder | Terrain | Quad

datatype popup_entry = AddEmptyEntity | AddLight | AddShape shape | AddCamera | AddSprite

fun popup_name :: "popup_entry \<Rightarrow> string option" where
  "popup_name AddEmptyEntity = Some ''Empty Entity''"
| "popup_name AddLight = Some ''Light''"
| "popup_name (AddShape Cube) = Some ''Cube''"
| "popup_name (AddShape Sphere) = Some ''Sphere''"
| "popup_name (AddShape _) = None"
| "popup_name AddCamera = Some ''Camera''"
| "popup_name AddSprite = Some ''Sprite''"

definition named_scene :: "editor \<Rightarrow> scene" where
  "named_scene s = (Scene '''')\<lparr>next_entity := ed_next s,
     named := map (\<lambda>e. (e, the (names (ed_registry s) e))) (filter (\<lambda>e. names (ed_registry s) e \<noteq> None) [0..<ed_next s])\<rparr>"

definition create_entity_named :: "string \<Rightarrow> editor \<Rightarrow> editor option" where
  "create_entity_named n s =
     do { i \<leftarrow> unique_loop (named_scene s) n (getEntityByName (named_scene s) n) 0;
          let (e, t) = create_entity s
          in Some (t\<lparr>ed_registry := (ed_registry t)\<lparr>names := (names (ed_registry t))(e \<mapsto> (if i = 0 then n else numbered n i))\<rparr>\<rparr>) }"

definition choose_popup :: "popup_entry \<Rightarrow> editor \<Rightarrow> editor run" where
  "choose_popup entry s = (case popup_name entry of
       None \<Rightarrow> ret s
     | Some n \<Rightarrow> do { t \<leftarrow> create_entity_named n s; ret t })"

text \<open>
  What the user does to a node while it is drawn, open or not. A node that was deleted, and so no longer lives, is not drawn further.
\<close>

datatype window_op =
    Popup popup_entry
  | SelectNode entity
  | ChooseEntry entity bool menu_entry
  | DropOnNode entity entity bool
  | DropOnWindow entity
  | DropOnPanel entity

fun window_step :: "window_op \<Rightarrow> editor \<Rightarrow> editor run" where
  "window_step (Popup entry) s = choose_popup entry s"
| "window_step (SelectNode e) s = ret (setSelected (Some e) s)"
| "window_step (ChooseEntry node nodeOpen entry) s = rbind (choose_entry node entry s)
     (\<lambda>t. if alive (ed_registry t) node then draw_children node nodeOpen s t else ret t)"
| "window_step (DropOnNode e node nodeOpen) s = rbind (drop_on_node e node s) (draw_children node nodeOpen s)"
| "window_step (DropOnWindow e) s = drop_on_window e s"
| "window_step (DropOnPanel e) s = drop_on_panel e s"

text \<open>The window offers living entities; an operation is harmless unless it drops an entity with children onto the panel.\<close>

fun offered :: "window_op \<Rightarrow> editor \<Rightarrow> bool" where
  "offered (Popup entry) s = True"
| "offered (SelectNode e) s = alive (ed_registry s) e"
| "offered (ChooseEntry e nodeOpen entry) s = alive (ed_registry s) e"
| "offered (DropOnNode e node nodeOpen) s = (alive (ed_registry s) e \<and> alive (ed_registry s) node)"
| "offered (DropOnWindow e) s = alive (ed_registry s) e"
| "offered (DropOnPanel e) s = alive (ed_registry s) e"

fun harmless :: "window_op \<Rightarrow> editor \<Rightarrow> bool" where
  "harmless (DropOnPanel e) s = (getChildren (ed_registry s) e = Some [])"
| "harmless _ s = True"

text \<open>
  The specification of the stale pointer: an open node with children whose menu or drop gives an entity a component when the pool is full.
  Of the menu these are the entry for a child and pasting, unless the cut deletes the node.
\<close>

fun gives_component :: "window_op \<Rightarrow> editor \<Rightarrow> bool" where
  "gives_component (ChooseEntry node nodeOpen entry) s =
     (entry = AddChildEntry \<or> entry = PasteEntry \<and> (\<exists>c. copiedNode s = Some c \<and> alive (ed_registry s) c) \<and> \<not> cutCopyEntity s)"
| "gives_component (DropOnNode e node nodeOpen) s = (e \<noteq> node \<and> hier (ed_registry s) e = None)"
| "gives_component _ s = False"

fun on_open_parent :: "window_op \<Rightarrow> editor \<Rightarrow> bool" where
  "on_open_parent (ChooseEntry node nodeOpen entry) s = (nodeOpen \<and> (\<exists>x. getParent (ed_registry s) x = Some node))"
| "on_open_parent (DropOnNode e node nodeOpen) s = (nodeOpen \<and> (\<exists>x. getParent (ed_registry s) x = Some node))"
| "on_open_parent _ s = False"

definition stale :: "window_op \<Rightarrow> editor \<Rightarrow> bool" where
  "stale op s \<longleftrightarrow> gives_component op s \<and> on_open_parent op s \<and> card (dom (hier (ed_registry s))) = pool_capacity s"

inductive session :: "editor \<Rightarrow> editor \<Rightarrow> bool" for s where
  start: "session s s"
| step: "session s t \<Longrightarrow> offered op t \<Longrightarrow> harmless op t \<Longrightarrow> window_step op t = ret u \<Longrightarrow> session s u"

text \<open>The links form a forest, and fresh handles are unused; the pool has room for its components, and grows to at least what it needs.\<close>

definition tree_ok :: "editor \<Rightarrow> bool" where
  "tree_ok s \<longleftrightarrow> hier_inv (ed_registry s) \<and> (\<forall>x \<ge> ed_next s. \<not> alive (ed_registry s) x)"

definition pool_ok :: "editor \<Rightarrow> bool" where
  "pool_ok s \<longleftrightarrow> card (dom (hier (ed_registry s))) \<le> pool_capacity s \<and> (\<forall>n. n \<le> pool_growth s n)"

definition editor_ok :: "editor \<Rightarrow> bool" where
  "editor_ok s \<longleftrightarrow> tree_ok s \<and> pool_ok s"

lemma tree_ok_same: "tree_ok s \<Longrightarrow> ed_registry t = ed_registry s \<Longrightarrow> ed_next t = ed_next s \<Longrightarrow> tree_ok t"
  by (simp add: tree_ok_def)

lemma tree_ok_settle [simp]: "tree_ok (settle s) = tree_ok s"
  by (simp add: tree_ok_def)

lemma pool_count_card:
  assumes "tree_ok s"
  shows "pool_count s = card (dom (hier (ed_registry s)))"
proof -
  have "dom (hier (ed_registry s)) = set (filter (\<lambda>e. hier (ed_registry s) e \<noteq> None) [0..<ed_next s])"
    using assms by (auto simp: tree_ok_def hier_inv_def hier_ok_def not_le[symmetric])
  then show ?thesis unfolding pool_count_def by (metis distinct_card distinct_filter distinct_upt)
qed

lemma settle_ok: "tree_ok s \<Longrightarrow> \<forall>n. n \<le> pool_growth s n \<Longrightarrow> editor_ok (settle s)"
  using pool_count_card[of s] by (auto simp: editor_ok_def pool_ok_def settle_def tree_ok_def)

text \<open>The pool has moved.\<close>

definition moved :: "editor \<Rightarrow> editor \<Rightarrow> bool" where
  "moved s t \<longleftrightarrow> pool_generation t \<noteq> pool_generation s"

lemma settle_moved: "pool_generation u = pool_generation s \<Longrightarrow> moved s (settle u) \<longleftrightarrow> pool_capacity u < pool_count u"
  by (auto simp: moved_def settle_def)

lemma deselect_fields [simp]:
  "ed_registry (deselect e s) = ed_registry s" "ed_next (deselect e s) = ed_next s" "pool_capacity (deselect e s) = pool_capacity s"
  "pool_growth (deselect e s) = pool_growth s" "pool_generation (deselect e s) = pool_generation s"
  "copiedNode (deselect e s) = copiedNode s" "cutCopyEntity (deselect e s) = cutCopyEntity s"
  by (simp_all add: deselect_def setSelected_def)

lemma deselect_ok [simp]: "editor_ok (deselect e s) = editor_ok s" "moved (deselect e s) t = moved s t" "moved s (deselect e t) = moved s t"
  by (simp_all add: editor_ok_def tree_ok_def pool_ok_def moved_def)

text \<open>Which entities have the component.\<close>

lemma modify_None [simp]: "modify e f m x = None \<longleftrightarrow> m x = None"
  by (simp add: modify_def split: option.splits)

lemma modify_opt_None [simp]: "modify_opt e f m x = None \<longleftrightarrow> m x = None"
  by (simp add: modify_opt_def split: option.splits)

lemma unlink_None [simp]: "unlink_first h p m x = None \<longleftrightarrow> m x = None" "unlink_after h q m x = None \<longleftrightarrow> m x = None"
  by (simp_all add: unlink_first_def unlink_after_def)

lemma dom_eqI: "(\<And>x. m x = None \<longleftrightarrow> m' x = None) \<Longrightarrow> dom m = dom m'"
  by (simp add: set_eq_iff domIff del: not_None_eq)

lemma onDestroy_dom:
  assumes "onDestroy r e = Inr r'"
  shows "dom (hier r') = dom (hier r)"
proof (rule dom_eqI)
  show "hier r' x = None \<longleftrightarrow> hier r x = None" for x
    using assms by (auto simp: onDestroy_def leave_parent_def simp del: not_None_eq split: option.splits if_splits)
qed

lemma onConstruct_dom:
  assumes "onConstruct r e = ret r'" "\<forall>h p. hier r e = Some h \<longrightarrow> h_parent h = Some p \<longrightarrow> hier r p \<noteq> None"
  shows "dom (hier r') = dom (hier r)"
proof (rule dom_eqI)
  show "hier r' x = None \<longleftrightarrow> hier r x = None" for x
    using assms by (auto simp: onConstruct_def ret_def Let_def bind_eq_Some_conv simp del: not_None_eq split: option.splits if_splits)
qed

lemma emplace_dom:
  assumes "emplace_hierarchy r e (Some p) = ret r'" "hier r p \<noteq> None"
  shows "dom (hier r') = insert e (dom (hier r))"
  using onConstruct_dom[OF assms(1)[unfolded emplace_hierarchy_def]] assms(2) by (auto simp: Hierarchy_def)

lemma reparent_dom:
  assumes "reparent r e (Some p) = ret r'" "hier r p \<noteq> None"
  shows "dom (hier r') = dom (hier r)"
proof -
  obtain r1 where r1: "onDestroy r e = Inr r1" using assms(1) by (auto simp: reparent_def ret_def split: sum.splits)
  have d: "dom (hier r1) = dom (hier r)" by (rule onDestroy_dom[OF r1])
  let ?f = "\<lambda>h. h\<lparr>h_parent := None, h_next := None, h_prev := None\<rparr>" and ?g = "\<lambda>h. h\<lparr>h_parent := Some p\<rparr>"
  let ?r = "r1\<lparr>hier := modify e ?g (modify e ?f (hier r1))\<rparr>"
  have "onConstruct ?r e = ret r'" using assms(1) r1 by (simp add: reparent_def Let_def)
  moreover have "hier r1 p \<noteq> None" using assms(2) d by (metis domIff)
  then have "hier ?r p \<noteq> None" by (simp del: not_None_eq)
  moreover have "q = p" if "hier ?r e = Some h" "h_parent h = Some q" for h q
    using that by (cases "hier r1 e") (auto simp: modify_def)
  ultimately have "dom (hier r') = dom (hier ?r)" by (intro onConstruct_dom) blast+
  also have "\<dots> = dom (hier r1)" by (rule dom_eqI) (simp del: not_None_eq)
  finally show ?thesis using d by simp
qed

lemma getParent_parents: "getParent r x = Some p \<longleftrightarrow> (x, p) \<in> parents (hier r)"
  by (cases "hier r x") (auto simp: getParent_def parents_simp)

lemma has_children_iff:
  assumes "tree_ok s"
  shows "has_children (ed_registry s) node \<longleftrightarrow> (\<exists>x. getParent (ed_registry s) x = Some node)"
proof -
  obtain ch where ok: "hier_ok (ed_registry s) ch" using assms by (auto simp: tree_ok_def hier_inv_def)
  then have f: "forest_links (hier (ed_registry s)) ch" by (simp add: hier_ok_def)
  have "has_children (ed_registry s) node \<longleftrightarrow> ch node \<noteq> []"
    using forest_linksD(1,5)[OF f, of node] by (auto simp: has_children_def linked_def split: option.splits)
  also have "\<dots> \<longleftrightarrow> (\<exists>x. (x, node) \<in> parents (hier (ed_registry s)))"
    using parents_children[OF f, of _ node] by (metis list.set_intros(1) neq_Nil_conv empty_iff list.set(1))
  finally show ?thesis by (simp add: getParent_parents)
qed

lemma create_ok:
  assumes "tree_ok s"
  shows "tree_ok (snd (create_entity s))" "alive (ed_registry (snd (create_entity s))) (ed_next s)"
  using assms by (auto simp: tree_ok_def hier_inv_def hier_ok_def create_entity_def)

lemma create_pool: "editor_ok s \<Longrightarrow> editor_ok (snd (create_entity s))"
  using create_ok(1)[of s] by (simp add: editor_ok_def pool_ok_def create_entity_def)

text \<open>A new component for an entity under one that has it: one more in the pool.\<close>

lemma pool_grown:
  assumes s: "tree_ok s" and u: "tree_ok u" "dom (hier (ed_registry u)) = insert e (dom (hier (ed_registry s)))" "hier (ed_registry s) e = None"
  shows "pool_count u = Suc (card (dom (hier (ed_registry s))))"
proof -
  have "finite (dom (hier (ed_registry s)))" using s by (auto simp: tree_ok_def hier_inv_def hier_ok_def)
  then show ?thesis using pool_count_card[OF u(1)] u(2,3) by (simp add: domIff)
qed

lemma setParent_new:
  assumes "tree_ok s" "hier (ed_registry s) e = None" "alive (ed_registry s) e" "alive (ed_registry s) p" "p \<noteq> e"
  shows "\<exists>r. setParent (ed_registry s) e (Some p) = ret r \<and> tree_ok (s\<lparr>ed_registry := r\<rparr>) \<and> alive r = alive (ed_registry s) \<and>
    (hier (ed_registry s) p \<noteq> None \<longrightarrow> dom (hier r) = insert e (dom (hier (ed_registry s))))"
proof -
  obtain ch where ok: "hier_ok (ed_registry s) ch" using assms(1) by (auto simp: tree_ok_def hier_inv_def)
  obtain m where m: "emplace_hierarchy (ed_registry s) e (Some p) = ret ((ed_registry s)\<lparr>hier := m\<rparr>)"
    "hier_inv ((ed_registry s)\<lparr>hier := m\<rparr>)"
    using emplace_ok[OF ok assms(2,3,5,4)] unfolding hier_inv_def ret_def by blast
  then show ?thesis using assms(1,2,5) emplace_dom[OF m(1)] by (auto simp: setParent_def tree_ok_def)
qed

lemma child_added:
  assumes "editor_ok s" "alive (ed_registry s) p"
  shows "\<exists>u. add_child p s = ret u \<and> editor_ok u \<and> alive (ed_registry u) p \<and> cutCopyEntity u = cutCopyEntity s \<and>
    (hier (ed_registry s) p \<noteq> None \<longrightarrow> (moved s u \<longleftrightarrow> card (dom (hier (ed_registry s))) = pool_capacity s))"
proof -
  let ?c = "snd (create_entity s)"
  have s: "tree_ok s" "pool_ok s" using assms(1) by (simp_all add: editor_ok_def)
  have c: "tree_ok ?c" "alive (ed_registry ?c) (ed_next s)" "alive (ed_registry ?c) p" "hier (ed_registry ?c) = hier (ed_registry s)"
    using create_ok[OF s(1)] assms(2) by (simp_all add: create_entity_def)
  have n: "hier (ed_registry s) (ed_next s) = None" "p \<noteq> ed_next s"
    using s(1) assms(2) by (auto simp: tree_ok_def hier_inv_def hier_ok_def)
  obtain r where r: "setParent (ed_registry ?c) (ed_next s) (Some p) = ret r" "tree_ok (?c\<lparr>ed_registry := r\<rparr>)"
    "alive r = alive (ed_registry ?c)" "hier (ed_registry s) p \<noteq> None \<longrightarrow> dom (hier r) = insert (ed_next s) (dom (hier (ed_registry s)))"
    using setParent_new[OF c(1) _ c(2,3) n(2)] n(1) c(4) by auto
  let ?u = "settle (?c\<lparr>ed_registry := r\<rparr>)"
  have run: "add_child p s = ret ?u" using r(1) by (simp add: add_child_def create_entity_def on_registry_def)
  have "editor_ok ?u" using s(2) by (intro settle_ok[OF r(2)]) (simp add: pool_ok_def create_entity_def)
  moreover have "moved s ?u \<longleftrightarrow> card (dom (hier (ed_registry s))) = pool_capacity s" if "hier (ed_registry s) p \<noteq> None"
  proof -
    have "pool_count (?c\<lparr>ed_registry := r\<rparr>) = Suc (card (dom (hier (ed_registry s))))"
      using pool_grown[OF s(1) r(2), of "ed_next s"] r(4) that n(1) by simp
    then show ?thesis using s(2) by (subst settle_moved) (auto simp: create_entity_def pool_ok_def)
  qed
  ultimately show ?thesis using run r(3) c(3) by (intro exI[of _ ?u]) (auto simp: create_entity_def)
qed

lemma duplicate_is_child: "duplicate_under c p s = add_child p s"
  by (simp add: duplicate_under_def add_child_def)

lemma delete_ok:
  assumes "editor_ok s" "alive (ed_registry s) e"
  shows "\<exists>u. on_registry (\<lambda>r. destroyEntity r e) s = ret u \<and> editor_ok u \<and> \<not> alive (ed_registry u) e"
proof -
  obtain ch where ok: "hier_ok (ed_registry s) ch" using assms(1) by (auto simp: editor_ok_def tree_ok_def hier_inv_def)
  obtain r where r: "destroyEntity (ed_registry s) e = ret r" "removed (desc (ed_registry s) e) (ed_registry s) ch r"
    using destroy_subtree[OF ok assms(2)] by (auto simp: destroyEntity_def)
  have "tree_ok (s\<lparr>ed_registry := r\<rparr>)" using r(2) assms(1) by (auto simp: editor_ok_def tree_ok_def removed_def hier_inv_def)
  then have "editor_ok (settle (s\<lparr>ed_registry := r\<rparr>))" using assms(1) by (intro settle_ok) (simp_all add: editor_ok_def pool_ok_def)
  then show ?thesis using r by (auto simp: on_registry_def removed_def)
qed

text \<open>A menu that gives a component does not delete its node.\<close>

lemma kept_alive:
  assumes "editor_ok s" "alive (ed_registry s) e" "choose_entry e entry s = ret u" "gives_component (ChooseEntry e nodeOpen entry) s"
  shows "alive (ed_registry u) e"
  using assms(3,4) child_added[OF assms(1,2)] child_added[of "deselect e s" e] assms(1,2)
  by (auto simp: choose_entry_def menu_def paste_def duplicate_is_child)

text \<open>An entry of the menu, with the deletion behind it.\<close>

lemma entry_ok:
  assumes "editor_ok s" "alive (ed_registry s) e"
  shows "\<exists>u. choose_entry e entry s = ret u \<and> editor_ok u \<and>
    (alive (ed_registry u) e \<longrightarrow> hier (ed_registry s) e \<noteq> None \<longrightarrow>
       (moved s u \<longleftrightarrow> gives_component (ChooseEntry e nodeOpen entry) s \<and> card (dom (hier (ed_registry s))) = pool_capacity s))"
proof (cases entry)
  case PasteEntry
  show ?thesis
  proof (cases "\<exists>c. copiedNode s = Some c \<and> alive (ed_registry s) c")
    case True
    obtain u where u: "add_child e s = ret u" "editor_ok u" "alive (ed_registry u) e" "cutCopyEntity u = cutCopyEntity s"
      "hier (ed_registry s) e \<noteq> None \<longrightarrow> (moved s u \<longleftrightarrow> card (dom (hier (ed_registry s))) = pool_capacity s)"
      using child_added[OF assms] by blast
    have m: "menu e PasteEntry s = ret (cutCopyEntity s, deselect e u)" using u(1,4) True
      by (auto simp: menu_def paste_def duplicate_is_child)
    show ?thesis
    proof (cases "cutCopyEntity s")
      case True
      then show ?thesis using delete_ok[of "deselect e u" e] u(2,3) m PasteEntry by (auto simp: choose_entry_def)
    next
      case False
      then show ?thesis using u m True PasteEntry by (simp add: choose_entry_def)
    qed
  next
    case False
    then have "choose_entry e entry s = ret (deselect e s)" using PasteEntry
      by (auto simp: choose_entry_def menu_def paste_def split: option.split)
    then show ?thesis using False PasteEntry assms(1) by (auto simp: moved_def)
  qed
next
  case AddChildEntry
  then show ?thesis using child_added[of "deselect e s" e] assms by (auto simp: choose_entry_def menu_def)
next
  case DuplicateEntry
  then show ?thesis using create_pool[OF assms(1)]
    by (auto simp: choose_entry_def menu_def duplicate_def moved_def create_entity_def)
next
  case DeleteEntry
  then show ?thesis using delete_ok[of "deselect e s" e] assms by (auto simp: choose_entry_def menu_def)
qed (use assms in \<open>auto simp: choose_entry_def menu_def setCopiedEntity_def moved_def editor_ok_def tree_ok_def pool_ok_def deselect_def setSelected_def\<close>)

lemma isParentOfEntity_forest:
  assumes "hier_ok r ch"
  shows "isParentOfEntity r e node = Some ((node, e) \<in> (parents (hier r))\<^sup>+)"
  using isParent_forest[OF assms, of node e] by (simp add: isParentOfEntity_def isParent_def)

lemma drop_node_ok:
  assumes "editor_ok s" "alive (ed_registry s) e" "alive (ed_registry s) node"
  shows "\<exists>u. drop_on_node e node s = ret u \<and> editor_ok u \<and>
    (hier (ed_registry s) node \<noteq> None \<longrightarrow>
       (moved s u \<longleftrightarrow> gives_component (DropOnNode e node nodeOpen) s \<and> card (dom (hier (ed_registry s))) = pool_capacity s))"
proof -
  let ?r = "ed_registry s"
  obtain ch where ok: "hier_ok ?r ch" using assms(1) by (auto simp: editor_ok_def tree_ok_def hier_inv_def)
  have s: "tree_ok s" "pool_ok s" using assms(1) by (simp_all add: editor_ok_def)
  have same: ?thesis if "drop_on_node e node s = ret s" "\<not> gives_component (DropOnNode e node nodeOpen) s"
    using that assms(1) by (auto simp: moved_def)
  let ?u = "\<lambda>m. s\<lparr>ed_registry := ?r\<lparr>hier := m\<rparr>, droppedEntity := Some node\<rparr>"
  have settled: "editor_ok (settle (?u m))" "pool_generation (?u m) = pool_generation s" "tree_ok (?u m)"
    if "hier_inv (?r\<lparr>hier := m\<rparr>)" for m
  proof -
    show t: "tree_ok (?u m)" using that s(1) by (simp add: tree_ok_def)
    show "editor_ok (settle (?u m))" using s(2) by (intro settle_ok[OF t]) (simp add: pool_ok_def)
  qed simp
  show ?thesis
  proof (cases "hier ?r e")
    case None
    show ?thesis
    proof (cases "e = node")
      case True
      then show ?thesis using None by (intro same) (simp_all add: drop_on_node_def)
    next
      case False
      obtain m where m: "emplace_hierarchy ?r e (Some node) = ret (?r\<lparr>hier := m\<rparr>)" "hier_inv (?r\<lparr>hier := m\<rparr>)"
        using emplace_ok[OF ok None assms(2) False[symmetric] assms(3)] unfolding hier_inv_def ret_def by blast
      have "moved s (settle (?u m)) \<longleftrightarrow> card (dom (hier ?r)) = pool_capacity s" if "hier ?r node \<noteq> None"
        using pool_grown[OF s(1) settled(3)[OF m(2)], of e] emplace_dom[OF m(1) that] None s(2)
        by (subst settle_moved[OF settled(2)[OF m(2)]]) (auto simp: pool_ok_def)
      then show ?thesis using None False m(1) settled(1)[OF m(2)] by (simp add: drop_on_node_def)
    qed
  next
    case (Some h)
    let ?go = "e \<noteq> node \<and> (node, e) \<notin> (parents (hier ?r))\<^sup>+ \<and> h_parent h \<noteq> Some node"
    have step: "drop_on_node e node s = (if ?go then rbind (reparent ?r e (Some node))
        (\<lambda>r. ret (settle (s\<lparr>ed_registry := r, droppedEntity := Some node\<rparr>))) else ret s)"
      using Some isParentOfEntity_forest[OF ok, of e node] by (auto simp: drop_on_node_def Let_def)
    show ?thesis
    proof (cases ?go)
      case False
      show ?thesis by (rule same) (use False Some step in \<open>auto\<close>)
    next
      case True
      then have ne: "node \<noteq> e" "(node, e) \<notin> (parents (hier ?r))\<^sup>+" by auto
      obtain m where m: "reparent ?r e (Some node) = ret (?r\<lparr>hier := m\<rparr>)" "hier_inv (?r\<lparr>hier := m\<rparr>)"
        using reparent_ok[OF ok Some ne(1) assms(3) ne(2)] unfolding hier_inv_def ret_def by blast
      have "\<not> moved s (settle (?u m))" if "hier ?r node \<noteq> None"
        using pool_count_card[OF settled(3)[OF m(2)]] reparent_dom[OF m(1) that] s(2)
        by (subst settle_moved[OF settled(2)[OF m(2)]]) (simp add: pool_ok_def)
      then show ?thesis using True Some m(1) settled(1)[OF m(2)] step by simp
    qed
  qed
qed

lemma registry_changed:
  assumes "editor_ok s" "hier_ok r ch" "alive r = alive (ed_registry s)"
  shows "editor_ok (settle (s\<lparr>ed_registry := r\<rparr>))"
proof -
  have "tree_ok (s\<lparr>ed_registry := r\<rparr>)" using assms by (auto simp: editor_ok_def tree_ok_def hier_inv_def)
  then show ?thesis using assms(1) by (intro settle_ok) (simp_all add: editor_ok_def pool_ok_def)
qed

lemma drop_window_ok:
  assumes "editor_ok s"
  shows "\<exists>u. drop_on_window e s = ret u \<and> editor_ok u"
proof -
  obtain ch where ok: "hier_ok (ed_registry s) ch" using assms(1) by (auto simp: editor_ok_def tree_ok_def hier_inv_def)
  show ?thesis
  proof (cases "hier (ed_registry s) e")
    case (Some h)
    then show ?thesis using reparent_to_root[OF ok Some] registry_changed[OF assms]
      by (fastforce simp: drop_on_window_def on_registry_def)
  qed (use assms in \<open>simp add: drop_on_window_def\<close>)
qed

lemma drop_panel_ok:
  assumes "editor_ok s"
  shows "\<exists>u. drop_on_panel e s = ret u \<and> (getChildren (ed_registry s) e = Some [] \<longrightarrow> editor_ok u)"
proof -
  let ?r = "ed_registry s"
  obtain ch where ok: "hier_ok ?r ch" using assms(1) by (auto simp: editor_ok_def tree_ok_def hier_inv_def)
  show ?thesis
  proof (cases "\<exists>h p. hier ?r e = Some h \<and> h_parent h = Some p")
    case False
    then show ?thesis using assms by (auto simp: drop_on_panel_def split: option.split)
  next
    case True
    then obtain h p where h: "hier ?r e = Some h" "h_parent h = Some p" by blast
    obtain m where m: "reparent ?r e None = ret (?r\<lparr>hier := m\<rparr>)" "hier_ok (?r\<lparr>hier := m\<rparr>) (leave ch e)" "m e = Some (orphan h)"
      using reparent_to_root[OF ok h(1)] by blast
    have "onDestroy (?r\<lparr>hier := m\<rparr>) e = Inr (?r\<lparr>hier := m\<rparr>)" using m(3) by (simp add: onDestroy_def orphan_def leave_parent_def)
    let ?s = "settle (s\<lparr>ed_registry := ?r\<lparr>hier := m\<rparr>\<rparr>)" and ?r' = "?r\<lparr>hier := m(e := None)\<rparr>"
    have run: "drop_on_panel e s = ret (settle (?s\<lparr>ed_registry := ?r'\<rparr>))"
      using h m(1) \<open>onDestroy _ e = _\<close> by (simp add: drop_on_panel_def on_registry_def remove_hierarchy_def ret_def[symmetric])
    have "hier_ok ?r' (leave ch e)" if "ch e = []"
    proof -
      have f: "forest_links m (leave ch e)" using m(2) by (simp add: hier_ok_def)
      have "leave ch e e = []" using that by (simp add: leave_def)
      from drop_lonely[OF f m(3) _ this] show ?thesis using m(2)
        by (auto simp: hier_ok_def orphan_def intro: finite_subset[of _ "dom m"])
    qed
    then have "getChildren ?r e = Some [] \<longrightarrow> editor_ok (settle (?s\<lparr>ed_registry := ?r'\<rparr>))"
      using getChildren_forest[OF ok, of e] registry_changed[of ?s ?r'] registry_changed[OF assms m(2)] by auto
    then show ?thesis using run by blast
  qed
qed

lemma popup_ok:
  assumes "editor_ok s"
  shows "\<exists>u. choose_popup entry s = ret u \<and> editor_ok u"
proof (cases "popup_name entry")
  case None
  then show ?thesis using assms by (simp add: choose_popup_def)
next
  case (Some n)
  obtain i where "unique_loop (named_scene s) n (getEntityByName (named_scene s) n) 0 = Some i" using unique_loop_ends by blast
  then have run: "choose_popup entry s = ret (let c = snd (create_entity s) in c\<lparr>ed_registry := (ed_registry c)
      \<lparr>names := (names (ed_registry c))(ed_next s \<mapsto> (if i = 0 then n else numbered n i))\<rparr>\<rparr>)" (is "_ = ret ?u")
    using Some by (simp add: choose_popup_def create_entity_named_def create_entity_def)
  have "editor_ok ?u" using create_pool[OF assms]
    by (auto simp: Let_def editor_ok_def tree_ok_def pool_ok_def hier_inv_def hier_ok_def)
  then show ?thesis using run by blast
qed

lemma step_ok:
  assumes "editor_ok t" "offered op t"
  shows "if stale op t then window_step op t = fail Dangling
    else \<exists>u. window_step op t = ret u \<and> (harmless op t \<longrightarrow> editor_ok u)"
proof -
  have kids: "has_children (ed_registry t) node \<longleftrightarrow> (\<exists>x. getParent (ed_registry t) x = Some node)" for node
    using has_children_iff assms(1) by (simp add: editor_ok_def)
  have hier: "hier (ed_registry t) node \<noteq> None" if "has_children (ed_registry t) node" for node
    using that by (auto simp: has_children_def split: option.splits)
  show ?thesis
  proof (cases op)
    case (ChooseEntry node nodeOpen entry)
    obtain u where u: "choose_entry node entry t = ret u" "editor_ok u"
      "alive (ed_registry u) node \<longrightarrow> hier (ed_registry t) node \<noteq> None \<longrightarrow>
       (moved t u \<longleftrightarrow> gives_component op t \<and> card (dom (hier (ed_registry t))) = pool_capacity t)"
      using entry_ok[OF assms(1), of node entry nodeOpen] assms(2) ChooseEntry by auto
    have live: "alive (ed_registry u) node" if "gives_component op t"
      using that u(1) assms(2) kept_alive[OF assms(1), of node entry u nodeOpen] ChooseEntry by (simp del: gives_component.simps)
    show ?thesis
    proof (cases "alive (ed_registry u) node")
      case True
      then show ?thesis using u ChooseEntry kids[of node] hier[of node]
        by (auto simp: stale_def draw_children_def moved_def simp del: gives_component.simps)
    next
      case False
      then show ?thesis using live u(1,2) ChooseEntry by (auto simp: stale_def simp del: gives_component.simps)
    qed
  next
    case (DropOnNode e node nodeOpen)
    obtain u where u: "drop_on_node e node t = ret u" "editor_ok u"
      "hier (ed_registry t) node \<noteq> None \<longrightarrow>
       (moved t u \<longleftrightarrow> gives_component op t \<and> card (dom (hier (ed_registry t))) = pool_capacity t)"
      using drop_node_ok[OF assms(1), of e node nodeOpen] assms(2) DropOnNode by auto
    then show ?thesis using DropOnNode kids[of node] hier[of node]
      by (auto simp: stale_def draw_children_def moved_def simp del: gives_component.simps)
  next
    case (DropOnPanel e)
    then show ?thesis using drop_panel_ok[OF assms(1)] by (simp add: stale_def)
  next
    case (DropOnWindow e)
    then show ?thesis using drop_window_ok[OF assms(1)] by (simp add: stale_def)
  next
    case (SelectNode e)
    then show ?thesis using assms(1) by (auto simp: stale_def setSelected_def editor_ok_def tree_ok_def pool_ok_def)
  next
    case (Popup entry)
    then show ?thesis using popup_ok[OF assms(1)] by (simp add: stale_def)
  qed
qed

text \<open>
  C37: Take an editor whose hierarchy is well linked, whose fresh handles are unused and whose pool holds its components. Over every sequence of entries of the window's
  pop-up, selections, entries of the menu and drops on living entities, in which no entity with children is dropped onto the panel, the hierarchy stays a well linked forest. Whatever the window offers then
  returns, and keeps the forest under the same restriction, with one exception: when the pool of the components is full,
  adding or pasting a child or dropping an entity without component on an open node that has children moves the components, and drawing
  the node's children follows the pointer to the old ones.
\<close>

theorem session_keeps_forest:
  assumes "editor_ok s" "session s t"
  shows "hier_inv (ed_registry t) \<and>
    (\<forall>op. offered op t \<longrightarrow>
       (if stale op t then window_step op t = fail Dangling
        else \<exists>u. window_step op t = ret u \<and> (harmless op t \<longrightarrow> hier_inv (ed_registry u))))"
proof -
  have t: "editor_ok t" using assms(2)
  proof (induction rule: session.induct)
    case (step t op u)
    then show ?case using step_ok[of t op] by (auto split: if_splits)
  qed (rule assms(1))
  have "hier_inv (ed_registry u)" if "editor_ok u" for u using that by (simp add: editor_ok_def tree_ok_def)
  then show ?thesis using t step_ok[OF t] by fastforce
qed

lemma family_editor_ok: "editor_ok (family_editor sel)"
proof -
  have "dom (hier family) \<subseteq> {1, 2, 3, 4}" by (auto simp: family_def split: if_splits)
  then have "card (dom (hier family)) \<le> 4" using card_mono[of "{1, 2, 3, 4}" "dom (hier family)"] by simp
  then show ?thesis using family_ok by (auto simp: editor_ok_def pool_ok_def tree_ok_def hier_inv_def family_editor_def family_def)
qed

theorem session_keeps_forest_witness:
  "(\<exists>t. session (family_editor None) t \<and> \<not> alive (ed_registry t) 3 \<and> hier_inv (ed_registry t)) \<and>
   window_step (ChooseEntry 1 True AddChildEntry) (family_editor None) = fail Dangling"
proof -
  let ?s = "family_editor None"
  obtain t where t: "choose_entry 2 DeleteEntry ?s = ret t" "removed (desc family 2) family ((\<lambda>_. [])(1 := [2, 4], 2 := [3])) (ed_registry t)"
  proof -
    obtain r' where "destroyEntity family 2 = ret r'" "removed (desc family 2) family ((\<lambda>_. [])(1 := [2, 4], 2 := [3])) r'"
      using destroy_subtree[OF family_ok, of 2] by (auto simp: destroyEntity_def family_def)
    then show thesis
      by (intro that[of "settle (?s\<lparr>ed_registry := r'\<rparr>)"])
        (simp_all add: choose_entry_def menu_def on_registry_def family_editor_def deselect_def)
  qed
  have "\<not> alive (ed_registry t) 2" using t(2) by (simp add: removed_def)
  then have "session ?s t" using t(1)
    by (intro session.step[OF session.start, of "ChooseEntry 2 True DeleteEntry"]) (simp_all add: family_editor_def family_def)
  moreover have "3 \<in> desc family 2" by (simp add: desc_def family_desc r_into_rtrancl)
  then have "\<not> alive (ed_registry t) 3" using t(2) by (simp add: removed_def)
  moreover have offered: "offered (ChooseEntry 1 True AddChildEntry) ?s" by (simp add: family_editor_def family_def)
  have "stale (ChooseEntry 1 True AddChildEntry) ?s"
  proof -
    have "dom (hier family) = {1, 2, 3, 4}" by (auto simp: family_def split: if_splits)
    then show ?thesis by (auto simp: stale_def family_editor_def getParent_parents family_desc)
  qed
  then have "window_step (ChooseEntry 1 True AddChildEntry) ?s = fail Dangling"
    using session_keeps_forest[OF family_editor_ok session.start, of None] offered by presburger
  ultimately show ?thesis using session_keeps_forest[OF family_editor_ok] by blast
qed


text \<open>
  Cutting an entity and pasting it gives the target a new child without any component, and the entity that was cut stays where it is: the request
  to cut is not stored and copying is not implemented.
\<close>

lemma cut_and_paste:
  assumes "hier_ok (ed_registry s) ch" "\<forall>x \<ge> ed_next s. \<not> alive (ed_registry s) x" "\<not> cutCopyEntity s"
    and "alive (ed_registry s) e" "alive (ed_registry s) node" "selectedNode s = None"
  shows "\<exists>t u. choose_entry e CutEntry s = ret t \<and> choose_entry node PasteEntry t = ret u \<and>
    hier_ok (ed_registry u) (adopt ch (ed_next s) node) \<and> names (ed_registry u) = names (ed_registry s) \<and> alive (ed_registry u) e"
proof -
  let ?t = "s\<lparr>copiedNode := Some e\<rparr>" and ?c = "snd (create_entity (s\<lparr>copiedNode := Some e\<rparr>))"
  have t: "choose_entry e CutEntry s = ret ?t"
    using assms(6) by (simp add: choose_entry_def menu_def deselect_def setCopiedEntity_def)
  have fresh: "\<not> alive (ed_registry s) (ed_next s)" using assms(2) by simp
  have ok: "hier_ok (ed_registry ?c) ch" using assms(1) by (auto simp: hier_ok_def create_entity_def)
  have "hier (ed_registry ?c) (ed_next s) = None" using assms(1) fresh by (auto simp: hier_ok_def create_entity_def)
  from emplace_ok[OF ok this, of node] assms(5) fresh obtain m where
    m: "emplace_hierarchy (ed_registry ?c) (ed_next s) (Some node) = ret ((ed_registry ?c)\<lparr>hier := m\<rparr>)"
    "hier_ok ((ed_registry ?c)\<lparr>hier := m\<rparr>) (adopt ch (ed_next s) node)"
    by (auto simp: create_entity_def ret_def)
  have ne: "node \<noteq> ed_next s" using assms(5) fresh by auto
  have "hier (ed_registry s) (ed_next s) = None" using assms(1) fresh by (auto simp: hier_ok_def)
  then have "choose_entry node PasteEntry ?t = ret (settle (?c\<lparr>ed_registry := (ed_registry ?c)\<lparr>hier := m\<rparr>\<rparr>))"
    using m(1) ne assms(3,4,6)
    by (simp add: choose_entry_def menu_def paste_def duplicate_under_def create_entity_def on_registry_def setParent_def deselect_def)
  then show ?thesis using t m(2) assms(4) 
    by (intro exI[of _ ?t] exI[of _ "settle (?c\<lparr>ed_registry := (ed_registry ?c)\<lparr>hier := m\<rparr>\<rparr>)"]) (simp add: create_entity_def)
qed

end
