(* ===== verification/Editor_Actions.thy ===== *)
theory Editor_Actions
  imports Geometry Hierarchy
begin

text \<open>
  Actions of the editor, \<^verbatim>\<open>src/Code/Editor/src/Editor.cpp\<close>: picking an entity with a ray through the mouse (\<^verbatim>\<open>clickObject\<close>), moving the camera
  to it (\<^verbatim>\<open>focusCamera\<close>), and the buttons for playing, pausing and stepping with their effect on the systems.
  Coordinates are elements of an ordered field as in \<open>Geometry\<close>; a matrix is given by what it does to a point. Times are microseconds.
\<close>

section \<open>Transformed boxes\<close>

text \<open>
  \<^verbatim>\<open>BoundingBox::transform\<close> transforms the two corners. For a box that is not finite the products with zero give NaN, \<open>None\<close>: it counts as
  defined, and no comparison with it is true, so that every origin counts as inside.
\<close>

definition fin_vec :: "'a vec3 \<Rightarrow> 'a ext vec3" where
  "fin_vec v = Vec3 (Fin (x3 v)) (Fin (y3 v)) (Fin (z3 v))"

definition box_transform :: "('a::zero vec3 \<Rightarrow> 'a vec3) \<Rightarrow> 'a bounding_box \<Rightarrow> 'a bounding_box option" where
  "box_transform mat b = (if finite_box b
     then Some \<lparr>box_min = fin_vec (mat (corner (box_min b))), box_max = fin_vec (mat (corner (box_max b)))\<rparr> else None)"

definition hit_box :: "'a::linordered_field ray \<Rightarrow> 'a bounding_box option \<Rightarrow> 'a ext" where
  "hit_box r b = (case b of Some b \<Rightarrow> hit r b | None \<Rightarrow> Fin 0)"

definition quad_box :: "'a::linordered_field vec2 \<Rightarrow> 'a vec2 \<Rightarrow> 'a bounding_box" where
  "quad_box offset extent = \<lparr>box_min = fin_vec (Vec3 (x2 offset) (y2 offset) 0),
     box_max = fin_vec (Vec3 (x2 offset + x2 extent) (y2 offset + y2 extent) 0)\<rparr>"

section \<open>Picking\<close>

text \<open>
  The entities of the three groups in the order of the registry. A mesh renderer has a mesh or none, a mesh has a bounding box or none.
\<close>

record 'a pickable =
  pk_entity :: entity
  pk_matrix :: "'a vec3 \<Rightarrow> 'a vec3"
  pk_position :: "'a vec3"

record 'a mesh_pick = "'a pickable" +
  mp_mesh :: "'a bounding_box option option"

record 'a sprite_pick = "'a pickable" +
  sp_offset :: "'a vec2"
  sp_extent :: "'a vec2"

record 'a pick_scene =
  ps_meshes :: "'a mesh_pick list"
  ps_sprites :: "'a sprite_pick list"
  ps_animated :: "'a sprite_pick list"

type_synonym 'a nearest = "'a ext \<times> entity option"

definition consider_hit :: "entity \<Rightarrow> 'a::linorder ext \<Rightarrow> 'a nearest \<Rightarrow> 'a nearest" where
  "consider_hit e d best = (if d < PosInf \<and> d < fst best then (d, Some e) else best)"

definition pick_mesh :: "'a::linordered_field ray \<Rightarrow> 'a mesh_pick \<Rightarrow> 'a nearest \<Rightarrow> 'a nearest run" where
  "pick_mesh ray m best = (case mp_mesh m of
       None \<Rightarrow> ret best
     | Some None \<Rightarrow> fail NullDeref
     | Some (Some b) \<Rightarrow> ret (consider_hit (pk_entity m) (hit_box ray (box_transform (pk_matrix m) b)) best))"

text \<open>For a sprite the transformed box is computed and dropped; for an animated sprite it is used.\<close>

definition pick_sprite :: "'a::linordered_field ray \<Rightarrow> 'a sprite_pick \<Rightarrow> 'a nearest \<Rightarrow> 'a nearest" where
  "pick_sprite ray s best = consider_hit (pk_entity s) (hit ray (quad_box (sp_offset s) (sp_extent s))) best"

definition pick_animated :: "'a::linordered_field ray \<Rightarrow> 'a sprite_pick \<Rightarrow> 'a nearest \<Rightarrow> 'a nearest" where
  "pick_animated ray s best =
     consider_hit (pk_entity s) (hit_box ray (box_transform (pk_matrix s) (quad_box (sp_offset s) (sp_extent s)))) best"

section \<open>The camera\<close>

record 'a click_state =
  cs_selected :: "entity option"
  cs_lastClick :: "int option"
  cs_camera :: "'a vec3"

definition vec_sum :: "'a::ring vec3 \<Rightarrow> 'a vec3 \<Rightarrow> 'a vec3" where
  "vec_sum a b = Vec3 (x3 a + x3 b) (y3 a + y3 b) (z3 a + z3 b)"

definition vec_times :: "'a::ring vec3 \<Rightarrow> 'a \<Rightarrow> 'a vec3" where
  "vec_times a c = Vec3 (x3 a * c) (y3 a * c) (z3 a * c)"

record 'a view_camera =
  vc_orthographic :: bool
  vc_forward :: "'a vec3"
  vc_length :: "'a vec3 \<Rightarrow> 'a"

definition focusCamera :: "'a::linordered_field view_camera \<Rightarrow> 'a vec3 \<Rightarrow> 'a \<Rightarrow> 'a vec3" where
  "focusCamera cam point distance = (if vc_orthographic cam then vec_sum point (Vec3 0 0 (1 / 10))
     else vec_sum point (vec_times (vc_forward cam) distance))"

text \<open>The camera is moved to an entity by the diagonal of its transformed box; for a box of NaN the place is not a number and is left out.\<close>

definition focus_box :: "'a::linordered_field view_camera \<Rightarrow> 'a vec3 \<Rightarrow> 'a bounding_box option \<Rightarrow> 'a click_state \<Rightarrow> 'a click_state" where
  "focus_box cam point b st = (case b of
       Some b \<Rightarrow> st\<lparr>cs_camera := focusCamera cam point (vc_length cam (vec_minus (corner (box_max b)) (corner (box_min b))))\<rparr>
     | None \<Rightarrow> st)"

section \<open>clickObject\<close>

definition find_entity :: "entity \<Rightarrow> ('a, 'z) pickable_scheme list \<Rightarrow> ('a, 'z) pickable_scheme option" where
  "find_entity e xs = find (\<lambda>x. pk_entity x = e) xs"

text \<open>
  The selected mesh is clicked again: \<open>elapsed(now, lastClick)\<close> is the time from now to the last click, in seconds as a float. The static variable is set at the first call.
\<close>

definition click_again ::
  "'a::linordered_field view_camera \<Rightarrow> int \<Rightarrow> entity \<Rightarrow> 'a pick_scene \<Rightarrow> 'a click_state \<Rightarrow> 'a click_state run" where
  "click_again cam now e sc st =
     (let lastClick = the (cs_lastClick st)
      in if lastClick - now < 1000000
         then (case find_entity e (ps_meshes sc) of
             None \<Rightarrow> fail NullDeref
           | Some m \<Rightarrow> (case mp_mesh m of
               None \<Rightarrow> ret (st\<lparr>cs_lastClick := Some now\<rparr>)
             | Some None \<Rightarrow> fail NullDeref
             | Some (Some b) \<Rightarrow> ret ((focus_box cam (pk_position m) (box_transform (pk_matrix m) b) st)\<lparr>cs_lastClick := Some now\<rparr>)))
         else ret (st\<lparr>cs_selected := None, cs_lastClick := Some now\<rparr>))"

definition click_sprites ::
  "'a::linordered_field view_camera \<Rightarrow> 'a ray \<Rightarrow> 'a nearest \<Rightarrow> 'a pick_scene \<Rightarrow> 'a click_state \<Rightarrow> 'a click_state" where
  "click_sprites cam ray best sc st =
     (let closest = snd (fold (pick_animated ray) (ps_animated sc) (fold (pick_sprite ray) (ps_sprites sc) best));
          st = (if cs_selected st \<noteq> None \<and> cs_selected st = closest
            then (case (case find_entity (the closest) (ps_sprites sc) of None \<Rightarrow> find_entity (the closest) (ps_animated sc) | Some s \<Rightarrow> Some s) of
                None \<Rightarrow> st
              | Some s \<Rightarrow> focus_box cam (pk_position s) (box_transform (pk_matrix s) (quad_box (sp_offset s) (sp_extent s))) st)
            else st)
      in st\<lparr>cs_selected := closest\<rparr>)"

definition clickObject ::
  "'a::linordered_field view_camera \<Rightarrow> 'a ray \<Rightarrow> int \<Rightarrow> 'a pick_scene \<Rightarrow> 'a click_state \<Rightarrow> 'a click_state run" where
  "clickObject cam ray now sc st =
     rbind (rfold (pick_mesh ray) (ps_meshes sc) (PosInf, None)) (\<lambda>best.
     let st = (if cs_lastClick st = None then st\<lparr>cs_lastClick := Some now\<rparr> else st)
     in if cs_selected st \<noteq> None \<and> cs_selected st = snd best
        then click_again cam now (the (snd best)) sc st
        else ret (click_sprites cam ray best sc st))"

section \<open>Playing\<close>

datatype editor_state = Paused | Play | Next | Preview

text \<open>The three buttons of one frame; the flag tells whether the scene was started. Caching and restoring the scene do nothing.\<close>

definition drawPlayButtons :: "bool \<Rightarrow> bool \<Rightarrow> bool \<Rightarrow> editor_state \<Rightarrow> editor_state \<times> bool" where
  "drawPlayButtons play pause step s =
     (let s = (if s = Next then Paused else s);
          started = (play \<and> s \<noteq> Play);
          s = (if play then (if s = Play then Preview else Play) else s);
          s = (if pause then (if s = Paused then Play else Paused) else s);
          s = (if step then Next else s)
      in (s, started))"

text \<open>The systems of the scripts update a frame before the buttons are drawn, in the state \<open>Play\<close> only.\<close>

fun play_frames :: "(bool \<times> bool \<times> bool) list \<Rightarrow> editor_state \<Rightarrow> bool list \<times> editor_state" where
  "play_frames [] s = ([], s)"
| "play_frames ((play, pause, step) # fs) s =
     (let (ran, s') = play_frames fs (fst (drawPlayButtons play pause step s)) in ((s = Play) # ran, s'))"

section \<open>What is picked\<close>

text \<open>The candidates with their distances, and what it means to be the first of the nearest.\<close>

definition mesh_hits :: "'a::linordered_field ray \<Rightarrow> 'a pick_scene \<Rightarrow> (entity \<times> 'a ext) list" where
  "mesh_hits ray sc = map (\<lambda>m. (pk_entity m, hit_box ray (box_transform (pk_matrix m) (the (the (mp_mesh m))))))
     (filter (\<lambda>m. mp_mesh m \<noteq> None) (ps_meshes sc))"

definition sprite_hits :: "'a::linordered_field ray \<Rightarrow> 'a pick_scene \<Rightarrow> (entity \<times> 'a ext) list" where
  "sprite_hits ray sc = map (\<lambda>s. (pk_entity s, hit ray (quad_box (sp_offset s) (sp_extent s)))) (ps_sprites sc) @
     map (\<lambda>s. (pk_entity s, hit_box ray (box_transform (pk_matrix s) (quad_box (sp_offset s) (sp_extent s))))) (ps_animated sc)"

definition first_nearest :: "(entity \<times> 'a::linorder ext) list \<Rightarrow> entity option \<Rightarrow> bool" where
  "first_nearest cs r = (case r of
       None \<Rightarrow> \<forall>c \<in> set cs. snd c = PosInf
     | Some e \<Rightarrow> \<exists>us d vs. cs = us @ (e, d) # vs \<and> d < PosInf \<and> (\<forall>c \<in> set us. d < snd c) \<and> (\<forall>c \<in> set vs. d \<le> snd c))"

definition best_inv :: "(entity \<times> 'a::linorder ext) list \<Rightarrow> 'a nearest \<Rightarrow> bool" where
  "best_inv cs best \<longleftrightarrow> first_nearest cs (snd best) \<and>
     (case snd best of None \<Rightarrow> fst best = PosInf | Some e \<Rightarrow> fst best < PosInf \<and> (\<forall>c \<in> set cs. fst best \<le> snd c) \<and> (e, fst best) \<in> set cs)"

lemma not_less_PosInf: "\<not> d < PosInf \<longleftrightarrow> d = (PosInf :: 'a::linorder ext)"
  by (cases d) (auto simp: not_less less_ext_def less_eq_ext_def)

lemma best_inv_step:
  assumes "best_inv cs best"
  shows "best_inv (cs @ [(e, d)]) (consider_hit e d best)"
proof (cases "d < PosInf \<and> d < fst best")
  case True
  have "\<forall>c \<in> set cs. d < snd c"
  proof (cases "snd best")
    case None
    then show ?thesis using assms True by (auto simp: best_inv_def first_nearest_def)
  next
    case (Some e')
    then show ?thesis using assms True by (fastforce simp: best_inv_def)
  qed
  then have "first_nearest (cs @ [(e, d)]) (Some e)" using True unfolding first_nearest_def
    by (simp, intro exI[of _ cs] exI[of _ d] exI[of _ "[]"]) simp
  then show ?thesis using True \<open>\<forall>c \<in> set cs. d < snd c\<close> by (auto simp: best_inv_def consider_hit_def)
next
  case False
  then have k: "consider_hit e d best = best" unfolding consider_hit_def by (simp only: if_False)
  show ?thesis
  proof (cases "snd best")
    case None
    then have "d = PosInf" using assms False not_less_PosInf[of d] by (auto simp: best_inv_def)
    then show ?thesis using assms None k by (auto simp: best_inv_def first_nearest_def)
  next
    case (Some e')
    then have le: "fst best \<le> d" using assms False by (auto simp: best_inv_def)
    obtain us d' vs where n: "cs = us @ (e', d') # vs" "d' < PosInf" "\<forall>c \<in> set us. d' < snd c" "\<forall>c \<in> set vs. d' \<le> snd c"
      using assms Some by (auto simp: best_inv_def first_nearest_def)
    have "d' \<le> d"
    proof -
      have "(e', fst best) \<in> set cs" "\<forall>c \<in> set cs. fst best \<le> snd c" using assms Some by (auto simp: best_inv_def)
      then have "d' \<le> fst best" using n by (auto intro: less_imp_le)
      then show ?thesis using le by (rule order_trans)
    qed
    then have "first_nearest (cs @ [(e, d)]) (Some e')" using n unfolding first_nearest_def
      by (simp, intro exI[of _ us] exI[of _ d'] exI[of _ "vs @ [(e, d)]"]) auto
    then show ?thesis using assms Some k le by (auto simp: best_inv_def)
  qed
qed

lemma pick_meshes:
  assumes "\<forall>m \<in> set ms. mp_mesh m \<noteq> Some None" "best_inv cs best"
  shows "\<exists>best'. rfold (pick_mesh ray) ms best = ret best' \<and>
    best_inv (cs @ map (\<lambda>m. (pk_entity m, hit_box ray (box_transform (pk_matrix m) (the (the (mp_mesh m)))))) (filter (\<lambda>m. mp_mesh m \<noteq> None) ms)) best'"
  using assms
proof (induction ms arbitrary: cs best)
  case Nil
  then show ?case by simp
next
  case (Cons m ms)
  show ?case
  proof (cases "mp_mesh m")
    case None
    then show ?thesis using Cons by (simp add: pick_mesh_def)
  next
    case (Some b)
    then obtain b' where b': "mp_mesh m = Some (Some b')" using Cons.prems(1) by (cases b) auto
    have "best_inv (cs @ [(pk_entity m, hit_box ray (box_transform (pk_matrix m) b'))])
      (consider_hit (pk_entity m) (hit_box ray (box_transform (pk_matrix m) b')) best)" by (rule best_inv_step[OF Cons.prems(2)])
    from Cons.IH[OF _ this] Cons.prems(1) b' show ?thesis by (simp add: pick_mesh_def)
  qed
qed

lemma fold_picks:
  assumes "\<And>s best. f s best = consider_hit (pk_entity s) (d s) best" "best_inv cs best"
  shows "best_inv (cs @ map (\<lambda>s. (pk_entity s, d s)) ss) (fold f ss best)"
  using assms(2)
proof (induction ss arbitrary: cs best)
  case (Cons s ss)
  show ?case using Cons.IH[OF best_inv_step[OF Cons.prems, of "pk_entity s" "d s"]] by (simp add: assms(1))
qed simp

lemma pick_mesh_ends: "pick_mesh ray m best = fail NullDeref \<or> (\<exists>b. pick_mesh ray m best = ret b)"
  unfolding pick_mesh_def by (simp split: option.split)

lemma best_inv_empty: "best_inv [] (PosInf, None)"
  by (simp add: best_inv_def first_nearest_def)

lemma first_nearest_unique:
  assumes "first_nearest cs a" "first_nearest cs b"
  shows "a = b"
proof (cases a)
  case None
  then show ?thesis using assms by (cases b) (auto simp: first_nearest_def)
next
  case (Some e)
  then obtain us d vs where a: "cs = us @ (e, d) # vs" "d < PosInf" "\<forall>c \<in> set us. d < snd c" "\<forall>c \<in> set vs. d \<le> snd c"
    using assms(1) by (auto simp: first_nearest_def)
  have "b \<noteq> None" using assms(2) a(1,2) by (cases b) (auto simp: first_nearest_def)
  then obtain e' us' d' vs' where b: "b = Some e'" "cs = us' @ (e', d') # vs'" "\<forall>c \<in> set us'. d' < snd c" "\<forall>c \<in> set vs'. d' \<le> snd c"
    using assms(2) by (auto simp: first_nearest_def split: option.splits)
  have before: "length us2 \<le> length us1"
    if "cs = us1 @ (x, d1) # vs1" "cs = us2 @ (y, d2) # vs2" "\<forall>c \<in> set vs1. d1 \<le> snd c" "\<forall>c \<in> set us2. d2 < snd c"
    for us1 us2 vs1 vs2 x y d1 d2
  proof (rule ccontr)
    assume "\<not> length us2 \<le> length us1"
    then have l: "length us1 < length us2" by simp
    have "us2 ! length us1 = (x, d1)" using that(1,2) l by (metis nth_append nth_append_length)
    then have "d2 < d1" using that(4) l nth_mem[of "length us1" us2] by fastforce
    moreover have "cs ! length us2 = (y, d2)" using that(2) by simp
    then have "vs1 ! (length us2 - length us1 - 1) = (y, d2)" using that(1) l by (simp add: nth_append nth_Cons')
    moreover have "length us2 - length us1 - 1 < length vs1"
      using arg_cong[OF that(1), of length] arg_cong[OF that(2), of length] l by simp
    ultimately show False using that(3) nth_mem[of "length us2 - length us1 - 1" vs1] by fastforce
  qed
  have "length us = length us'" using before[OF a(1) b(2) a(4) b(3)] before[OF b(2) a(1) b(4) a(3)] by simp
  then show ?thesis using a(1) b(1,2) Some by simp
qed

section \<open>What it means to be picked\<close>

text \<open>
  The specification: every candidate is a box given by two opposite corners, in the order of the groups. The box of a mesh and that of an
  animated sprite lie between the images of their two corners; the box of a sprite is its quad around the origin of the
  world, whatever its transform is. An entity is picked when the ray meets its box at a parameter where it meets no box earlier and, of those it
  meets first there, its box comes first.
\<close>

definition le3 :: "'a::linorder vec3 \<Rightarrow> 'a vec3 \<Rightarrow> bool" where
  "le3 a b \<longleftrightarrow> x3 a \<le> x3 b \<and> y3 a \<le> y3 b \<and> z3 a \<le> z3 b"

definition meets :: "'a::linordered_field ray \<Rightarrow> 'a vec3 \<Rightarrow> 'a vec3 \<Rightarrow> 'a \<Rightarrow> bool" where
  "meets ray lo hi t \<longleftrightarrow> 0 \<le> t \<and> le3 lo (point_at ray t) \<and> le3 (point_at ray t) hi"

type_synonym 'a target = "entity \<times> 'a vec3 \<times> 'a vec3"

definition mesh_targets :: "'a::linordered_field pick_scene \<Rightarrow> 'a target list" where
  "mesh_targets sc = concat (map (\<lambda>m. case mp_mesh m of
       Some (Some b) \<Rightarrow> [(pk_entity m, pk_matrix m (corner (box_min b)), pk_matrix m (corner (box_max b)))] | _ \<Rightarrow> []) (ps_meshes sc))"

definition sprite_targets :: "'a::linordered_field pick_scene \<Rightarrow> 'a target list" where
  "sprite_targets sc =
     map (\<lambda>s. (pk_entity s, Vec3 (x2 (sp_offset s)) (y2 (sp_offset s)) 0,
       Vec3 (x2 (sp_offset s) + x2 (sp_extent s)) (y2 (sp_offset s) + y2 (sp_extent s)) 0)) (ps_sprites sc) @
     map (\<lambda>s. (pk_entity s, pk_matrix s (Vec3 (x2 (sp_offset s)) (y2 (sp_offset s)) 0),
       pk_matrix s (Vec3 (x2 (sp_offset s) + x2 (sp_extent s)) (y2 (sp_offset s) + y2 (sp_extent s)) 0))) (ps_animated sc)"

definition picked :: "'a::linordered_field ray \<Rightarrow> 'a target list \<Rightarrow> entity option \<Rightarrow> bool" where
  "picked ray ts r \<longleftrightarrow> (case r of
       None \<Rightarrow> \<forall>(e, lo, hi) \<in> set ts. \<forall>t. \<not> meets ray lo hi t
     | Some e \<Rightarrow> \<exists>us lo hi vs t. ts = us @ (e, lo, hi) # vs \<and> meets ray lo hi t \<and>
         (\<forall>(e', lo', hi') \<in> set ts. \<forall>s < t. \<not> meets ray lo' hi' s) \<and> (\<forall>(e', lo', hi') \<in> set us. \<not> meets ray lo' hi' t))"

text \<open>The boxes of the meshes exist and are finite, and no box of a candidate is turned over on an axis.\<close>

definition upright :: "'a::linordered_field target list \<Rightarrow> bool" where
  "upright ts \<longleftrightarrow> (\<forall>(e, lo, hi) \<in> set ts. le3 lo hi)"

definition boxes_ok :: "'a::linordered_field pick_scene \<Rightarrow> bool" where
  "boxes_ok sc \<longleftrightarrow> (\<forall>m \<in> set (ps_meshes sc). mp_mesh m \<noteq> Some None \<and> (\<forall>b. mp_mesh m = Some (Some b) \<longrightarrow> finite_box b)) \<and>
     upright (mesh_targets sc @ sprite_targets sc)"

lemma hit_not_NegInf: "hit r b \<noteq> NegInf"
proof -
  have "d \<noteq> NegInf \<Longrightarrow> fold (try_face r) fs d \<noteq> NegInf" for fs d
  proof (induction fs arbitrary: d)
    case (Cons f fs)
    have "try_face r f d \<noteq> NegInf" using Cons.prems by (auto simp: try_face_def split: prod.split)
    then show ?case using Cons.IH by simp
  qed simp
  then show ?thesis by (simp add: hit_def)
qed

lemma hit_meets:
  assumes "le3 lo hi"
  shows "hit r (finite_bounds lo hi) = PosInf \<longleftrightarrow> (\<forall>t. \<not> meets r lo hi t)"
    and "hit r (finite_bounds lo hi) = Fin t \<longleftrightarrow> meets r lo hi t \<and> (\<forall>s < t. \<not> meets r lo hi s)"
proof -
  have m: "meets r lo hi s \<longleftrightarrow> 0 \<le> s \<and> box_contains (finite_bounds lo hi) (point_at r s)" for s
    unfolding inside_iff[symmetric] by (auto simp: meets_def le3_def inside_def slab_def point_at_def)
  have le: "x3 lo \<le> x3 hi" "y3 lo \<le> y3 hi" "z3 lo \<le> z3 hi" using assms by (simp_all add: le3_def)
  show "hit r (finite_bounds lo hi) = PosInf \<longleftrightarrow> (\<forall>t. \<not> meets r lo hi t)"
    "hit r (finite_bounds lo hi) = Fin t \<longleftrightarrow> meets r lo hi t \<and> (\<forall>s < t. \<not> meets r lo hi s)"
    using hit_first_entry[OF le, of r t] unfolding m by auto
qed

lemma hit_bounds:
  assumes "le3 lo hi"
  shows "Fin t \<le> hit r (finite_bounds lo hi) \<longleftrightarrow> (\<forall>s < t. \<not> meets r lo hi s)"
    and "Fin t < hit r (finite_bounds lo hi) \<longleftrightarrow> (\<forall>s \<le> t. \<not> meets r lo hi s)"
proof -
  have "hit r (finite_bounds lo hi) = PosInf \<or> (\<exists>u. hit r (finite_bounds lo hi) = Fin u)"
    using hit_not_NegInf[of r "finite_bounds lo hi"] by (cases "hit r (finite_bounds lo hi)") auto
  then have "(Fin t \<le> hit r (finite_bounds lo hi) \<longleftrightarrow> (\<forall>s < t. \<not> meets r lo hi s)) \<and>
      (Fin t < hit r (finite_bounds lo hi) \<longleftrightarrow> (\<forall>s \<le> t. \<not> meets r lo hi s))"
  proof
    assume inf: "hit r (finite_bounds lo hi) = PosInf"
    then show ?thesis using hit_meets(1)[OF assms, of r] by (simp add: less_ext_def less_eq_ext_def)
  next
    assume "\<exists>u. hit r (finite_bounds lo hi) = Fin u"
    then obtain u where u: "hit r (finite_bounds lo hi) = Fin u" by blast
    then have m: "meets r lo hi u" "\<forall>s < u. \<not> meets r lo hi s" using hit_meets(2)[OF assms, of r u] by blast+
    have "t \<le> u \<longleftrightarrow> (\<forall>s < t. \<not> meets r lo hi s)" using m by (meson less_le_trans not_le)
    moreover have "t < u \<longleftrightarrow> (\<forall>s \<le> t. \<not> meets r lo hi s)" using m by (meson le_less_trans not_le)
    ultimately show ?thesis by (simp add: u)
  qed
  then show "Fin t \<le> hit r (finite_bounds lo hi) \<longleftrightarrow> (\<forall>s < t. \<not> meets r lo hi s)"
    "Fin t < hit r (finite_bounds lo hi) \<longleftrightarrow> (\<forall>s \<le> t. \<not> meets r lo hi s)" by blast+
qed

definition distance_to :: "'a::linordered_field ray \<Rightarrow> 'a target \<Rightarrow> entity \<times> 'a ext" where
  "distance_to ray t = (case t of (e, lo, hi) \<Rightarrow> (e, hit ray (finite_bounds lo hi)))"

lemma first_nearest_picked:
  assumes "upright ts"
  shows "first_nearest (map (distance_to ray) ts) r \<longleftrightarrow> picked ray ts r"
proof (cases r)
  case None
  have "snd (distance_to ray z) = PosInf \<longleftrightarrow> (case z of (e, lo, hi) \<Rightarrow> \<forall>t. \<not> meets ray lo hi t)" if "z \<in> set ts" for z
    using hit_meets(1)[of "fst (snd z)" "snd (snd z)" ray] assms that by (cases z) (auto simp: distance_to_def upright_def)
  then show ?thesis unfolding None first_nearest_def picked_def option.case set_map ball_simps by (rule ball_cong[OF refl])
next
  case (Some e)
  have up: "le3 lo hi" if "(x, lo, hi) \<in> set ts" for x lo hi using assms that by (auto simp: upright_def)
  have le: "Fin t \<le> snd (distance_to ray z) \<longleftrightarrow> (case z of (x, lo, hi) \<Rightarrow> \<forall>s < t. \<not> meets ray lo hi s)"
    "Fin t < snd (distance_to ray z) \<longleftrightarrow> (case z of (x, lo, hi) \<Rightarrow> \<forall>s \<le> t. \<not> meets ray lo hi s)" if "z \<in> set ts" for z t
  proof -
    obtain x lo hi where z: "z = (x, lo, hi)" by (cases z)
    note h = hit_bounds[OF up[of x lo hi], of t ray]
    show "Fin t \<le> snd (distance_to ray z) \<longleftrightarrow> (case z of (x, lo, hi) \<Rightarrow> \<forall>s < t. \<not> meets ray lo hi s)"
      using h(1) that by (simp add: z distance_to_def)
    show "Fin t < snd (distance_to ray z) \<longleftrightarrow> (case z of (x, lo, hi) \<Rightarrow> \<forall>s \<le> t. \<not> meets ray lo hi s)"
      using h(2) that by (simp add: z distance_to_def)
  qed
  show ?thesis
  proof
    assume "first_nearest (map (distance_to ray) ts) r"
    then obtain us d vs where s: "map (distance_to ray) ts = us @ (e, d) # vs" "d < PosInf" "\<forall>c \<in> set us. d < snd c" "\<forall>c \<in> set vs. d \<le> snd c"
      by (auto simp: first_nearest_def Some)
    then obtain us' z vs' where t: "ts = us' @ z # vs'" "us = map (distance_to ray) us'" "(e, d) = distance_to ray z" "vs = map (distance_to ray) vs'"
      by (auto simp: map_eq_append_conv map_eq_Cons_conv)
    obtain lo hi where z: "z = (e, lo, hi)" "d = hit ray (finite_bounds lo hi)" using t(3) by (auto simp: distance_to_def split: prod.splits)
    have "d \<noteq> NegInf" "d \<noteq> PosInf" using s(2) hit_not_NegInf[of ray "finite_bounds lo hi"] z(2) by auto
    then obtain u where u: "d = Fin u" by (cases d) simp_all
    have zin: "z \<in> set ts" using t(1) by simp
    have m: "meets ray lo hi u" "\<forall>s < u. \<not> meets ray lo hi s"
      using hit_meets(2)[OF up, of e lo hi ray u] zin z u by auto
    have us: "\<forall>s \<le> u. \<not> meets ray lo' hi' s" if "(x, lo', hi') \<in> set us'" for x lo' hi'
      using s(3) t(1,2) that le(2)[of "(x, lo', hi')" u] u by fastforce
    have vs: "\<forall>s < u. \<not> meets ray lo' hi' s" if "(x, lo', hi') \<in> set vs'" for x lo' hi'
      using s(4) t(1,4) that le(1)[of "(x, lo', hi')" u] u by fastforce
    have "\<forall>(x, lo', hi') \<in> set ts. \<forall>s < u. \<not> meets ray lo' hi' s"
      using us vs m(2) z(1) unfolding t(1) by (auto intro: less_imp_le)
    moreover have "\<forall>(x, lo', hi') \<in> set us'. \<not> meets ray lo' hi' u" using us by blast
    ultimately show "picked ray ts r" unfolding picked_def Some option.case using t(1) z(1) m(1) by blast
  next
    assume "picked ray ts r"
    then obtain us lo hi vs u where p: "ts = us @ (e, lo, hi) # vs" "meets ray lo hi u"
      "\<forall>(x, lo', hi') \<in> set ts. \<forall>s < u. \<not> meets ray lo' hi' s" "\<forall>(x, lo', hi') \<in> set us. \<not> meets ray lo' hi' u"
      by (auto simp: picked_def Some)
    have d: "distance_to ray (e, lo, hi) = (e, Fin u)"
      using hit_meets(2)[OF up, of e lo hi ray u] p by (auto simp: distance_to_def)
    have "Fin u < snd (distance_to ray c)" if "c \<in> set us" for c
    proof -
      obtain x lo' hi' where z: "c = (x, lo', hi')" by (cases c)
      have c: "c \<in> set ts" using that p(1) by simp
      have "\<forall>s < u. \<not> meets ray lo' hi' s" "\<not> meets ray lo' hi' u" using bspec[OF p(3) c] bspec[OF p(4) that] z by simp_all
      then have "\<forall>s \<le> u. \<not> meets ray lo' hi' s" by (metis order.not_eq_order_implies_strict)
      then show ?thesis using le(2)[OF c, of u] z by simp
    qed
    moreover have "Fin u \<le> snd (distance_to ray c)" if "c \<in> set vs" for c
    proof -
      have c: "c \<in> set ts" using that p(1) by simp
      then show ?thesis using le(1)[OF c, of u] bspec[OF p(3) c] by simp
    qed
    ultimately show "first_nearest (map (distance_to ray) ts) r"
      unfolding first_nearest_def Some option.case
      by (intro exI[of _ "map (distance_to ray) us"] exI[of _ "Fin u"] exI[of _ "map (distance_to ray) vs"]) (simp add: p(1) d)
  qed
qed

lemma fin_vec_bounds: "\<lparr>box_min = fin_vec lo, box_max = fin_vec hi\<rparr> = finite_bounds lo hi"
  by (simp add: finite_bounds_def fin_vec_def)

lemma quad_box_finite: "finite_box (quad_box off ext)" "corner (box_min (quad_box off ext)) = Vec3 (x2 off) (y2 off) 0"
  "corner (box_max (quad_box off ext)) = Vec3 (x2 off + x2 ext) (y2 off + y2 ext) 0"
  by (simp_all add: quad_box_def finite_box_def corner_def fin_vec_def)

lemma sprite_hits_targets: "sprite_hits ray sc = map (distance_to ray) (sprite_targets sc)"
  unfolding sprite_hits_def sprite_targets_def hit_box_def box_transform_def
  by (simp add: quad_box_finite fin_vec_bounds distance_to_def) (simp add: quad_box_def fin_vec_bounds)

lemma mesh_hits_targets:
  assumes "boxes_ok sc"
  shows "mesh_hits ray sc = map (distance_to ray) (mesh_targets sc)"
proof -
  have "map (\<lambda>m. (pk_entity m, hit_box ray (box_transform (pk_matrix m) (the (the (mp_mesh m)))))) (filter (\<lambda>m. mp_mesh m \<noteq> None) ms) =
      map (distance_to ray) (concat (map (\<lambda>m. case mp_mesh m of
         Some (Some b) \<Rightarrow> [(pk_entity m, pk_matrix m (corner (box_min b)), pk_matrix m (corner (box_max b)))] | _ \<Rightarrow> []) ms))"
    if "\<forall>m \<in> set ms. mp_mesh m \<noteq> Some None \<and> (\<forall>b. mp_mesh m = Some (Some b) \<longrightarrow> finite_box b)" for ms
    using that
    by (induction ms)
      (auto simp: hit_box_def box_transform_def fin_vec_bounds distance_to_def split: option.splits)
  from this[of "ps_meshes sc"] show ?thesis using assms unfolding mesh_hits_def mesh_targets_def boxes_ok_def by blast
qed

lemma find_distinct:
  assumes "distinct (map pk_entity ms)" "m \<in> set ms"
  shows "find_entity (pk_entity m) ms = Some m"
  using assms by (induction ms) (auto simp: find_entity_def image_iff)

text \<open>
  C39: A click in a scene in which no entity has two meshes, every mesh has a bounding box, the boxes of the meshes are finite and no transformed box is
  turned over on an axis. The click returns and selects the entity picked by the ray among meshes, sprites and
  animated sprites in this order, nothing when the ray meets none of their boxes; the time of the last click is kept, and becomes that of this click at
  the first one. The exception is a selected entity that is picked among the meshes alone: it stays selected even if a sprite is nearer,
  the camera is moved to it by the diagonal of its box, and the time of the click is stored. A mesh without a bounding box, which every mesh loaded from a file is, makes
  every click dereference null. (The box of a sprite is its quad without its transform, so a sprite away from the origin is not picked where it
  is drawn.)
\<close>

theorem click_selects_nearest:
  assumes "\<forall>before. cs_lastClick st = Some before \<longrightarrow> before \<le> now" "distinct (map pk_entity (ps_meshes sc))"
  shows "(boxes_ok sc \<longrightarrow> (\<exists>st'. clickObject cam ray now sc st = ret st' \<and>
      (if cs_selected st \<noteq> None \<and> picked ray (mesh_targets sc) (cs_selected st)
       then cs_selected st' = cs_selected st \<and> cs_lastClick st' = Some now \<and>
         (\<exists>m \<in> set (ps_meshes sc). \<exists>b. pk_entity m = the (cs_selected st) \<and> mp_mesh m = Some (Some b) \<and>
            cs_camera st' = focusCamera cam (pk_position m)
              (vc_length cam (vec_minus (pk_matrix m (corner (box_max b))) (pk_matrix m (corner (box_min b))))))
       else picked ray (mesh_targets sc @ sprite_targets sc) (cs_selected st') \<and>
         cs_lastClick st' = Some (case cs_lastClick st of None \<Rightarrow> now | Some before \<Rightarrow> before)))) \<and>
    ((\<exists>m \<in> set (ps_meshes sc). mp_mesh m = Some None) \<longrightarrow> clickObject cam ray now sc st = fail NullDeref)"
proof (intro conjI impI)
  assume "\<exists>m \<in> set (ps_meshes sc). mp_mesh m = Some None"
  then obtain z where z: "z \<in> set (ps_meshes sc)" "mp_mesh z = Some None" by blast
  have "rfold (pick_mesh ray) (ps_meshes sc) (PosInf, None) = fail NullDeref"
    by (rule rfold_fails[where I = "\<lambda>_. True", OF _ TrueI z(1)]) (use pick_mesh_ends z(2) in \<open>auto simp: pick_mesh_def\<close>)
  then show "clickObject cam ray now sc st = fail NullDeref" by (simp add: clickObject_def)
next
  assume ok: "boxes_ok sc"
  then have boxes: "\<forall>m \<in> set (ps_meshes sc). mp_mesh m \<noteq> Some None" and fin: "\<And>m b. m \<in> set (ps_meshes sc) \<Longrightarrow> mp_mesh m = Some (Some b) \<Longrightarrow> finite_box b"
    and up: "upright (mesh_targets sc)" "upright (mesh_targets sc @ sprite_targets sc)"
    by (auto simp: boxes_ok_def upright_def)
  define first where "first = (case cs_lastClick st of None \<Rightarrow> now | Some before \<Rightarrow> before)"
  define st1 where "st1 = (if cs_lastClick st = None then st\<lparr>cs_lastClick := Some now\<rparr> else st)"
  have st1: "cs_lastClick st1 = Some first" "cs_selected st1 = cs_selected st" "first \<le> now"
    using assms(1) by (auto simp: st1_def first_def split: option.splits)
  obtain best where best: "rfold (pick_mesh ray) (ps_meshes sc) (PosInf, None) = ret best" "best_inv (mesh_hits ray sc) best"
    using pick_meshes[OF boxes best_inv_empty, of ray] by (auto simp: mesh_hits_def)
  have iff: "picked ray (mesh_targets sc) (cs_selected st) \<longleftrightarrow> cs_selected st = snd best"
    using best(2) first_nearest_unique unfolding first_nearest_picked[OF up(1), symmetric] mesh_hits_targets[OF ok, symmetric]
    by (auto simp: best_inv_def)
  show "\<exists>st'. clickObject cam ray now sc st = ret st' \<and>
      (if cs_selected st \<noteq> None \<and> picked ray (mesh_targets sc) (cs_selected st)
       then cs_selected st' = cs_selected st \<and> cs_lastClick st' = Some now \<and>
         (\<exists>m \<in> set (ps_meshes sc). \<exists>b. pk_entity m = the (cs_selected st) \<and> mp_mesh m = Some (Some b) \<and>
            cs_camera st' = focusCamera cam (pk_position m)
              (vc_length cam (vec_minus (pk_matrix m (corner (box_max b))) (pk_matrix m (corner (box_min b))))))
       else picked ray (mesh_targets sc @ sprite_targets sc) (cs_selected st') \<and> cs_lastClick st' = Some first)"
  proof (cases "cs_selected st \<noteq> None \<and> cs_selected st = snd best")
    case True
    then obtain e where "cs_selected st = Some e" by blast
    then have e: "cs_selected st = Some e" "snd best = Some e" using True by simp_all
    then obtain m b where m: "m \<in> set (ps_meshes sc)" "pk_entity m = e" "mp_mesh m = Some b"
      using best(2) by (auto simp: best_inv_def mesh_hits_def)
    then obtain c where c: "mp_mesh m = Some (Some c)" using boxes by (cases b) auto
    have find: "find_entity e (ps_meshes sc) = Some m"
      using find_distinct[OF assms(2) m(1)] m(2) by simp
    define p where "p = vec_minus (pk_matrix m (corner (box_max c))) (pk_matrix m (corner (box_min c)))"
    have "box_transform (pk_matrix m) c = Some (finite_bounds (pk_matrix m (corner (box_min c))) (pk_matrix m (corner (box_max c))))"
      using fin[OF m(1) c] by (simp add: box_transform_def fin_vec_bounds)
    then have "click_again cam now e sc st1 = ret (st1\<lparr>cs_camera := focusCamera cam (pk_position m) (vc_length cam p), cs_lastClick := Some now\<rparr>)"
      using find c st1(1,3) by (simp add: click_again_def focus_box_def corner_def finite_bounds_def p_def)
    moreover have "clickObject cam ray now sc st = click_again cam now e sc st1"
      using True best(1) e by (simp add: clickObject_def st1_def Let_def)
    ultimately show ?thesis using True iff m(1,2) c st1(2) e(1) by (auto simp: p_def)
  next
    case False
    let ?best = "fold (pick_animated ray) (ps_animated sc) (fold (pick_sprite ray) (ps_sprites sc) best)"
    have "best_inv (mesh_hits ray sc @ sprite_hits ray sc) ?best"
      using fold_picks[of "pick_animated ray", OF pick_animated_def fold_picks[of "pick_sprite ray", OF pick_sprite_def best(2)], of "ps_sprites sc" "ps_animated sc"]
      by (simp add: sprite_hits_def)
    then have "first_nearest (map (distance_to ray) (mesh_targets sc @ sprite_targets sc)) (snd ?best)"
      by (simp add: best_inv_def mesh_hits_targets[OF ok] sprite_hits_targets)
    then have "picked ray (mesh_targets sc @ sprite_targets sc) (snd ?best)" by (simp only: first_nearest_picked[OF up(2)])
    then have "picked ray (mesh_targets sc @ sprite_targets sc) (cs_selected (click_sprites cam ray best sc st1))"
      "cs_lastClick (click_sprites cam ray best sc st1) = Some first"
      using st1(1) by (auto simp: click_sprites_def focus_box_def Let_def split: option.split)
    moreover have "clickObject cam ray now sc st = ret (click_sprites cam ray best sc st1)"
      using False best(1) by (auto simp: clickObject_def st1_def Let_def)
    ultimately show ?thesis using False iff by auto
  qed
qed

definition cube_at :: "entity \<Rightarrow> rat \<Rightarrow> rat mesh_pick" where
  "cube_at e z = \<lparr>pk_entity = e, pk_matrix = (\<lambda>p. Vec3 (x3 p) (y3 p) (z3 p + z)), pk_position = Vec3 0 0 z,
     mp_mesh = Some (Some \<lparr>box_min = fin_vec (Vec3 (-1) (-1) (-1)), box_max = fin_vec (Vec3 1 1 1)\<rparr>)\<rparr>"

text \<open>A sprite of four by four that its transform puts far away from where it is picked.\<close>

definition far_sprite :: "entity \<Rightarrow> rat sprite_pick" where
  "far_sprite e = \<lparr>pk_entity = e, pk_matrix = (\<lambda>p. Vec3 (x3 p + 500) (y3 p) (z3 p)), pk_position = Vec3 500 0 0,
     sp_offset = Vec2 (-2) (-2), sp_extent = Vec2 4 4\<rparr>"

definition cubes_and_sprite :: "rat pick_scene" where
  "cubes_and_sprite = \<lparr>ps_meshes = [cube_at 7 20, cube_at 8 10], ps_sprites = [far_sprite 9], ps_animated = []\<rparr>"

definition along_z :: "rat ray" where
  "along_z = \<lparr>origin = Vec3 1 1 (-3), direction = Vec3 0 0 1\<rparr>"

definition plain_camera :: "rat view_camera" where
  "plain_camera = \<lparr>vc_orthographic = False, vc_forward = Vec3 0 0 (-1), vc_length = (\<lambda>v. z3 v)\<rparr>"

definition selecting :: "entity option \<Rightarrow> rat click_state" where
  "selecting e = \<lparr>cs_selected = e, cs_lastClick = None, cs_camera = Vec3 0 0 0\<rparr>"

lemma example_targets:
  "mesh_targets cubes_and_sprite = [(7, Vec3 (-1) (-1) 19, Vec3 1 1 21), (8, Vec3 (-1) (-1) 9, Vec3 1 1 11)]"
  "sprite_targets cubes_and_sprite = [(9, Vec3 (-2) (-2) 0, Vec3 2 2 0)]"
  by (simp_all add: mesh_targets_def sprite_targets_def cubes_and_sprite_def cube_at_def far_sprite_def corner_def fin_vec_def)

lemma example_boxes: "boxes_ok cubes_and_sprite" "distinct (map pk_entity (ps_meshes cubes_and_sprite))"
proof -
  show "boxes_ok cubes_and_sprite"
    unfolding boxes_ok_def example_targets
    by (simp add: upright_def le3_def) (simp add: cubes_and_sprite_def cube_at_def finite_box_def fin_vec_def)
  show "distinct (map pk_entity (ps_meshes cubes_and_sprite))" by (simp add: cubes_and_sprite_def cube_at_def)
qed

lemma example_picked:
  "picked along_z (mesh_targets cubes_and_sprite @ sprite_targets cubes_and_sprite) r \<longleftrightarrow> r = Some 9"
  "picked along_z (mesh_targets cubes_and_sprite) r \<longleftrightarrow> r = Some 8"
proof -
  have m: "meets along_z (Vec3 a b c) (Vec3 d e f) t \<longleftrightarrow> 0 \<le> t \<and> a \<le> 1 \<and> 1 \<le> d \<and> b \<le> 1 \<and> 1 \<le> e \<and> c \<le> t - 3 \<and> t - 3 \<le> f" for a b c d e f t
    by (auto simp: meets_def le3_def point_at_def along_z_def)
  have up: "upright (mesh_targets cubes_and_sprite @ sprite_targets cubes_and_sprite)" "upright (mesh_targets cubes_and_sprite)"
    unfolding example_targets by (simp_all add: upright_def le3_def)
  have one: "picked along_z ts r \<longleftrightarrow> r = Some e" if "upright ts" "picked along_z ts (Some e)" for ts e
    using that first_nearest_unique unfolding first_nearest_picked[OF that(1), symmetric] by blast
  have "picked along_z (mesh_targets cubes_and_sprite @ sprite_targets cubes_and_sprite) (Some 9)"
    unfolding example_targets picked_def option.case
    by (intro exI[of _ "[(7, Vec3 (-1) (-1) 19, Vec3 1 1 21), (8, Vec3 (-1) (-1) 9, Vec3 1 1 11)]"] exI[of _ "Vec3 (-2) (-2) 0"]
        exI[of _ "Vec3 2 2 0"] exI[of _ "[]"] exI[of _ 3]) (auto simp: m)
  then show "picked along_z (mesh_targets cubes_and_sprite @ sprite_targets cubes_and_sprite) r \<longleftrightarrow> r = Some 9" by (rule one[OF up(1)])
  have "picked along_z (mesh_targets cubes_and_sprite) (Some 8)"
    unfolding example_targets picked_def option.case
    by (intro exI[of _ "[(7, Vec3 (-1) (-1) 19, Vec3 1 1 21)]"] exI[of _ "Vec3 (-1) (-1) 9"]
        exI[of _ "Vec3 1 1 11"] exI[of _ "[]"] exI[of _ 12]) (auto simp: m)
  then show "picked along_z (mesh_targets cubes_and_sprite) r \<longleftrightarrow> r = Some 8" by (rule one[OF up(2)])
qed

theorem click_selects_nearest_witness:
  "(\<exists>st'. clickObject plain_camera along_z 5 cubes_and_sprite (selecting None) = ret st' \<and> cs_selected st' = Some 9 \<and> cs_lastClick st' = Some 5) \<and>
   (\<exists>st'. clickObject plain_camera along_z 5 cubes_and_sprite (selecting (Some 8)) = ret st' \<and> cs_selected st' = Some 8 \<and>
     cs_camera st' = Vec3 0 0 8) \<and>
   clickObject plain_camera along_z 5 (cubes_and_sprite\<lparr>ps_meshes := [(cube_at 8 10)\<lparr>mp_mesh := Some None\<rparr>]\<rparr>) (selecting None) = fail NullDeref"
proof -
  have n: "\<forall>before. cs_lastClick (selecting s) = Some before \<longrightarrow> before \<le> 5" "cs_lastClick (selecting s) = None" "cs_selected (selecting s) = s" for s
    by (simp_all add: selecting_def)
  note c = click_selects_nearest[where cam = plain_camera and ray = along_z, OF n(1) example_boxes(2), THEN conjunct1, THEN mp, OF example_boxes(1), unfolded n example_picked]
  have "\<exists>st'. clickObject plain_camera along_z 5 cubes_and_sprite (selecting None) = ret st' \<and> cs_selected st' = Some 9 \<and> cs_lastClick st' = Some 5"
    using c[of None] by simp
  moreover have "focusCamera plain_camera (pk_position m)
      (vc_length plain_camera (vec_minus (pk_matrix m (corner (box_max b))) (pk_matrix m (corner (box_min b))))) = Vec3 0 0 8"
    if "m \<in> set (ps_meshes cubes_and_sprite)" "pk_entity m = 8" "mp_mesh m = Some (Some b)" for m b
    using that by (auto simp: cubes_and_sprite_def cube_at_def focusCamera_def plain_camera_def vec_minus_def vec_sum_def vec_times_def corner_def fin_vec_def)
  then have "\<exists>st'. clickObject plain_camera along_z 5 cubes_and_sprite (selecting (Some 8)) = ret st' \<and> cs_selected st' = Some 8 \<and>
      cs_camera st' = Vec3 0 0 8"
    using c[of "Some 8"] by auto
  moreover have "clickObject plain_camera along_z 5 (cubes_and_sprite\<lparr>ps_meshes := [(cube_at 8 10)\<lparr>mp_mesh := Some None\<rparr>]\<rparr>) (selecting None) = fail NullDeref"
    using click_selects_nearest[where cam = plain_camera and ray = along_z, OF n(1), of "cubes_and_sprite\<lparr>ps_meshes := [(cube_at 8 10)\<lparr>mp_mesh := Some None\<rparr>]\<rparr>" None] by simp
  ultimately show ?thesis by blast
qed

lemma no_face_fits: "(\<And>t x fits p. (t, x, fits) \<in> set fs \<Longrightarrow> \<not> fits p) \<Longrightarrow> fold (try_face r) fs d = d"
proof (induction fs arbitrary: d)
  case (Cons f fs)
  obtain t x fits where f: "f = (t, x, fits)" by (cases f)
  have "try_face r f d = d" using Cons.prems[of t x fits] f by (simp add: try_face_def)
  then show ?case using Cons by (metis fold_simps(2) list.set_intros(2))
qed simp

lemma inverted_box_missed:
  fixes lo hi :: "'a::linordered_field vec3"
  assumes "x3 hi < x3 lo" "y3 hi < y3 lo"
  shows "hit r \<lparr>box_min = fin_vec lo, box_max = fin_vec hi\<rparr> = PosInf"
proof -
  have "\<not> (x3 lo \<le> t \<and> t \<le> x3 hi)" "\<not> (y3 lo \<le> t \<and> t \<le> y3 hi)" for t using assms by (meson le_less_trans not_le order_trans)+
  then have none: "\<not> (\<exists>t x fits p. (t, x, fits) \<in> set (box_faces r lo hi) \<and> fits p)"
    and out: "\<not> box_contains \<lparr>box_min = fin_vec lo, box_max = fin_vec hi\<rparr> p" for p
    by (auto simp: box_faces_def Let_def box_contains_iff fin_vec_def)
  have "corner (fin_vec v) = v" for v :: "'a vec3" by (cases v) (simp add: corner_def fin_vec_def)
  moreover have "fold (try_face r) (box_faces r lo hi) PosInf = PosInf" by (rule no_face_fits) (use none in blast)
  ultimately show ?thesis using out by (simp add: hit_def)
qed

text \<open>
  The two transformed corners are not the corners of the transformed box: a box that extends in x and y and is turned by half a
  turn about the z axis is missed by every ray.
\<close>

lemma half_turn_not_hit:
  assumes "finite_box b" "x3 (corner (box_min b)) < x3 (corner (box_max b))" "y3 (corner (box_min b)) < y3 (corner (box_max b))"
  shows "hit_box r (box_transform (\<lambda>p. Vec3 (cx - x3 p) (cy - y3 p) (z3 p + cz)) b) = PosInf"
  using assms by (simp add: hit_box_def box_transform_def inverted_box_missed)

text \<open>
  A paused game that is stepped, any number of times, runs no script in any frame: the state \<open>Next\<close> is left before a system sees it as playing.
\<close>

lemma stepping_runs_nothing:
  assumes "s \<noteq> Play" "\<forall>f \<in> set fs. \<not> fst f \<and> \<not> fst (snd f)"
  shows "\<not> (\<exists>b \<in> set (fst (play_frames fs s)). b) \<and> snd (play_frames fs s) \<noteq> Play"
  using assms
proof (induction fs arbitrary: s)
  case (Cons f fs)
  obtain play pause step where f: "f = (play, pause, step)" by (cases f)
  have "fst (drawPlayButtons play pause step s) \<noteq> Play" using Cons.prems f by (auto simp: drawPlayButtons_def Let_def)
  then show ?case using Cons.IH[of "fst (drawPlayButtons play pause step s)"] Cons.prems f by (auto split: prod.split)
qed simp

end
