(* ===== verification/Assets_Window.thy ===== *)
theory Assets_Window
  imports Strings "HOL-Library.AList"
begin

text \<open>
  The assets window of the editor, \<^verbatim>\<open>src/Code/Editor/src/AssetsWindow.cpp\<close>: the tree of files it reads from a directory and the navigation in it.
  A \<^verbatim>\<open>FileInfo\<close> is owned by the map of its parent, so that the tree is a nested value; every info also has an address,
  and the raw pointers of the window (\<^verbatim>\<open>currentDir\<close>, \<^verbatim>\<open>lastDir\<close>, \<^verbatim>\<open>parent\<close>) are addresses, valid while the tree contains them.
  Addresses are not used twice. The order of the map by name is not modelled. What the file system contains is a parameter.
\<close>

section \<open>Names\<close>

text \<open>The parts of a string between runs of a delimiter; the last one is read without a test that there is one.\<close>

function parts_between :: "char \<Rightarrow> string \<Rightarrow> string list" where
  "parts_between d s = (case dropWhile (\<lambda>c. c = d) s of
       [] \<Rightarrow> []
     | c # cs \<Rightarrow> takeWhile (\<lambda>c. c \<noteq> d) (c # cs) # parts_between d (dropWhile (\<lambda>c. c \<noteq> d) (c # cs)))"
  by pat_completeness auto
termination
proof (relation "measure (\<lambda>(d, s). length s)")
  fix d s c and cs :: string
  assume s: "dropWhile (\<lambda>c. c = d) s = c # cs"
  then have "c \<noteq> d" using hd_dropWhile[of "\<lambda>c. c = d" s] by simp
  then have "length (dropWhile (\<lambda>c. c \<noteq> d) (c # cs)) \<le> length cs" by (simp add: length_dropWhile_le)
  moreover have "Suc (length cs) \<le> length s" using length_dropWhile_le[of "\<lambda>c. c = d" s] s by simp
  ultimately show "((d, dropWhile (\<lambda>c. c \<noteq> d) (c # cs)), (d, s)) \<in> measure (\<lambda>(d, s). length s)" by simp
qed simp

declare parts_between.simps [simp del]

definition last_part :: "string list \<Rightarrow> string run" where
  "last_part out = (if out = [] then fail BadIndex else ret (last out))"

definition parseFilename :: "string \<Rightarrow> char \<Rightarrow> string run" where
  "parseFilename str delim = last_part (parts_between delim str)"

definition parseFiletype :: "string \<Rightarrow> string run" where
  "parseFiletype filename = last_part (parts_between (CHR ''.'') filename)"

definition stripExtras :: "string \<Rightarrow> string" where
  "stripExtras filename = (if length filename > 11 then take 8 filename @ ''...''
     else replicate ((12 - length filename) div 2) (CHR '' '') @ filename)"

section \<open>The tree of files\<close>

datatype fs_entry = FsFile string | FsDir string "fs_entry list"

datatype info = Info (addr: nat) (file_name: string) (file_ext: string) (abs_path: string) (is_file: bool) (kind: file_type)
  (parent_dir: "nat option") (kids: "(string \<times> info) list")

fun readDirectory :: "string \<Rightarrow> nat \<Rightarrow> fs_entry list \<Rightarrow> nat \<times> (string \<times> info) list \<Rightarrow> (nat \<times> (string \<times> info) list) run" where
  "readDirectory path parent [] st = ret st"
| "readDirectory path parent (FsFile n # es) (a, cs) =
     rbind (parseFilename (path @ ''/'' @ n) (CHR ''/'')) (\<lambda>f.
     rbind (parseFiletype f) (\<lambda>ext.
     readDirectory path parent es (Suc a, AList.update f (Info a f ext (path @ ''/'' @ n) True (getFileType f) (Some parent) []) cs)))"
| "readDirectory path parent (FsDir n sub # es) (a, cs) =
     rbind (parseFilename (path @ ''/'' @ n) (CHR ''/'')) (\<lambda>f.
     rbind (parseFiletype f) (\<lambda>ext.
     rbind (readDirectory (path @ ''/'' @ n) a sub (Suc a, [])) (\<lambda>(b, ks).
     readDirectory path parent es (b, AList.update f (Info a f ext (path @ ''/'' @ n) False Folder (Some parent) ks) cs))))"

fun find_info :: "nat \<Rightarrow> info \<Rightarrow> info option"
  and find_infos :: "nat \<Rightarrow> (string \<times> info) list \<Rightarrow> info option" where
  "find_info p (Info a f x ap b k pa cs) = (if a = p then Some (Info a f x ap b k pa cs) else find_infos p cs)"
| "find_infos p [] = None"
| "find_infos p ((n, i) # cs) = (case find_info p i of Some j \<Rightarrow> Some j | None \<Rightarrow> find_infos p cs)"

text \<open>Replacing the children of the info at an address; the old children are destroyed with all below them.\<close>

fun put_kids :: "nat \<Rightarrow> (string \<times> info) list \<Rightarrow> info \<Rightarrow> info"
  and put_kids_in :: "nat \<Rightarrow> (string \<times> info) list \<Rightarrow> (string \<times> info) list \<Rightarrow> (string \<times> info) list" where
  "put_kids p ks (Info a f x ap b k pa cs) = Info a f x ap b k pa (if a = p then ks else put_kids_in p ks cs)"
| "put_kids_in p ks [] = []"
| "put_kids_in p ks ((n, i) # cs) = (n, put_kids p ks i) # put_kids_in p ks cs"

section \<open>The window\<close>

record assets =
  as_root :: info
  as_next :: nat
  currentDir :: nat
  lastDir :: nat

text \<open>A listing of a path, \<open>None\<close> when there is no such directory.\<close>

type_synonym listing = "string \<Rightarrow> fs_entry list option"

definition list_directory :: "listing \<Rightarrow> string \<Rightarrow> nat \<Rightarrow> nat \<Rightarrow> (nat \<times> (string \<times> info) list) run" where
  "list_directory fs path parent a = (case fs path of
       None \<Rightarrow> fail (RuntimeError ''directory_iterator: No such file or directory'')
     | Some es \<Rightarrow> readDirectory path parent es (a, []))"

definition AssetsWindow :: "listing \<Rightarrow> assets run" where
  "AssetsWindow fs = rbind (list_directory fs ''.'' 0 1) (\<lambda>(n, ks).
     ret \<lparr>as_root = Info 0 '''' '''' ''.'' False Normal None ks, as_next = n, currentDir = 0, lastDir = 0\<rparr>)"

text \<open>Every use of a raw pointer looks the info up.\<close>

definition deref :: "nat \<Rightarrow> assets \<Rightarrow> info run" where
  "deref p s = (case find_info p (as_root s) of Some i \<Rightarrow> ret i | None \<Rightarrow> fail Dangling)"

text \<open>What the right column lists: the hidden files are left out. The window's filter is a parameter.\<close>

definition draw_assets :: "(string \<Rightarrow> bool) \<Rightarrow> bool \<Rightarrow> assets \<Rightarrow> (string \<times> string list) run" where
  "draw_assets passes showHidden s = rbind (deref (currentDir s) s) (\<lambda>i.
     ret (abs_path i, filter (\<lambda>n. (showHidden \<or> \<not> isHiddenFile n) \<and> passes n) (map fst (kids i))))"

definition enter :: "info \<Rightarrow> assets \<Rightarrow> assets" where
  "enter i s = (if is_file i then s else s\<lparr>lastDir := addr i, currentDir := addr i\<rparr>)"

text \<open>A double click on a file of the current folder, and a click on a folder of the tree.\<close>

definition open_child :: "string \<Rightarrow> assets \<Rightarrow> assets run" where
  "open_child name s = rbind (deref (currentDir s) s) (\<lambda>i. case map_of (kids i) name of
       Some c \<Rightarrow> ret (enter c s) | None \<Rightarrow> ret s)"

definition open_folder :: "nat \<Rightarrow> assets \<Rightarrow> assets run" where
  "open_folder p s = (case find_infos p (kids (as_root s)) of Some i \<Rightarrow> ret (enter i s) | None \<Rightarrow> ret s)"

definition go_back :: "assets \<Rightarrow> assets run" where
  "go_back s = rbind (deref (currentDir s) s) (\<lambda>i. case parent_dir i of
       Some p \<Rightarrow> ret (s\<lparr>lastDir := currentDir s, currentDir := p\<rparr>) | None \<Rightarrow> ret s)"

definition forward :: "assets \<Rightarrow> assets" where
  "forward s = s\<lparr>currentDir := lastDir s\<rparr>"

definition refresh_folder :: "listing \<Rightarrow> assets \<Rightarrow> assets run" where
  "refresh_folder fs s = rbind (deref (currentDir s) s) (\<lambda>i.
     rbind (list_directory fs (abs_path i) (currentDir s) (as_next s)) (\<lambda>(n, ks).
     ret (s\<lparr>as_root := put_kids (currentDir s) ks (as_root s), as_next := n\<rparr>)))"

section \<open>Sessions\<close>

datatype assets_op = OpenChild string | OpenFolder nat | GoBack | GoForward | Refresh

fun assets_step :: "listing \<Rightarrow> assets_op \<Rightarrow> assets \<Rightarrow> assets run" where
  "assets_step fs (OpenChild n) s = open_child n s"
| "assets_step fs (OpenFolder p) s = open_folder p s"
| "assets_step fs GoBack s = go_back s"
| "assets_step fs GoForward s = ret (forward s)"
| "assets_step fs Refresh s = refresh_folder fs s"

text \<open>After every click the window is drawn again, which reads the current directory.\<close>

fun assets_session :: "listing \<Rightarrow> assets_op list \<Rightarrow> assets \<Rightarrow> assets run" where
  "assets_session fs [] s = ret s"
| "assets_session fs (x # xs) s = rbind (assets_step fs x s) (\<lambda>t.
     rbind (draw_assets (\<lambda>_. True) False t) (\<lambda>_. assets_session fs xs t))"

section \<open>Reading a directory\<close>

lemma parts_stop: "dropWhile (\<lambda>c. c = d) s = [] \<Longrightarrow> parts_between d s = []"
  by (subst parts_between.simps) (simp only: list.case)

lemma parts_step: "dropWhile (\<lambda>c. c = d) s = c # cs \<Longrightarrow>
    parts_between d s = takeWhile (\<lambda>c. c \<noteq> d) (c # cs) # parts_between d (dropWhile (\<lambda>c. c \<noteq> d) (c # cs))"
  by (subst parts_between.simps) (simp only: list.case)

lemma parts_nil: "parts_between d s = [] \<longleftrightarrow> (\<forall>c\<in>set s. c = d)"
proof (cases "dropWhile (\<lambda>c. c = d) s")
  case Nil
  then show ?thesis using parts_stop[OF Nil] by (simp add: dropWhile_eq_Nil_conv)
next
  case (Cons c cs)
  then show ?thesis using parts_step[OF Cons] dropWhile_eq_Nil_conv[of "\<lambda>c. c = d" s] by auto
qed

lemma parts_whole: "d \<notin> set s \<Longrightarrow> s \<noteq> [] \<Longrightarrow> parts_between d s = [s]"
proof -
  assume d: "d \<notin> set s" and s: "s \<noteq> []"
  obtain c cs where e: "s = c # cs" using s by (cases s) auto
  have dw: "dropWhile (\<lambda>c. c = d) s = c # cs" using d e by auto
  have tk: "takeWhile (\<lambda>c. c \<noteq> d) (c # cs) = s" "dropWhile (\<lambda>c. c \<noteq> d) (c # cs) = []"
    using d e by (auto simp: takeWhile_eq_all_conv dropWhile_eq_Nil_conv)
  show ?thesis using parts_step[OF dw] by (simp only: tk parts_nil) (simp add: parts_nil)
qed

lemma parts_skip: "parts_between d (d # s) = parts_between d s"
  by (subst (1 2) parts_between.simps) simp

lemma parts_append: "parts_between d (s @ d # t) = parts_between d s @ parts_between d t"
proof (induction d s rule: parts_between.induct)
  case (1 d s)
  show ?case
  proof (cases "dropWhile (\<lambda>c. c = d) s")
    case Nil
    then have s: "\<forall>c\<in>set s. c = d" by (simp add: dropWhile_eq_Nil_conv)
    then have "parts_between d (s @ d # t) = parts_between d t" by (induction s) (auto simp: parts_skip)
    with s show ?thesis by (simp add: parts_nil[THEN iffD2])
  next
    case (Cons c cs)
    have c: "c \<noteq> d" using hd_dropWhile[of "\<lambda>c. c = d" s] Cons by simp
    have "\<exists>x\<in>set s. x \<noteq> d" using Cons dropWhile_eq_Nil_conv[of "\<lambda>c. c = d" s] by auto
    then have dw: "dropWhile (\<lambda>c. c = d) (s @ d # t) = c # cs @ d # t"
      using Cons dropWhile_append1[of _ s "\<lambda>c. c = d" "d # t"] by auto
    have IH: "parts_between d (dropWhile (\<lambda>c. c \<noteq> d) (c # cs) @ d # t)
        = parts_between d (dropWhile (\<lambda>c. c \<noteq> d) (c # cs)) @ parts_between d t"
      using "1.IH"[OF Cons] .
    have tk: "takeWhile (\<lambda>c. c \<noteq> d) (cs @ d # t) = takeWhile (\<lambda>c. c \<noteq> d) cs"
      by (induction cs) auto
    have dr: "parts_between d (dropWhile (\<lambda>c. c \<noteq> d) (cs @ d # t))
        = parts_between d (dropWhile (\<lambda>c. c \<noteq> d) cs @ d # t)"
      by (induction cs) auto
    show ?thesis
      using c IH by (subst (1 2) parts_between.simps) (simp add: dw Cons tk dr)
  qed
qed

definition good_name :: "string \<Rightarrow> bool" where
  "good_name n \<longleftrightarrow> CHR ''/'' \<notin> set n \<and> (\<exists>c\<in>set n. c \<noteq> CHR ''.'')"

fun entry_name :: "fs_entry \<Rightarrow> string" where
  "entry_name (FsFile n) = n"
| "entry_name (FsDir n es) = n"

fun well_named :: "fs_entry \<Rightarrow> bool" where
  "well_named (FsFile n) \<longleftrightarrow> good_name n"
| "well_named (FsDir n es) \<longleftrightarrow> good_name n \<and> list_all well_named es \<and> distinct (map entry_name es)"

lemma good_name_parses:
  assumes "good_name n"
  shows "parseFilename (path @ ''/'' @ n) (CHR ''/'') = ret n"
proof -
  have "CHR ''/'' \<notin> set n" "n \<noteq> []" using assms by (auto simp: good_name_def)
  then have "parts_between (CHR ''/'') n = [n]" by (rule parts_whole)
  then show ?thesis by (simp add: parseFilename_def last_part_def parts_append)
qed

lemma good_name_type: "good_name n \<Longrightarrow> \<exists>x. parseFiletype n = ret x"
  by (auto simp: good_name_def parseFiletype_def last_part_def parts_nil)

text \<open>A node of the tree that shows an entry of the file system: the name, the full path, the parent, and below a folder one node for each entry.\<close>

fun info_shows :: "string \<Rightarrow> nat \<Rightarrow> fs_entry \<Rightarrow> string \<times> info \<Rightarrow> bool" where
  "info_shows path parent (FsFile n) (k, i) \<longleftrightarrow> k = n \<and> file_name i = n \<and> abs_path i = path @ ''/'' @ n \<and>
     parseFiletype n = ret (file_ext i) \<and> is_file i \<and> kind i = getFileType n \<and> parent_dir i = Some parent \<and> kids i = []"
| "info_shows path parent (FsDir n es) (k, i) \<longleftrightarrow> k = n \<and> file_name i = n \<and> abs_path i = path @ ''/'' @ n \<and>
     parseFiletype n = ret (file_ext i) \<and> \<not> is_file i \<and> kind i = Folder \<and> parent_dir i = Some parent \<and>
     list_all2 (info_shows (path @ ''/'' @ n) (addr i)) es (kids i)"

fun info_addrs :: "info \<Rightarrow> nat list" and kids_addrs :: "(string \<times> info) list \<Rightarrow> nat list" where
  "info_addrs (Info a f x ap b k pa cs) = a # kids_addrs cs"
| "kids_addrs [] = []"
| "kids_addrs ((n, i) # cs) = info_addrs i @ kids_addrs cs"

lemma update_new: "k \<notin> fst ` set cs \<Longrightarrow> AList.update k v cs = cs @ [(k, v)]"
  by (induction cs) auto

lemma readDirectory_shows:
  assumes "list_all well_named es" and "distinct (map entry_name es)"
    and "set (map entry_name es) \<inter> fst ` set (snd st) = {}"
  shows "\<exists>b ks. readDirectory path parent es st = ret (b, snd st @ ks) \<and> list_all2 (info_shows path parent) es ks \<and>
    fst st \<le> b \<and> kids_addrs ks = [fst st..<b]"
  using assms
proof (induction path parent es st rule: readDirectory.induct)
  case (1 path parent st)
  show ?case by (rule exI[of _ "fst st"], rule exI[of _ "[]"]) simp
next
  case (2 path parent n es a cs)
  have g: "good_name n" and new: "n \<notin> fst ` set cs" using "2.prems" by auto
  obtain x where x: "parseFiletype n = ret x" using good_name_type[OF g] by blast
  let ?i = "Info a n x (path @ ''/'' @ n) True (getFileType n) (Some parent) []"
  have "\<exists>b ks. readDirectory path parent es (Suc a, cs @ [(n, ?i)]) = ret (b, (cs @ [(n, ?i)]) @ ks) \<and>
      list_all2 (info_shows path parent) es ks \<and> Suc a \<le> b \<and> kids_addrs ks = [Suc a..<b]"
    using "2.IH"[of n x] "2.prems" update_new[OF new, of ?i] by auto
  then obtain b ks where r: "readDirectory path parent es (Suc a, cs @ [(n, ?i)]) = ret (b, (cs @ [(n, ?i)]) @ ks)"
    and l: "list_all2 (info_shows path parent) es ks" "Suc a \<le> b" "kids_addrs ks = [Suc a..<b]" by blast
  have up: "[a..<b] = a # [Suc a..<b]" using l(2) by (simp add: upt_conv_Cons)
  show ?case
    using r l x new up
    by (intro exI[of _ b] exI[of _ "(n, ?i) # ks"]) (simp add: good_name_parses[OF g, simplified] update_new)
next
  case (3 path parent n sub es a cs)
  have g: "good_name n" and new: "n \<notin> fst ` set cs" using "3.prems" by auto
  obtain x where x: "parseFiletype n = ret x" using good_name_type[OF g] by blast
  have "\<exists>b ks. readDirectory (path @ ''/'' @ n) a sub (Suc a, []) = ret (b, ks) \<and>
      list_all2 (info_shows (path @ ''/'' @ n) a) sub ks \<and> Suc a \<le> b \<and> kids_addrs ks = [Suc a..<b]"
    using "3.IH"(1) "3.prems" by auto
  then obtain b ks where s: "readDirectory (path @ ''/'' @ n) a sub (Suc a, []) = ret (b, ks)"
    and sl: "list_all2 (info_shows (path @ ''/'' @ n) a) sub ks" "Suc a \<le> b" "kids_addrs ks = [Suc a..<b]" by blast
  let ?i = "Info a n x (path @ ''/'' @ n) False Folder (Some parent) ks"
  have "\<exists>c ls. readDirectory path parent es (b, cs @ [(n, ?i)]) = ret (c, (cs @ [(n, ?i)]) @ ls) \<and>
      list_all2 (info_shows path parent) es ls \<and> b \<le> c \<and> kids_addrs ls = [b..<c]"
    using "3.IH"(2)[of b n x ks] "3.prems" update_new[OF new, of ?i] by auto
  then obtain c ls where r: "readDirectory path parent es (b, cs @ [(n, ?i)]) = ret (c, (cs @ [(n, ?i)]) @ ls)"
    and l: "list_all2 (info_shows path parent) es ls" "b \<le> c" "kids_addrs ls = [b..<c]" by blast
  have up: "a # [Suc a..<b] @ [b..<c] = [a..<c]"
    using sl(2) l(2) upt_add_eq_append[of "Suc a" b "c - b"] by (simp add: upt_conv_Cons)
  show ?case
    using r l s sl x new up
    by (intro exI[of _ c] exI[of _ "(n, ?i) # ls"]) (simp add: good_name_parses[OF g, simplified] update_new)
qed

text \<open>
  When the names the file system reports are names of files, each with a character that is not a dot and no two equal in one directory,
  reading a directory returns, and the tree it returns is the directory: one node for each entry, in order, with its name, its full path, its
  kind and the address of its parent, and below a folder again its entries; the addresses of the nodes are new and all different.
\<close>

theorem reading_shows_directory:
  assumes "list_all well_named es" and "distinct (map entry_name es)"
  shows "\<exists>b ks. readDirectory path parent es (a, []) = ret (b, ks) \<and> list_all2 (info_shows path parent) es ks \<and>
    a \<le> b \<and> kids_addrs ks = [a..<b]"
  using readDirectory_shows[OF assms, of "(a, [])"] by simp

lemma reading_shows_directory_witness:
  "\<exists>b ks. readDirectory ''.'' 0 [FsFile ''a.lua'', FsDir ''src'' [FsFile ''b'']] (1, []) = ret (b, ks) \<and>
     list_all2 (info_shows ''.'' 0) [FsFile ''a.lua'', FsDir ''src'' [FsFile ''b'']] ks \<and> 1 \<le> b \<and> kids_addrs ks = [1..<b]"
  by (rule reading_shows_directory) (simp_all add: good_name_def)

text \<open>A name of dots only has no part, and the code reads the last part of none.\<close>

lemma dots_read_nothing:
  assumes "\<forall>c\<in>set n. c = CHR ''.''" and "n \<noteq> []"
  shows "readDirectory path parent (FsFile n # es) (a, cs) = fail BadIndex"
proof -
  have "CHR ''/'' \<noteq> CHR ''.''" by simp
  then have "CHR ''/'' \<notin> set n" using assms(1) by blast
  then have "parseFilename (path @ ''/'' @ n) (CHR ''/'') = ret n"
    using parts_whole[of "CHR ''/''" n] assms(2) by (simp add: parseFilename_def last_part_def parts_append)
  moreover have "parseFiletype n = fail BadIndex" using assms by (simp add: parseFiletype_def last_part_def parts_nil)
  ultimately show ?thesis by simp
qed

section \<open>Navigation\<close>

fun parent_linked :: "nat option \<Rightarrow> info \<Rightarrow> bool" and linked_in :: "nat \<Rightarrow> (string \<times> info) list \<Rightarrow> bool" where
  "parent_linked pa (Info a f x ap b k p cs) \<longleftrightarrow> p = pa \<and> linked_in a cs"
| "linked_in a [] \<longleftrightarrow> True"
| "linked_in a ((n, i) # cs) \<longleftrightarrow> parent_linked (Some a) i \<and> linked_in a cs"

lemma linked_in_update:
  "linked_in a cs \<Longrightarrow> parent_linked (Some a) i \<Longrightarrow> linked_in a (AList.update n i cs)"
  by (induction cs) auto

lemma readDirectory_linked:
  "readDirectory path parent es st = ret (b, ks) \<Longrightarrow> linked_in parent (snd st) \<Longrightarrow> linked_in parent ks"
proof (induction path parent es st arbitrary: b ks rule: readDirectory.induct)
  case (1 path parent st)
  then show ?case by (cases st) simp
next
  case (2 path parent n es a cs)
  then show ?case by (fastforce dest!: rbind_ret_eqD simp: linked_in_update)
next
  case (3 path parent n sub es a cs)
  from "3.prems"(1) obtain f x c ls where s: "readDirectory (path @ ''/'' @ n) a sub (Suc a, []) = ret (c, ls)"
    and r: "readDirectory path parent es (c, AList.update f (Info a f x (path @ ''/'' @ n) False Folder (Some parent) ls) cs) = ret (b, ks)"
    by (auto dest!: rbind_ret_eqD)
  have "linked_in a ls" using "3.IH"(1)[OF s] by simp
  then show ?case using "3.IH"(2)[OF r] "3.prems"(2) by (simp add: linked_in_update)
qed

lemma addr_listed: "addr i \<in> set (info_addrs i)"
  by (cases i) simp

lemma find_info_listed:
  "p \<in> set (info_addrs i) \<Longrightarrow> \<exists>j. find_info p i = Some j"
  "p \<in> set (kids_addrs cs) \<Longrightarrow> \<exists>j. find_infos p cs = Some j"
  by (induction p i and p cs rule: find_info_find_infos.induct) (auto split: option.splits)

lemma find_info_some:
  "find_info p i = Some j \<Longrightarrow> addr j = p \<and> set (info_addrs j) \<subseteq> set (info_addrs i)"
  "find_infos p cs = Some j \<Longrightarrow> addr j = p \<and> set (info_addrs j) \<subseteq> set (kids_addrs cs)"
  by (induction p i and p cs rule: find_info_find_infos.induct) (auto split: if_splits option.splits)

lemma find_info_parent:
  "find_info p i = Some j \<Longrightarrow> parent_linked pa i \<Longrightarrow> parent_dir j = pa \<or> (\<exists>q\<in>set (info_addrs i). parent_dir j = Some q)"
  "find_infos p cs = Some j \<Longrightarrow> linked_in a cs \<Longrightarrow> parent_dir j = Some a \<or> (\<exists>q\<in>set (kids_addrs cs). parent_dir j = Some q)"
proof (induction p i and p cs arbitrary: pa and a rule: find_info_find_infos.induct)
  case (1 p a f x ap b k pa cs)
  then show ?case by (auto split: if_splits)
next
  case (3 p n i cs)
  show ?case
  proof (cases "find_info p i")
    case None
    then show ?thesis using 3 by auto
  next
    case (Some l)
    then have "find_info p i = Some j" using "3.prems"(1) by simp
    then show ?thesis using "3.IH"(1)[of "Some a"] "3.prems" by auto
  qed
qed simp

lemma kid_listed: "map_of (kids i) n = Some c \<Longrightarrow> addr c \<in> set (info_addrs i)"
proof (cases i)
  case (Info a f x ap b k pa cs)
  have "map_of cs n = Some c \<Longrightarrow> addr c \<in> set (kids_addrs cs)"
    by (induction cs) (auto split: if_splits simp: addr_listed)
  then show "map_of (kids i) n = Some c \<Longrightarrow> addr c \<in> set (info_addrs i)" using Info by simp
qed

lemma put_kids_linked:
  "parent_linked pa i \<Longrightarrow> linked_in p ks \<Longrightarrow> parent_linked pa (put_kids p ks i)"
  "linked_in a cs \<Longrightarrow> linked_in p ks \<Longrightarrow> linked_in a (put_kids_in p ks cs)"
  by (induction p ks i and p ks cs arbitrary: pa and a rule: put_kids_put_kids_in.induct) auto

lemma put_kids_listed:
  "p \<in> set (info_addrs i) \<Longrightarrow> p \<in> set (info_addrs (put_kids p ks i))"
  "p \<in> set (kids_addrs cs) \<Longrightarrow> p \<in> set (kids_addrs (put_kids_in p ks cs))"
  by (induction p ks i and p ks cs rule: put_kids_put_kids_in.induct) auto

definition navigable :: "assets \<Rightarrow> bool" where
  "navigable s \<longleftrightarrow> parent_linked None (as_root s) \<and> currentDir s \<in> set (info_addrs (as_root s))"

definition remembers :: "assets \<Rightarrow> bool" where
  "remembers s \<longleftrightarrow> lastDir s \<in> set (info_addrs (as_root s))"

lemma deref_current: "navigable s \<Longrightarrow> \<exists>i. deref (currentDir s) s = ret i \<and> find_info (currentDir s) (as_root s) = Some i"
  using find_info_listed(1) by (force simp: navigable_def deref_def)

lemma rbind_not_dangling:
  "m \<noteq> fail Dangling \<Longrightarrow> (\<And>x. m = ret x \<Longrightarrow> f x \<noteq> fail Dangling) \<Longrightarrow> rbind m f \<noteq> fail Dangling"
  by (cases m rule: run_cases) auto

lemma parse_not_dangling: "parseFilename p d \<noteq> fail Dangling" "parseFiletype n \<noteq> fail Dangling"
  by (auto simp: parseFilename_def parseFiletype_def last_part_def )

lemma readDirectory_no_dangling: "readDirectory path parent es st \<noteq> fail Dangling"
proof (induction path parent es st rule: readDirectory.induct)
  case (1 path parent st)
  then show ?case by simp
next
  case (2 path parent n es a cs)
  show ?case
    unfolding readDirectory.simps by (intro rbind_not_dangling parse_not_dangling "2.IH")
next
  case (3 path parent n sub es a cs)
  have rest: "(case p of (b, ks) \<Rightarrow> readDirectory path parent es
      (b, AList.update f (Info a f x (path @ ''/'' @ n) False Folder (Some parent) ks) cs)) \<noteq> fail Dangling" for f x p
    using "3.IH"(2) by (cases p) simp
  show ?case
    unfolding readDirectory.simps by (intro rbind_not_dangling parse_not_dangling "3.IH"(1) rest)
qed

lemma enter_navigable:
  assumes "navigable s" and "addr i \<in> set (info_addrs (as_root s))"
  shows "navigable (enter i s)" and "remembers s \<Longrightarrow> remembers (enter i s)"
  using assms by (auto simp: enter_def navigable_def remembers_def)

lemma step_safe:
  assumes "navigable s" and "x = GoForward \<Longrightarrow> remembers s"
  shows "assets_step fs x s \<noteq> fail Dangling"
    and "assets_step fs x s = ret t \<Longrightarrow> navigable t \<and> (x \<noteq> Refresh \<longrightarrow> remembers s \<longrightarrow> remembers t)"
proof -
  obtain i where i: "deref (currentDir s) s = ret i" "find_info (currentDir s) (as_root s) = Some i"
    using deref_current[OF assms(1)] by blast
  have up: "addr i = currentDir s" "set (info_addrs i) \<subseteq> set (info_addrs (as_root s))" using find_info_some(1)[OF i(2)] by auto
  have par: "parent_dir i = None \<or> (\<exists>q\<in>set (info_addrs (as_root s)). parent_dir i = Some q)"
    using find_info_parent(1)[OF i(2)] assms(1) by (simp add: navigable_def)
  have kid: "addr c \<in> set (info_addrs (as_root s))" if "map_of (kids i) n = Some c" for n c
    using kid_listed[OF that] up(2) by blast
  have below: "addr j \<in> set (info_addrs (as_root s))" if "find_infos p (kids (as_root s)) = Some j" for p j
    using find_info_some(2)[OF that] addr_listed[of j] by (cases "as_root s") auto
  have "assets_step fs x s \<noteq> fail Dangling \<and>
    (\<forall>t. assets_step fs x s = ret t \<longrightarrow> navigable t \<and> (x \<noteq> Refresh \<longrightarrow> remembers s \<longrightarrow> remembers t))"
  proof (cases x)
    case (OpenChild n)
    then show ?thesis
      using assms(1) kid enter_navigable[OF assms(1)]
      by (auto simp: open_child_def i(1)  split: option.splits)
  next
    case (OpenFolder p)
    then show ?thesis
      using assms(1) below enter_navigable[OF assms(1)]
      by (auto simp: open_folder_def  split: option.splits)
  next
    case GoBack
    then show ?thesis
      using assms(1) par by (auto simp: go_back_def i(1)  navigable_def remembers_def)
  next
    case GoForward
    then show ?thesis
      using assms by (auto simp: forward_def  navigable_def remembers_def)
  next
    case Refresh
    show ?thesis
    proof (cases "fs (abs_path i)")
      case None
      then show ?thesis using Refresh by (simp add: refresh_folder_def i(1) list_directory_def )
    next
      case (Some es)
      show ?thesis
      proof (cases "readDirectory (abs_path i) (currentDir s) es (as_next s, [])" rule: run_cases)
        case (3 y)
        obtain n ks where y: "y = (n, ks)" by (cases y)
        have "linked_in (currentDir s) ks" using readDirectory_linked[OF 3[unfolded y]] by simp
        then show ?thesis
          using Refresh 3 y Some assms(1) put_kids_linked(1) put_kids_listed(1)
          by (auto simp: refresh_folder_def i(1) list_directory_def navigable_def)
      next
        case (2 e)
        then show ?thesis
          using Refresh Some readDirectory_no_dangling[of "abs_path i" "currentDir s" es "(as_next s, [])"]
          by (auto simp: refresh_folder_def i(1) list_directory_def)
      qed (use Refresh Some in \<open>simp add: refresh_folder_def i(1) list_directory_def \<close>)
    qed
  qed
  then show "assets_step fs x s \<noteq> fail Dangling"
    and "assets_step fs x s = ret t \<Longrightarrow> navigable t \<and> (x \<noteq> Refresh \<longrightarrow> remembers s \<longrightarrow> remembers t)" by auto
qed

lemma session_safe:
  assumes "navigable s" and "GoForward \<in> set xs \<Longrightarrow> remembers s"
    and "\<And>ys zs. xs = ys @ Refresh # zs \<Longrightarrow> GoForward \<notin> set zs"
  shows "assets_session fs xs s \<noteq> fail Dangling"
  using assms
proof (induction xs arbitrary: s)
  case Nil
  then show ?case by simp
next
  case (Cons x xs)
  show ?case
  proof (cases "assets_step fs x s" rule: run_cases)
    case (3 t)
    have t: "navigable t" "x \<noteq> Refresh \<longrightarrow> remembers s \<longrightarrow> remembers t"
      using step_safe(2)[OF Cons.prems(1) _ 3] Cons.prems(2) by auto
    obtain i where "deref (currentDir t) t = Some (Inr i)" using deref_current[OF t(1)] by (auto simp: ret_def)
    then have "\<exists>v. draw_assets (\<lambda>_. True) False t = ret v" by (simp add: draw_assets_def rbind_def ret_def)
    moreover have "assets_session fs xs t \<noteq> fail Dangling"
    proof (rule Cons.IH[OF t(1)])
      show "remembers t" if "GoForward \<in> set xs"
        using that t(2) Cons.prems(2) Cons.prems(3)[of "[]" xs] by auto
      show "GoForward \<notin> set zs" if "xs = ys @ Refresh # zs" for ys zs
        using that Cons.prems(3)[of "x # ys" zs] by simp
    qed
    ultimately show ?thesis using 3 by auto
  next
    case (2 e)
    then show ?thesis using step_safe(1)[OF Cons.prems(1), of x fs] Cons.prems(2) by auto
  qed simp
qed

definition window_session :: "listing \<Rightarrow> assets_op list \<Rightarrow> assets run" where
  "window_session fs xs = rbind (AssetsWindow fs) (assets_session fs xs)"

lemma fresh_window:
  assumes "AssetsWindow fs = ret s"
  shows "navigable s \<and> remembers s"
proof -
  obtain n ks where r: "list_directory fs ''.'' 0 1 = ret (n, ks)"
    and s: "s = \<lparr>as_root = Info 0 '''' '''' ''.'' False Normal None ks, as_next = n, currentDir = 0, lastDir = 0\<rparr>"
    using assms by (auto simp: AssetsWindow_def dest!: rbind_ret_eqD)
  have "linked_in 0 ks"
    using r by (auto simp: list_directory_def split: option.splits dest: readDirectory_linked)
  then show ?thesis by (simp add: s navigable_def remembers_def)
qed

text \<open>
  C40: A session of clicks in the assets window, each followed by drawing, in which the arrow to the right is not clicked any more once the
  window has been refreshed, uses no destroyed node, whatever the file system lists: before the first refresh all clicks
  are allowed in any order, and the current directory and every parent the arrow to the left goes to are nodes of the tree throughout.
\<close>

theorem navigation_never_dangles:
  assumes "\<And>ys zs. xs = ys @ Refresh # zs \<Longrightarrow> GoForward \<notin> set zs"
  shows "window_session fs xs \<noteq> fail Dangling"
  unfolding window_session_def
proof (rule rbind_not_dangling)
  show "AssetsWindow fs \<noteq> fail Dangling"
    unfolding AssetsWindow_def list_directory_def
    by (rule rbind_not_dangling) (auto simp: readDirectory_no_dangling split: option.splits)
  show "assets_session fs xs s \<noteq> fail Dangling" if "AssetsWindow fs = ret s" for s
    using session_safe[of s xs fs] fresh_window[OF that] assms by blast
qed

text \<open>A folder is entered, left, entered again with the arrow to the right and refreshed when a file has been added to it.\<close>

lemma navigation_never_dangles_witness:
  "window_session (\<lambda>p. if p = ''.'' then Some [FsDir ''a'' []] else Some [FsFile ''b'']) [OpenChild ''a'', GoBack, GoForward, Refresh, GoBack] \<noteq> fail Dangling \<and>
   (\<exists>s. window_session (\<lambda>p. if p = ''.'' then Some [FsDir ''a'' []] else Some [FsFile ''b'']) [OpenChild ''a'', GoBack, GoForward, Refresh, GoBack] = ret s \<and>
      currentDir s = 0 \<and> lastDir s = 1)"
proof
  let ?fs = "\<lambda>p. if p = ''.'' then Some [FsDir ''a'' []] else Some [FsFile ''b'']"
  show "window_session ?fs [OpenChild ''a'', GoBack, GoForward, Refresh, GoBack] \<noteq> fail Dangling"
    by (rule navigation_never_dangles) (auto simp: Cons_eq_append_conv)
  have "map_option (\<lambda>r. case r of Inr s \<Rightarrow> currentDir s = 0 \<and> lastDir s = 1 | Inl _ \<Rightarrow> False)
      (window_session ?fs [OpenChild ''a'', GoBack, GoForward, Refresh, GoBack]) = Some True" (is "map_option ?p ?m = _") by code_simp
  then obtain z where "?m = Some z" "?p z" by auto
  then show "\<exists>s. window_session ?fs [OpenChild ''a'', GoBack, GoForward, Refresh, GoBack] = ret s \<and> currentDir s = 0 \<and> lastDir s = 1"
    by (cases z) (auto simp: ret_def)
qed

lemma folder_listed:
  assumes "list_all2 (info_shows path parent) es ks" and "FsDir d sub \<in> set es" and "distinct (map entry_name es)"
  obtains i where "map_of ks d = Some i" "\<not> is_file i" "parent_dir i = Some parent" "addr i \<in> set (kids_addrs ks)"
  using assms
proof (induction es ks arbitrary: thesis rule: list_all2_induct)
  case (Cons e es k ks)
  obtain n i where k: "k = (n, i)" by (cases k)
  have n: "n = entry_name e" using Cons.hyps(1) k by (cases e) auto
  show ?case
  proof (cases "e = FsDir d sub")
    case True
    then show ?thesis using Cons.hyps(1) Cons.prems(1)[of i] k addr_listed[of i] by simp
  next
    case False
    then have m: "FsDir d sub \<in> set es" using Cons.prems(2) by simp
    then have "d \<in> entry_name ` set es" by force
    then have "n \<noteq> d" using Cons.prems(3) n by auto
    then show ?thesis using Cons.IH[OF _ m] Cons.prems(1,3) k by fastforce
  qed
qed simp

lemma find_info_none:
  "p \<notin> set (info_addrs i) \<Longrightarrow> find_info p i = None"
  "p \<notin> set (kids_addrs cs) \<Longrightarrow> find_infos p cs = None"
  using find_info_some(1)[of p i] find_info_some(2)[of p cs] addr_listed by (metis option.exhaust subset_eq)+

lemma find_own: "find_info (addr i) i = Some i"
  by (cases i) simp

lemma find_kid:
  "map_of ks d = Some i \<Longrightarrow> distinct (kids_addrs ks) \<Longrightarrow> find_infos (addr i) ks = Some i"
proof (induction ks)
  case (Cons k ks)
  obtain n j where k: "k = (n, j)" by (cases k)
  show ?case
  proof (cases "n = d")
    case True
    then show ?thesis using Cons.prems k by (simp add: find_own)
  next
    case False
    then have m: "map_of ks d = Some i" using Cons.prems(1) k by simp
    then have "addr i \<in> set (kids_addrs ks)"
      by (induction ks) (auto split: if_splits simp: addr_listed)
    then have "find_info (addr i) j = None" using Cons.prems(2) k by (intro find_info_none(1)) auto
    then show ?thesis using Cons.IH[OF m] Cons.prems(2) k by simp
  qed
qed simp

text \<open>
  Going into any folder of the project directory, back with the left arrow, refreshing and then pressing the right arrow uses the node of the
  folder after the refresh has destroyed it: the remembered directory is not reset, and the drawing that follows reads it.
\<close>

theorem forward_after_refresh:
  assumes "fs ''.'' = Some es" and "list_all well_named es" and "distinct (map entry_name es)" and "FsDir d sub \<in> set es"
  shows "window_session fs [OpenChild d, GoBack, Refresh, GoForward] = fail Dangling"
proof -
  obtain n ks where r: "readDirectory ''.'' 0 es (1, []) = ret (n, ks)" "list_all2 (info_shows ''.'' 0) es ks"
    and n: "kids_addrs ks = [1..<n]"
    using readDirectory_shows[OF assms(2,3), of "(1, [])" "''.''" 0] by auto
  obtain m ks' where r': "readDirectory ''.'' 0 es (n, []) = ret (m, ks')" and m: "kids_addrs ks' = [n..<m]"
    using readDirectory_shows[OF assms(2,3), of "(n, [])" "''.''" 0] by auto
  obtain i where i: "map_of ks d = Some i" "\<not> is_file i" "parent_dir i = Some 0" "addr i \<in> set (kids_addrs ks)"
    using folder_listed[OF r(2) assms(4,3)] .
  have p: "addr i \<noteq> 0" "addr i \<notin> set (kids_addrs ks')" using i(4) n m by auto
  have found: "find_infos (addr i) ks = Some i" using find_kid[OF i(1)] n by simp
  have gone: "find_infos (addr i) ks' = None" using find_info_none(2)[OF p(2)] .
  show ?thesis
    using assms(1) r(1) r' i p(1) found gone
    by (simp add: window_session_def AssetsWindow_def list_directory_def open_child_def go_back_def refresh_folder_def forward_def
        draw_assets_def deref_def enter_def)
qed

lemma forward_after_refresh_witness:
  "window_session (\<lambda>p. Some [FsFile ''a.lua'', FsDir ''src'' []]) [OpenChild ''src'', GoBack, Refresh, GoForward] = fail Dangling"
  by (rule forward_after_refresh[where es = "[FsFile ''a.lua'', FsDir ''src'' []]" and sub = "[]"]) (simp_all add: good_name_def)

end
