(* ===== verification/Spec2Isabelle.thy ===== *)
theory Spec2Isabelle
  imports Texture_Pool Scene_Graph Scene_Manager Events Threads Strings Terrain_Lod Terrain_Builder Batch_2D Vulkan_Images
    Input_State Vulkan_Choices Vulkan_Frames Geometry Shaders Sprites Cameras Meshes
    Entity_Search Vulkan_Passes Vulkan_Descriptors Shadow_Cascades
    Resource_Cache Vulkan_Buffers Mesh_Loader Lua_Scripts Environment_Maps Deferred_Rendering
    Editor_Hierarchy Editor_Actions Assets_Window
begin

text \<open>
  A verification development for the Maple engine, a game engine in C++ on top of Vulkan
  (\<^verbatim>\<open>src/Code/Maple/src\<close>; paths below are relative to it).

  \<^bold>\<open>The program.\<close> \<^verbatim>\<open>Application\<close> owns the parts and runs the main loop: it resets the pressed flags
  of \<^verbatim>\<open>Devices/Input\<close>, lets \<^verbatim>\<open>SceneManager\<close> carry out a pending change of scene, runs the callbacks
  posted for the main thread, updates the systems (scripts), polls the window, whose callbacks post
  events, dispatches the events to their handlers, updates the scenes (camera controllers, the transforms of
  the scene graph, animated sprites, the terrain's level of detail) and draws a frame: an image is
  acquired, the renderers batch sprites and lines into buffers, the command buffer is submitted and
  the image presented. Sprites live in atlases kept by the texture pool; shaders, textures and swap
  chain are made through the Vulkan layer.

  \<^bold>\<open>Conventions.\<close> A class is a record, an enumeration a datatype, a method a function from the state
  before to the state after. Objects shared by pointers (tree nodes, entities, handlers, scenes,
  vertices and quads of the terrain) live in maps or lists indexed by addresses. A computation that may
  throw or break the rules of the language or of an API has the type \<^typ>\<open>'a run\<close> of \<open>Maple_Prelude\<close>:
  \<^term>\<open>None\<close> for one that does not end, a \<^typ>\<open>fault\<close> for one that ends badly. Loops that follow
  pointers are \<^theory_text>\<open>partial_function (option)\<close>; that they end on well-formed states is part of the
  theorems about them. Only the traversal of the scene graph has fuel, and one that is enough is shown to exist. Integers are kept at their width where they can overflow
  (16-bit sizes of sprites, 32-bit indices and strides, the 24-bit stamp of a terrain vertex, flags as words).

  \<^bold>\<open>Theories.\<close>
  \<^item> \<open>Maple_Prelude\<close>: faults, fixed-width conversions, computations that may fail, loops over them.
    \<open>Work_Queue\<close>: the locale \<open>work_queue\<close> of a queue whose elements may add further ones, with the order of service;
    interpreted for the event queue and for the callbacks of the main thread.
  \<^item> \<open>Quad_Tree\<close>, \<open>Quad_Tree_Refine\<close>: the linked four-way tree of \<^verbatim>\<open>Engine/QuadTree.h\<close>; adding, erasing, searching; it
    represents a map (locale \<open>value_store\<close>), and the search for a fitting value is complete as long as nothing was erased (\<open>fit_search\<close>).
  \<^item> \<open>Texture_Atlas\<close>, \<open>Texture_Pool\<close>, \<open>Sprites\<close>: packing of sprites (\<^verbatim>\<open>Engine/TextureAtlas.cpp\<close>), the growing vector of
    atlases with the pointers into it (\<^verbatim>\<open>Engine/TexturePool.cpp\<close>), sprites and animations (\<^verbatim>\<open>Scene/Component/Sprite.cpp\<close>): sprites are
    disjoint and uploaded where their quads say; pointers stay valid until the vector grows; how long a frame of an animation is shown.
  \<^item> \<open>Hierarchy\<close>, \<open>Hierarchy_Forest\<close>, \<open>Entity_Search\<close>, \<open>Scene_Graph\<close>: parent, child and sibling links (\<^verbatim>\<open>Scene/Component/Component.cpp\<close>,
    \<^verbatim>\<open>Scene/Entity/Entity.cpp\<close>) refine a forest of lists of children; searching by name and by path; an update of the scene graph gives every entity
    the world matrix of its chain of parents (\<^verbatim>\<open>Scene/SceneGraph.cpp\<close>, \<^verbatim>\<open>Scene/Component/Transform.cpp\<close>).
  \<^item> \<open>Scene_Manager\<close>: scenes, unique names of entities, change of scene (\<^verbatim>\<open>Scene/Scene.cpp\<close>, \<^verbatim>\<open>Scene/SceneManager.cpp\<close>).
  \<^item> \<open>Events\<close>, \<open>Input_State\<close>: the dispatcher (\<^verbatim>\<open>Event/EventDispatcher.cpp\<close>), whose callbacks may change handlers and post events: order,
    exactly one answer per event, termination; the window's callbacks, the key and button arrays and the frame
    (\<^verbatim>\<open>Window/WindowWin.cpp\<close>, \<^verbatim>\<open>Devices/Input.cpp\<close>, \<^verbatim>\<open>Application.cpp\<close>): what scenes and scripts read of the events
    (locale \<open>latch\<close>, one interpretation per array).
  \<^item> \<open>Threads\<close>: a worker thread as a step relation with its condition variable, the choice of a thread, the queue of the main thread.
  \<^item> \<open>Strings\<close>, \<open>Shaders\<close>: splitting, replacing and paths (\<^verbatim>\<open>Others/StringUtils.cpp\<close>, \<^verbatim>\<open>FileSystem/File.cpp\<close>); shader description files, vertex
    inputs and buffer layouts (\<^verbatim>\<open>Engine/Vulkan/VulkanShader.cpp\<close>, \<^verbatim>\<open>Engine/Interface/BufferLayout.cpp\<close>), both layouts
    through the locale \<open>packing\<close>.
  \<^item> \<open>Terrain_Mesh\<close> (definitions), \<open>Terrain_Build\<close>, \<open>Terrain_Tree\<close>, \<open>Terrain_Forest\<close>, \<open>Terrain_Complete\<close>, \<open>Terrain_Lod\<close>, \<open>Terrain_Builder\<close>: the
    terrain with levels of detail (\<^verbatim>\<open>Terrain/QuadCollapseMesh.cpp\<close>, \<^verbatim>\<open>Terrain/TerrainBuilder.cpp\<close>): building makes the complete tree of quads and the
    forest of vertices; up to the frame whose number no longer fits the stamps of the vertices, every frame draws the triangles of a set of quads that covers each cell once.
  \<^item> \<open>Batch_2D\<close>: sprites and lines of a frame in batches, whose vertices are right while only the last batch keeps its textures (\<^verbatim>\<open>Engine/Renderer/Renderer2D.cpp\<close>, \<^verbatim>\<open>LineRenderer.cpp\<close>).
  \<^item> \<open>Vulkan_Choices\<close>, \<open>Vulkan_Images\<close>, \<open>Vulkan_Frames\<close>: selection of device, families, formats and swap chain; layout transitions and mip maps
    of images; fences, semaphores, command buffers and images over the frames, with the valid-usage rules of Vulkan as conditions of the calls: they hold exactly when the driver hands out the images in turn.
  \<^item> \<open>Vulkan_Passes\<close>, \<open>Vulkan_Descriptors\<close>, \<open>Shadow_Cascades\<close>: attachments, clear values and layouts of render passes (\<^verbatim>\<open>Engine/Vulkan/VulkanRenderPass.cpp\<close>); what an
    update of a descriptor set writes, layouts of pipelines, materials (\<^verbatim>\<open>VulkanDescriptorSet.cpp\<close>, \<^verbatim>\<open>VulkanPipeline.cpp\<close>, \<^verbatim>\<open>Engine/Material.cpp\<close>); the
    slices of the camera's frustum for the shadow maps (\<^verbatim>\<open>Engine/Renderer/ShadowRenderer.cpp\<close>).
  \<^item> \<open>Geometry\<close>, \<open>Cameras\<close>, \<open>Meshes\<close>: bounding boxes and rectangles (locale \<open>hull\<close>), rays, the camera's cached projection and its controller,
    shapes, normals and tangents (\<^verbatim>\<open>Math\<close>, \<^verbatim>\<open>Engine/Camera.cpp\<close>, \<^verbatim>\<open>Engine/CameraController.cpp\<close>, \<^verbatim>\<open>Engine/Mesh.cpp\<close>).
  \<^item> \<open>Resource_Cache\<close>, \<open>Mesh_Loader\<close>: the caches of resources with their keys and factories (\<^verbatim>\<open>Resources/Resources.h\<close> and its users): a name that has given a pointer gives it for ever, and which requests get null;
    from the shapes of a file to meshes, materials and the renderer that finds them (\<^verbatim>\<open>FileSystem/MeshLoader.cpp\<close>, \<^verbatim>\<open>Resources\<close>, \<^verbatim>\<open>Scene/Component/MeshRenderer.cpp\<close>).
  \<^item> \<open>Vulkan_Buffers\<close>, \<open>Environment_Maps\<close>, \<open>Deferred_Rendering\<close>: memory, mapping and resizing of buffers (\<^verbatim>\<open>Engine/Vulkan/VulkanBuffer.cpp\<close>, \<^verbatim>\<open>VulkanVertexBuffer.cpp\<close>,
    \<^verbatim>\<open>VulkanIndexBuffer.cpp\<close>), which refine a buffer of bytes; the maps made from the picture of an environment, every face drawn once, and the copies of the faces, none of which is valid
    (\<^verbatim>\<open>Engine/Renderer/PreProcessRenderer.cpp\<close>); lights, descriptors, frame buffers and resizing of the deferred renderer and the sky (\<^verbatim>\<open>DeferredRenderer.cpp\<close>, \<^verbatim>\<open>SkyboxRenderer.cpp\<close>).
  \<^item> \<open>Lua_Scripts\<close>: loading, starting and updating of scripts and the file of their saved values (\<^verbatim>\<open>Scripts/Lua\<close>); what a script does is a parameter.
  \<^item> \<open>Editor_Hierarchy\<close>, \<open>Editor_Actions\<close>, \<open>Assets_Window\<close>: the editor (\<^verbatim>\<open>src/Code/Editor/src\<close>) as operations on its state, ImGui only reporting what the user does:
    the tree of entities with its pop-up, menu and drops over the growing pool of components (\<^verbatim>\<open>HierarchyWindow.cpp\<close>), picking, moving the camera and the play buttons (\<^verbatim>\<open>Editor.cpp\<close>), the tree of
    files with its navigation (\<^verbatim>\<open>AssetsWindow.cpp\<close>): sessions keep the forest of entities, with one stale pointer when the pool is full, and, without going forward after a refresh, use no destroyed node.

  \<^bold>\<open>Parameters.\<close> Code outside the repository is an argument: the functions of glm (matrix products, projections,
  normalisation), the decoded image of a file, the growth of a vector, \<^verbatim>\<open>std::pow\<close>, deserialisation with cereal,
  what SPIRV-Cross, GLFW and the driver report, callbacks and tasks. The entt registry is modelled by maps from entities to components.
  Arithmetic on floats is exact over an ordered field in \<open>Geometry\<close>, \<open>Cameras\<close>, \<open>Meshes\<close>, \<open>Sprites\<close>, \<open>Shadow_Cascades\<close> and \<open>Editor_Actions\<close>, so rounding is not covered there; elsewhere it is
  a parameter. Calls under a lock are atomic.

  \<^bold>\<open>Not modelled.\<close> How the editor and ImGui draw (immediate-mode user interface) and the windows that only edit fields; Mono scripting and the exports to Lua (calls and
  registrations of their run times); the fixed state of pipelines and the instance of Vulkan (structures handed to the driver); the passes and matrices of the renderers
  of three-dimensional scenes, omnidirectional shadows and the grid; the decoders of images and the parser of meshes (third-party libraries); frustum, noise and
  interpolation (formulas on floats); serialisation, logging and profiling; the libraries under \<^verbatim>\<open>lib\<close>.
  What is left is of this kind; a natural continuation is the frustum over an ordered field and the round trip of serialised scenes.
\<close>

end
